(* ===== verification/Be_Prelude.thy ===== *)
theory Be_Prelude
  imports Main "HOL-Library.Word"
begin

unbundle bit_operations_syntax

text \<open>
  Shared vocabulary of the development: the outcomes of C++ code that does not return normally
  (an exception of the standard library that nothing catches, undefined behaviour, a call of
  \<open>debugger()\<close>, which aborts), the sequencing of such code, the integer conversions the compiler
  inserts, memory seen through a pointer, and the operations of \<open>std::string\<close> and
  \<open>std::vector\<close> that the kits use.
\<close>

section \<open>Outcomes\<close>

datatype fault =
    Out_of_range    \<comment> \<open>\<open>std::out_of_range\<close> leaves the function\<close>
  | Length_error    \<comment> \<open>\<open>std::length_error\<close> leaves the function\<close>
  | Undefined       \<comment> \<open>undefined behaviour: a read or write outside the object, a null dereference\<close>
  | Debugger        \<comment> \<open>\<open>debugger(...)\<close>: kits/kernel/debug.cpp prints the message and aborts\<close>

type_synonym 'a outcome = "fault + 'a"

named_theorems be_simps \<open>equations that evaluate sequenced code and container primitives\<close>
named_theorems conv \<open>integer conversions that do not change the value\<close>

fun bindR :: "'e + 'a \<Rightarrow> ('a \<Rightarrow> 'e + 'b) \<Rightarrow> 'e + 'b" where
  "bindR (Inl e) f = Inl e"
| "bindR (Inr a) f = f a"

lemma bindR_Inr_iff [be_simps]:
  "bindR m f = Inr b \<longleftrightarrow> (\<exists>a. m = Inr a \<and> f a = Inr b)"
  by (cases m) auto

lemma bindR_Inl_iff [be_simps]:
  "bindR m f = Inl e \<longleftrightarrow> m = Inl e \<or> (\<exists>a. m = Inr a \<and> f a = Inl e)"
  by (cases m) auto

lemma bindR_cong [fundef_cong]:
  "m = m' \<Longrightarrow> (\<And>a. m' = Inr a \<Longrightarrow> f a = g a) \<Longrightarrow> bindR m f = bindR m' g"
  by (cases m') simp_all

lemma bindR_assoc: "bindR (bindR m f) g = bindR m (\<lambda>a. bindR (f a) g)"
  by (cases m) simp_all

lemma bindR_return [simp]: "bindR m Inr = m"
  by (cases m) simp_all

text \<open>
  Code with a loop or a recursion that may not end: \<open>None\<close> when it does not.
\<close>

type_synonym 'a partial = "'a outcome option"

definition bindO :: "'a partial \<Rightarrow> ('a \<Rightarrow> 'b partial) \<Rightarrow> 'b partial" where
  "bindO m f = Option.bind m (\<lambda>r. case r of Inl e \<Rightarrow> Some (Inl e) | Inr a \<Rightarrow> f a)"

lemma bindO_simps [simp]:
  "bindO None f = None" "bindO (Some (Inl e)) f = Some (Inl e)" "bindO (Some (Inr a)) f = f a"
  by (simp_all add: bindO_def)

lemma bindO_Some_Inr [be_simps]: "bindO m f = Some (Inr b) \<longleftrightarrow> (\<exists>a. m = Some (Inr a) \<and> f a = Some (Inr b))"
proof (cases m)
  case (Some r)
  then show ?thesis by (cases r) simp_all
qed simp

lemma bindO_mono [partial_function_mono]:
  assumes "mono_option B" "\<And>y. mono_option (\<lambda>f. C y f)"
  shows "mono_option (\<lambda>f. bindO (B f) (\<lambda>y. C y f))"
  unfolding bindO_def
proof (rule bind_mono [OF assms(1)])
  fix r show "mono_option (\<lambda>f. case r of Inl e \<Rightarrow> Some (Inl e) | Inr a \<Rightarrow> C a f)"
    by (cases r) (simp_all add: assms(2) partial_function_mono)
qed

section \<open>Integers\<close>

text \<open>
  Values of the signed types are HOL integers; a conversion to a narrower or unsigned type is
  written out. \<open>int32\<close> and \<open>uint32\<close> keep 32 bits, \<open>size_t\<close> is the
  conversion of a signed value to the 64-bit unsigned type that sizes and positions have.
\<close>

definition int32 :: "int \<Rightarrow> int" where
  "int32 n = signed_take_bit 31 n"

definition uint32 :: "int \<Rightarrow> nat" where
  "uint32 n = nat (take_bit 32 n)"

definition size_t :: "int \<Rightarrow> nat" where
  "size_t n = nat (take_bit 64 n)"

lemma int32_id [conv]: "- (2 ^ 31) \<le> n \<Longrightarrow> n < 2 ^ 31 \<Longrightarrow> int32 n = n"
  unfolding int32_def by (rule signed_take_bit_int_eq_self) auto

lemma int32_of_nat [conv]: "n < 2 ^ 31 \<Longrightarrow> int32 (int n) = int n"
  by (rule int32_id) (simp_all add: of_nat_less_numeral_power_cancel_iff [symmetric])

lemma int32_bounds: "- (2 ^ 31) \<le> int32 n \<and> int32 n < 2 ^ 31"
  using signed_take_bit_int_greater_eq_minus_exp [of 31 n] signed_take_bit_int_less_exp [of 31 n]
  by (simp add: int32_def)

lemma uint32_of_nat [conv]: "n < 2 ^ 32 \<Longrightarrow> uint32 (int n) = n"
  by (simp add: uint32_def take_bit_int_eq_self)

lemma size_t_nonneg [conv]: "0 \<le> n \<Longrightarrow> n < 2 ^ 64 \<Longrightarrow> size_t n = nat n"
  by (simp add: size_t_def take_bit_int_eq_self)

lemma size_t_of_nat [conv]: "n < 2 ^ 64 \<Longrightarrow> size_t (int n) = n"
  by (simp add: size_t_def take_bit_int_eq_self)

lemma conversions_0 [simp]: "int32 0 = 0" "uint32 0 = 0" "size_t 0 = 0"
  by (simp_all add: int32_def uint32_def size_t_def)

lemma size_t_neg: "n < 0 \<Longrightarrow> - (2 ^ 63) \<le> n \<Longrightarrow> 2 ^ 63 \<le> size_t n"
proof -
  assume n: "n < 0" "- (2 ^ 63) \<le> n"
  have "take_bit 64 n = n mod 2 ^ 64" by (simp add: take_bit_eq_mod)
  also have "\<dots> = (n + 2 ^ 64) mod 2 ^ 64" by simp
  also have "\<dots> = n + 2 ^ 64" using n by (intro mod_pos_pos_trivial) auto
  finally show ?thesis using n by (simp add: size_t_def)
qed

section \<open>Memory behind a pointer\<close>

text \<open>
  A pointer to bytes is modelled by what can be read from it: the bytes from its target to the end
  of the object it points into. \<open>None\<close> is the null pointer. A string that ends before its
  terminating zero is a \<open>mem\<close> without a zero, and reading past it is undefined.
\<close>

type_synonym byte = "8 word"
type_synonym mem = "byte list"

definition c_str :: "byte list \<Rightarrow> mem" where
  "c_str s = s @ [0]"

definition nonzero :: "byte \<Rightarrow> bool" where
  "nonzero b \<longleftrightarrow> b \<noteq> 0"

definition cstring :: "mem \<Rightarrow> byte list" where
  "cstring m = takeWhile nonzero m"

definition read_cstring :: "mem \<Rightarrow> byte list outcome" where
  "read_cstring m = (if 0 \<in> set m then Inr (cstring m) else Inl Undefined)"

definition read_bytes :: "mem \<Rightarrow> nat \<Rightarrow> byte list outcome" where
  "read_bytes m n = (if n \<le> length m then Inr (take n m) else Inl Undefined)"

definition advance :: "mem \<Rightarrow> int \<Rightarrow> mem outcome" where
  "advance m k = (if 0 \<le> k \<and> k \<le> int (length m) then Inr (drop (nat k) m) else Inl Undefined)"

definition strnlen :: "mem \<Rightarrow> nat \<Rightarrow> nat outcome" where
  "strnlen m k = (if k \<le> length m \<or> 0 \<in> set m then Inr (length (cstring (take k m)))
                  else Inl Undefined)"

lemma cstring_no_zero [simp]: "0 \<notin> set (cstring m)"
  by (auto simp: cstring_def nonzero_def dest: set_takeWhileD)

lemma cstring_id [simp]: "0 \<notin> set m \<Longrightarrow> cstring m = m"
  by (auto simp: cstring_def nonzero_def takeWhile_eq_all_conv)

lemma cstring_append_zero [simp]: "0 \<notin> set s \<Longrightarrow> cstring (s @ 0 # r) = s"
  by (auto simp: cstring_def nonzero_def takeWhile_append)

lemma cstring_zero_in [simp]: "0 \<in> set s \<Longrightarrow> cstring (s @ r) = cstring s"
  by (auto simp: cstring_def nonzero_def intro: takeWhile_append1)

lemma cstring_c_str [simp]: "cstring (c_str s) = cstring s"
  by (cases "0 \<in> set s") (simp_all add: c_str_def)

lemma zero_in_c_str [simp]: "0 \<in> set (c_str s)"
  by (simp add: c_str_def)

lemma length_c_str [simp]: "length (c_str s) = Suc (length s)"
  by (simp add: c_str_def)

lemma length_cstring_le: "length (cstring m) \<le> length m"
  by (simp add: cstring_def length_takeWhile_le)

lemma cstring_is_take: "cstring m = take (length (cstring m)) m"
  by (metis cstring_def takeWhile_eq_take)

lemma read_cstring_c_str [be_simps]: "read_cstring (c_str s) = Inr (cstring s)"
  by (simp add: read_cstring_def)

lemma read_cstring_no_fault: "0 \<in> set m \<Longrightarrow> read_cstring m = Inr (cstring m)"
  by (simp add: read_cstring_def)

lemma strnlen_c_str [be_simps]: "strnlen (c_str s) k = Inr (length (cstring (take k s)))"
proof (cases "k \<le> length s")
  case True
  then show ?thesis by (simp add: strnlen_def c_str_def)
next
  case False
  then have "take k (c_str s) = c_str s" and "take k s = s" by simp_all
  then show ?thesis by (simp add: strnlen_def)
qed

section \<open>Operations of \<open>std::string\<close> and \<open>std::vector\<close>\<close>

text \<open>
  A position above the size raises \<open>std::out_of_range\<close>, a size above the maximum raises
  \<open>std::length_error\<close>. The kits pass \<open>int32\<close> values as sizes: a negative one becomes
  a value of at least \<open>2^63\<close>, above any maximum size. \<open>max_size\<close> is that of the
  library's strings; every value between the \<open>int32\<close> range and \<open>2^63\<close> gives the same
  behaviour here.
\<close>

definition max_size :: nat where
  "max_size = 2 ^ 62"

definition std_insert :: "'a list \<Rightarrow> nat \<Rightarrow> 'a list \<Rightarrow> 'a list outcome" where
  "std_insert xs pos ys =
     (if length xs < pos then Inl Out_of_range else Inr (take pos xs @ ys @ drop pos xs))"

definition std_erase :: "'a list \<Rightarrow> nat \<Rightarrow> nat \<Rightarrow> 'a list outcome" where
  "std_erase xs pos n =
     (if length xs < pos then Inl Out_of_range else Inr (take pos xs @ drop (pos + n) xs))"

definition std_read :: "mem \<Rightarrow> nat \<Rightarrow> byte list outcome" where
  "std_read m n = (if max_size < n then Inl Length_error else read_bytes m n)"

definition std_fill :: "nat \<Rightarrow> 'a \<Rightarrow> 'a list outcome" where
  "std_fill n x = (if max_size < n then Inl Length_error else Inr (replicate n x))"

fun find_index :: "('a \<Rightarrow> bool) \<Rightarrow> 'a list \<Rightarrow> nat" where
  "find_index P [] = 0"
| "find_index P (x # xs) = (if P x then 0 else Suc (find_index P xs))"

lemma find_index_le: "find_index P xs \<le> length xs"
  by (induction xs) auto

lemma find_index_less_iff [simp]: "find_index P xs < length xs \<longleftrightarrow> (\<exists>x\<in>set xs. P x)"
  by (induction xs) auto

lemma find_index_eq_iff: "find_index P xs = length xs \<longleftrightarrow> (\<forall>x\<in>set xs. \<not> P x)"
  by (induction xs) auto

lemma find_index_nth: "find_index P xs < length xs \<Longrightarrow> P (xs ! find_index P xs)"
  by (induction xs) auto

lemma find_index_first: "j < find_index P xs \<Longrightarrow> \<not> P (xs ! j)"
  by (induction xs arbitrary: j) (auto simp: less_Suc_eq_0_disj split: if_splits)

lemma find_index_append [simp]:
  "find_index P (xs @ ys) =
     (if \<exists>x\<in>set xs. P x then find_index P xs else length xs + find_index P ys)"
  by (induction xs) auto

lemma std_insert_ok [be_simps]:
  "pos \<le> length xs \<Longrightarrow> std_insert xs pos ys = Inr (take pos xs @ ys @ drop pos xs)"
  by (simp add: std_insert_def)

lemma std_erase_ok [be_simps]:
  "pos \<le> length xs \<Longrightarrow> std_erase xs pos n = Inr (take pos xs @ drop (pos + n) xs)"
  by (simp add: std_erase_def)

lemma std_erase_insert:
  "pos \<le> length xs \<Longrightarrow> std_erase (take pos xs @ ys @ drop pos xs) pos (length ys) = Inr xs"
  by (simp add: std_erase_def min_absorb2)

section \<open>Reference parameters\<close>

text \<open>
  A reference or pointer parameter of the class the operation belongs to: it may be the object
  itself, whose value changes under it while the operation runs.
\<close>

datatype 'a arg = Same | Other 'a

fun deref :: "'a \<Rightarrow> 'a arg \<Rightarrow> 'a" where
  "deref this Same = this"
| "deref this (Other x) = x"

section \<open>Status codes\<close>

text \<open>
  The codes of \<open>headers/support/Errors.h\<close> that the modelled code returns. The codes with
  a POSIX name are the negated \<open>errno\<close> values of Linux.
\<close>

type_synonym status = int

definition B_GENERAL_ERROR_BASE :: status where "B_GENERAL_ERROR_BASE = - (2 ^ 31)"
definition B_OS_ERROR_BASE :: status where "B_OS_ERROR_BASE = B_GENERAL_ERROR_BASE + 0x1000"
definition B_APP_ERROR_BASE :: status where "B_APP_ERROR_BASE = B_GENERAL_ERROR_BASE + 0x2000"

definition B_OK :: status where "B_OK = 0"
definition B_ERROR :: status where "B_ERROR = - 1"
definition B_NO_MEMORY :: status where "B_NO_MEMORY = B_GENERAL_ERROR_BASE"
definition B_BAD_INDEX :: status where "B_BAD_INDEX = B_GENERAL_ERROR_BASE + 1"
definition B_BAD_TYPE :: status where "B_BAD_TYPE = B_GENERAL_ERROR_BASE + 2"
definition B_MISMATCHED_VALUES :: status where "B_MISMATCHED_VALUES = B_GENERAL_ERROR_BASE + 3"
definition B_NAME_NOT_FOUND :: status where "B_NAME_NOT_FOUND = B_GENERAL_ERROR_BASE + 4"
definition B_NO_INIT :: status where "B_NO_INIT = B_GENERAL_ERROR_BASE + 7"
definition B_BAD_PORT_ID :: status where "B_BAD_PORT_ID = B_OS_ERROR_BASE + 0x200"
definition B_BAD_REPLY :: status where "B_BAD_REPLY = B_APP_ERROR_BASE"

definition B_NOT_ALLOWED :: status where "B_NOT_ALLOWED = - 1"
definition B_ENTRY_NOT_FOUND :: status where "B_ENTRY_NOT_FOUND = - 2"
definition B_INTERRUPTED :: status where "B_INTERRUPTED = - 4"
definition B_WOULD_BLOCK :: status where "B_WOULD_BLOCK = - 11"
definition B_BAD_VALUE :: status where "B_BAD_VALUE = - 22"
definition B_NAME_TOO_LONG :: status where "B_NAME_TOO_LONG = - 36"
definition B_NOT_SUPPORTED :: status where "B_NOT_SUPPORTED = - 95"
definition B_TIMED_OUT :: status where "B_TIMED_OUT = - 110"

lemmas base_defs = B_GENERAL_ERROR_BASE_def B_OS_ERROR_BASE_def B_APP_ERROR_BASE_def

lemmas status_defs =
  B_OK_def B_ERROR_def B_NO_MEMORY_def B_BAD_INDEX_def B_BAD_TYPE_def B_MISMATCHED_VALUES_def
  B_NAME_NOT_FOUND_def B_NO_INIT_def B_BAD_PORT_ID_def B_BAD_REPLY_def B_NOT_ALLOWED_def
  B_ENTRY_NOT_FOUND_def B_INTERRUPTED_def B_WOULD_BLOCK_def B_BAD_VALUE_def B_NAME_TOO_LONG_def
  B_NOT_SUPPORTED_def B_TIMED_OUT_def base_defs

text \<open>
  Object addresses: \<open>ptr\<close> is an address used as an identity, with \<open>0\<close> for the null
  pointer, for the objects that the kits keep in containers and compare by address.
\<close>

type_synonym ptr = nat

abbreviation (input) null :: ptr where "null \<equiv> 0"

end
