(* ===== verification/Utf8.thy ===== *)
theory Utf8
  imports Be_Prelude
begin

text \<open>
  The UTF-8 helpers of \<open>kits/support/utf8_functions.h\<close>, on which the character-based operations
  of \<open>BString\<close> rest: the length of the next and of the previous character, the number of bytes in
  a number of characters and of characters in a number of bytes, and the decoder. Every function
  reads memory byte by byte as the code does, so a read past the object is \<open>Undefined\<close>. The
  theory then defines the encoding of a code point and relates the helpers to it: the decoder
  inverts the encoding, and the two counting functions agree with the list of encoded characters.
\<close>

section \<open>The functions of the header\<close>

definition IsInsideGlyph :: "byte \<Rightarrow> bool" where
  "IsInsideGlyph ch \<longleftrightarrow> ch AND 0xc0 = 0x80"

fun skip_glyph :: "mem \<Rightarrow> nat \<Rightarrow> nat outcome" where
  "skip_glyph [] n = Inl Undefined"
| "skip_glyph (b # bs) n = (if IsInsideGlyph b then skip_glyph bs (Suc n) else Inr n)"

definition UTF8NextCharLenUnsafe :: "mem \<Rightarrow> nat outcome" where
  "UTF8NextCharLenUnsafe text = (case text of [] \<Rightarrow> Inl Undefined | b # bs \<Rightarrow> skip_glyph bs 1)"

definition UTF8NextCharLen :: "mem option \<Rightarrow> nat outcome" where
  "UTF8NextCharLen text =
     (case text of
        None \<Rightarrow> Inr 0
      | Some [] \<Rightarrow> Inl Undefined
      | Some (b # bs) \<Rightarrow> if b = 0 then Inr 0 else UTF8NextCharLenUnsafe (b # bs))"

text \<open>The loop over the mask: \<open>None\<close> is the early return for a seven-byte lead.\<close>

function expected_bytes :: "byte \<Rightarrow> byte \<Rightarrow> nat \<Rightarrow> nat option" where
  "expected_bytes b m n =
     (if b AND m \<noteq> 0 then if m = 0x02 then None else expected_bytes b (drop_bit 1 m) (Suc n)
      else Some n)"
  by pat_completeness auto

lemma unat_half_less: "(m :: 'a::len word) \<noteq> 0 \<Longrightarrow> unat (drop_bit (Suc 0) m) < unat m"
proof -
  assume "m \<noteq> 0"
  then have "0 < unat m" by (simp add: unat_gt_0)
  moreover have "unat (drop_bit (Suc 0) m) = unat m div 2"
    by (simp only: unat_drop_bit_eq) (simp add: drop_bit_Suc)
  ultimately show ?thesis by simp
qed

termination expected_bytes
  by (relation "measure (\<lambda>(b, m, n). unat m)") (auto intro!: unat_half_less)

declare expected_bytes.simps [simp del]

fun all_inside :: "mem \<Rightarrow> nat \<Rightarrow> bool outcome" where
  "all_inside bs 0 = Inr True"
| "all_inside [] (Suc n) = Inl Undefined"
| "all_inside (b # bs) (Suc n) = (if IsInsideGlyph b then all_inside bs n else Inr False)"

definition UTF8NextCharLen_bounded :: "mem option \<Rightarrow> nat \<Rightarrow> nat outcome" where
  "UTF8NextCharLen_bounded bytes len =
     (case bytes of
        None \<Rightarrow> Inr 0
      | Some bs \<Rightarrow>
          if len = 0 then Inr 0
          else (case bs of
             [] \<Rightarrow> Inl Undefined
           | b # rest \<Rightarrow>
               if b = 0 then Inr 0
               else if b AND 0x80 = 0 then Inr 1
               else if IsInsideGlyph b then Inr 0
               else (case expected_bytes b 0x20 2 of
                  None \<Rightarrow> Inr 0
                | Some n \<Rightarrow>
                    if len < n then Inr 0
                    else bindR (all_inside rest (n - 1)) (\<lambda>ok. Inr (if ok then n else 0)))))"

fun previous_loop :: "mem \<Rightarrow> nat \<Rightarrow> nat \<Rightarrow> nat outcome" where
  "previous_loop m limit p =
     (if p = limit then Inr p
      else (case p of
         0 \<Rightarrow> Inl Undefined
       | Suc q \<Rightarrow> if length m \<le> q then Inl Undefined
                  else if IsInsideGlyph (m ! q) then previous_loop m limit q else Inr q))"

text \<open>\<open>text\<close> and \<open>limit\<close> are positions in the same buffer.\<close>

definition UTF8PreviousCharLen :: "mem \<Rightarrow> nat option \<Rightarrow> nat option \<Rightarrow> nat outcome" where
  "UTF8PreviousCharLen m ptr limit =
     (case (ptr, limit) of
        (Some p, Some l) \<Rightarrow> bindR (previous_loop m l p) (\<lambda>q. Inr (p - q))
      | _ \<Rightarrow> Inr 0)"

definition INT_MAX :: int where "INT_MAX = 2 ^ 31 - 1"

fun count_bytes_loop :: "mem \<Rightarrow> int \<Rightarrow> nat \<Rightarrow> nat outcome" where
  "count_bytes_loop [] k n = Inl Undefined"
| "count_bytes_loop (b # bs) k n =
     (if b = 0 then Inr n
      else if b AND 0xc0 \<noteq> 0x80
      then if k - 1 < 0 then Inr n else count_bytes_loop bs (k - 1) (Suc n)
      else count_bytes_loop bs k (Suc n))"

definition UTF8CountBytes :: "mem option \<Rightarrow> int \<Rightarrow> nat outcome" where
  "UTF8CountBytes bytes numChars =
     (case bytes of
        None \<Rightarrow> Inr 0
      | Some bs \<Rightarrow> bindR (count_bytes_loop bs (if numChars < 0 then INT_MAX else numChars) 0)
                    (\<lambda>n. Inr (uint32 (int n))))"

fun count_chars_all :: "mem \<Rightarrow> nat \<Rightarrow> nat outcome" where
  "count_chars_all [] n = Inl Undefined"
| "count_chars_all (b # bs) n =
     (if b = 0 then Inr n else count_chars_all bs (if b AND 0xc0 \<noteq> 0x80 then Suc n else n))"

text \<open>The byte at the current position is read before the position is compared with the last one.\<close>

fun count_chars_upto :: "mem \<Rightarrow> nat \<Rightarrow> nat \<Rightarrow> nat outcome" where
  "count_chars_upto [] k n = Inl Undefined"
| "count_chars_upto (b # bs) k n =
     (if b = 0 then Inr n
      else case k of
         0 \<Rightarrow> Inr n
       | Suc k' \<Rightarrow> count_chars_upto bs k' (if b AND 0xc0 \<noteq> 0x80 then Suc n else n))"

definition UTF8CountChars :: "mem option \<Rightarrow> int \<Rightarrow> nat outcome" where
  "UTF8CountChars bytes numBytes =
     (case bytes of
        None \<Rightarrow> Inr 0
      | Some bs \<Rightarrow> bindR (if numBytes < 0 then count_chars_all bs 0
                           else count_chars_upto bs (nat numBytes) 0)
                    (\<lambda>n. Inr (uint32 (int n))))"

definition UTF8_SUBSTITUTE_CHARACTER :: "32 word" where
  "UTF8_SUBSTITUTE_CHARACTER = 0xfffd"

function lead_bits :: "32 word \<Rightarrow> byte \<Rightarrow> (32 word \<times> byte) option" where
  "lead_bits r m =
     (if r AND ucast m \<noteq> 0
      then if m = 0x02 then None else lead_bits (r AND NOT (ucast m)) (drop_bit 1 m)
      else Some (r, m))"
  by pat_completeness auto

termination lead_bits
  by (relation "measure (\<lambda>(r, m). unat m)") (auto intro!: unat_half_less)

declare lead_bits.simps [simp del]

fun continuation :: "32 word \<Rightarrow> byte \<Rightarrow> mem \<Rightarrow> (32 word \<times> mem) outcome" where
  "continuation r m [] = Inl Undefined"
| "continuation r m (b # bs) =
     (if b AND 0xc0 = 0x80
      then let r' = push_bit 6 r + (ucast b AND 0x3f); m' = push_bit 1 m
           in if m' = 0x40 then Inr (r', bs) else continuation r' m' bs
      else if m = 0x40 then Inr (r, b # bs)
      else if b = 0 then Inr (0, b # bs)
      else Inr (UTF8_SUBSTITUTE_CHARACTER, b # bs))"

definition UTF8ToCharCode :: "mem \<Rightarrow> (32 word \<times> mem) outcome" where
  "UTF8ToCharCode bytes =
     (case bytes of
        [] \<Rightarrow> Inl Undefined
      | b # bs \<Rightarrow>
          if b AND 0x80 = 0 then Inr (if b \<noteq> 0 then (ucast b, bs) else (ucast b, b # bs))
          else if b AND 0xc0 = 0x80 then Inr (UTF8_SUBSTITUTE_CHARACTER, bs)
          else (case lead_bits (ucast b AND 0xff) 0x80 of
                  None \<Rightarrow> Inr (UTF8_SUBSTITUTE_CHARACTER, bs)
                | Some (r, m) \<Rightarrow> continuation r m bs))"

section \<open>The encoding the functions are about\<close>

definition cont_byte :: "32 word \<Rightarrow> byte" where
  "cont_byte x = 0x80 OR ucast (take_bit 6 x)"

definition utf8_encode :: "32 word \<Rightarrow> byte list" where
  "utf8_encode c =
     (if c < 0x80 then [ucast c]
      else if c < 0x800 then [0xc0 OR ucast (drop_bit 6 c), cont_byte c]
      else if c < 0x10000
      then [0xe0 OR ucast (drop_bit 12 c), cont_byte (drop_bit 6 c), cont_byte c]
      else [0xf0 OR ucast (drop_bit 18 c), cont_byte (drop_bit 12 c), cont_byte (drop_bit 6 c),
            cont_byte c])"

definition glyph_starts :: "byte list \<Rightarrow> nat" where
  "glyph_starts bs = length (filter (\<lambda>b. \<not> IsInsideGlyph b) bs)"

definition utf8_string :: "32 word list \<Rightarrow> byte list" where
  "utf8_string cs = concat (map utf8_encode cs)"

text \<open>The code points the encoding covers, without the terminating zero.\<close>

definition code_point :: "32 word \<Rightarrow> bool" where
  "code_point c \<longleftrightarrow> 0 < c \<and> c < 0x200000"

section \<open>Lead and continuation bytes\<close>

lemma bit_128 [simp]: "bit (128 :: int) n \<longleftrightarrow> n = 7"
proof -
  have "bit (128 :: int) n \<longleftrightarrow> bit (push_bit 7 (1 :: int)) n" by simp
  also have "\<dots> \<longleftrightarrow> n = 7" by (auto simp only: bit_push_bit_iff_int bit_1_iff)
  finally show ?thesis .
qed

lemma byte_masks: "(0xc0 :: byte) = NOT (mask 6)" "(0x3f :: 32 word) = mask 6"
  by (simp_all add: mask_eq_exp_minus_1)

lemma IsInsideGlyph_cont_byte [simp]: "IsInsideGlyph (cont_byte x)"
  unfolding IsInsideGlyph_def cont_byte_def byte_masks
  by (rule bit_word_eqI) (auto simp: bit_simps)

lemma IsInsideGlyph_iff: "b AND 0xc0 = 0x80 \<longleftrightarrow> IsInsideGlyph b"
  by (simp add: IsInsideGlyph_def)

lemma IsInsideGlyph_nonzero: "IsInsideGlyph b \<Longrightarrow> b \<noteq> 0"
  by (auto simp: IsInsideGlyph_def)

lemma cont_byte_nonzero [simp]: "cont_byte x \<noteq> 0"
  by (rule IsInsideGlyph_nonzero) simp

lemma cont_byte_payload [simp]: "(ucast (cont_byte x) :: 32 word) AND 0x3f = take_bit 6 x"
  unfolding cont_byte_def byte_masks
  by (rule bit_word_eqI) (auto simp: bit_simps)

lemma lead_class: "(0xc0 OR b :: byte) AND 0x80 = 0x80" "(0xc0 OR b :: byte) AND 0xc0 = 0xc0"
  unfolding byte_masks
  by (rule bit_word_eqI, auto simp: bit_simps)+

lemma lead_split: "(0xe0 OR b :: byte) = 0xc0 OR (0x20 OR b)" "(0xf0 OR b :: byte) = 0xc0 OR (0x30 OR b)"
  by (simp_all flip: or.assoc)

lemma lead_facts [simp]:
  "(0xc0 OR b :: byte) AND 0x80 \<noteq> 0" "\<not> IsInsideGlyph (0xc0 OR b)" "(0xc0 OR b :: byte) \<noteq> 0"
  "(0xe0 OR b :: byte) AND 0x80 \<noteq> 0" "\<not> IsInsideGlyph (0xe0 OR b)" "(0xe0 OR b :: byte) \<noteq> 0"
  "(0xf0 OR b :: byte) AND 0x80 \<noteq> 0" "\<not> IsInsideGlyph (0xf0 OR b)" "(0xf0 OR b :: byte) \<noteq> 0"
proof -
  have nz: "(0xc0 OR x :: byte) \<noteq> 0" for x using lead_class(1) [of x] by auto
  show "(0xc0 OR b :: byte) \<noteq> 0" by (rule nz)
  show "(0xe0 OR b :: byte) \<noteq> 0" "(0xf0 OR b :: byte) \<noteq> 0" by (simp_all only: lead_split nz not_False_eq_True)
qed (simp_all only: lead_split lead_class IsInsideGlyph_def, auto)

lemma word_small:
  fixes x :: "32 word"
  assumes "x < word_of_nat n" "n < 2 ^ 32"
  obtains k where "k < n" "x = word_of_nat k"
proof
  show "unat x < n" using assms by (simp add: word_less_nat_alt unsigned_of_nat take_bit_nat_eq_self)
  show "x = word_of_nat (unat x)" by simp
qed

lemma lead2_all: "\<forall>k<32. lead_bits (ucast (0xc0 OR word_of_nat k :: byte) AND 0xff) 0x80
                         = Some (word_of_nat k, 0x20)"
  by code_simp

lemma lead3_all: "\<forall>k<16. lead_bits (ucast (0xe0 OR word_of_nat k :: byte) AND 0xff) 0x80
                         = Some (word_of_nat k, 0x10)"
  by code_simp

lemma lead4_all: "\<forall>k<8. lead_bits (ucast (0xf0 OR word_of_nat k :: byte) AND 0xff) 0x80
                        = Some (word_of_nat k, 0x08)"
  by code_simp

lemma ucast_small: "k < 2 ^ 32 \<Longrightarrow> (ucast (word_of_nat k :: 32 word) :: byte) = word_of_nat k"
  by (simp add: unsigned_of_nat take_bit_nat_eq_self)

lemma lead_bits_lead:
  "x < 32 \<Longrightarrow> lead_bits (ucast (0xc0 OR ucast x :: byte) AND 0xff) 0x80 = Some (x, 0x20)"
  "x < 16 \<Longrightarrow> lead_bits (ucast (0xe0 OR ucast x :: byte) AND 0xff) 0x80 = Some (x, 0x10)"
  "x < 8 \<Longrightarrow> lead_bits (ucast (0xf0 OR ucast x :: byte) AND 0xff) 0x80 = Some (x, 0x08)"
proof -
  show "x < 32 \<Longrightarrow> lead_bits (ucast (0xc0 OR ucast x :: byte) AND 0xff) 0x80 = Some (x, 0x20)"
    using lead2_all by (rule_tac n = 32 and x = x in word_small) (auto simp: ucast_small)
  show "x < 16 \<Longrightarrow> lead_bits (ucast (0xe0 OR ucast x :: byte) AND 0xff) 0x80 = Some (x, 0x10)"
    using lead3_all by (rule_tac n = 16 and x = x in word_small) (auto simp: ucast_small)
  show "x < 8 \<Longrightarrow> lead_bits (ucast (0xf0 OR ucast x :: byte) AND 0xff) 0x80 = Some (x, 0x08)"
    using lead4_all by (rule_tac n = 8 and x = x in word_small) (auto simp: ucast_small)
qed

lemma drop_bit_bound:
  "c < 0x800 \<Longrightarrow> drop_bit 6 (c :: 32 word) < 32"
  "c < 0x10000 \<Longrightarrow> drop_bit 12 (c :: 32 word) < 16"
  "c < 0x200000 \<Longrightarrow> drop_bit 18 (c :: 32 word) < 8"
  by (simp_all only: word_less_nat_alt unat_drop_bit_eq) (auto simp: drop_bit_eq_div)

section \<open>The decoder inverts the encoding\<close>

lemma continuation_cont [simp]:
  "continuation r m (cont_byte x # bs) =
     (if push_bit 1 m = 0x40 then Inr (push_bit 6 r + take_bit 6 x, bs)
      else continuation (push_bit 6 r + take_bit 6 x) (push_bit 1 m) bs)"
  by (simp add: IsInsideGlyph_iff Let_def)

lemma rejoin [simp]:
  "push_bit 6 (drop_bit 6 c) + take_bit 6 c = (c :: 32 word)"
  "push_bit 6 (drop_bit 12 c) + take_bit 6 (drop_bit 6 c) = drop_bit 6 (c :: 32 word)"
  "push_bit 6 (drop_bit 18 c) + take_bit 6 (drop_bit 12 c) = drop_bit 12 (c :: 32 word)"
  using bits_ident [of 6 "c"] bits_ident [of 6 "drop_bit 6 c"] bits_ident [of 6 "drop_bit 12 c"]
  by simp_all

lemma IsInsideGlyph_high: "IsInsideGlyph x \<Longrightarrow> x AND 0x80 = 0x80"
proof -
  assume "IsInsideGlyph x"
  then have "(x AND 0xc0) AND 0x80 = 0x80" by (simp add: IsInsideGlyph_def)
  then show ?thesis by (simp add: and.assoc)
qed

lemma ascii_facts:
  assumes "0 < (c :: 32 word)" "c < 0x80"
  shows "(ucast c :: byte) AND 0x80 = 0" "(ucast c :: byte) \<noteq> 0" "ucast (ucast c :: byte) = c"
    "\<not> IsInsideGlyph (ucast c)"
proof -
  have lt: "c = take_bit 7 c"
  proof (rule word_unat_eq_iff [THEN iffD2])
    show "unat c = unat (take_bit 7 c)"
      using assms(2) by (simp add: unsigned_take_bit_eq take_bit_nat_eq_self word_less_nat_alt)
  qed
  show uc: "ucast (ucast c :: byte) = c"
    by (subst lt, subst lt) (rule bit_word_eqI, auto simp: bit_simps)
  then show "(ucast c :: byte) \<noteq> 0" using assms(1) by (metis unsigned_0 word_less_def less_irrefl)
  show z: "(ucast c :: byte) AND 0x80 = 0"
    by (subst lt) (rule bit_word_eqI, auto simp: bit_simps)
  then show "\<not> IsInsideGlyph (ucast c)" by (auto dest: IsInsideGlyph_high)
qed

section \<open>Encoded strings\<close>

lemma utf8_encode_shape:
  assumes "code_point c"
  obtains b bs where "utf8_encode c = b # bs" "\<not> IsInsideGlyph b" "b \<noteq> 0"
    "\<forall>x\<in>set bs. IsInsideGlyph x"
proof -
  have "\<exists>b bs. utf8_encode c = b # bs \<and> \<not> IsInsideGlyph b \<and> b \<noteq> 0 \<and> (\<forall>x\<in>set bs. IsInsideGlyph x)"
    using assms by (simp add: utf8_encode_def code_point_def ascii_facts)
  then show ?thesis using that by blast
qed

lemma utf8_encode_length: "length (utf8_encode c) \<in> {1, 2, 3, 4}"
  by (simp add: utf8_encode_def)

lemma utf8_encode_no_zero: "code_point c \<Longrightarrow> 0 \<notin> set (utf8_encode c)"
  by (erule utf8_encode_shape) (use IsInsideGlyph_nonzero in auto)

lemma utf8_string_simps [simp]:
  "utf8_string [] = []" "utf8_string (c # cs) = utf8_encode c @ utf8_string cs"
  by (simp_all add: utf8_string_def)

lemma utf8_string_no_zero: "list_all code_point cs \<Longrightarrow> 0 \<notin> set (utf8_string cs)"
  by (induction cs) (auto dest: utf8_encode_no_zero)

lemma glyph_starts_simps [simp]:
  "glyph_starts [] = 0"
  "glyph_starts (b # bs) = (if IsInsideGlyph b then glyph_starts bs else Suc (glyph_starts bs))"
  "glyph_starts (xs @ ys) = glyph_starts xs + glyph_starts ys"
  by (simp_all add: glyph_starts_def)

lemma glyph_starts_inside: "\<forall>x\<in>set bs. IsInsideGlyph x \<Longrightarrow> glyph_starts bs = 0"
  by (simp add: glyph_starts_def filter_empty_conv)

lemma glyph_starts_le: "glyph_starts bs \<le> length bs"
  by (simp add: glyph_starts_def)

lemma glyph_starts_encode: "code_point c \<Longrightarrow> glyph_starts (utf8_encode c) = 1"
  by (erule utf8_encode_shape) (simp add: glyph_starts_inside)

lemma glyph_starts_utf8_string: "list_all code_point cs \<Longrightarrow> glyph_starts (utf8_string cs) = length cs"
  by (induction cs) (simp_all add: glyph_starts_encode)

section \<open>Counting\<close>

lemma count_chars_all_eq:
  "0 \<notin> set bs \<Longrightarrow> count_chars_all (bs @ 0 # r) n = Inr (n + glyph_starts bs)"
  by (induction bs arbitrary: n) (auto simp: IsInsideGlyph_iff)

lemma count_chars_upto_eq:
  "0 \<notin> set bs \<Longrightarrow> count_chars_upto (bs @ 0 # r) k n = Inr (n + glyph_starts (take k bs))"
  by (induction bs arbitrary: k n) (auto simp: IsInsideGlyph_iff split: nat.split)

lemma count_chars_upto_overread:
  "0 \<notin> set bs \<Longrightarrow> count_chars_upto bs (length bs) n = Inl Undefined"
  by (induction bs arbitrary: n) auto

text \<open>
  What \<open>UTF8CountBytes\<close> stops at: the first position that starts a character when as many
  characters as asked for are behind it.
\<close>

definition char_boundary :: "byte list \<Rightarrow> nat \<Rightarrow> nat \<Rightarrow> bool" where
  "char_boundary bs k m \<longleftrightarrow>
     m \<le> length bs \<and> glyph_starts (take m bs) = min k (glyph_starts bs) \<and>
     (m < length bs \<longrightarrow> \<not> IsInsideGlyph (bs ! m))"

lemma count_bytes_loop_boundary:
  "0 \<notin> set bs \<Longrightarrow> 0 \<le> k \<Longrightarrow>
     \<exists>m. count_bytes_loop (bs @ 0 # r) k n = Inr (n + m) \<and> char_boundary bs (nat k) m"
proof (induction bs arbitrary: k n)
  case Nil
  then show ?case by (simp add: char_boundary_def)
next
  case (Cons b bs)
  show ?case
  proof (cases "\<not> IsInsideGlyph b \<and> k = 0")
    case True
    then show ?thesis using Cons.prems by (auto simp: IsInsideGlyph_iff char_boundary_def intro!: exI [of _ 0])
  next
    case False
    let ?k = "if IsInsideGlyph b then k else k - 1"
    have "0 \<le> ?k" using False Cons.prems by auto
    then obtain m where m: "count_bytes_loop (bs @ 0 # r) ?k (Suc n) = Inr (Suc n + m)"
        "char_boundary bs (nat ?k) m"
      using Cons by fastforce
    have "count_bytes_loop ((b # bs) @ 0 # r) k n = Inr (n + Suc m)"
      using m(1) False Cons.prems by (auto simp: IsInsideGlyph_iff)
    moreover have "char_boundary (b # bs) (nat k) (Suc m)"
      using m(2) False Cons.prems by (auto simp: char_boundary_def nat_diff_distrib split: if_splits)
    ultimately show ?thesis by blast
  qed
qed

lemma count_bytes_loop_inside:
  "\<forall>x\<in>set ys. IsInsideGlyph x \<Longrightarrow>
     count_bytes_loop (ys @ zs) k n = count_bytes_loop zs k (n + length ys)"
  by (induction ys arbitrary: n) (auto simp: IsInsideGlyph_iff dest: IsInsideGlyph_nonzero)

lemma count_bytes_loop_encode:
  assumes "code_point c" "0 \<le> k"
  shows "count_bytes_loop (utf8_encode c @ zs) k n =
     (if k = 0 then Inr n else count_bytes_loop zs (k - 1) (n + length (utf8_encode c)))"
  using assms by (auto simp: IsInsideGlyph_iff count_bytes_loop_inside elim!: utf8_encode_shape)

lemma count_bytes_loop_string:
  "list_all code_point cs \<Longrightarrow> 0 \<le> k \<Longrightarrow>
     count_bytes_loop (utf8_string cs @ 0 # r) k n = Inr (n + length (utf8_string (take (nat k) cs)))"
proof (induction cs arbitrary: k n)
  case Nil
  then show ?case by simp
next
  case (Cons c cs)
  show ?case
  proof (cases "k = 0")
    case True
    then show ?thesis using Cons.prems by (simp add: count_bytes_loop_encode)
  next
    case False
    then have "nat k = Suc (nat (k - 1))" using Cons.prems by simp
    then show ?thesis using Cons False by (simp add: count_bytes_loop_encode)
  qed
qed

lemma UTF8CountBytes_boundary_ex:
  assumes "0 \<notin> set bs" "0 \<le> k" "length bs < 2 ^ 32"
  obtains m where "UTF8CountBytes (Some (c_str bs)) k = Inr m" "char_boundary bs (nat k) m"
proof -
  obtain m where m: "count_bytes_loop (bs @ 0 # []) k 0 = Inr (0 + m)" "char_boundary bs (nat k) m"
    using count_bytes_loop_boundary assms(1,2) by blast
  moreover have "m < 2 ^ 32" using m(2) assms(3) by (simp add: char_boundary_def)
  ultimately show ?thesis
    using assms(2) that by (simp add: UTF8CountBytes_def c_str_def uint32_of_nat)
qed

lemma UTF8CountChars_take:
  assumes "0 \<notin> set bs" "length bs < 2 ^ 32"
  shows "UTF8CountChars (Some (c_str bs)) (int m) = Inr (glyph_starts (take m bs))"
proof -
  have "glyph_starts (take m bs) < 2 ^ 32"
    using glyph_starts_le [of "take m bs"] assms(2) by simp
  then show ?thesis
    using assms(1) by (simp add: UTF8CountChars_def c_str_def count_chars_upto_eq uint32_of_nat)
qed

lemma UTF8CountChars_all:
  assumes "0 \<notin> set bs" "length bs < 2 ^ 32" "k < 0"
  shows "UTF8CountChars (Some (c_str bs)) k = Inr (glyph_starts bs)"
proof -
  have "glyph_starts bs < 2 ^ 32" using glyph_starts_le [of bs] assms(2) by simp
  then show ?thesis
    using assms by (simp add: UTF8CountChars_def c_str_def count_chars_all_eq uint32_of_nat)
qed

lemma UTF8CountBytes_utf8:
  assumes "list_all code_point cs" "0 \<le> k" "length (utf8_string cs) < 2 ^ 32"
  shows "UTF8CountBytes (Some (c_str (utf8_string cs))) k
           = Inr (length (utf8_string (take (nat k) cs)))"
proof -
  have "utf8_string cs = utf8_string (take (nat k) cs) @ utf8_string (drop (nat k) cs)"
    by (simp add: utf8_string_def flip: concat_append map_append)
  then have "length (utf8_string (take (nat k) cs)) < 2 ^ 32"
    using assms(3) by (metis le_less_trans length_append le_add1)
  then show ?thesis
    using assms(1,2) by (simp add: UTF8CountBytes_def c_str_def count_bytes_loop_string uint32_of_nat)
qed

section \<open>Stepping over a character\<close>

lemma expected2_all: "\<forall>k<32. expected_bytes (0xc0 OR word_of_nat k) 0x20 2 = Some 2"
  by code_simp

lemma expected3_all: "\<forall>k<16. expected_bytes (0xe0 OR word_of_nat k) 0x20 2 = Some 3"
  by code_simp

lemma expected4_all: "\<forall>k<8. expected_bytes (0xf0 OR word_of_nat k) 0x20 2 = Some 4"
  by code_simp

lemma expected_bytes_lead:
  "x < 32 \<Longrightarrow> expected_bytes (0xc0 OR ucast (x :: 32 word)) 0x20 2 = Some 2"
  "x < 16 \<Longrightarrow> expected_bytes (0xe0 OR ucast (x :: 32 word)) 0x20 2 = Some 3"
  "x < 8 \<Longrightarrow> expected_bytes (0xf0 OR ucast (x :: 32 word)) 0x20 2 = Some 4"
proof -
  show "x < 32 \<Longrightarrow> expected_bytes (0xc0 OR ucast (x :: 32 word)) 0x20 2 = Some 2"
    using expected2_all by (rule_tac n = 32 and x = x in word_small) (auto simp: ucast_small)
  show "x < 16 \<Longrightarrow> expected_bytes (0xe0 OR ucast (x :: 32 word)) 0x20 2 = Some 3"
    using expected3_all by (rule_tac n = 16 and x = x in word_small) (auto simp: ucast_small)
  show "x < 8 \<Longrightarrow> expected_bytes (0xf0 OR ucast (x :: 32 word)) 0x20 2 = Some 4"
    using expected4_all by (rule_tac n = 8 and x = x in word_small) (auto simp: ucast_small)
qed

lemma all_inside_numeral [simp]:
  "all_inside (b # bs) (numeral n) = (if IsInsideGlyph b then all_inside bs (pred_numeral n) else Inr False)"
  by (simp add: numeral_eq_Suc)

lemma UTF8NextCharLen_bounded_encode:
  assumes "code_point c" "length (utf8_encode c) \<le> len"
  shows "UTF8NextCharLen_bounded (Some (utf8_encode c @ rest)) len = Inr (length (utf8_encode c))"
proof -
  consider "c < 0x80" | "\<not> c < 0x80" "c < 0x800" | "\<not> c < 0x80" "\<not> c < 0x800" "c < 0x10000"
    | "\<not> c < 0x80" "\<not> c < 0x800" "\<not> c < 0x10000" by blast
  then show ?thesis
    using assms
    by cases (simp_all add: UTF8NextCharLen_bounded_def utf8_encode_def code_point_def ascii_facts
        expected_bytes_lead drop_bit_bound)
qed

lemma skip_glyph_inside:
  "\<forall>x\<in>set bs. IsInsideGlyph x \<Longrightarrow> \<not> IsInsideGlyph z \<Longrightarrow> skip_glyph (bs @ z # r) n = Inr (n + length bs)"
  by (induction bs arbitrary: n) auto

lemma previous_loop_inside:
  assumes "\<forall>x\<in>set bs. IsInsideGlyph x" "\<not> IsInsideGlyph b" "l \<le> length pre"
  shows "previous_loop (pre @ b # bs @ post) l (length pre + Suc (length bs)) = Inr (length pre)"
  using assms(1)
proof (induction bs arbitrary: post rule: rev_induct)
  case Nil
  then show ?case using assms(2,3) by simp
next
  case (snoc x xs)
  have "previous_loop (pre @ b # (xs @ [x]) @ post) l (length pre + Suc (length (xs @ [x])))
      = previous_loop (pre @ b # xs @ (x # post)) l (length pre + Suc (length xs))"
    using snoc.prems assms(3) by (simp add: nth_append)
  also have "\<dots> = Inr (length pre)" using snoc by simp
  finally show ?case .
qed

section \<open>Properties\<close>

text \<open>C1. Decoding inverts encoding: for every code point between 1 and 0x1fffff, reading one
  character with \<open>UTF8ToCharCode\<close> from memory that starts with its UTF-8 encoding yields the code
  point and leaves the pointer right behind the encoding, whatever follows.\<close>

theorem UTF8ToCharCode_encode:
  assumes "code_point c"
  shows "UTF8ToCharCode (utf8_encode c @ rest) = Inr (c, rest)"
proof -
  consider "c < 0x80" | "\<not> c < 0x80" "c < 0x800" | "\<not> c < 0x80" "\<not> c < 0x800" "c < 0x10000"
    | "\<not> c < 0x80" "\<not> c < 0x800" "\<not> c < 0x10000" by blast
  then show ?thesis
    using assms
    by cases (simp_all add: UTF8ToCharCode_def utf8_encode_def code_point_def ascii_facts
        IsInsideGlyph_iff lead_bits_lead drop_bit_bound)
qed

theorem UTF8ToCharCode_encode_witness:
  "code_point 0x20ac \<and> UTF8ToCharCode (utf8_encode 0x20ac @ [0x41, 0]) = Inr (0x20ac, [0x41, 0])"
proof -
  have c: "code_point 0x20ac" by (simp add: code_point_def)
  show ?thesis using c UTF8ToCharCode_encode [OF c, of "[0x41, 0]"] by simp
qed

text \<open>\<open>UTF8CountBytes\<close> and \<open>UTF8CountChars\<close> agree on every byte string, valid UTF-8 or not: the
  number of bytes reported for \<open>k\<close> characters is a position where a character starts (or the end),
  the bytes before it hold \<open>min k n\<close> character starts for a string with \<open>n\<close> of them, and counting
  the characters of exactly these bytes gives the same number back.\<close>

lemma UTF8CountBytes_CountChars:
  assumes "0 \<notin> set bs" "0 \<le> k" "length bs < 2 ^ 32"
  shows "\<exists>m. UTF8CountBytes (Some (c_str bs)) k = Inr m \<and> char_boundary bs (nat k) m \<and>
             UTF8CountChars (Some (c_str bs)) (int m) = Inr (min (nat k) (glyph_starts bs))"
proof -
  obtain m where m: "UTF8CountBytes (Some (c_str bs)) k = Inr m" "char_boundary bs (nat k) m"
    using UTF8CountBytes_boundary_ex assms by blast
  then show ?thesis
    using UTF8CountChars_take [OF assms(1,3), of m] by (auto simp: char_boundary_def)
qed

text \<open>Stepping forward and backward over a character are inverse: at the start of an encoded
  code point \<open>UTF8NextCharLen\<close> (with enough bytes left) gives the length of the encoding, and from
  the position behind it \<open>UTF8PreviousCharLen\<close> gives the same length, for any limit not inside it.\<close>

lemma UTF8_next_previous:
  assumes "code_point c" "limit \<le> length pre" "length (utf8_encode c) \<le> len"
  shows "UTF8NextCharLen_bounded (Some (utf8_encode c @ post)) len = Inr (length (utf8_encode c)) \<and>
         UTF8PreviousCharLen (pre @ utf8_encode c @ post) (Some (length pre + length (utf8_encode c)))
           (Some limit) = Inr (length (utf8_encode c))"
proof -
  obtain b bs where e: "utf8_encode c = b # bs" "\<not> IsInsideGlyph b" "\<forall>x\<in>set bs. IsInsideGlyph x"
    using assms(1) by (rule utf8_encode_shape)
  have "previous_loop (pre @ b # bs @ post) limit (length pre + Suc (length bs)) = Inr (length pre)"
    by (rule previous_loop_inside [OF e(3,2) assms(2)])
  then have "UTF8PreviousCharLen (pre @ utf8_encode c @ post)
      (Some (length pre + length (utf8_encode c))) (Some limit) = Inr (length (utf8_encode c))"
    by (simp add: UTF8PreviousCharLen_def e(1))
  then show ?thesis using UTF8NextCharLen_bounded_encode assms by simp
qed

text \<open>\<open>UTF8CountChars\<close> with a byte limit reads one byte beyond the limit: on a buffer of exactly
  the given number of non-zero bytes it leaves the object, because the loop tests the current byte
  before it compares the position with the last one.\<close>

lemma UTF8CountChars_overread:
  assumes "0 \<notin> set bs"
  shows "UTF8CountChars (Some bs) (int (length bs)) = Inl Undefined"
  using assms by (simp add: UTF8CountChars_def count_chars_upto_overread)

end
