(* ===== verification/BString.thy ===== *)
theory BString
  imports Utf8
begin

text \<open>
  \<open>BString\<close> of \<open>kits/support/String.cpp\<close>. The object owns one \<open>std::string\<close>; its value is
  the byte list below (it may hold zero bytes, which the C-string views cut at). Every operation
  that returns \<open>*this\<close> returns the new value of the object. A reference parameter that may be the
  object itself is an \<open>arg\<close>, because the code tests \<open>&string != this\<close>. Sizes passed on to
  \<open>std::string\<close> are converted as the compiler converts them, so the behaviour on negative
  lengths and positions is part of the model. Left out are \<open>operator<<(float)\<close> (the formatting of
  IEEE numbers) and the members that the header declares and the file does not define.
\<close>

section \<open>Values\<close>

datatype bstring = BString (bytes: "byte list")

definition min_clamp0 :: "int \<Rightarrow> int \<Rightarrow> int" where
  "min_clamp0 num1 num2 =
     (if num1 < num2 then if 0 < num1 then num1 else 0 else if 0 < num2 then num2 else 0)"

definition strlen_clamp :: "mem \<Rightarrow> int \<Rightarrow> int outcome" where
  "strlen_clamp string limit =
     (if limit \<le> 0 then Inr 0 else bindR (strnlen string (nat limit)) (\<lambda>n. Inr (int32 (int n))))"

text \<open>Reading a C string or a number of bytes through a pointer that may be null.\<close>

fun pointee :: "mem option \<Rightarrow> byte list outcome" where
  "pointee None = Inl Undefined"
| "pointee (Some m) = read_cstring m"

fun pointee_n :: "mem option \<Rightarrow> nat \<Rightarrow> byte list outcome" where
  "pointee_n None n = (if max_size < n then Inl Length_error else if n = 0 then Inr [] else Inl Undefined)"
| "pointee_n (Some m) n = std_read m n"

section \<open>Construction, access, assignment\<close>

definition BString_new :: bstring where "BString_new = BString []"

definition BString_cstr :: "mem option \<Rightarrow> bstring outcome" where
  "BString_cstr str = bindR (pointee str) (\<lambda>s. Inr (BString s))"

definition BString_copy :: "bstring \<Rightarrow> bstring" where
  "BString_copy other = BString (bytes other)"

definition BString_n :: "mem option \<Rightarrow> int \<Rightarrow> bstring outcome" where
  "BString_n str maxLength = bindR (pointee_n str (size_t maxLength)) (\<lambda>s. Inr (BString s))"

definition String :: "bstring \<Rightarrow> mem" where
  "String s = c_str (bytes s)"

definition Length :: "bstring \<Rightarrow> int" where
  "Length s = int32 (int (length (bytes s)))"

fun CountChars_loop :: "mem \<Rightarrow> nat \<Rightarrow> nat outcome" where
  "CountChars_loop [] count = Inl Undefined"
| "CountChars_loop (p # ps) count =
     (if p = 0 then Inr count
      else CountChars_loop ps (if p AND 0xc0 \<noteq> 0x80 then Suc count else count))"

definition CountChars :: "bstring \<Rightarrow> int outcome" where
  "CountChars s = bindR (CountChars_loop (c_str (bytes s)) 0) (\<lambda>n. Inr (int32 (int n)))"

definition assign_str :: "bstring \<Rightarrow> bstring arg \<Rightarrow> bstring" where
  "assign_str this from = BString (bytes (deref this from))"

definition assign_cstr :: "bstring \<Rightarrow> mem option \<Rightarrow> bstring outcome" where
  "assign_cstr this str = bindR (pointee str) (\<lambda>s. Inr (BString s))"

definition assign_char :: "bstring \<Rightarrow> byte \<Rightarrow> bstring" where
  "assign_char this ch = BString [ch]"

definition SetTo_cstr :: "bstring \<Rightarrow> mem option \<Rightarrow> bstring outcome" where
  "SetTo_cstr this str = bindR (pointee str) (\<lambda>s. Inr (BString s))"

definition SetTo_cstr_n :: "bstring \<Rightarrow> mem option \<Rightarrow> int \<Rightarrow> bstring outcome" where
  "SetTo_cstr_n this str len = bindR (pointee_n str (size_t len)) (\<lambda>s. Inr (BString s))"

definition SetTo_str :: "bstring \<Rightarrow> bstring arg \<Rightarrow> bstring" where
  "SetTo_str this from = BString (bytes (deref this from))"

text \<open>
  The call is \<open>DATA->assign(*DATA_PTR(from.data), length)\<close>, a string and one number: the
  overload of \<open>std::string::assign\<close> it selects is \<open>assign(str, pos, count = npos)\<close>, so the number
  is a position and the value assigned is the rest of the string from there.
\<close>

definition SetTo_str_n :: "bstring \<Rightarrow> bstring arg \<Rightarrow> int \<Rightarrow> bstring outcome" where
  "SetTo_str_n this from len =
     (let s = bytes (deref this from); pos = size_t len
      in if length s < pos then Inl Out_of_range else Inr (BString (drop pos s)))"

definition SetTo_char :: "bstring \<Rightarrow> byte \<Rightarrow> int \<Rightarrow> bstring outcome" where
  "SetTo_char this ch count = bindR (std_fill (size_t count) ch) (\<lambda>s. Inr (BString s))"

definition CopyInto_str :: "bstring \<Rightarrow> bstring arg \<Rightarrow> int \<Rightarrow> int \<Rightarrow> bstring outcome" where
  "CopyInto_str this into fromOffset len =
     (case into of
        Same \<Rightarrow> Inr this
      | Other i \<Rightarrow> bindR (advance (c_str (bytes this)) fromOffset) (\<lambda>p. SetTo_cstr_n i (Some p) len))"

text \<open>The destination is the memory behind \<open>into\<close>; the result is its new content.\<close>

definition CopyInto_mem :: "bstring \<Rightarrow> mem option \<Rightarrow> int \<Rightarrow> int \<Rightarrow> mem option outcome" where
  "CopyInto_mem this into fromOffset len =
     (case into of
        None \<Rightarrow> Inr None
      | Some m \<Rightarrow>
          (let n = nat (min_clamp0 len (int32 (Length this - fromOffset)))
           in bindR (advance (c_str (bytes this)) fromOffset) (\<lambda>p.
              bindR (read_bytes p n) (\<lambda>s.
              if length m < n then Inl Undefined else Inr (Some (s @ drop n m))))))"

text \<open>Both objects after the call: the object and the one it adopts from.\<close>

definition Adopt :: "bstring \<Rightarrow> bstring arg \<Rightarrow> bstring \<times> bstring" where
  "Adopt this from =
     (case from of Same \<Rightarrow> (BString [], BString []) | Other f \<Rightarrow> (f, BString []))"

definition Truncate :: "bstring \<Rightarrow> int \<Rightarrow> bool \<Rightarrow> bstring" where
  "Truncate this charCount lazy =
     (if size_t charCount < length (bytes this) then BString (take (size_t charCount) (bytes this))
      else this)"

definition Adopt_n :: "bstring \<Rightarrow> bstring arg \<Rightarrow> int \<Rightarrow> bstring \<times> bstring" where
  "Adopt_n this from len = (let (t, f) = Adopt this from; t' = Truncate t len False
                            in (t', case from of Same \<Rightarrow> t' | Other _ \<Rightarrow> f))"

section \<open>Appending and prepending\<close>

definition append_op_cstr :: "bstring \<Rightarrow> mem option \<Rightarrow> bstring outcome" where
  "append_op_cstr this string =
     (case string of
        None \<Rightarrow> Inr this
      | Some m \<Rightarrow> bindR (read_cstring m) (\<lambda>s. Inr (BString (bytes this @ s))))"

definition append_op_char :: "bstring \<Rightarrow> byte \<Rightarrow> bstring" where
  "append_op_char this c = BString (bytes this @ [c])"

definition Append_str :: "bstring \<Rightarrow> bstring arg \<Rightarrow> int \<Rightarrow> bstring outcome" where
  "Append_str this string len =
     (case string of
        Same \<Rightarrow> Inr this
      | Other s \<Rightarrow>
          (let n = min_clamp0 len (Length s)
           in if 0 < n
              then bindR (std_read (c_str (bytes s)) (size_t n)) (\<lambda>d. Inr (BString (bytes this @ d)))
              else Inr this))"

definition Append_cstr :: "bstring \<Rightarrow> mem option \<Rightarrow> int \<Rightarrow> bstring outcome" where
  "Append_cstr this string len =
     (case string of
        None \<Rightarrow> Inr this
      | Some m \<Rightarrow> bindR (strlen_clamp m len) (\<lambda>n.
          if 0 < n then bindR (std_read m (size_t n)) (\<lambda>d. Inr (BString (bytes this @ d)))
          else Inr this))"

definition Append_char :: "bstring \<Rightarrow> byte \<Rightarrow> int \<Rightarrow> bstring outcome" where
  "Append_char this c count =
     (if 0 < count then bindR (std_fill (size_t count) c) (\<lambda>d. Inr (BString (bytes this @ d)))
      else Inr this)"

definition AppendChars_str :: "bstring \<Rightarrow> bstring arg \<Rightarrow> int \<Rightarrow> bstring outcome" where
  "AppendChars_str this string charCount =
     bindR (UTF8CountBytes (Some (String (deref this string))) charCount)
       (\<lambda>n. Append_str this string (int32 (int n)))"

definition AppendChars_cstr :: "bstring \<Rightarrow> mem option \<Rightarrow> int \<Rightarrow> bstring outcome" where
  "AppendChars_cstr this string charCount =
     bindR (UTF8CountBytes string charCount) (\<lambda>n. Append_cstr this string (int32 (int n)))"

definition Prepend_cstr :: "bstring \<Rightarrow> mem option \<Rightarrow> bstring outcome" where
  "Prepend_cstr this string =
     (case string of
        None \<Rightarrow> Inr this
      | Some m \<Rightarrow> bindR (read_cstring m) (\<lambda>s. Inr (BString (s @ bytes this))))"

definition Prepend_str :: "bstring \<Rightarrow> bstring arg \<Rightarrow> bstring outcome" where
  "Prepend_str this string =
     (case string of
        Same \<Rightarrow> Inr this
      | Other s \<Rightarrow> bindR (read_cstring (c_str (bytes s))) (\<lambda>d. Inr (BString (d @ bytes this))))"

definition Prepend_cstr_n :: "bstring \<Rightarrow> mem option \<Rightarrow> int \<Rightarrow> bstring outcome" where
  "Prepend_cstr_n this string len =
     (case string of
        None \<Rightarrow> Inr this
      | Some m \<Rightarrow> bindR (strlen_clamp m len) (\<lambda>n.
          bindR (std_read m (size_t n)) (\<lambda>d. Inr (BString (d @ bytes this)))))"

definition Prepend_str_n :: "bstring \<Rightarrow> bstring arg \<Rightarrow> int \<Rightarrow> bstring outcome" where
  "Prepend_str_n this string len =
     (case string of
        Same \<Rightarrow> Inr this
      | Other s \<Rightarrow>
          bindR (std_read (c_str (bytes s)) (size_t (min_clamp0 len (Length s))))
            (\<lambda>d. Inr (BString (d @ bytes this))))"

definition Prepend_char :: "bstring \<Rightarrow> byte \<Rightarrow> int \<Rightarrow> bstring outcome" where
  "Prepend_char this c count =
     (if 0 < count then bindR (std_fill (size_t count) c) (\<lambda>d. Inr (BString (d @ bytes this)))
      else Inr this)"

definition PrependChars_cstr :: "bstring \<Rightarrow> mem option \<Rightarrow> int \<Rightarrow> bstring outcome" where
  "PrependChars_cstr this string charCount =
     bindR (UTF8CountBytes string charCount) (\<lambda>n. Prepend_cstr_n this string (int32 (int n)))"

definition PrependChars_str :: "bstring \<Rightarrow> bstring arg \<Rightarrow> int \<Rightarrow> bstring outcome" where
  "PrependChars_str this string charCount =
     bindR (UTF8CountBytes (Some (String (deref this string))) charCount)
       (\<lambda>n. Prepend_str_n this string (int32 (int n)))"

section \<open>Inserting\<close>

text \<open>\<open>std::string::insert(pos, s, n)\<close>: the position is checked before the count.\<close>

definition insert_bytes :: "bstring \<Rightarrow> nat \<Rightarrow> byte list outcome \<Rightarrow> bstring outcome" where
  "insert_bytes this pos d =
     (if length (bytes this) < pos then Inl Out_of_range
      else bindR d (\<lambda>s. bindR (std_insert (bytes this) pos s) (\<lambda>r. Inr (BString r))))"

definition Insert_cstr :: "bstring \<Rightarrow> mem option \<Rightarrow> int \<Rightarrow> bstring outcome" where
  "Insert_cstr this string position =
     (case string of
        None \<Rightarrow> Inr this
      | Some m \<Rightarrow> if position \<le> Length this then insert_bytes this (size_t position) (read_cstring m)
                  else Inr this)"

definition Insert_cstr_n :: "bstring \<Rightarrow> mem option \<Rightarrow> int \<Rightarrow> int \<Rightarrow> bstring outcome" where
  "Insert_cstr_n this string len position =
     (case string of
        None \<Rightarrow> Inr this
      | Some m \<Rightarrow> if position \<le> Length this
                  then insert_bytes this (size_t position) (std_read m (size_t len))
                  else Inr this)"

definition Insert_cstr_from :: "bstring \<Rightarrow> mem option \<Rightarrow> int \<Rightarrow> int \<Rightarrow> int \<Rightarrow> bstring outcome" where
  "Insert_cstr_from this string fromOffset len position =
     (case string of
        None \<Rightarrow> Inr this
      | Some m \<Rightarrow> bindR (advance m fromOffset) (\<lambda>p. Insert_cstr_n this (Some p) len position))"

definition Insert_str :: "bstring \<Rightarrow> bstring arg \<Rightarrow> int \<Rightarrow> bstring outcome" where
  "Insert_str this string position =
     (case string of
        Same \<Rightarrow> Inr this
      | Other s \<Rightarrow> if 0 < Length s then Insert_cstr this (Some (c_str (bytes s))) position else Inr this)"

definition Insert_str_n :: "bstring \<Rightarrow> bstring arg \<Rightarrow> int \<Rightarrow> int \<Rightarrow> bstring outcome" where
  "Insert_str_n this string len position =
     (case string of
        Same \<Rightarrow> Inr this
      | Other s \<Rightarrow> if 0 < Length s then Insert_cstr_n this (Some (String s)) len position else Inr this)"

definition Insert_str_from :: "bstring \<Rightarrow> bstring arg \<Rightarrow> int \<Rightarrow> int \<Rightarrow> int \<Rightarrow> bstring outcome" where
  "Insert_str_from this string fromOffset len position =
     (case string of
        Same \<Rightarrow> Inr this
      | Other s \<Rightarrow>
          if 0 < Length s
          then bindR (advance (String s) fromOffset) (\<lambda>p. Insert_cstr_n this (Some p) len position)
          else Inr this)"

definition Insert_char :: "bstring \<Rightarrow> byte \<Rightarrow> int \<Rightarrow> int \<Rightarrow> bstring outcome" where
  "Insert_char this c count position =
     (let (count', position') =
        (if position < 0 then (max (int32 (count + position)) 0, 0)
         else (count, min_clamp0 position (Length this)))
      in if 0 < count'
         then insert_bytes this (size_t position') (std_fill (size_t count') c)
         else Inr this)"

definition InsertChars_cstr :: "bstring \<Rightarrow> mem option \<Rightarrow> int \<Rightarrow> bstring outcome" where
  "InsertChars_cstr this string charPosition =
     bindR (UTF8CountBytes (Some (c_str (bytes this))) charPosition)
       (\<lambda>p. Insert_cstr this string (int32 (int p)))"

definition InsertChars_cstr_n :: "bstring \<Rightarrow> mem option \<Rightarrow> int \<Rightarrow> int \<Rightarrow> bstring outcome" where
  "InsertChars_cstr_n this string charCount charPosition =
     bindR (UTF8CountBytes string charCount) (\<lambda>n.
     bindR (UTF8CountBytes (Some (c_str (bytes this))) charPosition) (\<lambda>p.
     Insert_cstr_n this string (int32 (int n)) (int32 (int p))))"

text \<open>With a null \<open>string\<close> the offset is 0 and the pointer stays null.\<close>

definition InsertChars_cstr_from ::
    "bstring \<Rightarrow> mem option \<Rightarrow> int \<Rightarrow> int \<Rightarrow> int \<Rightarrow> bstring outcome" where
  "InsertChars_cstr_from this string fromCharOffset charCount charPosition =
     bindR (UTF8CountBytes string fromCharOffset) (\<lambda>f.
     let fromOffset = int32 (int f) in
     bindR (case string of None \<Rightarrow> Inr None
                         | Some m \<Rightarrow> bindR (advance m fromOffset) (\<lambda>p. Inr (Some p))) (\<lambda>p.
     bindR (UTF8CountBytes p charCount) (\<lambda>n.
     bindR (UTF8CountBytes (Some (c_str (bytes this))) charPosition) (\<lambda>pos.
     Insert_cstr_from this string fromOffset (int32 (int n)) (int32 (int pos))))))"

definition InsertChars_str :: "bstring \<Rightarrow> bstring arg \<Rightarrow> int \<Rightarrow> bstring outcome" where
  "InsertChars_str this string charPosition =
     bindR (UTF8CountBytes (Some (c_str (bytes this))) charPosition)
       (\<lambda>p. Insert_str this string (int32 (int p)))"

definition InsertChars_str_n :: "bstring \<Rightarrow> bstring arg \<Rightarrow> int \<Rightarrow> int \<Rightarrow> bstring outcome" where
  "InsertChars_str_n this string charCount charPosition =
     bindR (UTF8CountBytes (Some (String (deref this string))) charCount) (\<lambda>n.
     bindR (UTF8CountBytes (Some (c_str (bytes this))) charPosition) (\<lambda>p.
     Insert_str_n this string (int32 (int n)) (int32 (int p))))"

definition InsertChars_str_from ::
    "bstring \<Rightarrow> bstring arg \<Rightarrow> int \<Rightarrow> int \<Rightarrow> int \<Rightarrow> bstring outcome" where
  "InsertChars_str_from this string fromCharOffset charCount charPosition =
     bindR (UTF8CountBytes (Some (String (deref this string))) fromCharOffset) (\<lambda>f.
     let fromOffset = int32 (int f) in
     bindR (advance (String (deref this string)) fromOffset) (\<lambda>p.
     bindR (UTF8CountBytes (Some p) charCount) (\<lambda>n.
     bindR (UTF8CountBytes (Some (c_str (bytes this))) charPosition) (\<lambda>pos.
     Insert_str_from this string fromOffset (int32 (int n)) (int32 (int pos))))))"

section \<open>Removing\<close>

definition Remove :: "bstring \<Rightarrow> int \<Rightarrow> int \<Rightarrow> bstring outcome" where
  "Remove this from len =
     (if 0 < len \<and> from < Length this
      then bindR (std_erase (bytes this) (size_t from) (size_t len)) (\<lambda>r. Inr (BString r))
      else Inr this)"

definition RemoveChars :: "bstring \<Rightarrow> int \<Rightarrow> int \<Rightarrow> bstring outcome" where
  "RemoveChars this fromCharOffset charCount =
     (let str = c_str (bytes this) in
      bindR (UTF8CountBytes (Some str) fromCharOffset) (\<lambda>f.
      let fromOffset = int32 (int f) in
      bindR (advance str fromOffset) (\<lambda>p.
      bindR (UTF8CountBytes (Some p) charCount) (\<lambda>n.
      Remove this fromOffset (int32 (int n))))))"

section \<open>Comparison\<close>

text \<open>\<open>std::string::compare\<close>: the first differing byte decides (as unsigned), then the length.\<close>

fun std_compare :: "byte list \<Rightarrow> byte list \<Rightarrow> int" where
  "std_compare [] [] = 0"
| "std_compare [] (b # bs) = - 1"
| "std_compare (a # as) [] = 1"
| "std_compare (a # as) (b # bs) =
     (if a < b then - 1 else if b < a then 1 else std_compare as bs)"

definition op_less :: "bstring \<Rightarrow> bstring \<Rightarrow> bool" where
  "op_less a b \<longleftrightarrow> std_compare (bytes a) (bytes b) < 0"

definition op_less_eq :: "bstring \<Rightarrow> bstring \<Rightarrow> bool" where
  "op_less_eq a b \<longleftrightarrow> std_compare (bytes a) (bytes b) \<le> 0"

definition op_eq :: "bstring \<Rightarrow> bstring \<Rightarrow> bool" where
  "op_eq a b \<longleftrightarrow> std_compare (bytes a) (bytes b) = 0"

definition op_greater_eq :: "bstring \<Rightarrow> bstring \<Rightarrow> bool" where
  "op_greater_eq a b \<longleftrightarrow> 0 \<le> std_compare (bytes a) (bytes b)"

definition op_greater :: "bstring \<Rightarrow> bstring \<Rightarrow> bool" where
  "op_greater a b \<longleftrightarrow> 0 < std_compare (bytes a) (bytes b)"

definition op_not_eq :: "bstring \<Rightarrow> bstring \<Rightarrow> bool" where
  "op_not_eq a b \<longleftrightarrow> std_compare (bytes a) (bytes b) \<noteq> 0"

text \<open>The six operators on \<open>const char *\<close> compare with the C string behind the pointer.\<close>

definition compare_cstr :: "(int \<Rightarrow> bool) \<Rightarrow> bstring \<Rightarrow> mem option \<Rightarrow> bool outcome" where
  "compare_cstr r a value = bindR (pointee value) (\<lambda>v. Inr (r (std_compare (bytes a) v)))"

definition op_less_cstr :: "bstring \<Rightarrow> mem option \<Rightarrow> bool outcome" where
  "op_less_cstr = compare_cstr (\<lambda>c. c < 0)"

definition op_less_eq_cstr :: "bstring \<Rightarrow> mem option \<Rightarrow> bool outcome" where
  "op_less_eq_cstr = compare_cstr (\<lambda>c. c \<le> 0)"

definition op_eq_cstr :: "bstring \<Rightarrow> mem option \<Rightarrow> bool outcome" where
  "op_eq_cstr = compare_cstr (\<lambda>c. c = 0)"

definition op_greater_eq_cstr :: "bstring \<Rightarrow> mem option \<Rightarrow> bool outcome" where
  "op_greater_eq_cstr = compare_cstr (\<lambda>c. 0 \<le> c)"

definition op_greater_cstr :: "bstring \<Rightarrow> mem option \<Rightarrow> bool outcome" where
  "op_greater_cstr = compare_cstr (\<lambda>c. 0 < c)"

definition op_not_eq_cstr :: "bstring \<Rightarrow> mem option \<Rightarrow> bool outcome" where
  "op_not_eq_cstr = compare_cstr (\<lambda>c. c \<noteq> 0)"

section \<open>Formatting\<close>

definition put_cstr :: "bstring \<Rightarrow> mem option \<Rightarrow> bstring outcome" where
  "put_cstr this value = bindR (pointee value) (\<lambda>s. Inr (BString (bytes this @ s)))"

definition put_str :: "bstring \<Rightarrow> bstring arg \<Rightarrow> bstring" where
  "put_str this value = BString (bytes this @ bytes (deref this value))"

definition put_char :: "bstring \<Rightarrow> byte \<Rightarrow> bstring" where
  "put_char this value = BString (bytes this @ [value])"

text \<open>What \<open>std::ostringstream\<close> writes for an unsigned and for a signed integer.\<close>

fun dec_digits :: "nat \<Rightarrow> byte list" where
  "dec_digits n = (if n < 10 then [word_of_nat (48 + n)]
                   else dec_digits (n div 10) @ [word_of_nat (48 + n mod 10)])"

declare dec_digits.simps [simp del]

definition dec_int :: "int \<Rightarrow> byte list" where
  "dec_int i = (if i < 0 then 0x2d # dec_digits (nat (- i)) else dec_digits (nat i))"

definition put_unsigned :: "bstring \<Rightarrow> nat \<Rightarrow> bstring" where
  "put_unsigned this value = BString (bytes this @ dec_digits value)"

definition put_signed :: "bstring \<Rightarrow> int \<Rightarrow> bstring" where
  "put_signed this value = BString (bytes this @ dec_int value)"

section \<open>Lengths and ranges\<close>

text \<open>Strings whose length fits an \<open>int32\<close>, which all the interface can express.\<close>

definition short :: "byte list \<Rightarrow> bool" where
  "short s \<longleftrightarrow> length s < 2 ^ 31"

lemma Length_short [simp]: "short s \<Longrightarrow> Length (BString s) = int (length s)"
  by (simp add: Length_def short_def int32_of_nat)

lemma short_prefix: "short (xs @ ys) \<Longrightarrow> short xs" "short (xs @ ys) \<Longrightarrow> short ys"
  by (simp_all add: short_def)

lemma short_le: "short s \<Longrightarrow> length r \<le> length s \<Longrightarrow> short r"
  by (simp add: short_def)

lemma short_size_t [simp]: "short s \<Longrightarrow> n \<le> length s \<Longrightarrow> size_t (int n) = n"
  by (simp add: short_def size_t_of_nat)

lemma short_int32 [simp]: "short s \<Longrightarrow> n \<le> length s \<Longrightarrow> int32 (int n) = int n"
  by (simp add: short_def int32_of_nat)

lemma size_t_neg_int32:
  assumes "i < 0" "- (2 ^ 31) \<le> i" "short s"
  shows "length s < size_t i" "max_size < size_t i"
  using size_t_neg [of i] assms by (auto simp: short_def max_size_def)

lemma Insert_cstr_in_range:
  assumes "short s" "p \<le> length s" "0 \<in> set m"
  shows "Insert_cstr (BString s) (Some m) (int p) = Inr (BString (take p s @ cstring m @ drop p s))"
  using assms by (simp add: Insert_cstr_def insert_bytes_def read_cstring_def be_simps)

lemma Insert_cstr_n_in_range:
  assumes "short s" "p \<le> length s" "n \<le> length m" "n < 2 ^ 31"
  shows "Insert_cstr_n (BString s) (Some m) (int n) (int p) = Inr (BString (take p s @ take n m @ drop p s))"
  using assms
  by (simp add: Insert_cstr_n_def insert_bytes_def std_read_def read_bytes_def be_simps size_t_of_nat
      max_size_def)

lemma Remove_in_range:
  assumes "short s" "f \<le> length s" "n < 2 ^ 31"
  shows "Remove (BString s) (int f) (int n) = Inr (BString (take f s @ drop (f + n) s))"
  using assms by (auto simp: Remove_def be_simps size_t_of_nat)

lemma Append_str_in_range:
  assumes "short d" "n \<le> length d"
  shows "Append_str (BString s) (Other (BString d)) (int n) = Inr (BString (s @ take n d))"
  using assms
  by (auto simp: Append_str_def min_clamp0_def Let_def std_read_def read_bytes_def c_str_def short_def
      max_size_def)

lemma Prepend_str_n_in_range:
  assumes "short d" "n \<le> length d"
  shows "Prepend_str_n (BString s) (Other (BString d)) (int n) = Inr (BString (take n d @ s))"
  using assms
  by (auto simp: Prepend_str_n_def min_clamp0_def Let_def std_read_def read_bytes_def c_str_def short_def
      max_size_def)

section \<open>Strings of code points\<close>

text \<open>
  The abstraction the character-based operations are meant for: a list of code points, held in the
  object as their UTF-8 encodings.
\<close>

definition text_of :: "32 word list \<Rightarrow> bstring" where
  "text_of cs = BString (utf8_string cs)"

definition text_ok :: "32 word list \<Rightarrow> bool" where
  "text_ok cs \<longleftrightarrow> list_all code_point cs \<and> short (utf8_string cs)"

lemma utf8_string_append [simp]: "utf8_string (xs @ ys) = utf8_string xs @ utf8_string ys"
  by (simp add: utf8_string_def)

lemma utf8_string_split: "utf8_string cs = utf8_string (take n cs) @ utf8_string (drop n cs)"
  by (simp flip: utf8_string_append)

lemma take_utf8_string: "take (length (utf8_string (take n cs))) (utf8_string cs) = utf8_string (take n cs)"
  by (subst utf8_string_split [of cs n]) simp

lemma drop_utf8_string: "drop (length (utf8_string (take n cs))) (utf8_string cs) = utf8_string (drop n cs)"
  by (subst utf8_string_split [of cs n]) simp

lemma length_take_utf8: "length (utf8_string (take n cs)) \<le> length (utf8_string cs)"
  using arg_cong [OF utf8_string_split [of cs n], of length] by simp

lemma text_ok_code_points: "text_ok cs \<Longrightarrow> list_all code_point cs"
  by (simp add: text_ok_def)

lemma text_ok_short: "text_ok cs \<Longrightarrow> short (utf8_string cs)"
  by (simp add: text_ok_def)

lemma text_ok_no_zero: "text_ok cs \<Longrightarrow> 0 \<notin> set (utf8_string cs)"
  by (simp add: text_ok_def utf8_string_no_zero)

lemma text_ok_drop: "text_ok cs \<Longrightarrow> text_ok (drop n cs)"
  unfolding text_ok_def
  by (metis append_take_drop_id list_all_append short_prefix(2) utf8_string_split)

lemma CountBytes_text:
  "text_ok cs \<Longrightarrow> 0 \<le> k \<Longrightarrow>
     UTF8CountBytes (Some (c_str (utf8_string cs))) k = Inr (length (utf8_string (take (nat k) cs)))"
  by (rule UTF8CountBytes_utf8) (simp_all add: text_ok_def short_def)

lemma offset_text [simp]:
  "text_ok cs \<Longrightarrow> int32 (int (length (utf8_string (take n cs)))) = int (length (utf8_string (take n cs)))"
  by (rule short_int32 [of "utf8_string cs"]) (simp_all add: text_ok_short length_take_utf8)

lemma length_take_text_less: "text_ok cs \<Longrightarrow> length (utf8_string (take n cs)) < 2147483648"
  using length_take_utf8 [of n cs] by (simp add: text_ok_def short_def)

lemma advance_text:
  "text_ok cs \<Longrightarrow> advance (c_str (utf8_string cs)) (int (length (utf8_string (take n cs))))
                  = Inr (c_str (utf8_string (drop n cs)))"
  using length_take_utf8 [of n cs]
  by (simp add: advance_def c_str_def drop_utf8_string)

lemmas text_simps = text_of_def String_def CountBytes_text advance_text text_ok_short text_ok_drop
  length_take_utf8 length_take_text_less take_utf8_string drop_utf8_string

lemma InsertChars_str_text:
  assumes "text_ok cs" "text_ok ds" "0 \<le> k"
  shows "InsertChars_str (text_of cs) (Other (text_of ds)) k = Inr (text_of (take (nat k) cs @ ds @ drop (nat k) cs))"
proof -
  have "Insert_str (text_of cs) (Other (text_of ds)) (int (length (utf8_string (take (nat k) cs))))
      = Inr (text_of (take (nat k) cs @ ds @ drop (nat k) cs))"
    using assms
    by (cases "utf8_string ds = []")
       (simp_all add: text_simps Insert_str_def Insert_cstr_in_range text_ok_no_zero
         flip: utf8_string_split)
  then show ?thesis using assms by (simp add: InsertChars_str_def text_simps)
qed

lemma RemoveChars_text:
  assumes "text_ok cs" "0 \<le> i" "0 \<le> n"
  shows "RemoveChars (text_of cs) i n = Inr (text_of (take (nat i) cs @ drop (nat i + nat n) cs))"
proof -
  let ?f = "length (utf8_string (take (nat i) cs))"
  let ?n = "length (utf8_string (take (nat n) (drop (nat i) cs)))"
  have "drop (?f + ?n) (utf8_string cs) = drop ?n (drop ?f (utf8_string cs))"
    by (simp add: add.commute)
  also have "\<dots> = utf8_string (drop (nat n) (drop (nat i) cs))"
    by (simp only: drop_utf8_string)
  also have "drop (nat n) (drop (nat i) cs) = drop (nat i + nat n) cs"
    by (simp add: add.commute)
  finally have "drop (?f + ?n) (utf8_string cs) = utf8_string (drop (nat i + nat n) cs)" .
  moreover have "Remove (text_of cs) (int ?f) (int ?n)
      = Inr (BString (take ?f (utf8_string cs) @ drop (?f + ?n) (utf8_string cs)))"
    unfolding text_of_def
    using assms by (intro Remove_in_range) (simp_all add: text_simps)
  ultimately show ?thesis
    using assms by (simp add: RemoveChars_def Let_def text_simps)
qed

lemma AppendChars_str_text:
  assumes "text_ok ds" "0 \<le> n"
  shows "AppendChars_str (text_of cs) (Other (text_of ds)) n = Inr (text_of (cs @ take (nat n) ds))"
  using assms by (simp add: AppendChars_str_def text_simps Append_str_in_range)

lemma PrependChars_str_text:
  assumes "text_ok ds" "0 \<le> n"
  shows "PrependChars_str (text_of cs) (Other (text_of ds)) n = Inr (text_of (take (nat n) ds @ cs))"
  using assms by (simp add: PrependChars_str_def text_simps Prepend_str_n_in_range)

lemma CountChars_loop_eq: "CountChars_loop m n = count_chars_all m n"
  by (induction m n rule: CountChars_loop.induct) simp_all

lemma CountChars_text: "text_ok cs \<Longrightarrow> CountChars (text_of cs) = Inr (int (length cs))"
proof -
  assume ok: "text_ok cs"
  then have "glyph_starts (utf8_string cs) = length cs"
    by (simp add: glyph_starts_utf8_string text_ok_def)
  moreover from this have "length cs < 2 ^ 31"
    using glyph_starts_le [of "utf8_string cs"] ok by (simp add: text_ok_def short_def)
  ultimately show ?thesis
    using ok count_chars_all_eq [of "utf8_string cs" "[]" 0]
    by (simp add: CountChars_def text_of_def c_str_def CountChars_loop_eq text_ok_no_zero int32_of_nat)
qed

section \<open>The order of the comparison operators\<close>

lemma std_compare_range: "std_compare xs ys \<in> {- 1, 0, 1}"
  by (induction xs ys rule: std_compare.induct) auto

lemma std_compare_swap: "std_compare ys xs = - std_compare xs ys"
  by (induction xs ys rule: std_compare.induct) auto

lemma std_compare_0_iff [simp]: "std_compare xs ys = 0 \<longleftrightarrow> xs = ys"
  by (induction xs ys rule: std_compare.induct) (auto split: if_splits)

lemma std_compare_less_iff: "std_compare xs ys < 0 \<longleftrightarrow> ord_class.lexordp xs ys"
  by (induction xs ys rule: std_compare.induct) auto

lemma lexordp_trans_bytes:
  "ord_class.lexordp xs ys \<Longrightarrow> ord_class.lexordp ys zs \<Longrightarrow> ord_class.lexordp (xs :: byte list) zs"
  by (rule lexordp_trans)

lemma op_less_alt: "op_less a b \<longleftrightarrow> ord_class.lexordp (bytes a) (bytes b)"
  by (simp add: op_less_def std_compare_less_iff)

lemma op_less_eq_alt: "op_less_eq a b \<longleftrightarrow> op_less a b \<or> a = b"
  by (cases a; cases b) (auto simp: op_less_eq_def op_less_def order.order_iff_strict)

lemma op_less_asym: "op_less a b \<Longrightarrow> \<not> op_less b a"
  using std_compare_swap [of "bytes a" "bytes b"] by (auto simp: op_less_def)

lemma op_total: "op_less a b \<or> a = b \<or> op_less b a"
  using std_compare_swap [of "bytes a" "bytes b"]
  by (cases a; cases b) (auto simp: op_less_def simp flip: std_compare_0_iff)

lemma compare_cstr_eq:
  "compare_cstr r a p = bindR (BString_cstr p) (\<lambda>c. Inr (r (std_compare (bytes a) (bytes c))))"
  by (simp add: compare_cstr_def BString_cstr_def bindR_assoc)

instantiation bstring :: linorder
begin

definition less_bstring :: "bstring \<Rightarrow> bstring \<Rightarrow> bool" where
  "less_bstring a b = op_less a b"

definition less_eq_bstring :: "bstring \<Rightarrow> bstring \<Rightarrow> bool" where
  "less_eq_bstring a b = op_less_eq a b"

instance
proof
  fix a b c :: bstring
  show "a < b \<longleftrightarrow> a \<le> b \<and> \<not> b \<le> a"
    using op_less_asym by (auto simp: less_bstring_def less_eq_bstring_def op_less_eq_alt)
  show "a \<le> a" by (simp add: less_eq_bstring_def op_less_eq_alt)
  show "a \<le> b \<Longrightarrow> b \<le> c \<Longrightarrow> a \<le> c"
    by (auto simp: less_eq_bstring_def op_less_eq_alt op_less_alt intro: lexordp_trans_bytes)
  show "a \<le> b \<Longrightarrow> b \<le> a \<Longrightarrow> a = b"
    using op_less_asym by (auto simp: less_eq_bstring_def op_less_eq_alt)
  show "a \<le> b \<or> b \<le> a"
    using op_total by (auto simp: less_eq_bstring_def op_less_eq_alt)
qed

end

section \<open>Decimal numbers\<close>

definition dec_value :: "byte list \<Rightarrow> nat" where
  "dec_value ds = foldl (\<lambda>v b. 10 * v + (unat b - 48)) 0 ds"

definition dec_parse :: "byte list \<Rightarrow> int" where
  "dec_parse ds = (case ds of [] \<Rightarrow> 0
                   | d # r \<Rightarrow> if d = 0x2d then - int (dec_value r) else int (dec_value ds))"

lemma unat_digit:
  "d < 10 \<Longrightarrow> unat (word_of_nat (48 + d) :: byte) = 48 + d"
  "d < 10 \<Longrightarrow> unat (48 + word_of_nat d :: byte) = 48 + d"
proof -
  show "d < 10 \<Longrightarrow> unat (word_of_nat (48 + d) :: byte) = 48 + d"
    by (simp only: unat_of_nat) simp
  then show "d < 10 \<Longrightarrow> unat (48 + word_of_nat d :: byte) = 48 + d" by simp
qed

lemma dec_value_snoc: "dec_value (ds @ [b]) = 10 * dec_value ds + (unat b - 48)"
  by (simp add: dec_value_def)

lemma dec_value_single: "dec_value [b] = unat b - 48"
  by (simp add: dec_value_def)

lemma dec_value_digits: "dec_value (dec_digits n) = n"
proof (induction n rule: dec_digits.induct)
  case (1 n)
  show ?case
  proof (cases "n < 10")
    case True
    then show ?thesis by (subst dec_digits.simps) (simp add: dec_value_single unat_digit)
  next
    case False
    then have "dec_value (dec_digits n) = 10 * dec_value (dec_digits (n div 10)) + n mod 10"
      by (subst dec_digits.simps) (simp add: dec_value_snoc unat_digit)
    then show ?thesis using 1 False by simp
  qed
qed

lemma dec_digits_range: "\<forall>b\<in>set (dec_digits n). 48 \<le> unat b \<and> unat b \<le> 57"
proof (induction n rule: dec_digits.induct)
  case (1 n)
  have d: "48 \<le> unat (word_of_nat (48 + k) :: byte) \<and> unat (word_of_nat (48 + k) :: byte) \<le> 57"
    if "k < 10" for k using that by (simp only: unat_digit) simp
  show ?case using 1 d [of n] d [of "n mod 10"] by (subst dec_digits.simps) auto
qed

lemma dec_digits_nonempty: "dec_digits n \<noteq> []"
  by (subst dec_digits.simps) simp

lemma dec_digits_no_sign: "hd (dec_digits n) \<noteq> 0x2d"
proof
  assume "hd (dec_digits n) = 0x2d"
  moreover have "hd (dec_digits n) \<in> set (dec_digits n)" by (simp add: dec_digits_nonempty)
  ultimately show False using dec_digits_range [of n] by fastforce
qed

lemma dec_parse_int: "dec_parse (dec_int i) = i"
proof (cases "i < 0")
  case True
  then show ?thesis by (simp add: dec_int_def dec_parse_def dec_value_digits)
next
  case False
  moreover obtain d r where "dec_digits (nat i) = d # r"
    using dec_digits_nonempty [of "nat i"] by (cases "dec_digits (nat i)") auto
  ultimately show ?thesis
    using dec_digits_no_sign [of "nat i"] dec_value_digits [of "nat i"]
    by (simp add: dec_int_def dec_parse_def)
qed

section \<open>Properties\<close>

text \<open>C2. The character-based editing operations refine editing of a list of code points: on strings
  that hold the UTF-8 encodings of code points, inserting at, removing from, appending and prepending
  a number of characters give the encodings of the edited list, never splitting a character, and
  \<open>CountChars\<close> is the length of the list.\<close>

theorem char_editing_refines_text:
  assumes "text_ok cs" "text_ok ds" "0 \<le> i" "0 \<le> n"
  shows "InsertChars_str (text_of cs) (Other (text_of ds)) i
           = Inr (text_of (take (nat i) cs @ ds @ drop (nat i) cs)) \<and>
         RemoveChars (text_of cs) i n = Inr (text_of (take (nat i) cs @ drop (nat i + nat n) cs)) \<and>
         AppendChars_str (text_of cs) (Other (text_of ds)) n = Inr (text_of (cs @ take (nat n) ds)) \<and>
         PrependChars_str (text_of cs) (Other (text_of ds)) n = Inr (text_of (take (nat n) ds @ cs)) \<and>
         CountChars (text_of cs) = Inr (int (length cs))"
  using assms InsertChars_str_text RemoveChars_text AppendChars_str_text PrependChars_str_text
    CountChars_text by simp

theorem char_editing_refines_text_witness:
  "InsertChars_str (text_of [0xe9, 0x41]) (Other (text_of [0x20ac])) 1
     = Inr (text_of (take (nat 1) [0xe9, 0x41] @ [0x20ac] @ drop (nat 1) [0xe9, 0x41]))"
proof -
  have "text_ok [0xe9, 0x41]" "text_ok [0x20ac]"
    by (simp_all add: text_ok_def code_point_def short_def utf8_encode_def)
  then show ?thesis using char_editing_refines_text [of "[0xe9, 0x41]" "[0x20ac]" 1 0] by simp
qed

text \<open>\<open>Remove\<close> undoes \<open>Insert\<close>: inserting a C string at a position inside the string and
  removing its length there gives the original object back, as long as the result is addressable
  with an \<open>int32\<close>.\<close>

lemma Remove_undoes_Insert:
  assumes "short (s @ cstring m)" "p \<le> length s" "0 \<in> set m"
  shows "bindR (Insert_cstr (BString s) (Some m) (int p))
           (\<lambda>t. Remove t (int p) (int (length (cstring m)))) = Inr (BString s)"
proof -
  let ?t = "take p s @ cstring m @ drop p s"
  have t: "short ?t" "short s" "length (cstring m) < 2 ^ 31"
    using assms(1) by (simp_all add: short_def)
  have "Remove (BString ?t) (int p) (int (length (cstring m)))
      = Inr (BString (take p ?t @ drop (p + length (cstring m)) ?t))"
    by (rule Remove_in_range [OF t(1) _ t(3)]) (simp add: assms(2))
  then show ?thesis using Insert_cstr_in_range [OF t(2) assms(2,3)] assms(2) by simp
qed

text \<open>Negative positions: \<open>Insert\<close> of a C string and \<open>Remove\<close> pass the position on as an
  unsigned value, so they end with \<open>std::out_of_range\<close>; \<open>Insert\<close> of a repeated character clips the
  part before the start instead, and a negative \<open>Truncate\<close> changes nothing.\<close>

lemma negative_positions:
  assumes "short s" "p < 0" "- (2 ^ 31) \<le> p" "0 \<in> set m" "0 < n" "0 \<le> k" "k < 2 ^ 31"
  shows "Insert_cstr (BString s) (Some m) p = Inl Out_of_range \<and>
         Remove (BString s) p n = Inl Out_of_range \<and>
         Insert_char (BString s) c k p = Inr (BString (replicate (nat (k + p)) c @ s)) \<and>
         Truncate (BString s) p lazy = BString s"
proof -
  have big: "length s < size_t p" using size_t_neg_int32 assms by blast
  have i: "int32 (k + p) = k + p" using assms by (intro int32_id) auto
  have "nat (k + p) < 2 ^ 31" using assms by auto
  then have "Insert_char (BString s) c k p = Inr (BString (replicate (nat (k + p)) c @ s))"
    using assms i size_t_nonneg [of "k + p"]
    by (simp add: Insert_char_def insert_bytes_def std_fill_def max_size_def std_insert_def)
  then show ?thesis
    using assms big
    by (simp add: Insert_cstr_def insert_bytes_def Remove_def std_erase_def Truncate_def)
qed

text \<open>\<open>SetTo(const BString &, int32 length)\<close> does not keep the first \<open>length\<close> bytes as
  \<open>SetTo(const char *, int32 length)\<close> does: it drops them and assigns the rest, and a length above
  the size of the source ends with \<open>std::out_of_range\<close>.\<close>

lemma SetTo_length_assigns_rest:
  assumes "short s" "short (drop n s)" "n < 2 ^ 31"
  shows "SetTo_str_n this (Other (BString s)) (int n)
           = (if n \<le> length s then Inr (BString (drop n s)) else Inl Out_of_range) \<and>
         (n \<le> length s \<longrightarrow> SetTo_cstr_n this (Some (String (BString s))) (int n) = Inr (BString (take n s)))"
  using assms
  by (auto simp: SetTo_str_n_def SetTo_cstr_n_def String_def std_read_def read_bytes_def c_str_def
      size_t_of_nat max_size_def)

text \<open>The comparison operators are the lexicographic order of the unsigned bytes: exactly one of
  \<open><\<close>, \<open>==\<close>, \<open>>\<close> holds, the other three operators are their complements, \<open>==\<close> is equality of the
  contents, and comparing with a C string is comparing with a \<open>BString\<close> constructed from it.\<close>

lemma comparison_operators:
  "op_less a b = ord_class.lexordp (bytes a) (bytes b) \<and> op_greater a b = op_less b a \<and>
   op_eq a b = (a = b) \<and> op_less_eq a b = (\<not> op_greater a b) \<and> op_greater_eq a b = (\<not> op_less a b) \<and>
   op_not_eq a b = (\<not> op_eq a b) \<and> (op_less a b \<noteq> (op_eq a b \<noteq> op_greater a b)) \<and>
   op_less_cstr a p = bindR (BString_cstr p) (\<lambda>c. Inr (op_less a c)) \<and>
   op_eq_cstr a p = bindR (BString_cstr p) (\<lambda>c. Inr (op_eq a c)) \<and>
   op_greater_cstr a p = bindR (BString_cstr p) (\<lambda>c. Inr (op_greater a c))"
proof -
  define c where "c = std_compare (bytes a) (bytes b)"
  have "a = b \<longleftrightarrow> c = 0" by (cases a; cases b) (simp add: c_def)
  moreover have "ord_class.lexordp (bytes a) (bytes b) \<longleftrightarrow> c < 0" by (simp add: c_def std_compare_less_iff)
  moreover have "std_compare (bytes b) (bytes a) = - c" unfolding c_def by (rule std_compare_swap)
  ultimately show ?thesis
    unfolding op_less_cstr_def op_eq_cstr_def op_greater_cstr_def compare_cstr_eq op_less_def op_greater_def
      op_eq_def op_less_eq_def op_greater_eq_def op_not_eq_def c_def [symmetric]
    by auto
qed

text \<open>The integer output operators append a decimal numeral that denotes the value: reading back
  what \<open>operator<<(int32)\<close> or \<open>operator<<(int64)\<close> appended gives the number, likewise for the
  unsigned operators, and the text before it is kept.\<close>

lemma integer_output_roundtrip:
  "dec_parse (drop (length (bytes this)) (bytes (put_signed this i))) = i \<and>
   dec_parse (drop (length (bytes this)) (bytes (put_unsigned this n))) = int n \<and>
   take (length (bytes this)) (bytes (put_signed this i)) = bytes this \<and>
   take (length (bytes this)) (bytes (put_unsigned this n)) = bytes this"
proof -
  have "dec_parse (dec_digits n) = int n" using dec_parse_int [of "int n"] by (simp add: dec_int_def)
  then show ?thesis using dec_parse_int [of i] by (simp add: put_signed_def put_unsigned_def)
qed

end
