(* ===== verification/BList.thy ===== *)
theory BList
  imports Be_Prelude "HOL-Library.Multiset"
begin

text \<open>
  \<open>BList\<close> of \<open>kits/support/List.cpp\<close>: a list of untyped pointers over one \<open>std::vector<void *>\<close>.
  The value of the object is the list of addresses. Iterator arithmetic outside the vector and
  comparators that are not a strict weak order are \<open>Undefined\<close>, as the library leaves them. The
  parameter list of the two \<open>AddList\<close> functions may be the object itself (\<open>Same\<close>): the code
  reads it after the resize. The theory ends with the contract that the clients of the class
  (looper handlers, menu items) rely on, as a locale, interpreted on the model.
\<close>

section \<open>Operations\<close>

definition BList_new :: "int \<Rightarrow> ptr list outcome" where
  "BList_new initialAllocSize = std_fill (size_t initialAllocSize) null"

definition BList_copy :: "ptr list \<Rightarrow> ptr list" where
  "BList_copy other = other"

definition BList_assign :: "ptr list \<Rightarrow> ptr list arg \<Rightarrow> ptr list" where
  "BList_assign this from = deref this from"

definition AddItem :: "ptr list \<Rightarrow> ptr \<Rightarrow> bool \<times> ptr list" where
  "AddItem this item = (True, this @ [item])"

text \<open>
  An index equal to the size appends. Otherwise \<open>begin() + atIndex\<close> is the position, defined only
  inside the vector, and the result says that the returned iterator is not the end, which holds for
  the iterator of an inserted element.
\<close>

definition AddItem_at :: "ptr list \<Rightarrow> ptr \<Rightarrow> int \<Rightarrow> (bool \<times> ptr list) outcome" where
  "AddItem_at this item atIndex =
     (if size_t atIndex = length this then Inr (AddItem this item)
      else if 0 \<le> atIndex \<and> atIndex \<le> int (length this)
      then bindR (std_insert this (nat atIndex) [item]) (\<lambda>r. Inr (True, r))
      else Inl Undefined)"

function copy_items :: "ptr list \<Rightarrow> ptr list arg \<Rightarrow> nat \<Rightarrow> nat \<Rightarrow> nat \<Rightarrow> ptr list outcome" where
  "copy_items this newItems source dest newSize =
     (if dest < newSize
      then if source < length (deref this newItems) \<and> dest < length this
           then copy_items (this[dest := deref this newItems ! source]) newItems (Suc source) (Suc dest) newSize
           else Inl Undefined
      else Inr this)"
  by pat_completeness auto

termination copy_items
  by (relation "measure (\<lambda>(this, newItems, source, dest, newSize). newSize - dest)") auto

declare copy_items.simps [simp del]

definition resize :: "ptr list \<Rightarrow> nat \<Rightarrow> ptr list" where
  "resize xs n = take n xs @ replicate (n - length xs) null"

definition AddList :: "ptr list \<Rightarrow> ptr list arg \<Rightarrow> (bool \<times> ptr list) outcome" where
  "AddList this newItems =
     (let newSize = length this + length (deref this newItems); data = resize this newSize
      in bindR (copy_items data newItems 0 (length data) newSize) (\<lambda>r. Inr (True, r)))"

text \<open>
  The \<open>do ... while (source > 0)\<close> loop of the second \<open>AddList\<close>. The counters are unsigned 64-bit
  values: decrementing 0 gives \<open>2^64 - 1\<close>.
\<close>

definition dec64 :: "nat \<Rightarrow> nat" where
  "dec64 n = (if n = 0 then 2 ^ 64 - 1 else n - 1)"

function move_items :: "ptr list \<Rightarrow> nat \<Rightarrow> nat \<Rightarrow> ptr list outcome" where
  "move_items this source dest =
     (if source < length this \<and> dest < length this
      then let this' = this[dest := this ! source]; source' = dec64 source; dest' = dec64 dest
           in if 0 < source' then move_items this' source' dest' else Inr this'
      else Inl Undefined)"
  by pat_completeness auto

termination move_items
  by (relation "measure (\<lambda>(this, source, dest). if source = 0 then 2 ^ 64 else source)")
     (auto simp: dec64_def split: if_splits)

declare move_items.simps [simp del]

definition AddList_at :: "ptr list \<Rightarrow> ptr list arg \<Rightarrow> int \<Rightarrow> (bool \<times> ptr list) outcome" where
  "AddList_at this newItems atIndex =
     (let destSize = length this; sourceSize = length (deref this newItems)
      in if sourceSize = 0 then Inr (True, this)
         else if destSize < size_t atIndex then Inr (False, this)
         else
           let newSize = destSize + sourceSize; data = resize this newSize
           in bindR (if size_t atIndex < destSize then move_items data (sourceSize - 1) (newSize - 1)
                     else Inr data) (\<lambda>data'.
              bindR (copy_items data' newItems 0 destSize newSize) (\<lambda>r. Inr (True, r))))"

definition RemoveItem :: "ptr list \<Rightarrow> ptr \<Rightarrow> bool \<times> ptr list" where
  "RemoveItem this item =
     (let pos = find_index (\<lambda>x. x = item) this
      in if pos = length this then (False, this)
         else (True, take pos this @ drop (Suc pos) this))"

definition RemoveItem_at :: "ptr list \<Rightarrow> int \<Rightarrow> (ptr \<times> ptr list) outcome" where
  "RemoveItem_at this index =
     (if index = int (length this) then Inr (null, this)
      else if 0 \<le> index \<and> index < int (length this)
      then let pos = nat index in Inr (this ! pos, take pos this @ drop (Suc pos) this)
      else Inl Undefined)"

definition RemoveItems :: "ptr list \<Rightarrow> int \<Rightarrow> int \<Rightarrow> (bool \<times> ptr list) outcome" where
  "RemoveItems this index n =
     (if index = int (length this) then Inr (False, this)
      else if 0 \<le> index \<and> 0 \<le> n \<and> index + n \<le> int (length this)
      then Inr (True, take (nat index) this @ drop (nat (index + n)) this)
      else Inl Undefined)"

definition MakeEmpty :: "ptr list \<Rightarrow> ptr list" where
  "MakeEmpty this = []"

text \<open>
  \<open>std::sort\<close> calls the comparator as a boolean, so any non-zero result means "before". It is
  defined only when that is a strict weak order on the elements; then one of the sorted
  permutations results (the model takes the stable one).
\<close>

definition before_ok :: "('a \<Rightarrow> 'a \<Rightarrow> bool) \<Rightarrow> 'a \<Rightarrow> 'a \<Rightarrow> 'a \<Rightarrow> bool" where
  "before_ok lt x y z \<longleftrightarrow>
     \<not> lt x x \<and> (lt x y \<longrightarrow> \<not> lt y x) \<and> (lt x z \<longrightarrow> lt x y \<or> lt y z) \<and> (lt x y \<longrightarrow> lt y z \<longrightarrow> lt x z)"

definition strict_weak :: "('a \<Rightarrow> 'a \<Rightarrow> bool) \<Rightarrow> 'a list \<Rightarrow> bool" where
  "strict_weak lt xs \<longleftrightarrow> (\<forall>x\<in>set xs. \<forall>y\<in>set xs. \<forall>z\<in>set xs. before_ok lt x y z)"

fun sort_insert :: "('a \<Rightarrow> 'a \<Rightarrow> bool) \<Rightarrow> 'a \<Rightarrow> 'a list \<Rightarrow> 'a list" where
  "sort_insert lt x [] = [x]"
| "sort_insert lt x (y # ys) = (if lt y x then y # sort_insert lt x ys else x # y # ys)"

definition std_sort :: "('a \<Rightarrow> 'a \<Rightarrow> bool) \<Rightarrow> 'a list \<Rightarrow> 'a list outcome" where
  "std_sort lt xs = (if strict_weak lt xs then Inr (foldr (sort_insert lt) xs []) else Inl Undefined)"

definition SortItems :: "(ptr \<Rightarrow> ptr \<Rightarrow> int) \<Rightarrow> ptr list \<Rightarrow> ptr list outcome" where
  "SortItems cmp this = std_sort (\<lambda>x y. cmp x y \<noteq> 0) this"

definition ItemAt :: "ptr list \<Rightarrow> int \<Rightarrow> ptr" where
  "ItemAt this index = (if size_t index < length this then this ! size_t index else null)"

definition FirstItem :: "ptr list \<Rightarrow> ptr" where
  "FirstItem this = (case this of [] \<Rightarrow> null | x # _ \<Rightarrow> x)"

definition LastItem :: "ptr list \<Rightarrow> ptr" where
  "LastItem this = (if this = [] then null else last this)"

definition Items :: "ptr list \<Rightarrow> ptr list" where
  "Items this = this"

definition HasItem :: "ptr list \<Rightarrow> ptr \<Rightarrow> bool" where
  "HasItem this item \<longleftrightarrow> find_index (\<lambda>x. x = item) this \<noteq> length this"

definition IndexOf :: "ptr list \<Rightarrow> ptr \<Rightarrow> int" where
  "IndexOf this item =
     (let pos = find_index (\<lambda>x. x = item) this
      in if pos = length this then - 1 else int32 (int pos))"

definition CountItems :: "ptr list \<Rightarrow> int" where
  "CountItems this = int32 (int (length this))"

definition IsEmpty :: "ptr list \<Rightarrow> bool" where
  "IsEmpty this \<longleftrightarrow> this = []"

text \<open>The callback is a state transformer; the loop drops its boolean result.\<close>

fun DoForEach :: "(ptr \<Rightarrow> 's \<Rightarrow> bool \<times> 's) \<Rightarrow> ptr list \<Rightarrow> 's \<Rightarrow> 's" where
  "DoForEach func [] s = s"
| "DoForEach func (item # items) s = DoForEach func items (snd (func item s))"

definition DoForEach_arg :: "(ptr \<Rightarrow> 'a \<Rightarrow> 's \<Rightarrow> bool \<times> 's) \<Rightarrow> 'a \<Rightarrow> ptr list \<Rightarrow> 's \<Rightarrow> 's" where
  "DoForEach_arg func arg this s = DoForEach (\<lambda>item. func item arg) this s"

section \<open>Basic facts\<close>

definition fits :: "'a list \<Rightarrow> bool" where
  "fits xs \<longleftrightarrow> length xs < 2 ^ 31"

lemma fits_conv [simp]:
  "fits xs \<Longrightarrow> n \<le> length xs \<Longrightarrow> size_t (int n) = n"
  "fits xs \<Longrightarrow> n \<le> length xs \<Longrightarrow> int32 (int n) = int n"
  by (simp_all add: fits_def size_t_of_nat int32_of_nat)

lemma fits_size_t_neg: "fits xs \<Longrightarrow> i < 0 \<Longrightarrow> - (2 ^ 31) \<le> i \<Longrightarrow> length xs < size_t i"
  using size_t_neg [of i] by (auto simp: fits_def)

lemma HasItem_iff [simp]: "HasItem this item \<longleftrightarrow> item \<in> set this"
  using find_index_eq_iff [of "\<lambda>x. x = item" this] by (auto simp: HasItem_def)

lemma RemoveItem_eq: "RemoveItem this item = (item \<in> set this, remove1 item this)"
proof -
  have "take (find_index (\<lambda>x. x = item) this) this @ drop (Suc (find_index (\<lambda>x. x = item) this)) this
      = remove1 item this" if "item \<in> set this"
    using that by (induction this) auto
  then show ?thesis
    using find_index_eq_iff [of "\<lambda>x. x = item" this]
    by (auto simp: RemoveItem_def Let_def remove1_idem)
qed

lemma IndexOf_eq_find_index:
  "fits this \<Longrightarrow> item \<in> set this \<Longrightarrow> IndexOf this item = int (find_index (\<lambda>x. x = item) this)"
  using find_index_eq_iff [of "\<lambda>x. x = item" this] find_index_le [of "\<lambda>x. x = item" this]
  by (auto simp: IndexOf_def Let_def)

lemma IndexOf_mem: "fits this \<Longrightarrow> item \<in> set this \<Longrightarrow>
    0 \<le> IndexOf this item \<and> IndexOf this item < int (length this) \<and> this ! nat (IndexOf this item) = item"
  using find_index_less_iff [of "\<lambda>x. x = item" this] find_index_nth [of "\<lambda>x. x = item" this]
  by (auto simp: IndexOf_eq_find_index)

lemma IndexOf_not_mem: "item \<notin> set this \<Longrightarrow> IndexOf this item = - 1"
  using find_index_eq_iff [of "\<lambda>x. x = item" this] by (auto simp: IndexOf_def Let_def)

lemma IndexOf_nonneg_iff: "fits this \<Longrightarrow> 0 \<le> IndexOf this item \<longleftrightarrow> item \<in> set this"
  using IndexOf_mem IndexOf_not_mem by force

lemma ItemAt_nth [simp]: "fits this \<Longrightarrow> i < length this \<Longrightarrow> ItemAt this (int i) = this ! i"
  by (simp add: ItemAt_def)

lemma AddItem_at_in_range:
  "fits this \<Longrightarrow> i \<le> length this \<Longrightarrow> AddItem_at this item (int i) = Inr (True, take i this @ item # drop i this)"
  by (auto simp: AddItem_at_def AddItem_def std_insert_def)

lemma RemoveItem_at_in_range:
  "i < length this \<Longrightarrow> RemoveItem_at this (int i) = Inr (this ! i, take i this @ drop (Suc i) this)"
  by (simp add: RemoveItem_at_def)

lemma CountItems_fits [simp]: "fits this \<Longrightarrow> CountItems this = int (length this)"
  by (simp add: CountItems_def)

lemma copy_items_nop: "newSize \<le> dest \<Longrightarrow> copy_items this newItems source dest newSize = Inr this"
  by (subst copy_items.simps) simp

lemma copy_items_Other:
  "length this = dest + length (drop source xs) \<Longrightarrow> source \<le> length xs \<Longrightarrow>
   copy_items this (Other xs) source dest (length this) = Inr (take dest this @ drop source xs)"
proof (induction "length xs - source" arbitrary: this source dest)
  case 0
  then show ?case by (simp add: copy_items_nop)
next
  case (Suc n)
  then have lt: "source < length xs" "dest < length this" by auto
  let ?t = "this[dest := xs ! source]"
  have "copy_items ?t (Other xs) (Suc source) (Suc dest) (length ?t)
      = Inr (take (Suc dest) ?t @ drop (Suc source) xs)"
    using Suc lt by (intro Suc.hyps) auto
  then have "copy_items this (Other xs) source dest (length this)
      = Inr (take (Suc dest) ?t @ drop (Suc source) xs)"
    using lt by (subst copy_items.simps) simp
  also have "take (Suc dest) ?t @ drop (Suc source) xs = take dest this @ drop source xs"
    using lt by (simp add: take_Suc_conv_app_nth Cons_nth_drop_Suc)
  finally show ?case .
qed

lemma length_resize [simp]: "length (resize xs n) = n"
  by (simp add: resize_def)

lemma resize_longer: "resize xs (length xs + n) = xs @ replicate n null"
  by (simp add: resize_def)

text \<open>
  The second loop of \<open>AddList\<close> with an index copies the parameter behind the old items; the
  first one has overwritten the end of the old items or of the gap before.
\<close>

lemma move_items_keeps:
  "0 < source \<Longrightarrow> source + n < length this \<Longrightarrow> length this < 2 ^ 64 \<Longrightarrow>
   \<exists>r. move_items this source (source + n) = Inr r \<and> length r = length this \<and> take (Suc n) r = take (Suc n) this"
proof (induction source arbitrary: this)
  case (Suc k)
  let ?t = "this[Suc k + n := this ! Suc k]"
  have keep: "length ?t = length this" "take (Suc n) ?t = take (Suc n) this"
    by (simp_all add: take_update_cancel)
  have step: "move_items this (Suc k) (Suc k + n) = (if 0 < k then move_items ?t k (k + n) else Inr ?t)"
    using Suc.prems by (subst move_items.simps) (simp add: dec64_def Let_def)
  show ?case
  proof (cases "0 < k")
    case True
    then show ?thesis using Suc.IH [of ?t] Suc.prems step keep by auto
  next
    case False
    then show ?thesis using step keep by auto
  qed
qed simp

lemma move_items_wraps:
  "0 < dest \<Longrightarrow> length this < 2 ^ 63 \<Longrightarrow> move_items this 0 dest = Inl Undefined"
  by (subst move_items.simps, subst move_items.simps) (simp add: dec64_def Let_def)

lemma AddList_nulls: "AddList this newItems = Inr (True, this @ replicate (length (deref this newItems)) null)"
  by (simp add: AddList_def Let_def copy_items_nop resize_longer)

lemma AddList_at_appends:
  assumes "2 \<le> length xs" "0 \<le> atIndex" "atIndex < int (length this)" "fits (this @ xs)"
  shows "AddList_at this (Other xs) atIndex = Inr (True, this @ xs)"
proof -
  have fit: "length this + length xs < 2 ^ 31" using assms by (simp add: fits_def)
  obtain i where i: "atIndex = int i" "i < length this" using assms by (metis zero_le_imp_eq_int of_nat_less_iff)
  have si: "size_t atIndex = i" using i fit by (simp add: size_t_of_nat)
  let ?data = "resize this (length this + length xs)"
  have "\<exists>r. move_items ?data (length xs - 1) (length xs - 1 + length this) = Inr r \<and>
        length r = length ?data \<and> take (Suc (length this)) r = take (Suc (length this)) ?data"
    using assms fit by (intro move_items_keeps) auto
  then obtain r where r: "move_items ?data (length xs - 1) (length this + length xs - 1) = Inr r"
      "length r = length this + length xs" "take (Suc (length this)) r = take (Suc (length this)) ?data"
    using assms by (auto simp: add.commute)
  have "take (length this) r = take (length this) (take (Suc (length this)) r)" by simp
  also have "\<dots> = this" using assms by (simp add: r resize_longer)
  finally have "take (length this) r = this" .
  moreover have "copy_items r (Other xs) 0 (length this) (length r) = Inr (take (length this) r @ drop 0 xs)"
    by (rule copy_items_Other) (simp_all add: r)
  ultimately show ?thesis
    using assms i si r by (simp add: AddList_at_def Let_def)
qed

lemma AddList_at_single:
  assumes "0 \<le> atIndex" "atIndex < int (length this)" "fits this"
  shows "AddList_at this (Other [x]) atIndex = Inl Undefined"
proof -
  have fit: "length this < 2 ^ 31" using assms by (simp add: fits_def)
  obtain i where i: "atIndex = int i" "i < length this" using assms by (metis zero_le_imp_eq_int of_nat_less_iff)
  have si: "size_t atIndex = i" using i fit by (simp add: size_t_of_nat)
  have "move_items (resize this (Suc (length this))) 0 (length this) = Inl Undefined"
    using i fit by (intro move_items_wraps) auto
  then show ?thesis using i si by (simp add: AddList_at_def Let_def)
qed

section \<open>Sorting\<close>

lemma sort_insert_mset [simp]: "mset (sort_insert lt x xs) = add_mset x (mset xs)"
  by (induction xs) auto

lemma strict_weakD:
  "strict_weak lt xs \<Longrightarrow> x \<in> set xs \<Longrightarrow> y \<in> set xs \<Longrightarrow> z \<in> set xs \<Longrightarrow> before_ok lt x y z"
  by (simp add: strict_weak_def)

lemma strict_weak_mono: "strict_weak lt ys \<Longrightarrow> set xs \<subseteq> set ys \<Longrightarrow> strict_weak lt xs"
  unfolding strict_weak_def by (meson subsetD)

lemma sort_insert_set [simp]: "set (sort_insert lt x xs) = insert x (set xs)"
  by (induction xs) auto

lemma sort_insert_sorted:
  "strict_weak lt (x # xs) \<Longrightarrow> sorted_wrt (\<lambda>a b. \<not> lt b a) xs \<Longrightarrow> sorted_wrt (\<lambda>a b. \<not> lt b a) (sort_insert lt x xs)"
proof (induction xs)
  case (Cons y ys)
  have sub: "strict_weak lt (x # ys)" by (rule strict_weak_mono [OF Cons.prems(1)]) auto
  have xy: "before_ok lt x y y" using Cons.prems(1) by (rule strict_weakD) auto
  show ?case
  proof (cases "lt y x")
    case True
    then have "\<not> lt x y" using xy by (auto simp: before_ok_def)
    then show ?thesis using True Cons.IH [OF sub] Cons.prems(2) by auto
  next
    case False
    have "\<not> lt z x" if z: "z \<in> set ys" for z
    proof
      assume zx: "lt z x"
      have "before_ok lt z y x" using Cons.prems(1) by (rule strict_weakD) (use z in auto)
      moreover have "\<not> lt z y" using Cons.prems(2) z by simp
      ultimately show False using zx False by (simp add: before_ok_def)
    qed
    then show ?thesis using False Cons.prems(2) by auto
  qed
qed simp

lemma sort_foldr:
  "strict_weak lt xs \<Longrightarrow> mset (foldr (sort_insert lt) xs []) = mset xs \<and>
     sorted_wrt (\<lambda>a b. \<not> lt b a) (foldr (sort_insert lt) xs [])"
proof (induction xs)
  case (Cons x xs)
  have "strict_weak lt xs" by (rule strict_weak_mono [OF Cons.prems]) auto
  with Cons.IH have IH: "mset (foldr (sort_insert lt) xs []) = mset xs"
      "sorted_wrt (\<lambda>a b. \<not> lt b a) (foldr (sort_insert lt) xs [])" by auto
  have "strict_weak lt (x # foldr (sort_insert lt) xs [])"
    by (rule strict_weak_mono [OF Cons.prems]) (use IH(1) in \<open>auto dest: mset_eq_setD\<close>)
  then show ?case using IH by (auto intro: sort_insert_sorted)
qed simp

section \<open>The contract of the class for its clients\<close>

text \<open>
  What the looper (its handlers) and the menu (its items) rely on: an ordered collection of
  addresses with membership, removal of the first occurrence and positions.
\<close>

locale item_list =
  fixes items :: "'l \<Rightarrow> ptr list"
    and add :: "'l \<Rightarrow> ptr \<Rightarrow> bool \<times> 'l"
    and remove :: "'l \<Rightarrow> ptr \<Rightarrow> bool \<times> 'l"
    and has :: "'l \<Rightarrow> ptr \<Rightarrow> bool"
    and at :: "'l \<Rightarrow> int \<Rightarrow> ptr"
    and index :: "'l \<Rightarrow> ptr \<Rightarrow> int"
  assumes add_items: "items (snd (add l x)) = items l @ [x]"
    and add_result: "fst (add l x)"
    and remove_items: "items (snd (remove l x)) = remove1 x (items l)"
    and remove_result: "fst (remove l x) \<longleftrightarrow> x \<in> set (items l)"
    and has_iff: "has l x \<longleftrightarrow> x \<in> set (items l)"
    and at_index: "length (items l) < 2 ^ 31 \<Longrightarrow> x \<in> set (items l) \<Longrightarrow> at l (index l x) = x"
    and index_absent: "x \<notin> set (items l) \<Longrightarrow> index l x = - 1"
begin

lemma has_add: "has (snd (add l x)) y \<longleftrightarrow> y = x \<or> has l y"
  by (auto simp: has_iff add_items)

lemma has_remove: "distinct (items l) \<Longrightarrow> has (snd (remove l x)) y \<longleftrightarrow> y \<noteq> x \<and> has l y"
  by (auto simp: has_iff remove_items set_remove1_eq)

lemma distinct_add: "\<not> has l x \<Longrightarrow> distinct (items l) \<Longrightarrow> distinct (items (snd (add l x)))"
  by (simp add: has_iff add_items)

lemma distinct_remove: "distinct (items l) \<Longrightarrow> distinct (items (snd (remove l x)))"
  by (simp add: remove_items)

lemma remove_add: "\<not> has l x \<Longrightarrow> items (snd (remove (snd (add l x)) x)) = items l"
  by (simp add: has_iff add_items remove_items remove1_append)

lemma index_add: "\<not> has l x \<Longrightarrow> length (items l) < 2 ^ 31 - 1 \<Longrightarrow> at (snd (add l x)) (index (snd (add l x)) x) = x"
  by (rule at_index) (simp_all add: add_items)

end

lemma ItemAt_IndexOf: "length this < 2 ^ 31 \<Longrightarrow> x \<in> set this \<Longrightarrow> ItemAt this (IndexOf this x) = x"
  using find_index_less_iff [of "\<lambda>y. y = x" this] find_index_nth [of "\<lambda>y. y = x" this]
  by (simp add: fits_def IndexOf_eq_find_index)

interpretation bl: item_list "\<lambda>this. this" AddItem RemoveItem HasItem ItemAt IndexOf
  by unfold_locales
     (simp_all add: AddItem_def RemoveItem_eq ItemAt_IndexOf IndexOf_not_mem)

lemmas BList_simps = AddItem_def RemoveItem_eq HasItem_iff MakeEmpty_def IsEmpty_def CountItems_fits
  ItemAt_nth

section \<open>Properties\<close>

lemma ItemAt_outside:
  "fits this \<Longrightarrow> i < 0 \<or> int (length this) \<le> i \<Longrightarrow> - (2 ^ 31) \<le> i \<Longrightarrow> i < 2 ^ 31 \<Longrightarrow> ItemAt this i = null"
  using size_t_neg [of i] by (auto simp: ItemAt_def fits_def size_t_nonneg)

text \<open>Insertion and removal by index: inside the bounds \<open>AddItem(item, i)\<close> puts the item at
  position \<open>i\<close>, keeps the items before it and shifts the others, \<open>RemoveItem(i)\<close> then returns that item
  and restores the list, and \<open>ItemAt\<close> reads null, not an item, at every index outside the list.\<close>

lemma insertion_by_index:
  assumes "fits (item # this)" "0 \<le> i" "i \<le> CountItems this"
  shows "\<exists>this'. AddItem_at this item i = Inr (True, this') \<and>
     CountItems this' = CountItems this + 1 \<and> ItemAt this' i = item \<and>
     (\<forall>j. - (2 ^ 31) \<le> j \<and> j < 2 ^ 31 \<longrightarrow>
        (j < i \<longrightarrow> ItemAt this' j = ItemAt this j) \<and>
        (i < j \<longrightarrow> ItemAt this' j = ItemAt this (j - 1))) \<and>
     RemoveItem_at this' i = Inr (item, this)"
proof -
  have fit: "fits this" "length this < 2 ^ 31 - 1" using assms(1) by (auto simp: fits_def)
  obtain k where k: "i = int k" "k \<le> length this"
    using assms fit by (metis CountItems_fits of_nat_le_iff zero_le_imp_eq_int)
  let ?r = "take k this @ item # drop k this"
  have len: "length ?r = Suc (length this)" using k by simp
  have fr: "fits ?r" using fit by (simp add: fits_def)
  have before: "ItemAt ?r j = ItemAt this j" if "- (2 ^ 31) \<le> j" "j < 2 ^ 31" "j < int k" for j
  proof (cases "j < 0")
    case True
    then show ?thesis using ItemAt_outside [OF fr] ItemAt_outside [OF fit(1)] that by simp
  next
    case False
    define m where "m = nat j"
    have m: "j = int m" "m < k" using that False by (simp_all add: m_def)
    have "ItemAt ?r (int m) = ?r ! m" using m k len by (intro ItemAt_nth [OF fr]) simp
    moreover have "ItemAt this (int m) = this ! m" using m k by (intro ItemAt_nth [OF fit(1)]) simp
    ultimately show ?thesis using m k by (simp add: nth_append)
  qed
  have after: "ItemAt ?r j = ItemAt this (j - 1)" if "- (2 ^ 31) \<le> j" "j < 2 ^ 31" "int k < j" for j
  proof -
    define m where "m = nat (j - 1)"
    have m: "j = int (Suc m)" "k \<le> m" using that by (simp_all add: m_def)
    then have j1: "j - 1 = int m" by simp
    show ?thesis
    proof (cases "m < length this")
      case True
      have "ItemAt ?r (int (Suc m)) = ?r ! Suc m" using True len by (intro ItemAt_nth [OF fr]) simp
      then show ?thesis unfolding m(1) [symmetric] j1
        using True k m fit by (simp add: nth_append Suc_diff_le)
    next
      case False
      then show ?thesis using ItemAt_outside [OF fr, of j] ItemAt_outside [OF fit(1), of "j - 1"] that m len by simp
    qed
  qed
  have "ItemAt ?r (int k) = ?r ! k" using k len by (intro ItemAt_nth [OF fr]) simp
  then have at: "ItemAt ?r (int k) = item" using k by (simp add: nth_append)
  have rem: "RemoveItem_at ?r (int k) = Inr (item, this)"
    using k len RemoveItem_at_in_range [of k ?r] by (simp add: nth_append)
  show ?thesis using AddItem_at_in_range [OF fit(1) k(2), of item] k before after at rem fit fr len
    by (intro exI [of _ ?r]) auto
qed

text \<open>Adding the items of a list: \<open>AddList(list)\<close> appends as many null items as the list has and
  none of its items; \<open>AddList(list, index)\<close> with an index inside the list appends them instead of
  inserting them when there are at least two, and is undefined (an unsigned counter wraps) when there
  is exactly one.\<close>

lemma AddList_positions:
  assumes "0 \<le> atIndex" "atIndex < int (length this)" "fits (this @ xs)"
  shows "AddList this (Other xs) = Inr (True, this @ replicate (length xs) null) \<and>
    (2 \<le> length xs \<longrightarrow> AddList_at this (Other xs) atIndex = Inr (True, this @ xs)) \<and>
    (length xs = 1 \<longrightarrow> AddList_at this (Other xs) atIndex = Inl Undefined)"
  using assms AddList_at_appends [of xs atIndex this] AddList_at_single [of atIndex this "hd xs"]
  by (auto simp: AddList_nulls fits_def length_Suc_conv)

text \<open>\<open>SortItems\<close> uses the result of the comparator as a boolean. With a comparator whose
  non-zero results are a strict weak order the items become a sorted permutation; with a three-way
  comparator, non-zero both ways for some two items, the call is undefined.\<close>

lemma SortItems_comparator:
  "(strict_weak (\<lambda>x y. cmp x y \<noteq> 0) this \<longrightarrow>
      (\<exists>r. SortItems cmp this = Inr r \<and> mset r = mset this \<and> sorted_wrt (\<lambda>x y. cmp y x = 0) r)) \<and>
   (\<forall>x\<in>set this. \<forall>y\<in>set this. cmp x y \<noteq> 0 \<and> cmp y x \<noteq> 0 \<longrightarrow> SortItems cmp this = Inl Undefined)"
proof (intro conjI impI ballI)
  assume "strict_weak (\<lambda>x y. cmp x y \<noteq> 0) this"
  then show "\<exists>r. SortItems cmp this = Inr r \<and> mset r = mset this \<and> sorted_wrt (\<lambda>x y. cmp y x = 0) r"
    using sort_foldr [of "\<lambda>x y. cmp x y \<noteq> 0" this] by (auto simp: SortItems_def std_sort_def)
next
  fix x y assume xy: "x \<in> set this" "y \<in> set this" and c: "cmp x y \<noteq> 0 \<and> cmp y x \<noteq> 0"
  have "\<not> strict_weak (\<lambda>x y. cmp x y \<noteq> 0) this"
    using strict_weakD [OF _ xy(1) xy(2) xy(1)] c by (auto simp: before_ok_def)
  then show "SortItems cmp this = Inl Undefined" by (simp add: SortItems_def std_sort_def)
qed

end
