(* ===== verification/DataIO.thy ===== *)
theory DataIO
  imports Be_Prelude
begin

text \<open>
  \<open>kits/support/DataIO.cpp\<close>: \<open>BDataIO\<close>, the sequential reads and writes of \<open>BPositionIO\<close> over its
  virtual functions, and the two classes that implement these, \<open>BMemoryIO\<close> (a buffer of the caller)
  and \<open>BMallocIO\<close> (a block that grows by \<open>realloc\<close>). A buffer parameter is what can be written or
  read through it (\<open>None\<close> for a null pointer), sizes are 64-bit unsigned, offsets 64-bit signed.
  The virtual functions are arguments of the \<open>BPositionIO\<close> definitions; what its clients rely on is the
  locale \<open>position_io\<close>, interpreted on both classes. Success of \<open>realloc\<close> is the argument \<open>alloc\<close>.
\<close>

section \<open>Offsets and copies\<close>

definition off_t :: "int \<Rightarrow> int" where
  "off_t n = signed_take_bit 63 n"

text \<open>Signed 64-bit addition, undefined on overflow.\<close>

definition off_add :: "int \<Rightarrow> int \<Rightarrow> int outcome" where
  "off_add a b = (if - (2 ^ 63) \<le> a + b \<and> a + b < 2 ^ 63 then Inr (a + b) else Inl Undefined)"

definition copy_from :: "byte list \<Rightarrow> int \<Rightarrow> int \<Rightarrow> byte list outcome" where
  "copy_from src pos n =
     (if 0 \<le> pos \<and> 0 \<le> n \<and> pos + n \<le> int (length src) then Inr (take (nat n) (drop (nat pos) src))
      else Inl Undefined)"

definition copy_to :: "byte list \<Rightarrow> int \<Rightarrow> byte list \<Rightarrow> byte list outcome" where
  "copy_to dst pos bs =
     (if 0 \<le> pos \<and> pos + int (length bs) \<le> int (length dst)
      then Inr (take (nat pos) dst @ bs @ drop (nat pos + length bs) dst)
      else Inl Undefined)"

definition SEEK_SET :: nat where "SEEK_SET = 0"
definition SEEK_CUR :: nat where "SEEK_CUR = 1"
definition SEEK_END :: nat where "SEEK_END = 2"

section \<open>\<open>BDataIO\<close> and \<open>BPositionIO\<close>\<close>

definition DataIO_Read :: "mem option \<Rightarrow> nat \<Rightarrow> int \<times> mem option" where
  "DataIO_Read buffer len = (B_NOT_SUPPORTED, buffer)"

definition DataIO_Write :: "mem option \<Rightarrow> nat \<Rightarrow> int" where
  "DataIO_Write buffer len = B_NOT_SUPPORTED"

definition PositionIO_Read ::
  "('s \<Rightarrow> int) \<Rightarrow> ('s \<Rightarrow> int \<Rightarrow> mem option \<Rightarrow> nat \<Rightarrow> (int \<times> mem option) outcome) \<Rightarrow>
   ('s \<Rightarrow> int \<Rightarrow> nat \<Rightarrow> (int \<times> 's) outcome) \<Rightarrow>
   's \<Rightarrow> mem option \<Rightarrow> nat \<Rightarrow> (int \<times> mem option \<times> 's) outcome" where
  "PositionIO_Read position readAt seek this buffer len =
     (let curPos = position this
      in bindR (readAt this curPos buffer len) (\<lambda>(result, buffer').
         if 0 < result then bindR (seek this result SEEK_CUR) (\<lambda>(_, this'). Inr (result, buffer', this'))
         else Inr (result, buffer', this)))"

definition PositionIO_Write ::
  "('s \<Rightarrow> int) \<Rightarrow> ('s \<Rightarrow> int \<Rightarrow> mem option \<Rightarrow> nat \<Rightarrow> (int \<times> 's) outcome) \<Rightarrow>
   ('s \<Rightarrow> int \<Rightarrow> nat \<Rightarrow> (int \<times> 's) outcome) \<Rightarrow>
   's \<Rightarrow> mem option \<Rightarrow> nat \<Rightarrow> (int \<times> 's) outcome" where
  "PositionIO_Write position writeAt seek this buffer len =
     (let curPos = position this
      in bindR (writeAt this curPos buffer len) (\<lambda>(result, this').
         if 0 < result then bindR (seek this' result SEEK_CUR) (\<lambda>(_, this''). Inr (result, this''))
         else Inr (result, this')))"

definition PositionIO_SetSize :: "int \<Rightarrow> status" where
  "PositionIO_SetSize len = B_ERROR"

section \<open>\<open>BMemoryIO\<close>\<close>

text \<open>\<open>fBufferSize\<close> is the length of the buffer the object was given.\<close>

record memory_io =
  fReadOnly :: bool
  fBuffer :: "byte list"
  fLength :: nat
  fPosition :: int

definition fBufferSize :: "memory_io \<Rightarrow> nat" where
  "fBufferSize this = length (fBuffer this)"

definition MemoryIO_new :: "byte list \<Rightarrow> memory_io" where
  "MemoryIO_new buffer = \<lparr>fReadOnly = False, fBuffer = buffer, fLength = length buffer, fPosition = 0\<rparr>"

definition MemoryIO_new_const :: "byte list \<Rightarrow> memory_io" where
  "MemoryIO_new_const buffer = \<lparr>fReadOnly = True, fBuffer = buffer, fLength = length buffer, fPosition = 0\<rparr>"

definition MemoryIO_ReadAt :: "memory_io \<Rightarrow> int \<Rightarrow> mem option \<Rightarrow> nat \<Rightarrow> (int \<times> mem option) outcome" where
  "MemoryIO_ReadAt this pos buffer len =
     (case buffer of
        None \<Rightarrow> Inr (B_BAD_VALUE, None)
      | Some b \<Rightarrow>
          if pos < 0 then Inr (B_BAD_VALUE, buffer)
          else if pos < off_t (int (fLength this)) then
            let sizeRead = min (off_t (int len)) (off_t (int (fLength this)) - pos)
            in bindR (copy_from (fBuffer this) pos sizeRead) (\<lambda>bs.
               bindR (copy_to b 0 bs) (\<lambda>b'. Inr (sizeRead, Some b')))
          else Inr (0, buffer))"

definition MemoryIO_WriteAt :: "memory_io \<Rightarrow> int \<Rightarrow> mem option \<Rightarrow> nat \<Rightarrow> (int \<times> memory_io) outcome" where
  "MemoryIO_WriteAt this pos buffer len =
     (if fReadOnly this then Inr (B_NOT_ALLOWED, this)
      else case buffer of
        None \<Rightarrow> Inr (B_BAD_VALUE, this)
      | Some b \<Rightarrow>
          if pos < 0 then Inr (B_BAD_VALUE, this)
          else bindR
            (if pos < off_t (int (fBufferSize this)) then
               let sizeWritten = min (off_t (int len)) (off_t (int (fBufferSize this)) - pos)
               in bindR (copy_from b 0 sizeWritten) (\<lambda>bs.
                  bindR (copy_to (fBuffer this) pos bs) (\<lambda>b'. Inr (sizeWritten, this\<lparr>fBuffer := b'\<rparr>)))
             else Inr (0, this)) (\<lambda>(sizeWritten, this').
            Inr (sizeWritten,
                 if off_t (int (fLength this')) < pos + sizeWritten
                 then this'\<lparr>fLength := size_t (pos + sizeWritten)\<rparr> else this')))"

definition MemoryIO_Seek :: "memory_io \<Rightarrow> int \<Rightarrow> nat \<Rightarrow> (int \<times> memory_io) outcome" where
  "MemoryIO_Seek this position seek_mode =
     bindR (if seek_mode = SEEK_SET then Inr position
            else if seek_mode = SEEK_CUR then off_add (fPosition this) position
            else if seek_mode = SEEK_END then Inr (off_t (int (fLength this) + position))
            else Inr (fPosition this))
       (\<lambda>p. Inr (p, this\<lparr>fPosition := p\<rparr>))"

definition MemoryIO_Position :: "memory_io \<Rightarrow> int" where
  "MemoryIO_Position this = fPosition this"

definition MemoryIO_SetSize :: "memory_io \<Rightarrow> int \<Rightarrow> status \<times> memory_io" where
  "MemoryIO_SetSize this len =
     (if fReadOnly this then (B_NOT_ALLOWED, this)
      else if off_t (int (fBufferSize this)) < len then (B_ERROR, this)
      else (B_OK, this\<lparr>fLength := size_t len\<rparr>))"

section \<open>\<open>BMallocIO\<close>\<close>

text \<open>
  \<open>fData\<close> is the allocated block, \<open>None\<close> while there is none (a null block has no bytes). Its
  length is \<open>fMallocSize\<close> in every state the operations reach. \<open>realloc\<close> keeps the common prefix,
  and the code sets what is new to 0; \<open>realloc\<close> to len 0, which a negative len or a wrapped sum
  asks for, has no defined result.
\<close>

record malloc_io =
  fBlockSize :: nat
  fMallocSize :: nat
  mLength :: nat
  fData :: "byte list option"
  mPosition :: int

definition block :: "malloc_io \<Rightarrow> byte list" where
  "block this = (case fData this of None \<Rightarrow> [] | Some d \<Rightarrow> d)"

definition MallocIO_new :: malloc_io where
  "MallocIO_new = \<lparr>fBlockSize = 256, fMallocSize = 0, mLength = 0, fData = None, mPosition = 0\<rparr>"

definition MallocIO_ReadAt :: "malloc_io \<Rightarrow> int \<Rightarrow> mem option \<Rightarrow> nat \<Rightarrow> (int \<times> mem option) outcome" where
  "MallocIO_ReadAt this pos buffer len =
     (case buffer of
        None \<Rightarrow> Inr (B_BAD_VALUE, None)
      | Some b \<Rightarrow>
          if pos < off_t (int (mLength this)) then
            let sizeRead = min (off_t (int len)) (off_t (int (mLength this)) - pos)
            in bindR (copy_from (block this) pos sizeRead) (\<lambda>bs.
               bindR (copy_to b 0 bs) (\<lambda>b'. Inr (sizeRead, Some b')))
          else Inr (0, buffer))"

definition round_up :: "malloc_io \<Rightarrow> int \<Rightarrow> nat" where
  "round_up this len =
     size_t (int (size_t (len + int (fBlockSize this) - 1) div fBlockSize this * fBlockSize this))"

definition MallocIO_SetSize :: "(nat \<Rightarrow> bool) \<Rightarrow> malloc_io \<Rightarrow> int \<Rightarrow> (status \<times> malloc_io) outcome" where
  "MallocIO_SetSize alloc this len =
     bindR
       (if len = 0 then Inr (B_OK, this\<lparr>fData := None, fMallocSize := 0\<rparr>)
        else
          let newSize = round_up this len
          in if len \<noteq> off_t (int (fMallocSize this)) then
               if newSize = 0 then Inl Undefined
               else if alloc newSize then
                 Inr (B_OK, this\<lparr>fData := Some (take newSize (block this) @
                                               replicate (newSize - fMallocSize this) 0),
                                fMallocSize := newSize\<rparr>)
               else Inr (B_NO_MEMORY, this)
             else Inr (B_OK, this))
       (\<lambda>(error, this'). Inr (error, if error = B_OK then this'\<lparr>mLength := size_t len\<rparr> else this'))"

definition MallocIO_WriteAt ::
  "(nat \<Rightarrow> bool) \<Rightarrow> malloc_io \<Rightarrow> int \<Rightarrow> mem option \<Rightarrow> nat \<Rightarrow> (int \<times> malloc_io) outcome" where
  "MallocIO_WriteAt alloc this pos buffer len =
     (case buffer of
        None \<Rightarrow> Inr (B_BAD_VALUE, this)
      | Some b \<Rightarrow>
          bindR (off_add pos (off_t (int len))) (\<lambda>stop.
          let newSize = size_t (max stop (off_t (int (mLength this))))
          in bindR (if fMallocSize this < newSize then MallocIO_SetSize alloc this (off_t (int newSize))
                    else Inr (B_OK, this)) (\<lambda>(error, this').
             if error = B_OK then
               bindR (read_bytes b len) (\<lambda>bs.
               bindR (copy_to (block this') pos bs) (\<lambda>d.
               let this'' = this'\<lparr>fData := map_option (\<lambda>_. d) (fData this')\<rparr>
               in Inr (off_t (int len),
                       if mLength this'' < size_t (pos + int len)
                       then this''\<lparr>mLength := size_t (pos + int len)\<rparr> else this'')))
             else Inr (error, this'))))"

definition MallocIO_Seek :: "malloc_io \<Rightarrow> int \<Rightarrow> nat \<Rightarrow> (int \<times> malloc_io) outcome" where
  "MallocIO_Seek this position seekMode =
     bindR (if seekMode = SEEK_SET then Inr position
            else if seekMode = SEEK_END then Inr (off_t (int (mLength this) + position))
            else if seekMode = SEEK_CUR then off_add (mPosition this) position
            else Inr (mPosition this))
       (\<lambda>p. Inr (p, this\<lparr>mPosition := p\<rparr>))"

definition MallocIO_Position :: "malloc_io \<Rightarrow> int" where
  "MallocIO_Position this = mPosition this"

definition MallocIO_SetBlockSize :: "malloc_io \<Rightarrow> nat \<Rightarrow> malloc_io" where
  "MallocIO_SetBlockSize this blockSize =
     (let blockSize = (if blockSize = 0 then 1 else blockSize)
      in if blockSize \<noteq> fBlockSize this then this\<lparr>fBlockSize := blockSize\<rparr> else this)"

definition MallocIO_Buffer :: "malloc_io \<Rightarrow> byte list option" where
  "MallocIO_Buffer this = fData this"

definition MallocIO_BufferLength :: "malloc_io \<Rightarrow> nat" where
  "MallocIO_BufferLength this = mLength this"

section \<open>Reading, writing and resizing on valid objects\<close>

lemma off_t_id [conv]: "- (2 ^ 63) \<le> n \<Longrightarrow> n < 2 ^ 63 \<Longrightarrow> off_t n = n"
  unfolding off_t_def by (rule signed_take_bit_int_eq_self) auto

lemma off_t_of_nat [conv]: "n < 2 ^ 63 \<Longrightarrow> off_t (int n) = int n"
  by (rule off_t_id) (simp_all add: of_nat_less_numeral_power_cancel_iff [symmetric])

definition chunk :: "byte list \<Rightarrow> int \<Rightarrow> nat \<Rightarrow> byte list" where
  "chunk f pos n = take n (drop (nat pos) f)"

lemma length_chunk: "length (chunk f pos n) = min n (length f - nat pos)"
  by (simp add: chunk_def min.commute)

lemma length_chunk_le: "length (chunk f pos n) \<le> n"
  by (simp add: length_chunk)

lemma chunk_append:
  assumes "0 \<le> pos" shows "chunk f pos n @ chunk f (pos + int (length (chunk f pos n))) m = chunk f pos (n + m)"
proof (cases "n \<le> length f - nat pos")
  case True
  then have l: "length (chunk f pos n) = n" by (simp add: length_chunk)
  have e: "nat (pos + int n) = n + nat pos" using assms by simp
  show ?thesis unfolding l by (simp add: chunk_def e take_add)
next
  case False
  then show ?thesis using assms by (simp add: chunk_def nat_add_distrib min_def)
qed

definition memory_ok :: "memory_io \<Rightarrow> bool" where
  "memory_ok this \<longleftrightarrow> fLength this \<le> fBufferSize this \<and> fBufferSize this < 2 ^ 61"

definition memory_content :: "memory_io \<Rightarrow> byte list" where
  "memory_content this = take (fLength this) (fBuffer this)"

definition malloc_ok :: "malloc_io \<Rightarrow> bool" where
  "malloc_ok this \<longleftrightarrow> mLength this \<le> fMallocSize this \<and> fMallocSize this = length (block this) \<and>
     fMallocSize this < 2 ^ 62 \<and> 0 < fBlockSize this \<and> fBlockSize this < 2 ^ 61"

definition malloc_content :: "malloc_io \<Rightarrow> byte list" where
  "malloc_content this = take (mLength this) (block this)"

lemmas memory_defs = memory_ok_def memory_content_def fBufferSize_def
lemmas malloc_defs = malloc_ok_def malloc_content_def

lemma copy_out:
  assumes "L \<le> length src" "0 \<le> pos" "pos < int L" "n \<le> length b"
  shows "bindR (copy_from src pos (min (int n) (int L - pos))) (\<lambda>bs. bindR (copy_to b 0 bs) (\<lambda>b'. Inr (min (int n) (int L - pos), Some b')))
    = Inr (int (length (chunk (take L src) pos n)),
           Some (chunk (take L src) pos n @ drop (length (chunk (take L src) pos n)) b))"
proof -
  obtain p where p: "pos = int p" "p < L" using assms by (metis of_nat_less_iff zero_le_imp_eq_int)
  have k: "min (int n) (int L - pos) = int (min n (L - p))" using p by simp
  have "take (nat (int (min n (L - p)))) (drop (nat pos) src) = chunk (take L src) pos n"
    using p by (simp add: chunk_def drop_take)
  moreover have "length (chunk (take L src) pos n) = min n (L - p)" using p assms by (simp add: length_chunk)
  moreover have "p + min n (L - p) \<le> length src" "min n (L - p) \<le> length b" using p assms by auto
  ultimately show ?thesis unfolding k using p by (simp add: copy_from_def copy_to_def)
qed

lemma MemoryIO_ReadAt_ok:
  assumes "memory_ok this" "0 \<le> pos" "n \<le> length b" "n < 2 ^ 62"
  shows "MemoryIO_ReadAt this pos (Some b) n = Inr (int (length (chunk (memory_content this) pos n)),
           Some (chunk (memory_content this) pos n @ drop (length (chunk (memory_content this) pos n)) b))"
proof (cases "pos < int (fLength this)")
  case True
  then show ?thesis using copy_out [of "fLength this" "fBuffer this" pos n b] assms
    by (simp add: MemoryIO_ReadAt_def memory_defs off_t_of_nat)
next
  case False
  then show ?thesis using assms
    by (simp add: MemoryIO_ReadAt_def memory_defs off_t_of_nat chunk_def)
qed

lemma MallocIO_ReadAt_ok:
  assumes "malloc_ok this" "0 \<le> pos" "n \<le> length b" "n < 2 ^ 62"
  shows "MallocIO_ReadAt this pos (Some b) n = Inr (int (length (chunk (malloc_content this) pos n)),
           Some (chunk (malloc_content this) pos n @ drop (length (chunk (malloc_content this) pos n)) b))"
proof (cases "pos < int (mLength this)")
  case True
  then show ?thesis using copy_out [of "mLength this" "block this" pos n b] assms
    by (simp add: MallocIO_ReadAt_def malloc_defs off_t_of_nat)
next
  case False
  then show ?thesis using assms
    by (simp add: MallocIO_ReadAt_def malloc_defs off_t_of_nat chunk_def)
qed

lemma round_up_bounds:
  assumes "0 < n" "n < 2 ^ 61" "malloc_ok this"
  shows "n \<le> round_up this (int n)" "round_up this (int n) < n + fBlockSize this"
proof -
  let ?B = "fBlockSize this"
  have B: "0 < ?B" "?B < 2 ^ 61" using assms by (auto simp: malloc_ok_def)
  have e: "int n + int ?B - 1 = int (n + ?B - 1)" using assms by (simp add: of_nat_diff)
  have s: "size_t (int n + int ?B - 1) = n + ?B - 1"
    unfolding e by (rule size_t_of_nat) (use assms B in simp)
  have r: "(n + ?B - 1) div ?B * ?B \<le> n + ?B - 1" "n + ?B - 1 < (n + ?B - 1) div ?B * ?B + ?B"
    using dividend_less_div_times [OF B(1), of "n + ?B - 1"] by (simp_all add: add.commute)
  then have "round_up this (int n) = (n + ?B - 1) div ?B * ?B"
    unfolding round_up_def s by (intro size_t_of_nat le_less_trans [OF r(1)]) (use assms B in simp)
  then show "n \<le> round_up this (int n)" "round_up this (int n) < n + ?B" using r B assms(1) by linarith+
qed

lemma block_update [simp]:
  "block (this\<lparr>fData := Some d, fMallocSize := m\<rparr>) = d" "block (this\<lparr>mLength := l\<rparr>) = block this"
  "block (this\<lparr>fData := Some d\<rparr>) = d"
  "block (this\<lparr>mPosition := p\<rparr>) = block this"
  by (simp_all add: block_def)

lemma MallocIO_SetSize_grow:
  assumes ok: "malloc_ok this" and n: "fMallocSize this < n" "n < 2 ^ 61" and a: "alloc (round_up this (int n))"
  shows "MallocIO_SetSize alloc this (int n) = Inr (B_OK, this\<lparr>
           fData := Some (block this @ replicate (round_up this (int n) - fMallocSize this) 0),
           fMallocSize := round_up this (int n), mLength := n\<rparr>)"
proof -
  have "n \<le> round_up this (int n)" using round_up_bounds [of n this] ok n by auto
  then show ?thesis using ok n a
    by (simp add: MallocIO_SetSize_def Let_def malloc_ok_def off_t_of_nat size_t_of_nat)
qed

lemma MallocIO_WriteAt_inside:
  assumes ok: "malloc_ok this" and p: "p + length bs \<le> fMallocSize this"
  shows "MallocIO_WriteAt alloc this (int p) (Some bs) (length bs) = Inr (int (length bs), this\<lparr>
           fData := map_option (\<lambda>_. take p (block this) @ bs @ drop (p + length bs) (block this)) (fData this),
           mLength := max (mLength this) (p + length bs)\<rparr>)"
proof -
  have sz: "p + length bs < 2 ^ 62" "mLength this < 2 ^ 62" using ok p by (auto simp: malloc_ok_def)
  have conv1: "off_t (int (length bs)) = int (length bs)" "off_t (int (mLength this)) = int (mLength this)"
      "size_t (int p + int (length bs)) = p + length bs"
      "size_t (max (int p + int (length bs)) (int (mLength this))) = max (p + length bs) (mLength this)"
    using sz size_t_of_nat [of "p + length bs"] size_t_of_nat [of "max (p + length bs) (mLength this)"]
    by (simp_all add: off_t_of_nat of_nat_max)
  have add: "off_add (int p) (int (length bs)) = Inr (int p + int (length bs))"
    using sz by (simp add: off_add_def)
  have nm: "\<not> fMallocSize this < max (p + length bs) (mLength this)" using ok p by (auto simp: malloc_ok_def max_def)
  have cb: "int p + int (length bs) \<le> int (length (block this))" using ok p by (simp add: malloc_ok_def)
  show ?thesis
    by (simp add: MallocIO_WriteAt_def conv1 add cb Let_def read_bytes_def copy_to_def nm del: max_less_iff_conj)
qed

lemma MallocIO_WriteAt_grow:
  assumes ok: "malloc_ok this" and p: "fMallocSize this < p + length bs" "p + length bs < 2 ^ 61"
    and a: "alloc (round_up this (int (p + length bs)))"
  shows "MallocIO_WriteAt alloc this (int p) (Some bs) (length bs) =
    (let d = block this @ replicate (round_up this (int (p + length bs)) - fMallocSize this) 0
     in Inr (int (length bs), this\<lparr>
           fData := Some (take p d @ bs @ drop (p + length bs) d),
           fMallocSize := round_up this (int (p + length bs)),
           mLength := p + length bs\<rparr>))"
proof -
  have le: "mLength this < p + length bs" using ok p by (auto simp: malloc_ok_def)
  have conv1: "off_t (int (length bs)) = int (length bs)" "off_t (int (mLength this)) = int (mLength this)"
      "size_t (int p + int (length bs)) = p + length bs"
      "max (int p + int (length bs)) (int (mLength this)) = int p + int (length bs)"
      "off_t (int p + int (length bs)) = int p + int (length bs)"
    using p le size_t_of_nat [of "p + length bs"] off_t_of_nat [of "p + length bs"] by (simp_all add: off_t_of_nat)
  have add: "off_add (int p) (int (length bs)) = Inr (int p + int (length bs))"
    using p by (simp add: off_add_def)
  have up: "p + length bs \<le> round_up this (int p + int (length bs))"
    using round_up_bounds(1) [of "p + length bs" this] ok p le_less_trans [OF Nat.le0 [of "fMallocSize this"] p(1)] by simp
  have set: "MallocIO_SetSize alloc this (int p + int (length bs)) = Inr (B_OK, this\<lparr>
           fData := Some (block this @ replicate (round_up this (int p + int (length bs)) - fMallocSize this) 0),
           fMallocSize := round_up this (int p + int (length bs)), mLength := p + length bs\<rparr>)"
    using MallocIO_SetSize_grow [of this "p + length bs" alloc] ok p a by simp
  show ?thesis using ok p up
    by (simp add: MallocIO_WriteAt_def conv1 add set Let_def malloc_ok_def read_bytes_def copy_to_def block_def)
qed

lemma MallocIO_WriteAt_no_memory:
  assumes ok: "malloc_ok this" and p: "fMallocSize this < p + length bs" "p + length bs < 2 ^ 61"
    and a: "\<not> alloc (round_up this (int (p + length bs)))"
  shows "MallocIO_WriteAt alloc this (int p) (Some bs) (length bs) = Inr (B_NO_MEMORY, this)"
proof -
  have conv1: "off_t (int (length bs)) = int (length bs)" "off_t (int (mLength this)) = int (mLength this)"
      "off_t (int (fMallocSize this)) = int (fMallocSize this)"
      "size_t (int p + int (length bs)) = p + length bs"
      "max (int p + int (length bs)) (int (mLength this)) = int p + int (length bs)"
      "off_t (int p + int (length bs)) = int p + int (length bs)"
    using ok p size_t_of_nat [of "p + length bs"] off_t_of_nat [of "p + length bs"]
    by (simp_all add: off_t_of_nat malloc_ok_def)
  have add: "off_add (int p) (int (length bs)) = Inr (int p + int (length bs))"
    using p by (simp add: off_add_def)
  have up: "p + length bs \<le> round_up this (int p + int (length bs))"
    using round_up_bounds(1) [of "p + length bs" this] ok p le_less_trans [OF Nat.le0 [of "fMallocSize this"] p(1)] by simp
  have "MallocIO_SetSize alloc this (int p + int (length bs)) = Inr (B_NO_MEMORY, this)"
    using a p up by (auto simp: MallocIO_SetSize_def Let_def conv1 status_defs)
  then show ?thesis using p by (simp add: MallocIO_WriteAt_def conv1 add Let_def status_defs)
qed

section \<open>The contract of a positioned file\<close>

text \<open>
  \<open>ok\<close> are the states the laws speak of, \<open>content\<close> the bytes of the file. The laws are those that
  \<open>BPositionIO::Read\<close> and \<open>Write\<close> need of the virtual functions.
\<close>

locale position_io =
  fixes content :: "'s \<Rightarrow> byte list"
    and ok :: "'s \<Rightarrow> bool"
    and position :: "'s \<Rightarrow> int"
    and readAt :: "'s \<Rightarrow> int \<Rightarrow> mem option \<Rightarrow> nat \<Rightarrow> (int \<times> mem option) outcome"
    and writeAt :: "'s \<Rightarrow> int \<Rightarrow> mem option \<Rightarrow> nat \<Rightarrow> (int \<times> 's) outcome"
    and seek :: "'s \<Rightarrow> int \<Rightarrow> nat \<Rightarrow> (int \<times> 's) outcome"
  assumes short: "ok s \<Longrightarrow> length (content s) < 2 ^ 62"
    and read_law: "\<lbrakk>ok s; 0 \<le> pos; n \<le> length b; n < 2 ^ 62\<rbrakk> \<Longrightarrow>
      readAt s pos (Some b) n = Inr (int (length (chunk (content s) pos n)),
        Some (chunk (content s) pos n @ drop (length (chunk (content s) pos n)) b))"
    and seek_law: "\<lbrakk>ok s; m = SEEK_CUR \<and> p = position s + d \<or> m = SEEK_SET \<and> p = d; 0 \<le> p; p < 2 ^ 63\<rbrakk> \<Longrightarrow>
      \<exists>s'. seek s d m = Inr (p, s') \<and> ok s' \<and> content s' = content s \<and> position s' = p"
    and write_law: "\<lbrakk>ok s; 0 \<le> pos; pos < 2 ^ 60; length bs < 2 ^ 60; writeAt s pos (Some bs) (length bs) = Inr (r, s')\<rbrakk> \<Longrightarrow>
      r \<le> int (length bs) \<and> (0 < r \<longrightarrow> ok s' \<and> position s' = position s \<and> chunk (content s') pos (nat r) = take (nat r) bs)"
begin

lemma Read_advances:
  assumes "ok s" "0 \<le> position s" "position s < 2 ^ 62" "n \<le> length b" "n < 2 ^ 62"
  shows "\<exists>s'. PositionIO_Read position readAt seek s (Some b) n =
      Inr (int (length (chunk (content s) (position s) n)),
           Some (chunk (content s) (position s) n @ drop (length (chunk (content s) (position s) n)) b), s') \<and>
    ok s' \<and> content s' = content s \<and> position s' = position s + int (length (chunk (content s) (position s) n))"
proof (cases "length (chunk (content s) (position s) n) = 0")
  case True
  then show ?thesis using assms by (simp add: PositionIO_Read_def read_law)
next
  case False
  let ?k = "int (length (chunk (content s) (position s) n))"
  have "?k \<le> int n" using length_chunk_le [of "content s" "position s" n] by simp
  then have "position s + ?k < 2 ^ 63" using assms(3) assms(5) by simp
  then obtain s' where "seek s ?k SEEK_CUR = Inr (position s + ?k, s')" "ok s'" "content s' = content s"
      "position s' = position s + ?k"
    using seek_law [OF assms(1), of SEEK_CUR "position s + ?k" ?k] assms by auto
  then show ?thesis using False assms by (simp add: PositionIO_Read_def read_law)
qed

text \<open>Two reads in a row return what one read of both sizes returns.\<close>

lemma Read_Read:
  assumes "ok s" "0 \<le> position s" "position s < 2 ^ 61" "n = length b" "m = length c" "n < 2 ^ 60" "m < 2 ^ 60"
  shows "\<exists>k l b' c' s' s''. PositionIO_Read position readAt seek s (Some b) n = Inr (int k, Some b', s') \<and>
    PositionIO_Read position readAt seek s' (Some c) m = Inr (int l, Some c', s'') \<and>
    take k b' @ take l c' = chunk (content s) (position s) (n + m) \<and>
    position s'' = position s + int (k + l) \<and> content s'' = content s"
proof -
  have small: "n < 2 ^ 62" "m < 2 ^ 62" "position s < 2 ^ 62" using assms by simp_all
  obtain s' where s': "PositionIO_Read position readAt seek s (Some b) n =
      Inr (int (length (chunk (content s) (position s) n)),
           Some (chunk (content s) (position s) n @ drop (length (chunk (content s) (position s) n)) b), s')"
      "ok s'" "content s' = content s" "position s' = position s + int (length (chunk (content s) (position s) n))"
    using Read_advances [OF assms(1,2) small(3), of n b] small assms(4) by auto
  have "position s' < 2 ^ 62"
    using s'(4) length_chunk_le [of "content s" "position s" n] assms(3) assms(6) by simp
  then obtain s'' where s'': "PositionIO_Read position readAt seek s' (Some c) m =
      Inr (int (length (chunk (content s) (position s') m)),
           Some (chunk (content s) (position s') m @ drop (length (chunk (content s) (position s') m)) c), s'')"
      "content s'' = content s" "position s'' = position s' + int (length (chunk (content s) (position s') m))"
    using Read_advances [OF s'(2), of m c] small assms(2) assms(5) s'(3) s'(4) by auto
  show ?thesis
    by (intro exI conjI, rule s'(1), rule s''(1)) (simp_all add: chunk_append [OF assms(2)] s''(2,3) s'(3,4))
qed

text \<open>What a complete write put into the file is read back from the same position.\<close>

lemma Write_Read:
  assumes "ok s" "0 \<le> position s" "position s < 2 ^ 60" "0 < length bs" "length bs < 2 ^ 60" "length b = length bs"
    and w: "PositionIO_Write position writeAt seek s (Some bs) (length bs) = Inr (int (length bs), s')"
  shows "position s' = position s + int (length bs) \<and>
    (\<exists>s'' s3. seek s' (position s) SEEK_SET = Inr (position s, s'') \<and>
       PositionIO_Read position readAt seek s'' (Some b) (length b) = Inr (int (length bs), Some bs, s3))"
proof -
  obtain r t where t: "writeAt s (position s) (Some bs) (length bs) = Inr (r, t)"
    using w by (auto simp: PositionIO_Write_def be_simps)
  have r: "r = int (length bs)" using w t by (auto simp: PositionIO_Write_def be_simps split: if_splits)
  have law: "ok t" "position t = position s" "chunk (content t) (position s) (length bs) = bs"
    using write_law [OF assms(1-3,5) t] r assms(4) by auto
  have "0 \<le> position s + int (length bs)" "position s + int (length bs) < 2 ^ 63" using assms by simp_all
  then obtain u where u: "seek t (int (length bs)) SEEK_CUR = Inr (position s + int (length bs), u)" "ok u"
      "content u = content t" "position u = position s + int (length bs)"
    using seek_law [OF law(1), of SEEK_CUR "position s + int (length bs)" "int (length bs)"] law(2) by auto
  have s': "s' = u" using w t r u assms(4) by (simp add: PositionIO_Write_def)
  have "position s < 2 ^ 63" using assms(3) by simp
  then obtain v where v: "seek u (position s) SEEK_SET = Inr (position s, v)" "ok v" "content v = content u" "position v = position s"
    using seek_law [OF u(2), of SEEK_SET "position s" "position s"] assms(2) by auto
  have "chunk (content v) (position v) (length b) = bs" using law u v assms(6) by simp
  then show ?thesis using Read_advances [OF v(2), of "length b" b] assms s' u v by auto
qed

end

section \<open>Both classes keep the contract\<close>

lemma MemoryIO_Seek_ok:
  "\<lbrakk>memory_ok s; m = SEEK_CUR \<and> p = fPosition s + d \<or> m = SEEK_SET \<and> p = d; 0 \<le> p; p < 2 ^ 63\<rbrakk> \<Longrightarrow>
   MemoryIO_Seek s d m = Inr (p, s\<lparr>fPosition := p\<rparr>)"
  by (auto simp: MemoryIO_Seek_def SEEK_SET_def SEEK_CUR_def off_add_def)

lemma MallocIO_Seek_ok:
  "\<lbrakk>malloc_ok s; m = SEEK_CUR \<and> p = mPosition s + d \<or> m = SEEK_SET \<and> p = d; 0 \<le> p; p < 2 ^ 63\<rbrakk> \<Longrightarrow>
   MallocIO_Seek s d m = Inr (p, s\<lparr>mPosition := p\<rparr>)"
  by (auto simp: MallocIO_Seek_def SEEK_SET_def SEEK_CUR_def SEEK_END_def off_add_def)

lemma length_splice: "p + length bs \<le> length d \<Longrightarrow> length (take p d @ bs @ drop (p + length bs) d) = length d"
  by simp

lemma chunk_splice:
  "p \<le> length d \<Longrightarrow> p + length bs \<le> L \<Longrightarrow> chunk (take L (take p d @ bs @ r)) (int p) (length bs) = bs"
  by (simp add: chunk_def take_drop drop_take)

lemma MemoryIO_WriteAt_ok:
  fixes p :: nat
  assumes ok: "memory_ok s" and p: "length bs < 2 ^ 60" and w: "\<not> fReadOnly s"
  defines "k \<equiv> min (length bs) (fBufferSize s - p)"
  shows "MemoryIO_WriteAt s (int p) (Some bs) (length bs) = Inr (int k,
     if p < fBufferSize s
     then s\<lparr>fBuffer := take p (fBuffer s) @ take k bs @ drop (p + k) (fBuffer s), fLength := max (fLength s) (p + k)\<rparr>
     else if fLength s < p then s\<lparr>fLength := size_t (int p)\<rparr> else s)"
proof (cases "p < fBufferSize s")
  case True
  have k: "min (int (length bs)) (int (fBufferSize s) - int p) = int k" using True by (simp add: k_def)
  have le: "p + k \<le> length (fBuffer s)" "k \<le> length bs" "p + k < 2 ^ 61"
    using True ok by (auto simp: k_def fBufferSize_def memory_ok_def)
  have conv1: "off_t (int (length bs)) = int (length bs)" "off_t (int (fBufferSize s)) = int (fBufferSize s)"
      "off_t (int (fLength s)) = int (fLength s)"
    using ok p by (simp_all add: off_t_of_nat memory_ok_def)
  have sz: "size_t (int p + int k) = p + k" using le size_t_of_nat [of "p + k"] by simp
  show ?thesis using True w le k sz
    by (auto simp: MemoryIO_WriteAt_def conv1 copy_from_def copy_to_def max_def)
next
  case False
  then have "k = 0" "\<not> p < fBufferSize s" by (simp_all add: k_def)
  moreover have "off_t (int (fBufferSize s)) = int (fBufferSize s)" "off_t (int (fLength s)) = int (fLength s)"
    using ok by (simp_all add: off_t_of_nat memory_ok_def)
  ultimately show ?thesis using w by (simp add: MemoryIO_WriteAt_def)
qed

lemma MemoryIO_write_law:
  assumes "memory_ok s" "0 \<le> pos" "pos < 2 ^ 60" "length bs < 2 ^ 60"
    and w: "MemoryIO_WriteAt s pos (Some bs) (length bs) = Inr (r, s')"
  shows "r \<le> int (length bs) \<and> (0 < r \<longrightarrow> memory_ok s' \<and> MemoryIO_Position s' = MemoryIO_Position s \<and>
           chunk (memory_content s') pos (nat r) = take (nat r) bs)"
proof (cases "fReadOnly s")
  case True
  then show ?thesis using w by (auto simp: MemoryIO_WriteAt_def status_defs)
next
  case False
  obtain p where p: "pos = int p" using assms(2) by (metis zero_le_imp_eq_int)
  let ?k = "min (length bs) (fBufferSize s - p)"
  note eq = w [unfolded p MemoryIO_WriteAt_ok [OF assms(1) assms(4) False]]
  have r: "r = int ?k" using eq by auto
  show ?thesis
  proof (cases "p < fBufferSize s")
    case True
    then have s': "s' = s\<lparr>fBuffer := take p (fBuffer s) @ take ?k bs @ drop (p + ?k) (fBuffer s),
        fLength := max (fLength s) (p + ?k)\<rparr>" using eq by auto
    have le: "p + ?k \<le> length (fBuffer s)" using True by (simp add: fBufferSize_def)
    have "chunk (memory_content s') pos ?k = take ?k bs"
      using chunk_splice [of p "fBuffer s" "take ?k bs" "max (fLength s) (p + ?k)" "drop (p + ?k) (fBuffer s)"] le
      by (simp add: s' p memory_content_def)
    then show ?thesis using assms(1) le
      by (simp add: r s' p memory_ok_def fBufferSize_def MemoryIO_Position_def)
  qed (simp add: r)
qed

interpretation memoryio: position_io memory_content memory_ok MemoryIO_Position MemoryIO_ReadAt MemoryIO_WriteAt MemoryIO_Seek
proof
  fix s pos d p and m n :: nat and b bs :: mem and r s'
  show "memory_ok s \<Longrightarrow> length (memory_content s) < 2 ^ 62"
    by (auto simp: memory_ok_def memory_content_def)
  show "MemoryIO_ReadAt s pos (Some b) n = Inr (int (length (chunk (memory_content s) pos n)),
        Some (chunk (memory_content s) pos n @ drop (length (chunk (memory_content s) pos n)) b))"
    if "memory_ok s" "0 \<le> pos" "n \<le> length b" "n < 2 ^ 62"
    using that by (rule MemoryIO_ReadAt_ok)
  show "\<exists>s'. MemoryIO_Seek s d m = Inr (p, s') \<and> memory_ok s' \<and> memory_content s' = memory_content s \<and> MemoryIO_Position s' = p"
    if "memory_ok s" "m = SEEK_CUR \<and> p = MemoryIO_Position s + d \<or> m = SEEK_SET \<and> p = d" "0 \<le> p" "p < 2 ^ 63"
    using that MemoryIO_Seek_ok [of s m p d]
    by (auto simp: MemoryIO_Position_def memory_ok_def memory_content_def fBufferSize_def)
  show "r \<le> int (length bs) \<and> (0 < r \<longrightarrow> memory_ok s' \<and> MemoryIO_Position s' = MemoryIO_Position s \<and>
      chunk (memory_content s') pos (nat r) = take (nat r) bs)"
    if "memory_ok s" "0 \<le> pos" "pos < 2 ^ 60" "length bs < 2 ^ 60"
      "MemoryIO_WriteAt s pos (Some bs) (length bs) = Inr (r, s')"
    using that by (rule MemoryIO_write_law)
qed

text \<open>The effect of a write of \<open>BMallocIO\<close> on the abstract file.\<close>

definition file_write :: "byte list \<Rightarrow> nat \<Rightarrow> byte list \<Rightarrow> byte list" where
  "file_write f pos bs = take pos (f @ replicate (pos - length f) 0) @ bs @ drop (pos + length bs) f"

definition clean :: "malloc_io \<Rightarrow> bool" where
  "clean this \<longleftrightarrow> malloc_ok this \<and> block this = malloc_content this @ replicate (fMallocSize this - mLength this) 0"

lemma MallocIO_write_law:
  assumes ok: "malloc_ok s" and pos: "0 \<le> pos" "pos < 2 ^ 60" "length bs < 2 ^ 60"
    and w: "MallocIO_WriteAt alloc s pos (Some bs) (length bs) = Inr (r, s')"
  shows "r \<le> int (length bs) \<and> (0 < r \<longrightarrow> malloc_ok s' \<and> MallocIO_Position s' = MallocIO_Position s \<and>
           chunk (malloc_content s') pos (nat r) = take (nat r) bs)"
proof -
  obtain p where p: "pos = int p" "p < 2 ^ 60" using pos by (metis zero_le_imp_eq_int of_nat_less_numeral_power_cancel_iff)
  have lt: "p + length bs < 2 ^ 61" using p pos by simp
  consider (inside) "p + length bs \<le> fMallocSize s"
    | (grow) "fMallocSize s < p + length bs" "alloc (round_up s (int (p + length bs)))"
    | (full) "fMallocSize s < p + length bs" "\<not> alloc (round_up s (int (p + length bs)))" by linarith
  then show ?thesis
  proof cases
    case inside
    have e: "r = int (length bs)" "s' = s\<lparr>fData := map_option (\<lambda>_. take p (block s) @ bs @ drop (p + length bs) (block s)) (fData s),
           mLength := max (mLength s) (p + length bs)\<rparr>"
      using w MallocIO_WriteAt_inside [OF ok inside, of alloc] by (auto simp: p)
    have b: "block s' = take p (block s) @ bs @ drop (p + length bs) (block s)"
      using inside ok by (cases "fData s") (auto simp: e block_def malloc_ok_def)
    have "chunk (malloc_content s') pos (length bs) = bs"
      using chunk_splice [of p "block s" bs "max (mLength s) (p + length bs)"] inside ok
      by (simp add: malloc_content_def b p malloc_ok_def) (simp add: e)
    then show ?thesis using ok inside b
      by (simp add: e MallocIO_Position_def) (auto simp: malloc_ok_def)
  next
    case grow
    let ?u = "round_up s (int (p + length bs))"
    let ?d = "block s @ replicate (?u - fMallocSize s) 0"
    have e: "r = int (length bs)" "s' = s\<lparr>fData := Some (take p ?d @ bs @ drop (p + length bs) ?d), fMallocSize := ?u,
           mLength := p + length bs\<rparr>"
      using w MallocIO_WriteAt_grow [where alloc = alloc, OF ok grow(1) lt grow(2)] by (auto simp: p Let_def)
    have u: "p + length bs \<le> ?u" "?u < p + length bs + fBlockSize s"
      using round_up_bounds [OF le_less_trans [OF Nat.le0 [of "fMallocSize s"] grow(1)] lt ok] by auto
    have ld: "length ?d = ?u" using u ok grow(1) by (simp add: malloc_ok_def)
    have b: "block s' = take p ?d @ bs @ drop (p + length bs) ?d" by (simp add: e block_def)
    have "chunk (malloc_content s') pos (length bs) = bs"
      using chunk_splice [of p ?d bs "p + length bs" "drop (p + length bs) ?d"] u ld
      by (simp add: malloc_content_def b p) (simp add: e)
    moreover have "length (block s') = ?u" unfolding b using length_splice [of p bs ?d] u(1) unfolding ld by blast
    moreover have "mLength s' = p + length bs" "fMallocSize s' = ?u" "fBlockSize s' = fBlockSize s"
        "mPosition s' = mPosition s" by (simp_all add: e)
    ultimately show ?thesis using ok u lt e(1)
      by (simp add: malloc_ok_def MallocIO_Position_def)
  next
    case full
    then have "r = B_NO_MEMORY" using w MallocIO_WriteAt_no_memory [where alloc = alloc, OF ok full(1) lt full(2)] by (simp add: p)
    then show ?thesis by (simp add: status_defs)
  qed
qed

interpretation mallocio: position_io malloc_content malloc_ok MallocIO_Position MallocIO_ReadAt
  "MallocIO_WriteAt alloc" MallocIO_Seek for alloc
proof
  fix s pos d p and m n :: nat and b bs :: mem and r s'
  show "malloc_ok s \<Longrightarrow> length (malloc_content s) < 2 ^ 62"
    by (auto simp: malloc_ok_def malloc_content_def)
  show "MallocIO_ReadAt s pos (Some b) n = Inr (int (length (chunk (malloc_content s) pos n)),
        Some (chunk (malloc_content s) pos n @ drop (length (chunk (malloc_content s) pos n)) b))"
    if "malloc_ok s" "0 \<le> pos" "n \<le> length b" "n < 2 ^ 62"
    using that by (rule MallocIO_ReadAt_ok)
  show "\<exists>s'. MallocIO_Seek s d m = Inr (p, s') \<and> malloc_ok s' \<and> malloc_content s' = malloc_content s \<and> MallocIO_Position s' = p"
    if "malloc_ok s" "m = SEEK_CUR \<and> p = MallocIO_Position s + d \<or> m = SEEK_SET \<and> p = d" "0 \<le> p" "p < 2 ^ 63"
    using that MallocIO_Seek_ok [of s m p d] by (auto simp: MallocIO_Position_def malloc_ok_def malloc_content_def)
  show "r \<le> int (length bs) \<and> (0 < r \<longrightarrow> malloc_ok s' \<and> MallocIO_Position s' = MallocIO_Position s \<and>
      chunk (malloc_content s') pos (nat r) = take (nat r) bs)"
    if "malloc_ok s" "0 \<le> pos" "pos < 2 ^ 60" "length bs < 2 ^ 60"
      "MallocIO_WriteAt alloc s pos (Some bs) (length bs) = Inr (r, s')"
    using that by (rule MallocIO_write_law)
qed

lemma length_file_write [simp]: "length (file_write f p bs) = max (length f) (p + length bs)"
  by (auto simp: file_write_def)

lemma splice_zeros:
  assumes "p + length bs \<le> length f + z"
  shows "take p (f @ replicate z 0) @ bs @ drop (p + length bs) (f @ replicate z 0)
    = file_write f p bs @ replicate (length f + z - max (length f) (p + length bs)) 0"
proof -
  have m: "min (p - length f) z = p - length f" "length f + z - max (length f) (p + length bs) = z - (p + length bs - length f)"
    using assms by auto
  show ?thesis unfolding m(2) by (simp add: file_write_def m(1))
qed

lemma clean_split:
  assumes "clean s"
  obtains z where "block s = malloc_content s @ replicate z 0" "length (malloc_content s) = mLength s"
    "fMallocSize s = mLength s + z"
proof (rule that)
  show "block s = malloc_content s @ replicate (fMallocSize s - mLength s) 0" using assms by (simp add: clean_def)
  show "length (malloc_content s) = mLength s" "fMallocSize s = mLength s + (fMallocSize s - mLength s)"
    using assms by (auto simp: clean_def malloc_defs)
qed

lemma cleanI:
  assumes "block s = f @ replicate z 0" "mLength s = length f" "fMallocSize s = length f + z" "fMallocSize s < 2 ^ 62"
    "0 < fBlockSize s" "fBlockSize s < 2 ^ 61"
  shows "clean s \<and> malloc_content s = f"
  using assms by (simp add: clean_def malloc_defs)

lemma MallocIO_WriteAt_clean:
  assumes c: "clean s" and lt: "p + length bs < 2 ^ 61"
    and a: "fMallocSize s < p + length bs \<longrightarrow> alloc (round_up s (int (p + length bs)))"
  shows "\<exists>s'. MallocIO_WriteAt alloc s (int p) (Some bs) (length bs) = Inr (int (length bs), s') \<and>
    clean s' \<and> malloc_content s' = file_write (malloc_content s) p bs"
proof -
  have ok: "malloc_ok s" using c by (simp add: clean_def)
  obtain z where z: "block s = malloc_content s @ replicate z 0" "length (malloc_content s) = mLength s"
      "fMallocSize s = mLength s + z" using c by (rule clean_split)
  show ?thesis
  proof (cases "p + length bs \<le> fMallocSize s")
    case True
    let ?s = "s\<lparr>fData := map_option (\<lambda>_. take p (block s) @ bs @ drop (p + length bs) (block s)) (fData s),
           mLength := max (mLength s) (p + length bs)\<rparr>"
    have "block ?s = take p (block s) @ bs @ drop (p + length bs) (block s)"
      using True ok by (cases "fData s") (auto simp: block_def malloc_ok_def)
    also have "\<dots> = file_write (malloc_content s) p bs @ replicate (mLength s + z - max (mLength s) (p + length bs)) 0"
      unfolding z(1) using splice_zeros [of p bs "malloc_content s" z] True z(2,3) by simp
    finally have "clean ?s \<and> malloc_content ?s = file_write (malloc_content s) p bs"
      by (rule cleanI) (use True z ok in \<open>auto simp: malloc_ok_def\<close>)
    then show ?thesis using MallocIO_WriteAt_inside [OF ok True] by blast
  next
    case False
    then have gt: "fMallocSize s < p + length bs" by simp
    let ?u = "round_up s (int (p + length bs))"
    let ?d = "block s @ replicate (?u - fMallocSize s) 0"
    let ?s = "s\<lparr>fData := Some (take p ?d @ bs @ drop (p + length bs) ?d), fMallocSize := ?u, mLength := p + length bs\<rparr>"
    have u: "p + length bs \<le> ?u" "?u < p + length bs + fBlockSize s"
      using round_up_bounds [OF le_less_trans [OF Nat.le0 [of "fMallocSize s"] gt] lt ok] by auto
    have d: "?d = malloc_content s @ replicate (?u - mLength s) 0"
      using z u gt by (simp add: replicate_add [symmetric])
    have mx: "max (mLength s) (p + length bs) = p + length bs" using gt z(3) by simp
    have "block ?s = take p ?d @ bs @ drop (p + length bs) ?d" by (simp add: block_def)
    also have "\<dots> = file_write (malloc_content s) p bs @ replicate (?u - (p + length bs)) 0"
      unfolding d using splice_zeros [of p bs "malloc_content s" "?u - mLength s"] z u gt mx by simp
    finally have "clean ?s \<and> malloc_content ?s = file_write (malloc_content s) p bs"
      by (rule cleanI) (use u lt mx z ok in \<open>auto simp: malloc_ok_def\<close>)
    then show ?thesis using MallocIO_WriteAt_grow [where alloc = alloc, OF ok gt lt] a gt
      by (simp add: Let_def)
  qed
qed

lemma MallocIO_SetSize_grow_clean:
  assumes c: "clean s" and n: "mLength s \<le> n" "0 < n" "n < 2 ^ 61" "n \<noteq> fMallocSize s"
    and a: "alloc (round_up s (int n))" and u: "fMallocSize s \<le> round_up s (int n)"
  shows "\<exists>s'. MallocIO_SetSize alloc s (int n) = Inr (B_OK, s') \<and> clean s' \<and>
     malloc_content s' = malloc_content s @ replicate (n - mLength s) 0"
proof -
  have ok: "malloc_ok s" using c by (simp add: clean_def)
  obtain z where z: "block s = malloc_content s @ replicate z 0" "length (malloc_content s) = mLength s"
      "fMallocSize s = mLength s + z" using c by (rule clean_split)
  let ?u = "round_up s (int n)"
  let ?s = "s\<lparr>fData := Some (take ?u (block s) @ replicate (?u - fMallocSize s) 0), fMallocSize := ?u, mLength := n\<rparr>"
  have b: "n \<le> ?u" "?u < n + fBlockSize s" using round_up_bounds [OF n(2,3) ok] by auto
  have lb: "length (block s) \<le> ?u" using ok u by (simp add: malloc_ok_def)
  have set: "MallocIO_SetSize alloc s (int n) = Inr (B_OK, ?s)"
    using ok n a b by (simp add: MallocIO_SetSize_def Let_def malloc_ok_def off_t_of_nat size_t_of_nat)
  have e: "replicate (?u - mLength s) 0 = replicate (n - mLength s) (0::byte) @ replicate (?u - n) 0"
    using b n by (simp add: replicate_add [symmetric])
  have "block ?s = malloc_content s @ replicate (?u - mLength s) 0"
    using lb u z by (simp add: block_def replicate_add [symmetric])
  then have "block ?s = (malloc_content s @ replicate (n - mLength s) 0) @ replicate (?u - n) 0"
    unfolding e by simp
  then have "clean ?s \<and> malloc_content ?s = malloc_content s @ replicate (n - mLength s) 0"
    by (rule cleanI) (use b n z ok in \<open>auto simp: malloc_ok_def\<close>)
  then show ?thesis using set by blast
qed

section \<open>Properties\<close>

text \<open>C3. \<open>BMallocIO\<close> is a growing, zero-filled file: while the bytes behind its length are zero,
  \<open>WriteAt\<close> at any position writes the buffer, fills a gap with zeros and keeps that invariant,
  \<open>ReadAt\<close> reads what the file holds at the position, and when \<open>realloc\<close> fails the status is
  \<open>B_NO_MEMORY\<close> and the object unchanged.\<close>

theorem MallocIO_refines_file:
  assumes "clean s" "p + length bs < 2 ^ 61"
  shows "((fMallocSize s < p + length bs \<longrightarrow> alloc (round_up s (int (p + length bs)))) \<longrightarrow>
      (\<exists>s'. MallocIO_WriteAt alloc s (int p) (Some bs) (length bs) = Inr (int (length bs), s') \<and>
         clean s' \<and> malloc_content s' = file_write (malloc_content s) p bs)) \<and>
    (fMallocSize s < p + length bs \<and> \<not> alloc (round_up s (int (p + length bs))) \<longrightarrow>
      MallocIO_WriteAt alloc s (int p) (Some bs) (length bs) = Inr (B_NO_MEMORY, s)) \<and>
    (length b < 2 ^ 62 \<longrightarrow> MallocIO_ReadAt s (int p) (Some b) (length b) =
        (let c = take (length b) (drop p (malloc_content s))
         in Inr (int (length c), Some (c @ drop (length c) b))))"
proof -
  have ok: "malloc_ok s" using assms(1) by (simp add: clean_def)
  show ?thesis
    using MallocIO_WriteAt_clean [OF assms] MallocIO_WriteAt_no_memory [where alloc = alloc, OF ok _ assms(2)]
      MallocIO_ReadAt_ok [OF ok, of "int p" "length b" b]
    by (intro conjI impI) (blast, blast, simp add: chunk_def Let_def)
qed

lemma clean_new: "clean MallocIO_new"
  by (simp add: clean_def malloc_defs MallocIO_new_def block_def)

lemma MallocIO_refines_file_witness:
  "\<exists>s'. MallocIO_WriteAt (\<lambda>_. True) MallocIO_new (int 2) (Some [7]) (length [7::byte]) = Inr (1, s') \<and>
     malloc_content s' = [0, 0, 7]"
proof -
  have "file_write (malloc_content MallocIO_new) 2 [7] = [0, 0, 7]"
    by (simp add: file_write_def malloc_content_def MallocIO_new_def block_def numeral_2_eq_2)
  then show ?thesis using MallocIO_refines_file [OF clean_new, of 2 "[7]" "\<lambda>_. True"] by auto
qed

text \<open>Sequential use of \<open>BMallocIO\<close>: a \<open>Write\<close> that returns the whole size moves the position
  by it, and after \<open>Seek\<close> back to the old position \<open>Read\<close> returns the written bytes.\<close>

lemma MallocIO_write_seek_read:
  assumes "malloc_ok s" "0 \<le> mPosition s" "mPosition s < 2 ^ 60" "0 < length bs" "length bs < 2 ^ 60" "length b = length bs"
    and "PositionIO_Write MallocIO_Position (MallocIO_WriteAt alloc) MallocIO_Seek s (Some bs) (length bs) = Inr (int (length bs), s')"
  shows "mPosition s' = mPosition s + int (length bs) \<and>
    (\<exists>s'' s3. MallocIO_Seek s' (mPosition s) SEEK_SET = Inr (mPosition s, s'') \<and>
       PositionIO_Read MallocIO_Position MallocIO_ReadAt MallocIO_Seek s'' (Some b) (length b) = Inr (int (length bs), Some bs, s3))"
  using mallocio.Write_Read [of s bs b alloc s'] assms by (simp add: MallocIO_Position_def)

text \<open>Two reads in a row return together what the buffer holds from the old position on.\<close>

lemma MemoryIO_sequential_reads:
  assumes "memory_ok s" "0 \<le> fPosition s" "fPosition s < 2 ^ 61" "length b < 2 ^ 60" "length c < 2 ^ 60"
  shows "\<exists>k l b' c' s' s''.
    PositionIO_Read MemoryIO_Position MemoryIO_ReadAt MemoryIO_Seek s (Some b) (length b) = Inr (int k, Some b', s') \<and>
    PositionIO_Read MemoryIO_Position MemoryIO_ReadAt MemoryIO_Seek s' (Some c) (length c) = Inr (int l, Some c', s'') \<and>
    take k b' @ take l c' = take (length b + length c) (drop (nat (fPosition s)) (take (fLength s) (fBuffer s))) \<and>
    fPosition s'' = fPosition s + int (k + l)"
  using memoryio.Read_Read [of s "length b" b "length c" c] assms
  by (auto simp: MemoryIO_Position_def chunk_def memory_content_def)

lemma SetSize_same_block:
  assumes ok: "malloc_ok s" and k: "0 < k" "k < 2 ^ 61" "round_up s (int k) = fMallocSize s" and a: "alloc (fMallocSize s)"
  shows "\<exists>s'. MallocIO_SetSize alloc s (int k) = Inr (B_OK, s') \<and> malloc_ok s' \<and> block s' = block s \<and>
    mLength s' = k \<and> fMallocSize s' = fMallocSize s \<and> fBlockSize s' = fBlockSize s"
proof -
  have k0: "k \<le> fMallocSize s" using round_up_bounds [OF k(1,2) ok] k(3) by simp
  show ?thesis
  proof (cases "k = fMallocSize s")
    case True
    then show ?thesis using ok k
      by (simp add: MallocIO_SetSize_def Let_def off_t_of_nat size_t_of_nat malloc_ok_def)
  next
    case False
    moreover have "block s \<noteq> []" using ok k k0 by (auto simp: malloc_ok_def)
    ultimately have "MallocIO_SetSize alloc s (int k) =
        Inr (B_OK, s\<lparr>fData := Some (block s), fMallocSize := fMallocSize s, mLength := k\<rparr>)"
      using ok k a k0
      by (simp add: MallocIO_SetSize_def Let_def off_t_of_nat size_t_of_nat malloc_ok_def)
    then show ?thesis using ok k0 by (simp add: malloc_ok_def)
  qed
qed

text \<open>Shrinking \<open>BMallocIO\<close> inside its last block keeps the cut bytes: after \<open>SetSize(k)\<close> the file
  is the first \<open>k\<close> bytes, and \<open>SetSize\<close> back to the old length makes the old bytes, not zeros,
  visible again.\<close>

lemma SetSize_reveals_old_bytes:
  assumes "malloc_ok s" "0 < k" "k \<le> mLength s" "mLength s < 2 ^ 61" "alloc (fMallocSize s)"
    "round_up s (int k) = fMallocSize s" "round_up s (int (mLength s)) = fMallocSize s"
  shows "\<exists>s1 s2. MallocIO_SetSize alloc s (int k) = Inr (B_OK, s1) \<and>
     malloc_content s1 = take k (malloc_content s) \<and>
     MallocIO_SetSize alloc s1 (int (mLength s)) = Inr (B_OK, s2) \<and> malloc_content s2 = malloc_content s"
proof -
  have "k < 2 ^ 61" using assms by simp
  then obtain s1 where s1: "MallocIO_SetSize alloc s (int k) = Inr (B_OK, s1)" "malloc_ok s1" "block s1 = block s"
      "mLength s1 = k" "fMallocSize s1 = fMallocSize s" "fBlockSize s1 = fBlockSize s"
    using SetSize_same_block [of s k alloc] assms by auto
  have "round_up s1 (int (mLength s)) = fMallocSize s1" using assms s1 by (simp add: round_up_def)
  then obtain s2 where s2: "MallocIO_SetSize alloc s1 (int (mLength s)) = Inr (B_OK, s2)" "block s2 = block s"
      "mLength s2 = mLength s"
    using SetSize_same_block [of s1 "mLength s" alloc] assms s1 by auto
  show ?thesis using s1 s2 assms by (intro exI [of _ s1] exI [of _ s2]) (auto simp: malloc_content_def)
qed

text \<open>Positions outside the data. \<open>BMemoryIO::WriteAt\<close> behind its buffer writes nothing but sets
  the length to the position, so a \<open>ReadAt\<close> at the end of the buffer copies from behind it
  (undefined). \<open>BMemoryIO\<close> refuses a negative position with \<open>B_BAD_VALUE\<close>, \<open>BMallocIO\<close> does not
  check it and accesses the memory before its block (undefined).\<close>

lemma positions_outside:
  assumes m: "memory_ok s" "\<not> fReadOnly s" "fBufferSize s < p" "p < 2 ^ 60" "length bs < 2 ^ 60" "b \<noteq> []" "length b < 2 ^ 60"
    and n: "malloc_ok t" "i < 0" "- (2 ^ 60) \<le> i"
  shows "(\<exists>s'. MemoryIO_WriteAt s (int p) (Some bs) (length bs) = Inr (0, s') \<and>
      MemoryIO_ReadAt s' (int (fBufferSize s)) (Some b) (length b) = Inl Undefined) \<and>
    MemoryIO_WriteAt s i (Some bs) (length bs) = Inr (B_BAD_VALUE, s) \<and>
    MemoryIO_ReadAt s i (Some b) (length b) = Inr (B_BAD_VALUE, Some b) \<and>
    MallocIO_ReadAt t i (Some b) (length b) = Inl Undefined"
proof -
  have lp: "fLength s < p" "fBufferSize s < 2 ^ 61" using m by (auto simp: memory_ok_def)
  have w: "MemoryIO_WriteAt s (int p) (Some bs) (length bs) = Inr (0, s\<lparr>fLength := p\<rparr>)"
    using MemoryIO_WriteAt_ok [OF m(1,5,2), of p] m lp by (simp add: size_t_of_nat)
  have lb: "0 < length b" using m(6) by simp
  have "0 < min (int (length b)) (int p - int (length (fBuffer s)))"
    using m lb by (simp add: fBufferSize_def)
  then have r: "MemoryIO_ReadAt (s\<lparr>fLength := p\<rparr>) (int (fBufferSize s)) (Some b) (length b) = Inl Undefined"
    using m lp lb by (simp add: MemoryIO_ReadAt_def off_t_of_nat copy_from_def fBufferSize_def Let_def min_le_iff_disj)
  have neg: "MallocIO_ReadAt t i (Some b) (length b) = Inl Undefined"
    using n m by (simp add: MallocIO_ReadAt_def off_t_of_nat malloc_ok_def copy_from_def Let_def)
  show ?thesis using w r neg m n by (simp add: MemoryIO_WriteAt_def MemoryIO_ReadAt_def)
qed

end
