(* ===== verification/Locker.thy ===== *)
theory Locker
  imports Be_Prelude
begin

text \<open>
  \<open>BLocker\<close> of \<open>kits/support/Locker.cpp\<close>, as a state machine over any number of threads. Every access
  to shared memory of \<open>AcquireLock\<close> and \<open>Unlock\<close> is one atomic step: each read and each write of the owner and
  of the recursion count, the atomic increment and decrement of the benaphore count, taking and releasing the kernel semaphore (a
  counter, taken only when positive). Only the comparison in \<open>Unlock\<close> that prints a warning is no step. \<open>pc\<close>
  is where a thread is inside a call, \<open>answer\<close> the status its last finished \<open>Lock\<close> returned. A thread that calls
  \<open>Unlock\<close> without holding the lock is possible in the code and in the steps, and ends the exclusion
  (\<open>Locker_stranger_unlocks\<close>); the runs that the theorems speak of are those of threads that unlock what they hold.
\<close>

section \<open>State and steps\<close>

type_synonym thread = int
type_synonym bigtime = int

datatype pc =
    Idle
  | Requesting bigtime \<comment> \<open>in \<open>AcquireLock\<close>, not the owner, before the increment\<close>
  | Waiting bigtime   \<comment> \<open>in the loop around \<open>acquire_sem_etc\<close>\<close>
  | Granted           \<comment> \<open>\<open>status == B_OK\<close>, before the owner is read\<close>
  | Taking            \<comment> \<open>no owner was read, before the owner is set\<close>
  | Setting           \<comment> \<open>before the count is set to 1\<close>
  | Nesting           \<comment> \<open>an owner was read, before the count is read\<close>
  | Adding int        \<comment> \<open>the count was read, before it is written back\<close>
  | Subtracting int   \<comment> \<open>in \<open>Unlock\<close>, the count was read\<close>
  | Testing           \<comment> \<open>in \<open>Unlock\<close>, the count is written, before it is compared with 0\<close>
  | Releasing         \<comment> \<open>in \<open>Unlock\<close>, the count is 0\<close>
  | Counting          \<comment> \<open>in \<open>Unlock\<close>, the owner is cleared\<close>
  | Signalling        \<comment> \<open>in \<open>Unlock\<close>, before \<open>release_sem\<close>\<close>

record locker =
  fBenaphoreCount :: int
  fSemaphoreID :: int
  semCount :: nat
  fLockOwner :: thread
  fRecursiveCount :: int
  pc :: "thread \<Rightarrow> pc"
  answer :: "thread \<Rightarrow> status"

definition InitLocker :: "int \<Rightarrow> bool \<Rightarrow> locker" where
  "InitLocker sem benaphore =
     \<lparr>fBenaphoreCount = (if benaphore then 0 else 1), fSemaphoreID = sem,
      semCount = (if benaphore then 0 else 1), fLockOwner = B_ERROR, fRecursiveCount = 0,
      pc = (\<lambda>_. Idle), answer = (\<lambda>_. B_OK)\<rparr>"

definition InitCheck :: "locker \<Rightarrow> status" where
  "InitCheck this = (if 0 \<le> fSemaphoreID this then B_OK else int32 (fSemaphoreID this))"

definition LockingThread :: "locker \<Rightarrow> thread" where
  "LockingThread this = fLockOwner this"

definition IsLocked :: "thread \<Rightarrow> locker \<Rightarrow> bool" where
  "IsLocked self this \<longleftrightarrow> self = fLockOwner this"

definition CountLocks :: "locker \<Rightarrow> int" where
  "CountLocks this = fRecursiveCount this"

definition CountLockRequests :: "locker \<Rightarrow> int" where
  "CountLockRequests this = fBenaphoreCount this"

definition Sem :: "locker \<Rightarrow> int" where
  "Sem this = fSemaphoreID this"

definition B_INFINITE_TIMEOUT :: bigtime where
  "B_INFINITE_TIMEOUT = 9223372036854775807"

datatype event =
    CallAcquire bigtime  \<comment> \<open>\<open>AcquireLock(timeout)\<close>: \<open>IsLocked\<close> reads the owner\<close>
  | Request            \<comment> \<open>the increment of the benaphore count\<close>
  | SemReturns status  \<comment> \<open>\<open>acquire_sem_etc\<close> returns\<close>
  | ReadOwner          \<comment> \<open>the owner is compared with 0\<close>
  | SetOwner
  | SetCount
  | ReadCount
  | AddCount           \<comment> \<open>the incremented count is written\<close>
  | CallUnlock         \<comment> \<open>\<open>Unlock\<close> reads the recursion count\<close>
  | SubtractCount      \<comment> \<open>the decremented count is written\<close>
  | TestCount
  | ClearOwner
  | CountDown
  | ReleaseSem

definition goto :: "thread \<Rightarrow> pc \<Rightarrow> locker \<Rightarrow> locker" where
  "goto t x this = this\<lparr>pc := (pc this)(t := x)\<rparr>"

text \<open>\<open>step self e this\<close> is the state after the step \<open>e\<close> of thread \<open>self\<close>, if it can make that step.\<close>

fun step :: "thread \<Rightarrow> event \<Rightarrow> locker \<Rightarrow> locker option" where
  "step self (CallAcquire timeout) this =
     (if pc this self = Idle then Some (goto self (if IsLocked self this then Granted else Requesting timeout) this) else None)"
| "step self Request this =
     (case pc this self of
        Requesting timeout \<Rightarrow>
          let oldBenaphoreCount = fBenaphoreCount this;
              this' = this\<lparr>fBenaphoreCount := int32 (oldBenaphoreCount + 1)\<rparr>
          in Some (goto self (if 0 < oldBenaphoreCount then Waiting timeout else Granted) this')
      | _ \<Rightarrow> None)"
| "step self (SemReturns status) this =
     (case pc this self of
        Waiting timeout \<Rightarrow>
          if status = B_OK then
            (if 0 < semCount this then Some (goto self Granted (this\<lparr>semCount := semCount this - 1\<rparr>)) else None)
          else if status = B_INTERRUPTED then Some this
          else Some (goto self Idle (this\<lparr>answer := (answer this)(self := status)\<rparr>))
      | _ \<Rightarrow> None)"
| "step self ReadOwner this =
     (if pc this self = Granted then Some (goto self (if fLockOwner this < 0 then Taking else Nesting) this) else None)"
| "step self SetOwner this =
     (if pc this self = Taking then Some (goto self Setting (this\<lparr>fLockOwner := self\<rparr>)) else None)"
| "step self SetCount this =
     (if pc this self = Setting then
        Some (goto self Idle (this\<lparr>fRecursiveCount := 1, answer := (answer this)(self := B_OK)\<rparr>))
      else None)"
| "step self ReadCount this =
     (if pc this self = Nesting then Some (goto self (Adding (fRecursiveCount this)) this) else None)"
| "step self AddCount this =
     (case pc this self of
        Adding c \<Rightarrow>
          Some (goto self Idle (this\<lparr>fRecursiveCount := int32 (c + 1), answer := (answer this)(self := B_OK)\<rparr>))
      | _ \<Rightarrow> None)"
| "step self CallUnlock this =
     (if pc this self = Idle then Some (goto self (Subtracting (fRecursiveCount this)) this) else None)"
| "step self SubtractCount this =
     (case pc this self of
        Subtracting c \<Rightarrow> Some (goto self Testing (this\<lparr>fRecursiveCount := int32 (c - 1)\<rparr>))
      | _ \<Rightarrow> None)"
| "step self TestCount this =
     (if pc this self = Testing then Some (goto self (if fRecursiveCount this = 0 then Releasing else Idle) this) else None)"
| "step self ClearOwner this =
     (if pc this self = Releasing then Some (goto self Counting (this\<lparr>fLockOwner := B_ERROR\<rparr>)) else None)"
| "step self CountDown this =
     (if pc this self = Counting then
        let oldBenaphoreCount = fBenaphoreCount this
        in Some (goto self (if 1 < oldBenaphoreCount then Signalling else Idle)
                  (this\<lparr>fBenaphoreCount := int32 (oldBenaphoreCount - 1)\<rparr>))
      else None)"
| "step self ReleaseSem this =
     (if pc this self = Signalling then Some (goto self Idle (this\<lparr>semCount := Suc (semCount this)\<rparr>)) else None)"

text \<open>\<open>Lock\<close> and \<open>LockWithTimeout\<close> start an \<open>AcquireLock\<close>; their results come from its status.\<close>

definition Lock :: "thread \<Rightarrow> locker \<Rightarrow> locker option" where
  "Lock self this = step self (CallAcquire B_INFINITE_TIMEOUT) this"

definition LockWithTimeout :: "thread \<Rightarrow> bigtime \<Rightarrow> locker \<Rightarrow> locker option" where
  "LockWithTimeout self timeout this = step self (CallAcquire timeout) this"

definition Lock_result :: "thread \<Rightarrow> locker \<Rightarrow> bool" where
  "Lock_result self this \<longleftrightarrow> answer this self = B_OK"

section \<open>Runs\<close>

text \<open>
  A run records, for each thread, the number \<open>d\<close> of its locks that it has not unlocked (a lock counts from its last write of the recursion
  count on, an unlock from its write of the count on),
  and how many calls and failed acquisitions there were. Threads have positive identifiers
  (\<open>find_thread\<close>), unlock only what they hold, and make less than \<open>2^30\<close> calls (beyond \<open>2^31\<close> failed
  acquisitions the benaphore count wraps, as the comment in the code says).
\<close>

definition depth_after :: "thread \<Rightarrow> event \<Rightarrow> (thread \<Rightarrow> nat) \<Rightarrow> thread \<Rightarrow> nat" where
  "depth_after t e d =
     (case e of SetCount \<Rightarrow> d(t := Suc (d t)) | AddCount \<Rightarrow> d(t := Suc (d t))
      | SubtractCount \<Rightarrow> d(t := d t - 1) | _ \<Rightarrow> d)"

definition calls_after :: "event \<Rightarrow> nat \<Rightarrow> nat" where
  "calls_after e n = (case e of CallAcquire _ \<Rightarrow> Suc n | _ \<Rightarrow> n)"

definition failures_after :: "event \<Rightarrow> nat \<Rightarrow> nat" where
  "failures_after e k =
     (case e of SemReturns st \<Rightarrow> if st = B_OK \<or> st = B_INTERRUPTED then k else Suc k | _ \<Rightarrow> k)"

inductive run :: "locker \<Rightarrow> locker \<Rightarrow> (thread \<Rightarrow> nat) \<Rightarrow> nat \<Rightarrow> nat \<Rightarrow> bool" for s0 where
  start: "run s0 s0 (\<lambda>_. 0) 0 0"
| more: "\<lbrakk>run s0 s d n k; 0 < t; step t e s = Some s'; e = CallUnlock \<Longrightarrow> 0 < d t; calls_after e n < 2 ^ 30\<rbrakk> \<Longrightarrow>
    run s0 s' (depth_after t e d) (calls_after e n) (failures_after e k)"

section \<open>The invariant\<close>

definition waiting :: "locker \<Rightarrow> thread set" where
  "waiting s = {t. \<exists>timeout. pc s t = Waiting timeout}"

definition requesting :: "locker \<Rightarrow> thread set" where
  "requesting s = {t. \<exists>timeout. pc s t = Requesting timeout}"

definition signalling :: "locker \<Rightarrow> thread set" where
  "signalling s = {t. pc s t = Signalling}"

text \<open>The places between taking the right to the lock and giving it up.\<close>

fun entitled :: "pc \<Rightarrow> bool" where
  "entitled Idle \<longleftrightarrow> False"
| "entitled (Requesting _) \<longleftrightarrow> False"
| "entitled (Waiting _) \<longleftrightarrow> False"
| "entitled Signalling \<longleftrightarrow> False"
| "entitled _ \<longleftrightarrow> True"

definition tokens :: "locker \<Rightarrow> (thread \<Rightarrow> nat) \<Rightarrow> thread set" where
  "tokens s d = {t. 0 < d t \<or> entitled (pc s t)}"

text \<open>
  \<open>b\<close> is the initial benaphore count: 0 for the benaphore style, 1 for the semaphore style. The
  count is the number of threads that hold or wait for the lock plus the failed waits; while it is
  positive, exactly one of these exists: the right to hold the lock, a unit of the semaphore, a
  thread that is about to release it.
\<close>

definition counts_inv :: "nat \<Rightarrow> locker \<Rightarrow> (thread \<Rightarrow> nat) \<Rightarrow> nat \<Rightarrow> nat \<Rightarrow> bool" where
  "counts_inv b s d n k \<longleftrightarrow>
     finite (requesting s) \<and> finite (waiting s) \<and> finite (signalling s) \<and> finite (tokens s d) \<and>
     fBenaphoreCount s = int (b + card (tokens s d) + card (waiting s) + k) \<and>
     card (tokens s d) + card (waiting s) + card (requesting s) + k \<le> n \<and>
     (if fBenaphoreCount s = 0 then semCount s = 0 \<and> card (signalling s) = 0
      else semCount s + card (signalling s) + card (tokens s d) = 1)"

definition thread_ok :: "pc \<Rightarrow> nat \<Rightarrow> thread \<Rightarrow> int \<Rightarrow> nat \<Rightarrow> thread \<Rightarrow> bool" where
  "thread_ok x depth lockOwner recursive n t \<longleftrightarrow>
     (0 < depth \<longrightarrow> lockOwner = t \<and> recursive = int depth) \<and> depth \<le> n \<and> (x \<noteq> Idle \<or> 0 < depth \<longrightarrow> 0 < t) \<and>
     (case x of
        Idle \<Rightarrow> True
      | Requesting _ \<Rightarrow> depth = 0 \<and> 0 < n
      | Waiting _ \<Rightarrow> depth = 0 \<and> 0 < n
      | Granted \<Rightarrow> (0 < depth \<or> lockOwner = B_ERROR) \<and> depth < n
      | Taking \<Rightarrow> depth = 0 \<and> lockOwner = B_ERROR \<and> 0 < n
      | Setting \<Rightarrow> depth = 0 \<and> lockOwner = t \<and> 0 < n
      | Nesting \<Rightarrow> 0 < depth \<and> depth < n
      | Adding c \<Rightarrow> 0 < depth \<and> depth < n \<and> c = int depth
      | Subtracting c \<Rightarrow> 0 < depth \<and> c = int depth
      | Testing \<Rightarrow> lockOwner = t \<and> recursive = int depth
      | Releasing \<Rightarrow> depth = 0 \<and> lockOwner = t
      | Counting \<Rightarrow> depth = 0 \<and> lockOwner = B_ERROR
      | Signalling \<Rightarrow> depth = 0)"

text \<open>The places at which the owner of the lock may hold it without a lock to its name.\<close>

fun owning :: "pc \<Rightarrow> bool" where
  "owning Setting \<longleftrightarrow> True"
| "owning Testing \<longleftrightarrow> True"
| "owning Releasing \<longleftrightarrow> True"
| "owning _ \<longleftrightarrow> False"

lemma owning_entitled: "owning x \<Longrightarrow> entitled x"
  by (cases x) simp_all

definition owner_inv :: "locker \<Rightarrow> (thread \<Rightarrow> nat) \<Rightarrow> nat \<Rightarrow> bool" where
  "owner_inv s d n \<longleftrightarrow>
     (\<forall>t. thread_ok (pc s t) (d t) (fLockOwner s) (fRecursiveCount s) n t) \<and>
     (fLockOwner s = B_ERROR \<or> 0 < d (fLockOwner s) \<or> owning (pc s (fLockOwner s)))"

definition locker_inv :: "nat \<Rightarrow> locker \<Rightarrow> (thread \<Rightarrow> nat) \<Rightarrow> nat \<Rightarrow> nat \<Rightarrow> bool" where
  "locker_inv b s d n k \<longleftrightarrow> counts_inv b s d n k \<and> owner_inv s d n"

lemma goto_simps [simp]:
  "fBenaphoreCount (goto t x s) = fBenaphoreCount s" "semCount (goto t x s) = semCount s"
  "fLockOwner (goto t x s) = fLockOwner s" "fRecursiveCount (goto t x s) = fRecursiveCount s"
  "pc (goto t x s) = (pc s)(t := x)" "answer (goto t x s) = answer s"
  by (simp_all add: goto_def)

lemma goto_same: "pc s t = x \<Longrightarrow> goto t x s = s"
  by (simp add: goto_def fun_upd_idem)

lemma sets_update [simp]:
  "waiting (s\<lparr>fBenaphoreCount := c\<rparr>) = waiting s" "waiting (s\<lparr>semCount := m\<rparr>) = waiting s"
  "waiting (s\<lparr>answer := a\<rparr>) = waiting s" "waiting (s\<lparr>fLockOwner := o'\<rparr>) = waiting s"
  "waiting (s\<lparr>fRecursiveCount := r\<rparr>) = waiting s"
  "signalling (s\<lparr>fBenaphoreCount := c\<rparr>) = signalling s" "signalling (s\<lparr>semCount := m\<rparr>) = signalling s"
  "signalling (s\<lparr>answer := a\<rparr>) = signalling s" "signalling (s\<lparr>fLockOwner := o'\<rparr>) = signalling s"
  "signalling (s\<lparr>fRecursiveCount := r\<rparr>) = signalling s"
  "tokens (s\<lparr>fBenaphoreCount := c\<rparr>) d = tokens s d" "tokens (s\<lparr>semCount := m\<rparr>) d = tokens s d"
  "tokens (s\<lparr>answer := a\<rparr>) d = tokens s d" "tokens (s\<lparr>fLockOwner := o'\<rparr>) d = tokens s d"
  "tokens (s\<lparr>fRecursiveCount := r\<rparr>) d = tokens s d"
  "requesting (s\<lparr>fBenaphoreCount := c\<rparr>) = requesting s" "requesting (s\<lparr>semCount := m\<rparr>) = requesting s"
  "requesting (s\<lparr>answer := a\<rparr>) = requesting s" "requesting (s\<lparr>fLockOwner := o'\<rparr>) = requesting s"
  "requesting (s\<lparr>fRecursiveCount := r\<rparr>) = requesting s"
  by (simp_all add: waiting_def requesting_def signalling_def tokens_def)

lemma requesting_goto [simp]:
  "requesting (goto t x s) = (if \<exists>timeout. x = Requesting timeout then insert t (requesting s) else requesting s - {t})"
  by (auto simp: requesting_def goto_def)

lemma waiting_goto [simp]:
  "waiting (goto t x s) = (if \<exists>timeout. x = Waiting timeout then insert t (waiting s) else waiting s - {t})"
  by (auto simp: waiting_def goto_def)

lemma signalling_goto [simp]:
  "signalling (goto t x s) = (if x = Signalling then insert t (signalling s) else signalling s - {t})"
  by (auto simp: signalling_def goto_def)

lemma tokens_goto_upd:
  "tokens (goto t x s) (d(t := m)) =
     (if 0 < m \<or> entitled x then insert t (tokens s d) else tokens s d - {t})"
  by (auto simp: tokens_def goto_def)

lemma tokens_goto [simp]:
  "tokens (goto t x s) d =
     (if 0 < d t \<or> entitled x then insert t (tokens s d) else tokens s d - {t})"
  using tokens_goto_upd [of t x s d "d t"] by simp

lemma in_sets:
  "t \<in> waiting s \<longleftrightarrow> (\<exists>timeout. pc s t = Waiting timeout)" "t \<in> signalling s \<longleftrightarrow> pc s t = Signalling"
  "t \<in> tokens s d \<longleftrightarrow> 0 < d t \<or> entitled (pc s t)" "t \<in> requesting s \<longleftrightarrow> (\<exists>timeout. pc s t = Requesting timeout)"
  by (simp_all add: waiting_def requesting_def signalling_def tokens_def)

lemma counts_token_le: "counts_inv b s d n k \<Longrightarrow> card (tokens s d) \<le> 1"
  by (auto simp: counts_inv_def split: if_splits)

lemma counts_bounds: "counts_inv b s d n k \<Longrightarrow> 0 \<le> fBenaphoreCount s \<and> fBenaphoreCount s \<le> int b + int n"
  by (auto simp: counts_inv_def)

lemma int32_small: "b \<le> 1 \<Longrightarrow> n < 2 ^ 30 \<Longrightarrow> - 1 \<le> i \<Longrightarrow> i \<le> int b + int n + 1 \<Longrightarrow> int32 i = i"
  by (rule int32_id) auto

lemma owner_error_no_tokens:
  "counts_inv b s d n k \<Longrightarrow> owner_inv s d n \<Longrightarrow> tokens s d = {} \<Longrightarrow> fLockOwner s = B_ERROR"
  using owning_entitled [of "pc s (fLockOwner s)"] by (auto simp: owner_inv_def tokens_def)

lemma locker_inv_start: "locker_inv (if benaphore then 0 else 1) (InitLocker sem benaphore) (\<lambda>_. 0) 0 0"
  by (simp add: locker_inv_def counts_inv_def owner_inv_def InitLocker_def waiting_def requesting_def signalling_def tokens_def thread_ok_def)

text \<open>The counting part, step by step.\<close>

lemma countsD:
  assumes "counts_inv b s d n k"
  shows "finite (waiting s)" "finite (signalling s)" "finite (tokens s d)"
    "fBenaphoreCount s = int (b + card (tokens s d) + card (waiting s) + k)"
    "card (tokens s d) + card (waiting s) + card (requesting s) + k \<le> n"
    "fBenaphoreCount s = 0 \<Longrightarrow> semCount s = 0" "fBenaphoreCount s = 0 \<Longrightarrow> card (signalling s) = 0"
    "fBenaphoreCount s \<noteq> 0 \<Longrightarrow> semCount s + card (signalling s) + card (tokens s d) = 1" "finite (requesting s)"
  using assms by (simp_all add: counts_inv_def)

lemma token_unique:
  assumes c: "counts_inv b s d n k" and t: "t \<in> tokens s d" "u \<in> tokens s d"
  shows "t = u"
  using counts_token_le [OF c] card_le_Suc0_iff_eq [OF countsD(3) [OF c]] t by simp

lemma countsI:
  assumes "finite (requesting s)" "finite (waiting s)" "finite (signalling s)" "finite (tokens s d)"
    "fBenaphoreCount s = int (b + card (tokens s d) + card (waiting s) + k)"
    "card (tokens s d) + card (waiting s) + card (requesting s) + k \<le> n"
    "fBenaphoreCount s = 0 \<Longrightarrow> semCount s = 0 \<and> card (signalling s) = 0"
    "fBenaphoreCount s \<noteq> 0 \<Longrightarrow> semCount s + card (signalling s) + card (tokens s d) = 1"
  shows "counts_inv b s d n k"
  using assms by (simp add: counts_inv_def)

lemma counts_call:
  assumes c: "counts_inv b s d n k" and t: "pc s t = Idle" "d t = 0"
  shows "counts_inv b (goto t (Requesting timeout) s) d (Suc n) k"
proof -
  have out: "t \<notin> requesting s" "t \<notin> waiting s" "t \<notin> signalling s" "t \<notin> tokens s d" using t by (simp_all add: in_sets)
  define s' where "s' = goto t (Requesting timeout) s"
  have e: "requesting s' = insert t (requesting s)" "waiting s' = waiting s" "signalling s' = signalling s" "tokens s' d = tokens s d"
    using out t by (auto simp: s'_def)
  have s: "fBenaphoreCount s' = fBenaphoreCount s" "semCount s' = semCount s" by (simp_all add: s'_def)
  have q: "card (requesting s') = Suc (card (requesting s))" using out countsD(9) [OF c] by (simp add: e)
  have f: "finite (requesting s')" using countsD(9) [OF c] by (simp add: e)
  show ?thesis unfolding s'_def [symmetric]
    using countsD(1-5) [OF c] by (intro countsI) (simp_all add: e(2-4) s q f countsD(6-8) [OF c])
qed

text \<open>The increment of the benaphore count.\<close>

lemma counts_request:
  assumes c: "counts_inv b s d n k" and b: "b \<le> 1" and n: "n < 2 ^ 30" and t: "pc s t = Requesting timeout" "d t = 0"
  shows "counts_inv b (goto t (if 0 < fBenaphoreCount s then Waiting timeout else Granted)
           (s\<lparr>fBenaphoreCount := int32 (fBenaphoreCount s + 1)\<rparr>)) d n k"
proof -
  have i: "int32 (fBenaphoreCount s + 1) = fBenaphoreCount s + 1"
    using counts_bounds [OF c] b n by (intro int32_small [of b n]) auto
  have out: "t \<in> requesting s" "t \<notin> waiting s" "t \<notin> signalling s" "t \<notin> tokens s d" using t by (simp_all add: in_sets)
  have q: "card (requesting s) = Suc (card (requesting s - {t}))" by (rule card.remove [OF countsD(9) [OF c] out(1)])
  show ?thesis
  proof (cases "0 < fBenaphoreCount s")
    case True
    define s' where "s' = goto t (Waiting timeout) (s\<lparr>fBenaphoreCount := fBenaphoreCount s + 1\<rparr>)"
    have e: "requesting s' = requesting s - {t}" "waiting s' = insert t (waiting s)" "signalling s' = signalling s" "tokens s' d = tokens s d"
        "fBenaphoreCount s' = fBenaphoreCount s + 1" "semCount s' = semCount s"
      using out t by (auto simp: s'_def)
    have w: "card (waiting s') = Suc (card (waiting s))" using out countsD(1) [OF c] by (simp add: e)
    have P: "semCount s + card (signalling s) + card (tokens s d) = 1" using countsD(8) [OF c] True by simp
    have "counts_inv b s' d n k"
      using countsD(1-5,9) [OF c] P q True w by (intro countsI) (simp_all add: e)
    then show ?thesis using True by (simp add: i s'_def)
  next
    case False
    then have z: "fBenaphoreCount s = 0" using counts_bounds [OF c] by simp
    have "card (tokens s d) = 0" "card (waiting s) = 0" "card (signalling s) = 0" "b = 0" "k = 0" "semCount s = 0"
      using countsD(4,6,7) [OF c] z by simp_all
    then have e: "tokens s d = {}" "waiting s = {}" "signalling s = {}" "b = 0" "k = 0" "semCount s = 0"
      using countsD(1-3) [OF c] by (simp_all only: card_0_eq)
    define s' where "s' = goto t Granted (s\<lparr>fBenaphoreCount := 1\<rparr>)"
    have e': "requesting s' = requesting s - {t}" "waiting s' = {}" "signalling s' = {}" "tokens s' d = {t}"
        "fBenaphoreCount s' = 1" "semCount s' = 0"
      by (auto simp: s'_def e)
    have "counts_inv b s' d n k" using countsD(5,9) [OF c] q by (intro countsI) (simp_all add: e e')
    then show ?thesis using i by (simp add: z s'_def)
  qed
qed

lemma counts_sem_ok:
  assumes c: "counts_inv b s d n k" and z: "0 < semCount s"
    and t: "t \<in> waiting s" "t \<notin> signalling s" "d t = 0"
  shows "counts_inv b (goto t Granted (s\<lparr>semCount := semCount s - 1\<rparr>)) d n k"
proof -
  have B: "fBenaphoreCount s \<noteq> 0" using countsD(6) [OF c] z by auto
  have "semCount s + card (signalling s) + card (tokens s d) = 1" using countsD(8) [OF c] B by simp
  then have z1: "semCount s = 1" "card (signalling s) = 0" "card (tokens s d) = 0" using z by linarith+
  then have e: "signalling s = {}" "tokens s d = {}" using countsD(2,3) [OF c] by (simp_all only: card_0_eq)
  have w: "card (waiting s) = Suc (card (waiting s - {t}))" by (rule card.remove [OF countsD(1) [OF c] t(1)])
  define s' where "s' = goto t Granted (s\<lparr>semCount := semCount s - 1\<rparr>)"
  have s: "requesting s' = requesting s" "waiting s' = waiting s - {t}" "tokens s' d = {t}" "signalling s' = {}"
      "fBenaphoreCount s' = fBenaphoreCount s" "semCount s' = 0"
    using t e z1 by (auto simp: s'_def in_sets)
  have E: "fBenaphoreCount s = int (b + 1 + card (waiting s - {t}) + k)" "1 + card (waiting s - {t}) + card (requesting s) + k \<le> n"
    using countsD(4,5) [OF c] w z1 by linarith+
  show ?thesis unfolding s'_def [symmetric] using countsD(1,9) [OF c] E B
    by (intro countsI) (simp_all only: s finite_Diff, simp_all)
qed

lemma counts_sem_fail:
  assumes c: "counts_inv b s d n k" and t: "t \<in> waiting s" "t \<notin> signalling s" "t \<notin> tokens s d"
  shows "counts_inv b (goto t Idle (s\<lparr>answer := a\<rparr>)) d n (Suc k)"
proof -
  have d: "d t = 0" using t by (simp add: in_sets)
  have w: "card (waiting s) = Suc (card (waiting s - {t}))" by (rule card.remove [OF countsD(1) [OF c] t(1)])
  define s' where "s' = goto t Idle (s\<lparr>answer := a\<rparr>)"
  have s: "requesting s' = requesting s" "waiting s' = waiting s - {t}" "tokens s' d = tokens s d" "signalling s' = signalling s"
      "fBenaphoreCount s' = fBenaphoreCount s" "semCount s' = semCount s"
    using t d by (auto simp: s'_def in_sets)
  have E: "fBenaphoreCount s = int (b + card (tokens s d) + card (waiting s - {t}) + Suc k)"
      "card (tokens s d) + card (waiting s - {t}) + card (requesting s) + Suc k \<le> n"
    using countsD(4,5) [OF c] w by linarith+
  show ?thesis unfolding s'_def [symmetric] using countsD(1-3,6-9) [OF c] E
    by (intro countsI) (simp_all only: s finite_Diff not_False_eq_True)
qed

text \<open>A step of the thread that holds the right to the lock, which keeps it.\<close>

lemma counts_keep:
  assumes c: "counts_inv b s d n k" and t: "t \<in> tokens s d" "t \<notin> waiting s" "t \<notin> signalling s" "t \<notin> requesting s"
    and x: "x \<noteq> Signalling" "\<And>timeout. x \<noteq> Waiting timeout" "\<And>timeout. x \<noteq> Requesting timeout" "0 < m \<or> entitled x"
    and s': "fBenaphoreCount s' = fBenaphoreCount s" "semCount s' = semCount s" "pc s' = pc s" and n: "n \<le> n'"
  shows "counts_inv b (goto t x s') (d(t := m)) n' k"
proof -
  have e: "requesting (goto t x s') = requesting s" "waiting (goto t x s') = waiting s" "signalling (goto t x s') = signalling s"
      "tokens (goto t x s') (d(t := m)) = tokens s d"
    using t x s'(3) by (auto simp: waiting_def requesting_def signalling_def tokens_def)
  show ?thesis
    using countsD [OF c] n by (intro countsI) (simp_all only: e s' goto_simps, auto)
qed

lemma counts_down:
  assumes c: "counts_inv b s d n k" and b: "b \<le> 1" and n: "n < 2 ^ 30"
    and t: "t \<in> tokens s d" "t \<notin> waiting s" "t \<notin> signalling s" "t \<notin> requesting s" "d t = 0"
  shows "counts_inv b (goto t (if 1 < fBenaphoreCount s then Signalling else Idle)
           (s\<lparr>fBenaphoreCount := int32 (fBenaphoreCount s - 1)\<rparr>)) d n k"
proof -
  have i: "int32 (fBenaphoreCount s - 1) = fBenaphoreCount s - 1"
    using counts_bounds [OF c] b n by (intro int32_small [of b n]) auto
  have T: "card (tokens s d) = Suc (card (tokens s d - {t}))" by (rule card.remove [OF countsD(3) [OF c] t(1)])
  have B: "fBenaphoreCount s \<noteq> 0" using countsD(4) [OF c] T by auto
  then have z: "card (tokens s d - {t}) = 0" "semCount s = 0" "card (signalling s) = 0"
    using countsD(8) [OF c B] T by linarith+
  then have e: "signalling s = {}" "tokens s d - {t} = {}" using countsD(2,3) [OF c] by (auto simp: card_0_eq)
  define s' where "s' = goto t (if 1 < fBenaphoreCount s then Signalling else Idle)
           (s\<lparr>fBenaphoreCount := fBenaphoreCount s - 1\<rparr>)"
  have s: "requesting s' = requesting s" "waiting s' = waiting s" "tokens s' d = {}" "signalling s' = (if 1 < fBenaphoreCount s then {t} else {})"
      "fBenaphoreCount s' = fBenaphoreCount s - 1" "semCount s' = semCount s"
    using t e by (auto simp: s'_def)
  show ?thesis unfolding i s'_def [symmetric] using countsD(1,4,5,9) [OF c] z B T
    by (intro countsI) (simp_all add: s)
qed

lemma counts_signal:
  assumes c: "counts_inv b s d n k" and t: "t \<in> signalling s" "t \<notin> waiting s" "t \<notin> tokens s d"
  shows "counts_inv b (goto t Idle (s\<lparr>semCount := Suc (semCount s)\<rparr>)) d n k"
proof -
  have d: "d t = 0" using t by (simp add: in_sets)
  have G: "card (signalling s) = Suc (card (signalling s - {t}))" by (rule card.remove [OF countsD(2) [OF c] t(1)])
  then have B: "fBenaphoreCount s \<noteq> 0" using countsD(7) [OF c] by auto
  define s' where "s' = goto t Idle (s\<lparr>semCount := Suc (semCount s)\<rparr>)"
  have s: "requesting s' = requesting s" "waiting s' = waiting s" "tokens s' d = tokens s d" "signalling s' = signalling s - {t}"
      "fBenaphoreCount s' = fBenaphoreCount s" "semCount s' = Suc (semCount s)"
    using t d by (auto simp: s'_def in_sets)
  have P: "Suc (semCount s) + card (signalling s - {t}) + card (tokens s d) = 1"
    using countsD(8) [OF c B] G by simp
  show ?thesis unfolding s'_def [symmetric] using countsD(1-5,9) [OF c] P B
    by (intro countsI) (simp_all only: s finite_Diff simp_thms)
qed

text \<open>The part about the owner, step by step.\<close>

lemma ownerD: "owner_inv s d n \<Longrightarrow> thread_ok (pc s t) (d t) (fLockOwner s) (fRecursiveCount s) n t"
  by (simp add: owner_inv_def)

lemma owner_somebody:
  "owner_inv s d n \<Longrightarrow> fLockOwner s = B_ERROR \<or> 0 < d (fLockOwner s) \<or> owning (pc s (fLockOwner s))"
  by (simp add: owner_inv_def)

lemma thread_ok_mono: "thread_ok x dt o' r n t \<Longrightarrow> n \<le> n' \<Longrightarrow> thread_ok x dt o' r n' t"
  by (auto simp: thread_ok_def split: pc.splits)

lemma thread_ok_free:
  "thread_ok x dt o' r n t \<Longrightarrow> \<not> (0 < dt \<or> entitled x) \<Longrightarrow> thread_ok x dt o'' r'' n t"
  by (cases x) (auto simp: thread_ok_def)

text \<open>A step of thread \<open>t\<close> that leaves owner and recursion count alone.\<close>

lemma owner_same:
  assumes o: "owner_inv s d n" and n: "n \<le> n'"
    and t: "thread_ok x (d t) (fLockOwner s) (fRecursiveCount s) n' t" "owning (pc s t) \<Longrightarrow> 0 < d t \<or> owning x"
    and s': "fLockOwner s' = fLockOwner s" "fRecursiveCount s' = fRecursiveCount s" "pc s' = pc s"
  shows "owner_inv (goto t x s') d n'"
proof -
  have "thread_ok (((pc s)(t := x)) u) (d u) (fLockOwner s) (fRecursiveCount s) n' u" for u
    using t(1) thread_ok_mono [OF ownerD [OF o] n, of u] by simp
  then show ?thesis using owner_somebody [OF o] t(2) by (auto simp: owner_inv_def s')
qed

text \<open>A step of the thread that has the right to the lock: the others have none.\<close>

lemma owner_change:
  assumes o: "owner_inv s d n" and c: "counts_inv b s d n k" and tok: "t \<in> tokens s d"
    and t: "thread_ok x m (fLockOwner s') (fRecursiveCount s') n t"
      "fLockOwner s' = B_ERROR \<or> fLockOwner s' = t \<and> (0 < m \<or> owning x)" and s': "pc s' = pc s"
  shows "owner_inv (goto t x s') (d(t := m)) n"
proof -
  have "thread_ok (((pc s)(t := x)) u) ((d(t := m)) u) (fLockOwner s') (fRecursiveCount s') n u" for u
  proof (cases "u = t")
    case False
    then have "u \<notin> tokens s d" using token_unique [OF c _ tok] by blast
    then have "thread_ok (pc s u) (d u) (fLockOwner s') (fRecursiveCount s') n u"
      using thread_ok_free [OF ownerD [OF o]] by (simp add: in_sets)
    then show ?thesis using False by simp
  qed (use t in simp)
  then show ?thesis using t(2) by (auto simp: owner_inv_def s')
qed

lemma owner_idle_free:
  "owner_inv s d n \<Longrightarrow> counts_inv b s d n k \<Longrightarrow> card (tokens s d) = 0 \<Longrightarrow> fLockOwner s = B_ERROR"
  using owner_error_no_tokens [of b s d n k] countsD(3) [of b s d n k] by simp

text \<open>Every step of a run preserves the invariant.\<close>

lemma inv_CallAcquire:
  assumes c: "counts_inv b s d n k" and o: "owner_inv s d n" and t: "0 < t"
    and st: "step t (CallAcquire timeout) s = Some s'"
  shows "locker_inv b s' d (Suc n) k"
proof -
  have idle: "pc s t = Idle" using st by (auto split: if_splits)
  note ok = ownerD [OF o, of t, unfolded idle]
  show ?thesis
  proof (cases "IsLocked t s")
    case True
    then have s': "s' = goto t Granted s" using st idle by simp
    have "0 < d t" using owner_somebody [OF o] True idle t by (auto simp: IsLocked_def B_ERROR_def)
    then have "counts_inv b (goto t Granted s) (d(t := d t)) (Suc n) k"
      using idle by (intro counts_keep [OF c]) (simp_all add: in_sets)
    moreover have "owner_inv (goto t Granted s) d (Suc n)"
      using ok \<open>0 < d t\<close> idle by (intro owner_same [OF o]) (auto simp: thread_ok_def)
    ultimately show ?thesis by (simp add: s' locker_inv_def)
  next
    case False
    then have d: "d t = 0" using ok by (auto simp: thread_ok_def IsLocked_def)
    have s': "s' = goto t (Requesting timeout) s" using st idle False by simp
    have "owner_inv (goto t (Requesting timeout) s) d (Suc n)"
      using t d idle by (intro owner_same [OF o]) (auto simp: thread_ok_def)
    then show ?thesis using counts_call [OF c idle d, of timeout] by (simp add: s' locker_inv_def)
  qed
qed

lemma inv_Request:
  assumes c: "counts_inv b s d n k" and o: "owner_inv s d n" and b: "b \<le> 1" and n: "n < 2 ^ 30" and t: "0 < t"
    and st: "step t Request s = Some s'"
  shows "locker_inv b s' d n k"
proof -
  obtain timeout where r: "pc s t = Requesting timeout" using st by (auto split: pc.splits)
  then have d: "d t = 0" "0 < n" using ownerD [OF o, of t] by (auto simp: thread_ok_def)
  let ?x = "if 0 < fBenaphoreCount s then Waiting timeout else Granted"
  have s': "s' = goto t ?x (s\<lparr>fBenaphoreCount := int32 (fBenaphoreCount s + 1)\<rparr>)" using st r by (simp add: Let_def)
  have "fLockOwner s = B_ERROR" if "\<not> 0 < fBenaphoreCount s"
    using countsD(4) [OF c] that by (intro owner_idle_free [OF o c]) simp
  then have "owner_inv s' d n" unfolding s' using t d r by (intro owner_same [OF o]) (auto simp: thread_ok_def)
  then show ?thesis using counts_request [OF c b n r d(1)] by (simp only: s' locker_inv_def simp_thms)
qed

lemma inv_SemReturns:
  assumes c: "counts_inv b s d n k" and o: "owner_inv s d n" and t: "0 < t"
    and st: "step t (SemReturns status) s = Some s'"
  shows "locker_inv b s' d n (failures_after (SemReturns status) k)"
proof -
  obtain timeout where w: "pc s t = Waiting timeout" using st by (auto split: pc.splits)
  note ok = ownerD [OF o, of t, unfolded w]
  then have d: "d t = 0" by (auto simp: thread_ok_def)
  have out: "t \<in> waiting s" "t \<notin> signalling s" "t \<notin> tokens s d" using w d by (auto simp: in_sets)
  consider (ok) "status = B_OK" "0 < semCount s" | (again) "status = B_INTERRUPTED" "status \<noteq> B_OK"
    | (fail) "status \<noteq> B_OK" "status \<noteq> B_INTERRUPTED"
    using st w by (auto split: if_splits)
  then show ?thesis
  proof cases
    case ok
    have s': "s' = goto t Granted (s\<lparr>semCount := semCount s - 1\<rparr>)" using st w ok by simp
    have c': "counts_inv b s' d n k" unfolding s' by (rule counts_sem_ok [OF c ok(2) out(1,2) d])
    have B: "fBenaphoreCount s \<noteq> 0" using countsD(6) [OF c] ok by auto
    then have z: "card (tokens s d) = 0" using countsD(8) [OF c] ok by simp
    have "0 < card (waiting s)" using out(1) countsD(1) [OF c] by (auto simp: card_gt_0_iff)
    then have "0 < n" using countsD(5) [OF c] by simp
    moreover have "fLockOwner s = B_ERROR" by (rule owner_idle_free [OF o c z])
    ultimately have "owner_inv s' d n"
      unfolding s' using t d w by (intro owner_same [OF o]) (auto simp: thread_ok_def)
    then show ?thesis using c' ok by (simp add: locker_inv_def failures_after_def)
  next
    case again
    then show ?thesis using st w c o by (simp add: locker_inv_def failures_after_def)
  next
    case fail
    then have s': "s' = goto t Idle (s\<lparr>answer := (answer s)(t := status)\<rparr>)" using st w by simp
    have "owner_inv s' d n"
      unfolding s' using t d w by (intro owner_same [OF o]) (auto simp: thread_ok_def)
    then show ?thesis using counts_sem_fail [OF c out, of "(answer s)(t := status)"] fail
      by (simp add: s' locker_inv_def failures_after_def)
  qed
qed

text \<open>The steps of the thread that has the right to the lock.\<close>

lemma inv_token:
  assumes c: "counts_inv b s d n k" and o: "owner_inv s d n" and t: "entitled (pc s t) \<or> pc s t = Idle \<and> 0 < d t"
    and x: "entitled x \<or> x = Idle \<and> 0 < m" and s': "pc s' = pc s" "fBenaphoreCount s' = fBenaphoreCount s" "semCount s' = semCount s"
    and ok: "thread_ok x m (fLockOwner s') (fRecursiveCount s') n t" "fLockOwner s' = B_ERROR \<or> fLockOwner s' = t \<and> (0 < m \<or> owning x)"
  shows "locker_inv b (goto t x s') (d(t := m)) n k"
proof -
  have tok: "t \<in> tokens s d" "t \<notin> waiting s" "t \<notin> signalling s" "t \<notin> requesting s" using t by (auto simp: in_sets)
  have "counts_inv b (goto t x s') (d(t := m)) n k" using x by (intro counts_keep [OF c tok] s') auto
  moreover have "owner_inv (goto t x s') (d(t := m)) n" by (rule owner_change [OF o c tok(1) ok s'(1)])
  ultimately show ?thesis by (simp add: locker_inv_def)
qed

lemma inv_take:
  assumes c: "counts_inv b s d n k" and o: "owner_inv s d n" and n: "n < 2 ^ 30" and t: "0 < t"
    and e: "e \<in> {ReadOwner, SetOwner, SetCount, ReadCount, AddCount}" and st: "step t e s = Some s'"
  shows "locker_inv b s' (depth_after t e d) n k"
proof -
  note ok = ownerD [OF o, of t]
  have i: "int32 (int m + 1) = int m + 1" if "m < n" for m using n that by (intro int32_id) auto
  have own: "fLockOwner s = B_ERROR \<or> 0 < fLockOwner s"
    using owner_somebody [OF o] ownerD [OF o, of "fLockOwner s"] by (auto simp: thread_ok_def)
  from e consider "e = ReadOwner" | "e = SetOwner" | "e = SetCount" | "e = ReadCount" | "e = AddCount" by blast
  then show ?thesis
  proof cases
    case 1
    then have g: "pc s t = Granted" "s' = goto t (if fLockOwner s < 0 then Taking else Nesting) s" using st by (auto split: if_splits)
    have "locker_inv b (goto t (if fLockOwner s < 0 then Taking else Nesting) s) (d(t := d t)) n k"
      using ok g(1) t by (intro inv_token [OF c o]) (auto simp: thread_ok_def B_ERROR_def)
    then show ?thesis using g(2) 1 by (simp add: depth_after_def)
  next
    case 2
    then have g: "pc s t = Taking" "s' = goto t Setting (s\<lparr>fLockOwner := t\<rparr>)" using st by (auto split: if_splits)
    have "locker_inv b (goto t Setting (s\<lparr>fLockOwner := t\<rparr>)) (d(t := d t)) n k"
      using ok g(1) t by (intro inv_token [OF c o]) (auto simp: thread_ok_def)
    then show ?thesis using g(2) 2 by (simp add: depth_after_def)
  next
    case 3
    then have g: "pc s t = Setting" "s' = goto t Idle (s\<lparr>fRecursiveCount := 1, answer := (answer s)(t := B_OK)\<rparr>)"
      using st by (auto split: if_splits)
    have "locker_inv b s' (d(t := Suc (d t))) n k"
      unfolding g(2) using ok g(1) t by (intro inv_token [OF c o]) (auto simp: thread_ok_def)
    then show ?thesis using 3 by (simp add: depth_after_def)
  next
    case 4
    then have g: "pc s t = Nesting" "s' = goto t (Adding (fRecursiveCount s)) s" using st by (auto split: if_splits)
    have "locker_inv b (goto t (Adding (fRecursiveCount s)) s) (d(t := d t)) n k"
      using ok g(1) t by (intro inv_token [OF c o]) (auto simp: thread_ok_def)
    then show ?thesis using g(2) 4 by (simp add: depth_after_def)
  next
    case 5
    then obtain m where g: "pc s t = Adding m" "s' = goto t Idle (s\<lparr>fRecursiveCount := int32 (m + 1), answer := (answer s)(t := B_OK)\<rparr>)"
      using st by (auto split: pc.splits)
    have "m = int (d t)" "d t < n" "0 < d t" "fLockOwner s = t" using ok g(1) by (auto simp: thread_ok_def)
    then have "locker_inv b s' (d(t := Suc (d t))) n k"
      unfolding g(2) using g(1) t by (intro inv_token [OF c o]) (auto simp: thread_ok_def i)
    then show ?thesis using 5 by (simp add: depth_after_def)
  qed
qed

lemma inv_drop:
  assumes c: "counts_inv b s d n k" and o: "owner_inv s d n" and n: "n < 2 ^ 30" and t: "0 < t"
    and e: "e = CallUnlock \<and> 0 < d t \<or> e = SubtractCount \<or> e = TestCount" and st: "step t e s = Some s'"
  shows "locker_inv b s' (depth_after t e d) n k"
proof -
  note ok = ownerD [OF o, of t]
  from e have "(e = CallUnlock \<and> 0 < d t) \<or> e = SubtractCount \<or> e = TestCount" .
  then consider "e = CallUnlock" "0 < d t" | "e = SubtractCount" | "e = TestCount" by auto
  then show ?thesis
  proof cases
    case 1
    then have g: "pc s t = Idle" "s' = goto t (Subtracting (fRecursiveCount s)) s" using st by (auto split: if_splits)
    have "locker_inv b (goto t (Subtracting (fRecursiveCount s)) s) (d(t := d t)) n k"
      using ok g(1) t 1(2) by (intro inv_token [OF c o]) (auto simp: thread_ok_def)
    then show ?thesis using g(2) 1 by (simp add: depth_after_def)
  next
    case 2
    then obtain m where g: "pc s t = Subtracting m" "s' = goto t Testing (s\<lparr>fRecursiveCount := int32 (m - 1)\<rparr>)"
      using st by (auto split: pc.splits)
    have m: "m = int (d t)" "d t \<le> n" "0 < d t" "fLockOwner s = t" using ok g(1) by (auto simp: thread_ok_def)
    then have i: "int32 (m - 1) = int (d t - 1)" using n by (subst int32_id) auto
    have "locker_inv b s' (d(t := d t - 1)) n k"
      unfolding g(2) i using g(1) t m by (intro inv_token [OF c o]) (auto simp: thread_ok_def)
    then show ?thesis using 2 by (simp add: depth_after_def)
  next
    case 3
    then have g: "pc s t = Testing" "s' = goto t (if fRecursiveCount s = 0 then Releasing else Idle) s" using st by (auto split: if_splits)
    have "locker_inv b (goto t (if fRecursiveCount s = 0 then Releasing else Idle) s) (d(t := d t)) n k"
      using ok g(1) t by (intro inv_token [OF c o]) (auto simp: thread_ok_def)
    then show ?thesis using g(2) 3 by (simp add: depth_after_def)
  qed
qed

lemma inv_Unlock_rest:
  assumes c: "counts_inv b s d n k" and o: "owner_inv s d n" and b: "b \<le> 1" and n: "n < 2 ^ 30" and t: "0 < t"
    and e: "e = ClearOwner \<or> e = CountDown \<or> e = ReleaseSem" and st: "step t e s = Some s'"
  shows "locker_inv b s' d n k"
  using e
proof (elim disjE)
  assume e: "e = ClearOwner"
  then have g: "pc s t = Releasing" "s' = goto t Counting (s\<lparr>fLockOwner := B_ERROR\<rparr>)"
    using st by (auto split: if_splits)
  then have d: "d t = 0" using ownerD [OF o, of t] by (auto simp: thread_ok_def)
  have "locker_inv b s' (d(t := d t)) n k"
    unfolding g(2) using t d g(1) by (intro inv_token [OF c o]) (auto simp: thread_ok_def)
  then show ?thesis by simp
next
  assume e: "e = CountDown"
  then have g: "pc s t = Counting" using st by (auto split: if_splits)
  let ?x = "if 1 < fBenaphoreCount s then Signalling else Idle"
  have s': "s' = goto t ?x (s\<lparr>fBenaphoreCount := int32 (fBenaphoreCount s - 1)\<rparr>)"
    using st g e by (simp add: Let_def)
  have d: "d t = 0" "fLockOwner s = B_ERROR" using ownerD [OF o, of t] g by (auto simp: thread_ok_def)
  have tok: "t \<in> tokens s d" "t \<notin> waiting s" "t \<notin> signalling s" "t \<notin> requesting s" using g by (simp_all add: in_sets)
  have "counts_inv b s' d n k" unfolding s' by (rule counts_down [OF c b n tok d(1)])
  moreover have "owner_inv s' d n"
    unfolding s' using t d g by (intro owner_same [OF o]) (auto simp: thread_ok_def)
  ultimately show ?thesis by (simp add: locker_inv_def)
next
  assume e: "e = ReleaseSem"
  then have g: "pc s t = Signalling" "s' = goto t Idle (s\<lparr>semCount := Suc (semCount s)\<rparr>)"
    using st by (auto split: if_splits)
  have d: "d t = 0" using ownerD [OF o, of t] g by (auto simp: thread_ok_def)
  have out: "t \<in> signalling s" "t \<notin> waiting s" "t \<notin> tokens s d" using g d by (simp_all add: in_sets)
  have "counts_inv b s' d n k" unfolding g(2) by (rule counts_signal [OF c out])
  moreover have "owner_inv s' d n"
    unfolding g(2) using t d g by (intro owner_same [OF o]) (auto simp: thread_ok_def)
  ultimately show ?thesis by (simp add: locker_inv_def)
qed

definition style :: "bool \<Rightarrow> nat" where
  "style benaphore = (if benaphore then 0 else 1)"

lemma run_inv:
  "run (InitLocker sem benaphore) s d n k \<Longrightarrow> locker_inv (style benaphore) s d n k \<and> n < 2 ^ 30"
proof (induction rule: run.induct)
  case start
  then show ?case using locker_inv_start [of benaphore sem] by (simp add: style_def)
next
  case (more s d n k t e s')
  have b: "style benaphore \<le> 1" by (simp add: style_def)
  have c: "counts_inv (style benaphore) s d n k" and o: "owner_inv s d n" and n: "n < 2 ^ 30"
    using more.IH by (auto simp: locker_inv_def)
  show ?case
  proof (cases e)
    case (CallAcquire timeout)
    then show ?thesis using inv_CallAcquire [OF c o more.hyps(2), of timeout s'] more.hyps
      by (simp add: calls_after_def failures_after_def depth_after_def)
  next
    case Request
    then show ?thesis using inv_Request [OF c o b n more.hyps(2)] more.hyps(3) n
      by (simp only: calls_after_def failures_after_def depth_after_def event.case simp_thms)
  next
    case (SemReturns status)
    then show ?thesis using inv_SemReturns [OF c o more.hyps(2), of status s'] more.hyps
      by (simp add: calls_after_def depth_after_def)
  next
    case CallUnlock
    then show ?thesis using inv_drop [OF c o n more.hyps(2) _ more.hyps(3)] more.hyps(4) n
      by (simp add: calls_after_def failures_after_def)
  qed (use inv_Unlock_rest [OF c o b n more.hyps(2) _ more.hyps(3)] inv_take [OF c o n more.hyps(2) _ more.hyps(3)]
        inv_drop [OF c o n more.hyps(2) _ more.hyps(3)] n in \<open>simp_all add: calls_after_def failures_after_def depth_after_def cong: if_cong del: fun_upd_apply\<close>)
qed

section \<open>Properties\<close>

lemma run_counts: "run (InitLocker sem benaphore) s d n k \<Longrightarrow> counts_inv (style benaphore) s d n k"
  and run_owner: "run (InitLocker sem benaphore) s d n k \<Longrightarrow> owner_inv s d n"
  using run_inv [of sem benaphore s d n k] by (auto simp: locker_inv_def)

definition quiet :: "locker" where
  "quiet = InitLocker 5 True"

fun exec :: "(thread \<times> event) list \<Rightarrow> locker \<Rightarrow> locker option" where
  "exec [] s = Some s"
| "exec ((t, e) # es) s = (case step t e s of None \<Rightarrow> None | Some s' \<Rightarrow> exec es s')"

text \<open>The steps of one thread that keep to the discipline of \<open>run\<close> are a run.\<close>

fun alone_ok :: "event list \<Rightarrow> nat \<Rightarrow> nat \<Rightarrow> bool" where
  "alone_ok [] m n \<longleftrightarrow> True"
| "alone_ok (e # es) m n \<longleftrightarrow> (e = CallUnlock \<longrightarrow> 0 < m) \<and> calls_after e n < 2 ^ 30 \<and>
     alone_ok es (depth_after 0 e (\<lambda>_. m) 0) (calls_after e n)"

lemma exec_run:
  "run s0 s (\<lambda>u. if u = t then m else 0) n k \<Longrightarrow> 0 < t \<Longrightarrow> exec (map (Pair t) es) s = Some s' \<Longrightarrow> alone_ok es m n \<Longrightarrow>
    \<exists>d n k. run s0 s' d n k \<and> d t = foldl (\<lambda>m e. depth_after 0 e (\<lambda>_. m) 0) m es"
proof (induction es arbitrary: s m n k)
  case Nil
  then show ?case by (intro exI [of _ "\<lambda>u. if u = t then m else 0"]) auto
next
  case (Cons e es)
  obtain s1 where s1: "step t e s = Some s1" "exec (map (Pair t) es) s1 = Some s'" using Cons.prems(3) by (auto split: option.splits)
  have "depth_after t e (\<lambda>u. if u = t then m else 0) = (\<lambda>u. if u = t then depth_after 0 e (\<lambda>_. m) 0 else 0)"
    by (auto simp: depth_after_def fun_eq_iff split: event.splits)
  then have "run s0 s1 (\<lambda>u. if u = t then depth_after 0 e (\<lambda>_. m) 0 else 0) (calls_after e n) (failures_after e k)"
    using run.more [OF Cons.prems(1,2) s1(1)] Cons.prems(4) by simp
  from Cons.IH [OF this Cons.prems(2) s1(2)] Cons.prems(4) show ?case by simp
qed

lemma run_quiet_locked:
  "\<exists>s d n k. run quiet s d n k \<and> d 1 = 1"
proof -
  let ?es = "[CallAcquire 7, Request, ReadOwner, SetOwner, SetCount]"
  have "\<exists>s. exec (map (Pair 1) ?es) quiet = Some s" by (simp add: quiet_def InitLocker_def IsLocked_def B_ERROR_def Let_def)
  then obtain s where s: "exec (map (Pair 1) ?es) quiet = Some s" by blast
  have "run quiet quiet (\<lambda>u. if u = 1 then 0 else 0) 0 0" using run.start [of quiet] by simp
  from exec_run [OF this _ s] have "\<exists>d n k. run quiet s d n k \<and> d 1 = 1" by (simp add: calls_after_def depth_after_def)
  then show ?thesis by blast
qed

text \<open>A thread that unlocks what another thread holds lets a second one in: thread 1 locks, thread 2 unlocks and then locks, so that
  both have the lock and thread 1 has not unlocked.\<close>

lemma Locker_stranger_unlocks:
  "\<exists>s. exec (map (Pair 1) [CallAcquire 7, Request, ReadOwner, SetOwner, SetCount] @
      map (Pair 2) [CallUnlock, SubtractCount, TestCount, ClearOwner, CountDown, CallAcquire 7, Request, ReadOwner, SetOwner, SetCount]) quiet = Some s \<and>
    LockingThread s = 2 \<and> pc s 1 = Idle \<and> pc s 2 = Idle"
  by (simp add: quiet_def InitLocker_def IsLocked_def B_ERROR_def Let_def LockingThread_def int32_id)

text \<open>C4. Mutual exclusion, whatever the interleaving, the style and the timeouts, as long as threads unlock only what they hold and make
  fewer than \<open>2^30\<close> calls: two threads that have locked more often than unlocked are the same thread, it is the owner, and the
  recursion count is the number of its locks without an unlock.\<close>

theorem Locker_mutual_exclusion:
  assumes "run (InitLocker sem benaphore) s d n k" "0 < d t" "0 < d u"
  shows "t = u \<and> LockingThread s = t \<and> IsLocked t s \<and> CountLocks s = int (d t)"
proof -
  have "t \<in> tokens s d" "u \<in> tokens s d" using assms by (simp_all add: in_sets)
  then have "t = u" by (rule token_unique [OF run_counts [OF assms(1)]])
  then show ?thesis using ownerD [OF run_owner [OF assms(1)], of t] assms
    by (auto simp: thread_ok_def LockingThread_def IsLocked_def CountLocks_def)
qed

lemma Locker_mutual_exclusion_witness:
  "\<exists>s d n k. run (InitLocker 5 True) s d n k \<and> d 1 = 1 \<and> CountLocks s = 1 \<and> LockingThread s = 1"
proof -
  obtain s d n k where r: "run (InitLocker 5 True) s d n k" "d 1 = 1" using run_quiet_locked by (auto simp: quiet_def)
  have "0 < d 1" using r(2) by simp
  from Locker_mutual_exclusion [OF r(1) this this] r show ?thesis by auto
qed

lemma quiet_threads:
  assumes "\<forall>u. d u = 0 \<and> (pc s u = Idle \<or> (\<exists>timeout. pc s u = Waiting timeout))"
  shows "d u = 0 \<and> \<not> entitled (pc s u) \<and> pc s u \<noteq> Signalling"
proof -
  have "d u = 0" "pc s u = Idle \<or> (\<exists>timeout. pc s u = Waiting timeout)" using assms by simp_all
  then show ?thesis by auto
qed

text \<open>C5. No lost wake-up: while a thread waits for the lock and no thread holds it, is taking it, or
  is in \<open>Unlock\<close>, the semaphore has a unit and the waiting thread can take it.\<close>

theorem Locker_no_lost_wakeup:
  assumes "run (InitLocker sem benaphore) s d n k" "pc s t = Waiting timeout"
    and "\<forall>u. d u = 0 \<and> (pc s u = Idle \<or> (\<exists>timeout. pc s u = Waiting timeout))"
  shows "\<exists>s'. step t (SemReturns B_OK) s = Some s' \<and> pc s' t = Granted"
proof -
  note c = run_counts [OF assms(1)]
  have "tokens s d = {}" "signalling s = {}"
    using quiet_threads [OF assms(3)] by (auto simp: tokens_def signalling_def)
  moreover have "0 < card (waiting s)" using assms(2) countsD(1) [OF c] by (auto simp: card_gt_0_iff waiting_def)
  then have "fBenaphoreCount s \<noteq> 0" using countsD(4) [OF c] by simp
  ultimately have "semCount s = 1" using countsD(8) [OF c] by simp
  then show ?thesis using assms(2) by simp
qed

lemma run_quiet_waiting:
  "\<exists>s. run (InitLocker 5 False) s (\<lambda>_. 0) 1 0 \<and> pc s = (\<lambda>_. Idle)(1 := Waiting 7)"
proof -
  have a: "run (InitLocker 5 False) (InitLocker 5 False) (\<lambda>_. 0) 0 0" by (rule run.start)
  let ?s1 = "goto 1 (Requesting 7) (InitLocker 5 False)"
  have "step 1 (CallAcquire 7) (InitLocker 5 False) = Some ?s1" by (simp add: InitLocker_def IsLocked_def B_ERROR_def)
  from run.more [OF a _ this] have b: "run (InitLocker 5 False) ?s1 (\<lambda>_. 0) 1 0"
    by (simp add: depth_after_def calls_after_def failures_after_def)
  let ?s2 = "goto 1 (Waiting 7) (?s1\<lparr>fBenaphoreCount := int32 2\<rparr>)"
  have "step 1 Request ?s1 = Some ?s2" by (simp add: InitLocker_def Let_def)
  from run.more [OF b _ this] show ?thesis
    by (intro exI [of _ ?s2]) (simp add: depth_after_def calls_after_def failures_after_def InitLocker_def)
qed

lemma Locker_no_lost_wakeup_witness:
  "\<exists>s s'. pc s 1 = Waiting 7 \<and> step 1 (SemReturns B_OK) s = Some s' \<and> pc s' 1 = Granted"
proof -
  obtain s where s: "run (InitLocker 5 False) s (\<lambda>_. 0) 1 0" "pc s = (\<lambda>_. Idle)(1 := Waiting 7)"
    using run_quiet_waiting by blast
  have "pc s 1 = Waiting 7" "\<forall>u. (\<lambda>_. 0) u = (0::nat) \<and> (pc s u = Idle \<or> (\<exists>timeout. pc s u = Waiting timeout))"
    by (simp_all add: s(2))
  from Locker_no_lost_wakeup [OF s(1) this] this(1) show ?thesis by blast
qed

text \<open>The benaphore count is the initial value plus the threads that hold or wait for the lock
  plus the failed acquisitions; so after one failed acquisition, and always in the semaphore style,
  every further request of a thread that does not own the lock goes to the semaphore.\<close>

lemma Locker_count_requests:
  assumes "run (InitLocker sem benaphore) s d n k"
  shows "CountLockRequests s = int (style benaphore + card (tokens s d) + card (waiting s) + k) \<and>
    (0 < k \<or> \<not> benaphore \<longrightarrow> pc s t = Idle \<longrightarrow> \<not> IsLocked t s \<longrightarrow>
      (\<exists>s'. exec [(t, CallAcquire timeout), (t, Request)] s = Some s' \<and> pc s' t = Waiting timeout))"
  using countsD(4) [OF run_counts [OF assms]]
  by (auto simp: CountLockRequests_def style_def Let_def split: if_splits)

text \<open>Lock and unlock without contention. On a free benaphore the two calls of one thread run
  without the semaphore and restore the free lock; a nested pair of calls of the owner leaves
  count, owner and recursion count as they were.\<close>

lemma Locker_uncontended_cycle:
  assumes "0 < t" "pc s t = Idle"
  shows "(fBenaphoreCount s = 0 \<and> fLockOwner s = B_ERROR \<and> fRecursiveCount s = 0 \<longrightarrow>
      exec (map (Pair t) [CallAcquire timeout, Request, ReadOwner, SetOwner, SetCount, CallUnlock, SubtractCount, TestCount, ClearOwner, CountDown]) s
        = Some (s\<lparr>answer := (answer s)(t := B_OK)\<rparr>)) \<and>
    (fLockOwner s = t \<and> 0 < fRecursiveCount s \<and> fRecursiveCount s < 2 ^ 31 - 1 \<longrightarrow>
      exec (map (Pair t) [CallAcquire timeout, ReadOwner, ReadCount, AddCount, CallUnlock, SubtractCount, TestCount]) s
        = Some (s\<lparr>answer := (answer s)(t := B_OK)\<rparr>))"
proof (intro conjI impI)
  assume free: "fBenaphoreCount s = 0 \<and> fLockOwner s = B_ERROR \<and> fRecursiveCount s = 0"
  have i: "int32 1 = 1" "int32 (-1) = -1" by (simp_all add: int32_id)
  show "exec (map (Pair t) [CallAcquire timeout, Request, ReadOwner, SetOwner, SetCount, CallUnlock, SubtractCount, TestCount, ClearOwner, CountDown]) s
        = Some (s\<lparr>answer := (answer s)(t := B_OK)\<rparr>)"
    using assms free i by (simp add: IsLocked_def B_ERROR_def Let_def goto_def fun_upd_idem)
next
  assume own: "fLockOwner s = t \<and> 0 < fRecursiveCount s \<and> fRecursiveCount s < 2 ^ 31 - 1"
  have i: "int32 (fRecursiveCount s + 1) = fRecursiveCount s + 1" "int32 (fRecursiveCount s) = fRecursiveCount s"
    using own by (auto intro: int32_id)
  show "exec (map (Pair t) [CallAcquire timeout, ReadOwner, ReadCount, AddCount, CallUnlock, SubtractCount, TestCount]) s
        = Some (s\<lparr>answer := (answer s)(t := B_OK)\<rparr>)"
    using assms own i by (simp add: IsLocked_def Let_def goto_def fun_upd_idem)
qed

end
