(* ===== verification/Message.thy ===== *)
theory Message
  imports BString
begin

text \<open>
  \<open>BMessage\<close> of \<open>kits/app/Message.cpp\<close>: named, typed fields of byte items in the order of their
  addition, the flat form, the typed accessors, and the users of the class in
  \<open>kits/support/Archivable.cpp\<close>. A pointer to bytes is what can be read through it (\<open>None\<close> for
  null). Whether an allocation of a size succeeds is the argument \<open>alloc\<close>. Handlers are addresses.
  The calls that the file leaves to \<open>debugger()\<close> end in the fault \<open>Debugger\<close>.
\<close>

section \<open>State\<close>

type_synonym type_code = "32 word"

record node =
  name :: "byte list"
  type :: type_code
  data :: "byte list list"

record message =
  what :: "32 word"
  m_nodes :: "node list option"
  handler :: ptr
  reply_to :: ptr

definition B_FIELD_NAME_LENGTH :: nat where "B_FIELD_NAME_LENGTH = 255"

text \<open>Multicharacter constants: the first character is the most significant byte.\<close>

definition B_ANY_TYPE :: type_code where "B_ANY_TYPE = 0x414E5954"
definition B_STRING_TYPE :: type_code where "B_STRING_TYPE = 0x43535452"
definition B_POINTER_TYPE :: type_code where "B_POINTER_TYPE = 0x504E5452"
definition B_MESSAGE_TYPE :: type_code where "B_MESSAGE_TYPE = 0x4D534747"
definition B_MESSENGER_TYPE :: type_code where "B_MESSENGER_TYPE = 0x4D534E47"
definition B_BOOL_TYPE :: type_code where "B_BOOL_TYPE = 0x424F4F4C"
definition B_INT32_TYPE :: type_code where "B_INT32_TYPE = 0x4C4F4E47"
definition B_UINT32_TYPE :: type_code where "B_UINT32_TYPE = 0x554C4E47"
definition B_INT64_TYPE :: type_code where "B_INT64_TYPE = 0x4C4C4E47"

lemmas type_codes = B_ANY_TYPE_def B_STRING_TYPE_def B_POINTER_TYPE_def B_MESSAGE_TYPE_def B_MESSENGER_TYPE_def
  B_BOOL_TYPE_def B_INT32_TYPE_def B_UINT32_TYPE_def B_INT64_TYPE_def

text \<open>
  A field name is compared by \<open>strncmp\<close> and copied by \<open>strnlen\<close>, both up to 255 bytes, so a name
  given by a pointer counts up to its zero or 255 bytes. Reading a name that ends before both is
  undefined, like a null name.
\<close>

definition field_name :: "mem \<Rightarrow> byte list" where
  "field_name m = cstring (take B_FIELD_NAME_LENGTH m)"

fun read_name :: "mem option \<Rightarrow> byte list outcome" where
  "read_name None = Inl Undefined"
| "read_name (Some m) =
     (if B_FIELD_NAME_LENGTH \<le> length m \<or> 0 \<in> set m then Inr (field_name m) else Inl Undefined)"

fun read_ptr :: "mem option \<Rightarrow> nat \<Rightarrow> byte list outcome" where
  "read_ptr None n = (if n = 0 then Inr [] else Inl Undefined)"
| "read_ptr (Some m) n = read_bytes m n"

section \<open>Construction and the node list\<close>

definition Message_new :: "32 word \<Rightarrow> message" where
  "Message_new w = \<lparr>what = w, m_nodes = None, handler = null, reply_to = null\<rparr>"

definition hasNodes :: "message \<Rightarrow> bool" where
  "hasNodes this \<longleftrightarrow> m_nodes this \<noteq> None"

definition nodes :: "message \<Rightarrow> node list" where
  "nodes this = (case m_nodes this of None \<Rightarrow> [] | Some ns \<Rightarrow> ns)"

definition clearNodes :: "message \<Rightarrow> message" where
  "clearNodes this = this\<lparr>m_nodes := None\<rparr>"

definition node_index :: "byte list \<Rightarrow> node list \<Rightarrow> nat" where
  "node_index nm ns = find_index (\<lambda>el. field_name (c_str (name el)) = nm) ns"

definition pushNode :: "message \<Rightarrow> byte list \<Rightarrow> type_code \<Rightarrow> byte list \<Rightarrow> status \<times> message" where
  "pushNode this nm ty item =
     (let ns = nodes this; i = node_index nm ns
      in if i < length ns then
           (if type (ns ! i) \<noteq> ty then (B_BAD_TYPE, this\<lparr>m_nodes := Some ns\<rparr>)
            else (B_OK, this\<lparr>m_nodes := Some (ns[i := (ns ! i)\<lparr>data := data (ns ! i) @ [item]\<rparr>])\<rparr>))
         else (B_OK, this\<lparr>m_nodes := Some (ns @ [\<lparr>name = nm, type = ty, data = [item]\<rparr>])\<rparr>))"

definition addNode ::
  "(nat \<Rightarrow> bool) \<Rightarrow> message \<Rightarrow> mem option \<Rightarrow> type_code \<Rightarrow> int \<Rightarrow> mem option \<Rightarrow> (status \<times> message) outcome" where
  "addNode alloc this nm ty len d =
     (if \<not> alloc (size_t len) then Inr (B_NO_MEMORY, this)
      else bindR (read_ptr d (size_t len)) (\<lambda>item.
           bindR (read_name nm) (\<lambda>n. Inr (pushNode this n ty item))))"

text \<open>
  \<open>findData\<close> gives the place of the item, a node and an index into its items. The index is
  converted to the unsigned size type; one that is equal to the number of items passes the test
  and refers behind the vector.
\<close>

definition findData :: "message \<Rightarrow> byte list \<Rightarrow> type_code \<Rightarrow> int \<Rightarrow> (status \<times> (nat \<times> nat) option) outcome" where
  "findData this nm ty index =
     (let ns = nodes this; i = node_index nm ns
      in if i < length ns then
           (if ty \<noteq> B_ANY_TYPE \<and> type (ns ! i) \<noteq> ty then Inr (B_BAD_TYPE, None)
            else if length (data (ns ! i)) < size_t index then Inr (B_BAD_INDEX, None)
            else if size_t index < length (data (ns ! i)) then Inr (B_OK, Some (i, size_t index))
            else Inl Undefined)
         else Inr (B_NAME_NOT_FOUND, None))"

section \<open>Copying and information\<close>

text \<open>
  The copy adds every item by \<open>addNode\<close>, whose status is dropped, to the emptied message. When the
  source is the object itself (\<open>Same\<close>) it is empty by then. Handlers are not copied.
\<close>

fun add_items :: "(nat \<Rightarrow> bool) \<Rightarrow> byte list \<Rightarrow> type_code \<Rightarrow> byte list list \<Rightarrow> message \<Rightarrow> message outcome" where
  "add_items alloc nm ty [] this = Inr this"
| "add_items alloc nm ty (d # ds) this =
     bindR (addNode alloc this (Some (c_str nm)) ty (int (length d)) (Some d)) (\<lambda>(_, this').
       add_items alloc nm ty ds this')"

fun add_nodes :: "(nat \<Rightarrow> bool) \<Rightarrow> node list \<Rightarrow> message \<Rightarrow> message outcome" where
  "add_nodes alloc [] this = Inr this"
| "add_nodes alloc (n # ns) this =
     bindR (add_items alloc (name n) (type n) (data n) this) (\<lambda>this'. add_nodes alloc ns this')"

definition impl_assign :: "(nat \<Rightarrow> bool) \<Rightarrow> message \<Rightarrow> message arg \<Rightarrow> message outcome" where
  "impl_assign alloc this other =
     (let this' = clearNodes this in add_nodes alloc (nodes (deref this' other)) this')"

definition Message_assign :: "(nat \<Rightarrow> bool) \<Rightarrow> message \<Rightarrow> message arg \<Rightarrow> message outcome" where
  "Message_assign alloc this msg = impl_assign alloc (this\<lparr>what := what (deref this msg)\<rparr>) msg"

definition Message_copy :: "(nat \<Rightarrow> bool) \<Rightarrow> message \<Rightarrow> message outcome" where
  "Message_copy alloc msg = impl_assign alloc (Message_new (what msg)) (Other msg)"

definition set_handler :: "message \<Rightarrow> ptr \<Rightarrow> message" where
  "set_handler this h = this\<lparr>handler := h\<rparr>"

definition get_handler :: "message \<Rightarrow> ptr" where
  "get_handler this = handler this"

definition set_reply_handler :: "message \<Rightarrow> ptr \<Rightarrow> message" where
  "set_reply_handler this h = this\<lparr>reply_to := h\<rparr>"

definition get_reply_handler :: "message \<Rightarrow> ptr" where
  "get_reply_handler this = reply_to this"

definition CountNames :: "message \<Rightarrow> type_code \<Rightarrow> int" where
  "CountNames this ty = int32 (int (length (filter (\<lambda>n. ty = B_ANY_TYPE \<or> ty = type n) (nodes this))))"

definition Message_IsEmpty :: "message \<Rightarrow> bool" where
  "Message_IsEmpty this \<longleftrightarrow> \<not> hasNodes this \<or> nodes this = []"

definition isupper :: "byte \<Rightarrow> bool" where
  "isupper c \<longleftrightarrow> 0x41 \<le> c \<and> c \<le> 0x5A"

definition IsSystem :: "message \<Rightarrow> bool" where
  "IsSystem this \<longleftrightarrow>
     (let a = ucast (drop_bit 24 (what this)); b = ucast (drop_bit 16 (what this));
          c = ucast (drop_bit 8 (what this)); d = ucast (what this)
      in a = (0x5F :: byte) \<and> isupper b \<and> isupper c \<and> isupper d)"

definition Message_MakeEmpty :: "message \<Rightarrow> status \<times> message" where
  "Message_MakeEmpty this = (B_OK, clearNodes this)"

text \<open>The operations that call \<open>debugger()\<close>, which does not return.\<close>

definition Rename :: "message \<Rightarrow> mem option \<Rightarrow> mem option \<Rightarrow> status outcome" where
  "Rename this old_entry new_entry = Inl Debugger"

definition WasDelivered :: "message \<Rightarrow> bool outcome" where "WasDelivered this = Inl Debugger"
definition IsSourceWaiting :: "message \<Rightarrow> bool outcome" where "IsSourceWaiting this = Inl Debugger"
definition IsSourceRemote :: "message \<Rightarrow> bool outcome" where "IsSourceRemote this = Inl Debugger"
definition WasDropped :: "message \<Rightarrow> bool outcome" where "WasDropped this = Inl Debugger"
definition Previous :: "message \<Rightarrow> ptr outcome" where "Previous this = Inl Debugger"
definition RemoveData :: "message \<Rightarrow> mem option \<Rightarrow> int \<Rightarrow> status outcome" where "RemoveData this nm i = Inl Debugger"
definition RemoveName :: "message \<Rightarrow> mem option \<Rightarrow> status outcome" where "RemoveName this nm = Inl Debugger"
definition HasSpecifiers :: "message \<Rightarrow> bool" where "HasSpecifiers this = False"

text \<open>A reply to a messenger is refused, one that waits for a reply ends in the debugger.\<close>

definition SendReply_messenger :: "message \<Rightarrow> message \<Rightarrow> int \<Rightarrow> status" where
  "SendReply_messenger this the_reply timeout = B_BAD_REPLY"

definition SendReply_reply :: "message \<Rightarrow> message \<Rightarrow> status outcome" where
  "SendReply_reply this the_reply = Inl Debugger"

section \<open>Data access\<close>

text \<open>
  \<open>FindData\<close> sets the caller's pointer and size: the pointer is the last argument before the call
  and part of the result (the size is the length of what it points to), so that both are there to be set; the code refuses null pointers for them. A
  null name is refused before the pointer is set. Of the arguments of \<open>AddData\<close>, the count only reserves memory and \<open>is_fixed_size\<close> is not used.
\<close>

definition AddData ::
  "(nat \<Rightarrow> bool) \<Rightarrow> message \<Rightarrow> mem option \<Rightarrow> type_code \<Rightarrow> mem option \<Rightarrow> int \<Rightarrow> (status \<times> message) outcome" where
  "AddData alloc this nm ty d num_bytes = addNode alloc this nm ty num_bytes d"

definition FindData ::
  "message \<Rightarrow> mem option \<Rightarrow> type_code \<Rightarrow> int \<Rightarrow> mem option \<Rightarrow> (status \<times> mem option) outcome" where
  "FindData this nm ty index out =
     (if nm = None then Inr (B_BAD_VALUE, out)
      else bindR (read_name nm) (\<lambda>n.
           bindR (findData this n ty index) (\<lambda>(status, item).
             case item of
               None \<Rightarrow> Inr (if status = B_OK then B_ERROR else status, None)
             | Some (i, j) \<Rightarrow> Inr (B_OK, Some (data (nodes this ! i) ! j)))))"

definition FindData_first ::
  "message \<Rightarrow> mem option \<Rightarrow> type_code \<Rightarrow> mem option \<Rightarrow> (status \<times> mem option) outcome" where
  "FindData_first this nm ty out = FindData this nm ty 0 out"

definition set_item :: "node list \<Rightarrow> nat \<Rightarrow> nat \<Rightarrow> byte list \<Rightarrow> node list" where
  "set_item ns i j item = ns[i := (ns ! i)\<lparr>data := (data (ns ! i))[j := item]\<rparr>]"

definition ReplaceData ::
  "(nat \<Rightarrow> bool) \<Rightarrow> message \<Rightarrow> mem option \<Rightarrow> type_code \<Rightarrow> int \<Rightarrow> mem option \<Rightarrow> int \<Rightarrow> (status \<times> message) outcome" where
  "ReplaceData alloc this nm ty index d data_size =
     (if ty = B_ANY_TYPE then Inr (B_BAD_TYPE, this)
      else if nm = None then Inr (B_BAD_VALUE, this)
      else bindR (read_name nm) (\<lambda>n.
           bindR (findData this n ty index) (\<lambda>(status, item).
             case item of
               None \<Rightarrow> Inr (if status = B_OK then B_ERROR else status, this)
             | Some (i, j) \<Rightarrow>
                 if \<not> alloc (size_t data_size) then Inr (B_NO_MEMORY, this)
                 else bindR (read_ptr d (size_t data_size)) (\<lambda>copy.
                      Inr (B_OK, this\<lparr>m_nodes := Some (set_item (nodes this) i j copy)\<rparr>)))))"

definition ReplaceData_first ::
  "(nat \<Rightarrow> bool) \<Rightarrow> message \<Rightarrow> mem option \<Rightarrow> type_code \<Rightarrow> mem option \<Rightarrow> int \<Rightarrow> (status \<times> message) outcome" where
  "ReplaceData_first alloc this nm ty d data_size = ReplaceData alloc this nm ty 0 d data_size"

section \<open>The flat form\<close>

text \<open>Integers in memory, least significant byte first.\<close>

fun le :: "nat \<Rightarrow> nat \<Rightarrow> byte list" where
  "le 0 v = []"
| "le (Suc k) v = word_of_nat v # le k (v div 256)"

fun un_le :: "byte list \<Rightarrow> nat" where
  "un_le [] = 0"
| "un_le (b # bs) = unat b + 256 * un_le bs"

definition read_le :: "nat \<Rightarrow> mem \<Rightarrow> nat outcome" where
  "read_le n buf = bindR (read_bytes buf n) (\<lambda>bs. Inr (un_le bs))"

fun items_size :: "byte list list \<Rightarrow> int" where
  "items_size [] = 0"
| "items_size (d # ds) = 8 + int (length d) + items_size ds"

fun nodes_size :: "node list \<Rightarrow> int" where
  "nodes_size [] = 0"
| "nodes_size (n # ns) = 4 + 1 + int (length (name n)) + 4 + items_size (data n) + nodes_size ns"

definition FlattenedSize :: "message \<Rightarrow> int" where
  "FlattenedSize this = 4 + 4 + nodes_size (nodes this)"

text \<open>
  \<open>Flatten\<close> writes piece by piece; before each piece the running size is compared with the maximum.
  The writer state is what has been written and the status (\<open>B_OK\<close> to go on). The caller's buffer
  is the memory it can write; writing behind it is undefined.
\<close>

type_synonym writer = "status \<times> byte list"

definition put :: "int \<Rightarrow> byte list \<Rightarrow> writer \<Rightarrow> writer" where
  "put limit piece w =
     (case w of (status, out) \<Rightarrow>
        if status \<noteq> B_OK then w
        else if limit < int (length out) + int (length piece) then (B_NO_MEMORY, out)
        else (B_OK, out @ piece))"

definition refuse :: "bool \<Rightarrow> writer \<Rightarrow> writer" where
  "refuse bad w = (case w of (status, out) \<Rightarrow> if status = B_OK \<and> bad then (B_BAD_VALUE, out) else w)"

fun put_items :: "int \<Rightarrow> byte list list \<Rightarrow> writer \<Rightarrow> writer" where
  "put_items limit [] w = w"
| "put_items limit (d # ds) w = put_items limit ds (put limit d (put limit (le 8 (length d)) w))"

fun put_nodes :: "int \<Rightarrow> node list \<Rightarrow> writer \<Rightarrow> writer" where
  "put_nodes limit [] w = w"
| "put_nodes limit (n # ns) w =
     (let w = put limit (le 4 (unat (type n))) w;
          w = refuse (255 < length (name n)) w;
          w = put limit (le 1 (length (name n))) w;
          w = put limit (name n) w;
          w = refuse (2 ^ 32 \<le> length (data n)) w;
          w = put limit (le 4 (length (data n))) w
      in put_nodes limit ns (put_items limit (data n) w))"

definition flat :: "message \<Rightarrow> int \<Rightarrow> writer" where
  "flat this limit = put limit (le 4 0) (put_nodes limit (nodes this) (put limit (le 4 (unat (what this))) (B_OK, [])))"

definition Flatten :: "message \<Rightarrow> mem \<Rightarrow> int \<Rightarrow> (status \<times> mem) outcome" where
  "Flatten this buffer limit =
     (case flat this limit of (status, out) \<Rightarrow>
        if length out \<le> length buffer then Inr (status, out @ drop (length out) buffer) else Inl Undefined)"

definition Flatten_stream :: "message \<Rightarrow> status outcome" where
  "Flatten_stream this = Inl Debugger"

text \<open>
  \<open>Unflatten\<close> reads items and nodes until a type code of 0. It returns the first error of
  \<open>AddData\<close>, with the message as far as it was built.
\<close>

fun read_items ::
  "(nat \<Rightarrow> bool) \<Rightarrow> byte list \<Rightarrow> type_code \<Rightarrow> nat \<Rightarrow> mem \<Rightarrow> message \<Rightarrow> (status \<times> mem \<times> message) outcome" where
  "read_items alloc nm ty 0 buf this = Inr (B_OK, buf, this)"
| "read_items alloc nm ty (Suc data_size) buf this =
     bindR (read_le 8 buf) (\<lambda>data_item_size.
     bindR (AddData alloc this (Some (c_str nm)) ty (Some (drop 8 buf)) (signed_take_bit 63 (int data_item_size))) (\<lambda>(ret, this').
       if ret \<noteq> B_OK then Inr (ret, drop 8 buf, this')
       else read_items alloc nm ty data_size (drop (8 + data_item_size) buf) this'))"

lemma read_items_length: "read_items alloc nm ty n buf this = Inr (ret, buf', this') \<Longrightarrow> length buf' \<le> length buf"
  by (induction n arbitrary: buf this) (auto simp: be_simps split: if_splits prod.splits, fastforce)

function read_nodes :: "(nat \<Rightarrow> bool) \<Rightarrow> mem \<Rightarrow> message \<Rightarrow> (status \<times> message) outcome" where
  "read_nodes alloc buf this =
     bindR (read_le 4 buf) (\<lambda>ty.
       if ty = 0 then Inr (B_OK, this)
       else
       bindR (read_le 1 (drop 4 buf)) (\<lambda>name_length.
       bindR (read_bytes (drop 5 buf) name_length) (\<lambda>nm.
       bindR (read_le 4 (drop (5 + name_length) buf)) (\<lambda>data_size.
       bindR (read_items alloc nm (word_of_nat ty) data_size (drop (9 + name_length) buf) this) (\<lambda>(ret, buf', this').
         if ret \<noteq> B_OK then Inr (ret, this') else read_nodes alloc buf' this')))))"
  by pat_completeness auto

termination read_nodes
proof (relation "measure (\<lambda>(alloc, buf, this). length buf)", goal_cases)
  case (2 alloc buf this ty nl nm ds r ret p buf' this')
  then have "4 \<le> length buf" by (auto simp: read_le_def read_bytes_def be_simps split: if_splits)
  moreover have "length buf' \<le> length (drop (9 + nl) buf)"
    using 2 by (auto dest: read_items_length)
  ultimately show ?case by simp
qed simp

declare read_nodes.simps [simp del]

definition Unflatten :: "(nat \<Rightarrow> bool) \<Rightarrow> message \<Rightarrow> mem \<Rightarrow> (status \<times> message) outcome" where
  "Unflatten alloc this buf =
     (let this = clearNodes this
      in bindR (read_le 4 buf) (\<lambda>w. read_nodes alloc (drop 4 buf) (this\<lparr>what := word_of_nat w\<rparr>)))"

definition Unflatten_stream :: "message \<Rightarrow> status outcome" where
  "Unflatten_stream this = Inl Debugger"

section \<open>Typed access\<close>

text \<open>
  The accessors that the macro \<open>DEFINE_FUNCTIONS\<close> generates for a value type: the value is its object
  representation, a list of bytes, \<open>zero\<close> that of the default value. \<open>FindT\<close> reads the size of the type
  from the item, whatever size the item has.
\<close>

definition AddT :: "type_code \<Rightarrow> (nat \<Rightarrow> bool) \<Rightarrow> message \<Rightarrow> mem option \<Rightarrow> byte list \<Rightarrow> (status \<times> message) outcome" where
  "AddT typeCode alloc this nm val = AddData alloc this nm typeCode (Some val) (int (length val))"

definition FindT :: "type_code \<Rightarrow> byte list \<Rightarrow> message \<Rightarrow> mem option \<Rightarrow> int \<Rightarrow> (status \<times> byte list) outcome" where
  "FindT typeCode zero this nm index =
     bindR (FindData this nm typeCode index None) (\<lambda>(error, p).
       if error = B_OK then bindR (read_ptr p (length zero)) (\<lambda>v. Inr (error, v)) else Inr (error, zero))"

definition FindT_first :: "type_code \<Rightarrow> byte list \<Rightarrow> message \<Rightarrow> mem option \<Rightarrow> (status \<times> byte list) outcome" where
  "FindT_first typeCode zero this nm = FindT typeCode zero this nm 0"

definition ReplaceT ::
  "type_code \<Rightarrow> (nat \<Rightarrow> bool) \<Rightarrow> message \<Rightarrow> mem option \<Rightarrow> int \<Rightarrow> byte list \<Rightarrow> (status \<times> message) outcome" where
  "ReplaceT typeCode alloc this nm index val = ReplaceData alloc this nm typeCode index (Some val) (int (length val))"

definition ReplaceT_first ::
  "type_code \<Rightarrow> (nat \<Rightarrow> bool) \<Rightarrow> message \<Rightarrow> mem option \<Rightarrow> byte list \<Rightarrow> (status \<times> message) outcome" where
  "ReplaceT_first typeCode alloc this nm val = ReplaceT typeCode alloc this nm 0 val"

definition AddInt32 :: "(nat \<Rightarrow> bool) \<Rightarrow> message \<Rightarrow> mem option \<Rightarrow> 32 word \<Rightarrow> (status \<times> message) outcome" where
  "AddInt32 alloc this nm val = AddT B_INT32_TYPE alloc this nm (le 4 (unat val))"

definition FindInt32 :: "message \<Rightarrow> mem option \<Rightarrow> int \<Rightarrow> (status \<times> 32 word) outcome" where
  "FindInt32 this nm index =
     bindR (FindT B_INT32_TYPE (le 4 0) this nm index) (\<lambda>(error, v). Inr (error, word_of_nat (un_le v)))"

definition AddPointer :: "(nat \<Rightarrow> bool) \<Rightarrow> message \<Rightarrow> mem option \<Rightarrow> ptr \<Rightarrow> (status \<times> message) outcome" where
  "AddPointer alloc this nm pointer = AddT B_POINTER_TYPE alloc this nm (le 8 pointer)"

definition FindPointer :: "message \<Rightarrow> mem option \<Rightarrow> int \<Rightarrow> (status \<times> ptr) outcome" where
  "FindPointer this nm index =
     bindR (FindData this nm B_POINTER_TYPE index None) (\<lambda>(error, p).
       if error = B_OK then bindR (read_ptr p 8) (\<lambda>v. Inr (error, un_le v)) else Inr (error, null))"

definition ReplacePointer ::
  "(nat \<Rightarrow> bool) \<Rightarrow> message \<Rightarrow> mem option \<Rightarrow> int \<Rightarrow> ptr \<Rightarrow> (status \<times> message) outcome" where
  "ReplacePointer alloc this nm index pointer = ReplaceT B_POINTER_TYPE alloc this nm index (le 8 pointer)"

text \<open>Strings. \<open>AddString\<close> of a null pointer adds an item without bytes.\<close>

definition AddString_cstr :: "(nat \<Rightarrow> bool) \<Rightarrow> message \<Rightarrow> mem option \<Rightarrow> mem option \<Rightarrow> (status \<times> message) outcome" where
  "AddString_cstr alloc this nm string =
     bindR (case string of None \<Rightarrow> Inr 0 | Some m \<Rightarrow> bindR (read_cstring m) (\<lambda>s. Inr (int (length s) + 1))) (\<lambda>n.
     AddData alloc this nm B_STRING_TYPE string n)"

definition AddString_str :: "(nat \<Rightarrow> bool) \<Rightarrow> message \<Rightarrow> mem option \<Rightarrow> bstring \<Rightarrow> (status \<times> message) outcome" where
  "AddString_str alloc this nm string =
     AddData alloc this nm B_STRING_TYPE (Some (String string)) (Length string + 1)"

definition FindString_cstr :: "message \<Rightarrow> mem option \<Rightarrow> int \<Rightarrow> mem option \<Rightarrow> (status \<times> mem option) outcome" where
  "FindString_cstr this nm index string = FindData this nm B_STRING_TYPE index string"

text \<open>
  The variant for a \<open>BString\<close> assigns what the pointer variant found, or left, in a local variable
  that has no initial value: \<open>SetTo\<close> of an indeterminate or null pointer is undefined.
\<close>

definition FindString_str :: "message \<Rightarrow> mem option \<Rightarrow> int \<Rightarrow> bstring \<Rightarrow> (status \<times> bstring) outcome" where
  "FindString_str this nm index string =
     (if nm = None then Inl Undefined
      else bindR (FindString_cstr this nm index None) (\<lambda>(error, v).
           bindR (SetTo_cstr string v) (\<lambda>string'. Inr (error, string'))))"

definition ReplaceString_cstr ::
  "(nat \<Rightarrow> bool) \<Rightarrow> message \<Rightarrow> mem option \<Rightarrow> int \<Rightarrow> mem option \<Rightarrow> (status \<times> message) outcome" where
  "ReplaceString_cstr alloc this nm index string =
     (case string of
        None \<Rightarrow> Inr (B_BAD_VALUE, this)
      | Some m \<Rightarrow> bindR (read_cstring m) (\<lambda>s.
          ReplaceData alloc this nm B_STRING_TYPE index string (int (length s) + 1)))"

definition ReplaceString_str ::
  "(nat \<Rightarrow> bool) \<Rightarrow> message \<Rightarrow> mem option \<Rightarrow> int \<Rightarrow> bstring \<Rightarrow> (status \<times> message) outcome" where
  "ReplaceString_str alloc this nm index string =
     ReplaceData alloc this nm B_STRING_TYPE index (Some (String string)) (Length string + 1)"

text \<open>
  Messages inside messages, in their flat form. The buffer is on the stack up to 16384 bytes,
  allocated above; it has the flattened size either way.
\<close>

definition AddMessage :: "(nat \<Rightarrow> bool) \<Rightarrow> message \<Rightarrow> mem option \<Rightarrow> message option \<Rightarrow> (status \<times> message) outcome" where
  "AddMessage alloc this nm msg =
     (case msg of
        None \<Rightarrow> Inr (B_BAD_VALUE, this)
      | Some m \<Rightarrow>
          let n = FlattenedSize m
          in if 16384 < n \<and> \<not> alloc (nat n) then Inr (B_NO_MEMORY, this)
             else bindR (Flatten m (replicate (nat n) 0) n) (\<lambda>(error, buffer).
               if B_OK \<le> error then AddData alloc this nm B_MESSAGE_TYPE (Some buffer) n
               else Inr (error, this)))"

definition FindMessage ::
  "(nat \<Rightarrow> bool) \<Rightarrow> message \<Rightarrow> mem option \<Rightarrow> int \<Rightarrow> message option \<Rightarrow> (status \<times> message option) outcome" where
  "FindMessage alloc this nm index msg =
     (case msg of
        None \<Rightarrow> Inr (B_BAD_VALUE, None)
      | Some m \<Rightarrow>
          bindR (FindData this nm B_MESSAGE_TYPE index None) (\<lambda>(error, d).
            if error = B_OK then
              case d of None \<Rightarrow> Inl Undefined
              | Some buf \<Rightarrow> bindR (Unflatten alloc m buf) (\<lambda>(error, m'). Inr (error, Some m'))
            else bindR (Message_assign alloc m (Other (Message_new 0))) (\<lambda>m'. Inr (error, Some m'))))"

definition ReplaceMessage ::
  "(nat \<Rightarrow> bool) \<Rightarrow> message \<Rightarrow> mem option \<Rightarrow> int \<Rightarrow> message option \<Rightarrow> (status \<times> message) outcome" where
  "ReplaceMessage alloc this nm index msg =
     (case msg of
        None \<Rightarrow> Inr (B_BAD_VALUE, this)
      | Some m \<Rightarrow>
          let n = FlattenedSize m
          in if n < 0 then Inr (B_BAD_VALUE, this)
             else bindR (Flatten m (replicate (nat n) 0) n) (\<lambda>(error, buffer).
               if B_OK \<le> error then ReplaceData alloc this nm B_MESSAGE_TYPE index (Some buffer) n
               else Inr (error, this)))"

section \<open>Archives\<close>

definition class_key :: mem where
  "class_key = c_str [0x63, 0x6C, 0x61, 0x73, 0x73]"

definition Archive :: "(nat \<Rightarrow> bool) \<Rightarrow> message option \<Rightarrow> bool \<Rightarrow> (status \<times> message option) outcome" where
  "Archive alloc into deep =
     (case into of
        None \<Rightarrow> Inr (B_BAD_VALUE, None)
      | Some m \<Rightarrow>
          bindR (AddString_cstr alloc m (Some class_key)
                  (Some (c_str [0x42, 0x41, 0x72, 0x63, 0x68, 0x69, 0x76, 0x61, 0x62, 0x6C, 0x65]))) (\<lambda>(_, m').
          Inr (B_OK, Some m')))"

text \<open>
  The search loop of \<open>validate_instantiation\<close>. The index only grows; the loop ends at the first one
  for which \<open>FindString\<close> gives no string.
\<close>

function validate_loop :: "message \<Rightarrow> byte list \<Rightarrow> nat \<Rightarrow> bool outcome" where
  "validate_loop from class_name i =
     bindR (FindString_cstr from (Some class_key) (int i) None) (\<lambda>(_, found).
       case found of
         None \<Rightarrow> Inr False
       | Some m \<Rightarrow> bindR (read_cstring m) (\<lambda>s.
           if s = class_name then Inr True
           else if i < 2 ^ 31 - 1 then validate_loop from class_name (Suc i) else Inl Undefined))"
  by pat_completeness auto

termination validate_loop
  by (relation "measure (\<lambda>(from, class_name, i). 2 ^ 31 - i)") auto

declare validate_loop.simps [simp del]

definition validate_instantiation :: "message option \<Rightarrow> mem option \<Rightarrow> bool outcome" where
  "validate_instantiation from class_name =
     (case (from, class_name) of
        (Some f, Some c) \<Rightarrow> bindR (read_cstring c) (\<lambda>s. if s = [] then Inr False else validate_loop f s 0)
      | _ \<Rightarrow> Inr False)"

section \<open>Well-formed messages and the fields as a map\<close>

definition name_ok :: "byte list \<Rightarrow> bool" where
  "name_ok nm \<longleftrightarrow> 0 \<notin> set nm \<and> length nm \<le> B_FIELD_NAME_LENGTH"

definition message_ok :: "message \<Rightarrow> bool" where
  "message_ok this \<longleftrightarrow> (\<forall>n\<in>set (nodes this). name_ok (name n) \<and> data n \<noteq> []) \<and> distinct (map name (nodes this))"

definition fields :: "node list \<Rightarrow> byte list \<rightharpoonup> type_code \<times> byte list list" where
  "fields ns = map_of (map (\<lambda>n. (name n, type n, data n)) ns)"

lemma nodes_simps [simp]:
  "nodes (this\<lparr>m_nodes := Some ns\<rparr>) = ns" "nodes (this\<lparr>m_nodes := None\<rparr>) = []" "nodes (this\<lparr>what := w\<rparr>) = nodes this"
  "nodes (this\<lparr>handler := h\<rparr>) = nodes this" "nodes (this\<lparr>reply_to := h\<rparr>) = nodes this"
  "nodes (Message_new w) = []" "nodes (clearNodes this) = []"
  by (simp_all add: nodes_def Message_new_def clearNodes_def)

lemma field_name_ok [simp]: "name_ok nm \<Longrightarrow> field_name (c_str nm) = nm"
proof (cases "length nm = B_FIELD_NAME_LENGTH")
  case False
  moreover assume "name_ok nm"
  ultimately have "take B_FIELD_NAME_LENGTH (c_str nm) = c_str nm" "0 \<notin> set nm" by (simp_all add: name_ok_def)
  then show ?thesis by (simp add: field_name_def)
qed (simp add: field_name_def c_str_def name_ok_def)

lemma name_ok_field_name: "name_ok (field_name m)"
  using length_cstring_le [of "take B_FIELD_NAME_LENGTH m"] by (simp add: name_ok_def field_name_def)

lemma read_name_ok: "read_name nm = Inr n \<Longrightarrow> name_ok n"
  by (cases nm) (auto simp: name_ok_field_name split: if_splits)

lemma read_name_c_str [simp]: "name_ok nm \<Longrightarrow> read_name (Some (c_str nm)) = Inr nm"
  by simp

lemma node_index_ok:
  "\<forall>n\<in>set ns. name_ok (name n) \<Longrightarrow> node_index nm ns = find_index (\<lambda>n. name n = nm) ns"
  unfolding node_index_def by (induction ns) auto

lemma find_index_name:
  "find_index (\<lambda>n. name n = nm) ns < length ns \<longleftrightarrow> nm \<in> name ` set ns"
  by auto

lemma fields_None: "fields ns nm = None \<longleftrightarrow> nm \<notin> name ` set ns"
  by (auto simp: fields_def map_of_eq_None_iff image_image)

lemma fields_find_index:
  "nm \<in> name ` set ns \<Longrightarrow>
   fields ns nm = Some (type (ns ! find_index (\<lambda>n. name n = nm) ns), data (ns ! find_index (\<lambda>n. name n = nm) ns))"
  unfolding fields_def by (induction ns) auto

lemma fields_append_new:
  "nm \<notin> name ` set ns \<Longrightarrow> name n = nm \<Longrightarrow> fields (ns @ [n]) = (fields ns)(nm \<mapsto> (type n, data n))"
  by (induction ns) (auto simp: fields_def fun_upd_twist)

lemma fields_update:
  "i < length ns \<Longrightarrow> distinct (map name ns) \<Longrightarrow> name n = name (ns ! i) \<Longrightarrow>
   fields (ns[i := n]) = (fields ns)(name n \<mapsto> (type n, data n))"
proof (induction ns arbitrary: i)
  case (Cons a ns)
  show ?case
  proof (cases i)
    case 0
    then show ?thesis using Cons.prems by (intro ext) (simp add: fields_def)
  next
    case (Suc j)
    then have j: "j < length ns" "name n = name (ns ! j)" using Cons.prems by simp_all
    then have mem: "name n \<in> name ` set ns" by simp
    have ne: "name n \<noteq> name a"
    proof
      assume "name n = name a"
      then show False using mem Cons.prems(2) by auto
    qed
    have "fields (ns[j := n]) = (fields ns)(name n \<mapsto> (type n, data n))"
      by (rule Cons.IH [OF j(1) _ j(2)]) (use Cons.prems in simp)
    then show ?thesis using ne Suc by (intro ext) (simp add: fields_def fun_upd_def)
  qed
qed simp

lemma map_name_update: "name n = name (ns ! i) \<Longrightarrow> map name (ns[i := n]) = map name ns"
  by (cases "i < length ns") (simp_all add: map_update list_update_same_conv list_update_beyond)

lemma message_ok_update:
  assumes "message_ok this" "i < length (nodes this)" "name n = name (nodes this ! i)" "data n \<noteq> []"
  shows "message_ok (this\<lparr>m_nodes := Some ((nodes this)[i := n])\<rparr>)"
proof -
  have "set ((nodes this)[i := n]) \<subseteq> insert n (set (nodes this))" by (rule set_update_subset_insert)
  moreover have "name_ok (name n)" using assms by (simp add: message_ok_def)
  ultimately show ?thesis using assms map_name_update [of n "nodes this" i] by (auto simp: message_ok_def)
qed

lemma pushNode_refines:
  assumes ok: "message_ok this" and nm: "name_ok nm" and p: "pushNode this nm ty item = (st, this')"
  shows "message_ok this' \<and> what this' = what this \<and> handler this' = handler this \<and> reply_to this' = reply_to this \<and>
    (case fields (nodes this) nm of
       None \<Rightarrow> st = B_OK \<and> fields (nodes this') = (fields (nodes this))(nm \<mapsto> (ty, [item]))
     | Some (t, ds) \<Rightarrow>
         if t = ty then st = B_OK \<and> fields (nodes this') = (fields (nodes this))(nm \<mapsto> (ty, ds @ [item]))
         else st = B_BAD_TYPE \<and> nodes this' = nodes this)"
proof -
  have ni: "node_index nm (nodes this) = find_index (\<lambda>n. name n = nm) (nodes this)"
    by (rule node_index_ok) (use ok in \<open>auto simp: message_ok_def\<close>)
  let ?i = "find_index (\<lambda>n. name n = nm) (nodes this)"
  show ?thesis
  proof (cases "nm \<in> name ` set (nodes this)")
    case False
    then have "fields (nodes this) nm = None" "\<not> ?i < length (nodes this)" by (auto simp: fields_None)
    then show ?thesis using p ok nm False fields_append_new [of nm "nodes this" "\<lparr>name = nm, type = ty, data = [item]\<rparr>"]
      by (auto simp: pushNode_def Let_def ni message_ok_def)
  next
    case True
    then have i: "?i < length (nodes this)" and f: "fields (nodes this) nm = Some (type (nodes this ! ?i), data (nodes this ! ?i))"
      by (simp_all only: find_index_name fields_find_index)
    have n: "name (nodes this ! ?i) = nm" using find_index_nth [OF i] .
    show ?thesis
    proof (cases "type (nodes this ! ?i) = ty")
      case False
      then show ?thesis using p ok i f by (auto simp: pushNode_def Let_def ni message_ok_def)
    next
      case t: True
      let ?n = "(nodes this ! ?i)\<lparr>data := data (nodes this ! ?i) @ [item]\<rparr>"
      have "this' = this\<lparr>m_nodes := Some ((nodes this)[?i := ?n])\<rparr>" "st = B_OK"
        using p i t by (simp_all add: pushNode_def Let_def ni)
      moreover have "message_ok (this\<lparr>m_nodes := Some ((nodes this)[?i := ?n])\<rparr>)"
        by (rule message_ok_update [OF ok i]) simp_all
      moreover have "fields ((nodes this)[?i := ?n]) = (fields (nodes this))(name ?n \<mapsto> (type ?n, data ?n))"
        using ok by (intro fields_update [OF i]) (simp_all add: message_ok_def)
      ultimately show ?thesis using f t n by simp
    qed
  qed
qed

lemma addNode_ok:
  assumes "message_ok this" "addNode alloc this nm ty len d = Inr (st, this')"
  shows "message_ok this'"
proof (cases "alloc (size_t len)")
  case True
  then obtain item n where "read_name nm = Inr n" "pushNode this n ty item = (st, this')"
    using assms(2) by (auto simp: addNode_def be_simps)
  then show ?thesis using pushNode_refines [OF assms(1) read_name_ok, of nm n ty item st this'] by blast
qed (use assms in \<open>auto simp: addNode_def\<close>)

lemma AddData_ok: "message_ok this \<Longrightarrow> AddData alloc this nm ty d len = Inr (st, this') \<Longrightarrow> message_ok this'"
  by (rule addNode_ok) (auto simp: AddData_def)

lemma read_items_ok:
  "message_ok this \<Longrightarrow> read_items alloc nm ty n buf this = Inr (ret, buf', this') \<Longrightarrow> message_ok this'"
  by (induction n arbitrary: buf this) (auto simp: be_simps split: if_splits prod.splits dest: AddData_ok)

lemma read_nodes_cases:
  assumes "read_nodes alloc buf this = Inr (ret, this')"
  obtains (stop) "read_le 4 buf = Inr 0" "ret = B_OK" "this' = this"
  | (node) ty nl nm ds ret1 buf1 this1 where "read_le 4 buf = Inr ty"
      "read_le 1 (drop 4 buf) = Inr nl" "read_bytes (drop 5 buf) nl = Inr nm"
      "read_le 4 (drop (5 + nl) buf) = Inr ds"
      "read_items alloc nm (word_of_nat ty) ds (drop (9 + nl) buf) this = Inr (ret1, buf1, this1)"
      "ty \<noteq> 0" "(if ret1 \<noteq> B_OK then Inr (ret1, this1) else read_nodes alloc buf1 this1) = Inr (ret, this')"
proof -
  note a = assms [unfolded read_nodes.simps [of alloc buf this] bindR_Inr_iff]
  then obtain ty where ty: "read_le 4 buf = Inr ty" by blast
  show ?thesis
  proof (cases "ty = 0")
    case True
    then show ?thesis using a ty that(1) by simp
  next
    case False
    with a ty obtain nl nm ds r where r: "read_le 1 (drop 4 buf) = Inr nl" "read_bytes (drop 5 buf) nl = Inr nm"
      "read_le 4 (drop (5 + nl) buf) = Inr ds"
      "read_items alloc nm (word_of_nat ty) ds (drop (9 + nl) buf) this = Inr r"
      "(case r of (ret, buf', this') \<Rightarrow> if ret \<noteq> B_OK then Inr (ret, this') else read_nodes alloc buf' this') = Inr (ret, this')"
      by (auto simp: bindR_Inr_iff)
    obtain ret1 buf1 this1 where "r = (ret1, buf1, this1)" by (cases r)
    then show ?thesis using that(2) [OF ty r(1-3) _ False] r(4,5) by simp
  qed
qed

lemma read_nodes_ok:
  "message_ok this \<Longrightarrow> read_nodes alloc buf this = Inr (ret, this') \<Longrightarrow> message_ok this'"
proof (induction alloc buf this rule: read_nodes.induct)
  case (1 alloc buf this)
  from 1(3) show ?case
  proof (cases rule: read_nodes_cases)
    case (node ty nl nm ds ret1 buf1 this1)
    have ok: "message_ok this1" using read_items_ok [OF 1(2) node(5)] .
    show ?thesis
    proof (cases "ret1 = B_OK")
      case True
      then show ?thesis using 1(1) [OF node(1,6,2,3,4,5) refl refl] ok node(7) by simp
    qed (use node ok in simp)
  qed (use 1(2) in simp)
qed

lemma message_ok_empty [simp]: "nodes this = [] \<Longrightarrow> message_ok this"
  by (simp add: message_ok_def)

lemma message_ok_nodes: "nodes this' = nodes this \<Longrightarrow> message_ok this' = message_ok this"
  by (simp add: message_ok_def)

lemma Unflatten_ok: "Unflatten alloc this buf = Inr (ret, this') \<Longrightarrow> message_ok this'"
  unfolding Unflatten_def Let_def bindR_Inr_iff
  by (elim exE conjE) (rule read_nodes_ok [OF message_ok_empty, rotated], assumption, simp)

lemma add_items_ok: "message_ok this \<Longrightarrow> add_items alloc nm ty ds this = Inr this' \<Longrightarrow> message_ok this'"
  by (induction ds arbitrary: this) (auto simp: be_simps dest: addNode_ok)

lemma add_nodes_ok: "message_ok this \<Longrightarrow> add_nodes alloc ns this = Inr this' \<Longrightarrow> message_ok this'"
  by (induction ns arbitrary: this) (auto simp: be_simps dest: add_items_ok)

lemma Message_assign_ok: "Message_assign alloc this msg = Inr this' \<Longrightarrow> message_ok this'"
  unfolding Message_assign_def impl_assign_def Let_def
  by (rule add_nodes_ok [OF message_ok_empty, rotated], assumption, simp)

text \<open>Looking up in the map of fields.\<close>

definition lookup ::
  "(byte list \<rightharpoonup> type_code \<times> byte list list) \<Rightarrow> byte list \<Rightarrow> type_code \<Rightarrow> nat \<Rightarrow> (status \<times> mem option) outcome" where
  "lookup f nm ty j =
     (case f nm of
        None \<Rightarrow> Inr (B_NAME_NOT_FOUND, None)
      | Some (t, ds) \<Rightarrow>
          if ty \<noteq> B_ANY_TYPE \<and> t \<noteq> ty then Inr (B_BAD_TYPE, None)
          else if length ds < j then Inr (B_BAD_INDEX, None)
          else if j < length ds then Inr (B_OK, Some (ds ! j))
          else Inl Undefined)"

lemma node_position:
  assumes ok: "message_ok this" and nm: "nm \<in> name ` set (nodes this)"
  defines "i \<equiv> node_index nm (nodes this)"
  shows "i < length (nodes this)" "name (nodes this ! i) = nm"
    "fields (nodes this) nm = Some (type (nodes this ! i), data (nodes this ! i))"
proof -
  have ni: "i = find_index (\<lambda>n. name n = nm) (nodes this)"
    unfolding i_def by (rule node_index_ok) (use ok in \<open>auto simp: message_ok_def\<close>)
  have "i < length (nodes this)" using nm unfolding ni find_index_name .
  then show "i < length (nodes this)" "name (nodes this ! i) = nm"
    "fields (nodes this) nm = Some (type (nodes this ! i), data (nodes this ! i))"
    using find_index_nth [of "\<lambda>n. name n = nm" "nodes this"] fields_find_index [OF nm] by (simp_all add: ni del: find_index_less_iff)
qed

lemma node_absent:
  assumes "message_ok this" "nm \<notin> name ` set (nodes this)"
  shows "\<not> node_index nm (nodes this) < length (nodes this)"
proof -
  have "node_index nm (nodes this) = find_index (\<lambda>n. name n = nm) (nodes this)"
    by (rule node_index_ok) (use assms in \<open>auto simp: message_ok_def\<close>)
  then show ?thesis using assms(2) by auto
qed

lemma findData_lookup:
  assumes ok: "message_ok this"
  shows "bindR (findData this nm ty index) (\<lambda>(status, item).
             case item of
               None \<Rightarrow> Inr (if status = B_OK then B_ERROR else status, None)
             | Some (i, j) \<Rightarrow> Inr (B_OK, Some (data (nodes this ! i) ! j)))
         = lookup (fields (nodes this)) nm ty (size_t index)"
proof (cases "nm \<in> name ` set (nodes this)")
  case True
  then show ?thesis using node_position [OF ok True]
    by (simp add: findData_def lookup_def Let_def status_defs)
next
  case False
  then show ?thesis using node_absent [OF ok False] fields_None [of "nodes this" nm]
    by (simp add: findData_def lookup_def Let_def status_defs)
qed

lemma FindData_lookup:
  "message_ok this \<Longrightarrow> name_ok nm \<Longrightarrow>
   FindData this (Some (c_str nm)) ty index out = lookup (fields (nodes this)) nm ty (size_t index)"
  by (simp add: FindData_def findData_lookup del: read_name.simps)

section \<open>Writing and reading the flat form\<close>

lemma length_le [simp]: "length (le n v) = n"
  by (induction n v rule: le.induct) simp_all

lemma un_le_le: "v < 256 ^ n \<Longrightarrow> un_le (le n v) = v"
proof (induction n v rule: le.induct)
  case (2 k v)
  have "v div 256 < 256 ^ k" using 2(2) by (intro less_mult_imp_div_less) (simp add: mult.commute)
  then have "un_le (le k (v div 256)) = v div 256" by (rule 2(1))
  then show ?case by (simp add: unat_of_nat)
qed simp

lemma read_le_le [simp]: "v < 256 ^ n \<Longrightarrow> read_le n (le n v @ rest) = Inr v"
  by (simp add: read_le_def read_bytes_def un_le_le)

definition enc_items :: "byte list list \<Rightarrow> byte list" where
  "enc_items ds = concat (map (\<lambda>d. le 8 (length d) @ d) ds)"

definition enc_node :: "node \<Rightarrow> byte list" where
  "enc_node n = le 4 (unat (type n)) @ le 1 (length (name n)) @ name n @ le 4 (length (data n)) @ enc_items (data n)"

definition encode :: "message \<Rightarrow> byte list" where
  "encode this = le 4 (unat (what this)) @ concat (map enc_node (nodes this)) @ le 4 0"

lemma enc_items_simps [simp]: "enc_items [] = []" "enc_items (d # ds) = le 8 (length d) @ d @ enc_items ds"
  by (simp_all add: enc_items_def)

lemma length_enc_items: "int (length (enc_items ds)) = items_size ds"
  by (induction ds) simp_all

lemma items_size_nonneg: "0 \<le> items_size ds"
  by (induction ds) simp_all

lemma nodes_size_nonneg: "0 \<le> nodes_size ns"
  using items_size_nonneg by (induction ns) (simp_all add: add_nonneg_nonneg)

lemma length_enc_nodes: "int (length (concat (map enc_node ns))) = nodes_size ns"
  by (induction ns) (simp_all add: enc_node_def length_enc_items)

lemma length_encode: "int (length (encode this)) = FlattenedSize this"
  using length_enc_nodes [of "nodes this"] by (simp add: encode_def FlattenedSize_def)

lemma put_fits [simp]: "int (length out) + int (length p) \<le> limit \<Longrightarrow> put limit p (B_OK, out) = (B_OK, out @ p)"
  by (simp add: put_def)

lemma put_items_fits:
  "int (length out) + items_size ds \<le> limit \<Longrightarrow> put_items limit ds (B_OK, out) = (B_OK, out @ enc_items ds)"
proof (induction ds arbitrary: out)
  case (Cons d ds)
  have "0 \<le> items_size ds" by (rule items_size_nonneg)
  then show ?case using Cons.prems Cons.IH [of "out @ le 8 (length d) @ d"] by (simp del: le.simps)
qed simp

definition sizes_ok :: "node \<Rightarrow> bool" where
  "sizes_ok n \<longleftrightarrow> length (name n) \<le> 255 \<and> length (data n) < 2 ^ 32 \<and> (\<forall>d\<in>set (data n). length d < 2 ^ 63)"

lemma put_nodes_fits:
  "\<forall>n\<in>set ns. sizes_ok n \<Longrightarrow> int (length out) + nodes_size ns \<le> limit \<Longrightarrow>
   put_nodes limit ns (B_OK, out) = (B_OK, out @ concat (map enc_node ns))"
proof (induction ns arbitrary: out)
  case (Cons n ns)
  have nn: "0 \<le> items_size (data n)" "0 \<le> nodes_size ns" by (rule items_size_nonneg, rule nodes_size_nonneg)
  have ok: "length (name n) \<le> 255" "length (data n) < 2 ^ 32" using Cons.prems(1) by (auto simp: sizes_ok_def)
  show ?case
    using Cons.prems(2) nn ok Cons.IH [of "out @ enc_node n"] Cons.prems(1) length_enc_items [of "data n"]
    by (simp add: Let_def refuse_def put_items_fits enc_node_def)
qed simp

lemma flat_fits:
  assumes "\<forall>n\<in>set (nodes this). sizes_ok n" "FlattenedSize this \<le> limit"
  shows "flat this limit = (B_OK, encode this)"
  using assms nodes_size_nonneg [of "nodes this"] length_enc_nodes [of "nodes this"]
  by (simp add: flat_def FlattenedSize_def put_nodes_fits encode_def)

text \<open>With a smaller buffer the status is \<open>B_NO_MEMORY\<close>, never \<open>B_OK\<close>.\<close>

lemma put_OK: "put limit p w = (B_OK, out') \<Longrightarrow> \<exists>out. w = (B_OK, out) \<and> out' = out @ p \<and> int (length out') \<le> limit"
  by (auto simp: put_def status_defs split: if_splits prod.splits)

lemma refuse_OK: "refuse b w = (B_OK, out') \<Longrightarrow> w = (B_OK, out')"
  by (auto simp: refuse_def status_defs split: if_splits prod.splits)

lemma put_items_OK: "put_items limit ds w = (B_OK, out') \<Longrightarrow> \<exists>out. w = (B_OK, out) \<and> out' = out @ enc_items ds"
  by (induction ds arbitrary: w) (fastforce dest!: put_OK)+

lemma put_nodes_OK:
  "put_nodes limit ns w = (B_OK, out') \<Longrightarrow> \<exists>out. w = (B_OK, out) \<and> out' = out @ concat (map enc_node ns)"
proof (induction ns arbitrary: w)
  case (Cons n ns)
  then show ?case
    by (auto simp: Let_def enc_node_def dest!: Cons.IH put_items_OK put_OK refuse_OK)
qed simp

lemma flat_OK: "flat this limit = (B_OK, out) \<Longrightarrow> out = encode this \<and> FlattenedSize this \<le> limit"
  using length_encode [of this] by (auto simp: flat_def encode_def dest!: put_OK put_nodes_OK)

definition fine :: "writer \<Rightarrow> bool" where
  "fine w \<longleftrightarrow> fst w = B_OK \<or> fst w = B_NO_MEMORY"

lemma fine_put: "fine w \<Longrightarrow> fine (put limit p w)"
  by (auto simp: fine_def put_def split: prod.splits)

lemma fine_put_items: "fine w \<Longrightarrow> fine (put_items limit ds w)"
  by (induction ds arbitrary: w) (simp_all add: fine_put)

lemma fine_refuse: "\<not> b \<Longrightarrow> fine w \<Longrightarrow> fine (refuse b w)"
  by (simp add: refuse_def split: prod.splits)

lemma fine_put_nodes: "\<forall>n\<in>set ns. sizes_ok n \<Longrightarrow> fine w \<Longrightarrow> fine (put_nodes limit ns w)"
proof (induction ns arbitrary: w)
  case (Cons n ns)
  then have "\<not> 255 < length (name n)" "\<not> 2 ^ 32 \<le> length (data n)" by (auto simp: sizes_ok_def)
  then show ?case unfolding put_nodes.simps Let_def
    by (intro Cons.IH fine_put_items fine_put fine_refuse) (use Cons.prems in auto)
qed simp

lemma flat_small:
  assumes "\<forall>n\<in>set (nodes this). sizes_ok n" "limit < FlattenedSize this"
  shows "fst (flat this limit) = B_NO_MEMORY"
proof -
  have "fine (flat this limit)"
    unfolding flat_def by (intro fine_put fine_put_nodes assms(1)) (simp add: fine_def)
  moreover have "fst (flat this limit) \<noteq> B_OK"
    using flat_OK [of this limit "snd (flat this limit)"] assms(2) by (cases "flat this limit") auto
  ultimately show ?thesis by (simp add: fine_def)
qed

text \<open>Nothing is written behind the maximum size.\<close>

definition within :: "int \<Rightarrow> writer \<Rightarrow> bool" where
  "within limit w \<longleftrightarrow> int (length (snd w)) \<le> max 0 limit"

lemma within_put: "within limit w \<Longrightarrow> within limit (put limit p w)"
  by (auto simp: within_def put_def split: prod.splits)

lemma within_refuse: "within limit w \<Longrightarrow> within limit (refuse b w)"
  by (auto simp: within_def refuse_def split: prod.splits)

lemma within_put_items: "within limit w \<Longrightarrow> within limit (put_items limit ds w)"
  by (induction ds arbitrary: w) (simp_all add: within_put)

lemma within_put_nodes: "within limit w \<Longrightarrow> within limit (put_nodes limit ns w)"
  by (induction ns arbitrary: w) (simp_all add: Let_def within_put within_refuse within_put_items)

lemma flat_bound: "int (length (snd (flat this limit))) \<le> max 0 limit"
proof -
  have "within limit (flat this limit)"
    unfolding flat_def by (intro within_put within_put_nodes) (simp add: within_def)
  then show ?thesis by (simp add: within_def)
qed

text \<open>Adding the items of a node one after another.\<close>

lemma pushNode_new:
  "message_ok this \<Longrightarrow> nm \<notin> name ` set (nodes this) \<Longrightarrow>
   pushNode this nm ty d = (B_OK, this\<lparr>m_nodes := Some (nodes this @ [\<lparr>name = nm, type = ty, data = [d]\<rparr>])\<rparr>)"
  using node_absent [of this nm] by (simp add: pushNode_def Let_def)

lemma node_index_last:
  assumes "\<forall>n\<in>set pre. name_ok (name n)" "name_ok nm" "nm \<notin> name ` set pre"
  shows "node_index nm (pre @ [\<lparr>name = nm, type = ty, data = ds\<rparr>]) = length pre"
proof -
  have "node_index nm (pre @ [\<lparr>name = nm, type = ty, data = ds\<rparr>])
      = find_index (\<lambda>n. name n = nm) (pre @ [\<lparr>name = nm, type = ty, data = ds\<rparr>])"
    by (rule node_index_ok) (use assms in auto)
  moreover have "\<not> (\<exists>n\<in>set pre. name n = nm)" using assms by auto
  ultimately show ?thesis by simp
qed

lemma pushNode_last:
  assumes "\<forall>n\<in>set pre. name_ok (name n)" "name_ok nm" "nm \<notin> name ` set pre"
    and "nodes this = pre @ [\<lparr>name = nm, type = ty, data = ds\<rparr>]"
  shows "pushNode this nm ty d = (B_OK, this\<lparr>m_nodes := Some (pre @ [\<lparr>name = nm, type = ty, data = ds @ [d]\<rparr>])\<rparr>)"
  using assms node_index_last [OF assms(1-3)] by (simp add: pushNode_def Let_def)

lemma addNode_fits:
  "alloc (length d) \<Longrightarrow> length d < 2 ^ 63 \<Longrightarrow> name_ok nm \<Longrightarrow>
   addNode alloc this (Some (c_str nm)) ty (int (length d)) (Some (d @ rest)) = Inr (pushNode this nm ty d)"
  by (simp add: addNode_def size_t_of_nat read_bytes_def del: read_name.simps)

lemma some_nodes: "nodes this \<noteq> [] \<Longrightarrow> this\<lparr>m_nodes := Some (nodes this)\<rparr> = this"
  by (cases "m_nodes this") (auto simp: nodes_def intro: message.equality)

text \<open>
  \<open>Unflatten\<close> and the copy both add the items one by one; \<open>go\<close> stands for either loop in one node:
  it adds the items to the node that is last.
\<close>

lemma read_items_last:
  assumes "\<forall>n\<in>set pre. name_ok (name n)" "name_ok nm" "nm \<notin> name ` set pre" "\<forall>k. alloc k"
  shows "nodes this = pre @ [\<lparr>name = nm, type = ty, data = ds0\<rparr>] \<Longrightarrow> \<forall>d\<in>set ds. length d < 2 ^ 63 \<Longrightarrow>
    read_items alloc nm ty (length ds) (enc_items ds @ rest) this =
      Inr (B_OK, rest, this\<lparr>m_nodes := Some (pre @ [\<lparr>name = nm, type = ty, data = ds0 @ ds\<rparr>])\<rparr>)"
proof (induction ds arbitrary: this ds0)
  case Nil
  then show ?case using some_nodes [of this] by simp
next
  case (Cons d ds)
  have l: "length d < 2 ^ 63" "length d < 256 ^ 8" using Cons.prems(2) by auto
  have sz: "signed_take_bit 63 (int (length d)) = int (length d)"
    using l by (intro signed_take_bit_int_eq_self) auto
  have "addNode alloc this (Some (c_str nm)) ty (int (length d)) (Some (d @ enc_items ds @ rest))
      = Inr (B_OK, this\<lparr>m_nodes := Some (pre @ [\<lparr>name = nm, type = ty, data = ds0 @ [d]\<rparr>])\<rparr>)"
    using addNode_fits [of alloc d nm this ty "enc_items ds @ rest"] assms l
      pushNode_last [OF assms(1-3) Cons.prems(1)] by simp
  then show ?case
    using Cons.IH [of "this\<lparr>m_nodes := Some (pre @ [\<lparr>name = nm, type = ty, data = ds0 @ [d]\<rparr>])\<rparr>" "ds0 @ [d]"]
      Cons.prems l by (simp add: AddData_def sz del: le.simps)
qed

lemma read_items_new:
  assumes "message_ok this" "name_ok nm" "nm \<notin> name ` set (nodes this)" "\<forall>k. alloc k" "ds \<noteq> []"
    "\<forall>d\<in>set ds. length d < 2 ^ 63"
  shows "read_items alloc nm ty (length ds) (enc_items ds @ rest) this =
    Inr (B_OK, rest, this\<lparr>m_nodes := Some (nodes this @ [\<lparr>name = nm, type = ty, data = ds\<rparr>])\<rparr>)"
proof -
  obtain d ds' where ds: "ds = d # ds'" using assms(5) by (cases ds) auto
  have l: "length d < 2 ^ 63" "length d < 256 ^ 8" using assms(6) ds by auto
  have sz: "signed_take_bit 63 (int (length d)) = int (length d)"
    using l by (intro signed_take_bit_int_eq_self) auto
  have ok: "\<forall>n\<in>set (nodes this). name_ok (name n)" using assms(1) by (simp add: message_ok_def)
  let ?t = "this\<lparr>m_nodes := Some (nodes this @ [\<lparr>name = nm, type = ty, data = [d]\<rparr>])\<rparr>"
  have "addNode alloc this (Some (c_str nm)) ty (int (length d)) (Some (d @ enc_items ds' @ rest)) = Inr (B_OK, ?t)"
    using addNode_fits [of alloc d nm this ty "enc_items ds' @ rest"] assms l pushNode_new [OF assms(1,3)] by simp
  then show ?thesis
    using read_items_last [OF ok assms(2,3,4), of ?t ty "[d]" ds' rest] assms(6) l
    by (simp add: ds AddData_def sz del: le.simps)
qed

lemma message_ok_append:
  assumes "message_ok this" "name_ok (name n)" "name n \<notin> name ` set (nodes this)" "data n \<noteq> []"
  shows "message_ok (this\<lparr>m_nodes := Some (nodes this @ [n])\<rparr>)"
  using assms by (auto simp: message_ok_def)

lemma read_nodes_enc:
  "\<lbrakk>\<forall>k. alloc k; message_ok this; \<forall>n\<in>set ns. sizes_ok n \<and> name_ok (name n) \<and> data n \<noteq> [] \<and> type n \<noteq> 0;
    distinct (map name ns); name ` set ns \<inter> name ` set (nodes this) = {}\<rbrakk> \<Longrightarrow>
   read_nodes alloc (concat (map enc_node ns) @ le 4 0 @ rest) this =
     Inr (B_OK, if ns = [] then this else this\<lparr>m_nodes := Some (nodes this @ ns)\<rparr>)"
proof (induction ns arbitrary: this)
  case Nil
  then show ?case by (subst read_nodes.simps) (simp del: le.simps)
next
  case (Cons n ns)
  let ?tail = "concat (map enc_node ns) @ le 4 0 @ rest"
  have ok: "length (name n) < 256" "length (data n) < 256 ^ 4" "\<forall>d\<in>set (data n). length d < 2 ^ 63"
      "name_ok (name n)" "data n \<noteq> []" "type n \<noteq> 0"
    using Cons.prems(3) by (auto simp: sizes_ok_def)
  have nm: "name n \<notin> name ` set (nodes this)" using Cons.prems(5) by auto
  have ty: "unat (type n) < 256 ^ 4" "unat (type n) \<noteq> 0"
    using ok(6) unsigned_less [of "type n"] by (auto simp: unat_eq_0)
  let ?t = "this\<lparr>m_nodes := Some (nodes this @ [n])\<rparr>"
  have items: "read_items alloc (name n) (type n) (length (data n)) (enc_items (data n) @ ?tail) this = Inr (B_OK, ?tail, ?t)"
    using read_items_new [OF Cons.prems(2) ok(4) nm Cons.prems(1) ok(5,3), of "type n" ?tail] by simp
  have step: "read_nodes alloc (enc_node n @ ?tail) this = read_nodes alloc ?tail ?t"
    using ty ok(1,2) read_le_le [of "length (name n)" 1] items
    by (subst read_nodes.simps) (simp add: enc_node_def read_bytes_def del: le.simps)
  have ih: "read_nodes alloc ?tail ?t = Inr (B_OK, if ns = [] then ?t else ?t\<lparr>m_nodes := Some (nodes ?t @ ns)\<rparr>)"
  proof (rule Cons.IH [OF Cons.prems(1)])
    show "message_ok ?t" using message_ok_append [OF Cons.prems(2) ok(4) nm ok(5)] .
    show "name ` set ns \<inter> name ` set (nodes ?t) = {}" using Cons.prems(4,5) by auto
  qed (use Cons.prems in auto)
  show ?case using step ih by simp
qed

lemma Unflatten_encode:
  assumes "\<forall>k. alloc k" "message_ok m" "\<forall>n\<in>set (nodes m). sizes_ok n \<and> type n \<noteq> 0"
  shows "Unflatten alloc this (encode m @ rest) =
    Inr (B_OK, this\<lparr>what := what m, m_nodes := if nodes m = [] then None else Some (nodes m)\<rparr>)"
proof -
  let ?t = "clearNodes this\<lparr>what := what m\<rparr>"
  have w: "unat (what m) < 256 ^ 4" using unsigned_less [of "what m"] by simp
  have "read_nodes alloc (concat (map enc_node (nodes m)) @ le 4 0 @ rest) ?t
      = Inr (B_OK, if nodes m = [] then ?t else ?t\<lparr>m_nodes := Some (nodes ?t @ nodes m)\<rparr>)"
    by (rule read_nodes_enc [OF assms(1)]) (use assms in \<open>auto simp: message_ok_def\<close>)
  then show ?thesis using w by (simp add: Unflatten_def Let_def encode_def clearNodes_def del: le.simps)
qed

text \<open>The copy of a well-formed message.\<close>

lemma add_items_last:
  assumes "\<forall>n\<in>set pre. name_ok (name n)" "name_ok nm" "nm \<notin> name ` set pre" "\<forall>k. alloc k"
  shows "nodes this = pre @ [\<lparr>name = nm, type = ty, data = ds0\<rparr>] \<Longrightarrow> \<forall>d\<in>set ds. length d < 2 ^ 63 \<Longrightarrow>
    add_items alloc nm ty ds this =
      Inr (this\<lparr>m_nodes := Some (pre @ [\<lparr>name = nm, type = ty, data = ds0 @ ds\<rparr>])\<rparr>)"
proof (induction ds arbitrary: this ds0)
  case Nil
  then show ?case using some_nodes [of this] by simp
next
  case (Cons d ds)
  have "addNode alloc this (Some (c_str nm)) ty (int (length d)) (Some d)
      = Inr (B_OK, this\<lparr>m_nodes := Some (pre @ [\<lparr>name = nm, type = ty, data = ds0 @ [d]\<rparr>])\<rparr>)"
    using addNode_fits [of alloc d nm this ty "[]"] assms Cons.prems(2)
      pushNode_last [OF assms(1-3) Cons.prems(1)] by simp
  then show ?case
    using Cons.IH [of "this\<lparr>m_nodes := Some (pre @ [\<lparr>name = nm, type = ty, data = ds0 @ [d]\<rparr>])\<rparr>" "ds0 @ [d]"]
      Cons.prems by simp
qed

lemma add_items_new:
  assumes "message_ok this" "name_ok nm" "nm \<notin> name ` set (nodes this)" "\<forall>k. alloc k" "ds \<noteq> []"
    "\<forall>d\<in>set ds. length d < 2 ^ 63"
  shows "add_items alloc nm ty ds this =
    Inr (this\<lparr>m_nodes := Some (nodes this @ [\<lparr>name = nm, type = ty, data = ds\<rparr>])\<rparr>)"
proof -
  obtain d ds' where ds: "ds = d # ds'" using assms(5) by (cases ds) auto
  have ok: "\<forall>n\<in>set (nodes this). name_ok (name n)" using assms(1) by (simp add: message_ok_def)
  let ?t = "this\<lparr>m_nodes := Some (nodes this @ [\<lparr>name = nm, type = ty, data = [d]\<rparr>])\<rparr>"
  have "addNode alloc this (Some (c_str nm)) ty (int (length d)) (Some d) = Inr (B_OK, ?t)"
    using addNode_fits [of alloc d nm this ty "[]"] assms ds pushNode_new [OF assms(1,3)] by simp
  then show ?thesis
    using add_items_last [OF ok assms(2,3,4), of ?t ty "[d]" ds'] assms(6) by (simp add: ds)
qed

lemma add_nodes_all:
  "\<lbrakk>\<forall>k. alloc k; message_ok this; \<forall>n\<in>set ns. sizes_ok n \<and> name_ok (name n) \<and> data n \<noteq> [];
    distinct (map name ns); name ` set ns \<inter> name ` set (nodes this) = {}\<rbrakk> \<Longrightarrow>
   add_nodes alloc ns this = Inr (if ns = [] then this else this\<lparr>m_nodes := Some (nodes this @ ns)\<rparr>)"
proof (induction ns arbitrary: this)
  case (Cons n ns)
  have ok: "\<forall>d\<in>set (data n). length d < 2 ^ 63" "name_ok (name n)" "data n \<noteq> []"
    using Cons.prems(3) by (auto simp: sizes_ok_def)
  have nm: "name n \<notin> name ` set (nodes this)" using Cons.prems(5) by auto
  let ?t = "this\<lparr>m_nodes := Some (nodes this @ [n])\<rparr>"
  have items: "add_items alloc (name n) (type n) (data n) this = Inr ?t"
    using add_items_new [OF Cons.prems(2) ok(2) nm Cons.prems(1) ok(3,1), of "type n"] by simp
  have ih: "add_nodes alloc ns ?t = Inr (if ns = [] then ?t else ?t\<lparr>m_nodes := Some (nodes ?t @ ns)\<rparr>)"
  proof (rule Cons.IH [OF Cons.prems(1)])
    show "message_ok ?t" using message_ok_append [OF Cons.prems(2) ok(2) nm ok(3)] .
    show "name ` set ns \<inter> name ` set (nodes ?t) = {}" using Cons.prems(4,5) by auto
  qed (use Cons.prems in auto)
  show ?case using items ih by simp
qed simp

lemma ReplaceData_refines:
  assumes ok: "message_ok this" and nm: "name_ok nm" and ty: "ty \<noteq> B_ANY_TYPE"
    and f: "fields (nodes this) nm = Some (ty, ds)" and j: "size_t index < length ds"
    and a: "alloc (length item)" "length item < 2 ^ 63"
  shows "\<exists>this'. ReplaceData alloc this (Some (c_str nm)) ty index (Some item) (int (length item)) = Inr (B_OK, this') \<and>
    message_ok this' \<and> fields (nodes this') = (fields (nodes this))(nm \<mapsto> (ty, ds[size_t index := item]))"
proof -
  have mem: "nm \<in> name ` set (nodes this)" using f fields_None [of "nodes this" nm] by auto
  let ?i = "node_index nm (nodes this)"
  note pos = node_position [OF ok mem]
  have n: "type (nodes this ! ?i) = ty" "data (nodes this ! ?i) = ds" using pos(3) f by auto
  let ?n = "(nodes this ! ?i)\<lparr>data := ds[size_t index := item]\<rparr>"
  let ?t = "this\<lparr>m_nodes := Some ((nodes this)[?i := ?n])\<rparr>"
  have "findData this nm ty index = Inr (B_OK, Some (?i, size_t index))"
    using pos(1) n j by (simp add: findData_def Let_def)
  then have r: "ReplaceData alloc this (Some (c_str nm)) ty index (Some item) (int (length item)) = Inr (B_OK, ?t)"
    using ty a nm n by (simp add: ReplaceData_def size_t_of_nat read_bytes_def set_item_def del: read_name.simps)
  have "message_ok ?t" using j by (intro message_ok_update [OF ok pos(1)]) auto
  moreover have "fields ((nodes this)[?i := ?n]) = (fields (nodes this))(name ?n \<mapsto> (type ?n, data ?n))"
    using ok by (intro fields_update [OF pos(1)]) (simp_all add: message_ok_def)
  ultimately show ?thesis using r pos(2) n by (intro exI [of _ ?t]) simp
qed

lemma ReplaceData_ok:
  assumes "message_ok this" "ReplaceData alloc this nm ty index d len = Inr (st, this')"
  shows "message_ok this'"
proof (cases "ty = B_ANY_TYPE \<or> nm = None")
  case True
  then show ?thesis using assms by (auto simp: ReplaceData_def split: if_splits)
next
  case False
  then obtain n status item where r: "read_name nm = Inr n" "findData this n ty index = Inr (status, item)"
    "(case item of None \<Rightarrow> Inr (if status = B_OK then B_ERROR else status, this)
      | Some (i, j) \<Rightarrow> if \<not> alloc (size_t len) then Inr (B_NO_MEMORY, this)
          else bindR (read_ptr d (size_t len)) (\<lambda>copy. Inr (B_OK, this\<lparr>m_nodes := Some (set_item (nodes this) i j copy)\<rparr>)))
      = Inr (st, this')"
    using assms(2) by (auto simp: ReplaceData_def bindR_Inr_iff)
  show ?thesis
  proof (cases item)
    case None
    then show ?thesis using r(3) assms(1) by simp
  next
    case (Some ij)
    then obtain i j where ij: "item = Some (i, j)" by (cases ij) auto
    then have b: "i < length (nodes this)" "j < length (data (nodes this ! i))"
      using r(2) by (auto simp: findData_def Let_def split: if_splits)
    show ?thesis
    proof (cases "alloc (size_t len)")
      case True
      then obtain copy where "this' = this\<lparr>m_nodes := Some (set_item (nodes this) i j copy)\<rparr>"
        using r(3) ij by (auto simp: bindR_Inr_iff)
      then show ?thesis using b unfolding set_item_def
        by (auto intro!: message_ok_update [OF assms(1) b(1)])
    qed (use r(3) ij assms(1) in simp)
  qed
qed

section \<open>Properties\<close>

text \<open>C6. The operations keep a message well formed: its names are distinct, without zero bytes and at most 255 bytes long (the empty
  name is allowed), and every field has an item. A new and an emptied message are so, adding, replacing and copying preserve it, and
  \<open>Unflatten\<close> establishes it from any buffer, whatever its status.\<close>

theorem message_invariant:
  assumes "message_ok this"
  shows "message_ok (Message_new w) \<and>
    (AddData alloc this nm ty d len = Inr (st, m1) \<longrightarrow> message_ok m1) \<and>
    (ReplaceData alloc this nm ty index d len = Inr (st, m2) \<longrightarrow> message_ok m2) \<and>
    (Message_assign alloc this msg = Inr m3 \<longrightarrow> message_ok m3) \<and>
    (Unflatten alloc this buf = Inr (st, m4) \<longrightarrow> message_ok m4) \<and>
    message_ok (snd (Message_MakeEmpty this))"
  by (intro conjI impI)
     (simp, erule AddData_ok [OF assms], erule ReplaceData_ok [OF assms], erule Message_assign_ok, erule Unflatten_ok,
      simp add: Message_MakeEmpty_def)

lemma message_invariant_witness:
  "\<exists>m1. AddData (\<lambda>_. True) (Message_new 1) (Some (c_str [0x61])) 5 (Some [7]) 1 = Inr (B_OK, m1) \<and> message_ok m1"
proof -
  have "name_ok [0x61]" by (simp add: name_ok_def B_FIELD_NAME_LENGTH_def)
  then have a: "AddData (\<lambda>_. True) (Message_new 1) (Some (c_str [0x61])) 5 (Some [7]) 1 =
      Inr (B_OK, (Message_new 1)\<lparr>m_nodes := Some [\<lparr>name = [0x61], type = 5, data = [[7]]\<rparr>]\<rparr>)"
    using addNode_fits [of "\<lambda>_. True" "[7]" "[0x61]" "Message_new 1" 5 "[]"] pushNode_new [of "Message_new 1" "[0x61]" 5 "[7]"]
    by (simp add: AddData_def)
  then show ?thesis
    using message_invariant [of "Message_new 1" 0 "\<lambda>_. True" "Some (c_str [0x61])" 5 "Some [7]" 1] by auto
qed

text \<open>C7. \<open>AddData\<close> on a well-formed message appends the item to the field of that name, or adds the
  field; the other fields, \<open>what\<close> and the handlers stay. A field of another type is refused with
  \<open>B_BAD_TYPE\<close> and a failed allocation with \<open>B_NO_MEMORY\<close>, both leaving all fields as they were.\<close>

theorem AddData_refines:
  assumes "message_ok this" "name_ok nm" "length item < 2 ^ 63"
  shows "(alloc (length item) \<longrightarrow>
      (\<exists>st this'. AddData alloc this (Some (c_str nm)) ty (Some item) (int (length item)) = Inr (st, this') \<and>
        message_ok this' \<and> what this' = what this \<and> handler this' = handler this \<and> reply_to this' = reply_to this \<and>
        (case fields (nodes this) nm of
           None \<Rightarrow> st = B_OK \<and> fields (nodes this') = (fields (nodes this))(nm \<mapsto> (ty, [item]))
         | Some (t, ds) \<Rightarrow>
             if t = ty then st = B_OK \<and> fields (nodes this') = (fields (nodes this))(nm \<mapsto> (ty, ds @ [item]))
             else st = B_BAD_TYPE \<and> nodes this' = nodes this))) \<and>
    (\<not> alloc (length item) \<longrightarrow>
      AddData alloc this (Some (c_str nm)) ty (Some item) (int (length item)) = Inr (B_NO_MEMORY, this))"
proof (intro conjI impI)
  assume a: "alloc (length item)"
  obtain st this' where p: "pushNode this nm ty item = (st, this')" by fastforce
  have "AddData alloc this (Some (c_str nm)) ty (Some item) (int (length item)) = Inr (st, this')"
    using addNode_fits [of alloc item nm this ty "[]"] a assms p by (simp add: AddData_def)
  then show "\<exists>st this'. AddData alloc this (Some (c_str nm)) ty (Some item) (int (length item)) = Inr (st, this') \<and>
        message_ok this' \<and> what this' = what this \<and> handler this' = handler this \<and> reply_to this' = reply_to this \<and>
        (case fields (nodes this) nm of
           None \<Rightarrow> st = B_OK \<and> fields (nodes this') = (fields (nodes this))(nm \<mapsto> (ty, [item]))
         | Some (t, ds) \<Rightarrow>
             if t = ty then st = B_OK \<and> fields (nodes this') = (fields (nodes this))(nm \<mapsto> (ty, ds @ [item]))
             else st = B_BAD_TYPE \<and> nodes this' = nodes this)"
    using pushNode_refines [OF assms(1,2) p] by blast
next
  assume "\<not> alloc (length item)"
  then show "AddData alloc this (Some (c_str nm)) ty (Some item) (int (length item)) = Inr (B_NO_MEMORY, this)"
    using assms by (simp add: AddData_def addNode_def size_t_of_nat)
qed

lemma AddData_refines_witness:
  "\<exists>this'. AddData (\<lambda>_. True) (Message_new 1) (Some (c_str [0x61])) 5 (Some [7]) 1 = Inr (B_OK, this') \<and>
     fields (nodes this') [0x61] = Some (5, [[7]])"
proof -
  have "name_ok [0x61]" by (simp add: name_ok_def B_FIELD_NAME_LENGTH_def)
  from AddData_refines [of "Message_new 1" "[0x61]" "[7]" "\<lambda>_. True" 5, OF _ this]
  show ?thesis by (auto simp: fields_def)
qed

text \<open>C8. \<open>FindData\<close> is the lookup in the fields: an unknown name, a wrong type (unless any type is
  asked for) and an index above the number of items, negative ones included, are refused with their
  status, an index below gives the item, and the index that is equal to the number of items passes
  the test and refers behind the items (undefined).\<close>

theorem FindData_is_lookup:
  assumes "message_ok this" "name_ok nm" "- (2 ^ 31) \<le> index" "index < 2 ^ 31"
    and "\<forall>t ds. fields (nodes this) nm = Some (t, ds) \<longrightarrow> length ds < 2 ^ 31"
  shows "FindData this (Some (c_str nm)) ty index out =
    (case fields (nodes this) nm of
       None \<Rightarrow> Inr (B_NAME_NOT_FOUND, None)
     | Some (t, ds) \<Rightarrow>
         if ty \<noteq> B_ANY_TYPE \<and> t \<noteq> ty then Inr (B_BAD_TYPE, None)
         else if index < 0 \<or> int (length ds) < index then Inr (B_BAD_INDEX, None)
         else if index = int (length ds) then Inl Undefined
         else Inr (B_OK, Some (ds ! nat index)))"
proof (cases "fields (nodes this) nm")
  case None
  then show ?thesis using FindData_lookup [OF assms(1,2)] by (simp add: lookup_def)
next
  case (Some f)
  then obtain t ds where f: "f = (t, ds)" "length ds < 2 ^ 31" using assms(5) by (cases f) auto
  have "index < 0 \<Longrightarrow> length ds < size_t index" using size_t_neg [of index] assms(3) f(2) by simp
  moreover have "0 \<le> index \<Longrightarrow> size_t index = nat index" using assms(4) by (simp add: size_t_nonneg)
  ultimately show ?thesis using FindData_lookup [OF assms(1,2)] Some f(1)
    by (cases "index < 0") (auto simp: lookup_def nat_less_iff)
qed

definition one_field :: message where
  "one_field = (Message_new 1)\<lparr>m_nodes := Some [\<lparr>name = [0x61], type = 5, data = [[7], [8]]\<rparr>]\<rparr>"

lemma one_field_ok: "message_ok one_field" "name_ok [0x61]" "fields (nodes one_field) [0x61] = Some (5, [[7], [8]])"
  by (simp_all add: one_field_def message_ok_def name_ok_def B_FIELD_NAME_LENGTH_def fields_def)

lemma FindData_is_lookup_witness:
  "FindData one_field (Some (c_str [0x61])) 5 1 None = Inr (B_OK, Some [8]) \<and>
   FindData one_field (Some (c_str [0x61])) 5 2 None = Inl Undefined"
  using FindData_is_lookup [OF one_field_ok(1,2), of 1 5 None] FindData_is_lookup [OF one_field_ok(1,2), of 2 5 None]
  by (simp add: one_field_ok(3))

text \<open>\<open>ReplaceData\<close> of an existing item changes that item only, and \<open>FindData\<close> then gives the new
  bytes at that index and the old ones at the others.\<close>

lemma ReplaceData_then_FindData:
  assumes "message_ok this" "name_ok nm" "ty \<noteq> B_ANY_TYPE" "fields (nodes this) nm = Some (ty, ds)"
    "j < length ds" "length ds < 2 ^ 31" "alloc (length item)" "length item < 2 ^ 63"
  shows "\<exists>this'. ReplaceData alloc this (Some (c_str nm)) ty (int j) (Some item) (int (length item)) = Inr (B_OK, this') \<and>
    message_ok this' \<and> fields (nodes this') = (fields (nodes this))(nm \<mapsto> (ty, ds[j := item])) \<and>
    (\<forall>i<length ds. FindData this' (Some (c_str nm)) ty (int i) out = Inr (B_OK, Some (if i = j then item else ds ! i)))"
proof -
  have j: "size_t (int j) = j" using assms(5,6) by (simp add: size_t_of_nat)
  obtain this' where r: "ReplaceData alloc this (Some (c_str nm)) ty (int j) (Some item) (int (length item)) = Inr (B_OK, this')"
      "message_ok this'" "fields (nodes this') = (fields (nodes this))(nm \<mapsto> (ty, ds[j := item]))"
    using ReplaceData_refines [OF assms(1-4), of "int j" alloc item] assms j by auto
  have "FindData this' (Some (c_str nm)) ty (int i) out = Inr (B_OK, Some (if i = j then item else ds ! i))" if "i < length ds" for i
  proof -
    have "size_t (int i) = i" using that assms(6) by (simp add: size_t_of_nat)
    then show ?thesis using FindData_lookup [OF r(2) assms(2), of ty "int i" out] that
      by (simp add: r(3) lookup_def nth_list_update)
  qed
  then show ?thesis using r by blast
qed

text \<open>C9. The flat form. \<open>FlattenedSize\<close> is the number of bytes \<open>Flatten\<close> writes, a smaller buffer gives
  \<open>B_NO_MEMORY\<close>, and \<open>Unflatten\<close> of what was written, whatever follows it in memory, gives a message
  with the same \<open>what\<close> and fields, in the same order (for fields whose type code is not 0, which would
  end the flat form).\<close>

theorem Flatten_Unflatten:
  assumes "message_ok m" "\<forall>n\<in>set (nodes m). sizes_ok n" "\<forall>k. alloc k" "FlattenedSize m \<le> int (length buffer)"
  shows "(\<exists>buf. Flatten m buffer (FlattenedSize m) = Inr (B_OK, buf @ drop (length buf) buffer) \<and>
      int (length buf) = FlattenedSize m \<and>
      ((\<forall>n\<in>set (nodes m). type n \<noteq> 0) \<longrightarrow>
        (\<forall>this rest. \<exists>this'. Unflatten alloc this (buf @ rest) = Inr (B_OK, this') \<and>
           what this' = what m \<and> nodes this' = nodes m \<and> handler this' = handler this))) \<and>
    (\<forall>limit<FlattenedSize m. \<exists>buf. Flatten m buffer limit = Inr (B_NO_MEMORY, buf))"
proof (intro conjI)
  have "length (encode m) \<le> length buffer" using assms(4) length_encode [of m] by linarith
  then have "Flatten m buffer (FlattenedSize m) = Inr (B_OK, encode m @ drop (length (encode m)) buffer)"
    using flat_fits [OF assms(2) order_refl] by (simp add: Flatten_def)
  moreover have "\<exists>this'. Unflatten alloc this (encode m @ rest) = Inr (B_OK, this') \<and> what this' = what m \<and> nodes this' = nodes m \<and> handler this' = handler this"
    if "\<forall>n\<in>set (nodes m). type n \<noteq> 0" for this rest
    using Unflatten_encode [OF assms(3,1), of this rest] that assms(2) by (auto simp: nodes_def)
  ultimately show "\<exists>buf. Flatten m buffer (FlattenedSize m) = Inr (B_OK, buf @ drop (length buf) buffer) \<and>
      int (length buf) = FlattenedSize m \<and>
      ((\<forall>n\<in>set (nodes m). type n \<noteq> 0) \<longrightarrow>
        (\<forall>this rest. \<exists>this'. Unflatten alloc this (buf @ rest) = Inr (B_OK, this') \<and>
           what this' = what m \<and> nodes this' = nodes m \<and> handler this' = handler this))"
    by (intro exI [of _ "encode m"]) (simp add: length_encode)
next
  show "\<forall>limit<FlattenedSize m. \<exists>buf. Flatten m buffer limit = Inr (B_NO_MEMORY, buf)"
  proof (intro allI impI)
    fix limit assume "limit < FlattenedSize m"
    then have "fst (flat m limit) = B_NO_MEMORY" "int (length (snd (flat m limit))) \<le> int (length buffer)"
      using flat_small [OF assms(2)] flat_bound [of m limit] assms(4) by auto
    then show "\<exists>buf. Flatten m buffer limit = Inr (B_NO_MEMORY, buf)"
      by (cases "flat m limit") (auto simp: Flatten_def)
  qed
qed

lemma sizes_ok_one_field: "\<forall>n\<in>set (nodes one_field). sizes_ok n \<and> type n \<noteq> 0" "FlattenedSize one_field = 36"
  by (simp_all add: one_field_def sizes_ok_def FlattenedSize_def)

lemma Flatten_Unflatten_witness:
  "\<exists>buf this'. Flatten one_field (replicate 36 0) 36 = Inr (B_OK, buf) \<and>
     Unflatten (\<lambda>_. True) (Message_new 0) buf = Inr (B_OK, this') \<and> nodes this' = nodes one_field"
proof -
  have s: "\<forall>n\<in>set (nodes one_field). sizes_ok n" "\<forall>n\<in>set (nodes one_field). type n \<noteq> 0"
    using sizes_ok_one_field(1) by auto
  have "FlattenedSize one_field \<le> int (length (replicate 36 (0::byte)))" by (simp add: sizes_ok_one_field)
  from Flatten_Unflatten [OF one_field_ok(1) s(1) _ this, of "\<lambda>_. True"] s(2)
  obtain buf where b: "Flatten one_field (replicate 36 0) 36 = Inr (B_OK, buf @ drop (length buf) (replicate 36 0))"
      "length buf = 36" "\<forall>this rest. \<exists>this'. Unflatten (\<lambda>_. True) this (buf @ rest) = Inr (B_OK, this') \<and>
        what this' = what one_field \<and> nodes this' = nodes one_field \<and> handler this' = handler this"
    by (auto simp: sizes_ok_one_field(2))
  from b(3) obtain this' where "Unflatten (\<lambda>_. True) (Message_new 0) (buf @ drop (length buf) (replicate 36 0)) = Inr (B_OK, this')"
      "nodes this' = nodes one_field" by blast
  then show ?thesis using b(1) by blast
qed

lemma Message_copy_ok:
  assumes "message_ok m" "\<forall>n\<in>set (nodes m). sizes_ok n" "\<forall>k. alloc k"
  shows "\<exists>c. Message_copy alloc m = Inr c \<and> what c = what m \<and> nodes c = nodes m \<and> handler c = null \<and> reply_to c = null"
proof -
  have all: "add_nodes alloc (nodes m) t = Inr (if nodes m = [] then t else t\<lparr>m_nodes := Some (nodes t @ nodes m)\<rparr>)"
    if "nodes t = []" for t
    by (rule add_nodes_all [OF assms(3)]) (use assms that in \<open>auto simp: message_ok_def\<close>)
  show ?thesis
    by (auto simp: Message_copy_def impl_assign_def Let_def all) (simp_all add: Message_new_def clearNodes_def)
qed

text \<open>Copying a well-formed message copies \<open>what\<close> and all fields and leaves the handlers of the
  target (null for a new message); assigning a message to itself empties it.\<close>

lemma copy_of_message:
  assumes "message_ok m" "\<forall>n\<in>set (nodes m). sizes_ok n" "\<forall>k. alloc k"
  shows "(\<exists>c. Message_copy alloc m = Inr c \<and> what c = what m \<and> nodes c = nodes m \<and> handler c = null \<and> reply_to c = null) \<and>
    (\<exists>t. Message_assign alloc this (Other m) = Inr t \<and> what t = what m \<and> nodes t = nodes m \<and>
       handler t = handler this \<and> reply_to t = reply_to this) \<and>
    Message_assign alloc m Same = Inr (m\<lparr>m_nodes := None\<rparr>)"
proof -
  have all: "add_nodes alloc (nodes m) t = Inr (if nodes m = [] then t else t\<lparr>m_nodes := Some (nodes t @ nodes m)\<rparr>)"
    if "nodes t = []" for t
    by (rule add_nodes_all [OF assms(3)]) (use assms that in \<open>auto simp: message_ok_def\<close>)
  show ?thesis using Message_copy_ok [OF assms]
    by (auto simp: Message_assign_def impl_assign_def Let_def all) (simp_all add: clearNodes_def)
qed

lemma validate_loop_search:
  assumes ok: "message_ok from" and f: "fields (nodes from) (cstring class_key) = Some (B_STRING_TYPE, ds)"
    and z: "\<forall>d\<in>set ds. 0 \<in> set d" and l: "length ds < 2 ^ 31 - 1"
  shows "i \<le> length ds \<Longrightarrow> validate_loop from cls i =
    (if cls \<in> cstring ` set (drop i ds) then Inr True else Inl Undefined)"
proof (induction "length ds - i" arbitrary: i)
  have nm: "name_ok (cstring class_key)" "class_key = c_str (cstring class_key)"
    by (simp_all add: class_key_def name_ok_def B_FIELD_NAME_LENGTH_def)
  have find: "FindString_cstr from (Some class_key) (int i) None = lookup (fields (nodes from)) (cstring class_key) B_STRING_TYPE i"
    if "i \<le> length ds" for i
  proof -
    have "size_t (int i) = i" using that l by (simp add: size_t_of_nat)
    then show ?thesis using FindData_lookup [OF ok nm(1), of B_STRING_TYPE "int i" None]
      by (simp only: FindString_cstr_def nm(2) [symmetric])
  qed
  {
    case 0
    then show ?case using find [of i] f by (subst validate_loop.simps) (simp add: lookup_def)
  next
    case (Suc n)
    then have i: "i < length ds" by simp
    then have "0 \<in> set (ds ! i)" using z by simp
    moreover have "drop i ds = ds ! i # drop (Suc i) ds" using i by (simp add: Cons_nth_drop_Suc)
    moreover have "i < 2 ^ 31 - 1" using i l by simp
    ultimately show ?case using find [of i] f i Suc.hyps(1) [of "Suc i"] Suc.hyps(2)
      by (subst validate_loop.simps) (auto simp: lookup_def read_cstring_no_fault)
  }
qed

text \<open>\<open>FindString\<close> into a \<open>BString\<close> is undefined when the message has no such string, although
  \<open>FindData\<close> reports it; and \<open>validate_instantiation\<close>, which asks for index after index until there
  is no string, returns true for a class the archive names and is undefined for any other class.\<close>

lemma strings_not_found:
  assumes "message_ok from" "fields (nodes from) (cstring class_key) = Some (B_STRING_TYPE, ds)"
    "\<forall>d\<in>set ds. 0 \<in> set d" "length ds < 2 ^ 31 - 1" "cls \<noteq> []" "0 \<notin> set cls"
  shows "validate_instantiation (Some from) (Some (c_str cls)) =
      (if cls \<in> cstring ` set ds then Inr True else Inl Undefined) \<and>
    (\<forall>nm s. name_ok nm \<and> fields (nodes from) nm = None \<longrightarrow>
       FindData from (Some (c_str nm)) B_STRING_TYPE 0 None = Inr (B_NAME_NOT_FOUND, None) \<and>
       FindString_str from (Some (c_str nm)) 0 s = Inl Undefined)"
proof (intro conjI allI impI)
  show "validate_instantiation (Some from) (Some (c_str cls)) = (if cls \<in> cstring ` set ds then Inr True else Inl Undefined)"
    using validate_loop_search [OF assms(1-4), of 0 cls] assms(5,6)
    by (simp add: validate_instantiation_def read_cstring_c_str)
next
  fix nm s assume n: "name_ok nm \<and> fields (nodes from) nm = None"
  then show f: "FindData from (Some (c_str nm)) B_STRING_TYPE 0 None = Inr (B_NAME_NOT_FOUND, None)"
    using FindData_lookup [OF assms(1), of nm B_STRING_TYPE 0 None] by (simp add: lookup_def)
  show "FindString_str from (Some (c_str nm)) 0 s = Inl Undefined"
    by (simp add: FindString_str_def FindString_cstr_def f SetTo_cstr_def)
qed

definition archive :: message where
  "archive = (Message_new 1)\<lparr>m_nodes := Some [\<lparr>name = cstring class_key, type = B_STRING_TYPE, data = [[0x41, 0]]\<rparr>]\<rparr>"

text \<open>Values come back from the message they were added to: a message stored in a field is found
  with its \<open>what\<close> and fields, and a string without zero bytes as the same string.\<close>

lemma nested_values_roundtrip:
  assumes "message_ok this" "name_ok nm" "name_ok key" "nm \<noteq> key" "fields (nodes this) nm = None" "fields (nodes this) key = None"
    and "message_ok m" "\<forall>n\<in>set (nodes m). sizes_ok n \<and> type n \<noteq> 0" "\<forall>k. alloc k" "FlattenedSize m < 2 ^ 63"
    and "0 \<notin> set (bytes s)" "length (bytes s) < 2 ^ 31 - 1"
  shows "\<exists>t1 t2 m'. AddMessage alloc this (Some (c_str nm)) (Some m) = Inr (B_OK, t1) \<and>
     AddString_str alloc t1 (Some (c_str key)) s = Inr (B_OK, t2) \<and>
     FindMessage alloc t2 (Some (c_str nm)) 0 (Some target) = Inr (B_OK, Some m') \<and>
     what m' = what m \<and> nodes m' = nodes m \<and>
     FindString_str t2 (Some (c_str key)) 0 old = Inr (B_OK, s)"
proof -
  let ?n = "FlattenedSize m"
  have len: "int (length (encode m)) = ?n" by (rule length_encode)
  have nn: "nat ?n = length (encode m)" using len by simp
  have fl: "Flatten m (replicate (nat ?n) 0) ?n = Inr (B_OK, encode m)"
    using flat_fits [of m ?n] assms(8) by (simp add: Flatten_def nn)
  obtain st t1 where p1: "pushNode this nm B_MESSAGE_TYPE (encode m) = (st, t1)" by fastforce
  note r1 = pushNode_refines [OF assms(1,2) p1]
  then have t1: "message_ok t1" "st = B_OK" "fields (nodes t1) = (fields (nodes this))(nm \<mapsto> (B_MESSAGE_TYPE, [encode m]))"
    using assms(5) by auto
  have "length (encode m) < 2 ^ 63" using assms(10) unfolding len [symmetric] by simp
  then have "AddData alloc this (Some (c_str nm)) B_MESSAGE_TYPE (Some (encode m)) (int (length (encode m))) = Inr (B_OK, t1)"
    using addNode_fits [of alloc "encode m" nm this B_MESSAGE_TYPE "[]"] assms p1 t1(2) by (simp add: AddData_def)
  then have a1: "AddMessage alloc this (Some (c_str nm)) (Some m) = Inr (B_OK, t1)"
    using fl assms(9) len by (simp add: AddMessage_def Let_def)
  let ?s = "c_str (bytes s)"
  obtain st2 t2 where p2: "pushNode t1 key B_STRING_TYPE ?s = (st2, t2)" by fastforce
  have k1: "fields (nodes t1) key = None" using assms(4,6) t1(3) by simp
  have t2: "message_ok t2" "st2 = B_OK" "fields (nodes t2) = (fields (nodes t1))(key \<mapsto> (B_STRING_TYPE, [?s]))"
    using pushNode_refines [OF t1(1) assms(3) p2] k1 by auto
  have ls: "Length s + 1 = int (length ?s)" "String s = ?s" "length ?s < 2 ^ 63"
    using assms(12) by (simp_all add: Length_def String_def int32_of_nat)
  have a2: "AddString_str alloc t1 (Some (c_str key)) s = Inr (B_OK, t2)"
    using addNode_fits [of alloc ?s key t1 B_STRING_TYPE "[]"] assms(3,9) ls p2 t2(2) by (simp add: AddString_str_def AddData_def add.commute)
  have f1: "FindData t2 (Some (c_str nm)) B_MESSAGE_TYPE 0 None = Inr (B_OK, Some (encode m))"
    using FindData_lookup [OF t2(1) assms(2), of B_MESSAGE_TYPE 0 None] assms(4) by (simp add: lookup_def t2(3) t1(3))
  have f2: "FindData t2 (Some (c_str key)) B_STRING_TYPE 0 None = Inr (B_OK, Some ?s)"
    using FindData_lookup [OF t2(1) assms(3), of B_STRING_TYPE 0 None] by (simp add: lookup_def t2(3))
  have "FindMessage alloc t2 (Some (c_str nm)) 0 (Some target) =
      Inr (B_OK, Some (target\<lparr>what := what m, m_nodes := if nodes m = [] then None else Some (nodes m)\<rparr>))"
    using f1 Unflatten_encode [OF assms(9,7), of target "[]"] assms(8) by (simp add: FindMessage_def)
  moreover have "FindString_str t2 (Some (c_str key)) 0 old = Inr (B_OK, s)"
    using f2 assms(11) by (cases s) (simp add: FindString_str_def FindString_cstr_def SetTo_cstr_def read_cstring_c_str)
  ultimately show ?thesis using a1 a2 by (auto simp: nodes_def)
qed

end
