(* ===== verification/MessageQueue.thy ===== *)
theory MessageQueue
  imports Message Locker
begin

text \<open>
  \<open>BMessageQueue\<close> of \<open>kits/app/MessageQueue.cpp\<close>: the addresses of the waiting messages, oldest first,
  under a \<open>BLocker\<close>. The operations below are the bodies under the lock; \<open>NextMessage\<close> tests for an
  empty queue before it takes the lock, so it is two steps for other threads, which the second part
  models. The contract that the looper relies on is the locale \<open>fifo\<close>.
\<close>

section \<open>Operations\<close>

type_synonym queue = "ptr list"

definition MessageQueue_new :: queue where
  "MessageQueue_new = []"

definition Queue_AddMessage :: "queue \<Rightarrow> ptr \<Rightarrow> queue" where
  "Queue_AddMessage this an_event = (if an_event = null then this else this @ [an_event])"

definition Queue_RemoveMessage :: "queue \<Rightarrow> ptr \<Rightarrow> queue" where
  "Queue_RemoveMessage this an_event =
     (if an_event = null then this else filter (\<lambda>m. m \<noteq> an_event) this)"

definition Queue_IsEmpty :: "queue \<Rightarrow> bool" where
  "Queue_IsEmpty this \<longleftrightarrow> this = []"

text \<open>\<open>front\<close> and \<open>pop_front\<close> of an empty list are undefined.\<close>

definition take_front :: "queue \<Rightarrow> (ptr \<times> queue) outcome" where
  "take_front this = (case this of [] \<Rightarrow> Inl Undefined | m # ms \<Rightarrow> Inr (m, ms))"

definition NextMessage :: "queue \<Rightarrow> (ptr \<times> queue) outcome" where
  "NextMessage this = (if Queue_IsEmpty this then Inr (null, this) else take_front this)"

fun find_nth :: "queue \<Rightarrow> int \<Rightarrow> ptr" where
  "find_nth [] index = null"
| "find_nth (m # ms) index = (if index = 0 then m else find_nth ms (index - 1))"

definition Queue_FindMessage :: "queue \<Rightarrow> int \<Rightarrow> ptr" where
  "Queue_FindMessage this index = (if Queue_IsEmpty this then null else find_nth this index)"

text \<open>The second search reads \<open>what\<close> of the messages; an address without a message is dangling.\<close>

fun find_what :: "(ptr \<Rightarrow> message option) \<Rightarrow> queue \<Rightarrow> 32 word \<Rightarrow> int \<Rightarrow> ptr outcome" where
  "find_what heap [] w index = Inr null"
| "find_what heap (m # ms) w index =
     (case heap m of
        None \<Rightarrow> Inl Undefined
      | Some msg \<Rightarrow>
          if what msg = w then (if index = 0 then Inr m else find_what heap ms w (index - 1))
          else find_what heap ms w index)"

definition Queue_FindMessage_what :: "(ptr \<Rightarrow> message option) \<Rightarrow> queue \<Rightarrow> 32 word \<Rightarrow> int \<Rightarrow> ptr outcome" where
  "Queue_FindMessage_what heap this w index = (if Queue_IsEmpty this then Inr null else find_what heap this w index)"

definition CountMessages :: "queue \<Rightarrow> int" where
  "CountMessages this = int32 (int (length this))"

text \<open>The destructor deletes the messages that are left; deleting one twice is undefined.\<close>

fun delete_all :: "queue \<Rightarrow> (ptr \<Rightarrow> message option) \<Rightarrow> (ptr \<Rightarrow> message option) outcome" where
  "delete_all [] heap = Inr heap"
| "delete_all (m # ms) heap = (if heap m = None then Inl Undefined else delete_all ms (heap(m := None)))"

definition Queue_lock :: "thread \<Rightarrow> locker \<Rightarrow> locker option" where
  "Queue_lock self l = Lock self l"

section \<open>The contract of a queue\<close>

text \<open>\<open>n\<close> calls in a row of an operation that takes an element out.\<close>

fun take_n :: "('q \<Rightarrow> (ptr \<times> 'q) outcome) \<Rightarrow> nat \<Rightarrow> 'q \<Rightarrow> (ptr list \<times> 'q) outcome" where
  "take_n deq 0 q = Inr ([], q)"
| "take_n deq (Suc n) q =
     bindR (deq q) (\<lambda>(m, q'). bindR (take_n deq n q') (\<lambda>(ms, q''). Inr (m # ms, q'')))"

locale fifo =
  fixes contents :: "'q \<Rightarrow> ptr list"
    and enq :: "'q \<Rightarrow> ptr \<Rightarrow> 'q"
    and deq :: "'q \<Rightarrow> (ptr \<times> 'q) outcome"
  assumes enq_contents: "m \<noteq> null \<Longrightarrow> contents (enq q m) = contents q @ [m]"
    and enq_null: "enq q null = q"
    and deq_empty: "contents q = [] \<Longrightarrow> deq q = Inr (null, q)"
    and deq_contents: "contents q = m # ms \<Longrightarrow> \<exists>q'. deq q = Inr (m, q') \<and> contents q' = ms"
begin

lemma foldl_contents: "null \<notin> set ms \<Longrightarrow> contents (foldl enq q ms) = contents q @ ms"
  by (induction ms arbitrary: q) (simp_all add: enq_contents)

lemma take_n_contents:
  "n \<le> length (contents q) \<Longrightarrow> \<exists>q'. take_n deq n q = Inr (take n (contents q), q') \<and> contents q' = drop n (contents q)"
proof (induction n arbitrary: q)
  case (Suc n)
  then obtain m ms where c: "contents q = m # ms" by (cases "contents q") auto
  then obtain q' where q': "deq q = Inr (m, q')" "contents q' = ms" using deq_contents by blast
  then obtain q'' where "take_n deq n q' = Inr (take n ms, q'')" "contents q'' = drop n ms"
    using Suc c by auto
  then show ?case using c q' by auto
qed auto

text \<open>What was added comes out in the order of the additions, behind what was there before.\<close>

lemma first_in_first_out:
  assumes "null \<notin> set ms"
  shows "\<exists>q'. take_n deq (length (contents q) + length ms) (foldl enq q ms) = Inr (contents q @ ms, q') \<and> contents q' = []"
  using take_n_contents [of "length (contents q) + length ms" "foldl enq q ms"] foldl_contents [OF assms, of q] by auto

lemma deq_null_iff: "null \<notin> set (contents q) \<Longrightarrow> deq q = Inr (m, q') \<Longrightarrow> m = null \<longleftrightarrow> contents q = []"
  using deq_empty [of q] deq_contents [of q] by (cases "contents q") auto

end

interpretation mq: fifo "\<lambda>this. this" Queue_AddMessage NextMessage
  by unfold_locales (auto simp: Queue_AddMessage_def NextMessage_def Queue_IsEmpty_def take_front_def)

section \<open>Threads that take messages\<close>

text \<open>
  \<open>Test t\<close> is the test of \<open>NextMessage\<close> in thread \<open>t\<close>, without the lock; it returns null or goes on.
  \<open>Pop t\<close> is its rest, under the lock. \<open>Put m\<close> is an \<open>AddMessage\<close>.
\<close>

datatype queue_op = Test thread | Pop thread | Put ptr

record shared_queue =
  waiting_messages :: queue
  passed :: "thread \<Rightarrow> bool"
  results :: "(thread \<times> ptr) list"

fun queue_step :: "queue_op \<Rightarrow> shared_queue \<Rightarrow> shared_queue outcome" where
  "queue_step (Test t) s =
     (if Queue_IsEmpty (waiting_messages s) then Inr (s\<lparr>results := results s @ [(t, null)]\<rparr>)
      else Inr (s\<lparr>passed := (passed s)(t := True)\<rparr>))"
| "queue_step (Pop t) s =
     (if \<not> passed s t then Inr s
      else bindR (take_front (waiting_messages s)) (\<lambda>(m, q).
        Inr (s\<lparr>waiting_messages := q, passed := (passed s)(t := False), results := results s @ [(t, m)]\<rparr>)))"
| "queue_step (Put m) s = Inr (s\<lparr>waiting_messages := Queue_AddMessage (waiting_messages s) m\<rparr>)"

fun queue_run :: "queue_op list \<Rightarrow> shared_queue \<Rightarrow> shared_queue outcome" where
  "queue_run [] s = Inr s"
| "queue_run (x # xs) s = bindR (queue_step x s) (queue_run xs)"

definition queue_start :: "queue \<Rightarrow> shared_queue" where
  "queue_start q = \<lparr>waiting_messages = q, passed = (\<lambda>_. False), results = []\<rparr>"

fun by_thread :: "thread \<Rightarrow> queue_op \<Rightarrow> bool" where
  "by_thread t (Test u) \<longleftrightarrow> u = t"
| "by_thread t (Pop u) \<longleftrightarrow> u = t"
| "by_thread t (Put m) \<longleftrightarrow> True"

text \<open>With one consumer the test still holds when the lock is taken.\<close>

definition consumer_inv :: "thread \<Rightarrow> shared_queue \<Rightarrow> bool" where
  "consumer_inv t s \<longleftrightarrow> (\<forall>u. u \<noteq> t \<longrightarrow> \<not> passed s u) \<and> (passed s t \<longrightarrow> waiting_messages s \<noteq> [])"

lemma consumer_inv_step:
  "consumer_inv t s \<Longrightarrow> by_thread t x \<Longrightarrow> \<exists>s'. queue_step x s = Inr s' \<and> consumer_inv t s'"
  by (cases x) (auto simp: consumer_inv_def Queue_IsEmpty_def Queue_AddMessage_def take_front_def split: list.splits)

lemma consumer_inv_run:
  "consumer_inv t s \<Longrightarrow> \<forall>x\<in>set xs. by_thread t x \<Longrightarrow> \<exists>s'. queue_run xs s = Inr s'"
proof (induction xs arbitrary: s)
  case (Cons x xs)
  then obtain s' where "queue_step x s = Inr s'" "consumer_inv t s'" using consumer_inv_step [of t s x] by auto
  then show ?case using Cons by auto
qed simp

section \<open>Properties\<close>

text \<open>The queue is first in, first out: after messages were added, that many calls of
  \<open>NextMessage\<close> return the old and the new ones in the order they were added, and leave it empty; then
  it returns null. Null messages are not added.\<close>

lemma MessageQueue_fifo:
  assumes "null \<notin> set ms"
  shows "\<exists>q'. take_n NextMessage (length q + length ms) (foldl Queue_AddMessage q ms) = Inr (q @ ms, q') \<and>
     Queue_IsEmpty q' \<and> NextMessage q' = Inr (null, q') \<and> Queue_AddMessage q null = q"
  using mq.first_in_first_out [OF assms, of q] by (auto simp: Queue_IsEmpty_def NextMessage_def Queue_AddMessage_def)

text \<open>While only one thread takes messages, no interleaving with additions faults. With two, both
  can pass the test on the last message, and the second takes the front of an empty list
  (undefined).\<close>

lemma NextMessage_consumers:
  assumes "\<forall>x\<in>set xs. by_thread t x" "m \<noteq> null" "a \<noteq> b"
  shows "(\<exists>s. queue_run xs (queue_start q) = Inr s) \<and>
    queue_run [Put m, Test a, Test b, Pop a, Pop b] (queue_start []) = Inl Undefined"
proof
  show "\<exists>s. queue_run xs (queue_start q) = Inr s"
    using assms(1) by (intro consumer_inv_run [of t]) (simp_all add: consumer_inv_def queue_start_def)
  show "queue_run [Put m, Test a, Test b, Pop a, Pop b] (queue_start []) = Inl Undefined"
    using assms(2,3) by (simp add: queue_start_def Queue_AddMessage_def Queue_IsEmpty_def take_front_def)
qed

end
