(* ===== verification/Looper.thy ===== *)
theory Looper
  imports MessageQueue BList
begin

text \<open>
  \<open>BHandler\<close> and \<open>BLooper\<close> of \<open>kits/app/Handler.cpp\<close> and \<open>kits/app/Looper.cpp\<close>. The objects live in a
  store: a handler, a looper (which is also a handler, at the same address) and a message at an
  address, or nothing (using it is undefined). The calling thread is the argument \<open>self\<close>.
  What a user class may override is an argument: \<open>received\<close> (\<open>MessageReceived\<close>), \<open>quit_requested\<close>.
  The results of the kernel calls (acquiring the semaphore, \<open>has_data\<close>, \<open>send_data\<close>,
  \<open>spawn_thread\<close>) are arguments too. Calls whose order matters are recorded in \<open>trace\<close>.
\<close>

section \<open>The store\<close>

record handler =
  fName :: "byte list option"
  fLooper :: ptr
  fNextHandler :: ptr

record looper =
  fQueue :: queue
  fLastMessage :: ptr
  fLockSem :: nat
  fOwnerCount :: nat
  fOwner :: thread
  fThread :: thread
  fInitPriority :: int
  fPreferred :: ptr
  fHandlers :: "ptr list"
  fTerminating :: bool
  fRunCalled :: bool

datatype event =
    Dispatched ptr ptr   \<comment> \<open>\<open>DispatchMessage(message, target)\<close>\<close>
  | Deleted ptr          \<comment> \<open>\<open>delete message\<close>\<close>
  | Not_understood ptr   \<comment> \<open>the last handler of a chain reports the message\<close>
  | Data_sent thread "32 word"
  | Waited_for thread

record world =
  handlers :: "ptr \<Rightarrow> handler option"
  loopers :: "ptr \<Rightarrow> looper option"
  messages :: "ptr \<Rightarrow> message option"
  g_Loopers :: "thread \<Rightarrow> ptr"
  trace :: "event list"

definition B_QUIT_REQUESTED :: "32 word" where "B_QUIT_REQUESTED = 0x5F515251"
definition QUIT_CODE :: "32 word" where "QUIT_CODE = 0x5F514954"
definition EVENTS_PENDING :: "32 word" where "EVENTS_PENDING = 0x5F455650"
definition UPDATE_IF_NEEDED :: "32 word" where "UPDATE_IF_NEEDED = 0x5F55504E"
definition B_MESSAGE_NOT_UNDERSTOOD :: "32 word" where "B_MESSAGE_NOT_UNDERSTOOD = 0x4D4E4F54"

definition B_BAD_THREAD_ID :: status where "B_BAD_THREAD_ID = B_OS_ERROR_BASE + 0x100"

lemmas message_codes = B_QUIT_REQUESTED_def QUIT_CODE_def EVENTS_PENDING_def UPDATE_IF_NEEDED_def
  B_MESSAGE_NOT_UNDERSTOOD_def

fun alive :: "'a option \<Rightarrow> 'a outcome" where
  "alive None = Inl Undefined"
| "alive (Some x) = Inr x"

definition put_handler :: "ptr \<Rightarrow> handler \<Rightarrow> world \<Rightarrow> world" where
  "put_handler h x w = w\<lparr>handlers := (handlers w)(h := Some x)\<rparr>"

definition put_looper :: "ptr \<Rightarrow> looper \<Rightarrow> world \<Rightarrow> world" where
  "put_looper l x w = w\<lparr>loopers := (loopers w)(l := Some x)\<rparr>"

definition emit :: "event \<Rightarrow> world \<Rightarrow> world" where
  "emit e w = w\<lparr>trace := trace w @ [e]\<rparr>"

section \<open>\<open>BHandler\<close>\<close>

fun c_string_copy :: "mem option \<Rightarrow> byte list option outcome" where
  "c_string_copy None = Inr None"
| "c_string_copy (Some m) = bindR (read_cstring m) (\<lambda>s. Inr (Some s))"

definition SetName :: "handler \<Rightarrow> mem option \<Rightarrow> handler outcome" where
  "SetName this nm = bindR (c_string_copy nm) (\<lambda>s. Inr (this\<lparr>fName := s\<rparr>))"

definition Handler_new :: "mem option \<Rightarrow> handler outcome" where
  "Handler_new nm = SetName \<lparr>fName = None, fLooper = null, fNextHandler = null\<rparr> nm"

definition Name :: "handler \<Rightarrow> byte list option" where
  "Name this = fName this"

definition SetLooper :: "world \<Rightarrow> ptr \<Rightarrow> ptr \<Rightarrow> world outcome" where
  "SetLooper w h l = bindR (alive (handlers w h)) (\<lambda>x. Inr (put_handler h (x\<lparr>fLooper := l\<rparr>) w))"

definition Handler_Looper :: "world \<Rightarrow> ptr \<Rightarrow> ptr outcome" where
  "Handler_Looper w h = bindR (alive (handlers w h)) (\<lambda>x. Inr (fLooper x))"

definition NextHandler :: "world \<Rightarrow> ptr \<Rightarrow> ptr outcome" where
  "NextHandler w h = bindR (alive (handlers w h)) (\<lambda>x. Inr (fNextHandler x))"

text \<open>\<open>IsLocked\<close> asks whether any thread holds the lock.\<close>

definition Looper_IsLocked :: "looper \<Rightarrow> bool" where
  "Looper_IsLocked this \<longleftrightarrow> 0 < fOwnerCount this"

definition SetNextHandler :: "world \<Rightarrow> ptr \<Rightarrow> ptr \<Rightarrow> world outcome" where
  "SetNextHandler w this h =
     bindR (alive (handlers w this)) (\<lambda>x.
     if fLooper x = null then Inl Debugger
     else bindR (alive (loopers w (fLooper x))) (\<lambda>l.
     if \<not> Looper_IsLocked l then Inl Debugger
     else bindR (if h = null then Inr (fLooper x) else Handler_Looper w h) (\<lambda>hl.
     if h \<noteq> null \<and> fLooper x \<noteq> hl then Inl Debugger
     else if h = this then Inr w
     else Inr (put_handler this (x\<lparr>fNextHandler := h\<rparr>) w))))"

text \<open>
  \<open>MessageReceived\<close> of the base class passes the message along the chain of next handlers. A chain
  that does not end makes the calls nest for ever (\<open>None\<close>). The last handler reports a message
  that nobody understood; its \<open>SendReply\<close> does nothing but return an error.
\<close>

partial_function (option) MessageReceived :: "world \<Rightarrow> ptr \<Rightarrow> message \<Rightarrow> world outcome option" where
  "MessageReceived w this msg =
     (case handlers w this of
        None \<Rightarrow> Some (Inl Undefined)
      | Some x \<Rightarrow>
          if fNextHandler x \<noteq> null then
            (if fNextHandler x \<noteq> this then MessageReceived w (fNextHandler x) msg else Some (Inr w))
          else if what msg \<noteq> B_MESSAGE_NOT_UNDERSTOOD then Some (Inr (emit (Not_understood this) w))
          else Some (Inr w))"

text \<open>The rest of the class ends in the debugger or is a constant.\<close>

definition Handler_Archive :: "status outcome" where "Handler_Archive = Inl Debugger"
definition AddFilter :: "unit outcome" where "AddFilter = Inl Debugger"
definition RemoveFilter :: "bool outcome" where "RemoveFilter = Inl Debugger"
definition SetFilterList :: "unit outcome" where "SetFilterList = Inl Debugger"
definition ResolveSpecifier :: "ptr outcome" where "ResolveSpecifier = Inl Debugger"
definition GetSupportedSuites :: "status outcome" where "GetSupportedSuites = Inl Debugger"
definition SendNotices :: "unit outcome" where "SendNotices = Inl Debugger"
definition IsWatched :: bool where "IsWatched = False"

section \<open>The lock of a looper\<close>

text \<open>
  \<open>ack\<close> is what acquiring the semaphore returned; \<open>B_OK\<close> is possible only when it has a unit (\<open>None\<close>
  otherwise: the thread is still blocked).
\<close>

definition Looper_LockWithTimeout :: "thread \<Rightarrow> status \<Rightarrow> looper \<Rightarrow> (status \<times> looper) option" where
  "Looper_LockWithTimeout self ack this =
     (if fOwner this = self then Some (B_OK, this\<lparr>fOwnerCount := fOwnerCount this + 1\<rparr>)
      else if ack \<noteq> B_OK then Some (ack, this)
      else if fLockSem this = 0 then None
      else Some (B_OK, this\<lparr>fLockSem := fLockSem this - 1, fOwner := self, fOwnerCount := 1\<rparr>))"

definition Looper_Lock :: "thread \<Rightarrow> status \<Rightarrow> looper \<Rightarrow> (bool \<times> looper) option" where
  "Looper_Lock self ack this = map_option (\<lambda>(st, l). (st = B_OK, l)) (Looper_LockWithTimeout self ack this)"

text \<open>The count is unsigned; a thread that owns the lock has a positive one.\<close>

definition Looper_Unlock :: "thread \<Rightarrow> looper \<Rightarrow> looper" where
  "Looper_Unlock self this =
     (if fOwner this = self then
        let n = dec64 (fOwnerCount this); this = this\<lparr>fOwnerCount := n\<rparr>
        in if n = 0 then this\<lparr>fOwner := B_ERROR, fLockSem := fLockSem this + 1\<rparr> else this
      else this)"

definition Looper_LockingThread :: "looper \<Rightarrow> thread" where
  "Looper_LockingThread this = fOwner this"

definition Looper_CountLocks :: "looper \<Rightarrow> int" where
  "Looper_CountLocks this = int32 (int (fOwnerCount this))"

text \<open>\<open>get_sem_count\<close> of kits/kernel/sem.c returns the count and never writes the variable passed to it.\<close>

definition Looper_CountLockRequests :: "looper \<Rightarrow> int" where
  "Looper_CountLockRequests this = int32 (int (fOwnerCount this + 0))"

definition AssertLocked :: "looper \<Rightarrow> unit outcome" where
  "AssertLocked this = (if Looper_IsLocked this then Inr () else Inl Debugger)"

text \<open>
  \<open>LockLooper\<close> of a handler: \<open>after\<close> is the store when the lock has been acquired, in which the
  handler may belong to another looper by then. The result carries that store.
\<close>

definition LockLooperWithTimeout ::
  "thread \<Rightarrow> status \<Rightarrow> (world \<Rightarrow> world) \<Rightarrow> world \<Rightarrow> ptr \<Rightarrow> (status \<times> world) outcome option" where
  "LockLooperWithTimeout self ack after w this =
     (case handlers w this of
        None \<Rightarrow> Some (Inl Undefined)
      | Some x \<Rightarrow>
          if fLooper x = null then Some (Inr (B_BAD_VALUE, w))
          else
            let w = after w
            in case loopers w (fLooper x) of
                 None \<Rightarrow> Some (Inl Undefined)
               | Some l \<Rightarrow> map_option (\<lambda>(status, l').
                   let w' = put_looper (fLooper x) l' w
                   in if status \<noteq> B_OK then Inr (status, w')
                      else bindR (Handler_Looper w' this) (\<lambda>now.
                        if now \<noteq> fLooper x
                        then Inr (B_MISMATCHED_VALUES, put_looper (fLooper x) (Looper_Unlock self l') w')
                        else Inr (B_OK, w')))
                   (Looper_LockWithTimeout self ack l))"

definition LockLooper ::
  "thread \<Rightarrow> status \<Rightarrow> (world \<Rightarrow> world) \<Rightarrow> world \<Rightarrow> ptr \<Rightarrow> (bool \<times> world) outcome option" where
  "LockLooper self ack after w this =
     map_option (\<lambda>r. bindR r (\<lambda>(status, w'). Inr (status = B_OK, w'))) (LockLooperWithTimeout self ack after w this)"

definition UnlockLooper :: "thread \<Rightarrow> world \<Rightarrow> ptr \<Rightarrow> world outcome" where
  "UnlockLooper self w this =
     bindR (Handler_Looper w this) (\<lambda>l.
     bindR (alive (loopers w l)) (\<lambda>x. Inr (put_looper l (Looper_Unlock self x) w)))"

section \<open>The handlers of a looper\<close>

definition Looper_AddHandler :: "world \<Rightarrow> ptr \<Rightarrow> ptr \<Rightarrow> world outcome" where
  "Looper_AddHandler w this h =
     (if h = null then Inr w
      else bindR (alive (loopers w this)) (\<lambda>l.
           bindR (AssertLocked l) (\<lambda>_.
           bindR (Handler_Looper w h) (\<lambda>hl.
           if hl \<noteq> null then Inr w
           else
             let w = put_looper this (l\<lparr>fHandlers := snd (AddItem (fHandlers l) h)\<rparr>) w
             in bindR (SetLooper w h this) (\<lambda>w. SetNextHandler w h this)))))"

definition Looper_RemoveHandler :: "world \<Rightarrow> ptr \<Rightarrow> ptr \<Rightarrow> (bool \<times> world) outcome" where
  "Looper_RemoveHandler w this h =
     (if h = null then Inr (False, w)
      else bindR (alive (loopers w this)) (\<lambda>l.
           bindR (AssertLocked l) (\<lambda>_.
           bindR (Handler_Looper w h) (\<lambda>hl.
           if hl = this \<and> fst (RemoveItem (fHandlers l) h) then
             let l = l\<lparr>fHandlers := snd (RemoveItem (fHandlers l) h),
                        fPreferred := if h = fPreferred l then null else fPreferred l\<rparr>;
                 w = put_looper this l w
             in bindR (SetNextHandler w h null) (\<lambda>w.
                bindR (SetLooper w h null) (\<lambda>w. Inr (True, w)))
           else Inr (False, w)))))"

definition CountHandlers :: "looper \<Rightarrow> int outcome" where
  "CountHandlers this = bindR (AssertLocked this) (\<lambda>_. Inr (CountItems (fHandlers this)))"

definition HandlerAt :: "looper \<Rightarrow> int \<Rightarrow> ptr outcome" where
  "HandlerAt this index = bindR (AssertLocked this) (\<lambda>_. Inr (ItemAt (fHandlers this) index))"

definition Looper_IndexOf :: "looper \<Rightarrow> ptr \<Rightarrow> int outcome" where
  "Looper_IndexOf this h = bindR (AssertLocked this) (\<lambda>_. Inr (IndexOf (fHandlers this) h))"

definition PreferredHandler :: "looper \<Rightarrow> ptr" where
  "PreferredHandler this = fPreferred this"

definition SetPreferredHandler :: "world \<Rightarrow> ptr \<Rightarrow> ptr \<Rightarrow> world outcome" where
  "SetPreferredHandler w this h =
     bindR (alive (loopers w this)) (\<lambda>l.
     bindR (if h = null then Inr False
            else bindR (Handler_Looper w h) (\<lambda>hl.
              if hl \<noteq> this then Inr False
              else bindR (Looper_IndexOf l h) (\<lambda>i. Inr (0 \<le> i)))) (\<lambda>mine.
     Inr (put_looper this (l\<lparr>fPreferred := if mine then h else null\<rparr>) w)))"

section \<open>Construction and destruction\<close>

text \<open>
  The constructor locks the new looper, registers it under the calling thread and adds it to its own
  handlers. \<open>this\<close> is its address.
\<close>

definition Looper_new :: "thread \<Rightarrow> world \<Rightarrow> ptr \<Rightarrow> mem option \<Rightarrow> int \<Rightarrow> world outcome" where
  "Looper_new self w this nm priority =
     bindR (Handler_new nm) (\<lambda>x.
     let l = \<lparr>fQueue = MessageQueue_new, fLastMessage = null, fLockSem = 1, fOwnerCount = 0, fOwner = B_ERROR,
              fThread = B_ERROR, fInitPriority = priority, fPreferred = null, fHandlers = [],
              fTerminating = False, fRunCalled = False\<rparr>
     in case Looper_Lock self B_OK l of
          None \<Rightarrow> Inl Undefined
        | Some (_, l) \<Rightarrow>
            let w = put_looper this l (put_handler this x w)
            in Looper_AddHandler (w\<lparr>g_Loopers := (g_Loopers w)(self := this)\<rparr>) this this)"

fun orphan_all :: "ptr list \<Rightarrow> world \<Rightarrow> world outcome" where
  "orphan_all [] w = Inr w"
| "orphan_all (h # hs) w =
     bindR (SetNextHandler w h null) (\<lambda>w. bindR (SetLooper w h null) (\<lambda>w. orphan_all hs w))"

definition delete_message :: "ptr \<Rightarrow> world \<Rightarrow> world outcome" where
  "delete_message m w =
     (if m = null then Inr w
      else bindR (alive (messages w m)) (\<lambda>_. Inr (emit (Deleted m) (w\<lparr>messages := (messages w)(m := None)\<rparr>))))"

text \<open>
  The destructor, for a looper whose lock the thread holds or can take: \<open>ack\<close> is \<open>B_OK\<close> in its
  \<open>Lock\<close>. The messages of the queue are deleted with the queue. Last, the looper and the handler
  that it is leave the store.
\<close>

definition Looper_delete :: "thread \<Rightarrow> world \<Rightarrow> ptr \<Rightarrow> world outcome option" where
  "Looper_delete self w this =
     (case loopers w this of
        None \<Rightarrow> Some (Inl Undefined)
      | Some l \<Rightarrow>
          if fRunCalled l \<and> \<not> fTerminating l then Some (Inl Debugger)
          else map_option (\<lambda>(_, l).
            let w = put_looper this (l\<lparr>fLastMessage := null\<rparr>) w
            in bindR (delete_message (fLastMessage l) w) (\<lambda>w.
               bindR (delete_all (fQueue l) (messages w)) (\<lambda>ms.
               bindR (Looper_RemoveHandler (w\<lparr>messages := ms\<rparr>) this this) (\<lambda>(_, w).
               bindR (alive (loopers w this)) (\<lambda>l.
               bindR (orphan_all (fHandlers l) w) (\<lambda>w.
               Inr (w\<lparr>g_Loopers := (g_Loopers w)(self := null),
                      loopers := (loopers w)(this := None), handlers := (handlers w)(this := None)\<rparr>))))))
            ) (Looper_Lock self B_OK l))"

definition LooperForThread :: "world \<Rightarrow> thread \<Rightarrow> ptr" where
  "LooperForThread w t = g_Loopers w t"

section \<open>Posting and dispatching\<close>

text \<open>\<open>has_data\<close> and \<open>sent\<close> are what the two kernel calls return, if they are made.\<close>

definition PostMessage_ptr ::
  "thread \<Rightarrow> bool \<Rightarrow> status \<Rightarrow> world \<Rightarrow> ptr \<Rightarrow> ptr \<Rightarrow> ptr \<Rightarrow> ptr \<Rightarrow> (status \<times> world) outcome" where
  "PostMessage_ptr self has_data sent w this m h r =
     bindR (alive (loopers w this)) (\<lambda>l.
     bindR (alive (messages w m)) (\<lambda>msg.
     let msg = set_reply_handler (set_handler msg h) r;
         w = put_looper this (l\<lparr>fQueue := Queue_AddMessage (fQueue l) m\<rparr>) (w\<lparr>messages := (messages w)(m := Some msg)\<rparr>)
     in if fThread l \<noteq> B_ERROR \<and> fThread l \<noteq> self \<and> \<not> has_data
        then Inr (sent, emit (Data_sent (fThread l) EVENTS_PENDING) w)
        else Inr (B_OK, w)))"

text \<open>The public variants post a new message at the address \<open>m\<close>: with a command, or a copy.\<close>

definition PostMessage_command_to ::
  "thread \<Rightarrow> bool \<Rightarrow> status \<Rightarrow> world \<Rightarrow> ptr \<Rightarrow> ptr \<Rightarrow> 32 word \<Rightarrow> ptr \<Rightarrow> ptr \<Rightarrow> (status \<times> world) outcome" where
  "PostMessage_command_to self has_data sent w this m command h r =
     PostMessage_ptr self has_data sent (w\<lparr>messages := (messages w)(m := Some (Message_new command))\<rparr>) this m h r"

definition PostMessage_command ::
  "thread \<Rightarrow> bool \<Rightarrow> status \<Rightarrow> world \<Rightarrow> ptr \<Rightarrow> ptr \<Rightarrow> 32 word \<Rightarrow> (status \<times> world) outcome" where
  "PostMessage_command self has_data sent w this m command =
     PostMessage_command_to self has_data sent w this m command this null"

definition PostMessage_to ::
  "(nat \<Rightarrow> bool) \<Rightarrow> thread \<Rightarrow> bool \<Rightarrow> status \<Rightarrow> world \<Rightarrow> ptr \<Rightarrow> ptr \<Rightarrow> message option \<Rightarrow> ptr \<Rightarrow> ptr \<Rightarrow> (status \<times> world) outcome" where
  "PostMessage_to alloc self has_data sent w this m msg h r =
     (case msg of
        None \<Rightarrow> Inl Undefined
      | Some x \<Rightarrow> bindR (Message_copy alloc x) (\<lambda>c.
          PostMessage_ptr self has_data sent (w\<lparr>messages := (messages w)(m := Some c)\<rparr>) this m h r))"

definition PostMessage_message ::
  "(nat \<Rightarrow> bool) \<Rightarrow> thread \<Rightarrow> bool \<Rightarrow> status \<Rightarrow> world \<Rightarrow> ptr \<Rightarrow> ptr \<Rightarrow> message option \<Rightarrow> (status \<times> world) outcome" where
  "PostMessage_message alloc self has_data sent w this m msg =
     PostMessage_to alloc self has_data sent w this m msg this null"

definition DispatchMessage ::
  "(ptr \<Rightarrow> ptr \<Rightarrow> world \<Rightarrow> world outcome) \<Rightarrow> bool \<Rightarrow> world \<Rightarrow> ptr \<Rightarrow> ptr \<Rightarrow> ptr \<Rightarrow> world outcome" where
  "DispatchMessage received quit_requested w this m target =
     (if m = null \<or> target = null then Inr w
      else bindR (alive (messages w m)) (\<lambda>msg.
        let w = emit (Dispatched m target) w
        in if what msg = B_QUIT_REQUESTED \<and> target = this then
             bindR (alive (loopers w this)) (\<lambda>l.
             Inr (put_looper this (l\<lparr>fTerminating := fTerminating l \<or> quit_requested\<rparr>) w))
           else received target m w))"

definition CurrentMessage :: "looper \<Rightarrow> ptr" where
  "CurrentMessage this = fLastMessage this"

definition DetachCurrentMessage :: "looper \<Rightarrow> ptr \<times> looper" where
  "DetachCurrentMessage this = (fLastMessage this, this\<lparr>fLastMessage := null\<rparr>)"

text \<open>
  One round of \<open>_drain_message_queue\<close> for a message that was taken from the queue: whom it goes to,
  the dispatch, and the deletion of the current message, if it was not detached. The result says
  whether the loop breaks.
\<close>

definition target_of :: "world \<Rightarrow> ptr \<Rightarrow> looper \<Rightarrow> message \<Rightarrow> ptr outcome" where
  "target_of w this l msg =
     (let h = get_handler msg
      in if h = null then Inr (if fPreferred l = null then this else fPreferred l)
         else bindR (Handler_Looper w h) (\<lambda>hl. Inr (if hl = this then h else null)))"

definition process_one ::
  "(ptr \<Rightarrow> ptr \<Rightarrow> world \<Rightarrow> world outcome) \<Rightarrow> bool \<Rightarrow> world \<Rightarrow> ptr \<Rightarrow> ptr \<Rightarrow> (bool \<times> world) outcome" where
  "process_one received quit_requested w this m =
     bindR (alive (loopers w this)) (\<lambda>l.
     bindR (alive (messages w m)) (\<lambda>msg.
     bindR (target_of w this l msg) (\<lambda>h.
     bindR (if h = null then Inr w
            else bindR (Handler_Looper w h) (\<lambda>hl.
              if hl = this then DispatchMessage received quit_requested w this m h else Inr w)) (\<lambda>w.
     bindR (alive (loopers w this)) (\<lambda>l.
     bindR (delete_message (fLastMessage l) (put_looper this (l\<lparr>fLastMessage := null\<rparr>) w)) (\<lambda>w.
     Inr (what msg = UPDATE_IF_NEEDED, w)))))))"

text \<open>The loop, with fuel: \<open>None\<close> when the fuel is used up before the queue is empty.\<close>

fun drain_message_queue ::
  "nat \<Rightarrow> (ptr \<Rightarrow> ptr \<Rightarrow> world \<Rightarrow> world outcome) \<Rightarrow> bool \<Rightarrow> world \<Rightarrow> ptr \<Rightarrow> world outcome option" where
  "drain_message_queue 0 received quit_requested w this = None"
| "drain_message_queue (Suc n) received quit_requested w this =
     (case loopers w this of
        None \<Rightarrow> Some (Inl Undefined)
      | Some l \<Rightarrow>
          (case NextMessage (fQueue l) of
             Inl e \<Rightarrow> Some (Inl e)
           | Inr (m, q) \<Rightarrow>
               let w = put_looper this (l\<lparr>fQueue := q, fLastMessage := m\<rparr>) w
               in if m = null then Some (Inr w)
                  else (case process_one received quit_requested w this m of
                          Inl e \<Rightarrow> Some (Inl e)
                        | Inr (break, w) \<Rightarrow>
                            if break then Some (Inr w) else drain_message_queue n received quit_requested w this)))"

text \<open>
  The thread of a looper. \<open>others\<close> is what the other threads do between two rounds, while the
  looper is unlocked; \<open>n\<close> bounds the rounds and \<open>k\<close> the messages of one round. In the end the looper
  is left locked, for the destructor.
\<close>

fun task_rounds ::
  "nat \<Rightarrow> nat \<Rightarrow> thread \<Rightarrow> (world \<Rightarrow> world) \<Rightarrow> (ptr \<Rightarrow> ptr \<Rightarrow> world \<Rightarrow> world outcome) \<Rightarrow> bool \<Rightarrow> world \<Rightarrow> ptr \<Rightarrow>
   world outcome option" where
  "task_rounds 0 k self others received quit_requested w this = None"
| "task_rounds (Suc n) k self others received quit_requested w this =
     (case loopers w this of
        None \<Rightarrow> Some (Inl Undefined)
      | Some l \<Rightarrow>
          if fTerminating l then Some (Inr w)
          else
            let w = others w
            in case loopers w this of
                 None \<Rightarrow> Some (Inl Undefined)
               | Some l \<Rightarrow>
                   (case Looper_Lock self B_OK l of
                      None \<Rightarrow> None
                    | Some (_, l) \<Rightarrow>
                        (case drain_message_queue k received quit_requested (put_looper this l w) this of
                           None \<Rightarrow> None
                         | Some (Inl e) \<Rightarrow> Some (Inl e)
                         | Some (Inr w) \<Rightarrow>
                             (case loopers w this of
                                None \<Rightarrow> Some (Inl Undefined)
                              | Some l \<Rightarrow>
                                  task_rounds n k self others received quit_requested
                                    (if fTerminating l then w else put_looper this (Looper_Unlock self l) w) this))))"

definition task_looper ::
  "nat \<Rightarrow> nat \<Rightarrow> thread \<Rightarrow> (world \<Rightarrow> world) \<Rightarrow> (ptr \<Rightarrow> ptr \<Rightarrow> world \<Rightarrow> world outcome) \<Rightarrow> bool \<Rightarrow> world \<Rightarrow> ptr \<Rightarrow>
   world outcome option" where
  "task_looper n k self others received quit_requested w this =
     (case loopers w this of
        None \<Rightarrow> Some (Inl Undefined)
      | Some l \<Rightarrow>
          if \<not> Looper_IsLocked l then Some (Inl Debugger)
          else
            let l = Looper_Unlock self l
            in if Looper_IsLocked l then Some (Inl Debugger)
               else task_rounds n k self others received quit_requested (put_looper this l w) this)"

section \<open>Running and quitting\<close>

definition Looper_Run :: "thread \<Rightarrow> int \<Rightarrow> status \<Rightarrow> looper \<Rightarrow> (int \<times> looper) outcome" where
  "Looper_Run self spawned resumed this =
     bindR (AssertLocked this) (\<lambda>_.
     if fRunCalled this then Inl Debugger
     else
       let this = this\<lparr>fThread := spawned\<rparr>
       in if spawned < B_OK then Inr (spawned, this)
          else
            let this = Looper_Unlock self (this\<lparr>fRunCalled := True\<rparr>)
            in if resumed < B_OK then Inr (resumed, this) else Inr (fThread this, this))"

text \<open>\<open>while (IsLocked()) Unlock();\<close> in a thread that owns the lock.\<close>

fun unlock_all :: "nat \<Rightarrow> thread \<Rightarrow> looper \<Rightarrow> looper option" where
  "unlock_all 0 self this = (if Looper_IsLocked this then None else Some this)"
| "unlock_all (Suc n) self this =
     (if Looper_IsLocked this then unlock_all n self (Looper_Unlock self this) else Some this)"

text \<open>
  \<open>Quit\<close>. \<open>ack\<close> is the result of acquiring the semaphore in its \<open>Lock\<close>, \<open>has_data\<close> and \<open>sent\<close> those of
  the kernel calls. In the looper's own thread the function does not return (\<open>exit_thread\<close>); its
  result is the store at that point.
\<close>

definition Quit :: "thread \<Rightarrow> status \<Rightarrow> bool \<Rightarrow> status \<Rightarrow> world \<Rightarrow> ptr \<Rightarrow> world outcome option" where
  "Quit self ack has_data sent w this =
     (case loopers w this of
        None \<Rightarrow> Some (Inl Undefined)
      | Some l \<Rightarrow>
          if \<not> Looper_IsLocked l then Some (Inr w)
          else (case Looper_Lock self ack l of
             None \<Rightarrow> None
           | Some (locked, l) \<Rightarrow>
               if \<not> locked then Some (Inr w)
               else if \<not> fRunCalled l then Looper_delete self (put_looper this (l\<lparr>fTerminating := True\<rparr>) w) this
               else if fThread l \<noteq> self then
                 (let l = l\<lparr>fTerminating := True\<rparr>
                  in if 0 \<le> fThread l then
                       (case unlock_all (fOwnerCount l) self l of
                          None \<Rightarrow> None
                        | Some l \<Rightarrow>
                            let w = put_looper this l w;
                                w = (if has_data then w else emit (Data_sent (fThread l) QUIT_CODE) w);
                                status = (if has_data then B_OK else sent)
                            in Some (Inr (if status \<noteq> B_BAD_THREAD_ID then emit (Waited_for (fThread l)) w else w)))
                     else Looper_delete self (put_looper this l w) this)
               else Looper_delete self (put_looper this l w) this))"

text \<open>The entry point of the looper's thread: take the lock, run the loop, delete the looper.\<close>

definition task0 ::
  "nat \<Rightarrow> nat \<Rightarrow> thread \<Rightarrow> (world \<Rightarrow> world) \<Rightarrow> (ptr \<Rightarrow> ptr \<Rightarrow> world \<Rightarrow> world outcome) \<Rightarrow> bool \<Rightarrow> world \<Rightarrow> ptr \<Rightarrow>
   (status \<times> world) outcome option" where
  "task0 n k self others received quit_requested w this =
     (case loopers w this of
        None \<Rightarrow> Some (Inl Undefined)
      | Some l \<Rightarrow>
          (case Looper_Lock self B_OK l of
             None \<Rightarrow> None
           | Some (_, l) \<Rightarrow>
               (case task_looper n k self others received quit_requested (put_looper this l w) this of
                  None \<Rightarrow> None
                | Some (Inl e) \<Rightarrow> Some (Inl e)
                | Some (Inr w) \<Rightarrow> map_option (\<lambda>r. bindR r (\<lambda>w. Inr (B_OK, w))) (Looper_delete self w this))))"

section \<open>The handlers and their looper\<close>

lemma put_simps [simp]:
  "handlers (put_handler h x w) = (handlers w)(h := Some x)" "loopers (put_handler h x w) = loopers w"
  "messages (put_handler h x w) = messages w" "trace (put_handler h x w) = trace w"
  "handlers (put_looper l y w) = handlers w" "loopers (put_looper l y w) = (loopers w)(l := Some y)"
  "messages (put_looper l y w) = messages w" "trace (put_looper l y w) = trace w"
  "g_Loopers (put_handler h x w) = g_Loopers w" "g_Loopers (put_looper l y w) = g_Loopers w"
  by (simp_all add: put_handler_def put_looper_def)

lemma put_put: "put_looper l y (put_looper l z w) = put_looper l y w"
  by (simp add: put_looper_def)

lemma emit_simps [simp]:
  "handlers (emit e w) = handlers w" "loopers (emit e w) = loopers w" "messages (emit e w) = messages w"
  "trace (emit e w) = trace w @ [e]" "g_Loopers (emit e w) = g_Loopers w"
  by (simp_all add: emit_def)

definition belongs :: "world \<Rightarrow> ptr \<Rightarrow> ptr \<Rightarrow> bool" where
  "belongs w this h \<longleftrightarrow> (\<exists>x. handlers w h = Some x \<and> fLooper x = this)"

text \<open>A locked looper and its handlers refer to each other; the looper is one of its handlers.\<close>

definition looper_ok :: "world \<Rightarrow> ptr \<Rightarrow> bool" where
  "looper_ok w this \<longleftrightarrow> this \<noteq> null \<and> handlers w null = None \<and>
     (\<exists>l. loopers w this = Some l \<and> Looper_IsLocked l \<and> distinct (fHandlers l) \<and>
        (\<forall>h. HasItem (fHandlers l) h \<longleftrightarrow> belongs w this h) \<and>
        (fPreferred l = null \<or> belongs w this (fPreferred l)))"

lemma looper_okE:
  assumes "looper_ok w this"
  obtains l where "this \<noteq> null" "handlers w null = None" "loopers w this = Some l" "Looper_IsLocked l"
    "distinct (fHandlers l)" "\<And>h. h \<in> set (fHandlers l) \<longleftrightarrow> belongs w this h"
    "fPreferred l = null \<or> belongs w this (fPreferred l)"
  using assms by (auto simp: looper_ok_def)

lemma AddHandler_ok:
  assumes ok: "looper_ok w this" and self: "belongs w this this" and h: "handlers w h = Some x" "fLooper x = null"
  shows "Looper_AddHandler w this h = Inr (put_handler h (x\<lparr>fLooper := this, fNextHandler := this\<rparr>)
      (put_looper this ((the (loopers w this))\<lparr>fHandlers := snd (AddItem (fHandlers (the (loopers w this))) h)\<rparr>) w)) \<and>
    looper_ok (put_handler h (x\<lparr>fLooper := this, fNextHandler := this\<rparr>)
      (put_looper this ((the (loopers w this))\<lparr>fHandlers := snd (AddItem (fHandlers (the (loopers w this))) h)\<rparr>) w)) this"
proof -
  obtain l where l: "this \<noteq> null" "handlers w null = None" "loopers w this = Some l" "Looper_IsLocked l"
    "distinct (fHandlers l)" "\<And>h. h \<in> set (fHandlers l) \<longleftrightarrow> belongs w this h"
    "fPreferred l = null \<or> belongs w this (fPreferred l)" by (rule looper_okE [OF ok]) (rule that)
  have ne: "h \<noteq> null" using h l(2) by (cases "h = null") auto
  have nt: "h \<noteq> this" using h l(1) self by (auto simp: belongs_def)
  have nin: "\<not> HasItem (fHandlers l) h" using l(1,6) h by (auto simp: belongs_def)
  let ?l = "l\<lparr>fHandlers := snd (AddItem (fHandlers l) h)\<rparr>"
  let ?w = "put_handler h (x\<lparr>fLooper := this, fNextHandler := this\<rparr>) (put_looper this ?l w)"
  obtain y where y: "handlers w this = Some y" "fLooper y = this" using self by (auto simp: belongs_def)
  have "Looper_AddHandler w this h = Inr ?w"
    using l h ne nt y by (simp add: Looper_AddHandler_def AssertLocked_def Handler_Looper_def SetLooper_def
      SetNextHandler_def Let_def) (simp add: Looper_IsLocked_def put_handler_def)
  moreover have "looper_ok ?w this"
  proof -
    have "distinct (fHandlers ?l)" using bl.distinct_add [OF nin l(5)] by simp
    moreover have "HasItem (fHandlers ?l) k \<longleftrightarrow> belongs ?w this k" for k
      using bl.has_add [of "fHandlers l" h k] l(6) [of k] by (auto simp: belongs_def)
    ultimately show ?thesis using l ne by (auto simp: looper_ok_def Looper_IsLocked_def belongs_def)
  qed
  ultimately show ?thesis using l(3) by simp
qed

lemma RemoveHandler_ok:
  assumes ok: "looper_ok w this" and h: "belongs w this h"
  shows "\<exists>w' x'. Looper_RemoveHandler w this h = Inr (True, w') \<and> handlers w' h = Some x' \<and> fLooper x' = null \<and>
    fNextHandler x' = null \<and> looper_ok w' this \<and> \<not> belongs w' this h \<and> (\<forall>k. k \<noteq> h \<longrightarrow> handlers w' k = handlers w k) \<and>
    messages w' = messages w \<and> g_Loopers w' = g_Loopers w"
proof -
  obtain l where l: "this \<noteq> null" "handlers w null = None" "loopers w this = Some l" "Looper_IsLocked l"
    "distinct (fHandlers l)" "\<And>h. h \<in> set (fHandlers l) \<longleftrightarrow> belongs w this h"
    "fPreferred l = null \<or> belongs w this (fPreferred l)" by (rule looper_okE [OF ok]) (rule that)
  obtain x where x: "handlers w h = Some x" "fLooper x = this" using h by (auto simp: belongs_def)
  have ne: "h \<noteq> null" using x l(2) by (cases "h = null") auto
  let ?l = "l\<lparr>fHandlers := snd (RemoveItem (fHandlers l) h), fPreferred := if h = fPreferred l then null else fPreferred l\<rparr>"
  let ?x = "x\<lparr>fNextHandler := null, fLooper := null\<rparr>"
  let ?w = "put_handler h ?x (put_looper this ?l w)"
  have rem: "fst (RemoveItem (fHandlers l) h)" using l(6) h by (simp add: bl.remove_result)
  have "Looper_RemoveHandler w this h = Inr (True, ?w)"
    using l(1-4) x ne rem by (simp add: Looper_RemoveHandler_def AssertLocked_def Handler_Looper_def SetLooper_def
      SetNextHandler_def Let_def) (simp add: Looper_IsLocked_def put_handler_def)
  moreover have "looper_ok ?w this"
  proof -
    have "distinct (fHandlers ?l)" using bl.distinct_remove [OF l(5), of h] by simp
    moreover have "HasItem (fHandlers ?l) k \<longleftrightarrow> belongs ?w this k" for k
      using bl.has_remove [OF l(5), of h k] l(1) l(6) [of k] by (auto simp: belongs_def)
    ultimately show ?thesis using l ne by (auto simp: looper_ok_def Looper_IsLocked_def belongs_def)
  qed
  ultimately show ?thesis using l(1) by (intro exI [of _ ?w] exI [of _ ?x]) (auto simp: belongs_def)
qed

section \<open>Draining the queue\<close>

text \<open>The handler that gets a message (null: dropped), and what happens for it.\<close>

definition goes_to :: "(ptr \<Rightarrow> handler option) \<Rightarrow> ptr \<Rightarrow> ptr \<Rightarrow> message \<Rightarrow> ptr" where
  "goes_to hs this preferred msg =
     (if get_handler msg = null then (if preferred = null then this else preferred)
      else case hs (get_handler msg) of None \<Rightarrow> null | Some x \<Rightarrow> if fLooper x = this then get_handler msg else null)"

definition asks_quit :: "(ptr \<Rightarrow> handler option) \<Rightarrow> ptr \<Rightarrow> ptr \<Rightarrow> message \<Rightarrow> bool" where
  "asks_quit hs this preferred msg \<longleftrightarrow> what msg = B_QUIT_REQUESTED \<and> goes_to hs this preferred msg = this"

definition effects :: "(ptr \<Rightarrow> handler option) \<Rightarrow> ptr \<Rightarrow> ptr \<Rightarrow> (ptr \<Rightarrow> ptr \<Rightarrow> event list) \<Rightarrow> ptr \<Rightarrow> message \<Rightarrow> event list" where
  "effects hs this preferred out m msg =
     (let t = goes_to hs this preferred msg
      in (if t = null then [] else Dispatched m t # (if asks_quit hs this preferred msg then [] else out t m)) @ [Deleted m])"

fun until_update :: "(ptr \<Rightarrow> message option) \<Rightarrow> ptr list \<Rightarrow> ptr list" where
  "until_update ms [] = []"
| "until_update ms (m # q) = m # (if map_option what (ms m) = Some UPDATE_IF_NEEDED then [] else until_update ms q)"

definition reachable_message :: "world \<Rightarrow> ptr \<Rightarrow> bool" where
  "reachable_message w m \<longleftrightarrow> m \<noteq> null \<and>
     (\<exists>msg. messages w m = Some msg \<and> (get_handler msg = null \<or> handlers w (get_handler msg) \<noteq> None))"

lemma until_update_prefix: "\<exists>rest. q = until_update ms q @ rest"
  by (induction q) auto

lemma until_update_cong: "(\<And>m. m \<in> set q \<Longrightarrow> ms m = ms' m) \<Longrightarrow> until_update ms q = until_update ms' q"
  by (induction q) auto

lemma goes_to_belongs:
  assumes "belongs w this this" "preferred = null \<or> belongs w this preferred" "goes_to (handlers w) this preferred msg \<noteq> null"
  shows "belongs w this (goes_to (handlers w) this preferred msg)"
  using assms by (auto simp: goes_to_def belongs_def split: option.splits if_splits)

lemma target_of_eq:
  assumes "reachable_message w m" "messages w m = Some msg"
  shows "target_of w this l msg = Inr (goes_to (handlers w) this (fPreferred l) msg)"
  using assms by (auto simp: reachable_message_def target_of_def goes_to_def Handler_Looper_def)

lemma terminating_swap: "l\<lparr>fTerminating := b, fLastMessage := a\<rparr> = l\<lparr>fLastMessage := a, fTerminating := b\<rparr>"
  by (cases l) simp

lemma process_one_eq:
  assumes m: "reachable_message w m" "messages w m = Some msg"
    and l: "loopers w this = Some l" "fLastMessage l = m" "this \<noteq> null"
    and b: "belongs w this this" "fPreferred l = null \<or> belongs w this (fPreferred l)"
    and r: "\<And>t m w. received t m w = Inr (w\<lparr>trace := trace w @ out t m\<rparr>)"
  shows "process_one received quit w this m = Inr (what msg = UPDATE_IF_NEEDED,
    w\<lparr>messages := (messages w)(m := None),
      loopers := (loopers w)(this := Some (l\<lparr>fLastMessage := null,
        fTerminating := fTerminating l \<or> quit \<and> asks_quit (handlers w) this (fPreferred l) msg\<rparr>)),
      trace := trace w @ effects (handlers w) this (fPreferred l) out m msg\<rparr>)"
proof -
  let ?t = "goes_to (handlers w) this (fPreferred l) msg"
  have ne: "m \<noteq> null" using m by (simp add: reachable_message_def)
  have t: "target_of w this l msg = Inr ?t" by (rule target_of_eq [OF m])
  show ?thesis
  proof (cases "?t = null")
    case True
    then have "\<not> asks_quit (handlers w) this (fPreferred l) msg" using l(3) by (simp add: asks_quit_def)
    then show ?thesis using m l t True ne
      by (simp add: process_one_def effects_def delete_message_def put_looper_def emit_def)
  next
    case False
    have "belongs w this ?t" by (rule goes_to_belongs [OF b False])
    then obtain x where x: "handlers w ?t = Some x" "fLooper x = this" by (auto simp: belongs_def)
    then show ?thesis using m l t False ne r
      by (auto simp: process_one_def effects_def asks_quit_def delete_message_def put_looper_def emit_def
        Handler_Looper_def DispatchMessage_def Let_def terminating_swap intro!: world.equality)
  qed
qed

text \<open>The store after the messages \<open>done\<close> were processed and \<open>rest\<close> is left in the queue.\<close>

definition drained :: "bool \<Rightarrow> (ptr \<Rightarrow> ptr \<Rightarrow> event list) \<Rightarrow> world \<Rightarrow> ptr \<Rightarrow> looper \<Rightarrow> ptr list \<Rightarrow> ptr list \<Rightarrow> world" where
  "drained quit out w this l gone rest =
     w\<lparr>messages := (\<lambda>m. if m \<in> set gone then None else messages w m),
       loopers := (loopers w)(this := Some (l\<lparr>fQueue := rest, fLastMessage := null,
         fTerminating := fTerminating l \<or> quit \<and>
           (\<exists>m\<in>set gone. asks_quit (handlers w) this (fPreferred l) (the (messages w m)))\<rparr>)),
       trace := trace w @ concat (map (\<lambda>m. effects (handlers w) this (fPreferred l) out m (the (messages w m))) gone)\<rparr>"

lemma drained_Cons:
  assumes "m \<notin> set gone" "messages w m = Some msg"
  shows "drained quit out (w\<lparr>messages := (messages w)(m := None),
      loopers := (loopers w)(this := Some (l\<lparr>fQueue := q, fLastMessage := null,
        fTerminating := fTerminating l \<or> quit \<and> asks_quit (handlers w) this (fPreferred l) msg\<rparr>)),
      trace := trace w @ effects (handlers w) this (fPreferred l) out m msg\<rparr>) this
    (l\<lparr>fQueue := q, fLastMessage := null,
        fTerminating := fTerminating l \<or> quit \<and> asks_quit (handlers w) this (fPreferred l) msg\<rparr>) gone rest =
    drained quit out w this l (m # gone) rest"
proof -
  have k: "(if k = m then None else messages w k) = messages w k" if "k \<in> set gone" for k
    using assms(1) that by auto
  have e: "map (\<lambda>k. effects (handlers w) this (fPreferred l) out k (the (if k = m then None else messages w k))) gone =
        map (\<lambda>k. effects (handlers w) this (fPreferred l) out k (the (messages w k))) gone"
    by (intro map_cong) (simp_all only: k)
  have q: "(\<exists>k\<in>set gone. asks_quit (handlers w) this (fPreferred l) (the (if k = m then None else messages w k))) \<longleftrightarrow>
        (\<exists>k\<in>set gone. asks_quit (handlers w) this (fPreferred l) (the (messages w k)))"
    by (intro bex_cong) (simp_all only: k)
  show ?thesis using assms(2)
    by (intro world.equality) (simp_all add: drained_def fun_upd_def e q disj_assoc conj_disj_distribL fun_eq_iff)
qed

lemma drain_eq:
  assumes "loopers w this = Some l" "this \<noteq> null" "length (fQueue l) < n" "distinct (fQueue l)"
    and "\<And>m. m \<in> set (fQueue l) \<Longrightarrow> reachable_message w m"
    and "belongs w this this" "fPreferred l = null \<or> belongs w this (fPreferred l)"
    and r: "\<And>t m w. received t m w = Inr (w\<lparr>trace := trace w @ out t m\<rparr>)"
  shows "drain_message_queue n received quit w this =
    Some (Inr (drained quit out w this l (until_update (messages w) (fQueue l))
      (drop (length (until_update (messages w) (fQueue l))) (fQueue l))))"
  using assms(1-7)
proof (induction n arbitrary: w l)
  case (Suc n)
  show ?case
  proof (cases "fQueue l")
    case Nil
    then show ?thesis using Suc.prems
      by (simp add: NextMessage_def Queue_IsEmpty_def put_looper_def drained_def)
  next
    case (Cons m q)
    let ?v = "put_looper this (l\<lparr>fQueue := q, fLastMessage := m\<rparr>) w"
    have rm: "reachable_message w m" using Suc.prems(5) Cons by simp
    then obtain msg where msg: "messages w m = Some msg" and m0: "m \<noteq> null" by (auto simp: reachable_message_def)
    let ?l = "l\<lparr>fQueue := q, fLastMessage := null,
        fTerminating := fTerminating l \<or> quit \<and> asks_quit (handlers w) this (fPreferred l) msg\<rparr>"
    let ?w = "w\<lparr>messages := (messages w)(m := None), loopers := (loopers w)(this := Some ?l),
      trace := trace w @ effects (handlers w) this (fPreferred l) out m msg\<rparr>"
    have next': "NextMessage (fQueue l) = Inr (m, q)"
      using Cons by (simp add: NextMessage_def Queue_IsEmpty_def take_front_def)
    have one: "process_one received quit ?v this m = Inr (what msg = UPDATE_IF_NEEDED, ?w)"
      using process_one_eq [of ?v m msg this "l\<lparr>fQueue := q, fLastMessage := m\<rparr>" received out quit]
        rm msg Suc.prems(1,2,6,7) r by (simp add: reachable_message_def belongs_def put_looper_def)
    have step: "drain_message_queue (Suc n) received quit w this =
      (if what msg = UPDATE_IF_NEEDED then Some (Inr ?w) else drain_message_queue n received quit ?w this)"
      using Suc.prems(1) next' m0 by (simp only: drain_message_queue.simps option.case sum.case prod.case Let_def one if_False)
    have dist: "m \<notin> set q" "distinct q" using Suc.prems(4) Cons by auto
    have u: "until_update (messages w) q = until_update (messages ?w) q"
      using dist(1) by (intro until_update_cong) auto
    have gone: "m \<notin> set (until_update (messages w) q)"
      using dist(1) until_update_prefix [of q "messages w"] by (metis Un_iff set_append)
    show ?thesis
    proof (cases "what msg = UPDATE_IF_NEEDED")
      case True
      have "drained quit out w this l [m] q = drained quit out ?w this ?l [] q"
        using drained_Cons [of m "[]" w msg] msg by simp
      also have "\<dots> = ?w" by (intro world.equality) (auto simp: drained_def)
      finally show ?thesis using step True Cons msg by simp
    next
      case False
      have "drain_message_queue n received quit ?w this =
        Some (Inr (drained quit out ?w this ?l (until_update (messages ?w) (fQueue ?l))
          (drop (length (until_update (messages ?w) (fQueue ?l))) (fQueue ?l))))"
      proof (rule Suc.IH)
        show "\<And>k. k \<in> set (fQueue ?l) \<Longrightarrow> reachable_message ?w k"
          using Suc.prems(5) Cons dist(1) by (auto simp: reachable_message_def)
      qed (use Suc.prems Cons dist r in \<open>auto simp: belongs_def\<close>)
      then show ?thesis using step False Cons msg u drained_Cons [OF gone msg] by simp
    qed
  qed
qed simp

section \<open>Adding and removing handlers, and the destructor\<close>

datatype handler_op = Add_handler ptr | Remove_handler ptr | Set_preferred ptr

fun handler_step :: "ptr \<Rightarrow> handler_op \<Rightarrow> world \<Rightarrow> world outcome" where
  "handler_step this (Add_handler h) w = Looper_AddHandler w this h"
| "handler_step this (Remove_handler h) w = bindR (Looper_RemoveHandler w this h) (\<lambda>(_, w). Inr w)"
| "handler_step this (Set_preferred h) w = SetPreferredHandler w this h"

fun handler_run :: "ptr \<Rightarrow> handler_op list \<Rightarrow> world \<Rightarrow> world outcome" where
  "handler_run this [] w = Inr w"
| "handler_run this (x # xs) w = bindR (handler_step this x w) (handler_run this xs)"

text \<open>The operations name live handlers or null, and do not remove the looper itself.\<close>

fun handler_op_ok :: "world \<Rightarrow> ptr \<Rightarrow> handler_op \<Rightarrow> bool" where
  "handler_op_ok w this (Add_handler h) \<longleftrightarrow> h = null \<or> handlers w h \<noteq> None"
| "handler_op_ok w this (Remove_handler h) \<longleftrightarrow> h = null \<or> (handlers w h \<noteq> None \<and> h \<noteq> this)"
| "handler_op_ok w this (Set_preferred h) \<longleftrightarrow> h = null \<or> handlers w h \<noteq> None"

definition handlers_inv :: "world \<Rightarrow> ptr \<Rightarrow> bool" where
  "handlers_inv w this \<longleftrightarrow> looper_ok w this \<and> belongs w this this"

lemma SetPreferredHandler_ok:
  assumes "looper_ok w this" "h = null \<or> handlers w h \<noteq> None"
  shows "\<exists>w'. SetPreferredHandler w this h = Inr w' \<and> looper_ok w' this \<and> handlers w' = handlers w"
proof -
  obtain l where l: "this \<noteq> null" "handlers w null = None" "loopers w this = Some l" "Looper_IsLocked l"
    "distinct (fHandlers l)" "\<And>h. h \<in> set (fHandlers l) \<longleftrightarrow> belongs w this h"
    "fPreferred l = null \<or> belongs w this (fPreferred l)" by (rule looper_okE [OF assms(1)]) (rule that)
  let ?mine = "h \<noteq> null \<and> belongs w this h \<and> 0 \<le> IndexOf (fHandlers l) h"
  let ?w = "put_looper this (l\<lparr>fPreferred := if ?mine then h else null\<rparr>) w"
  have "SetPreferredHandler w this h = Inr ?w"
    using assms(2) l by (auto simp: SetPreferredHandler_def Looper_IndexOf_def AssertLocked_def Handler_Looper_def belongs_def)
  moreover have "looper_ok ?w this" using l by (auto simp: looper_ok_def Looper_IsLocked_def belongs_def)
  ultimately show ?thesis by auto
qed

lemma handlers_inv_step:
  assumes "handlers_inv w this" "handler_op_ok w this x"
  shows "\<exists>w'. handler_step this x w = Inr w' \<and> handlers_inv w' this \<and> (\<forall>k. handlers w' k = None \<longleftrightarrow> handlers w k = None)"
proof (cases x)
  case (Add_handler h)
  show ?thesis
  proof (cases "h = null \<or> \<not> (\<exists>x. handlers w h = Some x \<and> fLooper x = null)")
    case True
    then have "handler_step this x w = Inr w" using assms Add_handler
      by (auto simp: handlers_inv_def looper_ok_def Looper_AddHandler_def AssertLocked_def Handler_Looper_def)
    then show ?thesis using assms(1) by blast
  next
    case False
    then obtain y where y: "handlers w h = Some y" "fLooper y = null" by blast
    have l: "looper_ok w this" and b: "belongs w this this" using assms(1) by (auto simp: handlers_inv_def)
    note a = AddHandler_ok [OF l b y]
    have "h \<noteq> this" using l b y by (auto simp: looper_ok_def belongs_def)
    then show ?thesis using a b y Add_handler by (auto simp: handlers_inv_def belongs_def)
  qed
next
  case (Remove_handler h)
  show ?thesis
  proof (cases "belongs w this h")
    case True
    have l: "looper_ok w this" and b: "belongs w this this" using assms(1) by (auto simp: handlers_inv_def)
    obtain w' x' where w': "Looper_RemoveHandler w this h = Inr (True, w')" "handlers w' h = Some x'" "looper_ok w' this"
      "\<forall>k. k \<noteq> h \<longrightarrow> handlers w' k = handlers w k" using RemoveHandler_ok [OF l True] by blast
    have "h \<noteq> this" using assms(2) Remove_handler True l by (auto simp: belongs_def looper_ok_def)
    then have "belongs w' this this" using b w'(4) by (auto simp: belongs_def)
    moreover have "\<forall>k. handlers w' k = None \<longleftrightarrow> handlers w k = None"
      using w'(2,4) True by (metis belongs_def option.distinct(1))
    ultimately show ?thesis using w' Remove_handler by (auto simp: handlers_inv_def)
  next
    case False
    then have "handler_step this x w = Inr w" using assms Remove_handler
      by (auto simp: handlers_inv_def looper_ok_def belongs_def Looper_RemoveHandler_def AssertLocked_def Handler_Looper_def)
    then show ?thesis using assms(1) by blast
  qed
next
  case (Set_preferred h)
  then show ?thesis using SetPreferredHandler_ok [of w this h] assms by (auto simp: handlers_inv_def belongs_def)
qed

lemma handlers_inv_run:
  "handlers_inv w this \<Longrightarrow> \<forall>x\<in>set xs. handler_op_ok w this x \<Longrightarrow>
   \<exists>w'. handler_run this xs w = Inr w' \<and> handlers_inv w' this \<and> (\<forall>k. handlers w' k = None \<longleftrightarrow> handlers w k = None)"
proof (induction xs arbitrary: w)
  case (Cons x xs)
  then obtain w1 where w1: "handler_step this x w = Inr w1" "handlers_inv w1 this"
    "\<forall>k. handlers w1 k = None \<longleftrightarrow> handlers w k = None" using handlers_inv_step [of w this x] by auto
  have same: "handler_op_ok w1 this y \<longleftrightarrow> handler_op_ok w this y" for y using w1(3) by (cases y) simp_all
  have "\<forall>y\<in>set xs. handler_op_ok w1 this y" using Cons.prems(2) by (simp add: same)
  from Cons.IH [OF w1(2) this] obtain w2 where w2: "handler_run this xs w1 = Inr w2" "handlers_inv w2 this"
    "\<forall>k. handlers w2 k = None \<longleftrightarrow> handlers w1 k = None" by blast
  have "handler_run this (x # xs) w = Inr w2" using w1(1) w2(1) by simp
  then show ?case using w1(3) w2(2,3) by blast
qed simp

lemma Looper_new_ok:
  assumes "this \<noteq> null" "handlers w null = None" "\<And>h. \<not> belongs w this h" "self \<noteq> B_ERROR"
  shows "\<exists>w'. Looper_new self w this None priority = Inr w' \<and> handlers_inv w' this \<and>
    LooperForThread w' self = this \<and> fOwner (the (loopers w' this)) = self \<and>
    (\<forall>k. handlers w' k = None \<longleftrightarrow> k \<noteq> this \<and> handlers w k = None)"
proof -
  let ?l = "\<lparr>fQueue = MessageQueue_new, fLastMessage = null, fLockSem = 0, fOwnerCount = 1, fOwner = self,
     fThread = B_ERROR, fInitPriority = priority, fPreferred = null, fHandlers = snd (AddItem [] this),
     fTerminating = False, fRunCalled = False\<rparr>"
  let ?x = "\<lparr>fName = None, fLooper = this, fNextHandler = null\<rparr>"
  let ?w = "put_handler this ?x (put_looper this ?l (w\<lparr>g_Loopers := (g_Loopers w)(self := this)\<rparr>))"
  have "Looper_new self w this None priority = Inr ?w"
    using assms by (simp add: Looper_new_def Handler_new_def SetName_def Looper_Lock_def Looper_LockWithTimeout_def
      Looper_AddHandler_def AssertLocked_def Looper_IsLocked_def Handler_Looper_def SetLooper_def SetNextHandler_def
      put_handler_def put_looper_def Let_def)
  moreover have "handlers_inv ?w this"
    using assms(1-3) by (auto simp: handlers_inv_def looper_ok_def Looper_IsLocked_def belongs_def AddItem_def HasItem_def)
  ultimately show ?thesis by (auto simp: LooperForThread_def)
qed

lemma delete_all_eq:
  "distinct q \<Longrightarrow> \<forall>m\<in>set q. heap m \<noteq> None \<Longrightarrow> delete_all q heap = Inr (\<lambda>m. if m \<in> set q then None else heap m)"
proof (induction q arbitrary: heap)
  case (Cons m q)
  have "\<forall>k\<in>set q. (heap(m := None)) k \<noteq> None" using Cons.prems by auto
  moreover have "distinct q" using Cons.prems by simp
  ultimately have "delete_all q (heap(m := None)) = Inr (\<lambda>k. if k \<in> set q then None else (heap(m := None)) k)"
    by (rule Cons.IH [rotated])
  moreover have "heap m \<noteq> None" using Cons.prems by simp
  ultimately show ?case by (auto simp: fun_eq_iff)
qed simp

definition orphaned :: "handler \<Rightarrow> handler" where
  "orphaned x = x\<lparr>fNextHandler := null, fLooper := null\<rparr>"

lemma orphan_all_eq:
  assumes "loopers w this = Some l" "Looper_IsLocked l" "this \<noteq> null"
  shows "distinct hs \<Longrightarrow> null \<notin> set hs \<Longrightarrow> \<forall>h\<in>set hs. belongs w this h \<Longrightarrow>
    orphan_all hs w = Inr (w\<lparr>handlers := \<lambda>h. if h \<in> set hs then map_option orphaned (handlers w h) else handlers w h\<rparr>)"
  using assms
proof (induction hs arbitrary: w)
  case Nil
  then show ?case by simp
next
  case (Cons h hs)
  obtain x where x: "handlers w h = Some x" "fLooper x = this" using Cons.prems(3) by (auto simp: belongs_def)
  let ?w = "w\<lparr>handlers := (handlers w)(h := Some (orphaned x))\<rparr>"
  have "orphan_all (h # hs) w = orphan_all hs ?w"
    using x Cons.prems by (simp add: SetNextHandler_def SetLooper_def put_handler_def orphaned_def)
  also have "\<dots> = Inr (?w\<lparr>handlers := \<lambda>k. if k \<in> set hs then map_option orphaned (handlers ?w k) else handlers ?w k\<rparr>)"
  proof (rule Cons.IH)
    show "\<forall>k\<in>set hs. belongs ?w this k" using Cons.prems by (auto simp: belongs_def)
  qed (use Cons.prems in auto)
  also have "\<dots> = Inr (w\<lparr>handlers := \<lambda>k. if k \<in> set (h # hs) then map_option orphaned (handlers w k) else handlers w k\<rparr>)"
    using Cons.prems(1) x by (auto intro!: world.equality)
  finally show ?case .
qed

lemma Looper_delete_ok:
  assumes inv: "handlers_inv w this" and l: "loopers w this = Some l" "fOwner l = self" "fLastMessage l = null"
    and q: "distinct (fQueue l)" "\<forall>m\<in>set (fQueue l). messages w m \<noteq> None"
    and t: "fRunCalled l \<longrightarrow> fTerminating l"
  shows "\<exists>w'. Looper_delete self w this = Some (Inr w') \<and> loopers w' this = None \<and> handlers w' this = None \<and>
    (\<forall>h. h \<noteq> this \<longrightarrow> handlers w' h = (if belongs w this h then map_option orphaned (handlers w h) else handlers w h)) \<and>
    (\<forall>m. messages w' m = (if m \<in> set (fQueue l) then None else messages w m)) \<and> g_Loopers w' = (g_Loopers w)(self := null)"
proof -
  let ?l = "l\<lparr>fOwnerCount := fOwnerCount l + 1, fLastMessage := null\<rparr>"
  let ?ms = "\<lambda>m. if m \<in> set (fQueue l) then None else messages w m"
  let ?w = "(put_looper this ?l w)\<lparr>messages := ?ms\<rparr>"
  have b: "\<And>h. belongs ?w this h \<longleftrightarrow> belongs w this h" by (simp add: belongs_def)
  have ok: "looper_ok ?w this" "belongs ?w this this" "this \<noteq> null" "handlers w null = None"
    using inv l(1) by (auto simp: handlers_inv_def looper_ok_def belongs_def Looper_IsLocked_def)
  obtain w1 x1 where w1: "Looper_RemoveHandler ?w this this = Inr (True, w1)" "handlers w1 this = Some x1"
    "looper_ok w1 this" "\<not> belongs w1 this this" "\<forall>k. k \<noteq> this \<longrightarrow> handlers w1 k = handlers ?w k"
    "messages w1 = messages ?w" "g_Loopers w1 = g_Loopers ?w"
    using RemoveHandler_ok [OF ok(1,2)] by blast
  obtain l1 where l1: "loopers w1 this = Some l1" "Looper_IsLocked l1" "distinct (fHandlers l1)"
    "\<And>h. h \<in> set (fHandlers l1) \<longleftrightarrow> belongs w1 this h" "handlers w1 null = None"
    using w1(3) by (rule looper_okE) blast
  have b1: "belongs w1 this h \<longleftrightarrow> h \<noteq> this \<and> belongs w this h" for h
    using w1(4,5) by (cases "h = this") (auto simp: belongs_def)
  have n1: "null \<notin> set (fHandlers l1)" using l1(4,5) by (auto simp: belongs_def)
  define w2 where "w2 = w1\<lparr>handlers := \<lambda>h. if h \<in> set (fHandlers l1) then map_option orphaned (handlers w1 h) else handlers w1 h\<rparr>"
  have o: "orphan_all (fHandlers l1) w1 = Inr w2"
    unfolding w2_def using l1(4) by (intro orphan_all_eq [OF l1(1,2) ok(3) l1(3) n1]) simp
  let ?w' = "w2\<lparr>g_Loopers := (g_Loopers w2)(self := null), loopers := (loopers w2)(this := None),
    handlers := (handlers w2)(this := None)\<rparr>"
  have "Looper_delete self w this = Some (Inr ?w')"
    using l t w1(1) l1(1) o delete_all_eq [OF q]
    by (simp add: Looper_delete_def Looper_Lock_def Looper_LockWithTimeout_def delete_message_def)
  moreover have "handlers ?w' h = (if belongs w this h then map_option orphaned (handlers w h) else handlers w h)" if "h \<noteq> this" for h
    using that b1 l1(4) w1(5) by (simp add: w2_def)
  ultimately show ?thesis using w1(6,7) by (simp add: w2_def)
qed

section \<open>Chains of handlers\<close>

text \<open>\<open>chain w h hs\<close>: the handlers that \<open>MessageReceived\<close> passes through from \<open>h\<close>, the last one included.\<close>

inductive chain :: "world \<Rightarrow> ptr \<Rightarrow> ptr list \<Rightarrow> bool" where
  chain_last: "handlers w h = Some x \<Longrightarrow> fNextHandler x = null \<Longrightarrow> chain w h [h]"
| chain_next: "handlers w h = Some x \<Longrightarrow> fNextHandler x \<noteq> null \<Longrightarrow> fNextHandler x \<noteq> h \<Longrightarrow>
    chain w (fNextHandler x) hs \<Longrightarrow> chain w h (h # hs)"

inductive_cases chain_Nil [elim!]: "chain w h []"

lemma MessageReceived_chain:
  "chain w h hs \<Longrightarrow> MessageReceived w h msg =
     Some (Inr (if what msg = B_MESSAGE_NOT_UNDERSTOOD then w else emit (Not_understood (last hs)) w))"
  by (induction rule: chain.induct) (subst MessageReceived.simps; auto)+

lemma MessageReceived_cycle:
  assumes "handlers w a = Some x" "handlers w b = Some y" "fNextHandler x = b" "fNextHandler y = a"
    and "a \<noteq> b" "a \<noteq> null" "b \<noteq> null"
  shows "MessageReceived w a msg = None"
proof -
  have "handlers w a = Some x \<and> handlers w b = Some y \<longrightarrow> h \<noteq> a \<and> h \<noteq> b" if "MessageReceived w h msg = Some r" for h r
    using _ that
  proof (rule MessageReceived.raw_induct
      [where P = "\<lambda>w h msg r. handlers w a = Some x \<and> handlers w b = Some y \<longrightarrow> h \<noteq> a \<and> h \<noteq> b"])
    fix f w h msg r
    assume ih: "\<And>w h msg r. f w h msg = Some r \<Longrightarrow> handlers w a = Some x \<and> handlers w b = Some y \<longrightarrow> h \<noteq> a \<and> h \<noteq> b"
      and step: "(case handlers w h of None \<Rightarrow> Some (Inl Undefined)
        | Some x \<Rightarrow>
            if fNextHandler x \<noteq> null then if fNextHandler x \<noteq> h then f w (fNextHandler x) msg else Some (Inr w)
            else if what msg \<noteq> B_MESSAGE_NOT_UNDERSTOOD then Some (Inr (emit (Not_understood h) w)) else Some (Inr w)) = Some r"
    show "handlers w a = Some x \<and> handlers w b = Some y \<longrightarrow> h \<noteq> a \<and> h \<noteq> b"
      using step ih [of w b msg r] ih [of w a msg r] assms(3-7) by (auto split: if_splits)
  qed
  then show ?thesis using assms(1,2) by (cases "MessageReceived w a msg") auto
qed

lemma belongs_not_null: "looper_ok w this \<Longrightarrow> belongs w this h \<Longrightarrow> h \<noteq> null"
  by (cases "h = null") (auto simp: looper_ok_def belongs_def)

lemma SetNextHandler_ok:
  assumes "looper_ok w this" "belongs w this a" "belongs w this b" "a \<noteq> b"
  shows "SetNextHandler w a b = Inr (put_handler a ((the (handlers w a))\<lparr>fNextHandler := b\<rparr>) w)"
  using assms belongs_not_null [OF assms(1,2)] belongs_not_null [OF assms(1,3)] by (auto simp: looper_ok_def belongs_def SetNextHandler_def Handler_Looper_def)

lemma cycle_of_two:
  assumes "looper_ok w this" "belongs w this a" "belongs w this b" "a \<noteq> b"
  shows "\<exists>w1 w2. SetNextHandler w a b = Inr w1 \<and> SetNextHandler w1 b a = Inr w2 \<and> MessageReceived w2 a msg = None"
proof -
  obtain x y where x: "handlers w a = Some x" "fLooper x = this" and y: "handlers w b = Some y" "fLooper y = this"
    using assms(2,3) by (auto simp: belongs_def)
  have ne: "a \<noteq> null" "b \<noteq> null" using assms(2,3) belongs_not_null [OF assms(1)] by auto
  let ?w1 = "put_handler a (x\<lparr>fNextHandler := b\<rparr>) w"
  let ?w2 = "put_handler b (y\<lparr>fNextHandler := a\<rparr>) ?w1"
  have 1: "SetNextHandler w a b = Inr ?w1" using SetNextHandler_ok [OF assms] x by simp
  have "looper_ok ?w1 this" using assms(1) x ne by (auto simp: looper_ok_def belongs_def)
  moreover have "belongs ?w1 this a" "belongs ?w1 this b" using x y assms(4) by (auto simp: belongs_def)
  ultimately have 2: "SetNextHandler ?w1 b a = Inr ?w2"
    using SetNextHandler_ok [of ?w1 this b a] y assms(4) by auto
  have "MessageReceived ?w2 a msg = None"
    using MessageReceived_cycle [of ?w2 a "x\<lparr>fNextHandler := b\<rparr>" b "y\<lparr>fNextHandler := a\<rparr>" msg] assms(4) ne by simp
  then show ?thesis using 1 2 by blast
qed

text \<open>A looper whose thread is about to take the lock.\<close>

definition ready :: "thread \<Rightarrow> looper \<Rightarrow> bool" where
  "ready self l \<longleftrightarrow> fOwner l \<noteq> self \<and> fOwnerCount l = 0 \<and> fLockSem l = 1 \<and> fRunCalled l \<and> fLastMessage l = null"

lemma until_update_all: "\<forall>m\<in>set q. map_option what (ms m) \<noteq> Some UPDATE_IF_NEEDED \<Longrightarrow> until_update ms q = q"
  by (induction q) auto

lemma task_looper_quits:
  assumes inv: "handlers_inv (put_looper this (l\<lparr>fLockSem := 0, fOwner := self, fOwnerCount := 1\<rparr>) w) this"
    and l: "ready self l" "self \<noteq> B_ERROR" "\<not> fTerminating l" "distinct (fQueue l)" "length (fQueue l) < k"
    and q: "\<forall>m\<in>set (fQueue l). reachable_message w m"
    and u: "\<forall>m\<in>set (fQueue l). map_option what (messages w m) \<noteq> Some UPDATE_IF_NEEDED"
    and quit: "\<exists>m\<in>set (fQueue l). asks_quit (handlers w) this (fPreferred l) (the (messages w m))"
    and r: "\<And>t m w. received t m w = Inr (w\<lparr>trace := trace w @ out t m\<rparr>)"
  shows "task_looper (Suc (Suc n)) k self (\<lambda>w. w) received True
      (put_looper this (l\<lparr>fLockSem := 0, fOwner := self, fOwnerCount := 1\<rparr>) w) this =
    Some (Inr (drained True out w this (l\<lparr>fLockSem := 0, fOwner := self, fOwnerCount := 1\<rparr>) (fQueue l) []))"
proof -
  let ?l1 = "l\<lparr>fLockSem := 0, fOwner := self, fOwnerCount := 1\<rparr>"
  let ?w1 = "put_looper this ?l1 w"
  let ?l0 = "l\<lparr>fLockSem := Suc 0, fOwner := B_ERROR, fOwnerCount := 0\<rparr>"
  have one: "dec64 (Suc 0) = 0" by (simp add: dec64_def)
  have un: "Looper_Unlock self ?l1 = ?l0" using l(1)
    by (auto simp: Looper_Unlock_def one ready_def Let_def intro!: looper.equality)
  have lock: "Looper_Lock self B_OK ?l0 = Some (True, ?l1)" using l(2)
    by (auto simp: Looper_Lock_def Looper_LockWithTimeout_def intro!: looper.equality)
  have ok: "this \<noteq> null" "belongs ?w1 this this" "fPreferred ?l1 = null \<or> belongs ?w1 this (fPreferred ?l1)"
    using inv by (auto simp: handlers_inv_def looper_ok_def)
  have d: "drain_message_queue k received True ?w1 this = Some (Inr (drained True out ?w1 this ?l1 (fQueue l) []))"
    using drain_eq [of ?w1 this ?l1 k received out True] ok l q r until_update_all [OF u] by (simp add: reachable_message_def)
  have same: "drained True out ?w1 this ?l1 (fQueue l) [] = drained True out w this ?l1 (fQueue l) []"
    by (intro world.equality) (simp_all add: drained_def cong: if_cong)
  obtain l2 where l2: "loopers (drained True out w this ?l1 (fQueue l) []) this = Some l2" "fTerminating l2"
    using quit by (auto simp: drained_def)
  show ?thesis using l(3) un lock d same l2
    by (simp add: task_looper_def Looper_IsLocked_def put_put)
qed

lemma task0_quits:
  assumes inv: "handlers_inv (put_looper this (l\<lparr>fLockSem := 0, fOwner := self, fOwnerCount := 1\<rparr>) w) this"
    and l: "loopers w this = Some l" "ready self l" "self \<noteq> B_ERROR" "\<not> fTerminating l" "distinct (fQueue l)" "length (fQueue l) < k"
    and q: "\<forall>m\<in>set (fQueue l). reachable_message w m"
    and u: "\<forall>m\<in>set (fQueue l). map_option what (messages w m) \<noteq> Some UPDATE_IF_NEEDED"
    and quit: "\<exists>m\<in>set (fQueue l). asks_quit (handlers w) this (fPreferred l) (the (messages w m))"
    and r: "\<And>t m w. received t m w = Inr (w\<lparr>trace := trace w @ out t m\<rparr>)"
  shows "\<exists>w'. task0 (Suc (Suc n)) k self (\<lambda>w. w) received True w this = Some (Inr (B_OK, w')) \<and>
    loopers w' this = None \<and> (\<forall>m\<in>set (fQueue l). messages w' m = None) \<and>
    (\<forall>h. h \<noteq> this \<longrightarrow> handlers w' h = (if belongs w this h then map_option orphaned (handlers w h) else handlers w h)) \<and>
    (\<forall>t. LooperForThread w' t = (if t = self then null else LooperForThread w t))"
proof -
  let ?l1 = "l\<lparr>fLockSem := 0, fOwner := self, fOwnerCount := 1\<rparr>"
  have lock: "Looper_Lock self B_OK l = Some (True, ?l1)" using l(2)
    by (auto simp: ready_def Looper_Lock_def Looper_LockWithTimeout_def)
  define v where "v = drained True out w this ?l1 (fQueue l) []"
  have t: "task_looper (Suc (Suc n)) k self (\<lambda>w. w) received True (put_looper this ?l1 w) this = Some (Inr v)"
    unfolding v_def by (rule task_looper_quits [OF inv l(2-6) q u quit r])
  obtain l2 where l2: "loopers v this = Some l2" "fOwner l2 = self" "fLastMessage l2 = null" "fQueue l2 = []" "fTerminating l2"
    using quit by (auto simp: v_def drained_def)
  have hv: "handlers v = handlers w" "g_Loopers v = g_Loopers w" by (simp_all add: v_def drained_def)
  have "handlers_inv v this" using inv
    by (auto simp: handlers_inv_def looper_ok_def v_def drained_def belongs_def Looper_IsLocked_def)
  then obtain w' where w': "Looper_delete self v this = Some (Inr w')" "loopers w' this = None"
    "\<forall>h. h \<noteq> this \<longrightarrow> handlers w' h = (if belongs v this h then map_option orphaned (handlers v h) else handlers v h)"
    "\<forall>m. messages w' m = messages v m" "g_Loopers w' = (g_Loopers v)(self := null)"
    using Looper_delete_ok [of v this l2 self] l2 by auto
  have "task0 (Suc (Suc n)) k self (\<lambda>w. w) received True w this = Some (Inr (B_OK, w'))"
    using l(1) lock t w'(1) by (simp add: task0_def)
  moreover have "\<forall>m\<in>set (fQueue l). messages w' m = None" using w'(4) by (simp add: v_def drained_def)
  ultimately show ?thesis using w'(2,3,5) hv by (auto simp: belongs_def LooperForThread_def)
qed

text \<open>A concrete store, for the witnesses: looper 1, its handler 2, a handler 3 of another looper, a
  handler 4 without a looper, and three messages.\<close>

definition sample_handler :: "ptr \<Rightarrow> handler" where
  "sample_handler l = \<lparr>fName = None, fLooper = l, fNextHandler = null\<rparr>"

definition sample_looper :: "bool \<Rightarrow> looper" where
  "sample_looper rc = \<lparr>fQueue = [10, 11, 12], fLastMessage = null, fLockSem = 0, fOwnerCount = 1, fOwner = 7, fThread = 7,
     fInitPriority = 10, fPreferred = null, fHandlers = [1, 2], fTerminating = False, fRunCalled = rc\<rparr>"

definition sample_world :: "looper \<Rightarrow> world" where
  "sample_world l = \<lparr>handlers = [1 \<mapsto> sample_handler 1, 2 \<mapsto> sample_handler 1, 3 \<mapsto> sample_handler 9, 4 \<mapsto> sample_handler 0],
     loopers = [1 \<mapsto> l],
     messages = [10 \<mapsto> set_handler (Message_new 5) 2, 11 \<mapsto> set_handler (Message_new 6) 3,
       12 \<mapsto> set_handler (Message_new B_QUIT_REQUESTED) 0],
     g_Loopers = (\<lambda>_. null), trace = []\<rparr>"

lemmas sample = sample_handler_def sample_looper_def sample_world_def

lemma sample_inv: "0 < fOwnerCount l \<Longrightarrow> fHandlers l = [1, 2] \<Longrightarrow> fPreferred l = null \<Longrightarrow> handlers_inv (sample_world l) 1"
  by (auto simp: handlers_inv_def looper_ok_def Looper_IsLocked_def belongs_def sample HasItem_def split: if_splits)

lemma sample_messages: "m \<in> {10, 11, 12} \<Longrightarrow> reachable_message (sample_world l) m"
  by (auto simp: reachable_message_def sample set_handler_def get_handler_def Message_new_def)

section \<open>Properties\<close>

text \<open>C10. A looper and its handlers stay consistent: from the constructor on, any sequence of
  \<open>AddHandler\<close>, \<open>RemoveHandler\<close> (of others than the looper) and \<open>SetPreferredHandler\<close> on live handlers
  under the lock ends without a debugger call, and then the list of the looper has no duplicates and
  holds exactly the handlers whose looper it is, and the preferred handler is null or one of them.\<close>

theorem looper_handlers_invariant:
  assumes "this \<noteq> null" "handlers w null = None" "\<And>h. \<not> belongs w this h" "self \<noteq> B_ERROR"
    and "\<forall>x\<in>set xs. handler_op_ok (put_handler this y w) this x"
  shows "\<exists>w1 w2. Looper_new self w this None priority = Inr w1 \<and> handler_run this xs w1 = Inr w2 \<and> handlers_inv w2 this"
proof -
  obtain w1 where w1: "Looper_new self w this None priority = Inr w1" "handlers_inv w1 this"
    "\<forall>k. handlers w1 k = None \<longleftrightarrow> k \<noteq> this \<and> handlers w k = None" using Looper_new_ok [OF assms(1-4)] by blast
  have "handler_op_ok w1 this x \<longleftrightarrow> handler_op_ok (put_handler this y w) this x" for x
    using w1(3) by (cases x) simp_all
  then have "\<forall>x\<in>set xs. handler_op_ok w1 this x" using assms(5) by simp
  then show ?thesis using handlers_inv_run [OF w1(2)] w1(1) by blast
qed

lemma looper_handlers_invariant_witness:
  "\<exists>w1 w2. Looper_new 7 \<lparr>handlers = [2 \<mapsto> \<lparr>fName = None, fLooper = null, fNextHandler = null\<rparr>], loopers = Map.empty,
      messages = Map.empty, g_Loopers = (\<lambda>_. null), trace = []\<rparr> 1 None 10 = Inr w1 \<and>
    handler_run 1 [Add_handler 2, Set_preferred 2, Remove_handler 2, Add_handler 2] w1 = Inr w2 \<and> handlers_inv w2 1"
  by (rule looper_handlers_invariant [where y = undefined]) (auto simp: belongs_def B_ERROR_def put_handler_def)

text \<open>C11. \<open>_drain_message_queue\<close> with handlers that only write to the trace: the messages are
  processed in the order of the queue, up to and with the first \<open>_UPDATE_IF_NEEDED_\<close>; each is
  dispatched to its own handler, or the preferred one, or the looper, or dropped when its handler
  belongs elsewhere, and is deleted once; the rest stays queued; the looper terminates exactly if it was
  terminating or agreed to a \<open>B_QUIT_REQUESTED\<close> sent to itself.\<close>

theorem drain_processes_in_order:
  assumes "handlers_inv w this" "loopers w this = Some l" "distinct (fQueue l)" "length (fQueue l) < n"
    and "\<forall>m\<in>set (fQueue l). reachable_message w m"
    and "\<And>t m w. received t m w = Inr (w\<lparr>trace := trace w @ out t m\<rparr>)"
  shows "\<exists>w' l' gone. drain_message_queue n received quit w this = Some (Inr w') \<and> loopers w' this = Some l' \<and>
    gone = until_update (messages w) (fQueue l) \<and> gone @ fQueue l' = fQueue l \<and>
    trace w' = trace w @ concat (map (\<lambda>m. effects (handlers w) this (fPreferred l) out m (the (messages w m))) gone) \<and>
    messages w' = (\<lambda>m. if m \<in> set gone then None else messages w m) \<and> fLastMessage l' = null \<and>
    (fTerminating l' \<longleftrightarrow> fTerminating l \<or> quit \<and> (\<exists>m\<in>set gone. asks_quit (handlers w) this (fPreferred l) (the (messages w m))))"
proof -
  have ok: "this \<noteq> null" "belongs w this this" "fPreferred l = null \<or> belongs w this (fPreferred l)"
    using assms(1,2) by (auto simp: handlers_inv_def looper_ok_def)
  let ?g = "until_update (messages w) (fQueue l)"
  have "drain_message_queue n received quit w this = Some (Inr (drained quit out w this l ?g (drop (length ?g) (fQueue l))))"
    using assms(5) by (intro drain_eq [OF assms(2) ok(1) assms(4,3) _ ok(2,3) assms(6)]) simp
  moreover have "?g @ drop (length ?g) (fQueue l) = fQueue l"
    using until_update_prefix [of "fQueue l" "messages w"] by (metis append_eq_conv_conj)
  ultimately show ?thesis by (auto simp: drained_def)
qed

lemma drain_processes_in_order_witness:
  "\<exists>w'. drain_message_queue 5 (\<lambda>t m w. Inr (w\<lparr>trace := trace w @ [Not_understood t]\<rparr>)) True
     (sample_world (sample_looper True)) 1 = Some (Inr w') \<and>
   trace w' = [Dispatched 10 2, Not_understood 2, Deleted 10, Deleted 11, Dispatched 12 1, Deleted 12]"
  using drain_processes_in_order [OF sample_inv, of "sample_looper True" "sample_looper True" 5
      "\<lambda>t m w. Inr (w\<lparr>trace := trace w @ [Not_understood t]\<rparr>)" "\<lambda>t m. [Not_understood t]" True]
    sample_messages [of _ "sample_looper True"]
  by (auto simp: sample effects_def asks_quit_def goes_to_def set_handler_def get_handler_def Message_new_def
    message_codes)

text \<open>C12. The thread of a looper ends: when a \<open>B_QUIT_REQUESTED\<close> for the looper that it agrees to is
  in the queue and nothing asks for a repaint, \<open>_task0_\<close> returns \<open>B_OK\<close> in two rounds of its loop, the
  looper is gone, every message of the queue (those behind the request too) was deleted, and every
  handler of the looper was released. The entry that the constructor made for the creating thread is
  not the one the destructor erases: it stays, for a looper that no longer exists.\<close>

theorem looper_thread_ends:
  assumes "handlers_inv (put_looper this (l\<lparr>fLockSem := 0, fOwner := self, fOwnerCount := 1\<rparr>) w) this"
    and "loopers w this = Some l" "ready self l" "self \<noteq> B_ERROR" "\<not> fTerminating l" "distinct (fQueue l)" "length (fQueue l) < k"
    and "\<forall>m\<in>set (fQueue l). reachable_message w m"
    and "\<forall>m\<in>set (fQueue l). map_option what (messages w m) \<noteq> Some UPDATE_IF_NEEDED"
    and "\<exists>m\<in>set (fQueue l). asks_quit (handlers w) this (fPreferred l) (the (messages w m))"
    and "\<And>t m w. received t m w = Inr (w\<lparr>trace := trace w @ out t m\<rparr>)"
    and "LooperForThread w creator = this" "creator \<noteq> self"
  shows "\<exists>w'. task0 (Suc (Suc n)) k self (\<lambda>w. w) received True w this = Some (Inr (B_OK, w')) \<and>
    loopers w' this = None \<and> (\<forall>m\<in>set (fQueue l). messages w' m = None) \<and>
    (\<forall>h. h \<noteq> this \<longrightarrow> handlers w' h = (if belongs w this h then map_option orphaned (handlers w h) else handlers w h)) \<and>
    LooperForThread w' self = null \<and> LooperForThread w' creator = this"
proof -
  have "\<exists>w'. task0 (Suc (Suc n)) k self (\<lambda>w. w) received True w this = Some (Inr (B_OK, w')) \<and>
    loopers w' this = None \<and> (\<forall>m\<in>set (fQueue l). messages w' m = None) \<and>
    (\<forall>h. h \<noteq> this \<longrightarrow> handlers w' h = (if belongs w this h then map_option orphaned (handlers w h) else handlers w h)) \<and>
    (\<forall>t. LooperForThread w' t = (if t = self then null else LooperForThread w t))"
    by (rule task0_quits [OF assms(1-10)]) (rule assms(11))
  then show ?thesis using assms(12,13) by metis
qed

lemma looper_thread_ends_witness:
  "\<exists>w'. task0 (Suc (Suc 0)) 4 7 (\<lambda>w. w) (\<lambda>t m w. Inr w) True
     ((sample_world ((sample_looper True)\<lparr>fLockSem := 1, fOwner := B_ERROR, fOwnerCount := 0\<rparr>))\<lparr>g_Loopers := (\<lambda>_. null)(5 := 1)\<rparr>) 1 =
     Some (Inr (B_OK, w')) \<and> loopers w' 1 = None \<and> LooperForThread w' 5 = 1"
proof -
  let ?l = "(sample_looper True)\<lparr>fLockSem := 1, fOwner := B_ERROR, fOwnerCount := 0\<rparr>"
  let ?w = "(sample_world ?l)\<lparr>g_Loopers := (\<lambda>_. null)(5 := 1)\<rparr>"
  have inv: "handlers_inv (put_looper 1 (?l\<lparr>fLockSem := 0, fOwner := 7, fOwnerCount := 1\<rparr>) ?w) 1"
    by (auto simp: handlers_inv_def looper_ok_def Looper_IsLocked_def belongs_def sample HasItem_def put_looper_def split: if_splits)
  have q: "\<forall>m\<in>set (fQueue ?l). reachable_message ?w m"
    by (auto simp: reachable_message_def sample set_handler_def get_handler_def Message_new_def)
  have l: "loopers ?w 1 = Some ?l" "ready 7 ?l" "(7::int) \<noteq> B_ERROR" "\<not> fTerminating ?l" "distinct (fQueue ?l)" "length (fQueue ?l) < 4"
    by (simp_all add: sample ready_def B_ERROR_def)
  have u: "\<forall>m\<in>set (fQueue ?l). map_option what (messages ?w m) \<noteq> Some UPDATE_IF_NEEDED"
    by (simp add: sample set_handler_def Message_new_def message_codes)
  have quit: "\<exists>m\<in>set (fQueue ?l). asks_quit (handlers ?w) 1 (fPreferred ?l) (the (messages ?w m))"
    by (simp add: sample set_handler_def get_handler_def Message_new_def asks_quit_def goes_to_def)
  have "\<exists>w'. task0 (Suc (Suc 0)) 4 7 (\<lambda>w. w) (\<lambda>t m w. Inr w) True ?w 1 = Some (Inr (B_OK, w')) \<and>
    loopers w' 1 = None \<and> (\<forall>m\<in>set (fQueue ?l). messages w' m = None) \<and>
    (\<forall>h. h \<noteq> 1 \<longrightarrow> handlers w' h = (if belongs ?w 1 h then map_option orphaned (handlers ?w h) else handlers ?w h)) \<and>
    LooperForThread w' 7 = null \<and> LooperForThread w' 5 = 1"
    by (rule looper_thread_ends [OF inv l q u quit, where out = "\<lambda>t m. []"]) (simp_all add: LooperForThread_def)
  then show ?thesis by blast
qed

text \<open>\<open>Quit\<close> by the thread that holds the lock: a looper that was never run is deleted and its
  handlers released; in the looper's own thread, where the documentation promises that the loop stops,
  it ends in the debugger call of the destructor, since nothing sets \<open>fTerminating\<close> on that path.\<close>

lemma Quit_by_owner:
  assumes "handlers_inv w this" "loopers w this = Some l" "fOwner l = self" "fLastMessage l = null"
    and "distinct (fQueue l)" "\<forall>m\<in>set (fQueue l). messages w m \<noteq> None"
  shows "(\<not> fRunCalled l \<longrightarrow> (\<exists>w'. Quit self ack has_data sent w this = Some (Inr w') \<and> loopers w' this = None \<and>
      (\<forall>h. h \<noteq> this \<longrightarrow> handlers w' h = (if belongs w this h then map_option orphaned (handlers w h) else handlers w h)))) \<and>
    (fRunCalled l \<and> fThread l = self \<and> \<not> fTerminating l \<longrightarrow> Quit self ack has_data sent w this = Some (Inl Debugger))"
proof -
  have locked: "Looper_IsLocked l" using assms(1,2) by (auto simp: handlers_inv_def looper_ok_def)
  let ?l = "l\<lparr>fOwnerCount := fOwnerCount l + 1\<rparr>"
  have lock: "Looper_Lock self ack l = Some (True, ?l)"
    using assms(3) by (simp add: Looper_Lock_def Looper_LockWithTimeout_def)
  let ?v = "put_looper this (?l\<lparr>fTerminating := True\<rparr>) w"
  have "handlers_inv ?v this" using assms(1,2)
    by (auto simp: handlers_inv_def looper_ok_def belongs_def Looper_IsLocked_def)
  then have "\<exists>w'. Looper_delete self ?v this = Some (Inr w') \<and> loopers w' this = None \<and>
      (\<forall>h. h \<noteq> this \<longrightarrow> handlers w' h = (if belongs ?v this h then map_option orphaned (handlers ?v h) else handlers ?v h))"
    using Looper_delete_ok [of ?v this "?l\<lparr>fTerminating := True\<rparr>" self] assms(3-6) by auto
  then have "\<not> fRunCalled l \<Longrightarrow> \<exists>w'. Quit self ack has_data sent w this = Some (Inr w') \<and> loopers w' this = None \<and>
      (\<forall>h. h \<noteq> this \<longrightarrow> handlers w' h = (if belongs w this h then map_option orphaned (handlers w h) else handlers w h))"
    using locked lock assms(2) by (simp add: Quit_def belongs_def cong: if_cong)
  moreover have "Quit self ack has_data sent w this = Some (Inl Debugger)"
    if "fRunCalled l \<and> fThread l = self \<and> \<not> fTerminating l"
    using that locked lock assms(2) by (simp add: Quit_def Looper_delete_def)
  ultimately show ?thesis by blast
qed

text \<open>A message that no handler of a finite chain overrides is reported once, by the last handler,
  and never when it already is the reply that says so. \<open>SetNextHandler\<close> only refuses a handler as its own
  successor: two handlers of a looper can be made to follow each other, and then the default
  \<open>MessageReceived\<close> calls itself for ever.\<close>

lemma MessageReceived_along_chain:
  assumes "chain w h hs" "looper_ok w this" "belongs w this a" "belongs w this b" "a \<noteq> b"
  shows "MessageReceived w h msg =
      Some (Inr (if what msg = B_MESSAGE_NOT_UNDERSTOOD then w else emit (Not_understood (last hs)) w)) \<and>
    (\<exists>w1 w2. SetNextHandler w a b = Inr w1 \<and> SetNextHandler w1 b a = Inr w2 \<and> MessageReceived w2 a msg = None)"
  using MessageReceived_chain [OF assms(1)] cycle_of_two [OF assms(2-5)] by blast

end
