(* ===== verification/Messenger.thy ===== *)
theory Messenger
  imports Looper
begin

text \<open>
  \<open>BMessenger\<close> and \<open>BInvoker\<close> of \<open>kits/app/Messenger.cpp\<close> and \<open>kits/app/Invoker.cpp\<close>, over the store of the
  theory Looper. What a delivery depends on besides the store is the record \<open>delivery\<close>: the calling
  thread, the allocator, the results of the two kernel calls of \<open>PostMessage\<close>, \<open>be_app_messenger\<close>, the
  address that a posted copy gets and the handlers' \<open>MessageReceived\<close>.
\<close>

section \<open>\<open>BMessenger\<close>\<close>

record messenger =
  mStatus :: status
  mHandler :: ptr
  mLooper :: ptr
  mTeam :: int

record delivery =
  d_self :: thread
  d_alloc :: "nat \<Rightarrow> bool"
  d_has_data :: bool
  d_sent :: status
  d_be_app :: messenger
  d_new :: ptr
  d_received :: "ptr \<Rightarrow> ptr \<Rightarrow> world \<Rightarrow> world outcome"

text \<open>The default constructor leaves the status and the team as they are in memory.\<close>

definition Messenger_new :: "status \<Rightarrow> int \<Rightarrow> messenger" where
  "Messenger_new status_in_memory team_in_memory =
     \<lparr>mStatus = status_in_memory, mHandler = null, mLooper = null, mTeam = team_in_memory\<rparr>"

definition Messenger_mime :: "messenger outcome" where
  "Messenger_mime = Inl Debugger"

definition Messenger_for :: "world \<Rightarrow> ptr \<Rightarrow> ptr \<Rightarrow> messenger outcome" where
  "Messenger_for w h l =
     (let this = \<lparr>mStatus = B_NO_INIT, mHandler = h, mLooper = l, mTeam = - 1\<rparr>;
          this = (if h = null \<and> l = null then this\<lparr>mStatus := B_BAD_VALUE\<rparr> else this);
          this = this\<lparr>mStatus := B_OK\<rparr>
      in if h \<noteq> null \<and> l \<noteq> null
         then bindR (Handler_Looper w h) (\<lambda>hl. Inr (if hl \<noteq> l then this\<lparr>mStatus := B_MISMATCHED_VALUES\<rparr> else this))
         else Inr this)"

definition Messenger_eq :: "messenger \<Rightarrow> messenger \<Rightarrow> bool" where
  "Messenger_eq this other \<longleftrightarrow> mStatus this = mStatus other \<and> mHandler this = mHandler other \<and>
     mLooper this = mLooper other \<and> mTeam this = mTeam other"

definition IsValid :: "messenger \<Rightarrow> bool" where
  "IsValid this \<longleftrightarrow> mStatus this = B_OK"

definition IsTargetLocal :: "messenger \<Rightarrow> bool" where
  "IsTargetLocal this \<longleftrightarrow> mTeam this < 0"

text \<open>The handler, and what is stored through the pointer argument.\<close>

definition Target :: "messenger \<Rightarrow> ptr \<times> ptr" where
  "Target this = (if \<not> IsValid this \<or> \<not> IsTargetLocal this then (null, null) else (mHandler this, mLooper this))"

definition target_looper :: "world \<Rightarrow> messenger \<Rightarrow> ptr outcome" where
  "target_looper w this = (if mLooper this = null then Handler_Looper w (mHandler this) else Inr (mLooper this))"

definition LockTargetWithTimeout ::
  "thread \<Rightarrow> status \<Rightarrow> world \<Rightarrow> messenger \<Rightarrow> (status \<times> world) outcome option" where
  "LockTargetWithTimeout self ack w this =
     (if IsValid this \<and> IsTargetLocal this then
        (case target_looper w this of
           Inl e \<Rightarrow> Some (Inl e)
         | Inr l \<Rightarrow>
             if l = null then Some (Inr (B_BAD_VALUE, w))
             else (case loopers w l of
                     None \<Rightarrow> Some (Inl Undefined)
                   | Some x \<Rightarrow> map_option (\<lambda>(st, x'). Inr (st, put_looper l x' w)) (Looper_LockWithTimeout self ack x)))
      else Some (Inr (B_BAD_VALUE, w)))"

definition LockTarget :: "thread \<Rightarrow> status \<Rightarrow> world \<Rightarrow> messenger \<Rightarrow> (bool \<times> world) outcome option" where
  "LockTarget self ack w this =
     (if IsValid this \<and> IsTargetLocal this then
        (case target_looper w this of
           Inl e \<Rightarrow> Some (Inl e)
         | Inr l \<Rightarrow>
             if l = null then Some (Inr (False, w))
             else (case loopers w l of
                     None \<Rightarrow> Some (Inl Undefined)
                   | Some x \<Rightarrow> map_option (\<lambda>(b, x'). Inr (b, put_looper l x' w)) (Looper_Lock self ack x)))
      else Some (Inr (False, w)))"

definition SendMessage :: "delivery \<Rightarrow> world \<Rightarrow> messenger \<Rightarrow> ptr \<Rightarrow> messenger \<Rightarrow> (status \<times> world) outcome" where
  "SendMessage d w this m ans =
     (if mStatus this \<noteq> B_OK then Inr (mStatus this, w)
      else if m = null then Inr (B_BAD_VALUE, w)
      else if IsTargetLocal this then
        (let (h, l) = Target this
         in if h \<noteq> null then
              bindR (alive (handlers w h)) (\<lambda>_. bindR (d_received d h m w) (\<lambda>w. Inr (B_OK, w)))
            else if l \<noteq> null then
              (let r = fst (Target ans);
                   r = (if r = null then fst (Target (d_be_app d)) else r)
               in PostMessage_to (d_alloc d) (d_self d) (d_has_data d) (d_sent d) w l (d_new d) (messages w m) null r)
            else Inr (B_BAD_PORT_ID, w))
      else Inl Debugger)"

definition SendMessage_handler :: "delivery \<Rightarrow> world \<Rightarrow> messenger \<Rightarrow> ptr \<Rightarrow> ptr \<Rightarrow> (status \<times> world) outcome" where
  "SendMessage_handler d w this m ans =
     (if m \<noteq> null then bindR (Messenger_for w ans null) (\<lambda>r. SendMessage d w this m r)
      else Inr (B_BAD_VALUE, w))"

text \<open>A command is sent as a message of the caller's frame, which is gone afterwards.\<close>

definition SendMessage_command :: "delivery \<Rightarrow> world \<Rightarrow> messenger \<Rightarrow> ptr \<Rightarrow> 32 word \<Rightarrow> ptr \<Rightarrow> (status \<times> world) outcome" where
  "SendMessage_command d w this frame command ans =
     bindR (SendMessage_handler d (w\<lparr>messages := (messages w)(frame := Some (Message_new command))\<rparr>) this frame ans)
       (\<lambda>(st, w). Inr (st, w\<lparr>messages := (messages w)(frame := None)\<rparr>))"

definition SendMessage_synchronous :: "status outcome" where
  "SendMessage_synchronous = Inl Debugger"

section \<open>\<open>BInvoker\<close>\<close>

record invoker =
  iMessage :: ptr
  iMessenger :: messenger
  iReplyTo :: ptr
  iTimeout :: int
  iNotifyKind :: "32 word"

definition B_CONTROL_INVOKED :: "32 word" where "B_CONTROL_INVOKED = 0x4349564B"

definition Invoker_new :: "status \<Rightarrow> int \<Rightarrow> invoker" where
  "Invoker_new status_in_memory team_in_memory =
     \<lparr>iMessage = null, iMessenger = Messenger_new status_in_memory team_in_memory, iReplyTo = null,
      iTimeout = B_INFINITE_TIMEOUT, iNotifyKind = 0\<rparr>"

definition Invoker_for :: "world \<Rightarrow> ptr \<Rightarrow> ptr \<Rightarrow> ptr \<Rightarrow> invoker outcome" where
  "Invoker_for w m h l =
     bindR (Messenger_for w h l) (\<lambda>ms. Inr \<lparr>iMessage = m, iMessenger = ms, iReplyTo = null,
       iTimeout = B_INFINITE_TIMEOUT, iNotifyKind = 0\<rparr>)"

definition Invoker_messenger :: "ptr \<Rightarrow> messenger \<Rightarrow> invoker" where
  "Invoker_messenger m target =
     \<lparr>iMessage = m, iMessenger = target, iReplyTo = null, iTimeout = B_INFINITE_TIMEOUT, iNotifyKind = 0\<rparr>"

definition Invoker_delete :: "world \<Rightarrow> invoker \<Rightarrow> world outcome" where
  "Invoker_delete w this = delete_message (iMessage this) w"

definition SetMessage :: "world \<Rightarrow> invoker \<Rightarrow> ptr \<Rightarrow> (status \<times> invoker \<times> world) outcome" where
  "SetMessage w this m =
     (let current_message = iMessage this; this = this\<lparr>iMessage := m\<rparr>
      in bindR (if current_message \<noteq> null then delete_message current_message w else Inr w)
           (\<lambda>w. Inr (B_OK, this, w)))"

definition Invoker_Message :: "invoker \<Rightarrow> ptr" where
  "Invoker_Message this = iMessage this"

definition Command :: "world \<Rightarrow> invoker \<Rightarrow> 32 word outcome" where
  "Command w this = (if iMessage this \<noteq> null then bindR (alive (messages w (iMessage this))) (\<lambda>m. Inr (what m)) else Inr 0)"

definition SetTarget :: "world \<Rightarrow> invoker \<Rightarrow> ptr \<Rightarrow> ptr \<Rightarrow> (status \<times> invoker) outcome" where
  "SetTarget w this h l =
     (if h = null then Inr (B_BAD_VALUE, this)
      else bindR (Handler_Looper w h) (\<lambda>hl.
        if hl = null then Inr (B_BAD_VALUE, this)
        else if l \<noteq> null \<and> hl \<noteq> l then Inr (B_MISMATCHED_VALUES, this)
        else bindR (Messenger_for w h l) (\<lambda>ms. Inr (B_OK, this\<lparr>iMessenger := ms\<rparr>))))"

definition SetTarget_messenger :: "invoker \<Rightarrow> messenger \<Rightarrow> status \<times> invoker" where
  "SetTarget_messenger this ms = (B_OK, this\<lparr>iMessenger := ms\<rparr>)"

definition Invoker_IsTargetLocal :: "invoker \<Rightarrow> bool" where
  "Invoker_IsTargetLocal this = IsTargetLocal (iMessenger this)"

definition Invoker_Target :: "invoker \<Rightarrow> ptr \<times> ptr" where
  "Invoker_Target this = Target (iMessenger this)"

definition Invoker_Messenger :: "invoker \<Rightarrow> messenger" where
  "Invoker_Messenger this = iMessenger this"

definition SetHandlerForReply :: "invoker \<Rightarrow> ptr \<Rightarrow> status \<times> invoker" where
  "SetHandlerForReply this h = (B_OK, this\<lparr>iReplyTo := h\<rparr>)"

definition HandlerForReply :: "invoker \<Rightarrow> ptr" where
  "HandlerForReply this = iReplyTo this"

definition Invoke :: "delivery \<Rightarrow> world \<Rightarrow> invoker \<Rightarrow> ptr \<Rightarrow> (status \<times> world) outcome" where
  "Invoke d w this msg =
     (let msg = (if msg = null then iMessage this else msg)
      in if msg = null then Inr (B_BAD_VALUE, w)
         else SendMessage_handler d w (iMessenger this) (iMessage this) (iReplyTo this))"

definition BeginInvokeNotify :: "invoker \<Rightarrow> 32 word \<Rightarrow> invoker" where
  "BeginInvokeNotify this kind = this\<lparr>iNotifyKind := kind\<rparr>"

definition EndInvokeNotify :: "invoker \<Rightarrow> invoker" where
  "EndInvokeNotify this = this\<lparr>iNotifyKind := 0\<rparr>"

definition InvokeNotify ::
  "delivery \<Rightarrow> world \<Rightarrow> invoker \<Rightarrow> ptr \<Rightarrow> 32 word \<Rightarrow> (status \<times> invoker \<times> world) outcome" where
  "InvokeNotify d w this msg kind =
     (if iNotifyKind this \<noteq> 0 then Inr (B_WOULD_BLOCK, this, w)
      else
        let this = BeginInvokeNotify this kind
        in bindR (if msg \<noteq> null then Invoke d w this msg else Inr (B_BAD_VALUE, w)) (\<lambda>(err, w).
           bindR (if IsValid (iMessenger this) then
                    (let h = fst (Target (iMessenger this))
                     in if h \<noteq> null then
                          bindR (alive (handlers w h)) (\<lambda>_. if IsWatched then bindR SendNotices (\<lambda>_. Inr w) else Inr w)
                        else Inr w)
                  else Inr w) (\<lambda>w.
           Inr (err, EndInvokeNotify this, w))))"

definition SetTimeout :: "invoker \<Rightarrow> int \<Rightarrow> status \<times> invoker" where
  "SetTimeout this timeout = (B_OK, this\<lparr>iTimeout := timeout\<rparr>)"

definition Timeout :: "invoker \<Rightarrow> int" where
  "Timeout this = iTimeout this"

text \<open>The kind, and what is stored through the pointer argument.\<close>

definition InvokeKind :: "invoker \<Rightarrow> 32 word \<times> bool" where
  "InvokeKind this = (if iNotifyKind this \<noteq> 0 then iNotifyKind this else B_CONTROL_INVOKED, iNotifyKind this \<noteq> 0)"

section \<open>Properties\<close>

lemma post_copy:
  assumes l: "loopers w l = Some x" and m: "messages w m = Some msg" "message_ok msg" "\<forall>n\<in>set (nodes msg). sizes_ok n"
    and a: "\<forall>k. alloc k" "new \<noteq> null"
  shows "\<exists>st w' c. PostMessage_to alloc self has_data sent w l new (messages w m) null r = Inr (st, w') \<and>
    loopers w' l = Some (x\<lparr>fQueue := fQueue x @ [new]\<rparr>) \<and> messages w' = (messages w)(new := Some c) \<and>
    what c = what msg \<and> nodes c = nodes msg \<and> get_handler c = null \<and> get_reply_handler c = r"
proof -
  obtain c where c: "Message_copy alloc msg = Inr c" "what c = what msg" "nodes c = nodes msg"
    using Message_copy_ok [OF m(2,3) a(1)] by blast
  let ?c = "set_reply_handler (set_handler c null) r"
  have n: "nodes ?c = nodes msg" "what ?c = what msg" "get_handler ?c = null" "get_reply_handler ?c = r"
    using c by (simp_all add: set_handler_def set_reply_handler_def get_handler_def get_reply_handler_def nodes_def)
  have "\<exists>st w'. PostMessage_to alloc self has_data sent w l new (messages w m) null r = Inr (st, w') \<and>
      loopers w' l = Some (x\<lparr>fQueue := fQueue x @ [new]\<rparr>) \<and> messages w' = (messages w)(new := Some ?c)"
    using l m(1) a(2) c(1) by (simp add: PostMessage_to_def PostMessage_ptr_def put_looper_def emit_def Queue_AddMessage_def Let_def)
  then show ?thesis using n by blast
qed

text \<open>What \<open>SendMessage\<close> of a new messenger does: with a handler the handler runs at once in
  the sending thread, whether or not its looper is locked; with only a looper a copy of the message,
  for the preferred handler, with the reply handler, is appended to its queue, and the message itself
  stays; with a handler of another looper nothing is delivered and the status is
  \<open>B_MISMATCHED_VALUES\<close>; with neither, the status that should be \<open>B_BAD_VALUE\<close> has been overwritten by
  \<open>B_OK\<close>: \<open>IsValid\<close> holds, \<open>SendMessage\<close> reports \<open>B_BAD_PORT_ID\<close> and \<open>LockTarget\<close> dereferences null.\<close>

lemma SendMessage_by_target:
  assumes msg: "m \<noteq> null" "messages w m = Some msg" "message_ok msg" "\<forall>n\<in>set (nodes msg). sizes_ok n"
    and d: "\<forall>k. d_alloc d k" "d_new d \<noteq> null" and null: "handlers w null = None"
    and h: "handlers w h = Some x" and l: "loopers w l = Some y" "l \<noteq> null" "fLooper x \<noteq> l"
    and r: "handlers w r = Some z"
  shows "(\<exists>ms. Messenger_for w h null = Inr ms \<and> IsValid ms \<and>
      SendMessage_handler d w ms m r = bindR (d_received d h m w) (\<lambda>w. Inr (B_OK, w))) \<and>
    (\<exists>ms st w' c. Messenger_for w null l = Inr ms \<and> IsValid ms \<and> SendMessage_handler d w ms m r = Inr (st, w') \<and>
      loopers w' l = Some (y\<lparr>fQueue := fQueue y @ [d_new d]\<rparr>) \<and> messages w' = (messages w)(d_new d := Some c) \<and>
      what c = what msg \<and> nodes c = nodes msg \<and> get_handler c = null \<and> get_reply_handler c = r) \<and>
    (\<exists>ms. Messenger_for w h l = Inr ms \<and> \<not> IsValid ms \<and> SendMessage_handler d w ms m r = Inr (B_MISMATCHED_VALUES, w)) \<and>
    (\<exists>ms. Messenger_for w null null = Inr ms \<and> IsValid ms \<and> SendMessage_handler d w ms m r = Inr (B_BAD_PORT_ID, w) \<and>
      LockTarget self ack w ms = Some (Inl Undefined))"
proof -
  have ne: "h \<noteq> null" "r \<noteq> null" using h r null by (metis option.distinct(1))+
  let ?ms = "\<lambda>h l. \<lparr>mStatus = B_OK, mHandler = h, mLooper = l, mTeam = - 1\<rparr>"
  have mf: "Messenger_for w h null = Inr (?ms h null)" "Messenger_for w null l = Inr (?ms null l)"
    "Messenger_for w null null = Inr (?ms null null)" "Messenger_for w r null = Inr (?ms r null)"
    "Messenger_for w h l = Inr ((?ms h l)\<lparr>mStatus := B_MISMATCHED_VALUES\<rparr>)"
    using ne l h by (simp_all add: Messenger_for_def Handler_Looper_def)
  have ok: "B_MISMATCHED_VALUES \<noteq> B_OK" by (simp add: B_MISMATCHED_VALUES_def B_GENERAL_ERROR_BASE_def B_OK_def)
  note s = SendMessage_handler_def SendMessage_def IsValid_def IsTargetLocal_def Target_def
  have "\<exists>st w' c. SendMessage_handler d w (?ms null l) m r = Inr (st, w') \<and>
      loopers w' l = Some (y\<lparr>fQueue := fQueue y @ [d_new d]\<rparr>) \<and> messages w' = (messages w)(d_new d := Some c) \<and>
      what c = what msg \<and> nodes c = nodes msg \<and> get_handler c = null \<and> get_reply_handler c = r"
    using post_copy [OF l(1) msg(2-4) d, of "d_self d" "d_has_data d" "d_sent d" r] msg(1) mf(4) ne(2) l(2) by (simp add: s)
  moreover have "SendMessage_handler d w (?ms h null) m r = bindR (d_received d h m w) (\<lambda>w. Inr (B_OK, w))"
    using h msg(1) mf(4) ne by (simp add: s)
  ultimately show ?thesis using mf msg(1) null ok
    by (simp add: s LockTarget_def target_looper_def Handler_Looper_def)
qed

text \<open>\<open>Invoke\<close> with a message sends the invoker's own message, whatever the argument, and without one
  of its own it reports \<open>B_BAD_VALUE\<close> and sends nothing; \<open>InvokeNotify\<close> refuses to nest, and otherwise
  sends what \<open>Invoke\<close> sends and leaves the kind at 0; without a message it sends nothing, even when the
  invoker has one.\<close>

lemma Invoke_sends_own_message:
  assumes "msg \<noteq> null" "msg' \<noteq> null" "kind \<noteq> 0" "iNotifyKind this = 0"
    and target: "\<And>st v. Invoke d w this msg = Inr (st, v) \<Longrightarrow> mHandler (iMessenger this) = null \<or> handlers v (mHandler (iMessenger this)) \<noteq> None"
    and live: "mHandler (iMessenger this) = null \<or> handlers w (mHandler (iMessenger this)) \<noteq> None"
  shows "Invoke d w this msg = Invoke d w this msg' \<and>
    (iMessage this = null \<longrightarrow> Invoke d w this msg = Inr (B_BAD_VALUE, w)) \<and>
    InvokeNotify d w this msg kind = bindR (Invoke d w this msg) (\<lambda>(st, v). Inr (st, this, v)) \<and>
    InvokeNotify d w this null kind = Inr (B_BAD_VALUE, this, w) \<and>
    (\<forall>k. InvokeNotify d w (BeginInvokeNotify this kind) msg k = Inr (B_WOULD_BLOCK, BeginInvokeNotify this kind, w))"
proof -
  have e: "EndInvokeNotify (BeginInvokeNotify this kind) = this"
    using assms(4) by (simp add: EndInvokeNotify_def BeginInvokeNotify_def)
  have i: "Invoke d w (BeginInvokeNotify this kind) msg = Invoke d w this msg"
    by (simp add: Invoke_def BeginInvokeNotify_def)
  have ms: "iMessenger (BeginInvokeNotify this kind) = iMessenger this" by (simp add: BeginInvokeNotify_def)
  have t: "fst (Target (iMessenger this)) = null \<or> fst (Target (iMessenger this)) = mHandler (iMessenger this)"
    by (simp add: Target_def)
  have "InvokeNotify d w this msg kind = bindR (Invoke d w this msg) (\<lambda>(st, v). Inr (st, this, v))"
  proof (cases "Invoke d w this msg")
    case (Inr p)
    then show ?thesis using assms(1,4) target [of "fst p" "snd p"] t e i ms
      by (cases p) (auto simp: InvokeNotify_def Let_def IsWatched_def)
  qed (use assms(1,4) i in \<open>simp add: InvokeNotify_def Let_def\<close>)
  moreover have "InvokeNotify d w this null kind = Inr (B_BAD_VALUE, this, w)"
    using assms(4) live t e ms by (auto simp: InvokeNotify_def Let_def IsWatched_def)
  moreover have "InvokeNotify d w (BeginInvokeNotify this kind) msg k = Inr (B_WOULD_BLOCK, BeginInvokeNotify this kind, w)" for k
    using assms(3) by (simp add: InvokeNotify_def BeginInvokeNotify_def)
  ultimately show ?thesis using assms(1,2) by (simp add: Invoke_def SendMessage_handler_def)
qed

end
