(* ===== verification/Path.thy ===== *)
theory Path
  imports Be_Prelude
begin

text \<open>
  \<open>BPath\<close> of \<open>kits/storage/Path.cpp\<close>. A C string is the list of its bytes without the terminator, or null
  (\<open>None\<close>). Entries, references and the kernel's name lookup are the record \<open>entries\<close>: what \<open>BEntry::SetTo\<close>,
  \<open>BEntry::GetRef\<close>, \<open>BDirectory::GetEntry\<close> and \<open>_kern_entry_ref_to_path\<close> return. The buffers on the stack have
  \<open>B_PATH_NAME_LENGTH\<close> bytes; writing past them is undefined.
\<close>

section \<open>State and environment\<close>

abbreviation slash :: byte where "slash \<equiv> 0x2F"
abbreviation dot :: byte where "dot \<equiv> 0x2E"

definition B_PATH_NAME_LENGTH :: nat where "B_PATH_NAME_LENGTH = 4096"

record path =
  p_name :: "byte list option"
  p_status :: status

record ('d, 'e, 'r) entries =
  dir_status :: "'d \<Rightarrow> status"
  dir_entry :: "'d \<Rightarrow> status \<times> 'e"
  entry_set_to :: "byte list \<Rightarrow> status \<times> 'e"
  entry_ref :: "'e \<Rightarrow> status \<times> 'r"
  ref_to_path :: "'r \<Rightarrow> status \<times> byte list"
  allocates :: "nat \<Rightarrow> bool"

definition Path_new :: path where
  "Path_new = \<lparr>p_name = None, p_status = B_NO_INIT\<rparr>"

definition Path_InitCheck :: "path \<Rightarrow> status" where
  "Path_InitCheck this = p_status this"

definition Path_Path :: "path \<Rightarrow> byte list option" where
  "Path_Path this = p_name this"

section \<open>Normal form\<close>

datatype parse_state = NoMatch | InitialSlash | OneDot | TwoDots

fun scan :: "parse_state \<Rightarrow> byte list \<Rightarrow> bool" where
  "scan st [] \<longleftrightarrow> st = OneDot \<or> st = TwoDots"
| "scan NoMatch (c # cs) \<longleftrightarrow> scan (if c = slash then InitialSlash else NoMatch) cs"
| "scan InitialSlash (c # cs) \<longleftrightarrow> (if c = slash then True else scan (if c = dot then OneDot else NoMatch) cs)"
| "scan OneDot (c # cs) \<longleftrightarrow> (if c = slash then True else scan (if c = dot then TwoDots else NoMatch) cs)"
| "scan TwoDots (c # cs) \<longleftrightarrow> (if c = slash then True else scan NoMatch cs)"

text \<open>The result and what is stored in \<open>*_error\<close>, which has the value \<open>error\<close> before.\<close>

definition MustNormalize :: "byte list option \<Rightarrow> status \<Rightarrow> bool \<times> status" where
  "MustNormalize p error =
     (case p of
        None \<Rightarrow> (False, B_BAD_VALUE)
      | Some [] \<Rightarrow> (False, B_BAD_VALUE)
      | Some (c # cs) \<Rightarrow>
          let len = int32 (int (length (c # cs)))
          in if c \<noteq> slash then (True, error)
             else if len = 1 then (False, error)
             else if len > 1 \<and> (c # cs) ! nat (len - 1) = slash then (True, error)
             else (scan NoMatch (c # cs), error))"

section \<open>Setting a path\<close>

definition SetPath :: "('d, 'e, 'r) entries \<Rightarrow> path \<Rightarrow> byte list option \<Rightarrow> status \<times> path" where
  "SetPath fs this p =
     (case p of
        None \<Rightarrow> (B_OK, this\<lparr>p_name := None\<rparr>)
      | Some s \<Rightarrow> if allocates fs (length s + 1) then (B_OK, this\<lparr>p_name := Some s\<rparr>)
                  else (B_NO_MEMORY, this\<lparr>p_name := None\<rparr>))"

definition Path_Unset :: "('d, 'e, 'r) entries \<Rightarrow> path \<Rightarrow> path" where
  "Path_Unset fs this = (snd (SetPath fs this None))\<lparr>p_status := B_NO_INIT\<rparr>"

definition SetTo_ref :: "('d, 'e, 'r) entries \<Rightarrow> path \<Rightarrow> 'r option \<Rightarrow> status \<times> path" where
  "SetTo_ref fs this ref =
     (let this = Path_Unset fs this
      in case ref of
           None \<Rightarrow> (B_BAD_VALUE, this\<lparr>p_status := B_BAD_VALUE\<rparr>)
         | Some r \<Rightarrow>
             let (st, p) = ref_to_path fs r; this = this\<lparr>p_status := st\<rparr>
             in if st \<noteq> B_OK then (st, this)
                else let (st, this) = SetPath fs this (Some p) in (st, this\<lparr>p_status := st\<rparr>))"

definition SetTo_entry :: "('d, 'e, 'r) entries \<Rightarrow> path \<Rightarrow> 'e option \<Rightarrow> status \<times> path" where
  "SetTo_entry fs this entry =
     (let this = Path_Unset fs this
      in case entry of
           None \<Rightarrow> (B_BAD_VALUE, this)
         | Some e \<Rightarrow>
             let (st, r) = entry_ref fs e; this = this\<lparr>p_status := st\<rparr>
             in if st = B_OK then (let (st, this) = SetTo_ref fs this (Some r) in (st, this\<lparr>p_status := st\<rparr>))
                else (st, this))"

definition is_absolute :: "byte list \<Rightarrow> bool" where
  "is_absolute p \<longleftrightarrow> (case p of [] \<Rightarrow> False | c # cs \<Rightarrow> c = slash)"

text \<open>
  The concatenation in the buffer. Lengths are kept in 32 bits, so that a length of \<open>2^32\<close> and more would
  pass the test and overflow the buffer.
\<close>

definition join_leaf :: "byte list \<Rightarrow> byte list option \<Rightarrow> (status + byte list) outcome" where
  "join_leaf p leaf =
     (let pathLen = uint32 (int (length p))
      in if pathLen \<ge> B_PATH_NAME_LENGTH then Inr (Inl B_NAME_TOO_LONG)
         else if length p \<ge> B_PATH_NAME_LENGTH then Inl Undefined
         else (case leaf of
             None \<Rightarrow> Inr (Inr p)
           | Some s \<Rightarrow>
               let needsSeparator = (0 < pathLen \<and> p ! (pathLen - 1) \<noteq> slash);
                   wholeLen = uint32 (int (pathLen + (if needsSeparator then 1 else 0) + length s))
               in if wholeLen \<ge> B_PATH_NAME_LENGTH then Inr (Inl B_NAME_TOO_LONG)
                  else let q = p @ (if needsSeparator then [slash] else []) @ s
                       in if length q \<ge> B_PATH_NAME_LENGTH then Inl Undefined else Inr (Inr q)))"

definition fail :: "('d, 'e, 'r) entries \<Rightarrow> path \<Rightarrow> status \<Rightarrow> status \<times> path" where
  "fail fs this error = (error, (if error \<noteq> B_OK then Path_Unset fs this else this)\<lparr>p_status := error\<rparr>)"

definition SetTo :: "('d, 'e, 'r) entries \<Rightarrow> path \<Rightarrow> byte list option \<Rightarrow> byte list option \<Rightarrow> bool \<Rightarrow> (status \<times> path) outcome" where
  "SetTo fs this p leaf normal =
     (case p of
        None \<Rightarrow> Inr (fail fs this B_BAD_VALUE)
      | Some s \<Rightarrow>
          if (case leaf of None \<Rightarrow> False | Some l \<Rightarrow> is_absolute l) then Inr (fail fs this B_BAD_VALUE)
          else
            let normal = (normal \<or> \<not> is_absolute s)
            in bindR (join_leaf s leaf) (\<lambda>r.
               case r of
                 Inl error \<Rightarrow> Inr (fail fs this error)
               | Inr newPath \<Rightarrow>
                   let (normal, error) = (if normal then (True, B_OK) else MustNormalize (Some newPath) B_OK)
                   in Inr (if error \<noteq> B_OK then fail fs this error
                           else if normal then
                             (let (error, entry) = entry_set_to fs newPath
                              in if error = B_OK then SetTo_entry fs this (Some entry) else fail fs this error)
                           else
                             (let (error, this) = SetPath fs this (Some newPath) in fail fs this error))))"

definition SetTo_dir :: "('d, 'e, 'r) entries \<Rightarrow> path \<Rightarrow> 'd option \<Rightarrow> byte list option \<Rightarrow> bool \<Rightarrow> (status \<times> path) outcome" where
  "SetTo_dir fs this dir p normal =
     (case dir of
        None \<Rightarrow> Inr (fail fs this B_BAD_VALUE)
      | Some d \<Rightarrow>
          if dir_status fs d \<noteq> B_OK then Inr (fail fs this B_BAD_VALUE)
          else
            let (error, entry) = dir_entry fs d
            in if error \<noteq> B_OK then Inr (fail fs this error)
               else
                 let (error, dirPath) = SetTo_entry fs Path_new (Some entry)
                 in if error \<noteq> B_OK then Inr (fail fs this error)
                    else bindR (SetTo fs this (Path_Path dirPath) p normal) (\<lambda>(error, this). Inr (fail fs this error)))"

definition Path_Append :: "('d, 'e, 'r) entries \<Rightarrow> path \<Rightarrow> byte list option \<Rightarrow> bool \<Rightarrow> (status \<times> path) outcome" where
  "Path_Append fs this p normal =
     (if Path_InitCheck this \<noteq> B_OK then Inr (fail fs this B_BAD_VALUE)
      else bindR (SetTo fs this (Path_Path this) p normal) (\<lambda>(error, this). Inr (fail fs this error)))"

definition Path_assign_cstr :: "('d, 'e, 'r) entries \<Rightarrow> path \<Rightarrow> byte list option \<Rightarrow> path outcome" where
  "Path_assign_cstr fs this p =
     (case p of None \<Rightarrow> Inr (Path_Unset fs this) | Some s \<Rightarrow> bindR (SetTo fs this (Some s) None False) (\<lambda>(_, this). Inr this))"

text \<open>Assigning a path to itself is the case \<open>None\<close>.\<close>

definition Path_assign :: "('d, 'e, 'r) entries \<Rightarrow> path \<Rightarrow> path option \<Rightarrow> path outcome" where
  "Path_assign fs this item = (case item of None \<Rightarrow> Inr this | Some i \<Rightarrow> Path_assign_cstr fs this (Path_Path i))"

definition Path_new_cstr :: "('d, 'e, 'r) entries \<Rightarrow> byte list option \<Rightarrow> byte list option \<Rightarrow> bool \<Rightarrow> path outcome" where
  "Path_new_cstr fs dir leaf normal = bindR (SetTo fs Path_new dir leaf normal) (\<lambda>(_, this). Inr this)"

definition Path_new_dir :: "('d, 'e, 'r) entries \<Rightarrow> 'd option \<Rightarrow> byte list option \<Rightarrow> bool \<Rightarrow> path outcome" where
  "Path_new_dir fs dir leaf normal = bindR (SetTo_dir fs Path_new dir leaf normal) (\<lambda>(_, this). Inr this)"

definition Path_copy :: "('d, 'e, 'r) entries \<Rightarrow> path \<Rightarrow> path outcome" where
  "Path_copy fs p = Path_assign fs Path_new (Some p)"

definition Path_new_entry :: "('d, 'e, 'r) entries \<Rightarrow> 'e option \<Rightarrow> path" where
  "Path_new_entry fs entry = snd (SetTo_entry fs Path_new entry)"

definition Path_new_ref :: "('d, 'e, 'r) entries \<Rightarrow> 'r option \<Rightarrow> path" where
  "Path_new_ref fs ref = snd (SetTo_ref fs Path_new ref)"

section \<open>Reading a path\<close>

text \<open>Both searches go down to the last slash, or to the first byte. Index \<open>length s\<close> is the terminator.\<close>

fun back_to_slash :: "byte list \<Rightarrow> nat \<Rightarrow> nat" where
  "back_to_slash s 0 = 0"
| "back_to_slash s (Suc k) = (if (s @ [0]) ! Suc k = slash then Suc k else back_to_slash s k)"

definition Leaf :: "path \<Rightarrow> byte list option outcome" where
  "Leaf this =
     (if Path_InitCheck this \<noteq> B_OK then Inr None
      else case p_name this of
             None \<Rightarrow> Inl Undefined
           | Some s \<Rightarrow> (let k = back_to_slash s (length s) + 1
                        in if k \<le> length s then Inr (Some (drop k s)) else Inl Undefined))"

text \<open>The second argument is the object that is set, or null.\<close>

definition GetParent :: "('d, 'e, 'r) entries \<Rightarrow> path \<Rightarrow> path option \<Rightarrow> (status \<times> path option) outcome" where
  "GetParent fs this target =
     (case target of
        None \<Rightarrow> Inr (B_BAD_VALUE, None)
      | Some t \<Rightarrow>
          if Path_InitCheck this \<noteq> B_OK then Inr (Path_InitCheck this, target)
          else (case p_name this of
             None \<Rightarrow> Inl Undefined
           | Some s \<Rightarrow>
               let n = int32 (int (length s))
               in if n = 1 then Inr (B_ENTRY_NOT_FOUND, target)
                  else if n \<le> 0 then Inl Undefined
                  else
                    let k = back_to_slash s (nat n - 1); k = (if k = 0 then 1 else k)
                    in if k \<ge> B_PATH_NAME_LENGTH then Inl Undefined
                       else bindR (SetTo fs t (Some (take k s)) None False) (\<lambda>(st, t). Inr (st, Some t))))"

definition Path_eq_cstr :: "path \<Rightarrow> byte list option \<Rightarrow> bool" where
  "Path_eq_cstr this p \<longleftrightarrow> (Path_InitCheck this \<noteq> B_OK \<and> p = None) \<or> (p_name this \<noteq> None \<and> p \<noteq> None \<and> p_name this = p)"

definition Path_eq :: "path \<Rightarrow> path \<Rightarrow> bool" where
  "Path_eq this item \<longleftrightarrow> Path_eq_cstr this (Path_Path item)"

definition Path_neq :: "path \<Rightarrow> path \<Rightarrow> bool" where
  "Path_neq this item \<longleftrightarrow> \<not> Path_eq this item"

definition Path_neq_cstr :: "path \<Rightarrow> byte list option \<Rightarrow> bool" where
  "Path_neq_cstr this p \<longleftrightarrow> \<not> Path_eq_cstr this p"

section \<open>Components\<close>

fun components :: "byte list \<Rightarrow> byte list list" where
  "components [] = [[]]"
| "components (c # cs) = (if c = slash then [] # components cs
     else case components cs of [] \<Rightarrow> [] | d # ds \<Rightarrow> (c # d) # ds)"

definition join :: "byte list list \<Rightarrow> byte list" where
  "join cs = concat (map (\<lambda>c. slash # c) cs)"

definition good_component :: "byte list \<Rightarrow> bool" where
  "good_component c \<longleftrightarrow> c \<noteq> [] \<and> c \<noteq> [dot] \<and> c \<noteq> [dot, dot] \<and> slash \<notin> set c"

fun redundant :: "byte list list \<Rightarrow> bool" where
  "redundant [] \<longleftrightarrow> False"
| "redundant [c] \<longleftrightarrow> c = [dot] \<or> c = [dot, dot]"
| "redundant (c # cs) \<longleftrightarrow> c = [] \<or> c = [dot] \<or> c = [dot, dot] \<or> redundant cs"

lemma components_not_Nil [simp]: "components s \<noteq> []"
  by (induction s) (auto split: list.splits)

lemma components_Cons: obtains d ds where "components s = d # ds"
  by (cases "components s") auto

lemma redundant_Cons:
  "redundant (c # cs) \<longleftrightarrow> c = [dot] \<or> c = [dot, dot] \<or> (cs \<noteq> [] \<and> c = []) \<or> redundant cs"
  by (cases cs) auto

text \<open>Each state of the scan has read a prefix of the current component.\<close>

lemma scan_components:
  "(scan NoMatch s \<longleftrightarrow> redundant (tl (components s))) \<and>
   (scan InitialSlash s \<longleftrightarrow> redundant (components s)) \<and>
   (scan OneDot s \<longleftrightarrow> redundant ((dot # hd (components s)) # tl (components s))) \<and>
   (scan TwoDots s \<longleftrightarrow> redundant ((dot # dot # hd (components s)) # tl (components s)))"
proof (induction s)
  case (Cons c cs)
  obtain d ds where "components cs = d # ds" by (rule components_Cons)
  then show ?case using Cons by (auto simp: redundant_Cons)
qed (simp add: redundant_Cons)

lemma components_join: "join (components s) = slash # s"
proof (induction s)
  case (Cons c cs)
  then show ?case by (auto simp: join_def split: list.splits)
qed (simp add: join_def)

lemma components_no_slash: "c \<in> set (components s) \<Longrightarrow> slash \<notin> set c"
proof (induction s arbitrary: c)
  case (Cons x cs)
  obtain d ds where d: "components cs = d # ds" by (rule components_Cons)
  then show ?case using Cons.IH [of c] Cons.IH [of d] Cons.prems by (auto split: if_splits)
qed simp

lemma components_append: "slash \<notin> set c \<Longrightarrow> components (c @ slash # s) = c # components s"
  by (induction c) auto

lemma components_last: "slash \<notin> set c \<Longrightarrow> components c = [c]"
  by (induction c) auto

lemma components_of_join:
  "\<forall>c\<in>set cs. slash \<notin> set c \<Longrightarrow> cs \<noteq> [] \<Longrightarrow> components (tl (join cs)) = cs"
proof (induction cs)
  case (Cons c cs)
  show ?case
  proof (cases cs)
    case Nil
    then show ?thesis using Cons.prems by (simp add: join_def components_last)
  next
    case (Cons d ds)
    then have "tl (join (c # cs)) = c @ slash # tl (join cs)" by (simp add: join_def)
    then show ?thesis using Cons.IH Cons.prems \<open>cs = d # ds\<close> by (simp add: components_append)
  qed
qed simp

lemma redundant_iff: "redundant cs \<longleftrightarrow> (\<exists>c\<in>set cs. c = [dot] \<or> c = [dot, dot]) \<or> (\<exists>c\<in>set (butlast cs). c = [])"
  by (induction cs rule: redundant.induct) auto

lemma last_components: 
  assumes "s \<noteq> []"
  shows "last (components s) = [] \<longleftrightarrow> last s = slash"
proof -
  obtain cs d where d: "components s = cs @ [d]" by (metis components_not_Nil rev_exhaust)
  have "slash # s = join cs @ slash # d" using components_join [of s] d by (simp add: join_def)
  then have "last s = last (slash # d)" using assms by (metis last_ConsR last_appendR list.distinct(1))
  moreover have "slash \<notin> set d" using components_no_slash [of d s] d by simp
  ultimately show ?thesis using d by (cases "d = []") (auto dest: last_in_set)
qed

lemma good_iff:
  assumes "s \<noteq> []" "last s \<noteq> slash"
  shows "\<not> redundant (components s) \<longleftrightarrow> (\<forall>c\<in>set (components s). good_component c)"
proof -
  have "(\<exists>c\<in>set (components s). c = []) \<longleftrightarrow> (\<exists>c\<in>set (butlast (components s)). c = [])"
    using last_components [OF assms(1)] assms(2)
    by (metis append_butlast_last_id components_not_Nil in_set_butlastD in_set_conv_decomp set_ConsD set_append Un_iff list.set(1) empty_iff list.set(2) insert_iff)
  then show ?thesis using components_no_slash by (auto simp: redundant_iff good_component_def)
qed

lemma MustNormalize_scan:
  assumes "length s < 2 ^ 31 - 1"
  shows "MustNormalize (Some (slash # s)) error = (s \<noteq> [] \<and> (last s = slash \<or> redundant (components s)), error)"
proof (cases s rule: rev_cases)
  case Nil
  then show ?thesis using int32_of_nat [of 1] by (simp add: MustNormalize_def)
next
  case (snoc t x)
  have "int32 (int (length (slash # s))) = int (length (slash # s))"
    using assms by (intro int32_of_nat) simp
  moreover have "(slash # s) ! (length (slash # s) - 1) = last s" using snoc by (simp add: nth_append)
  moreover have "nat (int (length (slash # s)) - 1) = length (slash # s) - 1" by simp
  ultimately show ?thesis using snoc scan_components [of s]
    by (simp add: MustNormalize_def Let_def del: of_nat_Suc of_nat_add)
qed

lemma MustNormalize_slash: "MustNormalize (Some [slash]) error = (False, error)"
  using MustNormalize_scan [of "[]"] by simp

lemma join_Nil_iff [simp]: "join cs = [] \<longleftrightarrow> cs = []"
  by (cases cs) (auto simp: join_def)

lemma MustNormalize_join:
  assumes "cs \<noteq> []" "\<forall>c\<in>set cs. good_component c" "length (join cs) < 2 ^ 31"
  shows "MustNormalize (Some (join cs)) error = (False, error)"
proof -
  obtain c ds where "cs = c # ds" using assms(1) by (cases cs) auto
  then have s: "join cs = slash # tl (join cs)" by (simp add: join_def)
  have c: "components (tl (join cs)) = cs" using assms(1,2) by (intro components_of_join) (auto simp: good_component_def)
  have l: "last cs \<in> set cs" using assms(1) by simp
  then have l0: "last cs \<noteq> []" using assms(2) by (auto simp: good_component_def)
  have ne: "tl (join cs) \<noteq> []"
  proof
    assume "tl (join cs) = []"
    then have "cs = [[]]" using c by (metis components.simps(1))
    then show False using l0 by simp
  qed
  have "last (tl (join cs)) \<noteq> slash" using last_components [OF ne] l0 by (simp only: c simp_thms)
  then have "MustNormalize (Some (slash # tl (join cs))) error = (False, error)"
    using MustNormalize_scan [of "tl (join cs)"] good_iff [OF ne] c assms(2,3) by simp
  then show ?thesis by (simp only: s [symmetric])
qed

section \<open>The last component\<close>

lemma back_to_slash_append:
  assumes "slash \<notin> set c" "k \<le> length c"
  shows "back_to_slash (s @ slash # c) (length s + k) = length s"
  using assms(2)
proof (induction k)
  case 0
  then show ?case by (cases "length s") (auto simp: nth_append)
next
  case (Suc k)
  have "(s @ slash # c @ [0]) ! (length s + Suc k) = (c @ [0]) ! k" by (simp add: nth_append)
  moreover have "c ! k \<noteq> slash" using assms(1) Suc.prems by (metis Suc_le_lessD nth_mem)
  then have "(c @ [0]) ! k \<noteq> slash" using Suc.prems by (simp add: nth_append)
  ultimately show ?case using Suc by simp
qed

lemma join_snoc: "join (cs @ [c]) = join cs @ slash # c"
  by (simp add: join_def)

lemma Leaf_join:
  assumes "slash \<notin> set c"
  shows "Leaf \<lparr>p_name = Some (join (cs @ [c])), p_status = B_OK\<rparr> = Inr (Some c)"
proof -
  have "(join cs @ slash # c @ [0]) ! Suc (length (join cs) + length c) = 0" by (simp add: nth_append)
  then have "back_to_slash (join cs @ slash # c) (Suc (length (join cs) + length c)) = length (join cs)"
    using back_to_slash_append [OF assms, of "length c" "join cs"] by simp
  then show ?thesis by (simp add: Leaf_def Path_InitCheck_def join_snoc)
qed

text \<open>A path in normal form is set as it is.\<close>

lemma SetTo_normal:
  assumes "allocates fs (length q + 1)" "join_leaf p leaf = Inr (Inr q)" "is_absolute p"
    and "MustNormalize (Some q) B_OK = (False, B_OK)" "case leaf of None \<Rightarrow> True | Some l \<Rightarrow> \<not> is_absolute l"
  shows "SetTo fs this (Some p) leaf False = Inr (B_OK, this\<lparr>p_name := Some q, p_status := B_OK\<rparr>)"
  using assms by (auto simp: SetTo_def SetPath_def fail_def split: option.splits)

lemma join_leaf_None: "length p < B_PATH_NAME_LENGTH \<Longrightarrow> join_leaf p None = Inr (Inr p)"
  by (simp add: join_leaf_def uint32_of_nat B_PATH_NAME_LENGTH_def)

lemma join_leaf_Some:
  assumes "p \<noteq> []" "length p + length l + 1 < B_PATH_NAME_LENGTH"
  shows "join_leaf p (Some l) = Inr (Inr (p @ (if last p = slash then [] else [slash]) @ l))"
proof -
  have "uint32 (int (length p)) = length p" "uint32 (int (length p + (if b then 1 else 0) + length l)) =
      length p + (if b then 1 else 0) + length l" for b
    using assms(2) by (intro uint32_of_nat, simp add: B_PATH_NAME_LENGTH_def)+
  then show ?thesis using assms
    by (simp add: join_leaf_def last_conv_nth Let_def B_PATH_NAME_LENGTH_def del: of_nat_add)
qed

text \<open>The parent of a path in normal form.\<close>

definition parent :: "byte list list \<Rightarrow> byte list" where
  "parent cs = (if cs = [] then [slash] else join cs)"

lemma parent_props:
  assumes "\<forall>c\<in>set cs. good_component c" "length (join cs) < B_PATH_NAME_LENGTH"
  shows "is_absolute (parent cs)" "MustNormalize (Some (parent cs)) B_OK = (False, B_OK)" "length (parent cs) < B_PATH_NAME_LENGTH"
proof -
  show "is_absolute (parent cs)" by (cases cs) (simp_all add: parent_def join_def is_absolute_def)
  show "MustNormalize (Some (parent cs)) B_OK = (False, B_OK)"
    using MustNormalize_join [of cs B_OK] MustNormalize_slash assms by (simp add: parent_def B_PATH_NAME_LENGTH_def)
  show "length (parent cs) < B_PATH_NAME_LENGTH" using assms(2) by (simp add: parent_def B_PATH_NAME_LENGTH_def)
qed

lemma GetParent_join:
  assumes "\<forall>d\<in>set (cs @ [c]). good_component d" "length (join (cs @ [c])) < B_PATH_NAME_LENGTH" "\<forall>n. allocates fs n"
  shows "GetParent fs \<lparr>p_name = Some (join (cs @ [c])), p_status = B_OK\<rparr> (Some t) =
    Inr (B_OK, Some (t\<lparr>p_name := Some (parent cs), p_status := B_OK\<rparr>))"
proof -
  let ?s = "join (cs @ [c])"
  have c: "slash \<notin> set c" "c \<noteq> []" using assms(1) by (auto simp: good_component_def)
  have cs: "\<forall>d\<in>set cs. good_component d" "length (join cs) < B_PATH_NAME_LENGTH" using assms(1,2) by (auto simp: join_snoc)
  have n: "int32 (int (length ?s)) = int (length ?s)"
    using assms(2) by (intro int32_of_nat) (simp add: B_PATH_NAME_LENGTH_def)
  have len: "length ?s = length (join cs) + Suc (length c)" by (simp add: join_snoc)
  have "nat (int (length ?s)) - 1 = length (join cs) + length c" using len by simp
  then have k: "back_to_slash ?s (nat (int (length ?s)) - 1) = length (join cs)"
    using back_to_slash_append [of c "length c" "join cs"] c by (simp add: join_snoc)
  have t: "take (if length (join cs) = 0 then 1 else length (join cs)) ?s = parent cs"
    using c by (simp add: join_snoc parent_def) (simp add: join_def)
  have s: "SetTo fs t (Some (parent cs)) None False = Inr (B_OK, t\<lparr>p_name := Some (parent cs), p_status := B_OK\<rparr>)"
    using parent_props [OF cs] assms(3) by (intro SetTo_normal) (simp_all add: join_leaf_None)
  have pos: "int (length ?s) \<noteq> 1" "\<not> int (length ?s) \<le> 0" using len c(2) by (cases c; simp)+
  have lt: "\<not> B_PATH_NAME_LENGTH \<le> (if length (join cs) = 0 then 1 else length (join cs))"
    using cs(2) by (simp add: B_PATH_NAME_LENGTH_def)
  show ?thesis
    unfolding GetParent_def Path_InitCheck_def using n k t s pos lt
    by (simp only: option.case path.simps Let_def if_False if_True not_True_eq_False simp_thms bindR.simps prod.case)
qed

section \<open>Properties\<close>

text \<open>C13. \<open>_MustNormalize\<close> decides normal form: for a non-empty string it answers no exactly for \<open>/\<close> and
  for the concatenations of one or more \<open>/component\<close> whose components are non-empty, contain no slash and
  are neither \<open>.\<close> nor \<open>..\<close>; it then leaves the error alone. For the empty string and null it reports
  \<open>B_BAD_VALUE\<close>.\<close>

theorem MustNormalize_decides_normal_form:
  assumes "p \<noteq> []" "length p < 2 ^ 31"
  shows "(\<not> fst (MustNormalize (Some p) error) \<longleftrightarrow>
      p = [slash] \<or> (\<exists>cs. cs \<noteq> [] \<and> (\<forall>c\<in>set cs. good_component c) \<and> p = join cs)) \<and>
    snd (MustNormalize (Some p) error) = error \<and>
    MustNormalize (Some []) error = (False, B_BAD_VALUE) \<and> MustNormalize None error = (False, B_BAD_VALUE)"
proof -
  have e: "snd (MustNormalize (Some p) error) = error"
    using assms(1) by (cases p) (simp_all add: MustNormalize_def Let_def)
  have "\<not> fst (MustNormalize (Some p) error) \<longrightarrow>
      p = [slash] \<or> (\<exists>cs. cs \<noteq> [] \<and> (\<forall>c\<in>set cs. good_component c) \<and> p = join cs)"
  proof
    assume no: "\<not> fst (MustNormalize (Some p) error)"
    obtain x s where p: "p = x # s" using assms(1) by (cases p) auto
    have x: "x = slash" using no p by (cases "x = slash") (simp_all add: MustNormalize_def Let_def)
    have "s = [] \<or> (last s \<noteq> slash \<and> \<not> redundant (components s))"
      using no MustNormalize_scan [of s error] assms(2) p x by auto
    then have "s = [] \<or> (\<forall>c\<in>set (components s). good_component c)" using good_iff by blast
    then show "p = [slash] \<or> (\<exists>cs. cs \<noteq> [] \<and> (\<forall>c\<in>set cs. good_component c) \<and> p = join cs)"
      using p x components_join [of s] components_not_Nil [of s] by metis
  qed
  moreover have "\<not> fst (MustNormalize (Some p) error)"
    if "p = [slash] \<or> (\<exists>cs. cs \<noteq> [] \<and> (\<forall>c\<in>set cs. good_component c) \<and> p = join cs)"
    using that MustNormalize_slash MustNormalize_join assms(2) by auto
  moreover have "MustNormalize (Some []) error = (False, B_BAD_VALUE)" "MustNormalize None error = (False, B_BAD_VALUE)"
    by (simp_all add: MustNormalize_def)
  ultimately show ?thesis using e by blast
qed

lemma MustNormalize_decides_normal_form_witness:
  "\<not> fst (MustNormalize (Some [slash, 0x61, slash, dot, 0x62]) B_OK) \<and>
   fst (MustNormalize (Some [slash, 0x61, slash, dot, dot]) B_OK) \<and> snd (MustNormalize (Some [slash, 0x61]) B_OK) = B_OK"
proof -
  have "[slash, 0x61, slash, dot, 0x62] = join [[0x61], [dot, 0x62]]" by (simp add: join_def)
  moreover have "\<forall>c\<in>set [[0x61], [dot, 0x62]]. good_component c" by (simp add: good_component_def)
  ultimately have 1: "\<exists>cs. cs \<noteq> [] \<and> (\<forall>c\<in>set cs. good_component c) \<and> [slash, 0x61, slash, dot, 0x62] = join cs"
    by (intro exI [of _ "[[0x61], [dot, 0x62]]"]) simp
  have 2: "fst (MustNormalize (Some [slash, 0x61, slash, dot, dot]) B_OK)"
    using int32_of_nat [of 5] by (simp add: MustNormalize_def Let_def)
  show ?thesis using 1 2 MustNormalize_decides_normal_form [of "[slash, 0x61, slash, dot, 0x62]" B_OK]
    MustNormalize_decides_normal_form [of "[slash, 0x61]" B_OK] by simp
qed

text \<open>For a path in normal form that fits the buffers, \<open>Leaf\<close> is its last component, \<open>GetParent\<close> sets
  the path without it (\<open>/\<close> at the top) without asking the file system, and appending the leaf to the
  parent gives the path back; \<open>/\<close> has no parent, and a leaf that is an absolute path is refused and unsets
  the path.\<close>

lemma Leaf_GetParent_Append:
  assumes "\<forall>d\<in>set (cs @ [c]). good_component d" "length (join (cs @ [c])) < B_PATH_NAME_LENGTH" "\<forall>n. allocates fs n"
    and "is_absolute l"
  shows "Leaf \<lparr>p_name = Some (join (cs @ [c])), p_status = B_OK\<rparr> = Inr (Some c) \<and>
    (\<exists>q. GetParent fs \<lparr>p_name = Some (join (cs @ [c])), p_status = B_OK\<rparr> (Some Path_new) = Inr (B_OK, Some q) \<and>
       Path_Path q = Some (parent cs) \<and>
       Path_Append fs q (Some c) False = Inr (B_OK, \<lparr>p_name = Some (join (cs @ [c])), p_status = B_OK\<rparr>) \<and>
       Path_Append fs q (Some l) False = Inr (B_BAD_VALUE, \<lparr>p_name = None, p_status = B_BAD_VALUE\<rparr>)) \<and>
    GetParent fs \<lparr>p_name = Some [slash], p_status = B_OK\<rparr> t = Inr (if t = None then B_BAD_VALUE else B_ENTRY_NOT_FOUND, t)"
proof -
  have c: "slash \<notin> set c" "c \<noteq> []" using assms(1) by (auto simp: good_component_def)
  have cs: "\<forall>d\<in>set cs. good_component d" "length (join cs) < B_PATH_NAME_LENGTH" using assms(1,2) by (auto simp: join_snoc)
  let ?q = "\<lparr>p_name = Some (parent cs), p_status = B_OK\<rparr>"
  have g: "GetParent fs \<lparr>p_name = Some (join (cs @ [c])), p_status = B_OK\<rparr> (Some Path_new) = Inr (B_OK, Some ?q)"
    using GetParent_join [OF assms(1-3), of Path_new] by (simp add: Path_new_def)
  have ne: "\<not> is_absolute c" using c by (cases c) (auto simp: is_absolute_def)
  have "last (join cs) \<noteq> slash" if some: "cs \<noteq> []"
  proof -
    obtain es e where e: "cs = es @ [e]" using some by (cases cs rule: rev_cases) auto
    then have "e \<noteq> []" "slash \<notin> set e" using cs(1) by (auto simp: good_component_def)
    then have "last e \<noteq> slash" by (metis last_in_set)
    then show ?thesis using \<open>e \<noteq> []\<close> by (simp add: e join_snoc)
  qed
  then have p: "parent cs @ (if last (parent cs) = slash then [] else [slash]) @ c = join (cs @ [c])"
    by (cases "cs = []") (simp_all add: parent_def join_snoc, simp add: join_def)
  have j: "join_leaf (parent cs) (Some c) = Inr (Inr (join (cs @ [c])))"
  proof (cases "cs = []")
    case True
    then have "length c + 1 < B_PATH_NAME_LENGTH" using assms(2) by (simp add: join_def)
    moreover have "uint32 (int (Suc (length c))) = Suc (length c)" "uint32 (int (length [slash])) = 1"
      using calculation by (intro uint32_of_nat, simp add: B_PATH_NAME_LENGTH_def, simp add: uint32_of_nat [of 1, simplified])
    ultimately show ?thesis using True
      by (simp add: join_leaf_def parent_def Let_def join_def B_PATH_NAME_LENGTH_def)
  next
    case False
    then have "parent cs \<noteq> []" "length (parent cs) + length c + 1 < B_PATH_NAME_LENGTH"
      using assms(2) by (simp_all add: parent_def join_snoc)
    from join_leaf_Some [OF this] show ?thesis by (simp only: p)
  qed
  have "MustNormalize (Some (join (cs @ [c]))) B_OK = (False, B_OK)"
    using MustNormalize_join [of "cs @ [c]"] assms(1,2) by (simp add: B_PATH_NAME_LENGTH_def)
  then have "SetTo fs ?q (Some (parent cs)) (Some c) False = Inr (B_OK, \<lparr>p_name = Some (join (cs @ [c])), p_status = B_OK\<rparr>)"
    using SetTo_normal [OF _ j parent_props(1) [OF cs], of fs ?q] assms(3) ne by simp
  then have a: "Path_Append fs ?q (Some c) False = Inr (B_OK, \<lparr>p_name = Some (join (cs @ [c])), p_status = B_OK\<rparr>)"
    by (simp add: Path_Append_def Path_InitCheck_def Path_Path_def fail_def)
  have ok: "B_BAD_VALUE \<noteq> B_OK" by (simp add: B_BAD_VALUE_def B_OK_def)
  have b: "Path_Append fs ?q (Some l) False = Inr (B_BAD_VALUE, \<lparr>p_name = None, p_status = B_BAD_VALUE\<rparr>)"
    using assms(4) ok by (simp add: Path_Append_def Path_InitCheck_def Path_Path_def fail_def SetTo_def Path_Unset_def SetPath_def)
  have r: "GetParent fs \<lparr>p_name = Some [slash], p_status = B_OK\<rparr> t = Inr (if t = None then B_BAD_VALUE else B_ENTRY_NOT_FOUND, t)"
    using int32_of_nat [of 1] by (cases t) (simp_all add: GetParent_def Path_InitCheck_def)
  show ?thesis using Leaf_join [OF c(1), of cs] g a b r by (simp add: Path_Path_def)
qed

end
