(* ===== verification/Float32.thy ===== *)
theory Float32
  imports Be_Prelude Complex_Main
begin

text \<open>
  The type \<open>float\<close> of the interface kit: IEEE single precision with the rounding of the hardware (to
  nearest, ties to even). A value is a rational number, an infinity or not a number. The two zeros are
  one value: nothing in the modelled code tells them apart.
\<close>

section \<open>Rounding\<close>

fun nlog2 :: "nat \<Rightarrow> nat" where
  "nlog2 n = (if n < 2 then 0 else Suc (nlog2 (n div 2)))"

declare nlog2.simps [simp del]

lemma nlog2_le: "0 < n \<Longrightarrow> 2 ^ nlog2 n \<le> n"
proof (induction n rule: nlog2.induct)
  case (1 n)
  show ?case
  proof (cases "n < 2")
    case False
    then have "2 ^ nlog2 (n div 2) \<le> n div 2" using 1 by simp
    then show ?thesis using False by (subst nlog2.simps) simp
  qed (use 1 in \<open>simp add: nlog2.simps\<close>)
qed

text \<open>The exponent of a positive number: of the number itself, or of its inverse, rounded up.\<close>

definition exponent :: "rat \<Rightarrow> int" where
  "exponent x = (if 1 \<le> x then int (nlog2 (nat \<lfloor>x\<rfloor>))
     else let m = nat \<lceil>1 / x\<rceil> in - int (if 2 ^ nlog2 m = m then nlog2 m else Suc (nlog2 m)))"

definition round_half_even :: "rat \<Rightarrow> int" where
  "round_half_even x =
     (let f = \<lfloor>x\<rfloor>; d = x - of_int f
      in if d < 1 / 2 then f else if 1 / 2 < d then f + 1 else if even f then f else f + 1)"

text \<open>The distance of neighbours: 24 digits, and not below \<open>2^-149\<close>.\<close>

definition ulp_exponent :: "rat \<Rightarrow> int" where
  "ulp_exponent x = max (exponent \<bar>x\<bar> - 23) (- 149)"

definition pow2 :: "int \<Rightarrow> rat" where
  "pow2 e = (if 0 \<le> e then 2 ^ nat e else 1 / 2 ^ nat (- e))"

datatype flt = Fin rat | Inf bool | NaN

definition round32 :: "rat \<Rightarrow> flt" where
  "round32 x =
     (if x = 0 then Fin 0
      else let u = pow2 (ulp_exponent x); y = of_int (round_half_even (x / u)) * u
           in if 2 ^ 128 \<le> \<bar>y\<bar> then Inf (y < 0) else Fin y)"

lemma round_half_even_int [simp]: "round_half_even (of_int n) = n"
  by (simp add: round_half_even_def)

lemma exponent_int:
  assumes "0 < n" "n < 2 ^ k"
  shows "0 \<le> exponent (of_int n)" "exponent (of_int n) < int k"
proof -
  have e: "exponent (of_int n) = int (nlog2 (nat n))" using assms(1) by (simp add: exponent_def)
  have "2 ^ nlog2 (nat n) \<le> nat n" using assms(1) by (intro nlog2_le) simp
  also have "\<dots> < 2 ^ k" using assms by (simp add: nat_less_iff)
  finally have "nlog2 (nat n) < k" by simp
  then show "0 \<le> exponent (of_int n)" "exponent (of_int n) < int k" using e by simp_all
qed

text \<open>Integers below \<open>2^24\<close> are exact.\<close>

definition exact :: "int \<Rightarrow> bool" where
  "exact n \<longleftrightarrow> \<bar>n\<bar> < 2 ^ 24"

lemma round32_int: 
  assumes "exact n"
  shows "round32 (of_int n) = Fin (of_int n)"
proof (cases "n = 0")
  case False
  have "\<bar>of_int n :: rat\<bar> = of_int \<bar>n\<bar>" by simp
  then have "ulp_exponent (of_int n) = max (exponent (of_int \<bar>n\<bar>) - 23) (- 149)" by (simp only: ulp_exponent_def)
  moreover have "0 \<le> exponent (of_int \<bar>n\<bar>)" "exponent (of_int \<bar>n\<bar>) < int 24"
    using exponent_int [of "\<bar>n\<bar>" 24] assms False by (simp_all add: exact_def)
  ultimately have "ulp_exponent (of_int n) \<le> 0" by simp
  then have p: "pow2 (ulp_exponent (of_int n)) = 1 / 2 ^ nat (- ulp_exponent (of_int n))" (is "_ = 1 / 2 ^ ?k")
    by (simp add: pow2_def)
  have q: "of_int n / pow2 (ulp_exponent (of_int n)) = of_int (n * 2 ^ ?k)" using p by simp
  have "\<bar>of_int n :: rat\<bar> = of_int \<bar>n\<bar>" by simp
  also have "\<dots> < of_int (2 ^ 128)" using assms by (subst of_int_less_iff) (simp add: exact_def)
  finally have "\<not> 2 ^ 128 \<le> \<bar>of_int n :: rat\<bar>" by simp
  then show ?thesis using False unfolding round32_def Let_def q round_half_even_int by (simp add: p)
qed (simp add: round32_def)

section \<open>Operations\<close>

fun fneg :: "flt \<Rightarrow> flt" where
  "fneg (Fin a) = Fin (- a)"
| "fneg (Inf s) = Inf (\<not> s)"
| "fneg NaN = NaN"

fun fadd :: "flt \<Rightarrow> flt \<Rightarrow> flt" where
  "fadd (Fin a) (Fin b) = round32 (a + b)"
| "fadd NaN b = NaN"
| "fadd a NaN = NaN"
| "fadd (Inf s) (Inf t) = (if s = t then Inf s else NaN)"
| "fadd (Inf s) (Fin b) = Inf s"
| "fadd (Fin a) (Inf t) = Inf t"

definition fsub :: "flt \<Rightarrow> flt \<Rightarrow> flt" where
  "fsub a b = fadd a (fneg b)"

text \<open>Every comparison with \<open>NaN\<close> is false.\<close>

fun fless :: "flt \<Rightarrow> flt \<Rightarrow> bool" where
  "fless (Fin a) (Fin b) \<longleftrightarrow> a < b"
| "fless (Inf s) (Fin b) \<longleftrightarrow> s"
| "fless (Fin a) (Inf t) \<longleftrightarrow> \<not> t"
| "fless (Inf s) (Inf t) \<longleftrightarrow> s \<and> \<not> t"
| "fless _ _ \<longleftrightarrow> False"

fun feq :: "flt \<Rightarrow> flt \<Rightarrow> bool" where
  "feq (Fin a) (Fin b) \<longleftrightarrow> a = b"
| "feq (Inf s) (Inf t) \<longleftrightarrow> s = t"
| "feq _ _ \<longleftrightarrow> False"

definition fle :: "flt \<Rightarrow> flt \<Rightarrow> bool" where
  "fle a b \<longleftrightarrow> fless a b \<or> feq a b"

text \<open>\<open>std::max\<close> and \<open>std::min\<close>: the first argument unless the second is really larger or smaller.\<close>

definition fmax :: "flt \<Rightarrow> flt \<Rightarrow> flt" where
  "fmax a b = (if fless a b then b else a)"

definition fmin :: "flt \<Rightarrow> flt \<Rightarrow> flt" where
  "fmin a b = (if fless b a then b else a)"

text \<open>The conversion to \<open>int32\<close> cuts the fraction off; it is undefined outside the range.\<close>

definition trunc :: "rat \<Rightarrow> int" where
  "trunc x = (if 0 \<le> x then \<lfloor>x\<rfloor> else \<lceil>x\<rceil>)"

fun to_int32 :: "flt \<Rightarrow> int outcome" where
  "to_int32 (Fin a) = (if - (2 ^ 31) \<le> trunc a \<and> trunc a < 2 ^ 31 then Inr (trunc a) else Inl Undefined)"
| "to_int32 _ = Inl Undefined"

fun fceil :: "flt \<Rightarrow> flt" where
  "fceil (Fin a) = Fin (of_int \<lceil>a\<rceil>)"
| "fceil a = a"

fun ffloor :: "flt \<Rightarrow> flt" where
  "ffloor (Fin a) = Fin (of_int \<lfloor>a\<rfloor>)"
| "ffloor a = a"

definition fint :: "int \<Rightarrow> flt" where
  "fint n = round32 (of_int n)"

section \<open>Laws\<close>

lemma fint_exact [simp]: "exact n \<Longrightarrow> fint n = Fin (of_int n)"
  by (simp add: fint_def round32_int)

lemma ffloor_fint [simp]: "exact n \<Longrightarrow> ffloor (fint n) = fint n"
  by simp

lemma fadd_int: "exact (m + n) \<Longrightarrow> fadd (Fin (of_int m)) (Fin (of_int n)) = Fin (of_int (m + n))"
  using round32_int [of "m + n"] by simp

lemma fsub_int: "exact (m - n) \<Longrightarrow> fsub (Fin (of_int m)) (Fin (of_int n)) = Fin (of_int (m - n))"
  using round32_int [of "m - n"] by (simp add: fsub_def)

lemma fle_simps [simp]: "fle (Fin a) (Fin b) \<longleftrightarrow> a \<le> b" "fle (Inf s) (Inf t) \<longleftrightarrow> s \<or> \<not> t"
  "fle (Inf s) (Fin b) \<longleftrightarrow> s" "fle (Fin a) (Inf t) \<longleftrightarrow> \<not> t" "\<not> fle NaN y" "\<not> fle x NaN"
  by (auto simp: fle_def)

lemma fle_trans: "fle a b \<Longrightarrow> fle b c \<Longrightarrow> fle a c"
  by (cases a; cases b; cases c) (auto simp: fle_def)

lemma fle_refl_iff [simp]: "fle a a \<longleftrightarrow> a \<noteq> NaN"
  by (cases a) (auto simp: fle_def)

lemma fle_antisym: "fle a b \<Longrightarrow> fle b a \<Longrightarrow> a = b"
  by (cases a; cases b) (auto simp: fle_def)

lemma not_fless: "a \<noteq> NaN \<Longrightarrow> b \<noteq> NaN \<Longrightarrow> \<not> fless a b \<longleftrightarrow> fle b a"
  by (cases a; cases b) (auto simp: fle_def)

lemma fless_iff: "a \<noteq> NaN \<Longrightarrow> b \<noteq> NaN \<Longrightarrow> fless a b \<longleftrightarrow> \<not> fle b a"
  by (cases a; cases b) auto

lemma fless_fle: "fless a b \<Longrightarrow> fle a b"
  by (simp add: fle_def)

lemma fmax_le: "a \<noteq> NaN \<Longrightarrow> b \<noteq> NaN \<Longrightarrow> fle (fmax a b) c \<longleftrightarrow> fle a c \<and> fle b c"
  by (cases a; cases b; cases c) (auto simp: fmax_def)

lemma fmin_ge: "a \<noteq> NaN \<Longrightarrow> b \<noteq> NaN \<Longrightarrow> fle c (fmin a b) \<longleftrightarrow> fle c a \<and> fle c b"
  by (cases a; cases b; cases c) (auto simp: fmin_def)

lemma fmin_le: "a \<noteq> NaN \<Longrightarrow> b \<noteq> NaN \<Longrightarrow> fle (fmin a b) c \<longleftrightarrow> fle a c \<or> fle b c"
  by (cases a; cases b; cases c) (auto simp: fmin_def)

lemma fmax_ge: "a \<noteq> NaN \<Longrightarrow> b \<noteq> NaN \<Longrightarrow> fle c (fmax a b) \<longleftrightarrow> fle c a \<or> fle c b"
  by (cases a; cases b; cases c) (auto simp: fmax_def)

lemma fmax_NaN: "a \<noteq> NaN \<Longrightarrow> b \<noteq> NaN \<Longrightarrow> fmax a b \<noteq> NaN" "a \<noteq> NaN \<Longrightarrow> b \<noteq> NaN \<Longrightarrow> fmin a b \<noteq> NaN"
  by (simp_all add: fmax_def fmin_def)

lemma trunc_int [simp]: "trunc (of_int n) = n"
  by (simp add: trunc_def)

lemma to_int32_int: "exact n \<Longrightarrow> to_int32 (Fin (of_int n)) = Inr n"
  by (auto simp: exact_def abs_less_iff)

end
