(* ===== verification/Rect.thy ===== *)
theory Rect
  imports Float32
begin

text \<open>
  \<open>BPoint\<close> and \<open>BRect\<close> of \<open>kits/interface/Point.cpp\<close>, \<open>kits/interface/Rect.cpp\<close> and the inline functions of
  their headers, over the floats of the theory Float32. A rectangle is the set of the points that it
  contains, its edges included.
\<close>

section \<open>\<open>BPoint\<close>\<close>

record point =
  pt_x :: flt
  pt_y :: flt

definition Point_new :: "flt \<Rightarrow> flt \<Rightarrow> point" where
  "Point_new X Y = \<lparr>pt_x = X, pt_y = Y\<rparr>"

definition B_ORIGIN :: point where "B_ORIGIN = Point_new (Fin 0) (Fin 0)"

definition Point_Set :: "point \<Rightarrow> flt \<Rightarrow> flt \<Rightarrow> point" where
  "Point_Set this X Y = this\<lparr>pt_x := X, pt_y := Y\<rparr>"

definition Point_neg :: "point \<Rightarrow> point" where
  "Point_neg this = Point_new (fneg (pt_x this)) (fneg (pt_y this))"

definition Point_add :: "point \<Rightarrow> point \<Rightarrow> point" where
  "Point_add this other = Point_new (fadd (pt_x this) (pt_x other)) (fadd (pt_y this) (pt_y other))"

definition Point_sub :: "point \<Rightarrow> point \<Rightarrow> point" where
  "Point_sub this other = Point_new (fsub (pt_x this) (pt_x other)) (fsub (pt_y this) (pt_y other))"

definition Point_add_assign :: "point \<Rightarrow> point \<Rightarrow> point" where
  "Point_add_assign this other = this\<lparr>pt_x := fadd (pt_x this) (pt_x other), pt_y := fadd (pt_y this) (pt_y other)\<rparr>"

definition Point_sub_assign :: "point \<Rightarrow> point \<Rightarrow> point" where
  "Point_sub_assign this other = this\<lparr>pt_x := fsub (pt_x this) (pt_x other), pt_y := fsub (pt_y this) (pt_y other)\<rparr>"

definition Point_neq :: "point \<Rightarrow> point \<Rightarrow> bool" where
  "Point_neq this other \<longleftrightarrow> \<not> feq (pt_x this) (pt_x other) \<or> \<not> feq (pt_y this) (pt_y other)"

definition Point_eq :: "point \<Rightarrow> point \<Rightarrow> bool" where
  "Point_eq this other \<longleftrightarrow> feq (pt_x this) (pt_x other) \<and> feq (pt_y this) (pt_y other)"

section \<open>\<open>BRect\<close>\<close>

record rect =
  r_left :: flt
  r_top :: flt
  r_right :: flt
  r_bottom :: flt

definition Rect_new :: rect where
  "Rect_new = \<lparr>r_left = Fin 0, r_top = Fin 0, r_right = Fin (- 1), r_bottom = Fin (- 1)\<rparr>"

definition Rect_of :: "flt \<Rightarrow> flt \<Rightarrow> flt \<Rightarrow> flt \<Rightarrow> rect" where
  "Rect_of l t r b = \<lparr>r_left = l, r_top = t, r_right = r, r_bottom = b\<rparr>"

definition Rect_points :: "point \<Rightarrow> point \<Rightarrow> rect" where
  "Rect_points leftTop rightBottom = Rect_of (pt_x leftTop) (pt_y leftTop) (pt_x rightBottom) (pt_y rightBottom)"

definition Rect_size :: "point \<Rightarrow> flt \<Rightarrow> flt \<Rightarrow> rect" where
  "Rect_size leftTop width height =
     Rect_of (pt_x leftTop) (pt_y leftTop) (fadd (pt_x leftTop) width) (fadd (pt_y leftTop) height)"

definition Rect_Set :: "rect \<Rightarrow> flt \<Rightarrow> flt \<Rightarrow> flt \<Rightarrow> flt \<Rightarrow> rect" where
  "Rect_Set this l t r b = this\<lparr>r_left := l, r_top := t, r_right := r, r_bottom := b\<rparr>"

definition LeftTop :: "rect \<Rightarrow> point" where "LeftTop this = Point_new (r_left this) (r_top this)"
definition RightBottom :: "rect \<Rightarrow> point" where "RightBottom this = Point_new (r_right this) (r_bottom this)"
definition LeftBottom :: "rect \<Rightarrow> point" where "LeftBottom this = Point_new (r_left this) (r_bottom this)"
definition RightTop :: "rect \<Rightarrow> point" where "RightTop this = Point_new (r_right this) (r_top this)"

definition SetLeftTop :: "rect \<Rightarrow> point \<Rightarrow> rect" where
  "SetLeftTop this p = this\<lparr>r_left := pt_x p, r_top := pt_y p\<rparr>"

definition SetRightBottom :: "rect \<Rightarrow> point \<Rightarrow> rect" where
  "SetRightBottom this p = this\<lparr>r_right := pt_x p, r_bottom := pt_y p\<rparr>"

definition SetLeftBottom :: "rect \<Rightarrow> point \<Rightarrow> rect" where
  "SetLeftBottom this p = this\<lparr>r_left := pt_x p, r_bottom := pt_y p\<rparr>"

definition SetRightTop :: "rect \<Rightarrow> point \<Rightarrow> rect" where
  "SetRightTop this p = this\<lparr>r_right := pt_x p, r_top := pt_y p\<rparr>"

definition InsetBy :: "rect \<Rightarrow> flt \<Rightarrow> flt \<Rightarrow> rect" where
  "InsetBy this dx dy = this\<lparr>r_left := fadd (r_left this) dx, r_right := fsub (r_right this) dx,
     r_top := fadd (r_top this) dy, r_bottom := fsub (r_bottom this) dy\<rparr>"

definition InsetBy_point :: "rect \<Rightarrow> point \<Rightarrow> rect" where
  "InsetBy_point this p = this\<lparr>r_left := fadd (r_left this) (pt_x p), r_right := fsub (r_right this) (pt_x p),
     r_top := fadd (r_top this) (pt_y p), r_bottom := fsub (r_bottom this) (pt_y p)\<rparr>"

definition OffsetBy :: "rect \<Rightarrow> flt \<Rightarrow> flt \<Rightarrow> rect" where
  "OffsetBy this dx dy = this\<lparr>r_left := fadd (r_left this) dx, r_right := fadd (r_right this) dx,
     r_top := fadd (r_top this) dy, r_bottom := fadd (r_bottom this) dy\<rparr>"

definition OffsetBy_point :: "rect \<Rightarrow> point \<Rightarrow> rect" where
  "OffsetBy_point this p = this\<lparr>r_left := fadd (r_left this) (pt_x p), r_right := fadd (r_right this) (pt_x p),
     r_top := fadd (r_top this) (pt_y p), r_bottom := fadd (r_bottom this) (pt_y p)\<rparr>"

definition OffsetTo :: "rect \<Rightarrow> flt \<Rightarrow> flt \<Rightarrow> rect" where
  "OffsetTo this x y = this\<lparr>r_right := fadd (fsub (r_right this) (r_left this)) x, r_left := x,
     r_bottom := fadd (fsub (r_bottom this) (r_top this)) y, r_top := y\<rparr>"

definition OffsetTo_point :: "rect \<Rightarrow> point \<Rightarrow> rect" where
  "OffsetTo_point this p = this\<lparr>r_right := fadd (fsub (r_right this) (r_left this)) (pt_x p), r_left := pt_x p,
     r_bottom := fadd (fsub (r_bottom this) (r_top this)) (pt_y p), r_top := pt_y p\<rparr>"

text \<open>The variants that return the rectangle: \<open>Self\<close> changes it too, \<open>Copy\<close> does not. The pairs below
  are the result and the rectangle afterwards.\<close>

definition InsetBySelf :: "rect \<Rightarrow> flt \<Rightarrow> flt \<Rightarrow> rect \<times> rect" where
  "InsetBySelf this dx dy = (InsetBy this dx dy, InsetBy this dx dy)"
definition InsetBySelf_point :: "rect \<Rightarrow> point \<Rightarrow> rect \<times> rect" where
  "InsetBySelf_point this p = (InsetBy_point this p, InsetBy_point this p)"
definition InsetByCopy :: "rect \<Rightarrow> flt \<Rightarrow> flt \<Rightarrow> rect \<times> rect" where
  "InsetByCopy this dx dy = (InsetBy this dx dy, this)"
definition InsetByCopy_point :: "rect \<Rightarrow> point \<Rightarrow> rect \<times> rect" where
  "InsetByCopy_point this p = (InsetBy_point this p, this)"
definition OffsetBySelf :: "rect \<Rightarrow> flt \<Rightarrow> flt \<Rightarrow> rect \<times> rect" where
  "OffsetBySelf this dx dy = (OffsetBy this dx dy, OffsetBy this dx dy)"
definition OffsetBySelf_point :: "rect \<Rightarrow> point \<Rightarrow> rect \<times> rect" where
  "OffsetBySelf_point this p = (OffsetBy_point this p, OffsetBy_point this p)"
definition OffsetByCopy :: "rect \<Rightarrow> flt \<Rightarrow> flt \<Rightarrow> rect \<times> rect" where
  "OffsetByCopy this dx dy = (OffsetBy this dx dy, this)"
definition OffsetByCopy_point :: "rect \<Rightarrow> point \<Rightarrow> rect \<times> rect" where
  "OffsetByCopy_point this p = (OffsetBy_point this p, this)"
definition OffsetToSelf :: "rect \<Rightarrow> flt \<Rightarrow> flt \<Rightarrow> rect \<times> rect" where
  "OffsetToSelf this x y = (OffsetTo this x y, OffsetTo this x y)"
definition OffsetToSelf_point :: "rect \<Rightarrow> point \<Rightarrow> rect \<times> rect" where
  "OffsetToSelf_point this p = (OffsetTo_point this p, OffsetTo_point this p)"
definition OffsetToCopy :: "rect \<Rightarrow> flt \<Rightarrow> flt \<Rightarrow> rect \<times> rect" where
  "OffsetToCopy this x y = (OffsetTo this x y, this)"
definition OffsetToCopy_point :: "rect \<Rightarrow> point \<Rightarrow> rect \<times> rect" where
  "OffsetToCopy_point this p = (OffsetTo_point this p, this)"

definition Rect_eq :: "rect \<Rightarrow> rect \<Rightarrow> bool" where
  "Rect_eq this other \<longleftrightarrow> feq (r_left this) (r_left other) \<and> feq (r_right this) (r_right other) \<and>
     feq (r_top this) (r_top other) \<and> feq (r_bottom this) (r_bottom other)"

definition Rect_neq :: "rect \<Rightarrow> rect \<Rightarrow> bool" where
  "Rect_neq this other \<longleftrightarrow> \<not> Rect_eq this other"

definition Rect_and :: "rect \<Rightarrow> rect \<Rightarrow> rect" where
  "Rect_and this other = Rect_of (fmax (r_left this) (r_left other)) (fmax (r_top this) (r_top other))
     (fmin (r_right this) (r_right other)) (fmin (r_bottom this) (r_bottom other))"

definition Rect_or :: "rect \<Rightarrow> rect \<Rightarrow> rect" where
  "Rect_or this other = Rect_of (fmin (r_left this) (r_left other)) (fmin (r_top this) (r_top other))
     (fmax (r_right this) (r_right other)) (fmax (r_bottom this) (r_bottom other))"

definition Rect_IsValid :: "rect \<Rightarrow> bool" where
  "Rect_IsValid this \<longleftrightarrow> fle (r_left this) (r_right this) \<and> fle (r_top this) (r_bottom this)"

definition Rect_Intersects :: "rect \<Rightarrow> rect \<Rightarrow> bool" where
  "Rect_Intersects this r =
     (if \<not> Rect_IsValid this \<or> \<not> Rect_IsValid r then False
      else \<not> (fless (r_right this) (r_left r) \<or> fless (r_right r) (r_left this) \<or>
              fless (r_bottom this) (r_top r) \<or> fless (r_bottom r) (r_top this)))"

definition Contains :: "rect \<Rightarrow> point \<Rightarrow> bool" where
  "Contains this p \<longleftrightarrow> fle (r_left this) (pt_x p) \<and> fle (pt_x p) (r_right this) \<and>
     fle (r_top this) (pt_y p) \<and> fle (pt_y p) (r_bottom this)"

definition Contains_rect :: "rect \<Rightarrow> rect \<Rightarrow> bool" where
  "Contains_rect this r \<longleftrightarrow> fle (r_left this) (r_left r) \<and> fle (r_right r) (r_right this) \<and>
     fle (r_top this) (r_top r) \<and> fle (r_bottom r) (r_bottom this)"

definition Width :: "rect \<Rightarrow> flt" where "Width this = fsub (r_right this) (r_left this)"
definition Height :: "rect \<Rightarrow> flt" where "Height this = fsub (r_bottom this) (r_top this)"

definition IntegerWidth :: "rect \<Rightarrow> int outcome" where
  "IntegerWidth this = to_int32 (fceil (fsub (r_right this) (r_left this)))"

definition IntegerHeight :: "rect \<Rightarrow> int outcome" where
  "IntegerHeight this = to_int32 (fceil (fsub (r_bottom this) (r_top this)))"

definition Size :: "rect \<Rightarrow> flt \<times> flt" where
  "Size this = (fsub (r_right this) (r_left this), fsub (r_bottom this) (r_top this))"

definition ConstrainTo :: "point \<Rightarrow> rect \<Rightarrow> point" where
  "ConstrainTo this r = this\<lparr>pt_x := fmax (fmin (pt_x this) (r_right r)) (r_left r),
     pt_y := fmax (fmin (pt_y this) (r_bottom r)) (r_top r)\<rparr>"

section \<open>Rectangles as sets of points\<close>

definition number_rect :: "rect \<Rightarrow> bool" where
  "number_rect r \<longleftrightarrow> NaN \<notin> {r_left r, r_top r, r_right r, r_bottom r}"

definition number_point :: "point \<Rightarrow> bool" where
  "number_point p \<longleftrightarrow> NaN \<notin> {pt_x p, pt_y p}"

lemma number_simps: "number_rect r \<Longrightarrow> r_left r \<noteq> NaN \<and> r_top r \<noteq> NaN \<and> r_right r \<noteq> NaN \<and> r_bottom r \<noteq> NaN"
  "number_point p \<Longrightarrow> pt_x p \<noteq> NaN \<and> pt_y p \<noteq> NaN"
  by (auto simp: number_rect_def number_point_def)

lemma Contains_LeftTop: "Rect_IsValid r \<Longrightarrow> Contains r (LeftTop r) \<and> Contains r (RightBottom r)"
  by (cases "r_left r"; cases "r_right r"; cases "r_top r"; cases "r_bottom r")
    (auto simp: Rect_IsValid_def Contains_def LeftTop_def RightBottom_def Point_new_def)

lemma Contains_and:
  "number_rect r \<Longrightarrow> number_rect s \<Longrightarrow> Contains (Rect_and r s) p \<longleftrightarrow> Contains r p \<and> Contains s p"
  by (auto simp: Contains_def Rect_and_def Rect_of_def fmax_le fmin_ge dest!: number_simps)

lemma Rect_or_upper:
  "number_rect r \<Longrightarrow> number_rect s \<Longrightarrow> Contains r p \<or> Contains s p \<Longrightarrow> Contains (Rect_or r s) p"
  by (auto simp: Contains_def Rect_or_def Rect_of_def fmin_le fmax_ge dest!: number_simps)

lemma Contains_rect_Contains: "Contains_rect r s \<Longrightarrow> Contains s p \<Longrightarrow> Contains r p"
  unfolding Contains_rect_def Contains_def by (blast intro: fle_trans)

lemma Rect_or_least:
  "number_rect r \<Longrightarrow> number_rect s \<Longrightarrow> Contains_rect t (Rect_or r s) \<longleftrightarrow> Contains_rect t r \<and> Contains_rect t s"
  by (auto simp: Contains_rect_def Rect_or_def Rect_of_def fmin_ge fmax_le dest!: number_simps)

lemma Contains_rect_iff:
  "Rect_IsValid s \<Longrightarrow> Contains_rect r s \<longleftrightarrow> Contains r (LeftTop s) \<and> Contains r (RightBottom s)"
  unfolding Contains_rect_def Contains_def Rect_IsValid_def LeftTop_def RightBottom_def Point_new_def
  by (auto intro: fle_trans)

lemma Rect_Intersects_valid:
  assumes "number_rect r" "number_rect s"
  shows "Rect_Intersects r s \<longleftrightarrow> Rect_IsValid r \<and> Rect_IsValid s \<and> Rect_IsValid (Rect_and r s)"
  using assms by (auto simp: Rect_Intersects_def Rect_IsValid_def Rect_and_def Rect_of_def fmax_le fmin_ge fless_iff
    dest!: number_simps)

lemma Contains_IsValid: "Contains r p \<Longrightarrow> Rect_IsValid r"
  unfolding Contains_def Rect_IsValid_def by (blast intro: fle_trans)

lemma Rect_Intersects_iff:
  assumes "number_rect r" "number_rect s"
  shows "Rect_Intersects r s \<longleftrightarrow> (\<exists>p. Contains r p \<and> Contains s p)"
  using Contains_and [OF assms] Contains_LeftTop [of "Rect_and r s"] Contains_IsValid Rect_Intersects_valid [OF assms]
  by blast

text \<open>\<open>b\<close> lies between \<open>a\<close> and \<open>c\<close>, on whichever side \<open>c\<close> is.\<close>

definition between :: "flt \<Rightarrow> flt \<Rightarrow> flt \<Rightarrow> bool" where
  "between a b c \<longleftrightarrow> fle a b \<and> fle b c \<or> fle c b \<and> fle b a"

lemma constrained_coordinate:
  assumes "fle l r" "a \<noteq> NaN"
  shows "fle l (fmax (fmin a r) l) \<and> fle (fmax (fmin a r) l) r" "fle l a \<Longrightarrow> fle a r \<Longrightarrow> fmax (fmin a r) l = a"
    "fle l b \<Longrightarrow> fle b r \<Longrightarrow> between a (fmax (fmin a r) l) b"
  using assms by (cases l; cases r; cases a; cases b; auto simp: fmax_def fmin_def between_def)+

lemma ConstrainTo_nearest:
  assumes "Rect_IsValid r" "number_point p"
  shows "Contains r (ConstrainTo p r)" "Contains r p \<Longrightarrow> ConstrainTo p r = p"
    "Contains r q \<Longrightarrow> between (pt_x p) (pt_x (ConstrainTo p r)) (pt_x q) \<and> between (pt_y p) (pt_y (ConstrainTo p r)) (pt_y q)"
  using assms constrained_coordinate [of "r_left r" "r_right r" "pt_x p"] constrained_coordinate [of "r_top r" "r_bottom r" "pt_y p"] number_simps(2)
  by (auto simp: Rect_IsValid_def Contains_def ConstrainTo_def)

section \<open>Moving by whole numbers\<close>

definition int_rect :: "int \<Rightarrow> int \<Rightarrow> int \<Rightarrow> int \<Rightarrow> rect" where
  "int_rect l t r b = Rect_of (fint l) (fint t) (fint r) (fint b)"

definition int_point :: "int \<Rightarrow> int \<Rightarrow> point" where
  "int_point x y = Point_new (fint x) (fint y)"

lemma exact_half: "\<bar>n\<bar> < 2 ^ 23 \<Longrightarrow> exact n"
  by (simp add: exact_def)

lemma exact_sum: "\<bar>m\<bar> < 2 ^ 23 \<Longrightarrow> \<bar>n\<bar> < 2 ^ 23 \<Longrightarrow> exact (m + n) \<and> exact (m - n)"
  by (auto simp: exact_def abs_less_iff)

lemma fadd_fint: "\<bar>m\<bar> < 2 ^ 23 \<Longrightarrow> \<bar>n\<bar> < 2 ^ 23 \<Longrightarrow> fadd (fint m) (fint n) = fint (m + n)"
  using exact_sum [of m n] fadd_int [of m n] exact_half [of m] exact_half [of n] by simp

lemma fsub_fint: "\<bar>m\<bar> < 2 ^ 23 \<Longrightarrow> \<bar>n\<bar> < 2 ^ 23 \<Longrightarrow> fsub (fint m) (fint n) = fint (m - n)"
  using exact_sum [of m n] fsub_int [of m n] exact_half [of m] exact_half [of n] by simp

lemma fle_fint: "exact m \<Longrightarrow> exact n \<Longrightarrow> fle (fint m) (fint n) \<longleftrightarrow> m \<le> n"
  by simp

lemma feq_fint: "exact m \<Longrightarrow> feq (fint m) (fint m)"
  by simp

lemma Contains_int:
  "\<forall>n\<in>{l, t, r, b, x, y}. exact n \<Longrightarrow> Contains (int_rect l t r b) (int_point x y) \<longleftrightarrow> l \<le> x \<and> x \<le> r \<and> t \<le> y \<and> y \<le> b"
  by (auto simp: Contains_def int_rect_def int_point_def Rect_of_def Point_new_def simp del: fint_exact simp: fle_fint)

lemma OffsetBy_int:
  assumes "\<forall>n\<in>{l, t, r, b, dx, dy}. \<bar>n\<bar> < 2 ^ 23"
  shows "OffsetBy (int_rect l t r b) (fint dx) (fint dy) = int_rect (l + dx) (t + dy) (r + dx) (b + dy)"
  using assms by (simp add: OffsetBy_def int_rect_def Rect_of_def fadd_fint del: fint_exact)

lemma InsetBy_int:
  assumes "\<forall>n\<in>{l, t, r, b, dx, dy}. \<bar>n\<bar> < 2 ^ 23"
  shows "InsetBy (int_rect l t r b) (fint dx) (fint dy) = int_rect (l + dx) (t + dy) (r - dx) (b - dy)"
  using assms by (simp add: InsetBy_def int_rect_def Rect_of_def fadd_fint fsub_fint del: fint_exact)

lemma OffsetTo_int:
  assumes "\<forall>n\<in>{l, t, r, b}. \<bar>n\<bar> < 2 ^ 22" "\<forall>n\<in>{x, y}. \<bar>n\<bar> < 2 ^ 23"
  shows "OffsetTo (int_rect l t r b) (fint x) (fint y) = int_rect x y (r - l + x) (b - t + y)"
proof -
  have "\<bar>r - l\<bar> < 2 ^ 23" "\<bar>b - t\<bar> < 2 ^ 23" using assms(1) by auto
  then show ?thesis using assms
    by (simp add: OffsetTo_def int_rect_def Rect_of_def fadd_fint fsub_fint del: fint_exact)
qed

text \<open>The neighbour of \<open>2^24\<close> is \<open>2^24 + 2\<close>; the number between them is rounded down.\<close>

lemma lost_bit: "fint 16777216 = Fin 16777216" "fadd (Fin 16777216) (Fin 1) = Fin 16777216"
    "fadd (Fin 16777216) (Fin (- 1)) = Fin 16777215"
proof -
  have "\<lfloor>16777217 / 2 :: rat\<rfloor> = 8388608" by (rule floor_unique) simp_all
  then show "fint 16777216 = Fin 16777216" "fadd (Fin 16777216) (Fin 1) = Fin 16777216"
    "fadd (Fin 16777216) (Fin (- 1)) = Fin 16777215"
    by (simp_all add: fint_def round32_def ulp_exponent_def exponent_def nlog2.simps pow2_def round_half_even_def Let_def)
qed

section \<open>Properties\<close>

text \<open>C14. Rectangles without \<open>NaN\<close> as sets of points: \<open>&\<close> contains the points that both contain, \<open>|\<close> is the
  smallest rectangle that contains both, \<open>Intersects\<close> says whether there is a common point, and a valid
  rectangle contains another one exactly when it contains all of its points. \<open>ConstrainTo\<close> a valid rectangle moves a point into it,
  leaves a point of the rectangle where it is, and moves no coordinate further than it must: the result lies between
  the point and every point of the rectangle.\<close>

theorem rect_operations_on_points:
  assumes "number_rect r" "number_rect s"
  shows "(\<forall>p. Contains (Rect_and r s) p \<longleftrightarrow> Contains r p \<and> Contains s p) \<and>
    Contains_rect (Rect_or r s) r \<and> Contains_rect (Rect_or r s) s \<and>
    (\<forall>t. Contains_rect t r \<and> Contains_rect t s \<longrightarrow> Contains_rect t (Rect_or r s)) \<and>
    (Rect_Intersects r s \<longleftrightarrow> (\<exists>p. Contains r p \<and> Contains s p)) \<and>
    (Rect_IsValid s \<longrightarrow> (Contains_rect r s \<longleftrightarrow> (\<forall>p. Contains s p \<longrightarrow> Contains r p))) \<and>
    (\<forall>p. Rect_IsValid r \<and> number_point p \<longrightarrow>
       Contains r (ConstrainTo p r) \<and> (Contains r p \<longrightarrow> ConstrainTo p r = p) \<and>
       (\<forall>q. Contains r q \<longrightarrow> between (pt_x p) (pt_x (ConstrainTo p r)) (pt_x q) \<and> between (pt_y p) (pt_y (ConstrainTo p r)) (pt_y q)))"
proof -
  have n: "number_rect (Rect_or r s)"
    using assms by (auto simp: number_rect_def Rect_or_def Rect_of_def fmax_def fmin_def)
  then have "Contains_rect (Rect_or r s) (Rect_or r s)" using number_simps(1) [OF n] by (simp add: Contains_rect_def)
  then have "Contains_rect (Rect_or r s) r" "Contains_rect (Rect_or r s) s"
    using Rect_or_least [OF assms] by blast+
  moreover have "Rect_IsValid s \<longrightarrow> (Contains_rect r s \<longleftrightarrow> (\<forall>p. Contains s p \<longrightarrow> Contains r p))"
    using Contains_rect_iff [of s r] Contains_LeftTop [of s] Contains_rect_Contains by blast
  ultimately show ?thesis
    using Contains_and [OF assms] Rect_or_least [OF assms] Rect_Intersects_iff [OF assms] ConstrainTo_nearest [of r] by blast
qed

lemma rect_operations_on_points_witness:
  "Contains (Rect_and (int_rect 0 0 9 9) (int_rect 5 5 20 20)) (int_point 7 7) \<and>
   Rect_Intersects (int_rect 0 0 9 9) (int_rect 9 0 20 20) \<and> Contains (int_rect 0 0 9 9) (ConstrainTo (int_point 30 (- 2)) (int_rect 0 0 9 9))"
proof -
  have n: "number_rect (int_rect 0 0 9 9)" "number_rect (int_rect 5 5 20 20)" "number_rect (int_rect 9 0 20 20)"
    by (simp_all add: number_rect_def int_rect_def Rect_of_def exact_def)
  have "Contains (int_rect 0 0 9 9) (int_point 7 7)" "Contains (int_rect 5 5 20 20) (int_point 7 7)"
    "Contains (int_rect 0 0 9 9) (int_point 9 0)" "Contains (int_rect 9 0 20 20) (int_point 9 0)"
    by (subst Contains_int; simp add: exact_def)+
  moreover have "Rect_IsValid (int_rect 0 0 9 9)" "number_point (int_point 30 (- 2))"
    by (simp_all add: Rect_IsValid_def int_rect_def Rect_of_def number_point_def int_point_def Point_new_def exact_def)
  moreover have "\<forall>p. Contains (Rect_and (int_rect 0 0 9 9) (int_rect 5 5 20 20)) p \<longleftrightarrow> Contains (int_rect 0 0 9 9) p \<and> Contains (int_rect 5 5 20 20) p"
    "\<forall>p. Rect_IsValid (int_rect 0 0 9 9) \<and> number_point p \<longrightarrow> Contains (int_rect 0 0 9 9) (ConstrainTo p (int_rect 0 0 9 9))"
    using rect_operations_on_points [OF n(1,2)] by simp_all
  moreover have "Rect_Intersects (int_rect 0 0 9 9) (int_rect 9 0 20 20) \<longleftrightarrow> (\<exists>p. Contains (int_rect 0 0 9 9) p \<and> Contains (int_rect 9 0 20 20) p)"
    using rect_operations_on_points [OF n(1,3)] by (elim conjE)
  ultimately show ?thesis by blast
qed

text \<open>Moving whole-number rectangles: in the range of \<open>2^22\<close>, \<open>OffsetBy\<close> moves every point by the
  offset and is undone by the opposite one, \<open>OffsetTo\<close> moves the left top corner to the point and keeps
  width and height, and \<open>InsetBy\<close> is undone by the opposite inset. At \<open>2^24\<close> an offset of 1 is lost, so
  moving there and back is not the identity.\<close>

lemma moving_whole_rectangles:
  assumes "\<forall>n\<in>{l, t, r, b, dx, dy, x, y}. \<bar>n\<bar> < 2 ^ 22"
  shows "OffsetBy (OffsetBy (int_rect l t r b) (fint dx) (fint dy)) (fint (- dx)) (fint (- dy)) = int_rect l t r b \<and>
    Contains (OffsetBy (int_rect l t r b) (fint dx) (fint dy)) (Point_add (int_point x y) (int_point dx dy)) =
      Contains (int_rect l t r b) (int_point x y) \<and>
    LeftTop (OffsetTo (int_rect l t r b) (fint x) (fint y)) = int_point x y \<and>
    Size (OffsetTo (int_rect l t r b) (fint x) (fint y)) = Size (int_rect l t r b) \<and>
    InsetBy (InsetBy (int_rect l t r b) (fint dx) (fint dy)) (fint (- dx)) (fint (- dy)) = int_rect l t r b \<and>
    OffsetBy (OffsetBy (int_rect 0 0 16777216 0) (fint 1) (fint 0)) (fint (- 1)) (fint 0) \<noteq> int_rect 0 0 16777216 0"
proof -
  have o: "OffsetBy (int_rect l t r b) (fint dx) (fint dy) = int_rect (l + dx) (t + dy) (r + dx) (b + dy)"
    "InsetBy (int_rect l t r b) (fint dx) (fint dy) = int_rect (l + dx) (t + dy) (r - dx) (b - dy)"
    using assms by (intro OffsetBy_int InsetBy_int; simp)+
  have i: "\<forall>n\<in>{l + dx, t + dy, r + dx, b + dy, - dx, - dy}. \<bar>n\<bar> < 2 ^ 23"
    "\<forall>n\<in>{l + dx, t + dy, r - dx, b - dy, - dx, - dy}. \<bar>n\<bar> < 2 ^ 23"
    using assms by (simp_all add: abs_less_iff)
  have u: "OffsetBy (int_rect (l + dx) (t + dy) (r + dx) (b + dy)) (fint (- dx)) (fint (- dy)) = int_rect l t r b"
    "InsetBy (int_rect (l + dx) (t + dy) (r - dx) (b - dy)) (fint (- dx)) (fint (- dy)) = int_rect l t r b"
    using OffsetBy_int [OF i(1)] InsetBy_int [OF i(2)] by simp_all
  have to: "OffsetTo (int_rect l t r b) (fint x) (fint y) = int_rect x y (r - l + x) (b - t + y)"
    using assms by (intro OffsetTo_int) auto
  have pt: "Point_add (int_point x y) (int_point dx dy) = int_point (x + dx) (y + dy)"
    using assms by (simp add: Point_add_def int_point_def Point_new_def fadd_fint del: fint_exact)
  have c: "Contains (int_rect (l + dx) (t + dy) (r + dx) (b + dy)) (int_point (x + dx) (y + dy)) \<longleftrightarrow>
      Contains (int_rect l t r b) (int_point x y)"
  proof -
    have e: "\<forall>n\<in>{l + dx, t + dy, r + dx, b + dy, x + dx, y + dy}. exact n" "\<forall>n\<in>{l, t, r, b, x, y}. exact n"
      using assms by (simp_all add: exact_def abs_less_iff)
    show ?thesis by (simp add: Contains_int [OF e(1)] Contains_int [OF e(2)])
  qed
  have s: "Size (int_rect x y (r - l + x) (b - t + y)) = Size (int_rect l t r b)"
  proof -
    have "\<bar>r - l + x\<bar> < 2 ^ 24" "\<bar>b - t + y\<bar> < 2 ^ 24" "\<bar>r - l\<bar> < 2 ^ 24" "\<bar>b - t\<bar> < 2 ^ 24"
      using assms by (simp_all add: abs_less_iff)
    then have "exact (r - l + x)" "exact (b - t + y)" "exact (r - l)" "exact (b - t)" by (simp_all add: exact_def)
    moreover have "exact l" "exact r" "exact t" "exact b" "exact x" "exact y" using assms by (simp_all add: exact_def)
    ultimately show ?thesis
      using fsub_int [of "r - l + x" x] fsub_int [of "b - t + y" y] fsub_int [of r l] fsub_int [of b t]
      by (simp add: Size_def int_rect_def Rect_of_def del: of_int_diff of_int_add)
  qed
  have "OffsetBy (OffsetBy (int_rect 0 0 16777216 0) (fint 1) (fint 0)) (fint (- 1)) (fint 0) \<noteq> int_rect 0 0 16777216 0"
    using lost_bit by (simp add: OffsetBy_def int_rect_def Rect_of_def exact_def)
  then show ?thesis using o u to pt c s by (simp add: LeftTop_def int_rect_def int_point_def Rect_of_def)
qed

end
