(* ===== verification/Region.thy ===== *)
theory Region
  imports Rect
begin

text \<open>
  \<open>BRegion\<close> of \<open>kits/interface/Region.cpp\<close>, a wrapper of \<open>SkRegion\<close> of the graphics library Skia. That
  library is the record \<open>skia\<close>; \<open>documented\<close> is what its documentation says of a region, the set of the
  pixels that it contains, where a rectangle contains its left and top edge and not its right and
  bottom edge. Its coordinates are 32 bits wide: the hypothesis speaks of the pixels of the plane of these coordinates only,
  of rectangles whose coordinates stay within \<open>2^30\<close> (so that widths do not overflow and no coordinate is
  the value that Skia reserves), and of translations that stay there. Floats become pixel coordinates by cutting off the fraction.
\<close>

section \<open>Skia\<close>

record clipping_rect =
  c_left :: int
  c_top :: int
  c_right :: int
  c_bottom :: int

datatype region_op = Difference | Intersection | Union

record 'r skia =
  sk_empty :: 'r
  sk_rect :: "clipping_rect \<Rightarrow> 'r"
  sk_op :: "'r \<Rightarrow> 'r \<Rightarrow> region_op \<Rightarrow> 'r"
  sk_contains :: "'r \<Rightarrow> int \<Rightarrow> int \<Rightarrow> bool"
  sk_intersects :: "'r \<Rightarrow> clipping_rect \<Rightarrow> bool"
  sk_translate :: "'r \<Rightarrow> int \<Rightarrow> int \<Rightarrow> 'r"
  sk_bounds :: "'r \<Rightarrow> clipping_rect"
  sk_rects :: "'r \<Rightarrow> clipping_rect list"

definition LTRB :: "int \<Rightarrow> int \<Rightarrow> int \<Rightarrow> int \<Rightarrow> clipping_rect" where
  "LTRB l t r b = \<lparr>c_left = l, c_top = t, c_right = r, c_bottom = b\<rparr>"

definition pixels :: "clipping_rect \<Rightarrow> (int \<times> int) set" where
  "pixels r = {(x, y). c_left r \<le> x \<and> x < c_right r \<and> c_top r \<le> y \<and> y < c_bottom r}"

text \<open>The pixels that a caller can name, and those whose coordinates are within \<open>2^30\<close>.\<close>

definition int32_range :: "int \<Rightarrow> bool" where
  "int32_range n \<longleftrightarrow> - (2 ^ 31) \<le> n \<and> n < 2 ^ 31"

definition plane :: "(int \<times> int) set" where
  "plane = {(x, y). int32_range x \<and> int32_range y}"

definition room :: "(int \<times> int) set" where
  "room = {(x, y). - (2 ^ 30) \<le> x \<and> x < 2 ^ 30 \<and> - (2 ^ 30) \<le> y \<and> y < 2 ^ 30}"

definition moderate :: "int \<Rightarrow> bool" where
  "moderate n \<longleftrightarrow> - (2 ^ 30) \<le> n \<and> n \<le> 2 ^ 30"

definition small :: "clipping_rect \<Rightarrow> bool" where
  "small c \<longleftrightarrow> moderate (c_left c) \<and> moderate (c_top c) \<and> moderate (c_right c) \<and> moderate (c_bottom c)"

definition contents :: "'r skia \<Rightarrow> 'r \<Rightarrow> (int \<times> int) set" where
  "contents sk r = {(x, y). (x, y) \<in> plane \<and> sk_contains sk r x y}"

definition shift :: "int \<Rightarrow> int \<Rightarrow> (int \<times> int) set \<Rightarrow> (int \<times> int) set" where
  "shift dx dy P = (\<lambda>(x, y). (x + dx, y + dy)) ` P"

definition documented :: "'r skia \<Rightarrow> bool" where
  "documented sk \<longleftrightarrow> contents sk (sk_empty sk) = {} \<and>
     (\<forall>c. small c \<longrightarrow> contents sk (sk_rect sk c) = pixels c) \<and>
     (\<forall>r s. contents sk (sk_op sk r s Union) = contents sk r \<union> contents sk s) \<and>
     (\<forall>r s. contents sk (sk_op sk r s Difference) = contents sk r - contents sk s) \<and>
     (\<forall>r s. contents sk (sk_op sk r s Intersection) = contents sk r \<inter> contents sk s) \<and>
     (\<forall>r c. small c \<longrightarrow> (sk_intersects sk r c \<longleftrightarrow> contents sk r \<inter> pixels c \<noteq> {})) \<and>
     (\<forall>r dx dy. int32_range dx \<and> int32_range dy \<and> contents sk r \<subseteq> room \<and> shift dx dy (contents sk r) \<subseteq> room \<longrightarrow>
        contents sk (sk_translate sk r dx dy) = shift dx dy (contents sk r)) \<and>
     (\<forall>r. contents sk r = (\<Union>c\<in>set (sk_rects sk r). pixels c)) \<and>
     (\<forall>r. contents sk r \<subseteq> pixels (sk_bounds sk r) \<and> (\<forall>c. contents sk r \<subseteq> pixels c \<longrightarrow> pixels (sk_bounds sk r) \<subseteq> pixels c))"

section \<open>Operations\<close>

text \<open>The conversion of a rectangle; it is undefined when a coordinate does not fit an \<open>int32\<close>.\<close>

definition MakeLTRB :: "rect \<Rightarrow> clipping_rect outcome" where
  "MakeLTRB r = bindR (to_int32 (r_left r)) (\<lambda>a. bindR (to_int32 (r_top r)) (\<lambda>b.
     bindR (to_int32 (r_right r)) (\<lambda>c. bindR (to_int32 (r_bottom r)) (\<lambda>d. Inr (LTRB a b c d)))))"

definition Region_new :: "'r skia \<Rightarrow> 'r" where
  "Region_new sk = sk_empty sk"

definition Region_copy :: "'r skia \<Rightarrow> 'r \<Rightarrow> 'r" where
  "Region_copy sk from = from"

definition Region_rect :: "'r skia \<Rightarrow> rect \<Rightarrow> 'r outcome" where
  "Region_rect sk r = bindR (MakeLTRB r) (\<lambda>c. Inr (sk_rect sk c))"

definition Region_assign :: "'r skia \<Rightarrow> 'r \<Rightarrow> 'r \<Rightarrow> 'r" where
  "Region_assign sk this from = from"

definition FrameInt :: "'r skia \<Rightarrow> 'r \<Rightarrow> clipping_rect" where
  "FrameInt sk this = sk_bounds sk this"

definition to_rect :: "clipping_rect \<Rightarrow> rect" where
  "to_rect c = Rect_of (fint (c_left c)) (fint (c_top c)) (fint (c_right c)) (fint (c_bottom c))"

definition Frame :: "'r skia \<Rightarrow> 'r \<Rightarrow> rect" where
  "Frame sk this = to_rect (sk_bounds sk this)"

text \<open>An iterator that is not at its end gives the rectangles one after the other.\<close>

definition RectAtInt :: "'r skia \<Rightarrow> 'r \<Rightarrow> int \<Rightarrow> clipping_rect" where
  "RectAtInt sk this index =
     (let rects = sk_rects sk this
      in if rects = [] then LTRB 0 0 0 0
         else if size_t index \<ge> length rects then LTRB 0 0 0 0
         else rects ! size_t index)"

definition RectAt :: "'r skia \<Rightarrow> 'r \<Rightarrow> int \<Rightarrow> rect" where
  "RectAt sk this index = to_rect (RectAtInt sk this index)"

definition CountRects :: "'r skia \<Rightarrow> 'r \<Rightarrow> int" where
  "CountRects sk this = int32 (int (length (sk_rects sk this)))"

definition Region_Set :: "'r skia \<Rightarrow> 'r \<Rightarrow> rect \<Rightarrow> 'r outcome" where
  "Region_Set sk this newBounds = bindR (MakeLTRB newBounds) (\<lambda>c. Inr (sk_rect sk c))"

definition Region_Set_int :: "'r skia \<Rightarrow> 'r \<Rightarrow> clipping_rect \<Rightarrow> 'r" where
  "Region_Set_int sk this newBounds = sk_rect sk newBounds"

definition Region_Intersects :: "'r skia \<Rightarrow> 'r \<Rightarrow> rect \<Rightarrow> bool outcome" where
  "Region_Intersects sk this r = bindR (MakeLTRB r) (\<lambda>c. Inr (sk_intersects sk this c))"

definition Region_Intersects_int :: "'r skia \<Rightarrow> 'r \<Rightarrow> clipping_rect \<Rightarrow> bool" where
  "Region_Intersects_int sk this c = sk_intersects sk this c"

definition Region_Contains_int :: "'r skia \<Rightarrow> 'r \<Rightarrow> int \<Rightarrow> int \<Rightarrow> bool" where
  "Region_Contains_int sk this x y = sk_contains sk this x y"

definition Region_Contains :: "'r skia \<Rightarrow> 'r \<Rightarrow> point \<Rightarrow> bool outcome" where
  "Region_Contains sk this p = bindR (to_int32 (pt_x p)) (\<lambda>x. bindR (to_int32 (pt_y p)) (\<lambda>y.
     Inr (Region_Contains_int sk this x y)))"

definition Region_OffsetBy :: "'r skia \<Rightarrow> 'r \<Rightarrow> int \<Rightarrow> int \<Rightarrow> 'r" where
  "Region_OffsetBy sk this dh dv = sk_translate sk this dh dv"

definition Region_MakeEmpty :: "'r skia \<Rightarrow> 'r \<Rightarrow> 'r" where
  "Region_MakeEmpty sk this = sk_empty sk"

definition Include :: "'r skia \<Rightarrow> 'r \<Rightarrow> rect \<Rightarrow> 'r outcome" where
  "Include sk this r = bindR (MakeLTRB r) (\<lambda>c. Inr (sk_op sk this (sk_rect sk c) Union))"

definition Include_int :: "'r skia \<Rightarrow> 'r \<Rightarrow> clipping_rect \<Rightarrow> 'r" where
  "Include_int sk this c = sk_op sk this (sk_rect sk c) Union"

definition Include_region :: "'r skia \<Rightarrow> 'r \<Rightarrow> 'r option \<Rightarrow> 'r" where
  "Include_region sk this r = (case r of None \<Rightarrow> this | Some s \<Rightarrow> sk_op sk this s Union)"

definition Exclude :: "'r skia \<Rightarrow> 'r \<Rightarrow> rect \<Rightarrow> 'r outcome" where
  "Exclude sk this r = bindR (MakeLTRB r) (\<lambda>c. Inr (sk_op sk this (sk_rect sk c) Difference))"

definition Exclude_int :: "'r skia \<Rightarrow> 'r \<Rightarrow> clipping_rect \<Rightarrow> 'r" where
  "Exclude_int sk this c = sk_op sk this (sk_rect sk c) Difference"

definition Exclude_region :: "'r skia \<Rightarrow> 'r \<Rightarrow> 'r option \<Rightarrow> 'r" where
  "Exclude_region sk this r = (case r of None \<Rightarrow> this | Some s \<Rightarrow> sk_op sk this s Difference)"

definition IntersectWith :: "'r skia \<Rightarrow> 'r \<Rightarrow> 'r option \<Rightarrow> 'r" where
  "IntersectWith sk this r = (case r of None \<Rightarrow> this | Some s \<Rightarrow> sk_op sk this s Intersection)"

section \<open>Regions as sets of pixels\<close>

text \<open>
  A program works on a number of regions, numbered from 0: each command is a call on one of them, \<open>None\<close> is the null pointer, and a
  region can be its own argument. Beside it the same commands on sets of pixels.
\<close>

datatype region_command =
    Call_construct nat rect
  | Call_copy nat nat
  | Call_assign nat nat
  | Call_Set nat rect
  | Call_Include nat rect
  | Call_Include_region nat "nat option"
  | Call_Exclude nat rect
  | Call_Exclude_region nat "nat option"
  | Call_IntersectWith nat "nat option"
  | Call_Offset nat int int
  | Call_MakeEmpty nat

fun region_call :: "'r skia \<Rightarrow> region_command \<Rightarrow> (nat \<Rightarrow> 'r) \<Rightarrow> (nat \<Rightarrow> 'r) outcome" where
  "region_call sk (Call_construct i r) w = bindR (Region_rect sk r) (\<lambda>x. Inr (w(i := x)))"
| "region_call sk (Call_copy i j) w = Inr (w(i := Region_copy sk (w j)))"
| "region_call sk (Call_assign i j) w = Inr (w(i := Region_assign sk (w i) (w j)))"
| "region_call sk (Call_Set i r) w = bindR (Region_Set sk (w i) r) (\<lambda>x. Inr (w(i := x)))"
| "region_call sk (Call_Include i r) w = bindR (Include sk (w i) r) (\<lambda>x. Inr (w(i := x)))"
| "region_call sk (Call_Include_region i j) w = Inr (w(i := Include_region sk (w i) (map_option w j)))"
| "region_call sk (Call_Exclude i r) w = bindR (Exclude sk (w i) r) (\<lambda>x. Inr (w(i := x)))"
| "region_call sk (Call_Exclude_region i j) w = Inr (w(i := Exclude_region sk (w i) (map_option w j)))"
| "region_call sk (Call_IntersectWith i j) w = Inr (w(i := IntersectWith sk (w i) (map_option w j)))"
| "region_call sk (Call_Offset i dh dv) w = Inr (w(i := Region_OffsetBy sk (w i) dh dv))"
| "region_call sk (Call_MakeEmpty i) w = Inr (w(i := Region_MakeEmpty sk (w i)))"

fun region_calls :: "'r skia \<Rightarrow> region_command list \<Rightarrow> (nat \<Rightarrow> 'r) \<Rightarrow> (nat \<Rightarrow> 'r) outcome" where
  "region_calls sk [] w = Inr w"
| "region_calls sk (c # cs) w = bindR (region_call sk c w) (region_calls sk cs)"

text \<open>
  The pixels of a rectangle with float coordinates: the fraction is cut off, the left and the top edge belong to it, the right and the
  bottom edge do not.
\<close>

fun cut :: "flt \<Rightarrow> int" where
  "cut (Fin a) = trunc a"
| "cut a = 0"

definition rect_pixels :: "rect \<Rightarrow> (int \<times> int) set" where
  "rect_pixels r = {(x, y). cut (r_left r) \<le> x \<and> x < cut (r_right r) \<and> cut (r_top r) \<le> y \<and> y < cut (r_bottom r)}"

fun pixel_call :: "region_command \<Rightarrow> (nat \<Rightarrow> (int \<times> int) set) \<Rightarrow> nat \<Rightarrow> (int \<times> int) set" where
  "pixel_call (Call_construct i r) P = P(i := rect_pixels r)"
| "pixel_call (Call_copy i j) P = P(i := P j)"
| "pixel_call (Call_assign i j) P = P(i := P j)"
| "pixel_call (Call_Set i r) P = P(i := rect_pixels r)"
| "pixel_call (Call_Include i r) P = P(i := P i \<union> rect_pixels r)"
| "pixel_call (Call_Include_region i j) P = (case j of None \<Rightarrow> P | Some j \<Rightarrow> P(i := P i \<union> P j))"
| "pixel_call (Call_Exclude i r) P = P(i := P i - rect_pixels r)"
| "pixel_call (Call_Exclude_region i j) P = (case j of None \<Rightarrow> P | Some j \<Rightarrow> P(i := P i - P j))"
| "pixel_call (Call_IntersectWith i j) P = (case j of None \<Rightarrow> P | Some j \<Rightarrow> P(i := P i \<inter> P j))"
| "pixel_call (Call_Offset i dh dv) P = P(i := shift dh dv (P i))"
| "pixel_call (Call_MakeEmpty i) P = P(i := {})"

text \<open>The calls that stay within the coordinates for which the library is documented.\<close>

fun coordinate_fits :: "flt \<Rightarrow> bool" where
  "coordinate_fits (Fin q) \<longleftrightarrow> moderate (trunc q)"
| "coordinate_fits _ \<longleftrightarrow> False"

definition rect_fits :: "rect \<Rightarrow> bool" where
  "rect_fits r \<longleftrightarrow> coordinate_fits (r_left r) \<and> coordinate_fits (r_top r) \<and> coordinate_fits (r_right r) \<and> coordinate_fits (r_bottom r)"

fun call_fits :: "region_command \<Rightarrow> (nat \<Rightarrow> (int \<times> int) set) \<Rightarrow> bool" where
  "call_fits (Call_construct i r) P \<longleftrightarrow> rect_fits r"
| "call_fits (Call_Set i r) P \<longleftrightarrow> rect_fits r"
| "call_fits (Call_Include i r) P \<longleftrightarrow> rect_fits r"
| "call_fits (Call_Exclude i r) P \<longleftrightarrow> rect_fits r"
| "call_fits (Call_Offset i dh dv) P \<longleftrightarrow> int32_range dh \<and> int32_range dv \<and> shift dh dv (P i) \<subseteq> room"
| "call_fits _ P \<longleftrightarrow> True"

fun calls_fit :: "region_command list \<Rightarrow> (nat \<Rightarrow> (int \<times> int) set) \<Rightarrow> bool" where
  "calls_fit [] P \<longleftrightarrow> True"
| "calls_fit (c # cs) P \<longleftrightarrow> call_fits c P \<and> calls_fit cs (pixel_call c P)"

lemma to_int32_fits: "coordinate_fits a \<Longrightarrow> to_int32 a = Inr (cut a) \<and> moderate (cut a)"
  by (cases a) (auto simp: moderate_def)

lemma MakeLTRB_fits: "rect_fits r \<Longrightarrow> \<exists>c. MakeLTRB r = Inr c \<and> small c \<and> pixels c = rect_pixels r"
  by (auto simp: rect_fits_def MakeLTRB_def to_int32_fits rect_pixels_def pixels_def small_def LTRB_def)

lemma rect_pixels_room: "rect_fits r \<Longrightarrow> rect_pixels r \<subseteq> room"
  by (auto simp: rect_fits_def rect_pixels_def room_def moderate_def dest!: to_int32_fits)

lemma documentedD:
  assumes "documented sk"
  shows "contents sk (sk_empty sk) = {}" "small c \<Longrightarrow> contents sk (sk_rect sk c) = pixels c"
    "contents sk (sk_op sk r s Union) = contents sk r \<union> contents sk s"
    "contents sk (sk_op sk r s Difference) = contents sk r - contents sk s"
    "contents sk (sk_op sk r s Intersection) = contents sk r \<inter> contents sk s"
    "small c \<Longrightarrow> sk_intersects sk r c \<longleftrightarrow> contents sk r \<inter> pixels c \<noteq> {}"
    "int32_range dx \<Longrightarrow> int32_range dy \<Longrightarrow> contents sk r \<subseteq> room \<Longrightarrow> shift dx dy (contents sk r) \<subseteq> room \<Longrightarrow>
      contents sk (sk_translate sk r dx dy) = shift dx dy (contents sk r)"
    "contents sk r = (\<Union>c\<in>set (sk_rects sk r). pixels c)"
    "contents sk r \<subseteq> pixels (sk_bounds sk r) \<and> (\<forall>c. contents sk r \<subseteq> pixels c \<longrightarrow> pixels (sk_bounds sk r) \<subseteq> pixels c)"
proof -
  note d1 = assms [unfolded documented_def]
  note d2 = d1 [THEN conjunct2] note d3 = d2 [THEN conjunct2] note d4 = d3 [THEN conjunct2]
  note d5 = d4 [THEN conjunct2] note d6 = d5 [THEN conjunct2] note d7 = d6 [THEN conjunct2]
  note d8 = d7 [THEN conjunct2]
  note e = d1 [THEN conjunct1] and c = d2 [THEN conjunct1] and u = d3 [THEN conjunct1]
    and d = d4 [THEN conjunct1] and i = d5 [THEN conjunct1] and m = d6 [THEN conjunct1]
    and t = d7 [THEN conjunct1] and l = d8 [THEN conjunct1] and b = d8 [THEN conjunct2]
  show "contents sk (sk_empty sk) = {}" by (rule e)
  show "small c \<Longrightarrow> contents sk (sk_rect sk c) = pixels c" by (rule c [rule_format])
  show "contents sk (sk_op sk r s Union) = contents sk r \<union> contents sk s" by (rule u [rule_format])
  show "contents sk (sk_op sk r s Difference) = contents sk r - contents sk s" by (rule d [rule_format])
  show "contents sk (sk_op sk r s Intersection) = contents sk r \<inter> contents sk s" by (rule i [rule_format])
  show "small c \<Longrightarrow> sk_intersects sk r c \<longleftrightarrow> contents sk r \<inter> pixels c \<noteq> {}" by (rule m [rule_format])
  show "int32_range dx \<Longrightarrow> int32_range dy \<Longrightarrow> contents sk r \<subseteq> room \<Longrightarrow> shift dx dy (contents sk r) \<subseteq> room \<Longrightarrow>
      contents sk (sk_translate sk r dx dy) = shift dx dy (contents sk r)" by (intro t [rule_format] conjI)
  show "contents sk r = (\<Union>c\<in>set (sk_rects sk r). pixels c)" by (rule l [rule_format])
  show "contents sk r \<subseteq> pixels (sk_bounds sk r) \<and> (\<forall>c. contents sk r \<subseteq> pixels c \<longrightarrow> pixels (sk_bounds sk r) \<subseteq> pixels c)"
    by (rule b [THEN spec])
qed

text \<open>Regions with the pixels \<open>P\<close>.\<close>

definition denotes :: "'r skia \<Rightarrow> (nat \<Rightarrow> 'r) \<Rightarrow> (nat \<Rightarrow> (int \<times> int) set) \<Rightarrow> bool" where
  "denotes sk w P \<longleftrightarrow> (\<forall>i. contents sk (w i) = P i \<and> P i \<subseteq> room)"

lemma denotes_update: "denotes sk w P \<Longrightarrow> contents sk x = A \<Longrightarrow> A \<subseteq> room \<Longrightarrow> denotes sk (w(i := x)) (P(i := A))"
  by (simp add: denotes_def)

lemma Region_rects:
  assumes "documented sk" "rect_fits r"
  obtains c where "MakeLTRB r = Inr c" "contents sk (sk_rect sk c) = rect_pixels r"
  using MakeLTRB_fits [OF assms(2)] documentedD(2) [OF assms(1)] by auto

lemma region_call_pixels:
  assumes sk: "documented sk" and d: "denotes sk w P" and f: "call_fits c P"
  shows "\<exists>w'. region_call sk c w = Inr w' \<and> denotes sk w' (pixel_call c P)"
proof -
  have w: "contents sk (w i) = P i" "P i \<subseteq> room" for i using d by (simp_all add: denotes_def)
  then have u: "P i \<union> A \<subseteq> room" "P i - A \<subseteq> room" "P i \<inter> A \<subseteq> room" if "A \<subseteq> room" for i A using that by auto
  note up = denotes_update [OF d]
  show ?thesis
  proof (cases c)
    case (Call_construct i r)
    then obtain x where "MakeLTRB r = Inr x" "contents sk (sk_rect sk x) = rect_pixels r" using Region_rects [OF sk, of r] f by auto
    then show ?thesis using Call_construct up [of _ "rect_pixels r" i] rect_pixels_room [of r] f by (simp add: Region_rect_def)
  next
    case (Call_copy i j)
    then show ?thesis using w by (auto simp: Region_copy_def intro!: up)
  next
    case (Call_assign i j)
    then show ?thesis using w by (auto simp: Region_assign_def intro!: up)
  next
    case (Call_Set i r)
    then obtain x where "MakeLTRB r = Inr x" "contents sk (sk_rect sk x) = rect_pixels r" using Region_rects [OF sk, of r] f by auto
    then show ?thesis using Call_Set up [of _ "rect_pixels r" i] rect_pixels_room [of r] f by (simp add: Region_Set_def)
  next
    case (Call_Include i r)
    then obtain x where "MakeLTRB r = Inr x" "contents sk (sk_rect sk x) = rect_pixels r" using Region_rects [OF sk, of r] f by auto
    then show ?thesis using Call_Include up [of _ "P i \<union> rect_pixels r" i] u(1) [OF rect_pixels_room, of r i] f w(1) documentedD(3) [OF sk]
      by (simp add: Include_def)
  next
    case (Call_Exclude i r)
    then obtain x where "MakeLTRB r = Inr x" "contents sk (sk_rect sk x) = rect_pixels r" using Region_rects [OF sk, of r] f by auto
    then show ?thesis using Call_Exclude up [of _ "P i - rect_pixels r" i] u(2) [OF rect_pixels_room, of r i] f w(1) documentedD(4) [OF sk]
      by (simp add: Exclude_def)
  next
    case (Call_Include_region i j)
    then show ?thesis using d up [of _ "P i \<union> P (the j)" i] u(1) [OF w(2)] w(1) documentedD(3) [OF sk]
      by (cases j) (simp_all add: Include_region_def)
  next
    case (Call_Exclude_region i j)
    then show ?thesis using d up [of _ "P i - P (the j)" i] u(2) [OF w(2)] w(1) documentedD(4) [OF sk]
      by (cases j) (simp_all add: Exclude_region_def)
  next
    case (Call_IntersectWith i j)
    then show ?thesis using d up [of _ "P i \<inter> P (the j)" i] u(3) [OF w(2)] w(1) documentedD(5) [OF sk]
      by (cases j) (simp_all add: IntersectWith_def)
  next
    case (Call_Offset i dh dv)
    then show ?thesis using up [of _ "shift dh dv (P i)" i] f w documentedD(7) [OF sk, of dh dv "w i"]
      by (simp add: Region_OffsetBy_def)
  next
    case (Call_MakeEmpty i)
    then show ?thesis using up [of _ "{}" i] documentedD(1) [OF sk] by (simp add: Region_MakeEmpty_def)
  qed
qed

lemma region_calls_pixels:
  assumes "documented sk"
  shows "denotes sk w P \<Longrightarrow> calls_fit cs P \<Longrightarrow> \<exists>w'. region_calls sk cs w = Inr w' \<and> denotes sk w' (fold pixel_call cs P)"
proof (induction cs arbitrary: w P)
  case (Cons c cs)
  obtain w1 where w1: "region_call sk c w = Inr w1" "denotes sk w1 (pixel_call c P)"
    using region_call_pixels [OF assms Cons.prems(1), of c] Cons.prems(2) by auto
  then show ?case using Cons.IH [OF w1(2)] Cons.prems(2) by simp
qed simp

lemma rects_cover:
  assumes "documented sk" "length (sk_rects sk r) < 2 ^ 31"
  shows "contents sk r = (\<Union>i\<in>{0..<CountRects sk r}. pixels (RectAtInt sk r i))"
proof -
  have c: "CountRects sk r = int (length (sk_rects sk r))" using assms(2) by (simp add: CountRects_def int32_of_nat)
  have at: "RectAtInt sk r (int k) = sk_rects sk r ! k" if "k < length (sk_rects sk r)" for k
  proof -
    have "size_t (int k) = k" using that assms(2) by (intro size_t_of_nat) simp
    then show ?thesis using that by (auto simp: RectAtInt_def Let_def)
  qed
  have "contents sk r = (\<Union>k<length (sk_rects sk r). pixels (sk_rects sk r ! k))"
    unfolding documentedD(8) [OF assms(1)] by (auto simp: set_conv_nth)
  also have "\<dots> = (\<Union>i\<in>{0..<CountRects sk r}. pixels (RectAtInt sk r i))"
  proof -
    have "{0..<CountRects sk r} = int ` {..<length (sk_rects sk r)}"
      using c by (auto simp: image_iff) (metis lessThan_iff nonneg_int_cases of_nat_less_iff)
    then show ?thesis by (simp add: at)
  qed
  finally show ?thesis .
qed

lemma RectAtInt_outside:
  assumes "length (sk_rects sk r) < 2 ^ 31" "int32_range n" "n < 0 \<or> CountRects sk r \<le> n"
  shows "RectAtInt sk r n = LTRB 0 0 0 0"
proof -
  have c: "CountRects sk r = int (length (sk_rects sk r))" using assms(1) by (simp add: CountRects_def int32_of_nat)
  have "length (sk_rects sk r) \<le> size_t n"
  proof (cases "n < 0")
    case True
    then have "2 ^ 63 \<le> size_t n" using assms(2) by (intro size_t_neg) (auto simp: int32_range_def)
    then show ?thesis using assms(1) by simp
  next
    case False
    then have "size_t n = nat n" using assms(2) by (intro size_t_nonneg) (auto simp: int32_range_def)
    then show ?thesis using False assms(3) c by simp
  qed
  then show ?thesis by (simp add: RectAtInt_def Let_def)
qed

section \<open>An instance\<close>

text \<open>A region as the list of its pixels, with a rectangle for each.\<close>

definition pixel_skia :: "(int \<times> int) list skia" where
  "pixel_skia = \<lparr>sk_empty = [],
     sk_rect = (\<lambda>c. List.product [c_left c..c_right c - 1] [c_top c..c_bottom c - 1]),
     sk_op = (\<lambda>r s k. case k of Union \<Rightarrow> r @ s | Difference \<Rightarrow> filter (\<lambda>p. p \<notin> set s) r
       | Intersection \<Rightarrow> filter (\<lambda>p. p \<in> set s) r),
     sk_contains = (\<lambda>r x y. (x, y) \<in> set r),
     sk_intersects = (\<lambda>r c. \<exists>p\<in>set r. p \<in> pixels c),
     sk_translate = (\<lambda>r dx dy. map (\<lambda>(x, y). (x + dx, y + dy)) (filter (\<lambda>p. p \<in> plane) r)),
     sk_bounds = (\<lambda>r. let q = filter (\<lambda>p. p \<in> plane) r in if q = [] then LTRB 0 0 0 0
       else LTRB (Min (fst ` set q)) (Min (snd ` set q)) (Max (fst ` set q) + 1) (Max (snd ` set q) + 1)),
     sk_rects = (\<lambda>r. map (\<lambda>(x, y). LTRB x y (x + 1) (y + 1)) (filter (\<lambda>p. p \<in> plane) r))\<rparr>"

lemma contents_pixel_skia: "contents pixel_skia r = set r \<inter> plane"
  by (auto simp: contents_def pixel_skia_def)

lemma small_plane: "small c \<Longrightarrow> pixels c \<subseteq> plane"
  by (auto simp: small_def pixels_def plane_def moderate_def int32_range_def)

lemma room_plane: "room \<subseteq> plane"
  by (auto simp: room_def plane_def int32_range_def)

lemma bounds_pixel_skia:
  "set r \<inter> plane \<subseteq> pixels (sk_bounds pixel_skia r) \<and>
    (\<forall>c. set r \<inter> plane \<subseteq> pixels c \<longrightarrow> pixels (sk_bounds pixel_skia r) \<subseteq> pixels c)"
proof -
  define q where "q = filter (\<lambda>p. p \<in> plane) r"
  have q: "set r \<inter> plane = set q" by (auto simp: q_def)
  have b: "sk_bounds pixel_skia r = (if q = [] then LTRB 0 0 0 0
       else LTRB (Min (fst ` set q)) (Min (snd ` set q)) (Max (fst ` set q) + 1) (Max (snd ` set q) + 1))"
    by (simp add: pixel_skia_def q_def Let_def)
  show ?thesis unfolding q
  proof (cases "q = []")
    case True
    then show "set q \<subseteq> pixels (sk_bounds pixel_skia r) \<and> (\<forall>c. set q \<subseteq> pixels c \<longrightarrow> pixels (sk_bounds pixel_skia r) \<subseteq> pixels c)"
      by (auto simp: b pixels_def LTRB_def)
  next
    case False
    let ?f = "fst ` set q" and ?s = "snd ` set q"
    have "Min ?f \<le> x \<and> x \<le> Max ?f \<and> Min ?s \<le> y \<and> y \<le> Max ?s" if "(x, y) \<in> set q" for x y
      using that by (auto simp: image_iff intro!: Min_le Max_ge) force+
    then have sub: "set q \<subseteq> pixels (sk_bounds pixel_skia r)" using False by (auto simp: b pixels_def LTRB_def)
    have "pixels (sk_bounds pixel_skia r) \<subseteq> pixels c" if c: "set q \<subseteq> pixels c" for c
    proof -
      have "Min ?f \<in> ?f" "Max ?f \<in> ?f" "Min ?s \<in> ?s" "Max ?s \<in> ?s" using False by (simp_all)
      then have "c_left c \<le> Min ?f" "Max ?f < c_right c" "c_top c \<le> Min ?s" "Max ?s < c_bottom c"
        using c by (auto simp: pixels_def)
      moreover have "sk_bounds pixel_skia r = LTRB (Min ?f) (Min ?s) (Max ?f + 1) (Max ?s + 1)" using b False by simp
      ultimately show ?thesis by (simp only: pixels_def LTRB_def) auto
    qed
    then show "set q \<subseteq> pixels (sk_bounds pixel_skia r) \<and> (\<forall>c. set q \<subseteq> pixels c \<longrightarrow> pixels (sk_bounds pixel_skia r) \<subseteq> pixels c)"
      using sub by blast
  qed
qed

lemma documented_pixel_skia: "documented pixel_skia"
proof -
  have rects: "set r \<inter> plane = (\<Union>c\<in>set (sk_rects pixel_skia r). pixels c)" for r :: "(int \<times> int) list"
  proof -
    have "pixels (LTRB x y (x + 1) (y + 1)) = {(x, y)}" for x y by (auto simp: pixels_def LTRB_def)
    then show ?thesis by (auto simp: pixel_skia_def)
  qed
  have rect: "set (sk_rect pixel_skia c) \<inter> plane = pixels c" if "small c" for c
    using small_plane [OF that] by (auto simp: pixel_skia_def pixels_def)
  have meets: "sk_intersects pixel_skia r c \<longleftrightarrow> set r \<inter> plane \<inter> pixels c \<noteq> {}" if "small c" for r c
    using small_plane [OF that] by (auto simp: pixel_skia_def)
  have move: "set (sk_translate pixel_skia r dx dy) \<inter> plane = shift dx dy (set r \<inter> plane)"
    if "shift dx dy (set r \<inter> plane) \<subseteq> room" for r dx dy
  proof -
    have "set (sk_translate pixel_skia r dx dy) = shift dx dy (set r \<inter> plane)" by (auto simp: pixel_skia_def shift_def)
    then show ?thesis using that room_plane by auto
  qed
  have ops: "set (sk_op pixel_skia r s Union) = set r \<union> set s" "set (sk_op pixel_skia r s Difference) = set r - set s"
    "set (sk_op pixel_skia r s Intersection) = set r \<inter> set s" "sk_empty pixel_skia = []" for r s
    by (auto simp: pixel_skia_def)
  show ?thesis
    unfolding documented_def contents_pixel_skia
    by (intro conjI allI impI) (simp_all only: rects [symmetric] rect meets move ops bounds_pixel_skia, auto)
qed

section \<open>Properties\<close>

text \<open>C15. A region is the set of the pixels that its calls put together. Over any sequence of calls on any number of regions (construction
  from a rectangle, copy, assignment, \<open>Set\<close>, \<open>Include\<close> and \<open>Exclude\<close> of a rectangle or of a region, a null pointer or the
  region itself included, \<open>IntersectWith\<close>, \<open>OffsetBy\<close>, \<open>MakeEmpty\<close>) with coordinates within \<open>2^30\<close>, every region
  contains exactly the pixels of the corresponding set expression, meets a rectangle exactly when they share a pixel, has the smallest rectangle
  around them as its frame, and the rectangles at the indices below \<open>CountRects\<close> cover them and nothing else; any other
  index gives the empty rectangle. The right and the bottom edge of a rectangle are not in its region, unlike what the comment on
  \<open>clipping_rect\<close> says.\<close>

theorem region_is_pixel_set:
  assumes "documented sk" "calls_fit cs (\<lambda>_. {})" "rect_fits r"
  shows "\<exists>w. region_calls sk cs (\<lambda>_. Region_new sk) = Inr w \<and> (\<forall>i. let P = fold pixel_call cs (\<lambda>_. {}) i in
    (\<forall>x y. int32_range x \<and> int32_range y \<longrightarrow> (Region_Contains_int sk (w i) x y \<longleftrightarrow> (x, y) \<in> P)) \<and>
    Region_Intersects sk (w i) r = Inr (P \<inter> rect_pixels r \<noteq> {}) \<and>
    P \<subseteq> pixels (FrameInt sk (w i)) \<and> (\<forall>c. P \<subseteq> pixels c \<longrightarrow> pixels (FrameInt sk (w i)) \<subseteq> pixels c) \<and>
    (length (sk_rects sk (w i)) < 2 ^ 31 \<longrightarrow>
      (\<Union>n\<in>{0..<CountRects sk (w i)}. pixels (RectAtInt sk (w i) n)) = P \<and>
      (\<forall>n. int32_range n \<and> (n < 0 \<or> CountRects sk (w i) \<le> n) \<longrightarrow> RectAtInt sk (w i) n = LTRB 0 0 0 0)))"
proof -
  have "denotes sk (\<lambda>_. Region_new sk) (\<lambda>_. {})" using documentedD(1) [OF assms(1)] by (simp add: denotes_def Region_new_def)
  from region_calls_pixels [OF assms(1) this assms(2)] obtain w where
    w: "region_calls sk cs (\<lambda>_. Region_new sk) = Inr w" "denotes sk w (fold pixel_call cs (\<lambda>_. {}))" by blast
  then have P: "fold pixel_call cs (\<lambda>_. {}) i = contents sk (w i)" for i by (simp add: denotes_def)
  have "Region_Contains_int sk (w i) x y \<longleftrightarrow> (x, y) \<in> contents sk (w i)" if "int32_range x \<and> int32_range y" for i x y
    using that by (simp add: Region_Contains_int_def contents_def plane_def)
  moreover have "Region_Intersects sk (w i) r = Inr (contents sk (w i) \<inter> rect_pixels r \<noteq> {})" for i
    using MakeLTRB_fits [OF assms(3)] documentedD(6) [OF assms(1)] by (auto simp: Region_Intersects_def)
  moreover have "\<forall>n. int32_range n \<and> (n < 0 \<or> CountRects sk (w i) \<le> n) \<longrightarrow> RectAtInt sk (w i) n = LTRB 0 0 0 0"
    if "length (sk_rects sk (w i)) < 2 ^ 31" for i
    using RectAtInt_outside [OF that] by blast
  ultimately show ?thesis unfolding P Let_def FrameInt_def
    using w(1) documentedD(9) [OF assms(1)] rects_cover [OF assms(1)] by (intro exI [of _ w]) simp
qed

text \<open>Region 0 is a square without a square in it; region 1 is a copy of it, moved, and then excluded from region 0; region 1 is taken out of itself.\<close>

lemma region_is_pixel_set_witness:
  "\<exists>w. region_calls pixel_skia [Call_Include 0 (int_rect 0 0 3 3), Call_Exclude 0 (int_rect 1 1 2 2), Call_copy 1 0, Call_Offset 1 1 0,
      Call_Exclude_region 0 (Some 1), Call_Exclude_region 1 (Some 1), Call_IntersectWith 0 None] (\<lambda>_. Region_new pixel_skia) = Inr w \<and>
    Region_Contains_int pixel_skia (w 0) 0 0 \<and> \<not> Region_Contains_int pixel_skia (w 0) 1 1 \<and>
    \<not> Region_Contains_int pixel_skia (w 0) 2 2 \<and> \<not> Region_Contains_int pixel_skia (w 1) 1 0"
proof -
  let ?cs = "[Call_Include 0 (int_rect 0 0 3 3), Call_Exclude 0 (int_rect 1 1 2 2), Call_copy 1 0, Call_Offset 1 1 0,
      Call_Exclude_region 0 (Some 1), Call_Exclude_region 1 (Some 1), Call_IntersectWith 0 None]"
  have r: "rect_pixels (int_rect 0 0 3 3) = {(x, y). 0 \<le> x \<and> x < 3 \<and> 0 \<le> y \<and> y < 3}"
    "rect_pixels (int_rect 1 1 2 2) = {(x, y). 1 \<le> x \<and> x < 2 \<and> 1 \<le> y \<and> y < 2}"
    by (simp_all add: rect_pixels_def int_rect_def Rect_of_def exact_def trunc_def)
  have s: "shift 1 0 A = {(x, y). (x - 1, y) \<in> A}" for A by (force simp: shift_def image_iff)
  have fits: "rect_fits (int_rect 0 0 3 3)" "rect_fits (int_rect 1 1 2 2)"
    by (simp_all add: rect_fits_def int_rect_def Rect_of_def exact_def trunc_def moderate_def)
  have f: "calls_fit ?cs (\<lambda>_. {})" using fits by (auto simp: s r int32_range_def room_def)
  have m: "(0, 0) \<in> fold pixel_call ?cs (\<lambda>_. {}) 0" "(1, 1) \<notin> fold pixel_call ?cs (\<lambda>_. {}) 0" "(2, 2) \<notin> fold pixel_call ?cs (\<lambda>_. {}) 0"
    "(1, 0) \<notin> fold pixel_call ?cs (\<lambda>_. {}) 1"
    by (simp_all add: s r)
  have i: "int32_range 0" "int32_range 1" "int32_range 2" by (simp_all add: int32_range_def)
  obtain w where w: "region_calls pixel_skia ?cs (\<lambda>_. Region_new pixel_skia) = Inr w"
    "\<And>j. \<forall>x y. int32_range x \<and> int32_range y \<longrightarrow> (Region_Contains_int pixel_skia (w j) x y \<longleftrightarrow> (x, y) \<in> fold pixel_call ?cs (\<lambda>_. {}) j)"
    using region_is_pixel_set [OF documented_pixel_skia f fits(1), unfolded Let_def]
  proof (elim exE conjE, goal_cases)
    case (1 w)
    show ?case by (rule 1(1) [OF 1(2) 1(3) [THEN spec, THEN conjunct1]])
  qed
  note c = w(2) [THEN spec, THEN spec, THEN mp, OF conjI]
  have "Region_Contains_int pixel_skia (w 0) 0 0" using c [OF i(1,1)] m(1) by simp
  moreover have "\<not> Region_Contains_int pixel_skia (w 0) 1 1" using c [OF i(2,2)] m(2) by simp
  moreover have "\<not> Region_Contains_int pixel_skia (w 0) 2 2" using c [OF i(3,3)] m(3) by simp
  moreover have "\<not> Region_Contains_int pixel_skia (w 1) 1 0" using c [OF i(2,1)] m(4) by simp
  ultimately show ?thesis using w(1) by (intro exI [of _ w] conjI)
qed

text \<open>The edges: the region of a whole-number rectangle contains the points of the rectangle that are
  not on its right or bottom edge, so the corner that \<open>BRect\<close> contains, and that the comment on
  \<open>clipping_rect\<close> includes, is missing, and a rectangle of width 0 or height 0, one line of pixels,
  gives an empty region. \<open>Contains\<close> of a point cuts the fraction off, so a point left of a region that
  starts at 0 is taken for one inside.\<close>

lemma region_edges:
  assumes "documented sk" "\<forall>n\<in>{l, t, r, b, x, y}. exact n" "l \<le> r" "t \<le> b"
  shows "\<exists>this. Region_rect sk (int_rect l t r b) = Inr this \<and>
    (Region_Contains_int sk this x y \<longleftrightarrow> Contains (int_rect l t r b) (int_point x y) \<and> x \<noteq> r \<and> y \<noteq> b) \<and>
    Contains (int_rect l t r b) (int_point r b) \<and> \<not> Region_Contains_int sk this r b \<and>
    (l = r \<or> t = b \<longrightarrow> \<not> Region_Contains_int sk this x y) \<and>
    (l = 0 \<and> 0 < r \<and> t \<le> y \<and> y < b \<longrightarrow>
       Region_Contains sk this (Point_new (Fin (- (1 / 2))) (fint y)) = Inr True \<and>
       \<not> Contains (int_rect l t r b) (Point_new (Fin (- (1 / 2))) (fint y)))"
proof -
  have e: "exact l" "exact t" "exact r" "exact b" "exact x" "exact y" using assms(2) by simp_all
  have m: "MakeLTRB (int_rect l t r b) = Inr (LTRB l t r b)"
    using e by (simp add: MakeLTRB_def int_rect_def Rect_of_def to_int32_int del: to_int32.simps)
  have sm: "small (LTRB l t r b)" using e by (auto simp: small_def LTRB_def moderate_def exact_def)
  have c: "Region_Contains_int sk (sk_rect sk (LTRB l t r b)) u v \<longleftrightarrow> l \<le> u \<and> u < r \<and> t \<le> v \<and> v < b" if "exact u" "exact v" for u v
  proof -
    have "(u, v) \<in> plane" using that by (auto simp: plane_def int32_range_def exact_def)
    moreover have "(u, v) \<in> contents sk (sk_rect sk (LTRB l t r b)) \<longleftrightarrow> l \<le> u \<and> u < r \<and> t \<le> v \<and> v < b"
      unfolding documentedD(2) [OF assms(1) sm] by (simp add: pixels_def LTRB_def)
    ultimately show ?thesis by (simp add: Region_Contains_int_def contents_def)
  qed
  have p: "Contains (int_rect l t r b) (int_point x y) \<longleftrightarrow> l \<le> x \<and> x \<le> r \<and> t \<le> y \<and> y \<le> b"
    "Contains (int_rect l t r b) (int_point r b)"
    using assms Contains_int [of l t r b x y] Contains_int [of l t r b r b] by simp_all
  have half: "to_int32 (Fin (- (1 / 2))) = Inr 0"
  proof -
    have "\<lceil>- (1 / 2) :: rat\<rceil> = 0" by (rule ceiling_unique) simp_all
    then show ?thesis by (simp add: trunc_def)
  qed
  have "Region_Contains sk (sk_rect sk (LTRB l t r b)) (Point_new (Fin (- (1 / 2))) (fint y)) = Inr True \<and>
       \<not> Contains (int_rect l t r b) (Point_new (Fin (- (1 / 2))) (fint y))"
    if "l = 0" "0 < r" "t \<le> y" "y < b"
    using that e half to_int32_int [of y] c [OF _ e(6), of 0]
    by (simp add: Region_Contains_def Point_new_def Contains_def int_rect_def Rect_of_def del: to_int32.simps)
  then show ?thesis using m c [OF e(5,6)] c [OF e(3,4)] p assms(3,4) by (auto simp: Region_rect_def)
qed

end
