(* ===== verification/DrawState.thy ===== *)
theory DrawState
  imports Rect
begin

text \<open>
  The drawing state of a view: \<open>BView::impl\<close> in \<open>kits/interface/View.cpp\<close>, its stack of states, and the
  operations of \<open>BView\<close> that read and change the top of the stack. A stack is the list of its states,
  the top first; it is never empty. The font of a state is not modelled.
\<close>

section \<open>Colours, modes and states\<close>

record rgb_color =
  c_red :: byte
  c_green :: byte
  c_blue :: byte
  c_alpha :: byte

datatype drawing_mode = B_OP_COPY | B_OP_OVER | B_OP_ERASE | B_OP_INVERT | B_OP_ADD | B_OP_SUBTRACT
  | B_OP_BLEND | B_OP_MIN | B_OP_MAX | B_OP_SELECT | B_OP_ALPHA

datatype join_mode = B_ROUND_JOIN | B_MITER_JOIN | B_BEVEL_JOIN | B_BUTT_JOIN | B_SQUARE_JOIN
datatype cap_mode = B_ROUND_CAP | B_BUTT_CAP | B_SQUARE_CAP

datatype sk_cap = ButtCap | RoundCap | SquareCap
datatype sk_join = MiterJoin | RoundJoin | BevelJoin

definition B_TRANSPARENT_COLOR :: rgb_color where
  "B_TRANSPARENT_COLOR = \<lparr>c_red = 0x77, c_green = 0x74, c_blue = 0x77, c_alpha = 0\<rparr>"

definition white :: rgb_color where "white = \<lparr>c_red = 255, c_green = 255, c_blue = 255, c_alpha = 255\<rparr>"
definition black :: rgb_color where "black = \<lparr>c_red = 0, c_green = 0, c_blue = 0, c_alpha = 255\<rparr>"

record draw_state =
  s_checkpoint :: int
  s_view_color :: rgb_color
  s_high_color :: rgb_color
  s_low_color :: rgb_color
  s_origin :: point
  s_drawing_mode :: drawing_mode
  s_pen_size :: flt
  s_cap_mode :: sk_cap
  s_join_mode :: sk_join
  s_miter_limit :: flt
  s_pen_location :: point
  s_font_aliasing :: bool

definition initial_state :: draw_state where
  "initial_state = \<lparr>s_checkpoint = 0, s_view_color = white, s_high_color = black, s_low_color = white,
     s_origin = Point_new (Fin 0) (Fin 0), s_drawing_mode = B_OP_COPY, s_pen_size = Fin 1, s_cap_mode = SquareCap,
     s_join_mode = MiterJoin, s_miter_limit = Fin 10, s_pen_location = Point_new (Fin 0) (Fin 0),
     s_font_aliasing = False\<rparr>"

type_synonym state_stack = "draw_state list"

definition new_stack :: state_stack where "new_stack = [initial_state]"

definition S :: "state_stack \<Rightarrow> draw_state" where "S st = hd st"

definition set_S :: "(draw_state \<Rightarrow> draw_state) \<Rightarrow> state_stack \<Rightarrow> state_stack" where
  "set_S f st = f (hd st) # tl st"

definition push_state :: "int \<Rightarrow> state_stack \<Rightarrow> state_stack" where
  "push_state checkpoint st = (S st)\<lparr>s_checkpoint := checkpoint\<rparr> # st"

definition pop_state :: "state_stack \<Rightarrow> int \<times> state_stack" where
  "pop_state st = (if 1 < length st then (s_checkpoint (S st), tl st) else (- 1, st))"

definition state_stack_empty :: "state_stack \<Rightarrow> bool" where
  "state_stack_empty st \<longleftrightarrow> length st \<le> 1"

fun clear_state_stack :: "state_stack \<Rightarrow> state_stack" where
  "clear_state_stack (s # t # st) = clear_state_stack (t # st)"
| "clear_state_stack st = st"

text \<open>The 64 pixels of a pattern: a row is a byte, its highest bit the leftmost pixel.\<close>

definition fill_pattern :: "state_stack \<Rightarrow> byte list \<Rightarrow> rgb_color list" where
  "fill_pattern st p =
     (let low = if s_drawing_mode (S st) \<in> {B_OP_OVER, B_OP_ERASE, B_OP_INVERT, B_OP_SELECT}
                then B_TRANSPARENT_COLOR else s_low_color (S st);
          high = s_high_color (S st)
      in concat (map (\<lambda>row.
           map (\<lambda>m. if (p ! row) AND m \<noteq> 0 then high else low) [0x80, 0x40, 0x20, 0x10, 0x08, 0x04, 0x02, 0x01])
           [0..<8]))"

section \<open>The operations of \<open>BView\<close>\<close>

definition SetDrawingMode :: "drawing_mode \<Rightarrow> state_stack \<Rightarrow> state_stack" where
  "SetDrawingMode mode st = set_S (\<lambda>s. s\<lparr>s_drawing_mode := mode\<rparr>) st"
definition DrawingMode :: "state_stack \<Rightarrow> drawing_mode" where "DrawingMode st = s_drawing_mode (S st)"

definition SetPenSize :: "flt \<Rightarrow> state_stack \<Rightarrow> state_stack" where
  "SetPenSize sz st = (if fless sz (Fin 0) then st else set_S (\<lambda>s. s\<lparr>s_pen_size := sz\<rparr>) st)"
definition PenSize :: "state_stack \<Rightarrow> flt" where "PenSize st = s_pen_size (S st)"

definition SetViewColor :: "rgb_color \<Rightarrow> state_stack \<Rightarrow> state_stack" where
  "SetViewColor c st = set_S (\<lambda>s. s\<lparr>s_view_color := c\<rparr>) st"
definition ViewColor :: "state_stack \<Rightarrow> rgb_color" where "ViewColor st = s_view_color (S st)"
definition SetHighColor :: "rgb_color \<Rightarrow> state_stack \<Rightarrow> state_stack" where
  "SetHighColor c st = set_S (\<lambda>s. s\<lparr>s_high_color := c\<rparr>) st"
definition HighColor :: "state_stack \<Rightarrow> rgb_color" where "HighColor st = s_high_color (S st)"
definition SetLowColor :: "rgb_color \<Rightarrow> state_stack \<Rightarrow> state_stack" where
  "SetLowColor c st = set_S (\<lambda>s. s\<lparr>s_low_color := c\<rparr>) st"
definition LowColor :: "state_stack \<Rightarrow> rgb_color" where "LowColor st = s_low_color (S st)"

fun to_sk_cap :: "cap_mode \<Rightarrow> sk_cap" where
  "to_sk_cap B_ROUND_CAP = RoundCap"
| "to_sk_cap B_BUTT_CAP = ButtCap"
| "to_sk_cap B_SQUARE_CAP = SquareCap"

fun to_sk_join :: "join_mode \<Rightarrow> sk_join" where
  "to_sk_join B_ROUND_JOIN = RoundJoin"
| "to_sk_join B_MITER_JOIN = MiterJoin"
| "to_sk_join B_BUTT_JOIN = MiterJoin"
| "to_sk_join B_SQUARE_JOIN = MiterJoin"
| "to_sk_join B_BEVEL_JOIN = BevelJoin"

definition SetLineMode :: "cap_mode \<Rightarrow> join_mode \<Rightarrow> flt \<Rightarrow> state_stack \<Rightarrow> state_stack" where
  "SetLineMode lineCap lineJoin miterLimit st =
     set_S (\<lambda>s. s\<lparr>s_cap_mode := to_sk_cap lineCap, s_join_mode := to_sk_join lineJoin, s_miter_limit := miterLimit\<rparr>) st"

definition LineJoinMode :: "state_stack \<Rightarrow> join_mode" where
  "LineJoinMode st =
     (case s_join_mode (S st) of MiterJoin \<Rightarrow> B_MITER_JOIN | RoundJoin \<Rightarrow> B_ROUND_JOIN | BevelJoin \<Rightarrow> B_BEVEL_JOIN)"

definition LineCapMode :: "state_stack \<Rightarrow> cap_mode" where
  "LineCapMode st =
     (case s_cap_mode (S st) of ButtCap \<Rightarrow> B_BUTT_CAP | RoundCap \<Rightarrow> B_ROUND_CAP | SquareCap \<Rightarrow> B_SQUARE_CAP)"

definition LineMiterLimit :: "state_stack \<Rightarrow> flt" where "LineMiterLimit st = s_miter_limit (S st)"

definition SetOrigin_point :: "point \<Rightarrow> state_stack \<Rightarrow> state_stack" where
  "SetOrigin_point pt st = set_S (\<lambda>s. s\<lparr>s_origin := Point_new (pt_x pt) (pt_y pt)\<rparr>) st"
definition SetOrigin :: "flt \<Rightarrow> flt \<Rightarrow> state_stack \<Rightarrow> state_stack" where
  "SetOrigin x y st = set_S (\<lambda>s. s\<lparr>s_origin := Point_new x y\<rparr>) st"
definition Origin :: "state_stack \<Rightarrow> point" where
  "Origin st = Point_new (pt_x (s_origin (S st))) (pt_y (s_origin (S st)))"

text \<open>
  \<open>canvas\<close> says what the canvas of the window is: none, or one whose \<open>save()\<close> returns the given
  number. \<open>PopState\<close> returns the number that the canvas is restored to, if it is.
\<close>

definition PushState :: "int option \<Rightarrow> state_stack \<Rightarrow> state_stack" where
  "PushState canvas st =
     (case canvas of
        None \<Rightarrow> st
      | Some checkpoint \<Rightarrow> set_S (\<lambda>s. s\<lparr>s_origin := Point_new (Fin 0) (Fin 0)\<rparr>) (push_state checkpoint st))"

definition PopState :: "bool \<Rightarrow> state_stack \<Rightarrow> int option \<times> state_stack" where
  "PopState canvas st =
     (if \<not> canvas then (None, st)
      else let (checkpoint, st) = pop_state st in (if 0 < checkpoint then Some checkpoint else None, st))"

definition MovePenTo_point :: "point \<Rightarrow> state_stack \<Rightarrow> state_stack" where
  "MovePenTo_point pt st = set_S (\<lambda>s. s\<lparr>s_pen_location := Point_new (pt_x pt) (pt_y pt)\<rparr>) st"
definition MovePenTo :: "flt \<Rightarrow> flt \<Rightarrow> state_stack \<Rightarrow> state_stack" where
  "MovePenTo x y st = set_S (\<lambda>s. s\<lparr>s_pen_location := Point_new x y\<rparr>) st"
definition MovePenBy :: "flt \<Rightarrow> flt \<Rightarrow> state_stack \<Rightarrow> state_stack" where
  "MovePenBy x y st =
     set_S (\<lambda>s. s\<lparr>s_pen_location := Point_new (fadd (pt_x (s_pen_location s)) x) (fadd (pt_y (s_pen_location s)) y)\<rparr>) st"
definition PenLocation :: "state_stack \<Rightarrow> point" where
  "PenLocation st = Point_new (pt_x (s_pen_location (S st))) (pt_y (s_pen_location (S st)))"

definition ForceFontAliasing :: "bool \<Rightarrow> state_stack \<Rightarrow> state_stack" where
  "ForceFontAliasing enable st = set_S (\<lambda>s. s\<lparr>s_font_aliasing := enable\<rparr>) st"

section \<open>Commands on a stack\<close>

datatype draw_command =
    Set_mode drawing_mode | Set_pen flt | Set_view_color rgb_color | Set_high_color rgb_color | Set_low_color rgb_color
  | Set_line cap_mode join_mode flt | Set_origin flt flt | Move_to flt flt | Move_by flt flt | Set_aliasing bool
  | Push int | Pop

fun draw_call :: "draw_command \<Rightarrow> state_stack \<Rightarrow> state_stack" where
  "draw_call (Set_mode m) st = SetDrawingMode m st"
| "draw_call (Set_pen s) st = SetPenSize s st"
| "draw_call (Set_view_color c) st = SetViewColor c st"
| "draw_call (Set_high_color c) st = SetHighColor c st"
| "draw_call (Set_low_color c) st = SetLowColor c st"
| "draw_call (Set_line c j l) st = SetLineMode c j l st"
| "draw_call (Set_origin x y) st = SetOrigin x y st"
| "draw_call (Move_to x y) st = MovePenTo x y st"
| "draw_call (Move_by x y) st = MovePenBy x y st"
| "draw_call (Set_aliasing b) st = ForceFontAliasing b st"
| "draw_call (Push n) st = PushState (Some n) st"
| "draw_call Pop st = snd (PopState True st)"

fun draw_calls :: "draw_command list \<Rightarrow> state_stack \<Rightarrow> state_stack" where
  "draw_calls [] st = st"
| "draw_calls (c # cs) st = draw_calls cs (draw_call c st)"

text \<open>Balanced commands: what is pushed is popped, and nothing else is.\<close>

fun balanced :: "nat \<Rightarrow> draw_command list \<Rightarrow> bool" where
  "balanced n [] \<longleftrightarrow> n = 0"
| "balanced n (c # cs) \<longleftrightarrow>
     (case c of
        Push _ \<Rightarrow> balanced (Suc n) cs
      | Pop \<Rightarrow> 0 < n \<and> balanced (n - 1) cs
      | _ \<Rightarrow> balanced n cs)"

lemmas setter_defs = SetDrawingMode_def SetPenSize_def SetViewColor_def SetHighColor_def SetLowColor_def
  SetLineMode_def SetOrigin_def MovePenTo_def MovePenBy_def ForceFontAliasing_def set_S_def S_def

lemma draw_call_setter:
  assumes "\<forall>n. c \<noteq> Push n" "c \<noteq> Pop"
  shows "\<exists>s'. draw_call c (s # st) = s' # st \<and> s_checkpoint s' = s_checkpoint s"
  using assms by (cases c) (auto simp: setter_defs)

lemma clear_state_stack_last: "st \<noteq> [] \<Longrightarrow> clear_state_stack st = [last st]"
  by (induction st rule: clear_state_stack.induct) auto

text \<open>Below the states that the commands push, the stack keeps its states and its checkpoint.\<close>

lemma draw_calls_balanced:
  "balanced (length ups) cs \<Longrightarrow>
     \<exists>s. draw_calls cs (ups @ t # rest) = s # rest \<and> s_checkpoint s = s_checkpoint t"
proof (induction cs arbitrary: ups t)
  case (Cons c cs)
  consider (push) k where "c = Push k" | (pop) "c = Pop" | (setter) "\<forall>n. c \<noteq> Push n" "c \<noteq> Pop" by blast
  then show ?case
  proof cases
    case (push k)
    then have "balanced (length (x # ups)) cs" for x using Cons.prems by simp
    from Cons.IH [OF this] push show ?thesis by (simp add: PushState_def push_state_def set_S_def)
  next
    case pop
    then obtain u us where ups: "ups = u # us" "balanced (length us) cs" using Cons.prems by (cases ups) auto
    then show ?thesis using Cons.IH [of us t] pop by (simp add: PopState_def pop_state_def)
  next
    case setter
    then have b: "balanced (length ups) cs" using Cons.prems by (cases c) auto
    show ?thesis
    proof (cases ups)
      case Nil
      then show ?thesis using draw_call_setter [OF setter, of t rest] Cons.IH [of "[]"] b by fastforce
    next
      case (Cons u us)
      then show ?thesis
        using draw_call_setter [OF setter, of u "us @ t # rest"] Cons.IH [of "_ # us" t] b by fastforce
    qed
  qed
qed simp

text \<open>The stack of drawing states. \<open>PushState\<close> starts from a copy of the top with the origin at zero;
  whatever balanced commands follow, \<open>PopState\<close> brings back the stack as it was and returns the number
  that \<open>save()\<close> of the canvas gave. The last state cannot be popped, and clearing the stack keeps it.\<close>

lemma drawing_states_restored:
  assumes "balanced 0 cs" "0 < checkpoint" "st \<noteq> []"
  shows "PopState True (draw_calls cs (PushState (Some checkpoint) st)) = (Some checkpoint, st) \<and>
    Origin (PushState (Some checkpoint) st) = Point_new (Fin 0) (Fin 0) \<and>
    HighColor (PushState (Some checkpoint) st) = HighColor st \<and>
    PopState True [s] = (None, [s]) \<and>
    clear_state_stack (draw_calls cs (PushState (Some checkpoint) st)) = [last st]"
proof -
  let ?t = "(S st)\<lparr>s_checkpoint := checkpoint, s_origin := Point_new (Fin 0) (Fin 0)\<rparr>"
  have p: "PushState (Some checkpoint) st = ?t # st" by (simp add: PushState_def push_state_def set_S_def)
  obtain s' where s': "draw_calls cs (?t # st) = s' # st" "s_checkpoint s' = checkpoint"
    using draw_calls_balanced [of "[]" cs ?t st] assms(1) by auto
  show ?thesis using s' assms(2,3)
    by (simp add: p PopState_def pop_state_def clear_state_stack_last S_def Origin_def HighColor_def Point_new_def)
qed

end
