(* ===== verification/View.thy ===== *)
theory View
  imports Looper DrawState
begin

text \<open>
  \<open>BView\<close> of \<open>kits/interface/View.cpp\<close> without its window: the tree of the views, which the code keeps as
  doubly linked lists of siblings, the coordinate systems of the views, their flags and the stack of
  drawing states. The views live in a store that maps addresses to them. What attaching a view to
  a window adds is in the theory WindowView.
\<close>

section \<open>The views\<close>

record view =
  fFlags :: "32 word"
  fParentOffset :: point
  fBounds :: rect
  fWindow :: ptr   \<comment> \<open>the member \<open>fOwner\<close>\<close>
  fParent :: ptr
  fNextSibling :: ptr
  fPrevSibling :: ptr
  fFirstChild :: ptr
  fEventMask :: "32 word"
  fEventOptions :: "32 word"
  fMouseEventMask :: "32 word"
  fMouseEventOptions :: "32 word"
  fState :: state_stack

type_synonym views = "ptr \<Rightarrow> view option"

definition upd :: "ptr \<Rightarrow> (view \<Rightarrow> view) \<Rightarrow> views \<Rightarrow> views outcome" where
  "upd p f vs = bindR (alive (vs p)) (\<lambda>x. Inr (vs(p := Some (f x))))"

section \<open>The list of the children\<close>

text \<open>The part of \<open>AddChild\<close> that links the child into the list, in front of \<open>before\<close> or at the end.\<close>

partial_function (option) last_from :: "views \<Rightarrow> ptr \<Rightarrow> ptr partial" where
  "last_from vs l =
     (if l = null then Some (Inr null)
      else bindO (Some (alive (vs l))) (\<lambda>x.
        if fNextSibling x = null then Some (Inr l) else last_from vs (fNextSibling x)))"

definition link_before :: "ptr \<Rightarrow> ptr \<Rightarrow> ptr \<Rightarrow> views \<Rightarrow> views outcome" where
  "link_before this child before vs =
     bindR (upd child (\<lambda>x. x\<lparr>fNextSibling := before\<rparr>) vs) (\<lambda>vs.
     bindR (alive (vs before)) (\<lambda>b.
     bindR (upd child (\<lambda>x. x\<lparr>fPrevSibling := fPrevSibling b\<rparr>) vs) (\<lambda>vs.
     bindR (if fPrevSibling b \<noteq> null then upd (fPrevSibling b) (\<lambda>x. x\<lparr>fNextSibling := child\<rparr>) vs else Inr vs) (\<lambda>vs.
     bindR (upd before (\<lambda>x. x\<lparr>fPrevSibling := child\<rparr>) vs) (\<lambda>vs.
     bindR (alive (vs this)) (\<lambda>t.
     if fFirstChild t = before then upd this (\<lambda>x. x\<lparr>fFirstChild := child\<rparr>) vs else Inr vs))))))"

definition link_last :: "ptr \<Rightarrow> ptr \<Rightarrow> ptr \<Rightarrow> views \<Rightarrow> views outcome" where
  "link_last this child l vs =
     bindR (if l \<noteq> null then
              bindR (upd l (\<lambda>x. x\<lparr>fNextSibling := child\<rparr>) vs) (upd child (\<lambda>x. x\<lparr>fPrevSibling := l\<rparr>))
            else
              bindR (upd this (\<lambda>x. x\<lparr>fFirstChild := child\<rparr>) vs) (upd child (\<lambda>x. x\<lparr>fPrevSibling := null\<rparr>)))
       (upd child (\<lambda>x. x\<lparr>fNextSibling := null\<rparr>))"

definition link_child :: "ptr \<Rightarrow> ptr \<Rightarrow> ptr \<Rightarrow> views \<Rightarrow> views partial" where
  "link_child this child before vs =
     bindO (if before \<noteq> null then Some (link_before this child before vs)
            else bindO (Some (alive (vs this))) (\<lambda>t.
                 bindO (last_from vs (fFirstChild t)) (\<lambda>l. Some (link_last this child l vs))))
       (\<lambda>vs. Some (upd child (\<lambda>x. x\<lparr>fParent := this\<rparr>) vs))"

text \<open>The part of \<open>RemoveChild\<close> that takes it out again.\<close>

definition unlink_child :: "ptr \<Rightarrow> ptr \<Rightarrow> views \<Rightarrow> views outcome" where
  "unlink_child this child vs =
     bindR (alive (vs this)) (\<lambda>t.
     bindR (alive (vs child)) (\<lambda>x.
     bindR (if fFirstChild t = child then upd this (\<lambda>t. t\<lparr>fFirstChild := fNextSibling x\<rparr>) vs
            else upd (fPrevSibling x) (\<lambda>y. y\<lparr>fNextSibling := fNextSibling x\<rparr>) vs) (\<lambda>vs.
     bindR (if fNextSibling x \<noteq> null then upd (fNextSibling x) (\<lambda>y. y\<lparr>fPrevSibling := fPrevSibling x\<rparr>) vs else Inr vs)
       (upd child (\<lambda>x. x\<lparr>fParent := null, fNextSibling := null, fPrevSibling := null\<rparr>)))))"

text \<open>The guards of \<open>AddChild\<close>: whether the child is linked, or nothing happens.\<close>

definition AddChild_guard :: "ptr \<Rightarrow> ptr \<Rightarrow> ptr \<Rightarrow> views \<Rightarrow> bool outcome" where
  "AddChild_guard this child before vs =
     (if child = null then Inr False
      else bindR (alive (vs child)) (\<lambda>c.
      if fParent c \<noteq> null then Inl Debugger
      else if child = this then Inl Debugger
      else if before = null then Inr True
      else bindR (alive (vs before)) (\<lambda>b. if fParent b \<noteq> this then Inl Debugger else Inr True)))"

definition RemoveChild_guard :: "ptr \<Rightarrow> ptr \<Rightarrow> views \<Rightarrow> bool outcome" where
  "RemoveChild_guard this child vs =
     (if child = null then Inr False else bindR (alive (vs child)) (\<lambda>c. Inr (fParent c = this)))"

partial_function (option) count_from :: "views \<Rightarrow> ptr \<Rightarrow> 32 word \<Rightarrow> 32 word partial" where
  "count_from vs c n =
     (if c = null then Some (Inr n)
      else bindO (Some (alive (vs c))) (\<lambda>x. count_from vs (fNextSibling x) (n + 1)))"

definition CountChildren :: "views \<Rightarrow> ptr \<Rightarrow> int partial" where
  "CountChildren vs this =
     bindO (Some (alive (vs this))) (\<lambda>t.
     bindO (count_from vs (fFirstChild t) 0) (\<lambda>n. Some (Inr (sint n))))"

partial_function (option) child_from :: "views \<Rightarrow> ptr \<Rightarrow> int \<Rightarrow> ptr partial" where
  "child_from vs c index =
     (if c \<noteq> null \<and> 0 < index
      then bindO (Some (alive (vs c))) (\<lambda>x. child_from vs (fNextSibling x) (index - 1))
      else Some (Inr c))"

definition ChildAt :: "views \<Rightarrow> ptr \<Rightarrow> int \<Rightarrow> ptr partial" where
  "ChildAt vs this index = bindO (Some (alive (vs this))) (\<lambda>t. child_from vs (fFirstChild t) index)"

definition NextSibling :: "view \<Rightarrow> ptr" where "NextSibling this = fNextSibling this"
definition PreviousSibling :: "view \<Rightarrow> ptr" where "PreviousSibling this = fPrevSibling this"
definition Parent :: "view \<Rightarrow> ptr" where "Parent this = fParent this"
definition View_Window :: "view \<Rightarrow> ptr" where "View_Window this = fWindow this"

text \<open>
  \<open>FindView\<close> and its loop over the children, which has reached the child \<open>this\<close> when \<open>loop\<close> is true. The
  names are those of the handlers that the views are.
\<close>

partial_function (option) find_view ::
  "(ptr \<Rightarrow> handler option) \<Rightarrow> views \<Rightarrow> byte list \<Rightarrow> bool \<Rightarrow> ptr \<Rightarrow> ptr partial" where
  "find_view hs vs nm loop this =
     (if loop then
        if this = null then Some (Inr null)
        else bindO (find_view hs vs nm False this) (\<lambda>v.
             if v \<noteq> null then Some (Inr v)
             else bindO (Some (alive (vs this))) (\<lambda>x. find_view hs vs nm True (fNextSibling x)))
      else
        bindO (Some (alive (hs this))) (\<lambda>h.
        if fName h = Some nm then Some (Inr this)
        else bindO (Some (alive (vs this))) (\<lambda>x. find_view hs vs nm True (fFirstChild x))))"

definition FindView :: "(ptr \<Rightarrow> handler option) \<Rightarrow> views \<Rightarrow> ptr \<Rightarrow> mem option \<Rightarrow> ptr partial" where
  "FindView hs vs this nm =
     (case nm of
        None \<Rightarrow> Some (Inr null)
      | Some m \<Rightarrow> bindO (Some (read_cstring m)) (\<lambda>s. find_view hs vs s False this))"

section \<open>Coordinates\<close>

text \<open>
  A null pointer is \<open>None\<close>; the variants that take and return a value are the ones with \<open>Some\<close>. A view
  converts to the screen by way of all its ancestors, and the window adds nothing.
\<close>

definition Bounds :: "view \<Rightarrow> rect" where "Bounds this = fBounds this"

definition View_Frame :: "view \<Rightarrow> rect" where
  "View_Frame this = fst (OffsetToCopy (Bounds this) (pt_x (fParentOffset this)) (pt_y (fParentOffset this)))"

definition View_LeftTop :: "view \<Rightarrow> point" where "View_LeftTop this = LeftTop (fBounds this)"

definition ConvertToParent :: "view \<Rightarrow> point option \<Rightarrow> point option" where
  "ConvertToParent this pt = map_option (\<lambda>p. Point_add_assign p (fParentOffset this)) pt"

definition ConvertFromParent :: "view \<Rightarrow> point option \<Rightarrow> point option" where
  "ConvertFromParent this pt = map_option (\<lambda>p. Point_sub_assign p (fParentOffset this)) pt"

definition ConvertToParent_rect :: "view \<Rightarrow> rect option \<Rightarrow> rect option" where
  "ConvertToParent_rect this r = map_option (\<lambda>r. OffsetBy_point r (fParentOffset this)) r"

definition ConvertFromParent_rect :: "view \<Rightarrow> rect option \<Rightarrow> rect option" where
  "ConvertFromParent_rect this r = map_option (\<lambda>r. OffsetBy_point r (Point_neg (fParentOffset this))) r"

definition Window_ConvertToScreen :: "point option \<Rightarrow> point option" where "Window_ConvertToScreen pt = pt"
definition Window_ConvertFromScreen :: "point option \<Rightarrow> point option" where "Window_ConvertFromScreen pt = pt"

partial_function (option) ConvertToScreen :: "views \<Rightarrow> ptr \<Rightarrow> point option \<Rightarrow> point option partial" where
  "ConvertToScreen vs this pt =
     (if pt = None then Some (Inr None)
      else bindO (Some (alive (vs this))) (\<lambda>x.
        let pt = ConvertToParent x pt
        in if fParent x \<noteq> null then ConvertToScreen vs (fParent x) pt
           else if fWindow x \<noteq> null then Some (Inr (Window_ConvertToScreen pt))
           else Some (Inr pt)))"

partial_function (option) ConvertFromScreen :: "views \<Rightarrow> ptr \<Rightarrow> point option \<Rightarrow> point option partial" where
  "ConvertFromScreen vs this pt =
     (if pt = None then Some (Inr None)
      else bindO (Some (alive (vs this))) (\<lambda>x.
        let pt = ConvertFromParent x pt
        in if fParent x \<noteq> null then ConvertFromScreen vs (fParent x) pt
           else if fWindow x \<noteq> null then Some (Inr (Window_ConvertFromScreen pt))
           else Some (Inr pt)))"

definition ConvertToScreen_rect :: "views \<Rightarrow> ptr \<Rightarrow> rect option \<Rightarrow> rect option partial" where
  "ConvertToScreen_rect vs this r =
     (case r of
        None \<Rightarrow> Some (Inr None)
      | Some r \<Rightarrow> bindO (ConvertToScreen vs this (Some (LeftTop r))) (\<lambda>lt.
          Some (Inr (map_option (OffsetTo_point r) lt))))"

definition ConvertFromScreen_rect :: "views \<Rightarrow> ptr \<Rightarrow> rect option \<Rightarrow> rect option partial" where
  "ConvertFromScreen_rect vs this r =
     (case r of
        None \<Rightarrow> Some (Inr None)
      | Some r \<Rightarrow> bindO (ConvertFromScreen vs this (Some (LeftTop r))) (\<lambda>lt.
          Some (Inr (map_option (OffsetTo_point r) lt))))"

section \<open>Flags\<close>

definition B_WILL_DRAW :: "32 word" where "B_WILL_DRAW = 0x20000000"
definition B_PULSE_NEEDED :: "32 word" where "B_PULSE_NEEDED = 0x10000000"

text \<open>All bits but the eleven flags.\<close>

definition RESIZE_MASK :: "32 word" where
  "RESIZE_MASK = NOT (0x80000000 OR 0x40000000 OR B_WILL_DRAW OR B_PULSE_NEEDED OR 0x08000000 OR 0x04000000 OR
     0x02000000 OR 0x01000000 OR 0x00800000 OR 0x00400000 OR 0x00200000)"

definition Flags :: "view \<Rightarrow> 32 word" where "Flags this = fFlags this AND NOT RESIZE_MASK"

text \<open>What \<open>SetFlags\<close> does to the view itself.\<close>

definition set_flags :: "view \<Rightarrow> 32 word \<Rightarrow> view" where
  "set_flags this flags =
     (if Flags this = flags then this
      else this\<lparr>fFlags := (flags AND NOT RESIZE_MASK) OR (fFlags this AND RESIZE_MASK)\<rparr>)"

definition SetResizingMode :: "view \<Rightarrow> 32 word \<Rightarrow> view" where
  "SetResizingMode this mode = this\<lparr>fFlags := (fFlags this AND NOT RESIZE_MASK) OR (mode AND RESIZE_MASK)\<rparr>"

definition ResizingMode :: "view \<Rightarrow> 32 word" where "ResizingMode this = fFlags this AND RESIZE_MASK"

definition EventMask :: "view \<Rightarrow> 32 word" where "EventMask this = fEventMask this OR fMouseEventMask this"

definition GetPreferredSize :: "view \<Rightarrow> flt \<times> flt" where
  "GetPreferredSize this = (Width (fBounds this), Height (fBounds this))"

text \<open>
  The constructor ends the program when flags and resizing mode are mixed up
  (\<open>LOG_ALWAYS_FATAL_IF\<close>). The frame is cut to whole coordinates; bounds start at the origin.
\<close>

definition View_new :: "rect \<Rightarrow> 32 word \<Rightarrow> 32 word \<Rightarrow> view outcome" where
  "View_new frame resizeMask flags =
     (if resizeMask AND NOT RESIZE_MASK \<noteq> 0 \<or> flags AND RESIZE_MASK \<noteq> 0 then Inl Debugger
      else
        let this = \<lparr>fFlags = 0, fParentOffset = B_ORIGIN, fBounds = Rect_new, fWindow = null, fParent = null,
                    fNextSibling = null, fPrevSibling = null, fFirstChild = null, fEventMask = 0, fEventOptions = 0,
                    fMouseEventMask = 0, fMouseEventOptions = 0, fState = new_stack\<rparr>;
            this = set_flags this ((resizeMask AND RESIZE_MASK) OR (flags AND NOT RESIZE_MASK));
            frame = Rect_of (ffloor (r_left frame)) (ffloor (r_top frame)) (ffloor (r_right frame)) (ffloor (r_bottom frame))
        in Inr (this\<lparr>fParentOffset := Point_Set (fParentOffset this) (r_left frame) (r_top frame),
                     fBounds := fst (OffsetToCopy_point frame B_ORIGIN)\<rparr>))"

lemma upd_iff [be_simps]: "upd p f vs = Inr vs' \<longleftrightarrow> (\<exists>x. vs p = Some x \<and> vs' = vs(p := Some (f x)))"
  by (cases "vs p") (auto simp: upd_def)

end
