(* ===== verification/ViewChildren.thy ===== *)
theory ViewChildren
  imports View
begin

text \<open>
  The children of a view, which \<open>kits/interface/View.cpp\<close> keeps as a doubly linked list in the views themselves,
  as a list: \<open>AddChild\<close> and \<open>RemoveChild\<close> insert into this list and take out of it, and the functions that count
  and find children read it.
\<close>

section \<open>The children as a list\<close>

text \<open>
  \<open>seg vs v prev cs next f\<close>: the views \<open>cs\<close> are linked one after the other, are children of \<open>v\<close>, and lie between
  \<open>prev\<close> and \<open>next\<close>; \<open>f\<close> points to the first of them. \<open>family vs kids\<close>: in the store \<open>vs\<close> the children of every
  view \<open>v\<close> form the list \<open>kids v\<close>, and every view that has a parent is in the list of that parent.
\<close>

fun seg :: "views \<Rightarrow> ptr \<Rightarrow> ptr \<Rightarrow> ptr list \<Rightarrow> ptr \<Rightarrow> ptr \<Rightarrow> bool" where
  "seg vs v prev [] nxt f \<longleftrightarrow> f = nxt"
| "seg vs v prev (c # cs) nxt f \<longleftrightarrow>
     f = c \<and> c \<noteq> null \<and>
     (\<exists>x. vs c = Some x \<and> fParent x = v \<and> fPrevSibling x = prev \<and> seg vs v c cs nxt (fNextSibling x))"

definition family :: "views \<Rightarrow> (ptr \<Rightarrow> ptr list) \<Rightarrow> bool" where
  "family vs kids \<longleftrightarrow>
     vs null = None \<and>
     (\<forall>v x. vs v = Some x \<longrightarrow>
        distinct (kids v) \<and> seg vs v null (kids v) null (fFirstChild x) \<and>
        (if fParent x = null then fNextSibling x = null \<and> fPrevSibling x = null
         else fParent x \<in> dom vs \<and> v \<in> set (kids (fParent x))))"

fun insert_before :: "ptr \<Rightarrow> ptr \<Rightarrow> ptr list \<Rightarrow> ptr list" where
  "insert_before child before [] = [child]"
| "insert_before child before (c # cs) = (if c = before then child # c # cs else c # insert_before child before cs)"

lemma insert_before_split:
  "before \<notin> set as \<Longrightarrow> insert_before child before (as @ before # bs) = as @ child # before # bs"
  "before \<notin> set as \<Longrightarrow> insert_before child before as = as @ [child]"
  by (induction as) auto

text \<open>What the two link operations leave alone.\<close>

definition unlinked :: "view \<Rightarrow> view" where
  "unlinked x = x\<lparr>fParent := null, fNextSibling := null, fPrevSibling := null, fFirstChild := null\<rparr>"

definition relinked :: "views \<Rightarrow> views \<Rightarrow> bool" where
  "relinked vs vs' \<longleftrightarrow> (\<forall>v. map_option unlinked (vs' v) = map_option unlinked (vs v))"

lemma seg_append:
  "seg vs v prev (as @ bs) nxt f \<longleftrightarrow> (\<exists>m. seg vs v prev as m f \<and> seg vs v (last (prev # as)) bs nxt m)"
  by (induction as arbitrary: prev f) (auto split: if_splits)

definition links :: "view \<Rightarrow> ptr \<times> ptr \<times> ptr" where
  "links x = (fParent x, fPrevSibling x, fNextSibling x)"

lemma seg_frame:
  assumes "\<forall>c\<in>set cs. map_option links (vs' c) = map_option links (vs c)"
  shows "seg vs' v prev cs nxt f = seg vs v prev cs nxt f"
  using assms
proof (induction cs arbitrary: prev f)
  case (Cons c cs)
  then show ?case by (cases "vs c"; cases "vs' c") (auto simp: links_def)
qed simp

lemma seg_member: "seg vs v prev cs nxt f \<Longrightarrow> c \<in> set cs \<Longrightarrow> c \<noteq> null \<and> (\<exists>x. vs c = Some x \<and> fParent x = v)"
  by (induction cs arbitrary: prev f) auto

lemma familyD:
  assumes "family vs kids" "vs v = Some x"
  shows "v \<noteq> null" "distinct (kids v)" "seg vs v null (kids v) null (fFirstChild x)"
    "fParent x = null \<Longrightarrow> fNextSibling x = null \<and> fPrevSibling x = null"
    "fParent x \<noteq> null \<Longrightarrow> fParent x \<in> dom vs \<and> v \<in> set (kids (fParent x))"
  using assms unfolding family_def by (metis option.distinct(1))+

lemma familyI:
  assumes "vs null = None"
    "\<And>v x. vs v = Some x \<Longrightarrow> distinct (kids v) \<and> seg vs v null (kids v) null (fFirstChild x)"
    "\<And>v x. vs v = Some x \<Longrightarrow> if fParent x = null then fNextSibling x = null \<and> fPrevSibling x = null
       else fParent x \<in> dom vs \<and> v \<in> set (kids (fParent x))"
  shows "family vs kids"
  using assms unfolding family_def by meson

lemma family_kid: "family vs kids \<Longrightarrow> vs v = Some x \<Longrightarrow> c \<in> set (kids v) \<Longrightarrow> \<exists>y. vs c = Some y \<and> fParent y = v \<and> c \<noteq> null"
  using familyD(3) seg_member by blast

lemma last_from_seg:
  "seg vs v prev cs null f \<Longrightarrow> last_from vs f = Some (Inr (if cs = [] then null else last cs))"
proof (induction cs arbitrary: prev f)
  case (Cons c cs)
  then show ?case by (subst last_from.simps) (cases cs; auto)
qed (simp add: last_from.simps)

lemma link_before_eq:
  assumes "vs child = Some c" "vs before = Some b" "vs this = Some t" "child \<noteq> before" "child \<noteq> this"
    "p = fPrevSibling b" "p \<noteq> null \<longrightarrow> p \<in> dom vs - {child, before}"
  shows "link_before this child before vs = Inr (\<lambda>v. map_option (\<lambda>x. x\<lparr>
     fNextSibling := if v = child then before else if p \<noteq> null \<and> v = p then child else fNextSibling x,
     fPrevSibling := if v = child then p else if v = before then child else fPrevSibling x,
     fFirstChild := if v = this \<and> fFirstChild x = before then child else fFirstChild x\<rparr>) (vs v))"
proof -
  show ?thesis
  proof (cases "p = null")
    case True
    show ?thesis using assms True 
      by (cases "this = before"; cases "fFirstChild t = before") (simp_all add: link_before_def upd_def fun_eq_iff option.map_ident,
        (auto intro!: option.map_ident_strong [symmetric])?)
  next
    case False
    then obtain pb where pb: "vs p = Some pb" using assms(7) by auto
    show ?thesis using assms False pb
      by (cases "this = before"; cases "this = p"; cases "fFirstChild t = before") (simp_all add: link_before_def upd_def fun_eq_iff option.map_ident,
        (auto intro!: option.map_ident_strong [symmetric])?)
  qed
qed

lemma link_last_eq:
  assumes "vs child = Some c" "vs this = Some t" "child \<noteq> this" "l \<noteq> null \<longrightarrow> l \<in> dom vs - {child}"
  shows "link_last this child l vs = Inr (\<lambda>v. map_option (\<lambda>x. x\<lparr>
     fNextSibling := if v = child then null else if l \<noteq> null \<and> v = l then child else fNextSibling x,
     fPrevSibling := if v = child then l else fPrevSibling x,
     fFirstChild := if v = this \<and> l = null then child else fFirstChild x\<rparr>) (vs v))"
  using assms by (auto simp: link_last_def upd_def fun_eq_iff option.map_ident)

text \<open>The store after a child was put between its neighbours \<open>p\<close> and \<open>n\<close>.\<close>

definition inserted :: "ptr \<Rightarrow> ptr \<Rightarrow> ptr \<Rightarrow> ptr \<Rightarrow> views \<Rightarrow> views" where
  "inserted this child p n vs = (\<lambda>v. map_option (\<lambda>x. x\<lparr>
     fParent := if v = child then this else fParent x,
     fNextSibling := if v = child then n else if p \<noteq> null \<and> v = p then child else fNextSibling x,
     fPrevSibling := if v = child then p else if n \<noteq> null \<and> v = n then child else fPrevSibling x,
     fFirstChild := if v = this \<and> p = null then child else fFirstChild x\<rparr>) (vs v))"

lemma dom_inserted [simp]: "inserted this child p n vs v = None \<longleftrightarrow> vs v = None"
  by (simp add: inserted_def)

lemma inserted_at [simp]:
  "vs v = Some x \<Longrightarrow> inserted this child p n vs v = Some (x\<lparr>
     fParent := if v = child then this else fParent x,
     fNextSibling := if v = child then n else if p \<noteq> null \<and> v = p then child else fNextSibling x,
     fPrevSibling := if v = child then p else if n \<noteq> null \<and> v = n then child else fPrevSibling x,
     fFirstChild := if v = this \<and> p = null then child else fFirstChild x\<rparr>)"
  by (simp add: inserted_def)

lemma links_inserted:
  "v \<noteq> child \<Longrightarrow> v \<noteq> p \<or> p = null \<Longrightarrow> v \<noteq> n \<or> n = null \<Longrightarrow>
     map_option links (inserted this child p n vs v) = map_option links (vs v)"
  by (cases "vs v") (auto simp: inserted_def links_def)

lemma seg_inserted:
  assumes "seg vs v prev as m f" "seg vs v (last (prev # as)) bs null m" "distinct (as @ bs)"
    "child \<notin> set (as @ bs)" "child \<noteq> null" "prev = null" "vs child = Some c"
    "p = last (prev # as)" "n = (case bs of [] \<Rightarrow> null | b # _ \<Rightarrow> b)" "v = this"
  shows "seg (inserted this child p n vs) v prev (as @ child # bs) null (if p = null then child else f)"
proof -
  let ?vs = "inserted this child p n vs"
  have nn: "\<forall>a\<in>set (as @ bs). a \<noteq> null" using assms(1,2) seg_member by fastforce
  have pn: "p = null \<longleftrightarrow> as = []" "p \<noteq> null \<Longrightarrow> p \<in> set as" using nn assms(6,8) by auto
  have "seg ?vs v (last (prev # as)) (child # bs) null child"
  proof (cases bs)
    case Nil
    then show ?thesis using assms by (simp add: inserted_def)
  next
    case (Cons b bs')
    then have b: "m = b" "n = b" "b \<noteq> null" "b \<noteq> child" "b \<notin> set as" "b \<notin> set bs'" "child \<notin> set bs'" using assms nn by auto
    then have "seg ?vs v b bs' null g = seg vs v b bs' null g" for g
      using assms(3) Cons pn b(2,6,7) by (intro seg_frame ballI links_inserted) (auto simp del: last.simps simp flip: assms(8))
    moreover obtain x where x: "vs b = Some x" "fParent x = v" "seg vs v b bs' null (fNextSibling x)"
      using assms(2) Cons by auto
    moreover have "b \<noteq> p" using assms(3) Cons pn b by auto
    ultimately show ?thesis using assms(5,7,8,9,10) Cons b by simp
  qed
  moreover have "seg ?vs v prev as child (if p = null then child else f)"
  proof (cases as rule: rev_cases)
    case (snoc as' q)
    obtain k where k: "seg vs v prev as' k f" "seg vs v (last (prev # as')) [q] m k"
      using assms(1) snoc by (auto simp: seg_append)
    have "seg ?vs v prev as' k f = seg vs v prev as' k f"
      using assms(3,4,8,9) snoc pn by (intro seg_frame ballI links_inserted) (auto split: list.splits)
    moreover have "q \<noteq> n" using assms(3,9) snoc nn by (auto split: list.splits)
    moreover obtain x where x: "vs q = Some x" "fParent x = v" "fPrevSibling x = last (prev # as')" "k = q" "q \<noteq> null"
      using k(2) snoc by auto
    moreover have "q \<noteq> child" "p = q" using assms(4,8) snoc by auto
    ultimately show ?thesis using k(1) snoc by (simp add: seg_append)
  qed (use pn in simp)
  ultimately show ?thesis by (subst seg_append) auto
qed

lemma family_inserted:
  assumes "family vs kids" "kids this = as @ bs" "vs child = Some c" "vs this = Some t" "fParent c = null" "child \<noteq> this"
    "p = last (null # as)" "n = (case bs of [] \<Rightarrow> null | b # _ \<Rightarrow> b)"
  shows "family (inserted this child p n vs) (kids(this := as @ child # bs))"
proof -
  let ?vs = "inserted this child p n vs" and ?k = "kids(this := as @ child # bs)"
  have child: "child \<notin> set (kids v)" if "vs v = Some x" for v x
    using family_kid [OF assms(1) that, of child] assms(3,5) familyD(1) [OF assms(1) that] by auto
  have this0: "this \<noteq> null" "child \<noteq> null" using familyD(1) [OF assms(1)] assms(3,4) by blast+
  have pn: "{p, n} \<subseteq> {null} \<union> set (kids this)" using assms(2,7,8) by (auto split: list.splits if_splits)
  have seg: "distinct (?k v) \<and> seg ?vs v null (?k v) null (fFirstChild x')" if a: "?vs v = Some x'" for v x'
  proof -
    obtain x where x: "vs v = Some x" "fFirstChild x' = (if v = this \<and> p = null then child else fFirstChild x)"
      using a by (cases "vs v") (auto simp: inserted_def)
    note f = familyD [OF assms(1) x(1)]
    show ?thesis
    proof (cases "v = this")
      case True
      then obtain m where m: "seg vs v null as m (fFirstChild x)" "seg vs v (last (null # as)) bs null m"
        using f(3) assms(2) by (auto simp: seg_append)
      have "seg ?vs v null (as @ child # bs) null (if p = null then child else fFirstChild x)"
        by (rule seg_inserted [OF m]) (use f(2) child [OF x(1)] True assms this0 in auto)
      then show ?thesis using x(2) True f(2) child [OF x(1)] assms(2) by simp
    next
      case False
      have "map_option links (?vs c) = map_option links (vs c)" if a: "c \<in> set (kids v)" for c
      proof -
        obtain y where y: "vs c = Some y" "fParent y = v" "c \<noteq> null" using family_kid [OF assms(1) x(1) a] by blast
        have "c \<notin> set (kids this)" using family_kid [OF assms(1,4)] y False by fastforce
        then have "c \<noteq> p" "c \<noteq> n" "c \<noteq> child" using pn y(3) child [OF x(1)] a by auto
        then show ?thesis using y by (simp add: inserted_def links_def)
      qed
      then have "seg ?vs v null (kids v) null (fFirstChild x)" using f(3) seg_frame by blast
      then show ?thesis using f(2) False x(2) by simp
    qed
  qed
  have par: "if fParent x' = null then fNextSibling x' = null \<and> fPrevSibling x' = null
      else fParent x' \<in> dom ?vs \<and> v \<in> set (?k (fParent x'))" if a: "?vs v = Some x'" for v x'
  proof -
    obtain x where x: "vs v = Some x" using a by (cases "vs v") (auto simp: inserted_def)
    have x': "fNextSibling x' = fNextSibling x" "fPrevSibling x' = fPrevSibling x" if "v \<noteq> child" "v \<notin> set (kids this)"
      using a x that pn by auto
    have p': "fParent x' = (if v = child then this else fParent x)" using a x by auto
    note f = familyD [OF assms(1) x]
    show ?thesis
    proof (cases "v = child")
      case False
      have "fParent x = null \<Longrightarrow> v \<notin> set (kids this)" using family_kid [OF assms(1,4), of v] x this0 by auto
      then show ?thesis using f(4,5) x' p' assms(2) this0 False by (cases "fParent x = null") (auto simp: domIff)
    qed (use p' this0 assms(4) in \<open>simp add: domIff\<close>)
  qed
  show ?thesis by (rule familyI) (use assms(1) seg par in \<open>simp_all only: dom_inserted family_def\<close>)
qed

lemma link_child_family:
  assumes "family vs kids" "vs child = Some c" "vs this = Some t" "fParent c = null" "child \<noteq> this"
    "before = null \<or> before \<in> set (kids this)"
  shows "\<exists>vs'. link_child this child before vs = Some (Inr vs') \<and> relinked vs vs' \<and>
    family vs' (kids(this := insert_before child before (kids this)))"
proof -
  note f = familyD [OF assms(1,3)]
  have nk: "child \<notin> set (kids this)" "null \<notin> set (kids this)" "child \<noteq> null"
    using family_kid [OF assms(1,3), of child] family_kid [OF assms(1,3), of null] assms(2,4) f(1)
      familyD(1) [OF assms(1,2)] by auto
  define as where "as = takeWhile (\<lambda>x. x \<noteq> before) (kids this)"
  define bs where "bs = dropWhile (\<lambda>x. x \<noteq> before) (kids this)"
  define p where "p = last (null # as)"
  define n where "n = (case bs of [] \<Rightarrow> null | b # _ \<Rightarrow> b)"
  have k: "kids this = as @ bs" by (simp add: as_def bs_def)
  have before: "before \<notin> set as" by (auto simp: as_def dest: set_takeWhileD)
  have hd: "bs \<noteq> [] \<Longrightarrow> hd bs = before" using hd_dropWhile [of "\<lambda>x. x \<noteq> before" "kids this"] by (simp add: bs_def)
  have n: "n = before" "bs = [] \<longleftrightarrow> before = null"
    using hd assms(6) nk(2) before unfolding k by (cases bs; simp add: n_def; blast)+
  have ins: "insert_before child before (kids this) = as @ child # bs"
    using before hd insert_before_split unfolding k by (cases bs) simp_all
  have "as \<noteq> [] \<Longrightarrow> last as \<noteq> null" using nk(2) k last_in_set by (metis UnI1 set_append)
  then have pk: "p \<noteq> null \<Longrightarrow> p \<in> set as" "p = null \<longleftrightarrow> as = []" by (auto simp: p_def)
  then have pd: "p \<noteq> null \<longrightarrow> p \<in> dom vs - {child}" using family_kid [OF assms(1,3)] nk k by fastforce
  have "link_child this child before vs = Some (Inr (inserted this child p n vs))"
  proof (cases "before = null")
    case True
    then have "last_from vs (fFirstChild t) = Some (Inr p)"
      using last_from_seg [OF f(3)] k n(2) by (simp add: p_def)
    then have "link_child this child before vs =
        bindO (Some (link_last this child p vs)) (\<lambda>vs. Some (upd child (\<lambda>x. x\<lparr>fParent := this\<rparr>) vs))"
      using True assms(3) by (simp add: link_child_def)
    also have "\<dots> = Some (Inr (inserted this child p n vs))"
      using assms(2,5) n(1) True by (simp add: link_last_eq [OF assms(2,3,5) pd] upd_def fun_eq_iff inserted_def option.map_comp comp_def
        cong: if_cong)
    finally show ?thesis .
  next
    case False
    then obtain bs' where bs': "bs = before # bs'" using n hd by (cases bs) auto
    obtain b where b: "vs before = Some b" "fPrevSibling b = p" using f(3) k bs' by (auto simp: seg_append p_def)
    have ft: "fFirstChild t = before \<longleftrightarrow> p = null"
      using f(3) k bs' before pk(2) by (cases as) auto
    have cb: "child \<noteq> before" "p \<noteq> null \<longrightarrow> p \<in> dom vs - {child, before}" using nk k bs' pd pk before by auto
    let ?w = "\<lambda>v. map_option (\<lambda>x. x\<lparr>
       fNextSibling := if v = child then before else if p \<noteq> null \<and> v = p then child else fNextSibling x,
       fPrevSibling := if v = child then p else if v = before then child else fPrevSibling x,
       fFirstChild := if v = this \<and> fFirstChild x = before then child else fFirstChild x\<rparr>) (vs v)"
    have "link_before this child before vs = Inr ?w"
      by (rule link_before_eq [OF assms(2) b(1) assms(3) cb(1) assms(5) b(2) [symmetric] cb(2)])
    moreover have "inserted this child p n vs v = (?w(child := Some (the (?w child)\<lparr>fParent := this\<rparr>))) v" for v
      using False assms(2,3,5) n(1) ft cb(1) by (cases "vs v"; cases "v = child"; cases "v = this") simp_all
    ultimately show ?thesis using False assms(2) by (simp add: link_child_def upd_iff fun_eq_iff)
  qed
  moreover have "relinked vs (inserted this child p n vs)"
    by (auto simp: relinked_def inserted_def option.map_comp comp_def unlinked_def intro!: option.map_cong)
  moreover have "family (inserted this child p n vs) (kids(this := as @ child # bs))"
    by (rule family_inserted [OF assms(1) k assms(2,3,4,5) p_def n_def])
  ultimately show ?thesis using ins by auto
qed

text \<open>The store after a child was taken out from between its neighbours \<open>p\<close> and \<open>n\<close>.\<close>

definition taken_out :: "ptr \<Rightarrow> ptr \<Rightarrow> ptr \<Rightarrow> ptr \<Rightarrow> views \<Rightarrow> views" where
  "taken_out this child p n vs = (\<lambda>v. map_option (\<lambda>x. x\<lparr>
     fParent := if v = child then null else fParent x,
     fNextSibling := if v = child then null else if p \<noteq> null \<and> v = p then n else fNextSibling x,
     fPrevSibling := if v = child then null else if n \<noteq> null \<and> v = n then p else fPrevSibling x,
     fFirstChild := if v = this \<and> p = null then n else fFirstChild x\<rparr>) (vs v))"

lemma dom_taken_out [simp]: "taken_out this child p n vs v = None \<longleftrightarrow> vs v = None"
  by (simp add: taken_out_def)

lemma taken_out_at [simp]:
  "vs v = Some x \<Longrightarrow> taken_out this child p n vs v = Some (x\<lparr>
     fParent := if v = child then null else fParent x,
     fNextSibling := if v = child then null else if p \<noteq> null \<and> v = p then n else fNextSibling x,
     fPrevSibling := if v = child then null else if n \<noteq> null \<and> v = n then p else fPrevSibling x,
     fFirstChild := if v = this \<and> p = null then n else fFirstChild x\<rparr>)"
  by (simp add: taken_out_def)

lemma links_taken_out:
  "v \<noteq> child \<Longrightarrow> v \<noteq> p \<or> p = null \<Longrightarrow> v \<noteq> n \<or> n = null \<Longrightarrow>
     map_option links (taken_out this child p n vs v) = map_option links (vs v)"
  by (cases "vs v") (auto simp: taken_out_def links_def)

lemma seg_taken_out:
  assumes "seg vs v null (as @ child # bs) null f" "distinct (as @ child # bs)"
    "p = last (null # as)" "n = (case bs of [] \<Rightarrow> null | b # _ \<Rightarrow> b)"
  shows "seg (taken_out this child p n vs) v null (as @ bs) null (if p = null then n else f)"
proof -
  let ?vs = "taken_out this child p n vs"
  have nn: "\<forall>a\<in>set (as @ child # bs). a \<noteq> null" using assms(1) seg_member by blast
  have pn: "p = null \<longleftrightarrow> as = []" "p \<noteq> null \<Longrightarrow> p \<in> set as" using nn assms(3) by auto
  obtain m where m: "seg vs v null as m f" "seg vs v p (child # bs) null m"
    using assms(1,3) by (auto simp: seg_append)
  have "seg ?vs v p bs null n"
  proof (cases bs)
    case (Cons b bs')
    then have b: "n = b" "b \<noteq> null" "b \<noteq> child" "b \<noteq> p" "b \<notin> set bs'" "child \<notin> set bs'" "p = null \<or> p \<notin> set bs'"
      using assms(2,4) nn pn by auto
    then have "seg ?vs v b bs' null g = seg vs v b bs' null g" for g
      by (intro seg_frame ballI links_taken_out) auto
    moreover obtain x where "vs b = Some x" "fParent x = v" "seg vs v b bs' null (fNextSibling x)"
      using m(2) Cons by auto
    ultimately show ?thesis using Cons b by simp
  qed (use assms(4) in simp)
  moreover have "seg ?vs v null as n (if p = null then n else f)"
  proof (cases as rule: rev_cases)
    case (snoc as' q)
    obtain k where k: "seg vs v null as' k f" "seg vs v (last (null # as')) [q] m k"
      using m(1) snoc by (auto simp: seg_append)
    have "n = null \<or> n \<in> set bs" using assms(4) by (auto split: list.splits)
    moreover have q: "p = q" "q \<noteq> null" using assms(3) snoc nn by auto
    ultimately have "seg ?vs v null as' k f = seg vs v null as' k f" "q \<noteq> n" "q \<noteq> child"
      using assms(2) snoc by (intro seg_frame ballI links_taken_out, auto)
    moreover obtain x where "vs q = Some x" "fParent x = v" "fPrevSibling x = last (null # as')" "k = q"
      using k(2) snoc by auto
    ultimately show ?thesis using k(1) snoc q by (simp add: seg_append)
  qed (use pn in simp)
  ultimately show ?thesis using assms(3) by (subst seg_append) auto
qed

lemma family_taken_out:
  assumes "family vs kids" "kids this = as @ child # bs" "vs this = Some t"
    "p = last (null # as)" "n = (case bs of [] \<Rightarrow> null | b # _ \<Rightarrow> b)"
  shows "family (taken_out this child p n vs) (kids(this := as @ bs))"
proof -
  let ?vs = "taken_out this child p n vs" and ?k = "kids(this := as @ bs)"
  have pn: "{p, n} \<subseteq> {null} \<union> set (as @ bs)" using assms(4,5) by (auto split: list.splits if_splits)
  have seg: "distinct (?k v) \<and> seg ?vs v null (?k v) null (fFirstChild x')" if a: "?vs v = Some x'" for v x'
  proof -
    obtain x where x: "vs v = Some x" "fFirstChild x' = (if v = this \<and> p = null then n else fFirstChild x)"
      using a by (cases "vs v") (auto simp: taken_out_def)
    note f = familyD [OF assms(1) x(1)]
    show ?thesis
    proof (cases "v = this")
      case True
      then have "seg ?vs v null (as @ bs) null (if p = null then n else fFirstChild x)"
        using seg_taken_out [OF _ _ assms(4,5)] f(2,3) assms(2) by metis
      then show ?thesis using x(2) True f(2) assms(2) by simp
    next
      case False
      have "map_option links (?vs c) = map_option links (vs c)" if b: "c \<in> set (kids v)" for c
      proof -
        obtain y where y: "vs c = Some y" "fParent y = v" "c \<noteq> null" using family_kid [OF assms(1) x(1) b] by blast
        have "c \<notin> set (kids this)" using family_kid [OF assms(1,3)] y False by fastforce
        then have "c \<noteq> p" "c \<noteq> n" "c \<noteq> child" using pn y(3) assms(2) by auto
        then show ?thesis by (intro links_taken_out) auto
      qed
      then have "seg ?vs v null (kids v) null (fFirstChild x)" using f(3) seg_frame by blast
      then show ?thesis using f(2) False x(2) by simp
    qed
  qed
  have par: "if fParent x' = null then fNextSibling x' = null \<and> fPrevSibling x' = null
      else fParent x' \<in> dom ?vs \<and> v \<in> set (?k (fParent x'))" if a: "?vs v = Some x'" for v x'
  proof -
    obtain x where x: "vs v = Some x" using a by (cases "vs v") (auto simp: taken_out_def)
    note f = familyD [OF assms(1) x]
    show ?thesis
    proof (cases "v = child")
      case False
      then have x': "fParent x' = fParent x" "v \<notin> set (kids this) \<Longrightarrow>
          fNextSibling x' = fNextSibling x \<and> fPrevSibling x' = fPrevSibling x"
        using a x assms(2) pn by auto
      have "fParent x = null \<Longrightarrow> v \<notin> set (kids this)"
        using family_kid [OF assms(1,3), of v] x familyD(1) [OF assms(1,3)] by auto
      then show ?thesis using f(4,5) x' assms(2) False by (cases "fParent x = null") (auto simp: domIff)
    qed (use a x in auto)
  qed
  show ?thesis by (rule familyI) (use assms(1) seg par in \<open>simp_all only: dom_taken_out family_def\<close>)
qed

lemma unlink_child_family:
  assumes "family vs kids" "vs child = Some c" "vs this = Some t" "child \<in> set (kids this)" "child \<noteq> this"
  shows "\<exists>vs'. unlink_child this child vs = Inr vs' \<and> relinked vs vs' \<and>
    family vs' (kids(this := remove1 child (kids this)))"
proof -
  obtain as bs where k: "kids this = as @ child # bs" using split_list [OF assms(4)] by blast
  note f = familyD [OF assms(1,3)]
  define p where "p = last (null # as)"
  define n where "n = (case bs of [] \<Rightarrow> null | b # _ \<Rightarrow> b)"
  have d: "child \<notin> set as" "child \<notin> set bs" using f(2) k by auto
  have nn: "a \<noteq> null \<and> (\<exists>y. vs a = Some y)" if b: "a \<in> set (kids this)" for a using family_kid [OF assms(1,3) b] by blast
  have pk: "p \<noteq> null \<Longrightarrow> p \<in> set as" "p = null \<longleftrightarrow> as = []" "n \<noteq> null \<Longrightarrow> n \<in> set bs"
    using nn [of p] k by (auto simp: p_def n_def split: list.splits)
  have c: "fPrevSibling c = p" "fNextSibling c = n"
    using f(3) k assms(2) by (auto simp: seg_append p_def n_def split: list.splits)
  have ft: "fFirstChild t = child \<longleftrightarrow> p = null" using f(3) k d pk(2) by (cases as) auto
  have "unlink_child this child vs = Inr (taken_out this child p n vs)"
  proof (cases "p = null"; cases "n = null")
  qed (use assms(2,3,5) c ft nn [of p] nn [of n] pk d k in
    \<open>auto simp: unlink_child_def upd_def fun_eq_iff taken_out_def option.map_ident intro!: option.map_ident_strong [symmetric]\<close>)
  moreover have "relinked vs (taken_out this child p n vs)"
    by (auto simp: relinked_def taken_out_def option.map_comp comp_def unlinked_def intro!: option.map_cong)
  moreover have "family (taken_out this child p n vs) (kids(this := as @ bs))"
    by (rule family_taken_out [OF assms(1) k assms(3) p_def n_def])
  moreover have "remove1 child (kids this) = as @ bs" using k d by (simp add: remove1_append)
  ultimately show ?thesis by auto
qed

section \<open>\<open>AddChild\<close> and \<open>RemoveChild\<close> as operations on lists\<close>

text \<open>The two operations while the views have no window.\<close>

definition add_child :: "ptr \<Rightarrow> ptr \<Rightarrow> ptr \<Rightarrow> views \<Rightarrow> views partial" where
  "add_child this child before vs =
     bindO (Some (AddChild_guard this child before vs)) (\<lambda>ok. if ok then link_child this child before vs else Some (Inr vs))"

definition remove_child :: "ptr \<Rightarrow> ptr \<Rightarrow> views \<Rightarrow> (bool \<times> views) outcome" where
  "remove_child this child vs =
     bindR (RemoveChild_guard this child vs) (\<lambda>ok.
     if ok then bindR (unlink_child this child vs) (\<lambda>vs. Inr (True, vs)) else Inr (False, vs))"

datatype child_op = Add_child ptr ptr ptr | Remove_child ptr ptr

fun child_step :: "child_op \<Rightarrow> views \<Rightarrow> views partial" where
  "child_step (Add_child this child before) vs = add_child this child before vs"
| "child_step (Remove_child this child) vs = Some (bindR (remove_child this child vs) (\<lambda>r. Inr (snd r)))"

fun child_run :: "child_op list \<Rightarrow> views \<Rightarrow> views partial" where
  "child_run [] vs = Some (Inr vs)"
| "child_run (a # as) vs = bindO (child_step a vs) (child_run as)"

text \<open>The specification: lists of children. A view has a parent if it is in one of the lists.\<close>

fun list_step :: "ptr set \<Rightarrow> child_op \<Rightarrow> (ptr \<Rightarrow> ptr list) \<Rightarrow> (ptr \<Rightarrow> ptr list) outcome" where
  "list_step D (Add_child this child before) kids =
     (if child = null then Inr kids
      else if \<exists>v\<in>D. child \<in> set (kids v) then Inl Debugger
      else if child = this then Inl Debugger
      else if before \<noteq> null \<and> before \<notin> set (kids this) then Inl Debugger
      else Inr (kids(this := insert_before child before (kids this))))"
| "list_step D (Remove_child this child) kids = Inr (kids(this := remove1 child (kids this)))"

fun list_run :: "ptr set \<Rightarrow> child_op list \<Rightarrow> (ptr \<Rightarrow> ptr list) \<Rightarrow> (ptr \<Rightarrow> ptr list) outcome" where
  "list_run D [] kids = Inr kids"
| "list_run D (a # as) kids = bindR (list_step D a kids) (list_run D as)"

fun op_views :: "child_op \<Rightarrow> ptr set" where
  "op_views (Add_child this child before) = {this} \<union> ({child, before} - {null})"
| "op_views (Remove_child this child) = {this} \<union> ({child} - {null})"

lemma set_insert_before: "set (insert_before child before cs) = insert child (set cs)"
  by (induction cs) auto

lemma has_parent_iff:
  assumes "family vs kids" "vs child = Some c"
  shows "fParent c \<noteq> null \<longleftrightarrow> (\<exists>v\<in>dom vs. child \<in> set (kids v))"
proof
  assume "\<exists>v\<in>dom vs. child \<in> set (kids v)"
  then obtain v x where v: "vs v = Some x" "child \<in> set (kids v)" by auto
  then have "fParent c = v" using family_kid [OF assms(1)] assms(2) by fastforce
  then show "fParent c \<noteq> null" using familyD(1) [OF assms(1) v(1)] by simp
qed (use familyD(5) [OF assms] in blast)

lemma parent_is_iff:
  assumes "family vs kids" "vs this = Some t" "vs child = Some c"
  shows "fParent c = this \<longleftrightarrow> child \<in> set (kids this)"
proof
  assume "child \<in> set (kids this)"
  then show "fParent c = this" using family_kid [OF assms(1,2)] assms(3) by fastforce
qed (use familyD(1) [OF assms(1,2)] familyD(5) [OF assms(1,3)] in blast)

lemma relinked_dom: "relinked vs vs' \<Longrightarrow> dom vs' = dom vs"
  unfolding relinked_def by (metis (no_types, lifting) domIff option.map_disc_iff subsetI subset_antisym)

lemma relinked_trans: "relinked vs vs' \<Longrightarrow> relinked vs' vs'' \<Longrightarrow> relinked vs vs''"
  by (simp add: relinked_def)

text \<open>\<open>child_sim\<close>: the lists are the children in the store, and the outcome of the code is that of the lists.\<close>

definition child_sim :: "views \<Rightarrow> views partial \<Rightarrow> (ptr \<Rightarrow> ptr list) outcome \<Rightarrow> bool" where
  "child_sim vs c r \<longleftrightarrow>
     (case r of
        Inl e \<Rightarrow> c = Some (Inl e)
      | Inr kids \<Rightarrow> \<exists>vs'. c = Some (Inr vs') \<and> family vs' kids \<and> (\<forall>v. v \<notin> set (kids v)) \<and> relinked vs vs')"

lemma child_step_sim:
  assumes "family vs kids" "\<forall>v. v \<notin> set (kids v)" "op_views a \<subseteq> dom vs"
  shows "child_sim vs (child_step a vs) (list_step (dom vs) a kids)"
proof (cases a)
  case (Add_child this child before)
  then obtain t where t: "vs this = Some t" using assms(3) by auto
  show ?thesis
  proof (cases "child = null")
    case False
    then obtain c where c: "vs child = Some c" using assms(3) Add_child by auto
    have b: "(\<exists>b. vs before = Some b \<and> (fParent b = this \<longleftrightarrow> before \<in> set (kids this)))" if "before \<noteq> null"
      using assms(3) Add_child that parent_is_iff [OF assms(1) t] by auto
    show ?thesis
    proof (cases "fParent c \<noteq> null \<or> child = this \<or> before \<noteq> null \<and> before \<notin> set (kids this)")
      case True
      then show ?thesis using Add_child False c b has_parent_iff [OF assms(1) c]
        by (auto simp: child_sim_def add_child_def AddChild_guard_def)
    next
      case ok: False
      then have bb: "fParent c = null" "child \<noteq> this" "before = null \<or> before \<in> set (kids this)" by auto
      obtain vs' where vs': "link_child this child before vs = Some (Inr vs')" "relinked vs vs'"
          "family vs' (kids(this := insert_before child before (kids this)))"
        using link_child_family [OF assms(1) c t bb] by blast
      then show ?thesis using Add_child False c b ok has_parent_iff [OF assms(1) c] assms(2)
        by (auto simp: child_sim_def add_child_def AddChild_guard_def set_insert_before)
    qed
  qed (use assms Add_child in \<open>auto simp: child_sim_def add_child_def AddChild_guard_def relinked_def\<close>)
next
  case (Remove_child this child)
  then obtain t where t: "vs this = Some t" using assms(3) by auto
  show ?thesis
  proof (cases "child \<in> set (kids this)")
    case True
    then obtain c where c: "vs child = Some c" "child \<noteq> null" using family_kid [OF assms(1) t] by blast
    have ne: "child \<noteq> this" using True assms(2) by auto
    obtain vs' where "unlink_child this child vs = Inr vs'" "relinked vs vs'"
        "family vs' (kids(this := remove1 child (kids this)))"
      using unlink_child_family [OF assms(1) c(1) t True ne] by blast
    moreover have "\<forall>v. v \<notin> set ((kids(this := remove1 child (kids this))) v)"
      using assms(2) set_remove1_subset [of child "kids this"] by auto
    ultimately show ?thesis using Remove_child True c parent_is_iff [OF assms(1) t c(1)]
      by (simp add: child_sim_def remove_child_def RemoveChild_guard_def)
  next
    case False
    then have "child = null \<or> (\<exists>c. vs child = Some c \<and> fParent c \<noteq> this)"
      using assms(3) Remove_child parent_is_iff [OF assms(1) t] by (cases "vs child") auto
    then show ?thesis using Remove_child False assms(1,2)
      by (auto simp: child_sim_def remove_child_def RemoveChild_guard_def relinked_def remove1_idem)
  qed
qed

lemma child_run_sim:
  assumes "family vs kids" "\<forall>v. v \<notin> set (kids v)" "\<forall>a\<in>set as. op_views a \<subseteq> dom vs"
  shows "child_sim vs (child_run as vs) (list_run (dom vs) as kids)"
  using assms
proof (induction as arbitrary: vs kids)
  case (Cons a as)
  have s: "child_sim vs (child_step a vs) (list_step (dom vs) a kids)" using Cons.prems by (intro child_step_sim) auto
  show ?case
  proof (cases "list_step (dom vs) a kids")
    case (Inr k)
    then obtain vs' where vs': "child_step a vs = Some (Inr vs')" "family vs' k" "\<forall>v. v \<notin> set (k v)" "relinked vs vs'"
      using s by (auto simp: child_sim_def)
    have "child_sim vs' (child_run as vs') (list_run (dom vs) as k)"
      using Cons.IH [OF vs'(2,3)] Cons.prems(3) relinked_dom [OF vs'(4)] by simp
    then show ?thesis using Inr vs'(1,4) by (auto simp: child_sim_def split: sum.splits intro: relinked_trans)
  qed (use s in \<open>simp add: child_sim_def\<close>)
qed (simp add: child_sim_def relinked_def)

section \<open>Reading the list\<close>

lemma count_from_seg:
  "seg vs v prev cs null f \<Longrightarrow> count_from vs f n = Some (Inr (n + of_nat (length cs)))"
proof (induction cs arbitrary: prev f n)
  case (Cons c cs)
  then show ?case by (subst count_from.simps) (auto simp: ac_simps)
qed (simp add: count_from.simps)

lemma child_from_seg:
  "seg vs v prev cs null f \<Longrightarrow> 
     child_from vs f i = Some (Inr (if nat i < length cs then cs ! nat i else null))"
proof (induction cs arbitrary: prev f i)
  case (Cons c cs)
  then obtain x where x: "f = c" "c \<noteq> null" "vs c = Some x" "seg vs v c cs null (fNextSibling x)" by auto
  show ?case
  proof (cases "0 < i")
    case True
    then have "nat i = Suc (nat (i - 1))" by simp
    then show ?thesis using Cons.IH [OF x(4), of "i - 1"] x True by (subst child_from.simps) auto
  qed (use x in \<open>simp add: child_from.simps\<close>)
qed (simp add: child_from.simps)

lemma seg_neighbours:
  "seg vs v prev cs null f \<Longrightarrow> i < length cs \<Longrightarrow>
     \<exists>x. vs (cs ! i) = Some x \<and> fPrevSibling x = (if i = 0 then prev else cs ! (i - 1)) \<and>
         fNextSibling x = (if Suc i < length cs then cs ! Suc i else null)"
proof (induction cs arbitrary: prev f i)
  case (Cons c cs)
  then obtain x where x: "vs c = Some x" "fPrevSibling x = prev" "seg vs v c cs null (fNextSibling x)" by auto
  show ?case
  proof (cases i)
    case 0
    then show ?thesis using x by (cases cs) auto
  next
    case (Suc j)
    then show ?thesis using Cons.IH [OF x(3), of j] Cons.prems(2) by (auto simp: nth_Cons')
  qed
qed simp

section \<open>Properties\<close>

text \<open>C16. \<open>AddChild\<close> and \<open>RemoveChild\<close> implement lists of children: from a store whose links form the lists
  \<open>kids\<close>, any sequence of calls on live views ends as the same insertions and removals on the lists do,
  in the debugger at the same call or in a store whose links form the resulting lists, and it changes
  nothing in the views but the links.\<close>

theorem children_refine_lists:
  assumes "family vs kids" "\<forall>v. v \<notin> set (kids v)" "\<forall>a\<in>set as. op_views a \<subseteq> dom vs"
  shows "case list_run (dom vs) as kids of
      Inl e \<Rightarrow> child_run as vs = Some (Inl e)
    | Inr kids' \<Rightarrow> \<exists>vs'. child_run as vs = Some (Inr vs') \<and> family vs' kids' \<and> relinked vs vs'"
  using child_run_sim [OF assms] unfolding child_sim_def by (auto split: sum.splits)

definition plain_view :: view where
  "plain_view = \<lparr>fFlags = 0, fParentOffset = B_ORIGIN, fBounds = Rect_new, fWindow = null, fParent = null,
     fNextSibling = null, fPrevSibling = null, fFirstChild = null, fEventMask = 0, fEventOptions = 0,
     fMouseEventMask = 0, fMouseEventOptions = 0, fState = new_stack\<rparr>"

definition sample_views :: views where
  "sample_views = [1 \<mapsto> plain_view\<lparr>fFirstChild := 2\<rparr>, 2 \<mapsto> plain_view\<lparr>fParent := 1, fNextSibling := 3\<rparr>,
     3 \<mapsto> plain_view\<lparr>fParent := 1, fPrevSibling := 2\<rparr>]"

lemma sample_family: "family sample_views ((\<lambda>_. [])(1 := [2, 3]))"
  by (rule familyI) (auto simp: sample_views_def plain_view_def split: if_splits)

lemma family_plain: "null \<notin> D \<Longrightarrow> family (\<lambda>v. if v \<in> D then Some plain_view else None) (\<lambda>_. [])"
  by (rule familyI) (auto simp: plain_view_def split: if_splits)

lemma children_refine_lists_witness:
  "\<exists>vs'. child_run [Add_child 1 2 null, Add_child 1 3 2, Add_child 3 4 null, Remove_child 1 2, Add_child 1 2 3]
      (\<lambda>v. if v \<in> {1, 2, 3, 4} then Some plain_view else None) = Some (Inr vs') \<and>
    family vs' ((\<lambda>_. [])(1 := [2, 3], 3 := [4]))"
proof -
  let ?vs = "\<lambda>v :: ptr. if v \<in> {1, 2, 3, 4} then Some plain_view else None"
  let ?as = "[Add_child 1 2 null, Add_child 1 3 2, Add_child 3 4 null, Remove_child 1 2, Add_child 1 2 3]"
  have d: "dom ?vs = {1, 2, 3, 4}" by (auto split: if_splits)
  have r: "list_run (dom ?vs) ?as (\<lambda>_. []) = Inr ((\<lambda>_. [])(1 := [2, 3], 3 := [4]))"
    unfolding d by (simp add: fun_eq_iff)
  have "family ?vs (\<lambda>_. [])" "\<forall>v. v \<notin> set ((\<lambda>_. []) v)" "\<forall>a\<in>set ?as. op_views a \<subseteq> dom ?vs"
    using family_plain [of "{1, 2, 3, 4}"] unfolding d by auto
  from children_refine_lists [OF this] show ?thesis unfolding r by auto
qed

text \<open>What the functions that read the children return for the list of the children: the number, the
  child at an index (the first one for a negative index, null behind the last one), and for each
  child its neighbours and its parent.\<close>

lemma children_queries:
  assumes "family vs kids" "vs v = Some x" "length (kids v) < 2 ^ 31"
  shows "CountChildren vs v = Some (Inr (int (length (kids v)))) \<and>
    ChildAt vs v i = Some (Inr (if nat i < length (kids v) then kids v ! nat i else null)) \<and>
    (\<forall>j < length (kids v). \<exists>y. vs (kids v ! j) = Some y \<and> Parent y = v \<and>
       PreviousSibling y = (if j = 0 then null else kids v ! (j - 1)) \<and>
       NextSibling y = (if Suc j < length (kids v) then kids v ! Suc j else null))"
proof -
  note s = familyD(3) [OF assms(1,2)]
  have "sint (word_of_nat (length (kids v)) :: 32 word) = int (length (kids v))"
    using assms(3) by (simp add: sint_uint unsigned_of_nat signed_take_bit_int_eq_self take_bit_nat_eq_self)
  then have "CountChildren vs v = Some (Inr (int (length (kids v))))"
    using count_from_seg [OF s, of 0] assms(2) by (simp add: CountChildren_def)
  moreover have "ChildAt vs v i = Some (Inr (if nat i < length (kids v) then kids v ! nat i else null))"
    using child_from_seg [OF s, of i] assms(2) by (simp add: ChildAt_def)
  moreover have "\<exists>y. vs (kids v ! j) = Some y \<and> Parent y = v \<and>
       PreviousSibling y = (if j = 0 then null else kids v ! (j - 1)) \<and>
       NextSibling y = (if Suc j < length (kids v) then kids v ! Suc j else null)" if j: "j < length (kids v)" for j
    using seg_neighbours [OF s j] family_kid [OF assms(1,2), of "kids v ! j"] nth_mem [OF j]
    unfolding Parent_def PreviousSibling_def NextSibling_def by auto
  ultimately show ?thesis by blast
qed

end
