(* ===== verification/ViewTree.thy ===== *)
theory ViewTree
  imports ViewChildren
begin

text \<open>
  Trees of views: the search for a view by name, the coordinate systems of a view and its ancestors, and
  what the constructor makes of frame and flags.
\<close>

section \<open>Trees\<close>

datatype vtree = VTree (vt_root: ptr) (vt_branches: "vtree list")

fun rooted :: "views \<Rightarrow> (ptr \<Rightarrow> ptr list) \<Rightarrow> vtree \<Rightarrow> bool" where
  "rooted vs kids (VTree v ts) \<longleftrightarrow> v \<in> dom vs \<and> kids v = map vt_root ts \<and> (\<forall>t\<in>set ts. rooted vs kids t)"

fun preorder :: "vtree \<Rightarrow> ptr list" where
  "preorder (VTree v ts) = v # concat (map preorder ts)"

fun first_of :: "(ptr \<Rightarrow> bool) \<Rightarrow> ptr list \<Rightarrow> ptr" where
  "first_of P [] = null"
| "first_of P (v # vs) = (if P v then v else first_of P vs)"

lemma first_of_append: "null \<notin> set as \<Longrightarrow> first_of P (as @ bs) = (if first_of P as \<noteq> null then first_of P as else first_of P bs)"
  by (induction as) auto

lemma rooted_dom: "rooted vs kids t \<Longrightarrow> set (preorder t) \<subseteq> dom vs"
  by (induction t) (auto; blast)

definition named :: "(ptr \<Rightarrow> handler option) \<Rightarrow> byte list \<Rightarrow> ptr \<Rightarrow> bool" where
  "named hs nm v \<longleftrightarrow> (\<exists>h. hs v = Some h \<and> fName h = Some nm)"

lemma find_view_loop:
  assumes "seg vs v prev (map vt_root ts) null f"
    "\<forall>t\<in>set ts. find_view hs vs nm False (vt_root t) = Some (Inr (first_of (named hs nm) (preorder t)))"
    "\<forall>t\<in>set ts. null \<notin> set (preorder t)"
  shows "find_view hs vs nm True f = Some (Inr (first_of (named hs nm) (concat (map preorder ts))))"
  using assms
proof (induction ts arbitrary: prev f)
  case (Cons t ts)
  then show ?case by (subst find_view.simps) (auto simp: first_of_append)
qed (simp add: find_view.simps)

lemma find_view_tree:
  assumes "family vs kids"
  shows "rooted vs kids t \<Longrightarrow> set (preorder t) \<subseteq> dom hs \<Longrightarrow>
    find_view hs vs nm False (vt_root t) = Some (Inr (first_of (named hs nm) (preorder t)))"
proof (induction t)
  case (VTree v ts)
  then obtain x h where x: "vs v = Some x" "hs v = Some h" by auto
  have n: "null \<notin> dom vs" using assms by (simp add: family_def domIff)
  have "\<forall>t\<in>set ts. null \<notin> set (preorder t)" using rooted_dom VTree.prems(1) n by fastforce
  moreover have "\<forall>t\<in>set ts. find_view hs vs nm False (vt_root t) = Some (Inr (first_of (named hs nm) (preorder t)))"
    using VTree by auto
  ultimately have "find_view hs vs nm True (fFirstChild x) = Some (Inr (first_of (named hs nm) (concat (map preorder ts))))"
    using find_view_loop familyD(3) [OF assms x(1)] VTree.prems(1) by simp
  then show ?case using x by (subst find_view.simps) (simp add: named_def)
qed

text \<open>A child whose descendant its parent is.\<close>

lemma find_view_cycle:
  assumes "vs v = Some x" "vs u = Some y" "fFirstChild x = u" "fFirstChild y = v" "u \<noteq> null" "v \<noteq> null"
    "\<not> named hs nm u" "\<not> named hs nm v" "hs u \<noteq> None" "hs v \<noteq> None" "c \<in> {u, v}"
  shows "find_view hs vs nm b c = None"
proof -
  have "hs' = hs \<and> vs' = vs \<and> nm' = nm \<longrightarrow> c' \<notin> {u, v}" if "find_view hs' vs' nm' b' c' = Some r" for hs' vs' nm' b' c' r
    using _ that
  proof (rule find_view.raw_induct [where P = "\<lambda>hs' vs' nm' b' c' r. hs' = hs \<and> vs' = vs \<and> nm' = nm \<longrightarrow> c' \<notin> {u, v}"])
    fix F hs' vs' nm' b' c' r
    assume ih: "\<And>hs' vs' nm' b' c' r. F hs' vs' nm' b' c' = Some r \<Longrightarrow> hs' = hs \<and> vs' = vs \<and> nm' = nm \<longrightarrow> c' \<notin> {u, v}"
      and step: "(if b' then if c' = 0 then Some (Inr 0)
          else bindO (F hs' vs' nm' False c') (\<lambda>v. if v \<noteq> 0 then Some (Inr v)
            else bindO (Some (alive (vs' c'))) (\<lambda>x. F hs' vs' nm' True (fNextSibling x)))
        else bindO (Some (alive (hs' c'))) (\<lambda>h. if fName h = Some nm' then Some (Inr c')
            else bindO (Some (alive (vs' c'))) (\<lambda>x. F hs' vs' nm' True (fFirstChild x)))) = Some r"
    have F: "F hs vs nm d w = None" if "w \<in> {u, v}" for d w using ih [of hs vs nm d w] that by (cases "F hs vs nm d w") auto
    show "hs' = hs \<and> vs' = vs \<and> nm' = nm \<longrightarrow> c' \<notin> {u, v}"
      using step F assms by (auto simp: named_def split: if_splits)
  qed
  then show ?thesis using assms(11) by (cases "find_view hs vs nm b c") auto
qed

section \<open>Coordinates\<close>

text \<open>\<open>up_path vs vps\<close>: a view, its parent, and so on to a view without parent.\<close>

fun up_path :: "views \<Rightarrow> ptr list \<Rightarrow> bool" where
  "up_path vs [] \<longleftrightarrow> False"
| "up_path vs (v # ps) \<longleftrightarrow>
     (\<exists>x. vs v = Some x \<and> (case ps of [] \<Rightarrow> fParent x = null | p # _ \<Rightarrow> fParent x = p \<and> p \<noteq> null \<and> up_path vs ps))"

definition whole_offset :: "views \<Rightarrow> (ptr \<Rightarrow> int) \<Rightarrow> (ptr \<Rightarrow> int) \<Rightarrow> ptr \<Rightarrow> bool" where
  "whole_offset vs ox oy v \<longleftrightarrow> (\<exists>x. vs v = Some x \<and> fParentOffset x = int_point (ox v) (oy v))"

lemma bounded_step: "\<bar>x\<bar> + (\<Sum>p\<leftarrow>v # ps. \<bar>f p\<bar>) < m \<Longrightarrow> \<bar>x + f v\<bar> + (\<Sum>p\<leftarrow>ps. \<bar>f p\<bar>) < (m :: int) \<and>
    \<bar>x - f v\<bar> + (\<Sum>p\<leftarrow>ps. \<bar>f p\<bar>) < m \<and> \<bar>x\<bar> < m \<and> \<bar>f v\<bar> < m"
proof -
  have "0 \<le> (\<Sum>p\<leftarrow>ps. \<bar>f p\<bar>)" by (induction ps) auto
  then show "\<bar>x\<bar> + (\<Sum>p\<leftarrow>v # ps. \<bar>f p\<bar>) < m \<Longrightarrow> ?thesis" by auto
qed

lemma Point_add_int: "\<bar>x\<bar> < 2 ^ 23 \<Longrightarrow> \<bar>y\<bar> < 2 ^ 23 \<Longrightarrow> \<bar>a\<bar> < 2 ^ 23 \<Longrightarrow> \<bar>b\<bar> < 2 ^ 23 \<Longrightarrow>
    Point_add_assign (int_point x y) (int_point a b) = int_point (x + a) (y + b) \<and>
    Point_sub_assign (int_point x y) (int_point a b) = int_point (x - a) (y - b)"
  by (simp add: Point_add_assign_def Point_sub_assign_def int_point_def Point_new_def fadd_fint fsub_fint del: fint_exact)

lemma ConvertToScreen_path:
  assumes "up_path vs (v # ps)" "\<forall>p\<in>set (v # ps). whole_offset vs ox oy p"
    "\<bar>x\<bar> + (\<Sum>p\<leftarrow>v # ps. \<bar>ox p\<bar>) < 2 ^ 23" "\<bar>y\<bar> + (\<Sum>p\<leftarrow>v # ps. \<bar>oy p\<bar>) < 2 ^ 23"
  shows "ConvertToScreen vs v (Some (int_point x y)) =
      Some (Inr (Some (int_point (x + (\<Sum>p\<leftarrow>v # ps. ox p)) (y + (\<Sum>p\<leftarrow>v # ps. oy p))))) \<and>
    ConvertFromScreen vs v (Some (int_point x y)) =
      Some (Inr (Some (int_point (x - (\<Sum>p\<leftarrow>v # ps. ox p)) (y - (\<Sum>p\<leftarrow>v # ps. oy p)))))"
  using assms
proof (induction ps arbitrary: v x y)
  case Nil
  then show ?case using bounded_step [OF Nil(3)] bounded_step [OF Nil(4)] Point_add_int [of x y "ox v" "oy v"]
    by (auto simp: Let_def ConvertToScreen.simps ConvertFromScreen.simps ConvertToParent_def ConvertFromParent_def
      whole_offset_def Window_ConvertToScreen_def Window_ConvertFromScreen_def)
next
  case (Cons p ps)
  then obtain w where w: "vs v = Some w" "fParent w = p" "p \<noteq> null" "up_path vs (p # ps)"
      "fParentOffset w = int_point (ox v) (oy v)" by (auto simp: whole_offset_def)
  note b = bounded_step [OF Cons.prems(3)] bounded_step [OF Cons.prems(4)]
  have o: "Point_add_assign (int_point x y) (int_point (ox v) (oy v)) = int_point (x + ox v) (y + oy v)"
    "Point_sub_assign (int_point x y) (int_point (ox v) (oy v)) = int_point (x - ox v) (y - oy v)"
    using Point_add_int [of x y "ox v" "oy v"] b by blast+
  have "ConvertToScreen vs v (Some (int_point x y)) = ConvertToScreen vs p (Some (int_point (x + ox v) (y + oy v)))"
    "ConvertFromScreen vs v (Some (int_point x y)) = ConvertFromScreen vs p (Some (int_point (x - ox v) (y - oy v)))"
    using w o by (simp_all add: Let_def ConvertToScreen.simps [of vs v] ConvertFromScreen.simps [of vs v]
      ConvertToParent_def ConvertFromParent_def)
  then show ?case using Cons.IH [OF w(4), of "x + ox v" "y + oy v"] Cons.IH [OF w(4), of "x - ox v" "y - oy v"] b Cons.prems(2)
    by (simp add: algebra_simps)
qed

lemma ConvertToScreen_cycle:
  assumes "vs v = Some x" "vs u = Some y" "fParent x = u" "fParent y = v" "u \<noteq> null" "v \<noteq> null" "w \<in> {u, v}"
  shows "ConvertToScreen vs w (Some p) = None"
proof -
  have "vs' = vs \<and> p' \<noteq> None \<longrightarrow> w' \<notin> {u, v}" if "ConvertToScreen vs' w' p' = Some r" for vs' w' p' r
    using _ that
  proof (rule ConvertToScreen.raw_induct [where P = "\<lambda>vs' w' p' r. vs' = vs \<and> p' \<noteq> None \<longrightarrow> w' \<notin> {u, v}"])
    fix F vs' w' p' r
    assume ih: "\<And>vs' w' p' r. F vs' w' p' = Some r \<Longrightarrow> vs' = vs \<and> p' \<noteq> None \<longrightarrow> w' \<notin> {u, v}"
      and step: "(if p' = None then Some (Inr None)
        else bindO (Some (alive (vs' w'))) (\<lambda>x. let pt = ConvertToParent x p'
          in if fParent x \<noteq> null then F vs' (fParent x) pt
             else if fWindow x \<noteq> null then Some (Inr (Window_ConvertToScreen pt)) else Some (Inr pt))) = Some r"
    have F: "F vs d (Some q) = None" if "d \<in> {u, v}" for d q using ih [of vs d "Some q"] that by (cases "F vs d (Some q)") auto
    show "vs' = vs \<and> p' \<noteq> None \<longrightarrow> w' \<notin> {u, v}"
      using step F assms by (auto simp: Let_def ConvertToParent_def split: if_splits)
  qed
  then show ?thesis using assms(7) by (cases "ConvertToScreen vs w (Some p)") auto
qed

lemma ConvertToScreen_rect_path:
  assumes "up_path vs (v # ps)" "\<forall>p\<in>set (v # ps). whole_offset vs ox oy p"
    "\<bar>l\<bar> + (\<Sum>p\<leftarrow>v # ps. \<bar>ox p\<bar>) < 2 ^ 22" "\<bar>t\<bar> + (\<Sum>p\<leftarrow>v # ps. \<bar>oy p\<bar>) < 2 ^ 22" "\<bar>r\<bar> < 2 ^ 22" "\<bar>b\<bar> < 2 ^ 22"
    "dx = (\<Sum>p\<leftarrow>v # ps. ox p)" "dy = (\<Sum>p\<leftarrow>v # ps. oy p)"
  shows "ConvertToScreen_rect vs v (Some (int_rect l t r b)) = Some (Inr (Some (int_rect (l + dx) (t + dy) (r + dx) (b + dy)))) \<and>
    ConvertFromScreen_rect vs v (Some (int_rect l t r b)) = Some (Inr (Some (int_rect (l - dx) (t - dy) (r - dx) (b - dy))))"
proof -
  have lt: "LeftTop (int_rect l t r b) = int_point l t"
    by (simp add: LeftTop_def int_rect_def Rect_of_def int_point_def)
  have p: "ConvertToScreen vs v (Some (int_point l t)) = Some (Inr (Some (int_point (l + dx) (t + dy))))"
    "ConvertFromScreen vs v (Some (int_point l t)) = Some (Inr (Some (int_point (l - dx) (t - dy))))"
    unfolding assms(7,8) using ConvertToScreen_path [OF assms(1,2), of l t] assms(3,4) by auto
  have ab: "\<bar>\<Sum>p\<leftarrow>ps. f p\<bar> \<le> (\<Sum>p\<leftarrow>ps. \<bar>f p\<bar>)" for f :: "ptr \<Rightarrow> int" and ps by (induction ps) auto
  have bd: "\<bar>l\<bar> < 2 ^ 22" "\<bar>t\<bar> < 2 ^ 22" "\<bar>l + dx\<bar> < 2 ^ 23" "\<bar>t + dy\<bar> < 2 ^ 23" "\<bar>l - dx\<bar> < 2 ^ 23" "\<bar>t - dy\<bar> < 2 ^ 23"
  proof -
    have "\<bar>dx\<bar> \<le> (\<Sum>p\<leftarrow>v # ps. \<bar>ox p\<bar>)" "\<bar>dy\<bar> \<le> (\<Sum>p\<leftarrow>v # ps. \<bar>oy p\<bar>)" unfolding assms(7,8) by (rule ab)+
    moreover have "(2 :: int) ^ 23 = 2 * 2 ^ 22" by simp
    ultimately show "\<bar>l\<bar> < 2 ^ 22" "\<bar>t\<bar> < 2 ^ 22" "\<bar>l + dx\<bar> < 2 ^ 23" "\<bar>t + dy\<bar> < 2 ^ 23" "\<bar>l - dx\<bar> < 2 ^ 23" "\<bar>t - dy\<bar> < 2 ^ 23"
      using assms(3,4) by linarith+
  qed
  have pt: "OffsetTo_point q (int_point x y) = OffsetTo q (fint x) (fint y)" for q x y
    by (simp add: OffsetTo_point_def OffsetTo_def int_point_def Point_new_def)
  show ?thesis
    using OffsetTo_int [of l t r b "l + dx" "t + dy"] OffsetTo_int [of l t r b "l - dx" "t - dy"] bd assms(5,6)
    by (simp add: ConvertToScreen_rect_def ConvertFromScreen_rect_def lt p pt algebra_simps)
qed

section \<open>Properties\<close>

text \<open>In a tree of views \<open>FindView\<close> always returns: the first view of the given name in preorder, the
  view itself first, or null if there is none.\<close>

lemma FindView_in_preorder:
  assumes "family vs kids" "rooted vs kids t" "set (preorder t) \<subseteq> dom hs" "0 \<in> set nm"
  shows "FindView hs vs (vt_root t) (Some nm) = Some (Inr (first_of (named hs (cstring nm)) (preorder t)))"
  using find_view_tree [OF assms(1,2,3)] assms(4) by (simp add: FindView_def read_cstring_def)

definition sample_names :: "ptr \<Rightarrow> handler option" where
  "sample_names v = Some ((sample_handler null)\<lparr>fName := Some [of_nat v]\<rparr>)"

text \<open>\<open>AddChild\<close> refuses only the view itself as its child. A root can become a child of its own only child;
  the views then have no root, and neither the search for a name that none of them has nor the
  conversion of a point to the screen ends.\<close>

lemma AddChild_of_ancestor:
  assumes "family vs kids" "vs v = Some x" "vs u = Some y" "u \<noteq> v" "fParent x = null" "kids v = [u]" "kids u = []"
    and "{u, v} \<subseteq> dom hs" "\<not> named hs (cstring nm) u" "\<not> named hs (cstring nm) v" "0 \<in> set nm"
  shows "\<exists>vs'. add_child u v null vs = Some (Inr vs') \<and> family vs' (kids(u := [v])) \<and>
    FindView hs vs' v (Some nm) = None \<and> ConvertToScreen vs' v (Some p) = None"
proof -
  obtain vs' where vs': "link_child u v null vs = Some (Inr vs')" "family vs' (kids(u := [v]))" "relinked vs vs'"
    using link_child_family [OF assms(1,2,3,5) assms(4) [symmetric], of null] assms(7) by auto
  have "dom vs' = dom vs" using vs'(3) by (rule relinked_dom)
  then obtain x' y' where xy: "vs' v = Some x'" "vs' u = Some y'" using assms(2,3) by blast
  have f: "fFirstChild x' = u" "fFirstChild y' = v" "u \<noteq> null" "v \<noteq> null" "fParent y' = v" "fParent x' = u"
    using familyD(3) [OF vs'(2) xy(1)] familyD(3) [OF vs'(2) xy(2)] familyD(1) [OF vs'(2)] xy assms(4,6) by auto
  then have "find_view hs vs' (cstring nm) False v = None"
    using find_view_cycle [OF xy f(1,2)] assms(8,9,10) by auto
  moreover have "ConvertToScreen vs' v (Some p) = None" using ConvertToScreen_cycle [OF xy f(6,5,3,4)] by simp
  moreover have "add_child u v null vs = Some (Inr vs')"
    using vs'(1) assms(2,4,5) familyD(1) [OF assms(1,2)] by (simp add: add_child_def AddChild_guard_def)
  ultimately show ?thesis using vs'(2) assms(11) by (auto simp: FindView_def read_cstring_def)
qed

text \<open>Screen coordinates of views at whole positions: the point or rectangle is moved by the offsets of the
  view and of all its ancestors, and converting back gives what was converted, as long as no sum
  leaves the range in which whole floats are exact.\<close>

lemma screen_coordinates_roundtrip:
  assumes "up_path vs (v # ps)" "\<forall>p\<in>set (v # ps). whole_offset vs ox oy p"
    "\<bar>l\<bar> + (\<Sum>p\<leftarrow>v # ps. \<bar>ox p\<bar>) < 2 ^ 21" "\<bar>t\<bar> + (\<Sum>p\<leftarrow>v # ps. \<bar>oy p\<bar>) < 2 ^ 21" "\<bar>r\<bar> < 2 ^ 21" "\<bar>b\<bar> < 2 ^ 21"
  shows "let dx = \<Sum>p\<leftarrow>v # ps. ox p; dy = \<Sum>p\<leftarrow>v # ps. oy p in
    ConvertToScreen vs v (Some (int_point l t)) = Some (Inr (Some (int_point (l + dx) (t + dy)))) \<and>
    ConvertFromScreen vs v (Some (int_point (l + dx) (t + dy))) = Some (Inr (Some (int_point l t))) \<and>
    ConvertToScreen_rect vs v (Some (int_rect l t r b)) = Some (Inr (Some (int_rect (l + dx) (t + dy) (r + dx) (b + dy)))) \<and>
    ConvertFromScreen_rect vs v (Some (int_rect (l + dx) (t + dy) (r + dx) (b + dy))) = Some (Inr (Some (int_rect l t r b)))"
proof -
  let ?A = "\<Sum>p\<leftarrow>v # ps. \<bar>ox p\<bar>" and ?B = "\<Sum>p\<leftarrow>v # ps. \<bar>oy p\<bar>"
  define dx where "dx = (\<Sum>p\<leftarrow>v # ps. ox p)"
  define dy where "dy = (\<Sum>p\<leftarrow>v # ps. oy p)"
  have ab: "\<bar>\<Sum>p\<leftarrow>ps. f p\<bar> \<le> (\<Sum>p\<leftarrow>ps. \<bar>f p\<bar>)" for f :: "ptr \<Rightarrow> int" and ps by (induction ps) auto
  have d: "\<bar>dx\<bar> \<le> ?A" "\<bar>dy\<bar> \<le> ?B" unfolding dx_def dy_def by (rule ab)+
  have two: "(2 :: int) ^ 22 = 2 * 2 ^ 21" "(2 :: int) ^ 23 = 4 * 2 ^ 21" by simp_all
  have bd: "\<bar>l\<bar> + ?A < 2 ^ 22" "\<bar>t\<bar> + ?B < 2 ^ 22" "\<bar>r\<bar> < 2 ^ 22" "\<bar>b\<bar> < 2 ^ 22"
    "\<bar>l + dx\<bar> + ?A < 2 ^ 22" "\<bar>t + dy\<bar> + ?B < 2 ^ 22" "\<bar>r + dx\<bar> < 2 ^ 22" "\<bar>b + dy\<bar> < 2 ^ 22"
    "\<bar>l\<bar> + ?A < 2 ^ 23" "\<bar>t\<bar> + ?B < 2 ^ 23" "\<bar>l + dx\<bar> + ?A < 2 ^ 23" "\<bar>t + dy\<bar> + ?B < 2 ^ 23"
    using d assms(3-6) two by linarith+
  show ?thesis
    using ConvertToScreen_path [OF assms(1,2) bd(9,10), folded dx_def dy_def]
      ConvertToScreen_path [OF assms(1,2) bd(11,12), folded dx_def dy_def]
      ConvertToScreen_rect_path [OF assms(1,2) bd(1-4) dx_def dy_def]
      ConvertToScreen_rect_path [OF assms(1,2) bd(5-8) dx_def dy_def]
    unfolding Let_def dx_def [symmetric] dy_def [symmetric] by simp
qed

text \<open>The views of the conversion tests at the end of the source: \<open>view4\<close> in \<open>view3\<close> in \<open>view1\<close>.\<close>

text \<open>The constructor cuts the frame to whole coordinates, puts the bounds at the origin and keeps the
  flags, but the resizing mode it was given is lost: \<open>SetFlags\<close>, through which both pass, keeps only the
  flags. \<open>SetResizingMode\<close> sets the mode and leaves the flags. Bits in the wrong argument end the
  program.\<close>

lemma View_constructor:
  assumes "resizeMask AND NOT RESIZE_MASK = 0" "flags AND RESIZE_MASK = 0" "\<forall>n\<in>{\<lfloor>a\<rfloor>, \<lfloor>b\<rfloor>, \<lfloor>c\<rfloor>, \<lfloor>d\<rfloor>}. \<bar>n\<bar> < 2 ^ 21"
  shows "(\<exists>v. View_new (Rect_of (Fin a) (Fin b) (Fin c) (Fin d)) resizeMask flags = Inr v \<and>
      View_Frame v = int_rect \<lfloor>a\<rfloor> \<lfloor>b\<rfloor> \<lfloor>c\<rfloor> \<lfloor>d\<rfloor> \<and> Bounds v = int_rect 0 0 (\<lfloor>c\<rfloor> - \<lfloor>a\<rfloor>) (\<lfloor>d\<rfloor> - \<lfloor>b\<rfloor>) \<and>
      Flags v = flags \<and> ResizingMode v = 0 \<and>
      ResizingMode (SetResizingMode v resizeMask) = resizeMask \<and> Flags (SetResizingMode v resizeMask) = flags) \<and>
    (resizeMask \<noteq> 0 \<longrightarrow> View_new frame flags resizeMask = Inl Debugger)"
proof
  have f0: "fint 0 = Fin 0" by (simp add: fint_def round32_def)
  have off: "fst (OffsetToCopy_point (int_rect l t r b) B_ORIGIN) = int_rect 0 0 (r - l) (b - t)"
    if "\<forall>n\<in>{l, t, r, b}. \<bar>n\<bar> < 2 ^ 22" for l t r b
    using OffsetTo_int [OF that, of 0 0, unfolded f0]
    by (simp add: OffsetToCopy_point_def OffsetTo_point_def OffsetTo_def B_ORIGIN_def Point_new_def)
  have fl: "ffloor (Fin q) = fint \<lfloor>q\<rfloor>" if "\<bar>\<lfloor>q\<rfloor>\<bar> < 2 ^ 21" for q using that by (simp add: exact_def)
  have bd: "\<forall>n\<in>{\<lfloor>a\<rfloor>, \<lfloor>b\<rfloor>, \<lfloor>c\<rfloor>, \<lfloor>d\<rfloor>}. \<bar>n\<bar> < 2 ^ 22" "\<forall>n\<in>{0, 0, \<lfloor>c\<rfloor> - \<lfloor>a\<rfloor>, \<lfloor>d\<rfloor> - \<lfloor>b\<rfloor>}. \<bar>n\<bar> < 2 ^ 22"
    "\<forall>n\<in>{\<lfloor>a\<rfloor>, \<lfloor>b\<rfloor>}. \<bar>n\<bar> < 2 ^ 23"
    using assms(3) by auto
  define v where "v = \<lparr>fFlags = flags, fParentOffset = int_point \<lfloor>a\<rfloor> \<lfloor>b\<rfloor>, fBounds = int_rect 0 0 (\<lfloor>c\<rfloor> - \<lfloor>a\<rfloor>) (\<lfloor>d\<rfloor> - \<lfloor>b\<rfloor>), fWindow = null,
     fParent = null, fNextSibling = null, fPrevSibling = null, fFirstChild = null, fEventMask = 0, fEventOptions = 0,
     fMouseEventMask = 0, fMouseEventOptions = 0, fState = new_stack\<rparr>"
  have w: "((resizeMask AND RESIZE_MASK) OR (flags AND NOT RESIZE_MASK)) AND NOT RESIZE_MASK = flags"
    "(resizeMask AND RESIZE_MASK) OR (flags AND NOT RESIZE_MASK) = 0 \<Longrightarrow> flags = 0"
    "flags AND NOT RESIZE_MASK = flags" "resizeMask AND RESIZE_MASK = resizeMask"
    "(flags OR resizeMask) AND RESIZE_MASK = resizeMask" "(flags OR resizeMask) AND NOT RESIZE_MASK = flags"
    using assms(1,2) by (auto simp: bit_eq_iff bit_simps)
  have "View_new (Rect_of (Fin a) (Fin b) (Fin c) (Fin d)) resizeMask flags = Inr v"
    using assms fl off [OF bd(1)] w(1,2)
    by (auto simp: View_new_def set_flags_def Flags_def v_def Let_def Rect_of_def int_rect_def int_point_def Point_new_def Point_Set_def
      simp del: ffloor.simps fint_exact)
  moreover have "View_Frame v = int_rect \<lfloor>a\<rfloor> \<lfloor>b\<rfloor> \<lfloor>c\<rfloor> \<lfloor>d\<rfloor>"
    using OffsetTo_int [OF bd(2,3)]
    by (simp add: View_Frame_def Bounds_def v_def OffsetToCopy_def int_point_def Point_new_def del: fint_exact)
  ultimately show "\<exists>v. View_new (Rect_of (Fin a) (Fin b) (Fin c) (Fin d)) resizeMask flags = Inr v \<and>
      View_Frame v = int_rect \<lfloor>a\<rfloor> \<lfloor>b\<rfloor> \<lfloor>c\<rfloor> \<lfloor>d\<rfloor> \<and> Bounds v = int_rect 0 0 (\<lfloor>c\<rfloor> - \<lfloor>a\<rfloor>) (\<lfloor>d\<rfloor> - \<lfloor>b\<rfloor>) \<and>
      Flags v = flags \<and> ResizingMode v = 0 \<and>
      ResizingMode (SetResizingMode v resizeMask) = resizeMask \<and> Flags (SetResizingMode v resizeMask) = flags"
    using assms(2) w by (auto simp: v_def Bounds_def Flags_def ResizingMode_def SetResizingMode_def)
next
  show "resizeMask \<noteq> 0 \<longrightarrow> View_new frame flags resizeMask = Inl Debugger"
    using assms(1) by (auto simp: View_new_def bit_eq_iff bit_simps)
qed

end
