(* ===== verification/MessageRect.thy ===== *)
theory MessageRect
  imports Rect Message
begin

text \<open>
  Points and rectangles in messages: \<open>AddPoint\<close>, \<open>FindPoint\<close>, \<open>AddRect\<close> and \<open>FindRect\<close>, which \<open>kits/app/Message.cpp\<close>
  generates with the macro \<open>DEFINE_FUNCTIONS\<close>. They copy the object representation of the value, whose
  floats are the 32 bits of IEEE single precision.
\<close>

section \<open>The bits of a float\<close>

text \<open>
  \<open>k\<close> is the number of units in the last place. A number below the smallest normal one has the exponent
  field zero and no implicit digit.
\<close>

fun float_bits :: "flt \<Rightarrow> nat" where
  "float_bits NaN = 0x7FC00000"
| "float_bits (Inf s) = (if s then 0xFF800000 else 0x7F800000)"
| "float_bits (Fin a) =
     (if a = 0 then 0
      else
        let e = ulp_exponent a; k = nat \<lfloor>\<bar>a\<bar> / pow2 e\<rfloor>
        in (if a < 0 then 2 ^ 31 else 0) + (if k < 2 ^ 23 then k else nat (e + 150) * 2 ^ 23 + (k - 2 ^ 23)))"

definition bits_float :: "nat \<Rightarrow> flt" where
  "bits_float w =
     (let s = 2 ^ 31 \<le> w; e = (w mod 2 ^ 31) div 2 ^ 23; m = w mod 2 ^ 23
      in if e = 255 then (if m = 0 then Inf s else NaN)
         else Fin ((if s then - 1 else 1) *
           (if e = 0 then of_nat m * pow2 (- 149) else of_nat (2 ^ 23 + m) * pow2 (int e - 150))))"

text \<open>The values that a float can have.\<close>

definition is_float :: "flt \<Rightarrow> bool" where
  "is_float x \<longleftrightarrow> (case x of Fin a \<Rightarrow> round32 a = Fin a | _ \<Rightarrow> True)"

lemma nlog2_less: "n < 2 ^ Suc (nlog2 n)"
proof (induction n rule: nlog2.induct)
  case (1 n)
  show ?case
  proof (cases "n < 2")
    case False
    then have "n div 2 < 2 ^ Suc (nlog2 (n div 2))" using 1 by simp
    then show ?thesis using False by (subst nlog2.simps) simp
  qed (simp add: nlog2.simps)
qed

lemma pow2_pos [simp]: "0 < pow2 e"
  by (simp add: pow2_def)

lemma pow2_abs [simp]: "\<bar>pow2 e\<bar> = pow2 e" "pow2 e \<noteq> 0"
  using pow2_pos [of e] by linarith+

lemma pow2_add: "pow2 (e + int n) = pow2 e * 2 ^ n"
proof -
  have "2 ^ nat (e + int n) = (2 :: rat) ^ nat e * 2 ^ n" if "0 \<le> e"
    using that by (simp add: nat_add_distrib power_add)
  moreover have "2 ^ nat (e + int n) * 2 ^ nat (- e) = (2 :: rat) ^ n" if "e < 0" "0 \<le> e + int n"
    using that by (simp add: power_add [symmetric] nat_add_distrib [symmetric])
  moreover have "2 ^ nat (- e - int n) * 2 ^ n = (2 :: rat) ^ nat (- e)" if "e + int n < 0"
    using that by (simp add: power_add [symmetric] nat_add_distrib [symmetric])
  ultimately show ?thesis by (simp add: pow2_def field_simps)
qed

lemma exponent_bounds:
  assumes "0 < x"
  shows "pow2 (exponent x) \<le> x" "x < pow2 (exponent x + 1)"
proof -
  have "pow2 (exponent x) \<le> x \<and> x < 2 * pow2 (exponent x)"
  proof (cases "1 \<le> x")
    case True
    then have e: "exponent x = int (nlog2 (nat \<lfloor>x\<rfloor>))" by (simp add: exponent_def)
    have n: "0 < nat \<lfloor>x\<rfloor>" using True by simp
    have a: "(2 :: rat) ^ nlog2 (nat \<lfloor>x\<rfloor>) \<le> of_nat (nat \<lfloor>x\<rfloor>)"
      using nlog2_le [OF n] by (metis of_nat_le_iff of_nat_numeral of_nat_power)
    have b: "of_nat (Suc (nat \<lfloor>x\<rfloor>)) \<le> (2 :: rat) ^ Suc (nlog2 (nat \<lfloor>x\<rfloor>))"
      using nlog2_less [of "nat \<lfloor>x\<rfloor>"] by (metis Suc_leI of_nat_le_iff of_nat_numeral of_nat_power)
    have c: "of_nat (nat \<lfloor>x\<rfloor>) \<le> x" "x < of_nat (Suc (nat \<lfloor>x\<rfloor>))" using True by (simp_all, linarith)
    have "pow2 (exponent x) = (2 :: rat) ^ nlog2 (nat \<lfloor>x\<rfloor>)" by (simp add: e pow2_def)
    then show ?thesis using a b c unfolding power_Suc by linarith
  next
    case False
    define m where "m = nat \<lceil>1 / x\<rceil>"
    have "1 < 1 / x" using assms False by simp
    then have m: "2 \<le> m" "of_nat m - 1 < 1 / x" "1 / x \<le> of_nat m" unfolding m_def by linarith+
    define j where "j = (if 2 ^ nlog2 m = m then nlog2 m else Suc (nlog2 m))"
    have e: "exponent x = - int j" using False by (simp add: exponent_def m_def j_def Let_def)
    have l: "2 ^ nlog2 m \<le> m" "m < 2 ^ Suc (nlog2 m)" using nlog2_le [of m] nlog2_less [of m] m(1) by auto
    have "m \<le> 2 ^ j" "2 ^ j \<le> 2 * (m - 1)" 
    proof -
      have "0 < nlog2 m" using m(1) l(2) by (cases "nlog2 m") auto
      then have "even ((2 :: nat) ^ nlog2 m)" by simp
      then show "m \<le> 2 ^ j" "2 ^ j \<le> 2 * (m - 1)" using l m(1) by (auto simp: j_def)
    qed
    then have "rat_of_nat m \<le> rat_of_nat (2 ^ j)" "rat_of_nat (2 ^ j) \<le> rat_of_nat (2 * (m - 1))"
      unfolding of_nat_le_iff by simp_all
    then have j: "of_nat m \<le> (2 :: rat) ^ j" "(2 :: rat) ^ j \<le> 2 * (of_nat m - 1)"
      using m(1) by (simp_all add: of_nat_diff)
    define y where "y = 1 / x"
    have y: "of_nat m - 1 < y" "y \<le> of_nat m" using m(2,3) by (simp_all add: y_def)
    have "y \<le> 2 ^ j" using j(1) y(2) by (rule order_trans [rotated])
    moreover have "2 ^ j < 2 * y" by (rule order_le_less_trans [OF j(2)]) (use y(1) in simp)
    ultimately have "y \<le> 2 ^ j" "2 ^ j < 2 * y" .
    then show ?thesis using assms by (cases "j = 0") (simp_all add: e pow2_def y_def field_simps)
  qed
  then show "pow2 (exponent x) \<le> x" "x < pow2 (exponent x + 1)" using pow2_add [of "exponent x" 1] by simp_all
qed

lemma ulp_bounds:
  assumes "a \<noteq> 0"
  shows "- 149 \<le> ulp_exponent a" "\<bar>a\<bar> < 2 ^ 24 * pow2 (ulp_exponent a)"
    "- 149 < ulp_exponent a \<Longrightarrow> 2 ^ 23 * pow2 (ulp_exponent a) \<le> \<bar>a\<bar>"
proof -
  let ?e = "ulp_exponent a"
  have x: "pow2 (exponent \<bar>a\<bar>) \<le> \<bar>a\<bar>" "\<bar>a\<bar> < pow2 (exponent \<bar>a\<bar> + 1)" using assms exponent_bounds [of "\<bar>a\<bar>"] by simp_all
  show e: "- 149 \<le> ?e" by (simp add: ulp_exponent_def)
  define d where "d = nat (?e + 24 - (exponent \<bar>a\<bar> + 1))"
  have d: "?e + int 24 = exponent \<bar>a\<bar> + 1 + int d" by (simp add: d_def ulp_exponent_def)
  have "1 \<le> (2 :: rat) ^ d" by simp
  then have "pow2 (exponent \<bar>a\<bar> + 1) * 1 \<le> pow2 (exponent \<bar>a\<bar> + 1) * 2 ^ d" by (intro mult_left_mono) (auto simp: less_imp_le)
  then have "pow2 (exponent \<bar>a\<bar> + 1) \<le> pow2 (?e + int 24)" unfolding d pow2_add [of "exponent \<bar>a\<bar> + 1" d] by simp
  then show "\<bar>a\<bar> < 2 ^ 24 * pow2 ?e" using x(2) pow2_add [of ?e 24] by simp
  show "2 ^ 23 * pow2 ?e \<le> \<bar>a\<bar>" if "- 149 < ?e"
  proof -
    have "exponent \<bar>a\<bar> = ?e + int 23" using that by (simp add: ulp_exponent_def)
    then show ?thesis using x(1) pow2_add [of ?e 23] by simp
  qed
qed

lemma float_units:
  assumes "a \<noteq> 0" "round32 a = Fin a"
  obtains k :: nat where "\<bar>a\<bar> = of_nat k * pow2 (ulp_exponent a)" "k < 2 ^ 24" "ulp_exponent a < 105" "0 < k"
    "- 149 < ulp_exponent a \<Longrightarrow> 2 ^ 23 \<le> k"
proof
  let ?e = "ulp_exponent a" and ?r = "round_half_even (a / pow2 (ulp_exponent a))"
  let ?k = "nat \<bar>?r\<bar>"
  have a: "a = of_int ?r * pow2 ?e" "\<bar>a\<bar> < 2 ^ 128"
    using assms by (auto simp: round32_def Let_def split: if_splits)
  show k: "\<bar>a\<bar> = of_nat ?k * pow2 ?e" by (subst a(1)) (simp add: abs_mult)
  have "of_nat ?k * pow2 ?e < 2 ^ 24 * pow2 ?e" using ulp_bounds(2) [OF assms(1)] k by simp
  then have "rat_of_nat ?k < 2 ^ 24" by simp
  then show "?k < 2 ^ 24" by (metis of_nat_less_iff of_nat_numeral of_nat_power)
  show "0 < ?k" using k assms(1) by (cases "?r = 0") auto
  show big: "2 ^ 23 \<le> ?k" if "- 149 < ?e"
  proof -
    have "2 ^ 23 * pow2 ?e \<le> of_nat ?k * pow2 ?e" using ulp_bounds(3) [OF assms(1) that] k by simp
    then have "2 ^ 23 \<le> rat_of_nat ?k" by simp
    then show ?thesis by (metis of_nat_le_iff of_nat_numeral of_nat_power)
  qed
  show "?e < 105"
  proof (rule ccontr)
    assume e: "\<not> ?e < 105"
    define d where "d = nat (?e - 105)"
    have "?e = 105 + int d" using e by (simp add: d_def)
    then have p: "pow2 ?e = 2 ^ 105 * 2 ^ d" using pow2_add [of 105 d] by (simp add: pow2_def)
    have "1 \<le> (2 :: rat) ^ d" by simp
    then have "(2 :: rat) ^ 105 \<le> pow2 ?e" unfolding p by simp
    then have "2 ^ 23 * (2 :: rat) ^ 105 \<le> 2 ^ 23 * pow2 ?e" by simp
    also have "\<dots> \<le> \<bar>a\<bar>" using ulp_bounds(3) [OF assms(1)] e by simp
    finally show False using a(2) by simp
  qed
qed

lemma bits_float_bits:
  assumes "is_float x"
  shows "bits_float (float_bits x) = x" "float_bits x < 2 ^ 32"
proof -
  have "bits_float (float_bits x) = x \<and> float_bits x < 2 ^ 32"
  proof (cases x)
    case (Fin a)
    show ?thesis
    proof (cases "a = 0")
      case False
      have r: "round32 a = Fin a" using assms Fin by (simp add: is_float_def)
      obtain k where k: "\<bar>a\<bar> = of_nat k * pow2 (ulp_exponent a)" "k < 2 ^ 24" "ulp_exponent a < 105" "0 < k"
        "- 149 < ulp_exponent a \<Longrightarrow> 2 ^ 23 \<le> k" using float_units [OF False r] by blast
      let ?e = "ulp_exponent a"
      have q: "nat \<lfloor>\<bar>a\<bar> / pow2 ?e\<rfloor> = k" using k(1) by simp
      have e: "- 149 \<le> ?e" using ulp_bounds(1) [OF False] .
      define s where "s = (if a < 0 then 2 ^ 31 else 0 :: nat)"
      define b where "b = (if k < 2 ^ 23 then k else nat (?e + 150) * 2 ^ 23 + (k - 2 ^ 23))"
      have fb: "float_bits x = s + b" using False by (simp add: Fin q s_def b_def Let_def)
      have sa: "(if a < 0 then - 1 else 1) * \<bar>a\<bar> = a" by simp
      show ?thesis
      proof (cases "k < 2 ^ 23")
        case True
        then have "?e = - 149" using k(5) e by linarith
        moreover have "b = k" using True by (simp add: b_def)
        moreover have "(s + k) mod 2 ^ 31 = k" "(s + k) mod 2 ^ 23 = k" "2 ^ 31 \<le> s + k \<longleftrightarrow> a < 0" "s + k < 2 ^ 32"
          using True by (auto simp: s_def mod_add_left_eq [symmetric])
        ultimately have "bits_float (float_bits x) = Fin ((if a < 0 then - 1 else 1) * (of_nat k * pow2 ?e))" "float_bits x < 2 ^ 32"
          using True fb by (simp_all add: bits_float_def Let_def)
        then show ?thesis using k(1) sa by (simp add: Fin)
      next
        case big: False
        define m where "m = k - 2 ^ 23"
        define f where "f = nat (?e + 150)"
        have m: "m < 2 ^ 23" "k = 2 ^ 23 + m" using big k(2) by (simp_all add: m_def)
        have f: "0 < f" "f < 255" "int f - 150 = ?e" using e k(3) by (simp_all add: f_def)
        have b: "b = f * 2 ^ 23 + m" using big by (simp add: b_def f_def m_def)
        have lt: "b < 2 ^ 31" using m(1) f(2) unfolding b by simp
        have "b div 2 ^ 23 = f" "b mod 2 ^ 23 = m" using m(1) unfolding b by simp_all
        moreover have "(s + b) mod 2 ^ 31 = b" "(s + b) mod 2 ^ 23 = b mod 2 ^ 23" "2 ^ 31 \<le> s + b \<longleftrightarrow> a < 0"
          using lt by (auto simp: s_def mod_add_left_eq [symmetric])
        ultimately have "bits_float (s + b) = Fin ((if a < 0 then - 1 else 1) * (of_nat (2 ^ 23 + m) * pow2 ?e))"
          using f by (simp add: bits_float_def Let_def del: of_nat_add)
        then show ?thesis using fb lt k(1) sa m(2) by (simp add: Fin s_def del: of_nat_add)
      qed
    qed (simp add: Fin bits_float_def pow2_def)
  qed (auto simp: bits_float_def)
  then show "bits_float (float_bits x) = x" "float_bits x < 2 ^ 32" by simp_all
qed

section \<open>The accessors\<close>

definition B_POINT_TYPE :: type_code where "B_POINT_TYPE = 0x42504E54"
definition B_RECT_TYPE :: type_code where "B_RECT_TYPE = 0x52454354"

definition float_bytes :: "flt \<Rightarrow> byte list" where "float_bytes x = le 4 (float_bits x)"
definition bytes_float :: "byte list \<Rightarrow> flt" where "bytes_float bs = bits_float (un_le (take 4 bs))"

definition point_bytes :: "point \<Rightarrow> byte list" where
  "point_bytes p = float_bytes (pt_x p) @ float_bytes (pt_y p)"
definition bytes_point :: "byte list \<Rightarrow> point" where
  "bytes_point bs = Point_new (bytes_float bs) (bytes_float (drop 4 bs))"

definition rect_bytes :: "rect \<Rightarrow> byte list" where
  "rect_bytes r = float_bytes (r_left r) @ float_bytes (r_top r) @ float_bytes (r_right r) @ float_bytes (r_bottom r)"
definition bytes_rect :: "byte list \<Rightarrow> rect" where
  "bytes_rect bs = Rect_of (bytes_float bs) (bytes_float (drop 4 bs)) (bytes_float (drop 8 bs)) (bytes_float (drop 12 bs))"

text \<open>\<open>BPoint()\<close> leaves its members unset, \<open>type()\<close> for a point is unspecified: \<open>zero\<close> is whatever it is.\<close>

definition AddPoint :: "(nat \<Rightarrow> bool) \<Rightarrow> message \<Rightarrow> mem option \<Rightarrow> point \<Rightarrow> (status \<times> message) outcome" where
  "AddPoint alloc this nm val = AddT B_POINT_TYPE alloc this nm (point_bytes val)"

definition FindPoint :: "point \<Rightarrow> message \<Rightarrow> mem option \<Rightarrow> int \<Rightarrow> (status \<times> point) outcome" where
  "FindPoint zero this nm index =
     bindR (FindT B_POINT_TYPE (point_bytes zero) this nm index) (\<lambda>(error, v). Inr (error, bytes_point v))"

definition AddRect :: "(nat \<Rightarrow> bool) \<Rightarrow> message \<Rightarrow> mem option \<Rightarrow> rect \<Rightarrow> (status \<times> message) outcome" where
  "AddRect alloc this nm val = AddT B_RECT_TYPE alloc this nm (rect_bytes val)"

definition FindRect :: "message \<Rightarrow> mem option \<Rightarrow> int \<Rightarrow> (status \<times> rect) outcome" where
  "FindRect this nm index =
     bindR (FindT B_RECT_TYPE (rect_bytes Rect_new) this nm index) (\<lambda>(error, v). Inr (error, bytes_rect v))"

definition float_rect :: "rect \<Rightarrow> bool" where
  "float_rect r \<longleftrightarrow> is_float (r_left r) \<and> is_float (r_top r) \<and> is_float (r_right r) \<and> is_float (r_bottom r)"
definition float_point :: "point \<Rightarrow> bool" where
  "float_point p \<longleftrightarrow> is_float (pt_x p) \<and> is_float (pt_y p)"

lemma length_float_bytes [simp]: "length (float_bytes x) = 4"
  by (simp add: float_bytes_def)

lemma bytes_float_bytes [simp]: "is_float x \<Longrightarrow> bytes_float (float_bytes x @ rest) = x"
  using bits_float_bits [of x] by (simp add: bytes_float_def float_bytes_def un_le_le)

lemma bytes_rect_bytes: "float_rect r \<Longrightarrow> bytes_rect (rect_bytes r) = r"
  using bytes_float_bytes [of "r_bottom r" "[]"] by (simp add: bytes_rect_def rect_bytes_def float_rect_def Rect_of_def)

lemma bytes_point_bytes: "float_point p \<Longrightarrow> bytes_point (point_bytes p) = p"
  using bytes_float_bytes [of "pt_y p" "[]"] by (simp add: bytes_point_def point_bytes_def float_point_def Point_new_def)

lemma length_rect_bytes [simp]: "length (rect_bytes r) = 16" "length (point_bytes p) = 8"
  by (simp_all add: rect_bytes_def point_bytes_def)

lemma AddT_new:
  assumes "message_ok this" "name_ok nm" "fields (nodes this) nm = None" "alloc (length val)" "length val < 2 ^ 63"
  shows "\<exists>t. AddT ty alloc this (Some (c_str nm)) val = Inr (B_OK, t) \<and> message_ok t \<and> what t = what this \<and>
    handler t = handler this \<and> reply_to t = reply_to this \<and> fields (nodes t) = (fields (nodes this))(nm \<mapsto> (ty, [val]))"
proof -
  obtain st t where p: "pushNode this nm ty val = (st, t)" by fastforce
  have "AddT ty alloc this (Some (c_str nm)) val = Inr (st, t)"
    using addNode_fits [where alloc = alloc and d = val and rest = "[]", OF assms(4,5,2), of this ty] p by (simp add: AddT_def AddData_def)
  then show ?thesis using pushNode_refines [OF assms(1,2) p] assms(3) by auto
qed

lemma FindRect_field:
  assumes "message_ok this" "name_ok nm" "fields (nodes this) nm = Some (B_RECT_TYPE, [rect_bytes r])" "float_rect r"
  shows "FindRect this (Some (c_str nm)) 0 = Inr (B_OK, r)"
  using assms FindData_lookup [OF assms(1,2), of B_RECT_TYPE 0 None]
  by (simp add: FindRect_def FindT_def lookup_def read_bytes_def bytes_rect_bytes)

lemma FindPoint_field:
  assumes "message_ok this" "name_ok nm" "fields (nodes this) nm = Some (B_POINT_TYPE, [point_bytes p])" "float_point p"
  shows "FindPoint zero this (Some (c_str nm)) 0 = Inr (B_OK, p)"
  using assms FindData_lookup [OF assms(1,2), of B_POINT_TYPE 0 None]
  by (simp add: FindPoint_def FindT_def lookup_def read_bytes_def bytes_point_bytes)

section \<open>Properties\<close>

text \<open>A rectangle and a point that were added to a message, bit by bit, are found again as they were, and
  the first is not disturbed by the second. A rectangle that is not there is found as the default
  rectangle, with an error.\<close>

lemma rect_in_message_roundtrip:
  assumes "message_ok this" "name_ok nm" "name_ok key" "nm \<noteq> key" "fields (nodes this) nm = None" "fields (nodes this) key = None"
    and "float_rect r" "float_point p" "\<forall>k. alloc k"
  shows "\<exists>t1 t2. AddRect alloc this (Some (c_str nm)) r = Inr (B_OK, t1) \<and> AddPoint alloc t1 (Some (c_str key)) p = Inr (B_OK, t2) \<and>
    FindRect t2 (Some (c_str nm)) 0 = Inr (B_OK, r) \<and> FindPoint zero t2 (Some (c_str key)) 0 = Inr (B_OK, p) \<and>
    FindRect this (Some (c_str nm)) 0 = Inr (B_NAME_NOT_FOUND, Rect_new)"
proof -
  obtain t1 where t1: "AddRect alloc this (Some (c_str nm)) r = Inr (B_OK, t1)" "message_ok t1"
      "fields (nodes t1) = (fields (nodes this))(nm \<mapsto> (B_RECT_TYPE, [rect_bytes r]))"
    using AddT_new [OF assms(1,2,5), of alloc "rect_bytes r" B_RECT_TYPE] assms(9) by (auto simp: AddRect_def)
  have "fields (nodes t1) key = None" using t1(3) assms(4,6) by simp
  then obtain t2 where t2: "AddPoint alloc t1 (Some (c_str key)) p = Inr (B_OK, t2)" "message_ok t2"
      "fields (nodes t2) = (fields (nodes t1))(key \<mapsto> (B_POINT_TYPE, [point_bytes p]))"
    using AddT_new [OF t1(2) assms(3), of alloc "point_bytes p" B_POINT_TYPE] assms(9) by (auto simp: AddPoint_def)
  have "round32 (- 1) = Fin (- 1)" using round32_int [of "- 1"] by (simp add: exact_def)
  then have "float_rect Rect_new" by (simp add: float_rect_def Rect_new_def is_float_def round32_def [of 0])
  then have "FindRect this (Some (c_str nm)) 0 = Inr (B_NAME_NOT_FOUND, Rect_new)"
    using FindData_lookup [OF assms(1,2), of B_RECT_TYPE 0 None] assms(5)
    by (simp add: FindRect_def FindT_def lookup_def bytes_rect_bytes status_defs)
  then show ?thesis
    using t1 t2 FindRect_field [OF t2(2) assms(2)] FindPoint_field [OF t2(2) assms(3)] assms(4,7,8) by auto
qed

end
