(* ===== verification/WindowView.thy ===== *)
theory WindowView
  imports ViewTree MessageRect
begin

text \<open>
  Views in a window: \<open>AddChild\<close>, \<open>RemoveChild\<close>, \<open>_attach\<close> and \<open>_detach\<close> of \<open>kits/interface/View.cpp\<close>, with the handlers
  and the message queue of the window's looper, the focus, the event masks and the invalidation of
  views, and the part of \<open>kits/interface/Window.cpp\<close> that they use. A view is a handler and a window is a looper
  under the same address.
\<close>

section \<open>The state\<close>

record window =
  fShowLevel :: int
  fFocus :: ptr
  fLastMouseMovedView :: ptr
  fPulseRate :: int
  fPulsedTime :: int
  fViewsEvents :: "32 word"
  top_view :: ptr

text \<open>
  The hooks that subclasses implement; those of \<open>BView\<close> do nothing. The state records their calls, and the messages
  that the window passes to its views.
\<close>

datatype hook = Attached ptr | All_attached ptr | Detached ptr | All_detached ptr | Pulsed ptr | Received ptr message

record gui =
  world :: world
  views :: views
  windows :: "ptr \<Rightarrow> window option"
  hooks :: "hook list"

text \<open>
  The environment of a call: the thread, whether there is memory, what the kernel calls of \<open>PostMessage\<close>
  return, the address of a new message, the time, and whether \<open>LOG_FATAL_IF\<close> is compiled in.
\<close>

record env =
  e_self :: thread
  e_alloc :: "nat \<Rightarrow> bool"
  e_has_data :: "world \<Rightarrow> bool"
  e_sent :: "world \<Rightarrow> status"
  e_new :: "world \<Rightarrow> ptr"
  e_now :: int
  e_fatal :: bool

definition UPDATE :: "32 word" where "UPDATE = 0x5F555044"
definition B_PULSE :: "32 word" where "B_PULSE = 0x5F50554C"
definition B_MOUSE_DOWN :: "32 word" where "B_MOUSE_DOWN = 0x5F4D444E"

definition update_name :: "byte list" where
  "update_name = [0x75, 0x70, 0x64, 0x61, 0x74, 0x65, 0x52, 0x65, 0x63, 0x74]"   \<comment> \<open>\<open>updateRect\<close>\<close>

definition call_hook :: "hook \<Rightarrow> gui \<Rightarrow> gui" where "call_hook h g = g\<lparr>hooks := hooks g @ [h]\<rparr>"

definition put_window :: "ptr \<Rightarrow> window \<Rightarrow> gui \<Rightarrow> gui" where
  "put_window w x g = g\<lparr>windows := (windows g)(w := Some x)\<rparr>"

definition put_view :: "ptr \<Rightarrow> view \<Rightarrow> gui \<Rightarrow> gui" where
  "put_view v x g = g\<lparr>views := (views g)(v := Some x)\<rparr>"

definition in_world :: "world outcome \<Rightarrow> gui \<Rightarrow> gui outcome" where
  "in_world r g = bindR r (\<lambda>w. Inr (g\<lparr>world := w\<rparr>))"

section \<open>Invalidation\<close>

definition Invalidate_rect :: "env \<Rightarrow> ptr \<Rightarrow> rect \<Rightarrow> gui \<Rightarrow> gui outcome" where
  "Invalidate_rect env this invalRect g =
     (if e_fatal env \<and> \<not> Rect_IsValid invalRect then Inl Debugger
      else bindR (alive (views g this)) (\<lambda>v.
           bindR (Handler_Looper (world g) this) (\<lambda>l.
           if fFlags v AND B_WILL_DRAW \<noteq> 0 \<and> l \<noteq> null then
             bindR (AddRect (e_alloc env) (Message_new UPDATE) (Some (c_str update_name)) invalRect) (\<lambda>(_, message).
             bindR (PostMessage_to (e_alloc env) (e_self env) (e_has_data env (world g)) (e_sent env (world g))
                      (world g) l (e_new env (world g)) (Some message) this null) (\<lambda>(_, w).
             Inr (g\<lparr>world := w\<rparr>)))
           else Inr g)))"

definition Invalidate :: "env \<Rightarrow> ptr \<Rightarrow> gui \<Rightarrow> gui outcome" where
  "Invalidate env this g = bindR (alive (views g this)) (\<lambda>v. Invalidate_rect env this (Bounds v) g)"

section \<open>The window\<close>

definition Window_IsHidden :: "window \<Rightarrow> bool" where "Window_IsHidden this \<longleftrightarrow> 0 < fShowLevel this"
definition CurrentFocus :: "window \<Rightarrow> ptr" where "CurrentFocus this = fFocus this"
definition LastMouseMovedView :: "window \<Rightarrow> ptr" where "LastMouseMovedView this = fLastMouseMovedView this"
definition PulseRate :: "window \<Rightarrow> int" where "PulseRate this = fPulseRate this"

definition set_focus :: "ptr \<Rightarrow> ptr \<Rightarrow> gui \<Rightarrow> gui outcome" where
  "set_focus this focusView g =
     bindR (alive (windows g this)) (\<lambda>w.
     if fFocus w = focusView then Inr g
     else let g = put_window this (w\<lparr>fFocus := focusView\<rparr>) g
          in in_world (SetPreferredHandler (world g) this focusView) g)"

definition try_pulse :: "env \<Rightarrow> ptr \<Rightarrow> gui \<Rightarrow> gui outcome" where
  "try_pulse env this g =
     bindR (alive (windows g this)) (\<lambda>w.
     if fViewsEvents w AND B_PULSE_NEEDED \<noteq> 0 \<and> 0 < fPulseRate w \<and> fPulsedTime w + fPulseRate w \<le> e_now env then
       let g = put_window this (w\<lparr>fPulsedTime := e_now env\<rparr>) g
       in bindR (PostMessage_command (e_self env) (e_has_data env (world g)) (e_sent env (world g)) (world g) this
                   (e_new env (world g)) B_PULSE) (\<lambda>(_, wd). Inr (g\<lparr>world := wd\<rparr>))
     else Inr g)"

definition SetPulseRate :: "env \<Rightarrow> ptr \<Rightarrow> int \<Rightarrow> gui \<Rightarrow> gui outcome" where
  "SetPulseRate env this rate g =
     bindR (alive (windows g this)) (\<lambda>w.
     if fPulseRate w = rate then Inr g
     else try_pulse env this (put_window this (w\<lparr>fPulseRate := rate\<rparr>) g))"

section \<open>Focus\<close>

text \<open>\<open>MakeFocus(false)\<close>, and \<open>MakeFocus\<close>, which calls it for the view that has the focus.\<close>

definition drop_focus :: "ptr \<Rightarrow> gui \<Rightarrow> gui outcome" where
  "drop_focus this g =
     bindR (alive (views g this)) (\<lambda>v.
     if fWindow v = null then Inr g
     else bindR (alive (windows g (fWindow v))) (\<lambda>w.
          if CurrentFocus w = this then set_focus (fWindow v) null g else Inr g))"

definition MakeFocus :: "ptr \<Rightarrow> bool \<Rightarrow> gui \<Rightarrow> gui outcome" where
  "MakeFocus this focusState g =
     (if \<not> focusState then drop_focus this g
      else bindR (alive (views g this)) (\<lambda>v.
           if fWindow v = null then Inr g
           else bindR (alive (windows g (fWindow v))) (\<lambda>w.
                let focusView = CurrentFocus w
                in bindR (if focusView \<noteq> null \<and> focusView \<noteq> this then drop_focus focusView g else Inr g)
                     (set_focus (fWindow v) this))))"

definition IsFocus :: "ptr \<Rightarrow> gui \<Rightarrow> bool outcome" where
  "IsFocus this g =
     bindR (alive (views g this)) (\<lambda>v.
     if fWindow v = null then Inr False
     else bindR (alive (windows g (fWindow v))) (\<lambda>w. Inr (CurrentFocus w = this)))"

section \<open>Attaching and detaching\<close>

text \<open>
  The two recursions follow the sibling links of the store. The fuel bounds the number of nested calls
  and steps of the loops together; \<open>None\<close> means that it was used up.
\<close>

definition attach_self :: "env \<Rightarrow> ptr \<Rightarrow> ptr \<Rightarrow> gui \<Rightarrow> gui outcome" where
  "attach_self env win this g =
     (if win = null then Inl (if e_fatal env then Debugger else Undefined)
      else bindR (alive (views g this)) (\<lambda>v.
      if fWindow v \<noteq> null then Inl Debugger
      else
        let g = put_view this (v\<lparr>fWindow := win\<rparr>) g
        in bindR (in_world (Looper_AddHandler (world g) win this) g) (\<lambda>g.
           bindR (alive (windows g win)) (\<lambda>w.
           let g = call_hook (Attached this)
                     (put_window win (w\<lparr>fViewsEvents := fViewsEvents w OR (fFlags v AND B_PULSE_NEEDED)\<rparr>) g)
           in if \<not> Window_IsHidden w then Invalidate env this g else Inr g))))"

fun attach :: "nat \<Rightarrow> env \<Rightarrow> ptr \<Rightarrow> ptr \<Rightarrow> gui \<Rightarrow> gui partial"
  and attach_children :: "nat \<Rightarrow> env \<Rightarrow> ptr \<Rightarrow> ptr \<Rightarrow> gui \<Rightarrow> gui partial" where
  "attach 0 env win this g = None"
| "attach (Suc n) env win this g =
     bindO (Some (attach_self env win this g)) (\<lambda>g.
     bindO (Some (alive (views g this))) (\<lambda>v.
     bindO (attach_children n env win (fFirstChild v) g) (\<lambda>g.
     Some (Inr (call_hook (All_attached this) g)))))"
| "attach_children 0 env win child g = None"
| "attach_children (Suc n) env win child g =
     (if child = null then Some (Inr g)
      else bindO (Some (alive (views g child))) (\<lambda>c.
           bindO (if fWindow c = null then attach n env win child g else Some (Inr g)) (\<lambda>g.
           bindO (Some (alive (views g child))) (\<lambda>c.
           attach_children n env win (fNextSibling c) g))))"

definition detach_self :: "env \<Rightarrow> ptr \<Rightarrow> gui \<Rightarrow> gui outcome" where
  "detach_self env this g =
     bindR (alive (views g this)) (\<lambda>v.
     bindR (alive (windows g (fWindow v))) (\<lambda>w.
     bindR (if \<not> Window_IsHidden w then Invalidate env this g else Inr g) (\<lambda>g.
     bindR (if CurrentFocus w = this then drop_focus this g else Inr g) (\<lambda>g.
     bindR (alive (windows g (fWindow v))) (\<lambda>w.
     let g = if fLastMouseMovedView w = this then put_window (fWindow v) (w\<lparr>fLastMouseMovedView := null\<rparr>) g else g
     in bindR (Looper_RemoveHandler (world g) (fWindow v) this) (\<lambda>(_, wd).
        bindR (upd this (\<lambda>v. v\<lparr>fWindow := null\<rparr>) (views g)) (\<lambda>vs. Inr (g\<lparr>world := wd, views := vs\<rparr>))))))))"

fun detach :: "nat \<Rightarrow> env \<Rightarrow> ptr \<Rightarrow> gui \<Rightarrow> gui partial"
  and detach_children :: "nat \<Rightarrow> env \<Rightarrow> ptr \<Rightarrow> gui \<Rightarrow> gui partial" where
  "detach 0 env this g = None"
| "detach (Suc n) env this g =
     bindO (Some (alive (views g this))) (\<lambda>v.
     if fWindow v = null then Some (Inl Debugger)
     else bindO (detach_children n env (fFirstChild v) (call_hook (Detached this) g)) (\<lambda>g.
          Some (detach_self env this (call_hook (All_detached this) g))))"
| "detach_children 0 env child g = None"
| "detach_children (Suc n) env child g =
     (if child = null then Some (Inr g)
      else bindO (detach n env child g) (\<lambda>g.
           bindO (Some (alive (views g child))) (\<lambda>c. detach_children n env (fNextSibling c) g)))"

section \<open>\<open>AddChild\<close> and \<open>RemoveChild\<close>\<close>

text \<open>The lock of the window is taken only if nobody has it; \<open>None\<close> while the thread waits for it.\<close>

definition lock_owner :: "env \<Rightarrow> ptr \<Rightarrow> gui \<Rightarrow> (bool \<times> gui) partial" where
  "lock_owner env win g =
     (if win = null then Some (Inr (False, g))
      else bindO (Some (alive (loopers (world g) win))) (\<lambda>l.
           if Looper_IsLocked l then Some (Inr (False, g))
           else case Looper_Lock (e_self env) B_OK l of
                  None \<Rightarrow> None
                | Some (_, l) \<Rightarrow> Some (Inr (True, g\<lparr>world := put_looper win l (world g)\<rparr>))))"

definition unlock_owner :: "env \<Rightarrow> ptr \<Rightarrow> gui \<Rightarrow> gui outcome" where
  "unlock_owner env win g =
     bindR (alive (loopers (world g) win)) (\<lambda>l.
     Inr (g\<lparr>world := put_looper win (Looper_Unlock (e_self env) l) (world g)\<rparr>))"

definition View_AddChild :: "nat \<Rightarrow> env \<Rightarrow> ptr \<Rightarrow> ptr \<Rightarrow> ptr \<Rightarrow> gui \<Rightarrow> gui partial" where
  "View_AddChild n env this child before g =
     bindO (Some (AddChild_guard this child before (views g))) (\<lambda>ok.
     if \<not> ok then Some (Inr g)
     else
       bindO (Some (alive (views g this))) (\<lambda>t.
       bindO (lock_owner env (fWindow t) g) (\<lambda>(locked, g).
       bindO (link_child this child before (views g)) (\<lambda>vs.
       if fWindow t = null then Some (Inr (g\<lparr>views := vs\<rparr>))
       else bindO (attach n env (fWindow t) child (g\<lparr>views := vs\<rparr>)) (\<lambda>g.
            Some (if locked then unlock_owner env (fWindow t) g else Inr g))))))"

definition View_RemoveChild :: "nat \<Rightarrow> env \<Rightarrow> ptr \<Rightarrow> ptr \<Rightarrow> gui \<Rightarrow> (bool \<times> gui) partial" where
  "View_RemoveChild n env this child g =
     bindO (Some (RemoveChild_guard this child (views g))) (\<lambda>ok.
     if \<not> ok then Some (Inr (False, g))
     else
       bindO (Some (alive (views g child))) (\<lambda>c.
       bindO (if fWindow c \<noteq> null then detach n env child g else Some (Inr g)) (\<lambda>g.
       Some (bindR (unlink_child this child (views g)) (\<lambda>vs. Inr (True, g\<lparr>views := vs\<rparr>))))))"

definition RemoveSelf :: "nat \<Rightarrow> env \<Rightarrow> ptr \<Rightarrow> gui \<Rightarrow> (bool \<times> gui) partial" where
  "RemoveSelf n env this g =
     bindO (Some (alive (views g this))) (\<lambda>v.
     if fParent v = null then Some (Inr (False, g)) else View_RemoveChild n env (fParent v) this g)"

section \<open>Events, flags and geometry\<close>

definition add_events :: "ptr \<Rightarrow> 32 word \<Rightarrow> gui \<Rightarrow> gui outcome" where
  "add_events win m g =
     bindR (alive (windows g win)) (\<lambda>w. Inr (put_window win (w\<lparr>fViewsEvents := fViewsEvents w OR m\<rparr>) g))"

definition SetEventMask :: "ptr \<Rightarrow> 32 word \<Rightarrow> 32 word \<Rightarrow> gui \<Rightarrow> (status \<times> gui) outcome" where
  "SetEventMask this m options g =
     bindR (alive (views g this)) (\<lambda>v.
     if fEventMask v = m \<and> fEventOptions v = options then Inr (B_OK, g)
     else
       let v' = v\<lparr>fEventMask := if m \<noteq> 0 \<or> options = 0 then m OR (fEventMask v AND 0xFFFF0000) else fEventMask v,
                  fEventOptions := options\<rparr>;
           g = put_view this v' g
       in bindR (if fWindow v \<noteq> null then add_events (fWindow v) m g else Inr g) (\<lambda>g. Inr (B_OK, g)))"

definition SetMouseEventMask :: "ptr \<Rightarrow> 32 word \<Rightarrow> 32 word \<Rightarrow> gui \<Rightarrow> (status \<times> gui) outcome" where
  "SetMouseEventMask this m options g =
     bindR (alive (views g this)) (\<lambda>v.
     if fWindow v = null then Inr (B_ERROR, g)
     else bindR (alive (loopers (world g) (fWindow v))) (\<lambda>l.
          if CurrentMessage l = null then Inr (B_ERROR, g)
          else bindR (alive (messages (world g) (CurrentMessage l))) (\<lambda>cur.
               if what cur \<noteq> B_MOUSE_DOWN then Inr (B_ERROR, g)
               else bindR (add_events (fWindow v) m (put_view this (v\<lparr>fMouseEventMask := m, fMouseEventOptions := options\<rparr>) g))
                      (\<lambda>g. Inr (B_OK, g)))))"

definition SetFlags :: "env \<Rightarrow> ptr \<Rightarrow> 32 word \<Rightarrow> gui \<Rightarrow> gui outcome" where
  "SetFlags env this flags g =
     bindR (alive (views g this)) (\<lambda>v.
     if Flags v = flags then Inr g
     else
       let changes_flags = flags XOR fFlags v;
           g = put_view this (set_flags v flags) g
       in if fWindow v \<noteq> null \<and> changes_flags AND B_PULSE_NEEDED \<noteq> 0
          then bindR (add_events (fWindow v) B_PULSE_NEEDED g) (try_pulse env (fWindow v))
          else Inr g)"

definition invalidate_parent :: "env \<Rightarrow> view \<Rightarrow> gui \<Rightarrow> gui outcome" where
  "invalidate_parent env v g = (if fParent v \<noteq> null then Invalidate env (fParent v) g else Inr g)"

definition MoveTo :: "env \<Rightarrow> ptr \<Rightarrow> flt \<Rightarrow> flt \<Rightarrow> gui \<Rightarrow> gui outcome" where
  "MoveTo env this x y g =
     bindR (alive (views g this)) (\<lambda>v.
     invalidate_parent env v
       (put_view this (v\<lparr>fParentOffset := (fParentOffset v)\<lparr>pt_x := ffloor x, pt_y := ffloor y\<rparr>\<rparr>) g))"

definition MoveTo_point :: "env \<Rightarrow> ptr \<Rightarrow> point \<Rightarrow> gui \<Rightarrow> gui outcome" where
  "MoveTo_point env this p g = MoveTo env this (pt_x p) (pt_y p) g"

definition MoveBy :: "env \<Rightarrow> ptr \<Rightarrow> flt \<Rightarrow> flt \<Rightarrow> gui \<Rightarrow> gui outcome" where
  "MoveBy env this dh dv g =
     bindR (alive (views g this)) (\<lambda>v. MoveTo env this (fadd (r_left (fBounds v)) dh) (fadd (r_top (fBounds v)) dv) g)"

definition ResizeTo :: "env \<Rightarrow> ptr \<Rightarrow> flt \<Rightarrow> flt \<Rightarrow> gui \<Rightarrow> gui outcome" where
  "ResizeTo env this width height g =
     (if e_fatal env \<and> (fless width (Fin 0) \<or> fless height (Fin 0)) then Inl Debugger
      else bindR (alive (views g this)) (\<lambda>v.
           let b = fBounds v
           in invalidate_parent env v (put_view this (v\<lparr>fBounds := Rect_Set b (r_left b) (r_top b)
                (ffloor (fadd (r_left b) width)) (ffloor (fadd (r_top b) height))\<rparr>) g)))"

definition ResizeBy :: "env \<Rightarrow> ptr \<Rightarrow> flt \<Rightarrow> flt \<Rightarrow> gui \<Rightarrow> gui outcome" where
  "ResizeBy env this dh dv g =
     bindR (alive (views g this)) (\<lambda>v. ResizeTo env this (fadd (Width (fBounds v)) dh) (fadd (Height (fBounds v)) dv) g)"

definition ResizeToPreferred :: "env \<Rightarrow> ptr \<Rightarrow> gui \<Rightarrow> gui outcome" where
  "ResizeToPreferred env this g =
     bindR (alive (views g this)) (\<lambda>v.
     ResizeTo env this (fst (GetPreferredSize v)) (snd (GetPreferredSize v)) g)"

end
