(* ===== verification/WindowTree.thy ===== *)
theory WindowTree
  imports WindowView
begin

text \<open>
  The trees of views in a window: the invariant that ties views, handlers, looper, focus and lists of
  children together, and what attaching and detaching a tree does.
\<close>

section \<open>Invariant\<close>

text \<open>
  The looper and its handlers are in order, every view is a handler whose looper is the window of the
  view, the children form lists, and focus and pointer refer to views of the window.
\<close>

definition in_window :: "gui \<Rightarrow> ptr \<Rightarrow> ptr \<Rightarrow> bool" where
  "in_window g win v \<longleftrightarrow> (\<exists>x. views g v = Some x \<and> fWindow x = win)"

definition gui_ok :: "(ptr \<Rightarrow> ptr list) \<Rightarrow> ptr \<Rightarrow> gui \<Rightarrow> bool" where
  "gui_ok kids win g \<longleftrightarrow>
     family (views g) kids \<and> looper_ok (world g) win \<and> belongs (world g) win win \<and> views g win = None \<and>
     (\<forall>v x. views g v = Some x \<longrightarrow> (\<exists>h. handlers (world g) v = Some h \<and> fLooper h = fWindow x)) \<and>
     (\<exists>w. windows g win = Some w \<and> (fFocus w = null \<or> in_window g win (fFocus w)) \<and>
        (fLastMouseMovedView w = null \<or> in_window g win (fLastMouseMovedView w)))"

text \<open>There is memory, and no view has invalid bounds where that is fatal.\<close>

definition env_ok :: "env \<Rightarrow> gui \<Rightarrow> bool" where
  "env_ok env g \<longleftrightarrow> (\<forall>k. e_alloc env k) \<and> (e_fatal env \<longrightarrow> (\<forall>v x. views g v = Some x \<longrightarrow> Rect_IsValid (fBounds x)))"

definition set_window :: "ptr \<Rightarrow> ptr set \<Rightarrow> views \<Rightarrow> views" where
  "set_window win us vs = (\<lambda>v. if v \<in> us then map_option (\<lambda>x. x\<lparr>fWindow := win\<rparr>) (vs v) else vs v)"

lemma set_window_simps [simp]:
  "set_window win {} vs = vs" "set_window win us (set_window win T vs) = set_window win (us \<union> T) vs"
  "set_window win us vs v = None \<longleftrightarrow> vs v = None" "dom (set_window win us vs) = dom vs"
  by (auto simp: set_window_def fun_eq_iff option.map_comp comp_def dom_def split: if_splits)

lemma set_window_at: "vs v = Some x \<Longrightarrow> set_window win us vs v = Some (if v \<in> us then x\<lparr>fWindow := win\<rparr> else x)"
  by (simp add: set_window_def)

lemma seg_set_window [simp]: "seg (set_window win us vs) v prev cs nxt f = seg vs v prev cs nxt f"
proof -
  have "map_option links (set_window win us vs c) = map_option links (vs c)" for c
    by (cases "vs c") (simp_all add: set_window_def links_def)
  then show ?thesis by (intro seg_frame) simp
qed

lemma family_cong:
  assumes "\<forall>v. map_option (\<lambda>x. (links x, fFirstChild x)) (vs' v) = map_option (\<lambda>x. (links x, fFirstChild x)) (vs v)"
  shows "family vs kids \<Longrightarrow> family vs' kids"
proof (rule familyI)
  have e: "map_option links (vs' v) = map_option links (vs v)" for v
    using arg_cong [OF assms [rule_format, of v], of "map_option fst"] by (simp add: option.map_comp comp_def)
  have at: "\<exists>x. vs v = Some x \<and> links x = links x' \<and> fFirstChild x = fFirstChild x'" if "vs' v = Some x'" for v x'
    using assms [rule_format, of v] that by (cases "vs v") auto
  have d: "dom vs' = dom vs" using e by (metis (no_types, lifting) domIff option.map_disc_iff subsetI subset_antisym)
  moreover assume f: "family vs kids"
  moreover have "vs' null = None" using f e [of null] by (simp add: family_def)
  ultimately show "vs' null = None" by simp
  show "distinct (kids v) \<and> seg vs' v null (kids v) null (fFirstChild x)" if a: "vs' v = Some x" for v x
  proof -
    obtain y where y: "vs v = Some y" "fFirstChild y = fFirstChild x" using at [OF a] by auto
    then show ?thesis using familyD(2,3) [OF f y(1)] seg_frame [of "kids v" vs' vs] e by auto
  qed
  show "if fParent x = null then fNextSibling x = null \<and> fPrevSibling x = null
       else fParent x \<in> dom vs' \<and> v \<in> set (kids (fParent x))" if a: "vs' v = Some x" for v x
  proof -
    obtain y where y: "vs v = Some y" "links y = links x" using at [OF a] by auto
    then show ?thesis using familyD(4,5) [OF f y(1)] d by (simp add: links_def)
  qed
qed

lemma family_set_window: "family vs kids \<Longrightarrow> family (set_window win us vs) kids"
  by (rule family_cong) (auto simp: set_window_def option.map_comp comp_def links_def)

section \<open>Posting keeps the handlers\<close>

lemma looper_ok_cong:
  assumes "handlers w' = handlers w" "loopers w' = (loopers w)(win := Some l')" "loopers w win = Some l"
    "fHandlers l' = fHandlers l" "fOwnerCount l' = fOwnerCount l" "fPreferred l' = fPreferred l"
  shows "looper_ok w win \<Longrightarrow> looper_ok w' win"
  using assms by (auto simp: looper_ok_def belongs_def Looper_IsLocked_def)

lemma AddRect_update:
  assumes "env_ok env g"
  shows "\<exists>m. AddRect (e_alloc env) (Message_new UPDATE) (Some (c_str update_name)) r = Inr (B_OK, m) \<and>
    what m = UPDATE \<and> message_ok m \<and> (\<forall>n\<in>set (nodes m). sizes_ok n) \<and> get_handler m = null"
proof -
  have nm: "name_ok update_name" by (simp add: update_name_def name_ok_def B_FIELD_NAME_LENGTH_def)
  have a: "e_alloc env (length (rect_bytes r))" using assms by (simp add: env_ok_def)
  have "AddRect (e_alloc env) (Message_new UPDATE) (Some (c_str update_name)) r =
      Inr (pushNode (Message_new UPDATE) update_name B_RECT_TYPE (rect_bytes r))"
    using addNode_fits [where alloc = "e_alloc env" and d = "rect_bytes r" and rest = "[]", OF a _ nm, of "Message_new UPDATE" B_RECT_TYPE]
    by (simp add: AddRect_def AddT_def AddData_def)
  then show ?thesis using nm
    by (simp add: pushNode_def Let_def node_index_def Message_new_def nodes_def message_ok_def sizes_ok_def name_ok_def
      get_handler_def update_name_def)
qed

lemma PostMessage_ok:
  assumes "env_ok env g" "looper_ok (world g) win" "what m = UPDATE" "message_ok m" "\<forall>n\<in>set (nodes m). sizes_ok n"
  shows "\<exists>st w'. PostMessage_to (e_alloc env) (e_self env) (e_has_data env (world g)) (e_sent env (world g))
      (world g) win (e_new env (world g)) (Some m) v null = Inr (st, w') \<and> looper_ok w' win \<and> handlers w' = handlers (world g)"
proof -
  obtain l where l: "loopers (world g) win = Some l" using assms(2) by (auto simp: looper_ok_def)
  obtain c where c: "Message_copy (e_alloc env) m = Inr c"
    using Message_copy_ok [OF assms(4,5), of "e_alloc env"] assms(1) unfolding env_ok_def by blast
  define w1 where "w1 = (world g)\<lparr>messages := (messages (world g))(e_new env (world g) := Some c)\<rparr>"
  have post: "\<exists>st w'. PostMessage_ptr (e_self env) has sent w1 win (e_new env (world g)) v null = Inr (st, w') \<and>
      handlers w' = handlers (world g) \<and> loopers w' = (loopers (world g))(win := Some (l\<lparr>fQueue := Queue_AddMessage (fQueue l) (e_new env (world g))\<rparr>))"
    for has sent using l by (simp add: PostMessage_ptr_def w1_def Let_def put_looper_def)
  then show ?thesis using c looper_ok_cong [OF _ _ l] assms(2) unfolding PostMessage_to_def
    by (fastforce simp: w1_def [symmetric])
qed

lemma Invalidate_rect_ok:
  assumes "env_ok env g" "gui_ok kids win g" "views g v = Some x" "fWindow x = win" "e_fatal env \<longrightarrow> Rect_IsValid r"
  shows "\<exists>g'. Invalidate_rect env v r g = Inr g' \<and> views g' = views g \<and> windows g' = windows g \<and> hooks g' = hooks g \<and>
    handlers (world g') = handlers (world g) \<and> gui_ok kids win g'"
proof (cases "fFlags x AND B_WILL_DRAW \<noteq> 0")
  case True
  have ok: "looper_ok (world g) win" "win \<noteq> null" using assms(2) by (auto simp: gui_ok_def looper_ok_def)
  obtain m where m: "AddRect (e_alloc env) (Message_new UPDATE) (Some (c_str update_name)) r = Inr (B_OK, m)"
      "what m = UPDATE" "message_ok m" "\<forall>n\<in>set (nodes m). sizes_ok n"
    using AddRect_update [OF assms(1)] by blast
  obtain st w' where w': "PostMessage_to (e_alloc env) (e_self env) (e_has_data env (world g)) (e_sent env (world g))
      (world g) win (e_new env (world g)) (Some m) v null = Inr (st, w')" "looper_ok w' win" "handlers w' = handlers (world g)"
    using PostMessage_ok [OF assms(1) ok(1) m(2-4)] by blast
  obtain h where h: "handlers (world g) v = Some h" "fLooper h = win" using assms(2,3,4) unfolding gui_ok_def by blast
  have "Invalidate_rect env v r g = Inr (g\<lparr>world := w'\<rparr>)"
    using assms(3,5) True h ok(2) m(1) w'(1) by (auto simp: Invalidate_rect_def Handler_Looper_def)
  moreover have "gui_ok kids win (g\<lparr>world := w'\<rparr>)"
    using assms(2) w'(2,3) by (simp add: gui_ok_def belongs_def in_window_def)
  ultimately show ?thesis using w'(3) by simp
next
  case False
  obtain h where h: "handlers (world g) v = Some h" using assms(2,3) unfolding gui_ok_def by blast
  have "Invalidate_rect env v r g = Inr g" using assms(3,5) False h by (auto simp: Invalidate_rect_def Handler_Looper_def)
  then show ?thesis using assms(2) by simp
qed

lemma Invalidate_ok:
  assumes "env_ok env g" "gui_ok kids win g" "views g v = Some x" "fWindow x = win"
  shows "\<exists>g'. Invalidate env v g = Inr g' \<and> views g' = views g \<and> windows g' = windows g \<and> hooks g' = hooks g \<and>
    handlers (world g') = handlers (world g) \<and> gui_ok kids win g'"
proof -
  have "e_fatal env \<longrightarrow> Rect_IsValid (Bounds x)" using assms(1,3) by (auto simp: env_ok_def Bounds_def)
  from Invalidate_rect_ok [OF assms this] show ?thesis using assms(3) by (simp add: Invalidate_def)
qed

section \<open>Attaching a tree\<close>

lemma env_ok_set_window: "env_ok env g \<Longrightarrow> views g' = set_window win us (views g) \<Longrightarrow> env_ok env g'"
  by (auto simp: env_ok_def set_window_def split: if_splits)

lemma attach_self_ok:
  assumes "env_ok env g" "gui_ok kids win g" "views g v = Some x" "fWindow x = null"
  shows "\<exists>g'. attach_self env win v g = Inr g' \<and> gui_ok kids win g' \<and> views g' = set_window win {v} (views g) \<and>
    hooks g' = hooks g @ [Attached v]"
proof -
  note ok = assms(2) [unfolded gui_ok_def]
  obtain h where h: "handlers (world g) v = Some h" "fLooper h = null" using ok assms(3,4) by metis
  obtain w where w: "windows g win = Some w" "fFocus w = null \<or> in_window g win (fFocus w)"
    "fLastMouseMovedView w = null \<or> in_window g win (fLastMouseMovedView w)" using ok by blast
  have win: "win \<noteq> null" using ok by (auto simp: looper_ok_def)
  have vw: "v \<noteq> win" using ok h win by (auto simp: belongs_def)
  define wd where "wd = put_handler v (h\<lparr>fLooper := win, fNextHandler := win\<rparr>)
    (put_looper win ((the (loopers (world g) win))\<lparr>fHandlers := snd (AddItem (fHandlers (the (loopers (world g) win))) v)\<rparr>) (world g))"
  have add: "Looper_AddHandler (world g) win v = Inr wd" "looper_ok wd win"
    using AddHandler_ok [OF _ _ h] ok unfolding wd_def by blast+
  define w' where "w' = w\<lparr>fViewsEvents := fViewsEvents w OR (fFlags x AND B_PULSE_NEEDED)\<rparr>"
  define g1 where "g1 = call_hook (Attached v) (put_window win w' (put_view v (x\<lparr>fWindow := win\<rparr>) g\<lparr>world := wd\<rparr>))"
  have vs: "views g1 = set_window win {v} (views g)"
    using assms(3) by (auto simp: g1_def call_hook_def put_window_def put_view_def set_window_def fun_eq_iff)
  have inw: "in_window g win u \<Longrightarrow> in_window g1 win u" for u
    using vs by (auto simp: in_window_def set_window_def)
  have g1: "gui_ok kids win g1" unfolding gui_ok_def
  proof (intro conjI allI impI)
    show "family (views g1) kids" using vs family_set_window ok by simp
    show "looper_ok (world g1) win" "belongs (world g1) win win"
      using add(2) ok vw by (simp_all add: g1_def call_hook_def put_window_def put_view_def wd_def belongs_def)
    show "views g1 win = None" using ok vs by simp
    show "\<exists>h. handlers (world g1) u = Some h \<and> fLooper h = fWindow y" if "views g1 u = Some y" for u y
      using that ok vs by (auto simp: g1_def call_hook_def put_window_def put_view_def wd_def set_window_def split: if_splits)
    show "\<exists>w. windows g1 win = Some w \<and> (fFocus w = null \<or> in_window g1 win (fFocus w)) \<and>
        (fLastMouseMovedView w = null \<or> in_window g1 win (fLastMouseMovedView w))"
      using w inw by (auto simp: g1_def call_hook_def put_window_def w'_def)
  qed
  have a: "attach_self env win v g = (if \<not> Window_IsHidden w then Invalidate env v g1 else Inr g1)"
    using assms(3,4) win add(1) w(1)
    by (simp add: attach_self_def in_world_def put_view_def Let_def g1_def w'_def put_window_def call_hook_def)
  have e1: "env_ok env g1" using env_ok_set_window [OF assms(1) vs] .
  have "views g1 v = Some (x\<lparr>fWindow := win\<rparr>)" using assms(3) unfolding vs by (simp add: set_window_at)
  from Invalidate_ok [OF e1 g1 this] show ?thesis using a g1 vs by (auto simp: g1_def call_hook_def put_window_def put_view_def)
qed

fun attach_hooks :: "vtree \<Rightarrow> hook list" where
  "attach_hooks (VTree v ts) = Attached v # concat (map attach_hooks ts) @ [All_attached v]"

text \<open>\<open>done_with\<close>: the state after the window was set in the views \<open>us\<close>, and the hooks called.\<close>

definition done_with :: "env \<Rightarrow> (ptr \<Rightarrow> ptr list) \<Rightarrow> ptr \<Rightarrow> ptr \<Rightarrow> ptr set \<Rightarrow> hook list \<Rightarrow> gui \<Rightarrow> gui \<Rightarrow> bool" where
  "done_with env kids win owner us hs g g' \<longleftrightarrow>
     env_ok env g' \<and> gui_ok kids win g' \<and> views g' = set_window owner us (views g) \<and> hooks g' = hooks g @ hs"

lemma done_with_trans:
  "done_with env kids win ow us hs g g1 \<Longrightarrow> done_with env kids win ow us' hs' g1 g2 \<Longrightarrow>
     done_with env kids win ow (us \<union> us') (hs @ hs') g g2"
  by (auto simp: done_with_def Un_commute)

lemma gui_ok_hook: "gui_ok kids win (call_hook h g) = gui_ok kids win g" "env_ok env (call_hook h g) = env_ok env g"
  by (simp_all add: gui_ok_def env_ok_def call_hook_def in_window_def)

definition free_tree :: "gui \<Rightarrow> (ptr \<Rightarrow> ptr list) \<Rightarrow> ptr \<Rightarrow> vtree \<Rightarrow> bool" where
  "free_tree g kids owner t \<longleftrightarrow> rooted (views g) kids t \<and> distinct (preorder t) \<and> (\<forall>v\<in>set (preorder t). in_window g owner v)"

lemma rooted_dom_eq: "dom vs' = dom vs \<Longrightarrow> rooted vs' kids t = rooted vs kids t"
  by (induction t) auto

lemma free_tree_cong:
  assumes "views g' = set_window ow us (views g)" "us \<inter> set (preorder t) = {}"
  shows "free_tree g' kids owner t = free_tree g kids owner t"
proof -
  have "in_window g' owner v = in_window g owner v" if "v \<in> set (preorder t)" for v
    using assms that by (auto simp: in_window_def set_window_def)
  then show ?thesis using assms(1) rooted_dom_eq [of "views g'" "views g" kids t] by (auto simp: free_tree_def)
qed

lemma free_tree_branch:
  "free_tree g kids owner (VTree v ts) \<Longrightarrow> t \<in> set ts \<Longrightarrow> free_tree g kids owner t"
  by (auto simp: free_tree_def distinct_concat_iff)

lemma attach_children_ok:
  assumes "\<And>t n g. t \<in> set ts \<Longrightarrow> 2 * length (preorder t) \<le> n \<Longrightarrow> env_ok env g \<Longrightarrow> gui_ok kids win g \<Longrightarrow>
      free_tree g kids null t \<Longrightarrow> \<exists>g'. attach n env win (vt_root t) g = Some (Inr g') \<and> done_with env kids win win (set (preorder t)) (attach_hooks t) g g'"
    "2 * length (concat (map preorder ts)) < n" "env_ok env g" "gui_ok kids win g"
    "\<forall>t\<in>set ts. free_tree g kids null t" "distinct (concat (map preorder ts))"
    "seg (views g) v prev (map vt_root ts) null f"
  shows "\<exists>g'. attach_children n env win f g = Some (Inr g') \<and>
    done_with env kids win win (set (concat (map preorder ts))) (concat (map attach_hooks ts)) g g'"
  using assms
proof (induction ts arbitrary: n g prev f)
  case Nil
  then show ?case by (cases n) (auto simp: done_with_def)
next
  case (Cons t ts)
  obtain k where n: "n = Suc k" using Cons.prems(2) by (cases n) auto
  obtain x where x: "f = vt_root t" "f \<noteq> null" "views g f = Some x" "seg (views g) v f (map vt_root ts) null (fNextSibling x)"
    using Cons.prems(7) by auto
  have root: "vt_root t \<in> set (preorder t)" by (cases t) simp
  have l: "0 < length (preorder t)" using root by (cases "preorder t") auto
  have ft: "free_tree g kids null t" using Cons.prems(5) by simp
  then have free: "fWindow x = null" using root x by (auto simp: free_tree_def in_window_def)
  obtain g1 where g1: "attach k env win (vt_root t) g = Some (Inr g1)" "done_with env kids win win (set (preorder t)) (attach_hooks t) g g1"
    using Cons.prems(1) [of t k g] Cons.prems(2-4) ft n by auto
  note d1 = g1(2) [unfolded done_with_def]
  have x1: "views g1 f = Some (x\<lparr>fWindow := win\<rparr>)" using d1 x root by (simp add: set_window_at)
  have "\<exists>g'. attach_children k env win (fNextSibling x) g1 = Some (Inr g') \<and>
    done_with env kids win win (set (concat (map preorder ts))) (concat (map attach_hooks ts)) g1 g'"
  proof (rule Cons.IH)
    show "2 * length (concat (map preorder ts)) < k" using Cons.prems(2) n l unfolding list.map concat.simps length_append add_mult_distrib2 by linarith
    show "\<forall>t\<in>set ts. free_tree g1 kids null t"
      using Cons.prems(5,6) free_tree_cong [of g1 win "set (preorder t)" g] d1 by fastforce
    show "seg (views g1) v f (map vt_root ts) null (fNextSibling x)"
      using x(4) d1 by simp
  qed (use Cons.prems d1 in auto)
  then obtain g2 where "attach_children k env win (fNextSibling x) g1 = Some (Inr g2)"
    "done_with env kids win win (set (concat (map preorder ts))) (concat (map attach_hooks ts)) g1 g2" by blast
  then show ?case using done_with_trans [OF g1(2)] n x x1 free g1(1) by auto
qed

lemma attach_ok:
  "2 * length (preorder t) \<le> n \<Longrightarrow> env_ok env g \<Longrightarrow> gui_ok kids win g \<Longrightarrow> free_tree g kids null t \<Longrightarrow>
    \<exists>g'. attach n env win (vt_root t) g = Some (Inr g') \<and> done_with env kids win win (set (preorder t)) (attach_hooks t) g g'"
proof (induction t arbitrary: n g)
  case (VTree v ts)
  obtain k where n: "n = Suc k" using VTree.prems(1) by (cases n) auto
  note ft = VTree.prems(4) [unfolded free_tree_def]
  obtain x where x: "views g v = Some x" "fWindow x = null" using ft by (auto simp: in_window_def)
  obtain g1 where g1: "attach_self env win v g = Inr g1" "gui_ok kids win g1" "views g1 = set_window win {v} (views g)"
      "hooks g1 = hooks g @ [Attached v]"
    using attach_self_ok [OF VTree.prems(2,3) x] by blast
  have e1: "env_ok env g1" using env_ok_set_window [OF VTree.prems(2) g1(3)] .
  have d1: "done_with env kids win win {v} [Attached v] g g1" using g1 e1 by (simp add: done_with_def)
  have x1: "views g1 v = Some (x\<lparr>fWindow := win\<rparr>)" using g1(3) x by (simp add: set_window_at)
  have kids: "kids v = map vt_root ts" using ft by simp
  have "\<exists>g'. attach_children k env win (fFirstChild x) g1 = Some (Inr g') \<and>
    done_with env kids win win (set (concat (map preorder ts))) (concat (map attach_hooks ts)) g1 g'"
  proof (rule attach_children_ok)
    show "2 * length (concat (map preorder ts)) < k" using VTree.prems(1) n by simp
    have "set (preorder t) \<inter> {v} = {}" if "t \<in> set ts" for t using ft that by auto
    then show "\<forall>t\<in>set ts. free_tree g1 kids null t"
      using free_tree_cong [OF g1(3)] free_tree_branch [OF VTree.prems(4)] by (simp add: Int_commute)
    show "seg (views g1) v null (map vt_root ts) null (fFirstChild x)"
      using familyD(3) [of "views g1" kids v "x\<lparr>fWindow := win\<rparr>"] g1(2) x1 kids by (simp add: gui_ok_def)
  qed (use VTree.IH e1 g1(2) ft in auto)
  then obtain g2 where g2: "attach_children k env win (fFirstChild x) g1 = Some (Inr g2)"
    "done_with env kids win win (set (concat (map preorder ts))) (concat (map attach_hooks ts)) g1 g2" by blast
  have "done_with env kids win win {} [All_attached v] g2 (call_hook (All_attached v) g2)"
    using g2(2) by (simp add: done_with_def gui_ok_hook) (simp add: call_hook_def)
  from done_with_trans [OF done_with_trans [OF d1 g2(2)] this]
  have "done_with env kids win win (set (preorder (VTree v ts))) (attach_hooks (VTree v ts)) g (call_hook (All_attached v) g2)"
    by simp
  then show ?case using n g1(1) x1 g2(1) by simp
qed

section \<open>Detaching a tree\<close>

lemma drop_focus_ok:
  assumes "env_ok env g" "gui_ok kids win g" "views g v = Some x" "fWindow x = win"
  shows "\<exists>g'. drop_focus v g = Inr g' \<and> env_ok env g' \<and> gui_ok kids win g' \<and> views g' = views g \<and> hooks g' = hooks g \<and>
    handlers (world g') = handlers (world g) \<and> (\<exists>w w'. windows g win = Some w \<and> windows g' win = Some w' \<and>
      fFocus w' = (if fFocus w = v then null else fFocus w) \<and> fLastMouseMovedView w' = fLastMouseMovedView w)"
proof -
  note ok = assms(2) [unfolded gui_ok_def]
  obtain w where w: "windows g win = Some w" "fFocus w = null \<or> in_window g win (fFocus w)"
    "fLastMouseMovedView w = null \<or> in_window g win (fLastMouseMovedView w)" using ok by blast
  have win: "win \<noteq> null" "v \<noteq> null" using ok assms(3) familyD(1) by (auto simp: looper_ok_def)
  obtain wd where wd: "SetPreferredHandler (world g) win null = Inr wd" "looper_ok wd win" "handlers wd = handlers (world g)"
    using SetPreferredHandler_ok [of "world g" win null] ok by blast
  show ?thesis
  proof (cases "fFocus w = v")
    case True
    define g1 where "g1 = (put_window win (w\<lparr>fFocus := null\<rparr>) g)\<lparr>world := wd\<rparr>"
    have "drop_focus v g = Inr g1" using assms(3,4) win w(1) True wd(1)
      by (simp add: drop_focus_def CurrentFocus_def set_focus_def in_world_def g1_def put_window_def)
    moreover have "gui_ok kids win g1" "env_ok env g1"
      using ok w wd assms(1) by (auto simp: gui_ok_def g1_def put_window_def in_window_def belongs_def env_ok_def)
    ultimately show ?thesis using w(1) True wd(3) by (auto simp: g1_def put_window_def)
  qed (use assms win w in \<open>auto simp: drop_focus_def CurrentFocus_def\<close>)
qed

lemma detach_self_ok:
  assumes "env_ok env g" "gui_ok kids win g" "views g v = Some x" "fWindow x = win"
  shows "\<exists>g'. detach_self env v g = Inr g' \<and> done_with env kids win null {v} [] g g'"
proof -
  note ok = assms(2) [unfolded gui_ok_def]
  obtain w where w: "windows g win = Some w" using ok by blast
  have win: "win \<noteq> null" using ok by (auto simp: looper_ok_def)
  obtain h where h: "handlers (world g) v = Some h" "fLooper h = win" using ok assms(3,4) by metis
  obtain y where y: "handlers (world g) win = Some y" "fLooper y = win" using ok by (auto simp: belongs_def)
  obtain g1 where g1: "(if \<not> Window_IsHidden w then Invalidate env v g else Inr g) = Inr g1" "views g1 = views g"
      "windows g1 = windows g" "hooks g1 = hooks g" "handlers (world g1) = handlers (world g)" "gui_ok kids win g1" "env_ok env g1"
    using Invalidate_ok [OF assms] assms(1,2) by (cases "Window_IsHidden w") (auto simp: env_ok_def)
  obtain g2 where g2: "(if CurrentFocus w = v then drop_focus v g1 else Inr g1) = Inr g2" "views g2 = views g" "hooks g2 = hooks g"
      "handlers (world g2) = handlers (world g)" "gui_ok kids win g2" "env_ok env g2"
      "\<exists>w2. windows g2 win = Some w2 \<and> fFocus w2 \<noteq> v"
  proof (cases "fFocus w = v")
    case True
    then obtain g2 w2 where "drop_focus v g1 = Inr g2" "env_ok env g2" "gui_ok kids win g2" "views g2 = views g" "hooks g2 = hooks g"
        "handlers (world g2) = handlers (world g)" "windows g2 win = Some w2" "fFocus w2 = null"
      using drop_focus_ok [OF g1(7,6), of v x] g1 assms(3,4) w by auto
    moreover have "v \<noteq> null" using ok assms(3) familyD(1) by blast
    ultimately show thesis using that [of g2] True by (simp add: CurrentFocus_def)
  qed (use that [of g1] g1 w in \<open>simp add: CurrentFocus_def\<close>)
  obtain w2 where w2: "windows g2 win = Some w2" "fFocus w2 \<noteq> v" using g2(7) by blast
  note ok2 = g2(5) [unfolded gui_ok_def]
  define w3 where "w3 = (if fLastMouseMovedView w2 = v then w2\<lparr>fLastMouseMovedView := null\<rparr> else w2)"
  define g3 where "g3 = (if fLastMouseMovedView w2 = v then put_window win (w2\<lparr>fLastMouseMovedView := null\<rparr>) g2 else g2)"
  have g3: "world g3 = world g2" "views g3 = views g" "hooks g3 = hooks g" "windows g3 win = Some w3"
    using g2(2,3) w2(1) by (auto simp: g3_def w3_def put_window_def)
  have b: "belongs (world g2) win v" using h g2(4) by (simp add: belongs_def)
  obtain wd x' where wd: "Looper_RemoveHandler (world g2) win v = Inr (True, wd)" "handlers wd v = Some x'" "fLooper x' = null"
      "looper_ok wd win" "\<forall>k. k \<noteq> v \<longrightarrow> handlers wd k = handlers (world g2) k"
    using RemoveHandler_ok [OF _ b] ok2 by blast
  define g4 where "g4 = g3\<lparr>world := wd, views := (views g)(v := Some (x\<lparr>fWindow := null\<rparr>))\<rparr>"
  have "detach_self env v g = Inr g4"
    using assms(3,4) w g1(1) g2(1,2) w2(1) wd(1)
    by (cases "fLastMouseMovedView w2 = v") (simp_all add: detach_self_def upd_def g4_def g3_def put_window_def)
  moreover have vs: "views g4 = set_window null {v} (views g)"
    using assms(3) by (auto simp: g4_def set_window_def fun_eq_iff)
  moreover have "gui_ok kids win g4" unfolding gui_ok_def
  proof (intro conjI allI impI)
    show "family (views g4) kids" using vs family_set_window ok by simp
    show "looper_ok (world g4) win" using wd(4) by (simp add: g4_def)
    show "views g4 win = None" using ok vs by simp
    have "v \<noteq> win" using ok assms(3) by auto
    then show "belongs (world g4) win win" using wd(5) ok2 by (simp add: g4_def belongs_def)
    show "\<exists>h. handlers (world g4) u = Some h \<and> fLooper h = fWindow z" if a: "views g4 u = Some z" for u z
      using a ok wd(2,3,5) g2(4) by (auto simp: g4_def split: if_splits)
    have inw: "in_window g2 win u \<Longrightarrow> u \<noteq> v \<Longrightarrow> in_window g4 win u" for u
      using g2(2) by (auto simp: in_window_def g4_def)
    show "\<exists>w. windows g4 win = Some w \<and> (fFocus w = null \<or> in_window g4 win (fFocus w)) \<and>
        (fLastMouseMovedView w = null \<or> in_window g4 win (fLastMouseMovedView w))"
      using ok2 w2 g3(4) inw by (auto simp: g4_def w3_def)
  qed
  moreover have "env_ok env g4" using env_ok_set_window [OF assms(1) vs] .
  moreover have "hooks g4 = hooks g" using g3(3) by (simp add: g4_def)
  ultimately show ?thesis by (auto simp: done_with_def)
qed

fun detach_hooks :: "vtree \<Rightarrow> hook list" where
  "detach_hooks (VTree v ts) = Detached v # concat (map detach_hooks ts) @ [All_detached v]"

lemma detach_children_ok:
  assumes "\<And>t n g. t \<in> set ts \<Longrightarrow> 2 * length (preorder t) \<le> n \<Longrightarrow> env_ok env g \<Longrightarrow> gui_ok kids win g \<Longrightarrow>
      free_tree g kids win t \<Longrightarrow> \<exists>g'. detach n env (vt_root t) g = Some (Inr g') \<and> done_with env kids win null (set (preorder t)) (detach_hooks t) g g'"
    "2 * length (concat (map preorder ts)) < n" "env_ok env g" "gui_ok kids win g"
    "\<forall>t\<in>set ts. free_tree g kids win t" "distinct (concat (map preorder ts))"
    "seg (views g) v prev (map vt_root ts) null f"
  shows "\<exists>g'. detach_children n env f g = Some (Inr g') \<and>
    done_with env kids win null (set (concat (map preorder ts))) (concat (map detach_hooks ts)) g g'"
  using assms
proof (induction ts arbitrary: n g prev f)
  case Nil
  then show ?case by (cases n) (auto simp: done_with_def)
next
  case (Cons t ts)
  obtain k where n: "n = Suc k" using Cons.prems(2) by (cases n) auto
  obtain x where x: "f = vt_root t" "f \<noteq> null" "views g f = Some x" "seg (views g) v f (map vt_root ts) null (fNextSibling x)"
    using Cons.prems(7) by auto
  have root: "vt_root t \<in> set (preorder t)" by (cases t) simp
  have l: "0 < length (preorder t)" using root by (cases "preorder t") auto
  obtain g1 where g1: "detach k env (vt_root t) g = Some (Inr g1)" "done_with env kids win null (set (preorder t)) (detach_hooks t) g g1"
    using Cons.prems(1) [of t k g] Cons.prems(2-5) n by auto
  note d1 = g1(2) [unfolded done_with_def]
  have x1: "views g1 f = Some (x\<lparr>fWindow := null\<rparr>)" using d1 x root by (simp add: set_window_at)
  have "\<exists>g'. detach_children k env (fNextSibling x) g1 = Some (Inr g') \<and>
    done_with env kids win null (set (concat (map preorder ts))) (concat (map detach_hooks ts)) g1 g'"
  proof (rule Cons.IH)
    show "2 * length (concat (map preorder ts)) < k"
      using Cons.prems(2) n l unfolding list.map concat.simps length_append add_mult_distrib2 by linarith
    show "\<forall>t\<in>set ts. free_tree g1 kids win t"
      using Cons.prems(5,6) free_tree_cong [of g1 null "set (preorder t)" g] d1 by fastforce
    show "seg (views g1) v f (map vt_root ts) null (fNextSibling x)" using x(4) d1 by simp
  qed (use Cons.prems d1 in auto)
  then obtain g2 where "detach_children k env (fNextSibling x) g1 = Some (Inr g2)"
    "done_with env kids win null (set (concat (map preorder ts))) (concat (map detach_hooks ts)) g1 g2" by blast
  then show ?case using done_with_trans [OF g1(2)] n x x1 g1(1) by auto
qed

lemma detach_ok:
  "2 * length (preorder t) \<le> n \<Longrightarrow> env_ok env g \<Longrightarrow> gui_ok kids win g \<Longrightarrow> free_tree g kids win t \<Longrightarrow>
    \<exists>g'. detach n env (vt_root t) g = Some (Inr g') \<and> done_with env kids win null (set (preorder t)) (detach_hooks t) g g'"
proof (induction t arbitrary: n g)
  case (VTree v ts)
  obtain k where n: "n = Suc k" using VTree.prems(1) by (cases n) auto
  note ft = VTree.prems(4) [unfolded free_tree_def]
  have win: "win \<noteq> null" using VTree.prems(3) by (auto simp: gui_ok_def looper_ok_def)
  obtain x where x: "views g v = Some x" "fWindow x = win" using ft by (auto simp: in_window_def)
  define g0 where "g0 = call_hook (Detached v) g"
  have g0: "env_ok env g0" "gui_ok kids win g0" "views g0 = views g" "done_with env kids win null {} [Detached v] g g0"
    using VTree.prems(2,3) by (simp_all add: g0_def gui_ok_hook done_with_def) (simp_all add: call_hook_def)
  have kids: "kids v = map vt_root ts" using ft by simp
  have "\<exists>g'. detach_children k env (fFirstChild x) g0 = Some (Inr g') \<and>
    done_with env kids win null (set (concat (map preorder ts))) (concat (map detach_hooks ts)) g0 g'"
  proof (rule detach_children_ok)
    show "2 * length (concat (map preorder ts)) < k" using VTree.prems(1) n by simp
    show "\<forall>t\<in>set ts. free_tree g0 kids win t"
      using free_tree_branch [OF VTree.prems(4)] g0(3) by (simp add: free_tree_def in_window_def)
    show "seg (views g0) v null (map vt_root ts) null (fFirstChild x)"
      using familyD(3) [of "views g" kids v x] VTree.prems(3) x(1) kids g0(3) by (simp add: gui_ok_def)
  qed (use VTree.IH g0 ft in auto)
  then obtain g1 where g1: "detach_children k env (fFirstChild x) g0 = Some (Inr g1)"
    "done_with env kids win null (set (concat (map preorder ts))) (concat (map detach_hooks ts)) g0 g1" by blast
  define g2 where "g2 = call_hook (All_detached v) g1"
  have d2: "done_with env kids win null {} [All_detached v] g1 g2"
    using g1(2) by (simp add: done_with_def g2_def gui_ok_hook) (simp add: call_hook_def)
  have "v \<notin> set (concat (map preorder ts))" using ft by simp
  then have "views g2 v = Some x" using x(1) g1(2) g0(3) by (simp add: g2_def call_hook_def done_with_def set_window_def)
  moreover have "env_ok env g2" "gui_ok kids win g2" using d2 by (simp_all add: done_with_def)
  ultimately obtain g3 where g3: "detach_self env v g2 = Inr g3" "done_with env kids win null {v} [] g2 g3"
    using detach_self_ok x(2) by blast
  from done_with_trans [OF done_with_trans [OF done_with_trans [OF g0(4) g1(2)] d2] g3(2)]
  have "done_with env kids win null (set (preorder (VTree v ts))) (detach_hooks (VTree v ts)) g g3" by (simp add: Un_commute)
  then show ?case using n x win g1(1) g3(1) by (simp add: g0_def g2_def)
qed

section \<open>Adding and removing trees\<close>

lemma relinked_fields:
  assumes "relinked vs vs'"
  shows "map_option fWindow (vs' v) = map_option fWindow (vs v)" "map_option fBounds (vs' v) = map_option fBounds (vs v)"
proof -
  have u: "fWindow \<circ> unlinked = fWindow" "fBounds \<circ> unlinked = fBounds" by (simp_all add: unlinked_def fun_eq_iff)
  have e: "map_option unlinked (vs' v) = map_option unlinked (vs v)" using assms by (simp add: relinked_def)
  show "map_option fWindow (vs' v) = map_option fWindow (vs v)"
    using arg_cong [OF e, of "map_option fWindow"] by (simp only: option.map_comp u)
  show "map_option fBounds (vs' v) = map_option fBounds (vs v)"
    using arg_cong [OF e, of "map_option fBounds"] by (simp only: option.map_comp u)
qed

lemma in_window_iff: "in_window g w v \<longleftrightarrow> map_option fWindow (views g v) = Some w"
  by (cases "views g v") (auto simp: in_window_def)

lemma in_window_relinked: "relinked (views g) vs' \<Longrightarrow> in_window (g\<lparr>views := vs'\<rparr>) w v \<longleftrightarrow> in_window g w v"
  using relinked_fields(1) [of "views g" vs' v] by (simp add: in_window_iff)

lemma gui_ok_relinked:
  assumes "gui_ok kids win g" "relinked (views g) vs'" "family vs' kids'"
  shows "gui_ok kids' win (g\<lparr>views := vs'\<rparr>)"
proof -
  note ok = assms(1) [unfolded gui_ok_def]
  have "\<exists>h. handlers (world g) v = Some h \<and> fLooper h = fWindow y" if a: "vs' v = Some y" for v y
  proof -
    obtain x where "views g v = Some x" "fWindow x = fWindow y" using relinked_fields(1) [OF assms(2), of v] a by (cases "views g v") auto
    then show ?thesis using ok by metis
  qed
  moreover have "vs' win = None" using relinked_dom [OF assms(2)] ok by (metis domIff)
  ultimately show ?thesis using ok assms(3) in_window_relinked [OF assms(2)] unfolding gui_ok_def by simp
qed

lemma env_ok_relinked:
  assumes "env_ok env g" "relinked (views g) vs'"
  shows "env_ok env (g\<lparr>views := vs'\<rparr>)"
proof -
  have "Rect_IsValid (fBounds y)" if "vs' v = Some y" "e_fatal env" for v y
    using relinked_fields(2) [OF assms(2), of v] that assms(1) by (cases "views g v") (auto simp: env_ok_def)
  then show ?thesis using assms(1) by (simp add: env_ok_def)
qed

lemma rooted_upd: "v \<notin> set (preorder t) \<Longrightarrow> rooted vs (kids(v := cs)) t = rooted vs kids t"
  by (induction t) auto

lemma free_tree_relinked:
  assumes "relinked (views g) vs'" "v \<notin> set (preorder t)"
  shows "free_tree (g\<lparr>views := vs'\<rparr>) (kids(v := cs)) owner t = free_tree g kids owner t"
proof -
  show ?thesis using rooted_dom_eq [OF relinked_dom [OF assms(1)]] rooted_upd [OF assms(2)] in_window_relinked [OF assms(1)]
    by (simp add: free_tree_def)
qed

lemma root_in_preorder [simp]: "vt_root t \<in> set (preorder t)"
  by (cases t) simp

section \<open>Properties\<close>

text \<open>A window 9 with the view 1 and its child 2, which has the focus, and a tree 3 with the child 4 outside.\<close>

definition sample_kids :: "ptr \<Rightarrow> ptr list" where "sample_kids = (\<lambda>_. [])(1 := [2], 3 := [4])"

definition sample_gui :: gui where
  "sample_gui = \<lparr>
     world = \<lparr>handlers = [9 \<mapsto> sample_handler 9, 1 \<mapsto> sample_handler 9, 2 \<mapsto> sample_handler 9, 3 \<mapsto> sample_handler 0, 4 \<mapsto> sample_handler 0],
       loopers = [9 \<mapsto> (sample_looper True)\<lparr>fQueue := [], fHandlers := [9, 1, 2]\<rparr>], messages = (\<lambda>_. None),
       g_Loopers = (\<lambda>_. null), trace = []\<rparr>,
     views = [1 \<mapsto> plain_view\<lparr>fWindow := 9, fFirstChild := 2\<rparr>, 2 \<mapsto> plain_view\<lparr>fWindow := 9, fParent := 1\<rparr>,
       3 \<mapsto> plain_view\<lparr>fFirstChild := 4\<rparr>, 4 \<mapsto> plain_view\<lparr>fParent := 3\<rparr>],
     windows = [9 \<mapsto> \<lparr>fShowLevel = 0, fFocus = 2, fLastMouseMovedView = 2, fPulseRate = 500000, fPulsedTime = 0, fViewsEvents = 0, top_view = 1\<rparr>],
     hooks = []\<rparr>"

definition sample_env :: env where
  "sample_env = \<lparr>e_self = 7, e_alloc = (\<lambda>_. True), e_has_data = (\<lambda>_. False), e_sent = (\<lambda>_. B_OK), e_new = (\<lambda>_. 20), e_now = 0, e_fatal = False\<rparr>"

lemma sample_gui_ok: "gui_ok sample_kids 9 sample_gui"
proof -
  have "family (views sample_gui) sample_kids"
    by (rule familyI) (auto simp: sample_gui_def sample_kids_def plain_view_def split: if_splits)
  moreover have "looper_ok (world sample_gui) 9"
    by (auto simp: looper_ok_def sample_gui_def sample_looper_def sample_handler_def belongs_def Looper_IsLocked_def)
  ultimately show ?thesis
    by (auto simp: gui_ok_def sample_gui_def belongs_def sample_handler_def in_window_def plain_view_def split: if_splits)
qed

text \<open>C17. \<open>AddChild\<close> of a tree of views without window to a view of a locked window: it returns, links the root
  at its place in the list of children, and attaches every view of the tree, and no other, to the
  window: all of them become handlers of the looper, parents before their children with
  \<open>AttachedToWindow\<close>, after them with \<open>AllAttached\<close>. The invariant of views, handlers and focus is kept.\<close>

theorem AddChild_attaches_tree:
  assumes "env_ok env g" "gui_ok kids win g" "in_window g win this" "free_tree g kids null t"
    "views g (vt_root t) = Some c" "fParent c = null" "before = null \<or> before \<in> set (kids this)" "2 * length (preorder t) \<le> n"
  shows "\<exists>g'. View_AddChild n env this (vt_root t) before g = Some (Inr g') \<and>
    gui_ok (kids(this := insert_before (vt_root t) before (kids this))) win g' \<and> env_ok env g' \<and>
    (\<forall>v. in_window g' win v \<longleftrightarrow> in_window g win v \<or> v \<in> set (preorder t)) \<and> hooks g' = hooks g @ attach_hooks t"
proof -
  note ok = assms(2) [unfolded gui_ok_def]
  have win: "win \<noteq> null" using ok by (auto simp: looper_ok_def)
  obtain l where l: "loopers (world g) win = Some l" "Looper_IsLocked l" using ok by (auto simp: looper_ok_def)
  obtain x where x: "views g this = Some x" "fWindow x = win" using assms(3) by (auto simp: in_window_def)
  have nt: "this \<notin> set (preorder t)" using assms(4) x win by (auto simp: free_tree_def in_window_def)
  then have ne: "vt_root t \<noteq> this" by auto
  have f: "family (views g) kids" "null \<notin> dom (views g)" using ok familyD(1) by fastforce+
  have c0: "vt_root t \<noteq> null" using familyD(1) [OF f(1) assms(5)] .
  have guard: "AddChild_guard this (vt_root t) before (views g) = Inr True"
  proof (cases "before = null")
    case False
    then obtain b where "views g before = Some b" "fParent b = this" using assms(7) family_kid [OF f(1) x(1)] by blast
    then show ?thesis using assms(5,6) c0 ne by (simp add: AddChild_guard_def)
  qed (use assms(5,6) c0 ne in \<open>simp add: AddChild_guard_def\<close>)
  let ?k = "kids(this := insert_before (vt_root t) before (kids this))"
  obtain vs' where vs': "link_child this (vt_root t) before (views g) = Some (Inr vs')" "relinked (views g) vs'" "family vs' ?k"
    using link_child_family [OF f(1) assms(5) x(1) assms(6) ne assms(7)] by blast
  let ?g = "g\<lparr>views := vs'\<rparr>"
  have g1: "env_ok env ?g" "gui_ok ?k win ?g" "free_tree ?g ?k null t"
    using env_ok_relinked [OF assms(1) vs'(2)] gui_ok_relinked [OF assms(2) vs'(2,3)] free_tree_relinked [OF vs'(2) nt] assms(4)
    by simp_all
  obtain g' where g': "attach n env win (vt_root t) ?g = Some (Inr g')" "done_with env ?k win win (set (preorder t)) (attach_hooks t) ?g g'"
    using attach_ok [OF assms(8) g1] by blast
  note d = g'(2) [unfolded done_with_def]
  have "View_AddChild n env this (vt_root t) before g = Some (Inr g')"
    using guard x win l vs'(1) g'(1) by (simp add: View_AddChild_def lock_owner_def)
  moreover have "in_window g' win v \<longleftrightarrow> in_window g win v \<or> v \<in> set (preorder t)" for v
  proof -
    note inw = in_window_relinked [OF vs'(2)]
    moreover have "v \<in> set (preorder t) \<Longrightarrow> \<exists>y. vs' v = Some y" using g1(3) by (auto simp: free_tree_def in_window_def)
    moreover have "views g' = set_window win (set (preorder t)) vs'" using d by simp
    ultimately show ?thesis by (cases "v \<in> set (preorder t)") (auto simp: in_window_def set_window_def)
  qed
  ultimately show ?thesis using d by auto
qed

lemma AddChild_attaches_tree_witness:
  "\<exists>g'. View_AddChild 4 sample_env 1 3 2 sample_gui = Some (Inr g') \<and> gui_ok (sample_kids(1 := [3, 2])) 9 g' \<and>
    hooks g' = [Attached 3, Attached 4, All_attached 4, All_attached 3]"
proof -
  have "env_ok sample_env sample_gui" "in_window sample_gui 9 1" "free_tree sample_gui sample_kids null (VTree 3 [VTree 4 []])"
    "views sample_gui (vt_root (VTree 3 [VTree 4 []])) = Some (plain_view\<lparr>fFirstChild := 4\<rparr>)"
    by (auto simp: env_ok_def sample_env_def in_window_def sample_gui_def sample_kids_def free_tree_def plain_view_def)
  from AddChild_attaches_tree [OF this(1) sample_gui_ok this(2-4), of 2 4]
  show ?thesis by (auto simp: plain_view_def sample_kids_def) (auto simp: sample_gui_def)
qed

text \<open>C18. \<open>RemoveChild\<close> of a child whose tree is attached: it returns true, takes the child out of the list and
  detaches every view of its tree and no other, with \<open>DetachedFromWindow\<close> before and \<open>AllDetached\<close> after the
  children. None of the views is a handler of the window, has the focus or counts as the view
  under the pointer afterwards. Messages that are waiting for them stay in the queue, among them the ones that detaching itself posts.\<close>

theorem RemoveChild_detaches_tree:
  assumes "env_ok env g" "gui_ok kids win g" "in_window g win this" "free_tree g kids win t" "vt_root t \<in> set (kids this)"
    "vt_root t \<noteq> this" "2 * length (preorder t) \<le> n"
  shows "\<exists>g' w. View_RemoveChild n env this (vt_root t) g = Some (Inr (True, g')) \<and>
    gui_ok (kids(this := remove1 (vt_root t) (kids this))) win g' \<and> env_ok env g' \<and>
    (\<forall>v. in_window g' win v \<longleftrightarrow> in_window g win v \<and> v \<notin> set (preorder t)) \<and> hooks g' = hooks g @ detach_hooks t \<and>
    windows g' win = Some w \<and> fFocus w \<notin> set (preorder t) \<and> fLastMouseMovedView w \<notin> set (preorder t) \<and>
    (\<forall>v\<in>set (preorder t). \<not> belongs (world g') win v)"
proof -
  note ok = assms(2) [unfolded gui_ok_def]
  have win: "win \<noteq> null" using ok by (auto simp: looper_ok_def)
  obtain x where x: "views g this = Some x" using assms(3) by (auto simp: in_window_def)
  have f: "family (views g) kids" using ok by blast
  obtain c where c: "views g (vt_root t) = Some c" "fParent c = this" "vt_root t \<noteq> null" using family_kid [OF f x assms(5)] by blast
  have cw: "fWindow c = win" using assms(4) c(1) by (auto simp: free_tree_def in_window_def dest!: bspec [OF _ root_in_preorder])
  obtain g1 where g1: "detach n env (vt_root t) g = Some (Inr g1)" "done_with env kids win null (set (preorder t)) (detach_hooks t) g g1"
    using detach_ok [OF assms(7,1,2,4)] by blast
  note d = g1(2) [unfolded done_with_def]
  have f1: "family (views g1) kids" using d by (auto simp: gui_ok_def)
  obtain x1 c1 where x1: "views g1 this = Some x1" "views g1 (vt_root t) = Some c1" using d x c(1) by (simp add: set_window_at)
  let ?k = "kids(this := remove1 (vt_root t) (kids this))"
  obtain vs' where vs': "unlink_child this (vt_root t) (views g1) = Inr vs'" "relinked (views g1) vs'" "family vs' ?k"
    using unlink_child_family [OF f1 x1(2,1) assms(5,6)] by blast
  let ?g = "g1\<lparr>views := vs'\<rparr>"
  have ok2: "gui_ok ?k win ?g" "env_ok env ?g"
    using gui_ok_relinked [OF _ vs'(2,3)] env_ok_relinked [OF _ vs'(2)] d by blast+
  have "View_RemoveChild n env this (vt_root t) g = Some (Inr (True, ?g))"
    using c cw win g1(1) vs'(1) by (simp add: View_RemoveChild_def RemoveChild_guard_def)
  moreover have inw: "in_window ?g win v \<longleftrightarrow> in_window g win v \<and> v \<notin> set (preorder t)" for v
  proof -
    note in_window_relinked [OF vs'(2)]
    then show ?thesis using d win by (cases "v \<in> set (preorder t)") (auto simp: in_window_def set_window_def)
  qed
  moreover obtain w where w: "windows ?g win = Some w" "fFocus w = null \<or> in_window ?g win (fFocus w)"
    "fLastMouseMovedView w = null \<or> in_window ?g win (fLastMouseMovedView w)" using ok2(1) unfolding gui_ok_def by blast
  moreover have n0: "null \<notin> set (preorder t)" using assms(4) f by (auto simp: free_tree_def in_window_def family_def)
  moreover have "fFocus w \<notin> set (preorder t)" "fLastMouseMovedView w \<notin> set (preorder t)" using w inw n0 by metis+
  moreover have "\<not> belongs (world ?g) win v" if a: "v \<in> set (preorder t)" for v
  proof
    assume b: "belongs (world ?g) win v"
    obtain y where "views g v = Some y" using assms(4) a by (auto simp: free_tree_def in_window_def)
    then have "views g1 v = Some (y\<lparr>fWindow := null\<rparr>)" using d a by (simp add: set_window_at)
    then obtain h where "handlers (world g1) v = Some h" "fLooper h = null" using d unfolding gui_ok_def by fastforce
    then show False using b win by (simp add: belongs_def)
  qed
  ultimately show ?thesis using ok2 d by (intro exI [of _ ?g] exI [of _ w]) auto
qed

lemma RemoveChild_detaches_tree_witness:
  "\<exists>g' w. View_RemoveChild 2 sample_env 1 2 sample_gui = Some (Inr (True, g')) \<and> windows g' 9 = Some w \<and> fFocus w \<noteq> 2"
proof -
  have "env_ok sample_env sample_gui" "in_window sample_gui 9 1" "free_tree sample_gui sample_kids 9 (VTree 2 [])"
    "vt_root (VTree 2 []) \<in> set (sample_kids 1)" "vt_root (VTree 2 []) \<noteq> 1"
    by (auto simp: env_ok_def sample_env_def in_window_def sample_gui_def sample_kids_def free_tree_def plain_view_def)
  from RemoveChild_detaches_tree [OF this(1) sample_gui_ok this(2-5), of 2] show ?thesis by auto
qed

end
