(* ===== verification/ViewUpdate.thy ===== *)
theory ViewUpdate
  imports WindowTree
begin

text \<open>
  The update of a view: the case \<open>_UPDATE_\<close> of \<open>BView::MessageReceived\<close> in \<open>kits/interface/View.cpp\<close>. It merges the
  update messages of the view that wait in the queue, then draws the view and its children. The canvas is
  \<open>SkCanvas\<close> of the graphics library Skia; the model records the calls that the code makes, and what \<open>save\<close>
  returns is the argument \<open>p_save\<close>. The drawing hooks of a view are recorded too; what they leave on its stack
  of drawing states is \<open>p_draw\<close> and \<open>p_draw_after\<close>.
\<close>

section \<open>Merging the waiting updates\<close>

partial_function (option) merge_updates :: "bool \<Rightarrow> ptr \<Rightarrow> int \<Rightarrow> rect \<Rightarrow> world \<Rightarrow> (rect \<times> world) partial" where
  "merge_updates fatal this index updateRect w =
     bindO (Some (Handler_Looper w this)) (\<lambda>lp.
     bindO (Some (alive (loopers w lp))) (\<lambda>l.
     bindO (Some (Queue_FindMessage_what (messages w) (fQueue l) UPDATE index)) (\<lambda>m.
     if m = null then Some (Inr (updateRect, w))
     else bindO (Some (alive (messages w m))) (\<lambda>msg.
          if get_handler msg = this then
            bindO (Some (FindRect msg (Some (c_str update_name)) 0)) (\<lambda>found.
            let valid = fst found = B_OK \<and> Rect_IsValid (snd found)
            in if \<not> valid \<and> fatal then Some (Inl Debugger)
               else bindO (Some (delete_message m (put_looper lp (l\<lparr>fQueue := Queue_RemoveMessage (fQueue l) m\<rparr>) w))) (\<lambda>w.
                    merge_updates fatal this index (if valid then Rect_or updateRect (snd found) else updateRect) w))
          else merge_updates fatal this (int32 (index + 1)) updateRect w))))"

section \<open>Drawing a view and its children\<close>

datatype canvas_call =
    Save
  | RestoreToCount int
  | ResetMatrix
  | ClipRect rect
  | Clear rgb_color
  | DrawRect rect
  | Draw ptr rect
  | DrawAfterChildren ptr rect

text \<open>\<open>p_frames\<close>: the frames of the views are drawn, as in builds without \<open>NDEBUG\<close>.\<close>

record painter =
  p_save :: "canvas_call list \<Rightarrow> int"
  p_draw :: "ptr \<Rightarrow> rect \<Rightarrow> state_stack \<Rightarrow> state_stack"
  p_draw_after :: "ptr \<Rightarrow> rect \<Rightarrow> state_stack \<Rightarrow> state_stack"
  p_frames :: bool

type_synonym painting = "canvas_call list \<times> views"

definition device_rect :: "rect \<Rightarrow> rect" where
  "device_rect r = Rect_of (r_left r) (r_top r) (fadd (r_right r) (fint 1)) (fadd (r_bottom r) (fint 1))"

definition screen_bounds :: "views \<Rightarrow> ptr \<Rightarrow> rect \<Rightarrow> rect partial" where
  "screen_bounds vs this r = bindO (ConvertToScreen_rect vs this (Some r)) (\<lambda>r.
     case r of None \<Rightarrow> Some (Inl Undefined) | Some r \<Rightarrow> Some (Inr r))"

text \<open>The hook \<open>Draw\<close>, after the background was erased unless the view colour is transparent, and the hook after the children.\<close>

definition draw_content :: "painter \<Rightarrow> ptr \<Rightarrow> rect \<Rightarrow> painting \<Rightarrow> painting outcome" where
  "draw_content p this invalRect pt =
     bindR (alive (snd pt this)) (\<lambda>v.
     if fFlags v AND B_WILL_DRAW \<noteq> 0 then
       bindR (upd this (\<lambda>v. v\<lparr>fState := p_draw p this invalRect (fState v)\<rparr>) (snd pt)) (\<lambda>vs.
       let c = ViewColor (fState v)
       in Inr (fst pt @ (if c \<noteq> B_TRANSPARENT_COLOR then [Clear (c\<lparr>c_alpha := 255\<rparr>)] else []) @ [Draw this invalRect], vs))
     else Inr pt)"

definition draw_after :: "painter \<Rightarrow> ptr \<Rightarrow> rect \<Rightarrow> painting \<Rightarrow> painting outcome" where
  "draw_after p this invalRect pt =
     bindR (alive (snd pt this)) (\<lambda>v.
     bindR (if fFlags v AND B_WILL_DRAW \<noteq> 0 then
              bindR (upd this (\<lambda>v. v\<lparr>fState := p_draw_after p this invalRect (fState v)\<rparr>) (snd pt)) (\<lambda>vs.
              Inr (fst pt @ [DrawAfterChildren this invalRect], vs))
            else Inr pt) (\<lambda>pt.
     bindR (alive (snd pt this)) (\<lambda>v.
     bindR (if \<not> state_stack_empty (fState v) then upd this (\<lambda>v. v\<lparr>fState := clear_state_stack (fState v)\<rparr>) (snd pt)
            else Inr (snd pt)) (\<lambda>vs. Inr (fst pt, vs)))))"

text \<open>The fuel bounds the nested calls and the steps of the loops together, as for \<open>attach\<close>.\<close>

fun draw_view :: "nat \<Rightarrow> painter \<Rightarrow> ptr \<Rightarrow> rect \<Rightarrow> painting \<Rightarrow> painting partial"
  and draw_children :: "nat \<Rightarrow> painter \<Rightarrow> ptr \<Rightarrow> rect \<Rightarrow> painting \<Rightarrow> painting partial" where
  "draw_view 0 p this invalRect pt = None"
| "draw_view (Suc n) p this invalRect pt =
     (let checkpoint = p_save p (fst pt)
      in bindO (Some (alive (snd pt this))) (\<lambda>v.
         bindO (screen_bounds (snd pt) this (Bounds v)) (\<lambda>bounds.
         let tr = fst pt @ [Save, ResetMatrix, ClipRect (device_rect bounds)]
         in bindO (Some (draw_content p this invalRect (tr, snd pt))) (\<lambda>pt.
            bindO (Some (alive (snd pt this))) (\<lambda>v.
            bindO (draw_children n p (fFirstChild v) invalRect pt) (\<lambda>pt.
            bindO (Some (draw_after p this invalRect pt)) (\<lambda>pt.
            Some (Inr (fst pt @ RestoreToCount checkpoint # (if p_frames p then [ResetMatrix, DrawRect bounds] else []), snd pt)))))))))"
| "draw_children 0 p child invalRect pt = None"
| "draw_children (Suc n) p child invalRect pt =
     (if child = null then Some (Inr pt)
      else bindO (Some (alive (snd pt child))) (\<lambda>c.
           bindO (if Rect_Intersects invalRect (View_Frame c)
                  then draw_view n p child
                         (Rect_and (fst (OffsetByCopy_point invalRect (Point_neg (fParentOffset c)))) (Bounds c)) pt
                  else Some (Inr pt)) (\<lambda>pt.
           bindO (Some (alive (snd pt child))) (\<lambda>c. draw_children n p (fNextSibling c) invalRect pt))))"

section \<open>The message\<close>

text \<open>
  \<open>canvas\<close>: the window has a canvas. The result has the calls on the canvas and the damaged part of the
  window, if anything was drawn.
\<close>

definition View_update :: "nat \<Rightarrow> env \<Rightarrow> painter \<Rightarrow> bool \<Rightarrow> ptr \<Rightarrow> message \<Rightarrow> gui \<Rightarrow> (canvas_call list \<times> rect option \<times> gui) partial" where
  "View_update n env p canvas this msg g =
     bindO (Some (FindRect msg (Some (c_str update_name)) 0)) (\<lambda>found.
     if fst found = B_OK \<and> Rect_IsValid (snd found) then
       bindO (merge_updates (e_fatal env) this 0 (snd found) (world g)) (\<lambda>merged.
       let updateRect = fst merged; g = g\<lparr>world := snd merged\<rparr>
       in bindO (Some (alive (views g this))) (\<lambda>v.
          bindO (Some (alive (windows g (fWindow v)))) (\<lambda>_.
          if \<not> canvas then Some (Inr ([], None, g))
          else bindO (screen_bounds (views g) this updateRect) (\<lambda>bounds.
               let clipRect = device_rect bounds
               in bindO (draw_view n p this updateRect ([RestoreToCount 0, Save, ClipRect clipRect], views g)) (\<lambda>pt.
                  Some (Inr (fst pt @ [RestoreToCount 0], Some clipRect, g\<lparr>views := snd pt\<rparr>)))))))
     else if e_fatal env then Some (Inl Debugger) else Some (Inr ([], None, g)))"

text \<open>
  The other messages call a hook with what they hold, and those about the screen are posted to the children. The
  state after a call has the hooks called, the calls on the canvas and the damage.
\<close>

definition FindUInt32 :: "message \<Rightarrow> mem option \<Rightarrow> int \<Rightarrow> (status \<times> 32 word) outcome" where
  "FindUInt32 this nm index =
     bindR (FindT B_UINT32_TYPE (le 4 0) this nm index) (\<lambda>(error, v). Inr (error, word_of_nat (un_le v)))"

definition B_KEY_DOWN :: "32 word" where "B_KEY_DOWN = 0x5F4B5944"
definition B_KEY_UP :: "32 word" where "B_KEY_UP = 0x5F4B5955"
definition B_VIEW_MOVED :: "32 word" where "B_VIEW_MOVED = 0x5F564D56"
definition B_MOUSE_MOVED :: "32 word" where "B_MOUSE_MOVED = 0x5F4D4D56"
definition B_MOUSE_UP :: "32 word" where "B_MOUSE_UP = 0x5F4D5550"
definition B_MOUSE_WHEEL_CHANGED :: "32 word" where "B_MOUSE_WHEEL_CHANGED = 0x5F4D5743"
definition B_SCREEN_CHANGED :: "32 word" where "B_SCREEN_CHANGED = 0x5F534348"
definition B_WORKSPACE_ACTIVATED :: "32 word" where "B_WORKSPACE_ACTIVATED = 0x5F574143"
definition B_WORKSPACES_CHANGED :: "32 word" where "B_WORKSPACES_CHANGED = 0x5F574347"

definition bytes_key :: "byte list" where "bytes_key = [0x62, 0x79, 0x74, 0x65, 0x73]"   \<comment> \<open>\<open>bytes\<close>\<close>
definition view_where_key :: "byte list" where   \<comment> \<open>\<open>be:view_where\<close>\<close>
  "view_where_key = [0x62, 0x65, 0x3A, 0x76, 0x69, 0x65, 0x77, 0x5F, 0x77, 0x68, 0x65, 0x72, 0x65]"
definition transit_key :: "byte list" where   \<comment> \<open>\<open>be:transit\<close>\<close>
  "transit_key = [0x62, 0x65, 0x3A, 0x74, 0x72, 0x61, 0x6E, 0x73, 0x69, 0x74]"
definition drag_message_key :: "byte list" where   \<comment> \<open>\<open>be:drag_message\<close>\<close>
  "drag_message_key = [0x62, 0x65, 0x3A, 0x64, 0x72, 0x61, 0x67, 0x5F, 0x6D, 0x65, 0x73, 0x73, 0x61, 0x67, 0x65]"

datatype view_call =
    KeyDown mem int
  | KeyUp mem int
  | FrameMoved point
  | MouseMoved point "32 word" "message option"
  | MouseDown point
  | MouseUp point

record view_result =
  r_hooks :: "view_call list"
  r_canvas :: "canvas_call list"
  r_damage :: "rect option"
  r_gui :: gui

definition only_hooks :: "view_call list \<Rightarrow> gui \<Rightarrow> view_result" where
  "only_hooks hs g = \<lparr>r_hooks = hs, r_canvas = [], r_damage = None, r_gui = g\<rparr>"

definition key_event :: "(mem \<Rightarrow> int \<Rightarrow> view_call) \<Rightarrow> message \<Rightarrow> gui \<Rightarrow> view_result outcome" where
  "key_event hook msg g =
     bindR (FindData msg (Some (c_str bytes_key)) B_STRING_TYPE 0 None) (\<lambda>(st, d).
     case d of
       Some s \<Rightarrow> Inr (only_hooks (if st = B_OK then [hook s (int32 (int (length s) - 1))] else []) g)
     | None \<Rightarrow> if st = B_OK then Inl Undefined else Inr (only_hooks [] g))"

definition mouse_event :: "(point \<Rightarrow> view_call) \<Rightarrow> message \<Rightarrow> gui \<Rightarrow> view_result outcome" where
  "mouse_event hook msg g =
     bindR (FindPoint B_ORIGIN msg (Some (c_str view_where_key)) 0) (\<lambda>(st, p).
     Inr (only_hooks (if st = B_OK then [hook p] else []) g))"

definition mouse_moved :: "env \<Rightarrow> message \<Rightarrow> gui \<Rightarrow> view_result outcome" where
  "mouse_moved env msg g =
     bindR (FindPoint B_ORIGIN msg (Some (c_str view_where_key)) 0) (\<lambda>(st, p).
     if st \<noteq> B_OK then Inr (only_hooks [] g)
     else bindR (FindUInt32 msg (Some (c_str transit_key)) 0) (\<lambda>(st, transit).
          if st \<noteq> B_OK then Inr (only_hooks [] g)
          else bindR (FindMessage (e_alloc env) msg (Some (c_str drag_message_key)) 0 (Some (Message_new 0))) (\<lambda>(st, drag).
               Inr (only_hooks [MouseMoved p transit (if st = B_OK then drag else None)] g))))"

fun post_to_children :: "env \<Rightarrow> ptr \<Rightarrow> ptr \<Rightarrow> message \<Rightarrow> int list \<Rightarrow> gui \<Rightarrow> gui partial" where
  "post_to_children env this win msg [] g = Some (Inr g)"
| "post_to_children env this win msg (i # is) g =
     bindO (ChildAt (views g) this i) (\<lambda>view.
     if view = null then post_to_children env this win msg is g
     else bindO (Some (PostMessage_to (e_alloc env) (e_self env) (e_has_data env (world g)) (e_sent env (world g))
                   (world g) win (e_new env (world g)) (Some msg) view null)) (\<lambda>posted.
          post_to_children env this win msg is (g\<lparr>world := snd posted\<rparr>)))"

definition View_MessageReceived :: "nat \<Rightarrow> env \<Rightarrow> painter \<Rightarrow> bool \<Rightarrow> ptr \<Rightarrow> message \<Rightarrow> gui \<Rightarrow> view_result partial" where
  "View_MessageReceived n env p canvas this msg g =
     (if HasSpecifiers msg then Some (Inr (only_hooks [] g))
      else if what msg = UPDATE then
        bindO (View_update n env p canvas this msg g) (\<lambda>(calls, damage, g).
        Some (Inr \<lparr>r_hooks = [], r_canvas = calls, r_damage = damage, r_gui = g\<rparr>))
      else if what msg = B_KEY_DOWN then Some (key_event KeyDown msg g)
      else if what msg = B_KEY_UP then Some (key_event KeyUp msg g)
      else if what msg = B_VIEW_MOVED then
        bindO (Some (alive (views g this))) (\<lambda>v. Some (Inr (only_hooks [FrameMoved (fParentOffset v)] g)))
      else if what msg = B_MOUSE_MOVED then Some (mouse_moved env msg g)
      else if what msg = B_MOUSE_DOWN then Some (mouse_event MouseDown msg g)
      else if what msg = B_MOUSE_UP then
        bindO (Some (mouse_event MouseUp msg g)) (\<lambda>r.
        bindO (Some (upd this (\<lambda>v. v\<lparr>fMouseEventMask := 0, fMouseEventOptions := 0\<rparr>) (views (r_gui r)))) (\<lambda>vs.
        Some (Inr (r\<lparr>r_gui := (r_gui r)\<lparr>views := vs\<rparr>\<rparr>))))
      else if what msg = B_MOUSE_WHEEL_CHANGED then Some (Inr (only_hooks [] g))
      else if what msg \<in> {B_SCREEN_CHANGED, B_WORKSPACE_ACTIVATED, B_WORKSPACES_CHANGED} then
        bindO (Some (alive (views g this))) (\<lambda>v.
        if fWindow v = null then Some (Inr (only_hooks [] g))
        else bindO (CountChildren (views g) this) (\<lambda>childCount.
             bindO (post_to_children env this (fWindow v) msg (map int [0..<nat childCount]) g) (\<lambda>g.
             Some (Inr (only_hooks [] g)))))
      else bindO (MessageReceived (world g) this msg) (\<lambda>w. Some (Inr (only_hooks [] (g\<lparr>world := w\<rparr>)))))"

section \<open>Pixels\<close>

definition pixels :: "int \<Rightarrow> int \<Rightarrow> int \<Rightarrow> int \<Rightarrow> (int \<times> int) set" where
  "pixels l t r b = {l..r} \<times> {t..b}"

lemma pixels_Int: "pixels l t r b \<inter> pixels l' t' r' b' = pixels (max l l') (max t t') (min r r') (min b b')"
  by (auto simp: pixels_def)

lemma pixels_empty: "pixels l t r b = {} \<longleftrightarrow> \<not> (l \<le> r \<and> t \<le> b)"
  by (auto simp: pixels_def)

definition device_pixels :: "rect \<Rightarrow> (int \<times> int) set" where
  "device_pixels d = {(x, y). fle (r_left d) (Fin (of_int x)) \<and> fless (Fin (of_int x)) (r_right d) \<and>
     fle (r_top d) (Fin (of_int y)) \<and> fless (Fin (of_int y)) (r_bottom d)}"

lemma exact_small: "\<bar>n\<bar> < 2 ^ 23 \<Longrightarrow> exact n" "\<bar>n\<bar> < 2 ^ 20 \<Longrightarrow> exact n" "\<bar>n\<bar> < 2 ^ 22 \<Longrightarrow> exact n"
  by (simp_all add: exact_def)

lemma device_pixels_int:
  assumes "\<bar>l\<bar> < 2 ^ 22" "\<bar>t\<bar> < 2 ^ 22" "\<bar>r\<bar> < 2 ^ 22" "\<bar>b\<bar> < 2 ^ 22"
  shows "device_pixels (device_rect (int_rect l t r b)) = pixels l t r b"
proof -
  have "fadd (fint r) (fint 1) = fint (r + 1)" "fadd (fint b) (fint 1) = fint (b + 1)" using assms by (simp_all add: fadd_fint del: fint_exact)
  moreover have "exact l" "exact t" "exact (r + 1)" "exact (b + 1)" using assms by (simp_all add: exact_def)
  ultimately show ?thesis
    by (auto simp: device_pixels_def device_rect_def int_rect_def Rect_of_def pixels_def)
qed

lemma Rect_Intersects_int:
  assumes "\<forall>n\<in>{l, t, r, b, l', t', r', b'}. exact n"
  shows "Rect_Intersects (int_rect l t r b) (int_rect l' t' r' b') \<longleftrightarrow> pixels l t r b \<inter> pixels l' t' r' b' \<noteq> {}"
  unfolding pixels_Int pixels_empty using assms
  by (auto simp: Rect_Intersects_def Rect_IsValid_def int_rect_def Rect_of_def)

lemma Rect_and_int:
  assumes "\<forall>n\<in>{l, t, r, b, l', t', r', b'}. exact n"
  shows "Rect_and (int_rect l t r b) (int_rect l' t' r' b') = int_rect (max l l') (max t t') (min r r') (min b b')"
  using assms by (auto simp: Rect_and_def int_rect_def Rect_of_def fmax_def fmin_def max_def min_def)

lemma OffsetByCopy_int:
  assumes "\<forall>n\<in>{l, t, r, b, x, y}. \<bar>n\<bar> < 2 ^ 23"
  shows "fst (OffsetByCopy_point (int_rect l t r b) (Point_neg (int_point x y))) = int_rect (l - x) (t - y) (r - x) (b - y)"
proof -
  have "Point_neg (int_point x y) = int_point (- x) (- y)"
    using assms by (simp add: Point_neg_def int_point_def Point_new_def exact_small)
  then have "fst (OffsetByCopy_point (int_rect l t r b) (Point_neg (int_point x y))) = OffsetBy (int_rect l t r b) (fint (- x)) (fint (- y))"
    by (simp add: OffsetByCopy_point_def OffsetBy_point_def OffsetBy_def int_point_def Point_new_def)
  then show ?thesis using OffsetBy_int [of l t r b "- x" "- y"] assms by simp
qed

section \<open>The canvas as Skia documents it\<close>

text \<open>
  A stack of clips: \<open>save\<close> returns its height and saves the current clip, \<open>restoreToCount\<close> goes back to a height,
  at least one. A pixel belongs to a rectangle if its left top corner does.
\<close>

fun canvas_step :: "canvas_call \<Rightarrow> (int \<times> int) set list \<Rightarrow> (int \<times> int) set list" where
  "canvas_step Save st = hd st # st"
| "canvas_step (RestoreToCount n) st = drop (length st - nat (max 1 n)) st"
| "canvas_step (ClipRect d) st = (hd st \<inter> device_pixels d) # tl st"
| "canvas_step _ st = st"

definition clips :: "(int \<times> int) set \<Rightarrow> canvas_call list \<Rightarrow> (int \<times> int) set list" where
  "clips base tr = fold canvas_step tr [base]"

definition save_documented :: "painter \<Rightarrow> (int \<times> int) set \<Rightarrow> bool" where
  "save_documented p base \<longleftrightarrow> (\<forall>tr. p_save p tr = int (length (clips base tr)))"

text \<open>The calls of \<open>Draw\<close>, each with the clip at its time.\<close>

fun drawn :: "(int \<times> int) set list \<Rightarrow> canvas_call list \<Rightarrow> (ptr \<times> rect \<times> (int \<times> int) set) list" where
  "drawn st [] = []"
| "drawn st (c # tr) = (case c of Draw v r \<Rightarrow> [(v, r, hd st)] | _ \<Rightarrow> []) @ drawn (canvas_step c st) tr"

lemma drawn_append: "drawn st (xs @ ys) = drawn st xs @ drawn (fold canvas_step xs st) ys"
  by (induction xs arbitrary: st) simp_all

lemma clips_append: "clips base (xs @ ys) = fold canvas_step ys (clips base xs)"
  by (simp add: clips_def)

section \<open>What is visible\<close>

record geometry =
  g_x :: "ptr \<Rightarrow> int"
  g_y :: "ptr \<Rightarrow> int"
  g_w :: "ptr \<Rightarrow> int"
  g_h :: "ptr \<Rightarrow> int"

text \<open>
  The views that an update of the pixels \<open>A\<close> of a tree reaches, in the order of the preorder: each with its
  position on the screen and its part of \<open>A\<close>, which for a child is what lies inside its bounds. A subtree
  without a part is left out.
\<close>

fun visible :: "geometry \<Rightarrow> int \<Rightarrow> int \<Rightarrow> (int \<times> int) set \<Rightarrow> vtree \<Rightarrow> (ptr \<times> int \<times> int \<times> (int \<times> int) set) list" where
  "visible geo X Y A (VTree v ts) =
     (v, X, Y, A) # concat (map (\<lambda>t.
        let u = vt_root t; x = X + g_x geo u; y = Y + g_y geo u;
            B = A \<inter> pixels x y (x + g_w geo u) (y + g_h geo u)
        in if B = {} then [] else visible geo x y B t) ts)"

definition branch_visible :: "geometry \<Rightarrow> int \<Rightarrow> int \<Rightarrow> (int \<times> int) set \<Rightarrow> vtree \<Rightarrow> (ptr \<times> int \<times> int \<times> (int \<times> int) set) list" where
  "branch_visible geo X Y A t =
     (let u = vt_root t; x = X + g_x geo u; y = Y + g_y geo u; B = A \<inter> pixels x y (x + g_w geo u) (y + g_h geo u)
      in if B = {} then [] else visible geo x y B t)"

lemma visible_eq: "visible geo X Y A (VTree v ts) = (v, X, Y, A) # concat (map (branch_visible geo X Y A) ts)"
  by (simp add: branch_visible_def [abs_def])

declare visible.simps [simp del]

definition whole_view :: "geometry \<Rightarrow> views \<Rightarrow> ptr \<Rightarrow> bool" where
  "whole_view geo vs v \<longleftrightarrow> (\<exists>x. vs v = Some x \<and> fParentOffset x = int_point (g_x geo v) (g_y geo v) \<and>
     fBounds x = int_rect 0 0 (g_w geo v) (g_h geo v)) \<and> \<bar>g_w geo v\<bar> < 2 ^ 20 \<and> \<bar>g_h geo v\<bar> < 2 ^ 20"

text \<open>What drawing leaves alone, and what it leaves of the drawing states of the views \<open>us\<close> that were drawn.\<close>

definition no_state :: "view \<Rightarrow> view" where "no_state x = x\<lparr>fState := []\<rparr>"

definition restated :: "views \<Rightarrow> views \<Rightarrow> bool" where
  "restated vs vs' \<longleftrightarrow> (\<forall>v. map_option no_state (vs' v) = map_option no_state (vs v))"

definition drew :: "ptr set \<Rightarrow> views \<Rightarrow> views \<Rightarrow> bool" where
  "drew us vs vs' \<longleftrightarrow> restated vs vs' \<and> (\<forall>v. v \<notin> us \<longrightarrow> vs' v = vs v) \<and>
     (\<forall>v\<in>us. \<exists>x. vs' v = Some x \<and> length (fState x) = 1)"

definition hooks_keep_state :: "painter \<Rightarrow> bool" where
  "hooks_keep_state p \<longleftrightarrow> (\<forall>v r st. st \<noteq> [] \<longrightarrow> p_draw p v r st \<noteq> [] \<and> p_draw_after p v r st \<noteq> [])"

definition stacks_ok :: "views \<Rightarrow> bool" where
  "stacks_ok vs \<longleftrightarrow> (\<forall>v x. vs v = Some x \<longrightarrow> fState x \<noteq> [])"

lemma restated_at:
  assumes "restated vs vs'"
  shows "vs v = Some x \<Longrightarrow> \<exists>s. vs' v = Some (x\<lparr>fState := s\<rparr>)" "dom vs' = dom vs"
proof -
  have e: "map_option no_state (vs' u) = map_option no_state (vs u)" for u using assms by (simp add: restated_def)
  show "vs v = Some x \<Longrightarrow> \<exists>s. vs' v = Some (x\<lparr>fState := s\<rparr>)"
  proof -
    assume "vs v = Some x"
    then obtain x' where x': "vs' v = Some x'" "no_state x' = no_state x" using e [of v] by auto
    then have "x' = x\<lparr>fState := fState x'\<rparr>" by (cases x; cases x') (simp add: no_state_def)
    then show ?thesis using x'(1) by metis
  qed
  show "dom vs' = dom vs" using e by (metis (no_types, lifting) domIff option.map_disc_iff subsetI subset_antisym)
qed

lemma restated_back:
  assumes "restated vs vs'" "vs' v = Some x'"
  shows "\<exists>x s. vs v = Some x \<and> x' = x\<lparr>fState := s\<rparr>"
proof -
  obtain x where "vs v = Some x" using restated_at(2) [OF assms(1)] assms(2) by blast
  then show ?thesis using restated_at(1) [OF assms(1), of v x] assms(2) by auto
qed

lemma restated_views:
  assumes "restated vs vs'"
  shows "up_path vs' ps = up_path vs ps" "whole_view geo vs' v = whole_view geo vs v"
    "seg vs' v prev cs nxt f = seg vs v prev cs nxt f" "rooted vs' kids t = rooted vs kids t"
    "family vs kids \<Longrightarrow> family vs' kids"
proof -
  note fwd = restated_at(1) [OF assms] and bwd = restated_back [OF assms]
  show "up_path vs' ps = up_path vs ps"
  proof (induction ps)
    case (Cons u ps)
    have "map_option fParent (vs' u) = map_option fParent (vs u)"
      using fwd [of u] bwd [of u] by (cases "vs u"; cases "vs' u") auto
    then show ?case using Cons.IH by (cases ps; cases "vs u"; cases "vs' u") auto
  qed simp
  have "map_option (\<lambda>x. (fParentOffset x, fBounds x)) (vs' v) = map_option (\<lambda>x. (fParentOffset x, fBounds x)) (vs v)"
    using fwd [of v] bwd [of v] by (cases "vs v"; cases "vs' v") auto
  then show "whole_view geo vs' v = whole_view geo vs v" by (cases "vs v"; cases "vs' v") (auto simp: whole_view_def)
  have "map_option links (vs' c) = map_option links (vs c)" for c
    using fwd [of c] bwd [of c] by (cases "vs c"; cases "vs' c") (auto simp: links_def)
  then show "seg vs' v prev cs nxt f = seg vs v prev cs nxt f" by (intro seg_frame) simp
  show "rooted vs' kids t = rooted vs kids t" using restated_at(2) [OF assms] by (rule rooted_dom_eq)
  have "map_option (\<lambda>x. (links x, fFirstChild x)) (vs' c) = map_option (\<lambda>x. (links x, fFirstChild x)) (vs c)" for c
    using fwd [of c] bwd [of c] by (cases "vs c"; cases "vs' c") (auto simp: links_def)
  then show "family vs kids \<Longrightarrow> family vs' kids" by (rule family_cong [rule_format])
qed

lemma restated_trans: "restated vs vs1 \<Longrightarrow> restated vs1 vs2 \<Longrightarrow> restated vs vs2"
  by (simp add: restated_def)

lemma drew_trans: "drew us vs vs1 \<Longrightarrow> drew us' vs1 vs2 \<Longrightarrow> drew (us \<union> us') vs vs2"
  unfolding drew_def using restated_trans by (metis Un_iff)

lemma drew_refl: "drew {} vs vs"
  by (simp add: drew_def restated_def)

lemma drew_stacks_ok:
  assumes "drew us vs vs'" "stacks_ok vs"
  shows "stacks_ok vs'"
proof -
  have "fState x \<noteq> []" if "vs' v = Some x" for v x
    using that assms by (cases "v \<in> us") (auto simp: drew_def stacks_ok_def)
  then show ?thesis by (auto simp: stacks_ok_def)
qed

lemma length_clear_state_stack: "st \<noteq> [] \<Longrightarrow> length (clear_state_stack st) = 1"
  by (induction st rule: clear_state_stack.induct) auto

lemma draw_content_ok:
  assumes "vs v = Some x" "fState x \<noteq> []" "hooks_keep_state p"
  shows "\<exists>tr1 s. draw_content p v r (tr, vs) = Inr (tr @ tr1, vs(v := Some (x\<lparr>fState := s\<rparr>))) \<and> s \<noteq> [] \<and>
    fold canvas_step tr1 st = st \<and> drawn st tr1 = (if fFlags x AND B_WILL_DRAW \<noteq> 0 then [(v, r, hd st)] else [])"
proof (cases "fFlags x AND B_WILL_DRAW = 0")
  case True
  then have "draw_content p v r (tr, vs) = Inr (tr @ [], vs(v := Some (x\<lparr>fState := fState x\<rparr>)))"
    using assms(1) by (simp add: draw_content_def fun_upd_idem)
  then show ?thesis using True assms(2) by (intro exI [of _ "[]"] exI [of _ "fState x"]) simp
next
  case False
  let ?c = "ViewColor (fState x)"
  let ?tr = "(if ?c \<noteq> B_TRANSPARENT_COLOR then [Clear (?c\<lparr>c_alpha := 255\<rparr>)] else []) @ [Draw v r]"
  have "draw_content p v r (tr, vs) = Inr (tr @ ?tr, vs(v := Some (x\<lparr>fState := p_draw p v r (fState x)\<rparr>)))"
    using False assms(1) by (simp add: draw_content_def upd_def Let_def)
  moreover have "p_draw p v r (fState x) \<noteq> []" using assms(2,3) by (simp add: hooks_keep_state_def)
  moreover have "fold canvas_step ?tr st = st \<and> drawn st ?tr = [(v, r, hd st)]" by simp
  ultimately show ?thesis using False by auto
qed

lemma draw_after_ok:
  assumes "vs v = Some x" "fState x \<noteq> []" "hooks_keep_state p"
  shows "\<exists>tr1 s. draw_after p v r (tr, vs) = Inr (tr @ tr1, vs(v := Some (x\<lparr>fState := s\<rparr>))) \<and> length s = 1 \<and>
    fold canvas_step tr1 st = st \<and> drawn st tr1 = []"
proof -
  have one: "\<exists>vs'. (if \<not> state_stack_empty (fState y) then upd v (\<lambda>v. v\<lparr>fState := clear_state_stack (fState v)\<rparr>) us else Inr us) = Inr vs' \<and>
      (\<exists>s. vs' = us(v := Some (y\<lparr>fState := s\<rparr>)) \<and> length s = 1)" if y: "us v = Some y" "fState y \<noteq> []" for us y
  proof (cases "state_stack_empty (fState y)")
    case True
    then have "length (fState y) = 1" using y(2) by (cases "fState y") (auto simp: state_stack_empty_def)
    then show ?thesis using True y(1) by (auto simp: fun_upd_idem intro!: exI [of _ "fState y"])
  next
    case False
    then show ?thesis using y length_clear_state_stack [OF y(2)] by (auto simp: upd_def)
  qed
  show ?thesis
  proof (cases "fFlags x AND B_WILL_DRAW = 0")
    case True
    then show ?thesis using one [of vs x] assms(1,2) by (auto simp: draw_after_def)
  next
    case False
    let ?y = "x\<lparr>fState := p_draw_after p v r (fState x)\<rparr>"
    have "fState ?y \<noteq> []" using assms(2,3) by (simp add: hooks_keep_state_def)
    then show ?thesis using one [of "vs(v := Some ?y)" ?y] False assms(1) by (auto simp: draw_after_def upd_def)
  qed
qed

section \<open>Drawing a tree\<close>

definition sum_abs :: "(ptr \<Rightarrow> int) \<Rightarrow> ptr list \<Rightarrow> int" where "sum_abs f ps = (\<Sum>p\<leftarrow>ps. \<bar>f p\<bar>)"

lemma sum_abs_simps [simp]: "sum_abs f [] = 0" "sum_abs f (p # ps) = \<bar>f p\<bar> + sum_abs f ps" "sum_abs f (ps @ qs) = sum_abs f ps + sum_abs f qs"
  by (simp_all add: sum_abs_def)

lemma sum_abs_pos: "0 \<le> sum_abs f ps" by (induction ps) auto

lemma sum_abs_bound: "\<bar>\<Sum>p\<leftarrow>ps. f p\<bar> \<le> sum_abs f ps" by (induction ps) auto

text \<open>The views of the tree and of the path up from its root stand at whole positions, and the sum of these is small.\<close>

definition placed :: "geometry \<Rightarrow> views \<Rightarrow> ptr list \<Rightarrow> vtree \<Rightarrow> bool" where
  "placed geo vs ps t \<longleftrightarrow> up_path vs (vt_root t # ps) \<and> (\<forall>v\<in>set (preorder t) \<union> set ps. whole_view geo vs v) \<and>
     sum_abs (g_x geo) (preorder t @ ps) < 2 ^ 20 \<and> sum_abs (g_y geo) (preorder t @ ps) < 2 ^ 20"

definition at_x :: "geometry \<Rightarrow> ptr list \<Rightarrow> int" where "at_x geo ps = (\<Sum>p\<leftarrow>ps. g_x geo p)"
definition at_y :: "geometry \<Rightarrow> ptr list \<Rightarrow> int" where "at_y geo ps = (\<Sum>p\<leftarrow>ps. g_y geo p)"

lemma at_Cons: "at_x geo (v # ps) = at_x geo ps + g_x geo v" "at_y geo (v # ps) = at_y geo ps + g_y geo v"
  by (simp_all add: at_x_def at_y_def)

lemma placed_path:
  assumes "placed geo vs ps t"
  shows "sum_abs (g_x geo) (vt_root t # ps) < 2 ^ 20" "sum_abs (g_y geo) (vt_root t # ps) < 2 ^ 20"
    "\<bar>at_x geo (vt_root t # ps)\<bar> < 2 ^ 20" "\<bar>at_y geo (vt_root t # ps)\<bar> < 2 ^ 20"
proof -
  obtain v ts where t: "t = VTree v ts" by (cases t)
  have b: "0 \<le> sum_abs f (concat (map preorder ts))" for f by (rule sum_abs_pos)
  show x: "sum_abs (g_x geo) (vt_root t # ps) < 2 ^ 20" and y: "sum_abs (g_y geo) (vt_root t # ps) < 2 ^ 20"
    using assms b [of "g_x geo"] b [of "g_y geo"] by (auto simp: placed_def t)
  show "\<bar>at_x geo (vt_root t # ps)\<bar> < 2 ^ 20" "\<bar>at_y geo (vt_root t # ps)\<bar> < 2 ^ 20"
    using x y sum_abs_bound [of "g_x geo" "vt_root t # ps"] sum_abs_bound [of "g_y geo" "vt_root t # ps"]
    unfolding at_x_def at_y_def by linarith+
qed

lemma placed_offsets: "placed geo vs ps t \<Longrightarrow> \<forall>p\<in>set (vt_root t # ps). whole_offset vs (g_x geo) (g_y geo) p"
  by (cases t) (auto simp: placed_def whole_view_def whole_offset_def)

lemma screen_bounds_int:
  assumes "placed geo vs ps t" "\<bar>l\<bar> < 2 ^ 20" "\<bar>t'\<bar> < 2 ^ 20" "\<bar>r\<bar> < 2 ^ 20" "\<bar>b\<bar> < 2 ^ 20"
    "X = at_x geo (vt_root t # ps)" "Y = at_y geo (vt_root t # ps)"
  shows "screen_bounds vs (vt_root t) (int_rect l t' r b) = Some (Inr (int_rect (l + X) (t' + Y) (r + X) (b + Y)))"
proof -
  have two: "(2 :: int) ^ 22 = 4 * 2 ^ 20" by simp
  have "\<bar>l\<bar> + (\<Sum>p\<leftarrow>vt_root t # ps. \<bar>g_x geo p\<bar>) < 2 ^ 22" "\<bar>t'\<bar> + (\<Sum>p\<leftarrow>vt_root t # ps. \<bar>g_y geo p\<bar>) < 2 ^ 22"
    "\<bar>r\<bar> < 2 ^ 22" "\<bar>b\<bar> < 2 ^ 22"
    using placed_path(1,2) [OF assms(1)] assms(2-5) two unfolding sum_abs_def by linarith+
  from ConvertToScreen_rect_path [OF _ placed_offsets [OF assms(1)] this, of X Y] assms(1,6,7)
  show ?thesis by (simp add: screen_bounds_def placed_def at_x_def at_y_def)
qed

lemma placed_branch:
  assumes "placed geo vs ps (VTree v ts)" "t \<in> set ts" "vs (vt_root t) = Some x" "fParent x = v" "v \<noteq> null"
  shows "placed geo vs (v # ps) t"
proof -
  have split: "sum_abs f (preorder t) \<le> sum_abs f (concat (map preorder ts))" for f
    using assms(2)
  proof (induction ts)
    case (Cons u ts)
    then show ?case using sum_abs_pos [of f "preorder u"] sum_abs_pos [of f "concat (map preorder ts)"] by auto
  qed simp
  show ?thesis using assms split [of "g_x geo"] split [of "g_y geo"] by (auto simp: placed_def)
qed

lemma placed_restated: "restated vs vs' \<Longrightarrow> placed geo vs' ps t = placed geo vs ps t"
  by (simp add: placed_def restated_views del: up_path.simps)

definition wills_draw :: "views \<Rightarrow> (ptr \<times> int \<times> int \<times> (int \<times> int) set) \<Rightarrow> bool" where
  "wills_draw vs e \<longleftrightarrow> (\<exists>x. vs (fst e) = Some x \<and> fFlags x AND B_WILL_DRAW \<noteq> 0)"

text \<open>A call of \<open>Draw\<close> belongs to an entry: the rectangle, moved to the screen, is the part, and so is the clip within \<open>C\<close>.\<close>

fun drawn_as :: "(int \<times> int) set \<Rightarrow> (ptr \<times> rect \<times> (int \<times> int) set) \<Rightarrow> (ptr \<times> int \<times> int \<times> (int \<times> int) set) \<Rightarrow> bool" where
  "drawn_as C (u, q, clip) (v, X, Y, A) \<longleftrightarrow> u = v \<and> clip = A \<inter> C \<and>
     (\<exists>l t r b. q = int_rect l t r b \<and> A = pixels (l + X) (t + Y) (r + X) (b + Y))"

definition paints :: "(int \<times> int) set \<Rightarrow> (int \<times> int) set \<Rightarrow> views \<Rightarrow> canvas_call list \<Rightarrow>
    (ptr \<times> int \<times> int \<times> (int \<times> int) set) list \<Rightarrow> painting partial \<Rightarrow> bool" where
  "paints base C vs tr vis res \<longleftrightarrow> (\<exists>tr1 vs'. res = Some (Inr (tr @ tr1, vs')) \<and> clips base (tr @ tr1) = clips base tr \<and>
     list_all2 (drawn_as C) (drawn (clips base tr) tr1) (filter (wills_draw vs) vis) \<and> drew (fst ` set vis) vs vs')"

lemma paints_Nil: "paints base C vs tr [] (Some (Inr (tr, vs)))"
  by (auto simp: paints_def drew_refl intro!: exI [of _ "[]"])

lemma wills_draw_restated:
  assumes "restated vs vs'"
  shows "wills_draw vs' = wills_draw vs"
proof -
  have "map_option fFlags (vs' v) = map_option fFlags (vs v)" for v
    using restated_at(1) [OF assms, of v] restated_back [OF assms, of v] by (cases "vs v"; cases "vs' v") auto
  then have "(\<exists>x. vs' v = Some x \<and> P (fFlags x)) \<longleftrightarrow> (\<exists>x. vs v = Some x \<and> P (fFlags x))" for v and P :: "32 word \<Rightarrow> bool"
    by (metis (no_types, lifting) map_option_eq_Some)
  from this [where P = "\<lambda>f. f AND B_WILL_DRAW \<noteq> 0"] show ?thesis by (simp add: wills_draw_def fun_eq_iff)
qed

lemma paints_append:
  assumes "paints base C vs tr vis1 (Some (Inr (tr1, vs1)))" "paints base C vs1 tr1 vis2 res"
  shows "paints base C vs tr (vis1 @ vis2) res"
proof -
  obtain a where a: "tr1 = tr @ a" "clips base tr1 = clips base tr" "drew (fst ` set vis1) vs vs1"
    "list_all2 (drawn_as C) (drawn (clips base tr) a) (filter (wills_draw vs) vis1)"
    using assms(1) by (auto simp: paints_def)
  obtain b vs2 where b: "res = Some (Inr (tr1 @ b, vs2))" "clips base (tr1 @ b) = clips base tr1" "drew (fst ` set vis2) vs1 vs2"
    "list_all2 (drawn_as C) (drawn (clips base tr1) b) (filter (wills_draw vs1) vis2)"
    using assms(2) by (auto simp: paints_def)
  have "wills_draw vs1 = wills_draw vs" using a(3) wills_draw_restated by (simp add: drew_def)
  then have "list_all2 (drawn_as C) (drawn (clips base tr) (a @ b)) (filter (wills_draw vs) (vis1 @ vis2))"
    using a b by (simp add: drawn_append clips_append list_all2_appendI)
  moreover have "drew (fst ` set (vis1 @ vis2)) vs vs2" using drew_trans [OF a(3) b(3)] by (simp add: image_Un)
  ultimately show ?thesis using a b unfolding paints_def by (intro exI [of _ "a @ b"] exI [of _ vs2]) simp
qed

text \<open>The hypotheses under which a view is drawn: where it stands, which part of the update reaches it, and the clip.\<close>

definition ready :: "geometry \<Rightarrow> (ptr \<Rightarrow> ptr list) \<Rightarrow> ptr list \<Rightarrow> views \<Rightarrow> vtree \<Rightarrow> bool" where
  "ready geo kids ps vs t \<longleftrightarrow> family vs kids \<and> rooted vs kids t \<and> placed geo vs ps t \<and> stacks_ok vs"

definition area :: "geometry \<Rightarrow> int \<Rightarrow> int \<Rightarrow> ptr \<Rightarrow> (int \<times> int) set" where
  "area geo X Y v = pixels X Y (X + g_w geo v) (Y + g_h geo v)"

lemma ready_restated:
  assumes "ready geo kids ps vs t" "restated vs vs'" "stacks_ok vs'"
  shows "ready geo kids ps vs' t"
  using assms placed_restated restated_views(4,5) by (auto simp: ready_def)

lemma ready_drew:
  assumes "ready geo kids ps vs t" "drew us vs vs'"
  shows "ready geo kids ps vs' t"
  using ready_restated [OF assms(1), of vs'] drew_stacks_ok [OF assms(2)] assms by (auto simp: ready_def drew_def)

definition small_rect :: "int \<Rightarrow> int \<Rightarrow> int \<Rightarrow> int \<Rightarrow> bool" where
  "small_rect l t r b \<longleftrightarrow> (\<forall>n\<in>{l, t, r, b}. \<bar>n\<bar> < 2 ^ 20)"

lemma moved_max_min:
  "max (a + c) (c + b) = max a b + c" "min (a + c) (c + b + d) = min a (b + d) + (c :: int)"
  "max (a - b) 0 + (c + b) = max a b + c" "min (a - b) d + (c + b) = min a (b + d) + (c :: int)"
  by (auto simp: max_def min_def)

lemma branch_rect:
  assumes "whole_view geo vs u" "vs u = Some x" "small_rect l t r b" "\<bar>g_x geo u\<bar> < 2 ^ 20" "\<bar>g_y geo u\<bar> < 2 ^ 20"
    "A = pixels (l + X) (t + Y) (r + X) (b + Y)" "B = A \<inter> area geo (X + g_x geo u) (Y + g_y geo u) u"
  shows "Rect_Intersects (int_rect l t r b) (View_Frame x) \<longleftrightarrow> B \<noteq> {}"
    "B \<noteq> {} \<Longrightarrow> \<exists>l' t' r' b'. Rect_and (fst (OffsetByCopy_point (int_rect l t r b) (Point_neg (fParentOffset x)))) (Bounds x) = int_rect l' t' r' b' \<and>
      small_rect l' t' r' b' \<and> B = pixels (l' + (X + g_x geo u)) (t' + (Y + g_y geo u)) (r' + (X + g_x geo u)) (b' + (Y + g_y geo u))"
proof -
  let ?x = "g_x geo u" and ?y = "g_y geo u" and ?w = "g_w geo u" and ?h = "g_h geo u"
  have v: "fParentOffset x = int_point ?x ?y" "fBounds x = int_rect 0 0 ?w ?h" "\<bar>?w\<bar> < 2 ^ 20" "\<bar>?h\<bar> < 2 ^ 20"
    using assms(1,2) by (auto simp: whole_view_def)
  have e: "B = pixels (max l ?x + X) (max t ?y + Y) (min r (?x + ?w) + X) (min b (?y + ?h) + Y)"
    unfolding assms(6,7) area_def pixels_Int moved_max_min ..
  have f: "View_Frame x = int_rect ?x ?y (?x + ?w) (?y + ?h)"
    using v assms(4,5) OffsetTo_int [of 0 0 ?w ?h ?x ?y]
    by (simp add: View_Frame_def OffsetToCopy_def Bounds_def int_point_def Point_new_def add.commute del: fint_exact)
  have "\<forall>n\<in>{l, t, r, b, ?x, ?y, ?x + ?w, ?y + ?h}. exact n"
    using assms(3-5) v(3,4) unfolding small_rect_def exact_def by (simp add: abs_less_iff)
  then show "Rect_Intersects (int_rect l t r b) (View_Frame x) \<longleftrightarrow> B \<noteq> {}"
    unfolding f e by (subst Rect_Intersects_int) (auto simp: pixels_Int pixels_empty)
  assume ne: "B \<noteq> {}"
  let ?l = "max (l - ?x) 0" and ?t = "max (t - ?y) 0" and ?r = "min (r - ?x) ?w" and ?b = "min (b - ?y) ?h"
  have o: "fst (OffsetByCopy_point (int_rect l t r b) (Point_neg (fParentOffset x))) = int_rect (l - ?x) (t - ?y) (r - ?x) (b - ?y)"
    unfolding v(1) using assms(3-5) by (intro OffsetByCopy_int) (auto simp: small_rect_def)
  have "\<forall>n\<in>{l - ?x, t - ?y, r - ?x, b - ?y, 0, 0, ?w, ?h}. exact n"
    using assms(3-5) v(3,4) unfolding small_rect_def exact_def by (simp add: abs_less_iff)
  then have "Rect_and (int_rect (l - ?x) (t - ?y) (r - ?x) (b - ?y)) (Bounds x) = int_rect ?l ?t ?r ?b"
    unfolding Bounds_def v(2) by (intro Rect_and_int) simp
  moreover have "small_rect ?l ?t ?r ?b" using ne v(3,4) assms(3) unfolding e pixels_empty small_rect_def by auto
  moreover have "B = pixels (?l + (X + ?x)) (?t + (Y + ?y)) (?r + (X + ?x)) (?b + (Y + ?y))"
    unfolding e moved_max_min ..
  ultimately show "\<exists>l' t' r' b'. Rect_and (fst (OffsetByCopy_point (int_rect l t r b) (Point_neg (fParentOffset x)))) (Bounds x) = int_rect l' t' r' b' \<and>
      small_rect l' t' r' b' \<and> B = pixels (l' + (X + ?x)) (t' + (Y + ?y)) (r' + (X + ?x)) (b' + (Y + ?y))"
    unfolding o by blast
qed

text \<open>\<open>draws_tree\<close>: drawing the tree gives what is visible of it.\<close>

definition draws_tree :: "(int \<times> int) set \<Rightarrow> painter \<Rightarrow> geometry \<Rightarrow> (ptr \<Rightarrow> ptr list) \<Rightarrow> vtree \<Rightarrow> bool" where
  "draws_tree base p geo kids t \<longleftrightarrow> (\<forall>n ps vs tr C A l u r b X Y.
     2 * length (preorder t) \<le> n \<longrightarrow> ready geo kids ps vs t \<longrightarrow> small_rect l u r b \<longrightarrow> clips base tr \<noteq> [] \<longrightarrow>
     X = at_x geo (vt_root t # ps) \<longrightarrow> Y = at_y geo (vt_root t # ps) \<longrightarrow> A = pixels (l + X) (u + Y) (r + X) (b + Y) \<longrightarrow>
     hd (clips base tr) \<inter> area geo X Y (vt_root t) = A \<inter> C \<longrightarrow>
     paints base C vs tr (visible geo X Y A t) (draw_view n p (vt_root t) (int_rect l u r b) (tr, vs)))"

lemma draw_branch:
  assumes "draws_tree base p geo kids t" "2 * length (preorder t) \<le> n" "ready geo kids ps vs (VTree v ts)" "t \<in> set ts"
    "vs (vt_root t) = Some x" "fParent x = v" "v \<noteq> null" "small_rect l u r b" "clips base tr \<noteq> []"
    "X = at_x geo (v # ps)" "Y = at_y geo (v # ps)" "A = pixels (l + X) (u + Y) (r + X) (b + Y)" "hd (clips base tr) = A \<inter> C"
  shows "paints base C vs tr (branch_visible geo X Y A t)
    (if Rect_Intersects (int_rect l u r b) (View_Frame x)
     then draw_view n p (vt_root t) (Rect_and (fst (OffsetByCopy_point (int_rect l u r b) (Point_neg (fParentOffset x)))) (Bounds x)) (tr, vs)
     else Some (Inr (tr, vs)))"
proof -
  let ?c = "vt_root t"
  have pl: "placed geo vs (v # ps) t"
    using placed_branch [of geo vs ps v ts t x] assms(3-7) by (simp add: ready_def)
  have rd: "ready geo kids (v # ps) vs t" using assms(3,4) pl by (auto simp: ready_def)
  have c: "?c \<in> set (preorder t)" by (cases t) simp
  have w: "whole_view geo vs ?c" using pl c by (simp add: placed_def)
  have "\<bar>g_x geo ?c\<bar> < 2 ^ 20" "\<bar>g_y geo ?c\<bar> < 2 ^ 20"
    using placed_path(1,2) [OF pl] sum_abs_pos [of "g_x geo" "v # ps"] sum_abs_pos [of "g_y geo" "v # ps"] unfolding sum_abs_simps by linarith+
  note br = branch_rect [OF w assms(5,8) this assms(12) refl]
  let ?B = "A \<inter> area geo (X + g_x geo ?c) (Y + g_y geo ?c) ?c"
  show ?thesis
  proof (cases "?B = {}")
    case True
    moreover from True have "branch_visible geo X Y A t = []" by (simp add: branch_visible_def area_def)
    ultimately show ?thesis using br(1) paints_Nil by simp
  next
    case False
    obtain l' u' r' b' where q: "Rect_and (fst (OffsetByCopy_point (int_rect l u r b) (Point_neg (fParentOffset x)))) (Bounds x) = int_rect l' u' r' b'"
      "small_rect l' u' r' b'" "?B = pixels (l' + (X + g_x geo ?c)) (u' + (Y + g_y geo ?c)) (r' + (X + g_x geo ?c)) (b' + (Y + g_y geo ?c))"
      using br(2) [OF False] by blast
    have xy: "X + g_x geo ?c = at_x geo (?c # v # ps)" "Y + g_y geo ?c = at_y geo (?c # v # ps)"
      using assms(10,11) by (simp_all add: at_Cons)
    have "hd (clips base tr) \<inter> area geo (X + g_x geo ?c) (Y + g_y geo ?c) ?c = ?B \<inter> C" using assms(13) by blast
    then have "paints base C vs tr (visible geo (X + g_x geo ?c) (Y + g_y geo ?c) ?B t) (draw_view n p ?c (int_rect l' u' r' b') (tr, vs))"
      using assms(1) [unfolded draws_tree_def, rule_format, OF assms(2) rd q(2) assms(9) xy q(3)] by simp
    moreover have "branch_visible geo X Y A t = visible geo (X + g_x geo ?c) (Y + g_y geo ?c) ?B t"
      using False by (simp add: branch_visible_def area_def Let_def)
    ultimately show ?thesis using br(1) False q(1) by simp
  qed
qed

lemma draw_children_ok:
  assumes "\<forall>t\<in>set ts. draws_tree base p geo kids t" "2 * length (concat (map preorder ts)) < n" "ready geo kids ps vs (VTree v us)"
    "set ts \<subseteq> set us" "v \<noteq> null" "small_rect l u r b" "clips base tr \<noteq> []" "X = at_x geo (v # ps)" "Y = at_y geo (v # ps)"
    "A = pixels (l + X) (u + Y) (r + X) (b + Y)" "hd (clips base tr) = A \<inter> C" "seg vs v prev (map vt_root ts) null f"
  shows "paints base C vs tr (concat (map (branch_visible geo X Y A) ts)) (draw_children n p f (int_rect l u r b) (tr, vs))"
  using assms
proof (induction ts arbitrary: n vs tr prev f)
  case Nil
  then show ?case by (cases n) (auto simp: paints_Nil)
next
  case (Cons t ts)
  obtain k where n: "n = Suc k" using Cons.prems(2) by (cases n) auto
  obtain x where x: "f = vt_root t" "f \<noteq> null" "vs f = Some x" "fParent x = v" "seg vs v f (map vt_root ts) null (fNextSibling x)"
    using Cons.prems(12) by auto
  have len: "0 < length (preorder t)" by (cases t) simp
  let ?branch = "if Rect_Intersects (int_rect l u r b) (View_Frame x)
     then draw_view k p (vt_root t) (Rect_and (fst (OffsetByCopy_point (int_rect l u r b) (Point_neg (fParentOffset x)))) (Bounds x)) (tr, vs)
     else Some (Inr (tr, vs))"
  have br: "paints base C vs tr (branch_visible geo X Y A t) ?branch"
    using Cons.prems(1,2,4) n x by (intro draw_branch [OF _ _ Cons.prems(3) _ _ _ Cons.prems(5-11)]) auto
  then obtain a vs1 where a: "?branch = Some (Inr (tr @ a, vs1))" "clips base (tr @ a) = clips base tr"
    "drew (fst ` set (branch_visible geo X Y A t)) vs vs1" by (auto simp: paints_def)
  have re: "restated vs vs1" using a(3) by (simp add: drew_def)
  obtain x1 where x1: "vs1 f = Some x1" "fNextSibling x1 = fNextSibling x" using restated_at(1) [OF re x(3)] by auto
  have "paints base C vs1 (tr @ a) (concat (map (branch_visible geo X Y A) ts)) (draw_children k p (fNextSibling x) (int_rect l u r b) (tr @ a, vs1))"
  proof (rule Cons.IH)
    show "2 * length (concat (map preorder ts)) < k"
      using Cons.prems(2) n len unfolding list.map concat.simps length_append add_mult_distrib2 by linarith
    show "ready geo kids ps vs1 (VTree v us)" using ready_drew [OF Cons.prems(3) a(3)] .
    show "seg vs1 v f (map vt_root ts) null (fNextSibling x)" using x(5) restated_views(3) [OF re] by simp
  qed (use Cons.prems a(2) in auto)
  from paints_append [OF br [unfolded a(1)] this] show ?case
    using n x(1-3) a(1) x1 by (simp del: sum_abs_simps)
qed

lemma restated_one: "vs v = Some x \<Longrightarrow> restated vs (vs(v := Some (x\<lparr>fState := s\<rparr>)))"
  by (simp add: restated_def no_state_def)

lemma opened_clips:
  assumes "clips base tr \<noteq> []" "\<bar>X\<bar> < 2 ^ 20 \<and> \<bar>Y\<bar> < 2 ^ 20 \<and> \<bar>w\<bar> < 2 ^ 20 \<and> \<bar>h\<bar> < 2 ^ 20"
  shows "fold canvas_step [Save, ResetMatrix, ClipRect (device_rect (int_rect X Y (w + X) (h + Y)))] (clips base tr) =
      (hd (clips base tr) \<inter> pixels X Y (w + X) (h + Y)) # clips base tr"
proof -
  have two: "(2 :: int) ^ 22 = 4 * 2 ^ 20" by simp
  have "device_pixels (device_rect (int_rect X Y (w + X) (h + Y))) = pixels X Y (w + X) (h + Y)"
    using assms(2) two by (intro device_pixels_int) linarith+
  then show "fold canvas_step [Save, ResetMatrix, ClipRect (device_rect (int_rect X Y (w + X) (h + Y)))] (clips base tr) =
      (hd (clips base tr) \<inter> pixels X Y (w + X) (h + Y)) # clips base tr" by simp
qed

lemma drawn_ends:
  "drawn st [Save, ResetMatrix, ClipRect d] = []"
  "drawn st (RestoreToCount m # (if f then [ResetMatrix, DrawRect q] else [])) = []"
  by simp_all

lemma closed_clips:
  assumes "save_documented p base" "clips base tr \<noteq> []"
  shows "fold canvas_step (RestoreToCount (p_save p tr) # (if f then [ResetMatrix, DrawRect q] else [])) (c # clips base tr) = clips base tr"
proof -
  have "p_save p tr = int (length (clips base tr))" using assms(1) unfolding save_documented_def by blast
  moreover have "max 1 (int (length (clips base tr))) = int (length (clips base tr))"
    using assms(2) by (cases "clips base tr") auto
  ultimately show "fold canvas_step (RestoreToCount (p_save p tr) # (if f then [ResetMatrix, DrawRect q] else [])) (c # clips base tr) = clips base tr"
    by simp
qed

lemma draw_view_ok:
  assumes doc: "save_documented p base" and hooks: "hooks_keep_state p"
  shows "draws_tree base p geo kids t"
proof (induction t)
  case (VTree v ts)
  show ?case unfolding draws_tree_def vtree.sel
  proof (intro allI impI)
    fix n ps vs tr C A l u r b X Y
    assume fuel: "2 * length (preorder (VTree v ts)) \<le> n" and rd: "ready geo kids ps vs (VTree v ts)" and sm: "small_rect l u r b"
      and ne: "clips base tr \<noteq> []" and xy: "X = at_x geo (v # ps)" "Y = at_y geo (v # ps)"
      and A: "A = pixels (l + X) (u + Y) (r + X) (b + Y)" and clip: "hd (clips base tr) \<inter> area geo X Y v = A \<inter> C"
    let ?q = "int_rect l u r b"
    obtain k where n: "n = Suc k" using fuel by (cases n) auto
    note ready = rd [unfolded ready_def]
    have w: "whole_view geo vs v" using ready by (simp add: placed_def)
    then obtain x where x: "vs v = Some x" "fBounds x = int_rect 0 0 (g_w geo v) (g_h geo v)" "\<bar>g_w geo v\<bar> < 2 ^ 20" "\<bar>g_h geo v\<bar> < 2 ^ 20"
      by (auto simp: whole_view_def)
    have v0: "v \<noteq> null" and s0: "fState x \<noteq> []" using ready x(1) familyD(1) by (blast, auto simp: stacks_ok_def)
    have pb: "\<bar>X\<bar> < 2 ^ 20" "\<bar>Y\<bar> < 2 ^ 20" using ready placed_path(3,4) [of geo vs ps "VTree v ts"] unfolding xy by simp_all
    let ?bounds = "int_rect X Y (g_w geo v + X) (g_h geo v + Y)"
    have sb: "screen_bounds vs v (Bounds x) = Some (Inr ?bounds)"
      using screen_bounds_int [of geo vs ps "VTree v ts" 0 0 "g_w geo v" "g_h geo v" X Y] ready x(2-4) xy by (simp add: Bounds_def)
    let ?open = "[Save, ResetMatrix, ClipRect (device_rect ?bounds)]"
    have op: "clips base (tr @ ?open) = (A \<inter> C) # clips base tr"
      using opened_clips [OF ne, of X Y "g_w geo v" "g_h geo v"] pb x(3,4) clip by (simp add: clips_append area_def add.commute)
    obtain a s where a: "draw_content p v ?q (tr @ ?open, vs) = Inr ((tr @ ?open) @ a, vs(v := Some (x\<lparr>fState := s\<rparr>)))" "s \<noteq> []"
      "fold canvas_step a ((A \<inter> C) # clips base tr) = (A \<inter> C) # clips base tr"
      "drawn ((A \<inter> C) # clips base tr) a = (if fFlags x AND B_WILL_DRAW \<noteq> 0 then [(v, ?q, A \<inter> C)] else [])"
      using draw_content_ok [where vs = vs and v = v and x = x and p = p and r = ?q and tr = "tr @ ?open"
          and st = "(A \<inter> C) # clips base tr"] x(1) s0 hooks by auto
    define vs1 where "vs1 = vs(v := Some (x\<lparr>fState := s\<rparr>))"
    define tr1 where "tr1 = (tr @ ?open) @ a"
    have re: "restated vs vs1" unfolding vs1_def by (rule restated_one) (rule x(1))
    have rd1: "ready geo kids ps vs1 (VTree v ts)"
      using ready_restated [OF rd re] ready a(2) by (simp add: vs1_def stacks_ok_def)
    have c1: "clips base tr1 = (A \<inter> C) # clips base tr" using op a(3) by (simp add: tr1_def clips_append)
    have seg: "seg vs1 v null (map vt_root ts) null (fFirstChild x)"
      using familyD(3) [of vs kids v x] ready x(1) restated_views(3) [OF re] by simp
    have "paints base C vs1 tr1 (concat (map (branch_visible geo X Y A) ts)) (draw_children k p (fFirstChild x) ?q (tr1, vs1))"
    proof (rule draw_children_ok [OF _ _ rd1 subset_refl v0 sm _ xy A _ seg])
      show "2 * length (concat (map preorder ts)) < k" using fuel n by simp
    qed (use VTree.IH c1 in auto)
    then obtain d vs2 where d: "draw_children k p (fFirstChild x) ?q (tr1, vs1) = Some (Inr (tr1 @ d, vs2))" "clips base (tr1 @ d) = clips base tr1"
      "list_all2 (drawn_as C) (drawn (clips base tr1) d) (filter (wills_draw vs1) (concat (map (branch_visible geo X Y A) ts)))"
      "drew (fst ` set (concat (map (branch_visible geo X Y A) ts))) vs1 vs2" by (auto simp: paints_def)
    let ?us = "fst ` set (concat (map (branch_visible geo X Y A) ts))"
    have re2: "restated vs1 vs2" using d(4) by (simp add: drew_def)
    have v1: "vs1 v = Some (x\<lparr>fState := s\<rparr>)" by (simp add: vs1_def)
    obtain x2 where x2: "vs2 v = Some x2" using restated_at(1) [OF re2 v1] by blast
    have x2s: "fState x2 \<noteq> []" using drew_stacks_ok [OF d(4)] rd1 x2 by (simp add: ready_def stacks_ok_def)
    obtain e s3 where e: "draw_after p v ?q (tr1 @ d, vs2) = Inr ((tr1 @ d) @ e, vs2(v := Some (x2\<lparr>fState := s3\<rparr>)))" "length s3 = 1"
      "fold canvas_step e (clips base tr1) = clips base tr1" "drawn (clips base tr1) e = []"
      using draw_after_ok [where vs = vs2 and v = v and x = x2 and p = p and r = ?q and tr = "tr1 @ d" and st = "clips base tr1"]
        x2 x2s hooks by blast
    define vs3 where "vs3 = vs2(v := Some (x2\<lparr>fState := s3\<rparr>))"
    let ?fin = "RestoreToCount (p_save p tr) # (if p_frames p then [ResetMatrix, DrawRect ?bounds] else [])"
    let ?all = "?open @ a @ d @ e @ ?fin"
    have run: "draw_view n p v ?q (tr, vs) = Some (Inr (tr @ ?all, vs3))"
    proof -
      have 1: "draw_content p v ?q (tr @ ?open, vs) = Inr (tr1, vs1)" using a(1) by (simp add: tr1_def vs1_def)
      show ?thesis unfolding n draw_view.simps Let_def fst_conv snd_conv
        using x(1) sb 1 v1 d(1) e(1) by (simp add: vs3_def [symmetric]) (simp add: tr1_def)
    qed
    have fin: "clips base (tr @ ?all) = clips base tr"
      using closed_clips [OF doc ne, of "p_frames p" ?bounds "A \<inter> C"] ne c1 d(2) e(3)
      by (simp add: tr1_def clips_append)
    have "drawn (clips base tr) ?all = (if fFlags x AND B_WILL_DRAW \<noteq> 0 then [(v, ?q, A \<inter> C)] else []) @ drawn (clips base tr1) d"
    proof -
      have "fold canvas_step d (clips base tr1) = clips base tr1" using d(2) by (simp add: clips_append)
      moreover have "fold canvas_step ?open (clips base tr) = (A \<inter> C) # clips base tr" using op by (simp add: clips_append)
      ultimately show ?thesis
        using a(3,4) e(3,4) c1 drawn_ends by (simp only: drawn_append append_Nil append_Nil2)
    qed
    moreover have "drawn_as C (v, ?q, A \<inter> C) (v, X, Y, A)" using A by auto
    moreover have "wills_draw vs (v, X, Y, A) \<longleftrightarrow> fFlags x AND B_WILL_DRAW \<noteq> 0" using x(1) by (simp add: wills_draw_def)
    moreover have "wills_draw vs1 = wills_draw vs" using re by (rule wills_draw_restated)
    ultimately have dr: "list_all2 (drawn_as C) (drawn (clips base tr) ?all) (filter (wills_draw vs) (visible geo X Y A (VTree v ts)))"
      using d(3) by (simp add: visible_eq)
    have "drew (insert v ?us) vs vs3"
      unfolding drew_def
    proof (intro conjI allI impI ballI)
      have "restated vs2 vs3" unfolding vs3_def by (rule restated_one) (rule x2)
      then show "restated vs vs3" by (rule restated_trans [OF re restated_trans [OF re2]])
      show "vs3 z = vs z" if "z \<notin> insert v ?us" for z using that d(4) by (simp add: vs3_def vs1_def drew_def)
      show "\<exists>x. vs3 z = Some x \<and> length (fState x) = 1" if "z \<in> insert v ?us" for z
        using that d(4) e(2) by (auto simp: vs3_def drew_def)
    qed
    then show "paints base C vs tr (visible geo X Y A (VTree v ts)) (draw_view n p v ?q (tr, vs))"
      using run fin dr unfolding paints_def by (intro exI [of _ ?all] exI [of _ vs3]) (simp add: visible_eq)
  qed
qed

section \<open>The merge\<close>

text \<open>\<open>pending w v m\<close>: the message asks for an update of \<open>v\<close>; \<open>asked w m\<close>: the rectangle it asks for.\<close>

definition pending :: "world \<Rightarrow> ptr \<Rightarrow> ptr \<Rightarrow> bool" where
  "pending w v m \<longleftrightarrow> (\<exists>msg. messages w m = Some msg \<and> what msg = UPDATE \<and> get_handler msg = v)"

definition asks :: "world \<Rightarrow> (ptr \<Rightarrow> rect) \<Rightarrow> ptr \<Rightarrow> ptr \<Rightarrow> bool" where
  "asks w rects v m \<longleftrightarrow> (\<exists>msg. messages w m = Some msg \<and>
     (what msg = UPDATE \<and> get_handler msg = v \<longrightarrow>
      FindRect msg (Some (c_str update_name)) 0 = Inr (B_OK, rects m) \<and> Rect_IsValid (rects m)))"

definition is_update :: "world \<Rightarrow> ptr \<Rightarrow> bool" where
  "is_update w m \<longleftrightarrow> (\<exists>msg. messages w m = Some msg \<and> what msg = UPDATE)"

definition without :: "world \<Rightarrow> ptr \<Rightarrow> looper \<Rightarrow> queue \<Rightarrow> queue \<Rightarrow> world" where
  "without w lp l q del = w\<lparr>loopers := (loopers w)(lp := Some (l\<lparr>fQueue := q\<rparr>)),
     messages := (\<lambda>m. if m \<in> set del then None else messages w m), trace := trace w @ map Deleted del\<rparr>"

lemma without_without: "without (without w lp l q del) lp (l\<lparr>fQueue := q1\<rparr>) q' del' = without w lp l q' (del @ del')"
  by (auto simp: without_def fun_eq_iff)

lemma find_what_skip:
  assumes "\<forall>m\<in>set (pre @ suf). messages w m \<noteq> None" "0 \<le> i"
  shows "find_what (messages w) (pre @ suf) UPDATE (int (length (filter (is_update w) pre)) + i) = find_what (messages w) suf UPDATE i"
  using assms by (induction pre) (auto simp: is_update_def split: option.splits)

lemma find_what_none: "\<forall>m\<in>set suf. messages w m \<noteq> None \<and> \<not> is_update w m \<Longrightarrow> find_what (messages w) suf UPDATE i = Inr null"
  by (induction suf) (auto simp: is_update_def split: option.splits)

lemma find_what_first:
  "\<forall>m\<in>set a. messages w m \<noteq> None \<and> \<not> is_update w m \<Longrightarrow> is_update w m \<Longrightarrow> find_what (messages w) (a @ m # b) UPDATE 0 = Inr m"
  by (induction a) (auto simp: is_update_def split: option.splits)

lemma merge_updates_ok:
  assumes "map_option fLooper (handlers w v) = Some lp" "loopers w lp = Some l" "fQueue l = pre @ suf" "null \<notin> set (pre @ suf)"
    "distinct (pre @ suf)" "\<forall>m\<in>set (pre @ suf). asks w rects v m" "\<forall>m\<in>set pre. \<not> pending w v m" "length (pre @ suf) < 2 ^ 31"
    "index = int (length (filter (is_update w) pre))"
  shows "merge_updates fatal v index R w = Some (Inr (foldl Rect_or R (map rects (filter (pending w v) suf)),
    without w lp l (pre @ filter (\<lambda>m. \<not> pending w v m) suf) (filter (pending w v) suf)))"
  using assms
proof (induction "length suf" arbitrary: pre suf index R w l rule: less_induct)
  case less
  obtain h where h: "handlers w v = Some h" "fLooper h = lp" using less.prems(1) by auto
  have alive: "\<forall>m\<in>set (pre @ suf). messages w m \<noteq> None" using less.prems(6) by (auto simp: asks_def)
  have find: "Queue_FindMessage_what (messages w) (fQueue l) UPDATE index = find_what (messages w) suf UPDATE 0"
    using find_what_skip [OF alive, of 0] less.prems(3,9) by (cases "pre @ suf") (auto simp: Queue_FindMessage_what_def Queue_IsEmpty_def)
  show ?case
  proof (cases "\<exists>m\<in>set suf. is_update w m")
    case False
    then have "find_what (messages w) suf UPDATE 0 = Inr null" using alive by (intro find_what_none) auto
    moreover have "\<not> pending w v m" if "m \<in> set suf" for m using False that by (auto simp: is_update_def pending_def)
    then have "filter (pending w v) suf = []" "filter (\<lambda>m. \<not> pending w v m) suf = suf" by (auto simp: filter_empty_conv)
    ultimately show ?thesis using h less.prems(2,3) find
      by (simp add: merge_updates.simps [of fatal v index] Handler_Looper_def without_def fun_upd_idem)
  next
    case True
    then obtain a m b where suf: "suf = a @ m # b" "is_update w m" "\<forall>x\<in>set a. \<not> is_update w x"
      using split_list_first_prop [of suf "is_update w"] by blast
    have fm: "find_what (messages w) suf UPDATE 0 = Inr m" unfolding suf(1) using alive suf by (intro find_what_first) auto
    have m0: "m \<noteq> null" using less.prems(4) suf(1) by auto
    obtain msg where msg: "messages w m = Some msg" "what msg = UPDATE" using suf(2) by (auto simp: is_update_def)
    have a_np: "\<not> pending w v x" if "x \<in> set a" for x using suf(3) that by (auto simp: is_update_def pending_def)
    then have fa: "filter (pending w v) a = []" "filter (\<lambda>m. \<not> pending w v m) a = a" by (auto simp: filter_empty_conv)
    have ua: "filter (is_update w) a = []" using suf(3) by (simp add: filter_empty_conv)
    show ?thesis
    proof (cases "get_handler msg = v")
      case False
      have np: "\<not> pending w v m" using False msg by (simp add: pending_def)
      have len: "int (length (filter (is_update w) pre)) + 1 < 2 ^ 31"
      proof -
        have le: "length (filter (is_update w) pre) \<le> length pre" by simp
        have "length pre + Suc (length a + length b) < 2 ^ 31" using less.prems(8) suf(1) by simp
        then have "Suc (length (filter (is_update w) pre)) < 2 ^ 31" using le by linarith
        then show ?thesis by simp
      qed
      have "merge_updates fatal v index R w = merge_updates fatal v (int32 (index + 1)) R w"
        using h less.prems(2) find fm m0 msg False by (simp add: merge_updates.simps [of fatal v index] Handler_Looper_def)
      also have "\<dots> = Some (Inr (foldl Rect_or R (map rects (filter (pending w v) b)),
          without w lp l ((pre @ a @ [m]) @ filter (\<lambda>m. \<not> pending w v m) b) (filter (pending w v) b)))"
      proof (rule less.hyps)
        show "int32 (index + 1) = int (length (filter (is_update w) (pre @ a @ [m])))"
          using len ua suf(2) less.prems(9) int32_id [of "index + 1"] by simp
      qed (use less.prems suf a_np np in auto)
      finally show ?thesis using np suf(1) fa by simp
    next
      case True
      have pd: "pending w v m" using True msg by (simp add: pending_def)
      have r: "FindRect msg (Some (c_str update_name)) 0 = Inr (B_OK, rects m)" "Rect_IsValid (rects m)"
        using less.prems(6) suf(1) msg True by (auto simp: asks_def)
      have dist: "m \<notin> set pre" "m \<notin> set a" "m \<notin> set b" using less.prems(5) suf(1) by auto
      then have "filter (\<lambda>x. x \<noteq> m) pre = pre" "filter (\<lambda>x. x \<noteq> m) a = a" "filter (\<lambda>x. x \<noteq> m) b = b"
        by (auto simp: filter_id_conv)
      then have q: "Queue_RemoveMessage (fQueue l) m = (pre @ a) @ b"
        using m0 less.prems(3) suf(1) by (simp add: Queue_RemoveMessage_def)
      let ?l = "l\<lparr>fQueue := (pre @ a) @ b\<rparr>"
      let ?w = "without w lp l ((pre @ a) @ b) [m]"
      have w: "delete_message m (put_looper lp ?l w) = Inr ?w"
        using m0 msg by (auto simp: delete_message_def put_looper_def emit_def without_def fun_eq_iff)
      have same: "messages ?w x = messages w x" if "x \<noteq> m" for x using that by (simp add: without_def)
      then have same2: "pending ?w v x = pending w v x" "is_update ?w x = is_update w x" "asks ?w rects v x = asks w rects v x" if "x \<noteq> m" for x
        using that by (simp_all add: pending_def is_update_def asks_def)
      have diff: "x \<in> set b \<Longrightarrow> x \<noteq> m" "x \<in> set a \<Longrightarrow> x \<noteq> m" "x \<in> set pre \<Longrightarrow> x \<noteq> m" for x using dist by auto
      have fil: "filter (pending ?w v) b = filter (pending w v) b" "filter (\<lambda>m. \<not> pending ?w v m) b = filter (\<lambda>m. \<not> pending w v m) b"
        "filter (is_update ?w) (pre @ a) = filter (is_update w) (pre @ a)"
        using diff same2 by (simp_all cong: filter_cong)
      have "merge_updates fatal v index R w = merge_updates fatal v index (Rect_or R (rects m)) ?w"
        using h less.prems(2) find fm m0 msg True r q w by (simp add: merge_updates.simps [of fatal v index R w] Handler_Looper_def)
      also have "\<dots> = Some (Inr (foldl Rect_or (Rect_or R (rects m)) (map rects (filter (pending ?w v) b)),
          without ?w lp ?l ((pre @ a) @ filter (\<lambda>m. \<not> pending ?w v m) b) (filter (pending ?w v) b)))"
      proof (rule less.hyps)
        show "index = int (length (filter (is_update ?w) (pre @ a)))" using less.prems(9) fil(3) ua by simp
        show "\<forall>m\<in>set ((pre @ a) @ b). asks ?w rects v m" 
          using less.prems(6) suf(1) same2(3) [OF diff(1)] same2(3) [OF diff(2)] same2(3) [OF diff(3)] by auto
        show "\<forall>m\<in>set (pre @ a). \<not> pending ?w v m" 
          using less.prems(7) a_np same2(1) [OF diff(2)] same2(1) [OF diff(3)] by auto
      qed (use less.prems suf in \<open>auto simp: without_def\<close>)
      finally show ?thesis unfolding fil(1,2) without_without using pd suf(1) fa by simp
    qed
  qed
qed

section \<open>Properties\<close>

text \<open>\<open>_UPDATE_\<close>: the update messages of the view that wait in the queue are taken out of it and deleted, every
  other message stays in its place, and the rectangle becomes the smallest that contains its own and those of
  the messages. The loop ends.\<close>

lemma pending_updates_merged:
  assumes "map_option fLooper (handlers w v) = Some lp" "loopers w lp = Some l" "null \<notin> set (fQueue l)" "distinct (fQueue l)"
    "\<forall>m\<in>set (fQueue l). asks w rects v m" "length (fQueue l) < 2 ^ 31"
  shows "\<exists>w' l'. merge_updates fatal v 0 R w = Some (Inr (foldl Rect_or R (map rects (filter (pending w v) (fQueue l))), w')) \<and>
    loopers w' lp = Some l' \<and> fQueue l' = filter (\<lambda>m. \<not> pending w v m) (fQueue l) \<and> handlers w' = handlers w \<and>
    messages w' = (\<lambda>m. if m \<in> set (fQueue l) \<and> pending w v m then None else messages w m) \<and>
    trace w' = trace w @ map Deleted (filter (pending w v) (fQueue l))"
  using merge_updates_ok [where pre = "[]" and suf = "fQueue l" and index = 0, OF assms(1,2) _ _ _ _ _ _, of rects fatal R] assms(3-6)
  by (auto simp: without_def fun_eq_iff)

text \<open>
  A looper 9 with two updates of the view 1 around a message for another handler. The view and its children 2 and 3,
  of which 3 lies outside the update.
\<close>

definition update_message :: "ptr \<Rightarrow> rect \<Rightarrow> message" where
  "update_message h r = \<lparr>what = UPDATE, m_nodes = Some [\<lparr>name = update_name, type = B_RECT_TYPE, data = [rect_bytes r]\<rparr>], handler = h, reply_to = null\<rparr>"

lemma FindRect_update_message:
  assumes "float_rect r"
  shows "FindRect (update_message h r) (Some (c_str update_name)) 0 = Inr (B_OK, r)"
proof (rule FindRect_field)
  show "message_ok (update_message h r)" "name_ok update_name"
    by (simp_all add: update_message_def update_name_def message_ok_def name_ok_def nodes_def B_FIELD_NAME_LENGTH_def)
  show "Message.fields (nodes (update_message h r)) update_name = Some (B_RECT_TYPE, [rect_bytes r])"
    by (simp add: update_message_def nodes_def Message.fields_def)
qed (rule assms)

lemma float_int_rect: "exact l \<Longrightarrow> exact t \<Longrightarrow> exact r \<Longrightarrow> exact b \<Longrightarrow> float_rect (int_rect l t r b)"
  using round32_int by (simp add: float_rect_def int_rect_def Rect_of_def is_float_def)

definition update_world :: world where
  "update_world = \<lparr>handlers = [9 \<mapsto> sample_handler 9, 1 \<mapsto> sample_handler 9, 2 \<mapsto> sample_handler 9, 3 \<mapsto> sample_handler 9],
     loopers = [9 \<mapsto> (sample_looper True)\<lparr>fQueue := [21, 22, 23], fHandlers := [9, 1, 2, 3]\<rparr>],
     messages = [21 \<mapsto> update_message 1 (int_rect 0 0 4 4), 22 \<mapsto> update_message 2 (int_rect 1 1 2 2), 23 \<mapsto> update_message 1 (int_rect 8 2 9 3)],
     g_Loopers = (\<lambda>_. null), trace = []\<rparr>"

definition update_rects :: "ptr \<Rightarrow> rect" where
  "update_rects = (\<lambda>_. int_rect 1 1 2 2)(21 := int_rect 0 0 4 4, 23 := int_rect 8 2 9 3)"

lemma update_world_asks: "\<forall>m\<in>{21, 22, 23}. asks update_world update_rects 1 m"
proof -
  have e: "exact n" if "n \<in> {0, 1, 2, 3, 4, 8, 9}" for n using that by (auto simp: exact_def)
  have "Rect_IsValid (int_rect 0 0 4 4)" "Rect_IsValid (int_rect 1 1 2 2)" "Rect_IsValid (int_rect 8 2 9 3)"
    by (simp_all add: Rect_IsValid_def int_rect_def Rect_of_def e)
  then show ?thesis by (simp add: asks_def update_world_def update_rects_def FindRect_update_message float_int_rect e)
qed

lemma update_world_pending: "pending update_world 1 21" "\<not> pending update_world 1 22" "pending update_world 1 23" "trace update_world = []"
  by (simp_all add: pending_def update_world_def update_message_def get_handler_def)

text \<open>C22. \<open>_UPDATE_\<close>: the view and the views below it that draw are drawn, parents before their children, each view at most once. The updated view
  gets the whole update, a view below it the part of the update that lies within its own bounds and within those of the views between it and the updated view;
  views below without a part and what is below them are left out. The views above the updated view do not count. During \<open>Draw\<close>
  the clip of the canvas is this part, cut to the bounds of the updated view. Afterwards the canvas has its original clip and height, and every view that was
  reached has a single drawing state, whatever its hooks pushed.\<close>

theorem update_draws_visible_views:
  assumes "FindRect msg (Some (c_str update_name)) 0 = Inr (B_OK, R)" "Rect_IsValid R"
    "map_option fLooper (handlers (world g) v) = Some lp" "loopers (world g) lp = Some lo" "null \<notin> set (fQueue lo)" "distinct (fQueue lo)"
    "\<forall>m\<in>set (fQueue lo). asks (world g) rects v m" "length (fQueue lo) < 2 ^ 31"
    "foldl Rect_or R (map rects (filter (pending (world g) v) (fQueue lo))) = int_rect l u r b" "small_rect l u r b"
    "views g v = Some x" "windows g (fWindow x) = Some win" "ready geo kids ps (views g) t" "vt_root t = v"
    "save_documented p UNIV" "hooks_keep_state p" "2 * length (preorder t) \<le> n"
    "X = at_x geo (v # ps)" "Y = at_y geo (v # ps)" "A = pixels (l + X) (u + Y) (r + X) (b + Y)"
  shows "\<exists>calls damaged g'. View_update n env p True v msg g = Some (Inr (calls, Some damaged, g')) \<and> device_pixels damaged = A \<and>
    list_all2 (drawn_as (area geo X Y v)) (drawn [UNIV] calls) (filter (wills_draw (views g)) (visible geo X Y A t)) \<and>
    clips UNIV calls = [UNIV] \<and> drew (fst ` set (visible geo X Y A t)) (views g) (views g')"
proof -
  let ?q = "int_rect l u r b" and ?d = "device_rect (int_rect (l + X) (u + Y) (r + X) (b + Y))"
  let ?pre = "[RestoreToCount 0, Save, ClipRect ?d]"
  obtain w' where m: "merge_updates (e_fatal env) v 0 R (world g) = Some (Inr (?q, w'))"
    using merge_updates_ok [where pre = "[]" and suf = "fQueue lo" and index = 0, OF assms(3,4) _ _ _ _ _ _, of rects "e_fatal env" R]
      assms(5-9) by auto
  have pl: "placed geo (views g) ps t" using assms(13) by (simp add: ready_def)
  have sb: "screen_bounds (views g) v ?q = Some (Inr (int_rect (l + X) (u + Y) (r + X) (b + Y)))"
    using screen_bounds_int [OF pl, of l u r b X Y] assms(10,14,18,19) by (simp add: small_rect_def)
  have bd: "\<bar>l\<bar> < 2 ^ 20" "\<bar>u\<bar> < 2 ^ 20" "\<bar>r\<bar> < 2 ^ 20" "\<bar>b\<bar> < 2 ^ 20" "\<bar>X\<bar> < 2 ^ 20" "\<bar>Y\<bar> < 2 ^ 20" "(2 :: int) ^ 22 = 4 * 2 ^ 20"
    using assms(10,14,18,19) placed_path(3,4) [OF pl] by (auto simp: small_rect_def)
  have d: "device_pixels ?d = A" unfolding assms(20) using bd by (intro device_pixels_int) linarith+
  have c: "clips UNIV ?pre = [A, UNIV]" using d by (simp add: clips_def)
  have "paints UNIV (area geo X Y v) (views g) ?pre (visible geo X Y A t) (draw_view n p (vt_root t) ?q (?pre, views g))"
    using draw_view_ok [OF assms(15,16), of geo kids t] c assms(10,13,14,17-20)
    unfolding draws_tree_def by (elim allE [of _ n] allE [of _ ps]) auto
  then obtain a vs' where a: "draw_view n p v ?q (?pre, views g) = Some (Inr (?pre @ a, vs'))" "clips UNIV (?pre @ a) = [A, UNIV]"
    "list_all2 (drawn_as (area geo X Y v)) (drawn [A, UNIV] a) (filter (wills_draw (views g)) (visible geo X Y A t))"
    "drew (fst ` set (visible geo X Y A t)) (views g) vs'" using assms(14) c by (auto simp: paints_def)
  let ?calls = "(?pre @ a) @ [RestoreToCount 0]" and ?g = "g\<lparr>world := w', views := vs'\<rparr>"
  have "View_update n env p True v msg g = Some (Inr (?calls, Some ?d, ?g))"
    using assms(1,2,11,12) m sb a(1) by (simp add: View_update_def Let_def)
  moreover have "drawn [UNIV] ?calls = drawn [A, UNIV] a"
    using d by (simp add: drawn_append)
  moreover have "clips UNIV ?calls = [UNIV]" using a(2) by (simp only: clips_append [of _ "?pre @ a"]) simp
  ultimately show ?thesis using d a(3,4) by (intro exI [of _ ?calls] exI [of _ ?d] exI [of _ ?g]) simp
qed

definition update_views :: views where
  "update_views = [1 \<mapsto> plain_view\<lparr>fWindow := 9, fFirstChild := 2, fFlags := B_WILL_DRAW, fBounds := int_rect 0 0 99 99,
       fParentOffset := int_point 0 0, fState := new_stack\<rparr>,
     2 \<mapsto> plain_view\<lparr>fWindow := 9, fParent := 1, fNextSibling := 3, fFlags := B_WILL_DRAW, fBounds := int_rect 0 0 9 9,
       fParentOffset := int_point 5 2, fState := new_stack\<rparr>,
     3 \<mapsto> plain_view\<lparr>fWindow := 9, fParent := 1, fPrevSibling := 2, fFlags := B_WILL_DRAW, fBounds := int_rect 0 0 9 9,
       fParentOffset := int_point 50 50, fState := new_stack\<rparr>]"

definition update_geometry :: geometry where
  "update_geometry = \<lparr>g_x = (\<lambda>_. 0)(2 := 5, 3 := 50), g_y = (\<lambda>_. 0)(2 := 2, 3 := 50), g_w = (\<lambda>_. 9)(1 := 99), g_h = (\<lambda>_. 9)(1 := 99)\<rparr>"

definition update_gui :: gui where
  "update_gui = \<lparr>world = update_world, views = update_views,
     windows = [9 \<mapsto> \<lparr>fShowLevel = 0, fFocus = 0, fLastMouseMovedView = 0, fPulseRate = 0, fPulsedTime = 0, fViewsEvents = 0, top_view = 1\<rparr>],
     hooks = []\<rparr>"

definition update_painter :: painter where
  "update_painter = \<lparr>p_save = (\<lambda>tr. int (length (clips UNIV tr))), p_draw = (\<lambda>_ _ st. push_state 0 st), p_draw_after = (\<lambda>_ _ st. st), p_frames = True\<rparr>"

lemma update_ready: "ready update_geometry ((\<lambda>_. [])(1 := [2, 3])) [] update_views (VTree 1 [VTree 2 [], VTree 3 []])"
proof -
  have "family update_views ((\<lambda>_. [])(1 := [2, 3]))"
    by (rule familyI) (auto simp: update_views_def plain_view_def split: if_splits)
  moreover have "placed update_geometry update_views [] (VTree 1 [VTree 2 [], VTree 3 []])"
    by (auto simp: placed_def update_views_def update_geometry_def plain_view_def whole_view_def)
  moreover have "stacks_ok update_views"
    by (auto simp: stacks_ok_def update_views_def new_stack_def split: if_splits)
  ultimately show ?thesis by (auto simp: ready_def update_views_def)
qed

lemma update_draws_visible_views_witness:
  "\<exists>calls damaged g'. View_update 6 sample_env update_painter True 1 (update_message 1 (int_rect 3 3 5 5)) update_gui = Some (Inr (calls, Some damaged, g')) \<and>
    device_pixels damaged = pixels 0 0 9 5 \<and>
    drawn [UNIV] calls = [(1, int_rect 0 0 9 5, pixels 0 0 9 5), (2, int_rect 0 0 4 3, pixels 5 2 9 5)] \<and> clips UNIV calls = [UNIV]"
proof -
  let ?l = "(sample_looper True)\<lparr>fQueue := [21, 22, 23], fHandlers := [9, 1, 2, 3]\<rparr>"
  let ?t = "VTree 1 [VTree 2 [], VTree 3 []]"
  have e: "exact n" if "n \<in> {0, 1, 2, 3, 4, 5, 8, 9}" for n using that by (auto simp: exact_def)
  have m: "FindRect (update_message 1 (int_rect 3 3 5 5)) (Some (c_str update_name)) 0 = Inr (B_OK, int_rect 3 3 5 5)"
    "Rect_IsValid (int_rect 3 3 5 5)"
    by (simp add: FindRect_update_message float_int_rect e) (simp add: Rect_IsValid_def int_rect_def Rect_of_def e)
  have h: "map_option fLooper (handlers (world update_gui) 1) = Some 9" "loopers (world update_gui) 9 = Some ?l" "null \<notin> set (fQueue ?l)"
    "distinct (fQueue ?l)" "\<forall>m\<in>set (fQueue ?l). asks (world update_gui) update_rects 1 m" "length (fQueue ?l) < 2 ^ 31"
    using update_world_asks by (simp_all add: update_gui_def) (simp_all add: update_world_def sample_handler_def)
  have f: "foldl Rect_or (int_rect 3 3 5 5) (map update_rects (filter (pending (world update_gui) 1) (fQueue ?l))) = int_rect 0 0 9 5"
    by (simp add: update_gui_def update_world_pending update_rects_def del: One_nat_def)
      (simp add: Rect_or_def int_rect_def Rect_of_def e fmin_def fmax_def)
  have v: "small_rect 0 0 9 5" "views update_gui 1 = Some (the (update_views 1))"
    "windows update_gui (fWindow (the (update_views 1))) = Some (the (windows update_gui 9))" "vt_root ?t = 1"
    "ready update_geometry ((\<lambda>_. [])(1 := [2, 3])) [] (views update_gui) ?t" "save_documented update_painter UNIV" "hooks_keep_state update_painter"
    "2 * length (preorder ?t) \<le> 6" "0 = at_x update_geometry [1]" "0 = at_y update_geometry [1]"
    "pixels 0 0 9 5 = pixels (0 + 0) (0 + 0) (9 + 0) (5 + 0)"
    using update_ready by (simp_all add: small_rect_def update_gui_def update_views_def save_documented_def update_painter_def
      hooks_keep_state_def push_state_def at_x_def at_y_def update_geometry_def)
  obtain calls damaged g' where r: "View_update 6 sample_env update_painter True 1 (update_message 1 (int_rect 3 3 5 5)) update_gui = Some (Inr (calls, Some damaged, g'))"
    "device_pixels damaged = pixels 0 0 9 5" "clips UNIV calls = [UNIV]"
    "list_all2 (drawn_as (area update_geometry 0 0 1)) (drawn [UNIV] calls)
       (filter (wills_draw (views update_gui)) (visible update_geometry 0 0 (pixels 0 0 9 5) ?t))"
    using update_draws_visible_views [OF m h f v(1-3,5,4,6-11), of sample_env] by auto
  have "wills_draw (views update_gui) (1, e)" "wills_draw (views update_gui) (2, e)" for e
    by (simp_all add: wills_draw_def update_gui_def update_views_def B_WILL_DRAW_def)
  moreover have "visible update_geometry 0 0 (pixels 0 0 9 5) ?t = [(1, 0, 0, pixels 0 0 9 5), (2, 5, 2, pixels 5 2 9 5)]"
    by (simp add: visible.simps update_geometry_def pixels_Int pixels_empty)
  ultimately have fil: "filter (wills_draw (views update_gui)) (visible update_geometry 0 0 (pixels 0 0 9 5) ?t) =
      [(1, 0, 0, pixels 0 0 9 5), (2, 5, 2, pixels 5 2 9 5)]" by simp
  obtain x1 x2 where x: "drawn [UNIV] calls = [x1, x2]" "drawn_as (area update_geometry 0 0 1) x1 (1, 0, 0, pixels 0 0 9 5)"
    "drawn_as (area update_geometry 0 0 1) x2 (2, 5, 2, pixels 5 2 9 5)"
    using r(4) unfolding fil by (auto simp: list_all2_Cons2 simp del: drawn_as.simps)
  obtain u1 q1 c1 u2 q2 c2 where u: "x1 = (u1, q1, c1)" "x2 = (u2, q2, c2)" by (cases x1; cases x2)
  have p: "pixels l t r b = pixels l' t' r' b' \<Longrightarrow> l' \<le> r' \<Longrightarrow> t' \<le> b' \<Longrightarrow> l = l' \<and> t = t' \<and> r = r' \<and> b = b'" for l t r b l' t' r' b'
    by (auto simp: pixels_def times_eq_iff)
  have "pixels 0 0 9 5 \<inter> area update_geometry 0 0 1 = pixels 0 0 9 5" "pixels 5 2 9 5 \<inter> area update_geometry 0 0 1 = pixels 5 2 9 5"
    by (simp_all add: area_def update_geometry_def pixels_Int)
  then have "q1 = int_rect 0 0 9 5" "c1 = pixels 0 0 9 5" "q2 = int_rect 0 0 4 3" "c2 = pixels 5 2 9 5"
    using x(2,3) u by (auto dest!: p [OF sym])
  moreover have "u1 = 1" "u2 = 2" using x(2,3) u by auto
  ultimately show ?thesis using r x(1) u by auto
qed

end
