(* ===== verification/Shortcut.thy ===== *)
theory Shortcut
  imports WindowTree
begin

text \<open>
  The keyboard shortcuts of a window: \<open>BWindow::Shortcut\<close> and \<open>AddShortcut\<close>, \<open>RemoveShortcut\<close> and \<open>_FindShortcut\<close> of
  \<open>kits/interface/Window.cpp\<close>. The window keeps a \<open>BList\<close> of the addresses of its shortcuts; these live in a
  store. A key is a byte, modifiers are the bits of a 32-bit word.
\<close>

section \<open>\<open>BWindow::Shortcut\<close>\<close>

definition B_SHIFT_KEY :: "32 word" where "B_SHIFT_KEY = 0x00000001"
definition B_COMMAND_KEY :: "32 word" where "B_COMMAND_KEY = 0x00000002"
definition B_CONTROL_KEY :: "32 word" where "B_CONTROL_KEY = 0x00000004"
definition B_OPTION_KEY :: "32 word" where "B_OPTION_KEY = 0x00000040"
definition B_MENU_KEY :: "32 word" where "B_MENU_KEY = 0x00000080"

lemmas key_bits = B_SHIFT_KEY_def B_COMMAND_KEY_def B_CONTROL_KEY_def B_OPTION_KEY_def B_MENU_KEY_def

record shortcut =
  sc_key :: byte
  sc_modifiers :: "32 word"
  sc_item :: ptr
  sc_message :: "message option"
  sc_target :: ptr

definition AllowedModifiers :: "32 word" where
  "AllowedModifiers = B_COMMAND_KEY OR B_OPTION_KEY OR B_SHIFT_KEY OR B_CONTROL_KEY OR B_MENU_KEY"

definition PrepareModifiers :: "32 word \<Rightarrow> 32 word" where
  "PrepareModifiers modifiers = (modifiers AND AllowedModifiers) OR B_COMMAND_KEY"

text \<open>\<open>tolower\<close> of the C locale; its result is an \<open>int\<close>, sign extended from the character.\<close>

definition tolower :: "byte \<Rightarrow> byte" where
  "tolower c = (if 0x41 \<le> c \<and> c \<le> 0x5A then c + 0x20 else c)"

definition PrepareKey :: "byte \<Rightarrow> 32 word" where "PrepareKey key = scast (tolower key)"

definition Shortcut_item :: "byte \<Rightarrow> 32 word \<Rightarrow> ptr \<Rightarrow> shortcut" where
  "Shortcut_item key modifiers item =
     \<lparr>sc_key = ucast (PrepareKey key), sc_modifiers = PrepareModifiers modifiers, sc_item = item, sc_message = None, sc_target = null\<rparr>"

definition Shortcut_message :: "byte \<Rightarrow> 32 word \<Rightarrow> message option \<Rightarrow> ptr \<Rightarrow> shortcut" where
  "Shortcut_message key modifiers message target =
     \<lparr>sc_key = ucast (PrepareKey key), sc_modifiers = PrepareModifiers modifiers, sc_item = null, sc_message = message, sc_target = target\<rparr>"

definition Matches :: "shortcut \<Rightarrow> byte \<Rightarrow> 32 word \<Rightarrow> bool" where
  "Matches this key modifiers \<longleftrightarrow> sc_key this = key \<and> sc_modifiers this = modifiers"

section \<open>The shortcuts of a window\<close>

record shortcut_table =
  fShortcuts :: "ptr list"
  shortcut_at :: "ptr \<Rightarrow> shortcut option"
  fNoQuitShortcut :: bool

text \<open>The loop of \<open>_FindShortcut\<close> over the indices that are left.\<close>

fun find_shortcut :: "shortcut_table \<Rightarrow> byte \<Rightarrow> 32 word \<Rightarrow> int list \<Rightarrow> ptr outcome" where
  "find_shortcut this key modifiers [] = Inr null"
| "find_shortcut this key modifiers (index # is) =
     (let p = ItemAt (fShortcuts this) index
      in bindR (alive (shortcut_at this p)) (\<lambda>s.
         if Matches s key modifiers then Inr p else find_shortcut this key modifiers is))"

definition FindShortcut :: "shortcut_table \<Rightarrow> 32 word \<Rightarrow> 32 word \<Rightarrow> ptr outcome" where
  "FindShortcut this key modifiers =
     (let n = CountItems (fShortcuts this);
          key = PrepareKey (ucast key);
          modifiers = PrepareModifiers modifiers
      in find_shortcut this (ucast key) modifiers (map int [0..<nat n]))"

definition RemoveShortcut :: "shortcut_table \<Rightarrow> 32 word \<Rightarrow> 32 word \<Rightarrow> shortcut_table outcome" where
  "RemoveShortcut this key modifiers =
     bindR (FindShortcut this key modifiers) (\<lambda>p.
     if p \<noteq> null then
       Inr (this\<lparr>fShortcuts := snd (RemoveItem (fShortcuts this) p), shortcut_at := (shortcut_at this)(p := None)\<rparr>)
     else if (key = 0x71 \<or> key = 0x51) \<and> modifiers = B_COMMAND_KEY then Inr (this\<lparr>fNoQuitShortcut := True\<rparr>)
     else Inr this)"

text \<open>\<open>p\<close>: the address that the allocation gives to the new shortcut, null if there is no memory.\<close>

definition add_shortcut :: "shortcut_table \<Rightarrow> ptr \<Rightarrow> shortcut \<Rightarrow> 32 word \<Rightarrow> 32 word \<Rightarrow> shortcut_table outcome" where
  "add_shortcut this p s key modifiers =
     (if p = null then Inr this
      else bindR (RemoveShortcut (this\<lparr>shortcut_at := (shortcut_at this)(p := Some s)\<rparr>) key modifiers) (\<lambda>this.
           Inr (this\<lparr>fShortcuts := snd (AddItem (fShortcuts this) p)\<rparr>)))"

definition AddShortcut_item :: "shortcut_table \<Rightarrow> ptr \<Rightarrow> 32 word \<Rightarrow> 32 word \<Rightarrow> ptr \<Rightarrow> shortcut_table outcome" where
  "AddShortcut_item this p key modifiers item = add_shortcut this p (Shortcut_item (ucast key) modifiers item) key modifiers"

definition AddShortcut :: "shortcut_table \<Rightarrow> ptr \<Rightarrow> 32 word \<Rightarrow> 32 word \<Rightarrow> message option \<Rightarrow> ptr \<Rightarrow> shortcut_table outcome" where
  "AddShortcut this p key modifiers message target =
     (if message = None then Inr this
      else add_shortcut this p (Shortcut_message (ucast key) modifiers message target) key modifiers)"

text \<open>The destructor deletes every shortcut.\<close>

fun delete_shortcuts :: "shortcut_table \<Rightarrow> int list \<Rightarrow> shortcut_table outcome" where
  "delete_shortcuts this [] = Inr this"
| "delete_shortcuts this (i # is) =
     (let p = ItemAt (fShortcuts this) i
      in if p = null then delete_shortcuts this is
         else bindR (alive (shortcut_at this p)) (\<lambda>_.
              delete_shortcuts (this\<lparr>shortcut_at := (shortcut_at this)(p := None)\<rparr>) is))"

definition Shortcuts_delete :: "shortcut_table \<Rightarrow> shortcut_table outcome" where
  "Shortcuts_delete this = delete_shortcuts this (map int [0..<nat (CountItems (fShortcuts this))])"

text \<open>
  What the constructor of the window sets up: a list of addresses, keys (capital letters), modifiers, messages and
  targets. \<open>new\<close> gives the addresses of the allocations.
\<close>

definition default_keys :: "bool \<Rightarrow> ptr \<Rightarrow> (32 word \<times> 32 word \<times> 32 word \<times> ptr) list" where
  "default_keys closable win =
     (if closable then [(0x57, B_COMMAND_KEY, B_QUIT_REQUESTED, win)] else []) @
     [(0x58, B_COMMAND_KEY, 0x43435554, null), (0x43, B_COMMAND_KEY, 0x434F5059, null),
      (0x56, B_COMMAND_KEY, 0x50535445, null), (0x41, B_COMMAND_KEY, 0x53414C4C, null),
      (0x4D, B_COMMAND_KEY OR B_CONTROL_KEY, 0x5F574D5A, null), (0x5A, B_COMMAND_KEY OR B_CONTROL_KEY, 0x5F575A4F, null),
      (0x5A, B_SHIFT_KEY OR B_COMMAND_KEY OR B_CONTROL_KEY, 0x5F575A4F, null),
      (0x48, B_COMMAND_KEY OR B_CONTROL_KEY, 0x5F414844, null), (0x46, B_COMMAND_KEY OR B_CONTROL_KEY, 0x5F575346, null),
      (0x42, B_COMMAND_KEY OR B_CONTROL_KEY, 0x5F575342, null)]"

fun add_keys :: "(nat \<Rightarrow> ptr) \<Rightarrow> nat \<Rightarrow> (32 word \<times> 32 word \<times> 32 word \<times> ptr) list \<Rightarrow> shortcut_table \<Rightarrow> shortcut_table outcome" where
  "add_keys new i [] this = Inr this"
| "add_keys new i ((k, m, code, target) # ks) this =
     bindR (AddShortcut this (new i) k m (Some (Message_new code)) target) (add_keys new (Suc i) ks)"

definition Window_shortcuts :: "(nat \<Rightarrow> ptr) \<Rightarrow> bool \<Rightarrow> bool \<Rightarrow> ptr \<Rightarrow> shortcut_table outcome" where
  "Window_shortcuts new not_closable modal win =
     add_keys new 0 (default_keys (\<not> not_closable \<and> \<not> modal) win) \<lparr>fShortcuts = [], shortcut_at = \<lambda>_. None, fNoQuitShortcut = modal\<rparr>"

section \<open>Invoking a shortcut\<close>

definition when_key :: "byte list" where "when_key = [0x77, 0x68, 0x65, 0x6E]"   \<comment> \<open>\<open>when\<close>\<close>
definition shortcut_key :: "byte list" where   \<comment> \<open>\<open>shortcut\<close>\<close>
  "shortcut_key = [0x73, 0x68, 0x6F, 0x72, 0x74, 0x63, 0x75, 0x74]"

text \<open>\<open>Replace\<close> of a value, and \<open>Add\<close> where that fails.\<close>

definition put_value :: "env \<Rightarrow> type_code \<Rightarrow> byte list \<Rightarrow> byte list \<Rightarrow> message \<Rightarrow> message outcome" where
  "put_value env ty nm bs msg =
     bindR (ReplaceT_first ty (e_alloc env) msg (Some (c_str nm)) bs) (\<lambda>(st, msg).
     if st \<noteq> B_OK then bindR (AddT ty (e_alloc env) msg (Some (c_str nm)) bs) (\<lambda>(_, msg). Inr msg) else Inr msg)"

definition Shortcut_Invoke :: "env \<Rightarrow> (ptr \<Rightarrow> gui \<Rightarrow> gui outcome) \<Rightarrow> shortcut \<Rightarrow> ptr \<Rightarrow> gui \<Rightarrow> gui outcome" where
  "Shortcut_Invoke env invoke_item this win g =
     (if win = null then Inl Debugger
      else if sc_item this \<noteq> null then invoke_item (sc_item this) g
      else bindR (alive (windows g win)) (\<lambda>w.
           let target = if sc_target this = null then CurrentFocus w else sc_target this
           in case sc_message this of
                None \<Rightarrow> Inr g
              | Some m \<Rightarrow>
                  bindR (Message_copy (e_alloc env) m) (\<lambda>message.
                  bindR (put_value env B_INT64_TYPE when_key (le 8 (nat (e_now env mod 2 ^ 64))) message) (\<lambda>message.
                  bindR (put_value env B_BOOL_TYPE shortcut_key [1] message) (\<lambda>message.
                  bindR (PostMessage_to (e_alloc env) (e_self env) (e_has_data env (world g)) (e_sent env (world g))
                           (world g) win (e_new env (world g)) (Some message) target null) (\<lambda>(_, w).
                  Inr (g\<lparr>world := w\<rparr>)))))))"

section \<open>The table as a map\<close>

text \<open>
  A shortcut is found by its key, in lower case, and its modifiers, which always contain the command key. \<open>table_ok\<close>: no
  two shortcuts of the window have the same key, and exactly the listed shortcuts are alive, so that none is lost or deleted
  twice. \<open>bindings\<close>: what the table means.
\<close>

type_synonym hotkey = "byte \<times> 32 word"
type_synonym binding = "ptr \<times> message option \<times> ptr"

definition hot :: "32 word \<Rightarrow> 32 word \<Rightarrow> hotkey" where "hot key modifiers = (tolower (ucast key), PrepareModifiers modifiers)"
definition hotkey_of :: "shortcut \<Rightarrow> hotkey" where "hotkey_of s = (sc_key s, sc_modifiers s)"
definition binding_of :: "shortcut \<Rightarrow> binding" where "binding_of s = (sc_item s, sc_message s, sc_target s)"

definition entries :: "shortcut_table \<Rightarrow> shortcut list" where
  "entries t = map (\<lambda>p. the (shortcut_at t p)) (fShortcuts t)"

definition bindings :: "shortcut_table \<Rightarrow> hotkey \<rightharpoonup> binding" where
  "bindings t = map_of (map (\<lambda>s. (hotkey_of s, binding_of s)) (entries t))"

definition table_ok :: "shortcut_table \<Rightarrow> bool" where
  "table_ok t \<longleftrightarrow> distinct (fShortcuts t) \<and> null \<notin> set (fShortcuts t) \<and> dom (shortcut_at t) = set (fShortcuts t) \<and>
     distinct (map hotkey_of (entries t))"

lemma ucast_PrepareKey [simp]: "ucast (PrepareKey c) = tolower c"
  unfolding PrepareKey_def by (rule bit_word_eqI) (simp add: bit_simps)

lemma hotkey_of_new [simp]:
  "hotkey_of (Shortcut_item (ucast key) modifiers item) = hot key modifiers"
  "hotkey_of (Shortcut_message (ucast key) modifiers message target) = hot key modifiers"
  "binding_of (Shortcut_item k modifiers item) = (item, None, null)"
  "binding_of (Shortcut_message k modifiers message target) = (null, message, target)"
  by (simp_all add: Shortcut_item_def Shortcut_message_def hotkey_of_def hot_def binding_of_def)

lemma table_alive: "table_ok t \<Longrightarrow> p \<in> set (fShortcuts t) \<Longrightarrow> \<exists>s. shortcut_at t p = Some s"
  by (auto simp: table_ok_def)

text \<open>The address of the first shortcut with the key, null if there is none.\<close>

definition holder :: "shortcut_table \<Rightarrow> hotkey \<Rightarrow> ptr list \<Rightarrow> ptr" where
  "holder t h ps = (case filter (\<lambda>p. hotkey_of (the (shortcut_at t p)) = h) ps of [] \<Rightarrow> null | p # _ \<Rightarrow> p)"

lemma find_shortcut_eq:
  assumes "set (fShortcuts t) \<subseteq> dom (shortcut_at t)" "fits (fShortcuts t)" "i \<le> length (fShortcuts t)"
  shows "find_shortcut t k m (map int [i..<length (fShortcuts t)]) = Inr (holder t (k, m) (drop i (fShortcuts t)))"
  using assms(3)
proof (induction rule: inc_induct)
  case base
  then show ?case by (simp add: holder_def)
next
  case (step j)
  then obtain s where s: "shortcut_at t (fShortcuts t ! j) = Some s" using assms(1) by (meson domD nth_mem subsetD)
  have "drop j (fShortcuts t) = fShortcuts t ! j # drop (Suc j) (fShortcuts t)" using step by (simp add: Cons_nth_drop_Suc)
  then show ?case using step s assms(2)
    by (simp add: upt_conv_Cons Let_def holder_def Matches_def hotkey_of_def)
qed

lemma FindShortcut_eq:
  assumes "table_ok t" "fits (fShortcuts t)"
  shows "FindShortcut t key modifiers = Inr (holder t (hot key modifiers) (fShortcuts t))"
  using find_shortcut_eq [of t 0] assms by (simp add: FindShortcut_def Let_def hot_def table_ok_def)

lemma bindings_None: "bindings t h = None \<longleftrightarrow> h \<notin> hotkey_of ` set (entries t)"
  by (auto simp: bindings_def map_of_eq_None_iff image_image)

lemma holder_cases:
  assumes "table_ok t"
  shows "holder t h (fShortcuts t) = null \<and> bindings t h = None \<or>
    (\<exists>p s. holder t h (fShortcuts t) = p \<and> 0 < p \<and> p \<in> set (fShortcuts t) \<and> shortcut_at t p = Some s \<and> hotkey_of s = h \<and>
       bindings t h = Some (binding_of s))"
proof (cases "filter (\<lambda>p. hotkey_of (the (shortcut_at t p)) = h) (fShortcuts t)")
  case Nil
  then show ?thesis by (auto simp: holder_def bindings_None entries_def filter_empty_conv)
next
  case (Cons p ps)
  then have p: "p \<in> set (fShortcuts t)" "hotkey_of (the (shortcut_at t p)) = h" by (auto simp: filter_eq_Cons_iff)
  then obtain s where s: "shortcut_at t p = Some s" using table_alive [OF assms] by blast
  have "map_of (map (\<lambda>s. (hotkey_of s, binding_of s)) (entries t)) h = Some (binding_of s)"
  proof (rule map_of_is_SomeI)
    show "distinct (map fst (map (\<lambda>s. (hotkey_of s, binding_of s)) (entries t)))"
      using assms by (simp add: table_ok_def comp_def)
    show "(h, binding_of s) \<in> set (map (\<lambda>s. (hotkey_of s, binding_of s)) (entries t))"
      using p s by (force simp: entries_def)
  qed
  moreover have "0 < p" using assms p(1) gr0I by (metis table_ok_def)
  ultimately show ?thesis using p s Cons by (auto simp: holder_def bindings_def)
qed

section \<open>The operations on the table\<close>

definition quit_key :: "32 word \<Rightarrow> 32 word \<Rightarrow> bool" where
  "quit_key key modifiers \<longleftrightarrow> (key = 0x71 \<or> key = 0x51) \<and> modifiers = B_COMMAND_KEY"

text \<open>The state after a shortcut was taken out, or none was found.\<close>

definition unbound :: "shortcut_table \<Rightarrow> 32 word \<Rightarrow> 32 word \<Rightarrow> shortcut_table \<Rightarrow> bool" where
  "unbound t key modifiers t' \<longleftrightarrow>
     table_ok t' \<and> length (fShortcuts t') \<le> length (fShortcuts t) \<and> bindings t' = (bindings t)(hot key modifiers := None) \<and>
     (fNoQuitShortcut t' \<longleftrightarrow> fNoQuitShortcut t \<or> bindings t (hot key modifiers) = None \<and> quit_key key modifiers)"

lemma distinct_map_remove1: "distinct (map f xs) \<Longrightarrow> distinct (map f (remove1 x xs))"
  using set_remove1_subset by (induction xs) fastforce+

lemma map_of_remove1:
  assumes "distinct (map (fst \<circ> f) ps)" "p \<in> set ps"
  shows "map_of (map f (remove1 p ps)) = (map_of (map f ps))(fst (f p) := None)"
  using assms
proof (induction ps)
  case (Cons q ps)
  show ?case
  proof (cases "q = p")
    case True
    then have "map_of (map f ps) (fst (f p)) = None" using Cons.prems by (auto simp: map_of_eq_None_iff)
    then show ?thesis using True by (cases "f p") (auto simp: fun_eq_iff)
  next
    case False
    then have "fst (f q) \<noteq> fst (f p)" using Cons.prems by (auto simp: image_iff)
    then show ?thesis using False Cons by (cases "f q") (auto simp: fun_upd_twist)
  qed
qed simp

lemma bindings_alt: "bindings t = map_of (map (\<lambda>p. (hotkey_of (the (shortcut_at t p)), binding_of (the (shortcut_at t p)))) (fShortcuts t))"
  by (simp add: bindings_def entries_def comp_def)

lemma remove_at_address:
  assumes "table_ok t" "p \<in> set (fShortcuts t)" "hotkey_of (the (shortcut_at t p)) = h"
    and t': "t' = t\<lparr>fShortcuts := remove1 p (fShortcuts t), shortcut_at := (shortcut_at t)(p := None)\<rparr>"
  shows "table_ok t' \<and> bindings t' = (bindings t)(h := None)"
proof -
  note ok = assms(1) [unfolded table_ok_def]
  have s: "set (remove1 p (fShortcuts t)) = set (fShortcuts t) - {p}" using ok by (simp add: set_remove1_eq)
  have e: "entries t' = map (\<lambda>q. the (shortcut_at t q)) (remove1 p (fShortcuts t))"
    using s by (auto simp: entries_def t')
  have "distinct (map (\<lambda>q. hotkey_of (the (shortcut_at t q))) (remove1 p (fShortcuts t)))"
    using ok by (intro distinct_map_remove1) (simp add: entries_def comp_def)
  then have "distinct (map hotkey_of (entries t'))" unfolding e by (simp add: comp_def)
  then have "table_ok t'" using ok s unfolding table_ok_def by (auto simp: t' simp del: distinct_map)
  moreover have "bindings t' = map_of (map (\<lambda>q. (hotkey_of (the (shortcut_at t q)), binding_of (the (shortcut_at t q)))) (remove1 p (fShortcuts t)))"
    unfolding bindings_def e by (simp add: comp_def)
  ultimately show ?thesis
    using map_of_remove1 [of "\<lambda>q. (hotkey_of (the (shortcut_at t q)), binding_of (the (shortcut_at t q)))" "fShortcuts t" p]
      ok assms(2,3) by (simp add: bindings_alt entries_def comp_def)
qed

lemma RemoveShortcut_ok:
  assumes "table_ok t" "fits (fShortcuts t)"
  shows "\<exists>t'. RemoveShortcut t key modifiers = Inr t' \<and> unbound t key modifiers t'"
proof -
  let ?h = "hot key modifiers" and ?p = "holder t (hot key modifiers) (fShortcuts t)"
  note q = quit_key_def [of key modifiers]
  consider (none) "?p = null" "bindings t ?h = None"
    | (some) s where "?p \<in> set (fShortcuts t)" "shortcut_at t ?p = Some s" "hotkey_of s = ?h" "bindings t ?h = Some (binding_of s)"
    using holder_cases [OF assms(1), of ?h] by metis
  then show ?thesis
  proof cases
    case none
    have k: "(bindings t)(?h := None) = bindings t" using none by auto
    have "table_ok (t\<lparr>fNoQuitShortcut := True\<rparr>)" "bindings (t\<lparr>fNoQuitShortcut := True\<rparr>) = bindings t"
      using assms(1) by (simp_all add: table_ok_def entries_def bindings_def)
    then show ?thesis using assms none k by (auto simp: RemoveShortcut_def FindShortcut_eq unbound_def q)
  next
    case some
    have "?p \<noteq> null" using some(1) assms(1) by (auto simp: table_ok_def)
    moreover have "table_ok (t\<lparr>fShortcuts := remove1 ?p (fShortcuts t), shortcut_at := (shortcut_at t)(?p := None)\<rparr>) \<and>
        bindings (t\<lparr>fShortcuts := remove1 ?p (fShortcuts t), shortcut_at := (shortcut_at t)(?p := None)\<rparr>) = (bindings t)(?h := None)"
      by (rule remove_at_address [OF assms(1) some(1) _ refl]) (use some in simp)
    ultimately show ?thesis using assms some(4)
      by (auto simp: RemoveShortcut_def FindShortcut_eq unbound_def RemoveItem_eq length_remove1)
  qed
qed

text \<open>A new shortcut that is not listed yet is not seen.\<close>

lemma hidden_shortcut:
  assumes "table_ok t" "shortcut_at t p = None" "p \<noteq> null" "fits (fShortcuts t)"
  shows "\<exists>t1. RemoveShortcut (t\<lparr>shortcut_at := (shortcut_at t)(p := Some s)\<rparr>) key modifiers = 
     Inr (t1\<lparr>shortcut_at := (shortcut_at t1)(p := Some s)\<rparr>) \<and> unbound t key modifiers t1 \<and> shortcut_at t1 p = None"
proof -
  let ?t = "t\<lparr>shortcut_at := (shortcut_at t)(p := Some s)\<rparr>" and ?h = "hot key modifiers"
  have n: "p \<notin> set (fShortcuts t)" using assms(1,2) by (auto simp: table_ok_def)
  have "set (fShortcuts ?t) \<subseteq> dom (shortcut_at ?t)" using assms(1) by (auto simp: table_ok_def)
  from find_shortcut_eq [OF this, of 0] assms(4) have f: "FindShortcut ?t key modifiers = Inr (holder ?t ?h (fShortcuts t))"
    by (simp add: FindShortcut_def Let_def hot_def)
  have h: "holder ?t ?h (fShortcuts t) = holder t ?h (fShortcuts t)"
  proof -
    have "filter (\<lambda>q. hotkey_of (the (shortcut_at ?t q)) = ?h) (fShortcuts t) =
        filter (\<lambda>q. hotkey_of (the (shortcut_at t q)) = ?h) (fShortcuts t)"
      using n by (intro filter_cong) auto
    then show ?thesis unfolding holder_def by simp
  qed
  obtain t1 where t1: "RemoveShortcut t key modifiers = Inr t1" "unbound t key modifiers t1"
    using RemoveShortcut_ok [OF assms(1,4)] by blast
  have "holder t ?h (fShortcuts t) \<noteq> p" using holder_cases [OF assms(1), of ?h] n assms(3) by auto
  then have "RemoveShortcut ?t key modifiers = Inr (t1\<lparr>shortcut_at := (shortcut_at t1)(p := Some s)\<rparr>)"
      "shortcut_at t1 p = None"
    using t1(1) f h FindShortcut_eq [OF assms(1,4)] assms(2) 
    by (auto simp: RemoveShortcut_def RemoveItem_eq fun_upd_twist length_remove1 split: if_splits)
  then show ?thesis using t1(2) by blast
qed

lemma add_shortcut_ok:
  assumes "table_ok t" "shortcut_at t p = None" "p \<noteq> null" "fits (fShortcuts t)" "hotkey_of s = hot key modifiers"
  shows "\<exists>t'. add_shortcut t p s key modifiers = Inr t' \<and> table_ok t' \<and>
     bindings t' = (bindings t)(hot key modifiers \<mapsto> binding_of s) \<and> length (fShortcuts t') \<le> Suc (length (fShortcuts t)) \<and>
     (fNoQuitShortcut t' \<longleftrightarrow> fNoQuitShortcut t \<or> bindings t (hot key modifiers) = None \<and> quit_key key modifiers)"
proof -
  let ?h = "hot key modifiers"
  obtain t1 where t1: "RemoveShortcut (t\<lparr>shortcut_at := (shortcut_at t)(p := Some s)\<rparr>) key modifiers =
     Inr (t1\<lparr>shortcut_at := (shortcut_at t1)(p := Some s)\<rparr>)" "unbound t key modifiers t1" "shortcut_at t1 p = None"
    using hidden_shortcut [OF assms(1-4)] by blast
  define t' where "t' = t1\<lparr>shortcut_at := (shortcut_at t1)(p := Some s), fShortcuts := fShortcuts t1 @ [p]\<rparr>"
  have ok: "table_ok t1" "bindings t1 ?h = None" using t1(2) by (auto simp: unbound_def)
  have n: "p \<notin> set (fShortcuts t1)" using ok(1) t1(3) by (auto simp: table_ok_def)
  then have e: "entries t' = entries t1 @ [s]" by (auto simp: t'_def entries_def)
  have "table_ok t'" using ok n assms(3,5) e by (auto simp: table_ok_def t'_def bindings_None)
  moreover have "bindings t' = (bindings t1)(?h \<mapsto> binding_of s)"
    using ok(2) e assms(5) by (auto simp: bindings_def map_add_def fun_eq_iff split: option.splits)
  moreover have "add_shortcut t p s key modifiers = Inr t'" using t1(1) assms(3) by (simp add: add_shortcut_def AddItem_def t'_def)
  ultimately show ?thesis using t1(2) by (auto simp: unbound_def t'_def)
qed

section \<open>A sequence of operations\<close>

datatype shortcut_op =
    Add_item ptr "32 word" "32 word" ptr   \<comment> \<open>address, key, modifiers, menu item\<close>
  | Add_message ptr "32 word" "32 word" "message option" ptr   \<comment> \<open>address, key, modifiers, message, target\<close>
  | Remove_key "32 word" "32 word"

fun apply_op :: "shortcut_op \<Rightarrow> shortcut_table \<Rightarrow> shortcut_table outcome" where
  "apply_op (Add_item p k m item) t = AddShortcut_item t p k m item"
| "apply_op (Add_message p k m msg target) t = AddShortcut t p k m msg target"
| "apply_op (Remove_key k m) t = RemoveShortcut t k m"

fun shortcut_ops :: "shortcut_op list \<Rightarrow> shortcut_table \<Rightarrow> shortcut_table outcome" where
  "shortcut_ops [] t = Inr t"
| "shortcut_ops (x # xs) t = bindR (apply_op x t) (shortcut_ops xs)"

text \<open>
  Every allocation gives null or an address that no shortcut of the window has at that time.
\<close>

fun new_address :: "shortcut_op \<Rightarrow> ptr" where
  "new_address (Add_item p k m item) = p"
| "new_address (Add_message p k m msg target) = p"
| "new_address (Remove_key k m) = null"

fun allocated :: "shortcut_op list \<Rightarrow> shortcut_table \<Rightarrow> bool" where
  "allocated [] t \<longleftrightarrow> True"
| "allocated (x # xs) t \<longleftrightarrow> (new_address x = null \<or> shortcut_at t (new_address x) = None) \<and>
     (case apply_op x t of Inl _ \<Rightarrow> True | Inr t' \<Rightarrow> allocated xs t')"

text \<open>
  What the operations mean: a map from keys to bindings, and whether the key Q of the application is off. An
  operation without memory, and a message shortcut without a message, change nothing.
\<close>

type_synonym keymap = "(hotkey \<rightharpoonup> binding) \<times> bool"

definition off_after :: "keymap \<Rightarrow> 32 word \<Rightarrow> 32 word \<Rightarrow> bool" where
  "off_after k key modifiers \<longleftrightarrow> snd k \<or> fst k (hot key modifiers) = None \<and> quit_key key modifiers"

fun keymap_op :: "shortcut_op \<Rightarrow> keymap \<Rightarrow> keymap" where
  "keymap_op (Add_item p key m item) k =
     (if p = null then k else ((fst k)(hot key m \<mapsto> (item, None, null)), off_after k key m))"
| "keymap_op (Add_message p key m msg target) k =
     (if p = null \<or> msg = None then k else ((fst k)(hot key m \<mapsto> (null, msg, target)), off_after k key m))"
| "keymap_op (Remove_key key m) k = ((fst k)(hot key m := None), off_after k key m)"

definition keymap :: "shortcut_table \<Rightarrow> keymap" where "keymap t = (bindings t, fNoQuitShortcut t)"

lemma shortcut_op_ok:
  assumes "table_ok t" "length (fShortcuts t) + n < 2 ^ 31" "new_address x = null \<or> shortcut_at t (new_address x) = None"
  shows "\<exists>t'. apply_op x t = Inr t' \<and> table_ok t' \<and> keymap t' = keymap_op x (keymap t) \<and>
    length (fShortcuts t') \<le> Suc (length (fShortcuts t))"
proof -
  have f: "fits (fShortcuts t)" using assms(2) by (simp add: fits_def)
  note add = add_shortcut_ok [OF assms(1) _ _ f]
  show ?thesis
  proof (cases x)
    case (Add_item p key m item)
    show ?thesis using assms(1,3) Add_item add [of p "Shortcut_item (ucast key) m item" key m]
      by (cases "p = null") (auto simp: AddShortcut_item_def add_shortcut_def keymap_def off_after_def)
  next
    case (Add_message p key m msg target)
    show ?thesis using assms(1,3) Add_message add [of p "Shortcut_message (ucast key) m msg target" key m]
      by (cases "p = null \<or> msg = None") (auto simp: AddShortcut_def add_shortcut_def keymap_def off_after_def)
  next
    case (Remove_key key m)
    show ?thesis using Remove_key RemoveShortcut_ok [OF assms(1) f, of key m]
      by (auto simp: unbound_def keymap_def off_after_def)
  qed
qed

lemma shortcut_ops_ok:
  assumes "table_ok t" "length (fShortcuts t) + length xs < 2 ^ 31" "allocated xs t"
  shows "\<exists>t'. shortcut_ops xs t = Inr t' \<and> table_ok t' \<and> keymap t' = fold keymap_op xs (keymap t) \<and> fits (fShortcuts t')"
  using assms
proof (induction xs arbitrary: t)
  case (Cons x xs)
  obtain t1 where t1: "apply_op x t = Inr t1" "table_ok t1" "keymap t1 = keymap_op x (keymap t)"
    "length (fShortcuts t1) \<le> Suc (length (fShortcuts t))"
    using shortcut_op_ok [OF Cons.prems(1,2)] Cons.prems(3) by auto
  then show ?case using Cons.IH [of t1] Cons.prems by auto
qed (simp add: fits_def)

text \<open>The destructor of the window frees every shortcut, each once.\<close>

lemma delete_shortcuts_ok:
  assumes "fits xs" "distinct xs" "null \<notin> set xs" "i \<le> length xs"
  shows "fShortcuts t = xs \<Longrightarrow> set (drop i xs) \<subseteq> dom (shortcut_at t) \<Longrightarrow> delete_shortcuts t (map int [i..<length xs]) =
    Inr (t\<lparr>shortcut_at := shortcut_at t |` (- set (drop i xs))\<rparr>)"
  using assms(4)
proof (induction arbitrary: t rule: inc_induct)
  case (step j)
  have d: "drop j xs = xs ! j # drop (Suc j) xs" using step.hyps by (simp add: Cons_nth_drop_Suc)
  let ?p = "xs ! j"
  have p: "?p \<in> dom (shortcut_at t)" using step.prems d by auto
  have "distinct (drop j xs)" "set (drop j xs) \<subseteq> set xs" using assms(2) by (simp_all add: set_drop_subset)
  then have p': "?p \<noteq> null" "?p \<notin> set (drop (Suc j) xs)" using assms(3) step.hyps nth_mem unfolding d by (metis, simp)
  obtain s where s: "shortcut_at t ?p = Some s" using p by blast
  let ?t = "t\<lparr>shortcut_at := (shortcut_at t)(?p := None)\<rparr>"
  have "set (drop (Suc j) xs) \<subseteq> dom (shortcut_at ?t)" using step.prems(2) d p'(2) by auto
  note IH = step.IH [OF _ this]
  have "shortcut_at ?t |` (- set (drop (Suc j) xs)) = shortcut_at t |` (- set (drop j xs))"
    unfolding d by (auto simp: restrict_map_def fun_eq_iff)
  then have "delete_shortcuts ?t (map int [Suc j..<length xs]) = Inr (t\<lparr>shortcut_at := shortcut_at t |` (- set (drop j xs))\<rparr>)"
    using IH step.prems(1) by (simp del: fun_upd_restrict_conv restrict_fun_upd fun_upd_apply)
  then show ?case using step.hyps step.prems assms(1) s p'(1) by (simp add: upt_conv_Cons Let_def)
qed (simp add: restrict_map_def)

lemma Shortcuts_delete_ok:
  assumes "table_ok t" "fits (fShortcuts t)"
  shows "Shortcuts_delete t = Inr (t\<lparr>shortcut_at := \<lambda>_. None\<rparr>)"
proof -
  note ok = assms(1) [unfolded table_ok_def]
  have "shortcut_at t |` (- set (fShortcuts t)) = (\<lambda>_. None)" using ok by (auto simp: restrict_map_def fun_eq_iff)
  then show ?thesis using delete_shortcuts_ok [OF assms(2) _ _ _ refl, of 0] ok assms(2) by (simp add: Shortcuts_delete_def)
qed

text \<open>Addresses that are not in use and differ from each other are such allocations.\<close>

lemma apply_op_new:
  assumes "apply_op x t = Inr t'" "p \<noteq> new_address x" "shortcut_at t p = None"
  shows "shortcut_at t' p = None"
proof -
  have r: "shortcut_at t' p = None" if "RemoveShortcut t key m = Inr t'" "shortcut_at t p = None" for t t' key m
    using that by (auto simp: RemoveShortcut_def be_simps split: if_splits)
  have "shortcut_at t' p = None" if "add_shortcut t q s key m = Inr t'" "p \<noteq> q" for q s key m
    using that assms(3) r by (fastforce simp: add_shortcut_def be_simps split: if_splits)
  then show ?thesis using assms r by (cases x) (auto simp: AddShortcut_item_def AddShortcut_def split: if_splits)
qed

lemma allocated_distinct:
  "distinct (map new_address xs) \<Longrightarrow> \<forall>x\<in>set xs. shortcut_at t (new_address x) = None \<Longrightarrow> allocated xs t"
proof (induction xs arbitrary: t)
  case (Cons x xs)
  have "allocated xs t'" if a: "apply_op x t = Inr t'" for t'
  proof (rule Cons.IH)
    show "\<forall>y\<in>set xs. shortcut_at t' (new_address y) = None"
      using Cons.prems by (intro ballI apply_op_new [OF a]) (auto simp: image_iff)
  qed (use Cons.prems in simp)
  then show ?case using Cons.prems by (cases "apply_op x t") auto
qed simp

fun key_ops :: "(nat \<Rightarrow> ptr) \<Rightarrow> nat \<Rightarrow> (32 word \<times> 32 word \<times> 32 word \<times> ptr) list \<Rightarrow> shortcut_op list" where
  "key_ops new i [] = []"
| "key_ops new i ((k, m, code, target) # ks) = Add_message (new i) k m (Some (Message_new code)) target # key_ops new (Suc i) ks"

lemma add_keys_ops: "add_keys new i ks = shortcut_ops (key_ops new i ks)"
  by (induction new i ks rule: key_ops.induct) simp_all

section \<open>Properties\<close>

text \<open>C19. The shortcuts of a window are a map from keys to bindings: a sequence of additions and removals of shortcuts
  runs without fault, keeps the table in order (no key twice, exactly the listed shortcuts alive) and ends with the map
  that the operations describe; \<open>_FindShortcut\<close> looks a key up in this map, whatever the case of the letter and the bits that
  are not modifiers; and deleting the window then frees every shortcut, each once.\<close>

theorem shortcuts_refine_keymap:
  assumes "table_ok t" "length (fShortcuts t) + length xs < 2 ^ 31" "allocated xs t"
  shows "\<exists>t'. shortcut_ops xs t = Inr t' \<and> table_ok t' \<and> keymap t' = fold keymap_op xs (keymap t) \<and>
    (case fst (fold keymap_op xs (keymap t)) (hot key modifiers) of
       None \<Rightarrow> FindShortcut t' key modifiers = Inr null
     | Some b \<Rightarrow> \<exists>p s. FindShortcut t' key modifiers = Inr p \<and> p \<noteq> null \<and> shortcut_at t' p = Some s \<and> binding_of s = b) \<and>
    Shortcuts_delete t' = Inr (t'\<lparr>shortcut_at := \<lambda>_. None\<rparr>)"
proof -
  obtain t' where t': "shortcut_ops xs t = Inr t'" "table_ok t'" "keymap t' = fold keymap_op xs (keymap t)" "fits (fShortcuts t')"
    using shortcut_ops_ok [OF assms] by blast
  have b: "bindings t' = fst (fold keymap_op xs (keymap t))" using t'(3) by (metis fst_conv keymap_def)
  have n: "null \<notin> set (fShortcuts t')" using t'(2) by (simp add: table_ok_def)
  have "case bindings t' (hot key modifiers) of
       None \<Rightarrow> FindShortcut t' key modifiers = Inr null
     | Some b \<Rightarrow> \<exists>p s. FindShortcut t' key modifiers = Inr p \<and> p \<noteq> null \<and> shortcut_at t' p = Some s \<and> binding_of s = b"
    using holder_cases [OF t'(2), of "hot key modifiers"] n by (auto simp: FindShortcut_eq [OF t'(2,4)])
  then show ?thesis using t' b Shortcuts_delete_ok [OF t'(2,4)] by auto
qed

text \<open>The shortcuts of a new window that can be closed, at the addresses 1 to 11: Command-Z with Control and lock keys zooms.\<close>

theorem shortcuts_refine_keymap_witness:
  "\<exists>t p. Window_shortcuts Suc False False 99 = Inr t \<and> table_ok t \<and>
     FindShortcut t 0x7A (B_CONTROL_KEY OR 0x8) = Inr p \<and> map_option binding_of (shortcut_at t p) = Some (null, Some (Message_new 0x5F575A4F), null) \<and>
     FindShortcut t 0x51 0 = Inr null \<and> \<not> fNoQuitShortcut t"
proof -
  let ?t = "\<lparr>fShortcuts = [], shortcut_at = \<lambda>_. None, fNoQuitShortcut = False\<rparr>"
  let ?xs = "key_ops Suc 0 (default_keys True 99)" and ?k = "fst (fold keymap_op (key_ops Suc 0 (default_keys True 99)) (\<lambda>_. None, False))"
  have hk: "hot 0x57 B_COMMAND_KEY = (0x77, 2)" "hot 0x58 B_COMMAND_KEY = (0x78, 2)" "hot 0x43 B_COMMAND_KEY = (0x63, 2)" 
    "hot 0x56 B_COMMAND_KEY = (0x76, 2)" "hot 0x41 B_COMMAND_KEY = (0x61, 2)" "hot 0x4D (B_COMMAND_KEY OR B_CONTROL_KEY) = (0x6D, 6)"
    "hot 0x5A (B_COMMAND_KEY OR B_CONTROL_KEY) = (0x7A, 6)" "hot 0x5A (B_SHIFT_KEY OR B_COMMAND_KEY OR B_CONTROL_KEY) = (0x7A, 7)"
    "hot 0x48 (B_COMMAND_KEY OR B_CONTROL_KEY) = (0x68, 6)" "hot 0x46 (B_COMMAND_KEY OR B_CONTROL_KEY) = (0x66, 6)"
    "hot 0x42 (B_COMMAND_KEY OR B_CONTROL_KEY) = (0x62, 6)" "hot 0x7A (B_CONTROL_KEY OR 0x8) = (0x7A, 6)" "hot 0x51 0 = (0x71, 2)"
    by (simp_all add: hot_def tolower_def PrepareModifiers_def AllowedModifiers_def key_bits)
  have "table_ok ?t" "length (fShortcuts ?t) + length ?xs < 2 ^ 31" by (simp_all add: table_ok_def entries_def default_keys_def)
  moreover have "allocated ?xs ?t" by (rule allocated_distinct) (simp_all add: default_keys_def)
  ultimately have r: "\<exists>t'. shortcut_ops ?xs ?t = Inr t' \<and> table_ok t' \<and> keymap t' = fold keymap_op ?xs (keymap ?t) \<and>
    (case fst (fold keymap_op ?xs (keymap ?t)) (hot key modifiers) of
       None \<Rightarrow> FindShortcut t' key modifiers = Inr null
     | Some b \<Rightarrow> \<exists>p s. FindShortcut t' key modifiers = Inr p \<and> p \<noteq> null \<and> shortcut_at t' p = Some s \<and> binding_of s = b) \<and>
    Shortcuts_delete t' = Inr (t'\<lparr>shortcut_at := \<lambda>_. None\<rparr>)" for key modifiers
    by (rule shortcuts_refine_keymap)
  have k0: "keymap ?t = (\<lambda>_. None, False)" by (simp add: keymap_def bindings_def entries_def)
  have k: "?k (0x7A, 6) = Some (null, Some (Message_new 0x5F575A4F), null)" "?k (0x71, 2) = None" 
    "\<not> snd (fold keymap_op ?xs (\<lambda>_. None, False))"
    by (simp_all add: default_keys_def off_after_def hk quit_key_def)
  obtain t where t: "shortcut_ops ?xs ?t = Inr t" "table_ok t" "keymap t = fold keymap_op ?xs (keymap ?t)" using r by blast
  have "\<not> fNoQuitShortcut t" using t(3) k(3) k0 by (metis keymap_def snd_conv)
  moreover have "\<exists>p. FindShortcut t 0x7A (B_CONTROL_KEY OR 0x8) = Inr p \<and> 
      map_option binding_of (shortcut_at t p) = Some (null, Some (Message_new 0x5F575A4F), null)"
    using r [of "0x7A" "B_CONTROL_KEY OR 0x8"] t(1) k k0 hk by auto
  moreover have "FindShortcut t 0x51 0 = Inr null" 
    using r [of "0x51" 0] t(1) k k0 hk by auto
  ultimately show ?thesis using t(1,2) by (auto simp: Window_shortcuts_def add_keys_ops)
qed

end
