(* ===== verification/Pointer.thy ===== *)
theory Pointer
  imports ViewUpdate
begin

text \<open>
  How a window hands out pointer events and pulses: the part of \<open>BWindow::DispatchMessage\<close> of
  \<open>kits/interface/Window.cpp\<close> for \<open>B_MOUSE_MOVED\<close>, \<open>B_MOUSE_DOWN\<close>, \<open>B_MOUSE_UP\<close> and \<open>B_PULSE\<close>, and the posting of the
  mouse messages. \<open>MessageReceived\<close> and \<open>Pulse\<close> are virtual: what they do is a parameter, and the state
  records the calls.
\<close>

section \<open>The mouse messages\<close>

definition B_POINTER_EVENTS :: "32 word" where "B_POINTER_EVENTS = 0x00000001"

definition B_ENTERED_VIEW :: "32 word" where "B_ENTERED_VIEW = 0"
definition B_INSIDE_VIEW :: "32 word" where "B_INSIDE_VIEW = 1"
definition B_EXITED_VIEW :: "32 word" where "B_EXITED_VIEW = 2"
definition B_OUTSIDE_VIEW :: "32 word" where "B_OUTSIDE_VIEW = 3"

definition screen_where_key :: "byte list" where   \<comment> \<open>\<open>screen_where\<close>\<close>
  "screen_where_key = [0x73, 0x63, 0x72, 0x65, 0x65, 0x6E, 0x5F, 0x77, 0x68, 0x65, 0x72, 0x65]"
definition where_key :: "byte list" where "where_key = [0x77, 0x68, 0x65, 0x72, 0x65]"   \<comment> \<open>\<open>where\<close>\<close>
definition buttons_key :: "byte list" where "buttons_key = [0x62, 0x75, 0x74, 0x74, 0x6F, 0x6E, 0x73]"   \<comment> \<open>\<open>buttons\<close>\<close>

definition AddUInt32 :: "(nat \<Rightarrow> bool) \<Rightarrow> message \<Rightarrow> mem option \<Rightarrow> 32 word \<Rightarrow> (status \<times> message) outcome" where
  "AddUInt32 alloc this nm val = AddT B_UINT32_TYPE alloc this nm (le 4 (unat val))"

text \<open>The pointer as the display server reported it last. The status of \<open>Add...\<close> is not looked at.\<close>

record pointer =
  pointer_x :: flt
  pointer_y :: flt
  pointer_buttons :: "32 word"

definition mouse_message :: "(nat \<Rightarrow> bool) \<Rightarrow> 32 word \<Rightarrow> pointer \<Rightarrow> message outcome" where
  "mouse_message alloc code m =
     bindR (AddPoint alloc (Message_new code) (Some (c_str screen_where_key)) (Point_new (pointer_x m) (pointer_y m))) (\<lambda>(_, message).
     bindR (AddUInt32 alloc message (Some (c_str buttons_key)) (pointer_buttons m)) (\<lambda>(_, message).
     Inr message))"

text \<open>\<open>win\<close>: the window of the view on top, null before the window is connected.\<close>

definition post_mouse :: "env \<Rightarrow> ptr \<Rightarrow> 32 word \<Rightarrow> pointer \<Rightarrow> gui \<Rightarrow> gui outcome" where
  "post_mouse env win code m g =
     bindR (mouse_message (e_alloc env) code m) (\<lambda>message.
     if win = null then Inr g
     else bindR (PostMessage_message (e_alloc env) (e_self env) (e_has_data env (world g)) (e_sent env (world g))
                   (world g) win (e_new env (world g)) (Some message)) (\<lambda>(_, w). Inr (g\<lparr>world := w\<rparr>)))"

definition pointer_motion :: "env \<Rightarrow> ptr \<Rightarrow> flt \<Rightarrow> flt \<Rightarrow> pointer \<Rightarrow> gui \<Rightarrow> (pointer \<times> gui) outcome" where
  "pointer_motion env win x y m g =
     (let m = m\<lparr>pointer_x := x, pointer_y := y\<rparr>
      in bindR (post_mouse env win B_MOUSE_MOVED m g) (\<lambda>g. Inr (m, g)))"

text \<open>\<open>1 << button\<close> is undefined unless \<open>button\<close> is below 32: the shift count is unsigned.\<close>

definition pointer_button :: "env \<Rightarrow> ptr \<Rightarrow> nat \<Rightarrow> bool \<Rightarrow> pointer \<Rightarrow> gui \<Rightarrow> (pointer \<times> gui) outcome" where
  "pointer_button env win button released m g =
     (if 32 \<le> button then Inl Undefined
      else
        let button_mask = push_bit button 1;
            m = (if released then m\<lparr>pointer_buttons := pointer_buttons m AND NOT button_mask\<rparr>
                 else m\<lparr>pointer_buttons := pointer_buttons m OR button_mask\<rparr>)
        in bindR (post_mouse env win (if released then B_MOUSE_UP else B_MOUSE_DOWN) m g) (\<lambda>g. Inr (m, g)))"

section \<open>The view under the pointer\<close>

text \<open>The first child, in the order of the list, whose frame contains the point; null if there is none.\<close>

partial_function (option) child_under :: "views \<Rightarrow> point \<Rightarrow> ptr \<Rightarrow> ptr partial" where
  "child_under vs p child =
     (if child = null then Some (Inr null)
      else bindO (Some (alive (vs child))) (\<lambda>c.
           if Contains (View_Frame c) p then Some (Inr child) else child_under vs p (fNextSibling c)))"

partial_function (option) view_under :: "views \<Rightarrow> point \<Rightarrow> ptr \<Rightarrow> (ptr \<times> point) partial" where
  "view_under vs view_where viewUnderPointer =
     bindO (Some (alive (vs viewUnderPointer))) (\<lambda>v.
     bindO (child_under vs view_where (fFirstChild v)) (\<lambda>child.
     if child = null then Some (Inr (viewUnderPointer, view_where))
     else bindO (Some (alive (vs child))) (\<lambda>c.
          view_under vs (the (ConvertFromParent c (Some view_where))) child)))"

section \<open>Handing out the events\<close>

text \<open>\<open>received\<close>: what \<open>MessageReceived\<close> of a view does.\<close>

type_synonym receiver = "ptr \<Rightarrow> message \<Rightarrow> gui \<Rightarrow> gui partial"

definition deliver :: "receiver \<Rightarrow> ptr \<Rightarrow> message \<Rightarrow> gui \<Rightarrow> gui partial" where
  "deliver received view message g = received view message (call_hook (Received view message) g)"

definition from_screen :: "views \<Rightarrow> ptr \<Rightarrow> point \<Rightarrow> point partial" where
  "from_screen vs view p = bindO (ConvertFromScreen vs view (Some p)) (\<lambda>r. Some (Inr (the r)))"

definition add_point :: "env \<Rightarrow> byte list \<Rightarrow> point \<Rightarrow> message \<Rightarrow> message outcome" where
  "add_point env nm p message = bindR (AddPoint (e_alloc env) message (Some (c_str nm)) p) (\<lambda>r. Inr (snd r))"

definition add_transit :: "env \<Rightarrow> 32 word \<Rightarrow> message \<Rightarrow> message outcome" where
  "add_transit env transit message = bindR (AddUInt32 (e_alloc env) message (Some (c_str transit_key)) transit) (\<lambda>r. Inr (snd r))"

text \<open>A view that asked for all pointer events and is not the one under the pointer gets a copy of the message.\<close>

definition send_copy :: "env \<Rightarrow> receiver \<Rightarrow> point \<Rightarrow> message \<Rightarrow> ptr \<Rightarrow> gui \<Rightarrow> gui partial" where
  "send_copy env received screen_where message child g =
     bindO (Some (Message_copy (e_alloc env) message)) (\<lambda>message_copy.
     bindO (if what message_copy = B_MOUSE_MOVED then Some (add_transit env B_OUTSIDE_VIEW message_copy)
            else bindO (from_screen (views g) child screen_where) (\<lambda>p. Some (add_point env where_key p message_copy))) (\<lambda>message_copy.
     bindO (from_screen (views g) child screen_where) (\<lambda>p.
     bindO (Some (add_point env view_where_key p message_copy)) (\<lambda>message_copy.
     deliver received child message_copy g))))"

text \<open>The state of the loop: whether a view with the mask was seen, and the rest.\<close>

partial_function (option) send_events ::
  "env \<Rightarrow> receiver \<Rightarrow> point \<Rightarrow> message \<Rightarrow> ptr \<Rightarrow> ptr \<Rightarrow> bool \<times> gui \<Rightarrow> (bool \<times> gui) partial" where
  "send_events env received screen_where message viewUnderPointer child s =
     (if child = null then Some (Inr s)
      else bindO (Some (alive (views (snd s) child))) (\<lambda>c.
           bindO (if EventMask c AND B_POINTER_EVENTS \<noteq> 0 then
                    bindO (if child \<noteq> viewUnderPointer then send_copy env received screen_where message child (snd s)
                           else Some (Inr (snd s))) (\<lambda>g. Some (Inr (True, g)))
                  else Some (Inr s)) (\<lambda>s.
           bindO (Some (alive (views (snd s) child))) (\<lambda>c.
           bindO (send_events env received screen_where message viewUnderPointer (fFirstChild c) s) (\<lambda>s.
           bindO (Some (alive (views (snd s) child))) (\<lambda>c.
           send_events env received screen_where message viewUnderPointer (fNextSibling c) s))))))"

definition send_masked :: "env \<Rightarrow> receiver \<Rightarrow> ptr \<Rightarrow> point \<Rightarrow> message \<Rightarrow> ptr \<Rightarrow> gui \<Rightarrow> gui partial" where
  "send_masked env received this screen_where message viewUnderPointer g =
     bindO (Some (alive (windows g this))) (\<lambda>w.
     if fViewsEvents w AND B_POINTER_EVENTS \<noteq> 0 then
       bindO (Some (alive (views g (top_view w)))) (\<lambda>t.
       bindO (send_events env received screen_where message viewUnderPointer (fFirstChild t) (False, g)) (\<lambda>s.
       let still_wanted_pointer_events = fst s; g = snd s
       in bindO (Some (alive (windows g this))) (\<lambda>w.
          Some (Inr (if \<not> still_wanted_pointer_events
                     then put_window this (w\<lparr>fViewsEvents := fViewsEvents w AND NOT B_POINTER_EVENTS\<rparr>) g else g)))))
     else Some (Inr g))"

text \<open>The view that the pointer left is told so.\<close>

definition send_exited :: "env \<Rightarrow> receiver \<Rightarrow> point \<Rightarrow> message \<Rightarrow> ptr \<Rightarrow> gui \<Rightarrow> gui partial" where
  "send_exited env received screen_where message view g =
     bindO (Some (Message_copy (e_alloc env) message)) (\<lambda>message_copy.
     bindO (Some (add_transit env B_EXITED_VIEW message_copy)) (\<lambda>message_copy.
     bindO (from_screen (views g) view screen_where) (\<lambda>p.
     bindO (Some (add_point env view_where_key p message_copy)) (\<lambda>message_copy.
     deliver received view message_copy g))))"

definition send_transit :: "env \<Rightarrow> receiver \<Rightarrow> ptr \<Rightarrow> point \<Rightarrow> point \<Rightarrow> ptr \<Rightarrow> message \<Rightarrow> gui \<Rightarrow> (message \<times> gui) partial" where
  "send_transit env received this screen_where view_where viewUnderPointer message g =
     (if what message = B_MOUSE_MOVED then
        bindO (Some (alive (windows g this))) (\<lambda>w.
        if fLastMouseMovedView w \<noteq> viewUnderPointer then
          bindO (if fLastMouseMovedView w \<noteq> null then send_exited env received screen_where message (fLastMouseMovedView w) g
                 else Some (Inr g)) (\<lambda>g.
          bindO (Some (add_transit env B_ENTERED_VIEW message)) (\<lambda>message. Some (Inr (message, g))))
        else bindO (Some (add_transit env B_INSIDE_VIEW message)) (\<lambda>message. Some (Inr (message, g))))
      else bindO (Some (add_point env where_key view_where message)) (\<lambda>message. Some (Inr (message, g))))"

definition Dispatch_mouse :: "env \<Rightarrow> receiver \<Rightarrow> ptr \<Rightarrow> message \<Rightarrow> ptr \<Rightarrow> gui \<Rightarrow> gui partial" where
  "Dispatch_mouse env received this message target g =
     (if target \<noteq> null \<and> target \<noteq> this then deliver received target message g
      else bindO (Some (FindPoint B_ORIGIN message (Some (c_str screen_where_key)) 0)) (\<lambda>found.
      if fst found \<noteq> B_OK then Some (Inr g)
      else let screen_where = snd found
      in bindO (Some (alive (windows g this))) (\<lambda>w.
         bindO (view_under (views g) (the (Window_ConvertFromScreen (Some screen_where))) (top_view w)) (\<lambda>hit.
         let viewUnderPointer = fst hit; view_where = snd hit
         in bindO (send_masked env received this screen_where message viewUnderPointer g) (\<lambda>g.
            bindO (send_transit env received this screen_where view_where viewUnderPointer message g) (\<lambda>sent.
            bindO (Some (add_point env view_where_key view_where (fst sent))) (\<lambda>message.
            bindO (deliver received viewUnderPointer message (snd sent)) (\<lambda>g.
            bindO (Some (alive (windows g this))) (\<lambda>w.
            Some (Inr (put_window this (w\<lparr>fLastMouseMovedView := viewUnderPointer\<rparr>) g)))))))))))"

section \<open>Pulses\<close>

partial_function (option) send_pulse :: "(ptr \<Rightarrow> gui \<Rightarrow> gui partial) \<Rightarrow> ptr \<Rightarrow> bool \<times> gui \<Rightarrow> (bool \<times> gui) partial" where
  "send_pulse pulse child s =
     (if child = null then Some (Inr s)
      else bindO (Some (alive (views (snd s) child))) (\<lambda>c.
           bindO (if Flags c AND B_PULSE_NEEDED \<noteq> 0
                  then bindO (pulse child (call_hook (Pulsed child) (snd s))) (\<lambda>g. Some (Inr (True, g)))
                  else Some (Inr s)) (\<lambda>s.
           bindO (Some (alive (views (snd s) child))) (\<lambda>c.
           bindO (send_pulse pulse (fFirstChild c) s) (\<lambda>s.
           bindO (Some (alive (views (snd s) child))) (\<lambda>c.
           send_pulse pulse (fNextSibling c) s))))))"

definition Dispatch_pulse :: "(ptr \<Rightarrow> gui \<Rightarrow> gui partial) \<Rightarrow> receiver \<Rightarrow> ptr \<Rightarrow> message \<Rightarrow> ptr \<Rightarrow> gui \<Rightarrow> gui partial" where
  "Dispatch_pulse pulse received this message target g =
     (if target = this then
        bindO (Some (alive (windows g this))) (\<lambda>w.
        bindO (Some (alive (views g (top_view w)))) (\<lambda>t.
        bindO (send_pulse pulse (fFirstChild t) (False, g)) (\<lambda>s.
        let still_wanted_pulses = fst s; g = snd s
        in bindO (Some (alive (windows g this))) (\<lambda>w.
           Some (Inr (if \<not> still_wanted_pulses
                      then put_window this (w\<lparr>fViewsEvents := fViewsEvents w AND NOT B_PULSE_NEEDED\<rparr>) g else g))))))
      else if target = null then Some (Inl Undefined)
      else deliver received target message g)"

section \<open>Walking over a tree\<close>

text \<open>
  Events and pulses go to the views below the top in the same way: each view before its children, and then its
  next sibling. The locale gives the walk from what is done at one view, which keeps the tree and an
  invariant of the rest.
\<close>

type_synonym walk = "bool \<times> gui"

fun visit_all :: "(ptr \<Rightarrow> walk \<Rightarrow> walk partial) \<Rightarrow> ptr list \<Rightarrow> walk \<Rightarrow> walk partial" where
  "visit_all visit [] s = Some (Inr s)"
| "visit_all visit (v # vs) s = bindO (visit v s) (visit_all visit vs)"

lemma bindO_assoc: "bindO (bindO m f) g = bindO m (\<lambda>a. bindO (f a) g)"
proof (cases m)
  case (Some r)
  then show ?thesis by (cases r) simp_all
qed simp

lemma visit_all_append: "visit_all visit (as @ bs) = (\<lambda>s. bindO (visit_all visit as s) (visit_all visit bs))"
  by (induction as) (auto simp: bindO_assoc)

locale preorder_walk =
  fixes visit :: "ptr \<Rightarrow> walk \<Rightarrow> walk partial"
    and walk :: "ptr \<Rightarrow> walk \<Rightarrow> walk partial"
    and D :: "ptr set"
    and I :: "gui \<Rightarrow> bool"
  assumes walk_step: "walk child s =
      (if child = null then Some (Inr s)
       else bindO (visit child s) (\<lambda>s.
            bindO (Some (alive (views (snd s) child))) (\<lambda>c.
            bindO (walk (fFirstChild c) s) (\<lambda>s.
            bindO (Some (alive (views (snd s) child))) (\<lambda>c. walk (fNextSibling c) s)))))"
    and visit_keeps: "I (snd s) \<Longrightarrow> v \<in> D \<Longrightarrow> v \<in> dom (views (snd s)) \<Longrightarrow>
      \<exists>s'. visit v s = Some (Inr s') \<and> views (snd s') = views (snd s) \<and> I (snd s')"
begin

lemma visit_all_keeps:
  "I (snd s) \<Longrightarrow> set vs \<subseteq> D \<Longrightarrow> set vs \<subseteq> dom (views (snd s)) \<Longrightarrow> \<exists>s'. visit_all visit vs s = Some (Inr s') \<and> views (snd s') = views (snd s) \<and> I (snd s')"
proof (induction vs arbitrary: s)
  case (Cons v vs)
  then obtain s1 where "visit v s = Some (Inr s1)" "views (snd s1) = views (snd s)" "I (snd s1)"
    using visit_keeps [of s v] by auto
  then show ?case using Cons.IH [of s1] Cons.prems by auto
qed simp

lemma walk_siblings:
  assumes "seg vs v prev (map vt_root ts) null f" "views (snd s) = vs" "I (snd s)" "\<forall>t\<in>set ts. set (preorder t) \<subseteq> dom vs \<inter> D"
    "\<And>t x s. t \<in> set ts \<Longrightarrow> vs (vt_root t) = Some x \<Longrightarrow> views (snd s) = vs \<Longrightarrow> I (snd s) \<Longrightarrow>
      walk (fFirstChild x) s = visit_all visit (concat (map preorder (vt_branches t))) s"
  shows "walk f s = visit_all visit (concat (map preorder ts)) s"
  using assms
proof (induction ts arbitrary: prev f s)
  case (Cons t ts)
  obtain u us where t: "t = VTree u us" by (cases t)
  obtain x where x: "f = u" "u \<noteq> null" "vs u = Some x" "seg vs v u (map vt_root ts) null (fNextSibling x)"
    using Cons.prems(1) t by auto
  obtain s1 where s1: "visit u s = Some (Inr s1)" "views (snd s1) = vs" "I (snd s1)"
    using visit_keeps [of s u] Cons.prems(2-4) domI [of vs u x] x(3) t by auto
  have w: "walk (fFirstChild x) s1 = visit_all visit (concat (map preorder us)) s1"
    using Cons.prems(5) [of t x s1] x(3) s1 t by simp
  have "set (concat (map preorder us)) \<subseteq> dom vs" "set (concat (map preorder us)) \<subseteq> D" using Cons.prems(4) t by auto
  then obtain s2 where s2: "visit_all visit (concat (map preorder us)) s1 = Some (Inr s2)" "views (snd s2) = vs" "I (snd s2)"
    using visit_all_keeps [OF s1(3), of "concat (map preorder us)"] s1(2) by auto
  have "walk (fNextSibling x) s2 = visit_all visit (concat (map preorder ts)) s2"
    using Cons.IH [OF x(4) s2(2,3)] Cons.prems(4,5) by simp
  then show ?case using x s1 s2 w t by (subst walk_step) (simp add: visit_all_append)
qed (simp add: walk_step)

lemma walk_tree:
  assumes "family vs kids"
  shows "rooted vs kids t \<Longrightarrow> set (preorder t) \<subseteq> D \<Longrightarrow> vs (vt_root t) = Some x \<Longrightarrow> views (snd s) = vs \<Longrightarrow> I (snd s) \<Longrightarrow>
    walk (fFirstChild x) s = visit_all visit (concat (map preorder (vt_branches t))) s"
proof (induction t arbitrary: x s)
  case (VTree v ts)
  have "seg vs v null (map vt_root ts) null (fFirstChild x)" using familyD(3) [OF assms, of v x] VTree.prems(1,3) by simp
  moreover have "\<forall>t\<in>set ts. set (preorder t) \<subseteq> dom vs \<inter> D" using rooted_dom [of vs kids] VTree.prems(1,2) by auto
  ultimately show ?case
    using walk_siblings [of vs v null ts "fFirstChild x" s] VTree.IH VTree.prems by (auto intro!: walk_siblings)
qed

end

section \<open>The view under the pointer, in whole coordinates\<close>

text \<open>
  From the root of a tree down: as long as a child contains the point, to the first one that does. The point is
  relative to the view that was reached.
\<close>

definition in_frame :: "geometry \<Rightarrow> int \<Rightarrow> int \<Rightarrow> ptr \<Rightarrow> bool" where
  "in_frame geo x y v \<longleftrightarrow> g_x geo v \<le> x \<and> x \<le> g_x geo v + g_w geo v \<and> g_y geo v \<le> y \<and> y \<le> g_y geo v + g_h geo v"

function under :: "geometry \<Rightarrow> int \<Rightarrow> int \<Rightarrow> vtree \<Rightarrow> ptr \<times> int \<times> int" where
  "under geo x y (VTree v ts) =
     (case find (\<lambda>t. in_frame geo x y (vt_root t)) ts of
        None \<Rightarrow> (v, x, y)
      | Some t \<Rightarrow> under geo (x - g_x geo (vt_root t)) (y - g_y geo (vt_root t)) t)"
  by pat_completeness auto

termination
proof (relation "measure (\<lambda>(geo, x, y, t). size t)")
  fix geo x y v ts t
  assume "find (\<lambda>t. in_frame geo x y (vt_root t)) ts = Some t"
  then have "t \<in> set ts" by (auto simp: find_Some_iff)
  then show "((geo, x - g_x geo (vt_root t), y - g_y geo (vt_root t), t), (geo, x, y, VTree v ts)) \<in> measure (\<lambda>(geo, x, y, t). size t)"
    using size_list_estimation' [of t ts "size t" size] by simp
qed simp

lemma View_Frame_whole:
  assumes "whole_view geo vs v" "vs v = Some x" "\<bar>g_x geo v\<bar> < 2 ^ 20" "\<bar>g_y geo v\<bar> < 2 ^ 20"
  shows "View_Frame x = int_rect (g_x geo v) (g_y geo v) (g_x geo v + g_w geo v) (g_y geo v + g_h geo v)"
proof -
  have x: "fParentOffset x = int_point (g_x geo v) (g_y geo v)" "fBounds x = int_rect 0 0 (g_w geo v) (g_h geo v)"
    "\<bar>g_w geo v\<bar> < 2 ^ 20" "\<bar>g_h geo v\<bar> < 2 ^ 20"
    using assms(1,2) by (auto simp: whole_view_def)
  have "OffsetTo (int_rect 0 0 (g_w geo v) (g_h geo v)) (fint (g_x geo v)) (fint (g_y geo v)) =
      int_rect (g_x geo v) (g_y geo v) (g_w geo v - 0 + g_x geo v) (g_h geo v - 0 + g_y geo v)"
    by (rule OffsetTo_int) (use x(3,4) assms(3,4) in \<open>auto simp: abs_less_iff\<close>)
  then show ?thesis by (simp add: View_Frame_def Bounds_def x OffsetToCopy_def int_point_def Point_new_def algebra_simps del: fint_exact)
qed

lemma Contains_whole:
  assumes "whole_view geo vs v" "vs v = Some c" "\<bar>g_x geo v\<bar> < 2 ^ 20" "\<bar>g_y geo v\<bar> < 2 ^ 20" "\<bar>x\<bar> < 2 ^ 22" "\<bar>y\<bar> < 2 ^ 22"
  shows "Contains (View_Frame c) (int_point x y) = in_frame geo x y v"
proof -
  have "\<bar>g_w geo v\<bar> < 2 ^ 20" "\<bar>g_h geo v\<bar> < 2 ^ 20" using assms(1) by (auto simp: whole_view_def)
  then show ?thesis unfolding View_Frame_whole [OF assms(1-4)]
    by (subst Contains_int) (use assms(3-6) in \<open>auto simp: exact_def in_frame_def abs_less_iff\<close>)
qed

text \<open>All views of the tree are small, and the point stays small on the way down.\<close>

definition near :: "geometry \<Rightarrow> views \<Rightarrow> int \<Rightarrow> int \<Rightarrow> vtree \<Rightarrow> bool" where
  "near geo vs x y t \<longleftrightarrow>
     (\<forall>v\<in>set (concat (map preorder (vt_branches t))). whole_view geo vs v \<and> \<bar>g_x geo v\<bar> < 2 ^ 20 \<and> \<bar>g_y geo v\<bar> < 2 ^ 20) \<and>
     \<bar>x\<bar> + sum_abs (g_x geo) (concat (map preorder (vt_branches t))) < 2 ^ 22 \<and>
     \<bar>y\<bar> + sum_abs (g_y geo) (concat (map preorder (vt_branches t))) < 2 ^ 22"

lemma sum_abs_branch: "t \<in> set ts \<Longrightarrow> sum_abs f (preorder t) \<le> sum_abs f (concat (map preorder ts))"
proof (induction ts)
  case (Cons u ts)
  then show ?case using sum_abs_pos [of f "preorder u"] sum_abs_pos [of f "concat (map preorder ts)"] by auto
qed simp

lemma near_branch:
  assumes "near geo vs x y (VTree v ts)" "t \<in> set ts"
  shows "near geo vs (x - g_x geo (vt_root t)) (y - g_y geo (vt_root t)) t"
proof -
  obtain u us where t: "t = VTree u us" by (cases t)
  have "\<bar>x\<bar> + sum_abs (g_x geo) (preorder t) < 2 ^ 22" "\<bar>y\<bar> + sum_abs (g_y geo) (preorder t) < 2 ^ 22"
    using assms sum_abs_branch [OF assms(2), of "g_x geo"] sum_abs_branch [OF assms(2), of "g_y geo"]
    unfolding near_def by auto
  moreover have "\<forall>v\<in>set (preorder t). whole_view geo vs v \<and> \<bar>g_x geo v\<bar> < 2 ^ 20 \<and> \<bar>g_y geo v\<bar> < 2 ^ 20"
    using assms by (auto simp: near_def)
  ultimately show ?thesis using t by (auto simp: near_def)
qed

lemma child_under_ok:
  assumes "seg vs v prev (map vt_root ts) null f" "\<bar>x\<bar> < 2 ^ 22" "\<bar>y\<bar> < 2 ^ 22"
    "\<forall>t\<in>set ts. whole_view geo vs (vt_root t) \<and> \<bar>g_x geo (vt_root t)\<bar> < 2 ^ 20 \<and> \<bar>g_y geo (vt_root t)\<bar> < 2 ^ 20"
  shows "child_under vs (int_point x y) f =
    Some (Inr (case find (\<lambda>t. in_frame geo x y (vt_root t)) ts of None \<Rightarrow> null | Some t \<Rightarrow> vt_root t))"
  using assms
proof (induction ts arbitrary: prev f)
  case (Cons t ts)
  then show ?case by (subst child_under.simps) (auto simp: Contains_whole)
qed (simp add: child_under.simps)

lemma view_under_ok:
  assumes "family vs kids"
  shows "rooted vs kids t \<Longrightarrow> near geo vs x y t \<Longrightarrow>
    view_under vs (int_point x y) (vt_root t) = Some (Inr (case under geo x y t of (v, x', y') \<Rightarrow> (v, int_point x' y')))"
proof (induction geo x y t rule: under.induct)
  case (1 geo x y v ts)
  obtain w where w: "vs v = Some w" "seg vs v null (map vt_root ts) null (fFirstChild w)"
    using familyD(3) [OF assms] "1.prems"(1) by fastforce
  have small: "\<bar>x\<bar> < 2 ^ 22" "\<bar>y\<bar> < 2 ^ 22" 
    using "1.prems"(2) sum_abs_pos [of "g_x geo" "concat (map preorder ts)"] sum_abs_pos [of "g_y geo" "concat (map preorder ts)"]
    unfolding near_def by auto
  have root: "vt_root t \<in> set (preorder t)" for t by (cases t) simp
  have "\<forall>t\<in>set ts. whole_view geo vs (vt_root t) \<and> \<bar>g_x geo (vt_root t)\<bar> < 2 ^ 20 \<and> \<bar>g_y geo (vt_root t)\<bar> < 2 ^ 20"
    using "1.prems"(2) root by (auto simp: near_def)
  note c = child_under_ok [OF w(2) small this]
  show ?case
  proof (cases "find (\<lambda>t. in_frame geo x y (vt_root t)) ts")
    case None
    then show ?thesis using w c by (simp add: view_under.simps)
  next
    case (Some t)
    then have t: "t \<in> set ts" by (auto simp: find_Some_iff)
    obtain u where u: "vs (vt_root t) = Some u" "vt_root t \<noteq> null"
      using seg_member [OF w(2), of "vt_root t"] t by auto
    have "whole_view geo vs (vt_root t)" "\<bar>g_x geo (vt_root t)\<bar> < 2 ^ 20" "\<bar>g_y geo (vt_root t)\<bar> < 2 ^ 20"
      using "1.prems"(2) t root by (auto simp: near_def)
    then have "ConvertFromParent u (Some (int_point x y)) = Some (int_point (x - g_x geo (vt_root t)) (y - g_y geo (vt_root t)))"
      using u(1) small Point_add_int [of x y "g_x geo (vt_root t)" "g_y geo (vt_root t)"] by (auto simp: ConvertFromParent_def whole_view_def)
    moreover have "rooted vs kids t" using "1.prems"(1) t by simp
    ultimately show ?thesis using "1.IH" [OF Some _ near_branch [OF "1.prems"(2) t]] w c u Some
      by (subst view_under.simps) simp
  qed
qed

text \<open>Where the root of a tree lies at the origin of the screen, these are the coordinates that every other view converts to.\<close>

lemma placed_member:
  assumes "family vs kids"
  shows "rooted vs kids t \<Longrightarrow> placed geo vs ps t \<Longrightarrow> v \<in> set (preorder t) \<Longrightarrow> \<exists>qs u. placed geo vs qs u \<and> vt_root u = v"
proof (induction t arbitrary: ps)
  case (VTree w ts)
  obtain x where x: "vs w = Some x" "w \<noteq> null" using VTree.prems(1) familyD(1) [OF assms] by auto
  show ?case
  proof (cases "v = w")
    case True
    then show ?thesis using VTree.prems(2) by (metis vtree.sel(1))
  next
    case False
    then obtain t where t: "t \<in> set ts" "v \<in> set (preorder t)" using VTree.prems(3) by auto
    then have "vt_root t \<in> set (kids w)" using VTree.prems(1) by auto
    then obtain y where y: "vs (vt_root t) = Some y" "fParent y = w" using family_kid [OF assms x(1)] by blast
    have "placed geo vs (w # ps) t" using placed_branch [OF VTree.prems(2) t(1) y x(2)] .
    then show ?thesis using VTree.IH [OF t(1) _ _ t(2)] VTree.prems(1) t(1) by auto
  qed
qed

lemma from_screen_placed:
  assumes "placed geo vs ps t" "\<bar>x\<bar> < 2 ^ 20" "\<bar>y\<bar> < 2 ^ 20"
  shows "from_screen vs (vt_root t) (int_point x y) =
    Some (Inr (int_point (x - at_x geo (vt_root t # ps)) (y - at_y geo (vt_root t # ps))))"
proof -
  have two: "(2 :: int) ^ 23 = 8 * 2 ^ 20" by simp
  have "\<bar>x\<bar> + (\<Sum>p\<leftarrow>vt_root t # ps. \<bar>g_x geo p\<bar>) < 2 ^ 23" "\<bar>y\<bar> + (\<Sum>p\<leftarrow>vt_root t # ps. \<bar>g_y geo p\<bar>) < 2 ^ 23"
    using placed_path(1,2) [OF assms(1)] assms(2-3) two unfolding sum_abs_def by linarith+
  from ConvertToScreen_path [OF _ placed_offsets [OF assms(1)] this] assms(1)
  show ?thesis by (simp add: from_screen_def placed_def at_x_def at_y_def)
qed

lemma under_from_screen:
  assumes "family vs kids"
  shows "rooted vs kids t \<Longrightarrow> placed geo vs ps t \<Longrightarrow> \<bar>X\<bar> < 2 ^ 20 \<Longrightarrow> \<bar>Y\<bar> < 2 ^ 20 \<Longrightarrow>
    x = X - at_x geo (vt_root t # ps) \<Longrightarrow> y = Y - at_y geo (vt_root t # ps) \<Longrightarrow> under geo x y t = (v, x', y') \<Longrightarrow>
    v \<in> set (preorder t) \<and> from_screen vs v (int_point X Y) = Some (Inr (int_point x' y'))"
proof (induction geo x y t arbitrary: ps rule: under.induct)
  case (1 geo x y w ts)
  obtain z where z: "vs w = Some z" "w \<noteq> null" using "1.prems"(1) familyD(1) [OF assms] by auto
  show ?case
  proof (cases "find (\<lambda>t. in_frame geo x y (vt_root t)) ts")
    case None
    then show ?thesis using "1.prems" from_screen_placed [OF "1.prems"(2-4)] by auto
  next
    case (Some t)
    then have t: "t \<in> set ts" by (auto simp: find_Some_iff)
    then have "vt_root t \<in> set (kids w)" using "1.prems"(1) by auto
    then obtain u where u: "vs (vt_root t) = Some u" "fParent u = w" using family_kid [OF assms z(1)] by blast
    have p: "placed geo vs (w # ps) t" using placed_branch [OF "1.prems"(2) t u z(2)] .
    have "v \<in> set (preorder t) \<and> from_screen vs v (int_point X Y) = Some (Inr (int_point x' y'))"
      by (rule "1.IH" [OF Some _ p "1.prems"(3,4)]) (use "1.prems" t Some in \<open>auto simp: at_Cons\<close>)
    then show ?thesis using t by auto
  qed
qed

section \<open>The copies of the message\<close>

text \<open>A mouse message as it comes in, with memory for the fields that are added.\<close>

definition mouse_ok :: "env \<Rightarrow> message \<Rightarrow> point \<Rightarrow> bool" where
  "mouse_ok env msg p \<longleftrightarrow> (\<forall>k. e_alloc env k) \<and> message_ok msg \<and> (\<forall>n\<in>set (nodes msg). sizes_ok n) \<and> float_point p \<and>
     what msg \<in> {B_MOUSE_MOVED, B_MOUSE_DOWN, B_MOUSE_UP} \<and>
     Message.fields (nodes msg) screen_where_key = Some (B_POINT_TYPE, [point_bytes p]) \<and>
     Message.fields (nodes msg) transit_key = None \<and> Message.fields (nodes msg) where_key = None \<and> Message.fields (nodes msg) view_where_key = None"

text \<open>What is added: the transit for a movement, the position for a click, and the position once more under another name.\<close>

definition added :: "message \<Rightarrow> 32 word \<Rightarrow> point \<Rightarrow> byte list \<rightharpoonup> type_code \<times> byte list list" where
  "added msg transit p =
     (Message.fields (nodes msg))
       (if what msg = B_MOUSE_MOVED then transit_key else where_key \<mapsto>
          (if what msg = B_MOUSE_MOVED then (B_UINT32_TYPE, [le 4 (unat transit)]) else (B_POINT_TYPE, [point_bytes p])),
        view_where_key \<mapsto> (B_POINT_TYPE, [point_bytes p]))"

definition carries :: "message \<Rightarrow> 32 word \<Rightarrow> point \<Rightarrow> message \<Rightarrow> bool" where
  "carries msg transit p m \<longleftrightarrow> message_ok m \<and> what m = what msg \<and> Message.fields (nodes m) = added msg transit p"

lemma keys_ok: "name_ok transit_key" "name_ok where_key" "name_ok view_where_key" "name_ok screen_where_key"
    "transit_key \<noteq> view_where_key" "where_key \<noteq> view_where_key" "transit_key \<noteq> where_key" "buttons_key \<noteq> transit_key"
    "buttons_key \<noteq> where_key" "buttons_key \<noteq> view_where_key" "buttons_key \<noteq> screen_where_key" "screen_where_key \<noteq> transit_key"
    "screen_where_key \<noteq> where_key" "screen_where_key \<noteq> view_where_key" "name_ok buttons_key"
  by (simp_all add: name_ok_def transit_key_def where_key_def view_where_key_def screen_where_key_def buttons_key_def B_FIELD_NAME_LENGTH_def)

lemma add_transit_ok:
  assumes "\<forall>k. e_alloc env k" "message_ok m" "Message.fields (nodes m) transit_key = None"
  shows "\<exists>t. add_transit env c m = Inr t \<and> message_ok t \<and> what t = what m \<and>
    Message.fields (nodes t) = (Message.fields (nodes m))(transit_key \<mapsto> (B_UINT32_TYPE, [le 4 (unat c)]))"
  using AddT_new [OF assms(2) keys_ok(1) assms(3), of "e_alloc env" "le 4 (unat c)" B_UINT32_TYPE] assms(1)
  by (auto simp: add_transit_def AddUInt32_def)

lemma add_point_ok:
  assumes "\<forall>k. e_alloc env k" "message_ok m" "name_ok nm" "Message.fields (nodes m) nm = None"
  shows "\<exists>t. add_point env nm p m = Inr t \<and> message_ok t \<and> what t = what m \<and>
    Message.fields (nodes t) = (Message.fields (nodes m))(nm \<mapsto> (B_POINT_TYPE, [point_bytes p]))"
  using AddT_new [OF assms(2-4), of "e_alloc env" "point_bytes p" B_POINT_TYPE] assms(1)
  by (auto simp: add_point_def AddPoint_def)

lemma mouse_codes: "B_MOUSE_MOVED \<noteq> B_MOUSE_DOWN" "B_MOUSE_MOVED \<noteq> B_MOUSE_UP" "B_MOUSE_DOWN \<noteq> B_MOUSE_UP"
  by (simp_all add: B_MOUSE_MOVED_def B_MOUSE_DOWN_def B_MOUSE_UP_def)

text \<open>Adding the fields to a message with those of the original.\<close>

lemma stamp_ok:
  assumes "mouse_ok env msg p" "message_ok m" "what m = what msg" "nodes m = nodes msg"
  shows "what msg = B_MOUSE_MOVED \<Longrightarrow>
      \<exists>t u. add_transit env c m = Inr t \<and> add_point env view_where_key q t = Inr u \<and> carries msg c q u"
    "what msg \<noteq> B_MOUSE_MOVED \<Longrightarrow>
      \<exists>t u. add_point env where_key q m = Inr t \<and> add_point env view_where_key q t = Inr u \<and> carries msg c q u"
proof -
  note ok = assms(1) [unfolded mouse_ok_def]
  have a: "\<forall>k. e_alloc env k" using ok by blast
  show "\<exists>t u. add_transit env c m = Inr t \<and> add_point env view_where_key q t = Inr u \<and> carries msg c q u" if w: "what msg = B_MOUSE_MOVED"
  proof -
    obtain t where t: "add_transit env c m = Inr t" "message_ok t" "what t = what m"
        "Message.fields (nodes t) = (Message.fields (nodes m))(transit_key \<mapsto> (B_UINT32_TYPE, [le 4 (unat c)]))"
      using add_transit_ok [OF a assms(2), of c] ok assms(4) by auto
    have "Message.fields (nodes t) view_where_key = None" using t(4) ok assms(4) keys_ok by auto
    from add_point_ok [OF a t(2) keys_ok(3) this, of q] show ?thesis
      using t assms(3,4) w by (auto simp: carries_def added_def)
  qed
  show "\<exists>t u. add_point env where_key q m = Inr t \<and> add_point env view_where_key q t = Inr u \<and> carries msg c q u" if w: "what msg \<noteq> B_MOUSE_MOVED"
  proof -
    obtain t where t: "add_point env where_key q m = Inr t" "message_ok t" "what t = what m"
        "Message.fields (nodes t) = (Message.fields (nodes m))(where_key \<mapsto> (B_POINT_TYPE, [point_bytes q]))"
      using add_point_ok [OF a assms(2) keys_ok(2), of q] ok assms(4) by auto
    have "Message.fields (nodes t) view_where_key = None" using t(4) ok assms(4) keys_ok by auto
    from add_point_ok [OF a t(2) keys_ok(3) this, of q] show ?thesis
      using t assms(3,4) w by (auto simp: carries_def added_def)
  qed
qed

lemma copy_mouse_message:
  assumes "mouse_ok env msg p"
  shows "\<exists>c. Message_copy (e_alloc env) msg = Inr c \<and> what c = what msg \<and> nodes c = nodes msg \<and> message_ok c"
proof -
  have "message_ok msg" "\<forall>n\<in>set (nodes msg). sizes_ok n" "\<forall>k. e_alloc env k" using assms unfolding mouse_ok_def by blast+
  from Message_copy_ok [OF this] show ?thesis using message_ok_nodes \<open>message_ok msg\<close> by metis
qed

text \<open>A receiver that neither moves views about nor changes the window; what it does to the messages of the window is free.\<close>

definition quiet :: "receiver \<Rightarrow> bool" where
  "quiet received \<longleftrightarrow> (\<forall>v m g. \<exists>g'. received v m g = Some (Inr g') \<and> views g' = views g \<and> windows g' = windows g \<and> hooks g' = hooks g)"

definition told :: "views \<Rightarrow> message \<Rightarrow> point \<Rightarrow> 32 word \<Rightarrow> ptr \<Rightarrow> hook \<Rightarrow> bool" where
  "told vs msg p transit v h \<longleftrightarrow> (\<exists>q m. from_screen vs v p = Some (Inr q) \<and> h = Received v m \<and> carries msg transit q m)"

text \<open>Only the recorded calls are new.\<close>

definition recorded :: "gui \<Rightarrow> hook list \<Rightarrow> gui \<Rightarrow> bool" where
  "recorded g hs g' \<longleftrightarrow> views g' = views g \<and> windows g' = windows g \<and> hooks g' = hooks g @ hs"

lemma recorded_refl: "recorded g [] g" by (simp add: recorded_def)

lemma recorded_trans: "recorded g hs g1 \<Longrightarrow> recorded g1 hs' g2 \<Longrightarrow> recorded g (hs @ hs') g2"
  by (simp add: recorded_def)

lemma deliver_quiet: "quiet received \<Longrightarrow> \<exists>g'. deliver received v m g = Some (Inr g') \<and> recorded g [Received v m] g'"
  unfolding quiet_def deliver_def recorded_def by (metis (no_types, lifting) call_hook_def gui.ext_inject gui.surjective gui.update_convs(4))

lemma send_copy_ok:
  assumes "quiet received" "mouse_ok env msg p" "from_screen (views g) v p = Some (Inr q)"
  shows "\<exists>g' h. send_copy env received p msg v g = Some (Inr g') \<and> told (views g) msg p B_OUTSIDE_VIEW v h \<and> recorded g [h] g'"
proof -
  obtain c where c: "Message_copy (e_alloc env) msg = Inr c" "what c = what msg" "nodes c = nodes msg" and ok: "message_ok c"
    using copy_mouse_message [OF assms(2)] by blast
  note st = stamp_ok [where c = B_OUTSIDE_VIEW and q = q, OF assms(2) ok c(2,3)]
  obtain u where "send_copy env received p msg v g = deliver received v u g" "carries msg B_OUTSIDE_VIEW q u"
  proof (cases "what msg = B_MOUSE_MOVED")
    case True
    then show ?thesis using st(1) c assms(3) that by (auto simp: send_copy_def)
  next
    case False
    then show ?thesis using st(2) c assms(3) that by (auto simp: send_copy_def)
  qed
  then show ?thesis using deliver_quiet [OF assms(1), of v u g] assms(3) by (auto simp: told_def)
qed

lemma send_exited_ok:
  assumes "quiet received" "mouse_ok env msg p" "from_screen (views g) v p = Some (Inr q)" "what msg = B_MOUSE_MOVED"
  shows "\<exists>g' h. send_exited env received p msg v g = Some (Inr g') \<and> told (views g) msg p B_EXITED_VIEW v h \<and> recorded g [h] g'"
proof -
  obtain c where c: "Message_copy (e_alloc env) msg = Inr c" "what c = what msg" "nodes c = nodes msg" and ok: "message_ok c"
    using copy_mouse_message [OF assms(2)] by blast
  obtain u where "send_exited env received p msg v g = deliver received v u g" "carries msg B_EXITED_VIEW q u"
    using stamp_ok(1) [where c = B_EXITED_VIEW and q = q, OF assms(2) ok c(2,3) assms(4)] c assms(3) by (auto simp: send_exited_def)
  then show ?thesis using deliver_quiet [OF assms(1), of v u g] assms(3) by (auto simp: told_def)
qed

section \<open>The two walks\<close>

definition event_visit :: "env \<Rightarrow> receiver \<Rightarrow> point \<Rightarrow> message \<Rightarrow> ptr \<Rightarrow> ptr \<Rightarrow> walk \<Rightarrow> walk partial" where
  "event_visit env received p msg target child s =
     bindO (Some (alive (views (snd s) child))) (\<lambda>c.
     if EventMask c AND B_POINTER_EVENTS \<noteq> 0 then
       bindO (if child \<noteq> target then send_copy env received p msg child (snd s) else Some (Inr (snd s))) (\<lambda>g. Some (Inr (True, g)))
     else Some (Inr s))"

definition pulse_visit :: "(ptr \<Rightarrow> gui \<Rightarrow> gui partial) \<Rightarrow> ptr \<Rightarrow> walk \<Rightarrow> walk partial" where
  "pulse_visit pulse child s =
     bindO (Some (alive (views (snd s) child))) (\<lambda>c.
     if Flags c AND B_PULSE_NEEDED \<noteq> 0 then bindO (pulse child (call_hook (Pulsed child) (snd s))) (\<lambda>g. Some (Inr (True, g)))
     else Some (Inr s))"

definition events_ready :: "env \<Rightarrow> receiver \<Rightarrow> point \<Rightarrow> message \<Rightarrow> ptr set \<Rightarrow> gui \<Rightarrow> bool" where
  "events_ready env received p msg D g \<longleftrightarrow> quiet received \<and> mouse_ok env msg p \<and>
     (\<forall>v\<in>D. \<exists>q. from_screen (views g) v p = Some (Inr q))"

definition quiet_pulse :: "(ptr \<Rightarrow> gui \<Rightarrow> gui partial) \<Rightarrow> bool" where
  "quiet_pulse pulse \<longleftrightarrow> (\<forall>v g. \<exists>g'. pulse v g = Some (Inr g') \<and> views g' = views g \<and> windows g' = windows g \<and> hooks g' = hooks g)"

definition wants_events :: "views \<Rightarrow> ptr \<Rightarrow> bool" where
  "wants_events vs v \<longleftrightarrow> (\<exists>c. vs v = Some c \<and> EventMask c AND B_POINTER_EVENTS \<noteq> 0)"

definition wants_pulse :: "views \<Rightarrow> ptr \<Rightarrow> bool" where
  "wants_pulse vs v \<longleftrightarrow> (\<exists>c. vs v = Some c \<and> Flags c AND B_PULSE_NEEDED \<noteq> 0)"

lemma event_visit_ok:
  assumes "events_ready env received p msg D (snd s)" "v \<in> D" "v \<in> dom (views (snd s))"
  shows "\<exists>g' hs. event_visit env received p msg target v s = Some (Inr (fst s \<or> wants_events (views (snd s)) v, g')) \<and>
    recorded (snd s) hs g' \<and>
    list_all2 (told (views (snd s)) msg p B_OUTSIDE_VIEW) (filter (\<lambda>v. wants_events (views (snd s)) v \<and> v \<noteq> target) [v]) hs"
proof -
  obtain c where c: "views (snd s) v = Some c" using assms(3) by blast
  obtain q where q: "from_screen (views (snd s)) v p = Some (Inr q)" using assms(1,2) by (auto simp: events_ready_def)
  note r = assms(1) [unfolded events_ready_def]
  show ?thesis
  proof (cases "EventMask c AND B_POINTER_EVENTS \<noteq> 0 \<and> v \<noteq> target")
    case True
    obtain g' h where "send_copy env received p msg v (snd s) = Some (Inr g')" "told (views (snd s)) msg p B_OUTSIDE_VIEW v h" "recorded (snd s) [h] g'"
      using send_copy_ok [OF _ _ q] r by blast
    then show ?thesis using True c by (intro exI [where x = g'] exI [where x = "[h]"]) (auto simp: event_visit_def wants_events_def)
  next
    case False
    then show ?thesis using c recorded_refl
      by (intro exI [where x = "snd s"] exI [where x = "[]"]) (cases s; auto simp: event_visit_def wants_events_def)
  qed
qed

lemma pulse_visit_ok:
  assumes "quiet_pulse pulse" "v \<in> dom (views (snd s))"
  shows "\<exists>g'. pulse_visit pulse v s = Some (Inr (fst s \<or> wants_pulse (views (snd s)) v, g')) \<and>
    recorded (snd s) (map Pulsed (filter (wants_pulse (views (snd s))) [v])) g'"
proof -
  obtain c where c: "views (snd s) v = Some c" using assms(2) by blast
  obtain g' where "pulse v (call_hook (Pulsed v) (snd s)) = Some (Inr g')" "views g' = views (snd s)" "windows g' = windows (snd s)"
      "hooks g' = hooks (snd s) @ [Pulsed v]"
    using assms(1) [unfolded quiet_pulse_def, rule_format, of v "call_hook (Pulsed v) (snd s)"] by (auto simp: call_hook_def)
  then show ?thesis using c
    by (cases s; cases "Flags c AND B_PULSE_NEEDED = 0") (auto simp: pulse_visit_def wants_pulse_def recorded_def)
qed

interpretation events: preorder_walk "event_visit env received p msg target" "send_events env received p msg target" D
    "events_ready env received p msg D" for env received p msg target D
proof
  fix child s
  show "send_events env received p msg target child s =
      (if child = null then Some (Inr s)
       else bindO (event_visit env received p msg target child s) (\<lambda>s.
            bindO (Some (alive (views (snd s) child))) (\<lambda>c.
            bindO (send_events env received p msg target (fFirstChild c) s) (\<lambda>s.
            bindO (Some (alive (views (snd s) child))) (\<lambda>c. send_events env received p msg target (fNextSibling c) s)))))"
    by (subst send_events.simps) (simp add: event_visit_def bindO_assoc)
next
  fix s :: walk and v
  assume "events_ready env received p msg D (snd s)" "v \<in> D" "v \<in> dom (views (snd s))"
  from event_visit_ok [OF this, of target] this(1)
  show "\<exists>s'. event_visit env received p msg target v s = Some (Inr s') \<and> views (snd s') = views (snd s) \<and> events_ready env received p msg D (snd s')"
    by (auto simp: recorded_def events_ready_def)
qed

interpretation pulses: preorder_walk "pulse_visit pulse" "send_pulse pulse" UNIV "\<lambda>_. quiet_pulse pulse" for pulse
proof
  fix child s
  show "send_pulse pulse child s =
      (if child = null then Some (Inr s)
       else bindO (pulse_visit pulse child s) (\<lambda>s.
            bindO (Some (alive (views (snd s) child))) (\<lambda>c.
            bindO (send_pulse pulse (fFirstChild c) s) (\<lambda>s.
            bindO (Some (alive (views (snd s) child))) (\<lambda>c. send_pulse pulse (fNextSibling c) s)))))"
    by (subst send_pulse.simps) (simp add: pulse_visit_def bindO_assoc)
next
  fix s :: walk and v
  assume "quiet_pulse pulse" "v \<in> dom (views (snd s))"
  from pulse_visit_ok [OF this] this(1)
  show "\<exists>s'. pulse_visit pulse v s = Some (Inr s') \<and> views (snd s') = views (snd s) \<and> quiet_pulse pulse"
    by (auto simp: recorded_def)
qed

lemma event_visits:
  assumes "events_ready env received p msg D (snd s)" "set us \<subseteq> D" "set us \<subseteq> dom (views (snd s))"
  shows "\<exists>g' hs. visit_all (event_visit env received p msg target) us s = Some (Inr (fst s \<or> (\<exists>v\<in>set us. wants_events (views (snd s)) v), g')) \<and>
    recorded (snd s) hs g' \<and>
    list_all2 (told (views (snd s)) msg p B_OUTSIDE_VIEW) (filter (\<lambda>v. wants_events (views (snd s)) v \<and> v \<noteq> target) us) hs"
  using assms
proof (induction us arbitrary: s)
  case Nil
  then show ?case using recorded_refl by (cases s) auto
next
  case (Cons v us)
  obtain g1 hs1 where 1: "event_visit env received p msg target v s = Some (Inr (fst s \<or> wants_events (views (snd s)) v, g1))"
      "recorded (snd s) hs1 g1"
      "list_all2 (told (views (snd s)) msg p B_OUTSIDE_VIEW) (filter (\<lambda>v. wants_events (views (snd s)) v \<and> v \<noteq> target) [v]) hs1"
    using event_visit_ok [OF Cons.prems(1), of v target] Cons.prems(2,3) by auto
  have v1: "views g1 = views (snd s)" using 1(2) by (simp add: recorded_def)
  obtain g2 hs2 where 2: "visit_all (event_visit env received p msg target) us (fst s \<or> wants_events (views (snd s)) v, g1) =
        Some (Inr ((fst s \<or> wants_events (views (snd s)) v) \<or> (\<exists>v\<in>set us. wants_events (views g1) v), g2))"
      "recorded g1 hs2 g2"
      "list_all2 (told (views g1) msg p B_OUTSIDE_VIEW) (filter (\<lambda>v. wants_events (views g1) v \<and> v \<noteq> target) us) hs2"
    using Cons.IH [of "(fst s \<or> wants_events (views (snd s)) v, g1)"] Cons.prems v1 by (auto simp: events_ready_def)
  have "filter P (v # us) = filter P [v] @ filter P us" for P by simp
  then have "list_all2 (told (views (snd s)) msg p B_OUTSIDE_VIEW) (filter (\<lambda>v. wants_events (views (snd s)) v \<and> v \<noteq> target) (v # us)) (hs1 @ hs2)"
    using list_all2_appendI [OF 1(3) 2(3) [unfolded v1]] by metis
  moreover have "visit_all (event_visit env received p msg target) (v # us) s =
      Some (Inr (fst s \<or> (\<exists>v\<in>set (v # us). wants_events (views (snd s)) v), g2))"
    using 1(1) 2(1) v1 by auto
  ultimately show ?case using recorded_trans [OF 1(2) 2(2)] by blast
qed

lemma pulse_visits:
  assumes "quiet_pulse pulse" "set us \<subseteq> dom (views (snd s))"
  shows "\<exists>g'. visit_all (pulse_visit pulse) us s = Some (Inr (fst s \<or> (\<exists>v\<in>set us. wants_pulse (views (snd s)) v), g')) \<and>
    recorded (snd s) (map Pulsed (filter (wants_pulse (views (snd s))) us)) g'"
  using assms(2)
proof (induction us arbitrary: s)
  case Nil
  then show ?case using recorded_refl by (cases s) auto
next
  case (Cons v us)
  obtain g1 where 1: "pulse_visit pulse v s = Some (Inr (fst s \<or> wants_pulse (views (snd s)) v, g1))"
      "recorded (snd s) (map Pulsed (filter (wants_pulse (views (snd s))) [v])) g1"
    using pulse_visit_ok [OF assms(1), of v s] Cons.prems by auto
  have v1: "views g1 = views (snd s)" using 1(2) by (simp add: recorded_def)
  obtain g2 where 2: "visit_all (pulse_visit pulse) us (fst s \<or> wants_pulse (views (snd s)) v, g1) =
        Some (Inr ((fst s \<or> wants_pulse (views (snd s)) v) \<or> (\<exists>v\<in>set us. wants_pulse (views g1) v), g2))"
      "recorded g1 (map Pulsed (filter (wants_pulse (views g1)) us)) g2"
    using Cons.IH [of "(fst s \<or> wants_pulse (views (snd s)) v, g1)"] Cons.prems v1 by auto
  have "map Pulsed (filter P [v]) @ map Pulsed (filter P us) = map Pulsed (filter P (v # us))" for P by simp
  then show ?case using recorded_trans [OF 1(2) 2(2)] 1(1) 2(1) v1 by auto
qed

section \<open>One event\<close>

text \<open>
  \<open>scene\<close>: the views of the tree lie at whole coordinates below the view on top, which lies at the origin, and
  the pointer was last seen over one of them, or over none.
\<close>

definition scene :: "geometry \<Rightarrow> (ptr \<Rightarrow> ptr list) \<Rightarrow> vtree \<Rightarrow> ptr \<Rightarrow> window \<Rightarrow> gui \<Rightarrow> bool" where
  "scene geo kids t win w g \<longleftrightarrow> windows g win = Some w \<and> top_view w = vt_root t \<and> family (views g) kids \<and> rooted (views g) kids t \<and>
     placed geo (views g) [] t \<and> g_x geo (vt_root t) = 0 \<and> g_y geo (vt_root t) = 0 \<and>
     (fLastMouseMovedView w = null \<or> fLastMouseMovedView w \<in> set (preorder t))"

definition below :: "vtree \<Rightarrow> ptr list" where "below t = concat (map preorder (vt_branches t))"

text \<open>
  To whom one event goes, with which transit: to the views that asked for all events and are not under the
  pointer, to the view that the pointer leaves, and to the view \<open>v\<close> under the pointer. For a click the transit
  means nothing.
\<close>

definition deliveries :: "views \<Rightarrow> window \<Rightarrow> message \<Rightarrow> vtree \<Rightarrow> ptr \<Rightarrow> (ptr \<times> 32 word) list" where
  "deliveries vs w msg t v =
     (if fViewsEvents w AND B_POINTER_EVENTS \<noteq> 0
      then map (\<lambda>u. (u, B_OUTSIDE_VIEW)) (filter (\<lambda>u. wants_events vs u \<and> u \<noteq> v) (below t)) else []) @
     (if what msg = B_MOUSE_MOVED \<and> fLastMouseMovedView w \<notin> {null, v} then [(fLastMouseMovedView w, B_EXITED_VIEW)] else []) @
     [(v, if fLastMouseMovedView w = v then B_INSIDE_VIEW else B_ENTERED_VIEW)]"

definition told_all :: "views \<Rightarrow> message \<Rightarrow> point \<Rightarrow> (ptr \<times> 32 word) list \<Rightarrow> hook list \<Rightarrow> bool" where
  "told_all vs msg p ds hs \<longleftrightarrow> list_all2 (\<lambda>d. told vs msg p (snd d) (fst d)) ds hs"

lemma told_all_append: "told_all vs msg p ds hs \<Longrightarrow> told_all vs msg p ds' hs' \<Longrightarrow> told_all vs msg p (ds @ ds') (hs @ hs')"
  by (simp add: told_all_def list_all2_appendI)

lemma preorder_below: "preorder t = vt_root t # below t"
  by (cases t) (simp add: below_def)

text \<open>What the window keeps of the event.\<close>

definition seen :: "views \<Rightarrow> vtree \<Rightarrow> ptr \<Rightarrow> window \<Rightarrow> window" where
  "seen vs t v w = w\<lparr>fLastMouseMovedView := v,
     fViewsEvents := if \<exists>u\<in>set (below t). wants_events vs u then fViewsEvents w else fViewsEvents w AND NOT B_POINTER_EVENTS\<rparr>"

lemma scene_ready:
  assumes "scene geo kids t win w g" "quiet received" "mouse_ok env msg (int_point x y)" "\<bar>x\<bar> < 2 ^ 20" "\<bar>y\<bar> < 2 ^ 20"
  shows "events_ready env received (int_point x y) msg (set (preorder t)) g"
proof -
  have "\<exists>q. from_screen (views g) v (int_point x y) = Some (Inr q)" if v: "v \<in> set (preorder t)" for v
  proof -
    obtain qs u where "placed geo (views g) qs u" "vt_root u = v"
      using placed_member [OF _ _ _ v, of "views g" kids geo "[]"] assms(1) by (auto simp: scene_def)
    then show ?thesis using from_screen_placed [OF _ assms(4,5)] by blast
  qed
  then show ?thesis using assms(2,3) by (simp add: events_ready_def)
qed

lemma AND_NOT_idem: "(a AND m) = 0 \<Longrightarrow> a AND NOT m = (a :: 'a::len word)"
  by (simp add: bit_eq_iff bit_simps) blast

lemma send_masked_ok:
  assumes "scene geo kids t win w g" "events_ready env received p msg (set (preorder t)) g"
  shows "\<exists>g' hs. send_masked env received win p msg v g = Some (Inr g') \<and> views g' = views g \<and> hooks g' = hooks g @ hs \<and>
    windows g' = (windows g)(win := Some ((seen (views g) t v w)\<lparr>fLastMouseMovedView := fLastMouseMovedView w\<rparr>)) \<and>
    told_all (views g) msg p (if fViewsEvents w AND B_POINTER_EVENTS \<noteq> 0
      then map (\<lambda>u. (u, B_OUTSIDE_VIEW)) (filter (\<lambda>u. wants_events (views g) u \<and> u \<noteq> v) (below t)) else []) hs"
proof (cases "fViewsEvents w AND B_POINTER_EVENTS \<noteq> 0")
  case True
  note sc = assms(1) [unfolded scene_def]
  obtain x where x: "views g (vt_root t) = Some x" using sc by (cases t) auto
  have b: "set (below t) \<subseteq> set (preorder t)" "set (below t) \<subseteq> dom (views g)" 
    using rooted_dom [of "views g" kids t] sc preorder_below [of t] by auto
  obtain g1 hs where r: "visit_all (event_visit env received p msg v) (below t) (False, g) =
        Some (Inr (\<exists>u\<in>set (below t). wants_events (views g) u, g1))" "recorded g hs g1"
      "list_all2 (told (views g) msg p B_OUTSIDE_VIEW) (filter (\<lambda>u. wants_events (views g) u \<and> u \<noteq> v) (below t)) hs"
    using event_visits [of env received p msg "set (preorder t)" "(False, g)" "below t" v] assms(2) b by auto
  have "send_events env received p msg v (fFirstChild x) (False, g) = visit_all (event_visit env received p msg v) (below t) (False, g)"
    unfolding below_def by (rule events.walk_tree [where D = "set (preorder t)"]) (use sc x assms(2) in auto)
  moreover have "told_all (views g) msg p (map (\<lambda>u. (u, B_OUTSIDE_VIEW)) (filter (\<lambda>u. wants_events (views g) u \<and> u \<noteq> v) (below t))) hs"
    using r(3) by (simp add: told_all_def list_all2_map1)
  ultimately show ?thesis using True sc x r
    by (intro exI [where x = "if \<exists>u\<in>set (below t). wants_events (views g) u then g1
          else put_window win (w\<lparr>fViewsEvents := fViewsEvents w AND NOT B_POINTER_EVENTS\<rparr>) g1"] exI [where x = hs])
       (auto simp: send_masked_def recorded_def put_window_def seen_def fun_upd_idem)
next
  case False
  then show ?thesis using assms(1) AND_NOT_idem [of "fViewsEvents w" B_POINTER_EVENTS]
    by (intro exI [where x = g] exI [where x = "[]"])
       (auto simp: send_masked_def scene_def seen_def told_all_def fun_upd_idem)
qed

lemma send_transit_ok:
  assumes "windows g win = Some w" "quiet received" "mouse_ok env msg p"
    "fLastMouseMovedView w = null \<or> (\<exists>q. from_screen (views g) (fLastMouseMovedView w) p = Some (Inr q))"
  shows "\<exists>m g' hs u. send_transit env received win p q v msg g = Some (Inr (m, g')) \<and> recorded g hs g' \<and>
    told_all (views g) msg p (if what msg = B_MOUSE_MOVED \<and> fLastMouseMovedView w \<notin> {null, v}
      then [(fLastMouseMovedView w, B_EXITED_VIEW)] else []) hs \<and>
    add_point env view_where_key q m = Inr u \<and>
    carries msg (if fLastMouseMovedView w = v then B_INSIDE_VIEW else B_ENTERED_VIEW) q u"
proof -
  have ok: "message_ok msg" using assms(3) by (simp add: mouse_ok_def)
  let ?c = "if fLastMouseMovedView w = v then B_INSIDE_VIEW else B_ENTERED_VIEW"
  show ?thesis
  proof (cases "what msg = B_MOUSE_MOVED")
    case True
    obtain m u where m: "add_transit env ?c msg = Inr m" "add_point env view_where_key q m = Inr u" "carries msg ?c q u"
      using stamp_ok(1) [where c = ?c and q = q, OF assms(3) ok refl refl True] by blast
    show ?thesis
    proof (cases "fLastMouseMovedView w \<in> {null, v}")
      case True
      then show ?thesis using m assms(1) \<open>what msg = B_MOUSE_MOVED\<close> recorded_refl
        by (intro exI [where x = m] exI [where x = g] exI [where x = "[]"] exI [where x = u]) (auto simp: send_transit_def told_all_def)
    next
      case False
      then obtain r where "from_screen (views g) (fLastMouseMovedView w) p = Some (Inr r)" using assms(4) by auto
      from send_exited_ok [OF assms(2,3) this True] obtain g' h where "send_exited env received p msg (fLastMouseMovedView w) g = Some (Inr g')"
        "told (views g) msg p B_EXITED_VIEW (fLastMouseMovedView w) h" "recorded g [h] g'" by blast
      then show ?thesis using m assms(1) True False
        by (intro exI [where x = m] exI [where x = g'] exI [where x = "[h]"] exI [where x = u]) (auto simp: send_transit_def told_all_def)
    qed
  next
    case False
    obtain m u where "add_point env where_key q msg = Inr m" "add_point env view_where_key q m = Inr u" "carries msg ?c q u"
      using stamp_ok(2) [where c = ?c and q = q, OF assms(3) ok refl refl False] by blast
    then show ?thesis using False recorded_refl
      by (intro exI [where x = m] exI [where x = g] exI [where x = "[]"] exI [where x = u]) (auto simp: send_transit_def told_all_def)
  qed
qed

lemma Dispatch_mouse_ok:
  assumes "scene geo kids t win w g" "quiet received" "mouse_ok env msg (int_point x y)" "\<bar>x\<bar> < 2 ^ 20" "\<bar>y\<bar> < 2 ^ 20"
    "target = null \<or> target = win" "v = fst (under geo x y t)"
  shows "\<exists>g' hs. Dispatch_mouse env received win msg target g = Some (Inr g') \<and> views g' = views g \<and> hooks g' = hooks g @ hs \<and>
    windows g' = (windows g)(win := Some (if fViewsEvents w AND B_POINTER_EVENTS \<noteq> 0 then seen (views g) t v w else w\<lparr>fLastMouseMovedView := v\<rparr>)) \<and>
    told_all (views g) msg (int_point x y) (deliveries (views g) w msg t v) hs"
proof -
  note sc = assms(1) [unfolded scene_def]
  let ?p = "int_point x y"
  obtain x' y' where u: "under geo x y t = (v, x', y')" using assms(7) by (metis prod.collapse)
  have found: "FindPoint B_ORIGIN msg (Some (c_str screen_where_key)) 0 = Inr (B_OK, ?p)"
    by (rule FindPoint_field) (use assms(3) keys_ok in \<open>auto simp: mouse_ok_def\<close>)
  have two: "(2 :: int) ^ 22 = 4 * 2 ^ 20" by simp
  have pl: "sum_abs (g_x geo) (preorder t) < 2 ^ 20" "sum_abs (g_y geo) (preorder t) < 2 ^ 20" "\<forall>v\<in>set (preorder t). whole_view geo (views g) v"
    using sc by (auto simp: placed_def)
  have le: "\<bar>f v\<bar> \<le> sum_abs f us" if "v \<in> set us" for f :: "ptr \<Rightarrow> int" and v us
    using that sum_abs_pos [of f] by (induction us) force+
  have near: "near geo (views g) x y t"
    using pl assms(4,5) two le [of _ "preorder t" "g_x geo"] le [of _ "preorder t" "g_y geo"]
    unfolding near_def below_def [symmetric] preorder_below [of t] by fastforce
  have hit: "view_under (views g) ?p (top_view w) = Some (Inr (v, int_point x' y'))"
    using view_under_ok [OF _ _ near, of kids] sc u by simp
  have fs: "v \<in> set (preorder t)" "from_screen (views g) v ?p = Some (Inr (int_point x' y'))"
    using under_from_screen [of "views g" kids t geo "[]" x y x y v x' y'] sc u assms(4,5) by (auto simp: at_x_def at_y_def)
  note ready = scene_ready [OF assms(1-5)]
  obtain g1 hs1 where 1: "send_masked env received win ?p msg v g = Some (Inr g1)" "views g1 = views g" "hooks g1 = hooks g @ hs1"
      "windows g1 = (windows g)(win := Some ((seen (views g) t v w)\<lparr>fLastMouseMovedView := fLastMouseMovedView w\<rparr>))"
      "told_all (views g) msg ?p (if fViewsEvents w AND B_POINTER_EVENTS \<noteq> 0
         then map (\<lambda>u. (u, B_OUTSIDE_VIEW)) (filter (\<lambda>u. wants_events (views g) u \<and> u \<noteq> v) (below t)) else []) hs1"
    using send_masked_ok [OF assms(1) ready] by blast
  let ?w = "(seen (views g) t v w)\<lparr>fLastMouseMovedView := fLastMouseMovedView w\<rparr>"
  have w1: "windows g1 win = Some ?w" using 1(4) by simp
  have lw: "fLastMouseMovedView ?w = fLastMouseMovedView w" by simp
  have last: "fLastMouseMovedView ?w = null \<or> (\<exists>q. from_screen (views g1) (fLastMouseMovedView ?w) ?p = Some (Inr q))"
    using ready sc 1(2) by (auto simp: events_ready_def)
  obtain m g2 hs2 u where 2: "send_transit env received win ?p (int_point x' y') v msg g1 = Some (Inr (m, g2))" "recorded g1 hs2 g2"
      "told_all (views g) msg ?p (if what msg = B_MOUSE_MOVED \<and> fLastMouseMovedView w \<notin> {null, v}
        then [(fLastMouseMovedView w, B_EXITED_VIEW)] else []) hs2"
      "add_point env view_where_key (int_point x' y') m = Inr u"
      "carries msg (if fLastMouseMovedView w = v then B_INSIDE_VIEW else B_ENTERED_VIEW) (int_point x' y') u"
    using send_transit_ok [where q = "int_point x' y'" and v = v, OF w1 assms(2,3) last] unfolding lw 1(2) by blast
  obtain g3 where 3: "deliver received v u g2 = Some (Inr g3)" "recorded g2 [Received v u] g3"
    using deliver_quiet [OF assms(2)] by blast
  have d: "told_all (views g) msg ?p (deliveries (views g) w msg t v) (hs1 @ hs2 @ [Received v u])"
    unfolding deliveries_def
    by (intro told_all_append 1(5) 2(3)) (use fs(2) 2(5) in \<open>auto simp: told_all_def told_def\<close>)
  have w3: "windows g3 win = Some ?w" using w1 2(2) 3(2) by (simp add: recorded_def)
  have "Dispatch_mouse env received win msg target g = Some (Inr (put_window win (?w\<lparr>fLastMouseMovedView := v\<rparr>) g3))"
    using assms(6) found hit 1(1) 2(1,4) 3(1) w3 sc by (auto simp: Dispatch_mouse_def Window_ConvertFromScreen_def Let_def)
  then show ?thesis using d 1(2-4) 2(2) 3(2) AND_NOT_idem [of "fViewsEvents w" B_POINTER_EVENTS]
    by (intro exI [where x = "put_window win (?w\<lparr>fLastMouseMovedView := v\<rparr>) g3"] exI [where x = "hs1 @ hs2 @ [Received v u]"])
       (auto simp: put_window_def recorded_def seen_def)
qed

section \<open>Crossing the borders of views\<close>

text \<open>The transits that a view is told by movements, but for those outside of it.\<close>

definition transit_in :: "message \<Rightarrow> 32 word option" where
  "transit_in m = (case FindUInt32 m (Some (c_str transit_key)) 0 of Inl _ \<Rightarrow> None | Inr (st, c) \<Rightarrow> if st = B_OK then Some c else None)"

fun transits :: "ptr \<Rightarrow> hook list \<Rightarrow> 32 word list" where
  "transits v [] = []"
| "transits v (h # hs) =
     (case h of
        Received u m \<Rightarrow> if u = v \<and> what m = B_MOUSE_MOVED \<and> transit_in m \<notin> {None, Some B_OUTSIDE_VIEW} then [the (transit_in m)] else []
      | _ \<Rightarrow> []) @ transits v hs"

text \<open>
  The protocol for one view, from whether the pointer is in it to whether it is in it afterwards: it enters, stays
  inside and leaves again.
\<close>

fun follows :: "bool \<Rightarrow> 32 word list \<Rightarrow> bool option" where
  "follows inside [] = Some inside"
| "follows inside (c # cs) =
     (if c = B_ENTERED_VIEW \<and> \<not> inside \<or> c = B_INSIDE_VIEW \<and> inside then follows True cs
      else if c = B_EXITED_VIEW \<and> inside then follows False cs
      else None)"

lemmas transit_codes = B_ENTERED_VIEW_def B_INSIDE_VIEW_def B_EXITED_VIEW_def B_OUTSIDE_VIEW_def

lemma transits_append: "transits v (hs @ hs') = transits v hs @ transits v hs'"
  by (induction hs) simp_all

lemma follows_append: "follows b (cs @ cs') = Option.bind (follows b cs) (\<lambda>b. follows b cs')"
  by (induction b cs rule: follows.induct) simp_all

lemma transit_in_carries:
  assumes "carries msg c p m" "what msg = B_MOUSE_MOVED"
  shows "transit_in m = Some c"
proof -
  have m: "message_ok m" "Message.fields (nodes m) transit_key = Some (B_UINT32_TYPE, [le 4 (unat c)])"
    using assms keys_ok by (auto simp: carries_def added_def)
  have "unat c < 256 ^ 4" using unsigned_less [of c] by simp
  then have "word_of_nat (un_le (le 4 (unat c))) = c" by (simp add: un_le_le)
  moreover have "(256 :: nat) ^ 4 = 4294967296" by simp
  ultimately show ?thesis using FindData_lookup [OF m(1) keys_ok(1), of B_UINT32_TYPE 0 None] m(2)
    by (simp add: transit_in_def FindUInt32_def FindT_def lookup_def read_bytes_def)
qed

lemma transits_told:
  assumes "what msg = B_MOUSE_MOVED"
  shows "told_all vs msg p ds hs \<Longrightarrow> transits v hs = map snd (filter (\<lambda>d. fst d = v \<and> snd d \<noteq> B_OUTSIDE_VIEW) ds)"
  unfolding told_all_def
proof (induction ds hs rule: list_all2_induct)
  case (Cons d ds h hs)
  then obtain q m where "h = Received (fst d) m" "carries msg (snd d) q m" by (auto simp: told_def)
  moreover from this have "what m = B_MOUSE_MOVED" "transit_in m = Some (snd d)"
    using assms transit_in_carries by (auto simp: carries_def)
  ultimately show ?case using Cons.IH by auto
qed simp

lemma deliveries_follow:
  assumes "what msg = B_MOUSE_MOVED" "u \<noteq> null"
  shows "follows (fLastMouseMovedView w = u) (map snd (filter (\<lambda>d. fst d = u \<and> snd d \<noteq> B_OUTSIDE_VIEW) (deliveries vs w msg t v))) = Some (v = u)"
  using assms by (auto simp: deliveries_def transit_codes filter_map comp_def)

fun dispatch_all :: "env \<Rightarrow> receiver \<Rightarrow> ptr \<Rightarrow> message list \<Rightarrow> gui \<Rightarrow> gui partial" where
  "dispatch_all env received win [] g = Some (Inr g)"
| "dispatch_all env received win (m # ms) g = bindO (Dispatch_mouse env received win m win g) (dispatch_all env received win ms)"

definition hits :: "geometry \<Rightarrow> vtree \<Rightarrow> ptr \<Rightarrow> (message \<times> int \<times> int) list \<Rightarrow> ptr" where
  "hits geo t v evs = fold (\<lambda>(m, x, y) _. fst (under geo x y t)) evs v"

lemma under_member: "fst (under geo x y t) \<in> set (preorder t)"
proof (induction geo x y t rule: under.induct)
  case (1 geo x y v ts)
  show ?case
  proof (cases "find (\<lambda>t. in_frame geo x y (vt_root t)) ts")
    case (Some t)
    then have "t \<in> set ts" by (auto simp: find_Some_iff)
    then show ?thesis using "1.IH" [OF Some] Some by auto
  qed simp
qed

lemma scene_seen:
  assumes "scene geo kids t win w g" "views g' = views g" "windows g' win = Some w'" "top_view w' = top_view w"
    "fLastMouseMovedView w' = fst (under geo x y t)"
  shows "scene geo kids t win w' g'"
  using assms under_member by (simp add: scene_def)

lemma crossings:
  assumes "scene geo kids t win w g" "quiet received" "u \<noteq> null"
    "\<forall>(m, x, y)\<in>set evs. mouse_ok env m (int_point x y) \<and> what m = B_MOUSE_MOVED \<and> \<bar>x\<bar> < 2 ^ 20 \<and> \<bar>y\<bar> < 2 ^ 20"
  shows "\<exists>g' w' hs. dispatch_all env received win (map fst evs) g = Some (Inr g') \<and> hooks g' = hooks g @ hs \<and>
    windows g' win = Some w' \<and> fLastMouseMovedView w' = hits geo t (fLastMouseMovedView w) evs \<and>
    follows (fLastMouseMovedView w = u) (transits u hs) = Some (fLastMouseMovedView w' = u)"
  using assms(1,4)
proof (induction evs arbitrary: g w)
  case Nil
  then show ?case by (auto simp: hits_def scene_def)
next
  case (Cons e evs)
  obtain m x y where e: "e = (m, x, y)" by (cases e)
  let ?v = "fst (under geo x y t)" and ?w = "\<lambda>w. if fViewsEvents w AND B_POINTER_EVENTS \<noteq> 0 then seen (views g) t (fst (under geo x y t)) w
    else w\<lparr>fLastMouseMovedView := fst (under geo x y t)\<rparr>"
  have m: "mouse_ok env m (int_point x y)" "what m = B_MOUSE_MOVED" "\<bar>x\<bar> < 2 ^ 20" "\<bar>y\<bar> < 2 ^ 20" using Cons.prems(2) e by auto
  obtain g1 hs1 where 1: "Dispatch_mouse env received win m win g = Some (Inr g1)" "views g1 = views g" "hooks g1 = hooks g @ hs1"
      "windows g1 = (windows g)(win := Some (?w w))" "told_all (views g) m (int_point x y) (deliveries (views g) w m t ?v) hs1"
    using Dispatch_mouse_ok [where target = win and v = ?v, OF Cons.prems(1) assms(2) m(1,3,4)] by blast
  have w1: "windows g1 win = Some (?w w)" "fLastMouseMovedView (?w w) = ?v" "top_view (?w w) = top_view w" using 1(4) by (simp_all add: seen_def)
  have "scene geo kids t win (?w w) g1" using scene_seen [OF Cons.prems(1) 1(2) w1(1,3,2)] .
  from Cons.IH [OF this] obtain g2 w2 hs2 where 2: "dispatch_all env received win (map fst evs) g1 = Some (Inr g2)" "hooks g2 = hooks g1 @ hs2"
      "windows g2 win = Some w2" "fLastMouseMovedView w2 = hits geo t ?v evs"
      "follows (?v = u) (transits u hs2) = Some (fLastMouseMovedView w2 = u)"
    using Cons.prems(2) w1(2) by auto
  have "follows (fLastMouseMovedView w = u) (transits u hs1) = Some (?v = u)"
    unfolding transits_told [OF m(2) 1(5)] by (rule deliveries_follow [OF m(2) assms(3)])
  then show ?case using 1(1,3) 2 e by (auto simp: transits_append follows_append hits_def)
qed

section \<open>Properties\<close>

lemma mouse_message_ok:
  assumes "\<forall>k. e_alloc env k" "code \<in> {B_MOUSE_MOVED, B_MOUSE_DOWN, B_MOUSE_UP}" "float_point (Point_new (pointer_x m) (pointer_y m))"
  shows "\<exists>msg. mouse_message (e_alloc env) code m = Inr msg \<and> mouse_ok env msg (Point_new (pointer_x m) (pointer_y m)) \<and> what msg = code"
proof -
  let ?p = "Point_new (pointer_x m) (pointer_y m)"
  have a: "AddPoint (e_alloc env) (Message_new code) (Some (c_str screen_where_key)) ?p =
      Inr (pushNode (Message_new code) screen_where_key B_POINT_TYPE (point_bytes ?p))"
    using addNode_fits [where alloc = "e_alloc env" and d = "point_bytes ?p" and rest = "[]", OF _ _ keys_ok(4), of "Message_new code" B_POINT_TYPE] assms(1)
    by (simp add: AddPoint_def AddT_def AddData_def)
  have b: "AddUInt32 (e_alloc env) t (Some (c_str buttons_key)) v = Inr (pushNode t buttons_key B_UINT32_TYPE (le 4 (unat v)))" for t v
    using addNode_fits [where alloc = "e_alloc env" and d = "le 4 (unat v)" and rest = "[]", OF _ _ keys_ok(15), of t B_UINT32_TYPE] assms(1)
    by (simp add: AddUInt32_def AddT_def AddData_def)
  define msg where "msg = snd (pushNode (snd (pushNode (Message_new code) screen_where_key B_POINT_TYPE (point_bytes ?p))) buttons_key B_UINT32_TYPE
    (le 4 (unat (pointer_buttons m))))"
  have n: "nodes msg = [\<lparr>name = screen_where_key, type = B_POINT_TYPE, data = [point_bytes ?p]\<rparr>,
      \<lparr>name = buttons_key, type = B_UINT32_TYPE, data = [le 4 (unat (pointer_buttons m))]\<rparr>]" "what msg = code"
    using keys_ok by (simp_all add: msg_def pushNode_def node_index_def Message_new_def nodes_def Let_def)
  have "length (point_bytes ?p) = 8" by (simp add: point_bytes_def)
  then have "mouse_ok env msg ?p" using assms n keys_ok
    by (auto simp: mouse_ok_def message_ok_def sizes_ok_def Message.fields_def name_ok_def B_FIELD_NAME_LENGTH_def screen_where_key_def buttons_key_def)
  moreover have "mouse_message (e_alloc env) code m = Inr msg"
    by (auto simp: mouse_message_def a b msg_def split_beta)
  ultimately show ?thesis using n by blast
qed

text \<open>
  A pulse of the window calls the hook of every view below the top that wants pulses, once and in preorder, and
  the window stops asking for pulses when no view wants them.
\<close>

lemma pulses_in_preorder:
  assumes "windows g win = Some w" "top_view w = vt_root t" "family (views g) kids" "rooted (views g) kids t" "quiet_pulse pulse"
  shows "\<exists>g'. Dispatch_pulse pulse received win msg win g = Some (Inr g') \<and> views g' = views g \<and>
    hooks g' = hooks g @ map Pulsed (filter (wants_pulse (views g)) (below t)) \<and>
    windows g' = (windows g)(win := Some (w\<lparr>fViewsEvents :=
      if \<exists>v\<in>set (below t). wants_pulse (views g) v then fViewsEvents w else fViewsEvents w AND NOT B_PULSE_NEEDED\<rparr>))"
proof -
  obtain x where x: "views g (vt_root t) = Some x" using assms(4) by (cases t) auto
  have b: "set (below t) \<subseteq> dom (views g)" using rooted_dom [OF assms(4)] preorder_below [of t] by auto
  obtain g1 where r: "visit_all (pulse_visit pulse) (below t) (False, g) = Some (Inr (\<exists>v\<in>set (below t). wants_pulse (views g) v, g1))"
      "recorded g (map Pulsed (filter (wants_pulse (views g)) (below t))) g1"
    using pulse_visits [OF assms(5), of "below t" "(False, g)"] b by auto
  have "send_pulse pulse (fFirstChild x) (False, g) = visit_all (pulse_visit pulse) (below t) (False, g)"
    unfolding below_def by (rule pulses.walk_tree [OF assms(3,4)]) (use x assms(5) in auto)
  then show ?thesis using assms(1,2) x r
    by (intro exI [where x = "if \<exists>v\<in>set (below t). wants_pulse (views g) v then g1
          else put_window win (w\<lparr>fViewsEvents := fViewsEvents w AND NOT B_PULSE_NEEDED\<rparr>) g1"])
       (auto simp: Dispatch_pulse_def recorded_def put_window_def fun_upd_idem)
qed


text \<open>The window 9 of the example before, where the view 2 has asked for all events and the pointer comes from it to the view 3.\<close>

definition pointer_gui :: gui where
  "pointer_gui = update_gui\<lparr>views := update_views(2 \<mapsto> (the (update_views 2))\<lparr>fEventMask := B_POINTER_EVENTS\<rparr>),
     windows := [9 \<mapsto> (the (windows update_gui 9))\<lparr>fLastMouseMovedView := 2, fViewsEvents := B_POINTER_EVENTS\<rparr>]\<rparr>"

definition pointer_window :: window where "pointer_window = the (windows pointer_gui 9)"

definition silent :: receiver where "silent v m g = Some (Inr g)"

lemma pointer_scene:
  "scene update_geometry ((\<lambda>_. [])(1 := [2, 3])) (VTree 1 [VTree 2 [], VTree 3 []]) 9 pointer_window pointer_gui"
proof -
  have "family (views pointer_gui) ((\<lambda>_. [])(1 := [2, 3]))"
    by (rule familyI) (auto simp: pointer_gui_def update_gui_def update_views_def plain_view_def split: if_splits)
  moreover have "placed update_geometry (views pointer_gui) [] (VTree 1 [VTree 2 [], VTree 3 []])"
    by (auto simp: placed_def pointer_gui_def update_views_def update_geometry_def plain_view_def whole_view_def)
  ultimately show ?thesis by (auto simp: scene_def pointer_window_def pointer_gui_def update_gui_def update_views_def update_geometry_def)
qed

lemma moved_message:
  assumes "\<bar>x\<bar> < 2 ^ 20" "\<bar>y\<bar> < 2 ^ 20"
  shows "\<exists>m. mouse_message (e_alloc sample_env) B_MOUSE_MOVED \<lparr>pointer_x = fint x, pointer_y = fint y, pointer_buttons = 0\<rparr> = Inr m \<and>
    mouse_ok sample_env m (int_point x y) \<and> what m = B_MOUSE_MOVED"
proof -
  have "exact x" "exact y" using assms by (auto simp: exact_def)
  then have "float_point (int_point x y)"
    using round32_int by (simp add: float_point_def int_point_def Point_new_def is_float_def)
  then show ?thesis using mouse_message_ok [of sample_env B_MOUSE_MOVED "\<lparr>pointer_x = fint x, pointer_y = fint y, pointer_buttons = 0\<rparr>"]
    by (simp add: sample_env_def int_point_def)
qed


text \<open>C21. Crossing the borders of views: over any movements of the pointer, every view is told to be entered, then inside any
  number of times, and then exited before it is entered again, starting and ending according to where the
  pointer was and is last.\<close>

theorem pointer_crossings:
  assumes "scene geo kids t win w g" "quiet received" "u \<noteq> null"
    "\<forall>(m, x, y)\<in>set evs. mouse_ok env m (int_point x y) \<and> what m = B_MOUSE_MOVED \<and> \<bar>x\<bar> < 2 ^ 20 \<and> \<bar>y\<bar> < 2 ^ 20"
  shows "\<exists>g' w' hs. dispatch_all env received win (map fst evs) g = Some (Inr g') \<and> hooks g' = hooks g @ hs \<and>
    windows g' win = Some w' \<and> fLastMouseMovedView w' = hits geo t (fLastMouseMovedView w) evs \<and>
    follows (fLastMouseMovedView w = u) (transits u hs) = Some (fLastMouseMovedView w' = u)"
  using crossings [OF assms] .

lemma pointer_crossings_witness:
  "\<exists>m1 m2 g' w' hs. dispatch_all sample_env silent 9 [m1, m2, m2] pointer_gui = Some (Inr g') \<and> hooks g' = hs \<and>
    windows g' 9 = Some w' \<and> fLastMouseMovedView w' = 3 \<and> follows True (transits 2 hs) = Some False"
proof -
  let ?t = "VTree 1 [VTree 2 [], VTree 3 []]"
  obtain m1 m2 where m: "mouse_ok sample_env m1 (int_point 20 20)" "what m1 = B_MOUSE_MOVED"
      "mouse_ok sample_env m2 (int_point 52 53)" "what m2 = B_MOUSE_MOVED"
    using moved_message [of 20 20] moved_message [of 52 53] by auto
  have q: "quiet silent" by (simp add: quiet_def silent_def)
  have h: "hits update_geometry ?t 2 [(m1, 20, 20), (m2, 52, 53), (m2, 52, 53)] = 3"
    by (simp add: hits_def in_frame_def update_geometry_def)
  have l: "fLastMouseMovedView pointer_window = 2" "hooks pointer_gui = []"
    by (simp_all add: pointer_window_def pointer_gui_def update_gui_def)
  obtain g' w' hs where "dispatch_all sample_env silent 9 [m1, m2, m2] pointer_gui = Some (Inr g')" "hooks g' = hooks pointer_gui @ hs"
      "windows g' 9 = Some w'" "fLastMouseMovedView w' = hits update_geometry ?t 2 [(m1, 20, 20), (m2, 52, 53), (m2, 52, 53)]"
      "follows True (transits 2 hs) = Some (fLastMouseMovedView w' = 2)"
    using pointer_crossings [OF pointer_scene q, of 2 "[(m1, 20, 20), (m2, 52, 53), (m2, 52, 53)]" sample_env] m l(1) by auto
  then have "dispatch_all sample_env silent 9 [m1, m2, m2] pointer_gui = Some (Inr g') \<and> hooks g' = hs \<and>
      windows g' 9 = Some w' \<and> fLastMouseMovedView w' = 3 \<and> follows True (transits 2 hs) = Some False"
    using h l(2) by simp
  then show ?thesis by blast
qed

end
