(* ===== verification/FloatOps.thy ===== *)
theory FloatOps
  imports MessageRect
begin

text \<open>
  More operations on \<open>float\<close>: products, quotients, \<open>roundf\<close> and conversions to integers, which sliders, menus and
  windows use. The two zeros are one value, the positive one: a quotient by zero has the sign of the dividend.
\<close>

fun fmul :: "flt \<Rightarrow> flt \<Rightarrow> flt" where
  "fmul (Fin a) (Fin b) = round32 (a * b)"
| "fmul NaN b = NaN"
| "fmul a NaN = NaN"
| "fmul (Inf s) (Inf t) = Inf (s \<noteq> t)"
| "fmul (Inf s) (Fin b) = (if b = 0 then NaN else Inf (s \<noteq> (b < 0)))"
| "fmul (Fin a) (Inf t) = (if a = 0 then NaN else Inf (t \<noteq> (a < 0)))"

fun fdiv :: "flt \<Rightarrow> flt \<Rightarrow> flt" where
  "fdiv (Fin a) (Fin b) = (if b = 0 then (if a = 0 then NaN else Inf (a < 0)) else round32 (a / b))"
| "fdiv NaN b = NaN"
| "fdiv a NaN = NaN"
| "fdiv (Inf s) (Inf t) = NaN"
| "fdiv (Inf s) (Fin b) = Inf (s \<noteq> (b < 0))"
| "fdiv (Fin a) (Inf t) = Fin 0"

text \<open>\<open>roundf\<close>: halves away from zero.\<close>

fun fround :: "flt \<Rightarrow> flt" where
  "fround (Fin a) = Fin (of_int (if 0 \<le> a then \<lfloor>a + 1 / 2\<rfloor> else \<lceil>a - 1 / 2\<rceil>))"
| "fround a = a"

text \<open>The conversion to the unsigned 64-bit type cuts the fraction off; it is undefined outside the range.\<close>

fun to_size_t :: "flt \<Rightarrow> nat outcome" where
  "to_size_t (Fin a) = (if 0 \<le> trunc a \<and> trunc a < 2 ^ 64 then Inr (nat (trunc a)) else Inl Undefined)"
| "to_size_t _ = Inl Undefined"

text \<open>
  The type \<open>double\<close>, where the code mixes it with \<open>float\<close>: products and quotients rounded to 53 digits, and the conversion back.
\<close>

definition round64 :: "rat \<Rightarrow> flt" where
  "round64 x =
     (if x = 0 then Fin 0
      else let u = pow2 (max (exponent \<bar>x\<bar> - 52) (- 1074)); y = of_int (round_half_even (x / u)) * u
           in if 2 ^ 1024 \<le> \<bar>y\<bar> then Inf (y < 0) else Fin y)"

fun dmul :: "flt \<Rightarrow> rat \<Rightarrow> flt" where
  "dmul (Fin a) b = round64 (a * b)"
| "dmul (Inf s) b = (if b = 0 then NaN else Inf (s \<noteq> (b < 0)))"
| "dmul NaN b = NaN"

fun narrow :: "flt \<Rightarrow> flt" where
  "narrow (Fin a) = round32 a"
| "narrow a = a"

lemma fround_fint [simp]: "exact n \<Longrightarrow> fround (Fin (of_int n)) = Fin (of_int n)"
proof -
  have "\<lfloor>of_int n + 1 / 2 :: rat\<rfloor> = n" "\<lceil>of_int n - 1 / 2 :: rat\<rceil> = n"
    by (rule floor_unique; simp) (rule ceiling_unique; simp)
  then show ?thesis by simp
qed

lemma fceil_fint [simp]: "fceil (Fin (of_int n)) = Fin (of_int n)"
  by simp

lemma to_size_t_int: "0 \<le> n \<Longrightarrow> n < 2 ^ 64 \<Longrightarrow> to_size_t (Fin (of_int n)) = Inr (nat n)"
  by simp

text \<open>Halves of integers are exact.\<close>

lemma round32_half:
  assumes "\<bar>n\<bar> < 2 ^ 23"
  shows "round32 (of_int n / 2) = Fin (of_int n / 2)"
proof (cases "n = 0")
  case False
  let ?x = "of_int n / 2 :: rat"
  have b: "\<bar>of_int n :: rat\<bar> < 2 ^ 23" using assms by (metis of_int_abs of_int_less_iff of_int_numeral of_int_power)
  have x: "0 < \<bar>?x\<bar>" "\<bar>?x\<bar> < 2 ^ 22" using False b by simp_all
  have "pow2 (exponent \<bar>?x\<bar>) < pow2 22" using exponent_bounds(1) [OF x(1)] x(2) by (simp add: pow2_def)
  moreover have "pow2 22 \<le> pow2 e" if "22 \<le> e" for e
    using pow2_add [of 22 "nat (e - 22)"] that by (simp add: pow2_def)
  ultimately have "exponent \<bar>?x\<bar> < 22" by (meson not_le not_less)
  then have e: "ulp_exponent ?x < 0" by (simp add: ulp_exponent_def)
  define k where "k = nat (- ulp_exponent ?x) - 1"
  have p: "pow2 (ulp_exponent ?x) = 1 / 2 ^ Suc k" using e by (simp add: pow2_def k_def)
  have q: "?x / pow2 (ulp_exponent ?x) = of_int (n * 2 ^ k)" using p by simp
  have "\<not> 2 ^ 128 \<le> \<bar>?x\<bar>" using x(2) by (simp add: not_le)
  then show ?thesis using False unfolding round32_def Let_def q round_half_even_int by (simp add: p)
qed (simp add: round32_def)

end
