(* ===== verification/WindowFrame.thy ===== *)
theory WindowFrame
  imports FloatOps ViewUpdate
begin

text \<open>
  The size of a window and what is shown of it: \<open>BWindow::impl\<close> and \<open>BWindow\<close> of \<open>kits/interface/Window.cpp\<close>, as far as
  they keep the size, its limits, the buffer, the damaged part and whether the window is hidden. The calls
  of Wayland and of the kernel have no effect on this state and are left out; that they succeed is assumed
  as in the code, which does not test it.
\<close>

section \<open>The state\<close>

text \<open>
  \<open>sk_info\<close>: the size of the image that the library Skia draws, \<open>(0, 0)\<close> before there is one. \<open>wl_buffer\<close>: the size
  of the buffer created last. \<open>sk_surface\<close>: that of the surface for drawing.
\<close>

record surface =
  sf_width :: nat
  sf_height :: nat
  min_width :: int
  min_height :: int
  max_width :: int
  max_height :: int
  shm_pool_size :: nat
  sk_info :: "int \<times> int"
  wl_buffer :: "(int \<times> int) option"
  sk_surface :: "(int \<times> int) option"
  is_hidden :: bool
  is_minimized :: bool
  surface_pending :: bool
  surface_committed :: bool
  damage_x1 :: int
  damage_x2 :: int
  damage_y1 :: int
  damage_y2 :: int

definition INT_MAX :: int where "INT_MAX = 2 ^ 31 - 1"
definition INT_MIN :: int where "INT_MIN = - (2 ^ 31)"

definition Surface_new :: surface where
  "Surface_new = \<lparr>sf_width = 0, sf_height = 0, min_width = 1, min_height = 1, max_width = 2 ^ 15 - 1, max_height = 2 ^ 15 - 1,
     shm_pool_size = 0, sk_info = (0, 0), wl_buffer = None, sk_surface = None, is_hidden = True, is_minimized = False,
     surface_pending = False, surface_committed = False,
     damage_x1 = INT_MAX, damage_x2 = INT_MIN, damage_y1 = INT_MAX, damage_y2 = INT_MIN\<rparr>"

definition no_damage :: "surface \<Rightarrow> surface" where
  "no_damage s = s\<lparr>damage_x1 := INT_MAX, damage_x2 := INT_MIN, damage_y1 := INT_MAX, damage_y2 := INT_MIN\<rparr>"

type_synonym screen_window = "surface \<times> gui"

section \<open>\<open>BWindow::impl\<close>\<close>

text \<open>\<open>top\<close>: the view on top. The sizes are unsigned 64-bit numbers.\<close>

definition set_size :: "env \<Rightarrow> ptr \<Rightarrow> nat \<Rightarrow> nat \<Rightarrow> screen_window \<Rightarrow> screen_window outcome" where
  "set_size env tp width height s =
     (let s1 = (fst s)\<lparr>sf_width := (width + 1) mod 2 ^ 64, sf_height := (height + 1) mod 2 ^ 64\<rparr>
      in bindR (ResizeTo env tp (fint (int width)) (fint (int height)) (snd s)) (\<lambda>g. Inr (s1, g)))"

definition info_isEmpty :: "int \<times> int \<Rightarrow> bool" where "info_isEmpty i \<longleftrightarrow> fst i \<le> 0 \<or> snd i \<le> 0"

definition impl_Frame :: "surface \<Rightarrow> rect" where
  "impl_Frame s =
     (let w = if info_isEmpty (sk_info s) then sf_width s else size_t (fst (sk_info s));
          h = if info_isEmpty (sk_info s) then sf_height s else size_t (snd (sk_info s))
      in Rect_of (Fin 0) (Fin 0) (fint (int (dec64 w))) (fint (int (dec64 h))))"

definition show_window :: "env \<Rightarrow> ptr \<Rightarrow> screen_window \<Rightarrow> screen_window outcome" where
  "show_window env tp s =
     (if is_hidden (fst s) \<and> wl_buffer (fst s) \<noteq> None then
        bindR (Invalidate env tp (snd s)) (\<lambda>g. Inr (no_damage ((fst s)\<lparr>is_hidden := False, surface_committed := False\<rparr>), g))
      else Inr s)"

definition hide_window :: "surface \<Rightarrow> surface" where
  "hide_window s = (if \<not> is_hidden s then s\<lparr>is_hidden := True, surface_committed := False, surface_pending := True\<rparr> else s)"

text \<open>The comparisons with the limits convert these to the unsigned type. \<open>byte_size\<close>: the number of bytes of an image of the given size, which Skia computes.\<close>

definition limit64 :: "nat \<Rightarrow> int \<Rightarrow> int \<Rightarrow> nat" where
  "limit64 n lo hi =
     (let n = if n > size_t lo then n else size_t lo
      in if n > size_t hi then size_t hi else n)"

definition resize_buffer :: "env \<Rightarrow> (int \<Rightarrow> int \<Rightarrow> nat) \<Rightarrow> ptr \<Rightarrow> screen_window \<Rightarrow> screen_window outcome" where
  "resize_buffer env byte_size tp s =
     (let width = limit64 (sf_width (fst s)) (min_width (fst s)) (max_width (fst s));
          height = limit64 (sf_height (fst s)) (min_height (fst s)) (max_height (fst s));
          info = (int32 (int width), int32 (int height));
          s1 = (fst s)\<lparr>sk_info := info\<rparr>;
          new_size = byte_size (fst info) (snd info)
      in if new_size = shm_pool_size s1 then Inr (s1, snd s)
         else
           let s1 = (if shm_pool_size s1 < new_size then s1\<lparr>shm_pool_size := new_size\<rparr> else s1)\<lparr>wl_buffer := Some info\<rparr>
           in bindR (if is_hidden s1 then show_window env tp (s1, snd s) else Inr (s1, snd s)) (\<lambda>s.
              Inr ((fst s)\<lparr>sk_surface := Some info\<rparr>, snd s)))"

definition impl_resize :: "env \<Rightarrow> (int \<Rightarrow> int \<Rightarrow> nat) \<Rightarrow> ptr \<Rightarrow> nat \<Rightarrow> nat \<Rightarrow> screen_window \<Rightarrow> screen_window outcome" where
  "impl_resize env byte_size tp width height s =
     bindR (set_size env tp width height s) (\<lambda>s.
     bindR (resize_buffer env byte_size tp s) (\<lambda>s. Inr ((fst s)\<lparr>surface_pending := True\<rparr>, snd s)))"

text \<open>\<open>minimize\<close> calls the debugger. The limits are sums of \<open>int\<close>: an overflow is undefined. Both read the width.\<close>

definition impl_minimize :: "surface \<Rightarrow> bool \<Rightarrow> surface outcome" where "impl_minimize s m = Inl Debugger"

definition plus_one :: "int \<Rightarrow> int outcome" where "plus_one n = (if n = INT_MAX then Inl Undefined else Inr (n + 1))"

definition set_min_size :: "flt \<times> flt \<Rightarrow> surface \<Rightarrow> surface outcome" where
  "set_min_size sz s =
     bindR (bindR (to_int32 (fst sz)) plus_one) (\<lambda>width.
     bindR (bindR (to_int32 (fst sz)) plus_one) (\<lambda>height.
     Inr (s\<lparr>min_width := width, min_height := height\<rparr>)))"

definition set_max_size :: "flt \<times> flt \<Rightarrow> surface \<Rightarrow> surface outcome" where
  "set_max_size sz s =
     bindR (bindR (to_int32 (fst sz)) plus_one) (\<lambda>width.
     bindR (bindR (to_int32 (fst sz)) plus_one) (\<lambda>height.
     Inr (s\<lparr>max_width := width, max_height := height\<rparr>)))"

definition MinSize :: "surface \<Rightarrow> flt \<times> flt" where "MinSize s = (fint (min_width s - 1), fint (min_height s))"
definition MaxSize :: "surface \<Rightarrow> flt \<times> flt" where "MaxSize s = (fint (max_width s - 1), fint (max_height s - 1))"

definition damage :: "int \<Rightarrow> int \<Rightarrow> int \<Rightarrow> int \<Rightarrow> surface \<Rightarrow> surface outcome" where
  "damage x1 y1 x2 y2 s =
     (if x2 - x1 \<notin> {INT_MIN..INT_MAX} \<or> y2 - y1 \<notin> {INT_MIN..INT_MAX} then Inl Undefined
      else if x2 - x1 < 0 \<or> y2 - y1 < 0 then Inl Debugger
      else
        let s = (if x1 < damage_x1 s then s\<lparr>damage_x1 := x1\<rparr> else s);
            s = (if damage_x2 s < x2 then s\<lparr>damage_x2 := x2\<rparr> else s);
            s = (if y1 < damage_y1 s then s\<lparr>damage_y1 := y1\<rparr> else s);
            s = (if damage_y2 s < y2 then s\<lparr>damage_y2 := y2\<rparr> else s)
        in Inr (s\<lparr>surface_pending := True\<rparr>))"

definition damage_window :: "point \<Rightarrow> point \<Rightarrow> surface \<Rightarrow> surface outcome" where
  "damage_window p1 p2 s =
     bindR (to_int32 (pt_x p1)) (\<lambda>x1. bindR (to_int32 (pt_y p1)) (\<lambda>y1.
     bindR (to_int32 (pt_x p2)) (\<lambda>x2. bindR (to_int32 (pt_y p2)) (\<lambda>y2. damage x1 y1 x2 y2 s))))"

text \<open>
  The end of a round of the thread of the window: pending changes are committed, with the damaged part as
  position and size, if there is one. The differences are of the type \<open>int\<close>.
\<close>

definition commit :: "surface \<Rightarrow> ((int \<times> int \<times> int \<times> int) option \<times> surface) outcome" where
  "commit s =
     (if surface_committed s \<or> \<not> surface_pending s then Inr (None, s)
      else
        let s = s\<lparr>surface_pending := False\<rparr>; width = damage_x2 s - damage_x1 s; height = damage_y2 s - damage_y1 s
        in if width \<notin> {INT_MIN..INT_MAX} \<or> height \<notin> {INT_MIN..INT_MAX} then Inl Undefined
           else if 0 < width \<or> 0 < height
                then Inr (Some (damage_x1 s, damage_y1 s, width, height), (no_damage s)\<lparr>surface_committed := True\<rparr>)
                else Inr (None, s\<lparr>surface_committed := True\<rparr>))"

text \<open>The compositor gives the buffer back, or asks for another size.\<close>

definition buffer_released :: "surface \<Rightarrow> surface" where "buffer_released s = s\<lparr>surface_committed := False\<rparr>"

definition toplevel_configure :: "int \<Rightarrow> int \<Rightarrow> surface \<Rightarrow> surface" where
  "toplevel_configure width height s =
     (if width = 0 \<or> height = 0 then s else s\<lparr>sf_width := size_t width, sf_height := size_t height\<rparr>)"

section \<open>\<open>BWindow\<close>\<close>

text \<open>
  \<open>locks\<close>: whether \<open>Lock()\<close> succeeds. What depends on it ends with \<open>Unlock()\<close>, so that the lock is left as it was.
\<close>

definition Window_ResizeTo :: "env \<Rightarrow> (int \<Rightarrow> int \<Rightarrow> nat) \<Rightarrow> bool \<Rightarrow> ptr \<Rightarrow> flt \<Rightarrow> flt \<Rightarrow> screen_window \<Rightarrow> screen_window outcome" where
  "Window_ResizeTo env byte_size locks tp width height s =
     (if \<not> locks then Inr s
      else
        let width = fround width; height = fround height; mn = MinSize (fst s); mx = MaxSize (fst s);
            width = if fless width (fst mn) then fst mn else if fless (fst mx) width then fst mx else width;
            height = if fless height (snd mn) then snd mn else if fless (snd mx) height then snd mx else height;
            frame = impl_Frame (fst s)
        in if \<not> feq width (Width frame) \<or> \<not> feq height (Height frame)
           then bindR (to_size_t width) (\<lambda>w. bindR (to_size_t height) (\<lambda>h. impl_resize env byte_size tp w h s))
           else Inr s)"

definition Window_ResizeBy :: "env \<Rightarrow> (int \<Rightarrow> int \<Rightarrow> nat) \<Rightarrow> bool \<Rightarrow> ptr \<Rightarrow> flt \<Rightarrow> flt \<Rightarrow> screen_window \<Rightarrow> screen_window outcome" where
  "Window_ResizeBy env byte_size locks tp dx dy s =
     (if locks then let frame = impl_Frame (fst s)
        in Window_ResizeTo env byte_size locks tp (fadd (Width frame) dx) (fadd (Height frame) dy) s
      else Inr s)"

definition SetSizeLimits :: "bool \<Rightarrow> flt \<Rightarrow> flt \<Rightarrow> flt \<Rightarrow> flt \<Rightarrow> surface \<Rightarrow> surface outcome" where
  "SetSizeLimits locks minWidth maxWidth minHeight maxHeight s =
     (if fless maxWidth minWidth \<or> fless maxHeight minHeight then Inr s
      else if \<not> locks then Inr s
      else
        bindR (let mn = MinSize s
               in if \<not> feq minWidth (fst mn) \<or> \<not> feq minHeight (snd mn) then set_min_size (fceil minWidth, fceil minHeight) s
                  else Inr s) (\<lambda>s.
        let mx = MaxSize s
        in if \<not> feq maxWidth (fst mx) \<or> \<not> feq maxHeight (snd mx) then set_max_size (fceil maxWidth, fceil maxHeight) s
           else Inr s))"

text \<open>Minimal width, maximal width, minimal height, maximal height.\<close>

definition GetSizeLimits :: "surface \<Rightarrow> flt \<times> flt \<times> flt \<times> flt" where
  "GetSizeLimits s = (fst (MinSize s), fst (MaxSize s), snd (MinSize s), snd (MaxSize s))"

text \<open>\<open>int16\<close>: the type \<open>short\<close> of the level.\<close>

definition int16 :: "int \<Rightarrow> int" where "int16 n = signed_take_bit 15 n"

definition change_level :: "ptr \<Rightarrow> int \<Rightarrow> gui \<Rightarrow> (int \<times> gui) outcome" where
  "change_level win d g =
     bindR (alive (windows g win)) (\<lambda>w.
     let level = int16 (fShowLevel w + d) in Inr (level, put_window win (w\<lparr>fShowLevel := level\<rparr>) g))"

text \<open>What \<open>Show\<close> does before it runs the looper.\<close>

definition Window_Show :: "env \<Rightarrow> bool \<Rightarrow> ptr \<Rightarrow> ptr \<Rightarrow> screen_window \<Rightarrow> screen_window outcome" where
  "Window_Show env locks tp win s =
     (if locks then
        bindR (change_level win (- 1) (snd s)) (\<lambda>(level, g).
        if level \<le> 0 then show_window env tp (fst s, g) else Inr (fst s, g))
      else Inr s)"

text \<open>The look and the feel of a window. Modal and floating windows cannot be minimised.\<close>

datatype window_type = B_UNTYPED_WINDOW | B_TITLED_WINDOW | B_MODAL_WINDOW | B_DOCUMENT_WINDOW | B_BORDERED_WINDOW | B_FLOATING_WINDOW

datatype window_look = B_BORDERED_WINDOW_LOOK | B_NO_BORDER_WINDOW_LOOK | B_TITLED_WINDOW_LOOK | B_DOCUMENT_WINDOW_LOOK
  | B_MODAL_WINDOW_LOOK | B_FLOATING_WINDOW_LOOK

datatype window_feel = B_NORMAL_WINDOW_FEEL | B_MODAL_SUBSET_WINDOW_FEEL | B_MODAL_APP_WINDOW_FEEL | B_MODAL_ALL_WINDOW_FEEL
  | B_FLOATING_SUBSET_WINDOW_FEEL | B_FLOATING_APP_WINDOW_FEEL | B_FLOATING_ALL_WINDOW_FEEL

definition type2look :: "window_type \<Rightarrow> window_look" where
  "type2look t =
     (case t of B_DOCUMENT_WINDOW \<Rightarrow> B_DOCUMENT_WINDOW_LOOK | B_MODAL_WINDOW \<Rightarrow> B_MODAL_WINDOW_LOOK
      | B_FLOATING_WINDOW \<Rightarrow> B_FLOATING_WINDOW_LOOK | B_BORDERED_WINDOW \<Rightarrow> B_BORDERED_WINDOW_LOOK | _ \<Rightarrow> B_TITLED_WINDOW_LOOK)"

definition type2feel :: "window_type \<Rightarrow> window_feel" where
  "type2feel t =
     (case t of B_MODAL_WINDOW \<Rightarrow> B_MODAL_APP_WINDOW_FEEL | B_FLOATING_WINDOW \<Rightarrow> B_FLOATING_APP_WINDOW_FEEL | _ \<Rightarrow> B_NORMAL_WINDOW_FEEL)"

definition IsModal :: "window_feel \<Rightarrow> bool" where
  "IsModal f \<longleftrightarrow> f = B_MODAL_SUBSET_WINDOW_FEEL \<or> f = B_MODAL_APP_WINDOW_FEEL \<or> f = B_MODAL_ALL_WINDOW_FEEL"

definition IsFloating :: "window_feel \<Rightarrow> bool" where
  "IsFloating f \<longleftrightarrow> f = B_FLOATING_SUBSET_WINDOW_FEEL \<or> f = B_FLOATING_APP_WINDOW_FEEL \<or> f = B_FLOATING_ALL_WINDOW_FEEL"

definition Window_Minimize :: "window_feel \<Rightarrow> bool \<Rightarrow> ptr \<Rightarrow> bool \<Rightarrow> screen_window \<Rightarrow> screen_window outcome" where
  "Window_Minimize feel locks win m s =
     bindR (alive (windows (snd s) win)) (\<lambda>w.
     if IsModal feel \<or> IsFloating feel \<or> Window_IsHidden w \<or> is_minimized (fst s) = m \<or> \<not> locks then Inr s
     else bindR (impl_minimize (fst s) m) (\<lambda>s1. Inr (s1, snd s)))"

definition Window_Hide :: "window_feel \<Rightarrow> bool \<Rightarrow> ptr \<Rightarrow> screen_window \<Rightarrow> screen_window outcome" where
  "Window_Hide feel locks win s =
     (if locks then
        bindR (alive (windows (snd s) win)) (\<lambda>w.
        bindR (if is_minimized (fst s) \<and> fShowLevel w = 0 then Window_Minimize feel locks win False s else Inr s) (\<lambda>s.
        bindR (change_level win 1 (snd s)) (\<lambda>(level, g).
        Inr (if 0 < level then hide_window (fst s) else fst s, g))))
      else Inr s)"

text \<open>The loop of \<open>Quit\<close>, which has locked the window.\<close>

partial_function (option) hide_until_hidden :: "window_feel \<Rightarrow> ptr \<Rightarrow> screen_window \<Rightarrow> screen_window partial" where
  "hide_until_hidden feel win s =
     bindO (Some (alive (windows (snd s) win))) (\<lambda>w.
     if Window_IsHidden w then Some (Inr s) else bindO (Some (Window_Hide feel True win s)) (hide_until_hidden feel win))"

section \<open>Zooming\<close>

record zoom =
  fMaxZoomWidth :: flt
  fMaxZoomHeight :: flt
  fPreviousFrame :: rect

definition SetZoomLimits :: "flt \<Rightarrow> flt \<Rightarrow> zoom \<Rightarrow> zoom" where
  "SetZoomLimits maxWidth maxHeight z = z\<lparr>fMaxZoomWidth := maxWidth, fMaxZoomHeight := maxHeight\<rparr>"

text \<open>\<open>screen\<close>: the frame of the screen. Moving a window has no effect.\<close>

definition Screen_Frame :: "int \<Rightarrow> int \<Rightarrow> int \<Rightarrow> int \<Rightarrow> rect" where
  "Screen_Frame x y width height = Rect_of (fint x) (fint y) (fint (x + width)) (fint (y + height))"

definition zoom_area :: "rect \<Rightarrow> zoom \<Rightarrow> surface \<Rightarrow> rect" where
  "zoom_area screen z s =
     (let maxZoomWidth = fmin (fMaxZoomWidth z) (fst (MaxSize s));
          maxZoomHeight = fmin (fMaxZoomHeight z) (snd (MaxSize s));
          maxZoomWidth = fmin maxZoomWidth (Width screen);
          maxZoomHeight = fmin maxZoomHeight (Height screen);
          area = (if fless maxZoomHeight (Height screen)
                  then InsetBy screen (Fin 0) (fceil (fdiv (fsub (Height screen) maxZoomHeight) (Fin 2))) else screen)
      in if fless maxZoomWidth (Width area)
         then InsetBy area (fceil (fdiv (fsub (Width area) maxZoomWidth) (Fin 2))) (Fin 0) else area)"

definition Zoom :: "env \<Rightarrow> (int \<Rightarrow> int \<Rightarrow> nat) \<Rightarrow> bool \<Rightarrow> ptr \<Rightarrow> rect \<Rightarrow> zoom \<times> screen_window \<Rightarrow> (zoom \<times> screen_window) outcome" where
  "Zoom env byte_size locks tp screen zs =
     (let z = fst zs; s = snd zs; zoomArea = zoom_area screen z (fst s); frame = impl_Frame (fst s)
      in if Rect_IsValid (fPreviousFrame z) \<and> feq (Width frame) (Width zoomArea) \<and> feq (Height frame) (Height zoomArea)
         then bindR (Window_ResizeTo env byte_size locks tp (Width (fPreviousFrame z)) (Height (fPreviousFrame z)) s) (\<lambda>s. Inr (z, s))
         else bindR (Window_ResizeTo env byte_size locks tp (Width zoomArea) (Height zoomArea) s) (\<lambda>s.
              Inr (z\<lparr>fPreviousFrame := frame\<rparr>, s)))"

section \<open>Whole sizes\<close>

text \<open>
  \<open>limits_ok\<close>: limits that leave a choice. \<open>good\<close>: the view on top belongs to the window and has no parent, there is
  memory. \<open>frame_of tp a b s\<close>: image and view on top have the size \<open>a\<close> by \<open>b\<close>, which counts the distances
  of pixels, one less than their number.
\<close>

definition limits_ok :: "surface \<Rightarrow> bool" where
  "limits_ok s \<longleftrightarrow> 0 < min_width s \<and> min_width s \<le> max_width s \<and> max_width s < 2 ^ 20 \<and>
     0 < min_height s \<and> min_height s < max_height s \<and> max_height s < 2 ^ 20"

definition good :: "env \<Rightarrow> (ptr \<Rightarrow> ptr list) \<Rightarrow> ptr \<Rightarrow> ptr \<Rightarrow> gui \<Rightarrow> bool" where
  "good env kids win tp g \<longleftrightarrow> gui_ok kids win g \<and> env_ok env g \<and> (\<exists>x. views g tp = Some x \<and> fWindow x = win \<and> fParent x = null)"

definition frame_of :: "ptr \<Rightarrow> int \<Rightarrow> int \<Rightarrow> screen_window \<Rightarrow> bool" where
  "frame_of tp a b s \<longleftrightarrow> sk_info (fst s) = (a + 1, b + 1) \<and> 0 \<le> a \<and> a < 2 ^ 20 \<and> 0 \<le> b \<and> b < 2 ^ 20 \<and>
     (\<exists>x. views (snd s) tp = Some x \<and> fBounds x = int_rect 0 0 a b)"

definition same_limits :: "surface \<Rightarrow> surface \<Rightarrow> bool" where
  "same_limits s s' \<longleftrightarrow> min_width s' = min_width s \<and> min_height s' = min_height s \<and> max_width s' = max_width s \<and> max_height s' = max_height s"

lemma impl_Frame_int:
  assumes "sk_info s = (a + 1, b + 1)" "0 \<le> a" "a < 2 ^ 20" "0 \<le> b" "b < 2 ^ 20"
  shows "impl_Frame s = int_rect 0 0 a b"
proof -
  have d: "int (dec64 (size_t (n + 1))) = n" if "0 \<le> n" "n < 2 ^ 20" for n
    using that by (simp add: size_t_nonneg dec64_def nat_add_distrib)
  have "fint 0 = Fin 0" by (simp add: exact_def)
  then show ?thesis using assms d by (simp add: impl_Frame_def info_isEmpty_def int_rect_def)
qed

lemma int_rect_sides: "0 \<le> a \<Longrightarrow> a < 2 ^ 20 \<Longrightarrow> 0 \<le> b \<Longrightarrow> b < 2 ^ 20 \<Longrightarrow>
    Width (int_rect 0 0 a b) = fint a \<and> Height (int_rect 0 0 a b) = fint b \<and> Rect_IsValid (int_rect 0 0 a b)"
  using fsub_fint [of a 0] fsub_fint [of b 0]
  by (simp add: Width_def Height_def int_rect_def Rect_of_def Rect_IsValid_def exact_def del: fint_exact add: fle_fint)

lemma gui_ok_bounds:
  assumes "views g v = Some x"
  shows "gui_ok kids win (put_view v (x\<lparr>fBounds := r\<rparr>) g) = gui_ok kids win g"
proof -
  let ?g = "put_view v (x\<lparr>fBounds := r\<rparr>) g"
  have l: "map_option (\<lambda>x. (links x, fFirstChild x)) (views ?g u) = map_option (\<lambda>x. (links x, fFirstChild x)) (views g u)" for u
    using assms by (simp add: put_view_def links_def)
  have f: "family (views ?g) kids = family (views g) kids"
    using family_cong [of "views ?g" "views g" kids] family_cong [of "views g" "views ?g" kids] l by auto
  have w: "in_window ?g win u = in_window g win u" for u using assms by (auto simp: in_window_def put_view_def)
  have "world ?g = world g" "windows ?g = windows g" by (simp_all add: put_view_def)
  moreover have "(\<forall>u y. views ?g u = Some y \<longrightarrow> (\<exists>h. handlers (world g) u = Some h \<and> fLooper h = fWindow y)) =
      (\<forall>u y. views g u = Some y \<longrightarrow> (\<exists>h. handlers (world g) u = Some h \<and> fLooper h = fWindow y))"
    using assms by (auto simp: put_view_def split: if_splits)
  moreover have "(views ?g win = None) = (views g win = None)" using assms by (auto simp: put_view_def)
  ultimately show ?thesis using f w by (simp add: gui_ok_def)
qed

lemma good_resized:
  assumes "good env kids win tp g" "0 \<le> a" "a < 2 ^ 20" "0 \<le> b" "b < 2 ^ 20" "views g tp = Some x" "r_left (fBounds x) = Fin 0" "r_top (fBounds x) = Fin 0"
  shows "ResizeTo env tp (fint a) (fint b) g = Inr (put_view tp (x\<lparr>fBounds := int_rect 0 0 a b\<rparr>) g)"
    "good env kids win tp (put_view tp (x\<lparr>fBounds := int_rect 0 0 a b\<rparr>) g)"
proof -
  have x: "fParent x = null" "fWindow x = win" using assms(1,6) by (auto simp: good_def)
  have z: "Fin 0 = fint 0" by (simp add: exact_def)
  have e: "exact a" "exact b" using assms(2-5) by (simp_all add: exact_def)
  have "fadd (Fin 0) (fint a) = fint a" "fadd (Fin 0) (fint b) = fint b"
    using fadd_fint [of 0 a] fadd_fint [of 0 b] assms(2-5) unfolding z by simp_all
  moreover have "\<not> fless (fint a) (Fin 0)" "\<not> fless (fint b) (Fin 0)" using assms(2,4) e by auto
  moreover have "Rect_Set (fBounds x) (Fin 0) (Fin 0) (fint a) (fint b) = int_rect 0 0 a b"
    using z by (simp add: Rect_Set_def int_rect_def Rect_of_def del: fint_exact)
  ultimately show "ResizeTo env tp (fint a) (fint b) g = Inr (put_view tp (x\<lparr>fBounds := int_rect 0 0 a b\<rparr>) g)"
    using assms(6-8) x e ffloor_fint by (simp add: ResizeTo_def invalidate_parent_def Let_def del: fint_exact)
  have "Rect_IsValid (int_rect 0 0 a b)" using int_rect_sides assms(2-5) by blast
  then have "env_ok env (put_view tp (x\<lparr>fBounds := int_rect 0 0 a b\<rparr>) g)"
    using assms(1) by (auto simp: good_def env_ok_def put_view_def split: if_splits)
  then show "good env kids win tp (put_view tp (x\<lparr>fBounds := int_rect 0 0 a b\<rparr>) g)"
    using assms(1,6) gui_ok_bounds [OF assms(6)] by (auto simp: good_def put_view_def)
qed

lemma good_Invalidate:
  assumes "good env kids win tp g"
  shows "\<exists>g'. Invalidate env tp g = Inr g' \<and> views g' = views g \<and> windows g' = windows g \<and> good env kids win tp g'"
proof -
  obtain x where x: "views g tp = Some x" "fWindow x = win" "fParent x = null" using assms by (auto simp: good_def)
  have ok: "gui_ok kids win g" "env_ok env g" using assms by (auto simp: good_def)
  obtain g' where "Invalidate env tp g = Inr g'" "views g' = views g" "windows g' = windows g" "gui_ok kids win g'"
    using Invalidate_ok [OF ok(2,1) x(1,2)] by blast
  then show ?thesis using ok(2) x by (auto simp: good_def env_ok_def)
qed

lemma limit64_id: "0 < lo \<Longrightarrow> lo \<le> int n \<Longrightarrow> int n \<le> hi \<Longrightarrow> hi < 2 ^ 20 \<Longrightarrow> limit64 n lo hi = n"
  by (auto simp: limit64_def size_t_nonneg Let_def)

lemma impl_resize_ok:
  assumes "good env kids win tp (snd s)" "limits_ok (fst s)" "frame_of tp a0 b0 s"
    "min_width (fst s) - 1 \<le> a" "a \<le> max_width (fst s) - 1" "min_height (fst s) - 1 \<le> b" "b \<le> max_height (fst s) - 1"
  shows "\<exists>s'. impl_resize env byte_size tp (nat a) (nat b) s = Inr s' \<and> frame_of tp a b s' \<and> good env kids win tp (snd s') \<and> same_limits (fst s) (fst s')"
proof -
  note lim = assms(2) [unfolded limits_ok_def]
  have ab: "0 \<le> a" "a < 2 ^ 20" "0 \<le> b" "b < 2 ^ 20" using assms(4-7) lim by linarith+
  obtain x where x: "views (snd s) tp = Some x" "fBounds x = int_rect 0 0 a0 b0" using assms(3) by (auto simp: frame_of_def)
  have z: "r_left (fBounds x) = Fin 0" "r_top (fBounds x) = Fin 0" by (simp_all add: x(2) int_rect_def Rect_of_def exact_def)
  define g1 where "g1 = put_view tp (x\<lparr>fBounds := int_rect 0 0 a b\<rparr>) (snd s)"
  define s1 where "s1 = (fst s)\<lparr>sf_width := nat a + 1, sf_height := nat b + 1\<rparr>"
  note r = good_resized [OF assms(1) ab x(1) z, folded g1_def]
  have 1: "set_size env tp (nat a) (nat b) s = Inr (s1, g1)"
    using r(1) ab by (simp add: set_size_def s1_def Let_def nat_less_iff)
  have w: "limit64 (sf_width s1) (min_width s1) (max_width s1) = nat a + 1" "limit64 (sf_height s1) (min_height s1) (max_height s1) = nat b + 1"
    using lim ab assms(4-7) by (auto simp: s1_def intro!: limit64_id)
  have i: "int32 (1 + a) = a + 1" "int32 (1 + b) = b + 1" using ab int32_id [of "a + 1"] int32_id [of "b + 1"] by (simp_all add: add.commute)
  have f: "frame_of tp a b (s', g')" if "sk_info s' = (a + 1, b + 1)" "views g' = views g1" for s' g'
    using that ab by (simp add: frame_of_def g1_def put_view_def)
  obtain g2 where g2: "Invalidate env tp g1 = Inr g2" "views g2 = views g1" "good env kids win tp g2"
    using good_Invalidate [OF r(2)] by blast
  show ?thesis using 1 w i g2 f r(2) ab unfolding impl_resize_def
    by (auto simp: resize_buffer_def Let_def show_window_def no_damage_def same_limits_def s1_def)
qed

section \<open>Resizing\<close>

definition clamp :: "int \<Rightarrow> int \<Rightarrow> int \<Rightarrow> int" where "clamp lo hi n = (if n < lo then lo else if hi < n then hi else n)"

lemma clamp_in: "lo \<le> hi \<Longrightarrow> lo \<le> clamp lo hi n \<and> clamp lo hi n \<le> hi"
  by (simp add: clamp_def)

lemma clamp_float:
  assumes "\<bar>n\<bar> < 2 ^ 22" "\<bar>lo\<bar> < 2 ^ 22" "\<bar>hi\<bar> < 2 ^ 22"
  shows "(if fless (fround (fint n)) (fint lo) then fint lo else if fless (fint hi) (fround (fint n)) then fint hi else fround (fint n)) =
    fint (clamp lo hi n)"
proof -
  have e: "exact n" "exact lo" "exact hi" using assms by (auto simp: exact_def)
  then have "fround (fint n) = fint n" using fround_fint [of n] by simp
  then show ?thesis using e by (simp add: clamp_def)
qed

lemma ResizeTo_ok:
  assumes "good env kids win tp (snd s)" "limits_ok (fst s)" "frame_of tp a b s" "\<bar>w\<bar> < 2 ^ 22" "\<bar>h\<bar> < 2 ^ 22"
  shows "\<exists>s'. Window_ResizeTo env byte_size True tp (fint w) (fint h) s = Inr s' \<and> good env kids win tp (snd s') \<and> same_limits (fst s) (fst s') \<and>
    frame_of tp (clamp (min_width (fst s) - 1) (max_width (fst s) - 1) w) (clamp (min_height (fst s)) (max_height (fst s) - 1) h) s'"
proof -
  note lim = assms(2) [unfolded limits_ok_def]
  let ?a = "clamp (min_width (fst s) - 1) (max_width (fst s) - 1) w" and ?b = "clamp (min_height (fst s)) (max_height (fst s) - 1) h"
  have in1: "min_width (fst s) - 1 \<le> ?a \<and> ?a \<le> max_width (fst s) - 1" by (rule clamp_in) (use lim in simp)
  have in2: "min_height (fst s) \<le> ?b \<and> ?b \<le> max_height (fst s) - 1" by (rule clamp_in) (use lim in simp)
  have ab: "0 \<le> a" "a < 2 ^ 20" "0 \<le> b" "b < 2 ^ 20" "sk_info (fst s) = (a + 1, b + 1)" using assms(3) by (auto simp: frame_of_def)
  have AB: "0 \<le> ?a" "?a < 2 ^ 20" "0 \<le> ?b" "?b < 2 ^ 20" using in1 in2 lim by linarith+
  have two: "(2 :: int) ^ 22 = 4 * 2 ^ 20" by simp
  have sm: "\<bar>min_width (fst s) - 1\<bar> < 2 ^ 22" "\<bar>max_width (fst s) - 1\<bar> < 2 ^ 22" "\<bar>min_height (fst s)\<bar> < 2 ^ 22" "\<bar>max_height (fst s) - 1\<bar> < 2 ^ 22"
    using lim two by linarith+
  have fr: "impl_Frame (fst s) = int_rect 0 0 a b" using impl_Frame_int ab by blast
  have sides: "Width (int_rect 0 0 a b) = fint a" "Height (int_rect 0 0 a b) = fint b" using int_rect_sides ab by blast+
  have ex: "exact ?a" "exact ?b" "exact a" "exact b" using AB ab by (simp_all add: exact_def)
  have sz: "to_size_t (fint ?a) = Inr (nat ?a)" "to_size_t (fint ?b) = Inr (nat ?b)" using AB ex by simp_all
  obtain s' where s': "impl_resize env byte_size tp (nat ?a) (nat ?b) s = Inr s'" "frame_of tp ?a ?b s'" "good env kids win tp (snd s')" "same_limits (fst s) (fst s')"
    using impl_resize_ok [OF assms(1-3), of ?a ?b byte_size] in1 in2 by auto
  have r: "Window_ResizeTo env byte_size True tp (fint w) (fint h) s =
      (if \<not> feq (fint ?a) (fint a) \<or> \<not> feq (fint ?b) (fint b) then impl_resize env byte_size tp (nat ?a) (nat ?b) s else Inr s)"
    by (simp only: Window_ResizeTo_def MinSize_def MaxSize_def Let_def fst_conv snd_conv not_True_eq_False if_False bindR.simps
      clamp_float [OF assms(4) sm(1,2)] clamp_float [OF assms(5) sm(3,4)] sz fr sides)
  show ?thesis
  proof (cases "?a = a \<and> ?b = b")
    case True
    have "feq (fint a) (fint a)" "feq (fint b) (fint b)" using ex by (simp_all add: feq_fint del: fint_exact)
    then have "Window_ResizeTo env byte_size True tp (fint w) (fint h) s = Inr s" using r True by simp
    then show ?thesis using assms(1,3) True by (simp add: same_limits_def)
  next
    case False
    then have "\<not> feq (fint ?a) (fint a) \<or> \<not> feq (fint ?b) (fint b)" using ex by simp
    then show ?thesis using r s' by simp
  qed
qed

section \<open>Zooming\<close>

text \<open>The size of the zoomed window on a screen of the size \<open>W\<close> and a limit \<open>m\<close>: both sides give up the same.\<close>

definition zoomed :: "int \<Rightarrow> int \<Rightarrow> int" where
  "zoomed W m = (if m < W then W - 2 * ((W - m + 1) div 2) else W)"

lemma ceil_half:
  assumes "0 \<le> n" "n < 2 ^ 22"
  shows "fceil (fdiv (fint n) (Fin 2)) = fint ((n + 1) div 2)"
proof -
  have e: "exact n" "exact ((n + 1) div 2)" using assms by (simp_all add: exact_def)
  have "\<lceil>of_int n / 2 :: rat\<rceil> = (n + 1) div 2"
  proof (rule ceiling_unique)
    have "n \<le> 2 * ((n + 1) div 2)" by presburger
    then show "(of_int n / 2 :: rat) \<le> of_int ((n + 1) div 2)" by linarith
    have "2 * ((n + 1) div 2) - 1 \<le> n" by presburger
    then show "of_int ((n + 1) div 2) - 1 < (of_int n / 2 :: rat)" by linarith
  qed
  then show ?thesis using e round32_half [of n] assms by simp
qed

lemma zoomed_le: "m \<le> W \<Longrightarrow> zoomed W m \<le> m"
  by (auto simp: zoomed_def)

lemma zoom_area_size:
  assumes "\<forall>n\<in>{x, y, W, H, mw, mh}. \<bar>n\<bar> < 2 ^ 20" "0 \<le> W" "0 \<le> H" "0 \<le> mw" "0 \<le> mh" "limits_ok s"
    "fMaxZoomWidth z = fint mw" "fMaxZoomHeight z = fint mh" 
    "mw' = min (min mw (max_width s - 1)) W" "mh' = min (min mh (max_height s - 1)) H"
  shows "Width (zoom_area (Screen_Frame x y W H) z s) = fint (zoomed W mw') \<and> Height (zoom_area (Screen_Frame x y W H) z s) = fint (zoomed H mh')"
proof -
  have b: "\<bar>x\<bar> < 2 ^ 20" "\<bar>y\<bar> < 2 ^ 20" "W < 2 ^ 20" "H < 2 ^ 20" "mw < 2 ^ 20" "mh < 2 ^ 20" using assms(1) by auto
  have two: "(2 :: int) ^ 23 = 8 * 2 ^ 20" "(2 :: int) ^ 22 = 4 * 2 ^ 20" by simp_all
  note lim = assms(6) [unfolded limits_ok_def]
  have m: "0 \<le> mw'" "mw' \<le> W" "0 \<le> mh'" "mh' \<le> H" using assms(2-5,9,10) lim by auto
  have mn: "fmin (fmin (fint mw) (fint (max_width s - 1))) (fint W) = fint mw'" "fmin (fmin (fint mh) (fint (max_height s - 1))) (fint H) = fint mh'"
    using assms(2-5,9,10) lim b by (simp_all add: fmin_def exact_def min_def)
  have size: "Width (int_rect l t r b') = fint (r - l) \<and> Height (int_rect l t r b') = fint (b' - t)"
    if "\<bar>l\<bar> < 2 ^ 23" "\<bar>t\<bar> < 2 ^ 23" "\<bar>r\<bar> < 2 ^ 23" "\<bar>b'\<bar> < 2 ^ 23" for l t r b'
    using that fsub_fint by (simp add: Width_def Height_def int_rect_def Rect_of_def del: fint_exact)
  let ?s = "int_rect x y (x + W) (y + H)"
  have s: "Screen_Frame x y W H = ?s" by (simp add: Screen_Frame_def int_rect_def)
  have ws: "Width ?s = fint W" "Height ?s = fint H" using size [of x y "x + W" "y + H"] b assms(2,3) two by auto
  define dy where "dy = (if mh' < H then (H - mh' + 1) div 2 else 0)"
  define dx where "dx = (if mw' < W then (W - mw' + 1) div 2 else 0)"
  have dxy: "0 \<le> dx" "dx \<le> W" "0 \<le> dy" "dy \<le> H" using m by (auto simp: dx_def dy_def)
  have z: "fint 0 = Fin 0" by (simp add: exact_def)
  have inset: "InsetBy (int_rect l t r b') (fint p) (fint q) = int_rect (l + p) (t + q) (r - p) (b' - q)"
    if "\<bar>l\<bar> < 2 ^ 23" "\<bar>t\<bar> < 2 ^ 23" "\<bar>r\<bar> < 2 ^ 23" "\<bar>b'\<bar> < 2 ^ 23" "\<bar>p\<bar> < 2 ^ 23" "\<bar>q\<bar> < 2 ^ 23" for l t r b' p q
    using that by (intro InsetBy_int) auto
  have fl: "fless (fint m) (fint n) \<longleftrightarrow> m < n" if "0 \<le> m" "m < 2 ^ 20" "0 \<le> n" "n < 2 ^ 20" for m n using that by (simp add: exact_def)
  have ch: "fceil (fdiv (fsub (fint n) (fint m)) (Fin 2)) = fint ((n - m + 1) div 2)" if "0 \<le> m" "m \<le> n" "n < 2 ^ 20" for m n
    using that fsub_fint [of n m] ceil_half [of "n - m"] two by (simp del: fint_exact)
  let ?t = "int_rect x (y + dy) (x + W) (y + H - dy)"
  have 1: "(if fless (fint mh') (fint H) then InsetBy ?s (Fin 0) (fceil (fdiv (fsub (fint H) (fint mh')) (Fin 2))) else ?s) = ?t"
  proof (cases "mh' < H")
    case True
    have "\<bar>x + W\<bar> < 2 ^ 23" "\<bar>y + H\<bar> < 2 ^ 23" "\<bar>x\<bar> < 2 ^ 23" "\<bar>y\<bar> < 2 ^ 23" "\<bar>dy\<bar> < 2 ^ 23" using b dxy two assms(2,3) by linarith+
    from inset [OF this(3,4,1,2) _ this(5), of 0] True show ?thesis
      unfolding z [symmetric] using fl [of mh' H] ch [of mh' H] m b by (simp add: dy_def del: fint_exact)
  next
    case False
    then show ?thesis using fl [of mh' H] m b by (simp add: dy_def del: fint_exact)
  qed
  have wt: "Width ?t = fint W" "Height ?t = fint (H - 2 * dy)"
    using size [of x "y + dy" "x + W" "y + H - dy"] b assms(2,3) dxy two by auto
  have 2: "(if fless (fint mw') (fint W) then InsetBy ?t (fceil (fdiv (fsub (fint W) (fint mw')) (Fin 2))) (Fin 0) else ?t) =
      int_rect (x + dx) (y + dy) (x + W - dx) (y + H - dy)"
  proof (cases "mw' < W")
    case True
    have "\<bar>x + W\<bar> < 2 ^ 23" "\<bar>y + H - dy\<bar> < 2 ^ 23" "\<bar>x\<bar> < 2 ^ 23" "\<bar>y + dy\<bar> < 2 ^ 23" "\<bar>dx\<bar> < 2 ^ 23" using b dxy two assms(2,3) by linarith+
    from inset [OF this(3,4,1,2) this(5), of 0] True show ?thesis
      unfolding z [symmetric] using fl [of mw' W] ch [of mw' W] m b by (simp add: dx_def del: fint_exact)
  next
    case False
    then show ?thesis using fl [of mw' W] m b by (simp add: dx_def del: fint_exact)
  qed
  have "zoom_area (Screen_Frame x y W H) z s = int_rect (x + dx) (y + dy) (x + W - dx) (y + H - dy)"
    unfolding zoom_area_def Let_def s MaxSize_def fst_conv snd_conv assms(7,8) ws mn 1 wt(1) 2 ..
  moreover have "zoomed W mw' = W - 2 * dx" "zoomed H mh' = H - 2 * dy" by (simp_all add: zoomed_def dx_def dy_def)
  moreover have "Width (int_rect (x + dx) (y + dy) (x + W - dx) (y + H - dy)) = fint (W - 2 * dx) \<and>
      Height (int_rect (x + dx) (y + dy) (x + W - dx) (y + H - dy)) = fint (H - 2 * dy)"
    using size [of "x + dx" "y + dy" "x + W - dx" "y + H - dy"] b assms(2,3) dxy two by auto
  ultimately show ?thesis by simp
qed

lemma clamp_id: "lo \<le> n \<Longrightarrow> n \<le> hi \<Longrightarrow> clamp lo hi n = n"
  by (simp add: clamp_def)

lemma Zoom_step:
  assumes "good env kids win tp (snd s)" "limits_ok (fst s)" "frame_of tp a b s" "frame_of tp a0 b0 s0"
    "Width (zoom_area screen z (fst s)) = fint W" "Height (zoom_area screen z (fst s)) = fint H" "0 \<le> W" "W < 2 ^ 20" "0 \<le> H" "H < 2 ^ 20"
    "Rect_IsValid (fPreviousFrame z) \<longrightarrow> fPreviousFrame z = int_rect 0 0 a0 b0"
    "unzoom = (Rect_IsValid (fPreviousFrame z) \<and> a = W \<and> b = H)"
  shows "\<exists>s'. Zoom env byte_size True tp screen (z, s) = Inr (if unzoom then z else z\<lparr>fPreviousFrame := int_rect 0 0 a b\<rparr>, s') \<and>
    good env kids win tp (snd s') \<and> same_limits (fst s) (fst s') \<and>
    frame_of tp (clamp (min_width (fst s) - 1) (max_width (fst s) - 1) (if unzoom then a0 else W))
      (clamp (min_height (fst s)) (max_height (fst s) - 1) (if unzoom then b0 else H)) s'"
proof -
  have ab: "0 \<le> a" "a < 2 ^ 20" "0 \<le> b" "b < 2 ^ 20" "sk_info (fst s) = (a + 1, b + 1)" using assms(3) by (auto simp: frame_of_def)
  have ab0: "0 \<le> a0" "a0 < 2 ^ 20" "0 \<le> b0" "b0 < 2 ^ 20" using assms(4) by (auto simp: frame_of_def)
  have fr: "impl_Frame (fst s) = int_rect 0 0 a b" using impl_Frame_int ab by blast
  have sides: "Width (int_rect 0 0 a b) = fint a" "Height (int_rect 0 0 a b) = fint b" using int_rect_sides ab by blast+
  have sides0: "Width (int_rect 0 0 a0 b0) = fint a0" "Height (int_rect 0 0 a0 b0) = fint b0" using int_rect_sides ab0 by blast+
  have eq: "feq (fint a) (fint W) = (a = W)" "feq (fint b) (fint H) = (b = H)" using ab assms(7-10) by (simp_all add: exact_def)
  have two: "(2 :: int) ^ 22 = 4 * 2 ^ 20" by simp
  show ?thesis
  proof (cases unzoom)
    case True
    obtain s' where s': "Window_ResizeTo env byte_size True tp (fint a0) (fint b0) s = Inr s'" "good env kids win tp (snd s')" "same_limits (fst s) (fst s')"
        "frame_of tp (clamp (min_width (fst s) - 1) (max_width (fst s) - 1) a0) (clamp (min_height (fst s)) (max_height (fst s) - 1) b0) s'"
      using ResizeTo_ok [OF assms(1-3), of a0 b0 byte_size] ab0 two by auto
    have pf: "fPreviousFrame z = int_rect 0 0 a0 b0" "Rect_IsValid (int_rect 0 0 a0 b0)" using True assms(11,12) by auto
    have c: "feq (fint a) (fint W)" "feq (fint b) (fint H)" using True assms(12) eq by blast+
    have "Zoom env byte_size True tp screen (z, s) = Inr (z, s')"
      by (simp only: Zoom_def Let_def fst_conv snd_conv fr sides sides0 assms(5,6) c pf simp_thms if_True bindR.simps s'(1))
    then show ?thesis using True s' by simp
  next
    case False
    obtain s' where s': "Window_ResizeTo env byte_size True tp (fint W) (fint H) s = Inr s'" "good env kids win tp (snd s')" "same_limits (fst s) (fst s')"
        "frame_of tp (clamp (min_width (fst s) - 1) (max_width (fst s) - 1) W) (clamp (min_height (fst s)) (max_height (fst s) - 1) H) s'"
      using ResizeTo_ok [OF assms(1-3), of W H byte_size] assms(7-10) two by auto
    have "Zoom env byte_size True tp screen (z, s) = Inr (z\<lparr>fPreviousFrame := int_rect 0 0 a b\<rparr>, s')"
      using False [unfolded assms(12)] s'(1)
      by (simp only: Zoom_def Let_def fst_conv snd_conv fr sides assms(5,6) eq simp_thms if_False bindR.simps)
    then show ?thesis using False s' by simp
  qed
qed

lemma same_limits_zoom: "same_limits s s' \<Longrightarrow> zoom_area screen (z\<lparr>fPreviousFrame := r\<rparr>) s' = zoom_area screen z s"
  "same_limits s s' \<Longrightarrow> limits_ok s' = limits_ok s"
  by (simp_all add: same_limits_def zoom_area_def MaxSize_def Let_def limits_ok_def)

section \<open>Damage\<close>

text \<open>The damaged part grows to the smallest that contains all that was reported, and is committed once.\<close>

definition box :: "int \<times> int \<times> int \<times> int \<Rightarrow> bool" where
  "box r = (case r of (x1, y1, x2, y2) \<Rightarrow> - (2 ^ 30) < x1 \<and> x1 \<le> x2 \<and> x2 < 2 ^ 30 \<and> - (2 ^ 30) < y1 \<and> y1 \<le> y2 \<and> y2 < 2 ^ 30)"

fun damages :: "(int \<times> int \<times> int \<times> int) list \<Rightarrow> surface \<Rightarrow> surface outcome" where
  "damages [] s = Inr s"
| "damages ((x1, y1, x2, y2) # rs) s = bindR (damage x1 y1 x2 y2 s) (damages rs)"

lemma damage_box:
  "box (x1, y1, x2, y2) \<Longrightarrow> damage x1 y1 x2 y2 s = Inr (s\<lparr>damage_x1 := min (damage_x1 s) x1, damage_x2 := max (damage_x2 s) x2,
     damage_y1 := min (damage_y1 s) y1, damage_y2 := max (damage_y2 s) y2, surface_pending := True\<rparr>)"
  by (auto simp: damage_def box_def INT_MIN_def INT_MAX_def Let_def min_def max_def)

lemma damages_box:
  "\<forall>r\<in>set rs. box r \<Longrightarrow> rs \<noteq> [] \<Longrightarrow> damages rs s = Inr (s\<lparr>
     damage_x1 := fold (\<lambda>(x1, y1, x2, y2) m. min m x1) rs (damage_x1 s), damage_x2 := fold (\<lambda>(x1, y1, x2, y2) m. max m x2) rs (damage_x2 s),
     damage_y1 := fold (\<lambda>(x1, y1, x2, y2) m. min m y1) rs (damage_y1 s), damage_y2 := fold (\<lambda>(x1, y1, x2, y2) m. max m y2) rs (damage_y2 s),
     surface_pending := True\<rparr>)"
proof (induction rs arbitrary: s)
  case (Cons r rs)
  obtain x1 y1 x2 y2 where r: "r = (x1, y1, x2, y2)" by (cases r)
  show ?case using Cons damage_box [of x1 y1 x2 y2 s] r by (cases "rs = []") simp_all
qed simp

text \<open>Pending changes without any damage: the differences overflow.\<close>

lemma commit_without_damage: "surface_pending s \<Longrightarrow> \<not> surface_committed s \<Longrightarrow> commit (no_damage s) = Inl Undefined"
  by (simp add: commit_def no_damage_def INT_MAX_def INT_MIN_def)

lemma commit_resets:
  "commit s = Inr (Some (x, y, w, h), s') \<Longrightarrow> x = damage_x1 s \<and> y = damage_y1 s \<and> w = damage_x2 s - x \<and> h = damage_y2 s - y \<and>
     no_damage s' = s' \<and> surface_committed s'"
  by (auto simp: commit_def no_damage_def Let_def split: if_splits)

section \<open>Properties\<close>

lemma int16_id: "- (2 ^ 15) \<le> n \<Longrightarrow> n < 2 ^ 15 \<Longrightarrow> int16 n = n"
  unfolding int16_def by (rule signed_take_bit_int_eq_self) auto

lemma Hide_level:
  assumes "windows (snd s) win = Some w" "\<not> is_minimized (fst s) \<or> IsModal feel \<or> IsFloating feel" "- (2 ^ 15) \<le> fShowLevel w" "fShowLevel w + 1 < 2 ^ 15"
  shows "Window_Hide feel True win s =
    Inr (if 0 < fShowLevel w + 1 then hide_window (fst s) else fst s, put_window win (w\<lparr>fShowLevel := fShowLevel w + 1\<rparr>) (snd s))"
  using assms int16_id [of "fShowLevel w + 1"] by (auto simp: Window_Hide_def Window_Minimize_def change_level_def Let_def)

lemma hide_until_hidden_ok:
  assumes "windows (snd s) win = Some w" "\<not> is_minimized (fst s) \<or> IsModal feel \<or> IsFloating feel" "- (2 ^ 15) \<le> fShowLevel w" "fShowLevel w \<le> 0"
  shows "hide_until_hidden feel win s = Some (Inr (hide_window (fst s), put_window win (w\<lparr>fShowLevel := 1\<rparr>) (snd s)))"
  using assms
proof (induction "nat (- fShowLevel w)" arbitrary: s w)
  case 0
  let ?s = "(hide_window (fst s), put_window win (w\<lparr>fShowLevel := 1\<rparr>) (snd s))"
  have "hide_until_hidden feel win ?s = Some (Inr ?s)"
    by (subst hide_until_hidden.simps) (simp add: put_window_def Window_IsHidden_def)
  then show ?case using 0 Hide_level [OF 0(2-4)]
    by (subst hide_until_hidden.simps) (simp add: Window_IsHidden_def)
next
  case (Suc n)
  let ?w = "w\<lparr>fShowLevel := fShowLevel w + 1\<rparr>"
  let ?s = "(fst s, put_window win ?w (snd s))"
  have "hide_until_hidden feel win ?s = Some (Inr (hide_window (fst ?s), put_window win (?w\<lparr>fShowLevel := 1\<rparr>) (snd ?s)))"
    by (rule Suc(1)) (use Suc in \<open>auto simp: put_window_def\<close>)
  moreover have "put_window win (?w\<lparr>fShowLevel := 1\<rparr>) (put_window win ?w (snd s)) = put_window win (w\<lparr>fShowLevel := 1\<rparr>) (snd s)"
    by (simp add: put_window_def)
  ultimately show ?case using Suc Hide_level [OF Suc(3-5)]
    by (subst hide_until_hidden.simps) (simp add: Window_IsHidden_def)
qed

text \<open>The loop of \<open>Quit\<close> that hides a window as often as it was shown ends for every level: a window that was shown is
  without buffer on the screen and has the level 1 afterwards, another one is left as it is.\<close>

lemma Quit_hides_window:
  assumes "windows (snd s) win = Some w" "\<not> is_minimized (fst s) \<or> IsModal feel \<or> IsFloating feel" "- (2 ^ 15) \<le> fShowLevel w"
  shows "\<exists>s' w'. hide_until_hidden feel win s = Some (Inr s') \<and> windows (snd s') win = Some w' \<and> Window_IsHidden w' \<and>
    (if Window_IsHidden w then s' = s else is_hidden (fst s') \<and> w' = w\<lparr>fShowLevel := 1\<rparr>)"
proof (cases "Window_IsHidden w")
  case True
  then show ?thesis using assms by (subst hide_until_hidden.simps) simp
next
  case False
  then show ?thesis using hide_until_hidden_ok [OF assms]
    by (simp add: Window_IsHidden_def put_window_def hide_window_def)
qed

text \<open>A window 9 whose view on top has 10 by 20 pixels, with limits up to 400 by 300.\<close>

definition framed_gui :: gui where
  "framed_gui = put_view 1 ((the (views sample_gui 1))\<lparr>fBounds := int_rect 0 0 9 19\<rparr>) sample_gui"

definition framed :: screen_window where
  "framed = (Surface_new\<lparr>sk_info := (10, 20), max_width := 400, max_height := 300\<rparr>, framed_gui)"

lemma framed_good: "good sample_env sample_kids 9 1 (snd framed)" "limits_ok (fst framed)" "frame_of 1 9 19 framed"
proof -
  have v: "views sample_gui 1 = Some (plain_view\<lparr>fWindow := 9, fFirstChild := 2\<rparr>)" by (simp add: sample_gui_def)
  have g: "gui_ok sample_kids 9 framed_gui" using gui_ok_bounds [OF v] sample_gui_ok v by (simp add: framed_gui_def)
  moreover have "env_ok sample_env framed_gui" by (simp add: env_ok_def sample_env_def)
  ultimately show "good sample_env sample_kids 9 1 (snd framed)"
    using v by (simp add: good_def framed_def framed_gui_def put_view_def plain_view_def)
  show "limits_ok (fst framed)" by (simp add: framed_def limits_ok_def Surface_new_def)
  show "frame_of 1 9 19 framed" by (simp add: framed_def frame_of_def framed_gui_def put_view_def)
qed

text \<open>\<open>ResizeTo\<close> gives a window the size asked for, cut to its limits: the frame and the view on top have
  exactly this size afterwards, and the limits stay.\<close>

lemma window_size_clamped:
  assumes "good env kids win tp (snd s)" "limits_ok (fst s)" "frame_of tp a b s" "\<bar>w\<bar> < 2 ^ 22" "\<bar>h\<bar> < 2 ^ 22"
  shows "\<exists>s'. Window_ResizeTo env byte_size True tp (fint w) (fint h) s = Inr s' \<and> good env kids win tp (snd s') \<and> same_limits (fst s) (fst s') \<and>
    frame_of tp (clamp (min_width (fst s) - 1) (max_width (fst s) - 1) w) (clamp (min_height (fst s)) (max_height (fst s) - 1) h) s'"
  using ResizeTo_ok [OF assms] .

text \<open>Zooming a window and zooming it again gives it the size it had, whatever the screen and the zoom limits, as long as
  size and zoomed size are within the limits of the window. The zoomed size is that of the screen less the
  same number of pixels on both sides, and is not above the limits.\<close>

lemma zoom_and_back:
  assumes "good env kids win tp (snd s)" "limits_ok (fst s)" "frame_of tp a b s" "\<not> Rect_IsValid (fPreviousFrame z)"
    "\<forall>n\<in>{x, y, W, H, mw, mh}. \<bar>n\<bar> < 2 ^ 20" "0 \<le> W" "0 \<le> H" "0 \<le> mw" "0 \<le> mh" "fMaxZoomWidth z = fint mw" "fMaxZoomHeight z = fint mh"
    "Z = zoomed W (min (min mw (max_width (fst s) - 1)) W)" "Y = zoomed H (min (min mh (max_height (fst s) - 1)) H)"
    "min_width (fst s) - 1 \<le> a" "a \<le> max_width (fst s) - 1" "min_height (fst s) \<le> b" "b \<le> max_height (fst s) - 1"
    "min_width (fst s) - 1 \<le> Z" "min_height (fst s) \<le> Y"
  shows "\<exists>z1 s1 s2. Zoom env byte_size True tp (Screen_Frame x y W H) (z, s) = Inr (z1, s1) \<and> frame_of tp Z Y s1 \<and>
    Zoom env byte_size True tp (Screen_Frame x y W H) (z1, s1) = Inr (z1, s2) \<and> frame_of tp a b s2 \<and> Z \<le> min mw W \<and> Y \<le> min mh H"
proof -
  let ?S = "Screen_Frame x y W H"
  note lim = assms(2) [unfolded limits_ok_def]
  note area = zoom_area_size [OF assms(5-9,2,10,11) refl refl, folded assms(12,13)]
  have le: "Z \<le> min (min mw (max_width (fst s) - 1)) W" "Y \<le> min (min mh (max_height (fst s) - 1)) H"
    unfolding assms(12,13) by (intro zoomed_le; simp)+
  have ZY: "0 \<le> Z" "Z < 2 ^ 20" "0 \<le> Y" "Y < 2 ^ 20" using le lim assms(18,19) by auto
  obtain s1 where s1: "Zoom env byte_size True tp ?S (z, s) = Inr (z\<lparr>fPreviousFrame := int_rect 0 0 a b\<rparr>, s1)"
      "good env kids win tp (snd s1)" "same_limits (fst s) (fst s1)" "frame_of tp Z Y s1"
    using Zoom_step [OF assms(1-3,3) _ _ ZY, of ?S z False byte_size] area assms(4,18,19) le by (auto simp: clamp_id)
  have v: "Rect_IsValid (int_rect 0 0 a b)" using int_rect_sides assms(3) by (auto simp: frame_of_def)
  have L: "min_width (fst s1) = min_width (fst s)" "max_width (fst s1) = max_width (fst s)" "min_height (fst s1) = min_height (fst s)" "max_height (fst s1) = max_height (fst s)"
    using s1(3) by (simp_all add: same_limits_def)
  obtain s2 where "Zoom env byte_size True tp ?S (z\<lparr>fPreviousFrame := int_rect 0 0 a b\<rparr>, s1) = Inr (z\<lparr>fPreviousFrame := int_rect 0 0 a b\<rparr>, s2)" "frame_of tp a b s2"
    using Zoom_step [OF s1(2) _ s1(4) assms(3) _ _ ZY, of ?S "z\<lparr>fPreviousFrame := int_rect 0 0 a b\<rparr>" True byte_size] area
      same_limits_zoom [OF s1(3)] assms(2,14-17) v L by (auto simp: clamp_id)
  moreover have "Z \<le> min mw W" "Y \<le> min mh H" using le by auto
  ultimately show ?thesis using s1(1,4) by blast
qed

end
