(* ===== verification/Menu.thy ===== *)
theory Menu
  imports Messenger Shortcut FloatOps
begin

text \<open>
  Menus and their items: \<open>BMenu\<close> and \<open>BMenuItem\<close> of \<open>kits/interface/Menu.cpp\<close> and \<open>MenuItem.cpp\<close>. This theory has the
  objects, the searches, what is enabled and what is marked. A menu is a view; its part of \<open>BView\<close> is in the store of
  the views under the same address.
\<close>

section \<open>The objects\<close>

datatype menu_layout = B_ITEMS_IN_ROW | B_ITEMS_IN_COLUMN | B_ITEMS_IN_MATRIX

record menu_item =
  i_invoker :: invoker
  i_label :: "byte list option"
  i_submenu :: ptr
  i_window :: ptr
  i_super :: ptr
  i_bounds :: rect
  i_modifiers :: "32 word"
  i_triggerIndex :: int
  i_userTrigger :: byte
  i_sysTrigger :: byte
  i_shortcutChar :: byte
  i_mark :: bool
  i_enabled :: bool
  i_selected :: bool
  i_separator :: bool   \<comment> \<open>the object is a \<open>BSeparatorItem\<close>\<close>

record menu =
  m_items :: "ptr list"
  m_pad :: rect
  m_chosen :: ptr
  m_selected :: ptr
  m_super :: ptr
  m_superitem :: ptr
  m_layout :: menu_layout
  m_maxContentWidth :: flt
  m_fontHeight :: flt
  m_preferred :: "flt \<times> flt"
  m_lastResizingMode :: "32 word"
  m_resizeToFit :: bool
  m_useCachedLayout :: bool
  m_enabled :: bool
  m_dynamicName :: bool
  m_radioMode :: bool
  m_stickyMode :: bool
  m_triggerEnabled :: bool
  m_hasSubmenus :: bool

text \<open>\<open>tables\<close>: the shortcuts of each window.\<close>

record menu_state =
  items :: "ptr \<Rightarrow> menu_item option"
  menus :: "ptr \<Rightarrow> menu option"
  tables :: "ptr \<Rightarrow> shortcut_table option"
  desk :: gui

definition put_item :: "ptr \<Rightarrow> menu_item \<Rightarrow> menu_state \<Rightarrow> menu_state" where
  "put_item p x s = s\<lparr>items := (items s)(p := Some x)\<rparr>"

definition put_menu :: "ptr \<Rightarrow> menu \<Rightarrow> menu_state \<Rightarrow> menu_state" where
  "put_menu m x s = s\<lparr>menus := (menus s)(m := Some x)\<rparr>"

definition upd_item :: "ptr \<Rightarrow> (menu_item \<Rightarrow> menu_item) \<Rightarrow> menu_state \<Rightarrow> menu_state outcome" where
  "upd_item p f s = bindR (alive (items s p)) (\<lambda>x. Inr (put_item p (f x) s))"

definition upd_menu :: "ptr \<Rightarrow> (menu \<Rightarrow> menu) \<Rightarrow> menu_state \<Rightarrow> menu_state outcome" where
  "upd_menu m f s = bindR (alive (menus s m)) (\<lambda>x. Inr (put_menu m (f x) s))"

text \<open>What happens on the desk while the menus stay as they are.\<close>

definition on_desk :: "(gui \<Rightarrow> gui outcome) \<Rightarrow> menu_state \<Rightarrow> menu_state outcome" where
  "on_desk f s = bindR (f (desk s)) (\<lambda>g. Inr (s\<lparr>desk := g\<rparr>))"

section \<open>Constructors\<close>

text \<open>The messenger of an invoker is the default one, whose status and team are what is in memory.\<close>

definition MenuItem_new :: "status \<Rightarrow> int \<Rightarrow> byte list option \<Rightarrow> ptr \<Rightarrow> byte \<Rightarrow> 32 word \<Rightarrow> menu_item" where
  "MenuItem_new status_in_memory team_in_memory label message shortcut modifiers =
     \<lparr>i_invoker = Invoker_messenger message (Messenger_new status_in_memory team_in_memory), i_label = label, i_submenu = null,
      i_window = null, i_super = null, i_bounds = Rect_new,
      i_modifiers = if shortcut \<noteq> 0 then modifiers OR B_COMMAND_KEY else 0, i_triggerIndex = - 1, i_userTrigger = 0, i_sysTrigger = 0,
      i_shortcutChar = shortcut, i_mark = False, i_enabled = True, i_selected = False, i_separator = False\<rparr>"

definition SeparatorItem_new :: "status \<Rightarrow> int \<Rightarrow> menu_item" where
  "SeparatorItem_new status_in_memory team_in_memory =
     (MenuItem_new status_in_memory team_in_memory (Some []) null 0 0)\<lparr>i_enabled := False, i_separator := True\<rparr>"

text \<open>The part of a menu beside that of the view, with the resizing mode of the view.\<close>

definition Menu_new :: "menu_layout \<Rightarrow> bool \<Rightarrow> 32 word \<Rightarrow> menu" where
  "Menu_new layout resizeToFit resizingMode =
     \<lparr>m_items = [], m_pad = Rect_new, m_chosen = null, m_selected = null, m_super = null, m_superitem = null, m_layout = layout,
      m_maxContentWidth = Fin 0, m_fontHeight = Fin (- 1), m_preferred = (Fin (- 2), Fin (- 2)), m_lastResizingMode = resizingMode,
      m_resizeToFit = resizeToFit, m_useCachedLayout = False, m_enabled = True, m_dynamicName = False, m_radioMode = False,
      m_stickyMode = False, m_triggerEnabled = True, m_hasSubmenus = False\<rparr>"

section \<open>The items of a menu\<close>

definition Menu_CountItems :: "menu \<Rightarrow> int" where "Menu_CountItems this = CountItems (m_items this)"
definition Menu_ItemAt :: "menu \<Rightarrow> int \<Rightarrow> ptr" where "Menu_ItemAt this index = ItemAt (m_items this) index"
definition Menu_IndexOf :: "menu \<Rightarrow> ptr \<Rightarrow> int" where "Menu_IndexOf this item = IndexOf (m_items this) item"

definition SubmenuAt :: "menu_state \<Rightarrow> menu \<Rightarrow> int \<Rightarrow> ptr outcome" where
  "SubmenuAt s this index =
     (let item = Menu_ItemAt this index in if item \<noteq> null then bindR (alive (items s item)) (\<lambda>x. Inr (i_submenu x)) else Inr null)"

text \<open>The indices of the items, which the loops go through.\<close>

definition indices :: "menu \<Rightarrow> int list" where "indices this = map int [0..<nat (Menu_CountItems this)]"

fun index_of_submenu :: "menu_state \<Rightarrow> menu \<Rightarrow> ptr \<Rightarrow> int list \<Rightarrow> int outcome" where
  "index_of_submenu s this m [] = Inr (- 1)"
| "index_of_submenu s this m (i # is) =
     bindR (alive (items s (Menu_ItemAt this i))) (\<lambda>x. if i_submenu x = m then Inr i else index_of_submenu s this m is)"

definition IndexOf_menu :: "menu_state \<Rightarrow> menu \<Rightarrow> ptr \<Rightarrow> int outcome" where
  "IndexOf_menu s this m = index_of_submenu s this m (indices this)"

fun find_marked :: "menu_state \<Rightarrow> menu \<Rightarrow> int list \<Rightarrow> ptr outcome" where
  "find_marked s this [] = Inr null"
| "find_marked s this (i # is) =
     bindR (alive (items s (Menu_ItemAt this i))) (\<lambda>x. if i_mark x then Inr (Menu_ItemAt this i) else find_marked s this is)"

definition FindMarked :: "menu_state \<Rightarrow> ptr \<Rightarrow> ptr outcome" where
  "FindMarked s this = bindR (alive (menus s this)) (\<lambda>m. find_marked s m (indices m))"

text \<open>The searches of the items and the menus below them, by a test of the item; the indices from \<open>i\<close> on are left.\<close>

partial_function (option) find_item :: "menu_state \<Rightarrow> (menu_item \<Rightarrow> bool outcome) \<Rightarrow> ptr \<Rightarrow> int \<Rightarrow> ptr partial" where
  "find_item s test this i =
     bindO (Some (alive (menus s this))) (\<lambda>m.
     if i < Menu_CountItems m then
       let item = Menu_ItemAt m i
       in bindO (Some (alive (items s item))) (\<lambda>x.
          bindO (Some (test x)) (\<lambda>hit.
          if hit then Some (Inr item)
          else if i_submenu x \<noteq> null then
            bindO (find_item s test (i_submenu x) 0) (\<lambda>item.
            if item \<noteq> null then Some (Inr item) else find_item s test this (i + 1))
          else find_item s test this (i + 1)))
     else Some (Inr null))"

definition FindItem_command :: "menu_state \<Rightarrow> ptr \<Rightarrow> 32 word \<Rightarrow> ptr partial" where
  "FindItem_command s this command =
     find_item s (\<lambda>x. bindR (Command (world (desk s)) (i_invoker x)) (\<lambda>c. Inr (c = command))) this 0"

definition FindItem_name :: "menu_state \<Rightarrow> ptr \<Rightarrow> byte list \<Rightarrow> ptr partial" where
  "FindItem_name s this label = find_item s (\<lambda>x. Inr (i_label x = Some label)) this 0"

text \<open>The targets of the items, one after the other up to the first that refuses.\<close>

fun set_targets :: "(invoker \<Rightarrow> (status \<times> invoker) outcome) \<Rightarrow> menu \<Rightarrow> int list \<Rightarrow> menu_state \<Rightarrow> (status \<times> menu_state) outcome" where
  "set_targets aim this [] s = Inr (B_OK, s)"
| "set_targets aim this (i # is) s =
     bindR (alive (items s (Menu_ItemAt this i))) (\<lambda>x.
     bindR (aim (i_invoker x)) (\<lambda>(status, inv).
     let s = put_item (Menu_ItemAt this i) (x\<lparr>i_invoker := inv\<rparr>) s
     in if status < B_OK \<or> is = [] then Inr (status, s) else set_targets aim this is s))"

definition SetTargetForItems :: "ptr \<Rightarrow> ptr \<Rightarrow> menu_state \<Rightarrow> (status \<times> menu_state) outcome" where
  "SetTargetForItems this target s =
     bindR (alive (menus s this)) (\<lambda>m. set_targets (\<lambda>inv. SetTarget (world (desk s)) inv target null) m (indices m) s)"

definition SetTargetForItems_messenger :: "ptr \<Rightarrow> messenger \<Rightarrow> menu_state \<Rightarrow> (status \<times> menu_state) outcome" where
  "SetTargetForItems_messenger this ms s =
     bindR (alive (menus s this)) (\<lambda>m. set_targets (\<lambda>inv. Inr (SetTarget_messenger inv ms)) m (indices m) s)"

section \<open>Settings\<close>

definition SetLabel :: "ptr \<Rightarrow> byte list option \<Rightarrow> menu_state \<Rightarrow> menu_state outcome" where
  "SetLabel this label = upd_item this (\<lambda>x. x\<lparr>i_label := label\<rparr>)"

definition SetTriggersEnabled :: "ptr \<Rightarrow> bool \<Rightarrow> menu_state \<Rightarrow> menu_state outcome" where
  "SetTriggersEnabled this enable = upd_menu this (\<lambda>m. m\<lparr>m_triggerEnabled := enable\<rparr>)"

definition SetMaxContentWidth :: "ptr \<Rightarrow> flt \<Rightarrow> menu_state \<Rightarrow> menu_state outcome" where
  "SetMaxContentWidth this width = upd_menu this (\<lambda>m. m\<lparr>m_maxContentWidth := width\<rparr>)"

definition SetItemMargins :: "ptr \<Rightarrow> flt \<Rightarrow> flt \<Rightarrow> flt \<Rightarrow> flt \<Rightarrow> menu_state \<Rightarrow> menu_state outcome" where
  "SetItemMargins this l t r b = upd_menu this (\<lambda>m. m\<lparr>m_pad := Rect_Set (m_pad m) l t r b\<rparr>)"

definition InvalidateLayout :: "ptr \<Rightarrow> menu_state \<Rightarrow> menu_state outcome" where
  "InvalidateLayout this = upd_menu this (\<lambda>m. m\<lparr>m_useCachedLayout := False\<rparr>)"

text \<open>\<open>SetRadioMode\<close> and \<open>SetLabelFromMarked\<close> call each other, once.\<close>

definition SetRadioMode :: "ptr \<Rightarrow> bool \<Rightarrow> menu_state \<Rightarrow> menu_state outcome" where
  "SetRadioMode this on = upd_menu this (\<lambda>m. m\<lparr>m_radioMode := on, m_dynamicName := m_dynamicName m \<and> on\<rparr>)"

definition SetLabelFromMarked :: "ptr \<Rightarrow> bool \<Rightarrow> menu_state \<Rightarrow> menu_state outcome" where
  "SetLabelFromMarked this on s =
     bindR (upd_menu this (\<lambda>m. m\<lparr>m_dynamicName := on\<rparr>) s) (\<lambda>s. if on then SetRadioMode this True s else Inr s)"

section \<open>Marks\<close>

text \<open>\<open>SetMarked(false)\<close>, and what \<open>_AddItem\<close> and \<open>_ItemMarked\<close> do to the other items of a menu in radio mode.\<close>

definition unmark :: "ptr \<Rightarrow> menu_state \<Rightarrow> menu_state outcome" where "unmark this = upd_item this (\<lambda>x. x\<lparr>i_mark := False\<rparr>)"

fun unmark_others :: "menu \<Rightarrow> ptr \<Rightarrow> int list \<Rightarrow> menu_state \<Rightarrow> menu_state outcome" where
  "unmark_others this item [] s = Inr s"
| "unmark_others this item (i # is) s =
     bindR (if Menu_ItemAt this i \<noteq> item then unmark (Menu_ItemAt this i) s else Inr s) (unmark_others this item is)"

definition ItemMarked :: "ptr \<Rightarrow> ptr \<Rightarrow> menu_state \<Rightarrow> menu_state outcome" where
  "ItemMarked this item s =
     bindR (alive (menus s this)) (\<lambda>m.
     bindR (if m_radioMode m then unmark_others m item (indices m) s else Inr s) (\<lambda>s.
     if m_dynamicName m \<and> m_superitem m \<noteq> null
     then bindR (alive (items s item)) (\<lambda>x. SetLabel (m_superitem m) (i_label x) s) else Inr s))"

definition SetMarked :: "ptr \<Rightarrow> bool \<Rightarrow> menu_state \<Rightarrow> menu_state outcome" where
  "SetMarked this state s =
     bindR (alive (items s this)) (\<lambda>x.
     let s = put_item this (x\<lparr>i_mark := state\<rparr>) s
     in if state \<and> i_super x \<noteq> null then ItemMarked (i_super x) this s else Inr s)"

lemma SetMarked_False: "SetMarked this False = unmark this"
  by (simp add: fun_eq_iff SetMarked_def unmark_def upd_item_def Let_def)

text \<open>An item for a submenu takes over its name or the label of the item marked in it.\<close>

definition MenuItem_menu :: "status \<Rightarrow> int \<Rightarrow> ptr \<Rightarrow> ptr \<Rightarrow> ptr \<Rightarrow> menu_state \<Rightarrow> menu_state outcome" where
  "MenuItem_menu status_in_memory team_in_memory this submenu message s =
     (if submenu = null then Inl Debugger
      else
        let s = put_item this ((MenuItem_new status_in_memory team_in_memory None message 0 0)\<lparr>i_submenu := submenu\<rparr>) s
        in bindR (upd_menu submenu (\<lambda>m. m\<lparr>m_superitem := this\<rparr>) s) (\<lambda>s.
           bindR (FindMarked s submenu) (\<lambda>item.
           bindR (alive (menus s submenu)) (\<lambda>m.
           bindR (if m_radioMode m \<and> m_dynamicName m \<and> item \<noteq> null then bindR (alive (items s item)) (\<lambda>x. Inr (i_label x))
                  else bindR (alive (handlers (world (desk s)) submenu)) (\<lambda>h. Inr (Name h))) (\<lambda>label.
           SetLabel this label s)))))"

section \<open>What is enabled\<close>

partial_function (option) Menu_IsEnabled :: "menu_state \<Rightarrow> ptr \<Rightarrow> bool partial" where
  "Menu_IsEnabled s this =
     bindO (Some (alive (menus s this))) (\<lambda>m.
     if \<not> m_enabled m then Some (Inr False)
     else if m_super m \<noteq> null then Menu_IsEnabled s (m_super m) else Some (Inr True))"

definition Item_IsEnabled :: "menu_state \<Rightarrow> ptr \<Rightarrow> bool partial" where
  "Item_IsEnabled s this =
     bindO (Some (alive (items s this))) (\<lambda>x.
     if i_submenu x \<noteq> null then Menu_IsEnabled s (i_submenu x)
     else if \<not> i_enabled x then Some (Inr False)
     else if i_super x \<noteq> null then Menu_IsEnabled s (i_super x) else Some (Inr True))"

text \<open>
  Locking the looper of a view. Nothing changes while the thread waits for the lock; \<open>None\<close> if it is not given.
\<close>

definition lock_looper :: "env \<Rightarrow> ptr \<Rightarrow> menu_state \<Rightarrow> (bool \<times> menu_state) partial" where
  "lock_looper env this s =
     bindO (LockLooper (e_self env) B_OK (\<lambda>w. w) (world (desk s)) this) (\<lambda>(locked, w).
     Some (Inr (locked, s\<lparr>desk := (desk s)\<lparr>world := w\<rparr>\<rparr>)))"

definition unlock_looper :: "env \<Rightarrow> ptr \<Rightarrow> menu_state \<Rightarrow> menu_state outcome" where
  "unlock_looper env this s = bindR (UnlockLooper (e_self env) (world (desk s)) this) (\<lambda>w. Inr (s\<lparr>desk := (desk s)\<lparr>world := w\<rparr>\<rparr>))"

text \<open>What is done with the lock of a view, if it is given.\<close>

definition locked :: "env \<Rightarrow> ptr \<Rightarrow> (menu_state \<Rightarrow> menu_state partial) \<Rightarrow> menu_state \<Rightarrow> menu_state partial" where
  "locked env this f s =
     bindO (lock_looper env this s) (\<lambda>(ok, s).
     if ok then bindO (f s) (\<lambda>s. Some (unlock_looper env this s)) else Some (Inr s))"

text \<open>
  \<open>SetEnabled\<close> of items (\<open>of_menu\<close> is false) and menus, which call each other. An item that is a separator stays as it is.
\<close>

partial_function (option) SetEnabled :: "env \<Rightarrow> bool \<Rightarrow> ptr \<Rightarrow> bool \<Rightarrow> menu_state \<Rightarrow> menu_state partial" where
  "SetEnabled env of_menu this state s =
     (if of_menu then
        bindO (Some (alive (menus s this))) (\<lambda>m.
        if m_enabled m = state then Some (Inr s)
        else if m_superitem m \<noteq> null then SetEnabled env False (m_superitem m) state (put_menu this (m\<lparr>m_enabled := state\<rparr>) s)
        else Some (Inr (put_menu this (m\<lparr>m_enabled := state\<rparr>) s)))
      else
        bindO (Some (alive (items s this))) (\<lambda>x.
        if i_separator x \<or> i_enabled x = state then Some (Inr s)
        else
          bindO (if i_submenu x \<noteq> null then SetEnabled env True (i_submenu x) state (put_item this (x\<lparr>i_enabled := state\<rparr>) s)
                 else Some (Inr (put_item this (x\<lparr>i_enabled := state\<rparr>) s))) (\<lambda>s.
          if i_super x \<noteq> null
          then locked env (i_super x) (\<lambda>s. Some (on_desk (Invalidate_rect env (i_super x) (i_bounds x)) s)) s
          else Some (Inr s))))"

section \<open>Trees of menus\<close>

text \<open>
  An item without submenu, or an item with a submenu and the nodes in that. \<open>hangs s m ns\<close>: the items of the menu are those
  of the nodes, and the submenus below are as the nodes say. Such a menu hierarchy has no cycle.
\<close>

datatype node = Entry ptr | Submenu ptr ptr "node list"

fun node_item :: "node \<Rightarrow> ptr" where
  "node_item (Entry p) = p"
| "node_item (Submenu p m ns) = p"

definition lists :: "menu_state \<Rightarrow> ptr \<Rightarrow> node list \<Rightarrow> bool" where
  "lists s m ns \<longleftrightarrow> map_option m_items (menus s m) = Some (map node_item ns) \<and> length ns < 2 ^ 31 \<and> null \<notin> node_item ` set ns"

fun grows :: "menu_state \<Rightarrow> node \<Rightarrow> bool" where
  "grows s (Entry p) \<longleftrightarrow> map_option i_submenu (items s p) = Some null"
| "grows s (Submenu p m ns) \<longleftrightarrow> map_option i_submenu (items s p) = Some m \<and> m \<noteq> null \<and> lists s m ns \<and> (\<forall>n\<in>set ns. grows s n)"

definition hangs :: "menu_state \<Rightarrow> ptr \<Rightarrow> node list \<Rightarrow> bool" where
  "hangs s m ns \<longleftrightarrow> lists s m ns \<and> (\<forall>n\<in>set ns. grows s n)"

fun below :: "node \<Rightarrow> ptr list" where
  "below (Entry p) = [p]"
| "below (Submenu p m ns) = p # concat (map below ns)"

definition all_below :: "node list \<Rightarrow> ptr list" where "all_below ns = concat (map below ns)"

lemma all_below_simps [simp]: "all_below [] = []" "all_below (n # ns) = below n @ all_below ns"
  "below (Submenu p m ns) = p # all_below ns"
  by (simp_all add: all_below_def)

declare below.simps(2) [simp del]

definition first :: "(ptr \<Rightarrow> bool) \<Rightarrow> ptr list \<Rightarrow> ptr" where "first P ps = (case find P ps of None \<Rightarrow> null | Some p \<Rightarrow> p)"

lemma first_Nil [simp]: "first P [] = null"
  and first_Cons: "first P (p # ps) = (if P p then p else first P ps)"
  by (simp_all add: first_def)

lemma first_append: "null \<notin> set ps \<Longrightarrow> first P (ps @ qs) = (if first P ps \<noteq> null then first P ps else first P qs)"
  by (induction ps) (auto simp: first_Cons)

lemma grows_not_null: "node_item n \<noteq> null \<Longrightarrow> grows s n \<Longrightarrow> null \<notin> set (below n)"
proof (induction n)
  case (Submenu p m ns)
  then show ?case by (auto simp: all_below_def lists_def image_iff)
qed simp

lemma hangs_not_null: "hangs s m ns \<Longrightarrow> null \<notin> set (all_below ns)"
  using grows_not_null by (auto simp: hangs_def all_below_def lists_def image_iff)

text \<open>\<open>tells s test hit ps\<close>: the test is defined on these items and says whether they are hit.\<close>

definition tells :: "menu_state \<Rightarrow> (menu_item \<Rightarrow> bool outcome) \<Rightarrow> (ptr \<Rightarrow> bool) \<Rightarrow> ptr list \<Rightarrow> bool" where
  "tells s test hit ps \<longleftrightarrow> (\<forall>p\<in>set ps. \<exists>x. items s p = Some x \<and> test x = Inr (hit p))"

lemma find_item_from:
  assumes "hangs s m ns" "tells s test hit (all_below ns)"
    and below: "\<And>p m' ns'. Submenu p m' ns' \<in> set ns \<Longrightarrow> find_item s test m' 0 = Some (Inr (first hit (all_below ns')))"
    and "i \<le> length ns"
  shows "find_item s test m (int i) = Some (Inr (first hit (all_below (drop i ns))))"
  using assms(4)
proof (induction rule: inc_induct)
  case base
  show ?case using assms(1) by (subst find_item.simps) (auto simp: hangs_def lists_def Menu_CountItems_def CountItems_def int32_of_nat)
next
  case (step j)
  obtain y where y: "menus s m = Some y" "m_items y = map node_item ns" "length ns < 2 ^ 31"
    using assms(1) by (auto simp: hangs_def lists_def)
  then have c: "int j < Menu_CountItems y" "Menu_ItemAt y (int j) = node_item (ns ! j)"
    using step by (simp_all add: Menu_CountItems_def CountItems_def int32_of_nat Menu_ItemAt_def fits_def)
  have d: "drop j ns = ns ! j # drop (Suc j) ns" using step by (simp add: Cons_nth_drop_Suc)
  have n: "ns ! j \<in> set ns" using step by simp
  then have g: "grows s (ns ! j)" "node_item (ns ! j) \<noteq> null" using assms(1) by (auto simp: hangs_def lists_def)
  have t: "tells s test hit (below (ns ! j))" using assms(2) n by (auto simp: tells_def all_below_def)
  show ?case
  proof (cases "ns ! j")
    case (Entry p)
    then obtain x where "items s p = Some x" "test x = Inr (hit p)" "i_submenu x = null" using g t by (auto simp: tells_def)
    then show ?thesis using y c d Entry step by (subst find_item.simps) (simp add: Let_def first_Cons add.commute)
  next
    case (Submenu p m' ns')
    then obtain x where x: "items s p = Some x" "test x = Inr (hit p)" "i_submenu x = m'" "m' \<noteq> null" "null \<notin> set (all_below ns')"
      using g t hangs_not_null [of s m' ns'] by (auto simp: tells_def hangs_def)
    then show ?thesis using y c d Submenu step below [of p m' ns'] n
      by (subst find_item.simps) (simp add: Let_def first_Cons first_append add.commute)
  qed
qed

lemma find_item_node:
  "grows s n \<Longrightarrow> n = Submenu p m ns \<Longrightarrow> tells s test hit (all_below ns) \<Longrightarrow>
    find_item s test m 0 = Some (Inr (first hit (all_below ns)))"
proof (induction n arbitrary: p m ns)
  case (Submenu q k us)
  show ?case
  proof (rule find_item_from [of s m ns test hit 0, simplified])
    show "hangs s m ns" "tells s test hit (all_below ns)" using Submenu by (auto simp: hangs_def)
    fix p' m' ns' assume a: "Submenu p' m' ns' \<in> set ns"
    then have "tells s test hit (all_below ns')" using Submenu(4) by (force simp: tells_def all_below_def)
    moreover have "grows s (Submenu p' m' ns')" "Submenu p' m' ns' \<in> set us" using Submenu(2,3) a by auto
    ultimately show "find_item s test m' 0 = Some (Inr (first hit (all_below ns')))" using Submenu(1) by blast
  qed
qed simp

lemma find_item_first:
  assumes "hangs s m ns" "tells s test hit (all_below ns)"
  shows "find_item s test m 0 = Some (Inr (first hit (all_below ns)))"
proof (rule find_item_from [of s m ns test hit 0, simplified], fact, fact)
  fix p m' ns' assume a: "Submenu p m' ns' \<in> set ns"
  then have "tells s test hit (all_below ns')" using assms(2) by (force simp: tells_def all_below_def)
  moreover have "grows s (Submenu p m' ns')" using a assms(1) by (auto simp: hangs_def)
  ultimately show "find_item s test m' 0 = Some (Inr (first hit (all_below ns')))" using find_item_node by blast
qed

text \<open>C23. The searches return on every menu hierarchy without a cycle, with the first item in preorder that has the
  label or the command, and null when no item has it.\<close>

theorem menu_search_in_preorder:
  assumes "hangs s m ns" "\<forall>p\<in>set (all_below ns). items s p \<noteq> None"
    "\<forall>p\<in>set (all_below ns). Command (world (desk s)) (i_invoker (the (items s p))) = Inr (code p)"
  shows "FindItem_name s m label = Some (Inr (first (\<lambda>p. i_label (the (items s p)) = Some label) (all_below ns))) \<and>
    FindItem_command s m command = Some (Inr (first (\<lambda>p. code p = command) (all_below ns)))"
  unfolding FindItem_name_def FindItem_command_def
  by (rule conjI; rule find_item_first [OF assms(1)]; use assms(2,3) in \<open>force simp: tells_def\<close>)

text \<open>A menu 1 with the items 2, which has a submenu 5 with the item 6, and 3.\<close>

definition named :: "byte \<Rightarrow> ptr \<Rightarrow> menu_item" where
  "named c submenu = (MenuItem_new B_OK 0 (Some [c]) null 0 0)\<lparr>i_submenu := submenu\<rparr>"

definition search_sample :: menu_state where
  "search_sample = \<lparr>items = [2 \<mapsto> named 0x41 5, 3 \<mapsto> named 0x42 null, 6 \<mapsto> named 0x42 null],
     menus = [1 \<mapsto> (Menu_new B_ITEMS_IN_COLUMN True 0)\<lparr>m_items := [2, 3]\<rparr>, 5 \<mapsto> (Menu_new B_ITEMS_IN_COLUMN True 0)\<lparr>m_items := [6]\<rparr>],
     tables = (\<lambda>_. None), desk = sample_gui\<rparr>"

lemma menu_search_in_preorder_witness:
  "FindItem_name search_sample 1 [0x42] = Some (Inr 6) \<and> FindItem_command search_sample 1 1 = Some (Inr null)"
proof -
  let ?ns = "[Submenu 2 5 [Entry 6], Entry 3]"
  have h: "hangs search_sample 1 ?ns" by (simp add: hangs_def lists_def search_sample_def Menu_new_def named_def MenuItem_new_def)
  have i: "\<forall>p\<in>set (all_below ?ns). items search_sample p \<noteq> None" by (simp add: search_sample_def)
  have c: "\<forall>p\<in>set (all_below ?ns). Command (world (desk search_sample)) (i_invoker (the (items search_sample p))) = Inr 0"
    by (simp add: search_sample_def named_def MenuItem_new_def Invoker_messenger_def Command_def)
  show ?thesis
    using menu_search_in_preorder [OF h i c, where label = "[0x42]" and command = 1]
    by (simp_all add: first_Cons search_sample_def named_def MenuItem_new_def)
qed

end
