(* ===== verification/MenuLayout.thy ===== *)
theory MenuLayout
  imports Menu WindowFrame
begin

text \<open>
  The layout of the items of a menu, the characters that trigger items, and what item is at a point (\<open>kits/interface/Menu.cpp\<close>
  and the sizes of the items in \<open>MenuItem.cpp\<close> and \<open>SeparatorItem.cpp\<close>).
\<close>

section \<open>Triggers\<close>

text \<open>A trigger is kept in a \<open>BList\<close> as a pointer: the character, sign extended. The tests of characters are those of the C locale.\<close>

definition trigger_ptr :: "byte \<Rightarrow> ptr" where "trigger_ptr c = unat (scast c :: 64 word)"

definition isalpha :: "byte \<Rightarrow> bool" where "isalpha c \<longleftrightarrow> 0x41 \<le> c \<and> c \<le> 0x5A \<or> 0x61 \<le> c \<and> c \<le> 0x7A"
definition isspace :: "byte \<Rightarrow> bool" where "isspace c \<longleftrightarrow> c = 0x20 \<or> 0x09 \<le> c \<and> c \<le> 0x0D"

text \<open>
  One of the two loops of \<open>_ChooseTrigger\<close>: the character taken, what is left of the title and the list of triggers. The
  second loop goes on where the first stopped.
\<close>

fun take_trigger :: "(byte \<Rightarrow> bool) \<Rightarrow> byte list \<Rightarrow> ptr list \<Rightarrow> byte option \<times> byte list \<times> ptr list" where
  "take_trigger P [] chars = (None, [], chars)"
| "take_trigger P (c # title) chars =
     (if P c \<and> \<not> HasItem chars (trigger_ptr c) then (Some c, c # title, snd (AddItem chars (trigger_ptr c)))
      else take_trigger P title chars)"

definition ChooseTrigger :: "byte list option \<Rightarrow> ptr list \<Rightarrow> byte option \<times> ptr list" where
  "ChooseTrigger title chars =
     (case title of None \<Rightarrow> (None, chars)
      | Some title \<Rightarrow>
          let (found, title, chars) = take_trigger isalpha title chars
          in if found \<noteq> None then (found, chars)
             else let (found, title, chars) = take_trigger (\<lambda>c. \<not> isspace c) title chars in (found, chars))"

fun user_triggers :: "menu \<Rightarrow> int list \<Rightarrow> menu_state \<Rightarrow> ptr list \<Rightarrow> ptr list outcome" where
  "user_triggers this [] s chars = Inr chars"
| "user_triggers this (i # is) s chars =
     bindR (alive (items s (Menu_ItemAt this i))) (\<lambda>x.
     user_triggers this is s (if i_userTrigger x \<noteq> 0 then snd (AddItem chars (trigger_ptr (i_userTrigger x))) else chars))"

fun set_triggers :: "menu \<Rightarrow> int list \<Rightarrow> ptr list \<Rightarrow> menu_state \<Rightarrow> menu_state outcome" where
  "set_triggers this [] chars s = Inr s"
| "set_triggers this (i # is) chars s =
     bindR (alive (items s (Menu_ItemAt this i))) (\<lambda>x.
     if i_userTrigger x = 0 then
       let (newTrigger, chars) = ChooseTrigger (i_label x) chars
       in set_triggers this is chars
            (case newTrigger of None \<Rightarrow> s | Some c \<Rightarrow> put_item (Menu_ItemAt this i) (x\<lparr>i_sysTrigger := c\<rparr>) s)
     else set_triggers this is chars s)"

definition CalcTriggers :: "ptr \<Rightarrow> menu_state \<Rightarrow> menu_state outcome" where
  "CalcTriggers this s =
     bindR (alive (menus s this)) (\<lambda>m.
     bindR (user_triggers m (indices m) s []) (\<lambda>chars. set_triggers m (indices m) chars s))"

text \<open>\<open>SetTrigger\<close> looks for the capital letter first. \<open>strchr\<close> also finds the zero at the end of the label.\<close>

definition toupper :: "byte \<Rightarrow> byte" where "toupper c = (if 0x61 \<le> c \<and> c \<le> 0x7A then c - 0x20 else c)"

definition strchr :: "byte list \<Rightarrow> byte \<Rightarrow> nat option" where
  "strchr cs c = (let i = find_index (\<lambda>x. x = c) (cs @ [0]) in if i \<le> length cs then Some i else None)"

definition SetTrigger :: "ptr \<Rightarrow> byte \<Rightarrow> menu_state \<Rightarrow> menu_state outcome" where
  "SetTrigger this trigger s =
     bindR (alive (items s this)) (\<lambda>x.
     bindR (alive (i_label x)) (\<lambda>label.
     let pos = (case strchr label (toupper trigger) of None \<Rightarrow> strchr label (tolower trigger) | Some i \<Rightarrow> Some i);
         x = (case pos of None \<Rightarrow> x\<lparr>i_userTrigger := 0, i_triggerIndex := - 1\<rparr>
              | Some i \<Rightarrow> x\<lparr>i_userTrigger := trigger, i_triggerIndex := signed_take_bit 15 (int i)\<rparr>);
         s = put_item this x s
     in if i_super x \<noteq> null then InvalidateLayout (i_super x) s else Inr s))"

section \<open>The size of an item\<close>

text \<open>
  What the code asks the fonts and the windows: the width of a text in the font of a view, the size and the metrics of that font
  (ascent, descent, leading), those of the plain font for the address null, and the frame of a window.
\<close>

record metrics =
  text_width :: "ptr \<Rightarrow> byte list \<Rightarrow> flt"
  font_size :: "ptr \<Rightarrow> flt"
  font_height :: "ptr \<Rightarrow> flt \<times> flt \<times> flt"
  window_frame :: "ptr \<Rightarrow> rect"

definition StringWidth :: "metrics \<Rightarrow> ptr \<Rightarrow> byte list option \<Rightarrow> flt" where
  "StringWidth mx view string = (case string of None \<Rightarrow> Fin 0 | Some cs \<Rightarrow> if cs = [] then Fin 0 else text_width mx view cs)"

definition CacheFontInfo :: "metrics \<Rightarrow> ptr \<Rightarrow> menu_state \<Rightarrow> menu_state outcome" where
  "CacheFontInfo mx this =
     upd_menu this (\<lambda>m. m\<lparr>m_fontHeight := (let (ascent, descent, leading) = font_height mx this in fceil (fadd (fadd ascent descent) leading))\<rparr>)"

text \<open>The height of a separator: the size of the font times the \<open>double\<close> nearest to 0.8, halved.\<close>

definition separator_height :: "flt \<Rightarrow> flt" where
  "separator_height sz =
     (let half = (case dmul sz (3602879701896397 / 4503599627370496) of Fin d \<Rightarrow> round64 (d / 2) | d \<Rightarrow> d);
          height = fmul (ffloor (narrow half)) (Fin 2)
      in if fless height (Fin 4) then Fin 4 else height)"

definition GetContentSize :: "metrics \<Rightarrow> menu_state \<Rightarrow> ptr \<Rightarrow> (flt \<times> flt) outcome" where
  "GetContentSize mx s this =
     bindR (alive (items s this)) (\<lambda>x.
     if i_separator x then
       if i_super x = null then Inr (Fin 2, separator_height (font_size mx null))
       else bindR (alive (menus s (i_super x))) (\<lambda>m.
            Inr (Fin 2, if m_layout m = B_ITEMS_IN_ROW then Fin 2 else separator_height (font_size mx (i_super x))))
     else bindR (alive (menus s (i_super x))) (\<lambda>m. Inr (fceil (StringWidth mx (i_super x) (i_label x)), m_fontHeight m)))"

section \<open>Computing the layout\<close>

text \<open>
  The loops over the items. In a column the state is the frame and whether there is a submenu; the items get their left side,
  top and bottom. In a row they get left side, top and right side.
\<close>

definition bounds_of :: "(rect \<Rightarrow> rect) \<Rightarrow> menu_item \<Rightarrow> menu_item" where
  "bounds_of f x = x\<lparr>i_bounds := f (i_bounds x)\<rparr>"

fun column_loop :: "metrics \<Rightarrow> ptr \<Rightarrow> menu \<Rightarrow> int list \<Rightarrow> rect \<Rightarrow> bool \<Rightarrow> menu_state \<Rightarrow> (rect \<times> bool \<times> menu_state) outcome" where
  "column_loop mx this m [] frame submenu s = Inr (frame, submenu, s)"
| "column_loop mx this m (i # is) frame submenu s =
     (let item = Menu_ItemAt m i
      in bindR (GetContentSize mx s item) (\<lambda>(width, height).
         bindR (alive (items s item)) (\<lambda>x.
         let width = if i_modifiers x \<noteq> 0 \<and> i_shortcutChar x \<noteq> 0 then fadd width (font_size mx this) else width;
             t = fadd (r_bottom frame) (Fin 1);
             b = fadd (fadd (fadd t height) (r_top (m_pad m))) (r_bottom (m_pad m));
             frame = frame\<lparr>r_right := fmax (r_right frame) (fadd (fadd width (r_left (m_pad m))) (r_right (m_pad m))), r_bottom := b\<rparr>
         in column_loop mx this m is frame (submenu \<or> i_submenu x \<noteq> null)
              (put_item item (bounds_of (\<lambda>r. r\<lparr>r_left := Fin 0, r_top := t, r_bottom := b\<rparr>) x) s))))"

fun row_loop :: "metrics \<Rightarrow> menu \<Rightarrow> int list \<Rightarrow> rect \<Rightarrow> menu_state \<Rightarrow> (rect \<times> menu_state) outcome" where
  "row_loop mx m [] frame s = Inr (frame, s)"
| "row_loop mx m (i # is) frame s =
     (let item = Menu_ItemAt m i
      in bindR (GetContentSize mx s item) (\<lambda>(width, height).
         bindR (alive (items s item)) (\<lambda>x.
         let l = r_right frame;
             r = fadd (fadd (fadd l width) (r_left (m_pad m))) (r_right (m_pad m));
             frame = frame\<lparr>r_right := fadd r (Fin 1), r_bottom := fmax (r_bottom frame) (fadd (fadd height (r_top (m_pad m))) (r_bottom (m_pad m)))\<rparr>
         in row_loop mx m is frame (put_item item (bounds_of (\<lambda>q. q\<lparr>r_left := l, r_top := Fin 0, r_right := r\<rparr>) x) s))))"

fun matrix_loop :: "menu \<Rightarrow> int list \<Rightarrow> rect \<Rightarrow> menu_state \<Rightarrow> rect outcome" where
  "matrix_loop m [] frame s = Inr frame"
| "matrix_loop m (i # is) frame s =
     (let item = Menu_ItemAt m i
      in if item = null then matrix_loop m is frame s
         else bindR (alive (items s item)) (\<lambda>x.
              let b = i_bounds x
              in matrix_loop m is (frame\<lparr>r_left := fmin (r_left frame) (r_left b), r_right := fmax (r_right frame) (r_right b),
                   r_top := fmin (r_top frame) (r_top b), r_bottom := fmax (r_bottom frame) (r_bottom b)\<rparr>) s))"

fun each_item :: "(menu_item \<Rightarrow> menu_item) \<Rightarrow> menu \<Rightarrow> int list \<Rightarrow> menu_state \<Rightarrow> menu_state outcome" where
  "each_item f m [] s = Inr s"
| "each_item f m (i # is) s = bindR (upd_item (Menu_ItemAt m i) f s) (each_item f m is)"

definition column_layout :: "metrics \<Rightarrow> ptr \<Rightarrow> int \<Rightarrow> bool \<Rightarrow> menu_state \<Rightarrow> (rect \<times> menu_state) outcome" where
  "column_layout mx this index moveItems s =
     bindR (alive (menus s this)) (\<lambda>m.
     bindR (if 0 < index then bindR (alive (items s (Menu_ItemAt m (index - 1)))) (\<lambda>x. Inr (i_bounds x))
            else Inr (Rect_of (Fin 0) (Fin 0) (Fin 0) (Fin (- 1)))) (\<lambda>frame.
     bindR (column_loop mx this m (filter (\<lambda>i. index \<le> i) (indices m)) frame False s) (\<lambda>(frame, submenu, s).
     bindR (if submenu then bindR (alive (items s (Menu_ItemAt m 0))) (\<lambda>x. Inr (fadd (r_right frame) (fdiv (Height (i_bounds x)) (Fin 2))))
            else Inr (r_right frame)) (\<lambda>r.
     let r = if fless (Fin 0) (m_maxContentWidth m) then fmin r (m_maxContentWidth m) else r;
         frame = frame\<lparr>r_top := Fin 0, r_right := fceil r\<rparr>
     in bindR (upd_menu this (\<lambda>m. m\<lparr>m_hasSubmenus := submenu\<rparr>) s) (\<lambda>s.
        bindR (if moveItems then each_item (bounds_of (\<lambda>q. q\<lparr>r_right := r_right frame\<rparr>)) m (indices m) s else Inr s) (\<lambda>s.
        Inr (frame, s)))))))"

definition row_layout :: "metrics \<Rightarrow> ptr \<Rightarrow> bool \<Rightarrow> bool \<Rightarrow> menu_state \<Rightarrow> (rect \<times> menu_state) outcome" where
  "row_layout mx this bestFit moveItems s =
     bindR (alive (menus s this)) (\<lambda>m.
     bindR (alive (views (desk s) this)) (\<lambda>v.
     let (ascent, descent, leading) = font_height mx this;
         frame = Rect_of (Fin 0) (Fin 0) (Fin 0) (fceil (fadd (fadd (fadd ascent descent) (r_top (m_pad m))) (r_bottom (m_pad m))))
     in bindR (row_loop mx m (indices m) frame s) (\<lambda>(frame, s).
        bindR (if moveItems then each_item (bounds_of (\<lambda>q. q\<lparr>r_bottom := r_bottom frame\<rparr>)) m (indices m) s else Inr s) (\<lambda>s.
        Inr (frame\<lparr>r_right := if bestFit then fceil (r_right frame) else r_right (Bounds v)\<rparr>, s)))))"

definition matrix_layout :: "ptr \<Rightarrow> menu_state \<Rightarrow> (rect \<times> menu_state) outcome" where
  "matrix_layout this s =
     bindR (alive (menus s this)) (\<lambda>m.
     bindR (matrix_loop m (indices m) (Rect_of (Fin 0) (Fin 0) (Fin 0) (Fin 0)) s) (\<lambda>frame. Inr (frame, s)))"

definition B_FOLLOW_LEFT_RIGHT :: "32 word" where "B_FOLLOW_LEFT_RIGHT = 0x0204"

definition ComputeLayout :: "metrics \<Rightarrow> ptr \<Rightarrow> int \<Rightarrow> bool \<Rightarrow> bool \<Rightarrow> menu_state \<Rightarrow> ((flt \<times> flt) \<times> menu_state) outcome" where
  "ComputeLayout mx this index bestFit moveItems s =
     bindR (alive (views (desk s) this)) (\<lambda>v.
     bindR (upd_menu this (\<lambda>m. m\<lparr>m_lastResizingMode := ResizingMode v\<rparr>) s) (\<lambda>s.
     bindR (alive (menus s this)) (\<lambda>m.
     bindR (case m_layout m of B_ITEMS_IN_COLUMN \<Rightarrow> column_layout mx this index moveItems s
            | B_ITEMS_IN_ROW \<Rightarrow> row_layout mx this bestFit moveItems s
            | B_ITEMS_IN_MATRIX \<Rightarrow> matrix_layout this s) (\<lambda>(frame, s).
     bindR (if ResizingMode v AND B_FOLLOW_LEFT_RIGHT = B_FOLLOW_LEFT_RIGHT then
              if fParent v \<noteq> null then bindR (alive (views (desk s) (fParent v))) (\<lambda>p. Inr (Width (View_Frame p)))
              else Inr (Width (if fWindow v \<noteq> null then window_frame mx (fWindow v) else Bounds v))
            else Inr (Width frame)) (\<lambda>width.
     let sz = (width, Height frame)
     in bindR (upd_menu this (\<lambda>m. m\<lparr>m_preferred := if bestFit then sz else m_preferred m,
                                   m_useCachedLayout := m_useCachedLayout m \<or> moveItems\<rparr>) s) (\<lambda>s.
        Inr (sz, s)))))))"

definition LayoutItems :: "env \<Rightarrow> metrics \<Rightarrow> ptr \<Rightarrow> int \<Rightarrow> menu_state \<Rightarrow> menu_state outcome" where
  "LayoutItems env mx this index s =
     bindR (CalcTriggers this s) (\<lambda>s.
     bindR (alive (menus s this)) (\<lambda>m.
     bindR (ComputeLayout mx this index (m_resizeToFit m) True s) (\<lambda>((width, height), s).
     if m_resizeToFit m then on_desk (ResizeTo env this width height) s else Inr s)))"

text \<open>The preferred size is computed when it was never set or the resizing mode has changed.\<close>

definition ValidatePreferredSize :: "metrics \<Rightarrow> ptr \<Rightarrow> menu_state \<Rightarrow> ((flt \<times> flt) \<times> menu_state) outcome" where
  "ValidatePreferredSize mx this s =
     bindR (alive (menus s this)) (\<lambda>m.
     bindR (alive (views (desk s) this)) (\<lambda>v.
     bindR (if feq (fst (m_preferred m)) (Fin (- 2)) \<or> ResizingMode v \<noteq> m_lastResizingMode m
            then bindR (ComputeLayout mx this 0 True False s) (\<lambda>(_, s). Inr s) else Inr s) (\<lambda>s.
     bindR (alive (menus s this)) (\<lambda>m. Inr (m_preferred m, s)))))"

section \<open>The item at a point\<close>

fun hit_test :: "menu_state \<Rightarrow> menu \<Rightarrow> point \<Rightarrow> int list \<Rightarrow> ptr outcome" where
  "hit_test s this p [] = Inr null"
| "hit_test s this p (i # is) =
     bindR (alive (items s (Menu_ItemAt this i))) (\<lambda>x.
     if Contains (i_bounds x) p \<and> \<not> i_separator x then Inr (Menu_ItemAt this i) else hit_test s this p is)"

definition HitTestItems :: "menu_state \<Rightarrow> ptr \<Rightarrow> point \<Rightarrow> ptr outcome" where
  "HitTestItems s this p =
     bindR (alive (menus s this)) (\<lambda>m.
     bindR (alive (views (desk s) this)) (\<lambda>v.
     if \<not> Contains (Bounds v) p then Inr null else hit_test s m p (indices m)))"

section \<open>Loops over the items\<close>

lemma indices_items: "fits (m_items m) \<Longrightarrow> map (Menu_ItemAt m) (indices m) = m_items m"
  by (rule nth_equalityI) (simp_all add: indices_def Menu_CountItems_def CountItems_def Menu_ItemAt_def)

lemma indices_eq: "fits (m_items m) \<Longrightarrow> indices m = map int [0..<length (m_items m)]"
  by (simp add: indices_def Menu_CountItems_def CountItems_def)

section \<open>Triggers are distinct\<close>

definition trigger :: "menu_item \<Rightarrow> byte" where
  "trigger x = (if i_userTrigger x \<noteq> 0 then i_userTrigger x else i_sysTrigger x)"

definition letters :: "menu_item \<Rightarrow> byte set" where
  "letters x = (case i_label x of None \<Rightarrow> {} | Some cs \<Rightarrow> {c \<in> set cs. isalpha c})"

lemma trigger_ptr_eq [simp]: "trigger_ptr c = trigger_ptr d \<longleftrightarrow> c = d"
proof
  have narrow: "ucast (scast b :: 64 word) = b" for b :: byte by (rule bit_word_eqI) (simp add: bit_simps)
  assume "trigger_ptr c = trigger_ptr d"
  then have "scast c = (scast d :: 64 word)" by (simp add: trigger_ptr_def word_unat_eq_iff)
  then show "c = d" using narrow by metis
qed simp

lemma HasItem_set [simp]: "HasItem xs x \<longleftrightarrow> x \<in> set xs"
  by (induction xs) (auto simp: HasItem_def)

lemma take_trigger_cases:
  "(\<exists>c rest. take_trigger P title chars = (Some c, c # rest, chars @ [trigger_ptr c]) \<and> c \<in> set title \<and> P c \<and> trigger_ptr c \<notin> set chars) \<or>
   take_trigger P title chars = (None, [], chars) \<and> (\<forall>c\<in>set title. P c \<longrightarrow> trigger_ptr c \<in> set chars)"
  by (induction title) (auto simp: AddItem_def)

lemma ChooseTrigger_cases:
  "(\<exists>c. ChooseTrigger (i_label x) chars = (Some c, chars @ [trigger_ptr c]) \<and> c \<in> letters x \<and> trigger_ptr c \<notin> set chars) \<or>
   ChooseTrigger (i_label x) chars = (None, chars) \<and> (\<forall>c\<in>letters x. trigger_ptr c \<in> set chars)"
proof (cases "i_label x")
  case (Some title)
  then show ?thesis using take_trigger_cases [of isalpha title chars] by (auto simp: ChooseTrigger_def letters_def)
qed (simp add: ChooseTrigger_def letters_def)

text \<open>The items after the second loop, with the triggers \<open>f\<close> of the system. The items \<open>N\<close> got a new one.\<close>

definition triggered :: "(ptr \<Rightarrow> byte) \<Rightarrow> ptr set \<Rightarrow> menu_state \<Rightarrow> menu_state" where
  "triggered f ps s = s\<lparr>items := (\<lambda>p. if p \<in> ps then map_option (\<lambda>x. x\<lparr>i_sysTrigger := f p\<rparr>) (items s p) else items s p)\<rparr>"

definition chosen_ok :: "menu_state \<Rightarrow> ptr list \<Rightarrow> ptr list \<Rightarrow> (ptr \<Rightarrow> byte) \<Rightarrow> ptr set \<Rightarrow> bool" where
  "chosen_ok s chars ps f N \<longleftrightarrow> N \<subseteq> set ps \<and> (\<forall>p\<in>set ps. \<forall>x. items s p = Some x \<longrightarrow>
     (if p \<in> N then i_userTrigger x = 0 \<and> f p \<in> letters x \<and> trigger_ptr (f p) \<notin> set chars \<and> (\<forall>q\<in>N. q \<noteq> p \<longrightarrow> f q \<noteq> f p)
      else f p = i_sysTrigger x \<and> (i_userTrigger x = 0 \<longrightarrow> (\<forall>c\<in>letters x. trigger_ptr c \<in> set chars \<or> (\<exists>q\<in>N. f q = c)))))"

lemma zero_not_letter: "c \<in> letters x \<Longrightarrow> c \<noteq> 0"
  by (auto simp: letters_def isalpha_def split: option.splits)

lemma put_item_same: "items s p = Some x \<Longrightarrow> put_item p x s = s"
  by (simp add: put_item_def fun_upd_idem)

lemma set_triggers_ok:
  assumes "distinct (map (Menu_ItemAt m) is)" "\<forall>p\<in>set (map (Menu_ItemAt m) is). items s p \<noteq> None"
  shows "\<exists>f N. set_triggers m is chars s = Inr (triggered f (set (map (Menu_ItemAt m) is)) s) \<and> chosen_ok s chars (map (Menu_ItemAt m) is) f N"
  using assms
proof (induction "is" arbitrary: chars s)
  case Nil
  then show ?case by (simp add: triggered_def chosen_ok_def)
next
  case (Cons i "is")
  let ?p = "Menu_ItemAt m i" and ?ps = "map (Menu_ItemAt m) is"
  obtain x where x: "items s ?p = Some x" using Cons.prems by auto
  have step: ?case if c: "set_triggers m (i # is) chars s = set_triggers m is chars' (put_item ?p (x\<lparr>i_sysTrigger := c\<rparr>) s)"
    and new: "if chosen then i_userTrigger x = 0 \<and> c \<in> letters x \<and> trigger_ptr c \<notin> set chars \<and> chars' = chars @ [trigger_ptr c]
        else c = i_sysTrigger x \<and> chars' = chars \<and> (i_userTrigger x = 0 \<longrightarrow> (\<forall>c\<in>letters x. trigger_ptr c \<in> set chars))" for c chars' chosen
  proof -
    let ?s = "put_item ?p (x\<lparr>i_sysTrigger := c\<rparr>) s"
    have p: "?p \<notin> set ?ps" using Cons.prems(1) by simp
    then have same: "items ?s q = items s q" if "q \<in> set ?ps" for q using that by (cases "q = ?p") (simp_all add: put_item_def)
    then have "\<forall>p\<in>set ?ps. items ?s p \<noteq> None" using Cons.prems(2) by auto
    then obtain f N where f: "set_triggers m is chars' ?s = Inr (triggered f (set ?ps) ?s)" "chosen_ok ?s chars' ?ps f N"
      using Cons.IH [of ?s chars'] Cons.prems(1) by auto
    note fs = f(2) [unfolded chosen_ok_def]
    let ?f = "f(?p := c)" and ?N = "if chosen then insert ?p N else N"
    have pN: "?p \<notin> N" using fs p by blast
    have "triggered f (set ?ps) ?s = triggered ?f (set (map (Menu_ItemAt m) (i # is))) s"
      using x Cons.prems(1) by (auto simp: triggered_def put_item_def fun_eq_iff)
    moreover have "chosen_ok s chars (map (Menu_ItemAt m) (i # is)) ?f ?N"
      unfolding chosen_ok_def
    proof (intro conjI ballI allI impI)
      show "?N \<subseteq> set (map (Menu_ItemAt m) (i # is))" using fs by auto
      fix q y assume q: "q \<in> set (map (Menu_ItemAt m) (i # is))" "items s q = Some y"
      show "if q \<in> ?N then i_userTrigger y = 0 \<and> ?f q \<in> letters y \<and> trigger_ptr (?f q) \<notin> set chars \<and> (\<forall>r\<in>?N. r \<noteq> q \<longrightarrow> ?f r \<noteq> ?f q)
        else ?f q = i_sysTrigger y \<and> (i_userTrigger y = 0 \<longrightarrow> (\<forall>c\<in>letters y. trigger_ptr c \<in> set chars \<or> (\<exists>r\<in>?N. ?f r = c)))"
      proof (cases "q = ?p")
        case True
        then have y: "y = x" using q x by simp
        have "f r \<noteq> c" if "r \<in> N" chosen for r
        proof -
          have "r \<in> set ?ps" using that fs by blast
          moreover then obtain z where "items ?s r = Some z" using \<open>\<forall>p\<in>set ?ps. items ?s p \<noteq> None\<close> by blast
          ultimately have "trigger_ptr (f r) \<notin> set chars'" using fs that(1) by auto
          then show ?thesis using new that(2) by auto
        qed
        then show ?thesis using True y new pN by (cases chosen) auto
      next
        case False
        then have q': "q \<in> set ?ps" "items ?s q = Some y" using q same [of q] by auto
        from fs q' have g: "if q \<in> N then i_userTrigger y = 0 \<and> f q \<in> letters y \<and> trigger_ptr (f q) \<notin> set chars' \<and> (\<forall>r\<in>N. r \<noteq> q \<longrightarrow> f r \<noteq> f q)
          else f q = i_sysTrigger y \<and> (i_userTrigger y = 0 \<longrightarrow> (\<forall>c\<in>letters y. trigger_ptr c \<in> set chars' \<or> (\<exists>r\<in>N. f r = c)))" by blast
        show ?thesis
        proof (cases "q \<in> N")
          case True
          have "?f r \<noteq> f q" if "r \<in> ?N" "r \<noteq> q" for r using g True new that pN by (cases "r = ?p"; cases chosen) auto
          then show ?thesis using g True new False by (cases chosen) auto
        next
          case False
          have "trigger_ptr d \<in> set chars \<or> (\<exists>r\<in>?N. ?f r = d)" if "d \<in> letters y" "i_userTrigger y = 0" for d
          proof (cases "\<exists>r\<in>N. f r = d")
            case True
            then obtain r where "r \<in> N" "f r = d" "r \<noteq> ?p" using pN by blast
            then show ?thesis by (intro disjI2 bexI [of _ r]) auto
          next
            case no: False
            then have "trigger_ptr d \<in> set chars'" using g False that by auto
            then show ?thesis using new by (cases chosen) auto
          qed
          then show ?thesis using g False \<open>q \<noteq> ?p\<close> by auto
        qed
      qed
    qed
    ultimately show ?thesis using c f(1) by auto
  qed
  have keep: "put_item ?p (x\<lparr>i_sysTrigger := i_sysTrigger x\<rparr>) s = s" using x(1) by (simp add: put_item_same)
  show ?case
  proof (cases "i_userTrigger x = 0")
    case True
    from ChooseTrigger_cases [of x chars] show ?thesis
    proof (elim disjE exE conjE)
      fix c assume "ChooseTrigger (i_label x) chars = (Some c, chars @ [trigger_ptr c])" "c \<in> letters x" "trigger_ptr c \<notin> set chars"
      then show ?thesis using True x by (intro step [where chosen = True, of "chars @ [trigger_ptr c]" c]) simp_all
    next
      assume "ChooseTrigger (i_label x) chars = (None, chars)" "\<forall>c\<in>letters x. trigger_ptr c \<in> set chars"
      then show ?thesis using True x keep by (intro step [where chosen = False, of chars "i_sysTrigger x"]) simp_all
    qed
  next
    case False
    then show ?thesis using keep x by (intro step [where chosen = False, of chars "i_sysTrigger x"]) simp_all
  qed
qed

lemma user_triggers_ok:
  assumes "\<forall>p\<in>set (map (Menu_ItemAt m) is). items s p \<noteq> None"
  shows "\<exists>cs. user_triggers m is s chars = Inr cs \<and> set cs = set chars \<union>
    {trigger_ptr (i_userTrigger x) |x. \<exists>p\<in>set (map (Menu_ItemAt m) is). items s p = Some x \<and> i_userTrigger x \<noteq> 0}"
  using assms
proof (induction "is" arbitrary: chars)
  case (Cons i "is")
  then obtain x where x: "items s (Menu_ItemAt m i) = Some x" by auto
  let ?c = "if i_userTrigger x \<noteq> 0 then snd (AddItem chars (trigger_ptr (i_userTrigger x))) else chars"
  obtain cs where "user_triggers m is s ?c = Inr cs" "set cs = set ?c \<union>
      {trigger_ptr (i_userTrigger x) |x. \<exists>p\<in>set (map (Menu_ItemAt m) is). items s p = Some x \<and> i_userTrigger x \<noteq> 0}"
    using Cons.IH [of ?c] Cons.prems by auto
  then show ?case using x by (auto simp: AddItem_def)
qed simp

text \<open>C24. The triggers of a menu. \<open>_CalcTriggers\<close> gives new triggers to some of the items that have none of the user, the items \<open>N\<close>: each of them a
  letter of its label that is not the trigger of the user for any item nor the new trigger of another one. Every other item keeps
  the trigger of the system that it had, and without a trigger of the user it gets no new one only because each letter of its label is
  the trigger of the user or the new trigger of some item. A kept trigger can be one that another item gets (\<open>stale_trigger\<close>); when no item
  has one to keep, all the triggers of the system differ from every other trigger of the menu.
  Letters are those of ASCII: the second loop of \<open>_ChooseTrigger\<close>, which should accept anything, accepts nothing.\<close>

theorem triggers_distinct:
  assumes "menus s this = Some m" "fits (m_items m)" "distinct (m_items m)" "\<forall>p\<in>set (m_items m). items s p \<noteq> None"
  shows "\<exists>f N. CalcTriggers this s = Inr (triggered f (set (m_items m)) s) \<and> N \<subseteq> set (m_items m) \<and>
    (\<forall>p\<in>set (m_items m). \<forall>x. items s p = Some x \<longrightarrow>
      (if p \<in> N then i_userTrigger x = 0 \<and> f p \<in> letters x \<and> (\<forall>q\<in>N. q \<noteq> p \<longrightarrow> f q \<noteq> f p) \<and>
         (\<forall>q\<in>set (m_items m). \<forall>y. items s q = Some y \<longrightarrow> i_userTrigger y \<noteq> f p)
       else f p = i_sysTrigger x \<and> (i_userTrigger x = 0 \<longrightarrow> (\<forall>c\<in>letters x. (\<exists>q\<in>N. f q = c) \<or>
         (\<exists>q\<in>set (m_items m). \<exists>y. items s q = Some y \<and> i_userTrigger y = c))))) \<and>
    ((\<forall>p\<in>set (m_items m). \<forall>x. items s p = Some x \<and> i_userTrigger x = 0 \<longrightarrow> i_sysTrigger x = 0) \<longrightarrow>
      (\<forall>p\<in>set (m_items m). \<forall>q\<in>set (m_items m). \<forall>x y. q \<noteq> p \<longrightarrow> items (triggered f (set (m_items m)) s) p = Some x \<longrightarrow>
         items (triggered f (set (m_items m)) s) q = Some y \<longrightarrow> i_userTrigger x = 0 \<longrightarrow> trigger x \<noteq> 0 \<longrightarrow> trigger y \<noteq> trigger x))"
proof -
  let ?ps = "m_items m"
  have ps: "map (Menu_ItemAt m) (indices m) = ?ps" using indices_items [OF assms(2)] .
  obtain chars where chars: "user_triggers m (indices m) s [] = Inr chars"
      "set chars = {trigger_ptr (i_userTrigger x) |x. \<exists>p\<in>set ?ps. items s p = Some x \<and> i_userTrigger x \<noteq> 0}"
    using user_triggers_ok [of m "indices m" s "[]"] assms(4) unfolding ps by (simp only: list.set Un_empty_left) blast
  obtain f N where f: "set_triggers m (indices m) chars s = Inr (triggered f (set ?ps) s)" "chosen_ok s chars ?ps f N"
    using set_triggers_ok [of m "indices m" s chars] assms(3,4) unfolding ps by blast
  note ok = f(2) [unfolded chosen_ok_def]
  have user: "trigger_ptr c \<in> set chars \<longleftrightarrow> c \<noteq> 0 \<and> (\<exists>q\<in>set ?ps. \<exists>y. items s q = Some y \<and> i_userTrigger y = c)" for c
    using chars(2) by auto
  have N: "if p \<in> N then i_userTrigger x = 0 \<and> f p \<in> letters x \<and> (\<forall>q\<in>N. q \<noteq> p \<longrightarrow> f q \<noteq> f p) \<and>
         (\<forall>q\<in>set ?ps. \<forall>y. items s q = Some y \<longrightarrow> i_userTrigger y \<noteq> f p)
       else f p = i_sysTrigger x \<and> (i_userTrigger x = 0 \<longrightarrow> (\<forall>c\<in>letters x. (\<exists>q\<in>N. f q = c) \<or>
         (\<exists>q\<in>set ?ps. \<exists>y. items s q = Some y \<and> i_userTrigger y = c)))" if p: "p \<in> set ?ps" "items s p = Some x" for p x
  proof -
    from ok p have g: "if p \<in> N then i_userTrigger x = 0 \<and> f p \<in> letters x \<and> trigger_ptr (f p) \<notin> set chars \<and> (\<forall>q\<in>N. q \<noteq> p \<longrightarrow> f q \<noteq> f p)
      else f p = i_sysTrigger x \<and> (i_userTrigger x = 0 \<longrightarrow> (\<forall>c\<in>letters x. trigger_ptr c \<in> set chars \<or> (\<exists>q\<in>N. f q = c)))" by blast
    show ?thesis using g user zero_not_letter [of "f p" x] by (cases "p \<in> N") auto
  qed
  have "trigger y \<noteq> trigger x" if old: "\<forall>p\<in>set ?ps. \<forall>x. items s p = Some x \<and> i_userTrigger x = 0 \<longrightarrow> i_sysTrigger x = 0"
    and q: "p \<in> set ?ps" "q \<in> set ?ps" "q \<noteq> p" "items (triggered f (set ?ps) s) p = Some x" "items (triggered f (set ?ps) s) q = Some y"
      "i_userTrigger x = 0" "trigger x \<noteq> 0" for p q x y
  proof -
    obtain x' y' where x': "items s p = Some x'" "x = x'\<lparr>i_sysTrigger := f p\<rparr>" "items s q = Some y'" "y = y'\<lparr>i_sysTrigger := f q\<rparr>"
      using q by (auto simp: triggered_def)
    have u: "i_userTrigger x' = 0" "trigger x = f p" using q(6) x'(2) by (simp_all add: trigger_def)
    then have p: "p \<in> N" using N [OF q(1) x'(1)] old q(1,7) x'(1) by (metis (no_types))
    note np = N [OF q(1) x'(1)] and nq = N [OF q(2) x'(3)]
    show ?thesis
    proof (cases "i_userTrigger y' = 0")
      case False
      then show ?thesis using np p q(2) x'(3,4) u by (auto simp: trigger_def)
    next
      case True
      then have t: "trigger y = f q" using x'(4) by (simp add: trigger_def)
      show ?thesis
      proof (cases "q \<in> N")
        case True
        then show ?thesis using np p q(3) t u by auto
      next
        case False
        then have "f q = 0" using nq old q(2) x'(3) \<open>i_userTrigger y' = 0\<close> by auto
        then show ?thesis using t u q(7) by simp
      qed
    qed
  qed
  moreover have "CalcTriggers this s = Inr (triggered f (set ?ps) s)" using assms(1) chars(1) f(1) by (simp add: CalcTriggers_def)
  moreover have "N \<subseteq> set ?ps" using ok by blast
  ultimately show ?thesis
    by (intro exI [of _ f] exI [of _ N] conjI ballI allI impI) (assumption | rule N | blast)+
qed

text \<open>A menu 1 with the items 2 (\<open>Open\<close>), 3 (\<open>OO\<close>) and 4, which has the trigger \<open>p\<close> from the user.\<close>

definition lettered :: "byte list \<Rightarrow> byte \<Rightarrow> menu_item" where
  "lettered label user = (MenuItem_new B_OK 0 (Some label) null 0 0)\<lparr>i_userTrigger := user\<rparr>"

definition trigger_sample :: menu_state where
  "trigger_sample = \<lparr>items = [2 \<mapsto> lettered [0x4F, 0x70, 0x65, 0x6E] 0, 3 \<mapsto> lettered [0x4F, 0x4F] 0, 4 \<mapsto> lettered [0x70] 0x70],
     menus = [1 \<mapsto> (Menu_new B_ITEMS_IN_COLUMN True 0)\<lparr>m_items := [2, 3, 4]\<rparr>], tables = (\<lambda>_. None), desk = sample_gui\<rparr>"

lemma triggers_distinct_witness:
  "\<exists>f. CalcTriggers 1 trigger_sample = Inr (triggered f {2, 3, 4} trigger_sample) \<and> f 2 \<noteq> 0x70 \<and> (f 2 \<noteq> 0 \<longrightarrow> f 2 \<noteq> f 3)"
proof -
  let ?m = "(Menu_new B_ITEMS_IN_COLUMN True 0)\<lparr>m_items := [2, 3, 4]\<rparr>"
  have m: "menus trigger_sample 1 = Some ?m" "fits (m_items ?m)" "distinct (m_items ?m)" "\<forall>p\<in>set (m_items ?m). items trigger_sample p \<noteq> None"
    "\<forall>p\<in>set (m_items ?m). \<forall>x. items trigger_sample p = Some x \<and> i_userTrigger x = 0 \<longrightarrow> i_sysTrigger x = 0"
    by (simp_all add: trigger_sample_def fits_def lettered_def MenuItem_new_def)
  have ps: "set (m_items ?m) = {2, 3, 4}" by simp
  let ?t = "\<lambda>f. triggered f {2, 3, 4} trigger_sample"
  obtain f where f: "CalcTriggers 1 trigger_sample = Inr (?t f)"
    and d: "\<forall>p\<in>{2, 3, 4}. \<forall>q\<in>{2, 3, 4}. \<forall>x y. q \<noteq> p \<longrightarrow> items (?t f) p = Some x \<longrightarrow>
         items (?t f) q = Some y \<longrightarrow> i_userTrigger x = 0 \<longrightarrow> trigger x \<noteq> 0 \<longrightarrow> trigger y \<noteq> trigger x"
    using triggers_distinct [OF m(1-4), unfolded ps] by (elim exE conjE) (use m(5) [unfolded ps] that in simp)
  let ?x = "\<lambda>p. the (items (?t f) p)"
  have x: "items (?t f) p = Some (?x p)" if "p \<in> {2, 3, 4}" for p using that by (auto simp: triggered_def trigger_sample_def)
  have t: "trigger (?x 2) = f 2" "trigger (?x 3) = f 3" "trigger (?x 4) = 0x70" "i_userTrigger (?x 2) = 0"
    by (simp_all add: triggered_def trigger_sample_def lettered_def MenuItem_new_def trigger_def)
  have "f 2 \<noteq> 0 \<longrightarrow> f 2 \<noteq> 0x70 \<and> f 2 \<noteq> f 3"
    using d [rule_format, of 2 3 "?x 2" "?x 3"] d [rule_format, of 2 4 "?x 2" "?x 4"] x t by auto
  then show ?thesis using f by (intro exI [of _ f]) auto
qed

text \<open>An item keeps the letter of an earlier layout when another item has taken it since.\<close>

lemma stale_trigger:
  assumes "items s 2 = Some x" "items s 3 = Some y" "i_label x = Some [0x4F]" "i_label y = Some [0x4F]" "i_userTrigger x = 0" "i_userTrigger y = 0"
    "i_sysTrigger y = 0x4F" "menus s 1 = Some m" "m_items m = [2, 3]"
  shows "CalcTriggers 1 s = Inr (put_item 2 (x\<lparr>i_sysTrigger := 0x4F\<rparr>) s)"
proof -
  have "indices m = [0, 1]" using assms(9) by (simp add: indices_eq fits_def upt_rec)
  moreover have "Menu_ItemAt m 0 = 2" "Menu_ItemAt m 1 = 3"
    using assms(9) ItemAt_nth [of "[2, 3]" 0] ItemAt_nth [of "[2, 3]" 1] by (simp_all add: Menu_ItemAt_def fits_def)
  moreover have "ChooseTrigger (Some [0x4F]) [] = (Some 0x4F, [trigger_ptr 0x4F])" "ChooseTrigger (Some [0x4F]) [trigger_ptr 0x4F] = (None, [trigger_ptr 0x4F])"
    by (simp_all add: ChooseTrigger_def isalpha_def isspace_def AddItem_def)
  ultimately show ?thesis using assms by (simp add: CalcTriggers_def put_item_def)
qed

section \<open>Columns\<close>

text \<open>
  Whole sizes. \<open>sized\<close>: the content of the items has the size \<open>cw\<close> by \<open>ch\<close>, margins and font are whole; \<open>item_w\<close> and
  \<open>item_h\<close> are the width and the height (less one) that an item needs. \<open>tops\<close>: where the items begin, one below the other.
\<close>

record sizes =
  cw :: "ptr \<Rightarrow> int"
  ch :: "ptr \<Rightarrow> int"
  pad_l :: int
  pad_t :: int
  pad_r :: int
  pad_b :: int
  fs :: int

definition item_w :: "sizes \<Rightarrow> menu_state \<Rightarrow> ptr \<Rightarrow> int" where
  "item_w z s p = cw z p + (case items s p of Some x \<Rightarrow> if i_modifiers x \<noteq> 0 \<and> i_shortcutChar x \<noteq> 0 then fs z else 0 | None \<Rightarrow> 0) + pad_l z + pad_r z"

definition item_h :: "sizes \<Rightarrow> ptr \<Rightarrow> int" where "item_h z p = ch z p + pad_t z + pad_b z"

definition sized :: "metrics \<Rightarrow> ptr \<Rightarrow> sizes \<Rightarrow> menu \<Rightarrow> menu_state \<Rightarrow> ptr list \<Rightarrow> bool" where
  "sized mx this z m s ps \<longleftrightarrow> font_size mx this = fint (fs z) \<and> m_pad m = int_rect (pad_l z) (pad_t z) (pad_r z) (pad_b z) \<and>
     (\<forall>n\<in>{fs z, pad_l z, pad_t z, pad_r z, pad_b z}. \<bar>n\<bar> < 2 ^ 18) \<and>
     (\<forall>p\<in>set ps. items s p \<noteq> None \<and> GetContentSize mx s p = Inr (fint (cw z p), fint (ch z p)) \<and> 0 \<le> item_h z p \<and>
        \<bar>cw z p\<bar> < 2 ^ 18 \<and> \<bar>ch z p\<bar> < 2 ^ 18)"

fun tops :: "sizes \<Rightarrow> int \<Rightarrow> ptr list \<Rightarrow> ptr \<Rightarrow> int" where
  "tops z y [] p = y"
| "tops z y (q # ps) p = (if p = q then y else tops z (y + item_h z q + 1) ps p)"

definition stack_height :: "sizes \<Rightarrow> ptr list \<Rightarrow> int" where "stack_height z ps = (\<Sum>p\<leftarrow>ps. item_h z p + 1)"

lemma GetContentSize_bounds [simp]: "items s q = Some x \<Longrightarrow> GetContentSize mx (put_item q (bounds_of f x) s) p = GetContentSize mx s p"
  by (simp add: GetContentSize_def put_item_def bounds_of_def cong: if_cong)

text \<open>What a loop does to the bounds of the items.\<close>

definition rebound :: "(ptr \<Rightarrow> rect \<Rightarrow> rect) \<Rightarrow> ptr set \<Rightarrow> menu_state \<Rightarrow> menu_state" where
  "rebound f ps s = s\<lparr>items := (\<lambda>p. if p \<in> ps then map_option (bounds_of (f p)) (items s p) else items s p)\<rparr>"

definition row_at :: "sizes \<Rightarrow> (ptr \<Rightarrow> int) \<Rightarrow> ptr \<Rightarrow> rect \<Rightarrow> rect" where
  "row_at z t p r = r\<lparr>r_left := Fin 0, r_top := fint (t p), r_bottom := fint (t p + item_h z p)\<rparr>"

lemma fmax_fint: "exact a \<Longrightarrow> exact b \<Longrightarrow> fmax (fint a) (fint b) = fint (max a b)"
  by (simp add: fmax_def max_def)

lemma sized_bounds:
  assumes "sized mx this z m s (q # ps)" "items s q = Some x"
  shows "sized mx this z m (put_item q (bounds_of f x) s) ps" "item_w z (put_item q (bounds_of f x) s) = item_w z s"
  using assms by (auto simp: sized_def item_w_def fun_eq_iff) (auto simp: put_item_def bounds_of_def)

lemma sum4:
  assumes "\<bar>a\<bar> < 2 ^ 22" "\<bar>b\<bar> < 2 ^ 18" "\<bar>c\<bar> < 2 ^ 18" "\<bar>d\<bar> < 2 ^ 18"
  shows "fadd (fadd (fadd (fint a) (fint b)) (fint c)) (fint d) = fint (a + b + c + d)"
proof -
  have "(2 :: int) ^ 23 = 2 * 2 ^ 22" "(2 :: int) ^ 22 = 16 * 2 ^ 18" by simp_all
  then have "\<bar>a\<bar> < 2 ^ 23" "\<bar>b\<bar> < 2 ^ 23" "\<bar>c\<bar> < 2 ^ 23" "\<bar>d\<bar> < 2 ^ 23" "\<bar>a + b\<bar> < 2 ^ 23" "\<bar>a + b + c\<bar> < 2 ^ 23" using assms by linarith+
  then show ?thesis by (simp only: fadd_fint)
qed

lemma stack_height_simps [simp]: "stack_height z [] = 0" "stack_height z (p # ps) = item_h z p + 1 + stack_height z ps"
  by (simp_all add: stack_height_def)

lemma stack_height_nonneg: "sized mx this z m s ps \<Longrightarrow> 0 \<le> stack_height z ps"
  unfolding stack_height_def by (rule sum_list_nonneg) (auto simp: sized_def)

lemma rebound_Cons:
  assumes "items s q = Some x" "q \<notin> ps"
  shows "rebound f ps (put_item q (bounds_of g x) s) = rebound (f(q := g)) (insert q ps) s"
  using assms by (auto simp: rebound_def put_item_def fun_eq_iff)

lemma rebound_cong: "(\<And>p. p \<in> ps \<Longrightarrow> f p = g p) \<Longrightarrow> rebound f ps s = rebound g ps s"
  by (simp add: rebound_def cong: if_cong)

lemma column_loop_ok:
  assumes "sized mx this z m s (map (Menu_ItemAt m) is)" "distinct (map (Menu_ItemAt m) is)" "ps = map (Menu_ItemAt m) is"
    "frame = int_rect 0 t R (y - 1)" "0 \<le> y" "y + stack_height z ps < 2 ^ 22" "0 \<le> R" "R < 2 ^ 22"
  shows "column_loop mx this m is frame sub s =
    Inr (int_rect 0 t (fold (\<lambda>p. max (item_w z s p)) ps R) (y + stack_height z ps - 1),
      sub \<or> (\<exists>p\<in>set ps. i_submenu (the (items s p)) \<noteq> null), rebound (row_at z (tops z y ps)) (set ps) s)"
  using assms
proof (induction "is" arbitrary: ps s frame R y sub)
  case Nil
  then show ?case by (simp add: rebound_def)
next
  case (Cons i "is")
  let ?p = "Menu_ItemAt m i" and ?qs = "map (Menu_ItemAt m) is"
  note sz = Cons.prems(1) [unfolded sized_def]
  obtain x where x: "items s ?p = Some x" using sz by auto
  have c: "GetContentSize mx s ?p = Inr (fint (cw z ?p), fint (ch z ?p))" "0 \<le> item_h z ?p" "\<bar>cw z ?p\<bar> < 2 ^ 18" "\<bar>ch z ?p\<bar> < 2 ^ 18" using sz by auto
  have pads: "r_left (m_pad m) = fint (pad_l z)" "r_top (m_pad m) = fint (pad_t z)" "r_right (m_pad m) = fint (pad_r z)" "r_bottom (m_pad m) = fint (pad_b z)"
      "\<bar>fs z\<bar> < 2 ^ 18" "\<bar>pad_l z\<bar> < 2 ^ 18" "\<bar>pad_t z\<bar> < 2 ^ 18" "\<bar>pad_r z\<bar> < 2 ^ 18" "\<bar>pad_b z\<bar> < 2 ^ 18" "font_size mx this = fint (fs z)"
    using sz by (auto simp: int_rect_def Rect_of_def simp del: fint_exact)
  let ?key = "i_modifiers x \<noteq> 0 \<and> i_shortcutChar x \<noteq> 0"
  let ?f = "\<lambda>r. r\<lparr>r_left := Fin 0, r_top := fint y, r_bottom := fint (y + item_h z ?p)\<rparr>"
  let ?s = "put_item ?p (bounds_of ?f x) s"
  let ?R = "max (item_w z s ?p) R"
  have new: "?p \<notin> set ?qs" "distinct ?qs" using Cons.prems(2) by simp_all
  have sized: "sized mx this z m ?s ?qs" and w: "item_w z ?s = item_w z s" using sized_bounds [of mx this z m s ?p ?qs x ?f] Cons.prems(1) x by simp_all
  have tot: "0 \<le> stack_height z ?qs" "stack_height z ps = item_h z ?p + 1 + stack_height z ?qs" using stack_height_nonneg [OF sized] Cons.prems(3) by simp_all
  have pow: "(2 :: int) ^ 22 = 16 * 2 ^ 18" "(2 :: int) ^ 23 = 32 * 2 ^ 18" "(2 :: int) ^ 24 = 64 * 2 ^ 18" by simp_all
  have y: "y < 2 ^ 22" "\<bar>y\<bar> < 2 ^ 22" "\<bar>y - 1\<bar> < 2 ^ 23" using Cons.prems(5,6) tot c(2) pow by linarith+
  have iw: "item_w z s ?p = cw z ?p + (if ?key then fs z else 0) + pad_l z + pad_r z" using x by (simp add: item_w_def)
  have iwb: "\<bar>item_w z s ?p\<bar> < 2 ^ 22" using iw pads c(3) pow by (auto split: if_splits)
  have one: "Fin 1 = fint 1" "Fin 0 = fint 0" by (simp_all add: exact_def)
  have top: "fadd (fint (y - 1)) (Fin 1) = fint y" using fadd_fint [of "y - 1" 1] y unfolding one by simp
  have bot: "fadd (fadd (fadd (fint y) (fint (ch z ?p))) (fint (pad_t z))) (fint (pad_b z)) = fint (y + item_h z ?p)"
    using sum4 [of y "ch z ?p" "pad_t z" "pad_b z"] y c(4) pads by (simp only: item_h_def add.assoc)
  have wid: "fadd (fadd (if ?key then fadd (fint (cw z ?p)) (fint (fs z)) else fint (cw z ?p)) (fint (pad_l z))) (fint (pad_r z)) = fint (item_w z s ?p)"
  proof (cases ?key)
    case True
    have "\<bar>cw z ?p\<bar> < 2 ^ 22" using c(3) pow by linarith
    then show ?thesis unfolding iw if_P [OF True] by (rule sum4) (fact pads)+
  next
    case False
    have "fadd (fint 0) (fint (cw z ?p)) = fint (cw z ?p)" using fadd_fint [of 0 "cw z ?p"] c(3) pow by simp
    moreover have "fadd (fadd (fadd (fint 0) (fint (cw z ?p))) (fint (pad_l z))) (fint (pad_r z)) = fint (0 + cw z ?p + pad_l z + pad_r z)"
      by (rule sum4) (use c(3) pads in simp_all)
    ultimately show ?thesis unfolding iw if_not_P [OF False] by (simp only: add_0 add_0_right)
  qed
  have mx': "fmax (fint R) (fint (item_w z s ?p)) = fint ?R"
    using fmax_fint [of R "item_w z s ?p"] Cons.prems(7,8) iwb pow by (simp add: exact_def max.commute)
  have frame: "frame\<lparr>r_right := fint ?R, r_bottom := fint (y + item_h z ?p)\<rparr> = int_rect 0 t ?R (y + item_h z ?p + 1 - 1)"
    using Cons.prems(4) by (simp add: int_rect_def Rect_of_def)
  have fr: "r_right frame = fint R" "r_bottom frame = fint (y - 1)" using Cons.prems(4) by (simp_all add: int_rect_def Rect_of_def)
  have step: "column_loop mx this m (i # is) frame sub s =
      column_loop mx this m is (int_rect 0 t ?R (y + item_h z ?p + 1 - 1)) (sub \<or> i_submenu x \<noteq> null) ?s"
    using x by (simp only: column_loop.simps Let_def c(1) bindR.simps split pads(1-4,10) fr top bot wid mx' alive.simps frame)
  have same: "items ?s q = items s q" if "q \<in> set ?qs" for q using that new by (cases "q = ?p") (simp_all add: put_item_def)
  have "column_loop mx this m is (int_rect 0 t ?R (y + item_h z ?p + 1 - 1)) (sub \<or> i_submenu x \<noteq> null) ?s =
      Inr (int_rect 0 t (fold (\<lambda>p. max (item_w z ?s p)) ?qs ?R) (y + item_h z ?p + 1 + stack_height z ?qs - 1),
        (sub \<or> i_submenu x \<noteq> null) \<or> (\<exists>p\<in>set ?qs. i_submenu (the (items ?s p)) \<noteq> null), rebound (row_at z (tops z (y + item_h z ?p + 1) ?qs)) (set ?qs) ?s)"
    by (rule Cons.IH) (use sized new Cons.prems c(2) iwb tot pow in auto)
  moreover have "rebound (row_at z (tops z (y + item_h z ?p + 1) ?qs)) (set ?qs) ?s = rebound (row_at z (tops z y ps)) (set ps) s"
  proof -
    have "row_at z (tops z (y + item_h z ?p + 1) ?qs) q = row_at z (tops z y ps) q" if "q \<in> set ?qs" for q
      using that new Cons.prems(3) by (cases "q = ?p") (simp_all add: row_at_def fun_eq_iff)
    moreover have "?f = row_at z (tops z y ps) ?p" using Cons.prems(3) by (simp add: row_at_def fun_eq_iff)
    ultimately show ?thesis
      unfolding rebound_Cons [OF x new(1)] using Cons.prems(3) new(1) by (auto intro!: rebound_cong)
  qed
  moreover have "fold (\<lambda>p. max (item_w z ?s p)) ?qs ?R = fold (\<lambda>p. max (item_w z s p)) ps R" using Cons.prems(3) by (simp add: w)
  moreover have "y + item_h z ?p + 1 + stack_height z ?qs - 1 = y + stack_height z ps - 1" using tot(2) by simp
  moreover have "((sub \<or> i_submenu x \<noteq> null) \<or> (\<exists>p\<in>set ?qs. i_submenu (the (items ?s p)) \<noteq> null)) \<longleftrightarrow>
      sub \<or> (\<exists>p\<in>set ps. i_submenu (the (items s p)) \<noteq> null)"
    using x same Cons.prems(3) by auto
  ultimately show ?case using step by (simp only:)
qed

lemma each_item_ok:
  assumes "distinct (map (Menu_ItemAt m) is)" "\<forall>p\<in>set (map (Menu_ItemAt m) is). items s p \<noteq> None"
  shows "each_item (bounds_of g) m is s = Inr (rebound (\<lambda>_. g) (set (map (Menu_ItemAt m) is)) s)"
  using assms
proof (induction "is" arbitrary: s)
  case (Cons i "is")
  let ?p = "Menu_ItemAt m i"
  obtain x where x: "items s ?p = Some x" using Cons.prems by auto
  have new: "?p \<notin> set (map (Menu_ItemAt m) is)" using Cons.prems(1) by simp
  have "each_item (bounds_of g) m is (put_item ?p (bounds_of g x) s) = Inr (rebound (\<lambda>_. g) (set (map (Menu_ItemAt m) is)) (put_item ?p (bounds_of g x) s))"
    by (rule Cons.IH) (use Cons.prems in \<open>auto simp: put_item_def\<close>)
  moreover have "(\<lambda>_. g)(?p := g) = (\<lambda>_. g)" by (simp add: fun_eq_iff)
  ultimately show ?case using x rebound_Cons [OF x new, of "\<lambda>_. g" g] by (simp add: upd_item_def)
qed (simp add: rebound_def)

lemma bounds_of_comp: "bounds_of f \<circ> bounds_of g = bounds_of (\<lambda>r. f (g r))"
  by (simp add: fun_eq_iff bounds_of_def)

lemma rebound_rebound: "rebound f ps (rebound g ps s) = rebound (\<lambda>p r. f p (g p r)) ps s"
  by (simp add: rebound_def option.map_comp bounds_of_comp cong: if_cong)

lemma ceiling_half: "\<lceil>of_int n / 2 :: rat\<rceil> = (n + 1) div 2"
proof (rule ceiling_unique)
  consider k where "n = 2 * k" | k where "n = 2 * k + 1" by (cases "even n") (auto elim: evenE oddE)
  then show "of_int ((n + 1) div 2) - 1 < (of_int n / 2 :: rat)" "(of_int n / 2 :: rat) \<le> of_int ((n + 1) div 2)"
    by (cases; simp)+
qed

lemma add_half:
  assumes "\<bar>b\<bar> < 2 ^ 20" "\<bar>h\<bar> < 2 ^ 20"
  shows "fceil (fadd (fint b) (fdiv (fint h) (Fin 2))) = fint ((2 * b + h + 1) div 2)"
proof -
  have e: "exact b" "exact h" "\<bar>h\<bar> < 2 ^ 23" "\<bar>2 * b + h\<bar> < 2 ^ 23" "exact ((2 * b + h + 1) div 2)" using assms by (auto simp: exact_def)
  have "of_int b + of_int h / 2 = (of_int (2 * b + h) / 2 :: rat)" by (simp add: field_simps)
  then have "round32 (of_int b + of_int h / 2) = Fin (of_int (2 * b + h) / 2)" by (simp only: round32_half [OF e(4)])
  then show ?thesis using e(1,2,5) round32_half [OF e(3)] ceiling_half [of "2 * b + h"] by simp
qed

text \<open>The widest item, and the width of the column: half the height of the first item is added when there is a submenu.\<close>

definition widest :: "sizes \<Rightarrow> menu_state \<Rightarrow> ptr list \<Rightarrow> int" where "widest z s ps = fold (\<lambda>p. max (item_w z s p)) ps 0"

definition column_width :: "sizes \<Rightarrow> menu_state \<Rightarrow> ptr list \<Rightarrow> int" where
  "column_width z s ps =
     (if \<exists>p\<in>set ps. i_submenu (the (items s p)) \<noteq> null then (2 * widest z s ps + item_h z (hd ps) + 1) div 2 else widest z s ps)"

lemma fold_max: "(\<forall>p\<in>set ps. f p < b) \<Longrightarrow> a \<le> fold (\<lambda>p. max (f p)) ps a \<and> (a < b \<longrightarrow> fold (\<lambda>p. max (f p)) ps a < (b :: int))"
proof (induction ps arbitrary: a)
  case (Cons p ps)
  have "max (f p) a \<le> fold (\<lambda>p. max (f p)) ps (max (f p) a) \<and> (max (f p) a < b \<longrightarrow> fold (\<lambda>p. max (f p)) ps (max (f p) a) < b)"
    by (rule Cons.IH) (use Cons.prems in simp)
  then show ?case using Cons.prems by auto
qed simp

lemma widest_bound: "sized mx this z m s ps \<Longrightarrow> 0 \<le> widest z s ps \<and> widest z s ps < 2 ^ 20"
proof -
  assume sz: "sized mx this z m s ps"
  have "item_w z s p < 2 ^ 20" if "p \<in> set ps" for p
    using sz that by (auto simp: sized_def item_w_def abs_less_iff split: option.splits)
  then show ?thesis unfolding widest_def using fold_max [of ps "item_w z s" "2 ^ 20" 0] by simp
qed

definition column :: "sizes \<Rightarrow> menu_state \<Rightarrow> ptr list \<Rightarrow> ptr \<Rightarrow> rect" where
  "column z s ps p = int_rect 0 (tops z 0 ps p) (column_width z s ps) (tops z 0 ps p + item_h z p)"

lemma column_layout_ok:
  assumes m: "menus s this = Some m" "fits (m_items m)" "distinct (m_items m)" "m_items m \<noteq> []" "m_maxContentWidth m = Fin 0"
    and sz: "sized mx this z m s (m_items m)" and tot: "stack_height z (m_items m) < 2 ^ 20"
  shows "column_layout mx this 0 True s = Inr (int_rect 0 0 (column_width z s (m_items m)) (stack_height z (m_items m) - 1),
    rebound (\<lambda>p _. column z s (m_items m) p) (set (m_items m))
      (put_menu this (m\<lparr>m_hasSubmenus := \<exists>p\<in>set (m_items m). i_submenu (the (items s p)) \<noteq> null\<rparr>) s))"
proof -
  let ?ps = "m_items m"
  let ?sub = "\<exists>p\<in>set ?ps. i_submenu (the (items s p)) \<noteq> null"
  have ps: "map (Menu_ItemAt m) (indices m) = ?ps" using indices_items [OF m(2)] .
  have all: "filter (\<lambda>i. 0 \<le> i) (indices m) = indices m" using indices_eq [OF m(2)] by simp
  have fr: "Rect_of (Fin 0) (Fin 0) (Fin 0) (Fin (- 1)) = int_rect 0 0 0 (0 - 1)" by (simp add: int_rect_def exact_def)
  have w: "0 \<le> widest z s ?ps" "widest z s ?ps < 2 ^ 20" using widest_bound [OF sz] by auto
  have h: "0 \<le> stack_height z ?ps" using stack_height_nonneg [OF sz] .
  have pow: "(2 :: int) ^ 22 = 4 * 2 ^ 20" by simp
  let ?s1 = "rebound (row_at z (tops z 0 ?ps)) (set ?ps) s"
  have loop: "column_loop mx this m (indices m) (int_rect 0 0 0 (0 - 1)) False s =
      Inr (int_rect 0 0 (widest z s ?ps) (stack_height z ?ps - 1), ?sub, ?s1)"
    using column_loop_ok [of mx this z m s "indices m" ?ps _ 0 0 0 False, unfolded ps, OF sz m(3) refl refl] tot pow h by (simp add: widest_def)
  obtain p0 qs where p0: "?ps = p0 # qs" using m(4) by (cases ?ps) auto
  have at0: "Menu_ItemAt m 0 = p0" using m(2) p0 ItemAt_nth [of ?ps 0] by (simp add: Menu_ItemAt_def)
  obtain x0 where x0: "items s p0 = Some x0" using sz p0 by (auto simp: sized_def)
  have h0: "0 \<le> item_h z p0" "item_h z p0 < 2 ^ 20"
  proof -
    have "stack_height z ?ps = item_h z p0 + 1 + stack_height z qs" "sized mx this z m s qs" using sz p0 by (simp_all add: sized_def)
    then show "0 \<le> item_h z p0" "item_h z p0 < 2 ^ 20" using tot stack_height_nonneg [of mx this z m s qs] sz p0 by (auto simp: sized_def)
  qed
  have y0: "items ?s1 p0 = Some (bounds_of (row_at z (tops z 0 ?ps) p0) x0)" using x0 p0 by (simp add: rebound_def)
  have H0: "Height (i_bounds (bounds_of (row_at z (tops z 0 ?ps) p0) x0)) = fint (item_h z p0)"
    using fsub_fint [of "item_h z p0" 0] h0 p0 by (simp add: bounds_of_def row_at_def Height_def)
  let ?r = "if ?sub then fadd (fint (widest z s ?ps)) (fdiv (fint (item_h z p0)) (Fin 2)) else fint (widest z s ?ps)"
  have r: "fceil ?r = fint (column_width z s ?ps)"
    using add_half [of "widest z s ?ps" "item_h z p0"] w h0 p0 by (simp add: column_width_def exact_def)
  have nomax: "\<not> fless (Fin 0) (m_maxContentWidth m)" by (simp add: m(5))
  let ?m = "m\<lparr>m_hasSubmenus := ?sub\<rparr>"
  have menu: "menus ?s1 this = Some m" using m(1) by (simp add: rebound_def)
  have alive: "\<forall>p\<in>set ?ps. items (put_menu this ?m ?s1) p \<noteq> None" using sz by (simp add: sized_def put_menu_def rebound_def)
  have each: "each_item (bounds_of (\<lambda>q. q\<lparr>r_right := fint (column_width z s ?ps)\<rparr>)) m (indices m) (put_menu this ?m ?s1) =
      Inr (rebound (\<lambda>_ q. q\<lparr>r_right := fint (column_width z s ?ps)\<rparr>) (set ?ps) (put_menu this ?m ?s1))"
    using each_item_ok [of m "indices m" "put_menu this ?m ?s1" "\<lambda>q. q\<lparr>r_right := fint (column_width z s ?ps)\<rparr>"] m(3) alive unfolding ps by blast
  have swap: "put_menu this ?m ?s1 = rebound (row_at z (tops z 0 ?ps)) (set ?ps) (put_menu this ?m s)" by (simp add: put_menu_def rebound_def cong: if_cong)
  have col: "rebound (\<lambda>_ q. q\<lparr>r_right := fint (column_width z s ?ps)\<rparr>) (set ?ps) (put_menu this ?m ?s1) =
      rebound (\<lambda>p _. column z s ?ps p) (set ?ps) (put_menu this ?m s)"
    unfolding swap rebound_rebound by (intro rebound_cong) (simp add: row_at_def column_def int_rect_def Rect_of_def exact_def fun_eq_iff)
  have half: "(if ?sub then bindR (alive (items ?s1 (Menu_ItemAt m 0))) (\<lambda>x. Inr (fadd (r_right (int_rect 0 0 (widest z s ?ps) (stack_height z ?ps - 1))) (fdiv (Height (i_bounds x)) (Fin 2))))
      else Inr (r_right (int_rect 0 0 (widest z s ?ps) (stack_height z ?ps - 1)))) = Inr ?r"
    using y0 H0 at0 by (simp add: int_rect_def Rect_of_def)
  have frame: "(int_rect 0 0 (widest z s ?ps) (stack_height z ?ps - 1))\<lparr>r_top := Fin 0, r_right := fint (column_width z s ?ps)\<rparr> =
      int_rect 0 0 (column_width z s ?ps) (stack_height z ?ps - 1)"
    by (simp add: int_rect_def Rect_of_def exact_def)
  have um: "upd_menu this (\<lambda>m. m\<lparr>m_hasSubmenus := ?sub\<rparr>) ?s1 = Inr (put_menu this ?m ?s1)" using menu by (simp add: upd_menu_def)
  have right: "r_right (int_rect 0 0 (column_width z s ?ps) (stack_height z ?ps - 1)) = fint (column_width z s ?ps)" by (simp add: int_rect_def Rect_of_def)
  show ?thesis
    by (simp only: column_layout_def m(1) alive.simps bindR.simps less_irrefl simp_thms if_False if_True fr all loop split half Let_def nomax r frame um right each col)
qed

section \<open>The item under a point of a column\<close>

lemma tops_bounds:
  "(\<forall>q\<in>set ps. 0 \<le> item_h z q) \<Longrightarrow> p \<in> set ps \<Longrightarrow> y \<le> tops z y ps p \<and> tops z y ps p + item_h z p + 1 \<le> y + stack_height z ps"
proof (induction ps arbitrary: y)
  case (Cons q ps)
  have "0 \<le> stack_height z ps" unfolding stack_height_def by (rule sum_list_nonneg) (use Cons.prems(1) in auto)
  then show ?case using Cons.prems Cons.IH [of "y + item_h z q + 1"] by (cases "p = q") auto
qed simp

lemma tops_apart:
  "(\<forall>q\<in>set ps. 0 \<le> item_h z q) \<Longrightarrow> distinct ps \<Longrightarrow> p \<in> set ps \<Longrightarrow> q \<in> set ps \<Longrightarrow> p \<noteq> q \<Longrightarrow>
    tops z y ps p + item_h z p < tops z y ps q \<or> tops z y ps q + item_h z q < tops z y ps p"
proof (induction ps arbitrary: y)
  case (Cons r ps)
  let ?y = "y + item_h z r + 1"
  have t: "?y \<le> tops z ?y ps u" if "u \<in> set ps" for u using tops_bounds [of ps z u ?y] Cons.prems(1) that by simp
  consider "p = r" "q \<in> set ps" | "q = r" "p \<in> set ps" | "p \<noteq> r" "q \<noteq> r" "p \<in> set ps" "q \<in> set ps" using Cons.prems(3-5) by auto
  then show ?case
  proof cases
    case 3
    then show ?thesis using Cons.IH [of ?y] Cons.prems by simp
  qed (use Cons.prems(5) t in \<open>force+\<close>)
qed simp

lemma tops_cover:
  "y \<le> n \<Longrightarrow> n < y + stack_height z ps \<Longrightarrow> distinct ps \<Longrightarrow> \<exists>p\<in>set ps. tops z y ps p \<le> n \<and> n \<le> tops z y ps p + item_h z p"
proof (induction ps arbitrary: y)
  case (Cons q ps)
  show ?case
  proof (cases "n \<le> y + item_h z q")
    case False
    then obtain p where "p \<in> set ps" "tops z (y + item_h z q + 1) ps p \<le> n \<and> n \<le> tops z (y + item_h z q + 1) ps p + item_h z p"
      using Cons.IH [of "y + item_h z q + 1"] Cons.prems by auto
    moreover from this have "p \<noteq> q" using Cons.prems(3) by auto
    ultimately show ?thesis by auto
  qed (use Cons.prems(1) in auto)
qed simp

lemma hit_test_one:
  assumes "\<forall>q\<in>set (map (Menu_ItemAt m) is). \<exists>x. items s q = Some x \<and> (Contains (i_bounds x) pt \<longleftrightarrow> q = p)" "items s p = Some x"
  shows "hit_test s m pt is = Inr (if p \<in> set (map (Menu_ItemAt m) is) \<and> \<not> i_separator x then p else null)"
  using assms(1)
proof (induction "is")
  case (Cons i "is")
  obtain y where y: "items s (Menu_ItemAt m i) = Some y" "Contains (i_bounds y) pt \<longleftrightarrow> Menu_ItemAt m i = p" using Cons.prems by auto
  have IH: "hit_test s m pt is = Inr (if p \<in> set (map (Menu_ItemAt m) is) \<and> \<not> i_separator x then p else null)"
    by (rule Cons.IH) (use Cons.prems in simp)
  show ?case
  proof (cases "Menu_ItemAt m i = p")
    case True
    then show ?thesis using y IH assms(2) by simp
  qed (use y IH in auto)
qed simp

lemma column_contains:
  assumes "\<forall>q\<in>set ps. 0 \<le> item_h z q" "p \<in> set ps" "stack_height z ps < 2 ^ 20" "0 \<le> column_width z s ps" "column_width z s ps < 2 ^ 21"
    "0 \<le> x" "x \<le> column_width z s ps" "0 \<le> y" "y < stack_height z ps"
  shows "Contains (column z s ps p) (int_point x y) \<longleftrightarrow> tops z 0 ps p \<le> y \<and> y \<le> tops z 0 ps p + item_h z p"
proof -
  have t: "0 \<le> tops z 0 ps p" "tops z 0 ps p + item_h z p + 1 \<le> stack_height z ps" "0 \<le> item_h z p" using tops_bounds [of ps z p 0] assms(1,2) by auto
  have pow: "(2 :: int) ^ 21 = 2 * 2 ^ 20" "(2 :: int) ^ 24 = 16 * 2 ^ 20" by simp_all
  have e: "exact n" if "0 \<le> n" "n < 2 ^ 21" for n using that by (simp add: exact_def)
  have "tops z 0 ps p < 2 ^ 21" "tops z 0 ps p + item_h z p < 2 ^ 21" "0 \<le> tops z 0 ps p + item_h z p" "x < 2 ^ 21" "y < 2 ^ 21"
    using t assms(3-9) pow by linarith+
  then have "exact 0" "exact (tops z 0 ps p)" "exact (column_width z s ps)" "exact (tops z 0 ps p + item_h z p)" "exact x" "exact y"
    using t(1) assms(4-8) e by simp_all
  then show ?thesis using Contains_int [of 0 "tops z 0 ps p" "column_width z s ps" "tops z 0 ps p + item_h z p" x y] assms(6,7)
    unfolding column_def by blast
qed

lemma column_width_bound:
  assumes "sized mx this z m s ps" "ps \<noteq> []" "stack_height z ps < 2 ^ 20"
  shows "0 \<le> column_width z s ps \<and> column_width z s ps < 2 ^ 21"
proof -
  have w: "0 \<le> widest z s ps" "widest z s ps < 2 ^ 20" using widest_bound [OF assms(1)] by auto
  obtain p qs where ps: "ps = p # qs" using assms(2) by (cases ps) auto
  have "sized mx this z m s qs" using assms(1) ps by (simp add: sized_def)
  then have "0 \<le> item_h z p" "item_h z p < 2 ^ 20" using assms(1,3) ps stack_height_nonneg [of mx this z m s qs] by (auto simp: sized_def)
  then show ?thesis using w ps by (auto simp: column_width_def)
qed

section \<open>Laying out a menu\<close>

lemma set_triggers_total:
  "\<forall>p\<in>set (map (Menu_ItemAt m) is). items s p \<noteq> None \<Longrightarrow> \<exists>f. set_triggers m is chars s = Inr (triggered f (set (map (Menu_ItemAt m) is)) s)"
proof (induction "is" arbitrary: chars s)
  case Nil
  then show ?case by (simp add: triggered_def)
next
  case (Cons i "is")
  let ?p = "Menu_ItemAt m i" and ?ps = "set (map (Menu_ItemAt m) is)"
  obtain x where x: "items s ?p = Some x" using Cons.prems by auto
  obtain c chars' where step: "set_triggers m (i # is) chars s = set_triggers m is chars' (put_item ?p (x\<lparr>i_sysTrigger := c\<rparr>) s)"
  proof -
    have "x\<lparr>i_sysTrigger := i_sysTrigger x\<rparr> = x" by simp
    then have same: "put_item ?p (x\<lparr>i_sysTrigger := i_sysTrigger x\<rparr>) s = s" using x by (simp add: put_item_same)
    show thesis
    proof (cases "ChooseTrigger (i_label x) chars")
      case (Pair a b)
      then show thesis
        using that [of b "case a of None \<Rightarrow> i_sysTrigger x | Some c \<Rightarrow> c"] that [of chars "i_sysTrigger x"] x same
        by (cases "i_userTrigger x = 0") (auto split: option.splits)
    qed
  qed
  let ?s = "put_item ?p (x\<lparr>i_sysTrigger := c\<rparr>) s"
  have "\<forall>p\<in>?ps. items ?s p \<noteq> None" using Cons.prems by (auto simp: put_item_def)
  then obtain f where f: "set_triggers m is chars' ?s = Inr (triggered f ?ps ?s)" using Cons.IH by blast
  let ?f = "if ?p \<in> ?ps then f else f(?p := c)"
  have "items (triggered f ?ps ?s) q = items (triggered ?f (insert ?p ?ps) s) q" for q
    using x by (cases "q = ?p") (auto simp: triggered_def put_item_def)
  then have "triggered f ?ps ?s = triggered ?f (insert ?p ?ps) s"
    by (intro menu_state.equality) (auto simp: triggered_def put_item_def)
  then show ?case using step f by (intro exI [of _ ?f]) simp
qed

lemma CalcTriggers_total:
  assumes "menus s this = Some m" "fits (m_items m)" "\<forall>p\<in>set (m_items m). items s p \<noteq> None"
  shows "\<exists>f. CalcTriggers this s = Inr (triggered f (set (m_items m)) s)"
proof -
  have ps: "map (Menu_ItemAt m) (indices m) = m_items m" using indices_items [OF assms(2)] .
  obtain cs where "user_triggers m (indices m) s [] = Inr cs" using user_triggers_ok [of m "indices m" s "[]"] assms(3) unfolding ps by blast
  then show ?thesis using set_triggers_total [of m "indices m" s cs] assms unfolding ps by (auto simp: CalcTriggers_def)
qed

lemma GetContentSize_triggered [simp]: "GetContentSize mx (triggered f ps s) p = GetContentSize mx s p"
  by (cases "items s p") (auto simp: GetContentSize_def triggered_def cong: if_cong)

lemma GetContentSize_menu:
  assumes "menus s this = Some m" "m_layout m' = m_layout m" "m_fontHeight m' = m_fontHeight m"
  shows "GetContentSize mx (put_menu this m' s) p = GetContentSize mx s p"
  using assms by (cases "items s p") (auto simp: GetContentSize_def put_menu_def)

lemma sized_change:
  assumes "sized mx this z m s ps" "\<And>p. GetContentSize mx s' p = GetContentSize mx s p" "\<And>p. items s' p = None \<longleftrightarrow> items s p = None" "m_pad m' = m_pad m"
  shows "sized mx this z m' s' ps"
  using assms by (simp add: sized_def)

text \<open>The state the layout leaves, but for the desk and for the menu itself.\<close>

lemma ResizeTo_whole:
  assumes "views g v = Some x" "r_left (fBounds x) = Fin 0" "r_top (fBounds x) = Fin 0" "0 \<le> a" "a < 2 ^ 22" "0 \<le> b" "b < 2 ^ 22"
    "fParent x \<noteq> null \<longrightarrow> env_ok env g \<and> gui_ok kids win g \<and> fParent x \<noteq> v \<and> (\<exists>y. views g (fParent x) = Some y \<and> fWindow y = win)"
  shows "\<exists>g'. ResizeTo env v (fint a) (fint b) g = Inr g' \<and> views g' = (views g)(v \<mapsto> x\<lparr>fBounds := int_rect 0 0 a b\<rparr>)"
proof -
  have z: "Fin 0 = fint 0" by (simp add: exact_def)
  have e: "exact a" "exact b" "\<bar>a\<bar> < 2 ^ 23" "\<bar>b\<bar> < 2 ^ 23" using assms(4-7) by (simp_all add: exact_def)
  have sum: "fadd (Fin 0) (fint a) = fint a" "fadd (Fin 0) (fint b) = fint b"
    using fadd_fint [of 0 a] fadd_fint [of 0 b] e unfolding z by simp_all
  have neg: "\<not> fless (fint a) (Fin 0)" "\<not> fless (fint b) (Fin 0)" using assms(4,6) e by auto
  have bounds: "Rect_Set (fBounds x) (Fin 0) (Fin 0) (fint a) (fint b) = int_rect 0 0 a b"
    using z by (simp add: Rect_Set_def int_rect_def Rect_of_def del: fint_exact)
  let ?g = "put_view v (x\<lparr>fBounds := int_rect 0 0 a b\<rparr>) g"
  have r: "ResizeTo env v (fint a) (fint b) g = invalidate_parent env x ?g"
    using assms(1-3) sum neg bounds e ffloor_fint by (simp add: ResizeTo_def Let_def invalidate_parent_def del: fint_exact)
  show ?thesis
  proof (cases "fParent x = null")
    case True
    then show ?thesis using r by (simp add: invalidate_parent_def put_view_def)
  next
    case False
    then obtain y where y: "views g (fParent x) = Some y" "fWindow y = win" "fParent x \<noteq> v" and ok: "env_ok env g" "gui_ok kids win g"
      using assms(8) by blast
    have "Rect_IsValid (int_rect 0 0 a b)"
      using e assms(4,6) by (simp add: Rect_IsValid_def int_rect_def Rect_of_def exact_def)
    then have "env_ok env ?g" "gui_ok kids win ?g" "views ?g (fParent x) = Some y"
      using ok gui_ok_bounds [OF assms(1)] y by (auto simp: env_ok_def put_view_def split: if_splits)
    from Invalidate_ok [OF this(1,2,3) y(2)] show ?thesis using r False by (auto simp: invalidate_parent_def put_view_def)
  qed
qed

text \<open>C25. The layout of a menu whose items stand in a column gives the view exactly the size of the column, and every point of the
  view with whole coordinates lies in one row; \<open>_HitTestItems\<close> finds the item of this row, or nothing if that is a
  separator. The rows follow each other in the order of the items without a gap.\<close>

theorem column_hits_its_row:
  assumes m: "menus s this = Some m" "m_layout m = B_ITEMS_IN_COLUMN" "m_resizeToFit m" "m_maxContentWidth m = Fin 0"
      "fits (m_items m)" "distinct (m_items m)" "m_items m \<noteq> []"
    and sz: "sized mx this z m s (m_items m)" "stack_height z (m_items m) < 2 ^ 20"
    and v: "views (desk s) this = Some v" "ResizingMode v AND B_FOLLOW_LEFT_RIGHT \<noteq> B_FOLLOW_LEFT_RIGHT" "r_left (fBounds v) = Fin 0" "r_top (fBounds v) = Fin 0"
    and p: "fParent v \<noteq> null \<longrightarrow> env_ok env (desk s) \<and> gui_ok kids win (desk s) \<and> fParent v \<noteq> this \<and>
      (\<exists>y. views (desk s) (fParent v) = Some y \<and> fWindow y = win)"
  shows "\<exists>s'. LayoutItems env mx this 0 s = Inr s' \<and>
    map_option fBounds (views (desk s') this) = Some (int_rect 0 0 (column_width z s (m_items m)) (stack_height z (m_items m) - 1)) \<and>
    (\<forall>x y. 0 \<le> x \<longrightarrow> x \<le> column_width z s (m_items m) \<longrightarrow> 0 \<le> y \<longrightarrow> y < stack_height z (m_items m) \<longrightarrow>
      (\<exists>p\<in>set (m_items m). tops z 0 (m_items m) p \<le> y \<and> y \<le> tops z 0 (m_items m) p + item_h z p \<and>
        HitTestItems s' this (int_point x y) = Inr (if i_separator (the (items s p)) then null else p)))"
proof -
  let ?ps = "m_items m"
  let ?W = "column_width z s ?ps" and ?T = "stack_height z ?ps"
  have alive: "items s p \<noteq> None" "0 \<le> item_h z p" if "p \<in> set ?ps" for p using sz(1) that by (auto simp: sized_def)
  obtain f where f: "CalcTriggers this s = Inr (triggered f (set ?ps) s)" using CalcTriggers_total [OF m(1,5)] alive by blast
  define s1 where "s1 = triggered f (set ?ps) s"
  define m1 where "m1 = m\<lparr>m_lastResizingMode := ResizingMode v\<rparr>"
  define s2 where "s2 = put_menu this m1 s1"
  have s1: "menus s1 = menus s" "desk s1 = desk s" "items s1 p = None \<longleftrightarrow> items s p = None" for p by (auto simp: s1_def triggered_def)
  have s2: "menus s2 this = Some m1" "desk s2 = desk s" "items s2 = items s1" by (simp_all add: s2_def put_menu_def s1)
  have m1: "m_items m1 = ?ps" "m_layout m1 = B_ITEMS_IN_COLUMN" "m_maxContentWidth m1 = Fin 0" using m by (simp_all add: m1_def)
  have "GetContentSize mx s2 q = GetContentSize mx s q" for q
    using GetContentSize_menu [of s1 this m m1 mx q] m(1) s1 by (simp add: s2_def m1_def) (simp add: s1_def)
  then have sz2: "sized mx this z m1 s2 ?ps" by (rule sized_change [OF sz(1)]) (simp_all add: s2 s1 m1_def)
  have w: "item_w z s2 = item_w z s" by (auto simp: fun_eq_iff item_w_def s2(3) s1_def triggered_def split: option.splits)
  have sub: "i_submenu (the (items s2 q)) = i_submenu (the (items s q))" if "q \<in> set ?ps" for q using alive(1) [OF that] that by (auto simp: s2(3) s1_def triggered_def)
  have W: "column_width z s2 ?ps = ?W" using sub by (simp add: column_width_def widest_def w)
  have T: "0 < ?T"
  proof (cases ?ps)
    case (Cons q qs)
    then have "sized mx this z m s qs" using sz(1) by (simp add: sized_def)
    then show ?thesis using Cons alive(2) [of q] stack_height_nonneg [of mx this z m s qs] by simp
  qed (use m(7) in simp)
  have Wb: "0 \<le> ?W" "?W < 2 ^ 21" using column_width_bound [OF sz(1) m(7) sz(2)] by auto
  define m2 where "m2 = m1\<lparr>m_hasSubmenus := \<exists>p\<in>set ?ps. i_submenu (the (items s2 p)) \<noteq> null\<rparr>"
  have "m_items m2 = ?ps" using m1(1) by (simp add: m2_def)
  moreover have "column_layout mx this 0 True s2 =
      Inr (int_rect 0 0 ?W (?T - 1), rebound (\<lambda>p _. column z s2 ?ps p) (set ?ps) (put_menu this m2 s2))"
    using column_layout_ok [OF s2(1), unfolded m1(1), OF m(5-7) m1(3) sz2 sz(2)] by (simp only: W m2_def)
  ultimately have m2: "m_items m2 = ?ps" "column_layout mx this 0 True s2 =
      Inr (int_rect 0 0 ?W (?T - 1), rebound (\<lambda>p _. column z s2 ?ps p) (set ?ps) (put_menu this m2 s2))" .
  define s3 where "s3 = rebound (\<lambda>p _. column z s2 ?ps p) (set ?ps) (put_menu this m2 s2)"
  have s3: "menus s3 this = Some m2" "desk s3 = desk s" by (simp_all add: s3_def rebound_def put_menu_def s2)
  have size: "Width (int_rect 0 0 ?W (?T - 1)) = fint ?W" "Height (int_rect 0 0 ?W (?T - 1)) = fint (?T - 1)"
    using fsub_fint [of ?W 0] fsub_fint [of "?T - 1" 0] Wb T sz(2) by (simp_all add: Width_def Height_def int_rect_def Rect_of_def del: fint_exact)
  define m3 where "m3 = m2\<lparr>m_preferred := (fint ?W, fint (?T - 1)), m_useCachedLayout := True\<rparr>"
  define s4 where "s4 = put_menu this m3 s3"
  have s4: "menus s4 this = Some m3" "desk s4 = desk s" "items s4 = items s3" "m_items m3 = ?ps" using m2(1) by (simp_all add: s4_def put_menu_def s3 m3_def)
  have layout: "ComputeLayout mx this 0 True True s1 = Inr ((fint ?W, fint (?T - 1)), s4)"
  proof -
    have "upd_menu this (\<lambda>m. m\<lparr>m_lastResizingMode := ResizingMode v\<rparr>) s1 = Inr s2" using m(1) s1 by (simp add: upd_menu_def s2_def m1_def)
    then show ?thesis using v(1,2) s1(2) s2 m1(2) m2(2) s3 size
      by (simp add: ComputeLayout_def s3_def [symmetric] Let_def upd_menu_def s4_def m3_def del: fint_exact)
  qed
  obtain g' where g': "ResizeTo env this (fint ?W) (fint (?T - 1)) (desk s) = Inr g'"
      "views g' = (views (desk s))(this \<mapsto> v\<lparr>fBounds := int_rect 0 0 ?W (?T - 1)\<rparr>)"
    using ResizeTo_whole [OF v(1,3,4) Wb(1) _ _ _ p, of "?T - 1"] Wb(2) T sz(2) by auto
  let ?s = "s4\<lparr>desk := g'\<rparr>"
  have result: "LayoutItems env mx this 0 s = Inr ?s"
    using f m(1,3) layout g'(1) s4(2) by (simp add: LayoutItems_def s1_def [symmetric] s1 on_desk_def del: fint_exact)
  have item: "items ?s q = Some (bounds_of (\<lambda>_. column z s2 ?ps q) (the (items s1 q)))" "i_separator (the (items s1 q)) = i_separator (the (items s q))"
    if "q \<in> set ?ps" for q
    using alive(1) [OF that] that by (auto simp: s4(3) s3_def rebound_def put_menu_def s2(3) s1_def triggered_def)
  have hit: "\<exists>p\<in>set ?ps. tops z 0 ?ps p \<le> y \<and> y \<le> tops z 0 ?ps p + item_h z p \<and>
      HitTestItems ?s this (int_point x y) = Inr (if i_separator (the (items s p)) then null else p)"
    if xy: "0 \<le> x" "x \<le> ?W" "0 \<le> y" "y < ?T" for x y
  proof -
    have nn: "\<forall>q\<in>set ?ps. 0 \<le> item_h z q" using alive(2) by blast
    obtain p where p: "p \<in> set ?ps" "tops z 0 ?ps p \<le> y" "y \<le> tops z 0 ?ps p + item_h z p"
      using tops_cover [of 0 y z ?ps] xy m(6) by auto
    have "Contains (column z s2 ?ps q) (int_point x y) \<longleftrightarrow> q = p" if q: "q \<in> set ?ps" for q
    proof -
      have "Contains (column z s2 ?ps q) (int_point x y) \<longleftrightarrow> tops z 0 ?ps q \<le> y \<and> y \<le> tops z 0 ?ps q + item_h z q"
        using column_contains [OF nn q sz(2), of s2 x y] W Wb xy by simp
      then show ?thesis using p tops_apart [OF nn m(6) q p(1), of 0] by (cases "q = p") auto
    qed
    then have one: "\<forall>q\<in>set (map (Menu_ItemAt m3) (indices m3)). \<exists>u. items ?s q = Some u \<and> (Contains (i_bounds u) (int_point x y) \<longleftrightarrow> q = p)"
      using item(1) s4(4) m(5) indices_items [of m3] by (simp add: bounds_of_def)
    have "exact 0" "exact x" "exact y" "exact ?W" "exact (?T - 1)" using xy Wb sz(2) by (auto simp: exact_def)
    then have "Contains (int_rect 0 0 ?W (?T - 1)) (int_point x y)" using Contains_int [of 0 0 ?W "?T - 1" x y] xy by auto
    then have "HitTestItems ?s this (int_point x y) = hit_test ?s m3 (int_point x y) (indices m3)"
      using s4(1) g'(2) by (simp add: HitTestItems_def Bounds_def)
    also have "\<dots> = Inr (if p \<in> set (map (Menu_ItemAt m3) (indices m3)) \<and> \<not> i_separator (the (items s p)) then p else null)"
      using hit_test_one [OF one item(1) [OF p(1)]] item(2) [OF p(1)] by (simp add: bounds_of_def)
    also have "\<dots> = Inr (if i_separator (the (items s p)) then null else p)" using indices_items [of m3] s4(4) m(5) p(1) by simp
    finally show ?thesis using p by blast
  qed
  have "map_option fBounds (views (desk ?s) this) = Some (int_rect 0 0 ?W (?T - 1))" using g'(2) by simp
  then show ?thesis using result hit by blast
qed

text \<open>A menu with the item 2, of 40 by 14, and the separator 3 below it, in the view 1.\<close>

definition column_menu :: menu where
  "column_menu = (Menu_new B_ITEMS_IN_COLUMN True 0)\<lparr>m_items := [2, 3], m_fontHeight := fint 14\<rparr>"

definition column_sample :: menu_state where
  "column_sample = \<lparr>items = [2 \<mapsto> (lettered [0x4F] 0)\<lparr>i_super := 1\<rparr>, 3 \<mapsto> (SeparatorItem_new B_OK 0)\<lparr>i_super := 1\<rparr>],
     menus = [1 \<mapsto> column_menu], tables = (\<lambda>_. None), desk = framed_gui\<rparr>"

definition column_metrics :: metrics where
  "column_metrics = \<lparr>text_width = (\<lambda>_ _. fint 40), font_size = (\<lambda>_. Fin 0), font_height = (\<lambda>_. (Fin 10, Fin 4, Fin 0)), window_frame = (\<lambda>_. Rect_new)\<rparr>"

definition column_sizes :: sizes where
  "column_sizes = \<lparr>cw = (\<lambda>p. if p = 2 then 40 else 2), ch = (\<lambda>p. if p = 2 then 14 else 4), pad_l = 0, pad_t = 0, pad_r = - 1, pad_b = - 1, fs = 0\<rparr>"

lemma column_sample_sized: "sized column_metrics 1 column_sizes column_menu column_sample [2, 3]"
proof -
  have "separator_height (Fin 0) = fint 4" by (simp add: separator_height_def round64_def round32_def exact_def)
  then show ?thesis
    by (simp add: sized_def column_metrics_def column_sizes_def column_menu_def column_sample_def Menu_new_def Rect_new_def int_rect_def Rect_of_def
        exact_def GetContentSize_def lettered_def SeparatorItem_new_def MenuItem_new_def item_h_def StringWidth_def)
qed

lemma column_hits_its_row_witness:
  "\<exists>s'. LayoutItems sample_env column_metrics 1 0 column_sample = Inr s' \<and> HitTestItems s' 1 (int_point 5 10) = Inr 2 \<and>
    HitTestItems s' 1 (int_point 5 15) = Inr null"
proof -
  let ?v = "(the (views sample_gui 1))\<lparr>fBounds := int_rect 0 0 9 19\<rparr>"
  let ?z = column_sizes
  have m: "menus column_sample 1 = Some column_menu" "m_layout column_menu = B_ITEMS_IN_COLUMN" "m_resizeToFit column_menu"
      "m_maxContentWidth column_menu = Fin 0" "fits (m_items column_menu)" "distinct (m_items column_menu)" "m_items column_menu \<noteq> []"
    by (simp_all add: column_sample_def column_menu_def Menu_new_def fits_def)
  have ps: "m_items column_menu = [2, 3]" by (simp add: column_menu_def)
  have h: "stack_height ?z [2, 3] = 18" "item_h ?z 2 = 13" "item_h ?z 3 = 3" by (simp_all add: item_h_def column_sizes_def)
  have W: "column_width ?z column_sample [2, 3] = 39"
    by (simp add: column_width_def widest_def item_w_def column_sample_def column_sizes_def lettered_def SeparatorItem_new_def MenuItem_new_def)
  have sz: "sized column_metrics 1 ?z column_menu column_sample (m_items column_menu)" "stack_height ?z (m_items column_menu) < 2 ^ 20"
    using column_sample_sized ps h by simp_all
  have v: "views (desk column_sample) 1 = Some ?v" "ResizingMode ?v AND B_FOLLOW_LEFT_RIGHT \<noteq> B_FOLLOW_LEFT_RIGHT"
      "r_left (fBounds ?v) = Fin 0" "r_top (fBounds ?v) = Fin 0" "fParent ?v = null"
    by (simp_all add: column_sample_def framed_gui_def put_view_def sample_gui_def plain_view_def ResizingMode_def B_FOLLOW_LEFT_RIGHT_def
        int_rect_def Rect_of_def exact_def)
  have "fParent ?v \<noteq> null \<longrightarrow> env_ok sample_env (desk column_sample) \<and> gui_ok sample_kids 9 (desk column_sample) \<and> fParent ?v \<noteq> 1 \<and>
      (\<exists>y. views (desk column_sample) (fParent ?v) = Some y \<and> fWindow y = 9)" using v(5) by simp
  from column_hits_its_row [OF m sz v(1-4) this] obtain s' where s': "LayoutItems sample_env column_metrics 1 0 column_sample = Inr s'"
    and hit: "\<And>x y. 0 \<le> x \<Longrightarrow> x \<le> 39 \<Longrightarrow> 0 \<le> y \<Longrightarrow> y < 18 \<Longrightarrow> \<exists>p\<in>set [2, 3]. tops ?z 0 [2, 3] p \<le> y \<and> y \<le> tops ?z 0 [2, 3] p + item_h ?z p \<and>
        HitTestItems s' 1 (int_point x y) = Inr (if i_separator (the (items column_sample p)) then null else p)"
    unfolding ps h W by blast
  have "i_separator (the (items column_sample 2)) = False" "i_separator (the (items column_sample 3))"
    by (simp_all add: column_sample_def lettered_def SeparatorItem_new_def MenuItem_new_def)
  then have "HitTestItems s' 1 (int_point 5 10) = Inr 2" "HitTestItems s' 1 (int_point 5 15) = Inr null"
    using hit [of 5 10] hit [of 5 15] h by simp_all
  then show ?thesis using s' by blast
qed

end
