(* ===== verification/MenuItems.thy ===== *)
theory MenuItems
  imports MenuLayout
begin

text \<open>
  Adding items to menus, installing them in a window, and removing and deleting them (\<open>kits/interface/Menu.cpp\<close> and
  \<open>MenuItem.cpp\<close>). The keyboard shortcuts of the items go into the table of the window, of the theory Shortcut.
\<close>

section \<open>Installing\<close>

text \<open>
  \<open>new\<close>: the address that the allocation of a shortcut gives. \<open>bm\<close>: a \<open>BMessenger\<close> made by the default constructor.
\<close>

record heap =
  h_new :: "shortcut_table \<Rightarrow> ptr"
  h_messenger :: messenger

definition in_table :: "ptr \<Rightarrow> (shortcut_table \<Rightarrow> shortcut_table outcome) \<Rightarrow> menu_state \<Rightarrow> menu_state outcome" where
  "in_table win f s = bindR (alive (tables s win)) (\<lambda>t. bindR (f t) (\<lambda>t. Inr (s\<lparr>tables := (tables s)(win := Some t)\<rparr>)))"

definition has_shortcut :: "menu_item \<Rightarrow> bool" where
  "has_shortcut x \<longleftrightarrow> i_shortcutChar x \<noteq> 0 \<and> i_modifiers x AND B_COMMAND_KEY \<noteq> 0"

definition Window_AddShortcut :: "heap \<Rightarrow> ptr \<Rightarrow> menu_item \<Rightarrow> ptr \<Rightarrow> menu_state \<Rightarrow> menu_state outcome" where
  "Window_AddShortcut h win x item = in_table win (\<lambda>t. AddShortcut_item t (h_new h t) (scast (i_shortcutChar x)) (i_modifiers x) item)"

definition Window_RemoveShortcut :: "ptr \<Rightarrow> menu_item \<Rightarrow> menu_state \<Rightarrow> menu_state outcome" where
  "Window_RemoveShortcut win x = in_table win (\<lambda>t. RemoveShortcut t (scast (i_shortcutChar x)) (i_modifiers x))"

definition install_self :: "heap \<Rightarrow> ptr \<Rightarrow> ptr \<Rightarrow> menu_state \<Rightarrow> menu_state outcome" where
  "install_self h this win s =
     bindR (alive (items s this)) (\<lambda>x.
     let x = x\<lparr>i_window := win\<rparr>; s = put_item this x s
     in bindR (if has_shortcut x \<and> win \<noteq> null then Window_AddShortcut h win x this s else Inr s) (\<lambda>s.
        if \<not> IsValid (iMessenger (i_invoker x)) then
          bindR (SetTarget (world (desk s)) (i_invoker x) win null) (\<lambda>(_, inv). Inr (put_item this (x\<lparr>i_invoker := inv\<rparr>) s))
        else Inr s))"

text \<open>The fuel bounds the nested calls and the steps of the loops together.\<close>

fun install :: "nat \<Rightarrow> heap \<Rightarrow> ptr \<Rightarrow> ptr \<Rightarrow> menu_state \<Rightarrow> menu_state partial"
  and install_items :: "nat \<Rightarrow> heap \<Rightarrow> ptr \<Rightarrow> ptr \<Rightarrow> int \<Rightarrow> menu_state \<Rightarrow> menu_state partial" where
  "install 0 h this win s = None"
| "install (Suc n) h this win s =
     bindO (Some (alive (items s this))) (\<lambda>x.
     bindO (if i_submenu x \<noteq> null then install_items n h (i_submenu x) win 0 s else Some (Inr s)) (\<lambda>s.
     Some (install_self h this win s)))"
| "install_items 0 h this win i s = None"
| "install_items (Suc n) h this win i s =
     bindO (Some (alive (menus s this))) (\<lambda>m.
     if i < Menu_CountItems m then bindO (install n h (Menu_ItemAt m i) win s) (\<lambda>s. install_items n h this win (i + 1) s)
     else Some (Inr s))"

definition uninstall_self :: "heap \<Rightarrow> ptr \<Rightarrow> menu_state \<Rightarrow> menu_state outcome" where
  "uninstall_self h this s =
     bindR (alive (items s this)) (\<lambda>x.
     let x = (if fst (Invoker_Target (i_invoker x)) = i_window x
              then x\<lparr>i_invoker := snd (SetTarget_messenger (i_invoker x) (h_messenger h))\<rparr> else x)
     in bindR (if has_shortcut x \<and> i_window x \<noteq> null then Window_RemoveShortcut (i_window x) x s else Inr s) (\<lambda>s.
        Inr (put_item this (x\<lparr>i_window := null\<rparr>) s)))"

fun uninstall :: "nat \<Rightarrow> heap \<Rightarrow> ptr \<Rightarrow> menu_state \<Rightarrow> menu_state partial"
  and uninstall_items :: "nat \<Rightarrow> heap \<Rightarrow> ptr \<Rightarrow> int \<Rightarrow> menu_state \<Rightarrow> menu_state partial" where
  "uninstall 0 h this s = None"
| "uninstall (Suc n) h this s =
     bindO (Some (alive (items s this))) (\<lambda>x.
     bindO (if i_submenu x \<noteq> null then uninstall_items n h (i_submenu x) 0 s else Some (Inr s)) (\<lambda>s.
     Some (uninstall_self h this s)))"
| "uninstall_items 0 h this i s = None"
| "uninstall_items (Suc n) h this i s =
     bindO (Some (alive (menus s this))) (\<lambda>m.
     if i < Menu_CountItems m then bindO (uninstall n h (Menu_ItemAt m i) s) (\<lambda>s. uninstall_items n h this (i + 1) s)
     else Some (Inr s))"

definition SetSuper :: "ptr \<Rightarrow> ptr \<Rightarrow> menu_state \<Rightarrow> menu_state outcome" where
  "SetSuper this super s =
     bindR (alive (items s this)) (\<lambda>x.
     if i_super x \<noteq> null \<and> super \<noteq> null then Inl Debugger
     else bindR (if i_submenu x \<noteq> null then upd_menu (i_submenu x) (\<lambda>m. m\<lparr>m_super := super\<rparr>) s else Inr s) (\<lambda>s.
          upd_item this (\<lambda>x. x\<lparr>i_super := super\<rparr>) s))"

section \<open>Deleting\<close>

text \<open>
  The destructor of an item takes it out of its menu, and that deletes the item. A menu does not delete its items. The
  fuel bounds the nested calls.
\<close>

definition delete_menu :: "ptr \<Rightarrow> menu_state \<Rightarrow> menu_state outcome" where
  "delete_menu m s =
     bindR (alive (menus s m)) (\<lambda>_.
     let g = desk s; w = world g
     in Inr (s\<lparr>menus := (menus s)(m := None), desk := g\<lparr>views := (views g)(m := None), world := w\<lparr>handlers := (handlers w)(m := None)\<rparr>\<rparr>\<rparr>))"

fun delete_item :: "nat \<Rightarrow> ptr \<Rightarrow> menu_state \<Rightarrow> menu_state partial"
  and Menu_RemoveItem :: "nat \<Rightarrow> ptr \<Rightarrow> ptr \<Rightarrow> menu_state \<Rightarrow> (bool \<times> menu_state) partial" where
  "delete_item 0 this s = None"
| "delete_item (Suc n) this s =
     bindO (Some (alive (items s this))) (\<lambda>x.
     bindO (if i_super x \<noteq> null then Menu_RemoveItem n (i_super x) this s else Some (Inr (False, s))) (\<lambda>r.
     bindO (Some (alive (items (snd r) this))) (\<lambda>x.
     bindO (Some (if i_submenu x \<noteq> null then delete_menu (i_submenu x) (snd r) else Inr (snd r))) (\<lambda>s.
     Some (bindR (Invoker_delete (world (desk s)) (i_invoker x)) (\<lambda>w.
           Inr (s\<lparr>items := (items s)(this := None), desk := (desk s)\<lparr>world := w\<rparr>\<rparr>)))))))"
| "Menu_RemoveItem 0 this item s = None"
| "Menu_RemoveItem (Suc n) this item s =
     (if item = null then Some (Inr (False, s))
      else bindO (Some (alive (menus s this))) (\<lambda>m.
           let (found, list) = RemoveItem (m_items m) item
           in if found then bindO (delete_item n item (put_menu this (m\<lparr>m_items := list\<rparr>) s)) (\<lambda>s. Some (Inr (True, s)))
              else Some (Inr (False, s))))"

section \<open>Adding\<close>

text \<open>\<open>_AddItem\<close>; the fuel is that of \<open>install\<close>.\<close>

definition add_item :: "nat \<Rightarrow> heap \<Rightarrow> ptr \<Rightarrow> ptr \<Rightarrow> int \<Rightarrow> menu_state \<Rightarrow> (bool \<times> menu_state) partial" where
  "add_item n h this item index s =
     (if item = null then Some (Inl Debugger)
      else bindO (Some (alive (menus s this))) (\<lambda>m.
        if index < 0 \<or> Menu_CountItems m < index then Some (Inr (False, s))
        else bindO (Some (alive (items s item))) (\<lambda>x.
          bindO (Some (if i_mark x then
              bindR (if m_radioMode m then unmark_others m item (indices m) s else Inr s) (\<lambda>s.
              if m_dynamicName m \<and> m_superitem m \<noteq> null then SetLabel (m_superitem m) (i_label x) s else Inr s)
            else Inr s)) (\<lambda>s.
          bindO (Some (AddItem_at (m_items m) item index)) (\<lambda>(added, list).
          if \<not> added then Some (Inr (False, s))
          else
            bindO (Some (upd_menu this (\<lambda>m. m\<lparr>m_items := list\<rparr>) s)) (\<lambda>s.
            bindO (Some (if m_superitem m \<noteq> null then bindR (alive (items s (m_superitem m))) (\<lambda>y. Inr (i_window y))
                         else bindR (alive (views (desk s) this)) (\<lambda>v. Inr (fWindow v)))) (\<lambda>win.
            bindO (if win \<noteq> null then install n h item win s else Some (Inr s)) (\<lambda>s.
            bindO (Some (SetSuper item this s)) (\<lambda>s. Some (Inr (True, s)))))))))))"

text \<open>What follows when the looper can be locked: the layout and an update, unless the window is hidden.\<close>

definition relayout :: "env \<Rightarrow> metrics \<Rightarrow> ptr \<Rightarrow> int \<Rightarrow> menu_state \<Rightarrow> menu_state outcome" where
  "relayout env mx this index s =
     bindR (alive (views (desk s) this)) (\<lambda>v.
     bindR (alive (windows (desk s) (fWindow v))) (\<lambda>w.
     if \<not> Window_IsHidden w then bindR (LayoutItems env mx this index s) (on_desk (Invalidate env this)) else Inr s))"

definition Menu_AddItem_at :: "nat \<Rightarrow> env \<Rightarrow> metrics \<Rightarrow> heap \<Rightarrow> ptr \<Rightarrow> ptr \<Rightarrow> int \<Rightarrow> menu_state \<Rightarrow> (bool \<times> menu_state) partial" where
  "Menu_AddItem_at n env mx h this item index s =
     bindO (Some (alive (menus s this))) (\<lambda>m.
     if item = null \<or> m_layout m = B_ITEMS_IN_MATRIX then Some (Inr (False, s))
     else bindO (add_item n h this item index s) (\<lambda>(added, s).
       if \<not> added then Some (Inr (False, s))
       else bindO (Some (InvalidateLayout this s)) (\<lambda>s.
            bindO (locked env this (\<lambda>s. Some (relayout env mx this index s)) s) (\<lambda>s. Some (Inr (True, s))))))"

definition Menu_AddItem :: "nat \<Rightarrow> env \<Rightarrow> metrics \<Rightarrow> heap \<Rightarrow> ptr \<Rightarrow> ptr \<Rightarrow> menu_state \<Rightarrow> (bool \<times> menu_state) partial" where
  "Menu_AddItem n env mx h this item s =
     bindO (Some (alive (menus s this))) (\<lambda>m. Menu_AddItem_at n env mx h this item (Menu_CountItems m) s)"

definition Menu_AddItem_frame :: "nat \<Rightarrow> env \<Rightarrow> metrics \<Rightarrow> heap \<Rightarrow> ptr \<Rightarrow> ptr \<Rightarrow> rect \<Rightarrow> menu_state \<Rightarrow> (bool \<times> menu_state) partial" where
  "Menu_AddItem_frame n env mx h this item frame s =
     bindO (Some (alive (menus s this))) (\<lambda>m.
     if item = null \<or> m_layout m \<noteq> B_ITEMS_IN_MATRIX then Some (Inr (False, s))
     else bindO (Some (upd_item item (\<lambda>x. x\<lparr>i_bounds := frame\<rparr>) s)) (\<lambda>s.
       let index = Menu_CountItems m
       in bindO (add_item n h this item index s) (\<lambda>(added, s).
          if \<not> added then Some (Inr (False, s))
          else bindO (locked env this (\<lambda>s. Some (relayout env mx this index s)) s) (\<lambda>s. Some (Inr (True, s))))))"

text \<open>Adding a menu makes an item for it, at the address \<open>item\<close>, which is deleted without the menu when it cannot be added.\<close>

definition drop_item :: "nat \<Rightarrow> ptr \<Rightarrow> bool \<times> menu_state \<Rightarrow> (bool \<times> menu_state) partial" where
  "drop_item n item r =
     (if fst r then Some (Inr r)
      else bindO (Some (upd_item item (\<lambda>x. x\<lparr>i_submenu := null\<rparr>) (snd r))) (\<lambda>s.
           bindO (delete_item n item s) (\<lambda>s. Some (Inr (False, s)))))"

definition Menu_AddItem_menu :: "nat \<Rightarrow> env \<Rightarrow> metrics \<Rightarrow> heap \<Rightarrow> ptr \<Rightarrow> ptr \<Rightarrow> ptr \<Rightarrow> int \<Rightarrow> menu_state \<Rightarrow> (bool \<times> menu_state) partial" where
  "Menu_AddItem_menu n env mx h this submenu item index s =
     bindO (Some (alive (menus s this))) (\<lambda>m.
     if submenu = null \<or> m_layout m = B_ITEMS_IN_MATRIX then Some (Inr (False, s))
     else bindO (Some (MenuItem_menu (mStatus (h_messenger h)) (mTeam (h_messenger h)) item submenu null s)) (\<lambda>s.
          bindO (Menu_AddItem_at n env mx h this item index s) (drop_item n item)))"

definition Menu_AddItem_menu_frame :: "nat \<Rightarrow> env \<Rightarrow> metrics \<Rightarrow> heap \<Rightarrow> ptr \<Rightarrow> ptr \<Rightarrow> ptr \<Rightarrow> rect \<Rightarrow> menu_state \<Rightarrow> (bool \<times> menu_state) partial" where
  "Menu_AddItem_menu_frame n env mx h this submenu item frame s =
     bindO (Some (alive (menus s this))) (\<lambda>m.
     if submenu = null \<or> m_layout m \<noteq> B_ITEMS_IN_MATRIX then Some (Inr (False, s))
     else bindO (Some (MenuItem_menu (mStatus (h_messenger h)) (mTeam (h_messenger h)) item submenu null s)) (\<lambda>s.
          bindO (Menu_AddItem_frame n env mx h this item frame s) (drop_item n item)))"

text \<open>A separator is put into the list without being installed and without a menu.\<close>

definition AddSeparatorItem :: "heap \<Rightarrow> ptr \<Rightarrow> ptr \<Rightarrow> menu_state \<Rightarrow> (bool \<times> menu_state) outcome" where
  "AddSeparatorItem h this item s =
     bindR (upd_menu this (\<lambda>m. m\<lparr>m_items := snd (AddItem (m_items m) item)\<rparr>)
        (put_item item (SeparatorItem_new (mStatus (h_messenger h)) (mTeam (h_messenger h))) s)) (\<lambda>s. Inr (True, s))"

text \<open>A new shortcut of an item replaces the old one in the window.\<close>

definition SetShortcut :: "env \<Rightarrow> heap \<Rightarrow> ptr \<Rightarrow> byte \<Rightarrow> 32 word \<Rightarrow> menu_state \<Rightarrow> menu_state partial" where
  "SetShortcut env h this c modifiers s =
     bindO (Some (alive (items s this))) (\<lambda>x.
     bindO (Some (if has_shortcut x \<and> i_window x \<noteq> null then Window_RemoveShortcut (i_window x) x s else Inr s)) (\<lambda>s.
     let x = x\<lparr>i_shortcutChar := c, i_modifiers := if c \<noteq> 0 then modifiers OR B_COMMAND_KEY else 0\<rparr>; s = put_item this x s
     in bindO (Some (if has_shortcut x \<and> i_window x \<noteq> null then Window_AddShortcut h (i_window x) x this s else Inr s)) (\<lambda>s.
        if i_super x \<noteq> null then
          bindO (Some (InvalidateLayout (i_super x) s)) (\<lambda>s.
          locked env (i_super x) (\<lambda>s. Some (on_desk (Invalidate env (i_super x)) s)) s)
        else Some (Inr s))))"

section \<open>Installed menus\<close>

text \<open>
  The items in the order in which they are installed, a submenu before its item; the additions to the table of the window; and
  what installing changes. \<open>fresh\<close>: an allocation gives an address that no shortcut of the window has.
\<close>

fun post :: "node \<Rightarrow> ptr list" where
  "post (Entry p) = [p]"
| "post (Submenu p m ns) = concat (map post ns) @ [p]"

definition posts :: "node list \<Rightarrow> ptr list" where "posts ns = concat (map post ns)"

lemma posts_simps [simp]: "posts [] = []" "posts (n # ns) = post n @ posts ns" "post (Submenu p m ns) = posts ns @ [p]"
  by (simp_all add: posts_def)

declare post.simps(2) [simp del]

definition fresh :: "heap \<Rightarrow> bool" where
  "fresh h \<longleftrightarrow> (\<forall>t. table_ok t \<longrightarrow> h_new h t \<noteq> null \<and> shortcut_at t (h_new h t) = None)"

definition keyed :: "menu_state \<Rightarrow> ptr list \<Rightarrow> ptr list" where
  "keyed s ps = filter (\<lambda>p. case items s p of Some x \<Rightarrow> has_shortcut x | None \<Rightarrow> False) ps"

definition key_of :: "menu_state \<Rightarrow> ptr \<Rightarrow> 32 word \<times> 32 word" where
  "key_of s p = (scast (i_shortcutChar (the (items s p))), i_modifiers (the (items s p)))"

definition bind_keys :: "menu_state \<Rightarrow> ptr list \<Rightarrow> keymap \<Rightarrow> keymap" where
  "bind_keys s ps = fold (\<lambda>p. keymap_op (Add_item 1 (fst (key_of s p)) (snd (key_of s p)) p)) (keyed s ps)"

definition unbind_keys :: "menu_state \<Rightarrow> ptr list \<Rightarrow> keymap \<Rightarrow> keymap" where
  "unbind_keys s ps = fold (\<lambda>p. keymap_op (Remove_key (fst (key_of s p)) (snd (key_of s p)))) (keyed s ps)"

text \<open>\<open>rewindowed win ps s s'\<close>: the items \<open>ps\<close> have the window \<open>win\<close> and perhaps another target, the rest is as it was.\<close>

definition rewindowed :: "ptr \<Rightarrow> ptr set \<Rightarrow> menu_state \<Rightarrow> menu_state \<Rightarrow> bool" where
  "rewindowed win ps s s' \<longleftrightarrow> menus s' = menus s \<and> desk s' = desk s \<and>
     (\<forall>p. if p \<in> ps then \<exists>x inv. items s p = Some x \<and> items s' p = Some (x\<lparr>i_window := win, i_invoker := inv\<rparr>) else items s' p = items s p)"

lemma rewindowed_trans:
  assumes r: "rewindowed win ps s s1" "rewindowed win qs s1 s2"
  shows "rewindowed win (ps \<union> qs) s s2"
proof -
  have "if p \<in> ps \<union> qs then \<exists>x inv. items s p = Some x \<and> items s2 p = Some (x\<lparr>i_window := win, i_invoker := inv\<rparr>) else items s2 p = items s p" for p
    using r(1) [unfolded rewindowed_def, THEN conjunct2, THEN conjunct2, rule_format, of p]
      r(2) [unfolded rewindowed_def, THEN conjunct2, THEN conjunct2, rule_format, of p]
    by (cases "p \<in> ps"; cases "p \<in> qs") auto
  moreover have "menus s2 = menus s" "desk s2 = desk s" using r by (simp_all add: rewindowed_def)
  ultimately show ?thesis unfolding rewindowed_def by (intro conjI allI)
qed

lemma rewindowed_refl [simp]: "rewindowed win {} s s"
  by (simp add: rewindowed_def)

lemma rewindowed_item:
  "rewindowed win ps s s' \<Longrightarrow> items s p = Some x \<Longrightarrow> \<exists>y. items s' p = Some y \<and> i_submenu y = i_submenu x \<and> has_shortcut y = has_shortcut x \<and>
     i_shortcutChar y = i_shortcutChar x \<and> i_modifiers y = i_modifiers x"
  by (cases "p \<in> ps") (fastforce simp: rewindowed_def has_shortcut_def split: if_splits)+

text \<open>The state of the window: what installing relies on.\<close>

definition window_ready :: "heap \<Rightarrow> ptr \<Rightarrow> menu_state \<Rightarrow> nat \<Rightarrow> bool" where
  "window_ready h win s n \<longleftrightarrow> fresh h \<and> win \<noteq> null \<and> (\<exists>x. handlers (world (desk s)) win = Some x \<and> fLooper x \<noteq> null) \<and>
     (\<exists>t. tables s win = Some t \<and> table_ok t \<and> length (fShortcuts t) + n < 2 ^ 31)"

definition table_map :: "menu_state \<Rightarrow> ptr \<Rightarrow> keymap" where "table_map s win = keymap (the (tables s win))"

lemma keyed_append [simp]: "keyed s (ps @ qs) = keyed s ps @ keyed s qs" by (simp add: keyed_def)

lemma bind_keys_append: "bind_keys s (ps @ qs) = bind_keys s qs \<circ> bind_keys s ps" by (simp add: bind_keys_def)

lemma keyed_cong:
  assumes "\<And>p. items s p \<noteq> None \<Longrightarrow> \<exists>x y. items s p = Some x \<and> items s' p = Some y \<and> has_shortcut y = has_shortcut x \<and>
     i_shortcutChar y = i_shortcutChar x \<and> i_modifiers y = i_modifiers x"
    "\<And>p. items s p = None \<Longrightarrow> items s' p = None"
  shows "keyed s' ps = keyed s ps" "bind_keys s' ps = bind_keys s ps" "unbind_keys s' ps = unbind_keys s ps"
proof -
  have f: "(case items s' p of Some x \<Rightarrow> has_shortcut x | None \<Rightarrow> False) \<longleftrightarrow> (case items s p of Some x \<Rightarrow> has_shortcut x | None \<Rightarrow> False)" for p
    using assms(1) [of p] assms(2) [of p] by (cases "items s p") auto
  show k: "keyed s' ps = keyed s ps" unfolding keyed_def f ..
  have "key_of s' p = key_of s p" if "p \<in> set (keyed s ps)" for p
    using assms(1) [of p] that by (auto simp: key_of_def keyed_def split: option.splits)
  then show "bind_keys s' ps = bind_keys s ps" "unbind_keys s' ps = unbind_keys s ps"
    unfolding bind_keys_def unbind_keys_def k by (auto intro!: fold_cong)
qed

lemma keyed_rewindowed:
  assumes "rewindowed win qs s s'"
  shows "keyed s' ps = keyed s ps" "bind_keys s' ps = bind_keys s ps" "unbind_keys s' ps = unbind_keys s ps"
proof -
  have "\<exists>x y. items s p = Some x \<and> items s' p = Some y \<and> has_shortcut y = has_shortcut x \<and> i_shortcutChar y = i_shortcutChar x \<and> i_modifiers y = i_modifiers x"
    if "items s p \<noteq> None" for p using that rewindowed_item [OF assms] by fastforce
  moreover have "items s' p = None" if "items s p = None" for p
    using assms [unfolded rewindowed_def, THEN conjunct2, THEN conjunct2, rule_format, of p] that by (cases "p \<in> qs") auto
  ultimately show "keyed s' ps = keyed s ps" "bind_keys s' ps = bind_keys s ps" "unbind_keys s' ps = unbind_keys s ps"
    using keyed_cong [of s s' ps] by blast+
qed

lemma install_self_ok:
  assumes "window_ready h win s (Suc n)" "items s p = Some x"
  shows "\<exists>s'. install_self h p win s = Inr s' \<and> rewindowed win {p} s s' \<and> window_ready h win s' n \<and>
    table_map s' win = bind_keys s [p] (table_map s win) \<and> (\<forall>w. w \<noteq> win \<longrightarrow> tables s' w = tables s w)"
proof -
  obtain hd t where w: "fresh h" "win \<noteq> null" "handlers (world (desk s)) win = Some hd" "fLooper hd \<noteq> null" "tables s win = Some t" "table_ok t"
      "length (fShortcuts t) + Suc n < 2 ^ 31" using assms(1) by (auto simp: window_ready_def)
  let ?x = "x\<lparr>i_window := win\<rparr>" and ?k = "(scast (i_shortcutChar x), i_modifiers x)"
  let ?s = "put_item p ?x s"
  define s1 where "s1 = (if has_shortcut x then ?s\<lparr>tables := (tables s)(win := Some (projr (AddShortcut_item t (h_new h t) (fst ?k) (snd ?k) p)))\<rparr> else ?s)"
  have add: "\<exists>t'. AddShortcut_item t (h_new h t) (fst ?k) (snd ?k) p = Inr t' \<and> table_ok t' \<and>
      keymap t' = keymap_op (Add_item 1 (fst ?k) (snd ?k) p) (keymap t) \<and> length (fShortcuts t') \<le> Suc (length (fShortcuts t))"
    using shortcut_op_ok [OF w(6,7), of "Add_item (h_new h t) (fst ?k) (snd ?k) p"] w(1,6) by (auto simp: fresh_def)
  have s1: "(if has_shortcut ?x \<and> win \<noteq> null then Window_AddShortcut h win ?x p ?s else Inr ?s) = Inr s1"
    using add w(2,5) by (auto simp: s1_def Window_AddShortcut_def in_table_def has_shortcut_def put_item_def)
  have items: "items s1 = (items s)(p := Some ?x)" "menus s1 = menus s" "desk s1 = desk s" by (simp_all add: s1_def put_item_def)
  have table: "\<exists>t'. tables s1 win = Some t' \<and> table_ok t' \<and> length (fShortcuts t') + n < 2 ^ 31 \<and> keymap t' = bind_keys s [p] (keymap t)"
    using add w(5-7) assms(2) by (auto simp: s1_def put_item_def bind_keys_def keyed_def key_of_def)
  have other: "tables s1 w = tables s w" if "w \<noteq> win" for w using that by (simp add: s1_def put_item_def)
  obtain inv where inv: "(if \<not> IsValid (iMessenger (i_invoker ?x)) then
      bindR (SetTarget (world (desk s1)) (i_invoker ?x) win null) (\<lambda>(_, inv). Inr (put_item p (?x\<lparr>i_invoker := inv\<rparr>) s1)) else Inr s1) =
      Inr (put_item p (?x\<lparr>i_invoker := inv\<rparr>) s1)"
  proof (cases "IsValid (iMessenger (i_invoker x))")
    case True
    have "put_item p (?x\<lparr>i_invoker := i_invoker x\<rparr>) s1 = s1" using items(1) by (simp add: put_item_same)
    then show thesis using that [of "i_invoker x"] True by simp
  next
    case False
    obtain st inv where "SetTarget (world (desk s1)) (i_invoker x) win null = Inr (st, inv)"
      using w(2-4) by (auto simp: items SetTarget_def Messenger_for_def Handler_Looper_def Let_def)
    then show thesis using that [of inv] False by simp
  qed
  let ?s' = "put_item p (?x\<lparr>i_invoker := inv\<rparr>) s1"
  have "install_self h p win s = Inr ?s'" unfolding install_self_def using assms(2) s1 inv by (simp add: Let_def)
  moreover have "rewindowed win {p} s ?s'" using assms(2) by (auto simp: rewindowed_def put_item_def items)
  moreover have "window_ready h win ?s' n" using w table by (auto simp: window_ready_def put_item_def items)
  moreover have "table_map ?s' win = bind_keys s [p] (table_map s win)" using table w(5) by (auto simp: table_map_def put_item_def)
  ultimately show ?thesis using other by (intro exI [of _ ?s']) (simp add: put_item_def)
qed

section \<open>Walks\<close>

text \<open>
  Installing and uninstalling walk through the tree below an item alike. Whatever is done with the single items, when the tree
  keeps its shape, the walk ends with enough fuel, and it is the sequence of the steps in postorder.
\<close>

definition same_shape :: "menu_state \<Rightarrow> menu_state \<Rightarrow> bool" where
  "same_shape s s' \<longleftrightarrow> menus s' = menus s \<and> (\<forall>p. map_option i_submenu (items s' p) = map_option i_submenu (items s p))"

lemma same_shape_grows: "same_shape s s' \<Longrightarrow> grows s' n = grows s n"
  by (induction n) (simp_all add: same_shape_def lists_def)

lemma same_shape_lists: "same_shape s s' \<Longrightarrow> lists s' m ns = lists s m ns"
  by (simp add: same_shape_def lists_def)

lemma same_shape_trans: "same_shape s s1 \<Longrightarrow> same_shape s1 s2 \<Longrightarrow> same_shape s s2"
  by (simp add: same_shape_def)

fun each :: "(ptr \<Rightarrow> menu_state \<Rightarrow> menu_state outcome) \<Rightarrow> ptr list \<Rightarrow> menu_state \<Rightarrow> menu_state outcome" where
  "each f [] s = Inr s"
| "each f (p # ps) s = bindR (f p s) (each f ps)"

lemma each_Nil [simp]: "each f [] = Inr"
  by (simp add: fun_eq_iff)

lemma each_append: "each f (ps @ qs) = (\<lambda>s. bindR (each f ps s) (each f qs))"
proof (induction ps)
  case (Cons p ps)
  show ?case by (rule ext) (simp add: Cons bindR_assoc)
qed simp

lemma lists_at: "lists s m ns \<Longrightarrow> i < length ns \<Longrightarrow>
    \<exists>y. menus s m = Some y \<and> int i < Menu_CountItems y \<and> Menu_ItemAt y (int i) = node_item (ns ! i)"
  by (auto simp: lists_def Menu_CountItems_def CountItems_def int32_of_nat Menu_ItemAt_def fits_def)

lemma lists_count: "lists s m ns \<Longrightarrow> \<exists>y. menus s m = Some y \<and> Menu_CountItems y = int (length ns)"
  by (auto simp: lists_def Menu_CountItems_def CountItems_def int32_of_nat)

lemma below_pos: "0 < length (below n)" by (cases n) simp_all

locale menu_walk =
  fixes self :: "ptr \<Rightarrow> menu_state \<Rightarrow> menu_state outcome"
    and walk :: "nat \<Rightarrow> ptr \<Rightarrow> menu_state \<Rightarrow> menu_state partial"
    and walk_items :: "nat \<Rightarrow> ptr \<Rightarrow> int \<Rightarrow> menu_state \<Rightarrow> menu_state partial"
  assumes walk_Suc: "walk (Suc n) this s =
     bindO (Some (alive (items s this))) (\<lambda>x.
     bindO (if i_submenu x \<noteq> null then walk_items n (i_submenu x) 0 s else Some (Inr s)) (\<lambda>s. Some (self this s)))"
    and walk_items_Suc: "walk_items (Suc n) this i s =
     bindO (Some (alive (menus s this))) (\<lambda>m.
     if i < Menu_CountItems m then bindO (walk n (Menu_ItemAt m i) s) (walk_items n this (i + 1)) else Some (Inr s))"
    and self_shape: "self p s = Inr s' \<Longrightarrow> same_shape s s'"
begin

lemma each_shape: "each self ps s = Inr s' \<Longrightarrow> same_shape s s'"
proof (induction ps arbitrary: s)
  case (Cons p ps)
  then show ?case using self_shape same_shape_trans by (fastforce simp: be_simps)
qed (simp add: same_shape_def)

lemma walk_items_from:
  assumes ok: "\<And>n s fuel. n \<in> set ns \<Longrightarrow> grows s n \<Longrightarrow> 2 * length (below n) \<le> fuel \<Longrightarrow> walk fuel (node_item n) s = Some (each self (post n) s)"
    and "i \<le> length ns"
  shows "lists s m ns \<Longrightarrow> \<forall>n\<in>set ns. grows s n \<Longrightarrow> 1 + 2 * length (all_below (drop i ns)) \<le> fuel \<Longrightarrow>
    walk_items fuel m (int i) s = Some (each self (posts (drop i ns)) s)"
  using assms(2)
proof (induction arbitrary: s fuel rule: inc_induct)
  case base
  then obtain y where "menus s m = Some y" "Menu_CountItems y = int (length ns)" using lists_count by blast
  then show ?case using base by (cases fuel) (auto simp: walk_items_Suc)
next
  case (step j)
  obtain y where y: "menus s m = Some y" "int j < Menu_CountItems y" "Menu_ItemAt y (int j) = node_item (ns ! j)"
    using lists_at [OF step(4,2)] by blast
  have d: "drop j ns = ns ! j # drop (Suc j) ns" using step(2) by (simp add: Cons_nth_drop_Suc)
  have n: "ns ! j \<in> set ns" using step(2) by simp
  obtain f where f: "fuel = Suc f" using step(6) by (cases fuel) auto
  have "2 * length (below (ns ! j)) + 2 * length (all_below (drop (Suc j) ns)) \<le> f" using step(6) by (simp add: d f)
  then have b: "2 * length (below (ns ! j)) \<le> f" "1 + 2 * length (all_below (drop (Suc j) ns)) \<le> f"
    using below_pos [of "ns ! j"] by linarith+
  have w: "walk f (node_item (ns ! j)) s = Some (each self (post (ns ! j)) s)" using ok n step(5) b(1) by blast
  have "walk_items f m (int (Suc j)) s1 = Some (each self (posts (drop (Suc j) ns)) s1)"
    if "each self (post (ns ! j)) s = Inr s1" for s1
    using step(3) [of s1 f] each_shape [OF that] step(4,5) b(2) by (simp add: same_shape_lists same_shape_grows)
  then show ?case using y w by (cases "each self (post (ns ! j)) s") (simp_all add: f d walk_items_Suc each_append add.commute)
qed

lemma walk_node: "grows s n \<Longrightarrow> 2 * length (below n) \<le> fuel \<Longrightarrow> walk fuel (node_item n) s = Some (each self (post n) s)"
proof (induction n arbitrary: s fuel)
  case (Entry p)
  then show ?case by (cases fuel) (auto simp: walk_Suc)
next
  case (Submenu p m ns)
  then obtain x f where x: "items s p = Some x" "i_submenu x = m" "m \<noteq> null" "fuel = Suc f" by (cases fuel) auto
  then have "walk_items f m 0 s = Some (each self (posts ns) s)"
    using walk_items_from [of ns 0 s m f] Submenu by simp
  then show ?case using x by (cases "each self (posts ns) s") (simp_all add: walk_Suc each_append)
qed

end

text \<open>The steps keep the shape.\<close>

lemma put_item_shape:
  assumes "items s p = Some x" "items s1 = (items s)(p := Some y)" "menus s1 = menus s" "i_submenu y = i_submenu x"
  shows "same_shape s s1"
  using assms by (simp add: same_shape_def)

lemma in_table_same: "in_table win f s = Inr s' \<Longrightarrow> \<exists>t. s' = s\<lparr>tables := t\<rparr>"
  by (auto simp: in_table_def be_simps)

lemma when_same:
  assumes "(if b then in_table win f s else Inr s) = Inr s'"
  shows "items s' = items s" "menus s' = menus s" "desk s' = desk s"
  using assms in_table_same [of win f s s'] by (auto split: if_splits)

lemma install_self_shape:
  assumes "install_self h p win s = Inr s'"
  shows "same_shape s s'"
proof -
  let ?y = "\<lambda>x. x\<lparr>i_window := win\<rparr>"
  let ?a = "\<lambda>x. if has_shortcut (?y x) \<and> win \<noteq> null then Window_AddShortcut h win (?y x) p (put_item p (?y x) s) else Inr (put_item p (?y x) s)"
  obtain x where x1: "items s p = Some x" using assms by (cases "items s p") (simp_all add: install_self_def)
  obtain s1 where s1: "?a x = Inr s1" using assms x1 by (cases "?a x") (simp_all add: install_self_def Let_def del: if_split)
  have "s' = s1 \<or> (\<exists>inv. s' = put_item p (x\<lparr>i_window := win, i_invoker := inv\<rparr>) s1)"
    using assms x1 s1 by (auto simp: install_self_def Let_def be_simps simp del: if_split split: if_split_asm)
  note x = x1 s1 this
  note e = when_same [OF x(2) [unfolded Window_AddShortcut_def]]
  have "items s1 = (items s)(p \<mapsto> x\<lparr>i_window := win\<rparr>)" "menus s1 = menus s" using e by (simp_all add: put_item_def)
  then show ?thesis using x(1,3) by (auto simp: same_shape_def put_item_def)
qed

lemma uninstall_self_shape:
  assumes "uninstall_self h p s = Inr s'"
  shows "same_shape s s'"
proof -
  let ?y = "\<lambda>x. if fst (Invoker_Target (i_invoker x)) = i_window x
              then x\<lparr>i_invoker := snd (SetTarget_messenger (i_invoker x) (h_messenger h))\<rparr> else x"
  let ?a = "\<lambda>x. if has_shortcut (?y x) \<and> i_window (?y x) \<noteq> null then Window_RemoveShortcut (i_window (?y x)) (?y x) s else Inr s"
  obtain x where x1: "items s p = Some x" using assms by (cases "items s p") (simp_all add: uninstall_self_def)
  obtain s1 where s1: "?a x = Inr s1" using assms x1 by (cases "?a x") (simp_all add: uninstall_self_def Let_def del: if_split)
  have "s' = put_item p ((?y x)\<lparr>i_window := null\<rparr>) s1"
    using assms x1 s1 by (simp add: uninstall_self_def Let_def del: if_split)
  note x = x1 s1 this
  note e = when_same [OF x(2) [unfolded Window_RemoveShortcut_def]]
  then show ?thesis using x by (auto simp: same_shape_def put_item_def)
qed

interpretation ins: menu_walk "\<lambda>p. install_self h p win" "\<lambda>n p. install n h p win" "\<lambda>n m. install_items n h m win" for h win
  by unfold_locales (auto intro: install_self_shape)

interpretation unins: menu_walk "uninstall_self h" "\<lambda>n. uninstall n h" "\<lambda>n. uninstall_items n h" for h
  by unfold_locales (auto intro: uninstall_self_shape)

section \<open>The keys of a menu\<close>

text \<open>The keys that the items \<open>ps\<close> have in the table of their window, each with what it is bound to.\<close>

definition menu_keys :: "menu_state \<Rightarrow> ptr list \<Rightarrow> (hotkey \<times> binding) list" where
  "menu_keys s ps = map (\<lambda>p. (hot (fst (key_of s p)) (snd (key_of s p)), (p, None, null))) (keyed s ps)"

lemma menu_keys_append: "menu_keys s (ps @ qs) = menu_keys s ps @ menu_keys s qs" by (simp add: menu_keys_def)

lemma fst_bind: "fst (bind_keys s ps k) = fst k ++ map_of (rev (menu_keys s ps))"
proof (induction ps rule: rev_induct)
  case (snoc p ps)
  then show ?case by (auto simp: bind_keys_append menu_keys_append) (auto simp: bind_keys_def menu_keys_def keyed_def map_add_def)
qed (simp add: bind_keys_def menu_keys_def keyed_def)

lemma restrict_added: "(m ++ map_of (rev ks)) |` (- fst ` set ks) = m |` (- fst ` set ks)"
proof -
  have "map_of (rev ks) k = None" if "k \<notin> fst ` set ks" for k using that by (simp add: map_of_eq_None_iff)
  then show ?thesis by (simp add: restrict_map_def map_add_def fun_eq_iff)
qed

lemma fst_unbind: "fst (unbind_keys s ps k) = fst k |` (- fst ` set (menu_keys s ps))"
proof (induction ps arbitrary: k)
  case (Cons p ps)
  have "unbind_keys s (p # ps) k = unbind_keys s ps (unbind_keys s [p] k)" by (simp add: unbind_keys_def keyed_def)
  moreover have "fst (unbind_keys s [p] k) = fst k |` (- fst ` set (menu_keys s [p]))"
    by (simp add: unbind_keys_def menu_keys_def keyed_def fun_upd_def restrict_map_def fun_eq_iff)
  moreover have "fst ` set (menu_keys s (p # ps)) = fst ` set (menu_keys s [p]) \<union> fst ` set (menu_keys s ps)"
    using menu_keys_append [of s "[p]" ps] by (simp add: image_Un)
  ultimately show ?case by (simp add: Cons.IH Int_commute)
qed (simp add: unbind_keys_def menu_keys_def keyed_def restrict_map_def)

lemma mset_post: "mset (post n) = mset (below n)"
proof (induction n)
  case (Submenu p m ns)
  then have "mset (posts ns) = mset (all_below ns)" by (induction ns) (simp_all add: posts_def all_below_def)
  then show ?case by simp
qed simp

lemma post_below: "set (post n) = set (below n)" "length (post n) = length (below n)" "distinct (post n) = distinct (below n)"
  using mset_post [of n] by (metis set_mset_mset, metis size_mset, metis mset_eq_imp_distinct_iff)

lemma grows_alive: "grows s n \<Longrightarrow> p \<in> set (below n) \<Longrightarrow> items s p \<noteq> None"
  by (induction n) (auto simp: all_below_def)

lemma install_each:
  "window_ready h win s (length ps + k) \<Longrightarrow> \<forall>p\<in>set ps. items s p \<noteq> None \<Longrightarrow>
    \<exists>s'. each (\<lambda>p. install_self h p win) ps s = Inr s' \<and> rewindowed win (set ps) s s' \<and> window_ready h win s' k \<and>
      table_map s' win = bind_keys s ps (table_map s win) \<and> (\<forall>w. w \<noteq> win \<longrightarrow> tables s' w = tables s w)"
proof (induction ps arbitrary: s)
  case Nil
  then show ?case by (simp add: bind_keys_def keyed_def)
next
  case (Cons p ps)
  then obtain x where "items s p = Some x" by auto
  then obtain s1 where s1: "install_self h p win s = Inr s1" "rewindowed win {p} s s1" "window_ready h win s1 (length ps + k)"
      "table_map s1 win = bind_keys s [p] (table_map s win)" "\<forall>w. w \<noteq> win \<longrightarrow> tables s1 w = tables s w"
    using install_self_ok Cons.prems(1) by (metis add_Suc length_Cons)
  have "\<forall>q\<in>set ps. items s1 q \<noteq> None" using Cons.prems(2) rewindowed_item [OF s1(2)] by fastforce
  then obtain s2 where s2: "each (\<lambda>p. install_self h p win) ps s1 = Inr s2" "rewindowed win (set ps) s1 s2" "window_ready h win s2 k"
      "table_map s2 win = bind_keys s1 ps (table_map s1 win)" "\<forall>w. w \<noteq> win \<longrightarrow> tables s2 w = tables s1 w"
    using Cons.IH [OF s1(3)] by blast
  have "bind_keys s (p # ps) = bind_keys s ps \<circ> bind_keys s [p]" using bind_keys_append [of s "[p]" ps] by simp
  then show ?case using s1 s2 rewindowed_trans [OF s1(2) s2(2)] by (simp add: keyed_rewindowed(2) [OF s1(2)])
qed

text \<open>The items \<open>ps\<close> have the window, whose table is in order.\<close>

definition installed :: "ptr \<Rightarrow> menu_state \<Rightarrow> ptr list \<Rightarrow> bool" where
  "installed win s ps \<longleftrightarrow> win \<noteq> null \<and> distinct ps \<and> (\<forall>p\<in>set ps. map_option i_window (items s p) = Some win) \<and>
     (\<exists>t. tables s win = Some t \<and> table_ok t \<and> fits (fShortcuts t))"

lemma uninstall_self_ok:
  assumes "installed win s (p # ps)"
  shows "\<exists>s'. uninstall_self h p s = Inr s' \<and> rewindowed null {p} s s' \<and> installed win s' ps \<and>
    table_map s' win = unbind_keys s [p] (table_map s win) \<and> (\<forall>w. w \<noteq> win \<longrightarrow> tables s' w = tables s w)"
proof -
  obtain x t where x: "items s p = Some x" "i_window x = win" "tables s win = Some t" "table_ok t" "fits (fShortcuts t)" "win \<noteq> null"
    using assms by (auto simp: installed_def)
  let ?y = "if fst (Invoker_Target (i_invoker x)) = i_window x
              then x\<lparr>i_invoker := snd (SetTarget_messenger (i_invoker x) (h_messenger h))\<rparr> else x"
  obtain k :: "32 word \<times> 32 word" where k: "k = (scast (i_shortcutChar x), i_modifiers x)" by blast
  obtain inv where y: "?y = x\<lparr>i_invoker := inv\<rparr>" by (cases "fst (Invoker_Target (i_invoker x)) = i_window x") (auto intro: that [of "i_invoker x"])
  obtain t' where t': "RemoveShortcut t (fst k) (snd k) = Inr t'" "table_ok t'" "keymap t' = keymap_op (Remove_key (fst k) (snd k)) (keymap t)"
      "fits (fShortcuts t')"
  proof -
    have "length (fShortcuts t) + 0 < 2 ^ 31" using x(5) by (simp add: fits_def)
    then obtain t' where t': "RemoveShortcut t (fst k) (snd k) = Inr t'" "table_ok t'" "keymap t' = keymap_op (Remove_key (fst k) (snd k)) (keymap t)"
      using shortcut_op_ok [OF x(4), of 0 "Remove_key (fst k) (snd k)"] by auto
    moreover have "fits (fShortcuts t')"
      using RemoveShortcut_ok [OF x(4,5), of "fst k" "snd k"] x(5) t'(1) by (auto simp: unbound_def fits_def)
    ultimately show thesis using that by blast
  qed
  define s1 where "s1 = (if has_shortcut x then s\<lparr>tables := (tables s)(win := Some t')\<rparr> else s)"
  let ?s' = "put_item p (x\<lparr>i_window := null, i_invoker := inv\<rparr>) s1"
  have swap: "x\<lparr>i_invoker := inv, i_window := null\<rparr> = x\<lparr>i_window := null, i_invoker := inv\<rparr>" by simp
  have "uninstall_self h p s = Inr ?s'"
    unfolding uninstall_self_def x(1) using x(2,3,6) t'(1) y k by (simp add: Let_def s1_def swap Window_RemoveShortcut_def in_table_def has_shortcut_def)
  moreover have "rewindowed null {p} s ?s'" using x(1) by (auto simp: rewindowed_def put_item_def s1_def)
  moreover have "installed win ?s' ps"
    using assms x t' by (auto simp: installed_def put_item_def s1_def)
  moreover have "table_map ?s' win = unbind_keys s [p] (table_map s win)"
    using x(1,3) t'(3) k by (simp add: table_map_def put_item_def s1_def unbind_keys_def keyed_def key_of_def)
  ultimately show ?thesis by (intro exI [of _ ?s']) (simp add: put_item_def s1_def)
qed

lemma uninstall_each:
  "installed win s ps \<Longrightarrow> \<exists>s'. each (uninstall_self h) ps s = Inr s' \<and> rewindowed null (set ps) s s' \<and>
      table_map s' win = unbind_keys s ps (table_map s win) \<and> (\<forall>w. w \<noteq> win \<longrightarrow> tables s' w = tables s w)"
proof (induction ps arbitrary: s)
  case Nil
  then show ?case by (simp add: unbind_keys_def keyed_def)
next
  case (Cons p ps)
  obtain s1 where s1: "uninstall_self h p s = Inr s1" "rewindowed null {p} s s1" "installed win s1 ps"
      "table_map s1 win = unbind_keys s [p] (table_map s win)" "\<forall>w. w \<noteq> win \<longrightarrow> tables s1 w = tables s w"
    using uninstall_self_ok [OF Cons.prems] by blast
  obtain s2 where s2: "each (uninstall_self h) ps s1 = Inr s2" "rewindowed null (set ps) s1 s2"
      "table_map s2 win = unbind_keys s1 ps (table_map s1 win)" "\<forall>w. w \<noteq> win \<longrightarrow> tables s2 w = tables s1 w"
    using Cons.IH [OF s1(3)] by blast
  have "unbind_keys s (p # ps) = unbind_keys s ps \<circ> unbind_keys s [p]" by (simp add: unbind_keys_def keyed_def fun_eq_iff)
  then show ?case using s1 s2 rewindowed_trans [OF s1(2) s2(2)] by (simp add: keyed_rewindowed(3) [OF s1(2)])
qed

text \<open>C26. Installing an item with the menus below it, in a window, ends with as much fuel as twice the number of the items. It
  gives every item below the window, binds the keys of the items in postorder, so that a later item takes the key of an earlier one,
  and changes nothing else. Uninstalling it takes all these keys out again, and the windows of the items. What one of these keys
  did before stays lost, the other keys are as before.\<close>

theorem install_and_uninstall:
  assumes "grows s n" "window_ready h win s (length (below n))" "distinct (below n)" "2 * length (below n) \<le> fuel"
  shows "\<exists>s1 s2. install fuel h (node_item n) win s = Some (Inr s1) \<and> uninstall fuel h (node_item n) s1 = Some (Inr s2) \<and>
    rewindowed win (set (below n)) s s1 \<and> rewindowed null (set (below n)) s s2 \<and>
    fst (table_map s1 win) = fst (table_map s win) ++ map_of (rev (menu_keys s (post n))) \<and>
    fst (table_map s2 win) = fst (table_map s win) |` (- fst ` set (menu_keys s (post n)))"
proof -
  have "window_ready h win s (length (post n) + 0)" using assms(2) by (simp add: post_below)
  then obtain s1 where s1: "each (\<lambda>p. install_self h p win) (post n) s = Inr s1" "rewindowed win (set (below n)) s s1"
      "window_ready h win s1 0" "table_map s1 win = bind_keys s (post n) (table_map s win)"
    using install_each [of h win s "post n" 0] grows_alive [OF assms(1)] unfolding post_below by blast
  have shape: "same_shape s s1" using ins.each_shape s1(1) by blast
  have "map_option i_window (items s1 p) = Some win" if "p \<in> set (below n)" for p
    using s1(2) [unfolded rewindowed_def, THEN conjunct2, THEN conjunct2, rule_format, of p] that by auto
  then have "installed win s1 (post n)" using s1(3) assms(3) by (auto simp: installed_def window_ready_def post_below fits_def)
  then obtain s2 where s2: "each (uninstall_self h) (post n) s1 = Inr s2" "rewindowed null (set (below n)) s1 s2"
      "table_map s2 win = unbind_keys s1 (post n) (table_map s1 win)"
    using uninstall_each [of win s1 "post n"] unfolding post_below by blast
  have r: "rewindowed null (set (below n)) s s2"
  proof -
    have "if p \<in> set (below n) then \<exists>x inv. items s p = Some x \<and> items s2 p = Some (x\<lparr>i_window := null, i_invoker := inv\<rparr>) else items s2 p = items s p" for p
      using s1(2) [unfolded rewindowed_def, THEN conjunct2, THEN conjunct2, rule_format, of p]
        s2(2) [unfolded rewindowed_def, THEN conjunct2, THEN conjunct2, rule_format, of p] by (cases "p \<in> set (below n)") auto
    moreover have "menus s2 = menus s" "desk s2 = desk s" using s1(2) s2(2) by (simp_all add: rewindowed_def)
    ultimately show ?thesis unfolding rewindowed_def by (intro conjI allI)
  qed
  have m: "install fuel h (node_item n) win s = Some (Inr s1)" "uninstall fuel h (node_item n) s1 = Some (Inr s2)"
    using ins.walk_node [OF assms(1,4)] unins.walk_node [OF _ assms(4), of s1] s1(1) s2(1) same_shape_grows [OF shape] assms(1) by simp_all
  have "fst (table_map s2 win) = fst (table_map s win) |` (- fst ` set (menu_keys s (post n)))"
    unfolding s2(3) s1(4) keyed_rewindowed(3) [OF s1(2)] fst_unbind fst_bind by (rule restrict_added)
  then show ?thesis using m s1(2,4) r by (auto simp: fst_bind)
qed

text \<open>An item 12 with the submenu 15, whose item 16 has the key W of the window 1.\<close>

definition keys_sample :: menu_state where
  "keys_sample = \<lparr>items = [12 \<mapsto> named 0x41 15, 16 \<mapsto> MenuItem_new B_OK 0 None null 0x57 0],
     menus = [15 \<mapsto> (Menu_new B_ITEMS_IN_COLUMN True 0)\<lparr>m_items := [16]\<rparr>],
     tables = [1 \<mapsto> \<lparr>fShortcuts = [], shortcut_at = \<lambda>_. None, fNoQuitShortcut = False\<rparr>],
     desk = sample_gui\<lparr>world := sample_world (sample_looper True)\<rparr>\<rparr>"

definition heap_sample :: heap where
  "heap_sample = \<lparr>h_new = \<lambda>t. Suc (sum_list (fShortcuts t)), h_messenger = Messenger_new B_OK 0\<rparr>"

lemma fresh_sample: "fresh heap_sample"
proof -
  have "shortcut_at t (Suc (sum_list (fShortcuts t))) = None" if "table_ok t" for t
  proof -
    have "Suc (sum_list (fShortcuts t)) \<notin> set (fShortcuts t)" using member_le_sum_list by fastforce
    then show ?thesis using that by (auto simp: table_ok_def)
  qed
  then show ?thesis by (simp add: fresh_def heap_sample_def)
qed

lemma install_and_uninstall_witness:
  "\<exists>s1 s2. install 4 heap_sample 12 1 keys_sample = Some (Inr s1) \<and> uninstall 4 heap_sample 12 s1 = Some (Inr s2) \<and>
    fst (table_map s1 1) = [(0x77, 2) \<mapsto> (16, None, null)] \<and> fst (table_map s2 1) = (\<lambda>_. None)"
proof -
  let ?n = "Submenu 12 15 [Entry 16]"
  have g: "grows keys_sample ?n" by (simp add: keys_sample_def lists_def Menu_new_def named_def MenuItem_new_def)
  have w: "window_ready heap_sample 1 keys_sample (length (below ?n))"
    using fresh_sample by (simp add: window_ready_def keys_sample_def sample table_ok_def entries_def)
  have k: "menu_keys keys_sample (post ?n) = [((0x77, 2), (16, None, null))]"
    by (simp add: menu_keys_def keyed_def key_of_def keys_sample_def has_shortcut_def named_def MenuItem_new_def key_bits hot_def
        tolower_def PrepareModifiers_def AllowedModifiers_def)
  have t: "fst (table_map keys_sample 1) = (\<lambda>_. None)" by (simp add: table_map_def keys_sample_def keymap_def bindings_def entries_def)
  show ?thesis using install_and_uninstall [OF g w, of 4] k t by (force simp: restrict_map_def)
qed

section \<open>Deleting an item of a menu\<close>

text \<open>What the destructor of the item \<open>p\<close> frees besides: its submenu and its message, if it has them.\<close>

definition frees :: "ptr \<Rightarrow> menu_item \<Rightarrow> menu_state \<Rightarrow> menu_state \<Rightarrow> bool" where
  "frees p x s s' \<longleftrightarrow> items s' = (items s)(p := None) \<and> tables s' = tables s \<and>
     menus s' = (if i_submenu x = null then menus s else (menus s)(i_submenu x := None)) \<and>
     views (desk s') = (if i_submenu x = null then views (desk s) else (views (desk s))(i_submenu x := None)) \<and>
     windows (desk s') = windows (desk s) \<and>
     handlers (world (desk s')) = (if i_submenu x = null then handlers (world (desk s)) else (handlers (world (desk s)))(i_submenu x := None)) \<and>
     messages (world (desk s')) =
       (if iMessage (i_invoker x) = null then messages (world (desk s)) else (messages (world (desk s)))(iMessage (i_invoker x) := None))"

lemma destroy_item:
  assumes "items s p = Some x" "i_submenu x = null \<or> menus s (i_submenu x) \<noteq> None"
    "iMessage (i_invoker x) = null \<or> messages (world (desk s)) (iMessage (i_invoker x)) \<noteq> None"
  shows "\<exists>s'. bindR (if i_submenu x \<noteq> null then delete_menu (i_submenu x) s else Inr s) (\<lambda>s.
      bindR (Invoker_delete (world (desk s)) (i_invoker x)) (\<lambda>w. Inr (s\<lparr>items := (items s)(p := None), desk := (desk s)\<lparr>world := w\<rparr>\<rparr>))) = Inr s' \<and>
    frees p x s s' \<and> (i_submenu x = null \<and> iMessage (i_invoker x) = null \<longrightarrow> s' = s\<lparr>items := (items s)(p := None)\<rparr>)"
proof -
  obtain m where m: "i_submenu x \<noteq> null \<longrightarrow> menus s (i_submenu x) = Some m" using assms(2) by auto
  obtain msg where g: "iMessage (i_invoker x) \<noteq> null \<longrightarrow> messages (world (desk s)) (iMessage (i_invoker x)) = Some msg" using assms(3) by auto
  show ?thesis
    using m g by (cases "i_submenu x = null"; cases "iMessage (i_invoker x) = null")
      (simp_all add: delete_menu_def Invoker_delete_def delete_message_def emit_def frees_def Let_def)
qed

lemma remove_item_ok:
  assumes "items s p = Some x" "i_super x = m" "m \<noteq> null" "p \<noteq> null" "i_submenu x = null \<or> menus s (i_submenu x) \<noteq> None"
    "iMessage (i_invoker x) = null \<or> messages (world (desk s)) (iMessage (i_invoker x)) \<noteq> None"
    "menus s m = Some y" "distinct (m_items y)" "p \<in> set (m_items y)" "3 \<le> n"
  shows "\<exists>s'. Menu_RemoveItem n m p s = Some (Inr (True, s')) \<and> frees p x (put_menu m (y\<lparr>m_items := remove1 p (m_items y)\<rparr>) s) s' \<and>
    (i_submenu x = null \<and> iMessage (i_invoker x) = null \<longrightarrow>
      s' = put_menu m (y\<lparr>m_items := remove1 p (m_items y)\<rparr>) s\<lparr>items := (items s)(p := None)\<rparr>)"
proof -
  obtain k where n: "n = Suc (Suc (Suc k))" using assms(10) by (auto dest!: le_Suc_ex simp: numeral_eq_Suc)
  let ?s = "put_menu m (y\<lparr>m_items := remove1 p (m_items y)\<rparr>) s"
  have at: "items ?s p = Some x" "i_submenu x = null \<or> menus ?s (i_submenu x) \<noteq> None"
    "iMessage (i_invoker x) = null \<or> messages (world (desk ?s)) (iMessage (i_invoker x)) \<noteq> None"
    using assms(1,5,6) by (simp_all add: put_menu_def)
  obtain s' where s': "bindR (if i_submenu x \<noteq> null then delete_menu (i_submenu x) ?s else Inr ?s) (\<lambda>s.
      bindR (Invoker_delete (world (desk s)) (i_invoker x)) (\<lambda>w. Inr (s\<lparr>items := (items s)(p := None), desk := (desk s)\<lparr>world := w\<rparr>\<rparr>))) = Inr s'"
    "frees p x ?s s'" "i_submenu x = null \<and> iMessage (i_invoker x) = null \<longrightarrow> s' = ?s\<lparr>items := (items ?s)(p := None)\<rparr>"
    using destroy_item [OF at] by blast
  then have plain: "i_submenu x = null \<and> iMessage (i_invoker x) = null \<longrightarrow> s' = ?s\<lparr>items := (items s)(p := None)\<rparr>" by (simp add: put_menu_def)
  have "Menu_RemoveItem (Suc j) m p ?s = Some (Inr (False, ?s))" for j
    using assms by (simp add: put_menu_def RemoveItem_eq)
  then have "delete_item (Suc (Suc k)) p ?s = Some (Inr s')"
    using assms(2,3) at(1) s'(1)
    by (cases "i_submenu x = null"; cases "delete_menu (i_submenu x) ?s") (simp_all del: Menu_RemoveItem.simps)
  then show ?thesis using assms s'(2) plain by (simp add: n RemoveItem_eq del: delete_item.simps)
qed

text \<open>C27. \<open>RemoveItem\<close> takes an item out of its menu and deletes it with its message and its submenu; the items of the submenu, what the menu
  remembers as selected and the shortcuts of the windows stay. The destructor of an item in a menu removes it from the menu, which
  deletes it, and then goes on with the dead item, whatever the item has.\<close>

theorem delete_item_in_menu:
  assumes "items s p = Some x" "i_super x = m" "m \<noteq> null" "p \<noteq> null" "i_submenu x = null \<or> menus s (i_submenu x) \<noteq> None"
    "iMessage (i_invoker x) = null \<or> messages (world (desk s)) (iMessage (i_invoker x)) \<noteq> None"
    "menus s m = Some y" "distinct (m_items y)" "p \<in> set (m_items y)" "4 \<le> n"
  shows "(\<exists>s'. Menu_RemoveItem n m p s = Some (Inr (True, s')) \<and> frees p x (put_menu m (y\<lparr>m_items := remove1 p (m_items y)\<rparr>) s) s') \<and>
    delete_item n p s = Some (Inl Undefined)"
proof -
  obtain k where n: "n = Suc k" "3 \<le> k" using assms(10) by (cases n) auto
  note rem = remove_item_ok [OF assms(1-9)]
  obtain s' where s': "Menu_RemoveItem k m p s = Some (Inr (True, s'))" "items s' p = None"
    using rem [OF n(2)] by (auto simp: frees_def)
  then have "delete_item n p s = Some (Inl Undefined)"
    unfolding n(1) using assms(1-3) by (simp del: Menu_RemoveItem.simps)
  moreover have "3 \<le> n" using n by simp
  ultimately show ?thesis using rem [of n] by blast
qed

text \<open>A menu 1 with the item 2, which is selected and has the message 11 and the submenu 3 with the item 4.\<close>

definition delete_sample :: menu_state where
  "delete_sample = \<lparr>items = [2 \<mapsto> (named 0x41 3)\<lparr>i_super := 1, i_invoker := Invoker_messenger 11 (Messenger_new 0 0)\<rparr>, 4 \<mapsto> named 0x42 null],
     menus = [1 \<mapsto> (Menu_new B_ITEMS_IN_COLUMN True 0)\<lparr>m_items := [2], m_selected := 2\<rparr>, 3 \<mapsto> (Menu_new B_ITEMS_IN_COLUMN True 0)\<lparr>m_items := [4]\<rparr>],
     tables = (\<lambda>_. None), desk = sample_gui\<lparr>world := (world sample_gui)\<lparr>messages := [11 \<mapsto> Message_new 5]\<rparr>\<rparr>\<rparr>"

lemma delete_item_in_menu_witness:
  "delete_item 4 2 delete_sample = Some (Inl Undefined) \<and>
   (\<exists>s'. Menu_RemoveItem 4 1 2 delete_sample = Some (Inr (True, s')) \<and> items s' 2 = None \<and> items s' 4 \<noteq> None \<and> menus s' 3 = None \<and>
      messages (world (desk s')) 11 = None \<and> map_option m_selected (menus s' 1) = Some 2)"
proof -
  let ?x = "(named 0x41 3)\<lparr>i_super := 1, i_invoker := Invoker_messenger 11 (Messenger_new 0 0)\<rparr>"
  let ?y = "(Menu_new B_ITEMS_IN_COLUMN True 0)\<lparr>m_items := [2], m_selected := 2\<rparr>"
  have x: "items delete_sample 2 = Some ?x" "menus delete_sample 1 = Some ?y" "iMessage (i_invoker ?x) = 11" "i_submenu ?x = 3"
    "menus delete_sample 3 \<noteq> None" "messages (world (desk delete_sample)) 11 \<noteq> None"
    by (simp_all add: delete_sample_def named_def MenuItem_new_def Invoker_messenger_def)
  have "items delete_sample 4 \<noteq> None" by (simp add: delete_sample_def)
  then show ?thesis using delete_item_in_menu [OF x(1) refl _ _ _ _ _ _ _, of ?y 4] x by (auto simp: frees_def put_menu_def)
qed

end
