(* ===== verification/MenuRadio.thy ===== *)
theory MenuRadio
  imports MenuItems
begin

text \<open>
  Menus in radio mode (\<open>kits/interface/Menu.cpp\<close>): a state machine of insertions, marks and removals, and its invariant.
\<close>

section \<open>Radio mode\<close>

text \<open>
  A menu in radio mode that is in no window, whose items have neither a message nor a submenu: what is done with its items, when
  it may be done, and what holds all the time.
\<close>

datatype radio_op = Insert ptr int | Mark ptr bool | Drop ptr

definition plain_item :: "menu_state \<Rightarrow> ptr \<Rightarrow> ptr \<Rightarrow> bool" where
  "plain_item s super p \<longleftrightarrow> (\<exists>x. items s p = Some x \<and> i_super x = super \<and> i_submenu x = null \<and> iMessage (i_invoker x) = null)"

definition marked :: "menu_state \<Rightarrow> ptr \<Rightarrow> bool" where "marked s p \<longleftrightarrow> map_option i_mark (items s p) = Some True"

definition listed :: "menu_state \<Rightarrow> ptr \<Rightarrow> ptr list" where "listed s m = (case menus s m of Some y \<Rightarrow> m_items y | None \<Rightarrow> [])"

fun allowed :: "ptr \<Rightarrow> radio_op \<Rightarrow> menu_state \<Rightarrow> bool" where
  "allowed m (Insert p i) s \<longleftrightarrow> p \<noteq> null \<and> p \<notin> set (listed s m) \<and> plain_item s null p \<and> length (listed s m) + 1 < 2 ^ 31"
| "allowed m (Mark p b) s \<longleftrightarrow> p \<in> set (listed s m)"
| "allowed m (Drop p) s \<longleftrightarrow> True"

fun radio_do :: "heap \<Rightarrow> ptr \<Rightarrow> radio_op \<Rightarrow> menu_state \<Rightarrow> menu_state partial" where
  "radio_do h m (Insert p i) s = bindO (add_item 4 h m p i s) (\<lambda>r. Some (Inr (snd r)))"
| "radio_do h m (Mark p b) s = Some (SetMarked p b s)"
| "radio_do h m (Drop p) s = bindO (Menu_RemoveItem 4 m p s) (\<lambda>r. Some (Inr (snd r)))"

inductive radio_step :: "heap \<Rightarrow> ptr \<Rightarrow> menu_state \<Rightarrow> menu_state \<Rightarrow> bool" where
  "allowed m a s \<Longrightarrow> radio_do h m a s = Some (Inr s') \<Longrightarrow> radio_step h m s s'"

definition radio_menu :: "ptr \<Rightarrow> menu_state \<Rightarrow> bool" where
  "radio_menu m s \<longleftrightarrow> m \<noteq> null \<and> (\<exists>y v. menus s m = Some y \<and> m_radioMode y \<and> m_superitem y = null \<and> views (desk s) m = Some v \<and>
     fWindow v = null \<and> distinct (m_items y) \<and> null \<notin> set (m_items y) \<and> fits (m_items y) \<and> (\<forall>p\<in>set (m_items y). plain_item s m p) \<and>
     (\<forall>p\<in>set (m_items y). \<forall>q\<in>set (m_items y). marked s p \<longrightarrow> marked s q \<longrightarrow> p = q))"

text \<open>The loop over the other items.\<close>

definition cleared :: "ptr set \<Rightarrow> menu_state \<Rightarrow> menu_state" where
  "cleared ps s = s\<lparr>items := \<lambda>p. if p \<in> ps then map_option (\<lambda>x. x\<lparr>i_mark := False\<rparr>) (items s p) else items s p\<rparr>"

lemma cleared_simps [simp]:
  "menus (cleared ps s) = menus s" "desk (cleared ps s) = desk s" "tables (cleared ps s) = tables s" "listed (cleared ps s) m = listed s m"
  "plain_item (cleared ps s) super p = plain_item s super p" "marked (cleared ps s) p \<longleftrightarrow> p \<notin> ps \<and> marked s p"
  by (auto simp: cleared_def listed_def plain_item_def marked_def)

lemma items_cleared: "items (cleared ps s) p = (if p \<in> ps then map_option (\<lambda>x. x\<lparr>i_mark := False\<rparr>) (items s p) else items s p)"
  by (simp add: cleared_def)

lemma unmark_others_ok:
  "\<forall>i\<in>set is. items s (Menu_ItemAt y i) \<noteq> None \<Longrightarrow> unmark_others y p is s = Inr (cleared (Menu_ItemAt y ` set is - {p}) s)"
proof (induction "is" arbitrary: s)
  case Nil
  show ?case by (simp add: cleared_def)
next
  case (Cons i "is")
  let ?q = "Menu_ItemAt y i"
  let ?s = "cleared ({?q} - {p}) s"
  have "(if ?q \<noteq> p then unmark ?q s else Inr s) = Inr ?s"
  proof (cases "?q = p")
    case False
    obtain x where x: "items s ?q = Some x" using Cons.prems by auto
    have "(items s)(?q \<mapsto> x\<lparr>i_mark := False\<rparr>) = items ?s" using x False by (auto simp: items_cleared)
    moreover have "?s = s\<lparr>items := items ?s\<rparr>" by (simp add: cleared_def)
    ultimately show ?thesis using x False by (simp add: unmark_def upd_item_def put_item_def)
  qed (simp add: cleared_def)
  moreover have "\<forall>i\<in>set is. items ?s (Menu_ItemAt y i) \<noteq> None" using Cons.prems by (simp add: items_cleared)
  moreover have "cleared (Menu_ItemAt y ` set is - {p}) ?s = cleared (Menu_ItemAt y ` set (i # is) - {p}) s"
    by (auto simp: cleared_def fun_eq_iff option.map_comp comp_def intro: option.map_cong)
  ultimately show ?case using Cons.IH by simp
qed

lemma listed_indices: "fits (m_items y) \<Longrightarrow> Menu_ItemAt y ` set (indices y) = set (m_items y)"
  by (force simp: indices_def Menu_CountItems_def Menu_ItemAt_def image_image in_set_conv_nth)

lemma unmark_menu:
  assumes "fits (m_items y)" "\<forall>q\<in>set (m_items y). items s q \<noteq> None"
  shows "unmark_others y p (indices y) s = Inr (cleared (set (m_items y) - {p}) s)"
  using unmark_others_ok [of "indices y" s y p] listed_indices [OF assms(1)] assms(2) by (metis image_eqI)

lemma radio_menuE:
  assumes "radio_menu m s"
  obtains y v where "m \<noteq> null" "menus s m = Some y" "listed s m = m_items y" "m_radioMode y" "m_superitem y = null" "views (desk s) m = Some v"
    "fWindow v = null" "distinct (m_items y)" "null \<notin> set (m_items y)" "fits (m_items y)" "\<forall>p\<in>set (m_items y). plain_item s m p"
    "\<forall>p\<in>set (m_items y). \<forall>q\<in>set (m_items y). marked s p \<longrightarrow> marked s q \<longrightarrow> p = q"
  using assms unfolding radio_menu_def listed_def by auto

lemma plain_alive: "plain_item s super p \<Longrightarrow> items s p \<noteq> None" by (auto simp: plain_item_def)

text \<open>The menu after a change of its items, when the items have become as they shall.\<close>

lemma radio_menuI:
  assumes "radio_menu m s" "desk s' = desk s" "menus s' = (menus s)(m := Some ((the (menus s m))\<lparr>m_items := ps\<rparr>))" "distinct ps" "null \<notin> set ps" "fits ps"
    "\<forall>p\<in>set ps. plain_item s' m p" "\<And>p q. p \<in> set ps \<Longrightarrow> q \<in> set ps \<Longrightarrow> marked s' p \<Longrightarrow> marked s' q \<Longrightarrow> p = q"
  shows "radio_menu m s'"
  using assms by (elim radio_menuE) (simp add: radio_menu_def; blast)

lemma radio_mark:
  assumes "radio_menu m s" "p \<in> set (listed s m)"
  shows "\<exists>s'. SetMarked p b s = Inr s' \<and> radio_menu m s' \<and> (b \<longrightarrow> marked s' p) \<and> listed s' m = listed s m"
proof -
  obtain y v where y: "m \<noteq> null" "menus s m = Some y" "listed s m = m_items y" "m_radioMode y" "m_superitem y = null" "distinct (m_items y)"
      "null \<notin> set (m_items y)" "fits (m_items y)" "\<forall>p\<in>set (m_items y). plain_item s m p"
      "\<forall>p\<in>set (m_items y). \<forall>q\<in>set (m_items y). marked s p \<longrightarrow> marked s q \<longrightarrow> p = q"
    using assms(1) by (elim radio_menuE)
  obtain x where x: "items s p = Some x" "i_super x = m" "i_submenu x = null" "iMessage (i_invoker x) = null"
    using y(9) assms(2) y(3) by (auto simp: plain_item_def)
  let ?s1 = "put_item p (x\<lparr>i_mark := b\<rparr>) s"
  let ?s' = "if b then cleared (set (m_items y) - {p}) ?s1 else ?s1"
  have p1: "plain_item ?s1 m q = plain_item s m q" for q using x by (auto simp: plain_item_def put_item_def)
  have m1: "marked ?s1 q \<longleftrightarrow> (if q = p then b else marked s q)" for q by (simp add: marked_def put_item_def)
  have "\<forall>q\<in>set (m_items y). items ?s1 q \<noteq> None" using y(9) p1 plain_alive by blast
  then have "unmark_others y p (indices y) ?s1 = Inr (cleared (set (m_items y) - {p}) ?s1)" by (rule unmark_menu [OF y(8)])
  then have "SetMarked p b s = Inr ?s'" using x y(1,2,4,5) by (cases b) (simp_all add: SetMarked_def ItemMarked_def Let_def put_item_def)
  moreover have "menus s = (menus s)(m := Some (y\<lparr>m_items := m_items y\<rparr>))" using y(2) by (simp add: fun_eq_iff)
  then have "radio_menu m ?s'" 
    using y p1 m1 by (intro radio_menuI [OF assms(1), where ps = "m_items y"]) (auto simp: put_item_def split: if_splits)
  moreover have "b \<longrightarrow> marked ?s' p" using m1 [of p] by (cases b) simp_all
  moreover have "listed ?s' m = listed s m" by (simp add: listed_def put_item_def)
  ultimately show ?thesis by blast
qed

lemma radio_insert:
  assumes "radio_menu m s" "allowed m (Insert p i) s"
  shows "\<exists>a s'. add_item n h m p i s = Some (Inr (a, s')) \<and> radio_menu m s'"
proof -
  obtain y v where y: "m \<noteq> null" "menus s m = Some y" "listed s m = m_items y" "m_radioMode y" "m_superitem y = null" "views (desk s) m = Some v"
      "fWindow v = null" "distinct (m_items y)" "null \<notin> set (m_items y)" "fits (m_items y)" "\<forall>p\<in>set (m_items y). plain_item s m p"
      "\<forall>p\<in>set (m_items y). \<forall>q\<in>set (m_items y). marked s p \<longrightarrow> marked s q \<longrightarrow> p = q"
    using assms(1) by (elim radio_menuE)
  obtain x where x: "items s p = Some x" "i_super x = null" "i_submenu x = null" "iMessage (i_invoker x) = null"
    using assms(2) by (auto simp: plain_item_def)
  have p: "p \<noteq> null" "p \<notin> set (m_items y)" "length (m_items y) + 1 < 2 ^ 31" using assms(2) y(3) by simp_all
  show ?thesis
  proof (cases "i < 0 \<or> Menu_CountItems y < i")
    case True
    then show ?thesis using p(1) y(2) assms(1) by (auto simp: add_item_def)
  next
    case False
    then obtain k where k: "i = int k" "k \<le> length (m_items y)"
      using y(10) by (auto simp: Menu_CountItems_def not_less dest: nonneg_int_cases)
    let ?s1 = "if i_mark x then cleared (set (m_items y)) s else s"
    let ?ps = "take k (m_items y) @ p # drop k (m_items y)"
    let ?s' = "put_item p (x\<lparr>i_super := m\<rparr>) (put_menu m (y\<lparr>m_items := ?ps\<rparr>) ?s1)"
    have "set (m_items y) - {p} = set (m_items y)" using p(2) by blast
    then have "unmark_others y p (indices y) s = Inr (cleared (set (m_items y)) s)"
      using unmark_menu [OF y(10), of s p] y(11) plain_alive by metis
    then have "add_item n h m p i s = Some (Inr (True, ?s'))"
      using False p x y AddItem_at_in_range [OF y(10) k(2), of p] k(1)
      by (cases "i_mark x") (simp_all add: add_item_def upd_menu_def put_menu_def SetSuper_def upd_item_def put_item_def items_cleared)
    moreover have set: "set ?ps = insert p (set (m_items y))" by (metis Un_insert_right append_take_drop_id list.set(2) set_append)
    have "radio_menu m ?s'"
    proof (rule radio_menuI [OF assms(1), where ps = ?ps])
      show "desk ?s' = desk s" "menus ?s' = (menus s)(m := Some ((the (menus s m))\<lparr>m_items := ?ps\<rparr>))" using y(2) by (simp_all add: put_item_def put_menu_def)
      have "mset ?ps = mset (p # m_items y)" by (metis append_take_drop_id mset.simps(2) mset_append union_mset_add_mset_right)
      then have "distinct ?ps \<longleftrightarrow> distinct (p # m_items y)" by (rule mset_eq_imp_distinct_iff)
      then show "distinct ?ps" using p(2) y(8) by simp
      show "null \<notin> set ?ps" using set p(1) y(9) by simp
      show "fits ?ps" using p(3) k(2) by (simp add: fits_def)
      show "\<forall>q\<in>set ?ps. plain_item ?s' m q" unfolding set using x y(11) p(2) by (auto simp: plain_item_def put_item_def put_menu_def items_cleared)
      have mk: "marked ?s' q \<longleftrightarrow> (if q = p then i_mark x else marked ?s1 q)" for q using x by (simp add: marked_def put_item_def put_menu_def)
      fix q r assume qr: "q \<in> set ?ps" "r \<in> set ?ps" "marked ?s' q" "marked ?s' r"
      show "q = r"
      proof (cases "i_mark x")
        case True
        then show ?thesis using qr unfolding mk set by (auto split: if_splits)
      next
        case False
        then show ?thesis using qr y(12) unfolding mk set by (auto split: if_splits)
      qed
    qed
    ultimately show ?thesis by blast
  qed
qed

lemma radio_drop:
  assumes "radio_menu m s"
  shows "\<exists>a s'. Menu_RemoveItem 4 m p s = Some (Inr (a, s')) \<and> radio_menu m s'"
proof -
  obtain y v where y: "m \<noteq> null" "menus s m = Some y" "listed s m = m_items y" "distinct (m_items y)" "null \<notin> set (m_items y)" "fits (m_items y)"
      "\<forall>p\<in>set (m_items y). plain_item s m p" "\<forall>p\<in>set (m_items y). \<forall>q\<in>set (m_items y). marked s p \<longrightarrow> marked s q \<longrightarrow> p = q"
    using assms by (elim radio_menuE)
  show ?thesis
  proof (cases "p \<in> set (m_items y)")
    case False
    then have "Menu_RemoveItem (Suc j) m p s = Some (Inr (False, s))" for j using y(2) by (simp add: RemoveItem_eq)
    from this [of 3] show ?thesis using assms by auto
  next
    case True
    obtain x where x: "items s p = Some x" "i_super x = m" "i_submenu x = null" "iMessage (i_invoker x) = null"
      using y(7) True by (auto simp: plain_item_def)
    let ?ps = "remove1 p (m_items y)"
    let ?s' = "put_menu m (y\<lparr>m_items := ?ps\<rparr>) s\<lparr>items := (items s)(p := None)\<rparr>"
    have "Menu_RemoveItem 4 m p s = Some (Inr (True, ?s'))" using remove_item_ok [OF x(1,2) y(1) _ _ _ y(2,4) True, of 4] x(3,4) y(5) True by force
    moreover have "radio_menu m ?s'"
    proof (rule radio_menuI [OF assms, where ps = ?ps])
      show "\<forall>q\<in>set ?ps. plain_item ?s' m q" using y(4,7) by (simp add: plain_item_def put_menu_def)
      show "fits ?ps" using y(6) by (auto simp: fits_def length_remove1)
      fix q r assume "q \<in> set ?ps" "r \<in> set ?ps" "marked ?s' q" "marked ?s' r"
      then show "q = r" using y(4,8) by (auto simp: marked_def split: if_splits)
    qed (use y in \<open>auto simp: put_menu_def dest: in_set_remove1\<close>)
    ultimately show ?thesis by blast
  qed
qed

lemma radio_do_ok: "radio_menu m s \<Longrightarrow> allowed m a s \<Longrightarrow> \<exists>s'. radio_do h m a s = Some (Inr s') \<and> radio_menu m s'"
proof (cases a)
  case (Insert p i)
  assume "radio_menu m s" "allowed m a s"
  then show ?thesis using radio_insert [of m s p i 4 h] Insert by auto
next
  case (Mark p b)
  assume "radio_menu m s" "allowed m a s"
  then show ?thesis using radio_mark [of m s p b] Mark by auto
next
  case (Drop p)
  assume "radio_menu m s"
  then show ?thesis using radio_drop [of m s p] Drop by auto
qed

lemma radio_reach: "rtranclp (radio_step h m) s s' \<Longrightarrow> radio_menu m s \<Longrightarrow> radio_menu m s'"
proof (induction rule: rtranclp_induct)
  case (step s1 s2)
  then show ?case using radio_do_ok [of m s1 _ h] by (force elim!: radio_step.cases)
qed

lemma find_marked_ok:
  "\<forall>i\<in>set is. items s (Menu_ItemAt y i) \<noteq> None \<Longrightarrow>
    find_marked s y is = Inr (case find (marked s) (map (Menu_ItemAt y) is) of None \<Rightarrow> null | Some p \<Rightarrow> p)"
  by (induction "is") (auto simp: marked_def)

text \<open>C28. A menu in radio mode has at most one marked item, after any sequence of insertions, marks and removals; its list keeps
  living items of its own, each once. \<open>FindMarked\<close> returns the marked item, or null when there is none, and
  every further operation returns.\<close>

theorem radio_mode_one_mark:
  assumes "radio_menu m s" "rtranclp (radio_step h m) s s'"
  shows "radio_menu m s' \<and> (\<exists>p. FindMarked s' m = Inr p \<and> (\<forall>q\<in>set (listed s' m). marked s' q \<longleftrightarrow> q = p)) \<and>
    (\<forall>a. allowed m a s' \<longrightarrow> (\<exists>s''. radio_do h m a s' = Some (Inr s'')))"
proof -
  have r: "radio_menu m s'" using radio_reach assms by blast
  then obtain y where y: "menus s' m = Some y" "listed s' m = m_items y" "fits (m_items y)" "null \<notin> set (m_items y)"
      "\<forall>p\<in>set (m_items y). plain_item s' m p" "\<forall>p\<in>set (m_items y). \<forall>q\<in>set (m_items y). marked s' p \<longrightarrow> marked s' q \<longrightarrow> p = q"
    by (elim radio_menuE)
  have im: "map (Menu_ItemAt y) (indices y) = m_items y"
    using y(3) by (auto simp: indices_def Menu_CountItems_def Menu_ItemAt_def intro!: nth_equalityI)
  have "\<forall>i\<in>set (indices y). items s' (Menu_ItemAt y i) \<noteq> None" using y(5) plain_alive listed_indices [OF y(3)] by blast
  then have f: "FindMarked s' m = Inr (case find (marked s') (m_items y) of None \<Rightarrow> null | Some p \<Rightarrow> p)"
    using find_marked_ok [of "indices y" s' y] y(1) by (simp add: FindMarked_def im)
  have "\<exists>p. FindMarked s' m = Inr p \<and> (\<forall>q\<in>set (listed s' m). marked s' q \<longleftrightarrow> q = p)"
  proof (cases "find (marked s') (m_items y)")
    case None
    then have "FindMarked s' m = Inr null" "\<forall>q\<in>set (m_items y). \<not> marked s' q" using f None by (simp_all add: find_None_iff)
    moreover have "\<forall>q\<in>set (m_items y). q \<noteq> null" using y(4) by metis
    ultimately have "FindMarked s' m = Inr null \<and> (\<forall>q\<in>set (listed s' m). marked s' q \<longleftrightarrow> q = null)" unfolding y(2) by metis
    then show ?thesis by (rule exI)
  next
    case (Some p)
    then have "p \<in> set (m_items y)" "marked s' p" by (auto simp: find_Some_iff)
    then show ?thesis using Some f y(2,6) by auto
  qed
  then show ?thesis using r radio_do_ok by blast
qed

text \<open>A menu 1 with the items 2, which is marked, and 3, which is marked next.\<close>

definition radio_sample :: menu_state where
  "radio_sample = \<lparr>items = [2 \<mapsto> (named 0x41 null)\<lparr>i_super := 1, i_mark := True\<rparr>, 3 \<mapsto> (named 0x42 null)\<lparr>i_super := 1\<rparr>],
     menus = [1 \<mapsto> (Menu_new B_ITEMS_IN_COLUMN True 0)\<lparr>m_items := [2, 3], m_radioMode := True\<rparr>], tables = (\<lambda>_. None),
     desk = sample_gui\<lparr>views := [1 \<mapsto> plain_view]\<rparr>\<rparr>"

lemma radio_mode_one_mark_witness:
  "\<exists>s'. SetMarked 3 True radio_sample = Inr s' \<and> FindMarked s' 1 = Inr 3 \<and> \<not> marked s' 2"
proof -
  have r: "radio_menu 1 radio_sample"
    by (auto simp: radio_menu_def radio_sample_def plain_view_def fits_def plain_item_def named_def MenuItem_new_def Invoker_messenger_def marked_def Menu_new_def)
  have a: "allowed 1 (Mark 3 True) radio_sample" by (simp add: listed_def radio_sample_def)
  obtain s' where s': "SetMarked 3 True radio_sample = Inr s'" "marked s' 3" "radio_menu 1 s'" "listed s' 1 = listed radio_sample 1" using radio_mark [OF r, of 3 True] a by auto
  have "radio_step heap_sample 1 radio_sample s'" using s'(1) by (intro radio_step.intros [OF a]) simp
  then have "rtranclp (radio_step heap_sample 1) radio_sample s'" by (rule r_into_rtranclp)
  then obtain p where p: "FindMarked s' 1 = Inr p" "\<forall>q\<in>set (listed s' 1). marked s' q \<longleftrightarrow> q = p"
    using radio_mode_one_mark [OF r] by blast
  moreover have "listed radio_sample 1 = [2, 3]" by (simp add: listed_def radio_sample_def)
  ultimately show ?thesis using s'(1,2,4) by auto
qed

end
