(* ===== verification/Semaphore.thy ===== *)
theory Semaphore
  imports Locker "HOL-Library.Word" "HOL-Library.Signed_Division"
begin

text \<open>
  The semaphores of the kernel emulation (\<open>kits/kernel/sem.c\<close>), as a state machine over any number of threads. Every access
  to the shared word and every call of the kernel is one step. \<open>FUTEX_WAIT\<close> puts a thread to sleep when the word
  still has the value that the thread expects, \<open>FUTEX_WAKE\<close> wakes at most the given number of the threads that sleep.
\<close>

section \<open>State and steps\<close>

definition B_DO_NOT_RESCHEDULE :: "32 word" where "B_DO_NOT_RESCHEDULE = 2"
definition B_RELATIVE_TIMEOUT :: "32 word" where "B_RELATIVE_TIMEOUT = 8"
definition B_ABSOLUTE_TIMEOUT :: "32 word" where "B_ABSOLUTE_TIMEOUT = 16"

text \<open>Where a thread is in \<open>acquire_sem_etc\<close> or \<open>release_sem_etc\<close>. \<open>n\<close>: the units it asks for.\<close>

datatype sem_pc =
    Outside
  | Reading "32 word" nat             \<comment> \<open>\<open>a = *sem\<close>, in round \<open>i\<close> of the first loop\<close>
  | Swapping "32 word" nat "32 word"  \<comment> \<open>\<open>cmpxchg\<close> of the value read\<close>
  | Taken "32 word"                   \<comment> \<open>before \<open>latest_holder\<close> is written\<close>
  | Checking "32 word"                \<comment> \<open>the condition of the second loop\<close>
  | Expecting "32 word"               \<comment> \<open>the count is read again, for the argument of \<open>FUTEX_WAIT\<close>\<close>
  | Sleepy "32 word" "32 word"        \<comment> \<open>\<open>FUTEX_WAIT\<close> with this value\<close>
  | Asleep "32 word"
  | Hoping int nat                    \<comment> \<open>in \<open>release_sem_etc\<close>, round \<open>i\<close> of the loop\<close>
  | Waking int                        \<comment> \<open>\<open>FUTEX_WAKE\<close>\<close>

record sem =
  sm_count :: "32 word"
  sm_team :: int
  sm_latest :: thread
  sm_pc :: "thread \<Rightarrow> sem_pc"

definition create_sem :: "32 word \<Rightarrow> int \<Rightarrow> sem" where
  "create_sem thread_count team = \<lparr>sm_count = thread_count, sm_team = team, sm_latest = 0, sm_pc = (\<lambda>_. Outside)\<rparr>"

text \<open>
  \<open>Acquire\<close> and \<open>Release\<close> start a call, \<open>Tick\<close> is the next access of the thread itself; for the kernel call that wakes, the step
  names the threads that it wakes. \<open>Fails\<close>: \<open>FUTEX_WAIT\<close> ends with another error than \<open>EWOULDBLOCK\<close>.
\<close>

datatype sem_event =
    Acquire "32 word" "32 word" int   \<comment> \<open>units, flags, timeout\<close>
  | Release int "32 word"             \<comment> \<open>units, flags\<close>
  | Tick
  | Wakes "thread list"
  | Fails status

text \<open>What a call returns, if the step ends one.\<close>

type_synonym sem_result = "status option"

definition to_pc :: "thread \<Rightarrow> sem_pc \<Rightarrow> sem \<Rightarrow> sem" where
  "to_pc t x s = s\<lparr>sm_pc := (sm_pc s)(t := x)\<rparr>"

definition spin :: "32 word \<Rightarrow> nat \<Rightarrow> sem_pc" where
  "spin n i = (if i < 100 then Reading n i else Checking n)"

definition hope :: "int \<Rightarrow> nat \<Rightarrow> sem_pc" where
  "hope k i = (if i < 200 then Hoping k i else Waking k)"

definition asleep :: "sem \<Rightarrow> thread \<Rightarrow> bool" where
  "asleep s t \<longleftrightarrow> (case sm_pc s t of Asleep n \<Rightarrow> True | _ \<Rightarrow> False)"

text \<open>The threads \<open>ts\<close> return from \<open>FUTEX_WAIT\<close> to the condition of the loop.\<close>

fun wake :: "thread list \<Rightarrow> sem \<Rightarrow> sem" where
  "wake [] s = s"
| "wake (t # ts) s = wake ts (case sm_pc s t of Asleep n \<Rightarrow> to_pc t (Checking n) s | _ \<Rightarrow> s)"

text \<open>The kernel wakes \<open>k\<close> threads, or fewer when no other sleeps.\<close>

definition wakes :: "sem \<Rightarrow> int \<Rightarrow> thread list \<Rightarrow> bool" where
  "wakes s k ts \<longleftrightarrow> distinct ts \<and> (\<forall>t\<in>set ts. asleep s t) \<and> int (length ts) \<le> k \<and>
     (int (length ts) < k \<longrightarrow> {t. asleep s t} \<subseteq> set ts)"

fun sem_step :: "thread \<Rightarrow> sem_event \<Rightarrow> sem \<Rightarrow> (sem_result \<times> sem) option" where
  "sem_step t (Acquire n flags timeout) s =
     (if sm_pc s t \<noteq> Outside then None
      else if timeout = 0 \<and> flags AND B_RELATIVE_TIMEOUT \<noteq> 0 \<and> sm_count s < n then Some (Some B_WOULD_BLOCK, s)
      else Some (None, to_pc t (spin n 0) s))"
| "sem_step t (Release k flags) s =
     (if sm_pc s t \<noteq> Outside then None
      else if k < 1 then Some (Some B_BAD_VALUE, s)
      else
        let i = sint (sm_count s); s = s\<lparr>sm_count := sm_count s + word_of_int k\<rparr>
        in if 0 < i then Some (Some B_OK, s) else Some (None, to_pc t (hope k 0) s))"
| "sem_step t Tick s =
     (case sm_pc s t of
        Reading n i \<Rightarrow> Some (None, to_pc t (if n \<le> sm_count s then Swapping n i (sm_count s) else spin n (Suc i)) s)
      | Swapping n i a \<Rightarrow>
          Some (None, if sm_count s = a then to_pc t (Taken n) (s\<lparr>sm_count := a - n\<rparr>) else to_pc t (spin n (Suc i)) s)
      | Taken n \<Rightarrow> Some (Some B_OK, to_pc t Outside (s\<lparr>sm_latest := t\<rparr>))
      | Checking n \<Rightarrow> Some (None, to_pc t (if sm_count s < n then Expecting n else spin n 0) s)
      | Expecting n \<Rightarrow> Some (None, to_pc t (Sleepy n (sm_count s)) s)
      | Sleepy n v \<Rightarrow> Some (None, to_pc t (if sm_count s = v then Asleep n else spin n 0) s)
      | Hoping k i \<Rightarrow>
          if sint (sm_count s) \<le> 0 then Some (Some B_OK, to_pc t Outside s) else Some (None, to_pc t (hope k (Suc i)) s)
      | _ \<Rightarrow> None)"
| "sem_step t (Wakes ts) s =
     (case sm_pc s t of Waking k \<Rightarrow> if wakes s k ts then Some (Some B_OK, to_pc t Outside (wake ts s)) else None | _ \<Rightarrow> None)"
| "sem_step t (Fails status) s =
     (if status = B_OK then None
      else case sm_pc s t of
        Sleepy n v \<Rightarrow> Some (Some status, to_pc t Outside s)
      | Asleep n \<Rightarrow> Some (Some status, to_pc t Outside s)
      | _ \<Rightarrow> None)"

text \<open>The queries. \<open>get_sem_count\<close> returns the count as its status and writes nothing through its pointer.\<close>

definition get_sem_count :: "sem \<Rightarrow> status" where "get_sem_count s = sint (sm_count s)"

record sem_info =
  si_count :: int
  si_latest :: thread
  si_team :: int

definition get_sem_info :: "sem \<Rightarrow> status \<times> sem_info" where
  "get_sem_info s = (B_OK, \<lparr>si_count = sint (sm_count s), si_latest = sm_latest s, si_team = sm_team s\<rparr>)"

text \<open>
  Seconds and nanoseconds of the timeout for \<open>FUTEX_WAIT\<close>, from the time of the real-time clock; none without a flag. The kernel
  takes a relative timeout there, and refuses \<open>10 ^ 9\<close> nanoseconds.
\<close>

definition sem_deadline :: "32 word \<Rightarrow> int \<Rightarrow> int \<times> int \<Rightarrow> (int \<times> int) option" where
  "sem_deadline flags timeout now =
     (if flags AND (B_ABSOLUTE_TIMEOUT OR B_RELATIVE_TIMEOUT) = 0 then None
      else
        let base = (if flags AND B_RELATIVE_TIMEOUT \<noteq> 0 then now else (0, 0));
            sec = fst base + timeout sdiv 1000000; nsec = snd base + timeout smod 1000000 * 1000
        in Some (if 1000000000 < nsec then (sec + 1, nsec - 1000000000) else (sec, nsec)))"

lemma sem_deadline_full_second:
  "sem_deadline B_RELATIVE_TIMEOUT 500000 (100, 500000000) = Some (100, 1000000000)"
  by (simp add: sem_deadline_def B_RELATIVE_TIMEOUT_def B_ABSOLUTE_TIMEOUT_def signed_divide_int_def signed_modulo_int_def)

definition B_BAD_SEM_ID :: status where "B_BAD_SEM_ID = B_OS_ERROR_BASE"

definition delete_sem :: "int \<Rightarrow> sem \<Rightarrow> status \<times> thread set" where
  "delete_sem team s = (if sm_team s \<noteq> team then (B_BAD_SEM_ID, {}) else (B_OK, {t. asleep s t}))"

section \<open>Runs\<close>

text \<open>
  A run counts the units \<open>g\<close> of the acquisitions that have returned \<open>B_OK\<close> and the units \<open>p\<close> that were released. The word
  is an \<open>int\<close>, so all units together are less than \<open>2 ^ 31\<close>. Between the exchange and its return a call owes units to nobody
  but its thread.
\<close>

definition granted :: "thread \<Rightarrow> sem_event \<Rightarrow> sem \<Rightarrow> nat" where
  "granted t e s = (case (e, sm_pc s t) of (Tick, Taken n) \<Rightarrow> unat n | _ \<Rightarrow> 0)"

definition released :: "sem_event \<Rightarrow> nat" where
  "released e = (case e of Release k flags \<Rightarrow> nat k | _ \<Rightarrow> 0)"

inductive sem_run :: "32 word \<Rightarrow> int \<Rightarrow> sem \<Rightarrow> nat \<Rightarrow> nat \<Rightarrow> bool" for c team where
  start: "sem_run c team (create_sem c team) 0 0"
| more: "\<lbrakk>sem_run c team s g p; sem_step t e s = Some (r, s'); unat c + p + released e < 2 ^ 31\<rbrakk> \<Longrightarrow>
    sem_run c team s' (g + granted t e s) (p + released e)"

definition owed :: "sem_pc \<Rightarrow> nat" where
  "owed x = (case x of Taken n \<Rightarrow> unat n | _ \<Rightarrow> 0)"

definition inside :: "sem \<Rightarrow> thread set" where "inside s = {t. sm_pc s t \<noteq> Outside}"

definition pending :: "sem \<Rightarrow> nat" where "pending s = (\<Sum>t\<in>inside s. owed (sm_pc s t))"

definition sem_inv :: "nat \<Rightarrow> sem \<Rightarrow> nat \<Rightarrow> nat \<Rightarrow> bool" where
  "sem_inv c s g p \<longleftrightarrow> finite (inside s) \<and> unat (sm_count s) + g + pending s = c + p \<and>
     (\<forall>t n i a. sm_pc s t = Swapping n i a \<longrightarrow> n \<le> a)"

lemma released_Tick [simp]: "released Tick = 0" by (simp add: released_def)

lemma to_pc_simps [simp]:
  "sm_count (to_pc t x s) = sm_count s" "sm_pc (to_pc t x s) = (sm_pc s)(t := x)" "sm_latest (to_pc t x s) = sm_latest s"
  by (simp_all add: to_pc_def)

lemma owed_simps [simp]:
  "owed Outside = 0" "owed (Reading n i) = 0" "owed (Swapping n i a) = 0" "owed (Taken n) = unat n" "owed (Checking n) = 0" "owed (Expecting n) = 0"
  "owed (Sleepy n v) = 0" "owed (Asleep n) = 0" "owed (Hoping k j) = 0" "owed (Waking k) = 0" "owed (spin n i) = 0" "owed (hope k j) = 0"
  by (simp_all add: owed_def spin_def hope_def)

lemma pending_to_pc:
  assumes "finite (inside s)"
  shows "finite (inside (to_pc t x s))" "pending (to_pc t x s) + owed (sm_pc s t) = pending s + owed x"
proof -
  have sub: "inside (to_pc t x s) \<subseteq> insert t (inside s)" by (auto simp: inside_def)
  then show f: "finite (inside (to_pc t x s))" using assms finite_subset by blast
  have p: "pending s' = (\<Sum>u\<in>insert t (inside s). owed (sm_pc s' u))" if "inside s' \<subseteq> insert t (inside s)" for s'
    unfolding pending_def using assms that by (intro sum.mono_neutral_left) (auto simp: inside_def)
  have "pending s = owed (sm_pc s t) + (\<Sum>u\<in>inside s - {t}. owed (sm_pc s u))"
    using p [of s] assms by (simp add: sum.insert_remove subset_insertI)
  moreover have "pending (to_pc t x s) = owed x + (\<Sum>u\<in>inside s - {t}. owed (sm_pc s u))"
    using p [OF sub] assms by (simp add: sum.insert_remove)
  ultimately show "pending (to_pc t x s) + owed (sm_pc s t) = pending s + owed x" by simp
qed

lemma sem_inv_to_pc:
  assumes "sem_inv c s g p" "owed x + g' = owed (sm_pc s t) + g" "\<And>n i a. x = Swapping n i a \<Longrightarrow> n \<le> a"
  shows "sem_inv c (to_pc t x s) g' p"
  using assms pending_to_pc [of s t x] by (auto simp: sem_inv_def)

lemma sem_inv_count:
  assumes "sem_inv c s g p" "unat w + p = unat (sm_count s) + p'"
  shows "sem_inv c (s\<lparr>sm_count := w\<rparr>) g p'"
  using assms by (simp add: sem_inv_def inside_def pending_def)

lemma sem_inv_wake: "sem_inv c s g p \<Longrightarrow> sem_inv c (wake ts s) g p"
proof (induction ts arbitrary: s)
  case (Cons t ts)
  then show ?case by (auto intro!: Cons.IH sem_inv_to_pc split: sem_pc.split)
qed simp

lemma wake_pc: "t \<notin> set ts \<Longrightarrow> sm_pc (wake ts s) t = sm_pc s t"
  by (induction ts arbitrary: s) (auto split: sem_pc.split)

lemma unat_add_int:
  assumes "unat (w :: 32 word) + nat k < 2 ^ 31" "0 \<le> k"
  shows "unat (w + word_of_int k) = unat w + nat k"
proof -
  have "word_of_int k = (of_nat (nat k) :: 32 word)" using assms(2) by simp
  moreover have "unat (of_nat (nat k) :: 32 word) = nat k" using assms(1) by (simp add: unat_of_nat)
  ultimately have "unat (word_of_int k :: 32 word) = nat k" by simp
  then show ?thesis using assms by (simp add: unat_word_ariths)
qed

lemma sem_inv_step:
  assumes "sem_inv c s g p" "sem_step t e s = Some (r, s')" "c + p + released e < 2 ^ 31"
  shows "sem_inv c s' (g + granted t e s) (p + released e)"
proof (cases e)
  case (Acquire n flags timeout)
  then show ?thesis using assms(1,2)
    by (auto simp: granted_def released_def spin_def split: if_splits intro!: sem_inv_to_pc)
next
  case (Release k flags)
  have b: "unat (sm_count s) + nat k < 2 ^ 31" using assms(1,3) Release by (simp add: sem_inv_def released_def)
  show ?thesis
  proof (cases "k < 1")
    case True
    then show ?thesis using assms(1,2) Release by (auto simp: granted_def released_def split: if_splits)
  next
    case False
    let ?s = "s\<lparr>sm_count := sm_count s + word_of_int k\<rparr>"
    have "sem_inv c ?s g (p + nat k)" using assms(1) unat_add_int [OF b] False by (intro sem_inv_count) auto
    moreover have "s' = ?s \<or> s' = to_pc t (hope k 0) ?s" "sm_pc s t = Outside" using assms(2) Release False by (auto simp: Let_def split: if_splits)
    ultimately show ?thesis using Release by (auto simp: granted_def released_def hope_def intro!: sem_inv_to_pc)
  qed
next
  case Tick
  show ?thesis
  proof (cases "sm_pc s t")
    case (Reading n i)
    then show ?thesis using assms(1,2) Tick by (auto simp: granted_def spin_def split: if_splits intro!: sem_inv_to_pc)
  next
    case (Swapping n i a)
    show ?thesis
    proof (cases "sm_count s = a")
      case True
      have le: "n \<le> a" using assms(1) Swapping by (auto simp: sem_inv_def)
      have "unat (a - n) + unat n = unat a" using unat_sub [OF le] le by (simp add: word_le_nat_alt)
      then have "sem_inv c (to_pc t (Taken n) s\<lparr>sm_count := a - n\<rparr>) g p"
        using assms(1) True Swapping pending_to_pc [of s t "Taken n"] by (auto simp: sem_inv_def inside_def pending_def to_pc_def)
      moreover have "to_pc t (Taken n) s\<lparr>sm_count := a - n\<rparr> = to_pc t (Taken n) (s\<lparr>sm_count := a - n\<rparr>)" by (simp add: to_pc_def)
      ultimately show ?thesis using assms(2) Tick Swapping True by (simp add: granted_def)
    next
      case False
      then show ?thesis using assms(1,2) Tick Swapping by (auto simp: granted_def spin_def split: if_splits intro!: sem_inv_to_pc)
    qed
  next
    case (Taken n)
    have "sem_inv c (s\<lparr>sm_latest := t\<rparr>) g p" using assms(1) by (simp add: sem_inv_def inside_def pending_def)
    then have "sem_inv c (to_pc t Outside (s\<lparr>sm_latest := t\<rparr>)) (g + unat n) p" using Taken by (intro sem_inv_to_pc) auto
    then show ?thesis using assms(2) Tick Taken by (auto simp: granted_def)
  qed (use assms(1,2) Tick in \<open>auto simp: granted_def spin_def hope_def split: if_splits intro!: sem_inv_to_pc\<close>)
next
  case (Wakes ts)
  then obtain k where k: "sm_pc s t = Waking k" "wakes s k ts" "s' = to_pc t Outside (wake ts s)"
    using assms(2) by (auto split: sem_pc.splits if_splits)
  then have "t \<notin> set ts" by (auto simp: wakes_def asleep_def)
  then show ?thesis using k Wakes sem_inv_wake [OF assms(1)] by (auto simp: granted_def released_def wake_pc intro!: sem_inv_to_pc)
next
  case (Fails status)
  then show ?thesis using assms(1,2)
    by (auto simp: granted_def released_def split: sem_pc.splits if_splits intro!: sem_inv_to_pc)
qed

lemma sem_run_inv: "sem_run c team s g p \<Longrightarrow> sem_inv (unat c) s g p"
proof (induction rule: sem_run.induct)
  case start
  show ?case by (simp add: sem_inv_def inside_def pending_def create_sem_def)
next
  case (more s g p t e r s')
  then show ?case using sem_inv_step by blast
qed

section \<open>Sequences of steps\<close>

fun sem_exec :: "(thread \<times> sem_event) list \<Rightarrow> sem \<times> nat \<times> nat \<Rightarrow> (sem \<times> nat \<times> nat) option" where
  "sem_exec [] x = Some x"
| "sem_exec ((t, e) # es) (s, g, p) =
     (case sem_step t e s of None \<Rightarrow> None | Some (r, s') \<Rightarrow> sem_exec es (s', g + granted t e s, p + released e))"

lemma sem_exec_mono: "sem_exec es (s, g, p) = Some (s', g', p') \<Longrightarrow> p \<le> p'"
proof (induction es arbitrary: s g p)
  case (Cons x es)
  then show ?case by (cases x) (force split: option.splits dest: add_leD1)
qed simp

lemma sem_run_exec:
  "sem_run c team s g p \<Longrightarrow> sem_exec es (s, g, p) = Some (s', g', p') \<Longrightarrow> unat c + p' < 2 ^ 31 \<Longrightarrow> sem_run c team s' g' p'"
proof (induction es arbitrary: s g p)
  case (Cons x es)
  obtain t e where x: "x = (t, e)" by (cases x)
  then obtain r s1 where s1: "sem_step t e s = Some (r, s1)" "sem_exec es (s1, g + granted t e s, p + released e) = Some (s', g', p')"
    using Cons.prems(2) by (auto split: option.splits)
  have "p + released e \<le> p'" using sem_exec_mono [OF s1(2)] .
  then have "sem_run c team s1 (g + granted t e s) (p + released e)"
    using sem_run.more [OF Cons.prems(1) s1(1)] Cons.prems(3) by simp
  then show ?case using Cons.IH s1(2) Cons.prems(3) by blast
qed simp

lemma sem_exec_append: "sem_exec (es @ fs) x = (case sem_exec es x of None \<Rightarrow> None | Some y \<Rightarrow> sem_exec fs y)"
  by (induction es x rule: sem_exec.induct) (auto split: option.splits)

lemma exec_spin:
  "sm_count s < n \<Longrightarrow> i + k \<le> 100 \<Longrightarrow> sem_exec (replicate k (t, Tick)) (to_pc t (spin n i) s, g, p) = Some (to_pc t (spin n (i + k)) s, g, p)"
proof (induction k arbitrary: i)
  case (Suc k)
  have "to_pc t y (to_pc t x s) = to_pc t y s" for x y by (simp add: to_pc_def)
  then show ?case using Suc.IH [of "Suc i"] Suc.prems by (auto simp: granted_def spin_def)
qed simp

lemma exec_hope:
  "0 < sint (sm_count s) \<Longrightarrow> i + k \<le> 200 \<Longrightarrow> sem_exec (replicate k (t, Tick)) (to_pc t (hope u i) s, g, p) = Some (to_pc t (hope u (i + k)) s, g, p)"
proof (induction k arbitrary: i)
  case (Suc k)
  have "to_pc t y (to_pc t x s) = to_pc t y s" for x y by (simp add: to_pc_def)
  then show ?case using Suc.IH [of "Suc i"] Suc.prems by (auto simp: granted_def hope_def)
qed simp

lemma exec_sleep:
  assumes "sm_pc s t = Outside" "sm_count s < n"
  shows "sem_exec ([(t, Acquire n 0 0)] @ replicate 103 (t, Tick)) (s, g, p) = Some (to_pc t (Asleep n) s, g, p)"
proof -
  have r: "replicate 103 (t, Tick) = replicate 100 (t, Tick) @ [(t, Tick), (t, Tick), (t, Tick)]"
    by (simp add: numeral_eq_Suc replicate_append_same flip: replicate_app_Cons_same)
  have "to_pc t y (to_pc t x s) = to_pc t y s" for x y by (simp add: to_pc_def)
  then show ?thesis unfolding r using assms exec_spin [of s n 0 100 t g p]
    by (simp add: sem_exec_append granted_def released_def spin_def)
qed

section \<open>Properties\<close>

text \<open>C29. The semaphore of the kernel emulation is a counter, whatever the threads do at the same time: the units in the word,
  those that acquisitions have returned with and those that calls have just taken are together the initial units and the released
  ones. So no unit is given to two threads, and when no call is between its steps the word is what is left.\<close>

theorem semaphore_counts:
  assumes "sem_run c team s g p"
  shows "unat (sm_count s) + g + (\<Sum>t\<in>{t. sm_pc s t \<noteq> Outside}. owed (sm_pc s t)) = unat c + p \<and>
    finite {t. sm_pc s t \<noteq> Outside} \<and> g \<le> unat c + p \<and>
    ((\<forall>t. sm_pc s t = Outside) \<longrightarrow> unat (sm_count s) = unat c + p - g)"
  using sem_run_inv [OF assms] by (auto simp: sem_inv_def pending_def inside_def)

text \<open>A semaphore with one unit, which the thread 1 acquires while the thread 2 reads the word before.\<close>

lemma semaphore_counts_witness:
  "\<exists>s. sem_run 1 7 s 1 0 \<and> sm_count s = 0 \<and> sm_pc s 2 = Reading 1 1"
proof -
  let ?es = "[(2, Acquire 1 0 0), (2, Tick), (1, Acquire 1 0 0), (1, Tick), (1, Tick), (1, Tick), (2, Tick)]"
  obtain s where s: "sem_exec ?es (create_sem 1 7, 0, 0) = Some (s, 1, 0)" "sm_pc s 2 = Reading 1 1"
    by (simp add: create_sem_def to_pc_def spin_def granted_def released_def)
  have r: "sem_run 1 7 s 1 0" by (rule sem_run_exec [OF sem_run.start s(1)]) simp
  have "sm_count s = 0" using s(1) by (auto simp: create_sem_def to_pc_def spin_def granted_def released_def)
  then show ?thesis using r s(2) semaphore_counts [OF r] by blast
qed

text \<open>C30. The emulation loses wake-ups: \<open>release_sem_etc\<close> wakes nobody when the word was positive. Two threads sleep, a third
  releases two units one after the other, and the second release comes before the first thread that wakes up has taken its unit.
  Then one thread sleeps on though there is a unit, nobody else is in a call, and only a timeout or a signal ends its sleep.\<close>

theorem semaphore_loses_wakeup:
  "\<exists>s. sem_run 0 team s 1 2 \<and> sm_count s = 1 \<and> (\<forall>t. sm_pc s t = (if t = 3 then Asleep 1 else Outside)) \<and>
    (\<forall>e. e \<in> range Fails \<or> sem_step 3 e s = None)"
proof -
  let ?s = "create_sem 0 team"
  let ?s1 = "to_pc 3 (Asleep 1) (to_pc 2 (Asleep 1) ?s)"
  let ?s2 = "?s1\<lparr>sm_count := 1\<rparr>"
  let ?s3 = "(to_pc 1 Outside (to_pc 2 Outside ?s2))\<lparr>sm_latest := 2\<rparr>"
  have two: "sem_exec ([(2, Acquire 1 0 0)] @ replicate 103 (2, Tick)) (?s, 0, 0) = Some (to_pc 2 (Asleep 1) ?s, 0, 0)"
    by (rule exec_sleep) (simp_all add: create_sem_def)
  have three: "sem_exec ([(3, Acquire 1 0 0)] @ replicate 103 (3, Tick)) (to_pc 2 (Asleep 1) ?s, 0, 0) = Some (?s1, 0, 0)"
    by (rule exec_sleep) (simp_all add: create_sem_def)
  have put: "sem_exec [(1, Release 1 0)] (?s1, 0, 0) = Some (to_pc 1 (hope 1 0) ?s2, 0, 1)"
    by (simp add: to_pc_def create_sem_def granted_def released_def)
  have spun: "sem_exec (replicate 200 (1, Tick)) (to_pc 1 (hope 1 0) ?s2, 0, 1) = Some (to_pc 1 (hope 1 (0 + 200)) ?s2, 0, 1)"
    by (rule exec_hope) simp_all
  have "hope 1 (0 + 200) = Waking 1" by (simp add: hope_def)
  then have one: "sem_exec ([(1, Release 1 0)] @ replicate 200 (1, Tick)) (?s1, 0, 0) = Some (to_pc 1 (Waking 1) ?s2, 0, 1)"
    unfolding sem_exec_append put using spun by simp
  have rest: "sem_exec [(1, Wakes [2]), (1, Release 1 0), (2, Tick), (2, Tick), (2, Tick), (2, Tick)] (to_pc 1 (Waking 1) ?s2, 0, 1) = Some (?s3, 1, 2)"
    by (simp add: wakes_def asleep_def to_pc_def create_sem_def granted_def released_def spin_def fun_upd_twist)
  have "sem_run 0 team ?s3 1 2"
    using sem_run_exec [OF sem_run_exec [OF sem_run_exec [OF sem_run_exec [OF sem_run.start two] three] one] rest] by simp
  moreover have "e \<in> range Fails \<or> sem_step 3 e ?s3 = None" for e by (cases e) (simp_all add: to_pc_def)
  ultimately show ?thesis by (intro exI [of _ ?s3]) (simp add: to_pc_def create_sem_def)
qed

text \<open>
  Another way: the second loop of \<open>acquire_sem_etc\<close> reads the count for its condition and again for the value that
  \<open>FUTEX_WAIT\<close> shall expect, and a release comes between the two reads.
\<close>

lemma semaphore_double_read:
  "\<exists>s. sem_run 0 team s 0 1 \<and> sm_count s = 1 \<and> (\<forall>t. sm_pc s t = (if t = 2 then Asleep 1 else Outside))"
proof -
  let ?s = "create_sem 0 team"
  let ?s1 = "(to_pc 2 (Expecting 1) ?s)\<lparr>sm_count := 1\<rparr>"
  let ?s2 = "to_pc 1 Outside ?s1"
  let ?s3 = "to_pc 2 (Asleep 1) ?s2"
  have 1: "sem_exec ([(2, Acquire 1 0 0)] @ replicate 100 (2, Tick) @ [(2, Tick), (1, Release 1 0)]) (?s, 0, 0) = Some (to_pc 1 (hope 1 0) ?s1, 0, 1)"
    using exec_spin [of ?s 1 0 100 2 0 0]
    by (simp add: sem_exec_append create_sem_def to_pc_def spin_def granted_def released_def)
  have 2: "sem_exec (replicate 200 (1, Tick) @ [(1, Wakes [])]) (to_pc 1 (hope 1 0) ?s1, 0, 1) = Some (?s2, 0, 1)"
    using exec_hope [of ?s1 0 200 1 1 0 1]
    by (simp add: sem_exec_append hope_def granted_def released_def wakes_def asleep_def to_pc_def create_sem_def)
  have 3: "sem_exec [(2, Tick), (2, Tick)] (?s2, 0, 1) = Some (?s3, 0, 1)"
    by (simp add: to_pc_def create_sem_def granted_def fun_upd_twist)
  have "sem_run 0 team ?s3 0 1"
    using sem_run_exec [OF sem_run_exec [OF sem_run_exec [OF sem_run.start 1] 2] 3] by simp
  then show ?thesis by (intro exI [of _ ?s3]) (simp add: to_pc_def create_sem_def)
qed

end
