(* ===== verification/RwLock.thy ===== *)
theory RwLock
  imports Locker "HOL-Library.Word"
begin

text \<open>
  The lock for readers and writers of the kernel emulation (\<open>kits/kernel/rwlock.c\<close>), which guards the tables of threads and
  ports, as a state machine over any number of threads. The word is 1 when the lock is open, 0 when a writer holds it and one more
  than the readers otherwise. Every access to the word and every call of the kernel is one step.
\<close>

section \<open>State and steps\<close>

definition rwlock_OPEN :: "32 word" where "rwlock_OPEN = 1"
definition rwlock_WLOCKED :: "32 word" where "rwlock_WLOCKED = 0"

text \<open>\<open>R\<close>: in \<open>_rwlock_rlock\<close>, \<open>W\<close>: in \<open>_rwlock_wlock\<close>, \<open>U\<close>: in \<open>_rwlock_unlock\<close>, with the value of \<open>current\<close>.\<close>

datatype rw_pc =
    Elsewhere
  | R_read
  | R_swap "32 word"
  | R_wait "32 word"      \<comment> \<open>\<open>FUTEX_WAIT\<close>\<close>
  | R_asleep "32 word"
  | R_check "32 word"     \<comment> \<open>\<open>FUTEX_WAIT\<close> has failed\<close>
  | W_swap
  | W_wait "32 word"
  | W_asleep "32 word"
  | W_check "32 word"
  | W_again               \<comment> \<open>behind the inner loop\<close>
  | W_wake
  | U_read
  | U_swap "32 word"
  | U_wake

record rwlock =
  rw_word :: "32 word"
  rw_pc :: "thread \<Rightarrow> rw_pc"

definition RWLOCK :: rwlock where "RWLOCK = \<lparr>rw_word = 1, rw_pc = (\<lambda>_. Elsewhere)\<rparr>"

datatype rw_event =
    RLock | WLock | Unlock
  | Next                      \<comment> \<open>the next access of the thread itself\<close>
  | Wakes "thread option"     \<comment> \<open>\<open>FUTEX_WAKE\<close> for one thread, and the thread that it wakes\<close>
  | Interrupt                 \<comment> \<open>\<open>FUTEX_WAIT\<close> ends with an error\<close>

definition at_pc :: "thread \<Rightarrow> rw_pc \<Rightarrow> rwlock \<Rightarrow> rwlock" where
  "at_pc t x s = s\<lparr>rw_pc := (rw_pc s)(t := x)\<rparr>"

definition rw_asleep :: "rwlock \<Rightarrow> thread \<Rightarrow> bool" where
  "rw_asleep s t \<longleftrightarrow> (case rw_pc s t of R_asleep c \<Rightarrow> True | W_asleep c \<Rightarrow> True | _ \<Rightarrow> False)"

definition rw_wake :: "thread option \<Rightarrow> rwlock \<Rightarrow> rwlock option" where
  "rw_wake who s =
     (case who of None \<Rightarrow> if {t. rw_asleep s t} = {} then Some s else None
      | Some t \<Rightarrow> (case rw_pc s t of R_asleep c \<Rightarrow> Some (at_pc t R_read s) | W_asleep c \<Rightarrow> Some (at_pc t W_again s) | _ \<Rightarrow> None))"

text \<open>What a step does to the locks that its thread holds.\<close>

datatype grant = No_change | Read_lock | Write_lock | Unlocked

fun rw_step :: "thread \<Rightarrow> rw_event \<Rightarrow> rwlock \<Rightarrow> (grant \<times> rwlock) option" where
  "rw_step t RLock s = (if rw_pc s t = Elsewhere then Some (No_change, at_pc t R_read s) else None)"
| "rw_step t WLock s = (if rw_pc s t = Elsewhere then Some (No_change, at_pc t W_swap s) else None)"
| "rw_step t Unlock s = (if rw_pc s t = Elsewhere then Some (No_change, at_pc t U_read s) else None)"
| "rw_step t Next s =
     (case rw_pc s t of
        R_read \<Rightarrow> Some (No_change, at_pc t (if rw_word s = rwlock_WLOCKED then R_wait (rw_word s) else R_swap (rw_word s)) s)
      | R_swap c \<Rightarrow>
          if rw_word s = c then Some (Read_lock, at_pc t Elsewhere (s\<lparr>rw_word := c + 1\<rparr>)) else Some (No_change, at_pc t (R_wait c) s)
      | R_wait c \<Rightarrow> Some (No_change, at_pc t (if rw_word s = c then R_asleep c else R_check c) s)
      | R_check c \<Rightarrow> Some (No_change, at_pc t (if rwlock_OPEN \<le> rw_word s then R_read else R_wait c) s)
      | W_swap \<Rightarrow>
          if rw_word s = rwlock_OPEN then Some (Write_lock, at_pc t Elsewhere (s\<lparr>rw_word := rwlock_WLOCKED\<rparr>))
          else Some (No_change, at_pc t (W_wait (rw_word s)) s)
      | W_wait c \<Rightarrow> Some (No_change, at_pc t (if rw_word s = c then W_asleep c else W_check c) s)
      | W_check c \<Rightarrow> Some (No_change, at_pc t (if rw_word s = rwlock_OPEN then W_again else W_wait c) s)
      | W_again \<Rightarrow> Some (No_change, at_pc t (if rw_word s \<noteq> rwlock_OPEN then W_wake else W_swap) s)
      | U_read \<Rightarrow> Some (No_change, at_pc t (if rw_word s = rwlock_OPEN then Elsewhere else U_swap (rw_word s)) s)
      | U_swap c \<Rightarrow>
          if rw_word s = c
          then Some (Unlocked, at_pc t U_wake (s\<lparr>rw_word := if c = rwlock_WLOCKED then rwlock_OPEN else c - 1\<rparr>))
          else Some (No_change, at_pc t U_read s)
      | _ \<Rightarrow> None)"
| "rw_step t (Wakes who) s =
     (case rw_pc s t of
        W_wake \<Rightarrow> map_option (\<lambda>s. (No_change, at_pc t W_swap s)) (rw_wake who s)
      | U_wake \<Rightarrow> map_option (\<lambda>s. (No_change, at_pc t Elsewhere s)) (rw_wake who s)
      | _ \<Rightarrow> None)"
| "rw_step t Interrupt s =
     (case rw_pc s t of
        R_wait c \<Rightarrow> Some (No_change, at_pc t (R_check c) s)
      | R_asleep c \<Rightarrow> Some (No_change, at_pc t (R_check c) s)
      | W_wait c \<Rightarrow> Some (No_change, at_pc t (W_check c) s)
      | W_asleep c \<Rightarrow> Some (No_change, at_pc t (W_check c) s)
      | _ \<Rightarrow> None)"

section \<open>Runs\<close>

text \<open>
  The readers and the writers that a run has made. A thread asks for the lock when it has none and unlocks what it has; there
  are fewer than \<open>2 ^ 32 - 2\<close> readers.
\<close>

definition may :: "thread \<Rightarrow> rw_event \<Rightarrow> thread set \<Rightarrow> thread set \<Rightarrow> bool" where
  "may t e rs ws \<longleftrightarrow> (case e of RLock \<Rightarrow> t \<notin> rs \<union> ws | WLock \<Rightarrow> t \<notin> rs \<union> ws | Unlock \<Rightarrow> t \<in> rs \<union> ws | _ \<Rightarrow> True)"

definition readers_after :: "thread \<Rightarrow> grant \<Rightarrow> thread set \<Rightarrow> thread set" where
  "readers_after t r rs = (case r of Read_lock \<Rightarrow> insert t rs | Unlocked \<Rightarrow> rs - {t} | _ \<Rightarrow> rs)"

definition writers_after :: "thread \<Rightarrow> grant \<Rightarrow> thread set \<Rightarrow> thread set" where
  "writers_after t r ws = (case r of Write_lock \<Rightarrow> insert t ws | Unlocked \<Rightarrow> ws - {t} | _ \<Rightarrow> ws)"

inductive rw_run :: "rwlock \<Rightarrow> thread set \<Rightarrow> thread set \<Rightarrow> bool" where
  start: "rw_run RWLOCK {} {}"
| more: "\<lbrakk>rw_run s rs ws; rw_step t e s = Some (r, s'); may t e rs ws; card rs + 2 < 2 ^ 32\<rbrakk> \<Longrightarrow>
    rw_run s' (readers_after t r rs) (writers_after t r ws)"

text \<open>Where the threads with and without the lock can be.\<close>

definition rw_place :: "rw_pc \<Rightarrow> bool \<Rightarrow> bool" where
  "rw_place x holds \<longleftrightarrow> (case x of Elsewhere \<Rightarrow> True | U_read \<Rightarrow> holds | U_swap c \<Rightarrow> holds \<and> c \<noteq> rwlock_OPEN | U_wake \<Rightarrow> \<not> holds
     | R_swap c \<Rightarrow> \<not> holds \<and> c \<noteq> rwlock_WLOCKED | _ \<Rightarrow> \<not> holds)"

definition rw_inv :: "rwlock \<Rightarrow> thread set \<Rightarrow> thread set \<Rightarrow> bool" where
  "rw_inv s rs ws \<longleftrightarrow> finite rs \<and> (ws = {} \<and> unat (rw_word s) = card rs + 1 \<or> (\<exists>w. ws = {w}) \<and> rs = {} \<and> rw_word s = 0) \<and>
     (\<forall>t. rw_place (rw_pc s t) (t \<in> rs \<union> ws))"

lemma at_pc_simps [simp]: "rw_word (at_pc t x s) = rw_word s" "rw_pc (at_pc t x s) = (rw_pc s)(t := x)"
  by (simp_all add: at_pc_def)

lemma rw_inv_at_pc: "rw_inv s rs ws \<Longrightarrow> rw_place x (t \<in> rs \<union> ws) \<Longrightarrow> rw_inv (at_pc t x s) rs ws"
  by (simp add: rw_inv_def)

lemma rw_inv_wake:
  assumes "rw_inv s rs ws" "rw_wake who s = Some s'" "\<not> rw_asleep s t"
  shows "rw_inv s' rs ws \<and> rw_pc s' t = rw_pc s t"
proof -
  have "rw_place (rw_pc s u) (u \<in> rs \<union> ws)" for u using assms(1) by (simp add: rw_inv_def)
  from this [of "the who"] assms show ?thesis
    by (auto simp: rw_wake_def rw_place_def rw_asleep_def intro!: rw_inv_at_pc split: option.splits if_splits rw_pc.splits)
qed

lemma rw_inv_grant:
  assumes "rw_inv s rs ws" "rw_place x (t \<in> rs' \<union> ws')" "\<And>u. u \<noteq> t \<Longrightarrow> u \<in> rs' \<union> ws' \<longleftrightarrow> u \<in> rs \<union> ws" "finite rs'"
    "ws' = {} \<and> unat w = card rs' + 1 \<or> (\<exists>u. ws' = {u}) \<and> rs' = {} \<and> w = 0"
  shows "rw_inv (at_pc t x (s\<lparr>rw_word := w\<rparr>)) rs' ws'"
  using assms by (simp add: rw_inv_def)

lemma after_no_change [simp]: "readers_after t No_change rs = rs" "writers_after t No_change ws = ws"
  by (simp_all add: readers_after_def writers_after_def)

lemma rw_inv_step:
  assumes i: "rw_inv s rs ws" and st: "rw_step t e s = Some (r, s')" and m: "may t e rs ws" and b: "card rs + 2 < 2 ^ 32"
  shows "rw_inv s' (readers_after t r rs) (writers_after t r ws)"
proof -
  have p: "rw_place (rw_pc s t) (t \<in> rs \<union> ws)" and fin: "finite rs"
    and w: "ws = {} \<and> unat (rw_word s) = card rs + 1 \<or> (\<exists>w. ws = {w}) \<and> rs = {} \<and> rw_word s = 0"
    using i by (simp_all add: rw_inv_def)
  have keep: "r = No_change \<Longrightarrow> s' = at_pc t x s \<Longrightarrow> rw_place x (t \<in> rs \<union> ws) \<Longrightarrow> ?thesis" for x
    using rw_inv_at_pc [OF i] by (simp add: readers_after_def writers_after_def)
  show ?thesis
  proof (cases e)
    case (Wakes who)
    then obtain s1 x where s1: "rw_wake who s = Some s1" "s' = at_pc t x s1" "r = No_change" "rw_place x (t \<in> rs \<union> ws)" "\<not> rw_asleep s t"
      using st p by (auto simp: rw_place_def rw_asleep_def split: rw_pc.splits)
    then show ?thesis using rw_inv_wake [OF i s1(1,5)] rw_inv_at_pc by (simp add: readers_after_def writers_after_def)
  next
    case Next
    show ?thesis
    proof (cases "rw_pc s t")
      case (R_swap c)
      show ?thesis
      proof (cases "rw_word s = c")
        case True
        have t: "t \<notin> rs \<union> ws" "c \<noteq> 0" using p R_swap by (simp_all add: rw_place_def rwlock_WLOCKED_def)
        then have u: "ws = {}" "unat c = card rs + 1" using w True by auto
        then have "unat (c + 1) = card rs + 2" using b by (simp add: unat_word_ariths)
        then have "rw_inv (at_pc t Elsewhere (s\<lparr>rw_word := c + 1\<rparr>)) (insert t rs) ws"
          using t u fin by (intro rw_inv_grant [OF i]) (auto simp: rw_place_def)
        then show ?thesis using st Next R_swap True by (auto simp: readers_after_def writers_after_def)
      next
        case False
        then show ?thesis using st Next R_swap p by (intro keep [of "R_wait c"]) (auto simp: rw_place_def)
      qed
    next
      case W_swap
      show ?thesis
      proof (cases "rw_word s = rwlock_OPEN")
        case True
        then have "ws = {}" "rs = {}" using w fin by (auto simp: rwlock_OPEN_def)
        then have "rw_inv (at_pc t Elsewhere (s\<lparr>rw_word := rwlock_WLOCKED\<rparr>)) rs (insert t ws)"
          by (intro rw_inv_grant [OF i]) (auto simp: rw_place_def rwlock_WLOCKED_def)
        then show ?thesis using st Next W_swap True by (auto simp: readers_after_def writers_after_def)
      next
        case False
        then show ?thesis using st Next W_swap p by (intro keep [of "W_wait (rw_word s)"]) (auto simp: rw_place_def)
      qed
    next
      case (U_swap c)
      show ?thesis
      proof (cases "rw_word s = c")
        case True
        have t: "t \<in> rs \<union> ws" "c \<noteq> 1" using p U_swap by (simp_all add: rw_place_def rwlock_OPEN_def)
        have "rw_inv (at_pc t U_wake (s\<lparr>rw_word := if c = rwlock_WLOCKED then rwlock_OPEN else c - 1\<rparr>)) (rs - {t}) (ws - {t})"
        proof (rule rw_inv_grant [OF i])
          show "ws - {t} = {} \<and> unat (if c = rwlock_WLOCKED then rwlock_OPEN else c - 1) = card (rs - {t}) + 1 \<or>
              (\<exists>u. ws - {t} = {u}) \<and> rs - {t} = {} \<and> (if c = rwlock_WLOCKED then rwlock_OPEN else c - 1) = 0"
          proof (cases "c = 0")
            case True
            then have "ws = {t}" "rs = {}" using w t(1) \<open>rw_word s = c\<close> by auto
            then show ?thesis using True by (simp add: rwlock_WLOCKED_def rwlock_OPEN_def)
          next
            case False
            then have u: "ws = {}" "unat c = card rs + 1" "t \<in> rs" using w t(1) \<open>rw_word s = c\<close> by auto
            have "unat (c - 1) = unat c - 1" using False by (simp add: unat_minus_one)
            moreover have "0 < card rs" using u(3) fin by (auto simp: card_gt_0_iff)
            ultimately show ?thesis using False u fin by (simp add: rwlock_WLOCKED_def)
          qed
        qed (use fin in \<open>auto simp: rw_place_def\<close>)
        then show ?thesis using st Next U_swap True by (auto simp: readers_after_def writers_after_def)
      next
        case False
        then show ?thesis using st Next U_swap p by (intro keep [of U_read]) (auto simp: rw_place_def)
      qed
    next
      case U_read
      have "rw_word s \<noteq> rwlock_OPEN" using p U_read w fin by (auto simp: rw_place_def rwlock_OPEN_def)
      then show ?thesis using st Next U_read p by (intro keep [of "U_swap (rw_word s)"]) (auto simp: rw_place_def)
    qed (use st Next p in \<open>auto simp: rw_place_def split: if_splits intro!: rw_inv_at_pc [OF i]\<close>)
  qed (use st p m in \<open>auto simp: rw_place_def may_def split: rw_pc.splits if_splits intro!: rw_inv_at_pc [OF i]\<close>)
qed

lemma rw_run_inv: "rw_run s rs ws \<Longrightarrow> rw_inv s rs ws"
proof (induction rule: rw_run.induct)
  case start
  show ?case by (simp add: rw_inv_def RWLOCK_def rw_place_def)
next
  case (more s rs ws t e r s')
  then show ?case using rw_inv_step by blast
qed

section \<open>Sequences of steps\<close>

fun rw_exec :: "(thread \<times> rw_event) list \<Rightarrow> rwlock \<times> thread set \<times> thread set \<Rightarrow> (rwlock \<times> thread set \<times> thread set) option" where
  "rw_exec [] x = Some x"
| "rw_exec ((t, e) # es) (s, rs, ws) =
     (if may t e rs ws \<and> card rs + 2 < 2 ^ 32 then
        case rw_step t e s of None \<Rightarrow> None | Some (r, s') \<Rightarrow> rw_exec es (s', readers_after t r rs, writers_after t r ws)
      else None)"

lemma rw_run_exec: "rw_run s rs ws \<Longrightarrow> rw_exec es (s, rs, ws) = Some (s', rs', ws') \<Longrightarrow> rw_run s' rs' ws'"
proof (induction es arbitrary: s rs ws)
  case (Cons x es)
  obtain t e where x: "x = (t, e)" by (cases x)
  then obtain r s1 where s1: "rw_step t e s = Some (r, s1)" "may t e rs ws" "card rs + 2 < 2 ^ 32"
      "rw_exec es (s1, readers_after t r rs, writers_after t r ws) = Some (s', rs', ws')"
    using Cons.prems(2) by (auto split: if_splits option.splits)
  then show ?case using Cons.IH rw_run.more [OF Cons.prems(1) s1(1-3)] by blast
qed simp

section \<open>Properties\<close>

text \<open>C31. The lock keeps writers to themselves, whatever the threads do at the same time: there is at most one writer, and no
  reader beside it; and the word always says how the lock is held.\<close>

theorem rwlock_exclusion:
  assumes "rw_run s rs ws"
  shows "(ws = {} \<or> (\<exists>w. ws = {w}) \<and> rs = {}) \<and> finite rs \<and>
    unat (rw_word s) = (if ws = {} then card rs + 1 else 0)"
  using rw_run_inv [OF assms] by (auto simp: rw_inv_def)

text \<open>Two threads read, a third one waits to write.\<close>

lemma rwlock_exclusion_witness:
  "\<exists>s. rw_run s {1, 2} {} \<and> rw_word s = 3 \<and> rw_pc s 3 = W_wait 2"
proof -
  let ?es = "[(1, RLock), (1, Next), (1, Next), (3, WLock), (3, Next), (2, RLock), (2, Next), (2, Next)]"
  obtain s where s: "rw_exec ?es (RWLOCK, {}, {}) = Some (s, {1, 2}, {})" "rw_pc s 3 = W_wait 2"
    by (simp add: RWLOCK_def at_pc_def may_def readers_after_def writers_after_def rwlock_OPEN_def rwlock_WLOCKED_def insert_commute)
  have r: "rw_run s {1, 2} {}" by (rule rw_run_exec [OF rw_run.start s(1)])
  have "unat (rw_word s) = 3" using rwlock_exclusion [OF r] by simp
  then have "rw_word s = 3" by (simp add: word_unat_eq_iff)
  then show ?thesis using r s(2) by blast
qed

text \<open>C32. The lock loses wake-ups: a reader whose exchange failed because another reader came first waits for the value that it
  had read, though this is not the value of a locked word. When the other reader unlocks before that, the first one sleeps
  while the lock is open and nobody else is in a call.\<close>

theorem rwlock_loses_wakeup:
  "\<exists>s. rw_run s {} {} \<and> rw_word s = rwlock_OPEN \<and> (\<forall>t. rw_pc s t = (if t = 1 then R_asleep rwlock_OPEN else Elsewhere)) \<and>
    (\<forall>e. e = Interrupt \<or> rw_step 1 e s = None)"
proof -
  let ?es = "[(1, RLock), (1, Next), (2, RLock), (2, Next), (2, Next), (1, Next), (2, Unlock), (2, Next), (2, Next), (2, Wakes None), (1, Next)]"
  let ?s = "at_pc 1 (R_asleep rwlock_OPEN) RWLOCK"
  have "rw_exec ?es (RWLOCK, {}, {}) = Some (?s, {}, {})"
    by (simp add: RWLOCK_def at_pc_def may_def readers_after_def writers_after_def rwlock_OPEN_def rwlock_WLOCKED_def rw_wake_def
        rw_asleep_def fun_upd_twist fun_upd_idem)
  then have "rw_run ?s {} {}" by (rule rw_run_exec [OF rw_run.start])
  moreover have "e = Interrupt \<or> rw_step 1 e ?s = None" for e by (cases e) simp_all
  ultimately show ?thesis by (intro exI [of _ ?s]) (simp add: RWLOCK_def rwlock_OPEN_def)
qed

end
