(* ===== verification/Control.thy ===== *)
theory Control
  imports Messenger Pointer Shortcut FloatOps
begin

text \<open>
  Controls: \<open>BControl\<close>, \<open>BButton\<close>, \<open>BCheckBox\<close> and \<open>BRadioButton\<close> of \<open>kits/interface/Control.cpp\<close>, \<open>Button.cpp\<close>, \<open>CheckBox.cpp\<close> and
  \<open>RadioButton.cpp\<close>. A control is a view and an invoker; its part of \<open>BView\<close> is in the store of the views under the same address.
\<close>

section \<open>The objects\<close>

datatype control_class = Other_control | Button | Check_box | Radio_button | Slider

record control =
  c_class :: control_class
  c_invoker :: invoker
  c_label :: "byte list option"
  c_value :: int
  c_enabled :: bool
  c_tracking :: bool
  c_drawAsDefault :: bool   \<comment> \<open>of a button\<close>

text \<open>\<open>default_button\<close>: the member \<open>fDefaultButton\<close> of each window.\<close>

record control_state =
  controls :: "ptr \<Rightarrow> control option"
  default_button :: "ptr \<Rightarrow> ptr"
  pane :: gui

definition B_CONTROL_OFF :: int where "B_CONTROL_OFF = 0"
definition B_CONTROL_ON :: int where "B_CONTROL_ON = 1"
definition B_NAVIGABLE :: "32 word" where "B_NAVIGABLE = 0x02000000"
definition B_LOCK_WINDOW_FOCUS :: "32 word" where "B_LOCK_WINDOW_FOCUS = 1"
definition B_ENTER :: byte where "B_ENTER = 0x0a"
definition B_SPACE :: byte where "B_SPACE = 0x20"

definition upd_control :: "ptr \<Rightarrow> (control \<Rightarrow> control) \<Rightarrow> control_state \<Rightarrow> control_state outcome" where
  "upd_control p f s = bindR (alive (controls s p)) (\<lambda>c. Inr (s\<lparr>controls := (controls s)(p := Some (f c))\<rparr>))"

text \<open>What happens to views and windows while the controls stay as they are.\<close>

definition on_pane :: "(gui \<Rightarrow> gui outcome) \<Rightarrow> control_state \<Rightarrow> control_state outcome" where
  "on_pane f s = bindR (f (pane s)) (\<lambda>g. Inr (s\<lparr>pane := g\<rparr>))"

definition the_view :: "ptr \<Rightarrow> control_state \<Rightarrow> view outcome" where
  "the_view p s = alive (views (pane s) p)"

section \<open>\<open>BControl\<close>\<close>

text \<open>The constructor: the control, and the flags of its view. The control is the target of its messages.\<close>

definition Control_new ::
  "control_class \<Rightarrow> world \<Rightarrow> ptr \<Rightarrow> byte list option \<Rightarrow> ptr \<Rightarrow> 32 word \<Rightarrow> (control \<times> 32 word) outcome" where
  "Control_new cls w this label message flags =
     bindR (Invoker_for w message this null) (\<lambda>inv.
     Inr (\<lparr>c_class = cls, c_invoker = inv, c_label = label, c_value = B_CONTROL_OFF, c_enabled = True, c_tracking = False,
           c_drawAsDefault = False\<rparr>, flags OR B_NAVIGABLE))"

definition Control_WindowActivated :: "env \<Rightarrow> ptr \<Rightarrow> control_state \<Rightarrow> control_state outcome" where
  "Control_WindowActivated env this s =
     bindR (the_view this s) (\<lambda>v.
     bindR (alive (windows (pane s) (fWindow v))) (\<lambda>w.
     if CurrentFocus w = this then on_pane (Invalidate env this) s else Inr s))"

definition Control_AttachedToWindow :: "ptr \<Rightarrow> control_state \<Rightarrow> control_state outcome" where
  "Control_AttachedToWindow this s =
     bindR (the_view this s) (\<lambda>v.
     bindR (the_view (Parent v) s) (\<lambda>p.
     let color = ViewColor (fState p)
     in bindR (on_pane (\<lambda>g. bindR (upd this (\<lambda>v. v\<lparr>fState := SetLowColor color (SetViewColor color (fState v))\<rparr>) (views g))
                 (\<lambda>vs. Inr (g\<lparr>views := vs\<rparr>))) s) (\<lambda>s.
        bindR (alive (controls s this)) (\<lambda>c.
        if fst (Invoker_Target (c_invoker c)) = null then
          bindR (SetTarget (world (pane s)) (c_invoker c) (View_Window v) null) (\<lambda>(_, inv).
          upd_control this (\<lambda>c. c\<lparr>c_invoker := inv\<rparr>) s)
        else Inr s))))"

definition Control_SetLabel :: "env \<Rightarrow> ptr \<Rightarrow> byte list option \<Rightarrow> control_state \<Rightarrow> control_state outcome" where
  "Control_SetLabel env this label s =
     bindR (alive (controls s this)) (\<lambda>c.
     if c_label c = label then Inr s
     else bindR (upd_control this (\<lambda>c. c\<lparr>c_label := label\<rparr>) s) (on_pane (Invalidate env this)))"

definition Control_Label :: "control \<Rightarrow> byte list option" where "Control_Label this = c_label this"

definition Control_SetValue :: "env \<Rightarrow> ptr \<Rightarrow> int \<Rightarrow> control_state \<Rightarrow> control_state outcome" where
  "Control_SetValue env this v s =
     bindR (alive (controls s this)) (\<lambda>c.
     if v = c_value c then Inr s
     else bindR (upd_control this (\<lambda>c. c\<lparr>c_value := v\<rparr>) s) (on_pane (Invalidate env this)))"

definition SetValueNoUpdate :: "ptr \<Rightarrow> int \<Rightarrow> control_state \<Rightarrow> control_state outcome" where
  "SetValueNoUpdate this v s = upd_control this (\<lambda>c. c\<lparr>c_value := v\<rparr>) s"

definition Value :: "control \<Rightarrow> int" where "Value this = c_value this"

definition Control_SetEnabled :: "env \<Rightarrow> ptr \<Rightarrow> bool \<Rightarrow> control_state \<Rightarrow> control_state outcome" where
  "Control_SetEnabled env this on s =
     bindR (alive (controls s this)) (\<lambda>c.
     if c_enabled c = on then Inr s
     else bindR (upd_control this (\<lambda>c. c\<lparr>c_enabled := on\<rparr>) s) (\<lambda>s.
          bindR (the_view this s) (\<lambda>v.
          bindR (on_pane (SetFlags env this (if on then Flags v OR B_NAVIGABLE else Flags v AND NOT B_NAVIGABLE)) s)
            (on_pane (Invalidate env this)))))"

definition Control_IsEnabled :: "control \<Rightarrow> bool" where "Control_IsEnabled this = c_enabled this"
definition IsTracking :: "control \<Rightarrow> bool" where "IsTracking this = c_tracking this"

definition SetTracking :: "ptr \<Rightarrow> bool \<Rightarrow> control_state \<Rightarrow> control_state outcome" where
  "SetTracking this st s = upd_control this (\<lambda>c. c\<lparr>c_tracking := st\<rparr>) s"

text \<open>
  \<open>Invoke\<close> copies the message to its frame, adds to the copy when, by whom and with which value it was invoked, and passes the copy on to
  \<open>BInvoker::Invoke\<close>. \<open>frame\<close>: the address of the copy, which is gone afterwards.
\<close>

definition source_key :: "byte list" where "source_key = [0x73, 0x6F, 0x75, 0x72, 0x63, 0x65]"   \<comment> \<open>\<open>source\<close>\<close>
definition be_value_key :: "byte list" where
  "be_value_key = [0x62, 0x65, 0x3A, 0x76, 0x61, 0x6C, 0x75, 0x65]"   \<comment> \<open>\<open>be:value\<close>\<close>

definition invocation :: "(nat \<Rightarrow> bool) \<Rightarrow> int \<Rightarrow> ptr \<Rightarrow> int \<Rightarrow> message \<Rightarrow> message outcome" where
  "invocation alloc now this v msg =
     bindR (Message_copy alloc msg) (\<lambda>clone.
     bindR (AddT B_INT64_TYPE alloc clone (Some (c_str when_key)) (le 8 (unat (word_of_int now :: 64 word)))) (\<lambda>(_, clone).
     bindR (AddPointer alloc clone (Some (c_str source_key)) this) (\<lambda>(_, clone).
     bindR (AddInt32 alloc clone (Some (c_str be_value_key)) (word_of_int v)) (\<lambda>(_, clone).
     Inr clone))))"

definition Control_Invoke :: "delivery \<Rightarrow> int \<Rightarrow> ptr \<Rightarrow> ptr \<Rightarrow> ptr \<Rightarrow> control_state \<Rightarrow> (status \<times> control_state) outcome" where
  "Control_Invoke d now frame this msg s =
     bindR (alive (controls s this)) (\<lambda>c.
     let msg = if msg = null then Invoker_Message (c_invoker c) else msg; w = world (pane s)
     in if msg = null then Inr (B_BAD_VALUE, s)
        else bindR (alive (messages w msg)) (\<lambda>m.
             bindR (invocation (d_alloc d) now this (c_value c) m) (\<lambda>clone.
             bindR (Invoke d (w\<lparr>messages := (messages w)(frame := Some clone)\<rparr>) (c_invoker c) frame) (\<lambda>(st, w).
             Inr (st, s\<lparr>pane := (pane s)\<lparr>world := w\<lparr>messages := (messages w)(frame := None)\<rparr>\<rparr>\<rparr>)))))"

text \<open>\<open>BInvoker::InvokeNotify\<close> of a control calls this \<open>Invoke\<close>.\<close>

definition Control_InvokeNotify ::
  "delivery \<Rightarrow> int \<Rightarrow> ptr \<Rightarrow> ptr \<Rightarrow> ptr \<Rightarrow> 32 word \<Rightarrow> control_state \<Rightarrow> (status \<times> control_state) outcome" where
  "Control_InvokeNotify d now frame this msg kind s =
     bindR (alive (controls s this)) (\<lambda>c.
     if iNotifyKind (c_invoker c) \<noteq> 0 then Inr (B_WOULD_BLOCK, s)
     else
       bindR (upd_control this (\<lambda>c. c\<lparr>c_invoker := BeginInvokeNotify (c_invoker c) kind\<rparr>) s) (\<lambda>s.
       bindR (if msg \<noteq> null then Control_Invoke d now frame this msg s else Inr (B_BAD_VALUE, s)) (\<lambda>(err, s).
       bindR (if IsValid (iMessenger (c_invoker c)) then
                (let h = fst (Target (iMessenger (c_invoker c)))
                 in if h \<noteq> null then
                      bindR (alive (handlers (world (pane s)) h)) (\<lambda>_. if IsWatched then bindR SendNotices (\<lambda>_. Inr s) else Inr s)
                    else Inr s)
              else Inr s) (\<lambda>s.
       bindR (upd_control this (\<lambda>c. c\<lparr>c_invoker := EndInvokeNotify (c_invoker c)\<rparr>) s) (\<lambda>s. Inr (err, s))))))"

text \<open>\<open>bytes && numBytes > 0 && (bytes[0] == B_ENTER || bytes[0] == B_SPACE)\<close>\<close>

definition presses :: "mem option \<Rightarrow> int \<Rightarrow> bool outcome" where
  "presses str numBytes =
     (case str of None \<Rightarrow> Inr False
      | Some m \<Rightarrow> if numBytes \<le> 0 then Inr False
          else bindR (read_ptr str 1) (\<lambda>b. Inr (hd b = B_ENTER \<or> hd b = B_SPACE)))"

text \<open>What a button, a check box and a radio button do when the mouse goes down over them, beside the value.\<close>

definition start_tracking :: "ptr \<Rightarrow> control_state \<Rightarrow> control_state outcome" where
  "start_tracking this s =
     bindR (SetTracking this True s) (on_pane (\<lambda>g.
       bindR (SetMouseEventMask this B_POINTER_EVENTS B_LOCK_WINDOW_FOCUS g) (\<lambda>(_, g). Inr g)))"

section \<open>\<open>BButton\<close>\<close>

text \<open>The button of a window that \<open>Enter\<close> presses: \<open>BWindow::SetDefaultButton\<close>, \<open>BButton::IsDefault\<close> and \<open>BButton::MakeDefault\<close>.\<close>

definition IsDefault :: "ptr \<Rightarrow> control_state \<Rightarrow> bool outcome" where
  "IsDefault this s =
     bindR (the_view this s) (\<lambda>v.
     if fWindow v \<noteq> null then Inr (default_button s (fWindow v) = this)
     else bindR (alive (controls s this)) (\<lambda>c. Inr (c_drawAsDefault c)))"

text \<open>\<open>MakeDefault\<close> of a button that is now what the window says; the call for a button that is not yet goes to the window.\<close>

definition say_default :: "ptr \<Rightarrow> bool \<Rightarrow> control_state \<Rightarrow> control_state outcome" where
  "say_default this st s = upd_control this (\<lambda>c. c\<lparr>c_drawAsDefault := st\<rparr>) s"

definition put_default :: "ptr \<Rightarrow> ptr \<Rightarrow> control_state \<Rightarrow> control_state" where
  "put_default win b s = s\<lparr>default_button := (default_button s)(win := b)\<rparr>"

partial_function (option) MakeDefault :: "env \<Rightarrow> ptr \<Rightarrow> bool \<Rightarrow> control_state \<Rightarrow> control_state partial" where
  "MakeDefault env this st s =
     bindO (Some (say_default this st s)) (\<lambda>s.
     bindO (Some (IsDefault this s)) (\<lambda>is.
     if is = st then Some (Inr s)
     else bindO (Some (the_view this s)) (\<lambda>v.
          let win = fWindow v; button = (if st then this else null); current_default = default_button s win
          in if win = null then Some (Inl Undefined)
             else if current_default = button then Some (Inr s)
             else bindO (if current_default \<noteq> null then
                           bindO (MakeDefault env current_default False (put_default win null s)) (\<lambda>s.
                           Some (on_pane (Invalidate env current_default) s))
                         else Some (Inr s)) (\<lambda>s.
                  let s = put_default win button s
                  in if button \<noteq> null then
                       bindO (MakeDefault env button True s) (\<lambda>s. Some (on_pane (Invalidate env button) s))
                     else Some (Inr s)))))"

definition SetDefaultButton :: "env \<Rightarrow> ptr \<Rightarrow> ptr \<Rightarrow> control_state \<Rightarrow> control_state partial" where
  "SetDefaultButton env win button s =
     (let current_default = default_button s win
      in if current_default = button then Some (Inr s)
         else bindO (if current_default \<noteq> null then
                       bindO (MakeDefault env current_default False (put_default win null s)) (\<lambda>s.
                       Some (on_pane (Invalidate env current_default) s))
                     else Some (Inr s)) (\<lambda>s.
              let s = put_default win button s
              in if button \<noteq> null then
                   bindO (MakeDefault env button True s) (\<lambda>s. Some (on_pane (Invalidate env button) s))
                 else Some (Inr s)))"

definition DefaultButton :: "ptr \<Rightarrow> control_state \<Rightarrow> ptr" where "DefaultButton win s = default_button s win"

text \<open>\<open>BWindow::UpdateIfNeeded\<close>: the updates that wait are delivered, and the loop of the window shall repaint.\<close>

partial_function (option) deliver_updates :: "delivery \<Rightarrow> ptr \<Rightarrow> world \<Rightarrow> world partial" where
  "deliver_updates d win w =
     bindO (Some (alive (loopers w win))) (\<lambda>l.
     bindO (Some (Queue_FindMessage_what (messages w) (fQueue l) UPDATE 0)) (\<lambda>m.
     if m = null then Some (Inr w)
     else bindO (Some (alive (messages w m))) (\<lambda>msg.
          let h = get_handler msg; w = put_looper win (l\<lparr>fQueue := Queue_RemoveMessage (fQueue l) m\<rparr>) w
          in bindO (Some (d_received d (if h \<noteq> null then h else win) m w)) (\<lambda>w.
             bindO (Some (delete_message m w)) (\<lambda>w. deliver_updates d win w)))))"

definition UpdateIfNeeded :: "delivery \<Rightarrow> ptr \<Rightarrow> world \<Rightarrow> world partial" where
  "UpdateIfNeeded d win w =
     bindO (deliver_updates d win w) (\<lambda>w.
     Some (bindR (PostMessage_command_to (d_self d) (d_has_data d) (d_sent d) w win (d_new d) UPDATE_IF_NEEDED win null) (\<lambda>(_, w). Inr w)))"

definition Button_Invoke :: "env \<Rightarrow> delivery \<Rightarrow> ptr \<Rightarrow> ptr \<Rightarrow> ptr \<Rightarrow> control_state \<Rightarrow> (status \<times> control_state) outcome" where
  "Button_Invoke env d frame this msg s =
     bindR (Control_Invoke d (e_now env) frame this msg s) (\<lambda>(err, s).
     bindR (Control_SetValue env this B_CONTROL_OFF s) (\<lambda>s. Inr (err, s)))"

definition Button_MouseDown :: "env \<Rightarrow> ptr \<Rightarrow> control_state \<Rightarrow> control_state outcome" where
  "Button_MouseDown env this s =
     bindR (alive (controls s this)) (\<lambda>c.
     if \<not> Control_IsEnabled c then Inr s
     else bindR (Control_SetValue env this B_CONTROL_ON s) (start_tracking this))"

definition Button_MouseUp :: "env \<Rightarrow> delivery \<Rightarrow> ptr \<Rightarrow> ptr \<Rightarrow> control_state \<Rightarrow> control_state outcome" where
  "Button_MouseUp env d frame this s =
     bindR (alive (controls s this)) (\<lambda>c.
     if \<not> IsTracking c then Inr s
     else bindR (SetTracking this False s) (\<lambda>s.
          if Value c \<noteq> B_CONTROL_OFF then
            bindR (Control_SetValue env this B_CONTROL_OFF s) (\<lambda>s.
            if Control_IsEnabled c then bindR (Button_Invoke env d frame this null s) (\<lambda>(_, s). Inr s) else Inr s)
          else Inr s))"

definition Button_MouseMoved :: "env \<Rightarrow> ptr \<Rightarrow> 32 word \<Rightarrow> control_state \<Rightarrow> control_state outcome" where
  "Button_MouseMoved env this transit s =
     bindR (alive (controls s this)) (\<lambda>c.
     if \<not> IsTracking c then Inr s
     else bindR (if transit = B_EXITED_VIEW then Control_SetValue env this B_CONTROL_OFF s else Inr s) (\<lambda>s.
          if transit = B_ENTERED_VIEW then Control_SetValue env this B_CONTROL_ON s else Inr s))"

definition Button_KeyDown :: "env \<Rightarrow> delivery \<Rightarrow> ptr \<Rightarrow> ptr \<Rightarrow> mem option \<Rightarrow> int \<Rightarrow> control_state \<Rightarrow> control_state partial" where
  "Button_KeyDown env d frame this str numBytes s =
     bindO (Some (presses str numBytes)) (\<lambda>press.
     if press then
       bindO (Some (Control_SetValue env this B_CONTROL_ON s)) (\<lambda>s.
       bindO (Some (the_view this s)) (\<lambda>v.
       if View_Window v = null then Some (Inl Undefined)
       else bindO (UpdateIfNeeded d (View_Window v) (world (pane s))) (\<lambda>w.
            bindO (Some (Button_Invoke env d frame this null (s\<lparr>pane := (pane s)\<lparr>world := w\<rparr>\<rparr>))) (\<lambda>(_, s). Some (Inr s)))))
     else Some (Inr s))"

text \<open>The size of the text in the font, with ascent, descent and leading, is an argument.\<close>

definition Button_GetPreferredSize :: "flt \<Rightarrow> flt \<times> flt \<times> flt \<Rightarrow> flt \<times> flt" where
  "Button_GetPreferredSize label_width fh =
     (let (ascent, descent, leading) = fh in (label_width, fadd (fceil (fadd descent ascent)) (fceil descent)))"

definition Button_AttachedToWindow :: "env \<Rightarrow> flt \<times> flt \<times> flt \<Rightarrow> ptr \<Rightarrow> control_state \<Rightarrow> control_state partial" where
  "Button_AttachedToWindow env fh this s =
     bindO (Some (Control_AttachedToWindow this s)) (\<lambda>s.
     bindO (Some (alive (controls s this))) (\<lambda>c.
     bindO (Some (the_view this s)) (\<lambda>v.
     bindO (if c_drawAsDefault c then SetDefaultButton env (View_Window v) this s else Some (Inr s)) (\<lambda>s.
     bindO (Some (the_view this s)) (\<lambda>v.
     Some (on_pane (ResizeTo env this (Width (Bounds v))
             (fmax (snd (Button_GetPreferredSize (Fin 0) fh)) (Height (Bounds v)))) s))))))"

section \<open>\<open>BCheckBox\<close>\<close>

definition CHECKBOX_BOX_SIZE :: flt where "CHECKBOX_BOX_SIZE = Fin 12"
definition CHECKBOX_TEXT_PADDING :: flt where "CHECKBOX_TEXT_PADDING = Fin 5"

definition toggled :: "control \<Rightarrow> int" where
  "toggled c = (if Value c = B_CONTROL_ON then B_CONTROL_OFF else B_CONTROL_ON)"

definition CheckBox_MouseDown :: "ptr \<Rightarrow> control_state \<Rightarrow> control_state outcome" where
  "CheckBox_MouseDown this s =
     bindR (alive (controls s this)) (\<lambda>c. if \<not> Control_IsEnabled c then Inr s else start_tracking this s)"

definition CheckBox_MouseUp :: "env \<Rightarrow> delivery \<Rightarrow> ptr \<Rightarrow> ptr \<Rightarrow> point \<Rightarrow> control_state \<Rightarrow> control_state outcome" where
  "CheckBox_MouseUp env d frame this pt s =
     bindR (alive (controls s this)) (\<lambda>c.
     if \<not> IsTracking c then Inr s
     else bindR (SetTracking this False s) (\<lambda>s.
          bindR (the_view this s) (\<lambda>v.
          if \<not> Control_IsEnabled c \<or> \<not> Contains (Bounds v) pt then Inr s
          else bindR (Control_SetValue env this (toggled c) s) (\<lambda>s.
               bindR (Control_Invoke d (e_now env) frame this null s) (\<lambda>(_, s). Inr s)))))"

definition CheckBox_KeyDown :: "env \<Rightarrow> delivery \<Rightarrow> ptr \<Rightarrow> ptr \<Rightarrow> mem option \<Rightarrow> int \<Rightarrow> control_state \<Rightarrow> control_state outcome" where
  "CheckBox_KeyDown env d frame this str numBytes s =
     bindR (presses str numBytes) (\<lambda>press.
     if press then
       bindR (alive (controls s this)) (\<lambda>c.
       bindR (Control_SetValue env this (toggled c) s) (\<lambda>s.
       bindR (Control_Invoke d (e_now env) frame this null s) (\<lambda>(_, s). Inr s)))
     else Inr s)"

definition CheckBox_GetPreferredSize :: "flt \<Rightarrow> flt \<times> flt \<times> flt \<Rightarrow> flt \<times> flt" where
  "CheckBox_GetPreferredSize label_width fh =
     (fadd (fadd CHECKBOX_BOX_SIZE CHECKBOX_TEXT_PADDING) label_width, fmax (fst fh) CHECKBOX_BOX_SIZE)"

section \<open>\<open>BRadioButton\<close>\<close>

text \<open>
  \<open>SetValue\<close> turns the radio buttons beside this one off. Their \<open>SetValue\<close> does no more than that of \<open>BControl\<close>, since it leaves the
  value 0.
\<close>

partial_function (option) turn_off_siblings :: "env \<Rightarrow> ptr \<Rightarrow> ptr \<Rightarrow> control_state \<Rightarrow> control_state partial" where
  "turn_off_siblings env this sibling s =
     (if sibling = null then Some (Inr s)
      else bindO (if map_option c_class (controls s sibling) = Some Radio_button \<and> sibling \<noteq> this
                  then Some (Control_SetValue env sibling B_CONTROL_OFF s) else Some (Inr s)) (\<lambda>s.
           bindO (Some (the_view sibling s)) (\<lambda>v. turn_off_siblings env this (NextSibling v) s)))"

definition Radio_SetValue :: "env \<Rightarrow> ptr \<Rightarrow> int \<Rightarrow> control_state \<Rightarrow> control_state partial" where
  "Radio_SetValue env this v s =
     bindO (Some (Control_SetValue env this v s)) (\<lambda>s.
     bindO (Some (the_view this s)) (\<lambda>x.
     bindO (Some (alive (controls s this))) (\<lambda>c.
     if Value c \<noteq> B_CONTROL_OFF \<and> Parent x \<noteq> null then
       bindO (ChildAt (views (pane s)) (Parent x) 0) (\<lambda>sibling. turn_off_siblings env this sibling s)
     else Some (Inr s))))"

definition Radio_MouseUp :: "env \<Rightarrow> delivery \<Rightarrow> ptr \<Rightarrow> ptr \<Rightarrow> point \<Rightarrow> control_state \<Rightarrow> control_state partial" where
  "Radio_MouseUp env d frame this pt s =
     bindO (Some (alive (controls s this))) (\<lambda>c.
     if \<not> IsTracking c then Some (Inr s)
     else bindO (Some (SetTracking this False s)) (\<lambda>s.
          bindO (Some (the_view this s)) (\<lambda>v.
          if \<not> Control_IsEnabled c \<or> \<not> Contains (Bounds v) pt then Some (Inr s)
          else bindO (Radio_SetValue env this B_CONTROL_ON s) (\<lambda>s.
               bindO (Some (Control_Invoke d (e_now env) frame this null s)) (\<lambda>(_, s). Some (Inr s))))))"

definition Radio_KeyDown :: "env \<Rightarrow> delivery \<Rightarrow> ptr \<Rightarrow> ptr \<Rightarrow> mem option \<Rightarrow> int \<Rightarrow> control_state \<Rightarrow> control_state partial" where
  "Radio_KeyDown env d frame this str numBytes s =
     bindO (Some (presses str numBytes)) (\<lambda>press.
     if press then
       bindO (Radio_SetValue env this B_CONTROL_ON s) (\<lambda>s.
       bindO (Some (Control_Invoke d (e_now env) frame this null s)) (\<lambda>(_, s). Some (Inr s)))
     else Some (Inr s))"

definition Radio_AttachedToWindow :: "env \<Rightarrow> flt \<times> flt \<times> flt \<Rightarrow> ptr \<Rightarrow> control_state \<Rightarrow> control_state outcome" where
  "Radio_AttachedToWindow env fh this s =
     bindR (Control_AttachedToWindow this s) (\<lambda>s.
     bindR (the_view this s) (\<lambda>v.
     on_pane (ResizeTo env this (Width (Bounds v)) (snd (CheckBox_GetPreferredSize (Fin 0) fh))) s))"

section \<open>What the operations keep\<close>

lemma Invalidate_keeps: "Invalidate env v g = Inr g' \<Longrightarrow> views g' = views g \<and> windows g' = windows g \<and> hooks g' = hooks g"
  by (auto simp: Invalidate_def Invalidate_rect_def be_simps split: if_splits)

lemma on_pane_Inr [be_simps]: "on_pane f s = Inr s' \<longleftrightarrow> (\<exists>g. f (pane s) = Inr g \<and> s' = s\<lparr>pane := g\<rparr>)"
  by (auto simp: on_pane_def be_simps)

lemma upd_control_Inr [be_simps]:
  "upd_control p f s = Inr s' \<longleftrightarrow> (\<exists>c. controls s p = Some c \<and> s' = s\<lparr>controls := (controls s)(p := Some (f c))\<rparr>)"
  by (cases "controls s p") (auto simp: upd_control_def)

lemma the_view_Inr [be_simps]: "the_view p s = Inr v \<longleftrightarrow> views (pane s) p = Some v"
  by (cases "views (pane s) p") (auto simp: the_view_def)

lemma alive_Inr [be_simps]: "alive x = Inr y \<longleftrightarrow> x = Some y"
  by (cases x) auto

text \<open>\<open>value_of s p\<close>: the value of a control.\<close>

definition value_of :: "control_state \<Rightarrow> ptr \<Rightarrow> int option" where "value_of s p = map_option c_value (controls s p)"

lemma Control_SetValue_Inr:
  assumes "Control_SetValue env p v s = Inr s'"
  shows "(\<exists>c. controls s p = Some c \<and> controls s' = (controls s)(p := Some (c\<lparr>c_value := v\<rparr>))) \<and> views (pane s') = views (pane s) \<and>
    windows (pane s') = windows (pane s) \<and> default_button s' = default_button s"
proof -
  obtain c where c: "controls s p = Some c" using assms by (cases "controls s p") (auto simp: Control_SetValue_def)
  show ?thesis
  proof (cases "v = c_value c")
    case True
    then have "s' = s" "c\<lparr>c_value := v\<rparr> = c" using assms c by (auto simp: Control_SetValue_def)
    then show ?thesis using c by auto
  next
    case False
    then show ?thesis using assms c by (auto simp: Control_SetValue_def be_simps dest!: Invalidate_keeps)
  qed
qed

lemma Control_Invoke_Inr:
  "Control_Invoke d now frame p msg s = Inr (st, s') \<Longrightarrow>
    controls s' = controls s \<and> views (pane s') = views (pane s) \<and> windows (pane s') = windows (pane s) \<and> default_button s' = default_button s"
  by (auto simp: Control_Invoke_def be_simps Let_def split: if_splits prod.splits)

text \<open>The tree that the links of the views make up.\<close>

definition tree_links :: "gui \<Rightarrow> ptr \<Rightarrow> ((ptr \<times> ptr \<times> ptr) \<times> ptr) option" where
  "tree_links g p = map_option (\<lambda>x. (links x, fFirstChild x)) (views g p)"

lemma tree_links_family: "tree_links g' = tree_links g \<Longrightarrow> family (views g) kids \<Longrightarrow> family (views g') kids"
  by (rule family_cong) (simp_all add: tree_links_def fun_eq_iff)

lemma tree_links_views: "views g' = views g \<Longrightarrow> tree_links g' = tree_links g"
  by (simp add: tree_links_def fun_eq_iff)

lemma tree_links_put_view: "views g v = Some x \<Longrightarrow> links y = links x \<Longrightarrow> fFirstChild y = fFirstChild x \<Longrightarrow> tree_links (put_view v y g) = tree_links g"
  by (simp add: tree_links_def put_view_def fun_eq_iff)

lemma add_events_keeps: "add_events w m g = Inr g' \<Longrightarrow> views g' = views g"
  by (auto simp: add_events_def put_window_def be_simps)

lemma try_pulse_keeps: "try_pulse env w g = Inr g' \<Longrightarrow> views g' = views g"
  by (auto simp: try_pulse_def put_window_def be_simps Let_def split: if_splits)

lemma SetMouseEventMask_keeps:
  assumes "SetMouseEventMask v m options g = Inr (st, g')"
  shows "tree_links g' = tree_links g"
proof -
  obtain x where x: "views g v = Some x" using assms by (cases "views g v") (auto simp: SetMouseEventMask_def)
  let ?g = "put_view v (x\<lparr>fMouseEventMask := m, fMouseEventOptions := options\<rparr>) g"
  have "g' = g \<or> (\<exists>w. add_events w m ?g = Inr g')"
    using assms x by (auto simp: SetMouseEventMask_def bindR_Inr_iff split: if_splits)
  then have "views g' = views g \<or> views g' = views ?g" using add_events_keeps by blast
  moreover have "tree_links ?g = tree_links g" by (intro tree_links_put_view [OF x]) (simp_all add: links_def)
  ultimately show ?thesis using tree_links_views by metis
qed

lemma SetFlags_keeps:
  assumes "SetFlags env v flags g = Inr g'"
  shows "tree_links g' = tree_links g"
proof -
  obtain x where x: "views g v = Some x" using assms by (cases "views g v") (auto simp: SetFlags_def)
  let ?g = "put_view v (set_flags x flags) g"
  have "g' = g \<or> g' = ?g \<or> (\<exists>w h. add_events w B_PULSE_NEEDED ?g = Inr h \<and> try_pulse env w h = Inr g')"
    using assms x by (auto simp: SetFlags_def bindR_Inr_iff Let_def split: if_splits)
  then have "views g' = views g \<or> views g' = views ?g" using add_events_keeps try_pulse_keeps by metis
  moreover have "tree_links ?g = tree_links g" by (intro tree_links_put_view [OF x]) (simp_all add: links_def set_flags_def)
  ultimately show ?thesis using tree_links_views by metis
qed

section \<open>Radio buttons\<close>

text \<open>The radio buttons among the children of a view, and those that are on.\<close>

definition radios :: "(ptr \<Rightarrow> ptr list) \<Rightarrow> ptr \<Rightarrow> control_state \<Rightarrow> ptr set" where
  "radios kids par s = {p \<in> set (kids par). map_option c_class (controls s p) = Some Radio_button}"

definition turned_off :: "ptr set \<Rightarrow> control_state \<Rightarrow> ptr \<Rightarrow> control option" where
  "turned_off ps s p = (if p \<in> ps then map_option (\<lambda>c. c\<lparr>c_value := B_CONTROL_OFF\<rparr>) (controls s p) else controls s p)"

text \<open>The loop over the children \<open>cs\<close> that are left ends, and turns the radio buttons among them off.\<close>

lemma turn_off_siblings_ends:
  assumes "seg (views (pane s)) par prev cs null f" "distinct cs"
  shows "\<exists>r. turn_off_siblings env p f s = Some r \<and>
    (\<forall>s'. r = Inr s' \<longrightarrow> views (pane s') = views (pane s) \<and> windows (pane s') = windows (pane s) \<and> default_button s' = default_button s \<and>
       controls s' = turned_off ({c \<in> set cs. map_option c_class (controls s c) = Some Radio_button} - {p}) s)"
  using assms
proof (induction cs arbitrary: s prev f)
  case Nil
  then show ?case by (simp add: turn_off_siblings.simps turned_off_def fun_eq_iff)
next
  case (Cons c cs)
  define q where "q \<longleftrightarrow> map_option c_class (controls s c) = Some Radio_button \<and> c \<noteq> p"
  let ?m = "if q then Control_SetValue env c B_CONTROL_OFF s else Inr s"
  obtain v where v: "f = c" "c \<noteq> null" "views (pane s) c = Some v" "seg (views (pane s)) par c cs null (fNextSibling v)"
    using Cons.prems(1) by (auto split: option.splits)
  have step: "turn_off_siblings env p f s = bindO (Some ?m) (\<lambda>s. bindO (Some (the_view c s)) (\<lambda>v. turn_off_siblings env p (NextSibling v) s))"
    by (subst turn_off_siblings.simps) (simp only: v(1,2) if_False if_distrib [of Some] q_def)
  show ?case
  proof (cases ?m)
    case (Inl e)
    then show ?thesis using step by simp
  next
    case (Inr s1)
    have s1: "views (pane s1) = views (pane s)" "windows (pane s1) = windows (pane s)" "default_button s1 = default_button s"
      "controls s1 = turned_off (if q then {c} else {}) s"
    proof -
      show "views (pane s1) = views (pane s)" "windows (pane s1) = windows (pane s)" "default_button s1 = default_button s"
        using Inr Control_SetValue_Inr [of env c B_CONTROL_OFF s s1] by (auto split: if_splits)
      show "controls s1 = turned_off (if q then {c} else {}) s"
        using Inr Control_SetValue_Inr [of env c B_CONTROL_OFF s s1] by (cases q) (auto simp: turned_off_def fun_eq_iff)
    qed
    have t: "turned_off ({x \<in> set cs. map_option c_class (controls s1 x) = Some Radio_button} - {p}) s1 =
        turned_off ({x \<in> set (c # cs). map_option c_class (controls s x) = Some Radio_button} - {p}) s"
      using Cons.prems(2) unfolding turned_off_def s1(4) by (auto simp: q_def fun_eq_iff option.map_comp comp_def)
    have "seg (views (pane s1)) par c cs null (fNextSibling v)" "distinct cs" using v(4) s1(1) Cons.prems(2) by simp_all
    note ends = Cons.IH [OF this, unfolded t s1(1-3)]
    have "turn_off_siblings env p f s = turn_off_siblings env p (fNextSibling v) s1"
      unfolding step Inr using v(3) s1(1) by (simp add: the_view_def NextSibling_def)
    then show ?thesis using ends by (simp only:)
  qed
qed

lemma Radio_SetValue_ends:
  assumes "family (views (pane s)) kids"
  shows "\<exists>r. Radio_SetValue env p n s = Some r \<and> (\<forall>s'. r = Inr s' \<longrightarrow>
    (\<exists>x c. views (pane s) p = Some x \<and> controls s p = Some c \<and> views (pane s') = views (pane s) \<and> windows (pane s') = windows (pane s) \<and>
       default_button s' = default_button s \<and> controls s' = (let s1 = s\<lparr>controls := (controls s)(p := Some (c\<lparr>c_value := n\<rparr>))\<rparr>
         in turned_off (if n \<noteq> B_CONTROL_OFF \<and> fParent x \<noteq> null then radios kids (fParent x) s1 - {p} else {}) s1)))"
proof (cases "Control_SetValue env p n s")
  case (Inl e)
  then show ?thesis by (simp add: Radio_SetValue_def)
next
  case (Inr s1)
  obtain c where c: "controls s p = Some c" "controls s1 = (controls s)(p := Some (c\<lparr>c_value := n\<rparr>))"
    "views (pane s1) = views (pane s)" "windows (pane s1) = windows (pane s)" "default_button s1 = default_button s"
    using Control_SetValue_Inr [OF Inr] by blast
  let ?t = "s\<lparr>controls := (controls s)(p := Some (c\<lparr>c_value := n\<rparr>))\<rparr>"
  show ?thesis
  proof (cases "views (pane s) p")
    case None
    then show ?thesis using Inr c by (simp add: Radio_SetValue_def the_view_def)
  next
    case x: (Some x)
    show ?thesis
    proof (cases "n \<noteq> B_CONTROL_OFF \<and> fParent x \<noteq> null")
      case False
      then have "Radio_SetValue env p n s = Some (Inr s1)"
        using Inr c x by (auto simp: Radio_SetValue_def the_view_def Value_def Parent_def)
      then show ?thesis using False c x by (auto simp: turned_off_def Let_def fun_eq_iff)
    next
      case True
      obtain y where y: "views (pane s) (fParent x) = Some y" using familyD(5) [OF assms x] True by blast
      have e: "Radio_SetValue env p n s = turn_off_siblings env p (fFirstChild y) s1"
        using Inr c x y True by (simp add: Radio_SetValue_def the_view_def Value_def Parent_def ChildAt_def child_from.simps)
      have sg: "seg (views (pane s1)) (fParent x) null (kids (fParent x)) null (fFirstChild y)" "distinct (kids (fParent x))"
        using familyD(2,3) [OF assms y] c(3) by simp_all
      have t: "turned_off ps s1 = turned_off ps ?t" for ps using c(2) by (simp add: turned_off_def fun_eq_iff)
      have rs: "{c \<in> set (kids (fParent x)). map_option c_class (controls s1 c) = Some Radio_button} = radios kids (fParent x) ?t"
        using c(2) by (simp add: radios_def)
      note ends = turn_off_siblings_ends [OF sg, of env p, unfolded rs t c(3-5)]
      have i: "(n \<noteq> B_CONTROL_OFF \<and> fParent x \<noteq> null) = True" using True by simp
      show ?thesis unfolding e Let_def x c(1) option.inject ex_simps simp_thms
        using ends unfolding i if_True by (simp add: True)
    qed
  qed
qed

text \<open>
  What happens to radio buttons in a window: their values are set, the mouse and the keys press them, they are enabled and disabled.
\<close>

datatype radio_event = Set_value ptr int | Mouse_down ptr | Mouse_up ptr point | Key ptr "mem option" int | Enable ptr bool

fun radio_apply :: "env \<Rightarrow> delivery \<Rightarrow> ptr \<Rightarrow> radio_event \<Rightarrow> control_state \<Rightarrow> control_state partial" where
  "radio_apply env d frame (Set_value p n) s = Radio_SetValue env p n s"
| "radio_apply env d frame (Mouse_down p) s = Some (CheckBox_MouseDown p s)"
| "radio_apply env d frame (Mouse_up p pt) s = Radio_MouseUp env d frame p pt s"
| "radio_apply env d frame (Key p str n) s = Radio_KeyDown env d frame p str n s"
| "radio_apply env d frame (Enable p on) s = Some (Control_SetEnabled env p on s)"

definition is_on :: "control_state \<Rightarrow> ptr \<Rightarrow> bool" where "is_on s p \<longleftrightarrow> (\<exists>n. value_of s p = Some n \<and> n \<noteq> B_CONTROL_OFF)"

fun radio_of :: "radio_event \<Rightarrow> ptr" where
  "radio_of (Set_value p n) = p"
| "radio_of (Mouse_down p) = p"
| "radio_of (Mouse_up p pt) = p"
| "radio_of (Key p str n) = p"
| "radio_of (Enable p on) = p"

inductive radio_steps :: "env \<Rightarrow> delivery \<Rightarrow> ptr \<Rightarrow> control_state \<Rightarrow> control_state \<Rightarrow> bool" for env d frame s where
  none: "radio_steps env d frame s s"
| more: "radio_steps env d frame s s1 \<Longrightarrow> map_option c_class (controls s1 (radio_of e)) = Some Radio_button \<Longrightarrow>
    radio_apply env d frame e s1 = Some (Inr s2) \<Longrightarrow> radio_steps env d frame s s2"

text \<open>At most one radio button among the children of a view is on.\<close>

definition exclusive :: "(ptr \<Rightarrow> ptr list) \<Rightarrow> control_state \<Rightarrow> bool" where
  "exclusive kids s \<longleftrightarrow> (\<forall>par\<in>dom (views (pane s)). \<forall>p\<in>radios kids par s. \<forall>q\<in>radios kids par s. is_on s p \<longrightarrow> is_on s q \<longrightarrow> p = q)"

text \<open>An operation that leaves the tree of the views, the classes and the values of the controls.\<close>

definition calm :: "control_state \<Rightarrow> control_state \<Rightarrow> bool" where
  "calm s s' \<longleftrightarrow> tree_links (pane s') = tree_links (pane s) \<and> value_of s' = value_of s \<and>
     (\<forall>p. map_option c_class (controls s' p) = map_option c_class (controls s p))"

lemma calm_refl [simp]: "calm s s" by (simp add: calm_def)

lemma calm_trans [trans]: "calm s s1 \<Longrightarrow> calm s1 s2 \<Longrightarrow> calm s s2" by (simp add: calm_def)

lemma tree_links_dom: "tree_links g' = tree_links g \<Longrightarrow> dom (views g') = dom (views g)"
  unfolding tree_links_def fun_eq_iff by (metis (no_types, lifting) domIff option.map_disc_iff subsetI subset_antisym)

lemma calm_keeps:
  assumes "calm s s'"
  shows "exclusive kids s' \<longleftrightarrow> exclusive kids s" "family (views (pane s)) kids \<Longrightarrow> family (views (pane s')) kids"
  using assms tree_links_dom [of "pane s'" "pane s"] tree_links_family [of "pane s'" "pane s"]
  by (auto simp: calm_def exclusive_def radios_def is_on_def)

lemma calm_upd:
  assumes "upd_control p f s = Inr s'" "\<And>c. c_class (f c) = c_class c \<and> c_value (f c) = c_value c"
  shows "calm s s'"
  using assms by (auto simp: calm_def be_simps value_of_def fun_eq_iff)

lemma calm_pane: "tree_links g = tree_links (pane s) \<Longrightarrow> calm s (s\<lparr>pane := g\<rparr>)"
  by (simp add: calm_def value_of_def fun_eq_iff)

lemma SetTracking_calm: "SetTracking p b s = Inr s' \<Longrightarrow> calm s s'"
  by (rule calm_upd [of p "\<lambda>c. c\<lparr>c_tracking := b\<rparr>"]) (simp_all add: SetTracking_def)

lemma start_tracking_calm:
  assumes "start_tracking p s = Inr s'"
  shows "calm s s'"
proof -
  obtain s1 where s1: "SetTracking p True s = Inr s1" "on_pane (\<lambda>g. bindR (SetMouseEventMask p B_POINTER_EVENTS B_LOCK_WINDOW_FOCUS g) (\<lambda>(_, g). Inr g)) s1 = Inr s'"
    using assms by (auto simp: start_tracking_def bindR_Inr_iff)
  then obtain st g where "SetMouseEventMask p B_POINTER_EVENTS B_LOCK_WINDOW_FOCUS (pane s1) = Inr (st, g)" "s' = s1\<lparr>pane := g\<rparr>"
    by (auto simp: on_pane_Inr bindR_Inr_iff)
  then have "calm s1 s'" using SetMouseEventMask_keeps calm_pane by metis
  with SetTracking_calm [OF s1(1)] show ?thesis by (rule calm_trans)
qed

lemma MouseDown_calm: "CheckBox_MouseDown p s = Inr s' \<Longrightarrow> calm s s'"
  by (auto simp: CheckBox_MouseDown_def bindR_Inr_iff intro: start_tracking_calm split: if_splits)

lemma SetEnabled_calm:
  assumes "Control_SetEnabled env p on s = Inr s'"
  shows "calm s s'"
proof (cases "s' = s")
  case False
  then obtain s1 s2 flags where s1: "upd_control p (\<lambda>c. c\<lparr>c_enabled := on\<rparr>) s = Inr s1" "on_pane (SetFlags env p flags) s1 = Inr s2"
      "on_pane (Invalidate env p) s2 = Inr s'"
    using assms by (auto simp: Control_SetEnabled_def bindR_Inr_iff split: if_splits)
  have "calm s s1" by (rule calm_upd [OF s1(1)]) simp
  also have "calm s1 s2" using s1(2) SetFlags_keeps calm_pane by (metis on_pane_Inr)
  also have "calm s2 s'" using s1(3) Invalidate_keeps tree_links_views calm_pane by (metis on_pane_Inr)
  finally show ?thesis .
qed simp

lemma Invoke_calm: "Control_Invoke d now frame p msg s = Inr (st, s') \<Longrightarrow> calm s s'"
  using Control_Invoke_Inr [of d now frame p msg s st s'] tree_links_views [of "pane s'" "pane s"] by (simp add: calm_def value_of_def fun_eq_iff)

text \<open>What \<open>SetValue\<close> of a radio button does to the values.\<close>

lemma Radio_SetValue_exclusive:
  assumes f: "family (views (pane s)) kids" and x: "exclusive kids s" and c: "map_option c_class (controls s p) = Some Radio_button"
    and r: "Radio_SetValue env p n s = Some (Inr s')"
  shows "family (views (pane s')) kids \<and> exclusive kids s' \<and> value_of s' p = Some n"
proof -
  obtain x c where e: "views (pane s) p = Some x" "controls s p = Some c" "views (pane s') = views (pane s)"
    "controls s' = (let s1 = s\<lparr>controls := (controls s)(p := Some (c\<lparr>c_value := n\<rparr>))\<rparr>
         in turned_off (if n \<noteq> B_CONTROL_OFF \<and> fParent x \<noteq> null then radios kids (fParent x) s1 - {p} else {}) s1)"
    using Radio_SetValue_ends [OF f, of env p n] r by auto
  have cls: "map_option c_class (controls s' q) = map_option c_class (controls s q)" for q
    using e(2) unfolding e(4) by (simp add: Let_def turned_off_def option.map_comp comp_def)
  then have rs: "radios kids par s' = radios kids par s" for par by (simp add: radios_def)
  have v: "value_of s' q = (if q = p then Some n
      else if n \<noteq> B_CONTROL_OFF \<and> fParent x \<noteq> null \<and> q \<in> radios kids (fParent x) s then Some B_CONTROL_OFF else value_of s q)" for q
    using e(2) unfolding e(4) value_of_def by (auto simp: Let_def turned_off_def radios_def)
  have "a = b" if ab: "par \<in> dom (views (pane s))" "a \<in> radios kids par s" "b \<in> radios kids par s" "is_on s' a" "is_on s' b" for par a b
  proof -
    obtain y where y: "views (pane s) par = Some y" using ab(1) by blast
    have up: "par = fParent x \<and> par \<noteq> null" if "p \<in> radios kids par s"
      using family_kid [OF f y, of p] familyD(1) [OF f y] that e(1) by (auto simp: radios_def)
    show ?thesis
    proof (cases "n \<noteq> B_CONTROL_OFF \<and> p \<in> radios kids par s")
      case True
      then have "q = p" if "q \<in> radios kids par s" "is_on s' q" for q using that up v [of q] by (auto simp: is_on_def split: if_splits)
      then show ?thesis using ab by blast
    next
      case False
      then have "is_on s a" "is_on s b" using ab v by (auto simp: is_on_def split: if_splits)
      then show ?thesis using x ab(1-3) unfolding exclusive_def by blast
    qed
  qed
  then show ?thesis using f e(3) v rs unfolding exclusive_def by simp
qed

text \<open>A radio button that is pressed gets a value and invokes.\<close>

definition pressed :: "env \<Rightarrow> delivery \<Rightarrow> ptr \<Rightarrow> ptr \<Rightarrow> control_state \<Rightarrow> control_state \<Rightarrow> bool" where
  "pressed env d frame p s s' \<longleftrightarrow> (\<exists>s1 s2 n now st. calm s s1 \<and> Radio_SetValue env p n s1 = Some (Inr s2) \<and>
     Control_Invoke d now frame p null s2 = Inr (st, s'))"

lemma Radio_MouseUp_effect:
  assumes "Radio_MouseUp env d frame p pt s = Some (Inr s')"
  shows "calm s s' \<or> pressed env d frame p s s'"
proof -
  obtain c where c: "controls s p = Some c" using assms by (cases "controls s p") (auto simp: Radio_MouseUp_def)
  show ?thesis
  proof (cases "IsTracking c")
    case False
    then show ?thesis using assms c by (simp add: Radio_MouseUp_def)
  next
    case True
    then obtain s1 v where s1: "SetTracking p False s = Inr s1" "the_view p s1 = Inr v"
      using assms c by (auto simp: Radio_MouseUp_def bindO_Some_Inr)
    note calm = SetTracking_calm [OF s1(1)]
    show ?thesis
    proof (cases "\<not> Control_IsEnabled c \<or> \<not> Contains (Bounds v) pt")
      case True
      then have "s' = s1" using assms c s1 \<open>IsTracking c\<close> by (auto simp: Radio_MouseUp_def)
      then show ?thesis using calm by simp
    next
      case False
      then show ?thesis using assms c s1 \<open>IsTracking c\<close> calm unfolding pressed_def by (auto simp: Radio_MouseUp_def bindO_Some_Inr)
    qed
  qed
qed

lemma Radio_KeyDown_effect:
  assumes "Radio_KeyDown env d frame p str n s = Some (Inr s')"
  shows "calm s s' \<or> pressed env d frame p s s'"
  using assms calm_refl [of s] unfolding pressed_def by (force simp: Radio_KeyDown_def bindO_Some_Inr split: if_splits)

lemma pressed_exclusive:
  assumes "family (views (pane s)) kids" "exclusive kids s" "map_option c_class (controls s p) = Some Radio_button" "pressed env d frame p s s'"
  shows "family (views (pane s')) kids \<and> exclusive kids s'"
proof -
  obtain s1 s2 n now st where s: "calm s s1" "Radio_SetValue env p n s1 = Some (Inr s2)" "Control_Invoke d now frame p null s2 = Inr (st, s')"
    using assms(4) by (auto simp: pressed_def)
  have "family (views (pane s2)) kids \<and> exclusive kids s2"
    using Radio_SetValue_exclusive [OF _ _ _ s(2)] calm_keeps [OF s(1), of kids] assms(1-3) s(1) unfolding calm_def by simp
  then show ?thesis using calm_keeps [OF Invoke_calm [OF s(3)], of kids] by blast
qed

lemma radio_apply_exclusive:
  assumes f: "family (views (pane s)) kids" and x: "exclusive kids s" and c: "map_option c_class (controls s (radio_of e)) = Some Radio_button"
    and r: "radio_apply env d frame e s = Some (Inr s')"
  shows "family (views (pane s')) kids \<and> exclusive kids s'"
proof -
  have calm: ?thesis if "calm s s'" using calm_keeps [OF that, of kids] f x by blast
  note press = pressed_exclusive [OF f x c, of env d frame s']
  show ?thesis
  proof (cases e)
    case (Set_value p n)
    then show ?thesis using Radio_SetValue_exclusive [OF f x, of p env n s'] c r by simp
  next
    case (Mouse_down p)
    then show ?thesis using r by (intro calm MouseDown_calm [of p]) simp
  next
    case (Mouse_up p pt)
    then show ?thesis using r Radio_MouseUp_effect [of env d frame p pt s s'] calm press by auto
  next
    case (Key p str n)
    then show ?thesis using r Radio_KeyDown_effect [of env d frame p str n s s'] calm press by auto
  next
    case (Enable p on)
    then show ?thesis using r by (intro calm SetEnabled_calm [of env p on]) simp
  qed
qed

text \<open>C33. Radio buttons exclude each other: over all sequences of values that are set, clicks, keys and changes of what is enabled, at most one
  radio button among the children of a view is on; the loop over the siblings ends, and the button whose value was set has it.\<close>

theorem radio_buttons_exclusive:
  assumes "family (views (pane s)) kids" "exclusive kids s" "radio_steps env d frame s s'"
  shows "exclusive kids s' \<and> (\<forall>p n. Radio_SetValue env p n s' \<noteq> None) \<and>
    (\<forall>p n s''. map_option c_class (controls s' p) = Some Radio_button \<and> Radio_SetValue env p n s' = Some (Inr s'') \<longrightarrow>
       value_of s'' p = Some n \<and> exclusive kids s'')"
proof -
  have i: "family (views (pane s')) kids \<and> exclusive kids s'"
    using assms(3) by (induction rule: radio_steps.induct) (use assms(1,2) radio_apply_exclusive in blast)+
  then show ?thesis using Radio_SetValue_ends [of s' kids env] Radio_SetValue_exclusive [of s' kids] by (metis option.distinct(1))
qed

text \<open>Two radio buttons under a view. The first one is set, then the space bar presses the second one.\<close>

definition group_kids :: "ptr \<Rightarrow> ptr list" where "group_kids = (\<lambda>_. [])(1 := [2, 3])"

definition to_trace :: delivery where
  "to_trace = \<lparr>d_self = 7, d_alloc = (\<lambda>_. True), d_has_data = False, d_sent = B_OK, d_be_app = Messenger_new B_NO_INIT 0, d_new = 20,
     d_received = (\<lambda>h m w. Inr (emit (Dispatched m h) w))\<rparr>"

definition sample_radio :: control where
  "sample_radio = \<lparr>c_class = Radio_button, c_invoker = Invoker_messenger null (Messenger_new B_NO_INIT 0), c_label = None, c_value = B_CONTROL_OFF,
     c_enabled = True, c_tracking = False, c_drawAsDefault = False\<rparr>"

definition group_sample :: control_state where
  "group_sample = \<lparr>controls = [2 \<mapsto> sample_radio, 3 \<mapsto> sample_radio], default_button = (\<lambda>_. null), pane = sample_gui\<lparr>views := sample_views\<rparr>\<rparr>"

lemma group_sample_family: "family (views (pane group_sample)) group_kids"
  by (rule familyI) (auto simp: group_sample_def sample_views_def group_kids_def plain_view_def split: if_splits)

lemma group_sample_exclusive: "exclusive group_kids group_sample"
  by (auto simp: exclusive_def is_on_def value_of_def group_sample_def sample_radio_def)

lemma radio_buttons_exclusive_witness:
  "\<exists>s'. radio_steps sample_env to_trace 50 group_sample s' \<and> exclusive group_kids s' \<and> value_of s' 2 = Some 0 \<and> value_of s' 3 = Some 1"
proof -
  obtain s1 where s1: "radio_apply sample_env to_trace 50 (Set_value 2 1) group_sample = Some (Inr s1)" "value_of s1 2 = Some 1"
    "map_option c_class (controls s1 3) = Some Radio_button"
    "\<exists>s'. radio_apply sample_env to_trace 50 (Key 3 (Some [B_SPACE]) 1) s1 = Some (Inr s') \<and> value_of s' 2 = Some 0 \<and> value_of s' 3 = Some 1"
    by (simp add: group_sample_def sample_gui_def sample_views_def plain_view_def sample_radio_def Radio_SetValue_def Control_SetValue_def upd_control_def
        on_pane_def Invalidate_def Invalidate_rect_def the_view_def Value_def Parent_def ChildAt_def child_from.simps turn_off_siblings.simps
        NextSibling_def Radio_KeyDown_def presses_def Control_Invoke_def Invoker_Message_def Invoker_messenger_def value_of_def sample_env_def
        Handler_Looper_def sample_handler_def Bounds_def B_CONTROL_OFF_def B_CONTROL_ON_def B_SPACE_def B_ENTER_def read_bytes_def)
  have "map_option c_class (controls group_sample 2) = Some Radio_button" by (simp add: group_sample_def sample_radio_def)
  then have "radio_steps sample_env to_trace 50 group_sample s1" using radio_steps.more [OF radio_steps.none _ s1(1)] by simp
  then obtain s' where s': "radio_steps sample_env to_trace 50 group_sample s'" "value_of s' 2 = Some 0" "value_of s' 3 = Some 1"
    using radio_steps.more [where e = "Key 3 (Some [B_SPACE]) 1"] s1(3,4) by (metis radio_of.simps(4))
  then show ?thesis using radio_buttons_exclusive [OF group_sample_family group_sample_exclusive s'(1)] by blast
qed

section \<open>What a control sends\<close>

lemma invocation_keys_ok: "name_ok when_key" "name_ok source_key" "name_ok be_value_key"
  by (simp_all add: name_ok_def when_key_def source_key_def be_value_key_def B_FIELD_NAME_LENGTH_def)

text \<open>The fields of the copy: \<open>v\<close> is the value, \<open>p\<close> the control.\<close>

definition invoked_fields :: "int \<Rightarrow> ptr \<Rightarrow> int \<Rightarrow> (byte list \<rightharpoonup> type_code \<times> byte list list) \<Rightarrow> (byte list \<rightharpoonup> type_code \<times> byte list list)" where
  "invoked_fields now p v fs = fs(when_key \<mapsto> (B_INT64_TYPE, [le 8 (unat (word_of_int now :: 64 word))]),
     source_key \<mapsto> (B_POINTER_TYPE, [le 8 p]), be_value_key \<mapsto> (B_INT32_TYPE, [le 4 (unat (word_of_int v :: 32 word))]))"

lemma AddT_fields:
  assumes "message_ok msg" "name_ok nm" "\<forall>k. alloc k" "length d < 2 ^ 63" "Message.fields (nodes msg) nm = None"
  shows "\<exists>st msg'. AddT ty alloc msg (Some (c_str nm)) d = Inr (st, msg') \<and> message_ok msg' \<and> what msg' = what msg \<and>
    Message.fields (nodes msg') = (Message.fields (nodes msg))(nm \<mapsto> (ty, [d]))"
proof -
  obtain st msg' where p: "pushNode msg nm ty d = (st, msg')" by fastforce
  have "AddT ty alloc msg (Some (c_str nm)) d = Inr (st, msg')"
    using addNode_fits [of alloc d nm msg ty "[]"] assms p by (simp add: AddT_def AddData_def)
  then show ?thesis using pushNode_refines [OF assms(1,2) p] assms(5) by auto
qed

lemma invocation_ok:
  assumes "message_ok msg" "\<forall>n\<in>set (nodes msg). sizes_ok n" "\<forall>k. alloc k"
    "\<forall>k\<in>{when_key, source_key, be_value_key}. Message.fields (nodes msg) k = None"
  shows "\<exists>clone. invocation alloc now p v msg = Inr clone \<and> what clone = what msg \<and>
    Message.fields (nodes clone) = invoked_fields now p v (Message.fields (nodes msg))"
proof -
  obtain c where c: "Message_copy alloc msg = Inr c" "nodes c = nodes msg" "what c = what msg" using Message_copy_ok [OF assms(1-3)] by blast
  then have ok: "message_ok c" "\<forall>k\<in>{when_key, source_key, be_value_key}. Message.fields (nodes c) k = None"
    using assms(1,4) by (simp_all add: message_ok_def)
  have ne: "be_value_key \<noteq> when_key" "be_value_key \<noteq> source_key" "source_key \<noteq> when_key"
    by (simp_all add: be_value_key_def when_key_def source_key_def)
  obtain st1 c1 where c1: "AddT B_INT64_TYPE alloc c (Some (c_str when_key)) (le 8 (unat (word_of_int now :: 64 word))) = Inr (st1, c1)"
      "message_ok c1" "what c1 = what msg"
      "Message.fields (nodes c1) = (Message.fields (nodes c))(when_key \<mapsto> (B_INT64_TYPE, [le 8 (unat (word_of_int now :: 64 word))]))"
    using AddT_fields [OF ok(1) invocation_keys_ok(1) assms(3), of "le 8 (unat (word_of_int now :: 64 word))" B_INT64_TYPE] ok(2) c(3) by auto
  obtain st2 c2 where c2: "AddPointer alloc c1 (Some (c_str source_key)) p = Inr (st2, c2)"
      "message_ok c2" "what c2 = what msg" "Message.fields (nodes c2) = (Message.fields (nodes c1))(source_key \<mapsto> (B_POINTER_TYPE, [le 8 p]))"
    using AddT_fields [OF c1(2) invocation_keys_ok(2) assms(3), of "le 8 p" B_POINTER_TYPE] ok(2) c1(3,4) ne by (auto simp: AddPointer_def)
  obtain st3 c3 where "AddInt32 alloc c2 (Some (c_str be_value_key)) (word_of_int v) = Inr (st3, c3)" "what c3 = what msg"
      "Message.fields (nodes c3) = (Message.fields (nodes c2))(be_value_key \<mapsto> (B_INT32_TYPE, [le 4 (unat (word_of_int v :: 32 word))]))"
    using AddT_fields [OF c2(2) invocation_keys_ok(3) assms(3), of "le 4 (unat (word_of_int v :: 32 word))" B_INT32_TYPE] ok(2) c1(4) c2(3,4) ne
    by (auto simp: AddInt32_def)
  then show ?thesis using c(1,2) c1(1,4) c2(1,4) by (simp add: invocation_def invoked_fields_def)
qed

text \<open>C34. A control never sends what it adds to its message. \<open>Invoke\<close> makes a copy of the message it gets, which has the same \<open>what\<close> and the same
  fields and besides the time as \<open>when\<close>, the address of the control as \<open>source\<close> and its value as \<open>be:value\<close>. But \<open>BInvoker::Invoke\<close> sends the
  invoker's own message to its target, whatever that is, so that the copy is freed without having been sent: the control sends its own message
  as it was, whichever message \<open>Invoke\<close> was called with. When the control is its own
  target, as the constructor makes it, it gets this message itself. The message that \<open>Invoke\<close> gets has no field of the three names before, and
  there is memory.
\<close>

theorem control_sends_own_message:
  assumes c: "controls s p = Some c" "iMessage (c_invoker c) = m" "m \<noteq> null" "messages (world (pane s)) m = Some own"
    and x: "x \<noteq> null" "messages (world (pane s)) x = Some msg"
      "\<forall>k\<in>{when_key, source_key, be_value_key}. Message.fields (nodes msg) k = None"
    and ok: "message_ok msg" "\<forall>n\<in>set (nodes msg). sizes_ok n" "\<forall>k. d_alloc d k"
    and frame: "frame \<noteq> null" "frame \<noteq> m"
  shows "\<exists>clone w. invocation (d_alloc d) now p (c_value c) msg = Inr clone \<and> what clone = what msg \<and>
    Message.fields (nodes clone) = invoked_fields now p (c_value c) (Message.fields (nodes msg)) \<and>
    w = (world (pane s))\<lparr>messages := (messages (world (pane s)))(frame := Some clone)\<rparr> \<and> messages w m = Some own \<and>
    Control_Invoke d now frame p x s =
      bindR (SendMessage_handler d w (iMessenger (c_invoker c)) m (iReplyTo (c_invoker c))) (\<lambda>(st, w).
        Inr (st, s\<lparr>pane := (pane s)\<lparr>world := w\<lparr>messages := (messages w)(frame := None)\<rparr>\<rparr>\<rparr>)) \<and>
    Control_Invoke d now frame p null s = Control_Invoke d now frame p m s \<and>
    (iMessenger (c_invoker c) = \<lparr>mStatus = B_OK, mHandler = p, mLooper = null, mTeam = - 1\<rparr> \<and> p \<noteq> null \<and> handlers (world (pane s)) p \<noteq> None \<longrightarrow>
       SendMessage_handler d w (iMessenger (c_invoker c)) m (iReplyTo (c_invoker c)) = bindR (d_received d p m w) (\<lambda>w. Inr (B_OK, w)))"
proof -
  obtain clone where k: "invocation (d_alloc d) now p (c_value c) msg = Inr clone" "what clone = what msg"
      "Message.fields (nodes clone) = invoked_fields now p (c_value c) (Message.fields (nodes msg))"
    using invocation_ok [OF ok x(3)] by blast
  let ?w = "(world (pane s))\<lparr>messages := (messages (world (pane s)))(frame := Some clone)\<rparr>"
  have "Invoke d ?w (c_invoker c) frame = SendMessage_handler d ?w (iMessenger (c_invoker c)) m (iReplyTo (c_invoker c))"
    using c(2) frame by (simp add: Invoke_def)
  then have "Control_Invoke d now frame p x s =
      bindR (SendMessage_handler d ?w (iMessenger (c_invoker c)) m (iReplyTo (c_invoker c))) (\<lambda>(st, w).
        Inr (st, s\<lparr>pane := (pane s)\<lparr>world := w\<lparr>messages := (messages w)(frame := None)\<rparr>\<rparr>\<rparr>))"
    using c(1) x(1,2) k(1) by (simp add: Control_Invoke_def Let_def)
  moreover have "Control_Invoke d now frame p null s = Control_Invoke d now frame p m s"
    using c(1,2) by (simp add: Control_Invoke_def Invoker_Message_def)
  moreover have "SendMessage_handler d ?w (iMessenger (c_invoker c)) m (iReplyTo (c_invoker c)) = bindR (d_received d p m ?w) (\<lambda>w. Inr (B_OK, w))"
    if "iMessenger (c_invoker c) = \<lparr>mStatus = B_OK, mHandler = p, mLooper = null, mTeam = - 1\<rparr>" "p \<noteq> null" "handlers (world (pane s)) p \<noteq> None"
    using that c(3) by (auto simp: SendMessage_handler_def SendMessage_def Messenger_for_def IsTargetLocal_def Target_def IsValid_def Let_def)
  ultimately show ?thesis using k c(4) frame(2) by (intro exI [of _ clone] exI [of _ ?w]) simp
qed

text \<open>A control 2 with the value 1 and the message 11; it is invoked with the message 12.\<close>

definition sender :: control_state where
  "sender = group_sample\<lparr>controls := [2 \<mapsto> sample_radio\<lparr>c_value := 1,
       c_invoker := Invoker_messenger 11 \<lparr>mStatus = B_OK, mHandler = 2, mLooper = null, mTeam = - 1\<rparr>\<rparr>],
     pane := sample_gui\<lparr>world := (world sample_gui)\<lparr>messages := [11 \<mapsto> Message_new 5, 12 \<mapsto> Message_new 6]\<rparr>\<rparr>\<rparr>"

lemma control_sends_own_message_witness:
  "\<exists>s'. Control_Invoke to_trace 0 50 2 12 sender = Inr (B_OK, s') \<and> trace (world (pane s')) = [Dispatched 11 2]"
proof -
  let ?c = "sample_radio\<lparr>c_value := 1, c_invoker := Invoker_messenger 11 \<lparr>mStatus = B_OK, mHandler = 2, mLooper = null, mTeam = - 1\<rparr>\<rparr>"
  have c: "controls sender 2 = Some ?c" "messages (world (pane sender)) 11 = Some (Message_new 5)" "messages (world (pane sender)) 12 = Some (Message_new 6)"
    "handlers (world (pane sender)) 2 = Some (sample_handler 9)" "trace (world (pane sender)) = []"
    by (simp_all add: sender_def sample_gui_def)
  have f: "\<forall>k\<in>{when_key, source_key, be_value_key}. Message.fields (nodes (Message_new 6)) k = None" "message_ok (Message_new 6)"
    by (simp_all add: Message.fields_def message_ok_def)
  obtain clone w where w: "w = (world (pane sender))\<lparr>messages := (messages (world (pane sender)))(50 := Some clone)\<rparr>"
    "Control_Invoke to_trace 0 50 2 12 sender =
      bindR (SendMessage_handler to_trace w (iMessenger (c_invoker ?c)) 11 (iReplyTo (c_invoker ?c))) (\<lambda>(st, w).
        Inr (st, sender\<lparr>pane := (pane sender)\<lparr>world := w\<lparr>messages := (messages w)(50 := None)\<rparr>\<rparr>\<rparr>))"
    "SendMessage_handler to_trace w (iMessenger (c_invoker ?c)) 11 (iReplyTo (c_invoker ?c)) = bindR (d_received to_trace 2 11 w) (\<lambda>w. Inr (B_OK, w))"
    using control_sends_own_message [OF c(1) _ _ c(2) _ c(3) f, where frame = 50 and d = to_trace and now = 0] c(4)
    by (auto simp: Invoker_messenger_def to_trace_def)
  then show ?thesis using c(5) by (simp add: to_trace_def emit_def)
qed

section \<open>Clicking a button\<close>

text \<open>The moves of the mouse between pressing and releasing it, and whether the mouse is over the button behind them.\<close>

fun button_moves :: "env \<Rightarrow> ptr \<Rightarrow> 32 word list \<Rightarrow> control_state \<Rightarrow> control_state outcome" where
  "button_moves env p [] s = Inr s"
| "button_moves env p (t # ts) s = bindR (Button_MouseMoved env p t s) (button_moves env p ts)"

definition over :: "bool \<Rightarrow> 32 word list \<Rightarrow> bool" where
  "over = foldl (\<lambda>b t. if t = B_EXITED_VIEW then False else if t = B_ENTERED_VIEW then True else b)"

definition is_pressed :: "ptr \<Rightarrow> bool \<Rightarrow> control_state \<Rightarrow> bool" where
  "is_pressed p on s \<longleftrightarrow> (\<exists>c. controls s p = Some c \<and> c_enabled c \<and> c_tracking c \<and> c_value c = (if on then B_CONTROL_ON else B_CONTROL_OFF))"

lemma transits_differ: "B_ENTERED_VIEW \<noteq> B_EXITED_VIEW"
  by (simp add: B_ENTERED_VIEW_def B_EXITED_VIEW_def)

lemma is_pressed_SetValue:
  "is_pressed p b s \<Longrightarrow> Control_SetValue env p (if on then B_CONTROL_ON else B_CONTROL_OFF) s = Inr s' \<Longrightarrow> is_pressed p on s'"
  by (auto simp: is_pressed_def dest!: Control_SetValue_Inr)

lemma button_move_pressed:
  assumes "is_pressed p b s" "Button_MouseMoved env p t s = Inr s'"
  shows "is_pressed p (over b [t]) s'"
proof -
  obtain c where c: "controls s p = Some c" "c_tracking c" using assms(1) by (auto simp: is_pressed_def)
  consider "t = B_EXITED_VIEW" | "t = B_ENTERED_VIEW" | "t \<noteq> B_EXITED_VIEW" "t \<noteq> B_ENTERED_VIEW" by blast
  then show ?thesis
  proof cases
    case 1
    then show ?thesis using assms c transits_differ is_pressed_SetValue [of p b s env False s'] by (simp add: Button_MouseMoved_def IsTracking_def over_def)
  next
    case 2
    then show ?thesis using assms c transits_differ is_pressed_SetValue [of p b s env True s'] by (simp add: Button_MouseMoved_def IsTracking_def over_def)
  next
    case 3
    then show ?thesis using assms c by (simp add: Button_MouseMoved_def IsTracking_def over_def)
  qed
qed

lemma button_moves_pressed: "is_pressed p b s \<Longrightarrow> button_moves env p ts s = Inr s' \<Longrightarrow> is_pressed p (over b ts) s'"
proof (induction ts arbitrary: b s)
  case (Cons t ts)
  then obtain s1 where "Button_MouseMoved env p t s = Inr s1" "button_moves env p ts s1 = Inr s'" by (auto simp: bindR_Inr_iff)
  then show ?case using Cons.IH [of "over b [t]" s1] button_move_pressed [OF Cons.prems(1)] by (simp add: over_def)
qed (simp add: over_def)

lemma start_tracking_controls:
  assumes "start_tracking p s = Inr s'" "controls s p = Some c"
  shows "controls s' p = Some (c\<lparr>c_tracking := True\<rparr>)"
  using assms by (auto simp: start_tracking_def SetTracking_def be_simps)

text \<open>A click on an enabled button: while the mouse moves with the button down, the button is on if and only if the mouse is over it. When
  the mouse is released over the button, the button goes off and invokes once; when it is released elsewhere, nothing is invoked. In
  both cases the button is off behind it.
\<close>

lemma button_click:
  assumes "controls s p = Some c" "c_enabled c" "bindR (Button_MouseDown env p s) (button_moves env p ts) = Inr s1"
  shows "value_of s1 p = Some (if over True ts then B_CONTROL_ON else B_CONTROL_OFF) \<and>
    Button_MouseUp env d frame p s1 = bindR (SetTracking p False s1) (\<lambda>s.
      if over True ts then
        bindR (Control_SetValue env p B_CONTROL_OFF s) (\<lambda>s. bindR (Button_Invoke env d frame p null s) (\<lambda>(_, s). Inr s))
      else Inr s) \<and>
    (\<forall>s'. Button_MouseUp env d frame p s1 = Inr s' \<longrightarrow> value_of s' p = Some B_CONTROL_OFF)"
proof -
  obtain s0 where s0: "Button_MouseDown env p s = Inr s0" "button_moves env p ts s0 = Inr s1" using assms(3) by (auto simp: bindR_Inr_iff)
  obtain t where t: "Control_SetValue env p B_CONTROL_ON s = Inr t" "start_tracking p t = Inr s0"
    using s0(1) assms(1,2) by (auto simp: Button_MouseDown_def Control_IsEnabled_def bindR_Inr_iff)
  have "controls t p = Some (c\<lparr>c_value := B_CONTROL_ON\<rparr>)" using Control_SetValue_Inr [OF t(1)] assms(1) by auto
  then have "is_pressed p True s0" using start_tracking_controls [OF t(2)] assms(2) by (simp add: is_pressed_def)
  from button_moves_pressed [OF this s0(2)] obtain c1 where c1: "controls s1 p = Some c1" "c_enabled c1" "c_tracking c1"
    "c_value c1 = (if over True ts then B_CONTROL_ON else B_CONTROL_OFF)" by (auto simp: is_pressed_def)
  have up: "Button_MouseUp env d frame p s1 = bindR (SetTracking p False s1) (\<lambda>s.
      if over True ts then bindR (Control_SetValue env p B_CONTROL_OFF s) (\<lambda>s. bindR (Button_Invoke env d frame p null s) (\<lambda>(_, s). Inr s)) else Inr s)"
    using c1 by (simp add: Button_MouseUp_def IsTracking_def Value_def Control_IsEnabled_def B_CONTROL_ON_def B_CONTROL_OFF_def)
  have "value_of s' p = Some B_CONTROL_OFF" if r: "Button_MouseUp env d frame p s1 = Inr s'" for s'
  proof (cases "over True ts")
    case True
    then obtain s2 where "Control_SetValue env p B_CONTROL_OFF s2 = Inr s'"
      using r unfolding up by (auto simp: bindR_Inr_iff Button_Invoke_def)
    then show ?thesis by (auto simp: value_of_def dest!: Control_SetValue_Inr)
  next
    case False
    then show ?thesis using r c1 unfolding up by (auto simp: SetTracking_def be_simps value_of_def)
  qed
  then show ?thesis using c1 up by (auto simp: value_of_def)
qed

text \<open>The mouse leaves the button and comes back before it is released.\<close>

section \<open>The default button\<close>

lemma say_default_ok: "controls s p = Some c \<Longrightarrow> say_default p b s = Inr (s\<lparr>controls := (controls s)(p := Some (c\<lparr>c_drawAsDefault := b\<rparr>))\<rparr>)"
  by (simp add: say_default_def upd_control_def)

text \<open>\<open>MakeDefault\<close> of a button in a window that already says so is only a note in the button.\<close>

lemma MakeDefault_told:
  assumes "controls s p = Some c" "views (pane s) p = Some v" "fWindow v \<noteq> null" "default_button s (fWindow v) = p \<longleftrightarrow> b"
  shows "MakeDefault env p b s = Some (Inr (s\<lparr>controls := (controls s)(p := Some (c\<lparr>c_drawAsDefault := b\<rparr>))\<rparr>))"
  using assms by (subst MakeDefault.simps) (simp add: say_default_ok IsDefault_def the_view_def)

text \<open>
  \<open>SetDefaultButton\<close> and \<open>MakeDefault\<close> call each other, and the calls end: the window has the new default button, and the buttons know.
\<close>

lemma SetDefaultButton_ends:
  assumes "win \<noteq> null" "default_button s win = old" "old \<noteq> b"
    and "\<And>q. q \<noteq> null \<Longrightarrow> q = old \<or> q = b \<Longrightarrow> (\<exists>c. controls s q = Some c) \<and> (\<exists>v. views (pane s) q = Some v \<and> fWindow v = win)"
  shows "\<exists>r. SetDefaultButton env win b s = Some r \<and> (\<forall>s'. r = Inr s' \<longrightarrow> DefaultButton win s' = b \<and>
    (\<forall>q. q \<noteq> null \<and> (q = old \<or> q = b) \<longrightarrow> map_option c_drawAsDefault (controls s' q) = Some (q = b)))"
proof -
  let ?t = "\<lambda>s q on. s\<lparr>controls := (controls s)(q := map_option (\<lambda>c. c\<lparr>c_drawAsDefault := on\<rparr>) (controls s q))\<rparr>"
  define s0 where "s0 = put_default win null s"
  define m1 where "m1 = (if old \<noteq> null then on_pane (Invalidate env old) (?t s0 old False) else Inr s)"
  have one: "(if old \<noteq> null then bindO (MakeDefault env old False s0) (\<lambda>s. Some (on_pane (Invalidate env old) s)) else Some (Inr s)) = Some m1"
  proof (cases "old = null")
    case False
    from assms(4) [OF this] obtain c v where "controls s0 old = Some c" "views (pane s0) old = Some v" "fWindow v = win"
      by (auto simp: s0_def put_default_def)
    then show ?thesis using MakeDefault_told [of s0 old c v False env] assms(1) False by (simp add: m1_def s0_def put_default_def)
  qed (simp add: m1_def)
  have eq: "SetDefaultButton env win b s = bindO (Some m1) (\<lambda>s. let s = put_default win b s in
      if b \<noteq> null then bindO (MakeDefault env b True s) (\<lambda>s. Some (on_pane (Invalidate env b) s)) else Some (Inr s))"
    by (simp only: SetDefaultButton_def assms(2,3) Let_def if_False one [unfolded s0_def])
  show ?thesis
  proof (cases m1)
    case (Inl e)
    then show ?thesis using eq by simp
  next
    case (Inr s1)
    have v: "views (pane s1) = views (pane s)" using Inr Invalidate_keeps by (auto simp: m1_def be_simps s0_def put_default_def split: if_splits)
    have c: "controls s1 = controls (if old \<noteq> null then ?t s0 old False else s)"
      using Inr by (auto simp: m1_def be_simps split: if_splits)
    let ?s2 = "put_default win b s1"
    show ?thesis
    proof (cases "b = null")
      case True
      then show ?thesis using eq Inr c assms(3) assms(4) [of old] by (auto simp: put_default_def DefaultButton_def s0_def option.map_comp comp_def)
    next
      case False
      from assms(4) [OF False] obtain cb vb where b: "controls ?s2 b = Some cb" "views (pane ?s2) b = Some vb" "fWindow vb = win"
        using assms(3) c v by (cases "old = null") (auto simp: put_default_def s0_def)
      have "MakeDefault env b True ?s2 = Some (Inr (?t ?s2 b True))"
        using MakeDefault_told [OF b(1,2), of True env] b assms(1) by (simp add: put_default_def)
      then have e2: "SetDefaultButton env win b s = Some (on_pane (Invalidate env b) (?t ?s2 b True))" using eq Inr False by (simp add: Let_def)
      have "DefaultButton win s' = b \<and> (\<forall>q. q \<noteq> null \<and> (q = old \<or> q = b) \<longrightarrow> map_option c_drawAsDefault (controls s' q) = Some (q = b))"
        if "on_pane (Invalidate env b) (?t ?s2 b True) = Inr s'" for s'
        using that b(1) c assms(3) assms(4) [of old] by (cases "old = null") (auto simp: be_simps put_default_def DefaultButton_def s0_def option.map_comp comp_def)
      then show ?thesis using e2 by blast
    qed
  qed
qed

end
