(* ===== verification/FloatError.thy ===== *)
theory FloatError
  imports FloatOps
begin

text \<open>How far a rounded number can be from the exact one, for theorems about computations whose results are not exact.\<close>

lemma round_half_even_near: "\<bar>of_int (round_half_even x) - x\<bar> \<le> 1 / 2"
proof -
  have "of_int \<lfloor>x\<rfloor> \<le> x" "x < of_int \<lfloor>x\<rfloor> + 1" by linarith+
  then show ?thesis by (auto simp: round_half_even_def Let_def abs_le_iff)
qed

lemma pow2_mono: "a \<le> b \<Longrightarrow> pow2 a \<le> pow2 b"
  using pow2_add [of a "nat (b - a)"] mult_left_mono [of 1 "2 ^ nat (b - a)" "pow2 a"] by (simp add: less_imp_le)

text \<open>Half of a unit in the last place: relative to the number, or that of the smallest numbers.\<close>

lemma round32_error:
  assumes "\<bar>x\<bar> \<le> 2 ^ 126"
  shows "\<exists>y. round32 x = Fin y \<and> \<bar>y - x\<bar> \<le> \<bar>x\<bar> / 2 ^ 24 + 1 / 2 ^ 150"
proof (cases "x = 0")
  case False
  define u where "u = pow2 (ulp_exponent x)"
  define y where "y = of_int (round_half_even (x / u)) * u"
  have u: "0 < u" by (simp add: u_def)
  have "y - x = (of_int (round_half_even (x / u)) - x / u) * u" using u by (simp add: y_def left_diff_distrib)
  then have "\<bar>y - x\<bar> = \<bar>of_int (round_half_even (x / u)) - x / u\<bar> * u" using u by (simp add: abs_mult)
  then have half: "\<bar>y - x\<bar> \<le> u / 2" using mult_right_mono [OF round_half_even_near, of u "x / u"] u by simp
  have e: "pow2 (exponent \<bar>x\<bar>) \<le> \<bar>x\<bar>" using exponent_bounds(1) [of "\<bar>x\<bar>"] False by simp
  have "pow2 (exponent \<bar>x\<bar>) = pow2 (exponent \<bar>x\<bar> - 23) * 2 ^ 23" using pow2_add [of "exponent \<bar>x\<bar> - 23" 23] by simp
  then have "u / 2 \<le> \<bar>x\<bar> / 2 ^ 24 \<or> u / 2 = 1 / 2 ^ 150"
    using e by (cases "exponent \<bar>x\<bar> - 23 \<le> - 149") (simp_all add: u_def ulp_exponent_def max_def pow2_def)
  then have b: "\<bar>y - x\<bar> \<le> \<bar>x\<bar> / 2 ^ 24 + 1 / 2 ^ 150"
  proof
    assume "u / 2 \<le> \<bar>x\<bar> / 2 ^ 24"
    also have "\<dots> \<le> \<bar>x\<bar> / 2 ^ 24 + 1 / 2 ^ 150" by simp
    finally show ?thesis using half by linarith
  next
    assume "u / 2 = 1 / 2 ^ 150"
    also have "\<dots> \<le> \<bar>x\<bar> / 2 ^ 24 + 1 / 2 ^ 150" by simp
    finally show ?thesis using half by linarith
  qed
  have "\<bar>y\<bar> \<le> \<bar>x\<bar> + \<bar>y - x\<bar>" by linarith
  also have "\<dots> < 2 ^ 128" using b assms by simp
  finally have "round32 x = Fin y" using False by (simp add: round32_def Let_def u_def [symmetric] y_def [symmetric] not_le)
  then show ?thesis using b by blast
qed (simp add: round32_def)

lemma round32_near:
  assumes "\<bar>x\<bar> \<le> B" "1 \<le> B" "B \<le> 2 ^ 126"
  shows "\<exists>y. round32 x = Fin y \<and> \<bar>y - x\<bar> \<le> B / 2 ^ 23"
proof -
  obtain y where "round32 x = Fin y" "\<bar>y - x\<bar> \<le> \<bar>x\<bar> / 2 ^ 24 + 1 / 2 ^ 150" using round32_error [of x] assms by auto
  moreover have "\<bar>x\<bar> / 2 ^ 24 + 1 / 2 ^ 150 \<le> B / 2 ^ 23" using assms by simp
  ultimately show ?thesis by fastforce
qed

lemma fround_near:
  assumes "\<bar>x - of_int k\<bar> < 1 / 2"
  shows "fround (Fin x) = Fin (of_int k)"
proof (cases "0 \<le> x")
  case True
  have "\<lfloor>x + 1 / 2\<rfloor> = k" by (rule floor_unique) (use assms in linarith)+
  then show ?thesis using True by simp
next
  case False
  have "\<lceil>x - 1 / 2\<rceil> = k" by (rule ceiling_unique) (use assms in linarith)+
  then show ?thesis using False by simp
qed

text \<open>The numbers of a thumb: step \<open>n\<close> of \<open>r\<close> on a bar with the length \<open>W\<close>.\<close>

lemma thumb_offset:
  fixes n r W :: int
  assumes "0 \<le> n" "n \<le> r" "0 < r" "\<bar>W\<bar> < 2 ^ 16"
  shows "\<exists>q pos. round32 (of_int n / of_int r) = Fin q \<and> round32 (q * of_int W) = Fin pos \<and>
    \<bar>pos - of_int n * of_int W / of_int r\<bar> \<le> 3 / 128"
proof -
  let ?n = "of_int n :: rat" and ?r = "of_int r :: rat" and ?W = "of_int W :: rat"
  have i: "0 \<le> ?n" "?n \<le> ?r" "0 < ?r" using assms by simp_all
  have W: "\<bar>?W\<bar> \<le> 65536" using assms(4) of_int_le_iff [of "\<bar>W\<bar>" 65536, where 'a = rat] by simp
  have t: "\<bar>?n / ?r\<bar> \<le> 1" using i by (simp add: divide_le_eq)
  obtain q where q: "round32 (?n / ?r) = Fin q" "\<bar>q - ?n / ?r\<bar> \<le> 1 / 8388608" using round32_near [OF t] by auto
  have "\<bar>q\<bar> \<le> 2" using q(2) t by linarith
  then have "\<bar>q * ?W\<bar> \<le> 2 * \<bar>?W\<bar>" unfolding abs_mult by (rule mult_right_mono) simp
  also have "\<dots> \<le> 131072" using W by simp
  finally obtain pos where pos: "round32 (q * ?W) = Fin pos" "\<bar>pos - q * ?W\<bar> \<le> 1 / 64" using round32_near [of "q * ?W" 131072] by auto
  have "q * ?W - ?n * ?W / ?r = (q - ?n / ?r) * ?W" by (simp add: left_diff_distrib)
  then have "\<bar>q * ?W - ?n * ?W / ?r\<bar> = \<bar>q - ?n / ?r\<bar> * \<bar>?W\<bar>" by (simp add: abs_mult)
  also have "\<dots> \<le> 1 / 8388608 * 65536" using q(2) W by (intro mult_mono) auto
  finally have "\<bar>pos - ?n * ?W / ?r\<bar> \<le> 3 / 128" using pos(2) by linarith
  then show ?thesis using q(1) pos(1) by blast
qed

lemma thumb_value:
  fixes n r W d k :: int
  assumes "0 < r" "4 * r \<le> W" "W < 2 ^ 16" "0 \<le> d" "d \<le> W" "\<bar>n\<bar> < 2 ^ 16" "\<bar>k\<bar> < 2 ^ 16"
    and near: "of_int n * of_int W / of_int r - 7 / 128 \<le> (of_int d :: rat)" "(of_int d :: rat) \<le> of_int n * of_int W / of_int r + 1 + 7 / 128"
  shows "\<exists>m z y. round32 (of_int d * of_int r) = Fin m \<and> round32 (m / of_int W) = Fin z \<and> round32 (z + of_int k) = Fin y \<and>
    \<bar>y - of_int (n + k)\<bar> < 1 / 2"
proof -
  let ?n = "of_int n :: rat" and ?r = "of_int r :: rat" and ?W = "of_int W :: rat" and ?d = "of_int d :: rat" and ?k = "of_int k :: rat"
  have i: "0 < ?r" "0 < ?W" "0 \<le> ?d" "?d \<le> ?W" using assms by simp_all
  have r4: "4 * ?r \<le> ?W" using assms(2) by (metis of_int_le_iff of_int_mult of_int_numeral)
  have W: "?W \<le> 65536" using assms(3) of_int_le_iff [of W 65536, where 'a = rat] by simp
  have r1: "1 \<le> ?r" "1 \<le> ?W" using assms(1,2) by simp_all
  have b: "\<bar>?n\<bar> \<le> 65536" "\<bar>?k\<bar> \<le> 65536" 
    using assms(6,7) of_int_le_iff [of "\<bar>n\<bar>" 65536, where 'a = rat] of_int_le_iff [of "\<bar>k\<bar>" 65536, where 'a = rat] by simp_all
  define rho where "rho = ?r / ?W"
  have rho: "0 < rho" "rho \<le> 1 / 4" using i r4 by (simp_all add: rho_def divide_le_eq)
  have again: "?n * ?W / ?r * rho = ?n" using i by (simp add: rho_def)
  have lo: "?n - 7 / 128 * rho \<le> ?d * rho" using mult_right_mono [OF near(1), of rho] rho(1) again by (simp add: left_diff_distrib)
  have hi: "?d * rho \<le> ?n + rho + 7 / 128 * rho" using mult_right_mono [OF near(2), of rho] rho(1) again by (simp add: distrib_right)
  have WR: "?W * ?r \<le> 2 ^ 126" "1 \<le> ?W * ?r"
    using mult_mono [of ?W 65536 ?r 65536] W r4 r1 i mult_mono [of 1 ?W 1 ?r] by simp_all
  have "\<bar>?d * ?r\<bar> \<le> ?W * ?r" using i by (simp add: abs_mult)
  from round32_near [OF this WR(2,1)] obtain m where m: "round32 (?d * ?r) = Fin m" "\<bar>m - ?d * ?r\<bar> \<le> ?W * ?r / 2 ^ 23" by auto
  have "m / ?W - ?d * rho = (m - ?d * ?r) / ?W" by (simp add: rho_def diff_divide_distrib)
  then have "\<bar>m / ?W - ?d * rho\<bar> = \<bar>m - ?d * ?r\<bar> / ?W" using i by (simp add: abs_divide)
  also have "\<dots> \<le> ?W * ?r / 2 ^ 23 / ?W" using m(2) i by (intro divide_right_mono) auto
  also have "\<dots> = ?r / 8388608" using i by simp
  finally have mW: "\<bar>m / ?W - ?d * rho\<bar> \<le> 1 / 512" using r4 W by linarith
  then have "\<bar>m / ?W\<bar> \<le> 131072" using lo hi rho b(1) by linarith
  from round32_near [OF this] obtain z where z: "round32 (m / ?W) = Fin z" "\<bar>z - m / ?W\<bar> \<le> 1 / 64" by auto
  have "\<bar>z + ?k\<bar> \<le> 262144" using z(2) mW lo hi rho b by linarith
  from round32_near [OF this] obtain y where y: "round32 (z + ?k) = Fin y" "\<bar>y - (z + ?k)\<bar> \<le> 1 / 32" by auto
  have "\<bar>y - (?n + ?k)\<bar> < 1 / 2" using y(2) z(2) mW lo hi rho by linarith
  then show ?thesis using m(1) z(1) y(1) by (intro exI [of _ m] exI [of _ z] exI [of _ y]) simp
qed

text \<open>The result of a rounding, by its exponent and its digits.\<close>

lemma exponent_unique:
  assumes "pow2 e \<le> x" "x < pow2 (e + 1)"
  shows "exponent x = e"
proof -
  have x: "0 < x" using assms(1) pow2_pos [of e] by linarith
  have "\<not> exponent x + 1 \<le> e" using pow2_mono [of "exponent x + 1" e] exponent_bounds(2) [OF x] assms(1) by linarith
  moreover have "\<not> e + 1 \<le> exponent x" using pow2_mono [of "e + 1" "exponent x"] exponent_bounds(1) [OF x] assms(2) by linarith
  ultimately show ?thesis by simp
qed

lemma round_half_even_eq: "\<bar>x - of_int n\<bar> < 1 / 2 \<Longrightarrow> round_half_even x = n"
proof -
  assume a: "\<bar>x - of_int n\<bar> < 1 / 2"
  have "\<bar>of_int (round_half_even x) - of_int n :: rat\<bar> < 1" using a round_half_even_near [of x] by linarith
  then show ?thesis by linarith
qed

lemma round32_eq:
  assumes "pow2 e \<le> x" "x < pow2 (e + 1)" "- 126 \<le> e" "\<bar>x / pow2 (e - 23) - of_int n\<bar> < 1 / 2" "x \<le> 2 ^ 126"
  shows "round32 x = Fin (of_int n * pow2 (e - 23))"
proof -
  have x: "0 < x" using assms(1) pow2_pos [of e] by linarith
  have "ulp_exponent x = e - 23" using exponent_unique [OF assms(1,2)] x assms(3) by (simp add: ulp_exponent_def)
  moreover obtain y where "round32 x = Fin y" using round32_error [of x] x assms(5) by auto
  ultimately show ?thesis using round_half_even_eq [OF assms(4)] x by (auto simp: round32_def Let_def split: if_splits)
qed

end
