(* ===== verification/Slider.thy ===== *)
theory Slider
  imports Control FloatError
begin

text \<open>
  Sliders: \<open>BSlider\<close> of \<open>kits/interface/Slider.cpp\<close>. A slider is a control, in the store of the controls, with further members in the record
  \<open>slider\<close>; the hooks get the slider and the store and return both. Drawing is not modelled, the geometry that it uses is.
\<close>

section \<open>The objects\<close>

datatype hash_mark_location = B_HASH_MARKS_NONE | B_HASH_MARKS_TOP | B_HASH_MARKS_BOTTOM | B_HASH_MARKS_BOTH
datatype thumb_style = B_BLOCK_THUMB | B_TRIANGLE_THUMB
datatype orientation = B_HORIZONTAL | B_VERTICAL

record slider =
  fModificationMessage :: ptr
  fSnoozeAmount :: int
  fBarColor :: rgb_color
  fFillColor :: rgb_color
  fUseFillColor :: bool
  fMinLimitStr :: "byte list option"
  fMaxLimitStr :: "byte list option"
  fMinValue :: int
  fMaxValue :: int
  fKeyIncrementValue :: int
  fHashMarkCount :: int
  fHashMarks :: hash_mark_location
  fStyle :: thumb_style
  fLocation :: point
  fInitialLocation :: point
  fOrientation :: orientation
  fBarThickness :: flt

definition B_CONTROL_MODIFIED :: "32 word" where "B_CONTROL_MODIFIED = 0x434D4F44"
definition B_NO_POINTER_HISTORY :: "32 word" where "B_NO_POINTER_HISTORY = 4"
definition SLIDER_TEXT_PADDING :: flt where "SLIDER_TEXT_PADDING = Fin 4"
definition SLIDER_HASH_MARKS_SIZE :: flt where "SLIDER_HASH_MARKS_SIZE = Fin 6"

text \<open>Keys of a slider.\<close>

definition B_LEFT_ARROW :: byte where "B_LEFT_ARROW = 0x1c"
definition B_RIGHT_ARROW :: byte where "B_RIGHT_ARROW = 0x1d"
definition B_UP_ARROW :: byte where "B_UP_ARROW = 0x1e"
definition B_DOWN_ARROW :: byte where "B_DOWN_ARROW = 0x1f"
definition B_HOME :: byte where "B_HOME = 0x01"
definition B_END :: byte where "B_END = 0x04"

text \<open>A difference or sum of two \<open>int32\<close> is undefined outside the range.\<close>

definition checked :: "int \<Rightarrow> int outcome" where
  "checked n = (if - (2 ^ 31) \<le> n \<and> n < 2 ^ 31 then Inr n else Inl Undefined)"

text \<open>Sums and differences in \<open>double\<close>.\<close>

fun dadd :: "flt \<Rightarrow> flt \<Rightarrow> flt" where
  "dadd (Fin a) (Fin b) = round64 (a + b)"
| "dadd a b = fadd a b"

definition dsub :: "flt \<Rightarrow> flt \<Rightarrow> flt" where "dsub a b = dadd a (fneg b)"

text \<open>
  What the geometry depends on beside the slider: the bounds of the view, whether it has a label, whether \<open>UpdateText\<close>, which a
  subclass may override, returns a text, and the height of the font (ascent, descent, leading) with the widths of strings.
\<close>

record look =
  lk_bounds :: rect
  lk_label :: "byte list option"
  lk_update :: bool
  lk_font :: "flt \<times> flt \<times> flt"
  lk_width :: "byte list \<Rightarrow> flt"

definition ascent :: "look \<Rightarrow> flt" where "ascent lk = fst (lk_font lk)"
definition descent :: "look \<Rightarrow> flt" where "descent lk = fst (snd (lk_font lk))"
definition leading :: "look \<Rightarrow> flt" where "leading lk = snd (snd (lk_font lk))"

text \<open>The members of type \<open>BPoint\<close> have what is in memory.\<close>

definition Slider_new :: "point \<Rightarrow> point \<Rightarrow> rgb_color \<Rightarrow> rgb_color \<Rightarrow> int \<Rightarrow> int \<Rightarrow> orientation \<Rightarrow> thumb_style \<Rightarrow> slider" where
  "Slider_new location_in_memory initial_in_memory panel_color fill_color minValue maxValue posture thumbType =
     \<lparr>fModificationMessage = null, fSnoozeAmount = 20000, fBarColor = panel_color, fFillColor = fill_color, fUseFillColor = False,
      fMinLimitStr = None, fMaxLimitStr = None, fMinValue = minValue, fMaxValue = maxValue, fKeyIncrementValue = 1, fHashMarkCount = 0,
      fHashMarks = B_HASH_MARKS_NONE, fStyle = thumbType, fLocation = location_in_memory, fInitialLocation = initial_in_memory,
      fOrientation = posture, fBarThickness = Fin 6\<rparr>"

section \<open>The geometry\<close>

definition text_height :: "look \<Rightarrow> flt" where "text_height lk = fadd (fceil (ascent lk)) (fceil (descent lk))"

definition thumb_inset :: "thumb_style \<Rightarrow> flt" where
  "thumb_inset st = (case st of B_BLOCK_THUMB \<Rightarrow> Fin 8 | B_TRIANGLE_THUMB \<Rightarrow> Fin 7)"

definition BarFrame :: "look \<Rightarrow> slider \<Rightarrow> rect" where
  "BarFrame lk sl =
     (let frame = lk_bounds lk; textHeight = text_height lk; lead = fceil (leading lk); thumbInset = thumb_inset (fStyle sl);
          label = lk_label lk \<noteq> None
      in case fOrientation sl of
           B_HORIZONTAL \<Rightarrow>
             let frame_top = narrow (dadd SLIDER_HASH_MARKS_SIZE
                   (if label \<or> lk_update lk then dsub (dadd textHeight SLIDER_TEXT_PADDING) (fceil (descent lk)) else Fin 0))
             in frame\<lparr>r_left := thumbInset, r_top := frame_top, r_right := fsub (r_right frame) thumbInset,
                      r_bottom := fadd frame_top (fBarThickness sl)\<rparr>
         | B_VERTICAL \<Rightarrow>
             let frame_left = ffloor (narrow (dmul (fsub (Width frame) (fBarThickness sl)) (1 / 2)));
                 frame_top = (if label then fadd thumbInset textHeight else thumbInset);
                 frame_top = (if fMaxLimitStr sl \<noteq> None then
                                let y = fadd frame_top textHeight in if label then fadd y lead else y
                              else frame_top);
                 frame_bottom = fsub (r_bottom frame) thumbInset;
                 frame_bottom = (if fMinLimitStr sl \<noteq> None then fsub frame_bottom textHeight else frame_bottom);
                 frame_bottom = (if lk_update lk then
                                   let y = fsub frame_bottom textHeight in if fMinLimitStr sl \<noteq> None then fsub y lead else y
                                 else frame_bottom)
             in frame\<lparr>r_left := frame_left, r_top := frame_top, r_right := fadd frame_left (fBarThickness sl), r_bottom := frame_bottom\<rparr>)"

definition HashMarksFrame :: "look \<Rightarrow> slider \<Rightarrow> rect" where
  "HashMarksFrame lk sl =
     (let frame = BarFrame lk sl
      in case fOrientation sl of
           B_HORIZONTAL \<Rightarrow> frame\<lparr>r_top := fsub (r_top frame) SLIDER_HASH_MARKS_SIZE, r_bottom := fadd (r_bottom frame) SLIDER_HASH_MARKS_SIZE\<rparr>
         | B_VERTICAL \<Rightarrow> frame\<lparr>r_left := fsub (r_left frame) SLIDER_HASH_MARKS_SIZE, r_right := fadd (r_right frame) SLIDER_HASH_MARKS_SIZE\<rparr>)"

definition MinPosition :: "look \<Rightarrow> slider \<Rightarrow> flt" where
  "MinPosition lk sl = (case fOrientation sl of
     B_HORIZONTAL \<Rightarrow> fadd (r_left (BarFrame lk sl)) (Fin 1) | B_VERTICAL \<Rightarrow> fsub (r_bottom (BarFrame lk sl)) (Fin 1))"

definition MaxPosition :: "look \<Rightarrow> slider \<Rightarrow> flt" where
  "MaxPosition lk sl = (case fOrientation sl of
     B_HORIZONTAL \<Rightarrow> fsub (r_right (BarFrame lk sl)) (Fin 1) | B_VERTICAL \<Rightarrow> fadd (r_top (BarFrame lk sl)) (Fin 1))"

definition value_range :: "slider \<Rightarrow> flt outcome" where
  "value_range sl = bindR (checked (fMaxValue sl - fMinValue sl)) (\<lambda>r. Inr (if feq (fint r) (Fin 0) then Fin 1 else fint r))"

definition Position :: "slider \<Rightarrow> int \<Rightarrow> flt outcome" where
  "Position sl v =
     bindR (value_range sl) (\<lambda>range. bindR (checked (v - fMinValue sl)) (\<lambda>n. Inr (fdiv (fint n) range)))"

definition ThumbFrame :: "look \<Rightarrow> slider \<Rightarrow> int \<Rightarrow> rect outcome" where
  "ThumbFrame lk sl v =
     bindR (Position sl v) (\<lambda>position.
     let frame = lk_bounds lk; textHeight = text_height lk; label = lk_label lk \<noteq> None; thick = fBarThickness sl;
         along = fmul position (fsub (MaxPosition lk sl) (MinPosition lk sl));
         place = ffloor (fadd along (MinPosition lk sl))
     in Inr (case fStyle sl of
          B_BLOCK_THUMB \<Rightarrow>
            (case fOrientation sl of
               B_HORIZONTAL \<Rightarrow>
                 let l = fsub place (Fin 8);
                     t = narrow (dadd (Fin 2) (if label \<or> lk_update lk
                           then dadd (fsub textHeight (fceil (descent lk))) SLIDER_TEXT_PADDING else Fin 0))
                 in Rect_of l t (fadd l (Fin 17)) (fadd (fadd t thick) (Fin 7))
             | B_VERTICAL \<Rightarrow>
                 let l = fsub (ffloor (fdiv (fsub (Width frame) thick) (Fin 2))) (Fin 3); t = fsub place (Fin 8)
                 in Rect_of l t (fadd (fadd l thick) (Fin 7)) (fadd t (Fin 17)))
        | B_TRIANGLE_THUMB \<Rightarrow>
            (case fOrientation sl of
               B_HORIZONTAL \<Rightarrow>
                 let l = fsub place (Fin 6);
                     t = narrow (dadd (fadd (Fin 3) thick) (if label
                           then dsub (dadd textHeight SLIDER_TEXT_PADDING) (fceil (descent lk)) else Fin 0))
                 in Rect_of l t (fadd l (Fin 12)) (fadd t (Fin 8))
             | B_VERTICAL \<Rightarrow>
                 let l = fsub (ffloor (fdiv (fadd (Width frame) thick) (Fin 2))) (Fin 3);
                     t = fsub (fadd (ffloor along) (MinPosition lk sl)) (Fin 6)
                 in Rect_of l t (fadd l (Fin 8)) (fadd t (Fin 12)))))"

text \<open>Where \<open>SetValue\<close> puts the thumb.\<close>

definition location_of :: "look \<Rightarrow> slider \<Rightarrow> int \<Rightarrow> point outcome" where
  "location_of lk sl v =
     bindR (Position sl v) (\<lambda>position.
     let pos = fmul position (fsub (MaxPosition lk sl) (MinPosition lk sl))
     in Inr (case fOrientation sl of
          B_HORIZONTAL \<Rightarrow> Point_new (fceil (fadd (MinPosition lk sl) pos)) (Fin 0)
        | B_VERTICAL \<Rightarrow> Point_new (Fin 0) (ffloor (fsub (MaxPosition lk sl) pos))))"

definition ValueForPoint :: "look \<Rightarrow> slider \<Rightarrow> point \<Rightarrow> int outcome" where
  "ValueForPoint lk sl pt =
     (let (mn, mx, position) = (case fOrientation sl of
        B_HORIZONTAL \<Rightarrow> (MinPosition lk sl, MaxPosition lk sl, pt_x pt)
      | B_VERTICAL \<Rightarrow> (let mx = MinPosition lk sl; mn = MaxPosition lk sl in (mn, mx, fadd mn (fsub mx (pt_y pt)))));
          position = (if fless position mn then mn else position);
          position = (if fless mx position then mx else position)
      in bindR (checked (fMaxValue sl - fMinValue sl)) (\<lambda>r.
         to_int32 (fround (fadd (fdiv (fmul (fsub position mn) (fint r)) (fsub mx mn)) (fint (fMinValue sl))))))"

text \<open>The point as it is afterwards.\<close>

definition ConstrainPoint :: "look \<Rightarrow> slider \<Rightarrow> point \<Rightarrow> point \<Rightarrow> bool \<times> point" where
  "ConstrainPoint lk sl pt comparePoint =
     (case fOrientation sl of
        B_HORIZONTAL \<Rightarrow>
          if \<not> feq (pt_x pt) (pt_x comparePoint) then
            (True, if fless (pt_x pt) (MinPosition lk sl) then pt\<lparr>pt_x := MinPosition lk sl\<rparr>
                   else if fless (MaxPosition lk sl) (pt_x pt) then pt\<lparr>pt_x := MaxPosition lk sl\<rparr> else pt)
          else (False, pt)
      | B_VERTICAL \<Rightarrow>
          if \<not> feq (pt_y pt) (pt_y comparePoint) then
            (True, if fless (MinPosition lk sl) (pt_y pt) then pt\<lparr>pt_y := MinPosition lk sl\<rparr>
                   else if fless (pt_y pt) (MaxPosition lk sl) then pt\<lparr>pt_y := MaxPosition lk sl\<rparr> else pt)
          else (False, pt))"

definition Slider_GetPreferredSize :: "look \<Rightarrow> slider \<Rightarrow> flt \<times> flt" where
  "Slider_GetPreferredSize lk sl =
     (let noLeading = text_height lk; lineHeight = fadd noLeading (fceil (leading lk)); wd = (\<lambda>t. lk_width lk (the t));
          label = lk_label lk \<noteq> None; mn = fMinLimitStr sl \<noteq> None; mx = fMaxLimitStr sl \<noteq> None
      in case fOrientation sl of
           B_HORIZONTAL \<Rightarrow>
             let height = narrow (dadd (dmul SLIDER_HASH_MARKS_SIZE 2) (fBarThickness sl));
                 labelWidth = (if label then wd (lk_label lk) else Fin 0); labelSpacing = fmul (lk_width lk [0x4D]) (Fin 2);
                 height = (if label then narrow (dadd height (dsub (dadd noLeading SLIDER_TEXT_PADDING) (fceil (descent lk)))) else height);
                 width = (if mn then wd (fMinLimitStr sl) else Fin 0);
                 width = (if mx then fadd (if mn then fadd width labelSpacing else width) (wd (fMaxLimitStr sl)) else width);
                 width = (if fless width labelWidth then labelWidth else width);
                 width = (if fless width (Fin 32) then Fin 32 else width);
                 height = (if mn \<or> mx then narrow (dadd height (dadd noLeading SLIDER_TEXT_PADDING)) else height)
             in (fmax (Width (lk_bounds lk)) width, height)
         | B_VERTICAL \<Rightarrow>
             let width = narrow (dadd (dmul SLIDER_HASH_MARKS_SIZE 2) (fBarThickness sl)); height = Fin 32;
                 labelWidth = (if label then wd (lk_label lk) else Fin 0); height = (if label then fadd height noLeading else height);
                 labelWidth = (if mx then fmax labelWidth (wd (fMaxLimitStr sl)) else labelWidth);
                 height = (if mx then fadd height (if label then lineHeight else noLeading) else height);
                 labelWidth = (if mn then fmax labelWidth (wd (fMinLimitStr sl)) else labelWidth);
                 height = (if mn then fadd height noLeading else height)
             in (fmax labelWidth width, fmax (Height (lk_bounds lk)) height))"

section \<open>The value\<close>

text \<open>What a call depends on: the environment, the delivery of messages, the frame of \<open>Invoke\<close>, and the look but for bounds and label.\<close>

record slider_env =
  se_env :: env
  se_delivery :: delivery
  se_frame :: ptr
  se_update :: bool
  se_font :: "flt \<times> flt \<times> flt"
  se_width :: "byte list \<Rightarrow> flt"

type_synonym slider_state = "slider \<times> control_state"

definition look_of :: "slider_env \<Rightarrow> ptr \<Rightarrow> control_state \<Rightarrow> look outcome" where
  "look_of e this s =
     bindR (the_view this s) (\<lambda>v. bindR (alive (controls s this)) (\<lambda>c.
     Inr \<lparr>lk_bounds = Bounds v, lk_label = Control_Label c, lk_update = se_update e, lk_font = se_font e, lk_width = se_width e\<rparr>))"

definition Slider_Value :: "ptr \<Rightarrow> control_state \<Rightarrow> int outcome" where
  "Slider_Value this s = bindR (alive (controls s this)) (\<lambda>c. Inr (Value c))"

definition clamp :: "slider \<Rightarrow> int \<Rightarrow> int" where
  "clamp sl v = (let v = if v < fMinValue sl then fMinValue sl else v in if fMaxValue sl < v then fMaxValue sl else v)"

definition Slider_SetValue :: "slider_env \<Rightarrow> ptr \<Rightarrow> int \<Rightarrow> slider_state \<Rightarrow> slider_state outcome" where
  "Slider_SetValue e this v x =
     (let (sl, s) = x; v = clamp sl v
      in bindR (Slider_Value this s) (\<lambda>old.
         if v = old then Inr x
         else bindR (look_of e this s) (\<lambda>lk.
              bindR (location_of lk sl v) (\<lambda>loc.
              let sl = sl\<lparr>fLocation := loc\<rparr>
              in bindR (ThumbFrame lk sl old) (\<lambda>oldThumbFrame.
                 bindR (SetValueNoUpdate this v s) (\<lambda>s.
                 bindR (ThumbFrame lk sl v) (\<lambda>newThumbFrame.
                 let invalid = Rect_or oldThumbFrame newThumbFrame;
                     invalid = (if fUseFillColor sl then Rect_or invalid (BarFrame lk sl) else invalid)
                 in bindR (on_pane (Invalidate_rect (se_env e) this invalid) s) (\<lambda>s. Inr (sl, s)))))))))"

definition SetPosition :: "slider_env \<Rightarrow> ptr \<Rightarrow> flt \<Rightarrow> slider_state \<Rightarrow> slider_state outcome" where
  "SetPosition e this position x =
     (let sl = fst x
      in if fle position (Fin 0) then Slider_SetValue e this (fMinValue sl) x
         else if fle (Fin 1) position then Slider_SetValue e this (fMaxValue sl) x
         else bindR (checked (fMaxValue sl - fMinValue sl)) (\<lambda>r.
              bindR (to_int32 (fadd (fmul position (fint r)) (fint (fMinValue sl)))) (\<lambda>v. Slider_SetValue e this v x)))"

text \<open>
  \<open>OffscreenView\<close> is the slider itself, whose view color \<open>BControl::AttachedToWindow\<close> has set already. The value is first made another
  one, so that \<open>SetValue\<close> does its work.
\<close>

definition Slider_AttachedToWindow :: "slider_env \<Rightarrow> ptr \<Rightarrow> slider_state \<Rightarrow> slider_state outcome" where
  "Slider_AttachedToWindow e this x =
     (let (sl, s) = x
      in bindR (look_of e this s) (\<lambda>lk.
         let (width, height) = Slider_GetPreferredSize lk sl
         in bindR (on_pane (ResizeTo (se_env e) this width height) s) (\<lambda>s.
            bindR (Control_AttachedToWindow this s) (\<lambda>s.
            bindR (Slider_Value this s) (\<lambda>v.
            bindR (checked (v - 1)) (\<lambda>v'.
            bindR (SetValueNoUpdate this v' s) (\<lambda>s. Slider_SetValue e this v (sl, s))))))))"

section \<open>The hooks\<close>

text \<open>\<open>Invoke\<close>, and \<open>InvokeNotify\<close> with the modification message.\<close>

definition slider_invoke :: "slider_env \<Rightarrow> ptr \<Rightarrow> slider_state \<Rightarrow> slider_state outcome" where
  "slider_invoke e this x =
     bindR (Control_Invoke (se_delivery e) (e_now (se_env e)) (se_frame e) this null (snd x)) (\<lambda>(_, s). Inr (fst x, s))"

definition slider_modified :: "slider_env \<Rightarrow> ptr \<Rightarrow> slider_state \<Rightarrow> slider_state outcome" where
  "slider_modified e this x =
     bindR (Control_InvokeNotify (se_delivery e) (e_now (se_env e)) (se_frame e) this (fModificationMessage (fst x)) B_CONTROL_MODIFIED (snd x))
       (\<lambda>(_, s). Inr (fst x, s))"

text \<open>\<open>IsHidden\<close> of a view returns false.\<close>

definition Slider_KeyDown :: "slider_env \<Rightarrow> ptr \<Rightarrow> mem option \<Rightarrow> slider_state \<Rightarrow> slider_state outcome" where
  "Slider_KeyDown e this str x =
     (let (sl, s) = x
      in bindR (alive (controls s this)) (\<lambda>c.
         if \<not> Control_IsEnabled c then Inr x
         else bindR (read_ptr str 1) (\<lambda>b.
              let key = hd b
              in bindR (if key = B_LEFT_ARROW \<or> key = B_DOWN_ARROW then
                          bindR (checked (Value c - fKeyIncrementValue sl)) (\<lambda>v. Inr (Some v))
                        else if key = B_RIGHT_ARROW \<or> key = B_UP_ARROW then
                          bindR (checked (Value c + fKeyIncrementValue sl)) (\<lambda>v. Inr (Some v))
                        else if key = B_HOME then Inr (Some (fMinValue sl))
                        else if key = B_END then Inr (Some (fMaxValue sl))
                        else Inr None) (\<lambda>newValue.
                 case newValue of
                   None \<Rightarrow> Inr x
                 | Some v \<Rightarrow>
                     let v = clamp sl v
                     in if v \<noteq> Value c then
                          bindR (Slider_SetValue e this v (sl\<lparr>fInitialLocation := fLocation sl\<rparr>, s)) (slider_modified e this)
                        else Inr x))))"

definition Slider_KeyUp :: "slider_env \<Rightarrow> ptr \<Rightarrow> slider_state \<Rightarrow> slider_state outcome" where
  "Slider_KeyUp e this x =
     (if Point_neq (fInitialLocation (fst x)) (fLocation (fst x)) then slider_invoke e this x else Inr x)"

definition Slider_MouseDown :: "slider_env \<Rightarrow> ptr \<Rightarrow> point \<Rightarrow> slider_state \<Rightarrow> slider_state outcome" where
  "Slider_MouseDown e this pt x =
     (let (sl, s) = x
      in bindR (alive (controls s this)) (\<lambda>c.
         if \<not> Control_IsEnabled c then Inr x
         else bindR (look_of e this s) (\<lambda>lk.
              bindR (if Contains (BarFrame lk sl) pt then Inr True
                     else bindR (ThumbFrame lk sl (Value c)) (\<lambda>thumb. Inr (Contains thumb pt))) (\<lambda>hit.
              let sl = (if hit then sl\<lparr>fInitialLocation := fLocation sl\<rparr> else sl);
                  pt = snd (ConstrainPoint lk sl pt (fInitialLocation sl))
              in bindR (ValueForPoint lk sl pt) (\<lambda>v.
                 bindR (Slider_SetValue e this v (sl, s)) (\<lambda>x.
                 bindR (if Point_neq (fLocation (fst x)) (fInitialLocation (fst x)) then slider_modified e this x else Inr x) (\<lambda>(sl, s).
                 bindR (SetTracking this True s) (\<lambda>s.
                 bindR (on_pane (\<lambda>g. bindR (SetMouseEventMask this B_POINTER_EVENTS (B_LOCK_WINDOW_FOCUS OR B_NO_POINTER_HISTORY) g)
                          (\<lambda>(_, g). Inr g)) s) (\<lambda>s. Inr (sl, s))))))))))"

definition Slider_MouseUp :: "slider_env \<Rightarrow> ptr \<Rightarrow> slider_state \<Rightarrow> slider_state outcome" where
  "Slider_MouseUp e this x =
     bindR (alive (controls (snd x) this)) (\<lambda>c.
     if \<not> IsTracking c then Inr x
     else bindR (if Point_neq (fLocation (fst x)) (fInitialLocation (fst x)) then slider_invoke e this x else Inr x) (\<lambda>(sl, s).
          bindR (SetTracking this False s) (\<lambda>s. Inr (sl, s))))"

definition Slider_MouseMoved :: "slider_env \<Rightarrow> ptr \<Rightarrow> point \<Rightarrow> slider_state \<Rightarrow> slider_state outcome" where
  "Slider_MouseMoved e this pt x =
     (let (sl, s) = x
      in bindR (alive (controls s this)) (\<lambda>c.
         if \<not> IsTracking c then Inr x
         else bindR (look_of e this s) (\<lambda>lk.
              let (moved, pt) = ConstrainPoint lk sl pt (fLocation sl)
              in if \<not> moved then Inr x
                 else bindR (ValueForPoint lk sl pt) (\<lambda>v.
                      if v \<noteq> Value c then bindR (Slider_SetValue e this v x) (slider_modified e this) else Inr x))))"

section \<open>The setters\<close>

definition invalidate_with :: "slider_env \<Rightarrow> ptr \<Rightarrow> (slider \<Rightarrow> slider) \<Rightarrow> slider_state \<Rightarrow> slider_state outcome" where
  "invalidate_with e this f x = bindR (on_pane (Invalidate (se_env e) this) (snd x)) (\<lambda>s. Inr (f (fst x), s))"

definition invalidate_bar_with :: "slider_env \<Rightarrow> ptr \<Rightarrow> (slider \<Rightarrow> slider) \<Rightarrow> slider_state \<Rightarrow> slider_state outcome" where
  "invalidate_bar_with e this f x =
     bindR (look_of e this (snd x)) (\<lambda>lk.
     let sl = f (fst x) in bindR (on_pane (Invalidate_rect (se_env e) this (BarFrame lk sl)) (snd x)) (\<lambda>s. Inr (sl, s)))"

definition SetLimitLabels :: "slider_env \<Rightarrow> ptr \<Rightarrow> byte list option \<Rightarrow> byte list option \<Rightarrow> slider_state \<Rightarrow> slider_state outcome" where
  "SetLimitLabels e this minLabel maxLabel = invalidate_with e this (\<lambda>sl. sl\<lparr>fMinLimitStr := minLabel, fMaxLimitStr := maxLabel\<rparr>)"

definition SetModificationMessage :: "ptr \<Rightarrow> slider_state \<Rightarrow> slider_state outcome" where
  "SetModificationMessage message x =
     (let (sl, s) = x
      in bindR (if fModificationMessage sl = null then Inr (world (pane s)) else delete_message (fModificationMessage sl) (world (pane s))) (\<lambda>w.
         Inr (sl\<lparr>fModificationMessage := message\<rparr>, s\<lparr>pane := (pane s)\<lparr>world := w\<rparr>\<rparr>)))"

definition SetSnoozeAmount :: "int \<Rightarrow> slider \<Rightarrow> slider" where
  "SetSnoozeAmount snoozeTime sl =
     sl\<lparr>fSnoozeAmount := if snoozeTime < 10000 then 10000 else if 1000000 < snoozeTime then 1000000 else snoozeTime\<rparr>"

definition SetKeyIncrementValue :: "int \<Rightarrow> slider \<Rightarrow> slider" where
  "SetKeyIncrementValue incrementValue sl = sl\<lparr>fKeyIncrementValue := incrementValue\<rparr>"

definition SetHashMarkCount :: "slider_env \<Rightarrow> ptr \<Rightarrow> int \<Rightarrow> slider_state \<Rightarrow> slider_state outcome" where
  "SetHashMarkCount e this n = invalidate_with e this (\<lambda>sl. sl\<lparr>fHashMarkCount := n\<rparr>)"

definition SetHashMarks :: "slider_env \<Rightarrow> ptr \<Rightarrow> hash_mark_location \<Rightarrow> slider_state \<Rightarrow> slider_state outcome" where
  "SetHashMarks e this marks = invalidate_with e this (\<lambda>sl. sl\<lparr>fHashMarks := marks\<rparr>)"

definition SetStyle :: "slider_env \<Rightarrow> ptr \<Rightarrow> thumb_style \<Rightarrow> slider_state \<Rightarrow> slider_state outcome" where
  "SetStyle e this st = invalidate_with e this (\<lambda>sl. sl\<lparr>fStyle := st\<rparr>)"

definition SetBarColor :: "slider_env \<Rightarrow> ptr \<Rightarrow> rgb_color \<Rightarrow> slider_state \<Rightarrow> slider_state outcome" where
  "SetBarColor e this color = invalidate_bar_with e this (\<lambda>sl. sl\<lparr>fBarColor := color\<rparr>)"

definition UseFillColor :: "slider_env \<Rightarrow> ptr \<Rightarrow> bool \<Rightarrow> rgb_color option \<Rightarrow> slider_state \<Rightarrow> slider_state outcome" where
  "UseFillColor e this useFill fillColor =
     invalidate_bar_with e this (\<lambda>sl. sl\<lparr>fUseFillColor := useFill,
       fFillColor := case fillColor of Some c \<Rightarrow> if useFill then c else fFillColor sl | None \<Rightarrow> fFillColor sl\<rparr>)"

definition SetOrientation :: "orientation \<Rightarrow> slider \<Rightarrow> slider" where "SetOrientation posture sl = sl\<lparr>fOrientation := posture\<rparr>"

definition SetBarThickness :: "slider_env \<Rightarrow> ptr \<Rightarrow> flt \<Rightarrow> slider_state \<Rightarrow> slider_state outcome" where
  "SetBarThickness e this thickness x =
     (let (sl, s) = x; thickness = (if fless thickness (Fin 1) then Fin 1 else fround thickness)
      in if feq thickness (fBarThickness sl) then Inr x
         else bindR (look_of e this s) (\<lambda>lk.
              bindR (Slider_Value this s) (\<lambda>v.
              let (hInset, vInset) = (case fOrientation sl of B_HORIZONTAL \<Rightarrow> (Fin 0, Fin (- 6)) | B_VERTICAL \<Rightarrow> (Fin (- 6), Fin 0));
                  around = (\<lambda>sl. fst (InsetByCopy (BarFrame lk sl) hInset vInset))
              in bindR (ThumbFrame lk sl v) (\<lambda>thumb.
                 let invalid = Rect_or (around sl) thumb; sl = sl\<lparr>fBarThickness := thickness\<rparr>
                 in bindR (ThumbFrame lk sl v) (\<lambda>thumb.
                    bindR (on_pane (Invalidate_rect (se_env e) this (Rect_or (Rect_or invalid (around sl)) thumb)) s) (\<lambda>s.
                    Inr (sl, s)))))))"

section \<open>Where the thumb is\<close>

lemma checked_ok: "- (2 ^ 31) \<le> n \<Longrightarrow> n < 2 ^ 31 \<Longrightarrow> checked n = Inr n"
  by (simp add: checked_def)

text \<open>The value of a place near step \<open>n\<close> of \<open>r\<close>, between \<open>mn\<close> and \<open>mx\<close>.\<close>

lemma value_near:
  fixes n r y mn mx k :: int
  assumes b: "0 < r" "4 * r \<le> mx - mn" "mx - mn < 2 ^ 16" "0 \<le> n" "n \<le> r" "\<bar>mn\<bar> < 2 ^ 17" "\<bar>k\<bar> < 2 ^ 16"
    and near: "of_int n * of_int (mx - mn) / of_int r - 7 / 128 \<le> (of_int (y - mn) :: rat)"
      "(of_int (y - mn) :: rat) \<le> of_int n * of_int (mx - mn) / of_int r + 1 + 7 / 128"
  shows "(let position = (if fless (Fin (of_int y)) (Fin (of_int mn)) then Fin (of_int mn) else Fin (of_int y));
              position = (if fless (Fin (of_int mx)) position then Fin (of_int mx) else position)
          in to_int32 (fround (fadd (fdiv (fmul (fsub position (Fin (of_int mn))) (fint r)) (fsub (Fin (of_int mx)) (Fin (of_int mn)))) (fint k)))) = Inr (n + k)"
proof -
  define y' where "y' = max mn (min y mx)"
  let ?T = "of_int n * of_int (mx - mn) / of_int r :: rat" and ?d = "y' - mn"
  have W: "0 < mx - mn" using b by simp
  have T: "0 \<le> ?T" "?T \<le> of_int (mx - mn)"
    using W b mult_right_mono [of "of_int n :: rat" "of_int r" "of_int (mx - mn)"] by (simp_all add: divide_le_eq mult.commute)
  have d: "0 \<le> ?d" "?d \<le> mx - mn" using W by (auto simp: y'_def)
  have nd: "?T - 7 / 128 \<le> of_int ?d" "of_int ?d \<le> ?T + 1 + 7 / 128"
    using near T W by (auto simp: y'_def max_def min_def)
  have "\<bar>n\<bar> < 2 ^ 16" using b by simp
  from thumb_value [OF b(1-3) d this b(7) nd] obtain m z x where m: "round32 (of_int ?d * of_int r) = Fin m" "round32 (m / of_int (mx - mn)) = Fin z"
      "round32 (z + of_int k) = Fin x" "\<bar>x - of_int (n + k)\<bar> < 1 / 2" by blast
  have e: "exact ?d" "exact r" "exact (mx - mn)" "exact k" "exact (n + k)" using d b by (simp_all add: exact_def)
  have p: "(let position = (if fless (Fin (of_int y)) (Fin (of_int mn)) then Fin (of_int mn) else Fin (of_int y))
          in if fless (Fin (of_int mx)) position then Fin (of_int mx) else position) = Fin (of_int y')"
    using W by (auto simp: y'_def max_def min_def Let_def)
  have "fdiv (fmul (fsub (Fin (of_int y')) (Fin (of_int mn))) (fint r)) (fsub (Fin (of_int mx)) (Fin (of_int mn))) = Fin z"
    unfolding fsub_int [OF e(1)] fsub_int [OF e(3)] fint_exact [OF e(2)] using m(1,2) W by simp
  then have "fadd (fdiv (fmul (fsub (Fin (of_int y')) (Fin (of_int mn))) (fint r)) (fsub (Fin (of_int mx)) (Fin (of_int mn)))) (fint k) = Fin x"
    using m(3) e(4) by simp
  then show ?thesis using p fround_near [OF m(4)] to_int32_int [OF e(5)] by (simp add: Let_def del: fround.simps)
qed

text \<open>C35. The thumb is where its value is. On a horizontal slider whose bar has four pixels or more for every step of the value,
  the place that \<open>SetValue\<close> computes for a value is a place for which \<open>ValueForPoint\<close> gives this value, whatever was rounded on the way: a
  click on the thumb changes nothing. The bar starts and ends at whole pixels, and these, its length and the minimum are below \<open>2^16\<close>.
  On a vertical slider \<open>SetValue\<close> computes the place from the wrong end, and \<open>ValueForPoint\<close> gives the mirrored value.\<close>

theorem slider_place_of_value:
  assumes at: "MinPosition lk sl = Fin (of_int a)" "MaxPosition lk sl = Fin (of_int b)" "\<bar>a\<bar> < 2 ^ 16" "\<bar>b\<bar> < 2 ^ 16"
    and len: "len = (case fOrientation sl of B_HORIZONTAL \<Rightarrow> b - a | B_VERTICAL \<Rightarrow> a - b)" "len < 2 ^ 16" "4 * (fMaxValue sl - fMinValue sl) \<le> len"
    and v: "fMinValue sl \<le> v" "v \<le> fMaxValue sl" "fMinValue sl < fMaxValue sl" "\<bar>fMinValue sl\<bar> < 2 ^ 16"
  shows "\<exists>loc. location_of lk sl v = Inr loc \<and>
    ValueForPoint lk sl loc = Inr (case fOrientation sl of B_HORIZONTAL \<Rightarrow> v | B_VERTICAL \<Rightarrow> fMinValue sl + fMaxValue sl - v)"
proof -
  define n r where "n = v - fMinValue sl" and "r = fMaxValue sl - fMinValue sl"
  have nr: "0 \<le> n" "n \<le> r" "0 < r" "r < 2 ^ 16" using v len by (simp_all add: n_def r_def)
  have ba: "\<bar>b - a\<bar> < 2 ^ 16" using len nr(3) by (cases "fOrientation sl") (simp_all add: r_def)
  obtain q pos where q: "round32 (of_int n / of_int r) = Fin q" "round32 (q * of_int (b - a)) = Fin pos"
      "\<bar>pos - of_int n * of_int (b - a) / of_int r\<bar> \<le> 3 / 128"
    using thumb_offset [OF nr(1-3) ba] by blast
  have e: "exact n" "exact r" "exact (b - a)" using nr ba by (simp_all add: exact_def)
  have r: "checked (fMaxValue sl - fMinValue sl) = Inr r" "checked (v - fMinValue sl) = Inr n" "fint r = Fin (of_int r)"
    using nr e by (simp_all add: checked_def n_def r_def)
  have "Position sl v = Inr (Fin q)" using r e(1) q(1) nr(3) by (simp add: Position_def value_range_def)
  moreover have w: "fsub (Fin (of_int b)) (Fin (of_int a)) = Fin (of_int (b - a))" by (rule fsub_int [OF e(3)])
  ultimately have loc: "location_of lk sl v = Inr (case fOrientation sl of
      B_HORIZONTAL \<Rightarrow> Point_new (fceil (fadd (Fin (of_int a)) (Fin pos))) (Fin 0) | B_VERTICAL \<Rightarrow> Point_new (Fin 0) (ffloor (fsub (Fin (of_int b)) (Fin pos))))"
    using at(1,2) q(2) by (cases "fOrientation sl") (simp_all add: location_of_def Let_def)
  have A: "\<bar>of_int a :: rat\<bar> \<le> 65536" "\<bar>of_int b :: rat\<bar> \<le> 65536"
    using at(3,4) of_int_le_iff [of "\<bar>a\<bar>" 65536, where 'a = rat] of_int_le_iff [of "\<bar>b\<bar>" 65536, where 'a = rat] by simp_all
  let ?T = "of_int n * of_int (b - a) / of_int r :: rat"
  have "\<bar>?T\<bar> = of_int n / of_int r * \<bar>of_int (b - a)\<bar>" using nr by (simp add: abs_mult abs_divide)
  also have "\<dots> \<le> 1 * \<bar>of_int (b - a)\<bar>" using nr by (intro mult_right_mono) (simp_all add: divide_le_eq)
  finally have T: "\<bar>?T\<bar> \<le> 65536" using ba of_int_le_iff [of "\<bar>b - a\<bar>" 65536, where 'a = rat] by simp
  show ?thesis
  proof (cases "fOrientation sl")
    case B_HORIZONTAL
    have "\<bar>of_int a + pos\<bar> \<le> 262144" using q(3) T A by linarith
    from round32_near [OF this] obtain y where y: "round32 (of_int a + pos) = Fin y" "\<bar>y - (of_int a + pos)\<bar> \<le> 1 / 32" by auto
    have "y \<le> of_int \<lceil>y\<rceil>" "of_int \<lceil>y\<rceil> < y + 1" by linarith+
    then have near: "?T - 7 / 128 \<le> of_int (\<lceil>y\<rceil> - a)" "of_int (\<lceil>y\<rceil> - a) \<le> ?T + 1 + 7 / 128"
      using y(2) q(3) unfolding of_int_diff by linarith+
    have "ValueForPoint lk sl (Point_new (Fin (of_int \<lceil>y\<rceil>)) (Fin 0)) = Inr (n + fMinValue sl)"
      using value_near [OF nr(3) _ _ nr(1,2) _ v(4) near] B_HORIZONTAL len at r(1)
      by (simp add: ValueForPoint_def Point_new_def r_def)
    then show ?thesis using loc B_HORIZONTAL y(1) by (simp add: n_def)
  next
    case B_VERTICAL
    have "\<bar>of_int b + - pos\<bar> \<le> 262144" using q(3) T A by linarith
    from round32_near [OF this] obtain y where y: "round32 (of_int b + - pos) = Fin y" "\<bar>y - (of_int b + - pos)\<bar> \<le> 1 / 32" by auto
    have fl: "of_int \<lfloor>y\<rfloor> \<le> y" "y < of_int \<lfloor>y\<rfloor> + 1" by linarith+
    have "\<bar>of_int \<lfloor>y\<rfloor> :: rat\<bar> \<le> 524288" using fl y(2) q(3) T A by linarith
    then have "\<bar>\<lfloor>y\<rfloor>\<bar> \<le> 524288" using of_int_le_iff [of "\<bar>\<lfloor>y\<rfloor>\<bar>" 524288, where 'a = rat] by simp
    then have ex: "exact (a - \<lfloor>y\<rfloor>)" "exact (b + (a - \<lfloor>y\<rfloor>))" using at(3,4) by (simp_all add: exact_def)
    have T': "of_int (r - n) * of_int (a - b) / of_int r = (of_int (a - b) + ?T :: rat)"
      using nr(3) by (simp add: field_simps)
    have near: "of_int (r - n) * of_int (a - b) / of_int r - 7 / 128 \<le> (of_int (b + (a - \<lfloor>y\<rfloor>) - b) :: rat)"
      "(of_int (b + (a - \<lfloor>y\<rfloor>) - b) :: rat) \<le> of_int (r - n) * of_int (a - b) / of_int r + 1 + 7 / 128"
      using fl y(2) q(3) unfolding T' unfolding of_int_diff of_int_add by linarith+
    have p: "fadd (Fin (of_int b)) (fsub (Fin (of_int a)) (Fin (of_int \<lfloor>y\<rfloor>))) = Fin (of_int (b + (a - \<lfloor>y\<rfloor>)))"
      unfolding fsub_int [OF ex(1)] by (rule fadd_int [OF ex(2)])
    have "ValueForPoint lk sl (Point_new (Fin 0) (Fin (of_int \<lfloor>y\<rfloor>))) = Inr (r - n + fMinValue sl)"
      using value_near [OF nr(3) _ _ _ _ _ v(4) near] B_VERTICAL len at r(1) nr p
      by (simp add: ValueForPoint_def Point_new_def r_def del: of_int_add of_int_diff)
    then show ?thesis using loc B_VERTICAL y(1) by (simp add: n_def r_def fsub_def)
  qed
qed

text \<open>The ends of the bar of a horizontal slider whose bounds are integers.\<close>

lemma horizontal_ends:
  assumes "fOrientation sl = B_HORIZONTAL" "r_right (lk_bounds lk) = Fin (of_int n)" "\<bar>n\<bar> < 2 ^ 16" "fStyle sl = B_BLOCK_THUMB"
  shows "MinPosition lk sl = Fin (of_int 9)" "MaxPosition lk sl = Fin (of_int (n - 9))"
proof -
  have e: "exact (n - 8)" "exact (n - 8 - 1)" "exact (8 + 1)" using assms(3) by (simp_all add: exact_def)
  have "fsub (Fin (of_int n)) (Fin 8) = Fin (of_int (n - 8))" using fsub_int [of n 8] e(1) by simp
  moreover have "fsub (Fin (of_int (n - 8))) (Fin 1) = Fin (of_int (n - 9))" using fsub_int [of "n - 8" 1] e(2) by simp
  moreover have "fadd (Fin 8) (Fin 1) = Fin 9" using fadd_int [of 8 1] e(3) by simp
  ultimately show "MinPosition lk sl = Fin (of_int 9)" "MaxPosition lk sl = Fin (of_int (n - 9))"
    using assms(1,2,4) by (simp_all add: MinPosition_def MaxPosition_def BarFrame_def Let_def thumb_inset_def)
qed

definition plain_look :: "rect \<Rightarrow> look" where
  "plain_look r = \<lparr>lk_bounds = r, lk_label = None, lk_update = False, lk_font = (Fin 10, Fin 4, Fin 0), lk_width = (\<lambda>_. Fin 40)\<rparr>"

definition plain_slider :: "int \<Rightarrow> int \<Rightarrow> slider" where
  "plain_slider mn mx = Slider_new B_ORIGIN B_ORIGIN B_TRANSPARENT_COLOR B_TRANSPARENT_COLOR mn mx B_HORIZONTAL B_BLOCK_THUMB"

text \<open>A slider from 0 to 20 that is 118 pixels wide.\<close>

lemma slider_place_of_value_witness:
  "\<exists>loc. location_of (plain_look (int_rect 0 0 118 30)) (plain_slider 0 20) 7 = Inr loc \<and>
     ValueForPoint (plain_look (int_rect 0 0 118 30)) (plain_slider 0 20) loc = Inr 7"
proof -
  let ?lk = "plain_look (int_rect 0 0 118 30)" and ?sl = "plain_slider 0 20"
  have f: "fOrientation ?sl = B_HORIZONTAL" "fStyle ?sl = B_BLOCK_THUMB" "fMinValue ?sl = 0" "fMaxValue ?sl = 20"
    by (simp_all add: plain_slider_def Slider_new_def)
  have "r_right (lk_bounds ?lk) = Fin (of_int 118)" by (simp add: plain_look_def int_rect_def Rect_of_def exact_def)
  from horizontal_ends [OF f(1) this _ f(2)] have "MinPosition ?lk ?sl = Fin (of_int 9)" "MaxPosition ?lk ?sl = Fin (of_int 109)" by simp_all
  from slider_place_of_value [OF this, of 100 7] show ?thesis using f by simp
qed

text \<open>
  \<open>SetPosition\<close> does not undo \<open>Position\<close>: on a slider from 0 to 22 with the value 13, setting the position that \<open>Position\<close> reports
  sets the value 12, because the product is rounded below 13 and then cut off.
\<close>

lemma SetPosition_of_Position:
  "\<exists>position. Position (plain_slider 0 22) 13 = Inr position \<and>
     SetPosition e p position (plain_slider 0 22, s) = Slider_SetValue e p 12 (plain_slider 0 22, s)"
proof -
  have l: "fMinValue (plain_slider 0 22) = 0" "fMaxValue (plain_slider 0 22) = 22" by (simp_all add: plain_slider_def Slider_new_def)
  have p: "pow2 (- 1) = 1 / 2" "pow2 0 = 1" "pow2 3 = 8" "pow2 4 = 16" "pow2 (- 24) = 1 / 16777216" "pow2 (- 20) = 1 / 1048576"
    by (simp_all add: pow2_def)
  have d: "round32 (13 / 22) = Fin (9913809 / 16777216)" using round32_eq [of "- 1" "13 / 22" 9913809] by (simp add: p)
  have m: "round32 (9913809 / 16777216 * 22) = Fin (13631487 / 1048576)"
    using round32_eq [of 3 "9913809 / 16777216 * 22" 13631487] by (simp add: p)
  have z: "round32 (13631487 / 1048576) = Fin (13631487 / 1048576)" using round32_eq [of 3 "13631487 / 1048576" 13631487] by (simp add: p)
  have e: "fint 13 = Fin 13" "fint 22 = Fin 22" "fint 0 = Fin 0" using fint_exact [of 13] fint_exact [of 22] fint_exact [of 0] by (simp_all add: exact_def)
  have "\<lfloor>13631487 / 1048576 :: rat\<rfloor> = 12" by (rule floor_unique) simp_all
  then have t: "to_int32 (Fin (13631487 / 1048576)) = Inr 12" by (simp add: trunc_def)
  have "Position (plain_slider 0 22) 13 = Inr (Fin (9913809 / 16777216))" using l d e by (simp add: Position_def value_range_def checked_def)
  then show ?thesis using l m z e t by (simp add: SetPosition_def checked_def)
qed

section \<open>The limits\<close>

text \<open>What can happen to a slider.\<close>

datatype slider_event =
    Set_value int | Set_position flt | Key_down "mem option" | Key_up | Mouse_down point | Mouse_up | Mouse_moved point | Enable bool
  | Limit_labels "byte list option" "byte list option" | Key_increment int | Hash_marks hash_mark_location int | Style thumb_style
  | Orientation orientation | Fill bool "rgb_color option" | Thickness flt

fun slider_apply :: "slider_env \<Rightarrow> ptr \<Rightarrow> slider_event \<Rightarrow> slider_state \<Rightarrow> slider_state outcome" where
  "slider_apply e p (Set_value v) x = Slider_SetValue e p v x"
| "slider_apply e p (Set_position y) x = SetPosition e p y x"
| "slider_apply e p (Key_down str) x = Slider_KeyDown e p str x"
| "slider_apply e p Key_up x = Slider_KeyUp e p x"
| "slider_apply e p (Mouse_down pt) x = Slider_MouseDown e p pt x"
| "slider_apply e p Mouse_up x = Slider_MouseUp e p x"
| "slider_apply e p (Mouse_moved pt) x = Slider_MouseMoved e p pt x"
| "slider_apply e p (Enable on) x = bindR (Control_SetEnabled (se_env e) p on (snd x)) (\<lambda>s. Inr (fst x, s))"
| "slider_apply e p (Limit_labels mn mx) x = SetLimitLabels e p mn mx x"
| "slider_apply e p (Key_increment n) x = Inr (SetKeyIncrementValue n (fst x), snd x)"
| "slider_apply e p (Hash_marks h n) x = bindR (SetHashMarks e p h x) (SetHashMarkCount e p n)"
| "slider_apply e p (Style st) x = SetStyle e p st x"
| "slider_apply e p (Orientation o') x = Inr (SetOrientation o' (fst x), snd x)"
| "slider_apply e p (Fill on c) x = UseFillColor e p on c x"
| "slider_apply e p (Thickness t) x = SetBarThickness e p t x"

inductive slider_run :: "slider_env \<Rightarrow> ptr \<Rightarrow> slider_state \<Rightarrow> slider_state \<Rightarrow> bool" for e p x where
  none: "slider_run e p x x"
| more: "slider_run e p x x1 \<Longrightarrow> slider_apply e p ev x1 = Inr x2 \<Longrightarrow> slider_run e p x x2"

definition limits :: "slider_state \<Rightarrow> int \<times> int" where "limits x = (fMinValue (fst x), fMaxValue (fst x))"

text \<open>Every operation leaves the limits, and the value or sets one that is within them.\<close>

definition slid :: "ptr \<Rightarrow> slider_state \<Rightarrow> slider_state \<Rightarrow> bool" where
  "slid p x x' \<longleftrightarrow> limits x' = limits x \<and> (value_of (snd x') p = value_of (snd x) p \<or> (\<exists>v. value_of (snd x') p = Some (clamp (fst x) v)))"

lemma clamp_limits: "limits x = limits y \<Longrightarrow> clamp (fst x) = clamp (fst y)"
  by (simp add: limits_def clamp_def Let_def fun_eq_iff)

lemma slid_refl [simp]: "slid p x x" by (simp add: slid_def)

lemma slid_trans [trans]: "slid p x y \<Longrightarrow> slid p y z \<Longrightarrow> slid p x z"
  using clamp_limits [of y x] by (auto simp: slid_def)

lemma slid_keep: "limits x' = limits x \<Longrightarrow> value_of (snd x') p = value_of (snd x) p \<Longrightarrow> slid p x x'"
  by (simp add: slid_def)

lemma slid_calm: "limits x' = limits x \<Longrightarrow> calm (snd x) (snd x') \<Longrightarrow> slid p x x'"
  by (simp add: slid_def calm_def)

lemma value_of_pane [simp]: "value_of (s\<lparr>pane := g\<rparr>) p = value_of s p"
  by (simp add: value_of_def)

lemma SetValue_effect:
  assumes "Slider_SetValue e p v x = Inr x'"
  shows "limits x' = limits x \<and> value_of (snd x') p = Some (clamp (fst x) v) \<and> fModificationMessage (fst x') = fModificationMessage (fst x) \<and>
    fInitialLocation (fst x') = fInitialLocation (fst x)"
proof -
  obtain sl s where x: "x = (sl, s)" by (cases x)
  obtain old where old: "Slider_Value p s = Inr old" using assms by (auto simp: Slider_SetValue_def Let_def x bindR_Inr_iff)
  then have v: "value_of s p = Some old" by (auto simp: Slider_Value_def be_simps value_of_def Value_def)
  show ?thesis
  proof (cases "clamp sl v = old")
    case True
    then show ?thesis using assms old v by (auto simp: Slider_SetValue_def x)
  next
    case False
    obtain loc s1 r where s1: "SetValueNoUpdate p (clamp sl v) s = Inr s1"
        "bindR (on_pane (Invalidate_rect (se_env e) p r) s1) (\<lambda>s. Inr (sl\<lparr>fLocation := loc\<rparr>, s)) = Inr x'"
      using assms old False unfolding Slider_SetValue_def Let_def x prod.case by (simp add: bindR_Inr_iff) metis
    then obtain s2 where "on_pane (Invalidate_rect (se_env e) p r) s1 = Inr s2" "x' = (sl\<lparr>fLocation := loc\<rparr>, s2)" by (auto simp: bindR_Inr_iff)
    then show ?thesis using s1(1) by (auto simp: on_pane_Inr SetValueNoUpdate_def upd_control_Inr x limits_def value_of_def)
  qed
qed

lemma SetValue_slid: "Slider_SetValue e p v x = Inr x' \<Longrightarrow> slid p x x'"
  using SetValue_effect [of e p v x x'] by (auto simp: slid_def)

lemma SetPosition_slid: "SetPosition e p y x = Inr x' \<Longrightarrow> slid p x x'"
  by (auto simp: SetPosition_def Let_def be_simps intro: SetValue_slid split: if_splits)

lemma invoke_slid: "slider_invoke e p x = Inr x' \<Longrightarrow> slid p x x'"
  by (auto simp: slider_invoke_def be_simps limits_def dest!: Invoke_calm intro!: slid_calm)

lemma InvokeNotify_values:
  assumes "Control_InvokeNotify d now frame p msg kind s = Inr (st, s')"
  shows "value_of s' = value_of s"
proof (cases "s' = s")
  case False
  obtain s1 where s1: "upd_control p (\<lambda>c. c\<lparr>c_invoker := BeginInvokeNotify (c_invoker c) kind\<rparr>) s = Inr s1"
    using assms False by (auto simp: Control_InvokeNotify_def bindR_Inr_iff split: if_splits)
  obtain s2 err where s2: "(if msg \<noteq> null then Control_Invoke d now frame p msg s1 else Inr (B_BAD_VALUE, s1)) = Inr (err, s2)"
      "upd_control p (\<lambda>c. c\<lparr>c_invoker := EndInvokeNotify (c_invoker c)\<rparr>) s2 = Inr s'"
    using assms False s1 by (auto simp: Control_InvokeNotify_def bindR_Inr_iff IsWatched_def Let_def split: if_splits)
  have "calm s s1" by (rule calm_upd [OF s1]) simp
  moreover have "calm s1 s2" using s2(1) Invoke_calm by (auto split: if_splits)
  moreover have "calm s2 s'" by (rule calm_upd [OF s2(2)]) simp
  ultimately show ?thesis by (simp add: calm_def)
qed simp

lemma modified_slid: "slider_modified e p x = Inr x' \<Longrightarrow> slid p x x'"
  by (auto simp: slider_modified_def be_simps limits_def dest!: InvokeNotify_values intro!: slid_keep)

lemma setters_slid:
  "invalidate_with e p f x = Inr x' \<Longrightarrow> limits (f (fst x), snd x) = limits x \<Longrightarrow> slid p x x'"
  "invalidate_bar_with e p f x = Inr x' \<Longrightarrow> limits (f (fst x), snd x) = limits x \<Longrightarrow> slid p x x'"
  by (auto simp: invalidate_with_def invalidate_bar_with_def be_simps limits_def Let_def intro!: slid_keep)

text \<open>The same for an outcome, with a rule for every form of code.\<close>

definition safe :: "ptr \<Rightarrow> slider_state \<Rightarrow> slider_state outcome \<Rightarrow> bool" where
  "safe p x m \<longleftrightarrow> (\<forall>x'. m = Inr x' \<longrightarrow> slid p x x')"

lemma safe_bind: "(\<And>a. m = Inr a \<Longrightarrow> safe p x (f a)) \<Longrightarrow> safe p x (bindR m f)"
  by (auto simp: safe_def bindR_Inr_iff)

lemma safe_ret: "slid p x y \<Longrightarrow> safe p x (Inr y)"
  by (simp add: safe_def)

lemma safe_if: "(b \<Longrightarrow> safe p x m) \<Longrightarrow> (\<not> b \<Longrightarrow> safe p x m') \<Longrightarrow> safe p x (if b then m else m')"
  by simp

lemma safe_option: "safe p x m \<Longrightarrow> (\<And>v. safe p x (f v)) \<Longrightarrow> safe p x (case y of None \<Rightarrow> m | Some v \<Rightarrow> f v)"
  by (cases y) simp_all

lemma safe_pair: "(\<And>a b. y = (a, b) \<Longrightarrow> safe p x (f a b)) \<Longrightarrow> safe p x (case y of (a, b) \<Rightarrow> f a b)"
  by (cases y) simp

lemmas safe_rules = safe_bind safe_if safe_option safe_pair

lemma slid_step:
  "Slider_SetValue e p v y = Inr z \<Longrightarrow> slid p x y \<Longrightarrow> slid p x z"
  "slider_modified e p y = Inr z \<Longrightarrow> slid p x y \<Longrightarrow> slid p x z"
  "slider_invoke e p y = Inr z \<Longrightarrow> slid p x y \<Longrightarrow> slid p x z"
  "SetTracking p b s = Inr s' \<Longrightarrow> slid p x (sl, s) \<Longrightarrow> slid p x (sl, s')"
  "on_pane h s = Inr s' \<Longrightarrow> slid p x (sl, s) \<Longrightarrow> slid p x (sl, s')"
  "slid p x (sl, s) \<Longrightarrow> slid p x (sl\<lparr>fInitialLocation := loc\<rparr>, s)"
  "slid p x (sl, s) \<Longrightarrow> slid p x (sl\<lparr>fBarThickness := t\<rparr>, s)"
proof -
  have keep: "slid p x (sl, s) \<Longrightarrow> limits (sl', s') = limits (sl, s) \<Longrightarrow> value_of s' = value_of s \<Longrightarrow> slid p x (sl', s')" for sl' s'
    by (simp add: slid_def)
  show "SetTracking p b s = Inr s' \<Longrightarrow> slid p x (sl, s) \<Longrightarrow> slid p x (sl, s')"
    by (rule keep) (auto dest!: SetTracking_calm simp: limits_def calm_def)
  show "on_pane h s = Inr s' \<Longrightarrow> slid p x (sl, s) \<Longrightarrow> slid p x (sl, s')" by (rule keep) (auto simp: limits_def on_pane_Inr fun_eq_iff)
  show "slid p x (sl, s) \<Longrightarrow> slid p x (sl\<lparr>fInitialLocation := loc\<rparr>, s)" "slid p x (sl, s) \<Longrightarrow> slid p x (sl\<lparr>fBarThickness := t\<rparr>, s)"
    by (rule keep; simp add: limits_def)+
qed (rule slid_trans, assumption, erule SetValue_slid modified_slid invoke_slid)+

lemma safe_call: "slid p x y \<Longrightarrow> safe p x (slider_modified e p y)" "slid p x y \<Longrightarrow> safe p x (Slider_SetValue e p v y)"
  using slid_step by (auto simp: safe_def)

lemma KeyUp_slid: "safe p x (Slider_KeyUp e p x)"
  unfolding Slider_KeyUp_def safe_def using invoke_slid by simp

lemma KeyDown_slid: "safe p x (Slider_KeyDown e p str x)"
  unfolding Slider_KeyDown_def Let_def 
  by (intro safe_rules, auto intro!: safe_call safe_ret split: if_splits, ((erule slid_step(1-5) | rule slid_step(6,7) slid_refl)+)?)

lemma MouseUp_slid: "safe p x (Slider_MouseUp e p x)"
  unfolding Slider_MouseUp_def 
  by (intro safe_rules, auto intro!: safe_call safe_ret split: if_splits, ((erule slid_step(1-5) | rule slid_step(6,7) slid_refl)+)?)

lemma MouseMoved_slid: "safe p x (Slider_MouseMoved e p pt x)"
  unfolding Slider_MouseMoved_def Let_def 
  by (intro safe_rules, auto intro!: safe_call safe_ret split: if_splits, ((erule slid_step(1-5) | rule slid_step(6,7) slid_refl)+)?)

lemma MouseDown_slid: "safe p x (Slider_MouseDown e p pt x)"
  unfolding Slider_MouseDown_def Let_def 
  by (intro safe_rules, auto intro!: safe_call safe_ret split: if_splits, ((erule slid_step(1-5) | rule slid_step(6,7) slid_refl)+)?)

lemma SetBarThickness_slid: "safe p x (SetBarThickness e p t x)"
  unfolding SetBarThickness_def Let_def 
  by (intro safe_rules, auto intro!: safe_call safe_ret split: if_splits, ((erule slid_step(1-5) | rule slid_step(6,7) slid_refl)+)?)

lemma slider_apply_slid:
  assumes "slider_apply e p ev x = Inr x'"
  shows "slid p x x'"
proof -
  show ?thesis
  proof (cases ev)
    case (Enable on)
    then show ?thesis using assms by (auto simp: bindR_Inr_iff limits_def dest!: SetEnabled_calm intro!: slid_calm)
  next
    case (Hash_marks h n)
    then obtain x1 where "SetHashMarks e p h x = Inr x1" "SetHashMarkCount e p n x1 = Inr x'" using assms by (auto simp: bindR_Inr_iff)
    then have "slid p x x1" "slid p x1 x'" unfolding SetHashMarks_def SetHashMarkCount_def by (auto elim!: setters_slid(1) simp: limits_def)
    then show ?thesis by (rule slid_trans)
  next
    case (Limit_labels mn mx)
    then show ?thesis using assms by (auto simp: SetLimitLabels_def limits_def elim!: setters_slid(1))
  next
    case (Style st)
    then show ?thesis using assms by (auto simp: SetStyle_def limits_def elim!: setters_slid(1))
  next
    case (Fill on c)
    then show ?thesis using assms by (auto simp: UseFillColor_def limits_def elim!: setters_slid(2))
  next
    case (Key_increment n)
    then show ?thesis using assms by (auto simp: SetKeyIncrementValue_def limits_def intro!: slid_keep)
  next
    case (Orientation o')
    then show ?thesis using assms by (auto simp: SetOrientation_def limits_def intro!: slid_keep)
  next
    case (Set_value v)
    then show ?thesis using assms SetValue_slid by auto
  next
    case (Set_position y)
    then show ?thesis using assms SetPosition_slid by auto
  next
    case (Key_down str)
    then show ?thesis using assms KeyDown_slid [of p x e str] by (simp add: safe_def)
  next
    case Key_up
    then show ?thesis using assms KeyUp_slid [of p x e] by (simp add: safe_def)
  next
    case (Mouse_down pt)
    then show ?thesis using assms MouseDown_slid [of p x e pt] by (simp add: safe_def)
  next
    case Mouse_up
    then show ?thesis using assms MouseUp_slid [of p x e] by (simp add: safe_def)
  next
    case (Mouse_moved pt)
    then show ?thesis using assms MouseMoved_slid [of p x e pt] by (simp add: safe_def)
  next
    case (Thickness t)
    then show ?thesis using assms SetBarThickness_slid [of p x e t] by (simp add: safe_def)
  qed
qed

lemma run_slid: "slider_run e p x x' \<Longrightarrow> slid p x x'"
  by (induction rule: slider_run.induct) (use slider_apply_slid slid_trans in auto)

lemma clamp_within: "mn \<le> mx \<Longrightarrow> limits x = (mn, mx) \<Longrightarrow> mn \<le> clamp (fst x) v \<and> clamp (fst x) v \<le> mx"
  by (auto simp: clamp_def limits_def Let_def)

text \<open>Attaching sets the value anew, unless it is already one below.\<close>

lemma Attached_value:
  assumes "Slider_AttachedToWindow e p x = Inr x'"
  shows "limits x' = limits x \<and> (\<exists>v. value_of (snd x') p = Some (clamp (fst x) v))"
proof -
  obtain sl s where x: "x = (sl, s)" by (cases x)
  obtain v s1 where "Slider_SetValue e p v (sl, s1) = Inr x'"
    using assms unfolding Slider_AttachedToWindow_def Let_def x by (auto simp: bindR_Inr_iff case_prod_beta)
  from SetValue_effect [OF this] show ?thesis by (auto simp: x limits_def)
qed

text \<open>C36. The value of a slider stays within its limits: from the moment when the slider is attached, over all sequences of keys, clicks, moves of
  the mouse, values and positions that are set, and changes of the look, the value is at least the minimum and at most the
  maximum, and the limits never change.
\<close>

theorem slider_value_in_limits:
  assumes "fMinValue sl \<le> fMaxValue sl" "Slider_AttachedToWindow e p (sl, s) = Inr x0" "slider_run e p x0 x"
  shows "fMinValue (fst x) = fMinValue sl \<and> fMaxValue (fst x) = fMaxValue sl \<and>
    (\<exists>v. value_of (snd x) p = Some v \<and> fMinValue sl \<le> v \<and> v \<le> fMaxValue sl)"
proof -
  obtain v where v: "limits x0 = (fMinValue sl, fMaxValue sl)" "value_of (snd x0) p = Some (clamp sl v)"
    using Attached_value [OF assms(2)] by (auto simp: limits_def)
  have "limits x = limits x0" "value_of (snd x) p = value_of (snd x0) p \<or> (\<exists>w. value_of (snd x) p = Some (clamp (fst x0) w))"
    using run_slid [OF assms(3)] by (auto simp: slid_def)
  then show ?thesis using v clamp_within [OF assms(1), of "(sl, s)"] clamp_within [OF assms(1), of x0] by (auto simp: limits_def)
qed

text \<open>Setting a value returns, on a view that does not draw, when the differences fit.\<close>

lemma SetValue_returns:
  assumes "views (pane s) p = Some w" "controls s p = Some c" "fFlags w AND B_WILL_DRAW = 0" "handlers (world (pane s)) p = Some h"
    "\<not> e_fatal (se_env e)" "\<bar>fMinValue sl\<bar> < 2 ^ 29" "\<bar>fMaxValue sl\<bar> < 2 ^ 29" "\<bar>Value c\<bar> < 2 ^ 29"
  shows "\<exists>sl' s'. Slider_SetValue e p v (sl, s) = Inr (sl', s') \<and> pane s' = pane s \<and> (\<exists>c'. controls s' p = Some c' \<and> Value c' = clamp sl v) \<and>
    fMinValue sl' = fMinValue sl \<and> fMaxValue sl' = fMaxValue sl"
proof (cases "clamp sl v = Value c")
  case True
  then show ?thesis using assms(2) by (simp add: Slider_SetValue_def Let_def Slider_Value_def)
next
  case False
  have "\<bar>clamp sl v\<bar> < 2 ^ 29 \<or> clamp sl v = v \<and> fMinValue sl \<le> v \<and> v \<le> fMaxValue sl"
    using assms(6,7) by (auto simp: clamp_def Let_def)
  then have r: "\<bar>clamp sl v\<bar> < 2 ^ 29" using assms(6,7) by auto
  have p: "\<exists>q. Position sl' n = Inr q" if "\<bar>n\<bar> < 2 ^ 29" "fMinValue sl' = fMinValue sl" "fMaxValue sl' = fMaxValue sl" for n sl'
    using that assms(6,7) by (auto simp: Position_def value_range_def checked_def)
  have t: "\<exists>rc. ThumbFrame lk sl' n = Inr rc" if "\<bar>n\<bar> < 2 ^ 29" "fMinValue sl' = fMinValue sl" "fMaxValue sl' = fMaxValue sl" for lk n sl'
    using p [OF that] by (auto simp: ThumbFrame_def Let_def)
  obtain lk where lk: "look_of e p s = Inr lk" using assms(1,2) by (simp add: look_of_def the_view_def)
  obtain loc where loc: "location_of lk sl (clamp sl v) = Inr loc" using p [OF r, of sl] by (auto simp: location_of_def Let_def)
  let ?sl = "sl\<lparr>fLocation := loc\<rparr>"
  obtain r1 r2 where "ThumbFrame lk ?sl (Value c) = Inr r1" "ThumbFrame lk ?sl (clamp sl v) = Inr r2"
    using t [of "Value c" ?sl lk] t [of "clamp sl v" ?sl lk] assms(8) r by auto
  then show ?thesis using False lk loc assms(1-5)
    by (simp add: Slider_SetValue_def Let_def Slider_Value_def SetValueNoUpdate_def upd_control_def on_pane_def Invalidate_rect_def Handler_Looper_def
        Value_def)
qed

definition ready :: "slider \<Rightarrow> control_state \<Rightarrow> bool" where
  "ready sl s \<longleftrightarrow> fMinValue sl = 0 \<and> fMaxValue sl = 20 \<and> handlers (world (pane s)) 2 \<noteq> None \<and>
     (\<exists>w. views (pane s) 2 = Some w \<and> fFlags w = 0) \<and> (\<exists>c. controls s 2 = Some c \<and> \<bar>Value c\<bar> < 2 ^ 29)"

lemma SetValue_ready:
  assumes "ready sl s" "\<not> e_fatal (se_env e)"
  shows "\<exists>sl' s'. Slider_SetValue e 2 v (sl, s) = Inr (sl', s') \<and> ready sl' s' \<and> value_of s' 2 = Some (clamp sl v)"
proof -
  obtain w c h where "views (pane s) 2 = Some w" "controls s 2 = Some c" "fFlags w AND B_WILL_DRAW = 0" "handlers (world (pane s)) 2 = Some h"
    "\<bar>Value c\<bar> < 2 ^ 29" "fMinValue sl = 0" "fMaxValue sl = 20" "fFlags w = 0"
    using assms(1) by (auto simp: ready_def)
  moreover from this have "\<bar>clamp sl v\<bar> < 2 ^ 29" by (auto simp: clamp_def Let_def)
  ultimately show ?thesis using SetValue_returns [of s 2 w c h e sl v] assms(2) by (auto simp: ready_def value_of_def Value_def)
qed

lemma SetValue_ready': "ready sl s \<Longrightarrow> \<not> e_fatal (se_env e) \<Longrightarrow> \<exists>sl' s'. Slider_SetValue e 2 v (sl, s) = Inr (sl', s') \<and> ready sl' s'"
  using SetValue_ready by blast

text \<open>A slider from 0 to 20 is attached with the value 0, and then shall get the value 30.\<close>

definition slider_sample :: control_state where
  "slider_sample = group_sample\<lparr>controls := [2 \<mapsto> sample_radio\<lparr>c_class := Slider\<rparr>]\<rparr>"

definition sample_slider_env :: slider_env where
  "sample_slider_env = \<lparr>se_env = sample_env, se_delivery = to_trace, se_frame = 50, se_update = False, se_font = (Fin 10, Fin 4, Fin 0),
     se_width = (\<lambda>_. Fin 40)\<rparr>"

lemma slider_value_in_limits_witness:
  "\<exists>x0 x. Slider_AttachedToWindow sample_slider_env 2 (plain_slider 0 20, slider_sample) = Inr x0 \<and>
     Slider_SetValue sample_slider_env 2 30 x0 = Inr x \<and> value_of (snd x) 2 = Some 20 \<and> 
     (\<exists>v. value_of (snd x) 2 = Some v \<and> 0 \<le> v \<and> v \<le> 20)"
proof -
  let ?e = sample_slider_env
  have l: "fMinValue (plain_slider 0 20) = 0" "fMaxValue (plain_slider 0 20) = 20" by (simp_all add: plain_slider_def Slider_new_def)
  have "\<exists>sl0 s0. Slider_AttachedToWindow ?e 2 (plain_slider 0 20, slider_sample) = Inr (sl0, s0) \<and> ready sl0 s0"      apply (simp add: Slider_AttachedToWindow_def Let_def case_prod_beta look_of_def the_view_def slider_sample_def group_sample_def sample_gui_def
        sample_views_def plain_view_def sample_slider_env_def sample_env_def on_pane_def ResizeTo_def invalidate_parent_def Invalidate_def
        Invalidate_rect_def Handler_Looper_def sample_handler_def put_view_def Control_AttachedToWindow_def Parent_def upd_def Invoker_Target_def
        sample_radio_def Invoker_messenger_def Messenger_new_def SetTarget_def View_Window_def upd_control_def Slider_Value_def Value_def checked_def
        Target_def IsValid_def IsTargetLocal_def Bounds_def SetValueNoUpdate_def B_CONTROL_OFF_def)
    apply (rule SetValue_ready')
     apply (simp_all add: l Value_def ready_def)
    done
  then obtain sl0 s0 where x0: "Slider_AttachedToWindow ?e 2 (plain_slider 0 20, slider_sample) = Inr (sl0, s0)" "ready sl0 s0" by blast
  then obtain x where x: "Slider_SetValue ?e 2 30 (sl0, s0) = Inr x" "value_of (snd x) 2 = Some 20"
    using SetValue_ready [of sl0 s0 ?e 30] by (auto simp: ready_def clamp_def sample_slider_env_def sample_env_def)
  have "slider_run ?e 2 (sl0, s0) x" using slider_run.more [OF slider_run.none, of ?e 2 "Set_value 30" "(sl0, s0)" x] x(1) by simp
  from slider_value_in_limits [OF _ x0(1) this] show ?thesis using x0(1) x l by (cases x) auto
qed

end
