(* ===== verification/Posix.thy ===== *)
theory Posix
  imports Path
begin

text \<open>
  The file calls of the kernel emulation, \<open>kits/kernel/syscalls.c\<close>. They wrap calls of the operating system, which are the parameter
  \<open>posix\<close>: a call gets the state of the system and returns an error number or a result, with the state after it. \<open>k_open\<close> is the set of
  the descriptors that are open. \<open>documented_calls\<close> states what the manuals say about descriptors.
\<close>

section \<open>The operating system\<close>

type_synonym errno = int

record stat =
  st_dev :: nat
  st_ino :: nat
  st_mode :: "32 word"

record dirent =
  d_ino :: nat
  d_reclen :: nat
  d_name :: "byte list"

text \<open>A file name argument is a C string or null. \<open>k_alloc\<close>: whether an allocation of so many bytes succeeds.\<close>

record 'k posix =
  k_open :: "'k \<Rightarrow> int set"
  k_openat :: "int \<Rightarrow> byte list option \<Rightarrow> 32 word \<Rightarrow> 'k \<Rightarrow> (errno + int) \<times> 'k"
  k_close :: "int \<Rightarrow> 'k \<Rightarrow> (errno + int) \<times> 'k"
  k_dup :: "int \<Rightarrow> 'k \<Rightarrow> (errno + int) \<times> 'k"
  k_fstatat :: "int \<Rightarrow> byte list \<Rightarrow> 32 word \<Rightarrow> 'k \<Rightarrow> errno + stat"
  k_fstat :: "int \<Rightarrow> 'k \<Rightarrow> errno + stat"
  k_readlinkat :: "int \<Rightarrow> byte list \<Rightarrow> nat \<Rightarrow> 'k \<Rightarrow> errno + byte list"
  k_getdents :: "int \<Rightarrow> nat \<Rightarrow> 'k \<Rightarrow> (errno + dirent list) \<times> 'k"
  k_lseek :: "int \<Rightarrow> int \<Rightarrow> int \<Rightarrow> 'k \<Rightarrow> (errno + int) \<times> 'k"
  k_read :: "int \<Rightarrow> nat \<Rightarrow> 'k \<Rightarrow> (errno + byte list) \<times> 'k"
  k_write :: "int \<Rightarrow> byte list \<Rightarrow> 'k \<Rightarrow> (errno + int) \<times> 'k"
  k_unlinkat :: "int \<Rightarrow> byte list option \<Rightarrow> 32 word \<Rightarrow> 'k \<Rightarrow> (errno + int) \<times> 'k"
  k_renameat :: "int \<Rightarrow> byte list option \<Rightarrow> int \<Rightarrow> byte list option \<Rightarrow> 'k \<Rightarrow> (errno + int) \<times> 'k"
  k_mkdirat :: "int \<Rightarrow> byte list option \<Rightarrow> int \<Rightarrow> 'k \<Rightarrow> (errno + int) \<times> 'k"
  k_symlinkat :: "byte list option \<Rightarrow> int \<Rightarrow> byte list \<Rightarrow> 'k \<Rightarrow> (errno + int) \<times> 'k"
  k_fdatasync :: "int \<Rightarrow> 'k \<Rightarrow> (errno + int) \<times> 'k"
  k_flock :: "int \<Rightarrow> int \<Rightarrow> 'k \<Rightarrow> (errno + int) \<times> 'k"
  k_getcwd :: "nat \<Rightarrow> 'k \<Rightarrow> byte list option"
  k_alloc :: "nat \<Rightarrow> bool"

definition EINTR :: errno where "EINTR = 4"
definition EBADF :: errno where "EBADF = 9"
definition EWOULDBLOCK :: errno where "EWOULDBLOCK = 11"
definition ENOENT :: errno where "ENOENT = 2"
definition ENOMEM :: errno where "ENOMEM = 12"
definition EINVAL :: errno where "EINVAL = 22"

definition O_RDONLY :: "32 word" where "O_RDONLY = 0"
definition O_WRONLY :: "32 word" where "O_WRONLY = 1"
definition O_RDWR :: "32 word" where "O_RDWR = 2"
definition O_ACCMODE :: "32 word" where "O_ACCMODE = 3"
definition O_DIRECTORY :: "32 word" where "O_DIRECTORY = 0x10000"
definition O_NOFOLLOW :: "32 word" where "O_NOFOLLOW = 0x20000"
definition O_CLOEXEC :: "32 word" where "O_CLOEXEC = 0x80000"
definition AT_FDCWD :: int where "AT_FDCWD = - 100"
definition AT_SYMLINK_NOFOLLOW :: "32 word" where "AT_SYMLINK_NOFOLLOW = 0x100"
definition AT_REMOVEDIR :: "32 word" where "AT_REMOVEDIR = 0x200"
definition AT_NO_AUTOMOUNT :: "32 word" where "AT_NO_AUTOMOUNT = 0x800"
definition AT_EMPTY_PATH :: "32 word" where "AT_EMPTY_PATH = 0x1000"
definition SEEK_SET :: int where "SEEK_SET = 0"
definition LOCK_EX_NB :: int where "LOCK_EX_NB = 6"
definition LOCK_UN_NB :: int where "LOCK_UN_NB = 12"
definition S_IFMT :: "32 word" where "S_IFMT = 0xF000"
definition S_ISREG :: "32 word \<Rightarrow> bool" where "S_ISREG m \<longleftrightarrow> m AND S_IFMT = 0x8000"
definition S_ISDIR :: "32 word \<Rightarrow> bool" where "S_ISDIR m \<longleftrightarrow> m AND S_IFMT = 0x4000"
definition S_ISLNK :: "32 word \<Rightarrow> bool" where "S_ISLNK m \<longleftrightarrow> m AND S_IFMT = 0xA000"

definition B_FILE_NAME_LENGTH :: nat where "B_FILE_NAME_LENGTH = 255"
definition B_MAX_SYMLINKS :: nat where "B_MAX_SYMLINKS = 20"
definition B_BUSY :: status where "B_BUSY = - 16"
definition B_FILE_ERROR :: status where "B_FILE_ERROR = - 9"
definition B_FILE_EXISTS :: status where "B_FILE_EXISTS = - 17"
definition B_LINK_LIMIT :: status where "B_LINK_LIMIT = - 40"

text \<open>
  What the manuals say: an error has a positive number; opening and duplicating give a descriptor that was not open; closing frees the
  descriptor; an empty name is not found; a relative name needs a descriptor that is open, or \<open>AT_FDCWD\<close>.
\<close>

definition opens :: "'k posix \<Rightarrow> 'k \<Rightarrow> (errno + int) \<times> 'k \<Rightarrow> bool" where
  "opens P k r \<longleftrightarrow>
     (case r of (Inl e, k') \<Rightarrow> 0 < e \<and> k_open P k' = k_open P k
      | (Inr fd, k') \<Rightarrow> 0 \<le> fd \<and> fd \<notin> k_open P k \<and> k_open P k' = insert fd (k_open P k))"

definition documented_calls :: "'k posix \<Rightarrow> bool" where
  "documented_calls P \<longleftrightarrow>
     (\<forall>k fd. fd \<in> k_open P k \<longrightarrow> 0 \<le> fd) \<and>
     (\<forall>fd p fl k. opens P k (k_openat P fd p fl k)) \<and>
     (\<forall>fd s fl k. s = [] \<longrightarrow> fst (k_openat P fd (Some s) fl k) = Inl ENOENT) \<and>
     (\<forall>fd s fl k. s \<noteq> [] \<and> \<not> is_absolute s \<and> fd \<notin> k_open P k \<and> fd \<noteq> AT_FDCWD \<longrightarrow> fst (k_openat P fd (Some s) fl k) = Inl EBADF) \<and>
     (\<forall>fd k. opens P k (k_dup P fd k)) \<and>
     (\<forall>fd k. fd \<notin> k_open P k \<longrightarrow> fst (k_dup P fd k) = Inl EBADF) \<and>
     (\<forall>fd k. k_open P (snd (k_close P fd k)) = k_open P k - {fd}) \<and>
     (\<forall>fd n k. k_open P (snd (k_getdents P fd n k)) = k_open P k) \<and>
     (\<forall>fd n k e. fst (k_getdents P fd n k) = Inl e \<longrightarrow> 0 < e) \<and>
     (\<forall>fd s fl k e. k_fstatat P fd s fl k = Inl e \<longrightarrow> 0 < e) \<and>
     (\<forall>fd n w k. k_open P (snd (k_lseek P fd n w k)) = k_open P k) \<and>
     (\<forall>fd p fl k. k_open P (snd (k_unlinkat P fd p fl k)) = k_open P k) \<and>
     (\<forall>fd s n k t. k_readlinkat P fd s n k = Inr t \<longrightarrow> length t \<le> n) \<and>
     (\<forall>fd s n k e. k_readlinkat P fd s n k = Inl e \<longrightarrow> 0 < e) \<and>
     (\<forall>a p b q k. k_open P (snd (k_renameat P a p b q k)) = k_open P k)"

section \<open>The wrappers\<close>

text \<open>\<open>WRAP_POSIX_RETURN\<close> and \<open>WRAP_POSIX_CALL\<close>: \<open>B_FROM_POSIX_ERROR\<close> negates.\<close>

definition B_FROM_POSIX_ERROR :: "errno \<Rightarrow> status" where "B_FROM_POSIX_ERROR e = - e"

definition posix_return :: "(errno + int) \<times> 'k \<Rightarrow> int \<times> 'k" where
  "posix_return r = (case r of (Inl e, k) \<Rightarrow> (B_FROM_POSIX_ERROR e, k) | (Inr n, k) \<Rightarrow> (n, k))"

definition posix_call :: "(errno + int) \<times> 'k \<Rightarrow> status \<times> 'k" where
  "posix_call r = (case r of (Inl e, k) \<Rightarrow> (B_FROM_POSIX_ERROR e, k) | (Inr n, k) \<Rightarrow> (B_OK, k))"

definition bad_leaf :: "byte list option \<Rightarrow> bool" where
  "bad_leaf p \<longleftrightarrow> (case p of None \<Rightarrow> True | Some s \<Rightarrow> s = [] \<or> slash \<in> set s)"

definition kern_dup :: "'k posix \<Rightarrow> int \<Rightarrow> 'k \<Rightarrow> int \<times> 'k" where "kern_dup P fd k = posix_return (k_dup P fd k)"
definition kern_close :: "'k posix \<Rightarrow> int \<Rightarrow> 'k \<Rightarrow> status \<times> 'k" where "kern_close P fd k = posix_call (k_close P fd k)"

definition kern_unlink :: "'k posix \<Rightarrow> int \<Rightarrow> byte list option \<Rightarrow> 'k \<Rightarrow> status \<times> 'k" where
  "kern_unlink P fd p k = (if bad_leaf p then (B_BAD_VALUE, k) else posix_call (k_unlinkat P fd p 0 k))"

definition kern_rename :: "'k posix \<Rightarrow> int \<Rightarrow> byte list option \<Rightarrow> int \<Rightarrow> byte list option \<Rightarrow> 'k \<Rightarrow> status \<times> 'k" where
  "kern_rename P oldDir oldpath newDir newpath k = posix_call (k_renameat P oldDir oldpath newDir newpath k)"

definition kern_read_stat :: "'k posix \<Rightarrow> int \<Rightarrow> byte list option \<Rightarrow> bool \<Rightarrow> 'k \<Rightarrow> status + stat" where
  "kern_read_stat P fd p traverseLink k =
     (if bad_leaf p then Inl B_BAD_VALUE
      else case k_fstatat P fd (the p) (if traverseLink then 0 else AT_SYMLINK_NOFOLLOW) k of
             Inl e \<Rightarrow> Inl (B_FROM_POSIX_ERROR e) | Inr st \<Rightarrow> Inr st)"

text \<open>\<open>abort()\<close>\<close>

definition kern_write_stat :: "status outcome" where "kern_write_stat = Inl Debugger"

definition kern_read_link :: "'k posix \<Rightarrow> int \<Rightarrow> byte list option \<Rightarrow> nat \<Rightarrow> 'k \<Rightarrow> status + byte list" where
  "kern_read_link P fd p bufferSize k =
     (if bad_leaf p then Inl B_BAD_VALUE
      else case k_readlinkat P fd (the p) bufferSize k of Inl e \<Rightarrow> Inl (B_FROM_POSIX_ERROR e) | Inr t \<Rightarrow> Inr t)"

text \<open>
  \<open>_kern_read_dir\<close>. The buffer of \<open>SYS_getdents\<close> grows by the size of \<open>linux_dirent\<close>, 24 bytes, until an entry fits or it would be larger than
  the 312 bytes of \<open>buf\<close>. When there is an entry, its type is read through \<open>&dirent\<close>, the address of the local pointer instead of the entry,
  behind the end of that pointer.
\<close>

fun getdents :: "'k posix \<Rightarrow> int \<Rightarrow> nat list \<Rightarrow> 'k \<Rightarrow> (errno + dirent list) \<times> 'k" where
  "getdents P fd [] k = (Inl EINVAL, k)"
| "getdents P fd (buf_s # sizes) k =
     (case k_getdents P fd buf_s k of
        (Inl e, k) \<Rightarrow> if e = EINVAL \<and> sizes \<noteq> [] then getdents P fd sizes k else (Inl e, k)
      | r \<Rightarrow> r)"

definition dent_sizes :: "nat list" where "dent_sizes = map (\<lambda>i. 24 * i) [1..<14]"

definition kern_read_dir :: "'k posix \<Rightarrow> int \<Rightarrow> nat \<Rightarrow> nat \<Rightarrow> 'k \<Rightarrow> (int \<times> 'k) outcome" where
  "kern_read_dir P fd bufferSize maxCount k =
     (if maxCount = 0 then Inr (0, k)
      else case getdents P fd dent_sizes k of
             (Inl e, k) \<Rightarrow> Inr (B_FROM_POSIX_ERROR e, k)
           | (Inr [], k) \<Rightarrow> Inr (0, k)
           | (Inr (d # _), k) \<Rightarrow> if bufferSize < d_reclen d then Inr (B_BAD_VALUE, k) else Inl Undefined)"

definition kern_rewind_dir :: "'k posix \<Rightarrow> int \<Rightarrow> 'k \<Rightarrow> status \<times> 'k" where
  "kern_rewind_dir P fd k = posix_call (k_lseek P fd 0 SEEK_SET k)"

definition kern_create_symlink :: "'k posix \<Rightarrow> int \<Rightarrow> byte list option \<Rightarrow> byte list option \<Rightarrow> 'k \<Rightarrow> status \<times> 'k" where
  "kern_create_symlink P fd p toPath k = (if bad_leaf p then (B_BAD_VALUE, k) else posix_call (k_symlinkat P toPath fd (the p) k))"

definition kern_open :: "'k posix \<Rightarrow> int \<Rightarrow> byte list option \<Rightarrow> 32 word \<Rightarrow> 'k \<Rightarrow> int \<times> 'k" where
  "kern_open P fd p openMode k = (if bad_leaf p then (B_BAD_VALUE, k) else posix_return (k_openat P fd p openMode k))"

definition kern_open_entry_ref :: "'k posix \<Rightarrow> int \<Rightarrow> byte list option \<Rightarrow> 32 word \<Rightarrow> 'k \<Rightarrow> int \<times> 'k" where
  "kern_open_entry_ref P reffd leaf openMode k = (if bad_leaf leaf then (B_BAD_VALUE, k) else kern_open P reffd leaf openMode k)"

definition kern_open_dir :: "'k posix \<Rightarrow> int \<Rightarrow> byte list option \<Rightarrow> 'k \<Rightarrow> int \<times> 'k" where
  "kern_open_dir P fd p k =
     (if 0 \<le> fd \<and> bad_leaf p then (B_BAD_VALUE, k) else posix_return (k_openat P fd p (O_DIRECTORY OR O_CLOEXEC) k))"

definition kern_open_dir_entry_ref :: "'k posix \<Rightarrow> int \<Rightarrow> byte list option \<Rightarrow> 'k \<Rightarrow> int \<times> 'k" where
  "kern_open_dir_entry_ref P reffd nm k = kern_open_dir P reffd nm k"

text \<open>
  The descriptor of the parent directory, and the name when it has been written. The loop reads entries until there is no other: it never
  comes to compare one.
\<close>

definition kern_open_parent_dir :: "'k posix \<Rightarrow> int \<Rightarrow> nat \<Rightarrow> 'k \<Rightarrow> (int \<times> byte list option \<times> 'k) outcome" where
  "kern_open_parent_dir P fd nameLength k =
     (case k_fstatat P fd [] AT_EMPTY_PATH k of
        Inl e \<Rightarrow> Inr (B_FROM_POSIX_ERROR e, None, k)
      | Inr st \<Rightarrow>
          let (parentfd, k) = kern_open_dir P fd (Some [dot, dot]) k
          in if parentfd < 0 then Inr (parentfd, None, k)
             else bindR (kern_read_dir P parentfd 280 1 k) (\<lambda>(n, k).
                  if n < 0 then Inr (n, None, k) else Inr (parentfd, None, snd (kern_rewind_dir P parentfd k))))"

definition kern_create_dir :: "'k posix \<Rightarrow> int \<Rightarrow> byte list option \<Rightarrow> int \<Rightarrow> 'k \<Rightarrow> status \<times> 'k" where
  "kern_create_dir P fd p perms k = (if 0 \<le> fd \<and> bad_leaf p then (B_BAD_VALUE, k) else posix_call (k_mkdirat P fd p perms k))"

definition kern_create_dir_entry_ref :: "'k posix \<Rightarrow> int \<Rightarrow> byte list option \<Rightarrow> int \<Rightarrow> 'k \<Rightarrow> status \<times> 'k" where
  "kern_create_dir_entry_ref P reffd leaf perms k = kern_create_dir P reffd leaf perms k"

definition kern_remove_dir :: "'k posix \<Rightarrow> int \<Rightarrow> byte list option \<Rightarrow> 'k \<Rightarrow> status \<times> 'k" where
  "kern_remove_dir P fd p k = (if 0 \<le> fd \<and> bad_leaf p then (B_BAD_VALUE, k) else posix_call (k_unlinkat P fd p AT_REMOVEDIR k))"

definition kern_fsync :: "'k posix \<Rightarrow> int \<Rightarrow> 'k \<Rightarrow> status \<times> 'k" where "kern_fsync P fd k = posix_call (k_fdatasync P fd k)"

definition kern_seek :: "'k posix \<Rightarrow> int \<Rightarrow> int \<Rightarrow> int \<Rightarrow> 'k \<Rightarrow> int \<times> 'k" where
  "kern_seek P fd pos seekType k = posix_return (k_lseek P fd pos seekType k)"

text \<open>The position of a read or a write at \<open>pos \<ge> 0\<close>; \<open>Inl\<close> the error.\<close>

definition seek_first :: "'k posix \<Rightarrow> int \<Rightarrow> int \<Rightarrow> 'k \<Rightarrow> (errno + int) \<times> 'k" where
  "seek_first P fd pos k = (if 0 \<le> pos then k_lseek P fd pos SEEK_SET k else (Inr 0, k))"

definition kern_read :: "'k posix \<Rightarrow> int \<Rightarrow> int \<Rightarrow> nat \<Rightarrow> 'k \<Rightarrow> int \<times> byte list \<times> 'k" where
  "kern_read P fd pos bufferSize k =
     (case seek_first P fd pos k of
        (Inl e, k) \<Rightarrow> (B_FROM_POSIX_ERROR e, [], k)
      | (Inr _, k) \<Rightarrow> (case k_read P fd bufferSize k of (Inl e, k) \<Rightarrow> (B_FROM_POSIX_ERROR e, [], k) | (Inr d, k) \<Rightarrow> (int (length d), d, k)))"

definition kern_write :: "'k posix \<Rightarrow> int \<Rightarrow> int \<Rightarrow> byte list \<Rightarrow> 'k \<Rightarrow> int \<times> 'k" where
  "kern_write P fd pos d k =
     (case seek_first P fd pos k of (Inl e, k) \<Rightarrow> (B_FROM_POSIX_ERROR e, k) | (Inr _, k) \<Rightarrow> posix_return (k_write P fd d k))"

text \<open>\<open>%d\<close> of a number that is not negative, and the name of the link that the system has for a descriptor.\<close>

fun decimal :: "nat \<Rightarrow> byte list" where
  "decimal n = (if n < 10 then [of_nat (48 + n)] else decimal (n div 10) @ [of_nat (48 + n mod 10)])"

declare decimal.simps [simp del]

definition printed :: "int \<Rightarrow> byte list" where
  "printed n = (if n < 0 then 0x2D # decimal (nat (- n)) else decimal (nat n))"

definition proc_fd :: "byte list" where   \<comment> \<open>\<open>/proc/self/fd/\<close>\<close>
  "proc_fd = [0x2F, 0x70, 0x72, 0x6F, 0x63, 0x2F, 0x73, 0x65, 0x6C, 0x66, 0x2F, 0x66, 0x64, 0x2F]"

text \<open>The status, and the path in the buffer of \<open>pathLength\<close> bytes.\<close>

definition kern_entry_ref_to_path :: "'k posix \<Rightarrow> int \<Rightarrow> byte list option \<Rightarrow> nat \<Rightarrow> 'k \<Rightarrow> status \<times> byte list option" where
  "kern_entry_ref_to_path P reffd leaf pathLength k =
     (if bad_leaf leaf then (B_BAD_VALUE, None)
      else case k_fstatat P reffd [] AT_EMPTY_PATH k of
        Inl _ \<Rightarrow> (B_BAD_VALUE, None)
      | Inr statorig \<Rightarrow>
          let fdlink = proc_fd @ printed reffd
          in if \<not> k_alloc P (length fdlink + 1) then (B_NO_MEMORY, None)
             else case k_readlinkat P AT_FDCWD fdlink pathLength k of
               Inl _ \<Rightarrow> (B_BAD_VALUE, None)
             | Inr target \<Rightarrow>
                 if pathLength \<le> length target then (B_BAD_VALUE, None)
                 else let dir = cstring (c_str target)
                      in case k_fstatat P AT_FDCWD dir AT_SYMLINK_NOFOLLOW k of
                        Inl _ \<Rightarrow> (B_BAD_VALUE, None)
                      | Inr statdest \<Rightarrow>
                          if st_dev statorig \<noteq> st_dev statdest \<or> st_ino statorig \<noteq> st_ino statdest then (B_BAD_VALUE, None)
                          else if pathLength - length target \<le> length (slash # the leaf) then (B_BAD_VALUE, None)
                          else (B_OK, Some (target @ slash # the leaf)))"

definition lock_error :: "status \<Rightarrow> errno \<Rightarrow> status" where
  "lock_error busy e =
     (if e = EBADF then B_FILE_ERROR else if e = EINTR \<or> e = EWOULDBLOCK then busy else B_FROM_POSIX_ERROR e)"

definition kern_lock_node :: "'k posix \<Rightarrow> int \<Rightarrow> 'k \<Rightarrow> status \<times> 'k" where
  "kern_lock_node P fd k = (case k_flock P fd LOCK_EX_NB k of (Inl e, k) \<Rightarrow> (lock_error B_BUSY e, k) | (Inr _, k) \<Rightarrow> (B_OK, k))"

definition kern_unlock_node :: "'k posix \<Rightarrow> int \<Rightarrow> 'k \<Rightarrow> status \<times> 'k" where
  "kern_unlock_node P fd k = (case k_flock P fd LOCK_UN_NB k of (Inl e, k) \<Rightarrow> (lock_error B_BAD_VALUE e, k) | (Inr _, k) \<Rightarrow> (B_OK, k))"

section \<open>Descriptors\<close>

text \<open>
  Code holds the descriptor \<open>d\<close>, none if it is negative, beside the descriptors \<open>B\<close> of the others; \<open>z\<close> says that no other descriptor is open.
  \<open>_kern_open_parent_dir\<close> loses one when the directory cannot be read.
\<close>

definition holds :: "'k posix \<Rightarrow> bool \<Rightarrow> int set \<Rightarrow> int \<Rightarrow> 'k \<Rightarrow> bool" where
  "holds P z B d k \<longleftrightarrow> d \<notin> B \<and> B \<subseteq> k_open P k \<and> (0 \<le> d \<longrightarrow> d \<in> k_open P k) \<and>
     (z \<longrightarrow> k_open P k = B \<union> (if 0 \<le> d then {d} else {}))"

lemma documented_callsD:
  assumes "documented_calls P"
  shows "fd \<in> k_open P k \<Longrightarrow> 0 \<le> fd" "opens P k (k_openat P fd p fl k)" "opens P k (k_dup P fd k)"
    "fst (k_openat P fd (Some []) fl k) = Inl ENOENT"
    "s \<noteq> [] \<Longrightarrow> \<not> is_absolute s \<Longrightarrow> fd \<notin> k_open P k \<Longrightarrow> fd \<noteq> AT_FDCWD \<Longrightarrow> fst (k_openat P fd (Some s) fl k) = Inl EBADF"
    "fd \<notin> k_open P k \<Longrightarrow> fst (k_dup P fd k) = Inl EBADF"
    "k_open P (snd (k_close P fd k)) = k_open P k - {fd}" "k_open P (snd (k_getdents P fd n k)) = k_open P k"
    "fst (k_getdents P fd n k) = Inl e \<Longrightarrow> 0 < e" "k_fstatat P fd s fl k = Inl e \<Longrightarrow> 0 < e"
    "k_open P (snd (k_lseek P fd w m k)) = k_open P k" "k_open P (snd (k_unlinkat P fd p fl k)) = k_open P k"
    "k_readlinkat P fd s n k = Inr t \<Longrightarrow> length t \<le> n" "k_readlinkat P fd s n k = Inl e \<Longrightarrow> 0 < e"
    "k_open P (snd (k_renameat P fd p fd' q k)) = k_open P k"
  using assms by (simp_all add: documented_calls_def)

lemma snd_posix [simp]: "snd (posix_call r) = snd r" "snd (posix_return r) = snd r"
  by (cases r; cases "fst r"; simp add: posix_call_def posix_return_def)+

lemma holds_nothing: "documented_calls P \<Longrightarrow> B \<subseteq> k_open P k \<Longrightarrow> d < 0 \<Longrightarrow> (z \<Longrightarrow> k_open P k = B) \<Longrightarrow> holds P z B d k"
  using documented_callsD(1) by (fastforce simp: holds_def)

lemma holds_neg: "holds P z B d k \<Longrightarrow> documented_calls P \<Longrightarrow> d < 0 \<Longrightarrow> e < 0 \<Longrightarrow> holds P z B e k"
  using documented_callsD(1) by (fastforce simp: holds_def)

text \<open>What the wrappers do with descriptors.\<close>

lemma getdents_open:
  assumes "documented_calls P"
  shows "k_open P (snd (getdents P fd sizes k)) = k_open P k \<and> (\<forall>e. fst (getdents P fd sizes k) = Inl e \<longrightarrow> 0 < e)"
proof (induction sizes arbitrary: k)
  case Nil
  then show ?case by (simp add: EINVAL_def)
next
  case (Cons b sizes)
  have "k_open P (snd (k_getdents P fd b k)) = k_open P k" "\<And>e. fst (k_getdents P fd b k) = Inl e \<Longrightarrow> 0 < e"
    using documented_callsD(8,9) [OF assms] by blast+
  then show ?case using Cons.IH by (cases "k_getdents P fd b k") (auto split: sum.splits)
qed

lemma return_opens:
  assumes "opens P k r" "posix_return r = (d, k')" "holds P z B c k" "documented_calls P"
  shows "if d < 0 then holds P z B c k' else d \<noteq> c \<and> d \<notin> B \<and> holds P z (if 0 \<le> c then insert c B else B) d k'"
proof (cases "fst r")
  case (Inl e)
  then show ?thesis using assms by (cases r) (auto simp: opens_def posix_return_def B_FROM_POSIX_ERROR_def holds_def)
next
  case (Inr n)
  then show ?thesis using assms documented_callsD(1) [OF assms(4)] by (cases r) (auto simp: opens_def posix_return_def holds_def)
qed

lemma open_dir_opens:
  assumes "kern_open_dir P fd p k = (d, k')" "holds P z B c k" "documented_calls P"
  shows "if d < 0 then holds P z B c k' else d \<noteq> c \<and> d \<notin> B \<and> holds P z (if 0 \<le> c then insert c B else B) d k'"
proof (cases "0 \<le> fd \<and> bad_leaf p")
  case True
  then show ?thesis using assms by (auto simp: kern_open_dir_def B_BAD_VALUE_def)
next
  case False
  then have "posix_return (k_openat P fd p (O_DIRECTORY OR O_CLOEXEC) k) = (d, k')" using assms(1) by (simp add: kern_open_dir_def split: if_splits)
  from return_opens [OF documented_callsD(2) [OF assms(3)] this assms(2,3)] show ?thesis .
qed

lemma dup_opens:
  assumes "kern_dup P fd k = (d, k')" "holds P z B c k" "documented_calls P"
  shows "if d < 0 then holds P z B c k' else d \<noteq> c \<and> d \<notin> B \<and> holds P z (if 0 \<le> c then insert c B else B) d k'"
  using return_opens [OF documented_callsD(3) [OF assms(3)] _ assms(2,3)] assms(1) by (simp add: kern_dup_def)

lemma close_open: "documented_calls P \<Longrightarrow> k_open P (snd (kern_close P fd k)) = k_open P k - {fd}"
  using documented_callsD(7) [of P fd k] by (cases "k_close P fd k") (auto simp: kern_close_def posix_call_def split: sum.splits)

text \<open>Closing what is held, or the older of two.\<close>

definition close_held :: "'k posix \<Rightarrow> int \<Rightarrow> 'k \<Rightarrow> 'k" where
  "close_held P fd k = (if 0 \<le> fd then snd (kern_close P fd k) else k)"

lemma close_holds: "holds P z B d k \<Longrightarrow> documented_calls P \<Longrightarrow> holds P z B (- 1) (close_held P d k)"
  using documented_callsD(1) by (fastforce simp: holds_def close_held_def close_open split: if_splits)

lemma close_older:
  "holds P z (if 0 \<le> c then insert c B else B) d k \<Longrightarrow> c \<notin> B \<Longrightarrow> c \<noteq> d \<Longrightarrow> documented_calls P \<Longrightarrow> holds P z B d (close_held P c k)"
  by (auto simp: holds_def close_held_def close_open split: if_splits)

lemma open_dir_swaps:
  assumes "kern_open_dir P fd p k = (d, k')" "0 \<le> d" "holds P z B c k" "documented_calls P"
  shows "holds P z B d (close_held P c k')"
  using open_dir_opens [OF assms(1,3,4)] assms close_older [of P z c B d k'] by (auto simp: holds_def)

text \<open>A directory that cannot be read costs a descriptor.\<close>

lemma read_dir_open:
  assumes "kern_read_dir P fd 280 1 k = Inr (n, k')" "documented_calls P"
  shows "k_open P k' = k_open P k \<and> n \<le> 0"
proof -
  obtain r k1 where r: "getdents P fd dent_sizes k = (r, k1)" by fastforce
  have o: "k_open P k1 = k_open P k" "\<And>e. r = Inl e \<Longrightarrow> 0 < e" using getdents_open [OF assms(2), of fd dent_sizes k] r by auto
  show ?thesis
    using assms(1) r o
    by (cases r; cases "projr r") (auto simp: kern_read_dir_def B_FROM_POSIX_ERROR_def B_BAD_VALUE_def split: if_splits)
qed

lemma open_parent_dir_opens:
  assumes "kern_open_parent_dir P fd n k = Inr (d, nm, k')" "holds P z B c k" "documented_calls P" "\<not> z"
  shows "nm = None \<and> (if d < 0 then holds P z B c k' else d \<noteq> c \<and> d \<notin> B \<and> holds P z (if 0 \<le> c then insert c B else B) d k')"
proof (cases "k_fstatat P fd [] AT_EMPTY_PATH k")
  case (Inl e)
  then show ?thesis using assms documented_callsD(10) [OF assms(3) Inl] by (auto simp: kern_open_parent_dir_def B_FROM_POSIX_ERROR_def)
next
  case (Inr st)
  obtain p k1 where p: "kern_open_dir P fd (Some [dot, dot]) k = (p, k1)" by fastforce
  note h = open_dir_opens [OF p assms(2,3)]
  show ?thesis
  proof (cases "p < 0")
    case True
    then show ?thesis using assms(1) h Inr p by (auto simp: kern_open_parent_dir_def)
  next
    case False
    then obtain m k2 where m: "kern_read_dir P p 280 1 k1 = Inr (m, k2)" "(if m < 0 then Inr (m, None, k2) else Inr (p, None, snd (kern_rewind_dir P p k2))) = (Inr (d, nm, k') :: (int \<times> byte list option \<times> 'a) outcome)"
      using assms(1) Inr p by (auto simp: kern_open_parent_dir_def be_simps)
    have o: "k_open P k2 = k_open P k1" using read_dir_open [OF m(1) assms(3)] by auto
    have w: "k_open P (snd (kern_rewind_dir P p k2)) = k_open P k2"
      using documented_callsD(11) [OF assms(3), of p 0 SEEK_SET k2] by (cases "k_lseek P p 0 SEEK_SET k2") (auto simp: kern_rewind_dir_def posix_call_def split: sum.splits)
    show ?thesis using m(2) o w h False assms(2,4) by (auto simp: holds_def split: if_splits)
  qed
qed

section \<open>An instance\<close>

text \<open>A small system: its state is the list of the open descriptors; every absolute name can be opened, and is the same file.\<close>

definition fresh :: "nat list \<Rightarrow> nat" where "fresh ds = Suc (foldr max ds 0)"

definition tiny :: "nat list posix" where
  "tiny = \<lparr>k_open = (\<lambda>k. int ` set k),
     k_openat = (\<lambda>fd p fl k. case p of
        None \<Rightarrow> (Inl EINVAL, k)
      | Some s \<Rightarrow> if s = [] then (Inl ENOENT, k)
          else if is_absolute s \<or> fd \<in> int ` set k then (Inr (int (fresh k)), fresh k # k) else (Inl EBADF, k)),
     k_close = (\<lambda>fd k. if 0 \<le> fd then (Inr 0, removeAll (nat fd) k) else (Inl EBADF, k)),
     k_dup = (\<lambda>fd k. if fd \<in> int ` set k then (Inr (int (fresh k)), fresh k # k) else (Inl EBADF, k)),
     k_fstatat = (\<lambda>fd s fl k. Inl ENOENT), k_fstat = (\<lambda>fd k. if fd \<in> int ` set k then Inr \<lparr>st_dev = 1, st_ino = 1, st_mode = 0\<rparr> else Inl EBADF),
     k_readlinkat = (\<lambda>fd s n k. Inl EINVAL), k_getdents = (\<lambda>fd n k. (Inr [], k)), k_lseek = (\<lambda>fd n w k. (Inr 0, k)),
     k_read = (\<lambda>fd n k. (Inr [], k)), k_write = (\<lambda>fd d k. (Inr 0, k)), k_unlinkat = (\<lambda>fd p fl k. (Inr 0, k)),
     k_renameat = (\<lambda>a p b q k. (Inr 0, k)), k_mkdirat = (\<lambda>fd p m k. (Inr 0, k)), k_symlinkat = (\<lambda>t fd p k. (Inr 0, k)),
     k_fdatasync = (\<lambda>fd k. (Inr 0, k)), k_flock = (\<lambda>fd m k. (Inr 0, k)), k_getcwd = (\<lambda>n k. None), k_alloc = (\<lambda>n. True)\<rparr>"

lemma fresh_greater: "d \<in> set ds \<Longrightarrow> d < fresh ds"
proof -
  have "d \<in> set ds \<Longrightarrow> d \<le> foldr max ds 0" by (induction ds) auto
  then show "d \<in> set ds \<Longrightarrow> d < fresh ds" by (auto simp: fresh_def)
qed

lemma fresh_new: "fresh ds \<notin> set ds" using fresh_greater by blast

lemma tiny_documented: "documented_calls tiny"
proof -
  have i: "int ` (set k - {nat fd}) = int ` set k - {fd}" if "0 \<le> fd" for k fd using that by auto
  have n: "fd \<notin> int ` set k" if "\<not> 0 \<le> fd" for fd and k :: "nat list" using that by auto
  show ?thesis
    unfolding documented_calls_def
    by (simp add: tiny_def opens_def EBADF_def ENOENT_def EINVAL_def fresh_new image_iff i n split: option.splits) auto
qed

end
