(* ===== verification/Entry.thy ===== *)
theory Entry
  imports Posix
begin

text \<open>
  Entries of directories: \<open>kits/storage/Entry.cpp\<close> and \<open>Statable.cpp\<close> over the file calls of \<open>Posix\<close>. An entry is a descriptor of the directory,
  which it owns, and the name in it. Strings are lists of bytes without the terminator; a program that holds a string while the object that
  owns it frees it is not described.
\<close>

section \<open>Paths and names\<close>

text \<open>\<open>filename()\<close> and \<open>parent_path()\<close> of \<open>std::filesystem::path\<close>.\<close>

definition path_filename :: "byte list \<Rightarrow> byte list" where
  "path_filename p = rev (takeWhile (\<lambda>c. c \<noteq> slash) (rev p))"

definition without_slashes :: "byte list \<Rightarrow> byte list" where
  "without_slashes p = rev (dropWhile (\<lambda>c. c = slash) (rev p))"

definition path_parent :: "byte list \<Rightarrow> byte list" where
  "path_parent p =
     (if \<forall>c\<in>set p. c = slash then p
      else let d = take (length p - length (path_filename p)) p; parent = without_slashes d
           in if parent = [] \<and> d \<noteq> [] then [slash] else parent)"

definition parse_path :: "byte list \<Rightarrow> status + byte list \<times> byte list" where
  "parse_path fullPath =
     (if fullPath = [] then Inl B_BAD_VALUE
      else let dir = path_parent fullPath; leaf = path_filename fullPath
           in if B_PATH_NAME_LENGTH \<le> length dir \<or> B_FILE_NAME_LENGTH \<le> length leaf then Inl B_NAME_TOO_LONG
              else Inr (dir, leaf))"

definition check_entry_name :: "byte list option \<Rightarrow> status" where
  "check_entry_name entry =
     (case entry of None \<Rightarrow> B_BAD_VALUE
      | Some s \<Rightarrow> if B_FILE_NAME_LENGTH \<le> length s then B_NAME_TOO_LONG else if slash \<in> set s then B_BAD_VALUE else B_OK)"

section \<open>References\<close>

text \<open>The descriptor of a directory and a name. \<open>raw\<close>: what \<open>dup\<close> and \<open>openat\<close> return to C.\<close>

definition raw :: "(errno + int) \<times> 'k \<Rightarrow> int \<times> 'k" where
  "raw r = (case r of (Inl e, k) \<Rightarrow> (- 1, k) | (Inr n, k) \<Rightarrow> (n, k))"

record entry_ref =
  ref_dirfd :: int
  ref_name :: "byte list option"

definition ref_new :: entry_ref where "ref_new = \<lparr>ref_dirfd = - 1, ref_name = None\<rparr>"

definition set_name :: "'k posix \<Rightarrow> entry_ref \<Rightarrow> byte list option \<Rightarrow> status \<times> entry_ref" where
  "set_name P this nm =
     (case nm of
        None \<Rightarrow> (B_OK, this\<lparr>ref_name := None\<rparr>)
      | Some s \<Rightarrow> if s = [] then (B_OK, this\<lparr>ref_name := None\<rparr>)
          else if k_alloc P (length s + 1) then (B_OK, this\<lparr>ref_name := Some s\<rparr>) else (B_NO_MEMORY, this\<lparr>ref_name := None\<rparr>))"

definition ref_of :: "'k posix \<Rightarrow> int \<Rightarrow> byte list option \<Rightarrow> entry_ref" where
  "ref_of P dirfd nm = snd (set_name P \<lparr>ref_dirfd = dirfd, ref_name = None\<rparr> nm)"

definition ref_delete :: "'k posix \<Rightarrow> entry_ref \<Rightarrow> 'k \<Rightarrow> 'k" where "ref_delete P this k = snd (k_close P (ref_dirfd this) k)"

definition ref_copy :: "'k posix \<Rightarrow> entry_ref \<Rightarrow> 'k \<Rightarrow> entry_ref \<times> 'k" where
  "ref_copy P ref k = (let (d, k) = raw (k_dup P (ref_dirfd ref) k) in (snd (set_name P (ref_new\<lparr>ref_dirfd := d\<rparr>) (ref_name ref)), k))"

definition ref_assign :: "'k posix \<Rightarrow> entry_ref \<Rightarrow> entry_ref arg \<Rightarrow> 'k \<Rightarrow> entry_ref \<times> 'k" where
  "ref_assign P this other k =
     (case other of
        Same \<Rightarrow> (this, k)
      | Other r \<Rightarrow> let k = ref_delete P this k; (d, k) = raw (k_dup P (ref_dirfd r) k)
                   in (snd (set_name P (this\<lparr>ref_dirfd := d\<rparr>) (ref_name r)), k))"

text \<open>The result of \<open>fstat\<close> is not looked at: when it fails, what is compared was never written.\<close>

definition ref_eq :: "'k posix \<Rightarrow> entry_ref \<Rightarrow> entry_ref \<Rightarrow> 'k \<Rightarrow> bool outcome" where
  "ref_eq P this other k =
     (case (k_fstat P (ref_dirfd this) k, k_fstat P (ref_dirfd other) k) of
        (Inr a, Inr b) \<Rightarrow> Inr (st_dev a = st_dev b \<and> st_ino a = st_ino b \<and> ref_name this = ref_name other)
      | _ \<Rightarrow> Inl Undefined)"

section \<open>Entries\<close>

record entry =
  e_dirFd :: int
  e_name :: "byte list option"
  e_status :: status

text \<open>What an entry needs of a \<open>BDirectory\<close>: its status and its descriptor.\<close>

record directory =
  d_status :: status
  d_dirFd :: int

definition Entry_new :: entry where "Entry_new = \<lparr>e_dirFd = - 1, e_name = None, e_status = B_NO_INIT\<rparr>"

definition Entry_InitCheck :: "entry \<Rightarrow> status" where "Entry_InitCheck this = e_status this"

definition Entry_Name :: "entry \<Rightarrow> byte list option" where
  "Entry_Name this = (if e_status this \<noteq> B_OK then None else e_name this)"

text \<open>The errors of \<open>GetStat\<close> and \<open>GetNodeRef\<close>.\<close>

definition stat_error :: "errno \<Rightarrow> status" where
  "stat_error e = (if e = EBADF \<or> e = ENOENT then B_BAD_VALUE else if e = ENOMEM then B_NO_MEMORY else B_FROM_POSIX_ERROR e)"

definition Entry_GetStat :: "'k posix \<Rightarrow> entry \<Rightarrow> 'k \<Rightarrow> status + stat" where
  "Entry_GetStat P this k =
     (case e_name this of
        Some (c # cs) \<Rightarrow>
          if e_dirFd this < 0 then Inl B_BAD_VALUE
          else (case k_fstatat P (e_dirFd this) (c # cs) AT_NO_AUTOMOUNT k of Inl e \<Rightarrow> Inl (stat_error e) | Inr st \<Rightarrow> Inr st)
      | _ \<Rightarrow> Inl B_BAD_VALUE)"

definition Exists :: "'k posix \<Rightarrow> entry \<Rightarrow> 'k \<Rightarrow> bool" where
  "Exists P this k \<longleftrightarrow> (case Entry_GetStat P this k of Inl _ \<Rightarrow> False | Inr _ \<Rightarrow> True)"

text \<open>\<open>BStatable\<close>: the questions on the result of \<open>GetStat\<close>.\<close>

definition stat_is :: "(32 word \<Rightarrow> bool) \<Rightarrow> status + stat \<Rightarrow> bool" where
  "stat_is kind r \<longleftrightarrow> (case r of Inl _ \<Rightarrow> False | Inr st \<Rightarrow> kind (st_mode st))"

definition IsFile :: "status + stat \<Rightarrow> bool" where "IsFile r \<longleftrightarrow> stat_is S_ISREG r"
definition IsDirectory :: "status + stat \<Rightarrow> bool" where "IsDirectory r \<longleftrightarrow> stat_is S_ISDIR r"
definition IsSymLink :: "status + stat \<Rightarrow> bool" where "IsSymLink r \<longleftrightarrow> stat_is S_ISLNK r"

definition Entry_Unset :: "'k posix \<Rightarrow> 'k \<times> entry \<Rightarrow> 'k \<times> entry" where
  "Entry_Unset P s = (close_held P (e_dirFd (snd s)) (fst s), Entry_new)"

definition Entry_SetName :: "'k posix \<Rightarrow> entry \<Rightarrow> byte list option \<Rightarrow> status \<times> entry" where
  "Entry_SetName P this nm =
     (case nm of
        None \<Rightarrow> (B_BAD_VALUE, this)
      | Some s \<Rightarrow> if k_alloc P (length s + 1) then (B_OK, this\<lparr>e_name := Some s\<rparr>) else (B_NO_MEMORY, this\<lparr>e_name := None\<rparr>))"

section \<open>The search for an entry\<close>

text \<open>
  \<open>BEntry::_SetTo\<close>. The loop has the descriptor \<open>dirFD\<close>, which the object \<open>fdCloser\<close> closes when it gets another one and when the function
  returns early. The result is an error, or the descriptor with the name in \<open>leafName\<close> if one has been written.

  \<open>here\<close> and \<open>above\<close> are the branches for no path or \<open>.\<close>, and for \<open>..\<close>; \<open>locate\<close> is the other branch up to the test for links:
  \<open>Again\<close> when the path has been opened and the next round looks for its name.
\<close>

type_synonym 'k found = "((status + int \<times> byte list option) \<times> 'k)"

definition open_parent :: "'k posix \<Rightarrow> int \<Rightarrow> 'k \<Rightarrow> 'k found outcome" where
  "open_parent P dirFD k =
     bindR (kern_open_parent_dir P dirFD B_FILE_NAME_LENGTH k) (\<lambda>(parentFD, leafName, k).
     Inr (if parentFD < 0 then Inl parentFD else Inr (parentFD, leafName), close_held P dirFD k))"

definition here :: "'k posix \<Rightarrow> int \<Rightarrow> 'k \<Rightarrow> 'k found outcome" where
  "here P dirFD k =
     (if dirFD < 0 then
        (let (dirFD, k) = kern_open_dir P (- 1) (Some [dot]) k
         in if dirFD < 0 then Inr (Inl dirFD, k) else open_parent P dirFD k)
      else open_parent P dirFD k)"

definition above :: "'k posix \<Rightarrow> int \<Rightarrow> 'k \<Rightarrow> 'k found outcome" where
  "above P dirFD k =
     (let (parentFD, k) = kern_open_dir P dirFD (Some [dot, dot]) k; k = close_held P dirFD k
      in if parentFD < 0 then Inr (Inl parentFD, k) else open_parent P parentFD k)"

datatype located = Failed status | Again int | Located int "byte list"

definition locate :: "'k posix \<Rightarrow> int \<Rightarrow> byte list \<Rightarrow> 'k \<Rightarrow> located \<times> 'k" where
  "locate P dirFD p k =
     (case parse_path p of
        Inl error \<Rightarrow> (Failed error, close_held P dirFD k)
      | Inr (dirPath, leaf) \<Rightarrow>
          let leafName = (if leaf = [] \<and> is_absolute dirPath then [dot] else leaf)
          in if leafName = [] then
               let error = check_entry_name (Some dirPath)
               in if error \<noteq> B_OK then (Failed error, close_held P dirFD k)
                  else if 0 \<le> dirFD then (Located dirFD dirPath, k)
                  else case k_getcwd P B_PATH_NAME_LENGTH k of
                         None \<Rightarrow> (Failed B_ERROR, k)
                       | Some cwd \<Rightarrow>
                           let (d, k) = kern_open_dir P (- 1) (Some cwd) k
                           in (if d < 0 then Failed d else Located d dirPath, k)
             else if leafName = [dot] \<or> leafName = [dot, dot] then
               let (d, k) = kern_open_dir P (- 1) (Some p) k
               in (if d < 0 then Failed d else Again d, close_held P dirFD k)
             else
               let (d, k) = kern_open_dir P dirFD (Some dirPath) k
               in (if d < 0 then Failed d else Located d leafName, close_held P dirFD k))"

partial_function (option) entry_search ::
  "'k posix \<Rightarrow> int \<Rightarrow> byte list option \<Rightarrow> bool \<Rightarrow> bool \<Rightarrow> int \<Rightarrow> 'k \<Rightarrow> 'k found partial" where
  "entry_search P dirFD p traverse requireConcrete linkLimit k =
     (if p = None \<or> p = Some [dot] then Some (here P dirFD k)
      else if p = Some [dot, dot] then Some (above P dirFD k)
      else case locate P dirFD (the p) k of
        (Failed error, k) \<Rightarrow> Some (Inr (Inl error, k))
      | (Again d, k) \<Rightarrow> entry_search P d None traverse requireConcrete linkLimit k
      | (Located d leafName, k) \<Rightarrow>
          let found = Some (Inr (Inr (d, Some leafName), k))
          in if \<not> traverse then found
             else case kern_read_stat P d (Some leafName) False k of
               Inl error \<Rightarrow>
                 if error = B_ENTRY_NOT_FOUND \<and> \<not> requireConcrete then found else Some (Inr (Inl error, close_held P d k))
             | Inr st \<Rightarrow>
                 if \<not> S_ISLNK (st_mode st) then found
                 else if linkLimit - 1 < 0 then Some (Inr (Inl B_LINK_LIMIT, close_held P d k))
                 else case kern_read_link P d (Some leafName) (B_PATH_NAME_LENGTH - 1) k of
                   Inl error \<Rightarrow> Some (Inr (Inl error, close_held P d k))
                 | Inr target \<Rightarrow> entry_search P d (Some (cstring (c_str target))) traverse True (linkLimit - 1) k)"

text \<open>An entry that has been searched: the status, with the system and the entry.\<close>

type_synonym 'k searched = "(status \<times> 'k \<times> entry) partial"

definition Entry_find :: "'k posix \<Rightarrow> int \<Rightarrow> byte list option \<Rightarrow> bool \<Rightarrow> 'k \<times> entry \<Rightarrow> 'k searched" where
  "Entry_find P dirFD p traverse s =
     bindO (entry_search P dirFD p traverse False (int B_MAX_SYMLINKS) (fst s)) (\<lambda>(r, k).
     case r of
       Inl error \<Rightarrow> Some (Inr (error, k, snd s))
     | Inr (d, None) \<Rightarrow> Some (Inl Undefined)
     | Inr (d, Some leafName) \<Rightarrow>
         let (error, this) = Entry_SetName P (snd s) (Some leafName)
         in Some (Inr (if error \<noteq> B_OK then (error, close_held P d k, this) else (B_OK, k, this\<lparr>e_dirFd := d\<rparr>))))"

text \<open>\<open>return (fCStatus = ...)\<close>\<close>

definition with_status :: "status \<times> 'k \<times> entry \<Rightarrow> status \<times> 'k \<times> entry" where
  "with_status r = (case r of (st, k, this) \<Rightarrow> (st, k, this\<lparr>e_status := st\<rparr>))"

definition status_of :: "'k searched \<Rightarrow> 'k searched" where "status_of r = bindO r (\<lambda>x. Some (Inr (with_status x)))"

definition Entry_SetTo_path :: "'k posix \<Rightarrow> byte list option \<Rightarrow> bool \<Rightarrow> 'k \<times> entry \<Rightarrow> 'k searched" where
  "Entry_SetTo_path P p traverse s =
     (let s = Entry_Unset P s
      in if p = None then Some (Inr (with_status (B_BAD_VALUE, s))) else status_of (Entry_find P (- 1) p traverse s))"

definition Entry_SetTo_dir :: "'k posix \<Rightarrow> directory option \<Rightarrow> byte list option \<Rightarrow> bool \<Rightarrow> 'k \<times> entry \<Rightarrow> 'k searched" where
  "Entry_SetTo_dir P dir p traverse s =
     (case dir of
        None \<Rightarrow> Some (Inr (with_status (B_BAD_VALUE, s)))
      | Some dir \<Rightarrow>
          (case p of
             None \<Rightarrow> Some (Inl Undefined)
           | Some [] \<Rightarrow> Some (Inl Undefined)
           | Some p \<Rightarrow>
               if is_absolute p then Entry_SetTo_path P (Some p) traverse s
               else let (k, this) = Entry_Unset P s; this = (if d_status dir \<noteq> B_OK then this\<lparr>e_status := B_BAD_VALUE\<rparr> else this);
                        (dirFD, k) = kern_dup P (d_dirFd dir) k
                    in if dirFD < 0 then Some (Inr (with_status (dirFD, k, this)))
                       else status_of (Entry_find P dirFD (Some p) traverse (k, this))))"

definition Entry_SetTo_ref :: "'k posix \<Rightarrow> entry_ref option \<Rightarrow> bool \<Rightarrow> 'k \<times> entry \<Rightarrow> 'k searched" where
  "Entry_SetTo_ref P ref traverse s =
     (let s = Entry_Unset P s
      in case ref of
           None \<Rightarrow> Some (Inr (with_status (B_BAD_VALUE, s)))
         | Some r \<Rightarrow>
             (case ref_name r of
                None \<Rightarrow> Some (Inl Undefined)
              | Some nm \<Rightarrow>
                  if is_absolute nm then Entry_SetTo_path P (Some nm) traverse s
                  else if ref_dirfd r < 0 then Some (Inr (with_status (ref_dirfd r, s)))
                  else status_of (Entry_find P (ref_dirfd r) (Some nm) traverse s)))"

section \<open>The other operations\<close>

definition GetNodeRef :: "'k posix \<Rightarrow> entry \<Rightarrow> int \<Rightarrow> 'k \<Rightarrow> status \<times> int \<times> 'k" where
  "GetNodeRef P this ref k =
     (case k_openat P (e_dirFd this) (e_name this) O_CLOEXEC k of
        (Inl e, k) \<Rightarrow> (stat_error e, ref, k)
      | (Inr fd, k) \<Rightarrow>
          let k = snd (k_close P ref k); (d, k) = raw (k_dup P fd k) in (B_OK, d, snd (k_close P fd k)))"

definition GetRef :: "'k posix \<Rightarrow> entry \<Rightarrow> entry_ref \<Rightarrow> 'k \<Rightarrow> status \<times> entry_ref \<times> 'k" where
  "GetRef P this ref k =
     (if e_status this \<noteq> B_OK then (B_NO_INIT, ref, k)
      else case k_dup P (e_dirFd this) (ref_delete P ref k) of
             (Inl e, k) \<Rightarrow> (B_FROM_POSIX_ERROR e, ref\<lparr>ref_dirfd := - 1\<rparr>, k)
           | (Inr d, k) \<Rightarrow> let (error, ref) = set_name P (ref\<lparr>ref_dirfd := d\<rparr>) (e_name this) in (error, ref, k))"

text \<open>The entry of the directory of this entry. \<open>leafName\<close> is never written (\<open>kern_open_parent_dir\<close>), and \<open>_SetName\<close> copies it.\<close>

definition GetParent_entry :: "'k posix \<Rightarrow> entry \<Rightarrow> 'k \<times> entry \<Rightarrow> (status \<times> 'k \<times> entry) outcome" where
  "GetParent_entry P this s =
     (if e_status this \<noteq> B_OK then Inr (B_NO_INIT, s)
      else if e_name this = None then Inl Undefined
      else if e_name this = Some [dot] then Inr (B_ENTRY_NOT_FOUND, s)
      else bindR (kern_open_parent_dir P (e_dirFd this) B_FILE_NAME_LENGTH (fst s)) (\<lambda>(parentFD, leafName, k).
           if parentFD < 0 then Inr (parentFD, k, snd s)
           else case leafName of
             None \<Rightarrow> Inl Undefined
           | Some leaf \<Rightarrow>
               let (k, x) = Entry_Unset P (k, snd s); (error, x) = Entry_SetName P (x\<lparr>e_dirFd := parentFD\<rparr>) (Some leaf);
                   x = x\<lparr>e_status := error\<rparr>; (k, x) = (if error \<noteq> B_OK then Entry_Unset P (k, x) else (k, x))
               in Inr (e_status x, k, x)))"

text \<open>\<open>BDirectory::SetTo\<close> calls the debugger.\<close>

definition GetParent_directory :: "'k posix \<Rightarrow> entry \<Rightarrow> 'k \<Rightarrow> (status \<times> 'k) outcome" where
  "GetParent_directory P this k =
     (if e_status this \<noteq> B_OK then Inr (B_NO_INIT, k)
      else if e_name this = None then Inl Undefined
      else if e_name this = Some [dot] then Inr (B_ENTRY_NOT_FOUND, k)
      else let (error, ref, k) = GetRef P this ref_new k
           in if error \<noteq> B_OK then Inr (error, ref_delete P ref k) else Inl Debugger)"

definition GetName :: "entry \<Rightarrow> status \<times> byte list option" where
  "GetName this = (if e_status this \<noteq> B_OK then (B_NO_INIT, None) else (B_OK, e_name this))"

text \<open>\<open>_Rename\<close>: the status, this entry and the target.\<close>

definition rename_to :: "'k posix \<Rightarrow> bool \<Rightarrow> entry \<Rightarrow> 'k \<times> entry \<Rightarrow> status \<times> 'k \<times> entry \<times> entry" where
  "rename_to P clobber target s =
     (let (k, this) = s
      in if \<not> clobber \<and> Exists P target k then (B_FILE_EXISTS, k, this, target)
         else let (error, k) = kern_rename P (e_dirFd this) (e_name this) (e_dirFd target) (e_name target) k
              in if error = B_OK then (error, fst (Entry_Unset P (k, this)), target, Entry_new) else (error, k, this, target))"

text \<open>The local entry \<open>target\<close> is unset when the function returns.\<close>

definition rename_found :: "'k posix \<Rightarrow> bool \<Rightarrow> entry \<Rightarrow> status \<times> 'k \<times> entry \<Rightarrow> status \<times> 'k \<times> entry" where
  "rename_found P clobber this r =
     (case r of (error, k, target) \<Rightarrow>
        let (error, k, this, target) = (if error \<noteq> B_OK then (error, k, this, target) else rename_to P clobber target (k, this))
        in (error, fst (Entry_Unset P (k, target)), this))"

definition Entry_Rename :: "'k posix \<Rightarrow> byte list option \<Rightarrow> bool \<Rightarrow> 'k \<times> entry \<Rightarrow> 'k searched" where
  "Entry_Rename P p clobber s =
     (let (k, this) = s
      in case p of
           None \<Rightarrow> Some (Inr (B_BAD_VALUE, s))
         | Some q \<Rightarrow>
             if e_status this \<noteq> B_OK then Some (Inr (B_NO_INIT, s))
             else bindO (if is_absolute q then Entry_SetTo_path P p False (k, Entry_new)
                         else let (dirFD, k) = kern_dup P (e_dirFd this) k
                              in if dirFD < 0 then Some (Inr (dirFD, k, Entry_new)) else status_of (Entry_find P dirFD p False (k, Entry_new)))
                    (\<lambda>r. Some (Inr (rename_found P clobber this r))))"

definition Entry_MoveTo :: "'k posix \<Rightarrow> directory option \<Rightarrow> byte list option \<Rightarrow> bool \<Rightarrow> 'k \<times> entry \<Rightarrow> 'k searched" where
  "Entry_MoveTo P dir p clobber s =
     (let (k, this) = s
      in if e_status this \<noteq> B_OK then Some (Inr (B_NO_INIT, s))
         else case dir of
           None \<Rightarrow> Some (Inr (B_BAD_VALUE, s))
         | Some d \<Rightarrow>
             if d_status d \<noteq> B_OK then Some (Inr (B_BAD_VALUE, s))
             else bindO (Entry_SetTo_dir P dir (if p = None then e_name this else p) False (k, Entry_new))
                    (\<lambda>r. Some (Inr (rename_found P clobber this r))))"

definition Entry_Remove :: "'k posix \<Rightarrow> entry \<Rightarrow> 'k \<Rightarrow> status \<times> 'k" where
  "Entry_Remove P this k =
     (if e_status this \<noteq> B_OK then (B_NO_INIT, k)
      else if IsDirectory (Entry_GetStat P this k) then kern_remove_dir P (e_dirFd this) (e_name this) k
      else kern_unlink P (e_dirFd this) (e_name this) k)"

definition Entry_eq :: "'k posix \<Rightarrow> entry \<Rightarrow> entry \<Rightarrow> 'k \<Rightarrow> (bool \<times> 'k) outcome" where
  "Entry_eq P this item k =
     (if e_status this \<noteq> B_OK \<and> e_status item \<noteq> B_OK then Inr (True, k)
      else if e_status this = B_OK \<and> e_status item = B_OK then
        (let (error, ref1, k) = GetRef P this ref_new k
         in if error \<noteq> B_OK then Inr (False, ref_delete P ref1 (ref_delete P ref_new k))
            else let (error, ref2, k) = GetRef P item ref_new k
                 in if error \<noteq> B_OK then Inr (False, ref_delete P ref1 (ref_delete P ref2 k))
                    else bindR (ref_eq P ref1 ref2 k) (\<lambda>r. Inr (r, ref_delete P ref1 (ref_delete P ref2 k))))
      else Inr (False, k))"

definition Entry_assign :: "'k posix \<Rightarrow> entry arg \<Rightarrow> 'k \<times> entry \<Rightarrow> 'k \<times> entry" where
  "Entry_assign P item s =
     (case item of
        Same \<Rightarrow> s
      | Other x \<Rightarrow>
          let (k, this) = Entry_Unset P s
          in if e_status x \<noteq> B_OK then (k, this)
             else let (d, k) = kern_dup P (e_dirFd x) k; this = this\<lparr>e_dirFd := d\<rparr>;
                      (st, this) = (if 0 \<le> d then Entry_SetName P this (e_name x) else (d, this))
                  in if st \<noteq> B_OK then Entry_Unset P (k, this) else (k, this\<lparr>e_status := st\<rparr>))"

definition get_ref_for_path :: "'k posix \<Rightarrow> byte list option \<Rightarrow> entry_ref option \<Rightarrow> 'k \<Rightarrow> (status \<times> entry_ref option \<times> 'k) partial" where
  "get_ref_for_path P p ref k =
     (if p = None \<or> ref = None then Some (Inr (B_BAD_VALUE, ref, k))
      else bindO (Entry_SetTo_path P p False (k, Entry_new)) (\<lambda>(error, k, x).
           if e_status x \<noteq> B_OK then Some (Inr (e_status x, ref, fst (Entry_Unset P (k, x))))
           else let (error, r, k) = GetRef P x (the ref) k in Some (Inr (error, Some r, fst (Entry_Unset P (k, x))))))"

section \<open>Searching ends and keeps track of the descriptors\<close>

text \<open>
  A search that cannot come to \<open>_kern_open_parent_dir\<close>: the last component of the path, and of the target of every link that may be followed, is a name.
\<close>

definition plain_path :: "byte list \<Rightarrow> bool" where
  "plain_path p \<longleftrightarrow> path_filename p \<notin> {[], [dot], [dot, dot]}"

definition direct_search :: "'k posix \<Rightarrow> bool \<Rightarrow> byte list \<Rightarrow> bool" where
  "direct_search P traverse p \<longleftrightarrow> plain_path p \<and>
     (traverse \<longrightarrow> (\<forall>fd s n k t. k_readlinkat P fd s n k = Inr t \<longrightarrow> plain_path (cstring (c_str t))))"

definition found_ok :: "'k posix \<Rightarrow> bool \<Rightarrow> int set \<Rightarrow> status + int \<times> byte list option \<Rightarrow> 'k \<Rightarrow> bool" where
  "found_ok P z B r k \<longleftrightarrow> (case r of Inl e \<Rightarrow> e < 0 \<and> holds P z B (- 1) k | Inr (d, _) \<Rightarrow> 0 \<le> d \<and> holds P z B d k)"

lemma open_parent_found:
  assumes "open_parent P d k = Inr (r, k')" "holds P z B d k" "documented_calls P" "\<not> z"
  shows "found_ok P z B r k'"
proof -
  obtain p nm k1 where k1: "kern_open_parent_dir P d B_FILE_NAME_LENGTH k = Inr (p, nm, k1)"
    "r = (if p < 0 then Inl p else Inr (p, nm))" "k' = close_held P d k1"
    using assms(1) by (auto simp: open_parent_def be_simps)
  note h = open_parent_dir_opens [OF k1(1) assms(2-4)]
  show ?thesis
  proof (cases "p < 0")
    case True
    then show ?thesis using h k1 close_holds [OF _ assms(3)] by (simp add: found_ok_def)
  next
    case False
    then have "holds P z B p k'" using h k1(3) close_older [of P z d B p k1] assms(2,3) by (auto simp: holds_def)
    then show ?thesis using False k1(2) by (simp add: found_ok_def)
  qed
qed

lemma here_found:
  assumes "here P d k = Inr (r, k')" "holds P z B d k" "documented_calls P" "\<not> z"
  shows "found_ok P z B r k'"
proof (cases "d < 0")
  case True
  obtain d1 k1 where d1: "kern_open_dir P (- 1) (Some [dot]) k = (d1, k1)" by fastforce
  note h = open_dir_opens [OF d1 assms(2,3)]
  show ?thesis
  proof (cases "d1 < 0")
    case True
    then show ?thesis using assms h d1 \<open>d < 0\<close> holds_neg [OF _ assms(3)] by (auto simp: here_def found_ok_def)
  next
    case False
    then have "holds P z B d1 k1" "open_parent P d1 k1 = Inr (r, k')" using assms(1) h d1 \<open>d < 0\<close> by (auto simp: here_def)
    from open_parent_found [OF this(2,1) assms(3,4)] show ?thesis .
  qed
next
  case False
  then show ?thesis using assms open_parent_found by (auto simp: here_def)
qed

lemma above_found:
  assumes "above P d k = Inr (r, k')" "holds P z B d k" "documented_calls P" "\<not> z"
  shows "found_ok P z B r k'"
proof -
  obtain d1 k1 where d1: "kern_open_dir P d (Some [dot, dot]) k = (d1, k1)" by fastforce
  show ?thesis
  proof (cases "d1 < 0")
    case True
    then have "holds P z B d k1" using open_dir_opens [OF d1 assms(2,3)] by simp
    then show ?thesis using assms(1) d1 True close_holds [OF _ assms(3)] by (auto simp: above_def found_ok_def)
  next
    case False
    then have "holds P z B d1 (close_held P d k1)" using open_dir_swaps [OF d1 _ assms(2,3)] by simp
    then show ?thesis using assms(1,3,4) d1 False open_parent_found by (auto simp: above_def)
  qed
qed

lemma error_codes [simp]:
  "B_BAD_VALUE < 0" "B_ERROR < 0" "B_NO_MEMORY < 0" "B_NAME_TOO_LONG < 0" "B_NO_INIT < 0" "B_LINK_LIMIT < 0"
  by (simp_all add: status_defs B_LINK_LIMIT_def)

lemma parse_path_error: "parse_path p = Inl e \<Longrightarrow> e < 0"
  by (auto simp: parse_path_def Let_def split: if_splits)

lemma check_entry_name_error: "check_entry_name x \<noteq> B_OK \<Longrightarrow> check_entry_name x < 0"
  by (auto simp: check_entry_name_def split: option.splits if_splits)

text \<open>The three ways in which the ordinary branch opens a directory.\<close>

lemma opened_located:
  assumes "kern_open_dir P fd p k = (d, k')" "holds P z B c k" "documented_calls P"
  shows "if d < 0 then holds P z B (- 1) (close_held P c k') else holds P z B d (close_held P c k')"
  using open_dir_opens [OF assms] open_dir_swaps [OF assms(1) _ assms(2,3)] close_holds [OF _ assms(3)] by auto

lemma locate_found:
  assumes "locate P d p k = (l, k')" "holds P z B d k" "documented_calls P"
  shows "case l of Failed e \<Rightarrow> e < 0 \<and> holds P z B (- 1) k' | Again d' \<Rightarrow> 0 \<le> d' \<and> holds P z B d' k' | Located d' leaf \<Rightarrow> 0 \<le> d' \<and> holds P z B d' k'"
proof (cases "parse_path p")
  case (Inl e)
  then show ?thesis using assms parse_path_error close_holds [OF assms(2,3)] by (auto simp: locate_def)
next
  case (Inr r)
  obtain dir leaf where r: "r = (dir, leaf)" by fastforce
  let ?leaf = "if leaf = [] \<and> is_absolute dir then [dot] else leaf"
  consider "?leaf = []" | "?leaf = [dot] \<or> ?leaf = [dot, dot]" | "?leaf \<noteq> []" "?leaf \<noteq> [dot]" "?leaf \<noteq> [dot, dot]" by blast
  then show ?thesis
  proof cases
    case 1
    have new: "if d1 < 0 then holds P z B (- 1) k1 else holds P z B d1 k1" if "d < 0" "kern_open_dir P fd q k = (d1, k1)" for fd q d1 k1
      using opened_located [OF that(2) assms(2,3)] that(1) by (cases "d1 < 0") (simp_all add: close_held_def)
    show ?thesis
    proof (cases "d < 0 \<and> check_entry_name (Some dir) = B_OK")
      case True
      then show ?thesis
        using 1 assms(1) Inr r new holds_neg [OF assms(2,3)]
        by (cases "k_getcwd P B_PATH_NAME_LENGTH k") (auto simp: locate_def Let_def split: if_splits prod.splits)
    next
      case False
      then show ?thesis
        using 1 assms(1,2) Inr r check_entry_name_error [of "Some dir"] close_holds [OF assms(2,3)]
        by (auto simp: locate_def Let_def split: if_splits)
    qed
  next
    case 2
    obtain d1 k1 where d1: "kern_open_dir P (- 1) (Some p) k = (d1, k1)" by fastforce
    show ?thesis using 2 assms(1) Inr r d1 opened_located [OF d1 assms(2,3)] by (auto simp: locate_def Let_def split: if_splits)
  next
    case 3
    obtain d1 k1 where d1: "kern_open_dir P d (Some dir) k = (d1, k1)" by fastforce
    show ?thesis using 3 assms(1) Inr r d1 opened_located [OF d1 assms(2,3)] by (auto simp: locate_def Let_def split: if_splits)
  qed
qed

lemma plain_pathD: "plain_path p \<Longrightarrow> p \<noteq> [dot] \<and> p \<noteq> [dot, dot]"
  by (auto simp: plain_path_def path_filename_def)

lemma locate_direct: "locate P d p k = (Again d', k') \<Longrightarrow> \<not> plain_path p"
  by (auto simp: locate_def plain_path_def parse_path_def Let_def split: if_splits prod.splits option.splits)

lemma entry_search_here: "entry_search P d None t c n k = Some (here P d k)"
  by (simp add: entry_search.simps)

lemma entry_search_returns: "\<exists>r. entry_search P d p t c n k = Some r"
proof (induction "nat n" arbitrary: d p t c n k rule: less_induct)
  case less
  show ?case
  proof (cases "p = None \<or> p = Some [dot] \<or> p = Some [dot, dot]")
    case True
    then show ?thesis by (subst entry_search.simps) auto
  next
    case False
    have IH: "\<exists>r. entry_search P d p t c (n - 1) k = Some r" if "\<not> n < 1" for d p t c k by (rule less) (use that in simp)
    show ?thesis
      by (subst entry_search.simps)
        (use False in \<open>auto simp: entry_search_here Let_def IH split: located.splits sum.splits prod.splits\<close>)
  qed
qed

lemma kern_read_stat_error: "kern_read_stat P d nm t k = Inl e \<Longrightarrow> documented_calls P \<Longrightarrow> e < 0"
  using documented_callsD(10) by (fastforce simp: kern_read_stat_def B_FROM_POSIX_ERROR_def split: if_splits sum.splits)

lemma kern_read_link_error: "kern_read_link P d nm n k = Inl e \<Longrightarrow> documented_calls P \<Longrightarrow> e < 0"
  using documented_callsD(14) by (fastforce simp: kern_read_link_def B_FROM_POSIX_ERROR_def split: if_splits sum.splits)

lemma entry_search_found:
  "entry_search P d p t c n k = Some (Inr (r, k')) \<Longrightarrow> holds P z B d k \<Longrightarrow> documented_calls P \<Longrightarrow>
     (z \<Longrightarrow> p \<noteq> None \<and> direct_search P t (the p)) \<Longrightarrow> found_ok P z B r k'"
proof (induction "nat n" arbitrary: d p c n k rule: less_induct)
  case less
  note P = less.prems(3)
  have search: "entry_search P d p t c n k = Some (Inr (r, k'))" by (rule less.prems(1))
  consider "p = None \<or> p = Some [dot]" | "p = Some [dot, dot]" | q where "p = Some q" "q \<noteq> [dot]" "q \<noteq> [dot, dot]" by (cases p) auto
  then show ?case
  proof cases
    case 1
    then have "\<not> z" using less.prems(4) plain_pathD [of "the p"] by (auto simp: direct_search_def)
    with 1 show ?thesis using search here_found [OF _ less.prems(2) P] by (simp add: entry_search.simps)
  next
    case 2
    then have "\<not> z" using less.prems(4) plain_pathD [of "the p"] by (auto simp: direct_search_def)
    with 2 show ?thesis using search above_found [OF _ less.prems(2) P] by (simp add: entry_search.simps)
  next
    case 3
    obtain l k1 where l: "locate P d q k = (l, k1)" by fastforce
    note L = locate_found [OF l less.prems(2) P]
    show ?thesis
    proof (cases l)
      case (Failed e)
      then show ?thesis using search 3 l L by (auto simp: entry_search.simps found_ok_def)
    next
      case (Again d1)
      then have "here P d1 k1 = Inr (r, k')" using search 3 l by (simp add: entry_search.simps [of P d] entry_search_here)
      moreover have "\<not> z" using less.prems(4) locate_direct [of P d q k d1 k1] l Again 3(1) by (auto simp: direct_search_def)
      ultimately show ?thesis using here_found [OF _ _ P] L Again by auto
    next
      case (Located d1 leaf)
      then have h: "0 \<le> d1" "holds P z B d1 k1" using L by simp_all
      have e: "found_ok P z B (Inl e) (close_held P d1 k1)" if "e < 0" for e using that close_holds [OF h(2) P] by (simp add: found_ok_def)
      have f: "found_ok P z B (Inr (d1, x)) k1" for x using h by (simp add: found_ok_def)
      have IH: "found_ok P z B r k'" if "\<not> n < 1" "entry_search P d1 (Some (cstring (c_str x))) t True (n - 1) k1 = Some (Inr (r, k'))"
        "kern_read_link P d1 nm m k1 = Inr x" "t" for x nm m
      proof -
        note T = that
        obtain s' where x: "k_readlinkat P d1 s' m k1 = Inr x" using T(3) by (auto simp: kern_read_link_def split: if_splits sum.splits)
        have "direct_search P t (cstring (c_str x))" if z using less.prems(4) [OF that] T(4) x by (auto simp: direct_search_def)
        then have "z \<Longrightarrow> direct_search P True (cstring (c_str x))" using T(4) by simp
        then show ?thesis using less.hyps [OF _ T(2) h(2) P] T(1,4) by simp
      qed
      show ?thesis
        using search 3 l Located IH e f kern_read_stat_error [OF _ P] kern_read_link_error [OF _ P]
        by (auto simp: entry_search.simps [of P d] Let_def split: if_splits sum.splits)
    qed
  qed
qed

lemma entry_cases [simp]: "e_dirFd Entry_new = - 1" "e_name Entry_new = None" "e_status Entry_new = B_NO_INIT"
  by (simp_all add: Entry_new_def)

section \<open>Entries own their descriptors\<close>

text \<open>An entry that is set has a descriptor and a name.\<close>

definition entry_ok :: "entry \<Rightarrow> bool" where
  "entry_ok x \<longleftrightarrow> (e_status x = B_OK \<longrightarrow> 0 \<le> e_dirFd x \<and> e_name x \<noteq> None)"

definition owns :: "'k posix \<Rightarrow> bool \<Rightarrow> int set \<Rightarrow> 'k \<times> entry \<Rightarrow> bool" where
  "owns P z B s \<longleftrightarrow> entry_ok (snd s) \<and> holds P z B (e_dirFd (snd s)) (fst s)"

lemma not_ok [simp]: "e < 0 \<Longrightarrow> e \<noteq> B_OK" by (simp add: B_OK_def)

lemma new_ok [simp]: "entry_ok Entry_new" by (simp add: entry_ok_def)

lemma Unset_owns: "owns P z B s \<Longrightarrow> documented_calls P \<Longrightarrow> owns P z B (Entry_Unset P s) \<and> snd (Entry_Unset P s) = Entry_new"
  using close_holds by (auto simp: owns_def Entry_Unset_def)

lemma find_owns:
  assumes "Entry_find P d p t s = Some (Inr (st, k', x))" "snd s = Entry_new \<or> snd s = Entry_new\<lparr>e_status := v\<rparr>"
    "holds P z B d (fst s)" "documented_calls P" "z \<Longrightarrow> p \<noteq> None \<and> direct_search P t (the p)"
  shows "owns P z B (k', x\<lparr>e_status := st\<rparr>)"
proof -
  obtain r k1 where r: "entry_search P d p t False (int B_MAX_SYMLINKS) (fst s) = Some (Inr (r, k1))"
    using assms(1) by (auto simp: Entry_find_def be_simps)
  from entry_search_found [OF r assms(3,4,5)] have f: "found_ok P z B r k1" .
  show ?thesis
  proof (cases r)
    case (Inl e)
    then show ?thesis using assms(1,2) r f by (auto simp: Entry_find_def found_ok_def owns_def entry_ok_def)
  next
    case (Inr y)
    then obtain d1 leaf where y: "r = Inr (d1, Some leaf)"
      using assms(1) r by (cases y) (auto simp: Entry_find_def split: option.splits)
    then have h: "0 \<le> d1" "holds P z B d1 k1" using f by (simp_all add: found_ok_def)
    show ?thesis
      using assms(1,2) r y h close_holds [OF h(2) assms(4)]
      by (cases "k_alloc P (length leaf + 1)") (auto simp: Entry_find_def Entry_SetName_def owns_def entry_ok_def)
  qed
qed

lemma status_of_owns:
  assumes "status_of (Entry_find P d p t s) = Some (Inr (st, s'))" "snd s = Entry_new \<or> snd s = Entry_new\<lparr>e_status := v\<rparr>"
    "holds P z B d (fst s)" "documented_calls P" "z \<Longrightarrow> p \<noteq> None \<and> direct_search P t (the p)"
  shows "owns P z B s' \<and> st = e_status (snd s')"
  using assms(1) find_owns [OF _ assms(2-5)] by (auto simp: status_of_def be_simps with_status_def)

lemma SetTo_path_owns:
  assumes "Entry_SetTo_path P p t s = Some (Inr (st, s'))" "owns P z B s" "documented_calls P" "z \<Longrightarrow> p = None \<or> direct_search P t (the p)"
  shows "owns P z B s' \<and> st = e_status (snd s')"
proof -
  have u: "owns P z B (Entry_Unset P s)" "snd (Entry_Unset P s) = Entry_new" using Unset_owns [OF assms(2,3)] by simp_all
  then have h: "holds P z B (- 1) (fst (Entry_Unset P s))" by (simp add: owns_def)
  show ?thesis
  proof (cases p)
    case None
    then show ?thesis using assms(1) u h by (auto simp: Entry_SetTo_path_def with_status_def owns_def entry_ok_def split: prod.splits)
  next
    case (Some q)
    then have "status_of (Entry_find P (- 1) p t (Entry_Unset P s)) = Some (Inr (st, s'))" using assms(1) by (simp add: Entry_SetTo_path_def Let_def)
    from status_of_owns [OF this disjI1 [OF u(2)] h assms(3)] show ?thesis using assms(4) Some by blast
  qed
qed

lemma SetTo_dir_owns:
  assumes "Entry_SetTo_dir P dir p t s = Some (Inr (st, s'))" "owns P z B s" "documented_calls P" "z \<Longrightarrow> p = None \<or> direct_search P t (the p)"
  shows "owns P z B s' \<and> st = e_status (snd s')"
proof (cases dir)
  case None
  then show ?thesis using assms(1,2) by (cases s) (auto simp: Entry_SetTo_dir_def with_status_def owns_def entry_ok_def)
next
  case f: (Some f)
  obtain c q where p: "p = Some (c # q)" using assms(1) f by (cases p; cases "the p") (auto simp: Entry_SetTo_dir_def)
  show ?thesis
  proof (cases "is_absolute (c # q)")
    case True
    then show ?thesis using assms(1) f p SetTo_path_owns [OF _ assms(2-4)] by (simp add: Entry_SetTo_dir_def)
  next
    case False
    let ?x = "if d_status f \<noteq> B_OK then Entry_new\<lparr>e_status := B_BAD_VALUE\<rparr> else Entry_new"
    obtain k0 where k0: "Entry_Unset P s = (k0, Entry_new)" "holds P z B (- 1) k0"
      using Unset_owns [OF assms(2,3)] by (cases "Entry_Unset P s") (auto simp: owns_def)
    obtain d k1 where d: "kern_dup P (d_dirFd f) k0 = (d, k1)" by fastforce
    note h = dup_opens [OF d k0(2) assms(3)]
    show ?thesis
    proof (cases "d < 0")
      case True
      then show ?thesis using assms(1) f p False k0 d h by (auto simp: Entry_SetTo_dir_def with_status_def owns_def entry_ok_def Let_def split: if_splits)
    next
      case d0: False
      then have r: "status_of (Entry_find P d (Some (c # q)) t (k1, ?x)) = Some (Inr (st, s'))"
        using assms(1) f p False k0 d by (simp add: Entry_SetTo_dir_def)
      have "snd (k1, ?x) = Entry_new \<or> snd (k1, ?x) = Entry_new\<lparr>e_status := B_BAD_VALUE\<rparr>" "holds P z B d (fst (k1, ?x))" using h d0 by simp_all
      from status_of_owns [OF r this assms(3)] show ?thesis using assms(4) p by blast
    qed
  qed
qed

text \<open>Renaming: while the target is searched, the entry keeps its descriptor; then one of the two closes its own.\<close>

lemma holds_shift: "holds P z (insert c B) d k \<Longrightarrow> d < 0 \<Longrightarrow> c \<notin> B \<Longrightarrow> 0 \<le> c \<Longrightarrow> holds P z B c k"
  by (auto simp: holds_def)

lemma rename_found_owns:
  assumes "rename_found P clobber this (st, k, target) = (st', k', x)" "entry_ok this" "e_status this = B_OK" "e_dirFd this \<notin> B"
    "owns P z (insert (e_dirFd this) B) (k, target)" "st = B_OK \<longrightarrow> e_status target = B_OK" "documented_calls P"
  shows "owns P z B (k', x)"
proof -
  have c: "0 \<le> e_dirFd this" "e_name this \<noteq> None" using assms(2,3) by (auto simp: entry_ok_def)
  have keep: "owns P z B (fst (Entry_Unset P (k1, target)), this)" if "holds P z (insert (e_dirFd this) B) (e_dirFd target) k1" for k1
    using close_holds [OF that assms(7)] holds_shift [of P z _ B "- 1"] assms(2,4) c(1) by (simp add: owns_def Entry_Unset_def)
  show ?thesis
  proof (cases "st = B_OK \<and> (clobber \<or> \<not> Exists P target k)")
    case True
    obtain error k1 where r: "kern_rename P (e_dirFd this) (e_name this) (e_dirFd target) (e_name target) k = (error, k1)" by fastforce
    have "k_open P k1 = k_open P k"
      using r documented_callsD(15) [OF assms(7), of "e_dirFd this" "e_name this" "e_dirFd target" "e_name target" k]
      by (cases "k_renameat P (e_dirFd this) (e_name this) (e_dirFd target) (e_name target) k")
        (auto simp: kern_rename_def posix_call_def split: sum.splits)
    then have h: "holds P z (insert (e_dirFd this) B) (e_dirFd target) k1" using assms(5) by (simp add: owns_def holds_def)
    have m: "holds P z B (e_dirFd target) (close_held P (e_dirFd this) k1)"
      using close_older [of P z "e_dirFd this" B "e_dirFd target" k1] h c(1) assms(4,7) by (auto simp: holds_def)
    show ?thesis
    proof (cases "error = B_OK")
      case True
      then have "k' = close_held P (e_dirFd this) k1" "x = target"
        using assms(1) r \<open>st = B_OK \<and> _\<close> by (auto simp: rename_found_def rename_to_def Entry_Unset_def close_held_def [of P "- 1"])
      then show ?thesis using m assms(5) by (simp add: owns_def)
    next
      case False
      then have "k' = fst (Entry_Unset P (k1, target))" "x = this"
        using assms(1) r \<open>st = B_OK \<and> _\<close> by (auto simp: rename_found_def rename_to_def)
      then show ?thesis using keep [OF h] by simp
    qed
  next
    case False
    then have "k' = fst (Entry_Unset P (k, target))" "x = this"
      using assms(1) by (auto simp: rename_found_def rename_to_def split: if_splits)
    then show ?thesis using keep [of k] assms(5) by (simp add: owns_def)
  qed
qed

lemma new_owns: "owns P z B (k, this) \<Longrightarrow> documented_calls P \<Longrightarrow> e_status this = B_OK \<Longrightarrow> owns P z (insert (e_dirFd this) B) (k, Entry_new) \<and> e_dirFd this \<notin> B"
  using documented_callsD(1) [of P "- 1" k] by (auto simp: owns_def holds_def entry_ok_def)

lemma Rename_owns:
  assumes "Entry_Rename P p clobber (k, this) = Some (Inr (st, s'))" "owns P z B (k, this)" "documented_calls P" "z \<Longrightarrow> p \<noteq> None \<and> direct_search P False (the p)"
  shows "owns P z B s'"
proof (cases "e_status this = B_OK \<and> p \<noteq> None")
  case True
  then obtain q where q: "p = Some q" "e_status this = B_OK" by auto
  note n = new_owns [OF assms(2,3) q(2)]
  have x: "entry_ok this" using assms(2) by (simp add: owns_def)
  obtain r where r: "(if is_absolute q then Entry_SetTo_path P p False (k, Entry_new)
      else let (dirFD, k) = kern_dup P (e_dirFd this) k
           in if dirFD < 0 then Some (Inr (dirFD, k, Entry_new)) else status_of (Entry_find P dirFD p False (k, Entry_new))) = Some (Inr r)"
    "(st, s') = rename_found P clobber this r"
    using assms(1) q by (auto simp: Entry_Rename_def be_simps)
  have "owns P z (insert (e_dirFd this) B) (snd r) \<and> (fst r = B_OK \<longrightarrow> e_status (snd (snd r)) = B_OK)"
  proof (cases "is_absolute q")
    case True
    then show ?thesis using r(1) SetTo_path_owns [OF _ conjunct1 [OF n] assms(3)] assms(4) by (cases r) auto
  next
    case False
    obtain d k1 where d: "kern_dup P (e_dirFd this) k = (d, k1)" by fastforce
    have "holds P z (insert (e_dirFd this) B) (- 1) k" using n by (simp add: owns_def)
    note h = dup_opens [OF d this assms(3)]
    show ?thesis
    proof (cases "d < 0")
      case True
      then show ?thesis using r(1) False d h by (auto simp: owns_def)
    next
      case d0: False
      then have "status_of (Entry_find P d p False (k1, Entry_new)) = Some (Inr (fst r, snd r))" using r(1) False d by simp
      from status_of_owns [OF this _ _ assms(3), of B_OK z "insert (e_dirFd this) B"] show ?thesis using h d0 assms(4) by simp
    qed
  qed
  then show ?thesis
    using r(2) rename_found_owns [of P clobber this "fst r" "fst (snd r)" "snd (snd r)" st "fst s'" "snd s'" B z] x q(2) n assms(3) by simp
next
  case False
  then show ?thesis using assms(1,2) by (auto simp: Entry_Rename_def split: option.splits)
qed

lemma MoveTo_owns:
  assumes "Entry_MoveTo P dir p clobber (k, this) = Some (Inr (st, s'))" "owns P z B (k, this)" "documented_calls P" "z \<Longrightarrow> p \<noteq> None \<and> direct_search P False (the p)"
  shows "owns P z B s'"
proof (cases "e_status this = B_OK \<and> dir \<noteq> None \<and> d_status (the dir) = B_OK")
  case True
  then have q: "e_status this = B_OK" by simp
  note n = new_owns [OF assms(2,3) q]
  obtain r where r: "Entry_SetTo_dir P dir (if p = None then e_name this else p) False (k, Entry_new) = Some (Inr r)"
    "(st, s') = rename_found P clobber this r"
    using assms(1) True by (auto simp: Entry_MoveTo_def be_simps split: if_splits)
  obtain e k1 target where t: "r = (e, k1, target)" by (cases r) auto
  have o: "owns P z (insert (e_dirFd this) B) (k1, target)" "e = B_OK \<longrightarrow> e_status target = B_OK"
    using SetTo_dir_owns [OF r(1) [unfolded t] conjunct1 [OF n] assms(3)] assms(4) by auto
  have "entry_ok this" using assms(2) by (simp add: owns_def)
  from rename_found_owns [OF _ this q conjunct2 [OF n] o assms(3)] show ?thesis using r(2) [symmetric] t by (cases s') auto
next
  case False
  then show ?thesis using assms(1,2) by (auto simp: Entry_MoveTo_def split: option.splits if_splits)
qed

lemma assign_owns:
  assumes "owns P z B s" "documented_calls P" "case item of Same \<Rightarrow> True | Other x \<Rightarrow> entry_ok x"
  shows "owns P z B (Entry_assign P item s)"
proof (cases item)
  case Same
  then show ?thesis using assms(1) by (simp add: Entry_assign_def)
next
  case (Other x)
  obtain k0 where k0: "Entry_Unset P s = (k0, Entry_new)" "holds P z B (- 1) k0" "owns P z B (k0, Entry_new)"
    using Unset_owns [OF assms(1,2)] by (cases "Entry_Unset P s") (auto simp: owns_def)
  obtain d k1 where d: "kern_dup P (e_dirFd x) k0 = (d, k1)" by fastforce
  note h = dup_opens [OF d k0(2) assms(2)]
  show ?thesis
  proof (cases "e_status x = B_OK")
    case False
    then show ?thesis using Other k0 by (simp add: Entry_assign_def)
  next
    case True
    obtain nm where nm: "e_name x = Some nm" using assms(3) Other True by (auto simp: entry_ok_def)
    show ?thesis
    proof (cases "d < 0")
      case d1: True
      then show ?thesis using Other True k0 d h holds_neg [of P z B d k1 "- 1"] holds_neg [of P z B "- 1" k1 d] assms(2)
        by (auto simp: Entry_assign_def owns_def Entry_Unset_def close_held_def)
    next
      case False
      then have "holds P z B d k1" using h by simp
      from close_holds [OF this assms(2)] this show ?thesis
        using Other True k0 d nm False
        by (cases "k_alloc P (length nm + 1)") (auto simp: Entry_assign_def Entry_SetName_def owns_def Entry_Unset_def entry_ok_def)
    qed
  qed
qed

text \<open>Comparing: the references have descriptors of their own, which are closed in the end.\<close>

lemma ref_delete_open: "documented_calls P \<Longrightarrow> k_open P (ref_delete P r k) = k_open P k - {ref_dirfd r}"
  by (simp add: ref_delete_def documented_callsD(7))

lemma delete_ref_holds:
  assumes "holds P z (if 0 \<le> c then insert c B else B) (ref_dirfd r) k" "c \<notin> B" "documented_calls P"
  shows "holds P z B c (ref_delete P r k)"
proof -
  have "ref_dirfd r \<notin> k_open P k" if "ref_dirfd r < 0" using documented_callsD(1) [OF assms(3), of "ref_dirfd r" k] that by auto
  then show ?thesis
    using assms unfolding holds_def ref_delete_open [OF assms(3)] by (cases "0 \<le> c"; cases "0 \<le> ref_dirfd r") auto
qed

lemma delete_new_holds: "holds P z B c k \<Longrightarrow> documented_calls P \<Longrightarrow> holds P z B c (ref_delete P ref_new k)"
  using documented_callsD(1) [of P "- 1" k] by (auto simp: holds_def ref_delete_open ref_new_def)

lemma GetRef_holds:
  assumes "GetRef P x ref_new k = (e, r, k')" "holds P z B c k" "documented_calls P"
  shows "holds P z (if 0 \<le> c then insert c B else B) (ref_dirfd r) k' \<and> c \<notin> B"
proof -
  have c: "c \<notin> B" using assms(2) by (simp add: holds_def)
  have keep: "holds P z (if 0 \<le> c then insert c B else B) (- 1) k1" if "holds P z B c k1" for k1
    using that documented_callsD(1) [OF assms(3), of "- 1" k1] by (auto simp: holds_def)
  show ?thesis
  proof (cases "e_status x = B_OK")
    case False
    then show ?thesis using assms(1) keep [OF assms(2)] c by (auto simp: GetRef_def ref_new_def)
  next
    case True
    let ?k = "ref_delete P ref_new k"
    have h: "holds P z B c ?k" using delete_new_holds [OF assms(2,3)] .
    obtain o' k1 where o: "k_dup P (e_dirFd x) ?k = (o', k1)" by fastforce
    then have op: "opens P ?k (o', k1)" using documented_callsD(3) [OF assms(3), of ?k "e_dirFd x"] by simp
    show ?thesis
    proof (cases o')
      case (Inl er)
      then have "posix_return (o', k1) = (- er, k1)" "- er < 0" using op by (auto simp: posix_return_def B_FROM_POSIX_ERROR_def opens_def)
      then have "holds P z B c k1" using return_opens [OF op _ h assms(3), of "- er" k1] by simp
      then show ?thesis using assms(1) True o Inl keep c by (auto simp: GetRef_def ref_new_def)
    next
      case (Inr d)
      then have "posix_return (o', k1) = (d, k1)" "\<not> d < 0" using op by (auto simp: posix_return_def opens_def)
      then have "holds P z (if 0 \<le> c then insert c B else B) d k1" using return_opens [OF op _ h assms(3), of d k1] by simp
      then show ?thesis
        using assms(1) True o Inr c by (auto simp: GetRef_def ref_new_def set_name_def split: option.splits if_splits)
    qed
  qed
qed

lemma eq_holds:
  assumes "Entry_eq P x y k = Inr (b, k')" "holds P z B c k" "documented_calls P"
  shows "holds P z B c k'"
proof (cases "e_status x = B_OK \<and> e_status y = B_OK")
  case False
  then show ?thesis using assms by (auto simp: Entry_eq_def split: if_splits)
next
  case True
  obtain e1 r1 k1 where 1: "GetRef P x ref_new k = (e1, r1, k1)" by (metis prod_cases3)
  obtain e2 r2 k2 where 2: "GetRef P y ref_new k1 = (e2, r2, k2)" by (metis prod_cases3)
  note h1 = GetRef_holds [OF 1 assms(2,3)]
  note h2 = GetRef_holds [OF 2 conjunct1 [OF h1] assms(3)]
  have "holds P z B c (ref_delete P r1 (ref_delete P ref_new k1))"
    using delete_ref_holds [OF delete_new_holds [OF conjunct1 [OF h1] assms(3)] conjunct2 [OF h1] assms(3)] .
  moreover have "holds P z B c (ref_delete P r1 (ref_delete P r2 k2))"
    using delete_ref_holds [OF delete_ref_holds [OF conjunct1 [OF h2] conjunct2 [OF h2] assms(3)] conjunct2 [OF h1] assms(3)] .
  ultimately show ?thesis using assms(1) True 1 2 by (auto simp: Entry_eq_def be_simps split: if_splits)
qed

lemma GetParent_keeps:
  assumes "GetParent_entry P this s = Inr (st, s')" "owns P z B s" "documented_calls P" "\<not> z"
  shows "owns P z B s'"
proof -
  have "snd s' = snd s \<and> (fst s' = fst s \<or> (\<exists>d nm n. kern_open_parent_dir P (e_dirFd this) n (fst s) = Inr (d, nm, fst s') \<and> d < 0))"
    using assms(1) open_parent_dir_opens [OF _ _ assms(3,4)] assms(2)
    by (cases s') (auto simp: GetParent_entry_def be_simps owns_def split: if_splits option.splits; blast)
  then show ?thesis using assms(2) open_parent_dir_opens [OF _ _ assms(3,4)] by (fastforce simp: owns_def)
qed

lemma remove_open: "documented_calls P \<Longrightarrow> k_open P (snd (Entry_Remove P this k)) = k_open P k"
  by (simp add: Entry_Remove_def kern_remove_dir_def kern_unlink_def documented_callsD(12))

section \<open>Which entries are found\<close>

text \<open>An ordinary name: the directory is opened, and the entry is the name in it.\<close>

lemma locate_plain:
  assumes "parse_path p = Inr (dir, leaf)" "leaf \<notin> {[], [dot], [dot, dot]}"
  shows "locate P d p k = (let (e, k1) = kern_open_dir P d (Some dir) k in (if e < 0 then Failed e else Located e leaf, close_held P d k1))"
  using assms by (simp add: locate_def)

lemma plain_not_dots: "parse_path p = Inr (dir, leaf) \<Longrightarrow> leaf \<notin> {[], [dot], [dot, dot]} \<Longrightarrow> p \<noteq> [dot] \<and> p \<noteq> [dot, dot]"
  by (auto simp: parse_path_def path_filename_def Let_def split: if_splits)

lemma SetTo_plain:
  assumes "parse_path p = Inr (dir, leaf)" "leaf \<notin> {[], [dot], [dot, dot]}" "k_alloc P (Suc (length leaf))"
  shows "Entry_SetTo_path P (Some p) False s =
    (let (d, k) = kern_open_dir P (- 1) (Some dir) (fst (Entry_Unset P s))
     in Some (Inr (if d < 0 then (d, k, Entry_new\<lparr>e_status := d\<rparr>) else (B_OK, k, \<lparr>e_dirFd = d, e_name = Some leaf, e_status = B_OK\<rparr>))))"
proof -
  obtain d k where d: "kern_open_dir P (- 1) (Some dir) (fst (Entry_Unset P s)) = (d, k)" by fastforce
  have u: "Entry_Unset P s = (fst (Entry_Unset P s), Entry_new)" by (simp add: Entry_Unset_def)
  have c: "close_held P (- 1) k = k" by (simp add: close_held_def)
  show ?thesis
    by (subst u)
      (use d c assms(3) plain_not_dots [OF assms(1,2)] in
        \<open>simp add: Entry_SetTo_path_def Entry_find_def entry_search.simps locate_plain [OF assms(1,2)] status_of_def with_status_def Entry_SetName_def
           Entry_new_def Entry_Unset_def\<close>)
qed

text \<open>The parts of a path.\<close>

lemma filename_no_slash: "slash \<notin> set (path_filename p)"
  by (auto simp: path_filename_def dest: set_takeWhileD)

lemma filename_suffix: "p = take (length p - length (path_filename p)) p @ path_filename p"
proof -
  have "rev p = takeWhile (\<lambda>c. c \<noteq> slash) (rev p) @ dropWhile (\<lambda>c. c \<noteq> slash) (rev p)" by simp
  then have "p = rev (dropWhile (\<lambda>c. c \<noteq> slash) (rev p)) @ path_filename p"
    unfolding path_filename_def by (metis rev_append rev_rev_ident)
  then show ?thesis by (metis append_eq_conv_conj length_append add_diff_cancel_right')
qed

lemma without_slashes_parts:
  "\<exists>n. p = without_slashes p @ replicate n slash" "without_slashes p = [] \<or> last (without_slashes p) \<noteq> slash"
proof -
  have r: "rev p = takeWhile (\<lambda>c. c = slash) (rev p) @ dropWhile (\<lambda>c. c = slash) (rev p)" by simp
  have "takeWhile (\<lambda>c. c = slash) (rev p) = replicate (length (takeWhile (\<lambda>c. c = slash) (rev p))) slash"
    by (intro replicate_length_same [symmetric]) (auto dest: set_takeWhileD)
  moreover have "p = without_slashes p @ rev (takeWhile (\<lambda>c. c = slash) (rev p))"
    using arg_cong [OF r, of rev] by (simp add: without_slashes_def del: takeWhile_dropWhile_id)
  ultimately have "p = without_slashes p @ replicate (length (takeWhile (\<lambda>c. c = slash) (rev p))) slash"
    by (metis rev_replicate)
  then show "\<exists>n. p = without_slashes p @ replicate n slash" by blast
  show "without_slashes p = [] \<or> last (without_slashes p) \<noteq> slash"
    using hd_dropWhile [of "\<lambda>c. c = slash" "rev p"] by (auto simp: without_slashes_def last_rev)
qed

text \<open>
  Splitting a path loses nothing: it is the directory, slashes, and the name, which has no slash. The directory does not end in
  a slash unless it is the root.
\<close>

lemma parse_path_splits:
  assumes "parse_path p = Inr (dir, leaf)"
  shows "(\<exists>n. p = dir @ replicate n slash @ leaf) \<and> slash \<notin> set leaf \<and> length leaf < B_FILE_NAME_LENGTH \<and>
    (leaf \<noteq> [] \<and> dir \<noteq> [] \<and> dir \<noteq> [slash] \<longrightarrow> last dir \<noteq> slash)"
proof -
  have d: "dir = path_parent p" "leaf = path_filename p" "length leaf < B_FILE_NAME_LENGTH"
    using assms by (auto simp: parse_path_def Let_def split: if_splits)
  let ?d = "take (length p - length leaf) p"
  have p: "p = ?d @ leaf" using filename_suffix [of p] d(2) by simp
  obtain n where n: "?d = without_slashes ?d @ replicate n slash" using without_slashes_parts(1) by blast
  show ?thesis
  proof (cases "\<forall>c\<in>set p. c = slash")
    case True
    then have "leaf = []" using d(2) by (cases "rev p") (auto simp: path_filename_def)
    moreover have "dir = p" using d(1) True by (simp add: path_parent_def)
    ultimately show ?thesis using d(3) by (intro conjI exI [of _ 0]) auto
  next
    case False
    have dir: "dir = (if without_slashes ?d = [] \<and> ?d \<noteq> [] then [slash] else without_slashes ?d)"
      unfolding d path_parent_def if_not_P [OF False] Let_def ..
    have "\<exists>m. ?d = dir @ replicate m slash"
    proof (cases "without_slashes ?d = [] \<and> ?d \<noteq> []")
      case True
      then obtain m where "n = Suc m" using n by (cases n) auto
      then show ?thesis using True n dir by (intro exI [of _ m]) simp
    next
      case False
      then show ?thesis using n dir by auto
    qed
    then obtain m where "p = (dir @ replicate m slash) @ leaf" using p by metis
    then have "\<exists>n. p = dir @ replicate n slash @ leaf" by auto
    moreover have "dir = [slash] \<or> dir = [] \<or> last dir \<noteq> slash" using dir without_slashes_parts(2) [of ?d] by (auto split: if_splits)
    moreover have "slash \<notin> set leaf" using filename_no_slash [of p] d(2) by simp
    ultimately show ?thesis using d(3) by blast
  qed
qed

lemma without_slashes_take: "\<exists>m. without_slashes p = take m p"
  using without_slashes_parts(1) [of p] by (metis append_eq_conv_conj)

lemma parent_absolute: "is_absolute (path_parent p) \<Longrightarrow> is_absolute p"
proof -
  assume a: "is_absolute (path_parent p)"
  let ?d = "take (length p - length (path_filename p)) p"
  obtain m where m: "without_slashes ?d = take m ?d" using without_slashes_take by blast
  obtain n where n: "?d = without_slashes ?d @ replicate n slash" using without_slashes_parts(1) by blast
  have "is_absolute p" if "without_slashes ?d = []" "?d \<noteq> []"
    using n that by (cases n; cases p) (auto simp: is_absolute_def take_Cons split: nat.splits)
  moreover have "is_absolute p" if "is_absolute (take j p)" for j
    using that by (cases p; cases j) (auto simp: is_absolute_def)
  ultimately show ?thesis using a m by (auto simp: path_parent_def Let_def split: if_splits)
qed

lemma filename_nonempty: "p \<noteq> [] \<Longrightarrow> last p \<noteq> slash \<Longrightarrow> path_filename p \<noteq> []"
  by (cases p rule: rev_cases) (auto simp: path_filename_def)

lemma open_relative:
  assumes "documented_calls P" "\<not> is_absolute r"
  shows "\<exists>k'. kern_open_dir P (- 1) (Some r) k = (if r = [] then B_ENTRY_NOT_FOUND else B_FILE_ERROR, k')"
proof -
  have "- 1 \<notin> k_open P k" using documented_callsD(1) [OF assms(1), of "- 1" k] by auto
  then have "fst (k_openat P (- 1) (Some r) (O_DIRECTORY OR O_CLOEXEC) k) = Inl (if r = [] then ENOENT else EBADF)"
    using documented_callsD(4) [OF assms(1)] documented_callsD(5) [OF assms(1) _ assms(2)] by (auto simp: AT_FDCWD_def)
  then show ?thesis
    by (cases "k_openat P (- 1) (Some r) (O_DIRECTORY OR O_CLOEXEC) k")
      (auto simp: kern_open_dir_def posix_return_def B_FROM_POSIX_ERROR_def ENOENT_def EBADF_def B_ENTRY_NOT_FOUND_def B_FILE_ERROR_def)
qed

text \<open>C39. Setting an entry to a relative path that does not end in a slash never succeeds: the search passes -1 as the directory, which
  for the system is not the current directory but no descriptor. (For one that ends in a slash the code opens the
  directory that \<open>getcwd\<close> names instead.)\<close>

theorem relative_paths_fail:
  assumes "documented_calls P" "p \<noteq> []" "\<not> is_absolute p" "last p \<noteq> slash"
  shows "\<exists>st k'. Entry_SetTo_path P (Some p) traverse s = Some (Inr (st, k', Entry_new\<lparr>e_status := st\<rparr>)) \<and>
    st \<in> {B_FILE_ERROR, B_ENTRY_NOT_FOUND, B_NAME_TOO_LONG}"
proof -
  obtain k where u: "Entry_Unset P s = (k, Entry_new)" by (simp add: Entry_Unset_def)
  have neg: "B_FILE_ERROR < 0" "B_ENTRY_NOT_FOUND < 0" by (simp_all add: B_FILE_ERROR_def B_ENTRY_NOT_FOUND_def)
  have c: "close_held P (- 1) k' = k'" for k' by (simp add: close_held_def)
  have o: "\<exists>k'. kern_open_dir P (- 1) (Some r) k = (if r = [] then B_ENTRY_NOT_FOUND else B_FILE_ERROR, k')" if "\<not> is_absolute r" for r
    using open_relative [OF assms(1) that] .
  have dots: "\<not> is_absolute [dot]" "\<not> is_absolute [dot, dot]" by (simp_all add: is_absolute_def)
  have "\<exists>st k'. entry_search P (- 1) (Some p) traverse False (int B_MAX_SYMLINKS) k = Some (Inr (Inl st, k')) \<and>
      st \<in> {B_FILE_ERROR, B_ENTRY_NOT_FOUND, B_NAME_TOO_LONG}"
  proof (cases "p = [dot] \<or> p = [dot, dot]")
    case True
    then show ?thesis using o [OF dots(1)] o [OF dots(2)] neg c by (auto simp: entry_search.simps here_def above_def)
  next
    case False
    have "\<exists>st k'. locate P (- 1) p k = (Failed st, k') \<and> st \<in> {B_FILE_ERROR, B_ENTRY_NOT_FOUND, B_NAME_TOO_LONG}"
    proof (cases "parse_path p")
      case (Inl e)
      then have "e = B_NAME_TOO_LONG" using assms(2) by (auto simp: parse_path_def Let_def split: if_splits)
      then show ?thesis using Inl c by (simp add: locate_def)
    next
      case (Inr r)
      then have r: "r = (path_parent p, path_filename p)" "path_filename p \<noteq> []" "\<not> is_absolute (path_parent p)"
        using filename_nonempty assms(2-4) parent_absolute by (auto simp: parse_path_def Let_def split: if_splits)
      obtain k1 k2 where "kern_open_dir P (- 1) (Some p) k = (B_FILE_ERROR, k1)"
          "kern_open_dir P (- 1) (Some (path_parent p)) k = (if path_parent p = [] then B_ENTRY_NOT_FOUND else B_FILE_ERROR, k2)"
        using o [OF assms(3)] o [OF r(3)] assms(2) by auto
      then show ?thesis using Inr r neg c by (auto simp: locate_def Let_def)
    qed
    then show ?thesis using False by (auto simp: entry_search.simps)
  qed
  then show ?thesis using u assms(2)
    by (auto simp: Entry_SetTo_path_def Entry_find_def status_of_def with_status_def)
qed

text \<open>In the small system, the name \<open>b\<close>.\<close>

lemma relative_paths_fail_witness:
  "\<exists>st k'. Entry_SetTo_path tiny (Some [0x62]) True ([3], Entry_new) = Some (Inr (st, k', Entry_new\<lparr>e_status := st\<rparr>)) \<and> st < 0"
proof -
  have "B_FILE_ERROR < 0" "B_ENTRY_NOT_FOUND < 0" by (simp_all add: B_FILE_ERROR_def B_ENTRY_NOT_FOUND_def)
  then show ?thesis
    using relative_paths_fail [OF tiny_documented, of "[0x62]" True "([3], Entry_new)"] by (fastforce simp: is_absolute_def)
qed

text \<open>
  With a directory at hand, a path of more than two components and one of a single component fail alike, because \<open>_kern_open_dir\<close> takes
  the name of the directory for a leaf. So do the targets of symbolic links of these kinds.
\<close>

lemma found_from_directory_fails:
  assumes "0 \<le> d" "parse_path p = Inr (dir, leaf)" "leaf \<notin> {[], [dot], [dot, dot]}" "dir = [] \<or> slash \<in> set dir"
  shows "entry_search P d (Some p) t c n k = Some (Inr (Inl B_BAD_VALUE, close_held P d k))"
proof -
  have "kern_open_dir P d (Some dir) k = (B_BAD_VALUE, k)" using assms(1,4) by (auto simp: kern_open_dir_def bad_leaf_def)
  then show ?thesis
    using plain_not_dots [OF assms(2,3)] by (simp add: entry_search.simps locate_plain [OF assms(2,3)])
qed

text \<open>
  An entry that is set to a reference closes the descriptor of the reference, at the latest when it is unset, and already at once when the search
  fails, as it does for every reference with a plain name.
\<close>

lemma reference_loses_descriptor:
  assumes "documented_calls P" "0 \<le> ref_dirfd r" "ref_name r = Some nm" "parse_path nm = Inr ([], leaf)" "leaf \<notin> {[], [dot], [dot, dot]}" "\<not> is_absolute nm"
  shows "\<exists>k'. Entry_SetTo_ref P (Some r) traverse s = Some (Inr (B_BAD_VALUE, k', Entry_new\<lparr>e_status := B_BAD_VALUE\<rparr>)) \<and> ref_dirfd r \<notin> k_open P k'"
proof -
  obtain k where u: "Entry_Unset P s = (k, Entry_new)" by (simp add: Entry_Unset_def)
  have "Entry_find P (ref_dirfd r) (Some nm) traverse (k, Entry_new) = Some (Inr (B_BAD_VALUE, close_held P (ref_dirfd r) k, Entry_new))"
    by (simp add: Entry_find_def found_from_directory_fails [OF assms(2,4,5)])
  moreover have "ref_dirfd r \<notin> k_open P (close_held P (ref_dirfd r) k)" using assms(1,2) by (simp add: close_held_def close_open)
  ultimately show ?thesis using u assms(2,3,6) by (simp add: Entry_SetTo_ref_def status_of_def with_status_def)
qed

section \<open>Any number of entries\<close>

text \<open>What a program does with its entries.\<close>

datatype entry_op =
    Set_path nat "byte list option" bool | Set_dir nat "directory option" "byte list option" bool | Unset_entry nat | Assign nat nat
  | Rename nat "byte list option" bool | Move nat "directory option" "byte list option" bool | Remove nat | Compare nat nat | Parent nat nat

definition put_entry :: "nat \<Rightarrow> (nat \<Rightarrow> entry) \<Rightarrow> 'k \<times> entry \<Rightarrow> 'k \<times> (nat \<Rightarrow> entry)" where
  "put_entry i es s = (fst s, es(i := snd s))"

fun entry_apply :: "'k posix \<Rightarrow> entry_op \<Rightarrow> 'k \<times> (nat \<Rightarrow> entry) \<Rightarrow> ('k \<times> (nat \<Rightarrow> entry)) partial" where
  "entry_apply P (Set_path i p t) (k, es) = bindO (Entry_SetTo_path P p t (k, es i)) (\<lambda>r. Some (Inr (put_entry i es (snd r))))"
| "entry_apply P (Set_dir i dir p t) (k, es) = bindO (Entry_SetTo_dir P dir p t (k, es i)) (\<lambda>r. Some (Inr (put_entry i es (snd r))))"
| "entry_apply P (Unset_entry i) (k, es) = Some (Inr (put_entry i es (Entry_Unset P (k, es i))))"
| "entry_apply P (Assign i j) (k, es) = Some (Inr (put_entry i es (Entry_assign P (if i = j then Same else Other (es j)) (k, es i))))"
| "entry_apply P (Rename i p c) (k, es) = bindO (Entry_Rename P p c (k, es i)) (\<lambda>r. Some (Inr (put_entry i es (snd r))))"
| "entry_apply P (Move i dir p c) (k, es) = bindO (Entry_MoveTo P dir p c (k, es i)) (\<lambda>r. Some (Inr (put_entry i es (snd r))))"
| "entry_apply P (Remove i) (k, es) = Some (Inr (snd (Entry_Remove P (es i) k), es))"
| "entry_apply P (Compare i j) (k, es) = Some (bindR (Entry_eq P (es i) (es j) k) (\<lambda>r. Inr (snd r, es)))"
| "entry_apply P (Parent i j) (k, es) = Some (bindR (GetParent_entry P (es i) (k, es j)) (\<lambda>r. Inr (put_entry j es (snd r))))"

fun entry_run :: "'k posix \<Rightarrow> entry_op list \<Rightarrow> 'k \<times> (nat \<Rightarrow> entry) \<Rightarrow> ('k \<times> (nat \<Rightarrow> entry)) partial" where
  "entry_run P [] s = Some (Inr s)"
| "entry_run P (a # as) s = bindO (entry_apply P a s) (entry_run P as)"

text \<open>The operations that cannot lose a descriptor: no search goes through a parent directory.\<close>

fun direct_op :: "'k posix \<Rightarrow> entry_op \<Rightarrow> bool" where
  "direct_op P (Set_path i p t) \<longleftrightarrow> p = None \<or> direct_search P t (the p)"
| "direct_op P (Set_dir i dir p t) \<longleftrightarrow> p = None \<or> direct_search P t (the p)"
| "direct_op P (Rename i p c) \<longleftrightarrow> p \<noteq> None \<and> direct_search P False (the p)"
| "direct_op P (Move i dir p c) \<longleftrightarrow> p \<noteq> None \<and> direct_search P False (the p)"
| "direct_op P (Parent i j) \<longleftrightarrow> False"
| "direct_op P _ \<longleftrightarrow> True"

text \<open>What does not belong to the entry \<open>i\<close>: the descriptors \<open>D\<close> of the rest of the program and those of the other entries.\<close>

definition others :: "int set \<Rightarrow> (nat \<Rightarrow> entry) \<Rightarrow> nat \<Rightarrow> int set" where
  "others D es i = D \<union> {d. 0 \<le> d \<and> (\<exists>j. j \<noteq> i \<and> e_dirFd (es j) = d)}"

definition owned :: "'k posix \<Rightarrow> bool \<Rightarrow> int set \<Rightarrow> 'k \<times> (nat \<Rightarrow> entry) \<Rightarrow> bool" where
  "owned P z D s \<longleftrightarrow> (\<forall>i. owns P z (others D (snd s) i) (fst s, snd s i))"

lemma holds_alt:
  "holds P z B d k \<longleftrightarrow> d \<notin> B \<and> B \<union> (if 0 \<le> d then {d} else {}) \<subseteq> k_open P k \<and>
     (z \<longrightarrow> k_open P k = B \<union> (if 0 \<le> d then {d} else {}))"
  by (auto simp: holds_def)

lemma owned_update:
  assumes "owned P z D (k, es)" "owns P z (others D es i) s"
  shows "owned P z D (put_entry i es s)"
proof -
  have "owns P z (others D (es(i := snd s)) j) (fst s, (es(i := snd s)) j)" for j
  proof (cases "j = i")
    case True
    have "others D (es(i := snd s)) i = others D es i" by (auto simp: others_def)
    then show ?thesis using assms(2) True by simp
  next
    case False
    have o: "entry_ok (es j)" "e_dirFd (es j) \<notin> others D es j" using assms(1) by (auto simp: owned_def owns_def holds_def)
    have u: "others D (es(i := snd s)) j \<union> (if 0 \<le> e_dirFd (es j) then {e_dirFd (es j)} else {}) =
        others D es i \<union> (if 0 \<le> e_dirFd (snd s) then {e_dirFd (snd s)} else {})"
      using False by (auto simp: others_def)
    have n: "e_dirFd (es j) \<notin> others D (es(i := snd s)) j"
    proof -
      have "e_dirFd (snd s) \<notin> others D es i" using assms(2) by (simp add: owns_def holds_def)
      then show ?thesis using o(2) False by (auto simp: others_def split: if_splits)
    qed
    show ?thesis using False o(1) n assms(2) by (simp add: owns_def holds_alt u)
  qed
  then show ?thesis by (simp add: owned_def put_entry_def)
qed

lemma owned_same: "owned P z D (k, es) \<Longrightarrow> k_open P k' = k_open P k \<Longrightarrow> owned P z D (k', es)"
  by (simp add: owned_def owns_def holds_def)

lemma entry_apply_owned:
  assumes "entry_apply P a (k, es) = Some (Inr s)" "owned P z D (k, es)" "documented_calls P" "z \<Longrightarrow> direct_op P a"
  shows "owned P z D s"
proof -
  have o: "owns P z (others D es i) (k, es i)" for i using assms(2) by (simp add: owned_def)
  note up = owned_update [OF assms(2)]
  show ?thesis
  proof (cases a)
    case (Set_path i p t)
    then show ?thesis using assms(1,4) SetTo_path_owns [OF _ o assms(3)] by (auto simp: be_simps intro!: up)
  next
    case (Set_dir i dir p t)
    then show ?thesis using assms(1,4) SetTo_dir_owns [OF _ o assms(3)] by (auto simp: be_simps intro!: up)
  next
    case (Unset_entry i)
    then show ?thesis using assms(1) Unset_owns [OF o assms(3)] by (auto intro!: up)
  next
    case (Assign i j)
    have "case if i = j then Same else Other (es j) of Same \<Rightarrow> True | Other x \<Rightarrow> entry_ok x" using o [of j] by (simp add: owns_def)
    from assign_owns [OF o assms(3) this] show ?thesis using assms(1) Assign by (auto intro!: up)
  next
    case (Rename i p c)
    then show ?thesis using assms(1,4) Rename_owns [OF _ o assms(3)] by (auto simp: be_simps intro!: up)
  next
    case (Move i dir p c)
    then show ?thesis using assms(1,4) MoveTo_owns [OF _ o assms(3)] by (auto simp: be_simps intro!: up)
  next
    case (Remove i)
    then show ?thesis using assms(1) owned_same [OF assms(2)] remove_open [OF assms(3)] by auto
  next
    case (Compare i j)
    then obtain b k' where c: "Entry_eq P (es i) (es j) k = Inr (b, k')" "s = (k', es)" using assms(1) by (auto simp: be_simps)
    have "holds P z (others D es n) (e_dirFd (es n)) k'" for n
      using eq_holds [OF c(1) _ assms(3)] o [of n] by (simp add: owns_def)
    then show ?thesis using c(2) assms(2) by (simp add: owned_def owns_def)
  next
    case (Parent i j)
    then have n: "\<not> z" using assms(4) by auto
    show ?thesis using assms(1) Parent up [OF GetParent_keeps [OF _ o assms(3) n]] by (auto simp: be_simps)
  qed
qed

lemma entry_run_owned:
  "entry_run P as s = Some (Inr s') \<Longrightarrow> owned P z D s \<Longrightarrow> documented_calls P \<Longrightarrow> (z \<Longrightarrow> \<forall>a\<in>set as. direct_op P a) \<Longrightarrow> owned P z D s'"
proof (induction as arbitrary: s)
  case (Cons a as)
  obtain s1 where s1: "entry_apply P a s = Some (Inr s1)" "entry_run P as s1 = Some (Inr s')" using Cons.prems(1) by (auto simp: be_simps)
  then have "owned P z D s1" using entry_apply_owned [of P a "fst s" "snd s" s1 z D] Cons.prems(2-4) by simp
  then show ?case using Cons.IH [OF s1(2)] Cons.prems(3,4) by simp
qed simp

text \<open>C37. Entries own their descriptors: over all sequences of setting to a path or to a name in a directory, unsetting, copying, renaming, moving,
  removing, comparing entries and getting the parent, each entry that is set has a descriptor and a name, each descriptor of an entry is open, was not
  open before and is no other entry's, and no descriptor of the rest of the program is closed. When the last component of every
  path, and of the target of every link that is followed, is a name (not \<open>.\<close> or \<open>..\<close>) and no parent is asked for, the open descriptors are exactly
  those that were open before and those of the entries, so that none is lost; otherwise \<open>_kern_open_parent_dir\<close> can lose one. Setting an entry to a reference is left out: the entry then has the descriptor of the
  reference, and both close it (\<open>reference_loses_descriptor\<close>).
\<close>

theorem entries_own_descriptors:
  assumes "documented_calls P" "entry_run P ops (k, \<lambda>_. Entry_new) = Some (Inr (k', es))"
  shows "k_open P k \<subseteq> k_open P k' \<and>
    (\<forall>i. e_status (es i) = B_OK \<longrightarrow> 0 \<le> e_dirFd (es i) \<and> e_name (es i) \<noteq> None) \<and>
    (\<forall>i. 0 \<le> e_dirFd (es i) \<longrightarrow> e_dirFd (es i) \<in> k_open P k' - k_open P k \<and> (\<forall>j. j \<noteq> i \<longrightarrow> e_dirFd (es j) \<noteq> e_dirFd (es i))) \<and>
    ((\<forall>a\<in>set ops. direct_op P a) \<longrightarrow> k_open P k' = k_open P k \<union> {d. 0 \<le> d \<and> (\<exists>i. e_dirFd (es i) = d)})"
proof -
  define z where "z \<longleftrightarrow> (\<forall>a\<in>set ops. direct_op P a)"
  have "owned P z (k_open P k) (k, \<lambda>_. Entry_new)"
    using documented_callsD(1) [OF assms(1), of "- 1" k] by (auto simp: owned_def owns_def holds_def others_def)
  from entry_run_owned [OF assms(2) this assms(1)] have "owned P z (k_open P k) (k', es)" by (simp add: z_def)
  then have o: "entry_ok (es i)" "holds P z (others (k_open P k) es i) (e_dirFd (es i)) k'" for i by (auto simp: owned_def owns_def)
  have "k_open P k' = others (k_open P k) es 0 \<union> (if 0 \<le> e_dirFd (es 0) then {e_dirFd (es 0)} else {})" if "\<forall>a\<in>set ops. direct_op P a"
    using o(2) [of 0] that by (simp add: holds_def z_def)
  moreover have "others (k_open P k) es 0 \<union> (if 0 \<le> e_dirFd (es 0) then {e_dirFd (es 0)} else {}) =
      k_open P k \<union> {d. 0 \<le> d \<and> (\<exists>i. e_dirFd (es i) = d)}"
    by (auto simp: others_def) (metis gr0I)+
  moreover have "k_open P k \<subseteq> k_open P k'" using o(2) [of 0] by (auto simp: holds_def others_def)
  moreover have "e_dirFd (es i) \<in> k_open P k' - k_open P k \<and> (\<forall>j. j \<noteq> i \<longrightarrow> e_dirFd (es j) \<noteq> e_dirFd (es i))"
    if "0 \<le> e_dirFd (es i)" for i
    using o(2) [of i] that by (auto simp: holds_def others_def)
  ultimately show ?thesis using o(1) by (simp add: entry_ok_def)
qed

text \<open>The entry of \<open>/a/b\<close> is copied; the copy is renamed to \<open>/a/c\<close>, and the first entry set to \<open>/d\<close>.\<close>

lemma entries_own_descriptors_witness:
  "\<exists>k' es. entry_run tiny [Set_path 0 (Some [slash, 0x61, slash, 0x62]) False, Assign 1 0, Rename 1 (Some [slash, 0x61, slash, 0x63]) True,
      Set_path 0 (Some [slash, 0x64]) False] ([3], \<lambda>_. Entry_new) = Some (Inr (k', es)) \<and>
    e_status (es 0) = B_OK \<and> e_status (es 1) = B_OK \<and> e_dirFd (es 0) \<noteq> e_dirFd (es 1) \<and> 3 \<in> k_open tiny k' \<and>
    k_open tiny k' = {3} \<union> {d. 0 \<le> d \<and> (\<exists>i. e_dirFd (es i) = d)}"
proof -
  let ?ops = "[Set_path 0 (Some [slash, 0x61, slash, 0x62]) False, Assign 1 0, Rename 1 (Some [slash, 0x61, slash, 0x63]) True,
      Set_path 0 (Some [slash, 0x64]) False]"
  have parsed: "parse_path [slash, 0x61, slash, 0x62] = Inr ([slash, 0x61], [0x62])" "parse_path [slash, 0x61, slash, 0x63] = Inr ([slash, 0x61], [0x63])"
    "parse_path [slash, 0x64] = Inr ([slash], [0x64])"
    by (simp_all add: parse_path_def path_parent_def path_filename_def without_slashes_def B_PATH_NAME_LENGTH_def B_FILE_NAME_LENGTH_def)
  have a: "k_alloc tiny n" for n by (simp add: tiny_def)
  obtain k' es where r: "entry_run tiny ?ops ([3], \<lambda>_. Entry_new) = Some (Inr (k', es))" "e_status (es 0) = B_OK" "e_status (es 1) = B_OK"
    by (simp add: SetTo_plain [OF parsed(1)] SetTo_plain [OF parsed(2)] SetTo_plain [OF parsed(3)] a Entry_Rename_def is_absolute_def
        kern_open_dir_def tiny_def posix_return_def close_held_def fresh_def put_entry_def Entry_Unset_def Entry_assign_def kern_dup_def Entry_SetName_def
        rename_found_def rename_to_def kern_rename_def posix_call_def kern_close_def B_OK_def)
  have o: "k_open tiny [3] = {3}" by (simp add: tiny_def)
  have d: "\<forall>a\<in>set ?ops. direct_op tiny a" by (simp add: direct_search_def plain_path_def path_filename_def)
  from entries_own_descriptors [OF tiny_documented r(1)] have t: "k_open tiny [3] \<subseteq> k_open tiny k'"
    "e_dirFd (es 0) \<noteq> e_dirFd (es 1)"
    "k_open tiny k' = k_open tiny [3] \<union> {d. 0 \<le> d \<and> (\<exists>i. e_dirFd (es i) = d)}"
    using r(2,3) d by (blast, metis zero_neq_one, blast)
  show ?thesis by (rule exI [of _ k'], rule exI [of _ es]) (use r t o in \<open>simp del: entry_run.simps\<close>)
qed

lemma bindO_returns: "\<exists>r. m = Some r \<Longrightarrow> (\<And>x. \<exists>r. f x = Some r) \<Longrightarrow> \<exists>r. bindO m f = Some r"
  by (auto simp: bindO_def split: sum.splits)

text \<open>C38. Every operation on entries returns, whatever the system answers: however the symbolic links point at each other, the search for an entry ends.
  It ends with a result or, as when \<open>_kern_read_dir\<close> reads beyond a variable, without a defined one.\<close>

theorem entry_operations_return: "\<exists>r. entry_run P ops s = Some r"
proof (induction ops arbitrary: s)
  case (Cons a as)
  have search: "\<exists>r. Entry_find P d p t s = Some r" for d p t s
  proof -
    obtain r where "entry_search P d p t False (int B_MAX_SYMLINKS) (fst s) = Some r" using entry_search_returns by metis
    then show ?thesis by (cases r) (auto simp: Entry_find_def split: sum.splits option.splits prod.splits)
  qed
  have st: "\<exists>r. status_of (Entry_find P d p t s) = Some r" for d p t s
    unfolding status_of_def by (rule bindO_returns [OF search]) simp
  have path: "\<exists>r. Entry_SetTo_path P p t s = Some r" for p t s using st by (simp add: Entry_SetTo_path_def Let_def)
  have dir: "\<exists>r. Entry_SetTo_dir P f p t s = Some r" for f p t s
    using st path by (auto simp: Entry_SetTo_dir_def Let_def split: option.splits list.splits prod.splits)
  have ren: "\<exists>r. Entry_Rename P p c s = Some r" for p c s
    unfolding Entry_Rename_def Let_def using st path by (auto split: option.splits prod.splits intro!: bindO_returns)
  have move: "\<exists>r. Entry_MoveTo P f p c s = Some r" for f p c s
    unfolding Entry_MoveTo_def Let_def using dir by (auto split: option.splits prod.splits intro!: bindO_returns)
  have "\<exists>r. entry_apply P a s = Some r"
    by (cases s; cases a) (auto intro!: bindO_returns path dir ren move)
  then show ?case using Cons.IH by (auto intro!: bindO_returns)
qed simp

end
