(* ===== verification/Node.thy ===== *)
theory Node
  imports Entry
begin

text \<open>
  Nodes of the file system: \<open>kits/storage/Node.cpp\<close>, with what \<open>File.cpp\<close> and \<open>Directory.cpp\<close> have beside calls of the debugger. A node is an
  open descriptor; a reference to a node, \<open>node_ref\<close>, is a descriptor too, which its destructor closes.
\<close>

section \<open>References\<close>

definition node_ref_new :: int where "node_ref_new = - 1"
definition node_ref_delete :: "'k posix \<Rightarrow> int \<Rightarrow> 'k \<Rightarrow> 'k" where "node_ref_delete P this k = snd (k_close P this k)"

text \<open>The assignment of another reference.\<close>

definition node_ref_assign :: "'k posix \<Rightarrow> int \<Rightarrow> int arg \<Rightarrow> 'k \<Rightarrow> int \<times> 'k" where
  "node_ref_assign P this other k =
     (case other of Same \<Rightarrow> (this, k) | Other fd \<Rightarrow> raw (k_dup P fd (node_ref_delete P this k)))"

definition node_ref_copy :: "'k posix \<Rightarrow> int \<Rightarrow> 'k \<Rightarrow> int \<times> 'k" where
  "node_ref_copy P other k = node_ref_assign P node_ref_new (Other other) k"

definition node_ref_eq :: "'k posix \<Rightarrow> int \<Rightarrow> int \<Rightarrow> 'k \<Rightarrow> bool outcome" where
  "node_ref_eq P this other k =
     (case (k_fstat P this k, k_fstat P other k) of
        (Inr a, Inr b) \<Rightarrow> Inr (st_dev a = st_dev b \<and> st_ino a = st_ino b) | _ \<Rightarrow> Inl Undefined)"

section \<open>Nodes\<close>

record node =
  n_fd :: int
  n_status :: status

definition Node_new :: node where "Node_new = \<lparr>n_fd = - 1, n_status = B_NO_INIT\<rparr>"
definition Node_InitCheck :: "node \<Rightarrow> status" where "Node_InitCheck this = n_status this"

definition close_fd :: "'k posix \<Rightarrow> 'k \<times> node \<Rightarrow> 'k \<times> node" where
  "close_fd P s = (if 0 \<le> n_fd (snd s) then (snd (kern_close P (n_fd (snd s)) (fst s)), (snd s)\<lparr>n_fd := - 1\<rparr>) else s)"

definition set_fd :: "'k posix \<Rightarrow> int \<Rightarrow> 'k \<times> node \<Rightarrow> 'k \<times> node" where
  "set_fd P fd s = (let (k, this) = (if n_fd (snd s) \<noteq> - 1 then close_fd P s else s) in (k, this\<lparr>n_fd := fd\<rparr>))"

definition set_status :: "status \<Rightarrow> node \<Rightarrow> node" where "set_status newStatus this = this\<lparr>n_status := newStatus\<rparr>"

definition Node_Unset :: "'k posix \<Rightarrow> 'k \<times> node \<Rightarrow> 'k \<times> node" where
  "Node_Unset P s = (let (k, this) = close_fd P s in (k, this\<lparr>n_status := B_NO_INIT\<rparr>))"

definition Node_GetStat :: "'k posix \<Rightarrow> node \<Rightarrow> 'k \<Rightarrow> status + stat" where
  "Node_GetStat P this k =
     (if n_fd this < 0 then Inl B_BAD_VALUE
      else case k_fstat P (n_fd this) k of
        Inl e \<Rightarrow> Inl (if e = EBADF then B_BAD_VALUE else if e = ENOMEM then B_NO_MEMORY else B_FROM_POSIX_ERROR e)
      | Inr st \<Rightarrow> Inr st)"

text \<open>\<open>*ref = node_ref(fFd)\<close>: the temporary reference owns \<open>fFd\<close> until the end of the statement and closes it then.\<close>

definition Node_GetNodeRef :: "'k posix \<Rightarrow> node \<Rightarrow> int option \<Rightarrow> 'k \<Rightarrow> status \<times> int option \<times> 'k" where
  "Node_GetNodeRef P this ref k =
     (case ref of
        None \<Rightarrow> (B_BAD_VALUE, None, k)
      | Some r \<Rightarrow> let temporary = n_fd this; (r, k) = node_ref_assign P r (Other temporary) k in (B_OK, Some r, node_ref_delete P temporary k))"

definition Node_Lock :: "'k posix \<Rightarrow> node \<Rightarrow> 'k \<Rightarrow> status \<times> 'k" where
  "Node_Lock P this k = (if n_status this \<noteq> B_OK then (n_status this, k) else kern_lock_node P (n_fd this) k)"

definition Node_Unlock :: "'k posix \<Rightarrow> node \<Rightarrow> 'k \<Rightarrow> status \<times> 'k" where
  "Node_Unlock P this k = (if n_status this \<noteq> B_OK then (n_status this, k) else kern_unlock_node P (n_fd this) k)"

definition Node_Sync :: "'k posix \<Rightarrow> node \<Rightarrow> 'k \<Rightarrow> status \<times> 'k" where
  "Node_Sync P this k = (if n_status this \<noteq> B_OK then (B_FILE_ERROR, k) else kern_fsync P (n_fd this) k)"

definition Node_Dup :: "'k posix \<Rightarrow> node \<Rightarrow> 'k \<Rightarrow> int \<times> 'k" where
  "Node_Dup P this k = (let (fd, k) = kern_dup P (n_fd this) k in (if 0 \<le> fd then fd else - 1, k))"

definition set_stat :: "node \<Rightarrow> status outcome" where
  "set_stat this = (if n_status this \<noteq> B_OK then Inr B_FILE_ERROR else kern_write_stat)"

text \<open>\<open>_SetTo\<close>: first for reading and writing, then only for reading.\<close>

definition Node_open :: "'k posix \<Rightarrow> int \<Rightarrow> byte list option \<Rightarrow> bool \<Rightarrow> 'k \<times> node \<Rightarrow> status \<times> 'k \<times> node" where
  "Node_open P fd p traverse s =
     (let (k, this) = Node_Unset P s
      in if \<not> (0 \<le> fd \<or> p \<noteq> None) then (B_BAD_VALUE, k, this\<lparr>n_status := B_BAD_VALUE\<rparr>)
         else let traverseFlag = (if traverse then 0 else O_NOFOLLOW);
                  (d, k) = kern_open P fd p (O_RDWR OR O_CLOEXEC OR traverseFlag) k;
                  (d, k) = (if d < B_OK \<and> d \<noteq> B_ENTRY_NOT_FOUND then kern_open P fd p (O_RDONLY OR O_CLOEXEC OR traverseFlag) k else (d, k));
                  error = (if d < 0 then d else B_OK)
              in (error, k, this\<lparr>n_fd := d, n_status := error\<rparr>))"

definition Node_SetTo_ref :: "'k posix \<Rightarrow> entry_ref option \<Rightarrow> 'k \<times> node \<Rightarrow> (status \<times> 'k \<times> node) outcome" where
  "Node_SetTo_ref P ref s = (case ref of None \<Rightarrow> Inl Undefined | Some r \<Rightarrow> Inr (Node_open P (ref_dirfd r) (ref_name r) False s))"

definition Node_fails :: "'k posix \<Rightarrow> 'k \<times> node \<Rightarrow> status \<times> 'k \<times> node" where
  "Node_fails P s = (let (k, this) = Node_Unset P s in (B_BAD_VALUE, k, this\<lparr>n_status := B_BAD_VALUE\<rparr>))"

definition Node_SetTo_entry :: "'k posix \<Rightarrow> entry option \<Rightarrow> 'k \<times> node \<Rightarrow> status \<times> 'k \<times> node" where
  "Node_SetTo_entry P entry s = (case entry of None \<Rightarrow> Node_fails P s | Some x \<Rightarrow> Node_open P (e_dirFd x) (e_name x) False s)"

definition Node_SetTo_path :: "'k posix \<Rightarrow> byte list option \<Rightarrow> 'k \<times> node \<Rightarrow> status \<times> 'k \<times> node" where
  "Node_SetTo_path P p s = Node_open P (- 1) p False s"

definition Node_SetTo_dir :: "'k posix \<Rightarrow> directory option \<Rightarrow> byte list option \<Rightarrow> 'k \<times> node \<Rightarrow> status \<times> 'k \<times> node" where
  "Node_SetTo_dir P dir p s =
     (case (dir, p) of
        (Some f, Some q) \<Rightarrow> if is_absolute q then Node_fails P s else Node_open P (d_dirFd f) p False s
      | _ \<Rightarrow> Node_fails P s)"

text \<open>The comparison of two nodes, which are different objects.\<close>

definition Node_eq :: "'k posix \<Rightarrow> node \<Rightarrow> node \<Rightarrow> 'k \<Rightarrow> (bool \<times> 'k) outcome" where
  "Node_eq P this item k =
     (if n_status this = B_NO_INIT \<and> n_status item = B_NO_INIT then Inr (True, k)
      else if n_status this = B_OK \<and> n_status item = B_OK then
        (let (_, ref1, k) = Node_GetNodeRef P this (Some node_ref_new) k; (_, ref2, k) = Node_GetNodeRef P item (Some node_ref_new) k
         in bindR (node_ref_eq P (the ref1) (the ref2) k) (\<lambda>r. Inr (r, node_ref_delete P (the ref1) (node_ref_delete P (the ref2) k))))
      else Inr (False, k))"

definition Node_assign :: "'k posix \<Rightarrow> node \<Rightarrow> 'k \<times> node \<Rightarrow> ('k \<times> node) outcome" where
  "Node_assign P item s =
     bindR (Node_eq P (snd s) item (fst s)) (\<lambda>(same, k).
     if same then Inr (k, snd s)
     else let (k, this) = Node_Unset P (k, snd s); (d, k) = kern_dup P (n_fd item) k
          in Inr (k, this\<lparr>n_fd := d, n_status := if d < 0 then B_NO_INIT else B_OK\<rparr>))"

section \<open>Files and directories\<close>

record bfile = node + f_mode :: "32 word"

definition file_node :: "bfile \<Rightarrow> node" where "file_node f = \<lparr>n_fd = n_fd f, n_status = n_status f\<rparr>"
definition file_with :: "node \<Rightarrow> 32 word \<Rightarrow> bfile" where "file_with n m = \<lparr>n_fd = n_fd n, n_status = n_status n, f_mode = m\<rparr>"
definition File_new :: bfile where "File_new = file_with Node_new 0"

text \<open>An absolute name goes to \<open>SetTo\<close> of a path, which calls the debugger.\<close>

definition File_SetTo_ref :: "'k posix \<Rightarrow> entry_ref option \<Rightarrow> 32 word \<Rightarrow> 'k \<times> bfile \<Rightarrow> (status \<times> 'k \<times> bfile) outcome" where
  "File_SetTo_ref P ref open_mode s =
     (let (k, n) = Node_Unset P (fst s, file_node (snd s)); mode = f_mode (snd s)
      in case ref of
           None \<Rightarrow> Inr (B_BAD_VALUE, k, file_with (n\<lparr>n_status := B_BAD_VALUE\<rparr>) mode)
         | Some r \<Rightarrow>
             (case ref_name r of
                None \<Rightarrow> Inl Undefined
              | Some nm \<Rightarrow>
                  if is_absolute nm then Inl Debugger
                  else let open_mode = open_mode OR O_CLOEXEC; (fd, k) = kern_open_entry_ref P (ref_dirfd r) (ref_name r) open_mode k
                       in if 0 \<le> fd then
                            (let (k, n) = set_fd P fd (k, n) in Inr (B_OK, k, file_with (n\<lparr>n_status := B_OK\<rparr>) open_mode))
                          else Inr (fd, k, file_with (n\<lparr>n_status := fd\<rparr>) mode)))"

definition IsReadable :: "bfile \<Rightarrow> bool" where
  "IsReadable this \<longleftrightarrow> n_status this = B_OK \<and> (f_mode this AND O_ACCMODE = O_RDONLY \<or> f_mode this AND O_ACCMODE = O_RDWR)"

definition IsWritable :: "bfile \<Rightarrow> bool" where
  "IsWritable this \<longleftrightarrow> n_status this = B_OK \<and> (f_mode this AND O_ACCMODE = O_WRONLY \<or> f_mode this AND O_ACCMODE = O_RDWR)"

definition File_delete :: "'k posix \<Rightarrow> 'k \<times> bfile \<Rightarrow> 'k" where "File_delete P s = fst (close_fd P (fst s, file_node (snd s)))"

text \<open>A directory is a node with a second descriptor, which nothing sets.\<close>

definition Directory_new :: directory where "Directory_new = \<lparr>d_status = B_NO_INIT, d_dirFd = - 1\<rparr>"
definition get_fd :: "directory \<Rightarrow> int" where "get_fd this = d_dirFd this"

definition Directory_close_fd :: "'k posix \<Rightarrow> 'k \<times> node \<times> int \<Rightarrow> 'k \<times> node \<times> int" where
  "Directory_close_fd P s =
     (let (k, n, d) = s; (k, d) = (if 0 \<le> d then (snd (kern_close P d k), - 1) else (k, d)); (k, n) = close_fd P (k, n) in (k, n, d))"

section \<open>Nodes and their descriptors\<close>

lemma GetNodeRef_Some: "\<exists>st r k'. Node_GetNodeRef P this (Some ref) k = (st, Some r, k')"
  by (auto simp: Node_GetNodeRef_def Let_def split: prod.splits)

lemma GetNodeRef_open:
  assumes "Node_GetNodeRef P this (Some node_ref_new) k = (st, Some ref, k')" "documented_calls P" "n_fd this \<in> k_open P k"
  shows "k_open P k' = (if 0 \<le> ref then insert ref (k_open P k) else k_open P k) - {n_fd this} \<and>
    (0 \<le> ref \<longrightarrow> ref \<notin> k_open P k) \<and> (ref < 0 \<longrightarrow> ref = - 1)"
proof -
  have m: "- 1 \<notin> k_open P k" using documented_callsD(1) [OF assms(2), of "- 1" k] by auto
  let ?k = "node_ref_delete P node_ref_new k"
  have o: "k_open P ?k = k_open P k" using m documented_callsD(7) [OF assms(2), of "- 1" k] by (simp add: node_ref_delete_def node_ref_new_def)
  have d: "opens P ?k (k_dup P (n_fd this) ?k)" using documented_callsD(3) [OF assms(2)] .
  obtain r k1 where r: "k_dup P (n_fd this) ?k = (r, k1)" by fastforce
  have c: "k_open P (node_ref_delete P (n_fd this) k1) = k_open P k1 - {n_fd this}" using documented_callsD(7) [OF assms(2)] by (simp add: node_ref_delete_def)
  show ?thesis
    using assms(1) r d c o by (cases r) (auto simp: Node_GetNodeRef_def node_ref_assign_def raw_def opens_def)
qed

lemma GetNodeRef_closes:
  assumes "Node_GetNodeRef P this (Some node_ref_new) k = (st, Some ref, k')" "documented_calls P" "n_fd this \<in> k_open P k"
  shows "k_open P k' - {ref} = k_open P k - {n_fd this}" "ref \<notin> k_open P k"
proof -
  have m: "- 1 \<notin> k_open P k" using documented_callsD(1) [OF assms(2), of "- 1" k] by auto
  note g = GetNodeRef_open [OF assms]
  show r: "ref \<notin> k_open P k" using g m by (cases "0 \<le> ref") auto
  show "k_open P k' - {ref} = k_open P k - {n_fd this}" using g r by (cases "0 \<le> ref") auto
qed

lemma Node_eq_open:
  assumes "documented_calls P" "n_status a = B_OK" "n_status b = B_OK" "n_fd a \<in> k_open P k" "n_fd b \<in> k_open P k" "n_fd a \<noteq> n_fd b"
    "Node_eq P a b k = Inr (same, k')"
  shows "k_open P k' = k_open P k - {n_fd a, n_fd b}"
proof -
  have "B_OK \<noteq> B_NO_INIT" by (simp add: status_defs)
  obtain s1 r1 k1 where 1: "Node_GetNodeRef P a (Some node_ref_new) k = (s1, Some r1, k1)" using GetNodeRef_Some [of P a node_ref_new k] by blast
  note h1 = GetNodeRef_closes [OF 1 assms(1,4)]
  obtain s2 r2 k2 where 2: "Node_GetNodeRef P b (Some node_ref_new) k1 = (s2, Some r2, k2)" using GetNodeRef_Some [of P b node_ref_new k1] by blast
  have "n_fd b \<in> k_open P k1 - {r1}" unfolding h1(1) using assms(5,6) by simp
  then have b: "n_fd b \<in> k_open P k1" by simp
  note h2 = GetNodeRef_closes [OF 2 assms(1) b]
  have "k' = node_ref_delete P r1 (node_ref_delete P r2 k2)"
    using assms(2,3,7) 1 2 \<open>B_OK \<noteq> B_NO_INIT\<close> by (auto simp: Node_eq_def be_simps)
  then have "k_open P k' = k_open P k2 - {r2} - {r1}" using documented_callsD(7) [OF assms(1)] by (simp add: node_ref_delete_def)
  also have "\<dots> = k_open P k1 - {n_fd b} - {r1}" by (simp only: h2(1))
  also have "\<dots> = k_open P k1 - {r1} - {n_fd b}" by blast
  also have "\<dots> = k_open P k - {n_fd a, n_fd b}" by (simp only: h1(1)) blast
  finally show ?thesis .
qed

text \<open>C40. Comparing two nodes that are set closes the descriptors of both, though they stay set; and assigning one to the other, which compares
  them first, leaves the target either with its closed descriptor or without any, and closes that of the source.
\<close>

theorem node_comparison_closes:
  assumes "documented_calls P" "n_status a = B_OK" "n_status b = B_OK" "n_fd a \<in> k_open P k" "n_fd b \<in> k_open P k" "n_fd a \<noteq> n_fd b"
  shows "(\<forall>same k'. Node_eq P a b k = Inr (same, k') \<longrightarrow> k_open P k' = k_open P k - {n_fd a, n_fd b}) \<and>
    (\<forall>a' k'. Node_assign P b (k, a) = Inr (k', a') \<longrightarrow>
       k_open P k' = k_open P k - {n_fd a, n_fd b} \<and> (a' = a \<or> n_status a' = B_NO_INIT))"
proof -
  have "k_open P k' = k_open P k - {n_fd a, n_fd b} \<and> (a' = a \<or> n_status a' = B_NO_INIT)"
    if as: "Node_assign P b (k, a) = Inr (k', a')" for a' k'
  proof -
    obtain same k1 where e: "Node_eq P a b k = Inr (same, k1)" using as by (auto simp: Node_assign_def be_simps)
    from Node_eq_open [OF assms e] have o: "k_open P k1 = k_open P k - {n_fd a, n_fd b}" .
    show ?thesis
    proof (cases same)
      case True
      then show ?thesis using as e o by (auto simp: Node_assign_def)
    next
      case False
      obtain k2 this where u: "Node_Unset P (k1, a) = (k2, this)" by fastforce
      then have k2: "k_open P k2 = k_open P k1" using o close_open [OF assms(1), of "n_fd a" k1] by (auto simp: Node_Unset_def close_fd_def split: if_splits)
      then have "n_fd b \<notin> k_open P k2" using o by simp
      then have b: "fst (k_dup P (n_fd b) k2) = Inl EBADF" using documented_callsD(6) [OF assms(1)] by blast
      moreover have "opens P k2 (k_dup P (n_fd b) k2)" using documented_callsD(3) [OF assms(1)] .
      ultimately obtain k3 where k3: "kern_dup P (n_fd b) k2 = (- EBADF, k3)" "k_open P k3 = k_open P k2"
        by (cases "k_dup P (n_fd b) k2") (auto simp: kern_dup_def posix_return_def B_FROM_POSIX_ERROR_def opens_def)
      then have "k' = k3" "n_status a' = B_NO_INIT" using as e False u by (auto simp: Node_assign_def EBADF_def be_simps)
      then show ?thesis using k3(2) k2 o by simp
    qed
  qed
  then show ?thesis using Node_eq_open [OF assms] by blast
qed

lemma node_comparison_closes_witness:
  "\<exists>k'. Node_eq tiny \<lparr>n_fd = 3, n_status = B_OK\<rparr> \<lparr>n_fd = 4, n_status = B_OK\<rparr> [3, 4] = Inr (True, k') \<and> k_open tiny k' = {}"
proof -
  have o: "k_open tiny [3, 4] = {3, 4}" by (simp add: tiny_def)
  obtain k' where k': "Node_eq tiny \<lparr>n_fd = 3, n_status = B_OK\<rparr> \<lparr>n_fd = 4, n_status = B_OK\<rparr> [3, 4] = Inr (True, k')"
    by (simp add: Node_eq_def Node_GetNodeRef_def node_ref_assign_def node_ref_delete_def node_ref_new_def node_ref_eq_def tiny_def raw_def fresh_def
        status_defs)
  have "k_open tiny k' = k_open tiny [3, 4] - {3, 4}"
    using conjunct1 [OF node_comparison_closes [OF tiny_documented, of "\<lparr>n_fd = 3, n_status = B_OK\<rparr>" "\<lparr>n_fd = 4, n_status = B_OK\<rparr>" "[3, 4]"],
      THEN spec, THEN spec, THEN mp, OF _ _ _ _ _ k'] by (simp add: o)
  with k' show ?thesis by (auto simp: o)
qed

text \<open>A node cannot be set to a path: \<open>_kern_open\<close> takes only the name of a leaf, and there is no directory that it could be in.\<close>

lemma node_of_path_fails:
  assumes "documented_calls P" "Node_SetTo_path P p s = (st, s')"
  shows "st < 0 \<and> n_status (snd s') = st"
proof -
  have f: "fst (kern_open P (- 1) p fl k) < 0" for fl k
  proof (cases "bad_leaf p")
    case False
    then obtain q where q: "p = Some q" "q \<noteq> []" "slash \<notin> set q" by (auto simp: bad_leaf_def split: option.splits)
    then have "\<not> is_absolute q" "- 1 \<notin> k_open P k" using documented_callsD(1) [OF assms(1), of "- 1" k] by (auto simp: is_absolute_def split: list.splits)
    then have "fst (k_openat P (- 1) (Some q) fl k) = Inl EBADF" using documented_callsD(5) [OF assms(1) q(2)] by (simp add: AT_FDCWD_def)
    then show ?thesis using False q(1) by (cases "k_openat P (- 1) (Some q) fl k") (simp add: kern_open_def posix_return_def B_FROM_POSIX_ERROR_def EBADF_def)
  qed (simp add: kern_open_def)
  obtain k this where u: "Node_Unset P s = (k, this)" by fastforce
  obtain d1 k1 where d1: "kern_open P (- 1) p (O_RDWR OR O_CLOEXEC OR O_NOFOLLOW) k = (d1, k1)" by fastforce
  obtain d2 k2 where d2: "kern_open P (- 1) p (O_RDONLY OR O_CLOEXEC OR O_NOFOLLOW) k1 = (d2, k2)" by fastforce
  have "d1 < 0" "d2 < 0" using f [of _ k] f [of _ k1] d1 d2 by (metis fst_conv)+
  then show ?thesis using assms(2) u d1 d2 by (auto simp: Node_SetTo_path_def Node_open_def Let_def split: if_splits)
qed

end
