(* ===== verification/Spec2Isabelle.thy ===== *)
theory Spec2Isabelle
  imports Utf8 BString BList DataIO Locker Message MessageQueue Looper Messenger Path Rect Region DrawState View
    ViewChildren ViewTree MessageRect WindowView WindowTree ViewUpdate Shortcut Pointer
    FloatOps WindowFrame Menu MenuLayout MenuItems MenuRadio Semaphore RwLock
    Control FloatError Slider Posix Entry Node
begin

text \<open>
  A model of libb2, an implementation of the BeOS application interface in C++, and the theorems about it.

  The program. \<open>src/kits\<close> holds the kits of the interface. The support kit has strings, lists, byte streams and the
  lock. The application kit has messages, the queue of waiting messages, loopers (threads that take messages
  from a queue and dispatch them to handlers), messengers and invokers. The storage kit has paths and entries.
  The interface kit has rectangles, regions, views, windows and controls; a view is a handler and a window is a
  looper. The kernel emulation under \<open>kits/kernel\<close> provides semaphores, ports and threads.

  How code becomes definitions. \<open>Be_Prelude\<close> holds what all theories share. A C++ function becomes a
  function of its object and arguments that returns the result with the new object. \<open>'a outcome\<close> is \<open>Inr\<close> for a
  normal return and \<open>Inl\<close> for the ways of not returning normally: \<open>Undefined\<close> (undefined behaviour: a dead or
  null pointer, memory outside an object), \<open>Out_of_range\<close> and the other exceptions of the standard library, and
  \<open>Debugger\<close> (a call of \<open>debugger()\<close> or of a fatal log, which stops the program). \<open>'a partial\<close> adds \<open>None\<close>
  for a computation that does not end: loops that follow pointers are \<open>partial_function\<close>, and the recursions
  that change the store while they follow pointers have fuel. Integers of 32 and 64 bits are \<open>int\<close> or \<open>nat\<close> with the
  conversions of the compiler written out (\<open>int32\<close>, \<open>size_t\<close>, \<open>off_t\<close>) or words where the code works bitwise. A C
  string is a byte list; memory behind a pointer is what can be read through it. Objects that point at each
  other live in a store from addresses to objects.

  The theories.

  \<^item> \<open>Utf8\<close>: \<open>kits/support/utf8_functions.h\<close>, byte by byte, and the encoding of code points that it counts and decodes.
  \<^item> \<open>BString\<close>: \<open>kits/support/String.cpp\<close>. The character-wise operations refine operations on lists of code points; the
    comparison operators are one linear order (an instance of \<open>linorder\<close>).
  \<^item> \<open>BList\<close>: \<open>kits/support/List.cpp\<close>, with the contract of a list of pointers as the locale \<open>item_list\<close>.
  \<^item> \<open>DataIO\<close>: \<open>kits/support/DataIO.cpp\<close>. The locale \<open>position_io\<close> is the contract of a file with a position; the two
    classes \<open>BMemoryIO\<close> and \<open>BMallocIO\<close> interpret it.
  \<^item> \<open>Locker\<close>: \<open>kits/support/Locker.cpp\<close> as a state machine of any number of threads, one step for each access
    to shared memory: mutual exclusion (among threads that unlock what they hold), no lost wake-up and the meaning of the count.
  \<^item> \<open>Message\<close>: \<open>kits/app/Message.cpp\<close> and \<open>kits/support/Archivable.cpp\<close>. A message is a list of fields; the lemmas
    relate it to a map from names to typed items, keep it well formed, and show the round trip of the flat form.
  \<^item> \<open>MessageQueue\<close>: \<open>kits/app/MessageQueue.cpp\<close>, with the locale \<open>fifo\<close> and the interleaving of two consumers.
  \<^item> \<open>Looper\<close>: \<open>kits/app/Handler.cpp\<close> and \<open>kits/app/Looper.cpp\<close> over a store \<open>world\<close> of handlers, loopers and messages:
    the invariant between a looper and its handlers, the dispatch of the queue in order, and the life of a looper.
  \<^item> \<open>Messenger\<close>: \<open>kits/app/Messenger.cpp\<close> and \<open>kits/app/Invoker.cpp\<close>: what is delivered for each kind of target.
  \<^item> \<open>Path\<close>: \<open>kits/storage/Path.cpp\<close>: the scanner that decides whether a path is in normal form, and leaf and parent.
  \<^item> \<open>Posix\<close>: \<open>kits/kernel/syscalls.c\<close>, the file calls of the kernel emulation, over the calls of the operating system. These are the
    record \<open>posix\<close>, a parameter; \<open>documented_calls\<close> is what the manuals say of descriptors, and \<open>tiny\<close> an instance. \<open>holds\<close> accounts for
    the descriptor that a piece of code has beside those of everybody else.
  \<^item> \<open>Entry\<close>, \<open>Node\<close>: entries of directories with the search for one and the links on the way (\<open>Entry.cpp\<close>, \<open>Statable.cpp\<close>), and what there is
    of nodes, files and directories (\<open>Node.cpp\<close>, \<open>File.cpp\<close>, \<open>Directory.cpp\<close>). Entries own their descriptors, and none is lost but by
    \<open>_kern_open_parent_dir\<close>; a relative path without a slash at its end never works; the comparison of two nodes closes both. \<open>_kern_read_dir\<close> reads beyond a variable whenever there is an entry to read, so that a program that
    comes to this point, as the search for \<open>.\<close> and for a parent does, has no defined result.
  \<^item> \<open>Float32\<close>, \<open>Rect\<close>: the single precision numbers of the interface kit, \<open>Point.cpp\<close>, \<open>Rect.cpp\<close> and their headers. A
    rectangle denotes the set of its points.
  \<^item> \<open>Region\<close>: \<open>kits/interface/Region.cpp\<close> over the region of the Skia library, which is a parameter with its
    documented behaviour, within the coordinates that it supports, as the hypothesis \<open>documented\<close>. The calls on a number of regions refine
    expressions on sets of pixels; the witness instantiates the library with lists of pixels.
  \<^item> \<open>DrawState\<close>: the stack of drawing states of a view (\<open>BView::impl\<close> in \<open>kits/interface/View.cpp\<close>).
  \<^item> \<open>View\<close>, \<open>ViewChildren\<close>, \<open>ViewTree\<close>: the rest of \<open>BView\<close> without window. The siblings are doubly linked; \<open>family\<close>
    relates the links to lists of children, which \<open>AddChild\<close> and \<open>RemoveChild\<close> edit. \<open>ViewTree\<close> has the
    search by name and the coordinate systems, and what happens when the tree becomes a cycle.
  \<^item> \<open>MessageRect\<close>: rectangles and points in messages, by the bits of their floats.
  \<^item> \<open>WindowView\<close>, \<open>WindowTree\<close>: views in a window: attaching and detaching trees of views, focus, event masks, pulse
    and invalidation (\<open>View.cpp\<close>, \<open>Window.cpp\<close>), over the store of \<open>Looper\<close>. \<open>gui_ok\<close> ties views, handlers, looper
    and focus together.
  \<^item> \<open>ViewUpdate\<close>: what a view does with an update message (\<open>BView::_update\<close>, \<open>_draw\<close> and \<open>MessageReceived\<close> in \<open>View.cpp\<close>):
    the waiting updates are merged, and the tree below the view is drawn on a canvas, a list of calls whose
    meaning is the sequence of clips. Lemmas relate the calls to the set of pixels that each view may draw on.
  \<^item> \<open>Shortcut\<close>: the shortcuts of a window (\<open>Window.cpp\<close>): the table of pointers refines a map from keys to bindings.
  \<^item> \<open>Pointer\<close>: the mouse messages from \<open>pointer_motion\<close> and \<open>pointer_button\<close> to the views (\<open>BWindow::DispatchMessage\<close>)
    and the pulses. The locale \<open>preorder_walk\<close> is the contract of a loop that visits a tree of views; both loops
    interpret it. Over a sequence of movements every view is entered and left in turn.
  \<^item> \<open>FloatOps\<close>, \<open>WindowFrame\<close>: multiplication, division and rounding of floats; the size of a window: limits, resizing,
    zooming, the buffer, the damaged part, showing and hiding (\<open>Window.cpp\<close>). \<open>frame_of\<close> states the size of image
    and view on top, which every resize keeps equal.
  \<^item> \<open>Menu\<close>, \<open>MenuLayout\<close>, \<open>MenuItems\<close>, \<open>MenuRadio\<close>: menus and their items (\<open>Menu.cpp\<close>, \<open>MenuItem.cpp\<close>): a menu is a view
    with a list of items, an item is an invoker. A tree of nodes describes a hierarchy of menus. The searches, the triggers, the
    layout of the items, adding, installing and removing items, and the marks of a menu in radio mode. The locale
    \<open>menu_walk\<close> is the contract of a walk through such a tree; installing and uninstalling interpret it.
  \<^item> \<open>Control\<close>: controls, buttons, check boxes and radio buttons (\<open>Control.cpp\<close>, \<open>Button.cpp\<close>, \<open>CheckBox.cpp\<close>, \<open>RadioButton.cpp\<close>)
    and the default button of a window. A control is a record beside its view; radio buttons of a parent exclude each other.
  \<^item> \<open>FloatError\<close>, \<open>Slider\<close>: \<open>BSlider\<close> (\<open>Slider.cpp\<close>): its value, its limits and the place of its thumb. The lemmas on the error of a
    rounded float show that the place of the thumb leads back to the value.
  \<^item> \<open>Semaphore\<close>, \<open>RwLock\<close>: the semaphores and the lock for readers and writers of the kernel emulation (\<open>sem.c\<close>, \<open>rwlock.c\<close>).
    Both are state machines over any number of threads; a step is one access to the shared word or one call of the kernel.
    The invariants count units and readers; two runs show wake-ups that get lost.

  Bounds and fuel. The recursion of \<open>_attach\<close> and \<open>_detach\<close> gets fuel for nested calls and steps of the loops together;
  the theorems show that twice the number of the views is enough. The loops of a looper get fuel
  for the messages that they take; the length of the queue and one more is enough. Floats are exact rational
  numbers rounded to 24 bits, so the theorems about moving rectangles state the range where they are exact. The search for an entry has no
  fuel: each link on the way counts down from \<open>B_MAX_SYMLINKS\<close>, and the theorem is that it returns.

  Not modelled. What draws (it calls the canvas of Skia), what talks to Wayland, fontconfig, D-Bus or the
  operating system, the ports, threads, areas and attributes of the kernel emulation, the functions that
  only call \<open>debugger()\<close>, archiving of views, the services and the test programs. What the code needs of them
  (results of semaphores and ports, the directory entries behind a path) are arguments of the definitions.

  An entry that is set to a reference shares the descriptor with it, so that the sequences of operations in \<open>Entry\<close> leave this operation out.

  Left to do: the keys and the title of a window; tabs, boxes and text views.
\<close>

end
